(* ===== verification/Prelude.thy ===== *)
theory Prelude
  imports Main "HOL-Library.Word" "HOL-Library.Monad_Syntax"
begin

text \<open>
  Shared vocabulary of the development.

  \<^item> Machine types: \<open>byte\<close>, \<open>u16\<close>, \<open>u32\<close>, \<open>u64\<close> are words of the width the C++ code uses,
    \<open>addr\<close> is the address of an object, and a nullable pointer is an \<open>addr option\<close>
    (\<open>None\<close> is \<open>nullptr\<close>).
  \<^item> Undefined behaviour: a computation that may dereference a null or dangling pointer or
    index an array out of range has an option type and \<open>None\<close> is the undefined outcome; the
    \<open>do\<close> blocks of \<open>Monad_Syntax\<close> sequence such computations. A C++ exception is a value.
  \<^item> Byte regions: \<open>read_at\<close> and \<open>write_at\<close> are the \<open>memcpy\<close> of a fixed number of bytes out of
    and into an array; \<open>le_bytes\<close> and \<open>le_word\<close> are the little-endian object representation of
    an unsigned integer, and \<open>bswap\<close> the compiler's byte swap.
  \<^item> Collections: \<open>wire_simps\<close> evaluates reads of written byte regions, \<open>ub_simps\<close> unfolds
    the option-valued memory accesses.
\<close>

unbundle bit_operations_syntax

named_theorems wire_simps "evaluation of reads from byte buffers"
named_theorems ub_simps "unfolding of accesses that may be undefined"

type_synonym byte = "8 word"
type_synonym u16 = "16 word"
type_synonym u32 = "32 word"
type_synonym u64 = "64 word"
type_synonym addr = nat

section \<open>Options\<close>

lemma bind_cong_ub [fundef_cong]:
  "x = x' \<Longrightarrow> (\<And>a. x' = Some a \<Longrightarrow> f a = f' a) \<Longrightarrow> Option.bind x f = Option.bind x' f'"
  by (cases x') auto

lemma bind_Some_iff [ub_simps]:
  "Option.bind x f = Some y \<longleftrightarrow> (\<exists>a. x = Some a \<and> f a = Some y)"
  by (cases x) auto

lemma bind_SomeI: "x = Some a \<Longrightarrow> f a = Some y \<Longrightarrow> Option.bind x f = Some y"
  by simp

definition head_opt :: "'a list \<Rightarrow> 'a option" where
  "head_opt xs = (case xs of [] \<Rightarrow> None | x # _ \<Rightarrow> Some x)"

definition last_opt :: "'a list \<Rightarrow> 'a option" where
  "last_opt xs = (if xs = [] then None else Some (last xs))"

lemma head_opt_simps [simp]:
  "head_opt [] = None"
  "head_opt (x # xs) = Some x"
  "head_opt (xs @ [x]) = Some (case xs of [] \<Rightarrow> x | y # _ \<Rightarrow> y)"
  by (auto simp: head_opt_def split: list.splits)

lemma head_opt_None [simp]: "head_opt xs = None \<longleftrightarrow> xs = []"
  by (simp add: head_opt_def split: list.splits)

lemma head_opt_Some_iff: "head_opt xs = Some x \<longleftrightarrow> (\<exists>ys. xs = x # ys)"
  by (auto simp: head_opt_def split: list.splits)

lemma head_opt_append: "head_opt (xs @ ys) = (if xs = [] then head_opt ys else head_opt xs)"
  by (cases xs) auto

lemma last_opt_simps [simp]:
  "last_opt [] = None"
  "last_opt (xs @ [x]) = Some x"
  "last_opt [x] = Some x"
  "last_opt (x # y # ys) = last_opt (y # ys)"
  by (auto simp: last_opt_def)

lemma last_opt_None [simp]: "last_opt xs = None \<longleftrightarrow> xs = []"
  by (simp add: last_opt_def)

lemma last_opt_Some_iff: "last_opt xs = Some x \<longleftrightarrow> (\<exists>ys. xs = ys @ [x])"
  by (metis append_butlast_last_id last_opt_def last_opt_simps(2) option.distinct(1) option.inject)

lemma last_opt_append: "last_opt (xs @ ys) = (if ys = [] then last_opt xs else last_opt ys)"
  by (auto simp: last_opt_def)

section \<open>Byte regions\<close>

definition read_at :: "nat \<Rightarrow> nat \<Rightarrow> 'a list \<Rightarrow> 'a list" where
  "read_at off n buf = take n (drop off buf)"

definition write_at :: "nat \<Rightarrow> 'a list \<Rightarrow> 'a list \<Rightarrow> 'a list" where
  "write_at off bs buf = take off buf @ bs @ drop (off + length bs) buf"

lemma length_write_at [simp, wire_simps]:
  "off + length bs \<le> length buf \<Longrightarrow> length (write_at off bs buf) = length buf"
  by (simp add: write_at_def)

lemma length_read_at [simp, wire_simps]:
  "off + n \<le> length buf \<Longrightarrow> length (read_at off n buf) = n"
  by (simp add: read_at_def)

lemma read_write_same [wire_simps]:
  "off + length bs \<le> length buf \<Longrightarrow> n = length bs \<Longrightarrow> read_at off n (write_at off bs buf) = bs"
  by (simp add: read_at_def write_at_def)

lemma read_write_before [wire_simps]:
  "off + n \<le> off' \<Longrightarrow> off' + length bs \<le> length buf \<Longrightarrow>
   read_at off n (write_at off' bs buf) = read_at off n buf"
  by (auto simp: read_at_def write_at_def drop_take min_def not_le)

lemma read_write_after [wire_simps]:
  "off' + length bs \<le> off \<Longrightarrow> off' + length bs \<le> length buf \<Longrightarrow>
   read_at off n (write_at off' bs buf) = read_at off n buf"
  by (simp add: read_at_def write_at_def)

lemma read_at_take_cong:
  "take w p = take w q \<Longrightarrow> off + n \<le> w \<Longrightarrow> read_at off n p = read_at off n q"
proof -
  assume eq: "take w p = take w q" and le: "off + n \<le> w"
  have "read_at off n r = read_at off n (take w r)" for r :: "'a list"
    using le by (simp add: read_at_def drop_take min_def)
  with eq show ?thesis by metis
qed

lemma read_at_append:
  "off + n \<le> length p \<Longrightarrow> read_at off n (p @ q) = read_at off n p"
  by (simp add: read_at_def)

lemma read_at_write_0:
  "off + n \<le> length bs \<Longrightarrow> read_at off n (write_at 0 bs buf) = read_at off n bs"
  by (simp add: write_at_def read_at_append)

section \<open>Object representation of unsigned integers\<close>

primrec le_word :: "byte list \<Rightarrow> 'a::len word" where
  "le_word [] = 0"
| "le_word (b # bs) = or (ucast b) (push_bit 8 (le_word bs))"

definition le_bytes :: "'a::len word \<Rightarrow> byte list" where
  "le_bytes w = map (\<lambda>i. ucast (drop_bit (8 * i) w)) [0..<LENGTH('a) div 8]"

definition bswap :: "'a::len word \<Rightarrow> 'a word" where
  "bswap w = le_word (rev (le_bytes w))"

lemma length_le_bytes: "length (le_bytes (w :: 'a::len word)) = LENGTH('a) div 8"
  by (simp add: le_bytes_def)

lemma length_le_bytes_num [simp, wire_simps]:
  "length (le_bytes (a :: u16)) = 2"
  "length (le_bytes (b :: u32)) = 4"
  "length (le_bytes (c :: u64)) = 8"
  by (simp_all add: le_bytes_def)

lemma bit_le_word:
  "bit (le_word bs :: 'a::len word) i \<longleftrightarrow>
     i < LENGTH('a) \<and> i div 8 < length bs \<and> bit (bs ! (i div 8)) (i mod 8)"
proof (induction bs arbitrary: i)
  case Nil
  then show ?case by simp
next
  case (Cons b bs)
  show ?case
  proof (cases "i < 8")
    case True
    then show ?thesis
      by (auto simp: bit_or_iff bit_ucast_iff bit_push_bit_iff dest: bit_imp_le_length)
  next
    case False
    then obtain j where j: "i = j + 8" by (metis add.commute le_Suc_ex not_less)
    then have dj: "(j + 8) div 8 = Suc (j div 8)" by simp
    have "\<not> bit b i" using False bit_imp_le_length [of b i] by auto
    with j show ?thesis
      by (auto simp: bit_or_iff bit_ucast_iff bit_push_bit_iff Cons.IH dj simp del: div_add_self2 dest: bit_imp_le_length)
  qed
qed

lemma le_word_le_bytes:
  assumes "8 dvd LENGTH('a)"
  shows "le_word (le_bytes (w :: 'a::len word)) = w"
proof (rule bit_word_eqI)
  fix i assume i: "i < LENGTH('a)"
  from assms have len: "LENGTH('a) = 8 * (LENGTH('a) div 8)" by simp
  with i have div: "i div 8 < LENGTH('a) div 8" by (simp add: less_mult_imp_div_less)
  then have nth: "le_bytes w ! (i div 8) = ucast (drop_bit (8 * (i div 8)) w)"
    by (simp add: le_bytes_def)
  show "bit (le_word (le_bytes w) :: 'a word) i = bit w i"
    using i div by (simp add: bit_le_word nth length_le_bytes bit_ucast_iff bit_drop_bit_eq)
qed

lemma le_bytes_le_word:
  assumes "8 * length bs = LENGTH('a)"
  shows "le_bytes (le_word bs :: 'a::len word) = bs"
proof (rule nth_equalityI)
  have len: "LENGTH('a) div 8 = length bs" using assms by (metis nonzero_mult_div_cancel_left zero_neq_numeral)
  then show "length (le_bytes (le_word bs :: 'a word)) = length bs" by (simp add: length_le_bytes)
  fix i assume "i < length (le_bytes (le_word bs :: 'a word))"
  then have i: "i < length bs" using len by (simp add: length_le_bytes)
  then have nth: "le_bytes (le_word bs :: 'a word) ! i = ucast (drop_bit (8 * i) (le_word bs :: 'a word))"
    by (simp add: le_bytes_def len)
  show "le_bytes (le_word bs :: 'a word) ! i = bs ! i"
  proof (rule bit_word_eqI)
    fix n assume n: "n < LENGTH(8)"
    then have "8 * i + n < LENGTH('a)" using i assms by simp
    moreover have "(8 * i + n) div 8 = i" "(8 * i + n) mod 8 = n" using n by simp_all
    ultimately show "bit (le_bytes (le_word bs :: 'a word) ! i) n = bit (bs ! i) n"
      using n i by (simp add: nth bit_ucast_iff bit_drop_bit_eq bit_le_word)
  qed
qed

lemma bswap_bswap:
  assumes "8 dvd LENGTH('a)"
  shows "bswap (bswap (w :: 'a::len word)) = w"
proof -
  have "8 * length (rev (le_bytes w)) = LENGTH('a)" using assms by (simp add: length_le_bytes)
  then have "le_bytes (bswap w) = rev (le_bytes w)"
    unfolding bswap_def by (rule le_bytes_le_word)
  then show ?thesis using assms by (simp add: bswap_def [of "bswap w"] le_word_le_bytes)
qed

lemma le_bytes_bswap:
  assumes "8 dvd LENGTH('a)"
  shows "le_bytes (bswap (w :: 'a::len word)) = rev (le_bytes w)"
  using assms by (simp add: bswap_def le_bytes_le_word length_le_bytes)

lemma le_word_le_bytes_num [simp, wire_simps]:
  "le_word (le_bytes (a :: u16)) = a"
  "le_word (le_bytes (b :: u32)) = b"
  "le_word (le_bytes (c :: u64)) = c"
  by (simp_all add: le_word_le_bytes)

lemma bswap_bswap_num [simp, wire_simps]:
  "bswap (bswap (a :: u16)) = a"
  "bswap (bswap (b :: u32)) = b"
  "bswap (bswap (c :: u64)) = c"
  by (simp_all add: bswap_bswap)

section \<open>Unsigned arithmetic at its width\<close>

lemma unat_bound: "unat (w :: 'a::len word) < 2 ^ LENGTH('a)"
  by (rule unsigned_less)

lemma unat_Suc_bound:
  assumes "(x :: 'a::len word) < y"
  shows "unat (x + 1) = Suc (unat x)"
proof -
  have "unat x + 1 < 2 ^ LENGTH('a)"
    using assms unat_bound [of y] unfolding word_less_nat_alt by linarith
  then show ?thesis by (simp add: unat_word_ariths take_bit_nat_eq_self)
qed

lemma unat_pred: "(x :: 'a::len word) \<noteq> 0 \<Longrightarrow> unat (x - 1) = unat x - 1"
  by (rule unat_minus_one)

lemma unat_sub_le: "(y :: 'a::len word) \<le> x \<Longrightarrow> unat (x - y) = unat x - unat y"
  by (rule unat_sub)

lemma unat_of_nat_small: "n < 2 ^ LENGTH('a) \<Longrightarrow> unat (of_nat n :: 'a::len word) = n"
  by (simp add: unat_of_nat take_bit_nat_eq_self)

lemma unat_ucast_32_64 [simp]: "unat (ucast (x :: u32) :: u64) = unat x"
proof -
  have "unat x < 2 ^ 64" using unat_bound [of x] by simp
  then show ?thesis by (simp add: unsigned_ucast_eq take_bit_nat_eq_self)
qed

lemma ucast_32_64_le [simp]: "(ucast (x :: u32) :: u64) \<le> ucast (y :: u32) \<longleftrightarrow> x \<le> y"
  by (simp add: word_le_nat_alt)

lemma ucast_32_64_sub: "y \<le> x \<Longrightarrow> (ucast (x :: u32) - ucast y :: u64) = ucast (x - y)"
  by (simp add: word_unat_eq_iff unat_sub_le)

lemma ucast_32_64_32 [simp]: "ucast (ucast (x :: u32) :: u64) = x"
  by (simp add: unsigned_ucast_eq take_bit_word_eq_self)

lemma int_unat_less: "unat (a :: 64 word) < 2 ^ 63 \<Longrightarrow> uint a < 2 ^ 63"
  using of_nat_less_iff [of "unat a" "2 ^ 63", where 'a = int] by (simp del: of_nat_less_iff)

lemma sint_small:
  assumes "unat (a :: 64 word) < 2 ^ 63"
  shows "sint a = int (unat a)"
proof -
  from assms
  have lt: "uint a < 2^63" by (rule int_unat_less)
  have "sint a = signed_take_bit 63 (uint a)" by (simp add: sint_uint)
  also have "... = uint a" using lt by (intro signed_take_bit_int_eq_self) (auto intro: order_trans [OF _ uint_nonnegative])
  finally show ?thesis by simp
qed

lemma sint_diff:
  assumes a: "unat (a :: 64 word) < 2 ^ 63" and b: "unat b < 2 ^ 63"
  shows "sint (a - b) = int (unat a) - int (unat b)"
proof -
  have bd: "- (2 ^ 63) \<le> uint a - uint b" "uint a - uint b < 2 ^ 63"
    using int_unat_less [OF a] int_unat_less [OF b] uint_nonnegative [of a] uint_nonnegative [of b] by linarith+
  have "sint (a - b) = signed_take_bit 63 (sint a - sint b)" by (simp add: sint_word_ariths)
  also have "\<dots> = signed_take_bit 63 (uint a - uint b)" using sint_small[OF a] sint_small[OF b] by simp
  also have "\<dots> = uint a - uint b" by (rule signed_take_bit_int_eq_self) (use bd in simp_all)
  finally show ?thesis by simp
qed

end
