(* ===== verification/Messages.thy ===== *)
theory Messages
  imports Prelude
begin

text \<open>
  The OUCH 5.0 codec of \<open>4_order_book_proj/src/messages.hpp\<close> and \<open>message.cpp\<close>.

  \<^item> The \<open>detail\<close> helpers load and store integers, characters and padded strings at an offset of a
    byte buffer. The host is little-endian, as the code's unconditional byte swap assumes.
  \<^item> A view wraps a pointer into a wire buffer; it is modelled by the bytes from that pointer on,
    and every accessor \<open>View_Field\<close> reads its bytes at the field's offset.
  \<^item> A builder owns a zeroed array of \<open>WIRE_SIZE\<close> bytes; every setter \<open>Builder_Field\<close> writes at the
    field's offset and returns the builder, so a C++ call chain is a sequence of \<open>let\<close> bindings.
  \<^item> A C++ enumeration with underlying type \<open>char\<close> can hold every \<open>char\<close> (the views cast raw bytes to
    it), so an enumeration type is the byte type with the enumerators as constants.

  The lemmas show that every load returns what the store at its offset wrote and no other field
  changes, that a view reads only the first \<open>WIRE_SIZE\<close> bytes, and that \<open>decode\<close> recognises each
  builder's output.
\<close>

section \<open>Enumerations\<close>

type_synonym SideEnum = byte

definition SideEnum_B :: SideEnum where "SideEnum_B = 66" \<comment> \<open>'B'\<close>
definition SideEnum_S :: SideEnum where "SideEnum_S = 83" \<comment> \<open>'S'\<close>
definition SideEnum_T :: SideEnum where "SideEnum_T = 84" \<comment> \<open>'T'\<close>
definition SideEnum_E :: SideEnum where "SideEnum_E = 69" \<comment> \<open>'E'\<close>

type_synonym TimeInForceEnum = byte

definition TimeInForceEnum_Day :: TimeInForceEnum where "TimeInForceEnum_Day = 48" \<comment> \<open>'0'\<close>
definition TimeInForceEnum_IOC :: TimeInForceEnum where "TimeInForceEnum_IOC = 51" \<comment> \<open>'3'\<close>
definition TimeInForceEnum_FOK :: TimeInForceEnum where "TimeInForceEnum_FOK = 53" \<comment> \<open>'5'\<close>
definition TimeInForceEnum_GTC :: TimeInForceEnum where "TimeInForceEnum_GTC = 54" \<comment> \<open>'6'\<close>
definition TimeInForceEnum_E :: TimeInForceEnum where "TimeInForceEnum_E = 69" \<comment> \<open>'E'\<close>

type_synonym DisplayEnum = byte

definition DisplayEnum_Y :: DisplayEnum where "DisplayEnum_Y = 89" \<comment> \<open>'Y'\<close>
definition DisplayEnum_N :: DisplayEnum where "DisplayEnum_N = 78" \<comment> \<open>'N'\<close>
definition DisplayEnum_A :: DisplayEnum where "DisplayEnum_A = 65" \<comment> \<open>'A'\<close>

type_synonym CapacityEnum = byte

definition CapacityEnum_A :: CapacityEnum where "CapacityEnum_A = 65" \<comment> \<open>'A'\<close>
definition CapacityEnum_P :: CapacityEnum where "CapacityEnum_P = 80" \<comment> \<open>'P'\<close>
definition CapacityEnum_R :: CapacityEnum where "CapacityEnum_R = 82" \<comment> \<open>'R'\<close>
definition CapacityEnum_O :: CapacityEnum where "CapacityEnum_O = 79" \<comment> \<open>'O'\<close>

type_synonym InterMarketSweepEligEnum = byte

definition InterMarketSweepEligEnum_Y :: InterMarketSweepEligEnum where "InterMarketSweepEligEnum_Y = 89" \<comment> \<open>'Y'\<close>
definition InterMarketSweepEligEnum_N :: InterMarketSweepEligEnum where "InterMarketSweepEligEnum_N = 78" \<comment> \<open>'N'\<close>

type_synonym CrossTypeEnum = byte

definition CrossTypeEnum_N :: CrossTypeEnum where "CrossTypeEnum_N = 78" \<comment> \<open>'N'\<close>
definition CrossTypeEnum_O :: CrossTypeEnum where "CrossTypeEnum_O = 79" \<comment> \<open>'O'\<close>
definition CrossTypeEnum_C :: CrossTypeEnum where "CrossTypeEnum_C = 67" \<comment> \<open>'C'\<close>
definition CrossTypeEnum_H :: CrossTypeEnum where "CrossTypeEnum_H = 72" \<comment> \<open>'H'\<close>
definition CrossTypeEnum_S :: CrossTypeEnum where "CrossTypeEnum_S = 83" \<comment> \<open>'S'\<close>
definition CrossTypeEnum_R :: CrossTypeEnum where "CrossTypeEnum_R = 82" \<comment> \<open>'R'\<close>
definition CrossTypeEnum_E :: CrossTypeEnum where "CrossTypeEnum_E = 69" \<comment> \<open>'E'\<close>
definition CrossTypeEnum_A :: CrossTypeEnum where "CrossTypeEnum_A = 65" \<comment> \<open>'A'\<close>

type_synonym OrderStateEnum = byte

definition OrderStateEnum_L :: OrderStateEnum where "OrderStateEnum_L = 76" \<comment> \<open>'L'\<close>
definition OrderStateEnum_D :: OrderStateEnum where "OrderStateEnum_D = 68" \<comment> \<open>'D'\<close>

lemmas SideEnum_defs = SideEnum_B_def SideEnum_S_def SideEnum_T_def SideEnum_E_def

section \<open>Loads and stores\<close>

definition load_be16 :: "byte list \<Rightarrow> nat \<Rightarrow> u16" where
  "load_be16 p off = bswap (le_word (read_at off 2 p))"

definition load_be32 :: "byte list \<Rightarrow> nat \<Rightarrow> u32" where
  "load_be32 p off = bswap (le_word (read_at off 4 p))"

definition load_be64 :: "byte list \<Rightarrow> nat \<Rightarrow> u64" where
  "load_be64 p off = bswap (le_word (read_at off 8 p))"

definition load_char :: "byte list \<Rightarrow> nat \<Rightarrow> byte" where
  "load_char p off = p ! off"

definition load_str :: "byte list \<Rightarrow> nat \<Rightarrow> nat \<Rightarrow> byte list" where
  "load_str p off n = read_at off n p"

definition store_be16 :: "byte list \<Rightarrow> nat \<Rightarrow> u16 \<Rightarrow> byte list" where
  "store_be16 p off v = (let be = bswap v in write_at off (le_bytes be) p)"

definition store_be32 :: "byte list \<Rightarrow> nat \<Rightarrow> u32 \<Rightarrow> byte list" where
  "store_be32 p off v = (let be = bswap v in write_at off (le_bytes be) p)"

definition store_be64 :: "byte list \<Rightarrow> nat \<Rightarrow> u64 \<Rightarrow> byte list" where
  "store_be64 p off v = (let be = bswap v in write_at off (le_bytes be) p)"

definition store_char :: "byte list \<Rightarrow> nat \<Rightarrow> byte \<Rightarrow> byte list" where
  "store_char p off c = p[off := c]"

definition store_str :: "byte list \<Rightarrow> nat \<Rightarrow> byte list \<Rightarrow> nat \<Rightarrow> byte list" where
  "store_str p off s n =
     (let copy_n = min (length s) n;
          p' = write_at off (take copy_n s) p
      in if copy_n < n then write_at (off + copy_n) (replicate (n - copy_n) 32) p' else p')"

section \<open>Views\<close>

subsection \<open>EnterRequestView\<close>

definition EnterRequestView_TYPE :: byte where
  "EnterRequestView_TYPE = 79" \<comment> \<open>'O'\<close>

definition EnterRequestView_WIRE_SIZE :: nat where
  "EnterRequestView_WIRE_SIZE = 47"

definition EnterRequestView_data :: "byte list \<Rightarrow> byte list" where
  "EnterRequestView_data p = p"

definition EnterRequestView_UserRefNum :: "byte list \<Rightarrow> u32" where
  "EnterRequestView_UserRefNum p = load_be32 p 1"

definition EnterRequestView_Side :: "byte list \<Rightarrow> SideEnum" where
  "EnterRequestView_Side p = load_char p 5"

definition EnterRequestView_Quantity :: "byte list \<Rightarrow> u32" where
  "EnterRequestView_Quantity p = load_be32 p 6"

definition EnterRequestView_Symbol :: "byte list \<Rightarrow> byte list" where
  "EnterRequestView_Symbol p = load_str p 10 8"

definition EnterRequestView_Price :: "byte list \<Rightarrow> u64" where
  "EnterRequestView_Price p = load_be64 p 18"

definition EnterRequestView_TimeInForce :: "byte list \<Rightarrow> TimeInForceEnum" where
  "EnterRequestView_TimeInForce p = load_char p 26"

definition EnterRequestView_Display :: "byte list \<Rightarrow> DisplayEnum" where
  "EnterRequestView_Display p = load_char p 27"

definition EnterRequestView_Capacity :: "byte list \<Rightarrow> CapacityEnum" where
  "EnterRequestView_Capacity p = load_char p 28"

definition EnterRequestView_InterMarketSweepElig :: "byte list \<Rightarrow> InterMarketSweepEligEnum" where
  "EnterRequestView_InterMarketSweepElig p = load_char p 29"

definition EnterRequestView_CrossType :: "byte list \<Rightarrow> CrossTypeEnum" where
  "EnterRequestView_CrossType p = load_char p 30"

definition EnterRequestView_ClOrdID :: "byte list \<Rightarrow> byte list" where
  "EnterRequestView_ClOrdID p = load_str p 31 14"

definition EnterRequestView_AppendageLength :: "byte list \<Rightarrow> u16" where
  "EnterRequestView_AppendageLength p = load_be16 p 45"

subsection \<open>CancelRequestView\<close>

definition CancelRequestView_TYPE :: byte where
  "CancelRequestView_TYPE = 88" \<comment> \<open>'X'\<close>

definition CancelRequestView_WIRE_SIZE :: nat where
  "CancelRequestView_WIRE_SIZE = 9"

definition CancelRequestView_UserRefNum :: "byte list \<Rightarrow> u32" where
  "CancelRequestView_UserRefNum p = load_be32 p 1"

definition CancelRequestView_Quantity :: "byte list \<Rightarrow> u32" where
  "CancelRequestView_Quantity p = load_be32 p 5"

subsection \<open>AcceptResponseView\<close>

definition AcceptResponseView_TYPE :: byte where
  "AcceptResponseView_TYPE = 65" \<comment> \<open>'A'\<close>

definition AcceptResponseView_WIRE_SIZE :: nat where
  "AcceptResponseView_WIRE_SIZE = 64"

definition AcceptResponseView_Timestamp :: "byte list \<Rightarrow> u64" where
  "AcceptResponseView_Timestamp p = load_be64 p 1"

definition AcceptResponseView_UserRefNum :: "byte list \<Rightarrow> u32" where
  "AcceptResponseView_UserRefNum p = load_be32 p 9"

definition AcceptResponseView_Side :: "byte list \<Rightarrow> SideEnum" where
  "AcceptResponseView_Side p = load_char p 13"

definition AcceptResponseView_Quantity :: "byte list \<Rightarrow> u32" where
  "AcceptResponseView_Quantity p = load_be32 p 14"

definition AcceptResponseView_Symbol :: "byte list \<Rightarrow> byte list" where
  "AcceptResponseView_Symbol p = load_str p 18 8"

definition AcceptResponseView_Price :: "byte list \<Rightarrow> u64" where
  "AcceptResponseView_Price p = load_be64 p 26"

definition AcceptResponseView_TimeInForce :: "byte list \<Rightarrow> TimeInForceEnum" where
  "AcceptResponseView_TimeInForce p = load_char p 34"

definition AcceptResponseView_Display :: "byte list \<Rightarrow> DisplayEnum" where
  "AcceptResponseView_Display p = load_char p 35"

definition AcceptResponseView_OrderReferenceNumber :: "byte list \<Rightarrow> u64" where
  "AcceptResponseView_OrderReferenceNumber p = load_be64 p 36"

definition AcceptResponseView_Capacity :: "byte list \<Rightarrow> byte" where
  "AcceptResponseView_Capacity p = load_char p 44"

definition AcceptResponseView_InterMarketSweepElig :: "byte list \<Rightarrow> InterMarketSweepEligEnum" where
  "AcceptResponseView_InterMarketSweepElig p = load_char p 45"

definition AcceptResponseView_CrossType :: "byte list \<Rightarrow> CrossTypeEnum" where
  "AcceptResponseView_CrossType p = load_char p 46"

definition AcceptResponseView_OrderState :: "byte list \<Rightarrow> OrderStateEnum" where
  "AcceptResponseView_OrderState p = load_char p 47"

definition AcceptResponseView_ClOrdID :: "byte list \<Rightarrow> byte list" where
  "AcceptResponseView_ClOrdID p = load_str p 48 14"

definition AcceptResponseView_AppendageLength :: "byte list \<Rightarrow> u16" where
  "AcceptResponseView_AppendageLength p = load_be16 p 62"

subsection \<open>CancelledResponseView\<close>

definition CancelledResponseView_TYPE :: byte where
  "CancelledResponseView_TYPE = 67" \<comment> \<open>'C'\<close>

definition CancelledResponseView_WIRE_SIZE :: nat where
  "CancelledResponseView_WIRE_SIZE = 18"

definition CancelledResponseView_Timestamp :: "byte list \<Rightarrow> u64" where
  "CancelledResponseView_Timestamp p = load_be64 p 1"

definition CancelledResponseView_UserRefNum :: "byte list \<Rightarrow> u32" where
  "CancelledResponseView_UserRefNum p = load_be32 p 9"

definition CancelledResponseView_Quantity :: "byte list \<Rightarrow> u32" where
  "CancelledResponseView_Quantity p = load_be32 p 13"

definition CancelledResponseView_Reason :: "byte list \<Rightarrow> byte" where
  "CancelledResponseView_Reason p = load_char p 17"

subsection \<open>CancelRejectResponseView\<close>

definition CancelRejectResponseView_TYPE :: byte where
  "CancelRejectResponseView_TYPE = 73" \<comment> \<open>'I'\<close>

definition CancelRejectResponseView_WIRE_SIZE :: nat where
  "CancelRejectResponseView_WIRE_SIZE = 15"

definition CancelRejectResponseView_Timestamp :: "byte list \<Rightarrow> u64" where
  "CancelRejectResponseView_Timestamp p = load_be64 p 1"

definition CancelRejectResponseView_UserRefNum :: "byte list \<Rightarrow> u32" where
  "CancelRejectResponseView_UserRefNum p = load_be32 p 9"

definition CancelRejectResponseView_AppendageLength :: "byte list \<Rightarrow> u16" where
  "CancelRejectResponseView_AppendageLength p = load_be16 p 13"

subsection \<open>ExecutedResponseView\<close>

definition ExecutedResponseView_TYPE :: byte where
  "ExecutedResponseView_TYPE = 69" \<comment> \<open>'E'\<close>

definition ExecutedResponseView_WIRE_SIZE :: nat where
  "ExecutedResponseView_WIRE_SIZE = 36"

definition ExecutedResponseView_Timestamp :: "byte list \<Rightarrow> u64" where
  "ExecutedResponseView_Timestamp p = load_be64 p 1"

definition ExecutedResponseView_UserRefNum :: "byte list \<Rightarrow> u32" where
  "ExecutedResponseView_UserRefNum p = load_be32 p 9"

definition ExecutedResponseView_Quantity :: "byte list \<Rightarrow> u32" where
  "ExecutedResponseView_Quantity p = load_be32 p 13"

definition ExecutedResponseView_Price :: "byte list \<Rightarrow> u64" where
  "ExecutedResponseView_Price p = load_be64 p 17"

definition ExecutedResponseView_LiquidityFlag :: "byte list \<Rightarrow> byte" where
  "ExecutedResponseView_LiquidityFlag p = load_char p 25"

definition ExecutedResponseView_MatchNumber :: "byte list \<Rightarrow> u64" where
  "ExecutedResponseView_MatchNumber p = load_be64 p 26"

definition ExecutedResponseView_AppendageLength :: "byte list \<Rightarrow> u16" where
  "ExecutedResponseView_AppendageLength p = load_be16 p 34"


section \<open>Builders\<close>

subsection \<open>EnterRequestBuilder\<close>

definition EnterRequestBuilder :: "byte list" where
  "EnterRequestBuilder = store_char (replicate EnterRequestView_WIRE_SIZE 0) 0 EnterRequestView_TYPE"

definition EnterRequestBuilder_UserRefNum :: "byte list \<Rightarrow> u32 \<Rightarrow> byte list" where
  "EnterRequestBuilder_UserRefNum b v = store_be32 b 1 v"

definition EnterRequestBuilder_Side :: "byte list \<Rightarrow> SideEnum \<Rightarrow> byte list" where
  "EnterRequestBuilder_Side b v = store_char b 5 v"

definition EnterRequestBuilder_Quantity :: "byte list \<Rightarrow> u32 \<Rightarrow> byte list" where
  "EnterRequestBuilder_Quantity b v = store_be32 b 6 v"

definition EnterRequestBuilder_Symbol :: "byte list \<Rightarrow> byte list \<Rightarrow> byte list" where
  "EnterRequestBuilder_Symbol b v = store_str b 10 v 8"

definition EnterRequestBuilder_Price :: "byte list \<Rightarrow> u64 \<Rightarrow> byte list" where
  "EnterRequestBuilder_Price b v = store_be64 b 18 v"

definition EnterRequestBuilder_TimeInForce :: "byte list \<Rightarrow> TimeInForceEnum \<Rightarrow> byte list" where
  "EnterRequestBuilder_TimeInForce b v = store_char b 26 v"

definition EnterRequestBuilder_Display :: "byte list \<Rightarrow> DisplayEnum \<Rightarrow> byte list" where
  "EnterRequestBuilder_Display b v = store_char b 27 v"

definition EnterRequestBuilder_Capacity :: "byte list \<Rightarrow> CapacityEnum \<Rightarrow> byte list" where
  "EnterRequestBuilder_Capacity b v = store_char b 28 v"

definition EnterRequestBuilder_InterMarketSweepElig :: "byte list \<Rightarrow> InterMarketSweepEligEnum \<Rightarrow> byte list" where
  "EnterRequestBuilder_InterMarketSweepElig b v = store_char b 29 v"

definition EnterRequestBuilder_CrossType :: "byte list \<Rightarrow> CrossTypeEnum \<Rightarrow> byte list" where
  "EnterRequestBuilder_CrossType b v = store_char b 30 v"

definition EnterRequestBuilder_ClOrdID :: "byte list \<Rightarrow> byte list \<Rightarrow> byte list" where
  "EnterRequestBuilder_ClOrdID b v = store_str b 31 v 14"

definition EnterRequestBuilder_AppendageLength :: "byte list \<Rightarrow> u16 \<Rightarrow> byte list" where
  "EnterRequestBuilder_AppendageLength b v = store_be16 b 45 v"

subsection \<open>CancelRequestBuilder\<close>

definition CancelRequestBuilder :: "byte list" where
  "CancelRequestBuilder = store_char (replicate CancelRequestView_WIRE_SIZE 0) 0 CancelRequestView_TYPE"

definition CancelRequestBuilder_UserRefNum :: "byte list \<Rightarrow> u32 \<Rightarrow> byte list" where
  "CancelRequestBuilder_UserRefNum b v = store_be32 b 1 v"

definition CancelRequestBuilder_Quantity :: "byte list \<Rightarrow> u32 \<Rightarrow> byte list" where
  "CancelRequestBuilder_Quantity b v = store_be32 b 5 v"

subsection \<open>AcceptResponseBuilder\<close>

definition AcceptResponseBuilder :: "byte list" where
  "AcceptResponseBuilder = store_char (replicate AcceptResponseView_WIRE_SIZE 0) 0 AcceptResponseView_TYPE"

definition AcceptResponseBuilder_Timestamp :: "byte list \<Rightarrow> u64 \<Rightarrow> byte list" where
  "AcceptResponseBuilder_Timestamp b v = store_be64 b 1 v"

definition AcceptResponseBuilder_UserRefNum :: "byte list \<Rightarrow> u32 \<Rightarrow> byte list" where
  "AcceptResponseBuilder_UserRefNum b v = store_be32 b 9 v"

definition AcceptResponseBuilder_Side :: "byte list \<Rightarrow> SideEnum \<Rightarrow> byte list" where
  "AcceptResponseBuilder_Side b v = store_char b 13 v"

definition AcceptResponseBuilder_Quantity :: "byte list \<Rightarrow> u32 \<Rightarrow> byte list" where
  "AcceptResponseBuilder_Quantity b v = store_be32 b 14 v"

definition AcceptResponseBuilder_Symbol :: "byte list \<Rightarrow> byte list \<Rightarrow> byte list" where
  "AcceptResponseBuilder_Symbol b v = store_str b 18 v 8"

definition AcceptResponseBuilder_Price :: "byte list \<Rightarrow> u64 \<Rightarrow> byte list" where
  "AcceptResponseBuilder_Price b v = store_be64 b 26 v"

definition AcceptResponseBuilder_TimeInForce :: "byte list \<Rightarrow> TimeInForceEnum \<Rightarrow> byte list" where
  "AcceptResponseBuilder_TimeInForce b v = store_char b 34 v"

definition AcceptResponseBuilder_Display :: "byte list \<Rightarrow> DisplayEnum \<Rightarrow> byte list" where
  "AcceptResponseBuilder_Display b v = store_char b 35 v"

definition AcceptResponseBuilder_OrderReferenceNumber :: "byte list \<Rightarrow> u64 \<Rightarrow> byte list" where
  "AcceptResponseBuilder_OrderReferenceNumber b v = store_be64 b 36 v"

definition AcceptResponseBuilder_Capacity :: "byte list \<Rightarrow> byte \<Rightarrow> byte list" where
  "AcceptResponseBuilder_Capacity b v = store_char b 44 v"

definition AcceptResponseBuilder_InterMarketSweepElig :: "byte list \<Rightarrow> InterMarketSweepEligEnum \<Rightarrow> byte list" where
  "AcceptResponseBuilder_InterMarketSweepElig b v = store_char b 45 v"

definition AcceptResponseBuilder_CrossType :: "byte list \<Rightarrow> CrossTypeEnum \<Rightarrow> byte list" where
  "AcceptResponseBuilder_CrossType b v = store_char b 46 v"

definition AcceptResponseBuilder_OrderState :: "byte list \<Rightarrow> OrderStateEnum \<Rightarrow> byte list" where
  "AcceptResponseBuilder_OrderState b v = store_char b 47 v"

definition AcceptResponseBuilder_ClOrdID :: "byte list \<Rightarrow> byte list \<Rightarrow> byte list" where
  "AcceptResponseBuilder_ClOrdID b v = store_str b 48 v 14"

definition AcceptResponseBuilder_AppendageLength :: "byte list \<Rightarrow> u16 \<Rightarrow> byte list" where
  "AcceptResponseBuilder_AppendageLength b v = store_be16 b 62 v"

subsection \<open>CancelledResponseBuilder\<close>

definition CancelledResponseBuilder :: "byte list" where
  "CancelledResponseBuilder = store_char (replicate CancelledResponseView_WIRE_SIZE 0) 0 CancelledResponseView_TYPE"

definition CancelledResponseBuilder_Timestamp :: "byte list \<Rightarrow> u64 \<Rightarrow> byte list" where
  "CancelledResponseBuilder_Timestamp b v = store_be64 b 1 v"

definition CancelledResponseBuilder_UserRefNum :: "byte list \<Rightarrow> u32 \<Rightarrow> byte list" where
  "CancelledResponseBuilder_UserRefNum b v = store_be32 b 9 v"

definition CancelledResponseBuilder_Quantity :: "byte list \<Rightarrow> u32 \<Rightarrow> byte list" where
  "CancelledResponseBuilder_Quantity b v = store_be32 b 13 v"

definition CancelledResponseBuilder_Reason :: "byte list \<Rightarrow> byte \<Rightarrow> byte list" where
  "CancelledResponseBuilder_Reason b v = store_char b 17 v"

subsection \<open>CancelRejectResponseBuilder\<close>

definition CancelRejectResponseBuilder :: "byte list" where
  "CancelRejectResponseBuilder = store_char (replicate CancelRejectResponseView_WIRE_SIZE 0) 0 CancelRejectResponseView_TYPE"

definition CancelRejectResponseBuilder_Timestamp :: "byte list \<Rightarrow> u64 \<Rightarrow> byte list" where
  "CancelRejectResponseBuilder_Timestamp b v = store_be64 b 1 v"

definition CancelRejectResponseBuilder_UserRefNum :: "byte list \<Rightarrow> u32 \<Rightarrow> byte list" where
  "CancelRejectResponseBuilder_UserRefNum b v = store_be32 b 9 v"

definition CancelRejectResponseBuilder_AppendageLength :: "byte list \<Rightarrow> u16 \<Rightarrow> byte list" where
  "CancelRejectResponseBuilder_AppendageLength b v = store_be16 b 13 v"

subsection \<open>ExecutedResponseBuilder\<close>

definition ExecutedResponseBuilder :: "byte list" where
  "ExecutedResponseBuilder = store_char (replicate ExecutedResponseView_WIRE_SIZE 0) 0 ExecutedResponseView_TYPE"

definition ExecutedResponseBuilder_Timestamp :: "byte list \<Rightarrow> u64 \<Rightarrow> byte list" where
  "ExecutedResponseBuilder_Timestamp b v = store_be64 b 1 v"

definition ExecutedResponseBuilder_UserRefNum :: "byte list \<Rightarrow> u32 \<Rightarrow> byte list" where
  "ExecutedResponseBuilder_UserRefNum b v = store_be32 b 9 v"

definition ExecutedResponseBuilder_Quantity :: "byte list \<Rightarrow> u32 \<Rightarrow> byte list" where
  "ExecutedResponseBuilder_Quantity b v = store_be32 b 13 v"

definition ExecutedResponseBuilder_Price :: "byte list \<Rightarrow> u64 \<Rightarrow> byte list" where
  "ExecutedResponseBuilder_Price b v = store_be64 b 17 v"

definition ExecutedResponseBuilder_LiquidityFlag :: "byte list \<Rightarrow> byte \<Rightarrow> byte list" where
  "ExecutedResponseBuilder_LiquidityFlag b v = store_char b 25 v"

definition ExecutedResponseBuilder_MatchNumber :: "byte list \<Rightarrow> u64 \<Rightarrow> byte list" where
  "ExecutedResponseBuilder_MatchNumber b v = store_be64 b 26 v"

definition ExecutedResponseBuilder_AppendageLength :: "byte list \<Rightarrow> u16 \<Rightarrow> byte list" where
  "ExecutedResponseBuilder_AppendageLength b v = store_be16 b 34 v"

section \<open>Messages and decoding\<close>

datatype UOUCHMessage =
    EnterRequestView "byte list"
  | CancelRequestView "byte list"
  | AcceptResponseView "byte list"
  | CancelledResponseView "byte list"
  | CancelRejectResponseView "byte list"
  | ExecutedResponseView "byte list"

text \<open>
  The payload arrays are sized for the largest message of each direction. A payload is a byte list
  of that length.
\<close>

definition OUCHMessageIn_SIZE :: nat where
  "OUCHMessageIn_SIZE = max EnterRequestView_WIRE_SIZE CancelRequestView_WIRE_SIZE"

definition OUCHMessageOut_SIZE :: nat where
  "OUCHMessageOut_SIZE =
     max AcceptResponseView_WIRE_SIZE
       (max CancelledResponseView_WIRE_SIZE ExecutedResponseView_WIRE_SIZE)"

record InboundMessage =
  in_account :: u32
  in_bytes :: "byte list"

record OutboundMessage =
  out_account :: u32
  out_bytes :: "byte list"

text \<open>
  \<open>decode\<close> dispatches on the type byte; every other type byte runs into
  \<open>__builtin_unreachable\<close>, which is undefined behaviour.
\<close>

definition decode :: "byte list \<Rightarrow> UOUCHMessage option" where
  "decode bytes =
     (if bytes = [] then None
      else let c = bytes ! 0
      in if c = EnterRequestView_TYPE then Some (EnterRequestView bytes)
      else if c = CancelRequestView_TYPE then Some (CancelRequestView bytes)
      else if c = AcceptResponseView_TYPE then Some (AcceptResponseView bytes)
      else if c = CancelledResponseView_TYPE then Some (CancelledResponseView bytes)
      else if c = CancelRejectResponseView_TYPE then Some (CancelRejectResponseView bytes)
      else if c = ExecutedResponseView_TYPE then Some (ExecutedResponseView bytes)
      else None)"

lemmas wire_consts =
  EnterRequestView_TYPE_def
  EnterRequestView_WIRE_SIZE_def
  CancelRequestView_TYPE_def
  CancelRequestView_WIRE_SIZE_def
  AcceptResponseView_TYPE_def
  AcceptResponseView_WIRE_SIZE_def
  CancelledResponseView_TYPE_def
  CancelledResponseView_WIRE_SIZE_def
  CancelRejectResponseView_TYPE_def
  CancelRejectResponseView_WIRE_SIZE_def
  ExecutedResponseView_TYPE_def
  ExecutedResponseView_WIRE_SIZE_def

lemmas view_defs =
  EnterRequestView_UserRefNum_def
  EnterRequestView_Side_def
  EnterRequestView_Quantity_def
  EnterRequestView_Symbol_def
  EnterRequestView_Price_def
  EnterRequestView_TimeInForce_def
  EnterRequestView_Display_def
  EnterRequestView_Capacity_def
  EnterRequestView_InterMarketSweepElig_def
  EnterRequestView_CrossType_def
  EnterRequestView_ClOrdID_def
  EnterRequestView_AppendageLength_def
  CancelRequestView_UserRefNum_def
  CancelRequestView_Quantity_def
  AcceptResponseView_Timestamp_def
  AcceptResponseView_UserRefNum_def
  AcceptResponseView_Side_def
  AcceptResponseView_Quantity_def
  AcceptResponseView_Symbol_def
  AcceptResponseView_Price_def
  AcceptResponseView_TimeInForce_def
  AcceptResponseView_Display_def
  AcceptResponseView_OrderReferenceNumber_def
  AcceptResponseView_Capacity_def
  AcceptResponseView_InterMarketSweepElig_def
  AcceptResponseView_CrossType_def
  AcceptResponseView_OrderState_def
  AcceptResponseView_ClOrdID_def
  AcceptResponseView_AppendageLength_def
  CancelledResponseView_Timestamp_def
  CancelledResponseView_UserRefNum_def
  CancelledResponseView_Quantity_def
  CancelledResponseView_Reason_def
  CancelRejectResponseView_Timestamp_def
  CancelRejectResponseView_UserRefNum_def
  CancelRejectResponseView_AppendageLength_def
  ExecutedResponseView_Timestamp_def
  ExecutedResponseView_UserRefNum_def
  ExecutedResponseView_Quantity_def
  ExecutedResponseView_Price_def
  ExecutedResponseView_LiquidityFlag_def
  ExecutedResponseView_MatchNumber_def
  ExecutedResponseView_AppendageLength_def

lemmas builder_defs =
  EnterRequestBuilder_def
  EnterRequestBuilder_UserRefNum_def
  EnterRequestBuilder_Side_def
  EnterRequestBuilder_Quantity_def
  EnterRequestBuilder_Symbol_def
  EnterRequestBuilder_Price_def
  EnterRequestBuilder_TimeInForce_def
  EnterRequestBuilder_Display_def
  EnterRequestBuilder_Capacity_def
  EnterRequestBuilder_InterMarketSweepElig_def
  EnterRequestBuilder_CrossType_def
  EnterRequestBuilder_ClOrdID_def
  EnterRequestBuilder_AppendageLength_def
  CancelRequestBuilder_def
  CancelRequestBuilder_UserRefNum_def
  CancelRequestBuilder_Quantity_def
  AcceptResponseBuilder_def
  AcceptResponseBuilder_Timestamp_def
  AcceptResponseBuilder_UserRefNum_def
  AcceptResponseBuilder_Side_def
  AcceptResponseBuilder_Quantity_def
  AcceptResponseBuilder_Symbol_def
  AcceptResponseBuilder_Price_def
  AcceptResponseBuilder_TimeInForce_def
  AcceptResponseBuilder_Display_def
  AcceptResponseBuilder_OrderReferenceNumber_def
  AcceptResponseBuilder_Capacity_def
  AcceptResponseBuilder_InterMarketSweepElig_def
  AcceptResponseBuilder_CrossType_def
  AcceptResponseBuilder_OrderState_def
  AcceptResponseBuilder_ClOrdID_def
  AcceptResponseBuilder_AppendageLength_def
  CancelledResponseBuilder_def
  CancelledResponseBuilder_Timestamp_def
  CancelledResponseBuilder_UserRefNum_def
  CancelledResponseBuilder_Quantity_def
  CancelledResponseBuilder_Reason_def
  CancelRejectResponseBuilder_def
  CancelRejectResponseBuilder_Timestamp_def
  CancelRejectResponseBuilder_UserRefNum_def
  CancelRejectResponseBuilder_AppendageLength_def
  ExecutedResponseBuilder_def
  ExecutedResponseBuilder_Timestamp_def
  ExecutedResponseBuilder_UserRefNum_def
  ExecutedResponseBuilder_Quantity_def
  ExecutedResponseBuilder_Price_def
  ExecutedResponseBuilder_LiquidityFlag_def
  ExecutedResponseBuilder_MatchNumber_def
  ExecutedResponseBuilder_AppendageLength_def
section \<open>Laws of the loads and stores\<close>

text \<open>
  The contract of a load/store pair of a fixed-width field: the store encodes the value into the
  \<open>width\<close> bytes at its offset, the load decodes these bytes, and decoding what was encoded gives the
  value back up to the normal form \<open>norm\<close> (the space padding of a string field).
\<close>

locale wire_scalar =
  fixes width :: nat
    and enc :: "'v \<Rightarrow> byte list"
    and dec :: "byte list \<Rightarrow> 'v"
    and norm :: "'v \<Rightarrow> 'v"
    and load :: "byte list \<Rightarrow> nat \<Rightarrow> 'v"
    and store :: "byte list \<Rightarrow> nat \<Rightarrow> 'v \<Rightarrow> byte list"
  assumes enc_width: "length (enc v) = width"
    and dec_enc: "dec (enc v) = norm v"
    and load_region: "off + width \<le> length p \<Longrightarrow> load p off = dec (read_at off width p)"
    and store_region: "off + width \<le> length p \<Longrightarrow> store p off v = write_at off (enc v) p"
begin

lemma length_store:
  "off + width \<le> length p \<Longrightarrow> length (store p off v) = length p"
  by (simp add: store_region enc_width)

lemma read_store_same:
  "off + width \<le> length p \<Longrightarrow> read_at off width (store p off v) = enc v"
  by (simp add: store_region enc_width read_write_same)

lemma load_store:
  "off + width \<le> length p \<Longrightarrow> load (store p off v) off = norm v"
  by (simp add: load_region length_store read_store_same dec_enc)

lemma read_store_other:
  "off + width \<le> length p \<Longrightarrow> off' + n \<le> off \<or> off + width \<le> off' \<Longrightarrow>
   read_at off' n (store p off v) = read_at off' n p"
  by (auto simp: store_region enc_width read_write_before read_write_after)

lemma nth_store_other:
  "off + width \<le> length p \<Longrightarrow> i < off \<or> off + width \<le> i \<Longrightarrow> store p off v ! i = p ! i"
  by (auto simp: store_region enc_width write_at_def nth_append)

lemma length_sized:
  "length p = N \<Longrightarrow> off + width \<le> N \<Longrightarrow> length (store p off v) = N"
  by (simp add: length_store)

lemma read_same_sized:
  "length p = N \<Longrightarrow> off + width \<le> N \<Longrightarrow> read_at off width (store p off v) = enc v"
  by (simp add: read_store_same)

lemma read_other_sized:
  "length p = N \<Longrightarrow> off + width \<le> N \<Longrightarrow> off' + n \<le> off \<or> off + width \<le> off' \<Longrightarrow>
   read_at off' n (store p off v) = read_at off' n p"
  by (simp add: read_store_other)

lemma nth_other_sized:
  "length p = N \<Longrightarrow> off + width \<le> N \<Longrightarrow> i < off \<or> off + width \<le> i \<Longrightarrow> store p off v ! i = p ! i"
  by (simp add: nth_store_other)

lemma store_store:
  "off + width \<le> length p \<Longrightarrow> store (store p off v) off v' = store p off v'"
  by (simp add: store_region enc_width) (simp add: write_at_def enc_width)

end

definition pad :: "nat \<Rightarrow> byte list \<Rightarrow> byte list" where
  "pad n s = take n s @ replicate (n - length s) 32"

lemma length_pad [simp]: "length (pad n s) = n"
  by (auto simp: pad_def)

lemma pad_exact [simp]: "length s = n \<Longrightarrow> pad n s = s"
  by (simp add: pad_def)

lemma store_str_region:
  "off + n \<le> length p \<Longrightarrow> store_str p off s n = write_at off (pad n s) p"
  by (auto simp: store_str_def pad_def write_at_def min_def Let_def not_le add.commute)

interpretation be16: wire_scalar 2 "\<lambda>v. le_bytes (bswap v)" "\<lambda>bs. bswap (le_word bs)" "\<lambda>v. v"
  load_be16 store_be16
  by unfold_locales (simp_all add: load_be16_def store_be16_def)

interpretation be32: wire_scalar 4 "\<lambda>v. le_bytes (bswap v)" "\<lambda>bs. bswap (le_word bs)" "\<lambda>v. v"
  load_be32 store_be32
  by unfold_locales (simp_all add: load_be32_def store_be32_def)

interpretation be64: wire_scalar 8 "\<lambda>v. le_bytes (bswap v)" "\<lambda>bs. bswap (le_word bs)" "\<lambda>v. v"
  load_be64 store_be64
  by unfold_locales (simp_all add: load_be64_def store_be64_def)

interpretation wchar: wire_scalar 1 "\<lambda>c. [c]" hd "\<lambda>c. c" load_char store_char
  by unfold_locales
    (auto simp: load_char_def store_char_def read_at_def write_at_def take_Suc_conv_app_nth
      hd_drop_conv_nth upd_conv_take_nth_drop)

interpretation str8: wire_scalar 8 "pad 8" "\<lambda>s. s" "pad 8"
  "\<lambda>p off. load_str p off 8" "\<lambda>p off s. store_str p off s 8"
  by unfold_locales (simp_all add: load_str_def store_str_region)

interpretation str14: wire_scalar 14 "pad 14" "\<lambda>s. s" "pad 14"
  "\<lambda>p off. load_str p off 14" "\<lambda>p off s. store_str p off s 14"
  by unfold_locales (simp_all add: load_str_def store_str_region)

lemma nth_store_char_same: "length p = N \<Longrightarrow> i < N \<Longrightarrow> store_char p i c ! i = c"
  by (simp add: store_char_def)

text \<open>
  The evaluation rules, for buffers of a fixed length \<open>N\<close>: instantiating \<open>N\<close> with a message's wire
  size makes the side condition of each rule a fact about the next shorter call chain.
\<close>

lemmas sized_stores =
  be16.length_sized be32.length_sized be64.length_sized wchar.length_sized
  str8.length_sized str14.length_sized
  be16.read_same_sized be32.read_same_sized be64.read_same_sized
  str8.read_same_sized str14.read_same_sized
  be16.read_other_sized be32.read_other_sized be64.read_other_sized wchar.read_other_sized
  str8.read_other_sized str14.read_other_sized
  be16.nth_other_sized be32.nth_other_sized be64.nth_other_sized wchar.nth_other_sized
  str8.nth_other_sized str14.nth_other_sized nth_store_char_same

lemmas load_defs = load_be16_def load_be32_def load_be64_def load_char_def load_str_def

lemma length_builders [wire_simps]:
  "length EnterRequestBuilder = 47"
  "length CancelRequestBuilder = 9"
  "length AcceptResponseBuilder = 64"
  "length CancelledResponseBuilder = 18"
  "length CancelRejectResponseBuilder = 15"
  "length ExecutedResponseBuilder = 36"
  by (simp_all add: builder_defs wire_consts store_char_def)

lemma builder_type_byte [wire_simps]:
  "EnterRequestBuilder ! 0 = 79"
  "CancelRequestBuilder ! 0 = 88"
  "AcceptResponseBuilder ! 0 = 65"
  "CancelledResponseBuilder ! 0 = 67"
  "CancelRejectResponseBuilder ! 0 = 73"
  "ExecutedResponseBuilder ! 0 = 69"
  by (simp_all add: builder_defs wire_consts store_char_def)

lemmas EnterRequest_codec =
  EnterRequestView_UserRefNum_def
  EnterRequestView_Side_def
  EnterRequestView_Quantity_def
  EnterRequestView_Symbol_def
  EnterRequestView_Price_def
  EnterRequestView_TimeInForce_def
  EnterRequestView_Display_def
  EnterRequestView_Capacity_def
  EnterRequestView_InterMarketSweepElig_def
  EnterRequestView_CrossType_def
  EnterRequestView_ClOrdID_def
  EnterRequestView_AppendageLength_def
  EnterRequestBuilder_UserRefNum_def
  EnterRequestBuilder_Side_def
  EnterRequestBuilder_Quantity_def
  EnterRequestBuilder_Symbol_def
  EnterRequestBuilder_Price_def
  EnterRequestBuilder_TimeInForce_def
  EnterRequestBuilder_Display_def
  EnterRequestBuilder_Capacity_def
  EnterRequestBuilder_InterMarketSweepElig_def
  EnterRequestBuilder_CrossType_def
  EnterRequestBuilder_ClOrdID_def
  EnterRequestBuilder_AppendageLength_def
  wire_consts

lemmas CancelRequest_codec =
  CancelRequestView_UserRefNum_def
  CancelRequestView_Quantity_def
  CancelRequestBuilder_UserRefNum_def
  CancelRequestBuilder_Quantity_def
  wire_consts

lemmas AcceptResponse_codec =
  AcceptResponseView_Timestamp_def
  AcceptResponseView_UserRefNum_def
  AcceptResponseView_Side_def
  AcceptResponseView_Quantity_def
  AcceptResponseView_Symbol_def
  AcceptResponseView_Price_def
  AcceptResponseView_TimeInForce_def
  AcceptResponseView_Display_def
  AcceptResponseView_OrderReferenceNumber_def
  AcceptResponseView_Capacity_def
  AcceptResponseView_InterMarketSweepElig_def
  AcceptResponseView_CrossType_def
  AcceptResponseView_OrderState_def
  AcceptResponseView_ClOrdID_def
  AcceptResponseView_AppendageLength_def
  AcceptResponseBuilder_Timestamp_def
  AcceptResponseBuilder_UserRefNum_def
  AcceptResponseBuilder_Side_def
  AcceptResponseBuilder_Quantity_def
  AcceptResponseBuilder_Symbol_def
  AcceptResponseBuilder_Price_def
  AcceptResponseBuilder_TimeInForce_def
  AcceptResponseBuilder_Display_def
  AcceptResponseBuilder_OrderReferenceNumber_def
  AcceptResponseBuilder_Capacity_def
  AcceptResponseBuilder_InterMarketSweepElig_def
  AcceptResponseBuilder_CrossType_def
  AcceptResponseBuilder_OrderState_def
  AcceptResponseBuilder_ClOrdID_def
  AcceptResponseBuilder_AppendageLength_def
  wire_consts

lemmas CancelledResponse_codec =
  CancelledResponseView_Timestamp_def
  CancelledResponseView_UserRefNum_def
  CancelledResponseView_Quantity_def
  CancelledResponseView_Reason_def
  CancelledResponseBuilder_Timestamp_def
  CancelledResponseBuilder_UserRefNum_def
  CancelledResponseBuilder_Quantity_def
  CancelledResponseBuilder_Reason_def
  wire_consts

lemmas CancelRejectResponse_codec =
  CancelRejectResponseView_Timestamp_def
  CancelRejectResponseView_UserRefNum_def
  CancelRejectResponseView_AppendageLength_def
  CancelRejectResponseBuilder_Timestamp_def
  CancelRejectResponseBuilder_UserRefNum_def
  CancelRejectResponseBuilder_AppendageLength_def
  wire_consts

lemmas ExecutedResponse_codec =
  ExecutedResponseView_Timestamp_def
  ExecutedResponseView_UserRefNum_def
  ExecutedResponseView_Quantity_def
  ExecutedResponseView_Price_def
  ExecutedResponseView_LiquidityFlag_def
  ExecutedResponseView_MatchNumber_def
  ExecutedResponseView_AppendageLength_def
  ExecutedResponseBuilder_Timestamp_def
  ExecutedResponseBuilder_UserRefNum_def
  ExecutedResponseBuilder_Quantity_def
  ExecutedResponseBuilder_Price_def
  ExecutedResponseBuilder_LiquidityFlag_def
  ExecutedResponseBuilder_MatchNumber_def
  ExecutedResponseBuilder_AppendageLength_def
  wire_consts

lemma decode_nonempty:
  "0 < length p \<Longrightarrow> decode p =
     (if p ! 0 = 79 then Some (EnterRequestView p)
      else if p ! 0 = 88 then Some (CancelRequestView p)
      else if p ! 0 = 65 then Some (AcceptResponseView p)
      else if p ! 0 = 67 then Some (CancelledResponseView p)
      else if p ! 0 = 73 then Some (CancelRejectResponseView p)
      else if p ! 0 = 69 then Some (ExecutedResponseView p)
      else None)"
  by (simp add: decode_def wire_consts)

lemma enter_view_append:
  assumes "length p = EnterRequestView_WIRE_SIZE"
  shows "EnterRequestView_UserRefNum (p @ q) = EnterRequestView_UserRefNum p"
    and "EnterRequestView_Side (p @ q) = EnterRequestView_Side p"
    and "EnterRequestView_Quantity (p @ q) = EnterRequestView_Quantity p"
    and "EnterRequestView_Symbol (p @ q) = EnterRequestView_Symbol p"
    and "EnterRequestView_Price (p @ q) = EnterRequestView_Price p"
    and "EnterRequestView_TimeInForce (p @ q) = EnterRequestView_TimeInForce p"
    and "EnterRequestView_Display (p @ q) = EnterRequestView_Display p"
    and "EnterRequestView_Capacity (p @ q) = EnterRequestView_Capacity p"
    and "EnterRequestView_InterMarketSweepElig (p @ q) = EnterRequestView_InterMarketSweepElig p"
    and "EnterRequestView_CrossType (p @ q) = EnterRequestView_CrossType p"
    and "EnterRequestView_ClOrdID (p @ q) = EnterRequestView_ClOrdID p"
    and "EnterRequestView_AppendageLength (p @ q) = EnterRequestView_AppendageLength p"
  using assms by (simp_all add: EnterRequest_codec load_defs read_at_append nth_append)

lemma cancel_view_append:
  assumes "length p = CancelRequestView_WIRE_SIZE"
  shows "CancelRequestView_UserRefNum (p @ q) = CancelRequestView_UserRefNum p"
    and "CancelRequestView_Quantity (p @ q) = CancelRequestView_Quantity p"
  using assms by (simp_all add: CancelRequest_codec load_defs read_at_append nth_append)

section \<open>Properties of the codec\<close>

text \<open>
  C39: Enter Order round trip. Setting the twelve fields of an \<open>EnterRequestBuilder\<close> in any values gives
  exactly 47 bytes that \<open>decode\<close> recognises as an Enter Request and whose view returns every value
  that was set; the two text fields come back cut or space-padded to their fixed width.
\<close>

theorem enter_request_roundtrip:
  "(let b = EnterRequestBuilder;
        b = EnterRequestBuilder_UserRefNum b urn;
        b = EnterRequestBuilder_Side b side;
        b = EnterRequestBuilder_Quantity b qty;
        b = EnterRequestBuilder_Symbol b symb;
        b = EnterRequestBuilder_Price b price;
        b = EnterRequestBuilder_TimeInForce b tif;
        b = EnterRequestBuilder_Display b disp;
        b = EnterRequestBuilder_Capacity b cap;
        b = EnterRequestBuilder_InterMarketSweepElig b imse;
        b = EnterRequestBuilder_CrossType b cross;
        b = EnterRequestBuilder_ClOrdID b cid;
        b = EnterRequestBuilder_AppendageLength b al
    in length b = EnterRequestView_WIRE_SIZE \<and>
       decode b = Some (EnterRequestView b) \<and>
       EnterRequestView_UserRefNum b = urn \<and>
       EnterRequestView_Side b = side \<and>
       EnterRequestView_Quantity b = qty \<and>
       EnterRequestView_Symbol b = pad 8 symb \<and>
       EnterRequestView_Price b = price \<and>
       EnterRequestView_TimeInForce b = tif \<and>
       EnterRequestView_Display b = disp \<and>
       EnterRequestView_Capacity b = cap \<and>
       EnterRequestView_InterMarketSweepElig b = imse \<and>
       EnterRequestView_CrossType b = cross \<and>
       EnterRequestView_ClOrdID b = pad 14 cid \<and>
       EnterRequestView_AppendageLength b = al)"
  unfolding Let_def
  by (intro conjI) (simp_all add: EnterRequest_codec load_defs decode_nonempty sized_stores [where N = 47] wire_simps)

lemma cancel_request_roundtrip:
  "(let b = CancelRequestBuilder;
        b = CancelRequestBuilder_UserRefNum b urn;
        b = CancelRequestBuilder_Quantity b qty
    in length b = CancelRequestView_WIRE_SIZE \<and>
       decode b = Some (CancelRequestView b) \<and>
       CancelRequestView_UserRefNum b = urn \<and>
       CancelRequestView_Quantity b = qty)"
  unfolding Let_def
  by (intro conjI) (simp_all add: CancelRequest_codec load_defs decode_nonempty sized_stores [where N = 9] wire_simps)

text \<open>
  Order Accepted round trip. All fifteen fields of the 64-byte Accepted message, the engine's
  largest message, are returned by its view as they were set.
\<close>

theorem accept_response_roundtrip:
  "(let b = AcceptResponseBuilder;
        b = AcceptResponseBuilder_Timestamp b ts;
        b = AcceptResponseBuilder_UserRefNum b urn;
        b = AcceptResponseBuilder_Side b side;
        b = AcceptResponseBuilder_Quantity b qty;
        b = AcceptResponseBuilder_Symbol b symb;
        b = AcceptResponseBuilder_Price b price;
        b = AcceptResponseBuilder_TimeInForce b tif;
        b = AcceptResponseBuilder_Display b disp;
        b = AcceptResponseBuilder_OrderReferenceNumber b orn;
        b = AcceptResponseBuilder_Capacity b cap;
        b = AcceptResponseBuilder_InterMarketSweepElig b imse;
        b = AcceptResponseBuilder_CrossType b cross;
        b = AcceptResponseBuilder_OrderState b ost;
        b = AcceptResponseBuilder_ClOrdID b cid;
        b = AcceptResponseBuilder_AppendageLength b al
    in length b = AcceptResponseView_WIRE_SIZE \<and>
       decode b = Some (AcceptResponseView b) \<and>
       AcceptResponseView_Timestamp b = ts \<and>
       AcceptResponseView_UserRefNum b = urn \<and>
       AcceptResponseView_Side b = side \<and>
       AcceptResponseView_Quantity b = qty \<and>
       AcceptResponseView_Symbol b = pad 8 symb \<and>
       AcceptResponseView_Price b = price \<and>
       AcceptResponseView_TimeInForce b = tif \<and>
       AcceptResponseView_Display b = disp \<and>
       AcceptResponseView_OrderReferenceNumber b = orn \<and>
       AcceptResponseView_Capacity b = cap \<and>
       AcceptResponseView_InterMarketSweepElig b = imse \<and>
       AcceptResponseView_CrossType b = cross \<and>
       AcceptResponseView_OrderState b = ost \<and>
       AcceptResponseView_ClOrdID b = pad 14 cid \<and>
       AcceptResponseView_AppendageLength b = al)"
  unfolding Let_def
  by (intro conjI) (simp_all add: AcceptResponse_codec load_defs decode_nonempty sized_stores [where N = 64] wire_simps)

lemma cancelled_response_roundtrip:
  "(let b = CancelledResponseBuilder;
        b = CancelledResponseBuilder_Timestamp b ts;
        b = CancelledResponseBuilder_UserRefNum b urn;
        b = CancelledResponseBuilder_Quantity b qty;
        b = CancelledResponseBuilder_Reason b reason
    in length b = CancelledResponseView_WIRE_SIZE \<and>
       decode b = Some (CancelledResponseView b) \<and>
       CancelledResponseView_Timestamp b = ts \<and>
       CancelledResponseView_UserRefNum b = urn \<and>
       CancelledResponseView_Quantity b = qty \<and>
       CancelledResponseView_Reason b = reason)"
  unfolding Let_def
  by (intro conjI) (simp_all add: CancelledResponse_codec load_defs decode_nonempty sized_stores [where N = 18] wire_simps)

lemma cancel_reject_response_roundtrip:
  "(let b = CancelRejectResponseBuilder;
        b = CancelRejectResponseBuilder_Timestamp b ts;
        b = CancelRejectResponseBuilder_UserRefNum b urn;
        b = CancelRejectResponseBuilder_AppendageLength b al
    in length b = CancelRejectResponseView_WIRE_SIZE \<and>
       decode b = Some (CancelRejectResponseView b) \<and>
       CancelRejectResponseView_Timestamp b = ts \<and>
       CancelRejectResponseView_UserRefNum b = urn \<and>
       CancelRejectResponseView_AppendageLength b = al)"
  unfolding Let_def
  by (intro conjI) (simp_all add: CancelRejectResponse_codec load_defs decode_nonempty sized_stores [where N = 15] wire_simps)

text \<open>
  Order Executed round trip. The seven fields of the 36-byte Executed message are returned by
  its view as they were set.
\<close>

theorem executed_response_roundtrip:
  "(let b = ExecutedResponseBuilder;
        b = ExecutedResponseBuilder_Timestamp b ts;
        b = ExecutedResponseBuilder_UserRefNum b urn;
        b = ExecutedResponseBuilder_Quantity b qty;
        b = ExecutedResponseBuilder_Price b price;
        b = ExecutedResponseBuilder_LiquidityFlag b liq;
        b = ExecutedResponseBuilder_MatchNumber b mn;
        b = ExecutedResponseBuilder_AppendageLength b al
    in length b = ExecutedResponseView_WIRE_SIZE \<and>
       decode b = Some (ExecutedResponseView b) \<and>
       ExecutedResponseView_Timestamp b = ts \<and>
       ExecutedResponseView_UserRefNum b = urn \<and>
       ExecutedResponseView_Quantity b = qty \<and>
       ExecutedResponseView_Price b = price \<and>
       ExecutedResponseView_LiquidityFlag b = liq \<and>
       ExecutedResponseView_MatchNumber b = mn \<and>
       ExecutedResponseView_AppendageLength b = al)"
  unfolding Let_def
  by (intro conjI) (simp_all add: ExecutedResponse_codec load_defs decode_nonempty sized_stores [where N = 36] wire_simps)

text \<open>
  network byte order. The four bytes an integer field occupies on the wire are the
  integer's bytes from the most significant to the least significant one, so the byte at the field's
  offset is the top byte.
\<close>

theorem store_be32_network_order:
  assumes "off + 4 \<le> length p"
  shows "read_at off 4 (store_be32 p off v) =
           [ucast (drop_bit 24 v), ucast (drop_bit 16 v), ucast (drop_bit 8 v), ucast v]"
  using assms by (simp add: be32.read_store_same le_bytes_bswap) (simp add: le_bytes_def upt_rec)

theorem store_be32_network_order_witness:
  "(1::nat) + 4 \<le> length CancelRequestBuilder \<and>
   read_at 1 4 (store_be32 CancelRequestBuilder 1 0x01020304) = [1, 2, 3, 4]"
  using store_be32_network_order [of 1 CancelRequestBuilder "0x01020304"]
  by (simp add: length_builders)

end
