(* ===== verification/Intrusive_List.thy ===== *)
theory Intrusive_List
  imports Prelude
begin

text \<open>
  Intrusive doubly-linked lists.

  The matching engine keeps every price level as a list of blocks linked through their own
  \<open>prev\<close> and \<open>next\<close> fields, with a \<open>head\<close> and a \<open>tail\<close> pointer per level
  (\<open>4_order_book_proj/src/engine.hpp\<close>), and the list-based books of
  \<open>4_order_book_proj/data_structure_bench\<close> use the same scheme with their own node classes. The
  pointer code is written once here over the accesses a node type offers (\<open>node_ops\<close>):
  \<open>unlink_node\<close> removes a node from anywhere in a list and \<open>append_node\<close> adds one at the tail.

  The locale \<open>linked_nodes\<close> is the contract of these accesses. Inside it \<open>list_rep s l xs\<close> says that
  the store \<open>s\<close> holds a well-formed list with ends \<open>l\<close> and nodes \<open>xs\<close> in order, and the lemmas show
  that the two operations never meet a null or dangling pointer, that they have the effect of list
  deletion and list append on \<open>xs\<close>, and that they leave every node's payload alone.
\<close>

record OrderList =
  head :: "addr option"
  tail :: "addr option"

definition OrderList_empty :: OrderList where
  "OrderList_empty = \<lparr>head = None, tail = None\<rparr>"

record ('s, 'n) node_ops =
  load_node :: "'s \<Rightarrow> addr \<Rightarrow> 'n option"
  save_node :: "'s \<Rightarrow> addr \<Rightarrow> 'n \<Rightarrow> 's option"
  get_next :: "'n \<Rightarrow> addr option"
  set_next :: "addr option \<Rightarrow> 'n \<Rightarrow> 'n"
  get_prev :: "'n \<Rightarrow> addr option"
  set_prev :: "addr option \<Rightarrow> 'n \<Rightarrow> 'n"

definition put_next :: "('s, 'n) node_ops \<Rightarrow> 's \<Rightarrow> addr \<Rightarrow> addr option \<Rightarrow> 's option" where
  "put_next N s a v = do { n \<leftarrow> load_node N s a; save_node N s a (set_next N v n) }"

definition put_prev :: "('s, 'n) node_ops \<Rightarrow> 's \<Rightarrow> addr \<Rightarrow> addr option \<Rightarrow> 's option" where
  "put_prev N s a v = do { n \<leftarrow> load_node N s a; save_node N s a (set_prev N v n) }"

definition unlink_node ::
  "('s, 'n) node_ops \<Rightarrow> 's \<Rightarrow> OrderList \<Rightarrow> addr \<Rightarrow> ('s \<times> OrderList) option" where
  "unlink_node N s l block = do {
     b \<leftarrow> load_node N s block;
     (s, l) \<leftarrow> (case get_prev N b of
         Some p \<Rightarrow> do { s \<leftarrow> put_next N s p (get_next N b); Some (s, l) }
       | None \<Rightarrow> Some (s, l\<lparr>head := get_next N b\<rparr>));
     b \<leftarrow> load_node N s block;
     (s, l) \<leftarrow> (case get_next N b of
         Some n \<Rightarrow> do { s \<leftarrow> put_prev N s n (get_prev N b); Some (s, l) }
       | None \<Rightarrow> Some (s, l\<lparr>tail := get_prev N b\<rparr>));
     s \<leftarrow> put_prev N s block None;
     s \<leftarrow> put_next N s block None;
     Some (s, l)
   }"

definition append_node ::
  "('s, 'n) node_ops \<Rightarrow> 's \<Rightarrow> OrderList \<Rightarrow> addr \<Rightarrow> ('s \<times> OrderList) option" where
  "append_node N s l block = do {
     s \<leftarrow> put_next N s block None;
     s \<leftarrow> put_prev N s block (tail l);
     (s, l) \<leftarrow> (case tail l of
         Some t \<Rightarrow> do { s \<leftarrow> put_next N s t (Some block); Some (s, l) }
       | None \<Rightarrow> Some (s, l\<lparr>head := Some block\<rparr>));
     Some (s, l\<lparr>tail := Some block\<rparr>)
   }"

definition insert_before_node ::
  "('s, 'n) node_ops \<Rightarrow> 's \<Rightarrow> OrderList \<Rightarrow> addr \<Rightarrow> addr \<Rightarrow> ('s \<times> OrderList) option" where
  "insert_before_node N s l block cur = do {
     s \<leftarrow> put_next N s block (Some cur);
     c \<leftarrow> load_node N s cur;
     s \<leftarrow> put_prev N s block (get_prev N c);
     (s, l) \<leftarrow> (case get_prev N c of
         Some p \<Rightarrow> do { s \<leftarrow> put_next N s p (Some block); Some (s, l) }
       | None \<Rightarrow> Some (s, l\<lparr>head := Some block\<rparr>));
     s \<leftarrow> put_prev N s cur (Some block);
     Some (s, l)
   }"

section \<open>Doubly-linked segments\<close>

text \<open>
  \<open>dll N h p xs q\<close>: the nodes \<open>xs\<close> of the store view \<open>h\<close> are linked in both directions, the first
  one's \<open>prev\<close> is \<open>p\<close> and the last one's \<open>next\<close> is \<open>q\<close>.
\<close>

primrec dll ::
  "('s, 'n) node_ops \<Rightarrow> (addr \<rightharpoonup> 'n) \<Rightarrow> addr option \<Rightarrow> addr list \<Rightarrow> addr option \<Rightarrow> bool" where
  "dll N h p [] q \<longleftrightarrow> True"
| "dll N h p (x # xs) q \<longleftrightarrow>
     (\<exists>n. h x = Some n \<and> get_prev N n = p \<and>
          get_next N n = (if xs = [] then q else head_opt xs)) \<and>
     dll N h (Some x) xs q"

definition list_rep :: "('s, 'n) node_ops \<Rightarrow> 's \<Rightarrow> OrderList \<Rightarrow> addr list \<Rightarrow> bool" where
  "list_rep N s l xs \<longleftrightarrow>
     dll N (load_node N s) None xs None \<and> distinct xs \<and>
     head l = head_opt xs \<and> tail l = last_opt xs"

lemma dll_append:
  "dll N h p (xs @ ys) q \<longleftrightarrow>
     dll N h p xs (if ys = [] then q else head_opt ys) \<and>
     dll N h (if xs = [] then p else last_opt xs) ys q"
  by (induction xs arbitrary: p) (auto simp: head_opt_append last_opt_def)

lemma dll_cong:
  "(\<And>x. x \<in> set xs \<Longrightarrow> h x = h' x) \<Longrightarrow> dll N h p xs q = dll N h' p xs q"
  by (induction xs arbitrary: p) auto

lemma dll_mapped: "dll N h p xs q \<Longrightarrow> x \<in> set xs \<Longrightarrow> \<exists>n. h x = Some n"
  by (induction xs arbitrary: p) auto

lemma list_rep_empty: "list_rep N s OrderList_empty []"
  by (simp add: list_rep_def OrderList_empty_def)

lemma list_rep_head: "list_rep N s l xs \<Longrightarrow> head l = head_opt xs"
  by (simp add: list_rep_def)

lemma list_rep_distinct: "list_rep N s l xs \<Longrightarrow> distinct xs"
  by (simp add: list_rep_def)

lemma list_rep_mapped: "list_rep N s l xs \<Longrightarrow> x \<in> set xs \<Longrightarrow> \<exists>n. load_node N s x = Some n"
  by (auto simp: list_rep_def dest: dll_mapped)

lemma list_rep_cong:
  "(\<And>x. x \<in> set xs \<Longrightarrow> load_node N s x = load_node N s' x) \<Longrightarrow>
   list_rep N s l xs = list_rep N s' l xs"
  unfolding list_rep_def using dll_cong [of xs "load_node N s" "load_node N s'"] by blast

section \<open>Correctness of unlink and append\<close>

text \<open>
  What the pointer code relies on: a saved node is what the next load of its address returns and no
  other address changes; the \<open>prev\<close> and \<open>next\<close> fields of a node are independent of each other and of
  the rest of the node (its \<open>payload\<close>); and whatever relation \<open>keeps\<close> the store's owner cares about
  (for the pool allocator, its free list) is not affected by saving a node.
\<close>

locale linked_nodes =
  fixes N :: "('s, 'n) node_ops"
    and payload :: "'n \<Rightarrow> 'd"
    and keeps :: "'s \<Rightarrow> 's \<Rightarrow> bool"
  assumes save_ok: "load_node N s a = Some n0 \<Longrightarrow> \<exists>s'. save_node N s a n = Some s'"
    and load_save: "save_node N s a n = Some s' \<Longrightarrow> load_node N s' = (load_node N s)(a \<mapsto> n)"
    and save_keeps: "save_node N s a n = Some s' \<Longrightarrow> load_node N s a \<noteq> None \<Longrightarrow> keeps s s'"
    and keeps_refl: "keeps s s"
    and keeps_trans: "keeps s s' \<Longrightarrow> keeps s' s'' \<Longrightarrow> keeps s s''"
    and fields [simp]:
      "get_next N (set_next N v n) = v"
      "get_prev N (set_prev N v n) = v"
      "get_next N (set_prev N v n) = get_next N n"
      "get_prev N (set_next N v n) = get_prev N n"
      "payload (set_next N v n) = payload n"
      "payload (set_prev N v n) = payload n"
begin

lemma put_next_ok:
  assumes "load_node N s a = Some n"
  obtains s' where "put_next N s a v = Some s'"
    and "load_node N s' = (load_node N s)(a \<mapsto> set_next N v n)" and "keeps s s'"
  using assms save_ok [OF assms, of "set_next N v n"]
  by (auto simp: put_next_def dest: load_save save_keeps)

lemma put_prev_ok:
  assumes "load_node N s a = Some n"
  obtains s' where "put_prev N s a v = Some s'"
    and "load_node N s' = (load_node N s)(a \<mapsto> set_prev N v n)" and "keeps s s'"
  using assms save_ok [OF assms, of "set_prev N v n"]
  by (auto simp: put_prev_def dest: load_save save_keeps)

lemma dll_set_last:
  assumes "dll N h p (xs @ [y]) q" "y \<notin> set xs" "h y = Some n"
  shows "dll N (h(y \<mapsto> set_next N v n)) p (xs @ [y]) v"
proof -
  have "dll N (h(y \<mapsto> set_next N v n)) p xs (Some y)"
    using assms by (subst dll_cong [of xs _ h]) (auto simp: dll_append)
  with assms show ?thesis by (auto simp: dll_append)
qed

lemma dll_set_first:
  assumes "dll N h p (y # ys) q" "y \<notin> set ys" "h y = Some n"
  shows "dll N (h(y \<mapsto> set_prev N v n)) v (y # ys) q"
proof -
  have "dll N (h(y \<mapsto> set_prev N v n)) (Some y) ys q"
    using assms by (subst dll_cong [of ys _ h]) auto
  with assms show ?thesis by auto
qed

lemma dll_frame: "y \<notin> set xs \<Longrightarrow> dll N (h(y \<mapsto> n)) p xs q = dll N h p xs q"
  by (rule dll_cong) auto

text \<open>The first half of \<open>unlink\<close>: the predecessor (or the head) is made to skip the node.\<close>

lemma unlink_prev_ok:
  assumes rep: "dll N (load_node N s) None (as @ x # bs) None" "distinct (as @ x # bs)"
    and hd: "head l = head_opt (as @ x # bs)"
  obtains s' l' where
    "(case last_opt as of
        Some p \<Rightarrow> do { s \<leftarrow> put_next N s p (head_opt bs); Some (s, l) }
      | None \<Rightarrow> Some (s, l\<lparr>head := head_opt bs\<rparr>)) = Some (s', l')"
    and "dll N (load_node N s') None as (head_opt bs)"
    and "\<And>a. a \<notin> set as \<Longrightarrow> load_node N s' a = load_node N s a"
    and "\<And>a. map_option payload (load_node N s' a) = map_option payload (load_node N s a)"
    and "keeps s s'" and "head l' = head_opt (as @ bs)" and "tail l' = tail l"
proof (cases as rule: rev_cases)
  case Nil
  then show ?thesis using that [of s "l\<lparr>head := head_opt bs\<rparr>"] keeps_refl by simp
next
  case (snoc cs p)
  from rep obtain n where n: "load_node N s p = Some n" by (auto simp: snoc dll_append)
  obtain s' where s': "put_next N s p (head_opt bs) = Some s'"
    "load_node N s' = (load_node N s)(p \<mapsto> set_next N (head_opt bs) n)" "keeps s s'"
    using put_next_ok [OF n] by blast
  have "dll N (load_node N s) None (cs @ [p]) (Some x)"
    using rep(1) unfolding snoc by (simp add: dll_append)
  then have "dll N (load_node N s') None (cs @ [p]) (head_opt bs)"
    using rep(2) n unfolding s'(2) snoc by (intro dll_set_last) auto
  then show ?thesis
    using that [of s' l] s' n hd by (auto simp: snoc head_opt_append)
qed

text \<open>The second half: the successor (or the tail) is made to skip the node.\<close>

lemma unlink_next_ok:
  assumes rep: "dll N (load_node N s) (Some x) bs None" "distinct (as @ x # bs)"
    and tl: "tail l = last_opt (as @ x # bs)"
  obtains s' l' where
    "(case head_opt bs of
        Some n \<Rightarrow> do { s \<leftarrow> put_prev N s n (last_opt as); Some (s, l) }
      | None \<Rightarrow> Some (s, l\<lparr>tail := last_opt as\<rparr>)) = Some (s', l')"
    and "dll N (load_node N s') (last_opt as) bs None"
    and "\<And>a. a \<notin> set bs \<Longrightarrow> load_node N s' a = load_node N s a"
    and "\<And>a. map_option payload (load_node N s' a) = map_option payload (load_node N s a)"
    and "keeps s s'" and "head l' = head l" and "tail l' = last_opt (as @ bs)"
proof (cases bs)
  case Nil
  then show ?thesis using that [of s "l\<lparr>tail := last_opt as\<rparr>"] keeps_refl by simp
next
  case (Cons y cs)
  from rep obtain n where n: "load_node N s y = Some n" by (auto simp: Cons)
  obtain s' where s': "put_prev N s y (last_opt as) = Some s'"
    "load_node N s' = (load_node N s)(y \<mapsto> set_prev N (last_opt as) n)" "keeps s s'"
    using put_prev_ok [OF n] by blast
  have "dll N (load_node N s') (last_opt as) (y # cs) None"
    using rep n unfolding s'(2) Cons by (intro dll_set_first) auto
  then show ?thesis
    using that [of s' l] s' n tl by (auto simp: Cons last_opt_append)
qed

lemma clear_links_ok:
  assumes "load_node N s x = Some b"
  obtains s' where "do { s \<leftarrow> put_prev N s x None; put_next N s x None } = Some s'"
    and "load_node N s' = (load_node N s)(x \<mapsto> set_next N None (set_prev N None b))"
    and "keeps s s'"
proof -
  obtain s1 where s1: "put_prev N s x None = Some s1"
    "load_node N s1 = (load_node N s)(x \<mapsto> set_prev N None b)" "keeps s s1"
    using put_prev_ok [OF assms] by blast
  then have "load_node N s1 x = Some (set_prev N None b)" by simp
  from put_next_ok [OF this] obtain s2 where
    s2: "put_next N s1 x None = Some s2"
      "load_node N s2 = (load_node N s1)(x \<mapsto> set_next N None (set_prev N None b))" "keeps s1 s2"
    by blast
  with s1 show ?thesis using that [of s2] keeps_trans by simp
qed

lemma unlink_node_ok:
  assumes rep: "list_rep N s l (as @ x # bs)"
  obtains s' l' where "unlink_node N s l x = Some (s', l')"
    and "list_rep N s' l' (as @ bs)" and "keeps s s'"
    and "\<And>a. a \<notin> set (as @ x # bs) \<Longrightarrow> load_node N s' a = load_node N s a"
    and "\<And>a. map_option payload (load_node N s' a) = map_option payload (load_node N s a)"
proof -
  from rep have d: "dll N (load_node N s) None (as @ x # bs) None" "distinct (as @ x # bs)"
    and ends: "head l = head_opt (as @ x # bs)" "tail l = last_opt (as @ x # bs)"
    by (auto simp: list_rep_def)
  from d(1) obtain b where b: "load_node N s x = Some b" "get_prev N b = last_opt as"
    "get_next N b = head_opt bs"
    by (auto simp: dll_append split: if_splits)
  obtain s1 l1 where s1: "(case last_opt as of
        Some p \<Rightarrow> do { s \<leftarrow> put_next N s p (head_opt bs); Some (s, l) }
      | None \<Rightarrow> Some (s, l\<lparr>head := head_opt bs\<rparr>)) = Some (s1, l1)"
    and d1: "dll N (load_node N s1) None as (head_opt bs)"
    and f1: "\<And>a. a \<notin> set as \<Longrightarrow> load_node N s1 a = load_node N s a"
    and p1: "\<And>a. map_option payload (load_node N s1 a) = map_option payload (load_node N s a)"
    and k1: "keeps s s1" and e1: "head l1 = head_opt (as @ bs)" "tail l1 = tail l"
    by (rule unlink_prev_ok [OF d ends(1)]) (rule that)
  have b1: "load_node N s1 x = Some b" using f1 [of x] d(2) b(1) by auto
  have db: "dll N (load_node N s1) (Some x) bs None"
    using d f1 by (subst dll_cong [of bs _ "load_node N s"]) (auto simp: dll_append)
  have tl1: "tail l1 = last_opt (as @ x # bs)" using e1(2) ends(2) by simp
  obtain s2 l2 where s2: "(case head_opt bs of
        Some n \<Rightarrow> do { s \<leftarrow> put_prev N s1 n (last_opt as); Some (s, l1) }
      | None \<Rightarrow> Some (s1, l1\<lparr>tail := last_opt as\<rparr>)) = Some (s2, l2)"
    and d2: "dll N (load_node N s2) (last_opt as) bs None"
    and f2: "\<And>a. a \<notin> set bs \<Longrightarrow> load_node N s2 a = load_node N s1 a"
    and p2: "\<And>a. map_option payload (load_node N s2 a) = map_option payload (load_node N s1 a)"
    and k2: "keeps s1 s2" and e2: "head l2 = head l1" "tail l2 = last_opt (as @ bs)"
    by (rule unlink_next_ok [OF db d(2) tl1]) (rule that)
  have b2: "load_node N s2 x = Some b" using f2 [of x] d(2) b1 by auto
  obtain s3 where s3: "do { s \<leftarrow> put_prev N s2 x None; put_next N s x None } = Some s3"
    and h3: "load_node N s3 = (load_node N s2)(x \<mapsto> set_next N None (set_prev N None b))"
    and k3: "keeps s2 s3"
    using clear_links_ok [OF b2] by blast
  have "dll N (load_node N s2) None as (head_opt bs)"
    using d1 f2 d(2) by (subst dll_cong [of as _ "load_node N s1"]) auto
  then have "dll N (load_node N s3) None (as @ bs) None"
    using d2 d(2) unfolding h3 by (auto simp: dll_append dll_frame)
  then have "list_rep N s3 l2 (as @ bs)"
    using d(2) e1 e2 by (simp add: list_rep_def)
  moreover have "unlink_node N s l x = Some (s3, l2)"
    using s3 by (auto simp: unlink_node_def b(1) b1 bind_Some_iff
        s1 [folded b(2,3)] s2 [folded b(2,3)])
  moreover have "keeps s s3" using k1 k2 k3 keeps_trans by blast
  moreover have "load_node N s3 a = load_node N s a" if "a \<notin> set (as @ x # bs)" for a
    using that f1 f2 by (simp add: h3)
  moreover have "map_option payload (load_node N s3 a) = map_option payload (load_node N s a)" for a
    using p1 p2 [of a] b2 by (auto simp: h3)
  ultimately show ?thesis using that by blast
qed

lemma append_node_ok:
  assumes rep: "list_rep N s l xs" and x: "x \<notin> set xs" "load_node N s x = Some b"
  obtains s' l' where "append_node N s l x = Some (s', l')"
    and "list_rep N s' l' (xs @ [x])" and "keeps s s'"
    and "\<And>a. a \<notin> set (xs @ [x]) \<Longrightarrow> load_node N s' a = load_node N s a"
    and "\<And>a. map_option payload (load_node N s' a) = map_option payload (load_node N s a)"
proof -
  from rep have d: "dll N (load_node N s) None xs None" "distinct xs"
    and ends: "head l = head_opt xs" "tail l = last_opt xs"
    by (auto simp: list_rep_def)
  obtain s1 where s1: "put_next N s x None = Some s1"
    "load_node N s1 = (load_node N s)(x \<mapsto> set_next N None b)" "keeps s s1"
    using put_next_ok [OF x(2)] by blast
  then have "load_node N s1 x = Some (set_next N None b)" by simp
  from put_prev_ok [OF this] obtain s2 where s2: "put_prev N s1 x (tail l) = Some s2"
    "load_node N s2 = (load_node N s1)(x \<mapsto> set_prev N (tail l) (set_next N None b))" "keeps s1 s2"
    by blast
  have h2: "load_node N s2 = (load_node N s)(x \<mapsto> set_prev N (tail l) (set_next N None b))"
    by (simp add: s1 s2)
  have k2: "keeps s s2" using s1 s2 keeps_trans by blast
  show ?thesis
  proof (cases xs rule: rev_cases)
    case Nil
    then show ?thesis
      using that [of s2 "l\<lparr>head := Some x, tail := Some x\<rparr>"] s1(1) s2(1) k2 ends x
      by (auto simp: append_node_def list_rep_def h2)
  next
    case (snoc ys t)
    have tl: "tail l = Some t" using ends snoc by simp
    from d obtain n where n: "load_node N s t = Some n" by (auto simp: snoc dll_append)
    have "load_node N s2 t = Some n" using n x by (auto simp: h2 snoc)
    from put_next_ok [OF this] obtain s3 where s3: "put_next N s2 t (Some x) = Some s3"
      "load_node N s3 = (load_node N s2)(t \<mapsto> set_next N (Some x) n)" "keeps s2 s3"
      by blast
    have "dll N ((load_node N s)(t \<mapsto> set_next N (Some x) n)) None (ys @ [t]) (Some x)"
      using d n unfolding snoc by (intro dll_set_last) auto
    then have "dll N (load_node N s3) None (ys @ [t]) (Some x)"
      using x by (subst dll_cong [of _ _ "(load_node N s)(t \<mapsto> set_next N (Some x) n)"])
        (auto simp: snoc h2 s3)
    then have "dll N (load_node N s3) None (ys @ [t] @ [x]) None"
      using x tl snoc by (auto simp: dll_append [of _ _ _ "ys @ [t]" "[x]", simplified] s3 h2)
    then have "list_rep N s3 (l\<lparr>tail := Some x\<rparr>) (xs @ [x])"
      using d x ends by (auto simp: list_rep_def snoc head_opt_append last_opt_append)
    then show ?thesis
      using that [of s3 "l\<lparr>tail := Some x\<rparr>"] s1(1) s2(1) s3 k2 tl x n keeps_trans
      by (auto simp: append_node_def h2 snoc)
  qed
qed

lemma insert_before_node_ok:
  assumes rep: "list_rep N s l (as @ c # bs)" and x: "x \<notin> set (as @ c # bs)" "load_node N s x = Some b"
  obtains s' l' where "insert_before_node N s l x c = Some (s', l')"
    and "list_rep N s' l' (as @ x # c # bs)" and "keeps s s'"
    and "\<And>a. a \<notin> set (as @ x # c # bs) \<Longrightarrow> load_node N s' a = load_node N s a"
    and "\<And>a. map_option payload (load_node N s' a) = map_option payload (load_node N s a)"
proof -
  from rep have d: "dll N (load_node N s) None (as @ c # bs) None" "distinct (as @ c # bs)"
    and ends: "head l = head_opt (as @ c # bs)" "tail l = last_opt (as @ c # bs)"
    by (auto simp: list_rep_def)
  from d(1) obtain nc where nc: "load_node N s c = Some nc" "get_prev N nc = last_opt as"
    by (auto simp: dll_append split: if_splits)
  obtain s1 where s1: "put_next N s x (Some c) = Some s1"
    "load_node N s1 = (load_node N s)(x \<mapsto> set_next N (Some c) b)" "keeps s s1"
    using put_next_ok [OF x(2)] by blast
  have "load_node N s1 x = Some (set_next N (Some c) b)" by (simp add: s1)
  from put_prev_ok [OF this] obtain s2 where s2: "put_prev N s1 x (last_opt as) = Some s2"
    "load_node N s2 = (load_node N s1)(x \<mapsto> set_prev N (last_opt as) (set_next N (Some c) b))" "keeps s1 s2"
    by blast
  have h2: "load_node N s2 = (load_node N s)(x \<mapsto> set_prev N (last_opt as) (set_next N (Some c) b))"
    by (simp add: s1 s2)
  have d2: "dll N (load_node N s2) None (as @ c # bs) None" using d(1) x(1) by (simp add: h2 dll_frame)
  have c2: "load_node N s2 c = Some nc" using nc(1) x(1) by (auto simp: h2)
  have "\<exists>s3 l3. (case last_opt as of
       Some p \<Rightarrow> do { s \<leftarrow> put_next N s2 p (Some x); Some (s, l) }
     | None \<Rightarrow> Some (s2, l\<lparr>head := Some x\<rparr>)) = Some (s3, l3) \<and>
     dll N (load_node N s3) None as (Some x) \<and>
     (\<forall>a. a \<notin> set as \<longrightarrow> load_node N s3 a = load_node N s2 a) \<and>
     (\<forall>a. map_option payload (load_node N s3 a) = map_option payload (load_node N s2 a)) \<and>
     keeps s2 s3 \<and> head l3 = head_opt (as @ x # c # bs) \<and> tail l3 = tail l"
  proof (cases as rule: rev_cases)
    case Nil
    then show ?thesis using keeps_refl by simp
  next
    case (snoc cs p)
    from d2 obtain n where n: "load_node N s2 p = Some n" by (auto simp: snoc dll_append)
    obtain s3 where s3: "put_next N s2 p (Some x) = Some s3"
      "load_node N s3 = (load_node N s2)(p \<mapsto> set_next N (Some x) n)" "keeps s2 s3"
      using put_next_ok [OF n] by blast
    have "dll N (load_node N s2) None (cs @ [p]) (Some c)" using d2 by (simp add: snoc dll_append)
    then have "dll N (load_node N s3) None (cs @ [p]) (Some x)"
      using d(2) n unfolding s3(2) snoc by (intro dll_set_last) auto
    then show ?thesis using s3 n ends(1) by (auto simp: snoc head_opt_append)
  qed
  then obtain s3 l3 where s3: "(case last_opt as of
       Some p \<Rightarrow> do { s \<leftarrow> put_next N s2 p (Some x); Some (s, l) }
     | None \<Rightarrow> Some (s2, l\<lparr>head := Some x\<rparr>)) = Some (s3, l3)"
    and d3: "dll N (load_node N s3) None as (Some x)"
    and f3: "\<And>a. a \<notin> set as \<Longrightarrow> load_node N s3 a = load_node N s2 a"
    and p3: "\<And>a. map_option payload (load_node N s3 a) = map_option payload (load_node N s2 a)"
    and k3: "keeps s2 s3" and e3: "head l3 = head_opt (as @ x # c # bs)" "tail l3 = tail l" by blast
  have "load_node N s3 c = Some nc" using f3 [of c] c2 d(2) by auto
  from put_prev_ok [OF this] obtain s4 where s4: "put_prev N s3 c (Some x) = Some s4"
    "load_node N s4 = (load_node N s3)(c \<mapsto> set_prev N (Some x) nc)" "keeps s3 s4"
    by blast
  have cb: "dll N (load_node N s3) (last_opt as) (c # bs) None"
    using d2 d(2) f3 by (subst dll_cong [of _ _ "load_node N s2"]) (auto simp: dll_append split: if_splits)
  have "dll N (load_node N s4) (Some x) (c # bs) None"
    unfolding s4(2) by (rule dll_set_first [OF cb]) (use d(2) \<open>load_node N s3 c = Some nc\<close> in auto)
  moreover have "dll N (load_node N s4) None as (Some x)" using d3 d(2) by (simp add: s4 dll_frame)
  moreover have "load_node N s4 x = Some (set_prev N (last_opt as) (set_next N (Some c) b))"
    using f3 [of x] x(1) by (auto simp: s4 h2)
  ultimately have "dll N (load_node N s4) None (as @ x # c # bs) None" by (simp add: dll_append)
  then have "list_rep N s4 l3 (as @ x # c # bs)"
    using d(2) x(1) e3 ends(2) by (auto simp: list_rep_def last_opt_append)
  moreover have "insert_before_node N s l x c = Some (s4, l3)"
    using s1(1) s2(1) s3 s4(1) nc x(1) by (auto simp: insert_before_node_def s1(2))
  moreover have "keeps s s4" using s1(3) s2(3) k3 s4(3) keeps_trans by blast
  moreover have "load_node N s4 a = load_node N s a" if "a \<notin> set (as @ x # c # bs)" for a
    using that f3 by (simp add: s4 h2)
  moreover have "map_option payload (load_node N s4 a) = map_option payload (load_node N s a)" for a
    using p3 [of a] x(2) \<open>load_node N s3 c = Some nc\<close> by (auto simp: s4 h2)
  ultimately show ?thesis using that by blast
qed

end

end
