(* ===== verification/Pool_Allocator.thy ===== *)
theory Pool_Allocator
  imports Prelude Intrusive_List
begin

text \<open>
  The fixed-size pool of \<open>4_order_book_proj/src/allocator.hpp\<close>.

  The pool is one anonymous mapping of \<open>Size\<close> slots; a slot either holds an object of type \<open>T\<close> or,
  while it is free, the \<open>next\<close> pointer of the free list, which reuses the slot's first bytes. A slot is
  therefore a tagged union, and using a slot under the wrong tag (a dangling object pointer, a
  corrupted free list) is undefined behaviour. Addresses are natural numbers; \<open>mmap\<close> is a parameter
  that gives the address of the mapping, or \<open>None\<close> for \<open>MAP_FAILED\<close>.

  \<open>pool_rep\<close> relates a pool to the list of its free slots. The locale \<open>slot_pool\<close> states what the
  engine relies on (a slot is handed out iff one is free, it comes from the front of the free list, a
  returned slot becomes the new front) and derives the behaviour of runs of allocations from it.
\<close>

datatype exn = bad_alloc | invalid_argument

datatype 'a slot = Raw | Link "addr option" | Obj 'a

record 'a Allocator =
  buffer :: addr
  free_head :: "addr option"
  mem :: "addr \<rightharpoonup> 'a slot"

definition used_size :: "nat \<Rightarrow> nat" where
  "used_size sizeof_T = max sizeof_T 8"

text \<open>The addresses of the slots of a mapping at \<open>base\<close>, and the zero-filled mapping itself.\<close>

definition slots :: "addr \<Rightarrow> nat \<Rightarrow> nat \<Rightarrow> addr list" where
  "slots base us Size = map (\<lambda>i. base + i * us) [0..<Size]"

definition mmap_region :: "addr \<Rightarrow> nat \<Rightarrow> nat \<Rightarrow> (addr \<rightharpoonup> 'a slot)" where
  "mmap_region base us Size = (\<lambda>a. if a \<in> set (slots base us Size) then Some Raw else None)"

text \<open>The constructor's loop, from the last slot down to the first.\<close>

function link_slots :: "addr \<Rightarrow> nat \<Rightarrow> addr \<Rightarrow> (addr \<rightharpoonup> 'a slot) \<Rightarrow> (addr \<rightharpoonup> 'a slot)" where
  "link_slots base sizeof_T current m =
     (if base < current
      then let current' = current - used_size sizeof_T
           in link_slots base sizeof_T current'
                (m(current' \<mapsto> Link (Some (current' + used_size sizeof_T))))
      else m)"
  by pat_completeness auto
termination
  by (relation "measure (\<lambda>(base, us, current, m). current - base)") (auto simp: used_size_def)

declare link_slots.simps [simp del]

definition Allocator_new :: "nat \<Rightarrow> nat \<Rightarrow> addr option \<Rightarrow> exn + 'a Allocator" where
  "Allocator_new sizeof_T Size mmap =
     (case mmap of
        None \<Rightarrow> Inl bad_alloc
      | Some base \<Rightarrow>
          let us = used_size sizeof_T;
              current = base + (Size - 1) * us;
              m = (mmap_region base us Size)(current \<mapsto> Link None)
          in Inr \<lparr>buffer = base, free_head = Some base, mem = link_slots base sizeof_T current m\<rparr>)"

definition full :: "'a Allocator \<Rightarrow> bool" where
  "full A \<longleftrightarrow> free_head A = None"

definition allocate :: "'a Allocator \<Rightarrow> ('a Allocator \<times> addr option) option" where
  "allocate A =
     (case free_head A of
        None \<Rightarrow> Some (A, None)
      | Some h \<Rightarrow>
          (case mem A h of
             Some (Link n) \<Rightarrow> Some (A\<lparr>free_head := n\<rparr>, Some h)
           | _ \<Rightarrow> None))"

definition deallocate :: "'a Allocator \<Rightarrow> addr \<Rightarrow> 'a Allocator option" where
  "deallocate A p =
     (if p \<in> dom (mem A)
      then Some (A\<lparr>mem := (mem A)(p \<mapsto> Link (free_head A)), free_head := Some p\<rparr>)
      else None)"

text \<open>Object accesses through a pointer into the pool.\<close>

definition load_obj :: "'a Allocator \<Rightarrow> addr \<Rightarrow> 'a option" where
  "load_obj A p = (case mem A p of Some (Obj x) \<Rightarrow> Some x | _ \<Rightarrow> None)"

definition save_obj :: "'a Allocator \<Rightarrow> addr \<Rightarrow> 'a \<Rightarrow> 'a Allocator option" where
  "save_obj A p x = (if p \<in> dom (mem A) then Some (A\<lparr>mem := (mem A)(p \<mapsto> Obj x)\<rparr>) else None)"

section \<open>The free list\<close>

primrec free_path :: "(addr \<rightharpoonup> 'a slot) \<Rightarrow> addr option \<Rightarrow> addr list \<Rightarrow> bool" where
  "free_path m x [] \<longleftrightarrow> x = None"
| "free_path m x (a # fs) \<longleftrightarrow> x = Some a \<and> (\<exists>n. m a = Some (Link n) \<and> free_path m n fs)"

definition pool_rep :: "addr set \<Rightarrow> 'a Allocator \<Rightarrow> addr list \<Rightarrow> bool" where
  "pool_rep S A fs \<longleftrightarrow>
     dom (mem A) = S \<and> distinct fs \<and> set fs \<subseteq> S \<and> free_path (mem A) (free_head A) fs"

lemma free_path_cong:
  "(\<And>a. a \<in> set fs \<Longrightarrow> m a = m' a) \<Longrightarrow> free_path m x fs = free_path m' x fs"
  by (induction fs arbitrary: x) auto

lemma free_path_upd [simp]: "p \<notin> set fs \<Longrightarrow> free_path (m(p \<mapsto> v)) x fs = free_path m x fs"
  by (rule free_path_cong) auto

lemma set_slots: "a \<in> set (slots base us Size) \<longleftrightarrow> (\<exists>i<Size. a = base + i * us)"
  by (auto simp: slots_def)

lemma distinct_slots: "0 < us \<Longrightarrow> distinct (slots base us Size)"
  by (auto simp: slots_def distinct_map inj_on_def)

lemma used_size_pos [simp]: "0 < used_size sizeof_T" "used_size sizeof_T \<noteq> 0"
  by (simp_all add: used_size_def)

text \<open>After the loop every slot links to the next one and the last one ends the list.\<close>

lemma link_slots_eq:
  "link_slots base sz (base + k * used_size sz) m =
     (\<lambda>a. if \<exists>i<k. a = base + i * used_size sz then Some (Link (Some (a + used_size sz))) else m a)"
proof (induction k arbitrary: m)
  case 0
  then show ?case by (simp add: link_slots.simps)
next
  case (Suc k)
  let ?u = "used_size sz" and ?c = "base + k * used_size sz"
  have step: "link_slots base sz (base + Suc k * ?u) m =
      link_slots base sz ?c (m(?c \<mapsto> Link (Some (?c + ?u))))"
    by (subst link_slots.simps) (simp add: Let_def used_size_pos)
  have "(\<exists>i<Suc k. a = base + i * ?u) \<longleftrightarrow> a = ?c \<or> (\<exists>i<k. a = base + i * ?u)" for a
    by (auto simp: less_Suc_eq)
  then show ?case unfolding step Suc.IH by (auto simp: fun_eq_iff)
qed

lemma free_path_slots:
  assumes "\<And>j. j < n \<Longrightarrow> m (b + j * us) = Some (Link (if Suc j = n then None else Some (b + Suc j * us)))"
  shows "free_path m (if n = 0 then None else Some b) (map (\<lambda>j. b + j * us) [0..<n])"
  using assms
proof (induction n arbitrary: b)
  case 0
  then show ?case by simp
next
  case (Suc n)
  have "free_path m (if n = 0 then None else Some (b + us)) (map (\<lambda>j. b + us + j * us) [0..<n])"
    using Suc.prems [of "Suc _"] by (intro Suc.IH) (auto simp: algebra_simps)
  moreover have "map (\<lambda>j. b + j * us) [0..<Suc n] = b # map (\<lambda>j. b + us + j * us) [0..<n]"
    by (simp add: map_upt_Suc add.assoc del: upt_Suc)
  moreover have "m b = Some (Link (if n = 0 then None else Some (b + us)))"
    using Suc.prems [of 0] by auto
  ultimately show ?case by (auto simp del: upt_Suc)
qed

lemma Allocator_new_rep:
  assumes "0 < Size" and new: "Allocator_new sz Size (Some base) = Inr A"
  shows "pool_rep (set (slots base (used_size sz) Size)) A (slots base (used_size sz) Size)"
    and "buffer A = base"
proof -
  let ?u = "used_size sz" and ?last = "base + (Size - 1) * used_size sz"
  from new have A: "buffer A = base" "free_head A = Some base"
    "mem A = (\<lambda>a. if \<exists>i<Size - 1. a = base + i * ?u then Some (Link (Some (a + ?u)))
                 else ((mmap_region base ?u Size)(?last \<mapsto> Link None)) a)"
    by (auto simp: Allocator_new_def Let_def link_slots_eq simp del: One_nat_def)
  have dom: "dom (mem A) = set (slots base ?u Size)"
  proof -
    have "mem A a \<noteq> None \<longleftrightarrow> (\<exists>i<Size. a = base + i * ?u)" for a
    proof -
      have "(\<exists>i<Size. a = base + i * ?u) \<longleftrightarrow> (\<exists>i<Size - 1. a = base + i * ?u) \<or> a = ?last"
        using \<open>0 < Size\<close> by (metis One_nat_def Suc_pred' less_Suc_eq)
      then show ?thesis by (auto simp: A mmap_region_def set_slots)
    qed
    then show ?thesis by (auto simp: dom_def set_slots)
  qed
  have "free_path (mem A) (if Size = 0 then None else Some base) (map (\<lambda>j. base + j * ?u) [0..<Size])"
  proof (rule free_path_slots)
    fix j assume j: "j < Size"
    show "mem A (base + j * ?u) =
        Some (Link (if Suc j = Size then None else Some (base + Suc j * ?u)))"
    proof (cases "Suc j = Size")
      case True
      then show ?thesis by (auto simp: A)
    next
      case False
      with j have "\<exists>i<Size - 1. base + j * ?u = base + i * ?u" by (intro exI [of _ j]) auto
      then show ?thesis using False by (simp add: A algebra_simps)
    qed
  qed
  then show "pool_rep (set (slots base ?u Size)) A (slots base ?u Size)"
    using \<open>0 < Size\<close> dom by (simp add: pool_rep_def distinct_slots A(2)) (simp add: slots_def)
  show "buffer A = base" by (rule A(1))
qed

section \<open>The pool contract\<close>

primrec alloc_many ::
  "('p \<Rightarrow> ('p \<times> addr option) option) \<Rightarrow> nat \<Rightarrow> 'p \<Rightarrow> ('p \<times> addr option list) option" where
  "alloc_many al 0 p = Some (p, [])"
| "alloc_many al (Suc n) p =
     do { (p, a) \<leftarrow> al p; (p, as) \<leftarrow> alloc_many al n p; Some (p, a # as) }"

locale slot_pool =
  fixes rep :: "'p \<Rightarrow> addr list \<Rightarrow> bool"
    and S :: "addr set"
    and alloc :: "'p \<Rightarrow> ('p \<times> addr option) option"
    and dealloc :: "'p \<Rightarrow> addr \<Rightarrow> 'p option"
  assumes rep_free: "rep p fs \<Longrightarrow> distinct fs \<and> set fs \<subseteq> S"
    and alloc_empty: "rep p [] \<Longrightarrow> alloc p = Some (p, None)"
    and alloc_front: "rep p (a # fs) \<Longrightarrow> \<exists>p'. alloc p = Some (p', Some a) \<and> rep p' fs"
    and dealloc_front:
      "rep p fs \<Longrightarrow> a \<in> S \<Longrightarrow> a \<notin> set fs \<Longrightarrow> \<exists>p'. dealloc p a = Some p' \<and> rep p' (a # fs)"
begin

lemma alloc_head:
  "rep p fs \<Longrightarrow> \<exists>p'. alloc p = Some (p', head_opt fs) \<and> rep p' (tl fs)"
  using alloc_empty alloc_front by (cases fs) auto

lemma alloc_many_ok:
  "rep p fs \<Longrightarrow> \<exists>p'. alloc_many alloc n p =
       Some (p', map Some (take n fs) @ replicate (n - length fs) None) \<and> rep p' (drop n fs)"
proof (induction n arbitrary: p fs)
  case 0
  then show ?case by simp
next
  case (Suc n)
  obtain p1 where p1: "alloc p = Some (p1, head_opt fs)" "rep p1 (tl fs)"
    using alloc_head [OF Suc.prems] by blast
  show ?case using Suc.IH [OF p1(2)] p1(1) by (cases fs) auto
qed

text \<open>A slot that is returned is the next one to be handed out.\<close>

lemma dealloc_alloc:
  assumes "rep p fs" "a \<in> S" "a \<notin> set fs"
  shows "\<exists>p' p''. dealloc p a = Some p' \<and> alloc p' = Some (p'', Some a) \<and> rep p'' fs"
  using dealloc_front [OF assms] alloc_front by blast

end

interpretation pool: slot_pool "pool_rep S" S allocate deallocate for S
  by unfold_locales (auto simp: pool_rep_def allocate_def deallocate_def dom_def)

lemma full_iff: "pool_rep S A fs \<Longrightarrow> full A \<longleftrightarrow> fs = []"
  by (cases fs) (auto simp: full_def pool_rep_def)

lemma load_save_obj: "save_obj A p x = Some A' \<Longrightarrow> load_obj A' = (load_obj A)(p \<mapsto> x)"
  by (auto simp: load_obj_def save_obj_def fun_eq_iff split: if_splits)

lemma pool_rep_save:
  "pool_rep S A fs \<Longrightarrow> p \<notin> set fs \<Longrightarrow> save_obj A p x = Some A' \<Longrightarrow> pool_rep S A' fs"
  by (auto simp: save_obj_def pool_rep_def split: if_splits)

lemma save_obj_ok: "pool_rep S A fs \<Longrightarrow> p \<in> S \<Longrightarrow> \<exists>A'. save_obj A p x = Some A'"
  by (auto simp: save_obj_def pool_rep_def)

lemma free_path_Link: "free_path m x fs \<Longrightarrow> a \<in> set fs \<Longrightarrow> \<exists>n. m a = Some (Link n)"
  by (induction fs arbitrary: x) auto

lemma load_obj_not_free: "pool_rep S A fs \<Longrightarrow> load_obj A p = Some x \<Longrightarrow> p \<notin> set fs \<and> p \<in> S"
  by (auto simp: pool_rep_def load_obj_def dom_def dest!: free_path_Link split: option.splits slot.splits)

lemma load_obj_allocate:
  "allocate A = Some (A', r) \<Longrightarrow> load_obj A' = load_obj A"
  by (auto simp: allocate_def load_obj_def fun_eq_iff split: option.splits slot.splits)

lemma load_obj_deallocate:
  "deallocate A p = Some A' \<Longrightarrow> load_obj A' = (load_obj A)(p := None)"
  by (auto simp: deallocate_def load_obj_def fun_eq_iff split: if_splits)

section \<open>Runs of pool operations\<close>

text \<open>
  A client of the pool allocates, writes objects through the pointers it holds and returns such
  pointers; \<open>L\<close> is the set of slots it holds.
\<close>

inductive pool_step :: "'a Allocator \<times> addr set \<Rightarrow> 'a Allocator \<times> addr set \<Rightarrow> bool" where
  step_alloc: "allocate A = Some (A', Some a) \<Longrightarrow> pool_step (A, L) (A', insert a L)"
| step_null: "allocate A = Some (A', None) \<Longrightarrow> pool_step (A, L) (A', L)"
| step_dealloc: "a \<in> L \<Longrightarrow> deallocate A a = Some A' \<Longrightarrow> pool_step (A, L) (A', L - {a})"
| step_write: "a \<in> L \<Longrightarrow> save_obj A a x = Some A' \<Longrightarrow> pool_step (A, L) (A', L)"

inductive pool_reach :: "nat \<Rightarrow> nat \<Rightarrow> addr \<Rightarrow> 'a Allocator \<times> addr set \<Rightarrow> bool"
  for sz Size :: nat and base :: addr where
  reach_new: "Allocator_new sz Size (Some base) = Inr A \<Longrightarrow> pool_reach sz Size base (A, {})"
| reach_step: "pool_reach sz Size base st \<Longrightarrow> pool_step st st' \<Longrightarrow> pool_reach sz Size base st'"

definition pool_inv :: "addr set \<Rightarrow> 'a Allocator \<times> addr set \<Rightarrow> bool" where
  "pool_inv S st \<longleftrightarrow> (\<exists>fs. pool_rep S (fst st) fs \<and> snd st = S - set fs)"

lemma pool_step_inv: "pool_step st st' \<Longrightarrow> pool_inv S st \<Longrightarrow> pool_inv S st'"
proof (induction rule: pool_step.induct)
  case (step_alloc A A' a L)
  then obtain fs where fs: "pool_rep S A fs" "L = S - set fs" by (auto simp: pool_inv_def)
  from pool.alloc_head [OF fs(1)] step_alloc.hyps have "head_opt fs = Some a" "pool_rep S A' (tl fs)"
    by auto
  then show ?case using fs pool.rep_free [OF fs(1)]
    by (auto simp: pool_inv_def head_opt_Some_iff)
next
  case (step_null A A' L)
  then obtain fs where fs: "pool_rep S A fs" "L = S - set fs" by (auto simp: pool_inv_def)
  from pool.alloc_head [OF fs(1)] step_null.hyps have "head_opt fs = None" "pool_rep S A' (tl fs)"
    by auto
  then show ?case using fs by (auto simp: pool_inv_def)
next
  case (step_dealloc a L A A')
  then obtain fs where fs: "pool_rep S A fs" "L = S - set fs" by (auto simp: pool_inv_def)
  from pool.dealloc_front [OF fs(1), of a] step_dealloc.hyps fs(2)
  have "pool_rep S A' (a # fs)" by auto
  then show ?case using fs by (fastforce simp: pool_inv_def)
next
  case (step_write a L A x A')
  then show ?case by (auto simp: pool_inv_def intro: pool_rep_save)
qed

lemma pool_reach_inv:
  assumes "0 < Size"
  shows "pool_reach sz Size base st \<Longrightarrow> pool_inv (set (slots base (used_size sz) Size)) st"
proof (induction rule: pool_reach.induct)
  case (reach_new A)
  then show ?case using Allocator_new_rep(1) [OF assms] by (fastforce simp: pool_inv_def)
next
  case (reach_step st st')
  then show ?case by (blast intro: pool_step_inv)
qed

lemma slots_apart:
  assumes "a \<in> set (slots base (used_size sz) Size)" "b \<in> set (slots base (used_size sz) Size)" "a \<noteq> b"
  shows "a + sz \<le> b \<or> b + sz \<le> a"
proof -
  let ?u = "used_size sz"
  obtain i j where ij: "a = base + i * ?u" "b = base + j * ?u" using assms by (auto simp: set_slots)
  have gap: "k * ?u + sz \<le> l * ?u" if "k < l" for k l
  proof -
    have "k * ?u + ?u \<le> l * ?u" using that by (metis Suc_leI add.commute mult_Suc mult_le_mono1)
    then show ?thesis by (simp add: used_size_def)
  qed
  show ?thesis using assms(3) gap [of i j] gap [of j i] ij by (cases i j rule: linorder_cases) auto
qed

text \<open>
  C23: the pool contract. After any sequence of allocations, writes and returns of held slots,
  \<open>allocate\<close> never runs into undefined behaviour; it returns \<open>nullptr\<close> exactly when the pool is
  \<open>full\<close>, which is when all \<open>Size\<close> slots are held; and a slot it returns lies in the mapping, is not
  held by anyone and does not overlap any slot that is held.
\<close>

theorem allocate_contract:
  assumes "0 < Size" and reach: "pool_reach sz Size base (A, L)"
  shows "\<exists>A' r. allocate A = Some (A', r) \<and>
     (r = None \<longleftrightarrow> full A) \<and> (full A \<longleftrightarrow> card L = Size) \<and>
     (\<forall>a. r = Some a \<longrightarrow> a \<in> set (slots base (used_size sz) Size) \<and> a \<notin> L \<and>
        (\<forall>b\<in>L. a + sz \<le> b \<or> b + sz \<le> a))"
proof -
  let ?S = "set (slots base (used_size sz) Size)"
  obtain fs where fs: "pool_rep ?S A fs" "L = ?S - set fs"
    using pool_reach_inv [OF assms] by (auto simp: pool_inv_def)
  have free: "distinct fs" "set fs \<subseteq> ?S" using pool.rep_free [OF fs(1)] by auto
  have "card ?S = Size" by (simp add: distinct_card distinct_slots) (simp add: slots_def)
  then have card: "card L = Size - length fs" "length fs \<le> Size"
    using free fs(2) by (auto simp: card_Diff_subset distinct_card card_mono [OF _ free(2)]
        dest: card_mono [OF finite_set])
  obtain A' where A': "allocate A = Some (A', head_opt fs)" using pool.alloc_head [OF fs(1)] by blast
  have "a \<in> ?S \<and> a \<notin> L \<and> (\<forall>b\<in>L. a + sz \<le> b \<or> b + sz \<le> a)" if "head_opt fs = Some a" for a
    using that free fs(2) slots_apart [of a base sz Size] by (fastforce simp: head_opt_Some_iff)
  moreover have "card L = Size \<longleftrightarrow> fs = []" using card \<open>0 < Size\<close> by (cases fs) auto
  ultimately show ?thesis using A' full_iff [OF fs(1)] by auto
qed

definition pool_3 :: "unit Allocator" where
  "pool_3 = \<lparr>buffer = 4096, free_head = Some 4096,
     mem = link_slots 4096 4 (4096 + 2 * 8) ((mmap_region 4096 8 3)(4096 + 2 * 8 \<mapsto> Link None))\<rparr>"

theorem allocate_contract_witness:
  "pool_reach 4 3 4096 (pool_3, {}) \<and>
   (\<exists>A' r. allocate pool_3 = Some (A', r) \<and>
     (r = None \<longleftrightarrow> full pool_3) \<and> (full pool_3 \<longleftrightarrow> card ({} :: addr set) = 3))"
proof -
  have r: "pool_reach 4 3 4096 (pool_3, {})"
    by (rule reach_new) (simp add: Allocator_new_def used_size_def pool_3_def)
  show ?thesis using r allocate_contract [OF _ r] by auto
qed

end
