(* ===== verification/Engine.thy ===== *)
theory Engine
  imports Messages Pool_Allocator Intrusive_List
begin

text \<open>
  The matching engine of \<open>4_order_book_proj/src/engine.hpp\<close>.

  The record \<open>Engine\<close> holds the members of the class. The template parameter \<open>BUFFER_SIZE\<close> is the
  length of the array \<open>order_buffer\<close>; \<open>order_blocks_map\<close> is a finite map from keys to block
  pointers; the blocks live in the pool allocator, and \<open>Engine_unlink\<close> and \<open>append_list\<close> run the
  shared pointer code on it. Two things stand for the outside: \<open>outgoing\<close> is the sequence of messages
  the engine has pushed on its outbound queue, and the clock is a parameter \<open>clk\<close> giving the result
  of the \<open>n\<close>-th call of \<open>clock_gettime\<close>, of which \<open>clock_reads\<close> have been made.

  Every access that C++ leaves undefined (a null or dangling block pointer, a level index past the
  end of \<open>order_buffer\<close>, an unknown type byte in \<open>decode\<close>) makes the operation return \<open>None\<close>; the
  exception \<open>insert_order\<close> throws on a short-sell side is the value \<open>Inl invalid_argument\<close>.
\<close>

section \<open>State\<close>

record OrderBlock =
  raw :: "byte list"
  curr_qty :: u32
  blk_id :: u64
  blk_key :: u64
  blk_prev :: "addr option"
  blk_next :: "addr option"

type_synonym timespec = "int \<times> int" \<comment> \<open>seconds and nanoseconds\<close>

record Engine =
  allocator :: "OrderBlock Allocator"
  counter :: u64
  match_counter :: u64
  order_blocks_map :: "u64 \<rightharpoonup> addr"
  buy_orders :: u64
  sell_orders :: u64
  order_buffer :: "OrderList list"
  best_buy_idx :: u64
  best_sell_idx :: u64
  clock_reads :: nat
  outgoing :: "OutboundMessage list"

definition MARKETPRICE :: u64 where
  "MARKETPRICE = 0x7FFFFFFF"

definition BUFFER_SIZE :: "Engine \<Rightarrow> u64" where
  "BUFFER_SIZE e = of_nat (length (order_buffer e))"

definition Engine_new :: "nat \<Rightarrow> OrderBlock Allocator \<Rightarrow> Engine" where
  "Engine_new buffer_size A =
     \<lparr>allocator = A, counter = 0, match_counter = 0, order_blocks_map = Map.empty,
      buy_orders = 0, sell_orders = 0,
      order_buffer = replicate buffer_size OrderList_empty,
      best_buy_idx = 0, best_sell_idx = of_nat buffer_size,
      clock_reads = 0, outgoing = []\<rparr>"

definition order_key :: "u32 \<Rightarrow> u32 \<Rightarrow> u64" where
  "order_key account user_ref_num = (push_bit 32 (ucast account)) OR (ucast user_ref_num)"

definition key_account :: "u64 \<Rightarrow> u32" where
  "key_account k = ucast (drop_bit 32 k)"

definition key_user_ref_num :: "u64 \<Rightarrow> u32" where
  "key_user_ref_num k = ucast k"

section \<open>Block and level accesses\<close>

definition block_ops :: "(OrderBlock Allocator, OrderBlock) node_ops" where
  "block_ops =
     \<lparr>load_node = load_obj, save_node = save_obj,
      get_next = blk_next, set_next = (\<lambda>v b. b\<lparr>blk_next := v\<rparr>),
      get_prev = blk_prev, set_prev = (\<lambda>v b. b\<lparr>blk_prev := v\<rparr>)\<rparr>"

definition block_at :: "Engine \<Rightarrow> addr \<Rightarrow> OrderBlock option" where
  "block_at e p = load_obj (allocator e) p"

definition set_block :: "Engine \<Rightarrow> addr \<Rightarrow> OrderBlock \<Rightarrow> Engine option" where
  "set_block e p b = do { A \<leftarrow> save_obj (allocator e) p b; Some (e\<lparr>allocator := A\<rparr>) }"

definition level :: "Engine \<Rightarrow> u64 \<Rightarrow> OrderList option" where
  "level e i = (if unat i < length (order_buffer e) then Some (order_buffer e ! unat i) else None)"

definition Engine_unlink :: "Engine \<Rightarrow> addr \<Rightarrow> u64 \<Rightarrow> Engine option" where
  "Engine_unlink e block idx = do {
     l \<leftarrow> level e idx;
     (A, l) \<leftarrow> unlink_node block_ops (allocator e) l block;
     Some (e\<lparr>allocator := A, order_buffer := (order_buffer e)[unat idx := l]\<rparr>)
   }"

definition append_list :: "Engine \<Rightarrow> addr \<Rightarrow> u64 \<Rightarrow> Engine option" where
  "append_list e block idx = do {
     l \<leftarrow> level e idx;
     (A, l) \<leftarrow> append_node block_ops (allocator e) l block;
     Some (e\<lparr>allocator := A, order_buffer := (order_buffer e)[unat idx := l]\<rparr>)
   }"

definition Engine_deallocate :: "Engine \<Rightarrow> addr \<Rightarrow> Engine option" where
  "Engine_deallocate e p = do { A \<leftarrow> deallocate (allocator e) p; Some (e\<lparr>allocator := A\<rparr>) }"

section \<open>Outbound messages\<close>

text \<open>The C++ remainder operator truncates towards zero.\<close>

definition c_rem :: "int \<Rightarrow> int \<Rightarrow> int" where
  "c_rem a b = sgn a * (\<bar>a\<bar> mod \<bar>b\<bar>)"

definition timestamp :: "(nat \<Rightarrow> timespec) \<Rightarrow> Engine \<Rightarrow> u64 \<times> Engine" where
  "timestamp clk e =
     (let (tv_sec, tv_nsec) = clk (clock_reads e)
      in (word_of_int (c_rem tv_sec 86400) * 1000000000 + word_of_int tv_nsec,
          e\<lparr>clock_reads := Suc (clock_reads e)\<rparr>))"

definition publish :: "u32 \<Rightarrow> byte list \<Rightarrow> Engine \<Rightarrow> Engine" where
  "publish account bytes e =
     (let msg = \<lparr>out_account = account,
                 out_bytes = write_at 0 bytes (replicate OUCHMessageOut_SIZE 0)\<rparr>
      in e\<lparr>outgoing := outgoing e @ [msg]\<rparr>)"

definition accepted_bytes :: "u64 \<Rightarrow> byte list \<Rightarrow> u64 \<Rightarrow> byte list" where
  "accepted_bytes ts order ref_num =
     (let b = AcceptResponseBuilder;
          b = AcceptResponseBuilder_Timestamp b ts;
          b = AcceptResponseBuilder_UserRefNum b (EnterRequestView_UserRefNum order);
          b = AcceptResponseBuilder_Side b (EnterRequestView_Side order);
          b = AcceptResponseBuilder_Quantity b (EnterRequestView_Quantity order);
          b = AcceptResponseBuilder_Symbol b (EnterRequestView_Symbol order);
          b = AcceptResponseBuilder_Price b (EnterRequestView_Price order);
          b = AcceptResponseBuilder_TimeInForce b (EnterRequestView_TimeInForce order);
          b = AcceptResponseBuilder_Display b (EnterRequestView_Display order);
          b = AcceptResponseBuilder_OrderReferenceNumber b ref_num;
          b = AcceptResponseBuilder_Capacity b (EnterRequestView_Capacity order);
          b = AcceptResponseBuilder_InterMarketSweepElig b (EnterRequestView_InterMarketSweepElig order);
          b = AcceptResponseBuilder_CrossType b (EnterRequestView_CrossType order);
          b = AcceptResponseBuilder_OrderState b OrderStateEnum_L;
          b = AcceptResponseBuilder_ClOrdID b (EnterRequestView_ClOrdID order)
      in b)"

definition send_accepted :: "(nat \<Rightarrow> timespec) \<Rightarrow> u32 \<Rightarrow> byte list \<Rightarrow> u64 \<Rightarrow> Engine \<Rightarrow> Engine" where
  "send_accepted clk account order ref_num e =
     (let (ts, e) = timestamp clk e in publish account (accepted_bytes ts order ref_num) e)"

definition executed_bytes :: "u64 \<Rightarrow> u32 \<Rightarrow> u32 \<Rightarrow> u64 \<Rightarrow> byte \<Rightarrow> u64 \<Rightarrow> byte list" where
  "executed_bytes ts user_ref_num qty price liquidity match =
     (let b = ExecutedResponseBuilder;
          b = ExecutedResponseBuilder_Timestamp b ts;
          b = ExecutedResponseBuilder_UserRefNum b user_ref_num;
          b = ExecutedResponseBuilder_Quantity b qty;
          b = ExecutedResponseBuilder_Price b price;
          b = ExecutedResponseBuilder_LiquidityFlag b liquidity;
          b = ExecutedResponseBuilder_MatchNumber b match
      in b)"

definition send_executed ::
  "(nat \<Rightarrow> timespec) \<Rightarrow> u32 \<Rightarrow> u32 \<Rightarrow> u32 \<Rightarrow> u64 \<Rightarrow> byte \<Rightarrow> u64 \<Rightarrow> Engine \<Rightarrow> Engine" where
  "send_executed clk account user_ref_num qty price liquidity match e =
     (let (ts, e) = timestamp clk e
      in publish account (executed_bytes ts user_ref_num qty price liquidity match) e)"

definition send_fills ::
  "(nat \<Rightarrow> timespec) \<Rightarrow> u32 \<Rightarrow> byte list \<Rightarrow> addr \<Rightarrow> u32 \<Rightarrow> u64 \<Rightarrow> Engine \<Rightarrow> Engine option" where
  "send_fills clk account order block qty price e = do {
     let e = e\<lparr>match_counter := match_counter e + 1\<rparr>;
     let match = match_counter e;
     let e = send_executed clk account (EnterRequestView_UserRefNum order) qty price 82 match e;
     b \<leftarrow> block_at e block;
     Some (send_executed clk (key_account (blk_key b)) (key_user_ref_num (blk_key b))
             qty price 65 match e)
   }"

definition cancelled_bytes :: "u64 \<Rightarrow> u32 \<Rightarrow> u32 \<Rightarrow> byte \<Rightarrow> byte list" where
  "cancelled_bytes ts user_ref_num qty reason =
     (let b = CancelledResponseBuilder;
          b = CancelledResponseBuilder_Timestamp b ts;
          b = CancelledResponseBuilder_UserRefNum b user_ref_num;
          b = CancelledResponseBuilder_Quantity b qty;
          b = CancelledResponseBuilder_Reason b reason
      in b)"

definition send_cancelled ::
  "(nat \<Rightarrow> timespec) \<Rightarrow> u32 \<Rightarrow> u32 \<Rightarrow> u32 \<Rightarrow> byte \<Rightarrow> Engine \<Rightarrow> Engine" where
  "send_cancelled clk account user_ref_num qty reason e =
     (let (ts, e) = timestamp clk e
      in publish account (cancelled_bytes ts user_ref_num qty reason) e)"

definition cancel_rejected_bytes :: "u64 \<Rightarrow> u32 \<Rightarrow> byte list" where
  "cancel_rejected_bytes ts user_ref_num =
     (let b = CancelRejectResponseBuilder;
          b = CancelRejectResponseBuilder_Timestamp b ts;
          b = CancelRejectResponseBuilder_UserRefNum b user_ref_num;
          b = CancelRejectResponseBuilder_AppendageLength b 0
      in b)"

definition send_cancel_rejected :: "(nat \<Rightarrow> timespec) \<Rightarrow> u32 \<Rightarrow> u32 \<Rightarrow> Engine \<Rightarrow> Engine" where
  "send_cancel_rejected clk account user_ref_num e =
     (let (ts, e) = timestamp clk e in publish account (cancel_rejected_bytes ts user_ref_num) e)"

section \<open>Best-price cursors\<close>

text \<open>
  The two cursor loops. The ask cursor stops at \<open>BUFFER_SIZE\<close>, so it never leaves the array; the bid
  cursor reads the array at its own position, which is out of range when the cursor is.
\<close>

function advance_sell :: "Engine \<Rightarrow> Engine" where
  "advance_sell e =
     (if 0 < sell_orders e \<and> best_sell_idx e < BUFFER_SIZE e \<and>
         head (order_buffer e ! unat (best_sell_idx e)) = None
      then advance_sell (e\<lparr>best_sell_idx := best_sell_idx e + 1\<rparr>)
      else e)"
  by pat_completeness auto
termination
  by (relation "measure (\<lambda>e. unat (BUFFER_SIZE e) - unat (best_sell_idx e))")
    (auto simp: BUFFER_SIZE_def unat_Suc_bound word_less_nat_alt)

function retreat_buy :: "Engine \<Rightarrow> Engine option" where
  "retreat_buy e =
     (if 0 < buy_orders e \<and> 0 < best_buy_idx e
      then do {
        l \<leftarrow> level e (best_buy_idx e);
        if head l = None then retreat_buy (e\<lparr>best_buy_idx := best_buy_idx e - 1\<rparr>) else Some e }
      else Some e)"
  by pat_completeness auto
termination
  by (relation "measure (\<lambda>e. unat (best_buy_idx e))") (auto simp: unat_pred word_gt_0 unat_gt_0)

declare advance_sell.simps [simp del] retreat_buy.simps [simp del]

definition refresh_best_sell :: "Engine \<Rightarrow> Engine" where
  "refresh_best_sell e =
     (let e = advance_sell e
      in if sell_orders e = 0 then e\<lparr>best_sell_idx := BUFFER_SIZE e\<rparr> else e)"

definition refresh_best_buy :: "Engine \<Rightarrow> Engine option" where
  "refresh_best_buy e = do {
     e \<leftarrow> retreat_buy e;
     Some (if buy_orders e = 0 then e\<lparr>best_buy_idx := 0\<rparr> else e)
   }"

section \<open>Entering orders\<close>

text \<open>
  One round of the matching loop of \<open>insert_buy_order\<close>: the oldest order at the best ask is filled
  against the incoming quantity; it stays with less quantity, or it is removed and the best ask moves
  on. The result carries the quantity that is still open.
\<close>

definition buy_match_step ::
  "(nat \<Rightarrow> timespec) \<Rightarrow> u32 \<Rightarrow> byte list \<Rightarrow> Engine \<Rightarrow> u32 \<Rightarrow> (Engine \<times> u32) option" where
  "buy_match_step clk account order e q = do {
     l \<leftarrow> level e (best_sell_idx e);
     block \<leftarrow> head l;
     b \<leftarrow> block_at e block;
     e \<leftarrow> send_fills clk account order block (min (curr_qty b) q) (best_sell_idx e) e;
     if curr_qty b > q then do {
       e \<leftarrow> set_block e block (b\<lparr>curr_qty := curr_qty b - q\<rparr>);
       Some (e, 0)
     } else do {
       let e = e\<lparr>order_blocks_map := (order_blocks_map e)(blk_key b := None)\<rparr>;
       let e = e\<lparr>sell_orders := sell_orders e - 1\<rparr>;
       let q = q - curr_qty b;
       e \<leftarrow> Engine_unlink e block (best_sell_idx e);
       e \<leftarrow> Engine_deallocate e block;
       Some (refresh_best_sell e, q)
     }
   }"

definition sell_match_step ::
  "(nat \<Rightarrow> timespec) \<Rightarrow> u32 \<Rightarrow> byte list \<Rightarrow> Engine \<Rightarrow> u32 \<Rightarrow> (Engine \<times> u32) option" where
  "sell_match_step clk account order e q = do {
     l \<leftarrow> level e (best_buy_idx e);
     block \<leftarrow> head l;
     b \<leftarrow> block_at e block;
     e \<leftarrow> send_fills clk account order block (min (curr_qty b) q) (best_buy_idx e) e;
     if curr_qty b > q then do {
       e \<leftarrow> set_block e block (b\<lparr>curr_qty := curr_qty b - q\<rparr>);
       Some (e, 0)
     } else do {
       let e = e\<lparr>buy_orders := buy_orders e - 1\<rparr>;
       let e = e\<lparr>order_blocks_map := (order_blocks_map e)(blk_key b := None)\<rparr>;
       let q = q - curr_qty b;
       e \<leftarrow> Engine_unlink e block (best_buy_idx e);
       e \<leftarrow> Engine_deallocate e block;
       e \<leftarrow> refresh_best_buy e;
       Some (e, q)
     }
   }"

text \<open>What the parts of a round do to the counters that bound the number of rounds.\<close>

lemma send_fills_frame:
  "send_fills clk account order block qty price e = Some e' \<Longrightarrow>
     buy_orders e' = buy_orders e \<and> sell_orders e' = sell_orders e"
  by (auto simp: send_fills_def send_executed_def timestamp_def publish_def Let_def bind_Some_iff
      split: prod.splits)

lemma Engine_unlink_frame:
  "Engine_unlink e block i = Some e' \<Longrightarrow>
     buy_orders e' = buy_orders e \<and> sell_orders e' = sell_orders e"
  by (auto simp: Engine_unlink_def bind_Some_iff)

lemma advance_sell_frame: "sell_orders (advance_sell e) = sell_orders e"
  by (induction e rule: advance_sell.induct) (subst advance_sell.simps, simp)

lemma retreat_buy_frame: "retreat_buy e = Some e' \<Longrightarrow> buy_orders e' = buy_orders e"
proof (induction e rule: retreat_buy.induct)
  case (1 e)
  from "1.prems" consider (stop) "e' = e"
    | (move) l where "0 < buy_orders e \<and> 0 < best_buy_idx e" "level e (best_buy_idx e) = Some l" "head l = None"
        "retreat_buy (e\<lparr>best_buy_idx := best_buy_idx e - 1\<rparr>) = Some e'"
    by (subst (asm) retreat_buy.simps) (auto simp: bind_Some_iff split: if_splits)
  then show ?case
  proof cases
    case move
    with "1.IH" [OF move(1-4)] show ?thesis by simp
  qed simp
qed

lemma set_block_frame:
  "set_block e p b = Some e' \<Longrightarrow> buy_orders e' = buy_orders e \<and> sell_orders e' = sell_orders e"
  by (auto simp: set_block_def bind_Some_iff)

lemma Engine_deallocate_frame:
  "Engine_deallocate e p = Some e' \<Longrightarrow> buy_orders e' = buy_orders e \<and> sell_orders e' = sell_orders e"
  by (auto simp: Engine_deallocate_def bind_Some_iff)

lemma refresh_best_sell_frame: "sell_orders (refresh_best_sell e) = sell_orders e"
  by (simp add: refresh_best_sell_def Let_def advance_sell_frame)

lemma refresh_best_buy_frame: "refresh_best_buy e = Some e' \<Longrightarrow> buy_orders e' = buy_orders e"
  by (auto simp: refresh_best_buy_def bind_Some_iff dest: retreat_buy_frame)

lemmas count_frames =
  send_fills_frame Engine_unlink_frame set_block_frame Engine_deallocate_frame refresh_best_buy_frame

lemma unat_pred_less: "0 < (x :: 'a::len word) \<Longrightarrow> unat (x - 1) < unat x"
  by (simp add: unat_pred word_gt_0 unat_gt_0)

lemma buy_match_step_decreases:
  assumes step: "buy_match_step clk account order e q = Some (e', q')"
    and pos: "0 < sell_orders e" "0 < q"
  shows "unat (sell_orders e') < unat (sell_orders e) \<or>
         sell_orders e' = sell_orders e \<and> unat q' < unat q"
proof -
  from step have "sell_orders e' = sell_orders e \<and> q' = 0 \<or> sell_orders e' = sell_orders e - 1"
    by (auto simp: buy_match_step_def bind_Some_iff refresh_best_sell_frame Let_def
        dest!: count_frames split: if_splits)
  then show ?thesis using pos by (auto simp: unat_pred_less word_gt_0 unat_gt_0)
qed

lemma sell_match_step_decreases:
  assumes step: "sell_match_step clk account order e q = Some (e', q')"
    and pos: "0 < buy_orders e" "0 < q"
  shows "unat (buy_orders e') < unat (buy_orders e) \<or>
         buy_orders e' = buy_orders e \<and> unat q' < unat q"
proof -
  from step have "buy_orders e' = buy_orders e \<and> q' = 0 \<or> buy_orders e' = buy_orders e - 1"
    by (auto simp: sell_match_step_def bind_Some_iff Let_def dest!: count_frames split: if_splits)
  then show ?thesis using pos by (auto simp: unat_pred_less word_gt_0 unat_gt_0)
qed

function buy_match_loop ::
  "(nat \<Rightarrow> timespec) \<Rightarrow> u32 \<Rightarrow> byte list \<Rightarrow> Engine \<Rightarrow> u32 \<Rightarrow> (Engine \<times> u32) option" where
  "buy_match_loop clk account order e q =
     (if 0 < sell_orders e \<and> best_sell_idx e < BUFFER_SIZE e \<and>
         best_sell_idx e \<le> EnterRequestView_Price order \<and> 0 < q
      then do {
        (e', q') \<leftarrow> buy_match_step clk account order e q;
        buy_match_loop clk account order e' q' }
      else Some (e, q))"
  by pat_completeness auto
termination
  by (relation "measures [\<lambda>(clk, a, ord, e, q). unat (sell_orders e), \<lambda>(clk, a, ord, e, q). unat q]")
    (auto dest!: buy_match_step_decreases)

function sell_match_loop ::
  "(nat \<Rightarrow> timespec) \<Rightarrow> u32 \<Rightarrow> byte list \<Rightarrow> u64 \<Rightarrow> Engine \<Rightarrow> u32 \<Rightarrow> (Engine \<times> u32) option" where
  "sell_match_loop clk account order limit e q =
     (if 0 < buy_orders e
      then do {
        l \<leftarrow> level e (best_buy_idx e);
        if head l \<noteq> None \<and> limit \<le> best_buy_idx e \<and> 0 < q
        then do {
          (e', q') \<leftarrow> sell_match_step clk account order e q;
          sell_match_loop clk account order limit e' q' }
        else Some (e, q) }
      else Some (e, q))"
  by pat_completeness auto
termination
  by (relation "measures [\<lambda>(clk, a, ord, lim, e, q). unat (buy_orders e),
                          \<lambda>(clk, a, ord, lim, e, q). unat q]")
    (auto dest!: sell_match_step_decreases)

declare buy_match_loop.simps [simp del] sell_match_loop.simps [simp del]

text \<open>
  The rest of an order that does not trade at once. \<open>new_block\<close> is written field by field; its links
  are set by \<open>append_list\<close>.
\<close>

definition insert_buy_order ::
  "(nat \<Rightarrow> timespec) \<Rightarrow> u32 \<Rightarrow> byte list \<Rightarrow> Engine \<Rightarrow> (Engine \<times> u64) option" where
  "insert_buy_order clk account order e = do {
     let e = e\<lparr>counter := counter e + 1\<rparr>;
     let ref_num = counter e;
     let e = send_accepted clk account order ref_num e;
     (e, q) \<leftarrow> buy_match_loop clk account order e (EnterRequestView_Quantity order);
     if 0 < q then
       if EnterRequestView_Price order = MARKETPRICE
       then Some (send_cancelled clk account (EnterRequestView_UserRefNum order) q 73 e, 0)
       else do {
         (A, new_block) \<leftarrow> allocate (allocator e);
         let e = e\<lparr>allocator := A\<rparr>;
         case new_block of
           None \<Rightarrow> Some (send_cancelled clk account (EnterRequestView_UserRefNum order) q 90 e, 0)
         | Some block \<Rightarrow> do {
             let e = (if best_buy_idx e < EnterRequestView_Price order
                      then e\<lparr>best_buy_idx := EnterRequestView_Price order\<rparr> else e);
             let key = order_key account (EnterRequestView_UserRefNum order);
             let e = e\<lparr>buy_orders := buy_orders e + 1\<rparr>;
             e \<leftarrow> set_block e block
               \<lparr>raw = read_at 0 EnterRequestView_WIRE_SIZE (EnterRequestView_data order),
                curr_qty = q, blk_id = ref_num, blk_key = key, blk_prev = None, blk_next = None\<rparr>;
             e \<leftarrow> append_list e block (EnterRequestView_Price order);
             let e = e\<lparr>order_blocks_map := (order_blocks_map e)(key \<mapsto> block)\<rparr>;
             Some (e, ref_num) } }
     else Some (e, 0)
   }"

definition insert_sell_order ::
  "(nat \<Rightarrow> timespec) \<Rightarrow> u32 \<Rightarrow> byte list \<Rightarrow> Engine \<Rightarrow> (Engine \<times> u64) option" where
  "insert_sell_order clk account order e = do {
     let e = e\<lparr>counter := counter e + 1\<rparr>;
     let ref_num = counter e;
     let e = send_accepted clk account order ref_num e;
     let limit = (if EnterRequestView_Price order = MARKETPRICE then 0 else EnterRequestView_Price order);
     (e, q) \<leftarrow> sell_match_loop clk account order limit e (EnterRequestView_Quantity order);
     if 0 < q then
       if EnterRequestView_Price order = MARKETPRICE
       then Some (send_cancelled clk account (EnterRequestView_UserRefNum order) q 73 e, 0)
       else do {
         (A, new_block) \<leftarrow> allocate (allocator e);
         let e = e\<lparr>allocator := A\<rparr>;
         case new_block of
           None \<Rightarrow> Some (send_cancelled clk account (EnterRequestView_UserRefNum order) q 90 e, 0)
         | Some block \<Rightarrow> do {
             let e = (if EnterRequestView_Price order < best_sell_idx e
                      then e\<lparr>best_sell_idx := EnterRequestView_Price order\<rparr> else e);
             let key = order_key account (EnterRequestView_UserRefNum order);
             let e = e\<lparr>sell_orders := sell_orders e + 1\<rparr>;
             e \<leftarrow> set_block e block
               \<lparr>raw = read_at 0 EnterRequestView_WIRE_SIZE (EnterRequestView_data order),
                curr_qty = q, blk_id = ref_num, blk_key = key, blk_prev = None, blk_next = None\<rparr>;
             e \<leftarrow> append_list e block (EnterRequestView_Price order);
             let e = e\<lparr>order_blocks_map := (order_blocks_map e)(key \<mapsto> block)\<rparr>;
             Some (e, ref_num) } }
     else Some (e, 0)
   }"

text \<open>A side other than \<open>B\<close> and \<open>S\<close> throws before anything happens.\<close>

definition insert_order ::
  "(nat \<Rightarrow> timespec) \<Rightarrow> u32 \<Rightarrow> byte list \<Rightarrow> Engine \<Rightarrow> (exn + Engine \<times> u64) option" where
  "insert_order clk account order e =
     (if EnterRequestView_Side order = SideEnum_B
      then do { r \<leftarrow> insert_buy_order clk account order e; Some (Inr r) }
      else if EnterRequestView_Side order = SideEnum_S
      then do { r \<leftarrow> insert_sell_order clk account order e; Some (Inr r) }
      else Some (Inl invalid_argument))"

section \<open>Cancelling orders\<close>

definition cancel_order ::
  "(nat \<Rightarrow> timespec) \<Rightarrow> u32 \<Rightarrow> byte list \<Rightarrow> Engine \<Rightarrow> (Engine \<times> u32) option" where
  "cancel_order clk account cancel e =
     (let urn = CancelRequestView_UserRefNum cancel in
      case order_blocks_map e (order_key account urn) of
        None \<Rightarrow> Some (send_cancel_rejected clk account urn e, 0)
      | Some block \<Rightarrow> do {
          b \<leftarrow> block_at e block;
          let new_qty = CancelRequestView_Quantity cancel;
          if curr_qty b \<le> new_qty then Some (send_cancel_rejected clk account urn e, 0)
          else do {
            let cancelled = curr_qty b - new_qty;
            if 0 < new_qty then do {
              e \<leftarrow> set_block e block (b\<lparr>curr_qty := new_qty\<rparr>);
              Some (send_cancelled clk account urn cancelled 85 e, cancelled) }
            else do {
              let idx = EnterRequestView_Price (raw b);
              let is_buy = (EnterRequestView_Side (raw b) = SideEnum_B);
              let e = e\<lparr>order_blocks_map := (order_blocks_map e)(order_key account urn := None)\<rparr>;
              e \<leftarrow> Engine_unlink e block idx;
              e \<leftarrow> Engine_deallocate e block;
              let e = e\<lparr>sell_orders := sell_orders e - (if is_buy then 0 else 1),
                        buy_orders := buy_orders e - (if is_buy then 1 else 0)\<rparr>;
              l \<leftarrow> level e idx;
              e \<leftarrow> (if head l = None
                   then if is_buy \<and> idx = best_buy_idx e then refresh_best_buy e
                        else if \<not> is_buy \<and> idx = best_sell_idx e then Some (refresh_best_sell e)
                        else Some e
                   else Some e);
              Some (send_cancelled clk account urn cancelled 85 e, cancelled) } } })"

section \<open>Processing inbound messages\<close>

definition process ::
  "(nat \<Rightarrow> timespec) \<Rightarrow> InboundMessage \<Rightarrow> Engine \<Rightarrow> (exn + Engine) option" where
  "process clk msg e = do {
     decoded \<leftarrow> decode (in_bytes msg);
     case decoded of
       EnterRequestView v \<Rightarrow> do {
         r \<leftarrow> insert_order clk (in_account msg) v e;
         Some (case r of Inl x \<Rightarrow> Inl x | Inr (e, _) \<Rightarrow> Inr e) }
     | CancelRequestView v \<Rightarrow> do {
         (e, _) \<leftarrow> cancel_order clk (in_account msg) v e;
         Some (Inr e) }
     | _ \<Rightarrow> Some (Inr e)
   }"

text \<open>
  \<open>run\<close> processes the messages of the inbound queue in order for ever; an exception ends it. Its
  behaviour on a finite prefix of the messages:
\<close>

fun run :: "(nat \<Rightarrow> timespec) \<Rightarrow> InboundMessage list \<Rightarrow> Engine \<Rightarrow> (exn + Engine) option" where
  "run clk [] e = Some (Inr e)"
| "run clk (m # ms) e =
     (case process clk m e of
        None \<Rightarrow> None
      | Some (Inl x) \<Rightarrow> Some (Inl x)
      | Some (Inr e') \<Rightarrow> run clk ms e')"

end
