(* ===== verification/Matching_Spec.thy ===== *)
theory Matching_Spec
  imports Engine "HOL-Library.Multiset"
begin

text \<open>
  What the matching engine promises, stated on lists.

  The abstract book has the resting buy orders and the resting sell orders, each side in the order in
  which it trades (best price first, oldest first within a price), the index from (account, user
  reference number) keys to exchange order references, the two running numbers and the number of
  orders there is still room for. \<open>sweep\<close> is the price-time matching rule: the incoming quantity is
  filled against the front of the opposite side as long as the front's price is acceptable.
  \<open>enter_order\<close> and \<open>cancel_request\<close> are the two requests with the events they produce, in order. These
  definitions follow the rules of \<open>4_order_book_proj/DESIGN_DOC.md\<close> (priority by price, then time;
  partial fills; limit, market and cancel), and the theory \<open>Engine_Refinement\<close> shows that the engine
  implements them.

  \<open>event_of\<close> reads an outbound message through the wire views, as the clients do.
\<close>

section \<open>Events\<close>

datatype Event =
    Accepted u32 u32 SideEnum u32 u64 u64  \<comment> \<open>account, user ref, side, quantity, price, order ref\<close>
  | Executed u32 u32 u32 u64 byte u64      \<comment> \<open>account, user ref, quantity, price, liquidity, match\<close>
  | Canceled u32 u32 u32 byte              \<comment> \<open>account, user ref, quantity, reason\<close>
  | CancelRejected u32 u32                 \<comment> \<open>account, user ref\<close>

definition event_of :: "OutboundMessage \<Rightarrow> Event option" where
  "event_of m =
     (case decode (out_bytes m) of
        Some (AcceptResponseView v) \<Rightarrow>
          Some (Accepted (out_account m) (AcceptResponseView_UserRefNum v) (AcceptResponseView_Side v)
            (AcceptResponseView_Quantity v) (AcceptResponseView_Price v)
            (AcceptResponseView_OrderReferenceNumber v))
      | Some (ExecutedResponseView v) \<Rightarrow>
          Some (Executed (out_account m) (ExecutedResponseView_UserRefNum v)
            (ExecutedResponseView_Quantity v) (ExecutedResponseView_Price v)
            (ExecutedResponseView_LiquidityFlag v) (ExecutedResponseView_MatchNumber v))
      | Some (CancelledResponseView v) \<Rightarrow>
          Some (Canceled (out_account m) (CancelledResponseView_UserRefNum v)
            (CancelledResponseView_Quantity v) (CancelledResponseView_Reason v))
      | Some (CancelRejectResponseView v) \<Rightarrow>
          Some (CancelRejected (out_account m) (CancelRejectResponseView_UserRefNum v))
      | _ \<Rightarrow> None)"

section \<open>The abstract book\<close>

record Resting =
  r_key :: u64
  r_ref :: u64
  r_price :: u64
  r_qty :: u32

record Book =
  bids :: "Resting list"
  asks :: "Resting list"
  index :: "u64 \<rightharpoonup> u64"
  last_ref :: u64
  last_match :: u64
  room :: nat

record Order =
  o_account :: u32
  o_urn :: u32
  o_side :: SideEnum
  o_qty :: u32
  o_price :: u64

definition order_of :: "u32 \<Rightarrow> byte list \<Rightarrow> Order" where
  "order_of account v =
     \<lparr>o_account = account, o_urn = EnterRequestView_UserRefNum v, o_side = EnterRequestView_Side v,
      o_qty = EnterRequestView_Quantity v, o_price = EnterRequestView_Price v\<rparr>"

definition empty_book :: "nat \<Rightarrow> Book" where
  "empty_book n =
     \<lparr>bids = [], asks = [], index = Map.empty, last_ref = 0, last_match = 0, room = n\<rparr>"

section \<open>Matching\<close>

fun sweep :: "(u64 \<Rightarrow> bool) \<Rightarrow> u32 \<Rightarrow> Resting list \<Rightarrow> (Resting \<times> u32) list \<times> u32 \<times> Resting list" where
  "sweep ok q [] = ([], q, [])"
| "sweep ok q (r # rs) =
     (if q = 0 \<or> \<not> ok (r_price r) then ([], q, r # rs)
      else if q < r_qty r then ([(r, q)], 0, r\<lparr>r_qty := r_qty r - q\<rparr> # rs)
      else let (fs, q', rs') = sweep ok (q - r_qty r) rs in ((r, r_qty r) # fs, q', rs'))"

text \<open>Every fill is reported to both parties under one match number, the incoming order first.\<close>

fun fill_events :: "u32 \<Rightarrow> u32 \<Rightarrow> u64 \<Rightarrow> (Resting \<times> u32) list \<Rightarrow> Event list" where
  "fill_events account urn m [] = []"
| "fill_events account urn m ((r, f) # fs) =
     Executed account urn f (r_price r) 82 (m + 1) #
     Executed (key_account (r_key r)) (key_user_ref_num (r_key r)) f (r_price r) 65 (m + 1) #
     fill_events account urn (m + 1) fs"

text \<open>An order that is filled completely leaves the index and makes room for another one.\<close>

fun settle :: "(Resting \<times> u32) list \<Rightarrow> Book \<Rightarrow> Book" where
  "settle [] B = B"
| "settle ((r, f) # fs) B =
     settle fs
       (if f = r_qty r
        then B\<lparr>index := (index B)(r_key r := None), last_match := last_match B + 1, room := Suc (room B)\<rparr>
        else B\<lparr>last_match := last_match B + 1\<rparr>)"

definition insert_sorted :: "(u64 \<Rightarrow> bool) \<Rightarrow> Resting \<Rightarrow> Resting list \<Rightarrow> Resting list" where
  "insert_sorted before r rs =
     takeWhile (\<lambda>x. before (r_price x)) rs @ r # dropWhile (\<lambda>x. before (r_price x)) rs"

definition match_order :: "Order \<Rightarrow> Book \<Rightarrow> Event list \<times> u32 \<times> Book" where
  "match_order ord B =
     (if o_side ord = SideEnum_B then
        let (fs, q, rs) = sweep (\<lambda>p. p \<le> o_price ord) (o_qty ord) (asks B)
        in (fill_events (o_account ord) (o_urn ord) (last_match B) fs, q, (settle fs B)\<lparr>asks := rs\<rparr>)
      else
        let limit = (if o_price ord = MARKETPRICE then 0 else o_price ord);
            (fs, q, rs) = sweep (\<lambda>p. limit \<le> p) (o_qty ord) (bids B)
        in (fill_events (o_account ord) (o_urn ord) (last_match B) fs, q, (settle fs B)\<lparr>bids := rs\<rparr>))"

definition rest_order :: "Order \<Rightarrow> u32 \<Rightarrow> Book \<Rightarrow> Book" where
  "rest_order ord q B =
     (let key = order_key (o_account ord) (o_urn ord);
          r = \<lparr>r_key = key, r_ref = last_ref B, r_price = o_price ord, r_qty = q\<rparr>;
          B = B\<lparr>index := (index B)(key \<mapsto> last_ref B), room := room B - 1\<rparr>
      in if o_side ord = SideEnum_B
         then B\<lparr>bids := insert_sorted (\<lambda>p. o_price ord \<le> p) r (bids B)\<rparr>
         else B\<lparr>asks := insert_sorted (\<lambda>p. p \<le> o_price ord) r (asks B)\<rparr>)"

text \<open>The new book, the value returned to the caller, and the events.\<close>

definition enter_order :: "Order \<Rightarrow> Book \<Rightarrow> Book \<times> u64 \<times> Event list" where
  "enter_order ord B =
     (let B = B\<lparr>last_ref := last_ref B + 1\<rparr>;
          acc = Accepted (o_account ord) (o_urn ord) (o_side ord) (o_qty ord) (o_price ord) (last_ref B);
          (evs, q, B) = match_order ord B
      in if q = 0 then (B, 0, acc # evs)
         else if o_price ord = MARKETPRICE
           then (B, 0, acc # evs @ [Canceled (o_account ord) (o_urn ord) q 73])
         else if room B = 0
           then (B, 0, acc # evs @ [Canceled (o_account ord) (o_urn ord) q 90])
         else (rest_order ord q B, last_ref B, acc # evs))"

section \<open>Cancelling\<close>

definition set_qty :: "u64 \<Rightarrow> u32 \<Rightarrow> Resting list \<Rightarrow> Resting list" where
  "set_qty ref q rs = map (\<lambda>r. if r_ref r = ref then r\<lparr>r_qty := q\<rparr> else r) rs"

definition drop_ref :: "u64 \<Rightarrow> Resting list \<Rightarrow> Resting list" where
  "drop_ref ref rs = filter (\<lambda>r. r_ref r \<noteq> ref) rs"

definition cancel_request :: "u32 \<Rightarrow> u32 \<Rightarrow> u32 \<Rightarrow> Book \<Rightarrow> Book \<times> u32 \<times> Event list" where
  "cancel_request account urn new_qty B =
     (let key = order_key account urn in
      case Option.bind (index B key) (\<lambda>ref. find (\<lambda>r. r_ref r = ref) (bids B @ asks B)) of
        None \<Rightarrow> (B, 0, [CancelRejected account urn])
      | Some r \<Rightarrow>
          if r_qty r \<le> new_qty then (B, 0, [CancelRejected account urn])
          else let c = r_qty r - new_qty in
            if 0 < new_qty
            then (B\<lparr>bids := set_qty (r_ref r) new_qty (bids B), asks := set_qty (r_ref r) new_qty (asks B)\<rparr>,
                  c, [Canceled account urn c 85])
            else (B\<lparr>bids := drop_ref (r_ref r) (bids B), asks := drop_ref (r_ref r) (asks B),
                    index := (index B)(key := None), room := Suc (room B)\<rparr>,
                  c, [Canceled account urn c 85]))"


section \<open>Requests in order\<close>

text \<open>What an inbound message asks for; the responses of the protocol are not requests.\<close>

definition request :: "InboundMessage \<Rightarrow> Book \<Rightarrow> Book \<times> Event list" where
  "request m B =
     (case decode (in_bytes m) of
        Some (EnterRequestView v) \<Rightarrow>
          (case enter_order (order_of (in_account m) v) B of (B', _, evs) \<Rightarrow> (B', evs))
      | Some (CancelRequestView v) \<Rightarrow>
          (case cancel_request (in_account m) (CancelRequestView_UserRefNum v) (CancelRequestView_Quantity v) B
           of (B', _, evs) \<Rightarrow> (B', evs))
      | _ \<Rightarrow> (B, []))"

fun requests :: "InboundMessage list \<Rightarrow> Book \<Rightarrow> Book \<times> Event list" where
  "requests [] B = (B, [])"
| "requests (m # ms) B =
     (let (B, evs) = request m B; (B, evs') = requests ms B in (B, evs @ evs'))"

end
