(* ===== verification/Engine_Events.thy ===== *)
theory Engine_Events
  imports Matching_Spec
begin

text \<open>
  What a client reads in the engine's messages. Each \<open>send_\<close> operation appends one message (two for
  \<open>send_fills\<close>) to the outbound queue and changes nothing else but the number of clock readings, and
  \<open>event_of\<close> recovers from the bytes exactly the values the engine put in.
\<close>

definition emit :: "OutboundMessage list \<Rightarrow> Engine \<Rightarrow> Engine" where
  "emit ms e = e\<lparr>clock_reads := clock_reads e + length ms, outgoing := outgoing e @ ms\<rparr>"

definition events_of :: "OutboundMessage list \<Rightarrow> Event list \<Rightarrow> bool" where
  "events_of ms evs \<longleftrightarrow> map event_of ms = map Some evs"

lemma events_of_Nil [simp]: "events_of [] evs \<longleftrightarrow> evs = []" "events_of ms [] \<longleftrightarrow> ms = []"
  by (auto simp: events_of_def)

lemma events_of_append: "events_of ms evs \<Longrightarrow> events_of ms' evs' \<Longrightarrow> events_of (ms @ ms') (evs @ evs')"
  by (simp add: events_of_def)

lemma events_of_Cons: "event_of m = Some ev \<Longrightarrow> events_of ms evs \<Longrightarrow> events_of (m # ms) (ev # evs)"
  by (simp add: events_of_def)

lemma emit_Nil [simp]: "emit [] e = e"
  by (simp add: emit_def)

lemma emit_emit [simp]: "emit ms' (emit ms e) = emit (ms @ ms') e"
  by (simp add: emit_def)

lemma emit_frame [simp]:
  "allocator (emit ms e) = allocator e"
  "counter (emit ms e) = counter e"
  "match_counter (emit ms e) = match_counter e"
  "order_blocks_map (emit ms e) = order_blocks_map e"
  "buy_orders (emit ms e) = buy_orders e"
  "sell_orders (emit ms e) = sell_orders e"
  "order_buffer (emit ms e) = order_buffer e"
  "best_buy_idx (emit ms e) = best_buy_idx e"
  "best_sell_idx (emit ms e) = best_sell_idx e"
  "outgoing (emit ms e) = outgoing e @ ms"
  "block_at (emit ms e) = block_at e"
  by (simp_all add: emit_def block_at_def fun_eq_iff)

section \<open>Reading the padded payload\<close>

lemma OUCHMessageOut_SIZE_eq: "OUCHMessageOut_SIZE = 64"
  by (simp add: OUCHMessageOut_SIZE_def wire_consts)

lemma nth_write_0: "i < length bs \<Longrightarrow> write_at 0 bs buf ! i = bs ! i"
  by (simp add: write_at_def nth_append)

lemma accepted_bytes_fields [simp]:
  "length (accepted_bytes ts ord r) = 64"
  "accepted_bytes ts ord r ! 0 = 65"
  "AcceptResponseView_UserRefNum (accepted_bytes ts ord r) = EnterRequestView_UserRefNum ord"
  "AcceptResponseView_Side (accepted_bytes ts ord r) = EnterRequestView_Side ord"
  "AcceptResponseView_Quantity (accepted_bytes ts ord r) = EnterRequestView_Quantity ord"
  "AcceptResponseView_Price (accepted_bytes ts ord r) = EnterRequestView_Price ord"
  "AcceptResponseView_OrderReferenceNumber (accepted_bytes ts ord r) = r"
  unfolding accepted_bytes_def Let_def
  by (simp_all add: AcceptResponse_codec load_defs sized_stores [where N = 64] wire_simps)

lemma executed_bytes_fields [simp]:
  "length (executed_bytes ts urn q p liq m) = 36"
  "executed_bytes ts urn q p liq m ! 0 = 69"
  "ExecutedResponseView_UserRefNum (executed_bytes ts urn q p liq m) = urn"
  "ExecutedResponseView_Quantity (executed_bytes ts urn q p liq m) = q"
  "ExecutedResponseView_Price (executed_bytes ts urn q p liq m) = p"
  "ExecutedResponseView_LiquidityFlag (executed_bytes ts urn q p liq m) = liq"
  "ExecutedResponseView_MatchNumber (executed_bytes ts urn q p liq m) = m"
  unfolding executed_bytes_def Let_def
  by (simp_all add: ExecutedResponse_codec load_defs sized_stores [where N = 36] wire_simps)

lemma cancelled_bytes_fields [simp]:
  "length (cancelled_bytes ts urn q reason) = 18"
  "cancelled_bytes ts urn q reason ! 0 = 67"
  "CancelledResponseView_UserRefNum (cancelled_bytes ts urn q reason) = urn"
  "CancelledResponseView_Quantity (cancelled_bytes ts urn q reason) = q"
  "CancelledResponseView_Reason (cancelled_bytes ts urn q reason) = reason"
  unfolding cancelled_bytes_def Let_def
  by (simp_all add: CancelledResponse_codec load_defs sized_stores [where N = 18] wire_simps)

lemma cancel_rejected_bytes_fields [simp]:
  "length (cancel_rejected_bytes ts urn) = 15"
  "cancel_rejected_bytes ts urn ! 0 = 73"
  "CancelRejectResponseView_UserRefNum (cancel_rejected_bytes ts urn) = urn"
  unfolding cancel_rejected_bytes_def Let_def
  by (simp_all add: CancelRejectResponse_codec load_defs sized_stores [where N = 15] wire_simps)

definition out_msg :: "u32 \<Rightarrow> byte list \<Rightarrow> OutboundMessage" where
  "out_msg account bs = \<lparr>out_account = account, out_bytes = write_at 0 bs (replicate OUCHMessageOut_SIZE 0)\<rparr>"

lemma event_of_accepted:
  "event_of (out_msg a (accepted_bytes ts ord r)) =
     Some (Accepted a (EnterRequestView_UserRefNum ord) (EnterRequestView_Side ord)
       (EnterRequestView_Quantity ord) (EnterRequestView_Price ord) r)"
proof -
  let ?b = "accepted_bytes ts ord r"
  let ?w = "write_at 0 ?b (replicate OUCHMessageOut_SIZE 0)"
  have v: "AcceptResponseView_UserRefNum ?w = AcceptResponseView_UserRefNum ?b"
    "AcceptResponseView_Side ?w = AcceptResponseView_Side ?b"
    "AcceptResponseView_Quantity ?w = AcceptResponseView_Quantity ?b"
    "AcceptResponseView_Price ?w = AcceptResponseView_Price ?b"
    "AcceptResponseView_OrderReferenceNumber ?w = AcceptResponseView_OrderReferenceNumber ?b"
    by (simp_all add: AcceptResponse_codec load_defs read_at_write_0 nth_write_0)
  show ?thesis
    using v by (simp add: event_of_def out_msg_def decode_nonempty OUCHMessageOut_SIZE_eq nth_write_0)
qed

lemma event_of_executed:
  "event_of (out_msg a (executed_bytes ts urn q p liq m)) = Some (Executed a urn q p liq m)"
proof -
  let ?b = "executed_bytes ts urn q p liq m"
  let ?w = "write_at 0 ?b (replicate OUCHMessageOut_SIZE 0)"
  have v: "ExecutedResponseView_UserRefNum ?w = ExecutedResponseView_UserRefNum ?b"
    "ExecutedResponseView_Quantity ?w = ExecutedResponseView_Quantity ?b"
    "ExecutedResponseView_Price ?w = ExecutedResponseView_Price ?b"
    "ExecutedResponseView_LiquidityFlag ?w = ExecutedResponseView_LiquidityFlag ?b"
    "ExecutedResponseView_MatchNumber ?w = ExecutedResponseView_MatchNumber ?b"
    by (simp_all add: ExecutedResponse_codec load_defs read_at_write_0 nth_write_0)
  show ?thesis
    using v by (simp add: event_of_def out_msg_def decode_nonempty OUCHMessageOut_SIZE_eq nth_write_0)
qed

lemma event_of_cancelled:
  "event_of (out_msg a (cancelled_bytes ts urn q reason)) = Some (Canceled a urn q reason)"
proof -
  let ?b = "cancelled_bytes ts urn q reason"
  let ?w = "write_at 0 ?b (replicate OUCHMessageOut_SIZE 0)"
  have v: "CancelledResponseView_UserRefNum ?w = CancelledResponseView_UserRefNum ?b"
    "CancelledResponseView_Quantity ?w = CancelledResponseView_Quantity ?b"
    "CancelledResponseView_Reason ?w = CancelledResponseView_Reason ?b"
    by (simp_all add: CancelledResponse_codec load_defs read_at_write_0 nth_write_0)
  show ?thesis
    using v by (simp add: event_of_def out_msg_def decode_nonempty OUCHMessageOut_SIZE_eq nth_write_0)
qed

lemma event_of_cancel_rejected:
  "event_of (out_msg a (cancel_rejected_bytes ts urn)) = Some (CancelRejected a urn)"
proof -
  let ?b = "cancel_rejected_bytes ts urn"
  let ?w = "write_at 0 ?b (replicate OUCHMessageOut_SIZE 0)"
  have v: "CancelRejectResponseView_UserRefNum ?w = CancelRejectResponseView_UserRefNum ?b"
    by (simp_all add: CancelRejectResponse_codec load_defs read_at_write_0 nth_write_0)
  show ?thesis
    using v by (simp add: event_of_def out_msg_def decode_nonempty OUCHMessageOut_SIZE_eq nth_write_0)
qed

section \<open>The send operations\<close>

lemma publish_emit:
  "publish a bs (snd (timestamp clk e)) = emit [out_msg a bs] e"
  by (simp add: publish_def timestamp_def emit_def out_msg_def Let_def split: prod.splits)

lemma send_emit:
  "send_accepted clk a ord r e = emit [out_msg a (accepted_bytes (fst (timestamp clk e)) ord r)] e"
  "send_executed clk a urn q p liq m e =
     emit [out_msg a (executed_bytes (fst (timestamp clk e)) urn q p liq m)] e"
  "send_cancelled clk a urn q reason e =
     emit [out_msg a (cancelled_bytes (fst (timestamp clk e)) urn q reason)] e"
  "send_cancel_rejected clk a urn e =
     emit [out_msg a (cancel_rejected_bytes (fst (timestamp clk e)) urn)] e"
  by (simp_all add: send_accepted_def send_executed_def send_cancelled_def send_cancel_rejected_def
      split_def publish_emit)

lemma send_accepted_emit:
  obtains m where "send_accepted clk a ord r e = emit [m] e"
    and "event_of m = Some (Accepted a (EnterRequestView_UserRefNum ord) (EnterRequestView_Side ord)
       (EnterRequestView_Quantity ord) (EnterRequestView_Price ord) r)"
  using event_of_accepted send_emit(1) by blast

lemma send_cancelled_emit:
  obtains m where "send_cancelled clk a urn q reason e = emit [m] e"
    and "event_of m = Some (Canceled a urn q reason)"
  using event_of_cancelled send_emit(3) by blast

lemma send_cancel_rejected_emit:
  obtains m where "send_cancel_rejected clk a urn e = emit [m] e"
    and "event_of m = Some (CancelRejected a urn)"
  using event_of_cancel_rejected send_emit(4) by blast

lemma send_fills_emit:
  assumes "block_at e block = Some b"
  obtains ms where
    "send_fills clk a ord block q p e = Some (emit ms (e\<lparr>match_counter := match_counter e + 1\<rparr>))"
    and "events_of ms
      [Executed a (EnterRequestView_UserRefNum ord) q p 82 (match_counter e + 1),
       Executed (key_account (blk_key b)) (key_user_ref_num (blk_key b)) q p 65 (match_counter e + 1)]"
proof -
  let ?e = "e\<lparr>match_counter := match_counter e + 1\<rparr>"
  have b: "block_at ?e block = Some b" using assms by (simp add: block_at_def)
  show ?thesis
    by (rule that, simp add: send_fills_def Let_def send_emit(2) b)
      (simp add: events_of_def event_of_executed)
qed

end
