(* ===== verification/Engine_Memory.thy ===== *)
theory Engine_Memory
  imports Engine_Events
begin

text \<open>
  The engine's memory. \<open>core\<close> is the memory invariant: the pool and the price levels partition the
  slots, and every level is a well-formed list of live blocks. Its lemmas lift the pool contract and
  the list lemmas to the engine's block operations: none of them touches a null or dangling pointer,
  removing a block returns its slot to the pool, and adding one takes a slot no level uses.
\<close>

section \<open>The memory invariant\<close>

definition payload_of :: "OrderBlock \<Rightarrow> byte list \<times> u32 \<times> u64 \<times> u64" where
  "payload_of b = (raw b, curr_qty b, blk_id b, blk_key b)"

definition keeps_free :: "'a Allocator \<Rightarrow> 'a Allocator \<Rightarrow> bool" where
  "keeps_free A A' \<longleftrightarrow> (\<forall>S fs. pool_rep S A fs \<longrightarrow> pool_rep S A' fs)"

interpretation blocks: linked_nodes block_ops payload_of keeps_free
proof unfold_locales
  fix s :: "OrderBlock Allocator" and a n n0
  assume "load_node block_ops s a = Some n0"
  then show "\<exists>s'. save_node block_ops s a n = Some s'"
    by (auto simp: block_ops_def load_obj_def save_obj_def split: option.splits)
qed (auto simp: block_ops_def payload_of_def keeps_free_def load_save_obj
      intro: pool_rep_save dest: load_obj_not_free)

definition core :: "addr set \<Rightarrow> Engine \<Rightarrow> (nat \<Rightarrow> addr list) \<Rightarrow> addr list \<Rightarrow> bool" where
  "core S e L fs \<longleftrightarrow>
     pool_rep S (allocator e) fs \<and>
     (\<forall>i < length (order_buffer e). list_rep block_ops (allocator e) (order_buffer e ! i) (L i)) \<and>
     (\<forall>i < length (order_buffer e). \<forall>j < length (order_buffer e). i \<noteq> j \<longrightarrow> set (L i) \<inter> set (L j) = {}) \<and>
     S = set fs \<union> (\<Union>i < length (order_buffer e). set (L i))"

definition pay :: "Engine \<Rightarrow> addr \<Rightarrow> (byte list \<times> u32 \<times> u64 \<times> u64) option" where
  "pay e a = map_option payload_of (block_at e a)"

lemma core_frame [simp]:
  "core S (e\<lparr>counter := c\<rparr>) L fs = core S e L fs"
  "core S (e\<lparr>match_counter := c\<rparr>) L fs = core S e L fs"
  "core S (e\<lparr>order_blocks_map := m\<rparr>) L fs = core S e L fs"
  "core S (e\<lparr>buy_orders := c\<rparr>) L fs = core S e L fs"
  "core S (e\<lparr>sell_orders := c\<rparr>) L fs = core S e L fs"
  "core S (e\<lparr>best_buy_idx := c\<rparr>) L fs = core S e L fs"
  "core S (e\<lparr>best_sell_idx := c\<rparr>) L fs = core S e L fs"
  "core S (e\<lparr>clock_reads := n\<rparr>) L fs = core S e L fs"
  "core S (e\<lparr>outgoing := ms\<rparr>) L fs = core S e L fs"
  by (simp_all add: core_def)

lemma block_at_frame [simp]:
  "block_at (e\<lparr>counter := c\<rparr>) = block_at e"
  "block_at (e\<lparr>match_counter := c\<rparr>) = block_at e"
  "block_at (e\<lparr>order_blocks_map := m\<rparr>) = block_at e"
  "block_at (e\<lparr>buy_orders := c\<rparr>) = block_at e"
  "block_at (e\<lparr>sell_orders := c\<rparr>) = block_at e"
  "block_at (e\<lparr>order_buffer := buf\<rparr>) = block_at e"
  "block_at (e\<lparr>best_buy_idx := c\<rparr>) = block_at e"
  "block_at (e\<lparr>best_sell_idx := c\<rparr>) = block_at e"
  "block_at (e\<lparr>clock_reads := n\<rparr>) = block_at e"
  "block_at (e\<lparr>outgoing := ms\<rparr>) = block_at e"
  by (simp_all add: block_at_def fun_eq_iff)

lemma block_ops_load [simp]: "load_node block_ops = load_obj"
  by (simp add: block_ops_def)

lemma core_rep:
  "core S e L fs \<Longrightarrow> i < length (order_buffer e) \<Longrightarrow>
   list_rep block_ops (allocator e) (order_buffer e ! i) (L i)"
  by (simp add: core_def)

lemma Union_level_upd:
  "i < n \<Longrightarrow> (\<Union>j<n. set ((L(i := ys)) j)) = set ys \<union> (\<Union>j\<in>{..<n} - {i}. set (L j))"
  by (auto split: if_splits)

lemma Union_level: "i < n \<Longrightarrow> (\<Union>j<n. set (L j)) = set (L i) \<union> (\<Union>j\<in>{..<n} - {i}. set (L j))"
  using Union_level_upd [of i n L "L i"] by simp

lemma core_pool: "core S e L fs \<Longrightarrow> pool_rep S (allocator e) fs"
  unfolding core_def by blast

lemma core_slots:
  "core S e L fs \<Longrightarrow> S = set fs \<union> (\<Union>i < length (order_buffer e). set (L i))"
  unfolding core_def by blast

lemma core_in_S: "core S e L fs \<Longrightarrow> i < length (order_buffer e) \<Longrightarrow> a \<in> set (L i) \<Longrightarrow> a \<in> S"
  by (subst core_slots, assumption) auto

lemma core_block:
  "core S e L fs \<Longrightarrow> i < length (order_buffer e) \<Longrightarrow> a \<in> set (L i) \<Longrightarrow> \<exists>b. block_at e a = Some b"
  by (auto simp: block_at_def dest!: core_rep list_rep_mapped)

lemma core_head:
  "core S e L fs \<Longrightarrow> i < length (order_buffer e) \<Longrightarrow> head (order_buffer e ! i) = head_opt (L i)"
  by (auto dest!: core_rep list_rep_head)

lemma core_disjoint:
  "core S e L fs \<Longrightarrow> i < length (order_buffer e) \<Longrightarrow> j < length (order_buffer e) \<Longrightarrow> i \<noteq> j \<Longrightarrow>
   a \<in> set (L i) \<Longrightarrow> a \<notin> set (L j)"
  unfolding core_def by blast

lemma core_not_free:
  "core S e L fs \<Longrightarrow> i < length (order_buffer e) \<Longrightarrow> a \<in> set (L i) \<Longrightarrow> a \<notin> set fs"
  by (metis block_at_def core_block core_def load_obj_not_free)

text \<open>Writing a block without touching its links.\<close>

lemma list_rep_payload:
  assumes "list_rep block_ops A l xs" "load_obj A a = Some b" "save_obj A a b' = Some A'"
    and "blk_prev b' = blk_prev b" "blk_next b' = blk_next b"
  shows "list_rep block_ops A' l xs"
proof -
  have "dll block_ops ((load_obj A)(a \<mapsto> b')) p xs q" if "dll block_ops (load_obj A) p xs q" for p q
    using that assms(2,4,5) by (induction xs arbitrary: p) (auto simp: block_ops_def)
  then show ?thesis using assms(1,3) by (auto simp: list_rep_def load_save_obj)
qed

lemma core_set_block:
  assumes "core S e L fs" "block_at e a = Some b" "blk_prev b' = blk_prev b" "blk_next b' = blk_next b"
  obtains A' where "set_block e a b' = Some (e\<lparr>allocator := A'\<rparr>)"
    and "core S (e\<lparr>allocator := A'\<rparr>) L fs"
    and "block_at (e\<lparr>allocator := A'\<rparr>) = (block_at e)(a \<mapsto> b')"
proof -
  have rep: "pool_rep S (allocator e) fs" by (rule core_pool [OF assms(1)])
  have a: "a \<notin> set fs" "a \<in> S"
    using load_obj_not_free [OF rep] assms(2) by (auto simp: block_at_def)
  obtain A' where A': "save_obj (allocator e) a b' = Some A'"
    using save_obj_ok [OF rep a(2)] by blast
  show ?thesis
  proof (rule that [of A'])
    show "set_block e a b' = Some (e\<lparr>allocator := A'\<rparr>)" by (simp add: set_block_def A')
    show "core S (e\<lparr>allocator := A'\<rparr>) L fs"
      using assms pool_rep_save [OF rep a(1) A'] list_rep_payload [OF _ _ A']
      by (auto simp: core_def block_at_def)
    show "block_at (e\<lparr>allocator := A'\<rparr>) = (block_at e)(a \<mapsto> b')"
      by (simp add: block_at_def load_save_obj [OF A'] fun_eq_iff)
  qed
qed

text \<open>Removing a block: unlinked from its level and returned to the pool.\<close>

lemma core_remove:
  assumes core: "core S e L fs" and i: "unat idx = i" "i < length (order_buffer e)"
    and Li: "L i = as @ x # bs"
  obtains A' buf' where
    "do { e \<leftarrow> Engine_unlink e x idx; Engine_deallocate e x } =
       Some (e\<lparr>allocator := A', order_buffer := buf'\<rparr>)"
    and "length buf' = length (order_buffer e)"
    and "core S (e\<lparr>allocator := A', order_buffer := buf'\<rparr>) (L(i := as @ bs)) (x # fs)"
    and "\<And>a. a \<noteq> x \<Longrightarrow> pay (e\<lparr>allocator := A', order_buffer := buf'\<rparr>) a = pay e a"
proof -
  let ?N = "length (order_buffer e)"
  note rep = core_pool [OF core] and S = core_slots [OF core]
  have Ri: "list_rep block_ops (allocator e) (order_buffer e ! i) (as @ x # bs)"
    using core_rep [OF core i(2)] Li by simp
  obtain A1 l1 where un: "unlink_node block_ops (allocator e) (order_buffer e ! i) x = Some (A1, l1)"
    and r1: "list_rep block_ops A1 l1 (as @ bs)" and k1: "keeps_free (allocator e) A1"
    and f1: "\<And>a. a \<notin> set (as @ x # bs) \<Longrightarrow> load_obj A1 a = load_obj (allocator e) a"
    and p1: "\<And>a. map_option payload_of (load_obj A1 a) = map_option payload_of (load_obj (allocator e) a)"
    using blocks.unlink_node_ok [OF Ri] by (metis block_ops_load)
  have rep1: "pool_rep S A1 fs" using k1 rep by (simp add: keeps_free_def)
  have x: "x \<in> S" "x \<notin> set fs" using core_not_free [OF core i(2), of x] core_in_S [OF core i(2), of x] Li by auto
  obtain A2 where A2: "deallocate A1 x = Some A2" "pool_rep S A2 (x # fs)"
    using pool.dealloc_front [OF rep1 x] by blast
  have load2: "load_obj A2 = (load_obj A1)(x := None)" by (rule load_obj_deallocate [OF A2(1)])
  let ?buf = "(order_buffer e)[i := l1]" let ?e = "e\<lparr>allocator := A2, order_buffer := ?buf\<rparr>"
  have "list_rep block_ops A2 (?buf ! j) ((L(i := as @ bs)) j)" if j: "j < ?N" for j
  proof (cases "j = i")
    case True
    have "x \<notin> set (as @ bs)" using list_rep_distinct [OF Ri] by auto
    then have "list_rep block_ops A2 l1 (as @ bs)"
      using r1 by (subst list_rep_cong [of _ _ A2 A1]) (auto simp: load2)
    then show ?thesis using True i by simp
  next
    case False
    have "a \<notin> set (as @ x # bs)" if "a \<in> set (L j)" for a
      using core_disjoint [OF core j i(2) False that] Li by simp
    then have "list_rep block_ops A2 (order_buffer e ! j) (L j)"
      using core_rep [OF core j] f1
      by (subst list_rep_cong [of _ _ A2 "allocator e"]) (auto simp: load2)
    then show ?thesis using False by simp
  qed
  moreover have "S = set (x # fs) \<union> (\<Union>j < ?N. set ((L(i := as @ bs)) j))"
    unfolding Union_level_upd [OF i(2)] using S Union_level [OF i(2), of L] Li by auto
  moreover have "set ((L(i := as @ bs)) j) \<inter> set ((L(i := as @ bs)) k) = {}"
    if "j < ?N" "k < ?N" "j \<noteq> k" for j k
  proof -
    have "set ((L(i := as @ bs)) l) \<subseteq> set (L l)" for l using Li by auto
    then show ?thesis using core_disjoint [OF core that] by blast
  qed
  ultimately have "core S ?e (L(i := as @ bs)) (x # fs)"
    using A2(2) by (simp add: core_def del: fun_upd_apply)
  moreover have "pay ?e a = pay e a" if "a \<noteq> x" for a
    using that p1 by (simp add: pay_def block_at_def load2)
  moreover have "do { e \<leftarrow> Engine_unlink e x idx; Engine_deallocate e x } = Some ?e"
    using i by (simp add: Engine_unlink_def Engine_deallocate_def level_def un A2(1))
  ultimately show ?thesis using that by (metis length_list_update)
qed

text \<open>Adding a block: taken from the pool, written, and appended to its level.\<close>

lemma core_append:
  assumes core: "core S e L fs" and A: "allocate (allocator e) = Some (A, Some x)"
    and i: "unat idx = i" "i < length (order_buffer e)"
  obtains A' buf' where
    "do { e \<leftarrow> set_block (e\<lparr>allocator := A\<rparr>) x b; append_list e x idx } =
       Some (e\<lparr>allocator := A', order_buffer := buf'\<rparr>)"
    and "length buf' = length (order_buffer e)"
    and "core S (e\<lparr>allocator := A', order_buffer := buf'\<rparr>) (L(i := L i @ [x])) (tl fs)"
    and "fs \<noteq> []" and "\<forall>j < length (order_buffer e). x \<notin> set (L j)"
    and "pay (e\<lparr>allocator := A', order_buffer := buf'\<rparr>) x = Some (payload_of b)"
    and "\<And>a. a \<noteq> x \<Longrightarrow> pay (e\<lparr>allocator := A', order_buffer := buf'\<rparr>) a = pay e a"
proof -
  let ?N = "length (order_buffer e)"
  note rep = core_pool [OF core] and S = core_slots [OF core]
  from pool.alloc_head [OF rep] A have "head_opt fs = Some x" and rep1: "pool_rep S A (tl fs)"
    by auto
  then obtain gs where fs: "fs = x # gs" by (auto simp: head_opt_Some_iff)
  have x: "x \<in> S" "x \<notin> set (tl fs)" using pool.rep_free [OF rep] fs by auto
  have fresh: "x \<notin> set (L j)" if "j < ?N" for j
    using core_not_free [OF core that] fs by auto
  have loadA: "load_obj A = load_obj (allocator e)" by (rule load_obj_allocate [OF A])
  obtain A1 where A1: "save_obj A x b = Some A1" using save_obj_ok [OF rep1 x(1)] by blast
  have load1: "load_obj A1 = (load_obj (allocator e))(x \<mapsto> b)"
    by (simp add: load_save_obj [OF A1] loadA)
  have Rj: "list_rep block_ops A1 (order_buffer e ! j) (L j)" if "j < ?N" for j
    using core_rep [OF core that] fresh [OF that]
    by (subst list_rep_cong [of _ _ A1 "allocator e"]) (auto simp: load1)
  have "load_obj A1 x = Some b" by (simp add: load1)
  then obtain A2 l2 where ap: "append_node block_ops A1 (order_buffer e ! i) x = Some (A2, l2)"
    and r2: "list_rep block_ops A2 l2 (L i @ [x])" and k2: "keeps_free A1 A2"
    and f2: "\<And>a. a \<notin> set (L i @ [x]) \<Longrightarrow> load_obj A2 a = load_obj A1 a"
    and p2: "\<And>a. map_option payload_of (load_obj A2 a) = map_option payload_of (load_obj A1 a)"
    using blocks.append_node_ok [OF Rj [OF i(2)] fresh [OF i(2)]] by (metis block_ops_load)
  let ?buf = "(order_buffer e)[i := l2]" let ?e = "e\<lparr>allocator := A2, order_buffer := ?buf\<rparr>"
  have "list_rep block_ops A2 (?buf ! j) ((L(i := L i @ [x])) j)" if j: "j < ?N" for j
  proof (cases "j = i")
    case True
    then show ?thesis using r2 i by simp
  next
    case False
    have "a \<notin> set (L i @ [x])" if "a \<in> set (L j)" for a
      using core_disjoint [OF core j i(2) False that] fresh [OF j] that by auto
    then have "list_rep block_ops A2 (order_buffer e ! j) (L j)"
      using Rj [OF j] f2 by (subst list_rep_cong [of _ _ A2 A1]) auto
    then show ?thesis using False by simp
  qed
  moreover have "pool_rep S A2 (tl fs)"
    using k2 pool_rep_save [OF rep1 x(2) A1] by (simp add: keeps_free_def)
  moreover have "S = set (tl fs) \<union> (\<Union>j < ?N. set ((L(i := L i @ [x])) j))"
    unfolding Union_level_upd [OF i(2)] using S Union_level [OF i(2), of L] fs by auto
  moreover have "set ((L(i := L i @ [x])) j) \<inter> set ((L(i := L i @ [x])) k) = {}"
    if "j < ?N" "k < ?N" "j \<noteq> k" for j k
    using that fresh core_disjoint [OF core that] core_disjoint [OF core that(2,1)] by (auto split: if_splits)
  ultimately have "core S ?e (L(i := L i @ [x])) (tl fs)"
    using i by (simp add: core_def del: fun_upd_apply)
  moreover have "pay ?e a = (if a = x then Some (payload_of b) else pay e a)" for a
    using p2 by (simp add: pay_def block_at_def load1)
  moreover have "do { e \<leftarrow> set_block (e\<lparr>allocator := A\<rparr>) x b; append_list e x idx } = Some ?e"
    using i by (simp add: set_block_def append_list_def level_def A1 ap)
  ultimately show ?thesis using that fresh fs by (metis length_list_update list.distinct(1))
qed

end
