(* ===== verification/Levels.thy ===== *)
theory Levels
  imports Prelude
begin

text \<open>
  Price levels. A side of a book that is indexed by price is a function from prices to lists;
  \<open>ask_ptrs\<close> and \<open>bid_ptrs\<close> string the levels together in the order in which they trade, and
  \<open>best_ask_ok\<close> and \<open>best_bid_ok\<close> say that a cursor is at the best level that is not empty. The
  matching engine and the tick-offset book share these.
\<close>

section \<open>Levels and cursors\<close>

text \<open>The elements of a side in the order in which they trade.\<close>

definition ask_ptrs :: "nat \<Rightarrow> (nat \<Rightarrow> 'a list) \<Rightarrow> 'a list" where
  "ask_ptrs n L = concat (map L [0..<n])"

definition bid_ptrs :: "nat \<Rightarrow> (nat \<Rightarrow> 'a list) \<Rightarrow> 'a list" where
  "bid_ptrs n L = concat (map L (rev [0..<n]))"

definition best_ask_ok :: "nat \<Rightarrow> (nat \<Rightarrow> 'a list) \<Rightarrow> nat \<Rightarrow> bool" where
  "best_ask_ok n LA i \<longleftrightarrow> i \<le> n \<and> (\<forall>j<i. LA j = []) \<and> (i < n \<longrightarrow> LA i \<noteq> [])"

definition best_bid_ok :: "nat \<Rightarrow> (nat \<Rightarrow> 'a list) \<Rightarrow> nat \<Rightarrow> bool" where
  "best_bid_ok n LB i \<longleftrightarrow> i < n \<and> (\<forall>j. i < j \<and> j < n \<longrightarrow> LB j = []) \<and> (0 < i \<longrightarrow> LB i \<noteq> [])"

section \<open>Lists of levels\<close>

lemma ask_ptrs_split:
  "i < n \<Longrightarrow> ask_ptrs n L = concat (map L [0..<i]) @ L i @ concat (map L [Suc i..<n])"
proof -
  assume "i < n"
  then have "[0..<n] = [0..<i] @ i # [Suc i..<n]"
    by (metis le_add1 le_add_same_cancel1 less_imp_le_nat upt_add_eq_append upt_conv_Cons le_Suc_ex)
  then show ?thesis by (simp add: ask_ptrs_def)
qed

lemma bid_ptrs_split:
  "i < n \<Longrightarrow> bid_ptrs n L = concat (map L (rev [Suc i..<n])) @ L i @ concat (map L (rev [0..<i]))"
proof -
  assume "i < n"
  then have "[0..<n] = [0..<i] @ i # [Suc i..<n]"
    by (metis le_add1 le_add_same_cancel1 less_imp_le_nat upt_add_eq_append upt_conv_Cons le_Suc_ex)
  then show ?thesis by (simp add: bid_ptrs_def)
qed

lemma map_upd_notin: "i \<notin> set is \<Longrightarrow> map (L(i := v)) is = map L is"
  by (induction "is") auto

lemma ask_ptrs_upd:
  "i < n \<Longrightarrow> ask_ptrs n (L(i := v)) = concat (map L [0..<i]) @ v @ concat (map L [Suc i..<n])"
  by (simp add: ask_ptrs_split map_upd_notin del: fun_upd_apply) simp

lemma bid_ptrs_upd:
  "i < n \<Longrightarrow> bid_ptrs n (L(i := v)) = concat (map L (rev [Suc i..<n])) @ v @ concat (map L (rev [0..<i]))"
  by (simp add: bid_ptrs_split map_upd_notin del: fun_upd_apply) simp

lemma set_ask_ptrs: "set (ask_ptrs n L) = (\<Union>i<n. set (L i))"
  by (auto simp: ask_ptrs_def)

lemma set_bid_ptrs: "set (bid_ptrs n L) = (\<Union>i<n. set (L i))"
  by (auto simp: bid_ptrs_def)

lemma ask_ptrs_front:
  assumes "\<forall>j<i. L j = []" "i < n" "L i = x # xs"
  shows "ask_ptrs n L = x # ask_ptrs n (L(i := xs))"
proof -
  have "concat (map L [0..<i]) = []" using assms(1) by simp
  then show ?thesis using assms(3) by (simp add: ask_ptrs_split [OF assms(2)] ask_ptrs_upd [OF assms(2)] del: concat_eq_Nil_conv)
qed

lemma bid_ptrs_front:
  assumes "\<forall>j. i < j \<and> j < n \<longrightarrow> L j = []" "i < n" "L i = x # xs"
  shows "bid_ptrs n L = x # bid_ptrs n (L(i := xs))"
proof -
  have "concat (map L (rev [Suc i..<n])) = []" using assms(1) by simp
  then show ?thesis using assms(3) by (simp add: bid_ptrs_split [OF assms(2)] bid_ptrs_upd [OF assms(2)] del: concat_eq_Nil_conv)
qed

lemma ask_ptrs_Nil: "ask_ptrs n L = [] \<longleftrightarrow> (\<forall>i<n. L i = [])"
  by (auto simp: ask_ptrs_def)

lemma bid_ptrs_Nil: "bid_ptrs n L = [] \<longleftrightarrow> (\<forall>i<n. L i = [])"
  by (auto simp: bid_ptrs_def)

lemma distinct_concat_levels:
  assumes "distinct is" "\<And>i. i \<in> set is \<Longrightarrow> distinct (L i)"
    and "\<And>i j. i \<in> set is \<Longrightarrow> j \<in> set is \<Longrightarrow> i \<noteq> j \<Longrightarrow> set (L i) \<inter> set (L j) = {}"
  shows "distinct (concat (map L is))"
  using assms
proof (induction "is")
  case (Cons i "is")
  have "distinct (concat (map L is))" using Cons by simp
  moreover have "set (L i) \<inter> set (L j) = {}" if "j \<in> set is" for j
    using Cons.prems(1) Cons.prems(3) [of i j] that by auto
  ultimately show ?case using Cons.prems(2) by auto
qed simp

end
