(* ===== verification/Engine_Book.thy ===== *)
theory Engine_Book
  imports Engine_Memory Levels
begin

text \<open>
  The abstract book an engine represents.

  \<^item> \<open>einv\<close> is the book invariant for the levels \<open>LB\<close> of the bids and \<open>LA\<close> of the asks: prices and
    sides agree with the level, quantities are positive, the book is not crossed, the counts and the
    two cursors are right, the index points to live blocks, and order references are distinct.
  \<^item> \<open>engine_sim\<close> relates an engine to the abstract book it represents. The lemmas show what the
    block operations and the cursor loops do to the two.
\<close>

section \<open>The book invariant\<close>

definition res :: "Engine \<Rightarrow> addr \<Rightarrow> Resting" where
  "res e a = (case pay e a of
     Some (r, q, i, k) \<Rightarrow> \<lparr>r_key = k, r_ref = i, r_price = EnterRequestView_Price r, r_qty = q\<rparr>
   | None \<Rightarrow> \<lparr>r_key = 0, r_ref = 0, r_price = 0, r_qty = 0\<rparr>)"

definition ok_block :: "Engine \<Rightarrow> nat \<Rightarrow> SideEnum \<Rightarrow> addr \<Rightarrow> bool" where
  "ok_block e i side a \<longleftrightarrow> (\<exists>r q d k. pay e a = Some (r, q, d, k) \<and>
     EnterRequestView_Price r = of_nat i \<and> EnterRequestView_Side r = side \<and> 0 < q)"

definition live :: "nat \<Rightarrow> (nat \<Rightarrow> addr list) \<Rightarrow> (nat \<Rightarrow> addr list) \<Rightarrow> addr set" where
  "live n LB LA = set (bid_ptrs n LB) \<union> set (ask_ptrs n LA)"

definition uncrossed :: "nat \<Rightarrow> (nat \<Rightarrow> addr list) \<Rightarrow> (nat \<Rightarrow> addr list) \<Rightarrow> bool" where
  "uncrossed n LB LA \<longleftrightarrow> (\<forall>i<n. \<forall>j<n. LB i \<noteq> [] \<longrightarrow> LA j \<noteq> [] \<longrightarrow> i < j)"

text \<open>The index and the order references, for a set of live blocks.\<close>

definition idx_ok :: "Engine \<Rightarrow> addr set \<Rightarrow> bool" where
  "idx_ok e Lv \<longleftrightarrow>
     (\<forall>k a. order_blocks_map e k = Some a \<longrightarrow> a \<in> Lv \<and> r_key (res e a) = k) \<and>
     inj_on (\<lambda>a. r_ref (res e a)) Lv \<and>
     (\<forall>a\<in>Lv. unat (r_ref (res e a)) \<le> unat (counter e))"

text \<open>The part of the invariant that does not mention the cursors, and the whole invariant.\<close>

definition einv0 :: "addr set \<Rightarrow> Engine \<Rightarrow> (nat \<Rightarrow> addr list) \<Rightarrow> (nat \<Rightarrow> addr list) \<Rightarrow> addr list \<Rightarrow> bool" where
  "einv0 S e LB LA fs \<longleftrightarrow>
     (let n = length (order_buffer e) in
      core S e (\<lambda>i. LB i @ LA i) fs \<and> finite S \<and> card S < 2 ^ 64 \<and> 0 < n \<and> n < 2 ^ 64 \<and>
      (\<forall>i<n. \<forall>a\<in>set (LB i). ok_block e i SideEnum_B a) \<and>
      (\<forall>i<n. \<forall>a\<in>set (LA i). ok_block e i SideEnum_S a) \<and>
      uncrossed n LB LA \<and>
      buy_orders e = of_nat (length (bid_ptrs n LB)) \<and>
      sell_orders e = of_nat (length (ask_ptrs n LA)) \<and>
      idx_ok e (live n LB LA))"

definition einv :: "addr set \<Rightarrow> Engine \<Rightarrow> (nat \<Rightarrow> addr list) \<Rightarrow> (nat \<Rightarrow> addr list) \<Rightarrow> addr list \<Rightarrow> bool" where
  "einv S e LB LA fs \<longleftrightarrow>
     einv0 S e LB LA fs \<and>
     best_bid_ok (length (order_buffer e)) LB (unat (best_buy_idx e)) \<and>
     best_ask_ok (length (order_buffer e)) LA (unat (best_sell_idx e))"

definition book_of :: "Engine \<Rightarrow> (nat \<Rightarrow> addr list) \<Rightarrow> (nat \<Rightarrow> addr list) \<Rightarrow> addr list \<Rightarrow> Book" where
  "book_of e LB LA fs =
     \<lparr>bids = map (res e) (bid_ptrs (length (order_buffer e)) LB),
      asks = map (res e) (ask_ptrs (length (order_buffer e)) LA),
      index = (\<lambda>k. map_option (\<lambda>a. r_ref (res e a)) (order_blocks_map e k)),
      last_ref = counter e, last_match = match_counter e, room = length fs\<rparr>"

definition engine_sim :: "addr set \<Rightarrow> Engine \<Rightarrow> Book \<Rightarrow> bool" where
  "engine_sim S e B \<longleftrightarrow> (\<exists>LB LA fs. einv S e LB LA fs \<and> B = book_of e LB LA fs)"

subsection \<open>Consequences of the invariant\<close>

lemma einv0_core: "einv0 S e LB LA fs \<Longrightarrow> core S e (\<lambda>i. LB i @ LA i) fs"
  by (simp add: einv0_def Let_def)

lemma einv0_bid: "einv0 S e LB LA fs \<Longrightarrow> i < length (order_buffer e) \<Longrightarrow> a \<in> set (LB i) \<Longrightarrow> ok_block e i SideEnum_B a"
  by (simp add: einv0_def Let_def)

lemma einv0_ask: "einv0 S e LB LA fs \<Longrightarrow> i < length (order_buffer e) \<Longrightarrow> a \<in> set (LA i) \<Longrightarrow> ok_block e i SideEnum_S a"
  by (simp add: einv0_def Let_def)

lemma einv0_uncrossed: "einv0 S e LB LA fs \<Longrightarrow> uncrossed (length (order_buffer e)) LB LA"
  by (simp add: einv0_def Let_def)

lemma einv0_bounds:
  assumes "einv0 S e LB LA fs"
  shows "0 < length (order_buffer e)" "length (order_buffer e) < 2 ^ 64" "finite S" "card S < 2 ^ 64"
  using assms by (simp_all add: einv0_def Let_def)

lemma einv0_index:
  assumes "einv0 S e LB LA fs" "order_blocks_map e k = Some a"
  shows "a \<in> live (length (order_buffer e)) LB LA" "r_key (res e a) = k"
  using assms by (simp_all add: einv0_def Let_def idx_ok_def)

lemma einv0_idx: "einv0 S e LB LA fs \<Longrightarrow> idx_ok e (live (length (order_buffer e)) LB LA)"
  by (simp add: einv0_def Let_def)

lemma einv0_inj: "einv0 S e LB LA fs \<Longrightarrow> inj_on (\<lambda>a. r_ref (res e a)) (live (length (order_buffer e)) LB LA)"
  by (simp add: einv0_def Let_def idx_ok_def)

lemma einv0_counts:
  assumes "einv0 S e LB LA fs"
  shows "buy_orders e = of_nat (length (bid_ptrs (length (order_buffer e)) LB))"
    "sell_orders e = of_nat (length (ask_ptrs (length (order_buffer e)) LA))"
  using assms by (simp_all add: einv0_def Let_def)

lemma einv0_refs: "einv0 S e LB LA fs \<Longrightarrow> a \<in> live (length (order_buffer e)) LB LA \<Longrightarrow>
    unat (r_ref (res e a)) \<le> unat (counter e)"
  by (simp add: einv0_def Let_def idx_ok_def)

lemma core_distinct_levels:
  assumes "core S e L fs"
  shows "i < length (order_buffer e) \<Longrightarrow> distinct (L i)"
  by (rule list_rep_distinct [OF core_rep [OF assms]])

lemma einv0_distinct:
  assumes inv: "einv0 S e LB LA fs"
  defines "n \<equiv> length (order_buffer e)"
  shows "distinct (bid_ptrs n LB)" "distinct (ask_ptrs n LA)"
    "set (bid_ptrs n LB) \<inter> set (ask_ptrs n LA) = {}"
proof -
  note c = einv0_core [OF inv]
  have d: "distinct (LB i @ LA i)" if "i < n" for i
    using core_distinct_levels [OF c] that by (simp add: n_def)
  have dj: "set (LB i @ LA i) \<inter> set (LB j @ LA j) = {}" if "i < n" "j < n" "i \<noteq> j" for i j
    using core_disjoint [OF c] that unfolding n_def by blast
  have djs: "set (LB i) \<inter> set (LB j) = {}" "set (LA i) \<inter> set (LA j) = {}" if "i < n" "j < n" "i \<noteq> j" for i j
    using dj [OF that] by auto
  show "distinct (bid_ptrs n LB)"
    unfolding bid_ptrs_def by (rule distinct_concat_levels) (simp, use d in simp, use djs in simp)
  show "distinct (ask_ptrs n LA)"
    unfolding ask_ptrs_def by (rule distinct_concat_levels) (simp, use d in simp, use djs in simp)
  have "x \<notin> set (LA j)" if "i < n" "j < n" "x \<in> set (LB i)" for i j x
    using d [OF that(1)] dj [OF that(1,2)] that(3) by (cases "i = j") auto
  then show "set (bid_ptrs n LB) \<inter> set (ask_ptrs n LA) = {}"
    by (auto simp: set_bid_ptrs set_ask_ptrs)
qed

lemma live_subset:
  assumes "einv0 S e LB LA fs"
  shows "live (length (order_buffer e)) LB LA \<subseteq> S"
  using core_in_S [OF einv0_core [OF assms]] by (fastforce simp: live_def set_bid_ptrs set_ask_ptrs)

lemma einv0_lengths:
  assumes inv: "einv0 S e LB LA fs"
  defines "n \<equiv> length (order_buffer e)"
  shows "length (bid_ptrs n LB) < 2 ^ 64" "length (ask_ptrs n LA) < 2 ^ 64"
    "unat (buy_orders e) = length (bid_ptrs n LB)" "unat (sell_orders e) = length (ask_ptrs n LA)"
proof -
  note dist = einv0_distinct [OF inv] and b = einv0_bounds [OF inv]
  have sub: "set (bid_ptrs n LB) \<subseteq> S" "set (ask_ptrs n LA) \<subseteq> S"
    using live_subset [OF inv] by (auto simp: live_def n_def)
  show lb: "length (bid_ptrs n LB) < 2 ^ 64"
    using card_mono [OF b(3) sub(1)] dist(1) b(4) by (simp add: distinct_card n_def)
  show la: "length (ask_ptrs n LA) < 2 ^ 64"
    using card_mono [OF b(3) sub(2)] dist(2) b(4) by (simp add: distinct_card n_def)
  show "unat (buy_orders e) = length (bid_ptrs n LB)" "unat (sell_orders e) = length (ask_ptrs n LA)"
    using lb la by (simp_all add: einv0_counts [OF inv] n_def unat_of_nat_small)
qed

lemma live_block:
  assumes "einv0 S e LB LA fs" "a \<in> live (length (order_buffer e)) LB LA"
  obtains b where "block_at e a = Some b"
    and "res e a = \<lparr>r_key = blk_key b, r_ref = blk_id b, r_price = EnterRequestView_Price (raw b), r_qty = curr_qty b\<rparr>"
proof -
  obtain i where "i < length (order_buffer e)" "a \<in> set (LB i @ LA i)"
    using assms(2) by (auto simp: live_def set_bid_ptrs set_ask_ptrs)
  then obtain b where "block_at e a = Some b" using core_block [OF einv0_core [OF assms(1)]] by blast
  then show ?thesis using that by (simp add: res_def pay_def payload_of_def)
qed

lemma res_price:
  assumes "ok_block e i side a"
  shows "r_price (res e a) = of_nat i" "0 < r_qty (res e a)"
  using assms by (auto simp: ok_block_def res_def)

lemma res_cong: "pay e' a = pay e a \<Longrightarrow> res e' a = res e a"
  by (simp add: res_def)

lemma ok_block_cong: "pay e' a = pay e a \<Longrightarrow> ok_block e' i s a = ok_block e i s a"
  by (simp add: ok_block_def)

subsection \<open>The cursor loops\<close>

lemma advance_sell_ok:
  assumes core: "core S e (\<lambda>i. LB i @ LA i) fs" and n: "length (order_buffer e) < 2 ^ 64"
    and so: "sell_orders e = of_nat (length (ask_ptrs (length (order_buffer e)) LA))"
    and "0 < sell_orders e" "unat (best_sell_idx e) \<le> length (order_buffer e)"
    and "\<forall>j < unat (best_sell_idx e). LA j = []"
    and "\<forall>j < length (order_buffer e). unat (best_sell_idx e) \<le> j \<longrightarrow> LB j = []"
  obtains k where "advance_sell e = e\<lparr>best_sell_idx := k\<rparr>"
    and "best_ask_ok (length (order_buffer e)) LA (unat k)"
proof -
  have "\<exists>k. advance_sell e = e\<lparr>best_sell_idx := k\<rparr> \<and> best_ask_ok (length (order_buffer e)) LA (unat k)"
    using assms
  proof (induction e rule: advance_sell.induct)
    case (1 e)
    let ?n = "length (order_buffer e)" and ?i = "unat (best_sell_idx e)"
    have lt: "best_sell_idx e < BUFFER_SIZE e \<longleftrightarrow> ?i < ?n"
      using "1.prems"(2) by (simp add: BUFFER_SIZE_def word_less_nat_alt unat_of_nat_small)
    have hd: "head (order_buffer e ! ?i) = None \<longleftrightarrow> LA ?i = []" if "?i < ?n"
      using core_head [OF "1.prems"(1) that] "1.prems"(7) that by simp
    show ?case
    proof (cases "?i < ?n \<and> LA ?i = []")
      case False
      then have "advance_sell e = e\<lparr>best_sell_idx := best_sell_idx e\<rparr>"
        by (subst advance_sell.simps) (auto simp: lt hd)
      moreover have "best_ask_ok ?n LA ?i" using False "1.prems"(5,6) by (auto simp: best_ask_ok_def)
      ultimately show ?thesis by blast
    next
      case True
      let ?e = "e\<lparr>best_sell_idx := best_sell_idx e + 1\<rparr>"
      have i1: "unat (best_sell_idx e + 1) = Suc ?i" using lt True unat_Suc_bound by blast
      have go: "advance_sell e = advance_sell ?e"
        using True "1.prems"(4) lt hd by (subst advance_sell.simps) auto
      have e1: "\<forall>j < Suc ?i. LA j = []" using True "1.prems"(6) by (auto simp: less_Suc_eq)
      have "\<exists>k. advance_sell ?e = ?e\<lparr>best_sell_idx := k\<rparr> \<and> best_ask_ok (length (order_buffer ?e)) LA (unat k)"
        by (rule "1.IH") (use True "1.prems" lt hd i1 e1 in auto)
      then show ?thesis using go by auto
    qed
  qed
  then show ?thesis using that by blast
qed

lemma retreat_buy_ok:
  assumes core: "core S e (\<lambda>i. LB i @ LA i) fs"
    and "0 < buy_orders e" "unat (best_buy_idx e) < length (order_buffer e)"
    and "\<forall>j. unat (best_buy_idx e) < j \<and> j < length (order_buffer e) \<longrightarrow> LB j = []"
    and "\<forall>j \<le> unat (best_buy_idx e). LA j = []"
  obtains k where "retreat_buy e = Some (e\<lparr>best_buy_idx := k\<rparr>)"
    and "best_bid_ok (length (order_buffer e)) LB (unat k)"
proof -
  have "\<exists>k. retreat_buy e = Some (e\<lparr>best_buy_idx := k\<rparr>) \<and> best_bid_ok (length (order_buffer e)) LB (unat k)"
    using assms
  proof (induction e rule: retreat_buy.induct)
    case (1 e)
    let ?n = "length (order_buffer e)" and ?i = "unat (best_buy_idx e)"
    have hd: "head (order_buffer e ! ?i) = None \<longleftrightarrow> LB ?i = []"
      using core_head [OF "1.prems"(1,3)] "1.prems"(5) by simp
    have lv: "level e (best_buy_idx e) = Some (order_buffer e ! ?i)"
      using "1.prems"(3) by (simp add: level_def)
    show ?case
    proof (cases "0 < best_buy_idx e \<and> LB ?i = []")
      case False
      then have "retreat_buy e = Some (e\<lparr>best_buy_idx := best_buy_idx e\<rparr>)"
        by (subst retreat_buy.simps) (auto simp: lv hd)
      moreover have "best_bid_ok ?n LB ?i"
        using False "1.prems"(3,4) by (auto simp: best_bid_ok_def word_gt_0 unat_gt_0)
      ultimately show ?thesis by blast
    next
      case True
      let ?e = "e\<lparr>best_buy_idx := best_buy_idx e - 1\<rparr>"
      have i1: "unat (best_buy_idx e - 1) = ?i - 1" "0 < ?i"
        using True by (auto simp: unat_pred word_gt_0 unat_gt_0)
      have go: "retreat_buy e = retreat_buy ?e"
        using True "1.prems"(2) lv hd by (subst retreat_buy.simps) auto
      have e1: "\<forall>j. ?i - 1 < j \<and> j < ?n \<longrightarrow> LB j = []" using True "1.prems"(4) i1(2)
        by (metis Suc_pred' linorder_neqE_nat not_less_eq)
      have "\<exists>k. retreat_buy ?e = Some (?e\<lparr>best_buy_idx := k\<rparr>) \<and> best_bid_ok (length (order_buffer ?e)) LB (unat k)"
        by (rule "1.IH") (use True "1.prems" lv hd i1 e1 in auto)
      then show ?thesis using go by auto
    qed
  qed
  then show ?thesis using that by blast
qed


lemma refresh_best_sell_ok:
  assumes inv: "einv0 S e LB LA fs" and le: "unat (best_sell_idx e) \<le> length (order_buffer e)"
    and A: "\<forall>j < unat (best_sell_idx e). LA j = []"
    and B: "\<forall>j < length (order_buffer e). unat (best_sell_idx e) \<le> j \<longrightarrow> LB j = []"
  obtains k where "refresh_best_sell e = e\<lparr>best_sell_idx := k\<rparr>"
    and "best_ask_ok (length (order_buffer e)) LA (unat k)"
proof (cases "sell_orders e = 0")
  case True
  then have "refresh_best_sell e = e\<lparr>best_sell_idx := BUFFER_SIZE e\<rparr>"
    by (simp add: refresh_best_sell_def Let_def advance_sell.simps)
  moreover have "ask_ptrs (length (order_buffer e)) LA = []" using True einv0_lengths(4) [OF inv] by simp
  ultimately show ?thesis
    using that [of "BUFFER_SIZE e"] einv0_bounds(2) [OF inv]
    by (simp add: best_ask_ok_def BUFFER_SIZE_def unat_of_nat_small ask_ptrs_Nil)
next
  case False
  obtain k where k: "advance_sell e = e\<lparr>best_sell_idx := k\<rparr>"
    "best_ask_ok (length (order_buffer e)) LA (unat k)"
    by (rule advance_sell_ok [OF einv0_core [OF inv] einv0_bounds(2) [OF inv] einv0_counts(2) [OF inv] _ le A B])
      (use False in \<open>auto simp: word_gt_0\<close>)
  then show ?thesis using False that by (simp add: refresh_best_sell_def)
qed

lemma refresh_best_buy_ok:
  assumes inv: "einv0 S e LB LA fs" and lt: "unat (best_buy_idx e) < length (order_buffer e)"
    and B: "\<forall>j. unat (best_buy_idx e) < j \<and> j < length (order_buffer e) \<longrightarrow> LB j = []"
    and A: "\<forall>j \<le> unat (best_buy_idx e). LA j = []"
  obtains k where "refresh_best_buy e = Some (e\<lparr>best_buy_idx := k\<rparr>)"
    and "best_bid_ok (length (order_buffer e)) LB (unat k)"
proof (cases "buy_orders e = 0")
  case True
  then have "refresh_best_buy e = Some (e\<lparr>best_buy_idx := 0\<rparr>)"
    by (simp add: refresh_best_buy_def retreat_buy.simps)
  moreover have "bid_ptrs (length (order_buffer e)) LB = []" using True einv0_lengths(3) [OF inv] by simp
  ultimately show ?thesis
    using that [of 0] einv0_bounds(1) [OF inv] by (simp add: best_bid_ok_def bid_ptrs_Nil)
next
  case False
  obtain k where k: "retreat_buy e = Some (e\<lparr>best_buy_idx := k\<rparr>)"
    "best_bid_ok (length (order_buffer e)) LB (unat k)"
    by (rule retreat_buy_ok [OF einv0_core [OF inv] _ lt B A])
      (use False in \<open>auto simp: word_gt_0\<close>)
  then show ?thesis using False that by (simp add: refresh_best_buy_def)
qed

subsection \<open>Fields the invariant does not mention\<close>

lemma pay_frame [simp]:
  "pay (e\<lparr>counter := c\<rparr>) = pay e"
  "pay (e\<lparr>match_counter := c\<rparr>) = pay e"
  "pay (e\<lparr>order_blocks_map := m\<rparr>) = pay e"
  "pay (e\<lparr>buy_orders := c\<rparr>) = pay e"
  "pay (e\<lparr>sell_orders := c\<rparr>) = pay e"
  "pay (e\<lparr>order_buffer := buf\<rparr>) = pay e"
  "pay (e\<lparr>best_buy_idx := c\<rparr>) = pay e"
  "pay (e\<lparr>best_sell_idx := c\<rparr>) = pay e"
  "pay (emit ms e) = pay e"
  by (simp_all add: pay_def fun_eq_iff)

lemma res_frame: "pay e' = pay e \<Longrightarrow> res e' = res e"
  by (simp add: res_def fun_eq_iff)

lemma core_emit [simp]: "core S (emit ms e) L fs = core S e L fs"
  by (simp add: core_def)

lemma einv0_frame [simp]:
  "einv0 S (e\<lparr>match_counter := c\<rparr>) LB LA fs = einv0 S e LB LA fs"
  "einv0 S (e\<lparr>best_buy_idx := c\<rparr>) LB LA fs = einv0 S e LB LA fs"
  "einv0 S (e\<lparr>best_sell_idx := c\<rparr>) LB LA fs = einv0 S e LB LA fs"
  "einv0 S (emit ms e) LB LA fs = einv0 S e LB LA fs"
  by (simp_all add: einv0_def idx_ok_def ok_block_def res_def)

lemma einv_frame [simp]:
  "einv S (e\<lparr>match_counter := c\<rparr>) LB LA fs = einv S e LB LA fs"
  "einv S (emit ms e) LB LA fs = einv S e LB LA fs"
  by (simp_all add: einv_def)

lemma book_of_frame [simp]:
  "book_of (e\<lparr>match_counter := c\<rparr>) LB LA fs = (book_of e LB LA fs)\<lparr>last_match := c\<rparr>"
  "book_of (e\<lparr>best_buy_idx := i\<rparr>) LB LA fs = book_of e LB LA fs"
  "book_of (e\<lparr>best_sell_idx := i\<rparr>) LB LA fs = book_of e LB LA fs"
  "book_of (emit ms e) LB LA fs = book_of e LB LA fs"
  by (simp_all add: book_of_def res_def)

lemma engine_sim_emit [simp]: "engine_sim S (emit ms e) B = engine_sim S e B"
  by (simp add: engine_sim_def)

lemma engine_sim_match:
  "engine_sim S e B \<Longrightarrow> engine_sim S (e\<lparr>match_counter := c\<rparr>) (B\<lparr>last_match := c\<rparr>)"
  by (auto simp: engine_sim_def)

subsection \<open>The index and the references\<close>

lemma idx_ok_remove:
  assumes "idx_ok e Lv" "\<And>a. a \<noteq> x \<Longrightarrow> pay e' a = pay e a"
    and "order_blocks_map e' = (order_blocks_map e)(r_key (res e x) := None)" "counter e' = counter e"
  shows "idx_ok e' (Lv - {x})"
proof -
  have r: "res e' a = res e a" if "a \<noteq> x" for a by (rule res_cong) (rule assms(2) [OF that])
  have "inj_on (\<lambda>a. r_ref (res e' a)) (Lv - {x}) \<longleftrightarrow> inj_on (\<lambda>a. r_ref (res e a)) (Lv - {x})"
    by (rule inj_on_cong) (simp add: r)
  moreover have "inj_on (\<lambda>a. r_ref (res e a)) (Lv - {x})"
    using assms(1) by (auto simp: idx_ok_def intro: inj_on_subset)
  moreover have "a \<in> Lv - {x} \<and> r_key (res e' a) = k" if "order_blocks_map e' k = Some a" for k a
  proof -
    from that assms(3) have "order_blocks_map e k = Some a" "k \<noteq> r_key (res e x)" by (auto split: if_splits)
    moreover from this have "a \<in> Lv" "r_key (res e a) = k" using assms(1) by (auto simp: idx_ok_def)
    ultimately show ?thesis using r [of a] by (cases "a = x") auto
  qed
  moreover have "unat (r_ref (res e' a)) \<le> unat (counter e')" if "a \<in> Lv - {x}" for a
    using assms(1,4) r [of a] that by (simp add: idx_ok_def)
  ultimately show ?thesis unfolding idx_ok_def by blast
qed

lemma idx_ok_add:
  assumes "idx_ok e Lv" "\<And>a. a \<noteq> x \<Longrightarrow> pay e' a = pay e a" "x \<notin> Lv"
    and "order_blocks_map e' = (order_blocks_map e)(k \<mapsto> x)" "r_key (res e' x) = k"
    and "counter e' = counter e" "r_ref (res e' x) = counter e"
    and "\<And>a. a \<in> Lv \<Longrightarrow> r_ref (res e a) \<noteq> counter e"
  shows "idx_ok e' (insert x Lv)"
proof -
  have r: "res e' a = res e a" if "a \<in> Lv" for a
    by (rule res_cong, rule assms(2)) (use that assms(3) in auto)
  have "inj_on (\<lambda>a. r_ref (res e' a)) Lv \<longleftrightarrow> inj_on (\<lambda>a. r_ref (res e a)) Lv"
    by (rule inj_on_cong) (simp add: r)
  moreover have "r_ref (res e' x) \<notin> (\<lambda>a. r_ref (res e' a)) ` (Lv - {x})"
    using assms(7,8) r by fastforce
  ultimately have "inj_on (\<lambda>a. r_ref (res e' a)) (insert x Lv)"
    using assms(1) by (simp add: idx_ok_def)
  moreover have "a \<in> insert x Lv \<and> r_key (res e' a) = k'" if "order_blocks_map e' k' = Some a" for k' a
    using that assms(1,4,5) r [of a] by (auto simp: idx_ok_def split: if_splits)
  moreover have "unat (r_ref (res e' a)) \<le> unat (counter e')" if "a \<in> insert x Lv" for a
    using that assms(1,6,7) r [of a] by (auto simp: idx_ok_def)
  ultimately show ?thesis unfolding idx_ok_def by blast
qed

lemma idx_ok_requote:
  assumes "idx_ok e Lv"
    and "\<And>a. r_ref (res e' a) = r_ref (res e a)" "\<And>a. r_key (res e' a) = r_key (res e a)"
    and "order_blocks_map e' = order_blocks_map e" "counter e' = counter e"
  shows "idx_ok e' Lv"
  using assms by (simp add: idx_ok_def)


subsection \<open>Removing an order\<close>

lemma unlink_dealloc_frame:
  assumes "do { e \<leftarrow> Engine_unlink e x idx; Engine_deallocate e x } = Some (e\<lparr>allocator := A, order_buffer := buf\<rparr>)"
    and "allocator e0 = allocator e" "order_buffer e0 = order_buffer e"
  shows "do { e \<leftarrow> Engine_unlink e0 x idx; Engine_deallocate e x } = Some (e0\<lparr>allocator := A, order_buffer := buf\<rparr>)"
proof -
  from assms(1) obtain l A1 l1 where un: "level e idx = Some l"
    "unlink_node block_ops (allocator e) l x = Some (A1, l1)"
    and d: "Engine_deallocate (e\<lparr>allocator := A1, order_buffer := (order_buffer e)[unat idx := l1]\<rparr>) x =
      Some (e\<lparr>allocator := A, order_buffer := buf\<rparr>)"
    by (auto simp: Engine_unlink_def bind_Some_iff)
  then obtain A2 where A2: "deallocate A1 x = Some A2"
    "e\<lparr>order_buffer := (order_buffer e)[unat idx := l1], allocator := A2\<rparr> = e\<lparr>allocator := A, order_buffer := buf\<rparr>"
    by (auto simp: Engine_deallocate_def bind_Some_iff)
  have "A2 = A" using arg_cong [OF A2(2), of allocator] by simp
  moreover have "buf = (order_buffer e)[unat idx := l1]" using arg_cong [OF A2(2), of order_buffer] by simp
  moreover have "level e0 idx = Some l" using un(1) assms(3) by (simp add: level_def split: if_splits)
  ultimately show ?thesis
    using un(2) A2(1) assms(2,3) by (simp add: Engine_unlink_def Engine_deallocate_def)
qed

lemma filter_neq: "x \<notin> set xs \<Longrightarrow> filter (\<lambda>a. a \<noteq> x) xs = xs"
  by (rule filter_True) auto

lemma drop_ref_map:
  assumes inj: "inj_on (\<lambda>a. r_ref (res e a)) Lv" and "x \<in> Lv" "set xs \<subseteq> Lv"
    and r: "\<And>a. a \<noteq> x \<Longrightarrow> res e' a = res e a"
  shows "drop_ref (r_ref (res e x)) (map (res e) xs) = map (res e') (filter (\<lambda>a. a \<noteq> x) xs)"
  using assms(2,3)
proof (induction xs)
  case (Cons a xs)
  then have "r_ref (res e a) = r_ref (res e x) \<longleftrightarrow> a = x" using inj_onD [OF inj, of a x] by auto
  with Cons show ?case by (auto simp: drop_ref_def r)
qed (simp add: drop_ref_def)

lemma ask_ptrs_remove:
  assumes "i < n" "L i = as @ x # bs" "distinct (ask_ptrs n L)"
  shows "ask_ptrs n (L(i := as @ bs)) = filter (\<lambda>a. a \<noteq> x) (ask_ptrs n L)"
  using assms(3) unfolding ask_ptrs_split [OF assms(1)] ask_ptrs_upd [OF assms(1)] assms(2)
  by (auto simp: filter_neq simp del: set_concat)

lemma bid_ptrs_remove:
  assumes "i < n" "L i = as @ x # bs" "distinct (bid_ptrs n L)"
  shows "bid_ptrs n (L(i := as @ bs)) = filter (\<lambda>a. a \<noteq> x) (bid_ptrs n L)"
  using assms(3) unfolding bid_ptrs_split [OF assms(1)] bid_ptrs_upd [OF assms(1)] assms(2)
  by (auto simp: filter_neq simp del: set_concat)

text \<open>What the index of the abstract book becomes.\<close>

lemma index_remove:
  assumes "idx_ok e Lv" "\<And>a. a \<noteq> x \<Longrightarrow> res e' a = res e a"
    and "m = (order_blocks_map e)(r_key (res e x) := None)"
  shows "(\<lambda>k. map_option (\<lambda>a. r_ref (res e' a)) (m k)) =
    (\<lambda>k. map_option (\<lambda>a. r_ref (res e a)) (order_blocks_map e k))(r_key (res e x) := None)"
proof
  fix k
  have "a \<noteq> x" if "order_blocks_map e k = Some a" "k \<noteq> r_key (res e x)" for a
    using assms(1) that by (auto simp: idx_ok_def)
  then show "map_option (\<lambda>a. r_ref (res e' a)) (m k) =
    ((\<lambda>k. map_option (\<lambda>a. r_ref (res e a)) (order_blocks_map e k))(r_key (res e x) := None)) k"
    using assms(2,3) by (cases "order_blocks_map e k") auto
qed

lemma length_filter_neq:
  "distinct xs \<Longrightarrow> x \<in> set xs \<Longrightarrow> Suc (length (filter (\<lambda>a. a \<noteq> x) xs)) = length xs"
  by (induction xs) (auto simp: filter_neq)

lemma of_nat_length_remove:
  assumes "distinct xs" "x \<in> set xs"
  shows "of_nat (length xs) - 1 = (of_nat (length (filter (\<lambda>a. a \<noteq> x) xs)) :: 'a::len word)"
  by (simp flip: length_filter_neq [OF assms])

lemma ok_block_mono:
  assumes "\<And>i a. i < n \<Longrightarrow> a \<in> set (L i) \<Longrightarrow> ok_block e i s a" "\<And>a. a \<noteq> x \<Longrightarrow> pay e' a = pay e a"
    and "\<And>i. i < n \<Longrightarrow> set (L' i) \<subseteq> set (L i) - {x}"
  shows "\<forall>i<n. \<forall>a\<in>set (L' i). ok_block e' i s a"
proof (intro allI impI ballI)
  fix i a assume "i < n" "a \<in> set (L' i)"
  with assms(3) have a: "a \<in> set (L i)" "a \<noteq> x" by auto
  show "ok_block e' i s a"
    using assms(1) [OF \<open>i < n\<close> a(1)] ok_block_cong [OF assms(2) [OF a(2)]] by simp
qed


text \<open>A smaller book: \<open>x\<close> has left its level, the index and the counts.\<close>

lemma einv0_shrink:
  assumes inv: "einv0 S e LB LA fs" and x: "x \<in> live (length (order_buffer e)) LB LA"
    and core: "core S e' (\<lambda>j. LB' j @ LA' j) (x # fs)" and n: "length (order_buffer e') = length (order_buffer e)"
    and p: "\<And>a. a \<noteq> x \<Longrightarrow> pay e' a = pay e a"
    and LB: "bid_ptrs (length (order_buffer e)) LB' = filter (\<lambda>a. a \<noteq> x) (bid_ptrs (length (order_buffer e)) LB)"
    and LA: "ask_ptrs (length (order_buffer e)) LA' = filter (\<lambda>a. a \<noteq> x) (ask_ptrs (length (order_buffer e)) LA)"
    and sub: "\<And>j. j < length (order_buffer e) \<Longrightarrow> set (LB' j) \<subseteq> set (LB j) - {x}"
      "\<And>j. j < length (order_buffer e) \<Longrightarrow> set (LA' j) \<subseteq> set (LA j) - {x}"
    and counts: "buy_orders e' = of_nat (length (bid_ptrs (length (order_buffer e)) LB'))"
      "sell_orders e' = of_nat (length (ask_ptrs (length (order_buffer e)) LA'))"
    and rest: "order_blocks_map e' = (order_blocks_map e)(r_key (res e x) := None)"
      "counter e' = counter e" "match_counter e' = match_counter e"
  defines "B \<equiv> book_of e LB LA fs" and "r \<equiv> res e x"
  shows "einv0 S e' LB' LA' (x # fs)"
    and "book_of e' LB' LA' (x # fs) =
      B\<lparr>bids := drop_ref (r_ref r) (bids B), asks := drop_ref (r_ref r) (asks B),
        index := (index B)(r_key r := None), room := Suc (room B)\<rparr>"
proof -
  let ?n = "length (order_buffer e)"
  have rs: "res e' a = res e a" if "a \<noteq> x" for a by (rule res_cong [OF p [OF that]])
  have lv: "live ?n LB' LA' = live ?n LB LA - {x}" by (auto simp: live_def LB LA)
  note oks = ok_block_mono [where x = x, OF _ p]
  show "einv0 S e' LB' LA' (x # fs)"
    unfolding einv0_def Let_def n
  proof (intro conjI)
    show "\<forall>j<?n. \<forall>a\<in>set (LB' j). ok_block e' j SideEnum_B a"
      by (rule oks) (erule (1) einv0_bid [OF inv], assumption, erule sub(1))
    show "\<forall>j<?n. \<forall>a\<in>set (LA' j). ok_block e' j SideEnum_S a"
      by (rule oks) (erule (1) einv0_ask [OF inv], assumption, erule sub(2))
    have ne: "LB j \<noteq> [] \<or> LB' j = []" "LA j \<noteq> [] \<or> LA' j = []" if "j < ?n" for j
      using sub [OF that] by auto
    then show "uncrossed ?n LB' LA'"
      using einv0_uncrossed [OF inv] unfolding uncrossed_def by blast
    show "idx_ok e' (live ?n LB' LA')"
      unfolding lv by (rule idx_ok_remove [OF einv0_idx [OF inv] p rest(1,2)])
  qed (use core einv0_bounds [OF inv] counts in simp_all)
  show "book_of e' LB' LA' (x # fs) =
      B\<lparr>bids := drop_ref (r_ref r) (bids B), asks := drop_ref (r_ref r) (asks B),
        index := (index B)(r_key r := None), room := Suc (room B)\<rparr>"
    using index_remove [OF einv0_idx [OF inv] rs rest(1)]
      drop_ref_map [OF einv0_inj [OF inv] x _ rs, of "bid_ptrs ?n LB"]
      drop_ref_map [OF einv0_inj [OF inv] x _ rs, of "ask_ptrs ?n LA"]
    by (simp add: book_of_def B_def r_def n LB LA live_def rest)
qed

lemma one_sided:
  assumes inv: "einv0 S e LB LA fs" and i: "i < length (order_buffer e)"
  shows "LB i = [] \<or> LA i = []"
proof -
  have "\<not> (LB i \<noteq> [] \<and> LA i \<noteq> [])" using einv0_uncrossed [OF inv] i unfolding uncrossed_def by blast
  then show ?thesis by blast
qed

lemma level_facts:
  assumes inv: "einv0 S e LB LA fs" and i: "i < length (order_buffer e)" and x: "LB i @ LA i = as @ x # bs"
  shows "x \<notin> set (as @ bs)"
    "j < length (order_buffer e) \<Longrightarrow> j \<noteq> i \<Longrightarrow> x \<notin> set (LB j @ LA j)"
proof -
  show "x \<notin> set (as @ bs)" using core_distinct_levels [OF einv0_core [OF inv] i] x by auto
  show "x \<notin> set (LB j @ LA j)" if "j < length (order_buffer e)" "j \<noteq> i"
    by (rule core_disjoint [OF einv0_core [OF inv] i that(1)]) (use that(2) x in auto)
qed

lemma einv0_remove_ask:
  assumes inv: "einv0 S e LB LA fs" and i: "unat idx = i" "i < length (order_buffer e)"
    and x: "LA i = as @ x # bs"
  defines "B \<equiv> book_of e LB LA fs" and "r \<equiv> res e x"
  obtains A' buf' e' where
    "\<And>e0. allocator e0 = allocator e \<Longrightarrow> order_buffer e0 = order_buffer e \<Longrightarrow>
       do { e \<leftarrow> Engine_unlink e0 x idx; Engine_deallocate e x } = Some (e0\<lparr>allocator := A', order_buffer := buf'\<rparr>)"
    and "length buf' = length (order_buffer e)"
    and "e' = e\<lparr>allocator := A', order_buffer := buf',
           order_blocks_map := (order_blocks_map e)(r_key r := None), sell_orders := sell_orders e - 1\<rparr>"
    and "einv0 S e' LB (LA(i := as @ bs)) (x # fs)"
    and "book_of e' LB (LA(i := as @ bs)) (x # fs) =
      B\<lparr>bids := drop_ref (r_ref r) (bids B), asks := drop_ref (r_ref r) (asks B),
        index := (index B)(r_key r := None), room := Suc (room B)\<rparr>"
proof -
  let ?n = "length (order_buffer e)" and ?LA = "LA(i := as @ bs)"
  have LBi: "LB i = []" using one_sided [OF inv i(2)] x by auto
  note facts = level_facts [OF inv i(2), of as x bs] and dist = einv0_distinct [OF inv]
  have xs: "x \<in> set (ask_ptrs ?n LA)" unfolding set_ask_ptrs by (rule UN_I [of i]) (use i(2) x in auto)
  then have xb: "x \<notin> set (bid_ptrs ?n LB)" using dist(3) by auto
  have Ls: "(\<lambda>j. LB j @ LA j)(i := as @ bs) = (\<lambda>j. LB j @ ?LA j)" using LBi by auto
  obtain A' buf' where run: "do { e \<leftarrow> Engine_unlink e x idx; Engine_deallocate e x } =
       Some (e\<lparr>allocator := A', order_buffer := buf'\<rparr>)"
    and len: "length buf' = ?n"
    and core': "core S (e\<lparr>allocator := A', order_buffer := buf'\<rparr>) ((\<lambda>j. LB j @ LA j)(i := as @ bs)) (x # fs)"
    and p: "\<And>a. a \<noteq> x \<Longrightarrow> pay (e\<lparr>allocator := A', order_buffer := buf'\<rparr>) a = pay e a"
    by (rule core_remove [OF einv0_core [OF inv] i, of as x bs]) (use LBi x in \<open>auto intro: that\<close>)
  let ?e = "e\<lparr>allocator := A', order_buffer := buf',
     order_blocks_map := (order_blocks_map e)(r_key r := None), sell_orders := sell_orders e - 1\<rparr>"
  have asks': "ask_ptrs ?n ?LA = filter (\<lambda>a. a \<noteq> x) (ask_ptrs ?n LA)"
    by (rule ask_ptrs_remove [of i ?n LA as x bs]) (use i(2) x dist(2) in auto)
  have sub: "set (LB j) \<subseteq> set (LB j) - {x}" "set (?LA j) \<subseteq> set (LA j) - {x}" if "j < ?n" for j
    using facts that x LBi xb by (auto simp: set_bid_ptrs)
  have "x \<in> live ?n LB LA" using xs by (simp add: live_def)
  moreover have "core S ?e (\<lambda>j. LB j @ ?LA j) (x # fs)" using core' unfolding Ls by simp
  moreover have "length (order_buffer ?e) = ?n" by (simp add: len)
  moreover have "pay ?e a = pay e a" if "a \<noteq> x" for a using p [OF that] by simp
  moreover have "bid_ptrs ?n LB = filter (\<lambda>a. a \<noteq> x) (bid_ptrs ?n LB)" using xb by (simp add: filter_neq)
  moreover have "buy_orders ?e = of_nat (length (bid_ptrs ?n LB))"
    "sell_orders ?e = of_nat (length (ask_ptrs ?n ?LA))"
    using of_nat_length_remove [OF dist(2) xs] by (simp_all add: einv0_counts [OF inv] asks')
  ultimately have "einv0 S ?e LB ?LA (x # fs) \<and> book_of ?e LB ?LA (x # fs) =
      B\<lparr>bids := drop_ref (r_ref r) (bids B), asks := drop_ref (r_ref r) (asks B),
        index := (index B)(r_key r := None), room := Suc (room B)\<rparr>"
    unfolding B_def r_def by (intro conjI einv0_shrink [OF inv _ _ _ _ _ asks' sub]) (simp_all add: r_def del: fun_upd_apply)
  then show ?thesis using that [OF unlink_dealloc_frame [OF run] len refl] by blast
qed

lemma einv0_remove_bid:
  assumes inv: "einv0 S e LB LA fs" and i: "unat idx = i" "i < length (order_buffer e)"
    and x: "LB i = as @ x # bs"
  defines "B \<equiv> book_of e LB LA fs" and "r \<equiv> res e x"
  obtains A' buf' e' where
    "\<And>e0. allocator e0 = allocator e \<Longrightarrow> order_buffer e0 = order_buffer e \<Longrightarrow>
       do { e \<leftarrow> Engine_unlink e0 x idx; Engine_deallocate e x } = Some (e0\<lparr>allocator := A', order_buffer := buf'\<rparr>)"
    and "length buf' = length (order_buffer e)"
    and "e' = e\<lparr>allocator := A', order_buffer := buf',
           order_blocks_map := (order_blocks_map e)(r_key r := None), buy_orders := buy_orders e - 1\<rparr>"
    and "einv0 S e' (LB(i := as @ bs)) LA (x # fs)"
    and "book_of e' (LB(i := as @ bs)) LA (x # fs) =
      B\<lparr>bids := drop_ref (r_ref r) (bids B), asks := drop_ref (r_ref r) (asks B),
        index := (index B)(r_key r := None), room := Suc (room B)\<rparr>"
proof -
  let ?n = "length (order_buffer e)" and ?LB = "LB(i := as @ bs)"
  have LAi: "LA i = []" using one_sided [OF inv i(2)] x by auto
  note facts = level_facts [OF inv i(2), of as x bs] and dist = einv0_distinct [OF inv]
  have xs: "x \<in> set (bid_ptrs ?n LB)" unfolding set_bid_ptrs by (rule UN_I [of i]) (use i(2) x in auto)
  then have xb: "x \<notin> set (ask_ptrs ?n LA)" using dist(3) by auto
  have Ls: "(\<lambda>j. LB j @ LA j)(i := as @ bs) = (\<lambda>j. ?LB j @ LA j)" using LAi by auto
  obtain A' buf' where run: "do { e \<leftarrow> Engine_unlink e x idx; Engine_deallocate e x } =
       Some (e\<lparr>allocator := A', order_buffer := buf'\<rparr>)"
    and len: "length buf' = ?n"
    and core': "core S (e\<lparr>allocator := A', order_buffer := buf'\<rparr>) ((\<lambda>j. LB j @ LA j)(i := as @ bs)) (x # fs)"
    and p: "\<And>a. a \<noteq> x \<Longrightarrow> pay (e\<lparr>allocator := A', order_buffer := buf'\<rparr>) a = pay e a"
    by (rule core_remove [OF einv0_core [OF inv] i, of as x bs]) (use LAi x in \<open>auto intro: that\<close>)
  let ?e = "e\<lparr>allocator := A', order_buffer := buf',
     order_blocks_map := (order_blocks_map e)(r_key r := None), buy_orders := buy_orders e - 1\<rparr>"
  have bids': "bid_ptrs ?n ?LB = filter (\<lambda>a. a \<noteq> x) (bid_ptrs ?n LB)"
    by (rule bid_ptrs_remove [of i ?n LB as x bs]) (use i(2) x dist(1) in auto)
  have sub: "set (?LB j) \<subseteq> set (LB j) - {x}" "set (LA j) \<subseteq> set (LA j) - {x}" if "j < ?n" for j
    using facts that x LAi xb by (auto simp: set_ask_ptrs)
  have "x \<in> live ?n LB LA" using xs by (simp add: live_def)
  moreover have "core S ?e (\<lambda>j. ?LB j @ LA j) (x # fs)" using core' unfolding Ls by simp
  moreover have "length (order_buffer ?e) = ?n" by (simp add: len)
  moreover have "pay ?e a = pay e a" if "a \<noteq> x" for a using p [OF that] by simp
  moreover have "ask_ptrs ?n LA = filter (\<lambda>a. a \<noteq> x) (ask_ptrs ?n LA)" using xb by (simp add: filter_neq)
  moreover have "buy_orders ?e = of_nat (length (bid_ptrs ?n ?LB))"
    "sell_orders ?e = of_nat (length (ask_ptrs ?n LA))"
    using of_nat_length_remove [OF dist(1) xs] by (simp_all add: einv0_counts [OF inv] bids')
  ultimately have "einv0 S ?e ?LB LA (x # fs) \<and> book_of ?e ?LB LA (x # fs) =
      B\<lparr>bids := drop_ref (r_ref r) (bids B), asks := drop_ref (r_ref r) (asks B),
        index := (index B)(r_key r := None), room := Suc (room B)\<rparr>"
    unfolding B_def r_def by (intro conjI einv0_shrink [OF inv _ _ _ _ bids' _ sub]) (simp_all add: r_def del: fun_upd_apply)
  then show ?thesis using that [OF unlink_dealloc_frame [OF run] len refl] by blast
qed


subsection \<open>Changing the quantity of an order\<close>

lemma set_qty_map:
  assumes inj: "inj_on (\<lambda>a. r_ref (res e a)) Lv" and "x \<in> Lv" "set xs \<subseteq> Lv"
    and r: "\<And>a. res e' a = (if a = x then (res e x)\<lparr>r_qty := q\<rparr> else res e a)"
  shows "set_qty (r_ref (res e x)) q (map (res e) xs) = map (res e') xs"
  using assms(2,3)
proof (induction xs)
  case (Cons a xs)
  then have "r_ref (res e a) = r_ref (res e x) \<longleftrightarrow> a = x" using inj_onD [OF inj, of a x] by auto
  with Cons show ?case by (auto simp: set_qty_def r)
qed (simp add: set_qty_def)

lemma set_block_iff:
  "set_block e x b = Some (e\<lparr>allocator := A\<rparr>) \<longleftrightarrow> save_obj (allocator e) x b = Some A"
proof -
  have "e\<lparr>allocator := A1\<rparr> = e\<lparr>allocator := A\<rparr> \<longleftrightarrow> A1 = A" for A1
    using arg_cong [where f = allocator] by fastforce
  then show ?thesis by (simp add: set_block_def bind_Some_iff)
qed

lemma einv_requote:
  assumes inv: "einv S e LB LA fs" and x: "x \<in> live (length (order_buffer e)) LB LA"
    and b: "block_at e x = Some b" and q: "0 < q"
  defines "B \<equiv> book_of e LB LA fs" and "r \<equiv> res e x"
  obtains A' where
    "\<And>e0. allocator e0 = allocator e \<Longrightarrow> set_block e0 x (b\<lparr>curr_qty := q\<rparr>) = Some (e0\<lparr>allocator := A'\<rparr>)"
    and "einv S (e\<lparr>allocator := A'\<rparr>) LB LA fs"
    and "book_of (e\<lparr>allocator := A'\<rparr>) LB LA fs =
      B\<lparr>bids := set_qty (r_ref r) q (bids B), asks := set_qty (r_ref r) q (asks B)\<rparr>"
proof -
  let ?n = "length (order_buffer e)"
  have inv0: "einv0 S e LB LA fs" using inv by (simp add: einv_def)
  obtain A' where A': "set_block e x (b\<lparr>curr_qty := q\<rparr>) = Some (e\<lparr>allocator := A'\<rparr>)"
    and core': "core S (e\<lparr>allocator := A'\<rparr>) (\<lambda>i. LB i @ LA i) fs"
    and at: "block_at (e\<lparr>allocator := A'\<rparr>) = (block_at e)(x \<mapsto> b\<lparr>curr_qty := q\<rparr>)"
    by (rule core_set_block [OF einv0_core [OF inv0] b, of "b\<lparr>curr_qty := q\<rparr>"]) (auto intro: that)
  let ?e = "e\<lparr>allocator := A'\<rparr>"
  have res': "res ?e a = (if a = x then (res e x)\<lparr>r_qty := q\<rparr> else res e a)" for a
    using b by (simp add: res_def pay_def at payload_of_def)
  have ref: "r_ref (res ?e a) = r_ref (res e a)" for a by (simp add: res')
  have ok: "ok_block ?e i sd a" if "ok_block e i sd a" for i sd a
    using that q b by (cases "a = x") (auto simp: ok_block_def pay_def at payload_of_def)
  have "idx_ok ?e (live ?n LB LA)"
    by (rule idx_ok_requote [OF einv0_idx [OF inv0]]) (simp_all add: res')
  then have "einv0 S ?e LB LA fs"
    using core' einv0_bounds [OF inv0] einv0_counts [OF inv0] einv0_uncrossed [OF inv0]
      einv0_bid [OF inv0] einv0_ask [OF inv0] by (auto simp: einv0_def Let_def intro: ok)
  then have "einv S ?e LB LA fs" using inv by (simp add: einv_def)
  moreover have "book_of ?e LB LA fs =
      B\<lparr>bids := set_qty (r_ref r) q (bids B), asks := set_qty (r_ref r) q (asks B)\<rparr>"
    using set_qty_map [OF einv0_inj [OF inv0] x _ res'] ref
    by (simp add: book_of_def B_def r_def live_def)
  moreover have "set_block e0 x (b\<lparr>curr_qty := q\<rparr>) = Some (e0\<lparr>allocator := A'\<rparr>)" if "allocator e0 = allocator e" for e0
    using A' that by (simp add: set_block_iff)
  ultimately show ?thesis using that by blast
qed

subsection \<open>Adding an order\<close>

lemma level_frame [simp]: "level (e\<lparr>allocator := A\<rparr>) idx = level e idx"
  by (simp add: level_def)

lemma set_append_frame:
  assumes "do { e \<leftarrow> set_block (e\<lparr>allocator := A\<rparr>) x b; append_list e x idx } = Some (e\<lparr>allocator := A', order_buffer := buf\<rparr>)"
    and "allocator e0 = A" "order_buffer e0 = order_buffer e"
  shows "do { e \<leftarrow> set_block e0 x b; append_list e x idx } = Some (e0\<lparr>allocator := A', order_buffer := buf\<rparr>)"
proof -
  from assms(1) obtain A1 l A2 l1 where s: "save_obj A x b = Some A1" "level e idx = Some l"
    "append_node block_ops A1 l x = Some (A2, l1)"
    and eq: "e\<lparr>allocator := A2, order_buffer := (order_buffer e)[unat idx := l1]\<rparr> = e\<lparr>allocator := A', order_buffer := buf\<rparr>"
    by (auto simp: set_block_def append_list_def bind_Some_iff)
  have "A2 = A'" using arg_cong [OF eq, of allocator] by simp
  moreover have "buf = (order_buffer e)[unat idx := l1]" using arg_cong [OF eq, of order_buffer] by simp
  moreover have "level e0 idx = Some l" using s(2) assms(3) by (simp add: level_def split: if_splits)
  ultimately show ?thesis using s assms(2,3) by (simp add: set_block_def append_list_def)
qed

lemma insert_sorted_split:
  assumes "\<And>x. x \<in> set xs \<Longrightarrow> before (r_price x)" "\<And>y. y \<in> set ys \<Longrightarrow> \<not> before (r_price y)"
  shows "insert_sorted before r (xs @ ys) = xs @ r # ys"
  using assms by (cases ys) (simp_all add: insert_sorted_def)

text \<open>A larger book: \<open>x\<close> has joined its level, the index and the counts.\<close>

lemma einv0_grow:
  assumes inv: "einv0 S e LB LA fs" and x: "x \<notin> live (length (order_buffer e)) LB LA"
    and core: "core S e' (\<lambda>j. LB' j @ LA' j) (tl fs)" and n: "length (order_buffer e') = length (order_buffer e)"
    and p: "\<And>a. a \<noteq> x \<Longrightarrow> pay e' a = pay e a"
    and lv: "live (length (order_buffer e)) LB' LA' = insert x (live (length (order_buffer e)) LB LA)"
    and bid: "\<And>j a. j < length (order_buffer e) \<Longrightarrow> a \<in> set (LB' j) \<Longrightarrow> a = x \<and> ok_block e' j SideEnum_B a \<or> a \<in> set (LB j)"
    and ask: "\<And>j a. j < length (order_buffer e) \<Longrightarrow> a \<in> set (LA' j) \<Longrightarrow> a = x \<and> ok_block e' j SideEnum_S a \<or> a \<in> set (LA j)"
    and unc: "uncrossed (length (order_buffer e)) LB' LA'"
    and counts: "buy_orders e' = of_nat (length (bid_ptrs (length (order_buffer e)) LB'))"
      "sell_orders e' = of_nat (length (ask_ptrs (length (order_buffer e)) LA'))"
    and rest: "order_blocks_map e' = (order_blocks_map e)(r_key (res e' x) \<mapsto> x)" "counter e' = counter e"
      "r_ref (res e' x) = counter e"
    and fresh: "\<And>a. a \<in> live (length (order_buffer e)) LB LA \<Longrightarrow> r_ref (res e a) \<noteq> counter e"
  shows "einv0 S e' LB' LA' (tl fs)"
    and "index (book_of e' LB' LA' (tl fs)) = (index (book_of e LB LA fs))(r_key (res e' x) \<mapsto> counter e)"
proof -
  let ?n = "length (order_buffer e)"
  have same: "a \<noteq> x" if "a \<in> live ?n LB LA" for a using x that by auto
  have keep: "ok_block e' j sd a" if "ok_block e j sd a" "a \<in> live ?n LB LA" for j sd a
    using that ok_block_cong [OF p [OF same]] by simp
  show "einv0 S e' LB' LA' (tl fs)"
    unfolding einv0_def Let_def n
  proof (intro conjI)
    show "\<forall>j<?n. \<forall>a\<in>set (LB' j). ok_block e' j SideEnum_B a"
    proof (intro allI impI ballI)
      fix j a assume j: "j < ?n" and "a \<in> set (LB' j)"
      with bid have "a = x \<and> ok_block e' j SideEnum_B a \<or> a \<in> set (LB j)" by blast
      then show "ok_block e' j SideEnum_B a"
        using keep [OF einv0_bid [OF inv j]] j by (auto simp: live_def set_bid_ptrs)
    qed
    show "\<forall>j<?n. \<forall>a\<in>set (LA' j). ok_block e' j SideEnum_S a"
    proof (intro allI impI ballI)
      fix j a assume j: "j < ?n" and "a \<in> set (LA' j)"
      with ask have "a = x \<and> ok_block e' j SideEnum_S a \<or> a \<in> set (LA j)" by blast
      then show "ok_block e' j SideEnum_S a"
        using keep [OF einv0_ask [OF inv j]] j by (auto simp: live_def set_ask_ptrs)
    qed
    show "idx_ok e' (live ?n LB' LA')"
      unfolding lv by (rule idx_ok_add [OF einv0_idx [OF inv] p x rest(1) refl rest(2,3) fresh])
  qed (use core einv0_bounds [OF inv] counts unc in simp_all)
  have "map_option (\<lambda>a. r_ref (res e' a)) (order_blocks_map e k) = map_option (\<lambda>a. r_ref (res e a)) (order_blocks_map e k)" for k
    using same einv0_index(1) [OF inv, of k] res_cong [OF p] by (cases "order_blocks_map e k") auto
  then show "index (book_of e' LB' LA' (tl fs)) = (index (book_of e LB LA fs))(r_key (res e' x) \<mapsto> counter e)"
    by (auto simp: book_of_def rest fun_eq_iff)
qed


lemma of_nat_le_iff_unat:
  fixes idx :: u64
  assumes "j < 2 ^ 64"
  shows "idx \<le> of_nat j \<longleftrightarrow> unat idx \<le> j" "of_nat j \<le> idx \<longleftrightarrow> j \<le> unat idx"
  using assms by (simp_all add: word_le_nat_alt unat_of_nat_small)

lemma map_bid_insert:
  fixes idx :: u64
  assumes price: "\<And>j a. j < n \<Longrightarrow> a \<in> set (L j) \<Longrightarrow> r_price (f a) = of_nat j" and n: "n < 2 ^ 64"
    and i: "unat idx = i" "i < n" and f': "f' x = r" "\<And>a. a \<in> set (bid_ptrs n L) \<Longrightarrow> f' a = f a"
  shows "map f' (bid_ptrs n (L(i := L i @ [x]))) = insert_sorted (\<lambda>p. idx \<le> p) r (map f (bid_ptrs n L))"
proof -
  define U where "U = concat (map L (rev [Suc i..<n])) @ L i"
  define D where "D = concat (map L (rev [0..<i]))"
  have split: "bid_ptrs n L = U @ D" "bid_ptrs n (L(i := L i @ [x])) = U @ x # D"
    using i(2) by (simp_all add: bid_ptrs_split bid_ptrs_upd U_def D_def)
  have le: "idx \<le> r_price (f a) \<longleftrightarrow> i \<le> j" if "j < n" "a \<in> set (L j)" for j a
    using of_nat_le_iff_unat(1) [of j idx] price [OF that] that n i(1) by simp
  have U: "\<exists>j<n. i \<le> j \<and> a \<in> set (L j)" if "a \<in> set U" for a using that i(2) unfolding U_def D_def
    by (auto; meson less_trans less_imp_le)
  have D: "\<exists>j<n. j < i \<and> a \<in> set (L j)" if "a \<in> set D" for a using that i(2) unfolding U_def D_def
    by (auto; meson less_trans less_imp_le)
  have "insert_sorted (\<lambda>p. idx \<le> p) r (map f U @ map f D) = map f U @ r # map f D"
    by (rule insert_sorted_split) (auto dest!: U D simp: le)
  moreover have "map f' U = map f U" "map f' D = map f D"
    using f'(2) unfolding split(1) by auto
  ultimately show ?thesis using f'(1) i(2) by (simp add: split)
qed

lemma map_ask_insert:
  fixes idx :: u64
  assumes price: "\<And>j a. j < n \<Longrightarrow> a \<in> set (L j) \<Longrightarrow> r_price (f a) = of_nat j" and n: "n < 2 ^ 64"
    and i: "unat idx = i" "i < n" and f': "f' x = r" "\<And>a. a \<in> set (ask_ptrs n L) \<Longrightarrow> f' a = f a"
  shows "map f' (ask_ptrs n (L(i := L i @ [x]))) = insert_sorted (\<lambda>p. p \<le> idx) r (map f (ask_ptrs n L))"
proof -
  define U where "U = concat (map L [0..<i]) @ L i"
  define D where "D = concat (map L [Suc i..<n])"
  have split: "ask_ptrs n L = U @ D" "ask_ptrs n (L(i := L i @ [x])) = U @ x # D"
    using i(2) by (simp_all add: ask_ptrs_split ask_ptrs_upd U_def D_def)
  have le: "r_price (f a) \<le> idx \<longleftrightarrow> j \<le> i" if "j < n" "a \<in> set (L j)" for j a
    using of_nat_le_iff_unat(2) [of j idx] price [OF that] that n i(1) by simp
  have U: "\<exists>j<n. j \<le> i \<and> a \<in> set (L j)" if "a \<in> set U" for a using that i(2) unfolding U_def D_def
    by (auto; meson less_trans less_imp_le)
  have D: "\<exists>j<n. i < j \<and> a \<in> set (L j)" if "a \<in> set D" for a using that i(2) unfolding U_def D_def
    by (auto; meson less_trans less_imp_le)
  have "insert_sorted (\<lambda>p. p \<le> idx) r (map f U @ map f D) = map f U @ r # map f D"
    by (rule insert_sorted_split) (auto dest!: U D simp: le)
  moreover have "map f' U = map f U" "map f' D = map f D"
    using f'(2) unfolding split(1) by auto
  ultimately show ?thesis using f'(1) i(2) by (simp add: split)
qed

lemma einv_add_bid:
  assumes inv: "einv S e LB LA fs" and al: "allocate (allocator e) = Some (A, Some x)"
    and i: "unat idx = i" "i < length (order_buffer e)"
    and b: "EnterRequestView_Price (raw b) = idx" "EnterRequestView_Side (raw b) = SideEnum_B" "0 < curr_qty b"
      "blk_id b = counter e"
    and fresh: "\<And>a. a \<in> live (length (order_buffer e)) LB LA \<Longrightarrow> r_ref (res e a) \<noteq> counter e"
    and above: "\<And>j. j \<le> i \<Longrightarrow> LA j = []"
  defines "B \<equiv> book_of e LB LA fs"
    and "r \<equiv> \<lparr>r_key = blk_key b, r_ref = counter e, r_price = idx, r_qty = curr_qty b\<rparr>"
  obtains A' buf' e' LB' where
    "\<And>e0. allocator e0 = A \<Longrightarrow> order_buffer e0 = order_buffer e \<Longrightarrow>
       do { e \<leftarrow> set_block e0 x b; append_list e x idx } = Some (e0\<lparr>allocator := A', order_buffer := buf'\<rparr>)"
    and "length buf' = length (order_buffer e)"
    and "e' = e\<lparr>allocator := A', order_buffer := buf', order_blocks_map := (order_blocks_map e)(blk_key b \<mapsto> x),
           buy_orders := buy_orders e + 1, best_buy_idx := (if best_buy_idx e < idx then idx else best_buy_idx e)\<rparr>"
    and "einv S e' LB' LA (tl fs)"
    and "book_of e' LB' LA (tl fs) =
      B\<lparr>bids := insert_sorted (\<lambda>p. idx \<le> p) r (bids B), index := (index B)(blk_key b \<mapsto> counter e), room := room B - 1\<rparr>"
proof -
  let ?n = "length (order_buffer e)" and ?LB = "LB(i := LB i @ [x])"
  have inv0: "einv0 S e LB LA fs" using inv by (simp add: einv_def)
  have Ls: "(\<lambda>j. LB j @ LA j)(i := (LB i @ LA i) @ [x]) = (\<lambda>j. ?LB j @ LA j)" using above by auto
  obtain A' buf' where run: "do { e \<leftarrow> set_block (e\<lparr>allocator := A\<rparr>) x b; append_list e x idx } =
       Some (e\<lparr>allocator := A', order_buffer := buf'\<rparr>)" and len: "length buf' = ?n"
    and core': "core S (e\<lparr>allocator := A', order_buffer := buf'\<rparr>) ((\<lambda>j. LB j @ LA j)(i := (LB i @ LA i) @ [x])) (tl fs)"
    and fs: "fs \<noteq> []" and new: "\<forall>j < ?n. x \<notin> set (LB j @ LA j)"
    and px: "pay (e\<lparr>allocator := A', order_buffer := buf'\<rparr>) x = Some (payload_of b)"
    and p: "\<And>a. a \<noteq> x \<Longrightarrow> pay (e\<lparr>allocator := A', order_buffer := buf'\<rparr>) a = pay e a"
    by (rule core_append [OF einv0_core [OF inv0] al i, of b]) (rule that)
  let ?e = "e\<lparr>allocator := A', order_buffer := buf', order_blocks_map := (order_blocks_map e)(blk_key b \<mapsto> x),
           buy_orders := buy_orders e + 1, best_buy_idx := (if best_buy_idx e < idx then idx else best_buy_idx e)\<rparr>"
  have rx: "res ?e x = r" using px by (simp add: res_def payload_of_def r_def b)
  have p': "pay ?e a = pay e a" if "a \<noteq> x" for a using p [OF that] by simp
  have xl: "x \<notin> live ?n LB LA" using new by (auto simp: live_def set_bid_ptrs set_ask_ptrs)
  have okx: "ok_block ?e i SideEnum_B x" using px i by (auto simp: ok_block_def payload_of_def b)
  have lv: "live ?n ?LB LA = insert x (live ?n LB LA)"
    using i(2) by (auto simp: live_def bid_ptrs_upd bid_ptrs_split [of i])
  have unc: "uncrossed ?n ?LB LA"
    using einv0_uncrossed [OF inv0] above unfolding uncrossed_def by (metis fun_upd_apply leI)
  have cnt: "length (bid_ptrs ?n ?LB) = Suc (length (bid_ptrs ?n LB))"
    using i(2) by (simp add: bid_ptrs_upd bid_ptrs_split [of i])
  note grow = einv0_grow [OF inv0 xl, of ?e ?LB LA]
  have "core S ?e (\<lambda>j. ?LB j @ LA j) (tl fs)" using core' unfolding Ls by simp
  moreover have "buy_orders ?e = of_nat (length (bid_ptrs ?n ?LB))" "sell_orders ?e = of_nat (length (ask_ptrs ?n LA))"
    using cnt by (simp_all add: einv0_counts [OF inv0])
  moreover have "a = x \<and> ok_block ?e j SideEnum_B a \<or> a \<in> set (LB j)" if "j < ?n" "a \<in> set (?LB j)" for j a
    using that okx by (auto split: if_splits)
  ultimately have g: "einv0 S ?e ?LB LA (tl fs)"
    "index (book_of ?e ?LB LA (tl fs)) = (index (book_of e LB LA fs))(r_key (res ?e x) \<mapsto> counter e)"
    by - (rule grow; use p' lv unc fresh rx in \<open>simp add: len r_def\<close>)+
  have "best_bid_ok ?n ?LB (unat (best_buy_idx ?e))"
    using inv i by (auto simp: einv_def best_bid_ok_def word_less_nat_alt)
  then have "einv S ?e ?LB LA (tl fs)" using g(1) inv by (simp add: einv_def len)
  moreover have same: "res ?e a = res e a" if "a \<in> live ?n LB LA" for a
    by (rule res_cong, rule p') (use that xl in auto)
  moreover have "map (res ?e) (bid_ptrs ?n ?LB) = insert_sorted (\<lambda>p. idx \<le> p) r (map (res e) (bid_ptrs ?n LB))"
    by (rule map_bid_insert)
      (use res_price(1) [OF einv0_bid [OF inv0]] einv0_bounds(2) [OF inv0] i rx in \<open>simp_all add: same live_def\<close>)
  moreover have "map (res ?e) (ask_ptrs ?n LA) = map (res e) (ask_ptrs ?n LA)"
    by (rule map_cong) (simp_all add: same live_def)
  moreover have "index (book_of ?e ?LB LA (tl fs)) = (index B)(blk_key b \<mapsto> counter e)"
    using g(2) rx by (simp add: B_def r_def)
  ultimately show ?thesis
    by - (rule that [OF set_append_frame [OF run] len refl], assumption+,
        use fs in \<open>simp add: book_of_def B_def len\<close>)
qed

lemma einv_add_ask:
  assumes inv: "einv S e LB LA fs" and al: "allocate (allocator e) = Some (A, Some x)"
    and i: "unat idx = i" "i < length (order_buffer e)"
    and b: "EnterRequestView_Price (raw b) = idx" "EnterRequestView_Side (raw b) = SideEnum_S" "0 < curr_qty b"
      "blk_id b = counter e"
    and fresh: "\<And>a. a \<in> live (length (order_buffer e)) LB LA \<Longrightarrow> r_ref (res e a) \<noteq> counter e"
    and below: "\<And>j. i \<le> j \<Longrightarrow> j < length (order_buffer e) \<Longrightarrow> LB j = []"
  defines "B \<equiv> book_of e LB LA fs"
    and "r \<equiv> \<lparr>r_key = blk_key b, r_ref = counter e, r_price = idx, r_qty = curr_qty b\<rparr>"
  obtains A' buf' e' LA' where
    "\<And>e0. allocator e0 = A \<Longrightarrow> order_buffer e0 = order_buffer e \<Longrightarrow>
       do { e \<leftarrow> set_block e0 x b; append_list e x idx } = Some (e0\<lparr>allocator := A', order_buffer := buf'\<rparr>)"
    and "length buf' = length (order_buffer e)"
    and "e' = e\<lparr>allocator := A', order_buffer := buf', order_blocks_map := (order_blocks_map e)(blk_key b \<mapsto> x),
           sell_orders := sell_orders e + 1, best_sell_idx := (if idx < best_sell_idx e then idx else best_sell_idx e)\<rparr>"
    and "einv S e' LB LA' (tl fs)"
    and "book_of e' LB LA' (tl fs) =
      B\<lparr>asks := insert_sorted (\<lambda>p. p \<le> idx) r (asks B), index := (index B)(blk_key b \<mapsto> counter e), room := room B - 1\<rparr>"
proof -
  let ?n = "length (order_buffer e)" and ?LA = "LA(i := LA i @ [x])"
  have inv0: "einv0 S e LB LA fs" using inv by (simp add: einv_def)
  have Ls: "(\<lambda>j. LB j @ LA j)(i := (LB i @ LA i) @ [x]) = (\<lambda>j. LB j @ ?LA j)" using below i by auto
  obtain A' buf' where run: "do { e \<leftarrow> set_block (e\<lparr>allocator := A\<rparr>) x b; append_list e x idx } =
       Some (e\<lparr>allocator := A', order_buffer := buf'\<rparr>)" and len: "length buf' = ?n"
    and core': "core S (e\<lparr>allocator := A', order_buffer := buf'\<rparr>) ((\<lambda>j. LB j @ LA j)(i := (LB i @ LA i) @ [x])) (tl fs)"
    and fs: "fs \<noteq> []" and new: "\<forall>j < ?n. x \<notin> set (LB j @ LA j)"
    and px: "pay (e\<lparr>allocator := A', order_buffer := buf'\<rparr>) x = Some (payload_of b)"
    and p: "\<And>a. a \<noteq> x \<Longrightarrow> pay (e\<lparr>allocator := A', order_buffer := buf'\<rparr>) a = pay e a"
    by (rule core_append [OF einv0_core [OF inv0] al i, of b]) (rule that)
  let ?e = "e\<lparr>allocator := A', order_buffer := buf', order_blocks_map := (order_blocks_map e)(blk_key b \<mapsto> x),
           sell_orders := sell_orders e + 1, best_sell_idx := (if idx < best_sell_idx e then idx else best_sell_idx e)\<rparr>"
  have rx: "res ?e x = r" using px by (simp add: res_def payload_of_def r_def b)
  have p': "pay ?e a = pay e a" if "a \<noteq> x" for a using p [OF that] by simp
  have xl: "x \<notin> live ?n LB LA" using new by (auto simp: live_def set_bid_ptrs set_ask_ptrs)
  have okx: "ok_block ?e i SideEnum_S x" using px i by (auto simp: ok_block_def payload_of_def b)
  have lv: "live ?n LB ?LA = insert x (live ?n LB LA)"
    using i(2) by (auto simp: live_def ask_ptrs_upd ask_ptrs_split [of i])
  have unc: "uncrossed ?n LB ?LA"
    using einv0_uncrossed [OF inv0] below unfolding uncrossed_def by (metis fun_upd_apply leI)
  have cnt: "length (ask_ptrs ?n ?LA) = Suc (length (ask_ptrs ?n LA))"
    using i(2) by (simp add: ask_ptrs_upd ask_ptrs_split [of i])
  note grow = einv0_grow [OF inv0 xl, of ?e LB ?LA]
  have "core S ?e (\<lambda>j. LB j @ ?LA j) (tl fs)" using core' unfolding Ls by simp
  moreover have "buy_orders ?e = of_nat (length (bid_ptrs ?n LB))" "sell_orders ?e = of_nat (length (ask_ptrs ?n ?LA))"
    using cnt by (simp_all add: einv0_counts [OF inv0])
  moreover have "a = x \<and> ok_block ?e j SideEnum_S a \<or> a \<in> set (LA j)" if "j < ?n" "a \<in> set (?LA j)" for j a
    using that okx by (auto split: if_splits)
  ultimately have g: "einv0 S ?e LB ?LA (tl fs)"
    "index (book_of ?e LB ?LA (tl fs)) = (index (book_of e LB LA fs))(r_key (res ?e x) \<mapsto> counter e)"
    by - (rule grow; use p' lv unc fresh rx in \<open>simp add: len r_def\<close>)+
  have "best_ask_ok ?n ?LA (unat (best_sell_idx ?e))"
    using inv i by (auto simp: einv_def best_ask_ok_def word_less_nat_alt)
  then have "einv S ?e LB ?LA (tl fs)" using g(1) inv by (simp add: einv_def len)
  moreover have same: "res ?e a = res e a" if "a \<in> live ?n LB LA" for a
    by (rule res_cong, rule p') (use that xl in auto)
  moreover have "map (res ?e) (ask_ptrs ?n ?LA) = insert_sorted (\<lambda>p. p \<le> idx) r (map (res e) (ask_ptrs ?n LA))"
    by (rule map_ask_insert)
      (use res_price(1) [OF einv0_ask [OF inv0]] einv0_bounds(2) [OF inv0] i rx in \<open>simp_all add: same live_def\<close>)
  moreover have "map (res ?e) (bid_ptrs ?n LB) = map (res e) (bid_ptrs ?n LB)"
    by (rule map_cong) (simp_all add: same live_def)
  moreover have "index (book_of ?e LB ?LA (tl fs)) = (index B)(blk_key b \<mapsto> counter e)"
    using g(2) rx by (simp add: B_def r_def)
  ultimately show ?thesis
    by - (rule that [OF set_append_frame [OF run] len refl], assumption+,
        use fs in \<open>simp add: book_of_def B_def len\<close>)
qed

end
