(* ===== verification/Matching_Props.thy ===== *)
theory Matching_Props
  imports Matching_Spec
begin

text \<open>
  What the abstract matching rule guarantees: a sweep consumes the front of the queue in priority
  order, only at acceptable prices, and conserves quantity; and every request keeps the book in
  price-time order, uncrossed, within its capacity and with positive quantities (\<open>book_inv\<close>).
\<close>

section \<open>One sweep\<close>

definition filled :: "(Resting \<times> u32) list \<Rightarrow> nat" where
  "filled fs = (\<Sum>(r, f)\<leftarrow>fs. unat f)"

lemma filled_simps [simp]: "filled [] = 0" "filled ((r, f) # fs) = unat f + filled fs"
  by (simp_all add: filled_def)

definition open_qty :: "Resting list \<Rightarrow> nat" where
  "open_qty rs = (\<Sum>r\<leftarrow>rs. unat (r_qty r))"

lemma open_qty_simps [simp]:
  "open_qty [] = 0" "open_qty (r # rs) = unat (r_qty r) + open_qty rs" "open_qty (rs @ rs') = open_qty rs + open_qty rs'"
  by (simp_all add: open_qty_def)

lemma sweep_conserves:
  assumes "sweep ok q rs = (fs, q', rs')"
  shows "unat q = filled fs + unat q'" "open_qty rs = filled fs + open_qty rs'"
proof -
  have "unat q = filled fs + unat q' \<and> open_qty rs = filled fs + open_qty rs'"
    using assms
  proof (induction ok q rs arbitrary: fs rule: sweep.induct)
    case (2 ok q r rs)
    consider (stop) "q = 0 \<or> \<not> ok (r_price r)" | (part) "q \<noteq> 0" "ok (r_price r)" "q < r_qty r"
      | (whole) "q \<noteq> 0" "ok (r_price r)" "\<not> q < r_qty r" by blast
    then show ?case
    proof cases
      case part
      then have "unat (r_qty r - q) = unat (r_qty r) - unat q" "unat q < unat (r_qty r)"
        using unat_sub_le [of q "r_qty r"] by (auto simp: word_less_nat_alt word_le_nat_alt)
      then show ?thesis using part "2.prems" by auto
    next
      case whole
      then obtain fs1 where "sweep ok (q - r_qty r) rs = (fs1, q', rs')" "fs = (r, r_qty r) # fs1"
        using "2.prems" by (auto split: prod.splits)
      moreover have "unat (q - r_qty r) = unat q - unat (r_qty r)" "unat (r_qty r) \<le> unat q"
        using whole by (simp_all add: unat_sub_le word_le_nat_alt not_less)
      ultimately show ?thesis using "2.IH" whole by auto
    qed (use "2.prems" in auto)
  qed simp
  then show "unat q = filled fs + unat q'" "open_qty rs = filled fs + open_qty rs'" by simp_all
qed

lemma sweep_priority:
  assumes "sweep ok q rs = (fs, q', rs')"
  shows "map fst fs = take (length fs) rs" "\<forall>(r, f)\<in>set fs. ok (r_price r) \<and> f \<le> r_qty r"
proof -
  have "map fst fs = take (length fs) rs \<and> (\<forall>(r, f)\<in>set fs. ok (r_price r) \<and> f \<le> r_qty r)"
    using assms
    by (induction ok q rs arbitrary: fs rule: sweep.induct) (auto split: if_splits prod.splits)
  then show "map fst fs = take (length fs) rs" "\<forall>(r, f)\<in>set fs. ok (r_price r) \<and> f \<le> r_qty r" by blast+
qed

text \<open>What is left of the queue: a suffix, whose first order may have been reduced.\<close>

definition same_order :: "Resting \<Rightarrow> Resting \<Rightarrow> bool" where
  "same_order r r' \<longleftrightarrow> r_key r' = r_key r \<and> r_ref r' = r_ref r \<and> r_price r' = r_price r"

lemma same_order_simps [simp]: "same_order r r" "same_order r (r\<lparr>r_qty := q\<rparr>)"
  by (simp_all add: same_order_def)

lemma sweep_suffix:
  assumes "sweep ok q rs = (fs, q', rs')" "\<forall>r\<in>set rs. 0 < r_qty r"
  shows "(\<exists>n. list_all2 same_order (drop n rs) rs') \<and> (\<forall>r\<in>set rs'. 0 < r_qty r)"
  using assms
proof (induction ok q rs arbitrary: fs rule: sweep.induct)
  case (1 ok q)
  then show ?case by simp
next
  case (2 ok q r rs)
  consider (stop) "q = 0 \<or> \<not> ok (r_price r)" | (part) "q \<noteq> 0" "ok (r_price r)" "q < r_qty r"
    | (whole) "q \<noteq> 0" "ok (r_price r)" "\<not> q < r_qty r" by blast
  then show ?case
  proof cases
    case stop
    then show ?thesis using "2.prems" by (auto intro!: exI [of _ 0] list_all2_refl)
  next
    case part
    then show ?thesis using "2.prems"
      by (auto intro!: exI [of _ 0] list_all2_refl simp: word_gt_0)
  next
    case whole
    then obtain fs1 where "sweep ok (q - r_qty r) rs = (fs1, q', rs')"
      using "2.prems" by (auto split: prod.splits)
    with "2.IH" whole "2.prems"(2) obtain n where "list_all2 same_order (drop n rs) rs'" "\<forall>r\<in>set rs'. 0 < r_qty r"
      by auto
    then show ?thesis by (auto intro!: exI [of _ "Suc n"])
  qed
qed


lemma sweep_stops:
  "sweep ok q rs = (fs, q', rs') \<Longrightarrow> q' \<noteq> 0 \<Longrightarrow> rs' = [] \<or> (\<exists>r rs''. rs' = r # rs'' \<and> \<not> ok (r_price r))"
  by (induction ok q rs arbitrary: fs rule: sweep.induct) (auto split: if_splits prod.splits)

lemma sweep_refs:
  "sweep ok q rs = (fs, q', rs') \<Longrightarrow> r_ref ` set rs' \<subseteq> r_ref ` set rs"
  by (induction ok q rs arbitrary: fs rule: sweep.induct) (auto split: if_splits prod.splits)

lemma settle_keeps [simp]:
  "bids (settle fs B) = bids B" "asks (settle fs B) = asks B" "last_ref (settle fs B) = last_ref B"
  by (induction fs B rule: settle.induct) simp_all

lemma book_update_order:
  "B\<lparr>asks := xs, index := i\<rparr> = B\<lparr>index := i, asks := xs\<rparr>"
  "B\<lparr>asks := xs, last_match := m\<rparr> = B\<lparr>last_match := m, asks := xs\<rparr>"
  "B\<lparr>asks := xs, room := k\<rparr> = B\<lparr>room := k, asks := xs\<rparr>"
  "B\<lparr>bids := xs, index := i\<rparr> = B\<lparr>index := i, bids := xs\<rparr>"
  "B\<lparr>bids := xs, last_match := m\<rparr> = B\<lparr>last_match := m, bids := xs\<rparr>"
  "B\<lparr>bids := xs, room := k\<rparr> = B\<lparr>room := k, bids := xs\<rparr>"
  by simp_all

lemma settle_sides [simp]:
  "settle fs (B\<lparr>asks := xs\<rparr>) = (settle fs B)\<lparr>asks := xs\<rparr>"
  "settle fs (B\<lparr>bids := xs\<rparr>) = (settle fs B)\<lparr>bids := xs\<rparr>"
  by (induction fs B rule: settle.induct) (auto simp: book_update_order)

section \<open>The book invariant\<close>

definition ask_before :: "Resting \<Rightarrow> Resting \<Rightarrow> bool" where
  "ask_before r s \<longleftrightarrow> r_price r < r_price s \<or> r_price r = r_price s \<and> r_ref r < r_ref s"

definition bid_before :: "Resting \<Rightarrow> Resting \<Rightarrow> bool" where
  "bid_before r s \<longleftrightarrow> r_price s < r_price r \<or> r_price r = r_price s \<and> r_ref r < r_ref s"

definition price_time :: "Book \<Rightarrow> bool" where
  "price_time B \<longleftrightarrow> sorted_wrt bid_before (bids B) \<and> sorted_wrt ask_before (asks B)"

definition not_crossed :: "Book \<Rightarrow> bool" where
  "not_crossed B \<longleftrightarrow> (\<forall>b\<in>set (bids B). \<forall>a\<in>set (asks B). r_price b < r_price a)"

definition book_inv :: "nat \<Rightarrow> Book \<Rightarrow> bool" where
  "book_inv cap B \<longleftrightarrow>
     price_time B \<and> not_crossed B \<and>
     (\<forall>r\<in>set (bids B @ asks B). 0 < r_qty r \<and> r_ref r \<le> last_ref B) \<and>
     distinct (map r_ref (bids B @ asks B)) \<and>
     room B + length (bids B) + length (asks B) = cap"

lemma empty_book_inv: "book_inv n (empty_book n)"
  by (simp add: book_inv_def price_time_def not_crossed_def empty_book_def)

lemma same_order_map:
  "list_all2 same_order rs rs' \<Longrightarrow> map r_ref rs' = map r_ref rs \<and>
     map (\<lambda>r. (r_price r, r_ref r)) rs' = map (\<lambda>r. (r_price r, r_ref r)) rs"
  by (induction rule: list_all2_induct) (auto simp: same_order_def)

lemma list_all2_in: "list_all2 P xs ys \<Longrightarrow> y \<in> set ys \<Longrightarrow> \<exists>x\<in>set xs. P x y"
  by (induction rule: list_all2_induct) auto

lemma sorted_wrt_same_order:
  assumes "list_all2 same_order rs rs'"
  shows "sorted_wrt ask_before rs' = sorted_wrt ask_before rs" "sorted_wrt bid_before rs' = sorted_wrt bid_before rs"
proof -
  have "sorted_wrt ask_before xs = sorted_wrt (\<lambda>(p, n) (p', n'). p < p' \<or> p = p' \<and> n < n') (map (\<lambda>r. (r_price r, r_ref r)) xs)"
    "sorted_wrt bid_before xs = sorted_wrt (\<lambda>(p, n) (p', n'). p' < p \<or> p = p' \<and> n < n') (map (\<lambda>r. (r_price r, r_ref r)) xs)" for xs
    by (simp_all add: sorted_wrt_map ask_before_def [abs_def] bid_before_def [abs_def])
  then show "sorted_wrt ask_before rs' = sorted_wrt ask_before rs" "sorted_wrt bid_before rs' = sorted_wrt bid_before rs"
    using same_order_map [OF assms] by simp_all
qed

lemma insert_sorted_perm: "mset (insert_sorted before r rs) = add_mset r (mset rs)"
proof -
  have "mset rs = mset (takeWhile (\<lambda>x. before (r_price x)) rs) + mset (dropWhile (\<lambda>x. before (r_price x)) rs)"
    by (metis mset_append takeWhile_dropWhile_id)
  then show ?thesis by (simp add: insert_sorted_def)
qed

lemma set_insert_sorted [simp]: "set (insert_sorted before r rs) = insert r (set rs)"
  using arg_cong [OF insert_sorted_perm [of before r rs], of set_mset] by simp

lemma insert_sorted_Cons:
  "insert_sorted before r (x # rs) = (if before (r_price x) then x # insert_sorted before r rs else r # x # rs)"
  by (simp add: insert_sorted_def)

lemma sorted_insert_ask:
  assumes "sorted_wrt ask_before rs" "\<forall>x\<in>set rs. r_ref x < r_ref r"
  shows "sorted_wrt ask_before (insert_sorted (\<lambda>p. p \<le> r_price r) r rs)"
  using assms
proof (induction rs)
  case (Cons x rs)
  show ?case
  proof (cases "r_price x \<le> r_price r")
    case True
    have "ask_before x r" using True Cons.prems(2) by (auto simp: ask_before_def)
    then show ?thesis using Cons True by (simp add: insert_sorted_Cons)
  next
    case False
    then have "ask_before r y" if "y \<in> set (x # rs)" for y
      using Cons.prems(1) that by (auto simp: ask_before_def)
    then show ?thesis using Cons.prems False by (simp add: insert_sorted_Cons)
  qed
qed (simp add: insert_sorted_def)

lemma sorted_insert_bid:
  assumes "sorted_wrt bid_before rs" "\<forall>x\<in>set rs. r_ref x < r_ref r"
  shows "sorted_wrt bid_before (insert_sorted (\<lambda>p. r_price r \<le> p) r rs)"
  using assms
proof (induction rs)
  case (Cons x rs)
  show ?case
  proof (cases "r_price r \<le> r_price x")
    case True
    have "bid_before x r" using True Cons.prems(2) by (auto simp: bid_before_def)
    then show ?thesis using Cons True by (simp add: insert_sorted_Cons)
  next
    case False
    then have "bid_before r y" if "y \<in> set (x # rs)" for y
      using Cons.prems(1) that by (auto simp: bid_before_def)
    then show ?thesis using Cons.prems False by (simp add: insert_sorted_Cons)
  qed
qed (simp add: insert_sorted_def)



subsection \<open>Matching\<close>

lemma sweep_room:
  "sweep ok q rs = (fs, q', rs') \<Longrightarrow> room (settle fs B) + length rs' = room B + length rs"
  by (induction ok q rs arbitrary: fs B rule: sweep.induct) (fastforce split: if_splits prod.splits)+

lemma sorted_rest_bad:
  assumes "sorted_wrt P rs" "rs = [] \<or> (\<exists>r rs'. rs = r # rs' \<and> \<not> ok (r_price r))"
    and "\<And>r s. P r s \<Longrightarrow> ok (r_price s) \<Longrightarrow> ok (r_price r)"
  shows "\<forall>r\<in>set rs. \<not> ok (r_price r)"
proof (cases rs)
  case (Cons r rs')
  have "\<not> ok (r_price s)" if "s \<in> set rs'" for s
    using assms(1,2) assms(3) [of r s] that Cons by auto
  then show ?thesis using assms(2) Cons by auto
qed simp

text \<open>Replacing a side by a suffix of it, with the first order reduced.\<close>

lemma book_inv_suffix:
  assumes inv: "book_inv cap B" and B': "last_ref B' = last_ref B"
    and asks: "list_all2 same_order (drop n (asks B)) (asks B')" and bids: "list_all2 same_order (drop m (bids B)) (bids B')"
    and pos: "\<forall>r\<in>set (bids B' @ asks B'). 0 < r_qty r"
    and room: "room B' + length (bids B') + length (asks B') = room B + length (bids B) + length (asks B)"
  shows "book_inv cap B'"
proof -
  have a: "\<exists>s\<in>set (asks B). same_order s r" if "r \<in> set (asks B')" for r
    using list_all2_in [OF asks that] in_set_dropD by fast
  have b: "\<exists>s\<in>set (bids B). same_order s r" if "r \<in> set (bids B')" for r
    using list_all2_in [OF bids that] in_set_dropD by fast
  have "price_time B'"
    using inv sorted_wrt_drop [of _ "asks B" n] sorted_wrt_drop [of _ "bids B" m]
    by (simp add: book_inv_def price_time_def sorted_wrt_same_order [OF asks] sorted_wrt_same_order [OF bids])
  moreover have "not_crossed B'"
    using inv a b by (fastforce simp: book_inv_def not_crossed_def same_order_def)
  moreover have "r_ref r \<le> last_ref B'" if "r \<in> set (bids B' @ asks B')" for r
    using that inv a [of r] b [of r] by (fastforce simp: book_inv_def same_order_def B')
  moreover have "map r_ref (bids B') = drop m (map r_ref (bids B))" "map r_ref (asks B') = drop n (map r_ref (asks B))"
    using same_order_map [OF bids] same_order_map [OF asks] by (simp_all add: drop_map)
  then have "distinct (map r_ref (bids B' @ asks B'))"
    using inv set_drop_subset [of m "map r_ref (bids B)"] set_drop_subset [of n "map r_ref (asks B)"]
    by (simp add: book_inv_def) (metis (no_types, lifting) disjoint_iff distinct_drop subset_iff set_map)
  ultimately show ?thesis using pos room inv by (simp add: book_inv_def)
qed

lemma match_order_inv:
  assumes inv: "book_inv cap B" and mo: "match_order ord B = (evs, q, B')"
  shows "book_inv cap B'" "last_ref B' = last_ref B"
    and "q \<noteq> 0 \<Longrightarrow> o_side ord = SideEnum_B \<Longrightarrow> \<forall>a\<in>set (asks B'). o_price ord < r_price a"
    and "q \<noteq> 0 \<Longrightarrow> o_side ord \<noteq> SideEnum_B \<Longrightarrow> o_price ord \<noteq> MARKETPRICE \<Longrightarrow> \<forall>b\<in>set (bids B'). r_price b < o_price ord"
    and "r_ref ` set (bids B' @ asks B') \<subseteq> r_ref ` set (bids B @ asks B)"
proof -
  have all: "book_inv cap B' \<and> last_ref B' = last_ref B \<and>
    (q \<noteq> 0 \<longrightarrow> o_side ord = SideEnum_B \<longrightarrow> (\<forall>a\<in>set (asks B'). o_price ord < r_price a)) \<and>
    (q \<noteq> 0 \<longrightarrow> o_side ord \<noteq> SideEnum_B \<longrightarrow> o_price ord \<noteq> MARKETPRICE \<longrightarrow> (\<forall>b\<in>set (bids B'). r_price b < o_price ord)) \<and>
    r_ref ` set (bids B' @ asks B') \<subseteq> r_ref ` set (bids B @ asks B)"
  proof (cases "o_side ord = SideEnum_B")
    case True
    then obtain fs rs where sw: "sweep (\<lambda>p. p \<le> o_price ord) (o_qty ord) (asks B) = (fs, q, rs)"
      and B': "B' = (settle fs B)\<lparr>asks := rs\<rparr>" using mo by (auto simp: match_order_def split: prod.splits)
    obtain n where n: "list_all2 same_order (drop n (asks B)) rs" and pos: "\<forall>r\<in>set rs. 0 < r_qty r"
      using sweep_suffix [OF sw] inv by (auto simp: book_inv_def)
    have inv': "book_inv cap B'"
      by (rule book_inv_suffix [OF inv, of _ n 0]) (use n pos inv sweep_room [OF sw, of B] in \<open>auto simp: B' book_inv_def intro: list_all2_refl\<close>)
    then have "sorted_wrt ask_before rs" by (simp add: B' book_inv_def price_time_def)
    then have "q \<noteq> 0 \<Longrightarrow> \<forall>a\<in>set rs. \<not> r_price a \<le> o_price ord"
      by (rule sorted_rest_bad) (use sweep_stops [OF sw] in \<open>auto simp: ask_before_def\<close>)
    then show ?thesis using True inv' sweep_refs [OF sw] by (auto simp: B' not_le)
  next
    case False
    define limit where "limit = (if o_price ord = MARKETPRICE then 0 else o_price ord)"
    obtain fs rs where sw: "sweep (\<lambda>p. limit \<le> p) (o_qty ord) (bids B) = (fs, q, rs)"
      and B': "B' = (settle fs B)\<lparr>bids := rs\<rparr>"
      using mo False unfolding match_order_def Let_def limit_def [symmetric] by (auto split: prod.splits)
    obtain n where n: "list_all2 same_order (drop n (bids B)) rs" and pos: "\<forall>r\<in>set rs. 0 < r_qty r"
      using sweep_suffix [OF sw] inv by (auto simp: book_inv_def)
    have inv': "book_inv cap B'"
      by (rule book_inv_suffix [OF inv, of _ 0 n]) (use n pos inv sweep_room [OF sw, of B] in \<open>auto simp: B' book_inv_def intro: list_all2_refl\<close>)
    then have "sorted_wrt bid_before rs" by (simp add: B' book_inv_def price_time_def)
    then have "q \<noteq> 0 \<Longrightarrow> \<forall>b\<in>set rs. \<not> limit \<le> r_price b"
      by (rule sorted_rest_bad) (use sweep_stops [OF sw] in \<open>auto simp: bid_before_def\<close>)
    then show ?thesis using False inv' sweep_refs [OF sw] by (auto simp: B' not_le limit_def)
  qed
  show "book_inv cap B'" "last_ref B' = last_ref B"
    "q \<noteq> 0 \<Longrightarrow> o_side ord = SideEnum_B \<Longrightarrow> \<forall>a\<in>set (asks B'). o_price ord < r_price a"
    "q \<noteq> 0 \<Longrightarrow> o_side ord \<noteq> SideEnum_B \<Longrightarrow> o_price ord \<noteq> MARKETPRICE \<Longrightarrow> \<forall>b\<in>set (bids B'). r_price b < o_price ord"
    "r_ref ` set (bids B' @ asks B') \<subseteq> r_ref ` set (bids B @ asks B)"
    using all by blast+
qed


subsection \<open>Resting, entering and cancelling\<close>

lemma rest_order_inv:
  assumes inv: "book_inv cap B" and room: "room B \<noteq> 0" and q: "q \<noteq> 0"
    and fresh: "\<forall>r\<in>set (bids B @ asks B). r_ref r < last_ref B"
    and buy: "o_side ord = SideEnum_B \<Longrightarrow> \<forall>a\<in>set (asks B). o_price ord < r_price a"
    and sell: "o_side ord \<noteq> SideEnum_B \<Longrightarrow> \<forall>b\<in>set (bids B). r_price b < o_price ord"
  shows "book_inv cap (rest_order ord q B)"
proof -
  let ?r = "\<lparr>r_key = order_key (o_account ord) (o_urn ord), r_ref = last_ref B, r_price = o_price ord, r_qty = q\<rparr>"
  have new: "last_ref B \<notin> r_ref ` set (bids B @ asks B)" using fresh by auto
  have q': "0 < q" using q by (simp add: word_gt_0)
  have len: "length (insert_sorted f r rs) = Suc (length rs)" for f r rs
    using arg_cong [OF insert_sorted_perm [of f r rs], of size] by simp
  have dist: "distinct (map r_ref (insert_sorted f ?r rs)) \<longleftrightarrow> distinct (last_ref B # map r_ref rs)" for f rs
    using arg_cong [OF insert_sorted_perm [of f ?r rs], of "image_mset r_ref"]
    by (metis (no_types) Resting.select_convs(2) image_mset_add_mset mset.simps(2) mset_eq_imp_distinct_iff mset_map)
  show ?thesis
  proof (cases "o_side ord = SideEnum_B")
    case True
    have "sorted_wrt bid_before (insert_sorted (\<lambda>p. r_price ?r \<le> p) ?r (bids B))"
      by (rule sorted_insert_bid) (use inv fresh in \<open>auto simp: book_inv_def price_time_def\<close>)
    then show ?thesis
      using inv True room new q' buy dist [of "\<lambda>p. o_price ord \<le> p" "bids B"] fresh
      by (auto simp: rest_order_def Let_def book_inv_def price_time_def not_crossed_def len)
  next
    case False
    have "sorted_wrt ask_before (insert_sorted (\<lambda>p. p \<le> r_price ?r) ?r (asks B))"
      by (rule sorted_insert_ask) (use inv fresh in \<open>auto simp: book_inv_def price_time_def\<close>)
    then show ?thesis
      using inv False room new q' sell dist [of "\<lambda>p. p \<le> o_price ord" "asks B"] fresh
      by (auto simp: rest_order_def Let_def book_inv_def price_time_def not_crossed_def len)
  qed
qed

lemma enter_order_inv:
  assumes inv: "book_inv cap B" and c: "unat (last_ref B) + 1 < 2 ^ 64" and en: "enter_order ord B = (B', w, evs)"
  shows "book_inv cap B'"
proof -
  let ?B0 = "B\<lparr>last_ref := last_ref B + 1\<rparr>"
  have lt: "last_ref B < last_ref B + 1"
    using c by (simp add: word_less_nat_alt unat_word_ariths take_bit_nat_eq_self)
  have "x \<le> last_ref B + 1" if "x \<le> last_ref B" for x using that lt by (meson order.strict_implies_order order_trans)
  then have inv0: "book_inv cap ?B0" using inv by (simp add: book_inv_def price_time_def not_crossed_def)
  obtain es q B1 where mo: "match_order ord ?B0 = (es, q, B1)" by (metis prod_cases3)
  note m = match_order_inv [OF inv0 mo]
  have "x < last_ref B + 1" if "x \<le> last_ref B" for x using that lt by (rule order.strict_trans1)
  then have "\<forall>r\<in>set (bids ?B0 @ asks ?B0). r_ref r < last_ref ?B0" using inv by (simp add: book_inv_def)
  then have "\<forall>r\<in>set (bids B1 @ asks B1). r_ref r < last_ref B1" using m(2,5) by fastforce
  then have "book_inv cap (rest_order ord q B1)" if "room B1 \<noteq> 0" "q \<noteq> 0" "o_price ord \<noteq> MARKETPRICE"
    using m that by (intro rest_order_inv) auto
  then show ?thesis using en mo m(1) by (auto simp: enter_order_def Let_def split: if_splits)
qed

lemma set_qty_other: "ref \<notin> r_ref ` set rs \<Longrightarrow> set_qty ref q rs = rs"
  by (induction rs) (auto simp: set_qty_def)

lemma drop_ref_other: "ref \<notin> r_ref ` set rs \<Longrightarrow> drop_ref ref rs = rs"
  by (induction rs) (auto simp: drop_ref_def)

lemma length_drop_ref:
  "distinct (map r_ref rs) \<Longrightarrow> r \<in> set rs \<Longrightarrow> Suc (length (drop_ref (r_ref r) rs)) = length rs"
proof (induction rs)
  case (Cons x rs)
  show ?case
  proof (cases "x = r")
    case True
    then show ?thesis using Cons.prems drop_ref_other [of "r_ref r" rs] by (simp add: drop_ref_def)
  next
    case False
    then have "r_ref x \<noteq> r_ref r" using Cons.prems by auto
    then show ?thesis using Cons False by (simp add: drop_ref_def)
  qed
qed simp

lemma cancel_request_inv:
  assumes inv: "book_inv cap B" and ca: "cancel_request account urn new_qty B = (B', w, evs)"
  shows "book_inv cap B'"
proof -
  let ?find = "Option.bind (index B (order_key account urn)) (\<lambda>ref. find (\<lambda>r. r_ref r = ref) (bids B @ asks B))"
  consider (none) "B' = B"
    | (part) r :: Resting where "B' = B\<lparr>bids := set_qty (r_ref r) new_qty (bids B), asks := set_qty (r_ref r) new_qty (asks B)\<rparr>" "0 < new_qty"
    | (whole) r :: Resting where "r \<in> set (bids B @ asks B)" "B' = B\<lparr>bids := drop_ref (r_ref r) (bids B), asks := drop_ref (r_ref r) (asks B),
         index := (index B)(order_key account urn := None), room := Suc (room B)\<rparr>"
  proof (cases ?find)
    case None
    then have "B' = B" using ca by (simp add: cancel_request_def)
    then show ?thesis by (rule that(1))
  next
    case (Some r)
    then have mem: "r \<in> set (bids B @ asks B)"
      by (auto simp: bind_Some_iff find_Some_iff simp flip: set_append)
    consider "r_qty r \<le> new_qty" | "\<not> r_qty r \<le> new_qty" "0 < new_qty" | "\<not> r_qty r \<le> new_qty" "\<not> 0 < new_qty"
      by blast
    then show ?thesis
    proof cases
      case 1
      then show ?thesis using ca Some by (intro that(1)) (simp add: cancel_request_def)
    next
      case 2
      then show ?thesis using ca Some by (intro that(2) [of r]) (simp_all add: cancel_request_def Let_def)
    next
      case 3
      then show ?thesis using ca Some by (intro that(3) [OF mem]) (simp_all add: cancel_request_def Let_def)
    qed
  qed
  then show ?thesis
  proof cases
    case none
    then show ?thesis using inv by simp
  next
    case part
    have same: "list_all2 same_order (drop 0 rs) (set_qty (r_ref r) new_qty rs)" for rs
      by (auto simp: set_qty_def list_all2_conv_all_nth)
    show ?thesis
      by (rule book_inv_suffix [OF inv, of _ 0 0])
        (use part inv same in \<open>auto simp: set_qty_def book_inv_def\<close>)
  next
    case whole
    have "Suc (length (drop_ref (r_ref r) (bids B @ asks B))) = length (bids B @ asks B)"
      by (rule length_drop_ref) (use inv whole in \<open>auto simp: book_inv_def\<close>)
    moreover have "drop_ref ref (xs @ ys) = drop_ref ref xs @ drop_ref ref ys" for ref xs ys by (simp add: drop_ref_def)
    moreover have "distinct (map r_ref (drop_ref (r_ref r) (bids B @ asks B)))"
      using inv unfolding drop_ref_def book_inv_def by (blast intro: distinct_map_filter)
    ultimately show ?thesis
      using inv whole by (auto simp: book_inv_def price_time_def not_crossed_def drop_ref_def sorted_wrt_filter)
  qed
qed

lemma request_inv:
  assumes "book_inv cap B" "unat (last_ref B) + 1 < 2 ^ 64" "request m B = (B', evs)"
  shows "book_inv cap B'"
  using assms enter_order_inv [OF assms(1,2)] cancel_request_inv [OF assms(1)]
  by (auto simp: request_def split: option.splits UOUCHMessage.splits prod.splits)

lemma request_last_ref: "unat (last_ref (fst (request m B))) \<le> Suc (unat (last_ref B))"
proof -
  have inc: "unat (x + 1) \<le> Suc (unat x)" for x :: u64
    by (simp add: unat_word_ariths)
  have rest: "last_ref (rest_order ord q B) = last_ref B" for ord q B
    by (simp add: rest_order_def Let_def)
  have mo: "last_ref (snd (snd (match_order ord B))) = last_ref B" for ord B
    by (simp add: match_order_def Let_def split_def)
  have "last_ref (fst (enter_order ord B)) = last_ref B + 1" for ord
    using mo [of ord "B\<lparr>last_ref := last_ref B + 1\<rparr>"] by (simp add: enter_order_def Let_def split_def rest)
  moreover have "last_ref (fst (cancel_request a u q B)) = last_ref B" for a u q
    by (auto simp: cancel_request_def Let_def split: option.splits)
  ultimately show ?thesis
    using inc [of "last_ref B"] by (auto simp: request_def split_def split: option.splits UOUCHMessage.splits)
qed

lemma requests_inv:
  assumes "book_inv cap B" "unat (last_ref B) + length ms < 2 ^ 64"
  shows "book_inv cap (fst (requests ms B))"
  using assms
proof (induction ms arbitrary: B)
  case (Cons m ms)
  obtain B1 evs1 where r1: "request m B = (B1, evs1)" by fastforce
  have "book_inv cap B1" using request_inv [OF Cons.prems(1) _ r1] Cons.prems(2) by simp
  moreover have "unat (last_ref B1) + length ms < 2 ^ 64"
    using request_last_ref [of m B] r1 Cons.prems(2) by simp
  ultimately show ?case using Cons.IH r1 by (simp add: split_def Let_def)
qed simp

section \<open>Quantities reported by an order\<close>

fun taker_qty :: "Event \<Rightarrow> nat" where
  "taker_qty (Executed _ _ q _ liq _) = (if liq = 82 then unat q else 0)"
| "taker_qty _ = 0"

fun canceled_qty :: "Event \<Rightarrow> nat" where
  "canceled_qty (Canceled _ _ q _) = unat q"
| "canceled_qty _ = 0"

lemma fill_events_qty:
  "sum_list (map taker_qty (fill_events a u m fs)) = filled fs"
  "sum_list (map canceled_qty (fill_events a u m fs)) = 0"
  by (induction a u m fs rule: fill_events.induct) simp_all

lemma match_order_sweep:
  assumes "match_order ord B = (evs, q, B')"
  obtains ok fs rs where
    "sweep ok (o_qty ord) (if o_side ord = SideEnum_B then asks B else bids B) = (fs, q, rs)"
    "evs = fill_events (o_account ord) (o_urn ord) (last_match B) fs" "last_ref B' = last_ref B"
  using assms by (auto simp: match_order_def Let_def split: if_splits prod.splits)

lemma match_order_qty:
  assumes "match_order ord B = (evs, q, B')"
  shows "unat (o_qty ord) = sum_list (map taker_qty evs) + unat q" "sum_list (map canceled_qty evs) = 0"
proof -
  obtain ok fs rs where sw: "sweep ok (o_qty ord) (if o_side ord = SideEnum_B then asks B else bids B) = (fs, q, rs)"
    and evs: "evs = fill_events (o_account ord) (o_urn ord) (last_match B) fs"
    by (rule match_order_sweep [OF assms]) (rule that)
  show "unat (o_qty ord) = sum_list (map taker_qty evs) + unat q" "sum_list (map canceled_qty evs) = 0"
    unfolding evs fill_events_qty by (rule sweep_conserves(1) [OF sw]) (rule refl)
qed

text \<open>
  Every share of an order is accounted for: filled at once, cancelled, or resting under the
  reference number the caller gets.
\<close>

lemma enter_order_qty:
  assumes en: "enter_order ord B = (B', w, evs)" and c: "unat (last_ref B) + 1 < 2 ^ 64"
  obtains (done_now) "w = 0" "unat (o_qty ord) = sum_list (map taker_qty evs) + sum_list (map canceled_qty evs)"
    | (rests) r where "w = last_ref B + 1" "w \<noteq> 0" "index B' (order_key (o_account ord) (o_urn ord)) = Some w"
      "r \<in> set (bids B' @ asks B')" "r_ref r = w"
      "unat (o_qty ord) = sum_list (map taker_qty evs) + sum_list (map canceled_qty evs) + unat (r_qty r)"
proof -
  let ?B0 = "B\<lparr>last_ref := last_ref B + 1\<rparr>"
  obtain es q B1 where mo: "match_order ord ?B0 = (es, q, B1)" by (metis prod_cases3)
  note m = match_order_qty [OF mo]
  have l1: "last_ref B1 = last_ref B + 1"
    by (rule match_order_sweep [OF mo]) simp
  have "unat (last_ref B + 1) = Suc (unat (last_ref B))"
    using c by (simp add: unat_word_ariths take_bit_nat_eq_self)
  then have nz: "last_ref B + 1 \<noteq> 0" by auto
  consider (now) "q = 0 \<or> o_price ord = MARKETPRICE \<or> room B1 = 0" | (rest) "q \<noteq> 0" "o_price ord \<noteq> MARKETPRICE" "room B1 \<noteq> 0"
    by blast
  then show ?thesis
  proof cases
    case now
    show ?thesis by (rule done_now) (use en mo m now in \<open>auto simp: enter_order_def Let_def split: if_splits\<close>)
  next
    case rest
    then have "B' = rest_order ord q B1" "w = last_ref B1" "sum_list (map taker_qty evs) = sum_list (map taker_qty es)"
      "sum_list (map canceled_qty evs) = sum_list (map canceled_qty es)"
      using en mo by (auto simp: enter_order_def Let_def)
    then show ?thesis
      by (intro rests [of "\<lparr>r_key = order_key (o_account ord) (o_urn ord), r_ref = last_ref B1, r_price = o_price ord, r_qty = q\<rparr>"])
        (use m l1 nz in \<open>auto simp: rest_order_def Let_def\<close>)
  qed
qed


section \<open>Which orders trade, and at which price\<close>

definition acceptable :: "Order \<Rightarrow> u64 \<Rightarrow> bool" where
  "acceptable ord p \<longleftrightarrow>
     (if o_side ord = SideEnum_B then p \<le> o_price ord else o_price ord = MARKETPRICE \<or> o_price ord \<le> p)"

definition opposite :: "Order \<Rightarrow> Book \<Rightarrow> Resting list" where
  "opposite ord B = (if o_side ord = SideEnum_B then asks B else bids B)"

lemma enter_order_fills:
  assumes "enter_order ord B = (B', w, evs)"
  obtains fs rest where
    "evs = Accepted (o_account ord) (o_urn ord) (o_side ord) (o_qty ord) (o_price ord) (last_ref B + 1) #
       fill_events (o_account ord) (o_urn ord) (last_match B) fs @ rest"
    and "length rest \<le> 1" and "map fst fs = take (length fs) (opposite ord B)"
    and "\<forall>(r, f)\<in>set fs. acceptable ord (r_price r) \<and> f \<le> r_qty r"
proof -
  let ?B0 = "B\<lparr>last_ref := last_ref B + 1\<rparr>"
  obtain es q B1 where mo: "match_order ord ?B0 = (es, q, B1)" by (metis prod_cases3)
  define limit where "limit = (if o_price ord = MARKETPRICE then 0 else o_price ord)"
  let ?ok = "if o_side ord = SideEnum_B then (\<lambda>p. p \<le> o_price ord) else (\<lambda>p. limit \<le> p)"
  obtain fs rs where sw: "sweep ?ok (o_qty ord) (opposite ord ?B0) = (fs, q, rs)"
    and es: "es = fill_events (o_account ord) (o_urn ord) (last_match B) fs"
    using mo unfolding match_order_def Let_def limit_def [symmetric]
    by (auto simp: opposite_def split: if_splits prod.splits)
  have "\<forall>(r, f)\<in>set fs. acceptable ord (r_price r) \<and> f \<le> r_qty r"
    using sweep_priority(2) [OF sw] by (auto simp: acceptable_def limit_def split: if_splits)
  moreover have "map fst fs = take (length fs) (opposite ord B)"
    using sweep_priority(1) [OF sw] by (simp add: opposite_def)
  moreover have "\<exists>rest. evs = Accepted (o_account ord) (o_urn ord) (o_side ord) (o_qty ord) (o_price ord) (last_ref B + 1) #
       fill_events (o_account ord) (o_urn ord) (last_match B) fs @ rest \<and> length rest \<le> 1"
    using assms mo es by (auto simp: enter_order_def Let_def split: if_splits)
  ultimately show ?thesis using that by blast
qed

end
