(* ===== verification/Engine_Refinement.thy ===== *)
theory Engine_Refinement
  imports Engine_Book Matching_Props
begin

text \<open>
  The engine implements the abstract book. The refinement lemmas show for every operation that it is
  defined (it never meets a null or dangling pointer and never leaves the level array), that it
  re-establishes the relation \<open>engine_sim\<close> with the book the abstract operation gives, and that the
  messages it appends to the outbound queue decode to the abstract operation's events.
\<close>

definition emits :: "Engine \<Rightarrow> Engine \<Rightarrow> Event list \<Rightarrow> bool" where
  "emits e e' evs \<longleftrightarrow> (\<exists>ms. outgoing e' = outgoing e @ ms \<and> events_of ms evs)"

definition step_to :: "addr set \<Rightarrow> Engine \<Rightarrow> Engine \<Rightarrow> Book \<Rightarrow> Event list \<Rightarrow> bool" where
  "step_to S e e' B evs \<longleftrightarrow>
     engine_sim S e' B \<and> length (order_buffer e') = length (order_buffer e) \<and> emits e e' evs"

lemma emits_refl: "outgoing e' = outgoing e \<Longrightarrow> emits e e' []"
  by (simp add: emits_def)

lemma emits_trans: "emits e e1 evs \<Longrightarrow> emits e1 e2 evs' \<Longrightarrow> emits e e2 (evs @ evs')"
  unfolding emits_def using events_of_append by fastforce

lemma step_to_refl: "engine_sim S e B \<Longrightarrow> step_to S e e B []"
  by (simp add: step_to_def emits_refl)

lemma step_to_trans: "step_to S e e1 B1 evs \<Longrightarrow> step_to S e1 e2 B2 evs' \<Longrightarrow> step_to S e e2 B2 (evs @ evs')"
  by (auto simp: step_to_def intro: emits_trans)

lemma step_to_emit:
  "engine_sim S e' B \<Longrightarrow> length (order_buffer e') = length (order_buffer e) \<Longrightarrow> outgoing e' = outgoing e \<Longrightarrow>
   events_of ms evs \<Longrightarrow> step_to S e (emit ms e') B evs"
  by (auto simp: step_to_def emits_def)

lemma engine_simI: "einv S e LB LA fs \<Longrightarrow> book_of e LB LA fs = B \<Longrightarrow> engine_sim S e B"
  by (auto simp: engine_sim_def)

section \<open>What the relation says about the engine\<close>

lemma sim_refs_distinct:
  assumes "engine_sim S e B"
  shows "distinct (map r_ref (bids B @ asks B))"
proof -
  from assms obtain LB LA fs where inv: "einv0 S e LB LA fs" and B: "B = book_of e LB LA fs"
    by (auto simp: engine_sim_def einv_def)
  let ?n = "length (order_buffer e)"
  have "distinct (bid_ptrs ?n LB @ ask_ptrs ?n LA)" using einv0_distinct [OF inv] by simp
  moreover have "inj_on (r_ref \<circ> res e) (set (bid_ptrs ?n LB @ ask_ptrs ?n LA))"
    using einv0_inj [OF inv] by (simp add: live_def comp_def)
  ultimately have "distinct (map (r_ref \<circ> res e) (bid_ptrs ?n LB @ ask_ptrs ?n LA))"
    by (simp only: distinct_map)
  then show ?thesis by (simp add: B book_of_def)
qed

lemma sim_last_ref: "engine_sim S e B \<Longrightarrow> last_ref B = counter e"
  by (auto simp: engine_sim_def book_of_def)

lemma best_ask:
  assumes inv: "einv S e LB LA fs" and B: "asks (book_of e LB LA fs) = r # rs"
  obtains x xs b where "unat (best_sell_idx e) < length (order_buffer e)" "LA (unat (best_sell_idx e)) = x # xs"
    "r = res e x" "r_price r = best_sell_idx e"
    "do { l \<leftarrow> level e (best_sell_idx e); head l } = Some x"
    "block_at e x = Some b" "x \<in> live (length (order_buffer e)) LB LA"
    "res e x = \<lparr>r_key = blk_key b, r_ref = blk_id b, r_price = EnterRequestView_Price (raw b), r_qty = curr_qty b\<rparr>"
    "0 < r_qty r"
proof -
  let ?n = "length (order_buffer e)" and ?i = "unat (best_sell_idx e)"
  have inv0: "einv0 S e LB LA fs" and best: "best_ask_ok ?n LA ?i" using inv by (simp_all add: einv_def)
  have "ask_ptrs ?n LA \<noteq> []" using B by (auto simp: book_of_def)
  then have i: "?i < ?n" using best unfolding best_ask_ok_def ask_ptrs_Nil
    by (metis le_neq_implies_less)
  then obtain x xs where x: "LA ?i = x # xs" using best by (cases "LA ?i") (auto simp: best_ask_ok_def)
  have ptrs: "ask_ptrs ?n LA = x # ask_ptrs ?n (LA(?i := xs))"
    by (rule ask_ptrs_front) (use best i x in \<open>auto simp: best_ask_ok_def\<close>)
  then have r: "r = res e x" using B by (simp add: book_of_def)
  have ok: "ok_block e ?i SideEnum_S x" using einv0_ask [OF inv0 i] x by simp
  have "x \<in> live ?n LB LA" using ptrs by (simp add: live_def)
  moreover from live_block [OF inv0 this] obtain b where "block_at e x = Some b"
    "res e x = \<lparr>r_key = blk_key b, r_ref = blk_id b, r_price = EnterRequestView_Price (raw b), r_qty = curr_qty b\<rparr>"
    by blast
  moreover have "LB ?i = []" using one_sided [OF inv0 i] x by auto
  then have "do { l \<leftarrow> level e (best_sell_idx e); head l } = Some x"
    using core_head [OF einv0_core [OF inv0] i] i x by (simp add: level_def)
  ultimately show ?thesis using that i x r res_price [OF ok] by simp
qed

lemma best_bid:
  assumes inv: "einv S e LB LA fs" and B: "bids (book_of e LB LA fs) = r # rs"
  obtains x xs b where "unat (best_buy_idx e) < length (order_buffer e)" "LB (unat (best_buy_idx e)) = x # xs"
    "r = res e x" "r_price r = best_buy_idx e"
    "do { l \<leftarrow> level e (best_buy_idx e); head l } = Some x"
    "block_at e x = Some b" "x \<in> live (length (order_buffer e)) LB LA"
    "res e x = \<lparr>r_key = blk_key b, r_ref = blk_id b, r_price = EnterRequestView_Price (raw b), r_qty = curr_qty b\<rparr>"
    "0 < r_qty r"
proof -
  let ?n = "length (order_buffer e)" and ?i = "unat (best_buy_idx e)"
  have inv0: "einv0 S e LB LA fs" and best: "best_bid_ok ?n LB ?i" using inv by (simp_all add: einv_def)
  have i: "?i < ?n" using best by (simp add: best_bid_ok_def)
  have "LB ?i \<noteq> []"
  proof
    assume "LB ?i = []"
    then have "LB j = []" if "j < ?n" for j using best that by (cases j "?i" rule: linorder_cases) (auto simp: best_bid_ok_def)
    then have "bid_ptrs ?n LB = []" by (simp add: bid_ptrs_Nil)
    then show False using B by (simp add: book_of_def)
  qed
  then obtain x xs where x: "LB ?i = x # xs" by (cases "LB ?i") auto
  have ptrs: "bid_ptrs ?n LB = x # bid_ptrs ?n (LB(?i := xs))"
    by (rule bid_ptrs_front) (use best i x in \<open>auto simp: best_bid_ok_def\<close>)
  then have r: "r = res e x" using B by (simp add: book_of_def)
  have ok: "ok_block e ?i SideEnum_B x" using einv0_bid [OF inv0 i] x by simp
  have "x \<in> live ?n LB LA" using ptrs by (simp add: live_def)
  moreover from live_block [OF inv0 this] obtain b where "block_at e x = Some b"
    "res e x = \<lparr>r_key = blk_key b, r_ref = blk_id b, r_price = EnterRequestView_Price (raw b), r_qty = curr_qty b\<rparr>"
    by blast
  moreover have "LA ?i = []" using one_sided [OF inv0 i] x by auto
  then have "do { l \<leftarrow> level e (best_buy_idx e); head l } = Some x"
    using core_head [OF einv0_core [OF inv0] i] i x by (simp add: level_def)
  ultimately show ?thesis using that i x r res_price [OF ok] by simp
qed


section \<open>One round of matching\<close>

definition after_fill :: "Resting \<Rightarrow> u32 \<Rightarrow> Resting list \<Rightarrow> Resting list" where
  "after_fill r q rs = (if q < r_qty r then r\<lparr>r_qty := r_qty r - q\<rparr> # rs else rs)"

text \<open>
  The three changes a round can make to the memory. In the code they happen after the fill has been
  reported; \<open>emit ms\<close> and the new match number account for that.
\<close>

lemma sim_requote:
  assumes inv: "einv S e LB LA fs" and x: "x \<in> live (length (order_buffer e)) LB LA"
    and b: "block_at e x = Some b" and v: "0 < v"
  defines "B \<equiv> book_of e LB LA fs" and "r \<equiv> res e x"
  obtains e' where "set_block (emit ms (e\<lparr>match_counter := c\<rparr>)) x (b\<lparr>curr_qty := v\<rparr>) = Some e'"
    and "engine_sim S e' (B\<lparr>last_match := c, bids := set_qty (r_ref r) v (bids B), asks := set_qty (r_ref r) v (asks B)\<rparr>)"
    and "length (order_buffer e') = length (order_buffer e)" "outgoing e' = outgoing e @ ms"
proof -
  obtain A' where set: "\<And>e0. allocator e0 = allocator e \<Longrightarrow> set_block e0 x (b\<lparr>curr_qty := v\<rparr>) = Some (e0\<lparr>allocator := A'\<rparr>)"
    and inv': "einv S (e\<lparr>allocator := A'\<rparr>) LB LA fs"
    and B': "book_of (e\<lparr>allocator := A'\<rparr>) LB LA fs =
      B\<lparr>bids := set_qty (r_ref r) v (bids B), asks := set_qty (r_ref r) v (asks B)\<rparr>"
    by (rule einv_requote [OF inv x b v, folded B_def r_def]) (rule that)
  have eq: "(emit ms (e\<lparr>match_counter := c\<rparr>))\<lparr>allocator := A'\<rparr> = emit ms (e\<lparr>allocator := A', match_counter := c\<rparr>)"
    by (simp add: emit_def)
  show ?thesis
    by (rule that [OF set], simp, unfold eq, rule engine_simI [of _ _ LB LA fs]) (simp_all add: inv' B')
qed

lemma sim_take_ask:
  assumes inv: "einv S e LB LA fs" and i: "unat (best_sell_idx e) < length (order_buffer e)"
    and x: "LA (unat (best_sell_idx e)) = x # xs"
  defines "B \<equiv> book_of e LB LA fs" and "r \<equiv> res e x"
  obtains e' where
    "do { e \<leftarrow> Engine_unlink ((emit ms (e\<lparr>match_counter := c\<rparr>))
           \<lparr>order_blocks_map := (order_blocks_map e)(r_key r := None), sell_orders := sell_orders e - 1\<rparr>) x (best_sell_idx e);
         e \<leftarrow> Engine_deallocate e x; Some (refresh_best_sell e) } = Some e'"
    and "engine_sim S e' (B\<lparr>index := (index B)(r_key r := None), last_match := c, room := Suc (room B),
        bids := drop_ref (r_ref r) (bids B), asks := drop_ref (r_ref r) (asks B)\<rparr>)"
    and "length (order_buffer e') = length (order_buffer e)" "outgoing e' = outgoing e @ ms"
proof -
  let ?i = "unat (best_sell_idx e)" and ?n = "length (order_buffer e)"
  let ?e0 = "(emit ms (e\<lparr>match_counter := c\<rparr>))
           \<lparr>order_blocks_map := (order_blocks_map e)(r_key r := None), sell_orders := sell_orders e - 1\<rparr>"
  have inv0: "einv0 S e LB LA fs" and best: "best_ask_ok ?n LA ?i" "best_bid_ok ?n LB (unat (best_buy_idx e))"
    using inv by (simp_all add: einv_def)
  obtain A' buf' e1 where un: "\<And>e0. allocator e0 = allocator e \<Longrightarrow> order_buffer e0 = order_buffer e \<Longrightarrow>
       do { e \<leftarrow> Engine_unlink e0 x (best_sell_idx e); Engine_deallocate e x } = Some (e0\<lparr>allocator := A', order_buffer := buf'\<rparr>)"
    and len: "length buf' = ?n"
    and e1: "e1 = e\<lparr>allocator := A', order_buffer := buf',
           order_blocks_map := (order_blocks_map e)(r_key r := None), sell_orders := sell_orders e - 1\<rparr>"
    and inv1: "einv0 S e1 LB (LA(?i := [] @ xs)) (x # fs)"
    and B1: "book_of e1 LB (LA(?i := [] @ xs)) (x # fs) =
      B\<lparr>bids := drop_ref (r_ref r) (bids B), asks := drop_ref (r_ref r) (asks B),
        index := (index B)(r_key r := None), room := Suc (room B)\<rparr>"
    by (rule einv0_remove_ask [OF inv0 refl i, of "[]" x xs, folded B_def r_def]) (use x in \<open>auto intro: that\<close>)
  define e2 where "e2 = emit ms (e1\<lparr>match_counter := c\<rparr>)"
  have e2: "?e0\<lparr>allocator := A', order_buffer := buf'\<rparr> = e2" by (simp add: e2_def e1 emit_def)
  have fields: "best_sell_idx e2 = best_sell_idx e" "best_buy_idx e2 = best_buy_idx e"
    "length (order_buffer e2) = ?n" "outgoing e2 = outgoing e @ ms"
    by (simp_all add: e2_def e1 len)
  have inv2: "einv0 S e2 LB (LA(?i := xs)) (x # fs)" using inv1 by (simp add: e2_def)
  have emp: "LB j = []" if "j < ?n" "?i \<le> j" for j
    using einv0_uncrossed [OF inv0] x i that unfolding uncrossed_def by (metis leD list.distinct(1))
  obtain k where k: "refresh_best_sell e2 = e2\<lparr>best_sell_idx := k\<rparr>" "best_ask_ok ?n (LA(?i := xs)) (unat k)"
    by (rule refresh_best_sell_ok [OF inv2])
      (use best i emp in \<open>auto simp: fields best_ask_ok_def intro: that\<close>)
  have "engine_sim S (e2\<lparr>best_sell_idx := k\<rparr>) (B\<lparr>index := (index B)(r_key r := None), last_match := c, room := Suc (room B),
        bids := drop_ref (r_ref r) (bids B), asks := drop_ref (r_ref r) (asks B)\<rparr>)"
    by (rule engine_simI [of _ _ LB "LA(?i := xs)" "x # fs"])
      (use inv2 k best B1 in \<open>simp_all add: einv_def fields\<close>, simp add: e2_def)
  moreover have "do { e \<leftarrow> Engine_unlink ?e0 x (best_sell_idx e); e \<leftarrow> Engine_deallocate e x; Some (refresh_best_sell e) } =
      Some (e2\<lparr>best_sell_idx := k\<rparr>)"
    using un [of ?e0] e2 k by (auto simp: bind_Some_iff)
  ultimately show ?thesis
    by - (rule that, assumption+, simp_all add: fields)
qed

lemma sim_take_bid:
  assumes inv: "einv S e LB LA fs" and i: "unat (best_buy_idx e) < length (order_buffer e)"
    and x: "LB (unat (best_buy_idx e)) = x # xs"
  defines "B \<equiv> book_of e LB LA fs" and "r \<equiv> res e x"
  obtains e' where
    "do { e \<leftarrow> Engine_unlink ((emit ms (e\<lparr>match_counter := c\<rparr>))
           \<lparr>buy_orders := buy_orders e - 1, order_blocks_map := (order_blocks_map e)(r_key r := None)\<rparr>) x (best_buy_idx e);
         e \<leftarrow> Engine_deallocate e x; refresh_best_buy e } = Some e'"
    and "engine_sim S e' (B\<lparr>index := (index B)(r_key r := None), last_match := c, room := Suc (room B),
        bids := drop_ref (r_ref r) (bids B), asks := drop_ref (r_ref r) (asks B)\<rparr>)"
    and "length (order_buffer e') = length (order_buffer e)" "outgoing e' = outgoing e @ ms"
proof -
  let ?i = "unat (best_buy_idx e)" and ?n = "length (order_buffer e)"
  let ?e0 = "(emit ms (e\<lparr>match_counter := c\<rparr>))
           \<lparr>buy_orders := buy_orders e - 1, order_blocks_map := (order_blocks_map e)(r_key r := None)\<rparr>"
  have inv0: "einv0 S e LB LA fs" and best: "best_bid_ok ?n LB ?i" "best_ask_ok ?n LA (unat (best_sell_idx e))"
    using inv by (simp_all add: einv_def)
  obtain A' buf' e1 where un: "\<And>e0. allocator e0 = allocator e \<Longrightarrow> order_buffer e0 = order_buffer e \<Longrightarrow>
       do { e \<leftarrow> Engine_unlink e0 x (best_buy_idx e); Engine_deallocate e x } = Some (e0\<lparr>allocator := A', order_buffer := buf'\<rparr>)"
    and len: "length buf' = ?n"
    and e1: "e1 = e\<lparr>allocator := A', order_buffer := buf',
           order_blocks_map := (order_blocks_map e)(r_key r := None), buy_orders := buy_orders e - 1\<rparr>"
    and inv1: "einv0 S e1 (LB(?i := [] @ xs)) LA (x # fs)"
    and B1: "book_of e1 (LB(?i := [] @ xs)) LA (x # fs) =
      B\<lparr>bids := drop_ref (r_ref r) (bids B), asks := drop_ref (r_ref r) (asks B),
        index := (index B)(r_key r := None), room := Suc (room B)\<rparr>"
    by (rule einv0_remove_bid [OF inv0 refl i, of "[]" x xs, folded B_def r_def]) (use x in \<open>auto intro: that\<close>)
  define e2 where "e2 = emit ms (e1\<lparr>match_counter := c\<rparr>)"
  have e2: "?e0\<lparr>allocator := A', order_buffer := buf'\<rparr> = e2" by (simp add: e2_def e1 emit_def)
  have fields: "best_buy_idx e2 = best_buy_idx e" "best_sell_idx e2 = best_sell_idx e"
    "length (order_buffer e2) = ?n" "outgoing e2 = outgoing e @ ms"
    by (simp_all add: e2_def e1 len)
  have inv2: "einv0 S e2 (LB(?i := xs)) LA (x # fs)" using inv1 by (simp add: e2_def)
  have emp: "LA j = []" if "j \<le> ?i" for j
    using einv0_uncrossed [OF inv0] x i that unfolding uncrossed_def by (metis leD le_less_trans list.distinct(1))
  obtain k where k: "refresh_best_buy e2 = Some (e2\<lparr>best_buy_idx := k\<rparr>)" "best_bid_ok ?n (LB(?i := xs)) (unat k)"
    by (rule refresh_best_buy_ok [OF inv2])
      (use best i emp in \<open>auto simp: fields best_bid_ok_def intro: that\<close>)
  have "engine_sim S (e2\<lparr>best_buy_idx := k\<rparr>) (B\<lparr>index := (index B)(r_key r := None), last_match := c, room := Suc (room B),
        bids := drop_ref (r_ref r) (bids B), asks := drop_ref (r_ref r) (asks B)\<rparr>)"
    by (rule engine_simI [of _ _ "LB(?i := xs)" LA "x # fs"])
      (use inv2 k best B1 in \<open>simp_all add: einv_def fields\<close>, simp add: e2_def)
  moreover have "do { e \<leftarrow> Engine_unlink ?e0 x (best_buy_idx e); e \<leftarrow> Engine_deallocate e x; refresh_best_buy e } =
      Some (e2\<lparr>best_buy_idx := k\<rparr>)"
    using un [of ?e0] e2 k by (auto simp: bind_Some_iff)
  ultimately show ?thesis
    by - (rule that, assumption+, simp_all add: fields)
qed

lemma buy_match_step_ok:
  assumes sim: "engine_sim S e B" and asks: "asks B = r # rs" and q: "0 < q"
  obtains e' where
    "buy_match_step clk account order e q = Some (e', if q < r_qty r then 0 else q - r_qty r)"
    and "step_to S e e' ((settle [(r, min (r_qty r) q)] B)\<lparr>asks := after_fill r q rs\<rparr>)
      (fill_events account (EnterRequestView_UserRefNum order) (last_match B) [(r, min (r_qty r) q)])"
proof -
  from sim obtain LB LA fs where inv: "einv S e LB LA fs" and B: "B = book_of e LB LA fs"
    by (auto simp: engine_sim_def)
  obtain x xs b where i: "unat (best_sell_idx e) < length (order_buffer e)" and x: "LA (unat (best_sell_idx e)) = x # xs"
    and r: "r = res e x" "r_price r = best_sell_idx e"
    and hd: "do { l \<leftarrow> level e (best_sell_idx e); head l } = Some x"
    and b: "block_at e x = Some b" and lv: "x \<in> live (length (order_buffer e)) LB LA"
    and rb: "res e x = \<lparr>r_key = blk_key b, r_ref = blk_id b, r_price = EnterRequestView_Price (raw b), r_qty = curr_qty b\<rparr>"
    by (rule best_ask [OF inv asks [unfolded B]]) (rule that)
  note dist = sim_refs_distinct [OF sim, unfolded asks]
  have oth: "set_qty (r_ref r) v (bids B) = bids B" "drop_ref (r_ref r) (bids B) = bids B"
    "set_qty (r_ref r) v (asks B) = r\<lparr>r_qty := v\<rparr> # rs" "drop_ref (r_ref r) (asks B) = rs" for v
    using dist set_qty_other [of "r_ref r"] drop_ref_other [of "r_ref r"]
    by (auto simp: asks set_qty_def drop_ref_def)
  obtain ms where fills: "send_fills clk account order x (min (curr_qty b) q) (best_sell_idx e) e =
      Some (emit ms (e\<lparr>match_counter := match_counter e + 1\<rparr>))"
    and ev: "events_of ms (fill_events account (EnterRequestView_UserRefNum order) (last_match B) [(r, min (r_qty r) q)])"
    by (rule send_fills_emit [OF b]) (use r rb in \<open>auto simp: B book_of_def intro: that\<close>)
  have rq: "r_qty r = curr_qty b" "r_key r = blk_key b" using r rb by simp_all
  have mc: "last_match B = match_counter e" by (simp add: B book_of_def)
  show ?thesis
  proof (cases "q < curr_qty b")
    case True
    then have v: "0 < curr_qty b - q" by (simp add: word_gt_0)
    obtain e' where "set_block (emit ms (e\<lparr>match_counter := match_counter e + 1\<rparr>)) x (b\<lparr>curr_qty := curr_qty b - q\<rparr>) = Some e'"
      and "engine_sim S e' (B\<lparr>last_match := match_counter e + 1, bids := set_qty (r_ref r) (curr_qty b - q) (bids B), asks := set_qty (r_ref r) (curr_qty b - q) (asks B)\<rparr>)"
      and "length (order_buffer e') = length (order_buffer e)" "outgoing e' = outgoing e @ ms"
      by (rule sim_requote [OF inv lv b v, of ms "match_counter e + 1", folded B r(1)]) (rule that)
    moreover have m: "min (curr_qty b) q = q" "q \<noteq> curr_qty b" using True by (auto simp: min_def)
    ultimately show ?thesis
      using that [of e'] True hd ev fills
      by (auto simp: buy_match_step_def bind_Some_iff b rq oth mc after_fill_def step_to_def emits_def)
  next
    case False
    obtain e' where "do { e \<leftarrow> Engine_unlink ((emit ms (e\<lparr>match_counter := match_counter e + 1\<rparr>))
           \<lparr>order_blocks_map := (order_blocks_map e)(r_key r := None), sell_orders := sell_orders e - 1\<rparr>) x (best_sell_idx e);
         e \<leftarrow> Engine_deallocate e x; Some (refresh_best_sell e) } = Some e'"
      and "engine_sim S e' (B\<lparr>index := (index B)(r_key r := None), last_match := match_counter e + 1, room := Suc (room B),
        bids := drop_ref (r_ref r) (bids B), asks := drop_ref (r_ref r) (asks B)\<rparr>)"
      and "length (order_buffer e') = length (order_buffer e)" "outgoing e' = outgoing e @ ms"
      by (rule sim_take_ask [OF inv i x, of ms "match_counter e + 1", folded B r(1)]) (rule that)
    moreover have m: "min (curr_qty b) q = curr_qty b" using False by (auto simp: min_def)
    ultimately show ?thesis
      using that [of e'] False hd ev fills
      by (auto simp: buy_match_step_def bind_Some_iff b rq oth mc after_fill_def step_to_def emits_def)
  qed
qed

lemma sell_match_step_ok:
  assumes sim: "engine_sim S e B" and bids: "bids B = r # rs" and q: "0 < q"
  obtains e' where
    "sell_match_step clk account order e q = Some (e', if q < r_qty r then 0 else q - r_qty r)"
    and "step_to S e e' ((settle [(r, min (r_qty r) q)] B)\<lparr>bids := after_fill r q rs\<rparr>)
      (fill_events account (EnterRequestView_UserRefNum order) (last_match B) [(r, min (r_qty r) q)])"
proof -
  from sim obtain LB LA fs where inv: "einv S e LB LA fs" and B: "B = book_of e LB LA fs"
    by (auto simp: engine_sim_def)
  obtain x xs b where i: "unat (best_buy_idx e) < length (order_buffer e)" and x: "LB (unat (best_buy_idx e)) = x # xs"
    and r: "r = res e x" "r_price r = best_buy_idx e"
    and hd: "do { l \<leftarrow> level e (best_buy_idx e); head l } = Some x"
    and b: "block_at e x = Some b" and lv: "x \<in> live (length (order_buffer e)) LB LA"
    and rb: "res e x = \<lparr>r_key = blk_key b, r_ref = blk_id b, r_price = EnterRequestView_Price (raw b), r_qty = curr_qty b\<rparr>"
    by (rule best_bid [OF inv bids [unfolded B]]) (rule that)
  note dist = sim_refs_distinct [OF sim, unfolded bids]
  have oth: "set_qty (r_ref r) v (asks B) = asks B" "drop_ref (r_ref r) (asks B) = asks B"
    "set_qty (r_ref r) v (bids B) = r\<lparr>r_qty := v\<rparr> # rs" "drop_ref (r_ref r) (bids B) = rs" for v
    using dist set_qty_other [of "r_ref r"] drop_ref_other [of "r_ref r"]
    by (auto simp: bids set_qty_def drop_ref_def)
  obtain ms where fills: "send_fills clk account order x (min (curr_qty b) q) (best_buy_idx e) e =
      Some (emit ms (e\<lparr>match_counter := match_counter e + 1\<rparr>))"
    and ev: "events_of ms (fill_events account (EnterRequestView_UserRefNum order) (last_match B) [(r, min (r_qty r) q)])"
    by (rule send_fills_emit [OF b]) (use r rb in \<open>auto simp: B book_of_def intro: that\<close>)
  have rq: "r_qty r = curr_qty b" "r_key r = blk_key b" using r rb by simp_all
  have mc: "last_match B = match_counter e" by (simp add: B book_of_def)
  show ?thesis
  proof (cases "q < curr_qty b")
    case True
    then have v: "0 < curr_qty b - q" by (simp add: word_gt_0)
    obtain e' where "set_block (emit ms (e\<lparr>match_counter := match_counter e + 1\<rparr>)) x (b\<lparr>curr_qty := curr_qty b - q\<rparr>) = Some e'"
      and "engine_sim S e' (B\<lparr>last_match := match_counter e + 1, bids := set_qty (r_ref r) (curr_qty b - q) (bids B), asks := set_qty (r_ref r) (curr_qty b - q) (asks B)\<rparr>)"
      and "length (order_buffer e') = length (order_buffer e)" "outgoing e' = outgoing e @ ms"
      by (rule sim_requote [OF inv lv b v, of ms "match_counter e + 1", folded B r(1)]) (rule that)
    moreover have m: "min (curr_qty b) q = q" "q \<noteq> curr_qty b" using True by (auto simp: min_def)
    ultimately show ?thesis
      using that [of e'] True hd ev fills
      by (auto simp: sell_match_step_def bind_Some_iff b rq oth mc after_fill_def step_to_def emits_def)
  next
    case False
    obtain e' where "do { e \<leftarrow> Engine_unlink ((emit ms (e\<lparr>match_counter := match_counter e + 1\<rparr>))
           \<lparr>buy_orders := buy_orders e - 1, order_blocks_map := (order_blocks_map e)(r_key r := None)\<rparr>) x (best_buy_idx e);
         e \<leftarrow> Engine_deallocate e x; refresh_best_buy e } = Some e'"
      and "engine_sim S e' (B\<lparr>index := (index B)(r_key r := None), last_match := match_counter e + 1, room := Suc (room B),
        bids := drop_ref (r_ref r) (bids B), asks := drop_ref (r_ref r) (asks B)\<rparr>)"
      and "length (order_buffer e') = length (order_buffer e)" "outgoing e' = outgoing e @ ms"
      by (rule sim_take_bid [OF inv i x, of ms "match_counter e + 1", folded B r(1)]) (rule that)
    moreover have m: "min (curr_qty b) q = curr_qty b" using False by (auto simp: min_def)
    ultimately show ?thesis
      using that [of e'] False hd ev fills
      by (auto simp: sell_match_step_def bind_Some_iff b rq oth mc after_fill_def step_to_def emits_def)
  qed
qed

section \<open>The matching loops\<close>

lemma sell_guard:
  assumes "engine_sim S e B"
  shows "asks B = [] \<Longrightarrow> sell_orders e = 0"
    and "asks B = r # rs \<Longrightarrow> 0 < sell_orders e \<and> best_sell_idx e < BUFFER_SIZE e \<and> best_sell_idx e = r_price r"
proof -
  from assms obtain LB LA fs where inv: "einv S e LB LA fs" and B: "B = book_of e LB LA fs"
    by (auto simp: engine_sim_def)
  then have inv0: "einv0 S e LB LA fs" by (simp add: einv_def)
  have n: "unat (sell_orders e) = length (asks B)" using einv0_lengths(4) [OF inv0] by (simp add: B book_of_def)
  then show "sell_orders e = 0" if "asks B = []" using that by (simp add: unat_eq_0)
  show "0 < sell_orders e \<and> best_sell_idx e < BUFFER_SIZE e \<and> best_sell_idx e = r_price r" if "asks B = r # rs"
    by (rule best_ask [OF inv that [unfolded B]])
      (use n that einv0_bounds(2) [OF inv0] in
        \<open>auto simp: BUFFER_SIZE_def word_less_nat_alt unat_of_nat_small word_gt_0 unat_gt_0 unat_eq_0\<close>)
qed


lemma buy_guard:
  assumes "engine_sim S e B"
  shows "bids B = [] \<Longrightarrow> buy_orders e = 0"
    and "bids B = r # rs \<Longrightarrow> 0 < buy_orders e \<and> best_buy_idx e = r_price r \<and>
      (\<exists>l. level e (best_buy_idx e) = Some l \<and> head l \<noteq> None)"
proof -
  from assms obtain LB LA fs where inv: "einv S e LB LA fs" and B: "B = book_of e LB LA fs"
    by (auto simp: engine_sim_def)
  then have inv0: "einv0 S e LB LA fs" by (simp add: einv_def)
  have n: "unat (buy_orders e) = length (bids B)" using einv0_lengths(3) [OF inv0] by (simp add: B book_of_def)
  then show "buy_orders e = 0" if "bids B = []" using that by (simp add: unat_eq_0)
  show "0 < buy_orders e \<and> best_buy_idx e = r_price r \<and> (\<exists>l. level e (best_buy_idx e) = Some l \<and> head l \<noteq> None)"
    if "bids B = r # rs"
    by (rule best_bid [OF inv that [unfolded B]]) (use n that in \<open>auto simp: bind_Some_iff word_gt_0 unat_gt_0 unat_eq_0\<close>)
qed

text \<open>
  What the two matching loops share: they stop when there is nothing (acceptable) to trade with, and
  otherwise fill the best resting order and go on. Such a loop computes \<open>sweep\<close>.
\<close>

locale sweeping_loop =
  fixes S :: "addr set"
    and loop :: "Engine \<Rightarrow> u32 \<Rightarrow> (Engine \<times> u32) option"
    and rows :: "Book \<Rightarrow> Resting list"
    and put :: "Resting list \<Rightarrow> Book \<Rightarrow> Book"
    and ok :: "u64 \<Rightarrow> bool"
    and account urn :: u32
  assumes stop_empty: "engine_sim S e B \<Longrightarrow> rows B = [] \<Longrightarrow> loop e q = Some (e, q)"
    and stop_done: "engine_sim S e B \<Longrightarrow> rows B = r # rs \<Longrightarrow> q = 0 \<or> \<not> ok (r_price r) \<Longrightarrow> loop e q = Some (e, q)"
    and go_on: "engine_sim S e B \<Longrightarrow> rows B = r # rs \<Longrightarrow> 0 < q \<Longrightarrow> ok (r_price r) \<Longrightarrow>
      \<exists>e'. loop e q = loop e' (if q < r_qty r then 0 else q - r_qty r) \<and>
        step_to S e e' (put (after_fill r q rs) (settle [(r, min (r_qty r) q)] B))
          (fill_events account urn (last_match B) [(r, min (r_qty r) q)])"
    and put_rows [simp]: "put (rows B) B = B" "rows (put xs B) = xs" "put xs (put ys B) = put xs B"
      "settle fs (put xs B) = put xs (settle fs B)" "last_match (put xs B) = last_match B"
begin

lemma stop_zero: "engine_sim S e B \<Longrightarrow> loop e 0 = Some (e, 0)"
  by (cases "rows B") (auto simp: stop_empty stop_done)

lemma loop_sweeps:
  assumes "engine_sim S e B" "sweep ok q (rows B) = (fs, q', rs)"
  shows "\<exists>e'. loop e q = Some (e', q') \<and>
    step_to S e e' (put rs (settle fs B)) (fill_events account urn (last_match B) fs)"
  using assms
proof (induction "rows B" arbitrary: e B q fs)
  case Nil
  have "put [] B = B" unfolding Nil.hyps by simp
  then show ?case
    using stop_empty [OF Nil.prems(1)] Nil.prems by (simp add: step_to_refl flip: Nil.hyps)
next
  case (Cons r rs0)
  note rows = Cons.hyps(2) [symmetric]
  show ?case
  proof (cases "q = 0 \<or> \<not> ok (r_price r)")
    case True
    then have "fs = []" "q' = q" "rs = rows B" using Cons.prems(2) rows by auto
    then show ?thesis using stop_done [OF Cons.prems(1) rows True] Cons.prems(1) by (simp add: step_to_refl)
  next
    case go: False
    then obtain e1 where unf: "loop e q = loop e1 (if q < r_qty r then 0 else q - r_qty r)"
      and s1: "step_to S e e1 (put (after_fill r q rs0) (settle [(r, min (r_qty r) q)] B))
        (fill_events account urn (last_match B) [(r, min (r_qty r) q)])"
      using go_on [OF Cons.prems(1) rows, of q] by (auto simp: word_gt_0)
    then have sim1: "engine_sim S e1 (put (after_fill r q rs0) (settle [(r, min (r_qty r) q)] B))"
      by (simp add: step_to_def)
    show ?thesis
    proof (cases "q < r_qty r")
      case True
      then have "fs = [(r, q)]" "q' = 0" "rs = after_fill r q rs0" "min (r_qty r) q = q"
        using Cons.prems(2) rows go by (auto simp: after_fill_def min_def)
      then show ?thesis using unf s1 True stop_zero [OF sim1] by auto
    next
      case False
      then have m: "min (r_qty r) q = r_qty r" "after_fill r q rs0 = rs0" by (auto simp: min_def after_fill_def)
      obtain fs1 where sw: "sweep ok (q - r_qty r) rs0 = (fs1, q', rs)" and fs: "fs = (r, r_qty r) # fs1"
        using Cons.prems(2) rows go False by (auto split: prod.splits)
      obtain e2 where l2: "loop e1 (q - r_qty r) = Some (e2, q')"
        and s2: "step_to S e1 e2 (put rs (settle fs1 (settle [(r, r_qty r)] B)))
          (fill_events account urn (last_match B + 1) fs1)"
        using Cons.hyps(1) [OF _ sim1, of "q - r_qty r" fs1] sw by (auto simp: m)
      show ?thesis using l2 unf False step_to_trans [OF s1 s2] by (simp add: fs m)
    qed
  qed
qed

end

interpretation buy_loop: sweeping_loop S "buy_match_loop clk account order" asks "\<lambda>xs B. B\<lparr>asks := xs\<rparr>"
  "\<lambda>p. p \<le> EnterRequestView_Price order" account "EnterRequestView_UserRefNum order" for S clk account order
proof unfold_locales
  fix e B r rs and q :: u32
  assume sim: "engine_sim S e B" and rows: "asks B = r # rs" and q: "0 < q"
    and ok: "r_price r \<le> EnterRequestView_Price order"
  obtain e1 where st: "buy_match_step clk account order e q = Some (e1, if q < r_qty r then 0 else q - r_qty r)"
    and s1: "step_to S e e1 ((settle [(r, min (r_qty r) q)] B)\<lparr>asks := after_fill r q rs\<rparr>)
      (fill_events account (EnterRequestView_UserRefNum order) (last_match B) [(r, min (r_qty r) q)])"
    by (rule buy_match_step_ok [OF sim rows q]) (rule that)
  have "buy_match_loop clk account order e q = buy_match_loop clk account order e1 (if q < r_qty r then 0 else q - r_qty r)"
    using sell_guard(2) [OF sim rows] ok q st by (subst buy_match_loop.simps) auto
  then show "\<exists>e'. buy_match_loop clk account order e q = buy_match_loop clk account order e' (if q < r_qty r then 0 else q - r_qty r) \<and>
      step_to S e e' ((settle [(r, min (r_qty r) q)] B)\<lparr>asks := after_fill r q rs\<rparr>)
        (fill_events account (EnterRequestView_UserRefNum order) (last_match B) [(r, min (r_qty r) q)])"
    using s1 by blast
qed (use sell_guard in \<open>auto simp: buy_match_loop.simps\<close>)

interpretation sell_loop: sweeping_loop S "sell_match_loop clk account order limit" bids "\<lambda>xs B. B\<lparr>bids := xs\<rparr>"
  "\<lambda>p. limit \<le> p" account "EnterRequestView_UserRefNum order" for S clk account order limit
proof unfold_locales
  fix e B r rs and q :: u32
  assume sim: "engine_sim S e B" and rows: "bids B = r # rs"
  note guard = buy_guard(2) [OF sim rows]
  show "sell_match_loop clk account order limit e q = Some (e, q)" if "q = 0 \<or> \<not> limit \<le> r_price r"
    using guard that by (subst sell_match_loop.simps) auto
  assume q: "0 < q" and ok: "limit \<le> r_price r"
  obtain e1 where st: "sell_match_step clk account order e q = Some (e1, if q < r_qty r then 0 else q - r_qty r)"
    and s1: "step_to S e e1 ((settle [(r, min (r_qty r) q)] B)\<lparr>bids := after_fill r q rs\<rparr>)
      (fill_events account (EnterRequestView_UserRefNum order) (last_match B) [(r, min (r_qty r) q)])"
    by (rule sell_match_step_ok [OF sim rows q]) (rule that)
  have "sell_match_loop clk account order limit e q =
      sell_match_loop clk account order limit e1 (if q < r_qty r then 0 else q - r_qty r)"
    using guard ok q st by (subst sell_match_loop.simps) auto
  then show "\<exists>e'. sell_match_loop clk account order limit e q =
        sell_match_loop clk account order limit e' (if q < r_qty r then 0 else q - r_qty r) \<and>
      step_to S e e' ((settle [(r, min (r_qty r) q)] B)\<lparr>bids := after_fill r q rs\<rparr>)
        (fill_events account (EnterRequestView_UserRefNum order) (last_match B) [(r, min (r_qty r) q)])"
    using s1 by blast
qed (use buy_guard(1) in \<open>auto simp: sell_match_loop.simps\<close>)


section \<open>Entering an order\<close>

definition fresh_ref :: "Book \<Rightarrow> bool" where
  "fresh_ref B \<longleftrightarrow> last_ref B \<notin> r_ref ` set (bids B @ asks B)"

lemma sim_counter:
  assumes sim: "engine_sim S e B" and c: "unat (counter e) + 1 < 2 ^ 64"
  shows "engine_sim S (e\<lparr>counter := counter e + 1\<rparr>) (B\<lparr>last_ref := last_ref B + 1\<rparr>)"
    and "fresh_ref (B\<lparr>last_ref := last_ref B + 1\<rparr>)" "last_ref B = counter e"
proof -
  from sim obtain LB LA fs where inv: "einv S e LB LA fs" and B: "B = book_of e LB LA fs"
    by (auto simp: engine_sim_def)
  then have inv0: "einv0 S e LB LA fs" by (simp add: einv_def)
  let ?e = "e\<lparr>counter := counter e + 1\<rparr>" and ?n = "length (order_buffer e)"
  have u: "unat (counter e + 1) = Suc (unat (counter e))"
    using c by (simp add: unat_word_ariths take_bit_nat_eq_self)
  have r: "res ?e = res e" by (rule res_frame) simp
  have "idx_ok ?e (live ?n LB LA)" using einv0_idx [OF inv0] by (auto simp: idx_ok_def r u)
  then have "einv0 S ?e LB LA fs" using inv0 by (simp add: einv0_def ok_block_def Let_def)
  then have "einv S ?e LB LA fs" using inv by (simp add: einv_def)
  then show "engine_sim S ?e (B\<lparr>last_ref := last_ref B + 1\<rparr>)"
    by (rule engine_simI) (simp add: B book_of_def r)
  have "counter e + 1 \<notin> (\<lambda>a. r_ref (res e a)) ` live ?n LB LA"
    using einv0_refs [OF inv0] u by fastforce
  then show "fresh_ref (B\<lparr>last_ref := last_ref B + 1\<rparr>)"
    by (simp add: fresh_ref_def B book_of_def live_def image_Un image_image)
  show "last_ref B = counter e" by (simp add: B book_of_def)
qed

lemma raw_copy:
  assumes "EnterRequestView_WIRE_SIZE \<le> length v"
  shows "EnterRequestView_Price (read_at 0 EnterRequestView_WIRE_SIZE (EnterRequestView_data v)) = EnterRequestView_Price v"
    and "EnterRequestView_Side (read_at 0 EnterRequestView_WIRE_SIZE (EnterRequestView_data v)) = EnterRequestView_Side v"
  using enter_view_append(2,5) [of "take EnterRequestView_WIRE_SIZE v" "drop EnterRequestView_WIRE_SIZE v"] assms
  by (simp_all add: read_at_def EnterRequestView_data_def)

text \<open>No slot is left exactly when the abstract book has no room.\<close>

lemma sim_allocate:
  assumes "einv S e LB LA fs"
  shows "fs = [] \<Longrightarrow> allocate (allocator e) = Some (allocator e, None)"
    and "fs \<noteq> [] \<Longrightarrow> \<exists>A. allocate (allocator e) = Some (A, Some (hd fs))"
proof -
  have rep: "pool_rep S (allocator e) fs"
    using assms core_pool [OF einv0_core] unfolding einv_def by blast
  show "allocate (allocator e) = Some (allocator e, None)" if "fs = []"
    using pool.alloc_empty rep that by blast
  show "\<exists>A. allocate (allocator e) = Some (A, Some (hd fs))" if "fs \<noteq> []"
    using pool.alloc_front [of S _ "hd fs" "tl fs"] rep that by auto
qed

lemma sim_refs_live:
  assumes "B = book_of e LB LA fs" "fresh_ref B" "a \<in> live (length (order_buffer e)) LB LA"
  shows "r_ref (res e a) \<noteq> counter e"
  using assms by (force simp: fresh_ref_def book_of_def live_def)

lemma no_ask_below:
  assumes inv: "einv S e LB LA fs" and i: "i < length (order_buffer e)"
    and hd: "asks (book_of e LB LA fs) = [] \<or> (\<exists>r rs. asks (book_of e LB LA fs) = r # rs \<and> i < unat (r_price r))"
    and j: "j \<le> i"
  shows "LA j = []"
  using hd
proof
  assume "asks (book_of e LB LA fs) = []"
  then show ?thesis using i j by (simp add: book_of_def ask_ptrs_Nil)
next
  assume "\<exists>r rs. asks (book_of e LB LA fs) = r # rs \<and> i < unat (r_price r)"
  then obtain r rs where r: "asks (book_of e LB LA fs) = r # rs" "i < unat (r_price r)" by blast
  have "r_price r = best_sell_idx e" by (rule best_ask [OF inv r(1)])
  then show ?thesis using inv r(2) j by (simp add: einv_def best_ask_ok_def)
qed

lemma no_bid_above:
  assumes inv: "einv S e LB LA fs"
    and hd: "bids (book_of e LB LA fs) = [] \<or> (\<exists>r rs. bids (book_of e LB LA fs) = r # rs \<and> unat (r_price r) < i)"
    and j: "i \<le> j" "j < length (order_buffer e)"
  shows "LB j = []"
  using hd
proof
  assume "bids (book_of e LB LA fs) = []"
  then show ?thesis using j by (simp add: book_of_def bid_ptrs_Nil)
next
  assume "\<exists>r rs. bids (book_of e LB LA fs) = r # rs \<and> unat (r_price r) < i"
  then obtain r rs where r: "bids (book_of e LB LA fs) = r # rs" "unat (r_price r) < i" by blast
  have "r_price r = best_buy_idx e" by (rule best_bid [OF inv r(1)])
  then show ?thesis using inv r(2) j by (simp add: einv_def best_bid_ok_def)
qed


text \<open>Resting what is left of an order, or cancelling it when the pool is exhausted.\<close>

definition rest_or_cancel :: "Order \<Rightarrow> u32 \<Rightarrow> Book \<Rightarrow> Book \<times> u64 \<times> Event list" where
  "rest_or_cancel ord q B =
     (if room B = 0 then (B, 0, [Canceled (o_account ord) (o_urn ord) q 90])
      else (rest_order ord q B, last_ref B, []))"

definition order_ok :: "byte list \<Rightarrow> Engine \<Rightarrow> bool" where
  "order_ok v e \<longleftrightarrow> EnterRequestView_WIRE_SIZE \<le> length v \<and>
     (EnterRequestView_Price v = MARKETPRICE \<or> unat (EnterRequestView_Price v) < length (order_buffer e))"

lemma rest_buy_ok:
  assumes sim: "engine_sim S e B" and fr: "fresh_ref B" and q: "0 < q" and side: "EnterRequestView_Side v = SideEnum_B"
    and ok: "order_ok v e" "EnterRequestView_Price v \<noteq> MARKETPRICE"
    and hd: "asks B = [] \<or> (\<exists>r rs. asks B = r # rs \<and> \<not> r_price r \<le> EnterRequestView_Price v)"
    and spec: "rest_or_cancel (order_of account v) q B = (B', w, evs)" and ref: "ref_num = counter e"
  obtains e' where
    "do {
       (A, new_block) \<leftarrow> allocate (allocator e);
       let e = e\<lparr>allocator := A\<rparr>;
       case new_block of
         None \<Rightarrow> Some (send_cancelled clk account (EnterRequestView_UserRefNum v) q 90 e, 0)
       | Some block \<Rightarrow> do {
           let e = (if best_buy_idx e < EnterRequestView_Price v
                    then e\<lparr>best_buy_idx := EnterRequestView_Price v\<rparr> else e);
           let key = order_key account (EnterRequestView_UserRefNum v);
           let e = e\<lparr>buy_orders := buy_orders e + 1\<rparr>;
           e \<leftarrow> set_block e block
             \<lparr>raw = read_at 0 EnterRequestView_WIRE_SIZE (EnterRequestView_data v),
              curr_qty = q, blk_id = ref_num, blk_key = key, blk_prev = None, blk_next = None\<rparr>;
           e \<leftarrow> append_list e block (EnterRequestView_Price v);
           let e = e\<lparr>order_blocks_map := (order_blocks_map e)(key \<mapsto> block)\<rparr>;
           Some (e, ref_num) } } = Some (e', w)"
    and "step_to S e e' B' evs"
proof -
  from sim obtain LB LA fs where inv: "einv S e LB LA fs" and B: "B = book_of e LB LA fs"
    by (auto simp: engine_sim_def)
  let ?p = "EnterRequestView_Price v" and ?key = "order_key account (EnterRequestView_UserRefNum v)"
  let ?b = "\<lparr>raw = read_at 0 EnterRequestView_WIRE_SIZE (EnterRequestView_data v),
              curr_qty = q, blk_id = counter e, blk_key = ?key, blk_prev = None, blk_next = None\<rparr>"
  have i: "unat ?p < length (order_buffer e)" and len: "EnterRequestView_WIRE_SIZE \<le> length v"
    using ok by (auto simp: order_ok_def)
  show ?thesis
  proof (cases fs)
    case Nil
    obtain m where m: "send_cancelled clk account (EnterRequestView_UserRefNum v) q 90 e = emit [m] e"
      "event_of m = Some (Canceled account (EnterRequestView_UserRefNum v) q 90)"
      by (rule send_cancelled_emit) (rule that)
    have "B' = B" "w = 0" "evs = [Canceled account (EnterRequestView_UserRefNum v) q 90]"
      using spec Nil by (auto simp: rest_or_cancel_def B book_of_def order_of_def)
    then show ?thesis
      using that [of "emit [m] e"] sim_allocate(1) [OF inv Nil] sim m
      by (simp add: step_to_emit events_of_def)
  next
    case (Cons x gs)
    obtain A where al: "allocate (allocator e) = Some (A, Some x)" using sim_allocate(2) [OF inv] Cons by auto
    have above: "LA j = []" if "j \<le> unat ?p" for j
      by (rule no_ask_below [OF inv i _ that]) (use hd in \<open>auto simp: B word_le_nat_alt\<close>)
    obtain A' buf' e1 LB' where set: "\<And>e0. allocator e0 = A \<Longrightarrow> order_buffer e0 = order_buffer e \<Longrightarrow>
         do { e \<leftarrow> set_block e0 x ?b; append_list e x ?p } = Some (e0\<lparr>allocator := A', order_buffer := buf'\<rparr>)"
      and len': "length buf' = length (order_buffer e)"
      and e1: "e1 = e\<lparr>allocator := A', order_buffer := buf', order_blocks_map := (order_blocks_map e)(blk_key ?b \<mapsto> x),
           buy_orders := buy_orders e + 1, best_buy_idx := (if best_buy_idx e < ?p then ?p else best_buy_idx e)\<rparr>"
      and inv1: "einv S e1 LB' LA (tl fs)"
      and B1: "book_of e1 LB' LA (tl fs) = B\<lparr>bids := insert_sorted (\<lambda>p. ?p \<le> p)
           \<lparr>r_key = blk_key ?b, r_ref = counter e, r_price = ?p, r_qty = curr_qty ?b\<rparr> (bids B),
         index := (index B)(blk_key ?b \<mapsto> counter e), room := room B - 1\<rparr>"
      by (rule einv_add_bid [OF inv al refl i, of ?b, folded B])
        (use raw_copy [OF len] side q sim_refs_live [OF B fr] above in \<open>auto intro: that\<close>)
    have Bs: "room B \<noteq> 0" "last_ref B = counter e" by (simp_all add: B book_of_def Cons)
    have "B' = book_of e1 LB' LA (tl fs)" "w = counter e" "evs = []"
      using spec side Bs by (auto simp: rest_or_cancel_def B1 rest_order_def order_of_def Let_def)
    moreover have "engine_sim S e1 (book_of e1 LB' LA (tl fs))" by (rule engine_simI [OF inv1 refl])
    ultimately have "step_to S e e1 B' evs" "w = counter e" by (simp_all add: step_to_def e1 len' emits_refl)
    then show ?thesis
      using set [of "e\<lparr>allocator := A, best_buy_idx := ?p, buy_orders := buy_orders e + 1\<rparr>"]
        set [of "e\<lparr>allocator := A, buy_orders := buy_orders e + 1\<rparr>"]
      by - (rule that [of e1]; auto simp: al e1 bind_Some_iff Let_def ref)
  qed
qed

lemma rest_sell_ok:
  assumes sim: "engine_sim S e B" and fr: "fresh_ref B" and q: "0 < q" and side: "EnterRequestView_Side v = SideEnum_S"
    and ok: "order_ok v e" "EnterRequestView_Price v \<noteq> MARKETPRICE"
    and hd: "bids B = [] \<or> (\<exists>r rs. bids B = r # rs \<and> \<not> EnterRequestView_Price v \<le> r_price r)"
    and spec: "rest_or_cancel (order_of account v) q B = (B', w, evs)" and ref: "ref_num = counter e"
  obtains e' where
    "do {
       (A, new_block) \<leftarrow> allocate (allocator e);
       let e = e\<lparr>allocator := A\<rparr>;
       case new_block of
         None \<Rightarrow> Some (send_cancelled clk account (EnterRequestView_UserRefNum v) q 90 e, 0)
       | Some block \<Rightarrow> do {
           let e = (if EnterRequestView_Price v < best_sell_idx e
                    then e\<lparr>best_sell_idx := EnterRequestView_Price v\<rparr> else e);
           let key = order_key account (EnterRequestView_UserRefNum v);
           let e = e\<lparr>sell_orders := sell_orders e + 1\<rparr>;
           e \<leftarrow> set_block e block
             \<lparr>raw = read_at 0 EnterRequestView_WIRE_SIZE (EnterRequestView_data v),
              curr_qty = q, blk_id = ref_num, blk_key = key, blk_prev = None, blk_next = None\<rparr>;
           e \<leftarrow> append_list e block (EnterRequestView_Price v);
           let e = e\<lparr>order_blocks_map := (order_blocks_map e)(key \<mapsto> block)\<rparr>;
           Some (e, ref_num) } } = Some (e', w)"
    and "step_to S e e' B' evs"
proof -
  from sim obtain LB LA fs where inv: "einv S e LB LA fs" and B: "B = book_of e LB LA fs"
    by (auto simp: engine_sim_def)
  let ?p = "EnterRequestView_Price v" and ?key = "order_key account (EnterRequestView_UserRefNum v)"
  let ?b = "\<lparr>raw = read_at 0 EnterRequestView_WIRE_SIZE (EnterRequestView_data v),
              curr_qty = q, blk_id = counter e, blk_key = ?key, blk_prev = None, blk_next = None\<rparr>"
  have i: "unat ?p < length (order_buffer e)" and len: "EnterRequestView_WIRE_SIZE \<le> length v"
    using ok by (auto simp: order_ok_def)
  show ?thesis
  proof (cases fs)
    case Nil
    obtain m where m: "send_cancelled clk account (EnterRequestView_UserRefNum v) q 90 e = emit [m] e"
      "event_of m = Some (Canceled account (EnterRequestView_UserRefNum v) q 90)"
      by (rule send_cancelled_emit) (rule that)
    have "B' = B" "w = 0" "evs = [Canceled account (EnterRequestView_UserRefNum v) q 90]"
      using spec Nil by (auto simp: rest_or_cancel_def B book_of_def order_of_def)
    then show ?thesis
      using that [of "emit [m] e"] sim_allocate(1) [OF inv Nil] sim m
      by (simp add: step_to_emit events_of_def)
  next
    case (Cons x gs)
    obtain A where al: "allocate (allocator e) = Some (A, Some x)" using sim_allocate(2) [OF inv] Cons by auto
    have below: "LB j = []" if "unat ?p \<le> j" "j < length (order_buffer e)" for j
      by (rule no_bid_above [OF inv _ that]) (use hd in \<open>auto simp: B word_le_nat_alt\<close>)
    obtain A' buf' e1 LA' where set: "\<And>e0. allocator e0 = A \<Longrightarrow> order_buffer e0 = order_buffer e \<Longrightarrow>
         do { e \<leftarrow> set_block e0 x ?b; append_list e x ?p } = Some (e0\<lparr>allocator := A', order_buffer := buf'\<rparr>)"
      and len': "length buf' = length (order_buffer e)"
      and e1: "e1 = e\<lparr>allocator := A', order_buffer := buf', order_blocks_map := (order_blocks_map e)(blk_key ?b \<mapsto> x),
           sell_orders := sell_orders e + 1, best_sell_idx := (if ?p < best_sell_idx e then ?p else best_sell_idx e)\<rparr>"
      and inv1: "einv S e1 LB LA' (tl fs)"
      and B1: "book_of e1 LB LA' (tl fs) = B\<lparr>asks := insert_sorted (\<lambda>p. p \<le> ?p)
           \<lparr>r_key = blk_key ?b, r_ref = counter e, r_price = ?p, r_qty = curr_qty ?b\<rparr> (asks B),
         index := (index B)(blk_key ?b \<mapsto> counter e), room := room B - 1\<rparr>"
      by (rule einv_add_ask [OF inv al refl i, of ?b, folded B])
        (use raw_copy [OF len] side q sim_refs_live [OF B fr] below in \<open>auto intro: that\<close>)
    have Bs: "room B \<noteq> 0" "last_ref B = counter e" by (simp_all add: B book_of_def Cons)
    have "B' = book_of e1 LB LA' (tl fs)" "w = counter e" "evs = []"
      using spec side Bs by (auto simp: rest_or_cancel_def B1 rest_order_def order_of_def Let_def SideEnum_B_def SideEnum_S_def)
    moreover have "engine_sim S e1 (book_of e1 LB LA' (tl fs))" by (rule engine_simI [OF inv1 refl])
    ultimately have "step_to S e e1 B' evs" "w = counter e" by (simp_all add: step_to_def e1 len' emits_refl)
    then show ?thesis
      using set [of "e\<lparr>allocator := A, best_sell_idx := ?p, sell_orders := sell_orders e + 1\<rparr>"]
        set [of "e\<lparr>allocator := A, sell_orders := sell_orders e + 1\<rparr>"]
      by - (rule that [of e1]; auto simp: al e1 bind_Some_iff Let_def ref)
  qed
qed

lemma insert_buy_order_ok:
  assumes sim: "engine_sim S e B" and c: "unat (counter e) + 1 < 2 ^ 64"
    and side: "EnterRequestView_Side v = SideEnum_B" and ok: "order_ok v e"
    and spec: "enter_order (order_of account v) B = (B', w, evs)"
  shows "\<exists>e'. insert_buy_order clk account v e = Some (e', w) \<and> step_to S e e' B' evs"
proof -
  let ?urn = "EnterRequestView_UserRefNum v" and ?p = "EnterRequestView_Price v"
  let ?e0 = "e\<lparr>counter := counter e + 1\<rparr>" and ?B0 = "B\<lparr>last_ref := last_ref B + 1\<rparr>"
  note sim0 = sim_counter [OF sim c]
  obtain m where acc: "send_accepted clk account v (counter e + 1) ?e0 = emit [m] ?e0"
    and ev: "event_of m = Some (Accepted account ?urn SideEnum_B (EnterRequestView_Quantity v) ?p (counter e + 1))"
    by (rule send_accepted_emit [of clk account v "counter e + 1" ?e0]) (use side in \<open>auto intro: that\<close>)
  obtain fs q rs where sw: "sweep (\<lambda>p. p \<le> ?p) (EnterRequestView_Quantity v) (asks ?B0) = (fs, q, rs)"
    by (metis prod_cases3)
  let ?B2 = "(settle fs ?B0)\<lparr>asks := rs\<rparr>" and ?fills = "fill_events account ?urn (last_match B) fs"
  have "engine_sim S (emit [m] ?e0) ?B0" using sim0(1) by simp
  from buy_loop.loop_sweeps [OF this sw] obtain e2 where
    loop: "buy_match_loop clk account v (emit [m] ?e0) (EnterRequestView_Quantity v) = Some (e2, q)"
    and s2: "step_to S (emit [m] ?e0) e2 ?B2 ?fills" by auto
  define acc_ev where "acc_ev = Accepted account ?urn SideEnum_B (EnterRequestView_Quantity v) ?p (counter e + 1)"
  have "step_to S e (emit [m] ?e0) ?B0 [acc_ev]"
    by (rule step_to_emit) (use sim0 ev in \<open>simp_all add: events_of_def acc_ev_def\<close>)
  from step_to_trans [OF this s2] have st: "step_to S e e2 ?B2 (acc_ev # ?fills)" by simp
  have sim2: "engine_sim S e2 ?B2" and n2: "length (order_buffer e2) = length (order_buffer e)"
    using st by (auto simp: step_to_def)
  have cnt: "counter e2 = counter e + 1" using sim_last_ref [OF sim2] sim0(3) by simp
  have fr2: "fresh_ref ?B2" using sim0(2) sweep_refs [OF sw] by (auto simp: fresh_ref_def)
  have spec': "(B', w, evs) = (if q = 0 then (?B2, 0, acc_ev # ?fills)
      else if ?p = MARKETPRICE then (?B2, 0, (acc_ev # ?fills) @ [Canceled account ?urn q 73])
      else case rest_or_cancel (order_of account v) q ?B2 of (B', w, es) \<Rightarrow> (B', w, (acc_ev # ?fills) @ es))"
    using spec sw side sim0(3)
    by (auto simp: enter_order_def match_order_def order_of_def rest_or_cancel_def acc_ev_def Let_def split: if_splits)
  consider (full) "q = 0" | (market) "0 < q" "q \<noteq> 0" "?p = MARKETPRICE" | (rest) "0 < q" "q \<noteq> 0" "?p \<noteq> MARKETPRICE"
    by (auto simp: word_gt_0)
  then show ?thesis
  proof cases
    case full
    then show ?thesis using spec' st acc loop by (simp add: insert_buy_order_def)
  next
    case market
    obtain m' where m': "send_cancelled clk account ?urn q 73 e2 = emit [m'] e2"
      "event_of m' = Some (Canceled account ?urn q 73)"
      by (rule send_cancelled_emit) (rule that)
    have "step_to S e2 (emit [m'] e2) ?B2 [Canceled account ?urn q 73]"
      by (rule step_to_emit) (use sim2 m' in \<open>simp_all add: events_of_def\<close>)
    from step_to_trans [OF st this] show ?thesis
      using market spec' acc loop m' by (simp add: insert_buy_order_def)
  next
    case rest
    obtain es where rc: "rest_or_cancel (order_of account v) q ?B2 = (B', w, es)" and evs: "evs = (acc_ev # ?fills) @ es"
      using spec' rest by (auto split: prod.splits)
    have hd: "asks ?B2 = [] \<or> (\<exists>r rs. asks ?B2 = r # rs \<and> \<not> r_price r \<le> ?p)"
      using sweep_stops [OF sw] rest(2) by auto
    have ok2: "order_ok v e2" using ok n2 by (simp add: order_ok_def)
    show ?thesis
    proof (rule rest_buy_ok [OF sim2 fr2 rest(1) side ok2 rest(3) hd rc cnt [symmetric], of clk], goal_cases)
      case (1 e')
      then show ?case
        using step_to_trans [OF st 1(2)] rest acc loop by (simp add: insert_buy_order_def evs)
    qed
  qed
qed

lemma insert_sell_order_ok:
  assumes sim: "engine_sim S e B" and c: "unat (counter e) + 1 < 2 ^ 64"
    and side: "EnterRequestView_Side v = SideEnum_S" and ok: "order_ok v e"
    and spec: "enter_order (order_of account v) B = (B', w, evs)"
  shows "\<exists>e'. insert_sell_order clk account v e = Some (e', w) \<and> step_to S e e' B' evs"
proof -
  let ?urn = "EnterRequestView_UserRefNum v" and ?p = "EnterRequestView_Price v"
  define limit where "limit = (if ?p = MARKETPRICE then 0 else ?p)"
  let ?e0 = "e\<lparr>counter := counter e + 1\<rparr>" and ?B0 = "B\<lparr>last_ref := last_ref B + 1\<rparr>"
  note sim0 = sim_counter [OF sim c]
  obtain m where acc: "send_accepted clk account v (counter e + 1) ?e0 = emit [m] ?e0"
    and ev: "event_of m = Some (Accepted account ?urn SideEnum_S (EnterRequestView_Quantity v) ?p (counter e + 1))"
    by (rule send_accepted_emit [of clk account v "counter e + 1" ?e0]) (use side in \<open>auto intro: that\<close>)
  obtain fs q rs where sw: "sweep (\<lambda>p. limit \<le> p) (EnterRequestView_Quantity v) (bids ?B0) = (fs, q, rs)"
    by (metis prod_cases3)
  let ?B2 = "(settle fs ?B0)\<lparr>bids := rs\<rparr>" and ?fills = "fill_events account ?urn (last_match B) fs"
  have "engine_sim S (emit [m] ?e0) ?B0" using sim0(1) by simp
  from sell_loop.loop_sweeps [OF this sw, of clk account v] obtain e2 where
    loop: "sell_match_loop clk account v limit (emit [m] ?e0) (EnterRequestView_Quantity v) = Some (e2, q)"
    and s2: "step_to S (emit [m] ?e0) e2 ?B2 ?fills" by auto
  define acc_ev where "acc_ev = Accepted account ?urn SideEnum_S (EnterRequestView_Quantity v) ?p (counter e + 1)"
  have "step_to S e (emit [m] ?e0) ?B0 [acc_ev]"
    by (rule step_to_emit) (use sim0 ev in \<open>simp_all add: events_of_def acc_ev_def\<close>)
  from step_to_trans [OF this s2] have st: "step_to S e e2 ?B2 (acc_ev # ?fills)" by simp
  have sim2: "engine_sim S e2 ?B2" and n2: "length (order_buffer e2) = length (order_buffer e)"
    using st by (auto simp: step_to_def)
  have cnt: "counter e2 = counter e + 1" using sim_last_ref [OF sim2] sim0(3) by simp
  have fr2: "fresh_ref ?B2" using sim0(2) sweep_refs [OF sw] by (auto simp: fresh_ref_def)
  have "SideEnum_S \<noteq> SideEnum_B" by (simp add: SideEnum_B_def SideEnum_S_def)
  then have mo: "match_order (order_of account v) ?B0 = (?fills, q, ?B2)"
    using sw side by (simp add: match_order_def order_of_def Let_def flip: limit_def split del: if_split cong: if_cong)
  have spec': "(B', w, evs) = (if q = 0 then (?B2, 0, acc_ev # ?fills)
      else if ?p = MARKETPRICE then (?B2, 0, (acc_ev # ?fills) @ [Canceled account ?urn q 73])
      else case rest_or_cancel (order_of account v) q ?B2 of (B', w, es) \<Rightarrow> (B', w, (acc_ev # ?fills) @ es))"
    using spec mo side sim0(3)
    by (auto simp: enter_order_def rest_or_cancel_def acc_ev_def Let_def order_of_def split: if_splits)
  consider (full) "q = 0" | (market) "0 < q" "q \<noteq> 0" "?p = MARKETPRICE" | (rest) "0 < q" "q \<noteq> 0" "?p \<noteq> MARKETPRICE"
    by (auto simp: word_gt_0)
  then show ?thesis
  proof cases
    case full
    then show ?thesis using spec' st acc loop by (simp add: insert_sell_order_def flip: limit_def)
  next
    case market
    obtain m' where m': "send_cancelled clk account ?urn q 73 e2 = emit [m'] e2"
      "event_of m' = Some (Canceled account ?urn q 73)"
      by (rule send_cancelled_emit) (rule that)
    have "step_to S e2 (emit [m'] e2) ?B2 [Canceled account ?urn q 73]"
      by (rule step_to_emit) (use sim2 m' in \<open>simp_all add: events_of_def\<close>)
    from step_to_trans [OF st this] show ?thesis
      using market spec' acc loop m' limit_def by (simp add: insert_sell_order_def)
  next
    case rest
    obtain es where rc: "rest_or_cancel (order_of account v) q ?B2 = (B', w, es)" and evs: "evs = (acc_ev # ?fills) @ es"
      using spec' rest by (auto split: prod.splits)
    have hd: "bids ?B2 = [] \<or> (\<exists>r rs. bids ?B2 = r # rs \<and> \<not> ?p \<le> r_price r)"
      using sweep_stops [OF sw] rest(2,3) by (auto simp: limit_def)
    have ok2: "order_ok v e2" using ok n2 by (simp add: order_ok_def)
    show ?thesis
    proof (rule rest_sell_ok [OF sim2 fr2 rest(1) side ok2 rest(3) hd rc cnt [symmetric], of clk], goal_cases)
      case (1 e')
      then show ?case
        using step_to_trans [OF st 1(2)] rest acc loop limit_def by (simp add: insert_sell_order_def evs)
    qed
  qed
qed

text \<open>The two sides that trade, and the sides that do not.\<close>

lemma insert_order_ok:
  assumes sim: "engine_sim S e B" and c: "unat (counter e) + 1 < 2 ^ 64" and ok: "order_ok v e"
    and side: "EnterRequestView_Side v \<in> {SideEnum_B, SideEnum_S}"
    and spec: "enter_order (order_of account v) B = (B', w, evs)"
  shows "\<exists>e'. insert_order clk account v e = Some (Inr (e', w)) \<and> step_to S e e' B' evs"
proof (cases "EnterRequestView_Side v = SideEnum_B")
  case True
  then show ?thesis
    using insert_buy_order_ok [OF sim c _ ok spec, of clk] by (auto simp: insert_order_def)
next
  case False
  then have "EnterRequestView_Side v = SideEnum_S" "SideEnum_S \<noteq> SideEnum_B" using side by auto
  then show ?thesis
    using insert_sell_order_ok [OF sim c _ ok spec, of clk] by (auto simp: insert_order_def)
qed


section \<open>Cancelling an order\<close>

text \<open>The part of \<open>cancel_order\<close> that takes an order out of the book.\<close>

definition remove_order :: "bool \<Rightarrow> addr \<Rightarrow> u64 \<Rightarrow> u64 \<Rightarrow> Engine \<Rightarrow> Engine option" where
  "remove_order is_buy block idx key e = do {
     let e = e\<lparr>order_blocks_map := (order_blocks_map e)(key := None)\<rparr>;
     e \<leftarrow> Engine_unlink e block idx;
     e \<leftarrow> Engine_deallocate e block;
     let e = e\<lparr>sell_orders := sell_orders e - (if is_buy then 0 else 1),
               buy_orders := buy_orders e - (if is_buy then 1 else 0)\<rparr>;
     l \<leftarrow> level e idx;
     (if head l = None
      then if is_buy \<and> idx = best_buy_idx e then refresh_best_buy e
           else if \<not> is_buy \<and> idx = best_sell_idx e then Some (refresh_best_sell e)
           else Some e
      else Some e)
   }"

lemma sim_cancel_ask:
  assumes inv: "einv S e LB LA fs" and i: "unat idx < length (order_buffer e)" and x: "x \<in> set (LA (unat idx))"
  defines "B \<equiv> book_of e LB LA fs" and "r \<equiv> res e x"
  obtains e' where "remove_order False x idx (r_key r) e = Some e'"
    and "step_to S e e' (B\<lparr>bids := drop_ref (r_ref r) (bids B), asks := drop_ref (r_ref r) (asks B),
        index := (index B)(r_key r := None), room := Suc (room B)\<rparr>) []"
proof -
  let ?n = "length (order_buffer e)" and ?cur = "unat (best_sell_idx e)"
  have inv0: "einv0 S e LB LA fs" and best: "best_ask_ok ?n LA ?cur" "best_bid_ok ?n LB (unat (best_buy_idx e))"
    using inv by (simp_all add: einv_def)
  obtain as bs where abs: "LA (unat idx) = as @ x # bs" using x by (auto simp: in_set_conv_decomp)
  let ?LA = "LA(unat idx := as @ bs)"
  obtain A' buf' e1 where un: "\<And>e0. allocator e0 = allocator e \<Longrightarrow> order_buffer e0 = order_buffer e \<Longrightarrow>
       do { e \<leftarrow> Engine_unlink e0 x idx; Engine_deallocate e x } = Some (e0\<lparr>allocator := A', order_buffer := buf'\<rparr>)"
    and len: "length buf' = ?n"
    and e1: "e1 = e\<lparr>allocator := A', order_buffer := buf',
           order_blocks_map := (order_blocks_map e)(r_key r := None), sell_orders := sell_orders e - 1\<rparr>"
    and inv1: "einv0 S e1 LB ?LA (x # fs)"
    and B1: "book_of e1 LB ?LA (x # fs) = B\<lparr>bids := drop_ref (r_ref r) (bids B), asks := drop_ref (r_ref r) (asks B),
        index := (index B)(r_key r := None), room := Suc (room B)\<rparr>"
    by (rule einv0_remove_ask [OF inv0 refl i abs, folded B_def r_def]) (rule that)
  have fields: "best_sell_idx e1 = best_sell_idx e" "best_buy_idx e1 = best_buy_idx e" "length (order_buffer e1) = ?n"
    "outgoing e1 = outgoing e" by (simp_all add: e1 len)
  have hd: "level e1 idx = Some (order_buffer e1 ! unat idx)" "head (order_buffer e1 ! unat idx) = head_opt (as @ bs)"
    using core_head [OF einv0_core [OF inv1]] i one_sided [OF inv0 i] abs by (auto simp: level_def fields)
  obtain a where un': "Engine_unlink (e\<lparr>order_blocks_map := (order_blocks_map e)(r_key r := None)\<rparr>) x idx = Some a"
    "Engine_deallocate a x = Some (e\<lparr>order_blocks_map := (order_blocks_map e)(r_key r := None), allocator := A', order_buffer := buf'\<rparr>)"
    using un [of "e\<lparr>order_blocks_map := (order_blocks_map e)(r_key r := None)\<rparr>"] by (auto simp: bind_Some_iff)
  have comm: "e\<lparr>order_blocks_map := (order_blocks_map e)(r_key r := None), allocator := A', order_buffer := buf',
      sell_orders := sell_orders e - 1\<rparr> = e1" by (simp add: e1)
  have run: "remove_order False x idx (r_key r) e =
      (if as @ bs = [] \<and> idx = best_sell_idx e then Some (refresh_best_sell e1) else Some e1)"
    using un' hd by (auto simp: remove_order_def comm fields)
  have "\<exists>k. remove_order False x idx (r_key r) e = Some (e1\<lparr>best_sell_idx := k\<rparr>) \<and> best_ask_ok ?n ?LA (unat k)"
  proof (cases "as @ bs = [] \<and> idx = best_sell_idx e")
    case True
    have "LB j = []" if "j < ?n" "?cur \<le> j" for j
      using einv0_uncrossed [OF inv0] abs i that True unfolding uncrossed_def by (metis append_is_Nil_conv leD list.distinct(1))
    then obtain k where "refresh_best_sell e1 = e1\<lparr>best_sell_idx := k\<rparr>" "best_ask_ok ?n ?LA (unat k)"
      by - (rule refresh_best_sell_ok [OF inv1]; use best True in \<open>auto simp: fields best_ask_ok_def\<close>)
    then show ?thesis using run True by auto
  next
    case False
    then have "best_ask_ok ?n ?LA ?cur" using best(1) abs by (auto simp: best_ask_ok_def dest: unsigned_word_eqI)
    then show ?thesis using run False fields(1) by (intro exI [of _ "best_sell_idx e1"]) auto
  qed
  then obtain k where k: "remove_order False x idx (r_key r) e = Some (e1\<lparr>best_sell_idx := k\<rparr>)" "best_ask_ok ?n ?LA (unat k)"
    by blast
  have "einv S (e1\<lparr>best_sell_idx := k\<rparr>) LB ?LA (x # fs)" using inv1 k(2) best(2) by (simp add: einv_def fields)
  from engine_simI [OF this refl] show ?thesis
    by (intro that [OF k(1)]) (simp add: step_to_def fields emits_refl B1)
qed

lemma sim_cancel_bid:
  assumes inv: "einv S e LB LA fs" and i: "unat idx < length (order_buffer e)" and x: "x \<in> set (LB (unat idx))"
  defines "B \<equiv> book_of e LB LA fs" and "r \<equiv> res e x"
  obtains e' where "remove_order True x idx (r_key r) e = Some e'"
    and "step_to S e e' (B\<lparr>bids := drop_ref (r_ref r) (bids B), asks := drop_ref (r_ref r) (asks B),
        index := (index B)(r_key r := None), room := Suc (room B)\<rparr>) []"
proof -
  let ?n = "length (order_buffer e)" and ?cur = "unat (best_buy_idx e)"
  have inv0: "einv0 S e LB LA fs" and best: "best_bid_ok ?n LB ?cur" "best_ask_ok ?n LA (unat (best_sell_idx e))"
    using inv by (simp_all add: einv_def)
  obtain as bs where abs: "LB (unat idx) = as @ x # bs" using x by (auto simp: in_set_conv_decomp)
  let ?LB = "LB(unat idx := as @ bs)"
  obtain A' buf' e1 where un: "\<And>e0. allocator e0 = allocator e \<Longrightarrow> order_buffer e0 = order_buffer e \<Longrightarrow>
       do { e \<leftarrow> Engine_unlink e0 x idx; Engine_deallocate e x } = Some (e0\<lparr>allocator := A', order_buffer := buf'\<rparr>)"
    and len: "length buf' = ?n"
    and e1: "e1 = e\<lparr>allocator := A', order_buffer := buf',
           order_blocks_map := (order_blocks_map e)(r_key r := None), buy_orders := buy_orders e - 1\<rparr>"
    and inv1: "einv0 S e1 ?LB LA (x # fs)"
    and B1: "book_of e1 ?LB LA (x # fs) = B\<lparr>bids := drop_ref (r_ref r) (bids B), asks := drop_ref (r_ref r) (asks B),
        index := (index B)(r_key r := None), room := Suc (room B)\<rparr>"
    by (rule einv0_remove_bid [OF inv0 refl i abs, folded B_def r_def]) (rule that)
  have fields: "best_buy_idx e1 = best_buy_idx e" "best_sell_idx e1 = best_sell_idx e" "length (order_buffer e1) = ?n"
    "outgoing e1 = outgoing e" by (simp_all add: e1 len)
  have hd: "level e1 idx = Some (order_buffer e1 ! unat idx)" "head (order_buffer e1 ! unat idx) = head_opt (as @ bs)"
    using core_head [OF einv0_core [OF inv1]] i one_sided [OF inv0 i] abs by (auto simp: level_def fields)
  obtain a where un': "Engine_unlink (e\<lparr>order_blocks_map := (order_blocks_map e)(r_key r := None)\<rparr>) x idx = Some a"
    "Engine_deallocate a x = Some (e\<lparr>order_blocks_map := (order_blocks_map e)(r_key r := None), allocator := A', order_buffer := buf'\<rparr>)"
    using un [of "e\<lparr>order_blocks_map := (order_blocks_map e)(r_key r := None)\<rparr>"] by (auto simp: bind_Some_iff)
  have comm: "e\<lparr>order_blocks_map := (order_blocks_map e)(r_key r := None), allocator := A', order_buffer := buf',
      buy_orders := buy_orders e - 1\<rparr> = e1" by (simp add: e1)
  have run: "remove_order True x idx (r_key r) e =
      (if as @ bs = [] \<and> idx = best_buy_idx e then refresh_best_buy e1 else Some e1)"
    using un' hd by (auto simp: remove_order_def comm fields)
  have "\<exists>k. remove_order True x idx (r_key r) e = Some (e1\<lparr>best_buy_idx := k\<rparr>) \<and> best_bid_ok ?n ?LB (unat k)"
  proof (cases "as @ bs = [] \<and> idx = best_buy_idx e")
    case True
    have "LA j = []" if "j \<le> ?cur" for j
      using einv0_uncrossed [OF inv0] abs i that True unfolding uncrossed_def by (metis append_is_Nil_conv leD le_less_trans list.distinct(1))
    then obtain k where "refresh_best_buy e1 = Some (e1\<lparr>best_buy_idx := k\<rparr>)" "best_bid_ok ?n ?LB (unat k)"
      by - (rule refresh_best_buy_ok [OF inv1]; use best True in \<open>auto simp: fields best_bid_ok_def\<close>)
    then show ?thesis using run True by auto
  next
    case False
    then have "best_bid_ok ?n ?LB ?cur" using best(1) abs by (auto simp: best_bid_ok_def dest: unsigned_word_eqI)
    then show ?thesis using run False fields(1) by (intro exI [of _ "best_buy_idx e1"]) auto
  qed
  then obtain k where k: "remove_order True x idx (r_key r) e = Some (e1\<lparr>best_buy_idx := k\<rparr>)" "best_bid_ok ?n ?LB (unat k)"
    by blast
  have "einv S (e1\<lparr>best_buy_idx := k\<rparr>) ?LB LA (x # fs)" using inv1 k(2) best(2) by (simp add: einv_def fields)
  from engine_simI [OF this refl] show ?thesis
    by (intro that [OF k(1)]) (simp add: step_to_def fields emits_refl B1)
qed


lemma cancel_order_unfold:
  "cancel_order clk account v e =
     (let urn = CancelRequestView_UserRefNum v; new_qty = CancelRequestView_Quantity v in
      case order_blocks_map e (order_key account urn) of
        None \<Rightarrow> Some (send_cancel_rejected clk account urn e, 0)
      | Some block \<Rightarrow> do {
          b \<leftarrow> block_at e block;
          if curr_qty b \<le> new_qty then Some (send_cancel_rejected clk account urn e, 0)
          else if 0 < new_qty then do {
            e \<leftarrow> set_block e block (b\<lparr>curr_qty := new_qty\<rparr>);
            Some (send_cancelled clk account urn (curr_qty b - new_qty) 85 e, curr_qty b - new_qty) }
          else do {
            e \<leftarrow> remove_order (EnterRequestView_Side (raw b) = SideEnum_B) block (EnterRequestView_Price (raw b))
                  (order_key account urn) e;
            Some (send_cancelled clk account urn (curr_qty b - new_qty) 85 e, curr_qty b - new_qty) } })"
  by (simp add: cancel_order_def remove_order_def Let_def cong: option.case_cong if_cong)

lemma find_unique:
  "distinct (map f xs) \<Longrightarrow> r \<in> set xs \<Longrightarrow> find (\<lambda>y. f y = f r) xs = Some r"
  by (induction xs) (auto simp: image_iff)

lemma sim_remove:
  assumes inv: "einv S e LB LA fs" and x: "x \<in> live (length (order_buffer e)) LB LA"
    and b: "block_at e x = Some b"
  defines "B \<equiv> book_of e LB LA fs" and "r \<equiv> res e x"
  obtains e' where
    "remove_order (EnterRequestView_Side (raw b) = SideEnum_B) x (EnterRequestView_Price (raw b)) (r_key r) e = Some e'"
    and "step_to S e e' (B\<lparr>bids := drop_ref (r_ref r) (bids B), asks := drop_ref (r_ref r) (asks B),
        index := (index B)(r_key r := None), room := Suc (room B)\<rparr>) []"
proof -
  have inv0: "einv0 S e LB LA fs" using inv by (simp add: einv_def)
  from x obtain i where i: "i < length (order_buffer e)" and side: "x \<in> set (LB i) \<or> x \<in> set (LA i)"
    by (auto simp: live_def set_bid_ptrs set_ask_ptrs)
  have n: "i < 2 ^ 64" using i einv0_bounds(2) [OF inv0] by simp
  have un: "unat (of_nat i :: u64) = i" using n by (simp add: unat_of_nat_small)
  from side show ?thesis
  proof
    assume xb: "x \<in> set (LB i)"
    then have "EnterRequestView_Price (raw b) = of_nat i" "EnterRequestView_Side (raw b) = SideEnum_B"
      using einv0_bid [OF inv0 i xb] b by (auto simp: ok_block_def pay_def payload_of_def)
    then show ?thesis
      using sim_cancel_bid [OF inv, of "of_nat i" x] i xb un that unfolding B_def r_def by auto
  next
    assume xa: "x \<in> set (LA i)"
    then have "EnterRequestView_Price (raw b) = of_nat i" "EnterRequestView_Side (raw b) = SideEnum_S"
      using einv0_ask [OF inv0 i xa] b by (auto simp: ok_block_def pay_def payload_of_def)
    then show ?thesis
      using sim_cancel_ask [OF inv, of "of_nat i" x] i xa un that unfolding B_def r_def
      by (auto simp: SideEnum_B_def SideEnum_S_def)
  qed
qed


lemma report_cancel:
  assumes "step_to S e e1 B1 []"
  shows "step_to S e (send_cancelled clk account urn c 85 e1) B1 [Canceled account urn c 85]"
proof -
  obtain m where m: "send_cancelled clk account urn c 85 e1 = emit [m] e1"
    "event_of m = Some (Canceled account urn c 85)" by (rule send_cancelled_emit) (rule that)
  have "step_to S e1 (emit [m] e1) B1 [Canceled account urn c 85]"
    by (rule step_to_emit) (use assms m in \<open>simp_all add: events_of_def step_to_def\<close>)
  from step_to_trans [OF assms this] show ?thesis using m by simp
qed

lemma cancel_order_ok:
  assumes sim: "engine_sim S e B"
    and spec: "cancel_request account (CancelRequestView_UserRefNum v) (CancelRequestView_Quantity v) B = (B', w, evs)"
  shows "\<exists>e'. cancel_order clk account v e = Some (e', w) \<and> step_to S e e' B' evs"
proof -
  let ?urn = "CancelRequestView_UserRefNum v" and ?new = "CancelRequestView_Quantity v"
  let ?key = "order_key account ?urn"
  from sim obtain LB LA fs where inv: "einv S e LB LA fs" and B: "B = book_of e LB LA fs"
    by (auto simp: engine_sim_def)
  then have inv0: "einv0 S e LB LA fs" by (simp add: einv_def)
  obtain rej where rej: "send_cancel_rejected clk account ?urn e = emit [rej] e"
    "event_of rej = Some (CancelRejected account ?urn)"
    by (rule send_cancel_rejected_emit) (rule that)
  have srej: "step_to S e (emit [rej] e) B [CancelRejected account ?urn]"
    by (rule step_to_emit) (use sim rej in \<open>simp_all add: events_of_def\<close>)
  show ?thesis
  proof (cases "order_blocks_map e ?key")
    case None
    then show ?thesis using spec srej rej by (auto simp: cancel_order_unfold cancel_request_def B book_of_def)
  next
    case (Some x)
    define r where "r = res e x"
    have x: "x \<in> live (length (order_buffer e)) LB LA" and key: "r_key r = ?key"
      using einv0_index [OF inv0 Some] by (auto simp: r_def)
    obtain b where b: "block_at e x = Some b" and rq: "r_qty r = curr_qty b"
      by (rule live_block [OF inv0 x]) (auto simp: r_def intro: that)
    have "r \<in> set (bids B @ asks B)" using x by (auto simp: r_def B book_of_def live_def)
    from find_unique [OF sim_refs_distinct [OF sim] this]
    have fnd: "Option.bind (index B ?key) (\<lambda>ref. find (\<lambda>r. r_ref r = ref) (bids B @ asks B)) = Some r"
      using Some by (simp add: B book_of_def r_def)
    consider (noop) "curr_qty b \<le> ?new" | (part) "\<not> curr_qty b \<le> ?new" "0 < ?new" | (whole) "\<not> curr_qty b \<le> ?new" "?new = 0"
      unfolding word_gt_0 by metis
    then show ?thesis
    proof cases
      case noop
      then show ?thesis using spec srej rej Some b rq fnd by (simp add: cancel_order_unfold cancel_request_def)
    next
      case part
      obtain e1 where e1: "set_block (emit [] (e\<lparr>match_counter := match_counter e\<rparr>)) x (b\<lparr>curr_qty := ?new\<rparr>) = Some e1"
        and s1: "engine_sim S e1 (B\<lparr>last_match := match_counter e, bids := set_qty (r_ref r) ?new (bids B), asks := set_qty (r_ref r) ?new (asks B)\<rparr>)"
        and o1: "length (order_buffer e1) = length (order_buffer e)" "outgoing e1 = outgoing e @ []"
        by (rule sim_requote [OF inv x b part(2), of "[]" "match_counter e", folded B r_def]) (rule that)
      have "match_counter e = last_match B" by (simp add: B book_of_def)
      then have "step_to S e e1 (B\<lparr>bids := set_qty (r_ref r) ?new (bids B), asks := set_qty (r_ref r) ?new (asks B)\<rparr>) []"
        using s1 o1 by (simp add: step_to_def emits_refl)
      from report_cancel [OF this, of clk account ?urn "curr_qty b - ?new"] show ?thesis
        using spec Some b rq fnd part e1 by (auto simp: cancel_order_unfold cancel_request_def Let_def)
    next
      case whole
      obtain e1 where e1: "remove_order (EnterRequestView_Side (raw b) = SideEnum_B) x (EnterRequestView_Price (raw b)) (r_key r) e = Some e1"
        and s1: "step_to S e e1 (B\<lparr>bids := drop_ref (r_ref r) (bids B), asks := drop_ref (r_ref r) (asks B),
          index := (index B)(r_key r := None), room := Suc (room B)\<rparr>) []"
        by (rule sim_remove [OF inv x b, folded B r_def]) (rule that)
      from report_cancel [OF s1, of clk account ?urn "curr_qty b"] show ?thesis
        using spec Some b rq fnd whole e1 key by (auto simp: cancel_order_unfold cancel_request_def Let_def)
    qed
  qed
qed


section \<open>Processing messages\<close>

text \<open>
  The messages the engine is meant for: a known type byte, and for an Enter Order a payload of at least
  the wire size, a side that trades, and a price that is a level of the book or the market price.
\<close>

definition msg_ok :: "nat \<Rightarrow> InboundMessage \<Rightarrow> bool" where
  "msg_ok n m \<longleftrightarrow>
     (case decode (in_bytes m) of
        None \<Rightarrow> False
      | Some (EnterRequestView v) \<Rightarrow>
          EnterRequestView_WIRE_SIZE \<le> length v \<and> EnterRequestView_Side v \<in> {SideEnum_B, SideEnum_S} \<and>
          (EnterRequestView_Price v = MARKETPRICE \<or> unat (EnterRequestView_Price v) < n)
      | Some _ \<Rightarrow> True)"

lemma process_ok:
  assumes sim: "engine_sim S e B" and c: "unat (counter e) + 1 < 2 ^ 64"
    and ok: "msg_ok (length (order_buffer e)) m" and spec: "request m B = (B', evs)"
  shows "\<exists>e'. process clk m e = Some (Inr e') \<and> step_to S e e' B' evs"
proof -
  from ok obtain d where d: "decode (in_bytes m) = Some d" by (auto simp: msg_ok_def split: option.splits)
  show ?thesis
  proof (cases d)
    case (EnterRequestView v)
    then obtain w where w: "enter_order (order_of (in_account m) v) B = (B', w, evs)"
      using spec d by (auto simp: request_def split: prod.splits)
    have "order_ok v e" "EnterRequestView_Side v \<in> {SideEnum_B, SideEnum_S}"
      using ok d EnterRequestView by (auto simp: msg_ok_def order_ok_def)
    from insert_order_ok [OF sim c this w, of clk] show ?thesis
      using d EnterRequestView by (auto simp: process_def)
  next
    case (CancelRequestView v)
    then obtain w where w: "cancel_request (in_account m) (CancelRequestView_UserRefNum v) (CancelRequestView_Quantity v) B = (B', w, evs)"
      using spec d by (auto simp: request_def split: prod.splits)
    from cancel_order_ok [OF sim w, of clk] show ?thesis
      using d CancelRequestView by (auto simp: process_def)
  qed (use spec d sim in \<open>auto simp: request_def process_def step_to_refl\<close>)
qed

lemma run_ok:
  assumes "engine_sim S e B" "unat (counter e) + length ms < 2 ^ 64" "list_all (msg_ok (length (order_buffer e))) ms"
    and "requests ms B = (B', evs)"
  shows "\<exists>e'. run clk ms e = Some (Inr e') \<and> step_to S e e' B' evs"
  using assms
proof (induction ms arbitrary: e B evs)
  case Nil
  then show ?case by (simp add: step_to_refl)
next
  case (Cons m ms)
  obtain B1 evs1 where r1: "request m B = (B1, evs1)" by fastforce
  obtain evs2 where r2: "requests ms B1 = (B', evs2)" and evs: "evs = evs1 @ evs2"
    using Cons.prems(4) r1 by (auto split: prod.splits)
  obtain e1 where p: "process clk m e = Some (Inr e1)" and s1: "step_to S e e1 B1 evs1"
    using process_ok [OF Cons.prems(1) _ _ r1, of clk] Cons.prems(2,3) by auto
  have sim1: "engine_sim S e1 B1" and n1: "length (order_buffer e1) = length (order_buffer e)"
    using s1 by (auto simp: step_to_def)
  have "unat (counter e1) \<le> Suc (unat (counter e))"
    using request_last_ref [of m B] r1 sim_last_ref [OF sim1] sim_last_ref [OF Cons.prems(1)] by simp
  then obtain e2 where "run clk ms e1 = Some (Inr e2)" "step_to S e1 e2 B' evs2"
    using Cons.IH [OF sim1 _ _ r2] Cons.prems(2,3) n1 by auto
  then show ?case using p step_to_trans [OF s1] by (auto simp: evs)
qed

section \<open>The initial state\<close>

lemma Engine_new_sim:
  assumes "0 < n" "n < 2 ^ 64" "0 < Size" "Size < 2 ^ 64" and new: "Allocator_new sz Size (Some base) = Inr A"
  shows "engine_sim (set (slots base (used_size sz) Size)) (Engine_new n A) (empty_book Size)"
proof -
  let ?S = "slots base (used_size sz) Size" and ?e = "Engine_new n A" and ?L = "\<lambda>_. [] :: addr list"
  note rep = Allocator_new_rep [OF \<open>0 < Size\<close> new]
  have e: "allocator ?e = A" "order_buffer ?e = replicate n OrderList_empty" "order_blocks_map ?e = Map.empty"
    "buy_orders ?e = 0" "sell_orders ?e = 0" "best_buy_idx ?e = 0" "best_sell_idx ?e = of_nat n" "counter ?e = 0"
    "match_counter ?e = 0" by (simp_all add: Engine_new_def)
  have ptrs: "bid_ptrs n ?L = []" "ask_ptrs n ?L = []" "live n ?L ?L = {}"
    by (simp_all add: bid_ptrs_Nil ask_ptrs_Nil live_def set_bid_ptrs set_ask_ptrs)
  have "core (set ?S) ?e ?L ?S"
    using rep(1) by (simp add: core_def e list_rep_def OrderList_empty_def)
  moreover have "card (set ?S) = Size" by (simp add: distinct_card distinct_slots) (simp add: slots_def)
  ultimately have "einv0 (set ?S) ?e ?L ?L ?S"
    using assms(1,2,4) ptrs by (simp add: einv0_def e idx_ok_def uncrossed_def)
  then have "einv (set ?S) ?e ?L ?L ?S"
    using assms(1,2) by (simp add: einv_def e best_bid_ok_def best_ask_ok_def unat_of_nat_small)
  then show ?thesis
    by (rule engine_simI) (use ptrs in \<open>simp add: book_of_def e empty_book_def slots_def\<close>)
qed

end
