(* ===== verification/Engine_Correct.thy ===== *)
theory Engine_Correct
  imports Engine_Refinement
begin

text \<open>
  The properties of the matching engine, for every sequence of valid requests and for the single
  operations, with the concrete inputs that show their hypotheses can hold.
\<close>

lemma sim_indexed:
  assumes sim: "engine_sim S e B" and ix: "index B k = Some w" and r: "r \<in> set (bids B @ asks B)" "r_ref r = w"
  shows "\<exists>p b. order_blocks_map e k = Some p \<and> block_at e p = Some b \<and> curr_qty b = r_qty r"
proof -
  from sim obtain LB LA fs where inv: "einv S e LB LA fs" and B: "B = book_of e LB LA fs"
    by (auto simp: engine_sim_def)
  then have inv0: "einv0 S e LB LA fs" by (simp add: einv_def)
  from ix obtain p where p: "order_blocks_map e k = Some p" "r_ref (res e p) = w"
    by (auto simp: B book_of_def)
  have lv: "p \<in> live (length (order_buffer e)) LB LA" by (rule einv0_index(1) [OF inv0 p(1)])
  then have "res e p \<in> set (bids B @ asks B)" by (auto simp: B book_of_def live_def)
  then have eq: "res e p = r"
    using sim_refs_distinct [OF sim] r p(2) by (metis distinct_map inj_onD set_map)
  obtain b where "block_at e p = Some b" "r_qty (res e p) = curr_qty b"
    by (rule live_block [OF inv0 lv]) (auto intro: that)
  then show ?thesis using p(1) eq by auto
qed

section \<open>Concrete requests\<close>

definition demo_enter :: "u32 \<Rightarrow> SideEnum \<Rightarrow> u32 \<Rightarrow> u64 \<Rightarrow> byte list" where
  "demo_enter urn side qty price =
     EnterRequestBuilder_Price (EnterRequestBuilder_Quantity (EnterRequestBuilder_Side
       (EnterRequestBuilder_UserRefNum EnterRequestBuilder urn) side) qty) price"

definition demo_cancel :: "u32 \<Rightarrow> u32 \<Rightarrow> byte list" where
  "demo_cancel urn qty = CancelRequestBuilder_Quantity (CancelRequestBuilder_UserRefNum CancelRequestBuilder urn) qty"

lemma demo_enter_fields [simp]:
  "length (demo_enter urn side qty price) = 47"
  "decode (demo_enter urn side qty price) = Some (EnterRequestView (demo_enter urn side qty price))"
  "EnterRequestView_UserRefNum (demo_enter urn side qty price) = urn"
  "EnterRequestView_Side (demo_enter urn side qty price) = side"
  "EnterRequestView_Quantity (demo_enter urn side qty price) = qty"
  "EnterRequestView_Price (demo_enter urn side qty price) = price"
  unfolding demo_enter_def
  by (simp_all add: EnterRequest_codec load_defs decode_nonempty sized_stores [where N = 47] wire_simps)

lemma demo_cancel_fields [simp]:
  "length (demo_cancel urn qty) = 9"
  "decode (demo_cancel urn qty) = Some (CancelRequestView (demo_cancel urn qty))"
  "CancelRequestView_UserRefNum (demo_cancel urn qty) = urn"
  "CancelRequestView_Quantity (demo_cancel urn qty) = qty"
  unfolding demo_cancel_def
  by (simp_all add: CancelRequest_codec load_defs decode_nonempty sized_stores [where N = 9] wire_simps)

definition demo_msgs :: "InboundMessage list" where
  "demo_msgs =
     [\<lparr>in_account = 1, in_bytes = demo_enter 10 SideEnum_S 5 3\<rparr>,
      \<lparr>in_account = 2, in_bytes = demo_enter 20 SideEnum_B 8 4\<rparr>,
      \<lparr>in_account = 2, in_bytes = demo_cancel 20 1\<rparr>]"

lemma demo_msgs_ok: "list_all (msg_ok 6) demo_msgs"
  by (simp add: demo_msgs_def msg_ok_def wire_consts)

definition demo_pool :: "OrderBlock Allocator" where
  "demo_pool = \<lparr>buffer = 4096, free_head = Some 4096,
     mem = link_slots 4096 88 (4096 + 88) ((mmap_region 4096 88 2)(4096 + 88 \<mapsto> Link None))\<rparr>"

lemma demo_pool_new: "Allocator_new 88 2 (Some 4096) = Inr demo_pool"
  by (simp add: Allocator_new_def demo_pool_def used_size_def)

definition demo_slots :: "addr set" where
  "demo_slots = set (slots 4096 (used_size 88) 2)"

lemma demo_sim: "engine_sim demo_slots (Engine_new 6 demo_pool) (empty_book 2)"
  unfolding demo_slots_def by (rule Engine_new_sim [OF _ _ _ _ demo_pool_new]) simp_all

lemma demo_counter: "counter (Engine_new n A) = 0" "length (order_buffer (Engine_new n A)) = n"
  "order_blocks_map (Engine_new n A) = Map.empty" "outgoing (Engine_new n A) = []"
  by (simp_all add: Engine_new_def)

text \<open>A state with one order on each side and no slot left.\<close>

definition demo_book :: Book where
  "demo_book =
     \<lparr>bids = [\<lparr>r_key = order_key 2 20, r_ref = 2, r_price = 2, r_qty = 4\<rparr>],
      asks = [\<lparr>r_key = order_key 1 10, r_ref = 1, r_price = 3, r_qty = 5\<rparr>],
      index = [order_key 1 10 \<mapsto> 1, order_key 2 20 \<mapsto> 2], last_ref = 2, last_match = 0, room = 0\<rparr>"

definition demo_engine :: Engine where
  "demo_engine =
     (case run (\<lambda>_. (0, 0))
         [\<lparr>in_account = 1, in_bytes = demo_enter 10 SideEnum_S 5 3\<rparr>,
          \<lparr>in_account = 2, in_bytes = demo_enter 20 SideEnum_B 4 2\<rparr>] (Engine_new 6 demo_pool) of
        Some (Inr e) \<Rightarrow> e
      | _ \<Rightarrow> Engine_new 6 demo_pool)"

lemma demo_requests:
  "requests [\<lparr>in_account = 1, in_bytes = demo_enter 10 SideEnum_S 5 3\<rparr>,
      \<lparr>in_account = 2, in_bytes = demo_enter 20 SideEnum_B 4 2\<rparr>] (empty_book 2) = (demo_book,
      [Accepted 1 10 SideEnum_S 5 3 1, Accepted 2 20 SideEnum_B 4 2 2])"
  by (simp add: request_def enter_order_def match_order_def order_of_def empty_book_def demo_book_def
      rest_order_def insert_sorted_def MARKETPRICE_def SideEnum_B_def SideEnum_S_def Let_def)

lemma demo_engine:
  "engine_sim demo_slots demo_engine demo_book" "length (order_buffer demo_engine) = 6"
  "counter demo_engine = 2" "buy_orders demo_engine \<noteq> 0" "sell_orders demo_engine \<noteq> 0"
proof -
  let ?ms = "[\<lparr>in_account = 1, in_bytes = demo_enter 10 SideEnum_S 5 3\<rparr>,
      \<lparr>in_account = 2, in_bytes = demo_enter 20 SideEnum_B 4 2\<rparr>]"
  note r = demo_requests
  have "list_all (msg_ok 6) ?ms" by (simp add: msg_ok_def wire_consts)
  then obtain e where "run (\<lambda>_. (0, 0)) ?ms (Engine_new 6 demo_pool) = Some (Inr e)"
    "step_to demo_slots (Engine_new 6 demo_pool) e demo_book
      [Accepted 1 10 SideEnum_S 5 3 1, Accepted 2 20 SideEnum_B 4 2 2]"
    using run_ok [OF demo_sim _ _ r, of "\<lambda>_. (0, 0)"] by (auto simp: demo_counter)
  then show e: "engine_sim demo_slots demo_engine demo_book" "length (order_buffer demo_engine) = 6"
    by (simp_all add: demo_engine_def step_to_def demo_counter)
  have "bids demo_book \<noteq> []" "asks demo_book \<noteq> []" by (simp_all add: demo_book_def)
  then show "buy_orders demo_engine \<noteq> 0" "sell_orders demo_engine \<noteq> 0"
    using buy_guard(2) [OF e(1)] sell_guard(2) [OF e(1)] by (auto simp: neq_Nil_conv)
  show "counter demo_engine = 2" using sim_last_ref [OF e(1)] by (simp add: demo_book_def)
qed

lemma demo_engine_counter: "unat (counter demo_engine) + 1 < 2 ^ 64"
  by (simp add: demo_engine)

lemma demo_enter_ok:
  assumes "side \<in> {SideEnum_B, SideEnum_S}" "unat p < 6"
  shows "EnterRequestView_WIRE_SIZE \<le> length (demo_enter urn side q p)"
    and "EnterRequestView_Side (demo_enter urn side q p) \<in> {SideEnum_B, SideEnum_S}"
    and "EnterRequestView_Price (demo_enter urn side q p) = MARKETPRICE \<or>
       unat (EnterRequestView_Price (demo_enter urn side q p)) < length (order_buffer demo_engine)"
  using assms by (auto simp: EnterRequestView_WIRE_SIZE_def demo_engine)

section \<open>Whole runs\<close>

text \<open>
  C1: The engine implements the matching rules. Started with an empty book of \<open>n\<close> price levels and a
  pool of \<open>Size\<close> slots, the engine processes every sequence of valid requests without undefined
  behaviour and without an exception, and the messages it has put on the outbound queue decode, in
  order, to exactly the events of the abstract price-time book.
\<close>

theorem engine_run_implements_book:
  assumes "0 < n" "n < 2 ^ 64" "0 < Size" "Size < 2 ^ 64" "length ms < 2 ^ 64"
    and new: "Allocator_new sz Size (Some base) = Inr A" and ok: "list_all (msg_ok n) ms"
  shows "\<exists>e'. run clk ms (Engine_new n A) = Some (Inr e') \<and>
    map event_of (outgoing e') = map Some (snd (requests ms (empty_book Size)))"
proof -
  note sim = Engine_new_sim [OF assms(1-4) new]
  obtain B' evs where r: "requests ms (empty_book Size) = (B', evs)" by fastforce
  from run_ok [OF sim _ _ r, of clk] obtain e' where "run clk ms (Engine_new n A) = Some (Inr e')"
    "step_to (set (slots base (used_size sz) Size)) (Engine_new n A) e' B' evs"
    using assms(5) ok by (auto simp: demo_counter)
  then show ?thesis using r by (auto simp: step_to_def emits_def events_of_def demo_counter)
qed

theorem engine_run_implements_book_witness:
  "\<exists>e'. run (\<lambda>_. (0, 0)) demo_msgs (Engine_new 6 demo_pool) = Some (Inr e') \<and>
    map event_of (outgoing e') =
      [Some (Accepted 1 10 SideEnum_S 5 3 1), Some (Accepted 2 20 SideEnum_B 8 4 2),
       Some (Executed 2 20 5 3 82 1), Some (Executed 1 10 5 3 65 1),
       Some (Canceled 2 20 2 85)]"
proof -
  have k: "key_account (order_key 1 10) = 1" "key_user_ref_num (order_key 1 10) = 10"
    by (simp_all add: key_account_def key_user_ref_num_def order_key_def)
  have le: "\<not> (3 :: u32) \<le> 1" by (simp add: word_le_nat_alt)
  have "snd (requests demo_msgs (empty_book 2)) =
      [Accepted 1 10 SideEnum_S 5 3 1, Accepted 2 20 SideEnum_B 8 4 2,
       Executed 2 20 5 3 82 1, Executed 1 10 5 3 65 1, Canceled 2 20 2 85]"
    by (simp add: demo_msgs_def request_def enter_order_def match_order_def order_of_def empty_book_def
        rest_order_def insert_sorted_def cancel_request_def MARKETPRICE_def SideEnum_B_def SideEnum_S_def Let_def k le)
  then show ?thesis
    using engine_run_implements_book [OF _ _ _ _ _ demo_pool_new demo_msgs_ok, of "\<lambda>_. (0, 0)"]
    by (simp add: demo_msgs_def)
qed


text \<open>
  C4: Price-time priority. After every sequence of valid requests the resting orders of each side are
  queued best price first and, within a price, in the order of arrival; every resting order has a
  positive quantity; and the resting orders never exceed the pool.
\<close>

theorem engine_run_price_time:
  assumes "0 < n" "n < 2 ^ 64" "0 < Size" "Size < 2 ^ 64" "length ms < 2 ^ 64"
    and new: "Allocator_new sz Size (Some base) = Inr A" and ok: "list_all (msg_ok n) ms"
  shows "\<exists>e' B'. run clk ms (Engine_new n A) = Some (Inr e') \<and>
    engine_sim (set (slots base (used_size sz) Size)) e' B' \<and> price_time B' \<and>
    (\<forall>r\<in>set (bids B' @ asks B'). 0 < r_qty r) \<and>
    length (bids B') + length (asks B') \<le> Size"
proof -
  note sim = Engine_new_sim [OF assms(1-4) new]
  obtain B' evs where r: "requests ms (empty_book Size) = (B', evs)" by fastforce
  from run_ok [OF sim _ _ r, of clk] obtain e' where "run clk ms (Engine_new n A) = Some (Inr e')"
    "engine_sim (set (slots base (used_size sz) Size)) e' B'"
    using assms(5) ok by (auto simp: demo_counter step_to_def)
  moreover have "book_inv Size B'"
    using requests_inv [OF empty_book_inv [of Size], of ms] r assms(5) by (simp add: empty_book_def)
  ultimately show ?thesis by (auto simp: book_inv_def)
qed

theorem engine_run_price_time_witness:
  "\<exists>e' B'. run (\<lambda>_. (0, 0)) demo_msgs (Engine_new 6 demo_pool) = Some (Inr e') \<and>
    engine_sim demo_slots e' B' \<and> price_time B'"
  using engine_run_price_time [OF _ _ _ _ _ demo_pool_new demo_msgs_ok, of "\<lambda>_. (0, 0)"]
  by (auto simp: demo_msgs_def demo_slots_def)

lemma sim_cursors:
  assumes sim: "engine_sim S e B"
  shows "unat (buy_orders e) = length (bids B)" "unat (sell_orders e) = length (asks B)"
    and "bids B = [] \<Longrightarrow> best_buy_idx e = 0" "asks B = [] \<Longrightarrow> best_sell_idx e = BUFFER_SIZE e"
proof -
  from sim obtain LB LA fs where inv: "einv S e LB LA fs" and B: "B = book_of e LB LA fs" by (auto simp: engine_sim_def)
  then have inv0: "einv0 S e LB LA fs" and best: "best_bid_ok (length (order_buffer e)) LB (unat (best_buy_idx e))"
    "best_ask_ok (length (order_buffer e)) LA (unat (best_sell_idx e))" by (simp_all add: einv_def)
  show "unat (buy_orders e) = length (bids B)" "unat (sell_orders e) = length (asks B)"
    using einv0_lengths [OF inv0] by (simp_all add: B book_of_def)
  show "best_buy_idx e = 0" if "bids B = []"
  proof (rule ccontr)
    assume "best_buy_idx e \<noteq> 0"
    then have "LB (unat (best_buy_idx e)) \<noteq> []" "unat (best_buy_idx e) < length (order_buffer e)" using best(1) by (auto simp: best_bid_ok_def unat_gt_0)
    then show False using that by (auto simp: B book_of_def bid_ptrs_Nil)
  qed
  show "best_sell_idx e = BUFFER_SIZE e" if "asks B = []"
  proof -
    have h: "unat (best_sell_idx e) = length (order_buffer e)" using that best(2) by (auto simp: B book_of_def ask_ptrs_Nil best_ask_ok_def)
    show ?thesis unfolding BUFFER_SIZE_def h [symmetric] by simp
  qed
qed

text \<open>
  C22: The two cursors are the best prices and the book is never crossed, whatever has been processed. After every sequence of valid requests,
  run on a fresh engine, the counters of buy and sell orders are the numbers of resting orders of the abstract book that the same requests
  lead to; while a side is empty its cursor stands at its end of the array, otherwise it is the price of the order that trades next, and no
  resting order of the side has a better price; and when both sides have orders the buy cursor is below the sell cursor.
\<close>

theorem engine_run_best_prices:
  assumes "0 < n" "n < 2 ^ 64" "0 < Size" "Size < 2 ^ 64" "length ms < 2 ^ 64"
    and new: "Allocator_new sz Size (Some base) = Inr A" and ok: "list_all (msg_ok n) ms" and r: "requests ms (empty_book Size) = (B, evs)"
  shows "\<exists>e. run clk ms (Engine_new n A) = Some (Inr e) \<and> unat (buy_orders e) = length (bids B) \<and> unat (sell_orders e) = length (asks B) \<and>
    best_buy_idx e = (if bids B = [] then 0 else r_price (hd (bids B))) \<and> list_all (\<lambda>b. r_price b \<le> best_buy_idx e) (bids B) \<and>
    best_sell_idx e = (if asks B = [] then BUFFER_SIZE e else r_price (hd (asks B))) \<and> list_all (\<lambda>a. best_sell_idx e \<le> r_price a) (asks B) \<and>
    (bids B \<noteq> [] \<longrightarrow> asks B \<noteq> [] \<longrightarrow> best_buy_idx e < best_sell_idx e)"
proof -
  note start = Engine_new_sim [OF assms(1-4) new]
  from run_ok [OF start _ _ r, of clk] obtain e where run: "run clk ms (Engine_new n A) = Some (Inr e)"
    and sim: "engine_sim (set (slots base (used_size sz) Size)) e B"
    using assms(5) ok by (auto simp: demo_counter step_to_def)
  have "book_inv Size B"
    using requests_inv [OF empty_book_inv [of Size], of ms] r assms(5) by (simp add: empty_book_def)
  then have pt: "sorted_wrt bid_before (bids B)" "sorted_wrt ask_before (asks B)" and nc: "not_crossed B"
    by (simp_all add: book_inv_def price_time_def)
  have b: "best_buy_idx e = (if bids B = [] then 0 else r_price (hd (bids B)))"
    using sim_cursors(3) [OF sim] buy_guard(2) [OF sim] by (cases "bids B") auto
  have a: "best_sell_idx e = (if asks B = [] then BUFFER_SIZE e else r_price (hd (asks B)))"
    using sim_cursors(4) [OF sim] sell_guard(2) [OF sim] by (cases "asks B") auto
  have "list_all (\<lambda>b. r_price b \<le> best_buy_idx e) (bids B)" using b pt(1) by (cases "bids B") (auto simp: list_all_iff bid_before_def)
  moreover have "list_all (\<lambda>a. best_sell_idx e \<le> r_price a) (asks B)" using a pt(2) by (cases "asks B") (auto simp: list_all_iff ask_before_def)
  moreover have "best_buy_idx e < best_sell_idx e" if "bids B \<noteq> []" "asks B \<noteq> []" using that a b nc by (simp add: not_crossed_def)
  ultimately show ?thesis using run a b sim_cursors(1,2) [OF sim] by (intro exI [of _ e]) simp
qed

theorem engine_run_best_prices_witness:
  "\<exists>e. run (\<lambda>_. (0, 0)) [\<lparr>in_account = 1, in_bytes = demo_enter 10 SideEnum_S 5 3\<rparr>, \<lparr>in_account = 2, in_bytes = demo_enter 20 SideEnum_B 4 2\<rparr>]
      (Engine_new 6 demo_pool) = Some (Inr e) \<and> best_buy_idx e = 2 \<and> best_sell_idx e = 3"
proof -
  let ?ms = "[\<lparr>in_account = 1, in_bytes = demo_enter 10 SideEnum_S 5 3\<rparr>, \<lparr>in_account = 2, in_bytes = demo_enter 20 SideEnum_B 4 2\<rparr>]"
  have "list_all (msg_ok 6) ?ms" by (simp add: msg_ok_def wire_consts)
  from engine_run_best_prices [OF _ _ _ _ _ demo_pool_new this demo_requests, of "\<lambda>_. (0, 0)"] show ?thesis
    by (auto simp: demo_book_def)
qed

section \<open>Single operations\<close>

text \<open>
  C20: Entering an order implements \<open>enter_order\<close>. For a buy or sell order whose price is a level of the
  book or the market price, \<open>insert_order\<close> returns (no undefined behaviour, no exception), its result
  is the abstract one (the order reference if the order rests, 0 otherwise), the new state represents
  the new abstract book, and the messages sent are the abstract events.
\<close>

theorem insert_order_implements_enter:
  assumes "engine_sim S e B" "unat (counter e) + 1 < 2 ^ 64"
    and "EnterRequestView_WIRE_SIZE \<le> length v" "EnterRequestView_Side v \<in> {SideEnum_B, SideEnum_S}"
    and "EnterRequestView_Price v = MARKETPRICE \<or> unat (EnterRequestView_Price v) < length (order_buffer e)"
  shows "\<exists>e' ms. insert_order clk account v e = Some (Inr (e', fst (snd (enter_order (order_of account v) B)))) \<and>
    engine_sim S e' (fst (enter_order (order_of account v) B)) \<and>
    outgoing e' = outgoing e @ ms \<and>
    map event_of ms = map Some (snd (snd (enter_order (order_of account v) B)))"
proof -
  obtain B' w evs where en: "enter_order (order_of account v) B = (B', w, evs)" by (metis prod_cases3)
  have "order_ok v e" using assms(3,5) by (simp add: order_ok_def)
  from insert_order_ok [OF assms(1,2) this assms(4) en, of clk] show ?thesis
    by (auto simp: en step_to_def emits_def events_of_def)
qed

theorem insert_order_implements_enter_witness:
  "\<exists>e' ms. insert_order (\<lambda>_. (0, 0)) 9 (demo_enter 1 SideEnum_B 5 4) demo_engine = Some (Inr (e', 0)) \<and>
    outgoing e' = outgoing demo_engine @ ms \<and>
    map event_of ms = [Some (Accepted 9 1 SideEnum_B 5 4 3), Some (Executed 9 1 5 3 82 1), Some (Executed 1 10 5 3 65 1)]"
proof -
  have k: "key_account (order_key 1 10) = 1" "key_user_ref_num (order_key 1 10) = 10"
    by (simp_all add: key_account_def key_user_ref_num_def order_key_def)
  let ?en = "enter_order (order_of 9 (demo_enter 1 SideEnum_B 5 4)) demo_book"
  have "fst (snd ?en) = 0" "snd (snd ?en) = [Accepted 9 1 SideEnum_B 5 4 3, Executed 9 1 5 3 82 1, Executed 1 10 5 3 65 1]"
    by (simp_all add: enter_order_def match_order_def order_of_def demo_book_def SideEnum_B_def Let_def k)
  then show ?thesis
    using insert_order_implements_enter [OF demo_engine(1) demo_engine_counter
        demo_enter_ok [where urn = 1 and side = SideEnum_B and q = 5 and p = 4], of "\<lambda>_. (0, 0)" 9] by auto
qed

text \<open>
  Cancelling implements \<open>cancel_request\<close>. A request for an unknown order or one that would not reduce
  the open quantity changes nothing and is rejected; otherwise the open quantity becomes the requested
  one in place (keeping the time priority) or, for 0, the order leaves the book, its index entry and
  its slot are freed; the value returned is the number of shares cancelled.
\<close>

theorem cancel_order_implements_cancel:
  assumes "engine_sim S e B"
  shows "\<exists>e' ms. cancel_order clk account v e =
      Some (e', fst (snd (cancel_request account (CancelRequestView_UserRefNum v) (CancelRequestView_Quantity v) B))) \<and>
    engine_sim S e' (fst (cancel_request account (CancelRequestView_UserRefNum v) (CancelRequestView_Quantity v) B)) \<and>
    outgoing e' = outgoing e @ ms \<and>
    map event_of ms =
      map Some (snd (snd (cancel_request account (CancelRequestView_UserRefNum v) (CancelRequestView_Quantity v) B)))"
proof -
  obtain B' w evs where ca:
    "cancel_request account (CancelRequestView_UserRefNum v) (CancelRequestView_Quantity v) B = (B', w, evs)"
    by (metis prod_cases3)
  from cancel_order_ok [OF assms ca, of clk] show ?thesis
    by (auto simp: ca step_to_def emits_def events_of_def)
qed

theorem cancel_order_implements_cancel_witness:
  "\<exists>e' ms. cancel_order (\<lambda>_. (0, 0)) 1 (demo_cancel 10 2) demo_engine = Some (e', 3) \<and>
    outgoing e' = outgoing demo_engine @ ms \<and> map event_of ms = [Some (Canceled 1 10 3 85)]"
proof -
  let ?ca = "cancel_request 1 10 2 demo_book"
  have le: "\<not> (5 :: u32) \<le> 2" "order_key 1 10 \<noteq> order_key 2 20" by (simp_all add: order_key_def)
  have "fst (snd ?ca) = 3" "snd (snd ?ca) = [Canceled 1 10 3 85]"
    by (simp_all add: cancel_request_def demo_book_def Let_def le)
  then show ?thesis
    using cancel_order_implements_cancel [OF demo_engine(1), of "\<lambda>_. (0, 0)" 1 "demo_cancel 10 2"] by auto
qed

text \<open>
  C21: No share is lost. When an order is entered, its quantity is the sum of what the messages report as
  filled for the incoming side, what they report as cancelled, and, if the order rests, the open
  quantity of the block the index holds for it under its (account, user reference) key.
\<close>

theorem insert_order_conserves_quantity:
  assumes "engine_sim S e B" "unat (counter e) + 1 < 2 ^ 64"
    and "EnterRequestView_WIRE_SIZE \<le> length v" "EnterRequestView_Side v \<in> {SideEnum_B, SideEnum_S}"
    and "EnterRequestView_Price v = MARKETPRICE \<or> unat (EnterRequestView_Price v) < length (order_buffer e)"
  shows "\<exists>e' w ms evs. insert_order clk account v e = Some (Inr (e', w)) \<and>
    outgoing e' = outgoing e @ ms \<and> map event_of ms = map Some evs \<and>
    unat (EnterRequestView_Quantity v) = sum_list (map taker_qty evs) + sum_list (map canceled_qty evs) +
      (if w = 0 then 0
       else case order_blocks_map e' (order_key account (EnterRequestView_UserRefNum v)) of
              None \<Rightarrow> 0
            | Some p \<Rightarrow> (case block_at e' p of None \<Rightarrow> 0 | Some b \<Rightarrow> unat (curr_qty b)))"
proof -
  let ?key = "order_key account (EnterRequestView_UserRefNum v)"
  obtain B' w evs where en: "enter_order (order_of account v) B = (B', w, evs)" by (metis prod_cases3)
  have "order_ok v e" using assms(3,5) by (simp add: order_ok_def)
  from insert_order_ok [OF assms(1,2) this assms(4) en, of clk] obtain e' ms where
    run: "insert_order clk account v e = Some (Inr (e', w))" and sim': "engine_sim S e' B'"
    and ms: "outgoing e' = outgoing e @ ms" "map event_of ms = map Some evs"
    by (auto simp: step_to_def emits_def events_of_def)
  have c: "unat (last_ref B) + 1 < 2 ^ 64" using assms(2) sim_last_ref [OF assms(1)] by simp
  have ord: "o_qty (order_of account v) = EnterRequestView_Quantity v" "order_key (o_account (order_of account v)) (o_urn (order_of account v)) = ?key"
    by (simp_all add: order_of_def)
  show ?thesis
  proof (rule enter_order_qty [OF en c])
    assume "w = 0" "unat (o_qty (order_of account v)) = sum_list (map taker_qty evs) + sum_list (map canceled_qty evs)"
    then show ?thesis using run ms ord by auto
  next
    fix r
    assume r: "w \<noteq> 0" "index B' (order_key (o_account (order_of account v)) (o_urn (order_of account v))) = Some w"
      "r \<in> set (bids B' @ asks B')" "r_ref r = w"
      "unat (o_qty (order_of account v)) = sum_list (map taker_qty evs) + sum_list (map canceled_qty evs) + unat (r_qty r)"
    obtain p b where "order_blocks_map e' ?key = Some p" "block_at e' p = Some b" "curr_qty b = r_qty r"
      using sim_indexed [OF sim' r(2,3,4)] ord by auto
    then show ?thesis using run ms ord r by auto
  qed
qed


theorem insert_order_conserves_quantity_witness:
  "\<exists>e' w ms evs. insert_order (\<lambda>_. (0, 0)) 9 (demo_enter 1 SideEnum_B 7 4) demo_engine = Some (Inr (e', w)) \<and>
    outgoing e' = outgoing demo_engine @ ms \<and> map event_of ms = map Some evs \<and>
    unat (7 :: u32) = sum_list (map taker_qty evs) + sum_list (map canceled_qty evs) +
      (if w = 0 then 0
       else case order_blocks_map e' (order_key 9 1) of
              None \<Rightarrow> 0
            | Some p \<Rightarrow> (case block_at e' p of None \<Rightarrow> 0 | Some b \<Rightarrow> unat (curr_qty b)))"
  using insert_order_conserves_quantity [OF demo_engine(1) demo_engine_counter
      demo_enter_ok [where urn = 1 and side = SideEnum_B and q = 7 and p = 4], of "\<lambda>_. (0, 0)" 9]
  unfolding demo_enter_fields by simp

text \<open>
  Fills follow priority and never violate the limit. The messages of an entered order are its
  acknowledgement, then for each trade one execution to each party at the resting order's price under
  one match number, then at most one cancellation. The orders that trade are a prefix of the opposite
  side's queue, each for at most its open quantity and at a price the incoming order accepts.
\<close>

theorem insert_order_fills_in_priority:
  assumes "engine_sim S e B" "unat (counter e) + 1 < 2 ^ 64"
    and "EnterRequestView_WIRE_SIZE \<le> length v" "EnterRequestView_Side v \<in> {SideEnum_B, SideEnum_S}"
    and "EnterRequestView_Price v = MARKETPRICE \<or> unat (EnterRequestView_Price v) < length (order_buffer e)"
  shows "\<exists>e' w ms fs tail_events. insert_order clk account v e = Some (Inr (e', w)) \<and>
    outgoing e' = outgoing e @ ms \<and>
    map event_of ms = map Some
      (Accepted account (EnterRequestView_UserRefNum v) (EnterRequestView_Side v) (EnterRequestView_Quantity v)
         (EnterRequestView_Price v) (counter e + 1) #
       fill_events account (EnterRequestView_UserRefNum v) (match_counter e) fs @ tail_events) \<and>
    length tail_events \<le> 1 \<and> map fst fs = take (length fs) (opposite (order_of account v) B) \<and>
    (\<forall>(r, f)\<in>set fs. acceptable (order_of account v) (r_price r) \<and> f \<le> r_qty r)"
proof -
  obtain B' w evs where en: "enter_order (order_of account v) B = (B', w, evs)" by (metis prod_cases3)
  have "order_ok v e" using assms(3,5) by (simp add: order_ok_def)
  from insert_order_ok [OF assms(1,2) this assms(4) en, of clk] obtain e' ms where
    run: "insert_order clk account v e = Some (Inr (e', w))"
    and ms: "outgoing e' = outgoing e @ ms" "map event_of ms = map Some evs"
    by (auto simp: step_to_def emits_def events_of_def)
  have nums: "last_ref B = counter e" "last_match B = match_counter e"
    using assms(1) by (auto simp: engine_sim_def book_of_def)
  obtain fs rest where "evs = Accepted account (EnterRequestView_UserRefNum v) (EnterRequestView_Side v)
        (EnterRequestView_Quantity v) (EnterRequestView_Price v) (counter e + 1) #
      fill_events account (EnterRequestView_UserRefNum v) (match_counter e) fs @ rest"
    "length rest \<le> 1" "map fst fs = take (length fs) (opposite (order_of account v) B)"
    "\<forall>(r, f)\<in>set fs. acceptable (order_of account v) (r_price r) \<and> f \<le> r_qty r"
    by (rule enter_order_fills [OF en]) (auto simp: order_of_def nums intro: that)
  then show ?thesis using run ms by blast
qed

theorem insert_order_fills_in_priority_witness:
  "\<exists>e' w ms fs tail_events.
    insert_order (\<lambda>_. (0, 0)) 9 (demo_enter 1 SideEnum_S 3 1) demo_engine = Some (Inr (e', w)) \<and>
    outgoing e' = outgoing demo_engine @ ms \<and>
    map event_of ms = map Some
      (Accepted 9 1 SideEnum_S 3 1 3 # fill_events 9 1 (match_counter demo_engine) fs @ tail_events) \<and>
    length tail_events \<le> 1 \<and> map fst fs = take (length fs) (bids demo_book) \<and>
    (\<forall>(r, f)\<in>set fs. acceptable (order_of 9 (demo_enter 1 SideEnum_S 3 1)) (r_price r) \<and> f \<le> r_qty r)"
proof -
  have "opposite (order_of 9 (demo_enter 1 SideEnum_S 3 1)) demo_book = bids demo_book"
    by (simp add: opposite_def order_of_def SideEnum_B_def SideEnum_S_def)
  then show ?thesis
    using insert_order_fills_in_priority [OF demo_engine(1) demo_engine_counter
        demo_enter_ok [where urn = 1 and side = SideEnum_S and q = 3 and p = 1], of "\<lambda>_. (0, 0)" 9]
    unfolding demo_enter_fields by (simp add: demo_engine)
qed

text \<open>
  An order whose side is neither \<open>B\<close> nor \<open>S\<close> (the short-sale sides \<open>T\<close> and \<open>E\<close> included) makes
  \<open>insert_order\<close> throw \<open>invalid_argument\<close>, and the exception ends \<open>run\<close> whatever messages follow.
\<close>

theorem insert_order_rejects_other_sides:
  assumes "EnterRequestView_Side v \<notin> {SideEnum_B, SideEnum_S}"
  shows "insert_order clk account v e = Some (Inl invalid_argument) \<and>
    (decode (in_bytes m) = Some (EnterRequestView v) \<longrightarrow> run clk (m # ms) e = Some (Inl invalid_argument))"
  using assms by (auto simp: insert_order_def process_def)

theorem insert_order_rejects_other_sides_witness:
  "insert_order (\<lambda>_. (0, 0)) 3 (demo_enter 1 SideEnum_T 5 2) (Engine_new 6 demo_pool) = Some (Inl invalid_argument)"
  using insert_order_rejects_other_sides [of "demo_enter 1 SideEnum_T 5 2" "\<lambda>_. (0, 0)" 3 "Engine_new 6 demo_pool"]
  by (simp add: SideEnum_defs)


text \<open>
  Nothing in the engine checks the price against the number of levels. A limit buy order that does not
  trade and whose price is outside the book (and is not the market price) takes a slot and then
  indexes \<open>order_buffer\<close> out of range: the operation is undefined.
\<close>

theorem insert_buy_outside_book_is_undefined:
  assumes sim: "engine_sim S e B" and "asks B = []" and room: "room B \<noteq> 0"
    and side: "EnterRequestView_Side v = SideEnum_B" and q: "EnterRequestView_Quantity v \<noteq> 0"
    and p: "EnterRequestView_Price v \<noteq> MARKETPRICE" "length (order_buffer e) \<le> unat (EnterRequestView_Price v)"
  shows "insert_order clk account v e = None"
proof -
  let ?e0 = "e\<lparr>counter := counter e + 1\<rparr>"
  obtain m where acc: "send_accepted clk account v (counter e + 1) ?e0 = emit [m] ?e0"
    by (rule send_accepted_emit) (rule that)
  have "sell_orders e = 0" by (rule sell_guard(1) [OF sim assms(2)])
  then have loop: "buy_match_loop clk account v (emit [m] ?e0) (EnterRequestView_Quantity v) =
      Some (emit [m] ?e0, EnterRequestView_Quantity v)"
    by (subst buy_match_loop.simps) simp
  from sim obtain LB LA fs where inv: "einv S e LB LA fs" and B: "B = book_of e LB LA fs"
    by (auto simp: engine_sim_def)
  have "fs \<noteq> []" using room by (simp add: B book_of_def)
  then obtain A where al: "allocate (allocator e) = Some (A, Some (hd fs))" using sim_allocate(2) [OF inv] by blast
  have "append_list e' x (EnterRequestView_Price v) = None" if "order_buffer e' = order_buffer e" for e' x
    using p(2) that by (simp add: append_list_def level_def)
  then have "insert_buy_order clk account v e = None"
    using p q al by (auto simp: insert_buy_order_def acc loop set_block_def bind_eq_None_conv word_gt_0 Let_def)
  then show ?thesis using side by (simp add: insert_order_def)
qed

theorem insert_buy_outside_book_is_undefined_witness:
  "insert_order (\<lambda>_. (0, 0)) 9 (demo_enter 1 SideEnum_B 5 6) (Engine_new 6 demo_pool) = None"
  by (rule insert_buy_outside_book_is_undefined [OF demo_sim])
    (simp_all add: empty_book_def MARKETPRICE_def demo_counter)

text \<open>
  The key of an order determines its account and its user reference number: the two halves are packed
  without loss, so executions of a resting order are reported to the party that entered it.
\<close>

theorem order_key_roundtrip:
  "key_account (order_key account urn) = account \<and> key_user_ref_num (order_key account urn) = urn"
proof
  show "key_account (order_key account urn) = account"
    by (rule bit_word_eqI)
      (auto simp: key_account_def order_key_def bit_simps dest: bit_imp_le_length)
  show "key_user_ref_num (order_key account urn) = urn"
    by (rule bit_word_eqI)
      (auto simp: key_user_ref_num_def order_key_def bit_simps dest: bit_imp_le_length)
qed

text \<open>
  A second order under the same (account, user reference) key takes over the index entry. When both
  rest, a cancel request for the key reaches the second order only; the first one stays in the book
  and can no longer be cancelled by its owner.
\<close>

theorem duplicate_user_ref_hides_first_order:
  assumes "B = fst (enter_order ord2 (fst (enter_order ord1 (empty_book 2))))"
    and "ord1 = \<lparr>o_account = a, o_urn = u, o_side = SideEnum_B, o_qty = q1, o_price = p\<rparr>"
    and "ord2 = \<lparr>o_account = a, o_urn = u, o_side = SideEnum_B, o_qty = q2, o_price = p\<rparr>"
    and "q1 \<noteq> 0" "q2 \<noteq> 0" "p \<noteq> MARKETPRICE" and "engine_sim S e B" "CancelRequestView_UserRefNum v = u"
      "CancelRequestView_Quantity v = 0"
  shows "\<exists>e' B'. cancel_order clk a v e = Some (e', q2) \<and> engine_sim S e' B' \<and>
    map r_qty (bids B') = [q1] \<and> order_blocks_map e' (order_key a u) = None"
proof -
  have B: "bids B = [\<lparr>r_key = order_key a u, r_ref = 1, r_price = p, r_qty = q1\<rparr>, \<lparr>r_key = order_key a u, r_ref = 2, r_price = p, r_qty = q2\<rparr>]"
    "asks B = []" "index B = [order_key a u \<mapsto> 2]"
    using assms by (simp_all add: enter_order_def match_order_def rest_order_def empty_book_def insert_sorted_def Let_def)
  obtain B' w evs where ca: "cancel_request a u 0 B = (B', w, evs)" by (metis prod_cases3)
  then have B': "w = q2" "map r_qty (bids B') = [q1]" "index B' = Map.empty"
    using \<open>q2 \<noteq> 0\<close> B by (auto simp: cancel_request_def Let_def drop_ref_def split: if_splits)
  from ca assms(8,9) have "cancel_request a (CancelRequestView_UserRefNum v) (CancelRequestView_Quantity v) B = (B', w, evs)" by simp
  from cancel_order_ok [OF assms(7) this, of clk] obtain e' where e': "cancel_order clk a v e = Some (e', w)" "engine_sim S e' B'"
    by (auto simp: step_to_def)
  moreover have "order_blocks_map e' (order_key a u) = None"
    using e'(2) B'(3) by (auto simp: engine_sim_def book_of_def fun_eq_iff)
  ultimately show ?thesis using B' by auto
qed


theorem duplicate_user_ref_hides_first_order_witness:
  "\<exists>e e' B'. cancel_order (\<lambda>_. (0, 0)) 5 (demo_cancel 7 0) e = Some (e', 4) \<and>
    engine_sim demo_slots e' B' \<and> map r_qty (bids B') = [3] \<and> order_blocks_map e' (order_key 5 7) = None"
proof -
  let ?ms = "[\<lparr>in_account = 5, in_bytes = demo_enter 7 SideEnum_B 3 2\<rparr>, \<lparr>in_account = 5, in_bytes = demo_enter 7 SideEnum_B 4 2\<rparr>]"
  let ?o1 = "\<lparr>o_account = 5, o_urn = 7, o_side = SideEnum_B, o_qty = 3, o_price = 2\<rparr>"
  let ?o2 = "\<lparr>o_account = 5, o_urn = 7, o_side = SideEnum_B, o_qty = 4, o_price = 2\<rparr>"
  obtain evs where r: "requests ?ms (empty_book 2) = (fst (enter_order ?o2 (fst (enter_order ?o1 (empty_book 2)))), evs)"
    by (simp add: request_def order_of_def Let_def split_def)
  have "list_all (msg_ok 6) ?ms" by (simp add: msg_ok_def wire_consts)
  then obtain e where e: "engine_sim demo_slots e (fst (enter_order ?o2 (fst (enter_order ?o1 (empty_book 2)))))"
    using run_ok [OF demo_sim _ _ r, of "\<lambda>_. (0, 0)"] by (auto simp: demo_counter step_to_def)
  show ?thesis
    using duplicate_user_ref_hides_first_order [OF refl refl refl _ _ _ e, of "demo_cancel 7 0" "\<lambda>_. (0, 0)"]
    by (auto simp: MARKETPRICE_def intro!: exI [of _ e])
qed

end
