(* ===== verification/Ring_Buffer.thy ===== *)
theory Ring_Buffer
  imports Prelude
begin

text \<open>
  The ring of sequenced cells that \<open>spsc_queue\<close> and \<open>mpsc_queue\<close> of \<open>4_order_book_proj/src/queues.hpp\<close>
  share.

  Positions are 64-bit counters that wrap around; the model's ghost counters are natural numbers, and
  \<open>of_nat\<close> gives the counter the code holds. \<open>ring S D pub vals cs\<close> describes the cells for the window of
  \<open>S\<close> positions from \<open>D\<close>: a published position holds its value and the sequence number one past the
  position, an unpublished one holds its own position. The lemmas say what the three writes of the code
  (of the data, of the sequence when publishing, of the sequence when releasing) do to this picture,
  and that the comparisons the code spins on tell the two states apart even after wrap-around.
\<close>

record 'a cell =
  sequence :: u64
  cdata :: 'a

definition slot_index :: "nat \<Rightarrow> u64 \<Rightarrow> nat" where
  "slot_index S pos = unat (pos AND (of_nat S - 1))"

definition cell_at :: "'a cell list \<Rightarrow> u64 \<Rightarrow> 'a cell" where
  "cell_at cs pos = cs ! slot_index (length cs) pos"

definition set_cell :: "'a cell list \<Rightarrow> u64 \<Rightarrow> 'a cell \<Rightarrow> 'a cell list" where
  "set_cell cs pos c = cs[slot_index (length cs) pos := c]"

definition new_cells :: "nat \<Rightarrow> 'a \<Rightarrow> 'a cell list" where
  "new_cells S x0 = map (\<lambda>i. \<lparr>sequence = of_nat i, cdata = x0\<rparr>) [0..<S]"

text \<open>The capacities the \<open>static_assert\<close> admits, without the degenerate ring of one cell.\<close>

definition ring_size :: "nat \<Rightarrow> bool" where
  "ring_size S \<longleftrightarrow> (\<exists>k. 0 < k \<and> k < 64 \<and> S = 2 ^ k)"

lemma ring_size_bounds: "ring_size S \<Longrightarrow> 1 < S \<and> S < 2 ^ 64"
proof -
  assume "ring_size S"
  then obtain k where k: "0 < k" "k < 64" "S = 2 ^ k" by (auto simp: ring_size_def)
  have "(2::nat) ^ k < 2 ^ 64" by (rule power_strict_increasing) (use k in simp_all)
  moreover have "1 < (2::nat) ^ k" by (rule one_less_power) (use k in simp_all)
  ultimately show ?thesis using k by simp
qed

lemma slot_index_mod:
  assumes "ring_size S"
  shows "slot_index S (of_nat n) = n mod S"
proof -
  from assms obtain k where k: "k < 64" "S = 2 ^ k" by (auto simp: ring_size_def)
  have "of_nat S - 1 = (mask k :: u64)" by (simp add: k mask_eq_exp_minus_1)
  then have "slot_index S (of_nat n) = unat (take_bit k (of_nat n :: u64))"
    by (simp add: slot_index_def take_bit_eq_mask)
  also have "\<dots> = take_bit k (take_bit 64 n)" by (simp add: unsigned_take_bit_eq unsigned_of_nat)
  also have "\<dots> = take_bit k n" using k(1) by (simp add: take_bit_take_bit min_def)
  also have "\<dots> = n mod S" by (simp add: k(2) take_bit_eq_mod)
  finally show ?thesis .
qed

lemma window_mod_inj:
  assumes "D \<le> k" "k < D + S" "D \<le> k'" "k' < D + S" "k mod S = k' mod (S :: nat)"
  shows "k = k'"
proof -
  have eq: "a = b" if "a \<le> b" "b < a + S" "a mod S = b mod S" for a b :: nat
  proof -
    have "S dvd b - a" using that mod_eq_dvd_iff_nat [of a b S] by simp
    then show ?thesis using that by (cases "b = a") (auto dest: dvd_imp_le)
  qed
  show ?thesis
  proof (cases "k \<le> k'")
    case True
    then show ?thesis using eq [of k k'] assms by simp
  next
    case False
    then show ?thesis using eq [of k' k] assms by simp
  qed
qed

lemma of_nat_eq_near:
  assumes "m \<le> n" "n < m + 2 ^ 64"
  shows "(of_nat m :: u64) = of_nat n \<longleftrightarrow> m = n"
proof
  assume "(of_nat m :: u64) = of_nat n"
  then have "unat (of_nat m :: u64) = unat (of_nat n :: u64)" by simp
  then have "m mod 2 ^ 64 = n mod 2 ^ 64" by (simp add: unat_of_nat take_bit_eq_mod)
  then show "m = n" using window_mod_inj [of m m "2 ^ 64" n] assms by simp
qed simp

definition ring :: "nat \<Rightarrow> nat \<Rightarrow> (nat \<Rightarrow> bool) \<Rightarrow> (nat \<Rightarrow> 'a) \<Rightarrow> 'a cell list \<Rightarrow> bool" where
  "ring S D pub vals cs \<longleftrightarrow>
     length cs = S \<and>
     (\<forall>k. D \<le> k \<and> k < D + S \<longrightarrow>
        sequence (cs ! (k mod S)) = of_nat (if pub k then k + 1 else k) \<and>
        (pub k \<longrightarrow> cdata (cs ! (k mod S)) = vals k))"

lemma ring_cell_at: "ring_size S \<Longrightarrow> ring S D pub vals cs \<Longrightarrow> cell_at cs (of_nat k) = cs ! (k mod S)"
  by (simp add: cell_at_def ring_def slot_index_mod)

lemma ring_set_cell: "ring_size S \<Longrightarrow> ring S D pub vals cs \<Longrightarrow> set_cell cs (of_nat k) c = cs[k mod S := c]"
  by (simp add: set_cell_def ring_def slot_index_mod)

lemma ring_read:
  assumes "ring S D pub vals cs" "D \<le> k" "k < D + S"
  shows "sequence (cs ! (k mod S)) = of_nat (if pub k then k + 1 else k)"
    and "pub k \<Longrightarrow> cdata (cs ! (k mod S)) = vals k"
  using assms by (auto simp: ring_def)

lemma ring_new: "ring_size S \<Longrightarrow> ring S 0 (\<lambda>_. False) vals (new_cells S x0)"
  by (simp add: ring_def new_cells_def)

lemma ring_update:
  assumes r: "ring S D pub vals cs" and k: "D \<le> k" "k < D + S"
    and c: "sequence c = of_nat (if pub' k then k + 1 else k)" "pub' k \<Longrightarrow> cdata c = vals' k"
    and o: "\<And>j. j \<noteq> k \<Longrightarrow> pub' j = pub j \<and> vals' j = vals j"
  shows "ring S D pub' vals' (cs[k mod S := c])"
  unfolding ring_def
proof (intro conjI allI impI)
  have len: "length cs = S" using r by (simp add: ring_def)
  then show "length (cs[k mod S := c]) = S" by simp
  fix j assume "D \<le> j \<and> j < D + S"
  then have j: "D \<le> j" "j < D + S" by simp_all
  have at: "cs[k mod S := c] ! (j mod S) = (if j = k then c else cs ! (j mod S))"
    using window_mod_inj [OF k j] len k by (auto simp: nth_list_update)
  show "sequence (cs[k mod S := c] ! (j mod S)) = of_nat (if pub' j then j + 1 else j)"
    unfolding at using c(1) o [of j] ring_read(1) [OF r j] by (cases "j = k") simp_all
  show "cdata (cs[k mod S := c] ! (j mod S)) = vals' j" if "pub' j"
    unfolding at using c(2) o [of j] ring_read(2) [OF r j] that by (cases "j = k") simp_all
qed

text \<open>Writing the data of an unpublished position.\<close>

lemma ring_write_data:
  assumes r: "ring S D pub vals cs" and k: "D \<le> k" "k < D + S" "\<not> pub k"
  shows "ring S D pub vals (cs[k mod S := (cs ! (k mod S))\<lparr>cdata := x\<rparr>])"
  by (rule ring_update [OF r k(1,2)]) (use k ring_read [OF r k(1,2)] in simp_all)

text \<open>Publishing a position.\<close>

lemma ring_publish:
  assumes r: "ring S D pub vals cs" and k: "D \<le> k" "k < D + S"
    and v: "cdata (cs ! (k mod S)) = v"
  shows "ring S D (pub(k := True)) (vals(k := v)) (cs[k mod S := (cs ! (k mod S))\<lparr>sequence := of_nat (k + 1)\<rparr>])"
  by (rule ring_update [OF r k]) (use v in simp_all)

text \<open>Releasing the first position of the window.\<close>

lemma ring_release:
  assumes r: "ring S D pub vals cs" and S: "0 < S" and n: "\<not> pub (D + S)"
  shows "ring S (Suc D) pub vals (cs[D mod S := (cs ! (D mod S))\<lparr>sequence := of_nat (D + S)\<rparr>])"
proof -
  have "k mod S \<noteq> D mod S" if "Suc D \<le> k" "k < D + S" for k
    using window_mod_inj [of D D S k] that by fastforce
  moreover have "(D + S) mod S = D mod S" by simp
  moreover have "k < D + S \<or> k = D + S" if "k < Suc D + S" for k using that by auto
  ultimately show ?thesis using r S n by (fastforce simp: ring_def nth_list_update)
qed

lemma ring_cong: "(\<And>k. D \<le> k \<Longrightarrow> k < D + S \<Longrightarrow> pub k = pub' k) \<Longrightarrow>
   (\<And>k. D \<le> k \<Longrightarrow> k < D + S \<Longrightarrow> pub k \<Longrightarrow> vals k = vals' k) \<Longrightarrow> ring S D pub vals cs = ring S D pub' vals' cs"
  by (auto simp: ring_def)

end
