(* ===== verification/Spsc_Queue.thy ===== *)
theory Spsc_Queue
  imports Ring_Buffer
begin

text \<open>
  The single-producer single-consumer queue of \<open>4_order_book_proj/src/queues.hpp\<close> and
  \<open>queues_impl.hpp\<close>.

  \<open>enqueue\<close> and \<open>dequeue\<close> are broken into their memory accesses, one step each, and \<open>spsc_step\<close>
  interleaves the steps of one producer thread and one consumer thread in every possible way; the
  busy-wait loops are steps that change nothing. The release store and acquire load of \<open>sequence\<close>
  order the plain accesses to \<open>data\<close>, so that interleaving is the right notion as long as the plain
  accesses never meet, which is itself shown. \<open>sent\<close> and \<open>received\<close> record the arguments of \<open>enqueue\<close> and
  the results of \<open>dequeue\<close>. \<open>spsc_enqueue\<close> and \<open>spsc_dequeue\<close> run one call to its end without the other
  thread, \<open>None\<close> standing for a call that waits.
\<close>

record 'a spsc_queue =
  cells :: "'a cell list"
  enqueue_ptr :: u64
  dequeue_ptr :: u64

definition spsc_new :: "nat \<Rightarrow> 'a \<Rightarrow> 'a spsc_queue" where
  "spsc_new S x0 = \<lparr>cells = new_cells S x0, enqueue_ptr = 0, dequeue_ptr = 0\<rparr>"

definition spsc_empty :: "'a spsc_queue \<Rightarrow> bool" where
  "spsc_empty q \<longleftrightarrow> enqueue_ptr q = dequeue_ptr q"

section \<open>The two threads\<close>

datatype 'a producer = P_idle | P_spin 'a u64 | P_data 'a u64 | P_seq 'a u64 | P_ptr u64

datatype 'a consumer = C_idle | C_spin u64 | C_data u64 | C_seq u64 | C_ptr u64

record 'a spsc_sys =
  queue :: "'a spsc_queue"
  producer :: "'a producer"
  consumer :: "'a consumer"
  sent :: "'a list"
  received :: "'a list"

text \<open>The steps of \<open>enqueue\<close>.\<close>

fun enqueue_step :: "'a producer \<Rightarrow> 'a spsc_queue \<Rightarrow> 'a producer \<times> 'a spsc_queue" where
  "enqueue_step P_idle q = (P_idle, q)"
| "enqueue_step (P_spin x pos) q =
     (if sequence (cell_at (cells q) pos) \<noteq> pos then (P_spin x pos, q) else (P_data x pos, q))"
| "enqueue_step (P_data x pos) q =
     (P_seq x pos, q\<lparr>cells := set_cell (cells q) pos ((cell_at (cells q) pos)\<lparr>cdata := x\<rparr>)\<rparr>)"
| "enqueue_step (P_seq x pos) q =
     (P_ptr pos, q\<lparr>cells := set_cell (cells q) pos ((cell_at (cells q) pos)\<lparr>sequence := pos + 1\<rparr>)\<rparr>)"
| "enqueue_step (P_ptr pos) q = (P_idle, q\<lparr>enqueue_ptr := pos + 1\<rparr>)"

text \<open>The steps of \<open>dequeue\<close>; the value read is the third component.\<close>

fun dequeue_step :: "'a consumer \<Rightarrow> 'a spsc_queue \<Rightarrow> 'a consumer \<times> 'a spsc_queue \<times> 'a list" where
  "dequeue_step C_idle q = (C_idle, q, [])"
| "dequeue_step (C_spin pos) q =
     (if sequence (cell_at (cells q) pos) \<noteq> pos + 1 then (C_spin pos, q, []) else (C_data pos, q, []))"
| "dequeue_step (C_data pos) q = (C_seq pos, q, [cdata (cell_at (cells q) pos)])"
| "dequeue_step (C_seq pos) q =
     (C_ptr pos, q\<lparr>cells := set_cell (cells q) pos
        ((cell_at (cells q) pos)\<lparr>sequence := pos + of_nat (length (cells q))\<rparr>)\<rparr>, [])"
| "dequeue_step (C_ptr pos) q = (C_idle, q\<lparr>dequeue_ptr := pos + 1\<rparr>, [])"

inductive spsc_step :: "'a spsc_sys \<Rightarrow> 'a spsc_sys \<Rightarrow> bool" where
  call_enqueue: "producer s = P_idle \<Longrightarrow>
     spsc_step s (s\<lparr>producer := P_spin x (enqueue_ptr (queue s)), sent := sent s @ [x]\<rparr>)"
| run_enqueue: "producer s \<noteq> P_idle \<Longrightarrow> enqueue_step (producer s) (queue s) = (p', q') \<Longrightarrow>
     spsc_step s (s\<lparr>producer := p', queue := q'\<rparr>)"
| call_dequeue: "consumer s = C_idle \<Longrightarrow>
     spsc_step s (s\<lparr>consumer := C_spin (dequeue_ptr (queue s))\<rparr>)"
| run_dequeue: "consumer s \<noteq> C_idle \<Longrightarrow> dequeue_step (consumer s) (queue s) = (c', q', xs) \<Longrightarrow>
     spsc_step s (s\<lparr>consumer := c', queue := q', received := received s @ xs\<rparr>)"

definition spsc_init :: "nat \<Rightarrow> 'a \<Rightarrow> 'a spsc_sys" where
  "spsc_init S x0 =
     \<lparr>queue = spsc_new S x0, producer = P_idle, consumer = C_idle, sent = [], received = []\<rparr>"

inductive spsc_reach :: "nat \<Rightarrow> 'a \<Rightarrow> 'a spsc_sys \<Rightarrow> bool" for S x0 where
  start: "spsc_reach S x0 (spsc_init S x0)"
| step: "spsc_reach S x0 s \<Longrightarrow> spsc_step s s' \<Longrightarrow> spsc_reach S x0 s'"

section \<open>The invariant\<close>

text \<open>
  \<open>E\<close> positions have been published and \<open>D\<close> released. \<open>prod_ok\<close> and \<open>cons_ok\<close> say where each thread is.
\<close>

fun prod_ok :: "nat \<Rightarrow> nat \<Rightarrow> nat \<Rightarrow> 'a cell list \<Rightarrow> 'a list \<Rightarrow> u64 \<Rightarrow> 'a producer \<Rightarrow> bool" where
  "prod_ok S D E cs xs ptr P_idle \<longleftrightarrow> length xs = E \<and> ptr = of_nat E"
| "prod_ok S D E cs xs ptr (P_spin x pos) \<longleftrightarrow>
     length xs = Suc E \<and> xs ! E = x \<and> ptr = of_nat E \<and> pos = of_nat E"
| "prod_ok S D E cs xs ptr (P_data x pos) \<longleftrightarrow>
     length xs = Suc E \<and> xs ! E = x \<and> ptr = of_nat E \<and> pos = of_nat E \<and> E < D + S"
| "prod_ok S D E cs xs ptr (P_seq x pos) \<longleftrightarrow>
     length xs = Suc E \<and> xs ! E = x \<and> ptr = of_nat E \<and> pos = of_nat E \<and> E < D + S \<and> cdata (cs ! (E mod S)) = x"
| "prod_ok S D E cs xs ptr (P_ptr pos) \<longleftrightarrow>
     length xs = E \<and> 0 < E \<and> ptr = of_nat (E - 1) \<and> pos = of_nat (E - 1)"

fun cons_ok :: "nat \<Rightarrow> nat \<Rightarrow> nat \<Rightarrow> u64 \<Rightarrow> 'a consumer \<Rightarrow> bool" where
  "cons_ok D E n ptr C_idle \<longleftrightarrow> n = D \<and> ptr = of_nat D"
| "cons_ok D E n ptr (C_spin pos) \<longleftrightarrow> n = D \<and> ptr = of_nat D \<and> pos = of_nat D"
| "cons_ok D E n ptr (C_data pos) \<longleftrightarrow> n = D \<and> ptr = of_nat D \<and> pos = of_nat D \<and> D < E"
| "cons_ok D E n ptr (C_seq pos) \<longleftrightarrow> n = Suc D \<and> ptr = of_nat D \<and> pos = of_nat D \<and> D < E"
| "cons_ok D E n ptr (C_ptr pos) \<longleftrightarrow> n = D \<and> 0 < D \<and> ptr = of_nat (D - 1) \<and> pos = of_nat (D - 1)"

definition is_prefix :: "'a list \<Rightarrow> 'a list \<Rightarrow> bool" where
  "is_prefix xs ys \<longleftrightarrow> (\<exists>zs. ys = xs @ zs)"

lemma is_prefix_Nil [simp]: "is_prefix [] ys"
  by (simp add: is_prefix_def)

lemma is_prefix_append: "is_prefix xs ys \<Longrightarrow> is_prefix xs (ys @ zs)"
  by (auto simp: is_prefix_def)

lemma is_prefix_snoc: "is_prefix xs ys \<Longrightarrow> length xs < length ys \<Longrightarrow> is_prefix (xs @ [ys ! length xs]) ys"
  by (auto simp: is_prefix_def neq_Nil_conv)

definition spsc_inv :: "nat \<Rightarrow> nat \<Rightarrow> nat \<Rightarrow> 'a spsc_sys \<Rightarrow> bool" where
  "spsc_inv S D E s \<longleftrightarrow>
     ring S D (\<lambda>k. k < E) ((!) (sent s)) (cells (queue s)) \<and> D \<le> E \<and> E \<le> D + S \<and>
     prod_ok S D E (cells (queue s)) (sent s) (enqueue_ptr (queue s)) (producer s) \<and>
     cons_ok D E (length (received s)) (dequeue_ptr (queue s)) (consumer s) \<and>
     is_prefix (received s) (sent s)"

lemma spsc_inv_init: "ring_size S \<Longrightarrow> spsc_inv S 0 0 (spsc_init S x0)"
  by (simp add: spsc_inv_def spsc_init_def spsc_new_def ring_new)

lemma prod_ok_sent: "prod_ok S D E cs xs ptr p \<Longrightarrow> E \<le> length xs"
  by (cases p) auto

lemma prod_ok_mono: "prod_ok S D E cs xs ptr p \<Longrightarrow> D \<le> D' \<Longrightarrow>
    (\<And>k. k mod S = E mod S \<Longrightarrow> E < D + S \<Longrightarrow> p \<noteq> P_idle \<Longrightarrow> cdata (cs' ! (k mod S)) = cdata (cs ! (k mod S))) \<Longrightarrow>
    prod_ok S D' E cs' xs ptr p"
  by (cases p) auto

lemma cons_ok_mono: "cons_ok D E n ptr c \<Longrightarrow> E \<le> E' \<Longrightarrow> cons_ok D E' n ptr c"
  by (cases c) auto

text \<open>The producer's test succeeds exactly when the window has a free position, the consumer's exactly
  when there is a published one.\<close>

lemma producer_test:
  assumes S: "ring_size S" and r: "ring S D (\<lambda>k. k < E) vals cs" and E: "D \<le> E" "E \<le> D + S"
  shows "sequence (cell_at cs (of_nat E)) = of_nat E \<longleftrightarrow> E < D + S"
proof (cases "E < D + S")
  case True
  then show ?thesis using ring_read(1) [OF r E(1) True] by (simp add: ring_cell_at [OF S r])
next
  case False
  then have E': "E = D + S" using E by simp
  have "1 < S" "S < 2 ^ 64" using ring_size_bounds [OF S] by auto
  then have "(of_nat (D + 1) :: u64) = of_nat E \<longleftrightarrow> D + 1 = E" by (intro of_nat_eq_near) (use E' in auto)
  moreover have "sequence (cs ! (D mod S)) = of_nat (D + 1)"
    using ring_read(1) [OF r, of D] \<open>1 < S\<close> E' by simp
  moreover have "cell_at cs (of_nat E) = cs ! (D mod S)"
    using ring_cell_at [OF S r, of E] E' by (metis mod_add_self2)
  ultimately show ?thesis using False \<open>1 < S\<close> E' by (metis add_left_cancel less_irrefl)
qed

lemma consumer_test:
  assumes S: "ring_size S" and r: "ring S D (\<lambda>k. k < E) vals cs" and E: "D \<le> E"
  shows "sequence (cell_at cs (of_nat D)) = of_nat D + 1 \<longleftrightarrow> D < E"
  using ring_read(1) [OF r, of D] ring_size_bounds [OF S] E by (auto simp: ring_cell_at [OF S r])


lemma of_nat_pred_plus: "0 < n \<Longrightarrow> of_nat (n - Suc 0) + 1 = (of_nat n :: u64)"
  by (cases n) simp_all

lemma spsc_inv_call_enqueue:
  assumes "spsc_inv S D E s" "producer s = P_idle"
  shows "spsc_inv S D E (s\<lparr>producer := P_spin x (enqueue_ptr (queue s)), sent := sent s @ [x]\<rparr>)"
proof -
  have len: "length (sent s) = E" using assms by (simp add: spsc_inv_def)
  have "ring S D (\<lambda>k. k < E) ((!) (sent s @ [x])) (cells (queue s)) =
      ring S D (\<lambda>k. k < E) ((!) (sent s)) (cells (queue s))"
    by (rule ring_cong) (simp_all add: len nth_append)
  then show ?thesis using assms len by (simp add: spsc_inv_def nth_append is_prefix_append)
qed

lemma spsc_inv_run_enqueue:
  assumes S: "ring_size S" and inv: "spsc_inv S D E s" and step: "enqueue_step (producer s) (queue s) = (p', q')"
  shows "\<exists>E'. spsc_inv S D E' (s\<lparr>producer := p', queue := q'\<rparr>)"
proof -
  let ?cs = "cells (queue s)"
  have r: "ring S D (\<lambda>k. k < E) ((!) (sent s)) ?cs" and E: "D \<le> E" "E \<le> D + S"
    and p: "prod_ok S D E ?cs (sent s) (enqueue_ptr (queue s)) (producer s)"
    and c: "cons_ok D E (length (received s)) (dequeue_ptr (queue s)) (consumer s)"
    using inv by (auto simp: spsc_inv_def)
  have len: "length ?cs = S" using r by (simp add: ring_def)
  have idx: "E mod S < S" using ring_size_bounds [OF S] by simp
  show ?thesis
  proof (cases "producer s")
    case (P_spin x pos)
    then have "pos = of_nat E" using p by simp
    then have "p' = (if E < D + S then P_data x pos else P_spin x pos)" "q' = queue s"
      using step P_spin producer_test [OF S r E] by (auto split: if_splits)
    then show ?thesis using inv p P_spin by (intro exI [of _ E]) (simp add: spsc_inv_def)
  next
    case (P_data x pos)
    then have pos: "pos = of_nat E" "E < D + S" using p by auto
    let ?cs' = "?cs[E mod S := (?cs ! (E mod S))\<lparr>cdata := x\<rparr>]"
    have q': "q' = (queue s)\<lparr>cells := ?cs'\<rparr>" "p' = P_seq x pos"
      using step P_data pos by (auto simp: ring_set_cell [OF S r] ring_cell_at [OF S r])
    have "ring S D (\<lambda>k. k < E) ((!) (sent s)) ?cs'" by (rule ring_write_data [OF r E(1) pos(2)]) simp
    then show ?thesis using inv p P_data idx len by (intro exI [of _ E]) (simp add: spsc_inv_def q')
  next
    case (P_seq x pos)
    then have pos: "pos = of_nat E" "E < D + S" "length (sent s) = Suc E" "sent s ! E = x" "cdata (?cs ! (E mod S)) = x"
      using p by auto
    let ?cs' = "?cs[E mod S := (?cs ! (E mod S))\<lparr>sequence := of_nat (E + 1)\<rparr>]"
    have q': "q' = (queue s)\<lparr>cells := ?cs'\<rparr>" "p' = P_ptr pos"
      using step P_seq pos by (auto simp: ring_set_cell [OF S r] ring_cell_at [OF S r] add.commute)
    have "ring S D ((\<lambda>k. k < E)(E := True)) (((!) (sent s))(E := x)) ?cs'"
      by (rule ring_publish [OF r E(1) pos(2) pos(5)])
    then have "ring S D (\<lambda>k. k < Suc E) ((!) (sent s)) ?cs'"
      by (rule iffD1 [OF ring_cong, rotated -1]) (auto simp: pos(4))
    then show ?thesis
      using inv p P_seq pos E c by (intro exI [of _ "Suc E"]) (simp add: spsc_inv_def q' cons_ok_mono)
  next
    case (P_ptr pos)
    then have "pos + 1 = of_nat E" "length (sent s) = E" using p by (simp_all add: of_nat_pred_plus)
    then show ?thesis using inv P_ptr step by (intro exI [of _ E]) (auto simp: spsc_inv_def)
  qed (use inv step in \<open>auto intro!: exI [of _ E] simp: spsc_inv_def\<close>)
qed


lemma spsc_inv_run_dequeue:
  assumes S: "ring_size S" and inv: "spsc_inv S D E s" and step: "dequeue_step (consumer s) (queue s) = (c', q', xs)"
  shows "\<exists>D'. spsc_inv S D' E (s\<lparr>consumer := c', queue := q', received := received s @ xs\<rparr>)"
proof -
  let ?cs = "cells (queue s)"
  have r: "ring S D (\<lambda>k. k < E) ((!) (sent s)) ?cs" and E: "D \<le> E" "E \<le> D + S"
    and p: "prod_ok S D E ?cs (sent s) (enqueue_ptr (queue s)) (producer s)"
    and c: "cons_ok D E (length (received s)) (dequeue_ptr (queue s)) (consumer s)"
    and rc: "is_prefix (received s) (sent s)"
    using inv by (auto simp: spsc_inv_def)
  have len: "length ?cs = S" using r by (simp add: ring_def)
  have idx: "D mod S < S" "0 < S" using ring_size_bounds [OF S] by simp_all
  show ?thesis
  proof (cases "consumer s")
    case (C_spin pos)
    then have "pos = of_nat D" using c by simp
    then have "c' = (if D < E then C_data pos else C_spin pos)" "q' = queue s" "xs = []"
      using step C_spin consumer_test [OF S r E(1)] by (auto split: if_splits)
    then show ?thesis using inv c C_spin by (intro exI [of _ D]) (simp add: spsc_inv_def)
  next
    case (C_data pos)
    then have pos: "pos = of_nat D" "D < E" "length (received s) = D" using c by auto
    have q': "c' = C_seq pos" "q' = queue s" "xs = [sent s ! D]"
      using step C_data pos ring_read(2) [OF r, of D] idx by (auto simp: ring_cell_at [OF S r])
    have "is_prefix (received s @ [sent s ! D]) (sent s)"
      using is_prefix_snoc [OF rc] pos prod_ok_sent [OF p] by simp
    then show ?thesis using inv c C_data pos by (intro exI [of _ D]) (simp add: spsc_inv_def q')
  next
    case (C_seq pos)
    then have pos: "pos = of_nat D" "D < E" using c by auto
    let ?cs' = "?cs[D mod S := (?cs ! (D mod S))\<lparr>sequence := of_nat (D + S)\<rparr>]"
    have q': "c' = C_ptr pos" "q' = (queue s)\<lparr>cells := ?cs'\<rparr>" "xs = []"
      using step C_seq pos by (auto simp: ring_set_cell [OF S r] ring_cell_at [OF S r] len)
    have r': "ring S (Suc D) (\<lambda>k. k < E) ((!) (sent s)) ?cs'"
      by (rule ring_release [OF r idx(2)]) (use E in simp)
    have "cdata (?cs' ! (E mod S)) = cdata (?cs ! (E mod S))"
      using idx len by (cases "E mod S = D mod S") (simp_all add: nth_list_update)
    then have "prod_ok S (Suc D) E ?cs' (sent s) (enqueue_ptr (queue s)) (producer s)"
      using p by (cases "producer s") auto
    then show ?thesis
      using inv c C_seq pos E r' by (intro exI [of _ "Suc D"]) (simp add: spsc_inv_def q')
  next
    case (C_ptr pos)
    then have "pos + 1 = of_nat D" "length (received s) = D" using c by (simp_all add: of_nat_pred_plus)
    then show ?thesis using inv C_ptr step by (intro exI [of _ D]) (auto simp: spsc_inv_def)
  qed (use inv step in \<open>auto intro!: exI [of _ D] simp: spsc_inv_def\<close>)
qed

lemma spsc_reach_inv:
  assumes S: "ring_size S" and "spsc_reach S x0 s"
  obtains D E where "spsc_inv S D E s"
proof -
  from assms(2) have "\<exists>D E. spsc_inv S D E s"
  proof (induction rule: spsc_reach.induct)
    case start
    show ?case by (intro exI) (rule spsc_inv_init [OF S])
  next
    case (step s s')
    from step.IH obtain D E where inv: "spsc_inv S D E s" by blast
    from step.hyps(2) show ?case
    proof cases
      case (call_enqueue x)
      then show ?thesis using spsc_inv_call_enqueue [OF inv] by blast
    next
      case (run_enqueue p' q')
      then show ?thesis using spsc_inv_run_enqueue [OF S inv] by blast
    next
      case call_dequeue
      have "spsc_inv S D E s'" using inv call_dequeue by (simp add: spsc_inv_def)
      then show ?thesis by blast
    next
      case (run_dequeue c' q' xs)
      then show ?thesis using spsc_inv_run_dequeue [OF S inv] by blast
    qed
  qed
  then show ?thesis using that by blast
qed


section \<open>One call at a time\<close>

definition spsc_enqueue :: "'a \<Rightarrow> 'a spsc_queue \<Rightarrow> 'a spsc_queue option" where
  "spsc_enqueue x q =
     (let pos = enqueue_ptr q; c = cell_at (cells q) pos in
      if sequence c \<noteq> pos then None
      else Some (q\<lparr>cells := set_cell (cells q) pos (c\<lparr>cdata := x, sequence := pos + 1\<rparr>), enqueue_ptr := pos + 1\<rparr>))"

definition spsc_dequeue :: "'a spsc_queue \<Rightarrow> ('a \<times> 'a spsc_queue) option" where
  "spsc_dequeue q =
     (let pos = dequeue_ptr q; c = cell_at (cells q) pos in
      if sequence c \<noteq> pos + 1 then None
      else Some (cdata c, q\<lparr>cells := set_cell (cells q) pos (c\<lparr>sequence := pos + of_nat (length (cells q))\<rparr>),
                            dequeue_ptr := pos + 1\<rparr>))"

text \<open>A call that does not wait is the four steps of its thread.\<close>

lemma spsc_enqueue_steps:
  assumes "spsc_enqueue x q = Some q'" "slot_index (length (cells q)) (enqueue_ptr q) < length (cells q)"
  shows "((\<lambda>(p, q). enqueue_step p q) ^^ 4) (P_spin x (enqueue_ptr q), q) = (P_idle, q')"
  using assms by (auto simp: spsc_enqueue_def Let_def numeral_eq_Suc set_cell_def cell_at_def split: if_splits)

text \<open>The queue at rest: the published positions, in order.\<close>

definition spsc_rep :: "nat \<Rightarrow> 'a spsc_queue \<Rightarrow> 'a list \<Rightarrow> bool" where
  "spsc_rep S q xs \<longleftrightarrow> ring_size S \<and>
     (\<exists>D vals. ring S D (\<lambda>k. k < D + length xs) vals (cells q) \<and> length xs \<le> S \<and>
        xs = map vals [D..<D + length xs] \<and>
        enqueue_ptr q = of_nat (D + length xs) \<and> dequeue_ptr q = of_nat D)"

text \<open>What a bounded first-in first-out queue promises its users.\<close>

locale bounded_fifo =
  fixes rep :: "'q \<Rightarrow> 'a list \<Rightarrow> bool"
    and cap :: nat
    and enq :: "'a \<Rightarrow> 'q \<Rightarrow> 'q option"
    and deq :: "'q \<Rightarrow> ('a \<times> 'q) option"
  assumes enq_room: "rep q xs \<Longrightarrow> length xs < cap \<Longrightarrow> \<exists>q'. enq x q = Some q' \<and> rep q' (xs @ [x])"
    and enq_full: "rep q xs \<Longrightarrow> length xs = cap \<Longrightarrow> enq x q = None"
    and deq_front: "rep q (x # xs) \<Longrightarrow> \<exists>q'. deq q = Some (x, q') \<and> rep q' xs"
    and deq_empty: "rep q [] \<Longrightarrow> deq q = None"
    and rep_cap: "rep q xs \<Longrightarrow> length xs \<le> cap"
begin

fun enq_all :: "'a list \<Rightarrow> 'q \<Rightarrow> 'q option" where
  "enq_all [] q = Some q"
| "enq_all (x # xs) q = do { q \<leftarrow> enq x q; enq_all xs q }"

fun deq_n :: "nat \<Rightarrow> 'q \<Rightarrow> ('a list \<times> 'q) option" where
  "deq_n 0 q = Some ([], q)"
| "deq_n (Suc n) q = do { (x, q) \<leftarrow> deq q; (xs, q) \<leftarrow> deq_n n q; Some (x # xs, q) }"

lemma enq_all_ok: "rep q xs \<Longrightarrow> length xs + length ys \<le> cap \<Longrightarrow> \<exists>q'. enq_all ys q = Some q' \<and> rep q' (xs @ ys)"
proof (induction ys arbitrary: q xs)
  case (Cons y ys)
  then obtain q1 where "enq y q = Some q1" "rep q1 (xs @ [y])" using enq_room [of q xs y] by auto
  then show ?case using Cons.IH [of q1 "xs @ [y]"] Cons.prems(2) by auto
qed simp

lemma deq_n_ok: "rep q xs \<Longrightarrow> n \<le> length xs \<Longrightarrow> \<exists>q'. deq_n n q = Some (take n xs, q') \<and> rep q' (drop n xs)"
proof (induction n arbitrary: q xs)
  case (Suc n)
  then obtain x ys where xs: "xs = x # ys" by (cases xs) auto
  with Suc.prems obtain q1 where "deq q = Some (x, q1)" "rep q1 ys" using deq_front by blast
  then show ?case using Suc.IH [of q1 ys] Suc.prems(2) xs by auto
qed simp

lemma round_trip:
  assumes "rep q []" "length xs \<le> cap"
  shows "\<exists>q' q''. enq_all xs q = Some q' \<and> deq_n (length xs) q' = Some (xs, q'') \<and> rep q'' []"
  using enq_all_ok [OF assms(1), of xs] deq_n_ok [of _ xs "length xs"] assms(2) by fastforce

end

lemma spsc_rep_new: "ring_size S \<Longrightarrow> spsc_rep S (spsc_new S x0) []"
  by (auto simp: spsc_rep_def spsc_new_def intro!: exI [of _ 0] ring_new)

lemma spsc_repD:
  assumes "spsc_rep S q xs"
  obtains D vals where "ring_size S" "ring S D (\<lambda>k. k < D + length xs) vals (cells q)" "length xs \<le> S"
    "xs = map vals [D..<D + length xs]" "enqueue_ptr q = of_nat (D + length xs)" "dequeue_ptr q = of_nat D"
  using assms by (auto simp: spsc_rep_def)

lemma spsc_enqueue_room:
  assumes "spsc_rep S q xs" "length xs < S"
  shows "\<exists>q'. spsc_enqueue x q = Some q' \<and> spsc_rep S q' (xs @ [x])"
proof -
  obtain D vals where S: "ring_size S" and r: "ring S D (\<lambda>k. k < D + length xs) vals (cells q)"
    and xs: "xs = map vals [D..<D + length xs]" and ptrs: "enqueue_ptr q = of_nat (D + length xs)" "dequeue_ptr q = of_nat D"
    by (rule spsc_repD [OF assms(1)]) (rule that)
  define E where "E = D + length xs"
  let ?c = "cells q ! (E mod S)"
  let ?cs = "(cells q)[E mod S := ?c\<lparr>cdata := x, sequence := of_nat E + 1\<rparr>]"
  have E: "D \<le> E" "E < D + S" using assms(2) by (simp_all add: E_def)
  have r': "ring S D (\<lambda>k. k < Suc E) (vals(E := x)) ?cs"
    by (rule ring_update [OF r E]) (auto simp: E_def)
  have "map (vals(E := x)) [D..<E] = map vals [D..<E]" by (rule map_cong) auto
  then have "xs @ [x] = map (vals(E := x)) [D..<Suc E]" using xs E(1) by (simp add: E_def)
  then have "spsc_rep S (q\<lparr>cells := ?cs, enqueue_ptr := of_nat E + 1\<rparr>) (xs @ [x])"
    unfolding spsc_rep_def using S r' assms(2) ptrs(2)
    by (intro conjI exI [of _ D] exI [of _ "vals(E := x)"]) (simp_all add: E_def)
  moreover have "spsc_enqueue x q = Some (q\<lparr>cells := ?cs, enqueue_ptr := of_nat E + 1\<rparr>)"
    using producer_test [OF S r] E ptrs
    by (simp add: spsc_enqueue_def Let_def ring_cell_at [OF S r] ring_set_cell [OF S r] flip: E_def)
  ultimately show ?thesis by blast
qed

lemma spsc_enqueue_full:
  assumes "spsc_rep S q xs" "length xs = S"
  shows "spsc_enqueue x q = None"
proof -
  obtain D vals where S: "ring_size S" and r: "ring S D (\<lambda>k. k < D + length xs) vals (cells q)"
    and ptrs: "enqueue_ptr q = of_nat (D + length xs)"
    by (rule spsc_repD [OF assms(1)]) (rule that)
  have "sequence (cell_at (cells q) (enqueue_ptr q)) \<noteq> enqueue_ptr q"
    unfolding ptrs using producer_test [OF S r] assms(2) by simp
  then show ?thesis by (simp add: spsc_enqueue_def Let_def)
qed

lemma spsc_dequeue_front:
  assumes "spsc_rep S q (x # xs)"
  shows "\<exists>q'. spsc_dequeue q = Some (x, q') \<and> spsc_rep S q' xs"
proof -
  obtain D vals where S: "ring_size S" and r: "ring S D (\<lambda>k. k < D + length (x # xs)) vals (cells q)"
    and le: "length (x # xs) \<le> S" and xs: "x # xs = map vals [D..<D + length (x # xs)]"
    and ptrs: "enqueue_ptr q = of_nat (D + length (x # xs))" "dequeue_ptr q = of_nat D"
    by (rule spsc_repD [OF assms]) (rule that)
  let ?c = "cells q ! (D mod S)"
  let ?cs = "(cells q)[D mod S := ?c\<lparr>sequence := of_nat (D + S)\<rparr>]"
  have "[D..<D + length (x # xs)] = D # [Suc D..<Suc D + length xs]"
    using upt_conv_Cons [of D "D + length (x # xs)"] by (simp del: upt_Suc)
  then have x: "x = vals D" "xs = map vals [Suc D..<Suc D + length xs]" using xs by simp_all
  have S0: "0 < S" using ring_size_bounds [OF S] by simp
  have r': "ring S (Suc D) (\<lambda>k. k < D + length (x # xs)) vals ?cs"
    by (rule ring_release [OF r S0]) (use le in simp)
  have "spsc_rep S (q\<lparr>cells := ?cs, dequeue_ptr := of_nat D + 1\<rparr>) xs"
    unfolding spsc_rep_def using S r' le x(2) ptrs(1)
    by (intro conjI exI [of _ "Suc D"] exI [of _ vals]) (simp_all add: add.commute)
  moreover have "cdata ?c = x" using ring_read(2) [OF r, of D] S0 x(1) by simp
  moreover have "length (cells q) = S" using r by (simp add: ring_def)
  ultimately show ?thesis
    using consumer_test [OF S r] ptrs
    by (auto simp: spsc_dequeue_def Let_def ring_cell_at [OF S r] ring_set_cell [OF S r])
qed

lemma spsc_dequeue_empty:
  assumes "spsc_rep S q []"
  shows "spsc_dequeue q = None"
proof -
  obtain D vals where S: "ring_size S" and r: "ring S D (\<lambda>k. k < D + length ([] :: 'a list)) vals (cells q)"
    and ptrs: "dequeue_ptr q = of_nat D"
    by (rule spsc_repD [OF assms]) (rule that)
  have "sequence (cell_at (cells q) (dequeue_ptr q)) \<noteq> dequeue_ptr q + 1"
    unfolding ptrs using consumer_test [OF S r] by simp
  then show ?thesis by (simp add: spsc_dequeue_def Let_def)
qed

interpretation spsc: bounded_fifo "spsc_rep S" S spsc_enqueue spsc_dequeue for S
proof (unfold_locales, goal_cases)
  case (5 q xs)
  then show ?case by (auto simp: spsc_rep_def)
qed (rule spsc_enqueue_room spsc_enqueue_full spsc_dequeue_front spsc_dequeue_empty; assumption)+


section \<open>Properties\<close>

text \<open>Schedules, to exhibit reachable states: \<open>Some x\<close> lets the producer act (calling with \<open>x\<close> when it is
  idle), \<open>None\<close> the consumer.\<close>

fun schedule :: "'a option list \<Rightarrow> 'a spsc_sys \<Rightarrow> 'a spsc_sys" where
  "schedule [] s = s"
| "schedule (Some x # ts) s = schedule ts
     (if producer s = P_idle then s\<lparr>producer := P_spin x (enqueue_ptr (queue s)), sent := sent s @ [x]\<rparr>
      else case enqueue_step (producer s) (queue s) of (p', q') \<Rightarrow> s\<lparr>producer := p', queue := q'\<rparr>)"
| "schedule (None # ts) s = schedule ts
     (if consumer s = C_idle then s\<lparr>consumer := C_spin (dequeue_ptr (queue s))\<rparr>
      else case dequeue_step (consumer s) (queue s) of (c', q', xs) \<Rightarrow>
        s\<lparr>consumer := c', queue := q', received := received s @ xs\<rparr>)"

lemma schedule_reach: "spsc_reach S x0 s \<Longrightarrow> spsc_reach S x0 (schedule ts s)"
proof (induction ts s rule: schedule.induct)
  case (2 x ts s)
  show ?case
  proof (cases "producer s = P_idle")
    case True
    then show ?thesis using "2.IH" spsc_reach.step [OF "2.prems" call_enqueue [OF True]] by simp
  next
    case False
    then show ?thesis using "2.IH" spsc_reach.step [OF "2.prems" run_enqueue [OF False]]
      by (simp split: prod.splits)
  qed
next
  case (3 ts s)
  show ?case
  proof (cases "consumer s = C_idle")
    case True
    then show ?thesis using "3.IH" spsc_reach.step [OF "3.prems" call_dequeue [OF True]] by simp
  next
    case False
    then show ?thesis using "3.IH" spsc_reach.step [OF "3.prems" run_dequeue [OF False]]
      by (simp split: prod.splits)
  qed
qed simp

definition demo_schedule :: "nat spsc_sys" where
  "demo_schedule = schedule [Some 7, Some 7, Some 7, Some 7, Some 7, Some 8, None, Some 8, None, None, Some 8] (spsc_init 2 0)"

lemma ring_size_2: "ring_size 2"
  unfolding ring_size_def by (rule exI [of _ 1]) simp

lemma demo_schedule_reach: "spsc_reach 2 0 demo_schedule"
  unfolding demo_schedule_def by (rule schedule_reach [OF spsc_reach.start])

lemma demo_schedule_state:
  "received demo_schedule = [7]" "sent demo_schedule = [7, 8]" "producer demo_schedule = P_seq 8 1" "consumer demo_schedule = C_seq 0"
  by (simp_all add: demo_schedule_def spsc_init_def spsc_new_def new_cells_def cell_at_def set_cell_def slot_index_def numeral_eq_Suc upt_rec)

text \<open>
  C5: The queue is first-in first-out and loses nothing. Under every interleaving of one producer and one
  consumer, for a ring of two cells or more, and also when the 64-bit counters have wrapped around,
  the values received are the values sent, in order, without loss or duplication; and at most the
  ring's capacity plus the call in progress is in flight.
\<close>

theorem spsc_queue_fifo:
  assumes "ring_size S" "spsc_reach S x0 s"
  shows "is_prefix (received s) (sent s) \<and> length (sent s) \<le> length (received s) + S + 1"
proof -
  obtain D E where inv: "spsc_inv S D E s" by (rule spsc_reach_inv [OF assms])
  then have "length (sent s) \<le> Suc E" by (cases "producer s") (auto simp: spsc_inv_def)
  moreover have "D \<le> length (received s)" using inv by (cases "consumer s") (auto simp: spsc_inv_def)
  ultimately show ?thesis using inv by (simp add: spsc_inv_def)
qed

theorem spsc_queue_fifo_witness:
  "is_prefix [7 :: nat] [7, 8] \<and> length [7 :: nat, 8] \<le> length [7 :: nat] + 2 + 1"
  using spsc_queue_fifo [OF ring_size_2 demo_schedule_reach] unfolding demo_schedule_state by simp

text \<open>
  The plain accesses to \<open>data\<close> never meet. When the producer is about to write the data of its cell
  or to publish it, and the consumer is about to read the data of its cell or to release it, the two
  cells are different.
\<close>

theorem spsc_queue_no_data_race:
  assumes "ring_size S" "spsc_reach S x0 s"
    and "producer s = P_data x pos \<or> producer s = P_seq x pos"
    and "consumer s = C_data pos' \<or> consumer s = C_seq pos'"
  shows "slot_index S pos \<noteq> slot_index S pos'"
proof -
  obtain D E where inv: "spsc_inv S D E s" by (rule spsc_reach_inv [OF assms(1,2)])
  then have "pos = of_nat E" "E < D + S" "pos' = of_nat D" "D < E"
    using assms(3,4) by (auto simp: spsc_inv_def)
  then show ?thesis using window_mod_inj [of D E S D] assms(1) by (auto simp: slot_index_mod)
qed

theorem spsc_queue_no_data_race_witness: "slot_index 2 1 \<noteq> slot_index 2 0"
  using spsc_queue_no_data_race [OF ring_size_2 demo_schedule_reach] by (simp add: demo_schedule_state)

text \<open>
  The two threads never wait for each other. Whenever the producer's busy-wait test fails, the ring is
  full and a waiting consumer's test succeeds; whenever the consumer's fails, a waiting producer's
  test succeeds.
\<close>

theorem spsc_queue_no_deadlock:
  assumes "ring_size S" "spsc_reach S x0 s" "producer s = P_spin x pos" "consumer s = C_spin pos'"
  shows "fst (enqueue_step (producer s) (queue s)) = P_data x pos \<or>
    fst (dequeue_step (consumer s) (queue s)) = C_data pos'"
proof -
  obtain D E where inv: "spsc_inv S D E s" by (rule spsc_reach_inv [OF assms(1,2)])
  then have r: "ring S D (\<lambda>k. k < E) ((!) (sent s)) (cells (queue s))" and E: "D \<le> E" "E \<le> D + S"
    and pos: "pos = of_nat E" "pos' = of_nat D" using assms(3,4) by (auto simp: spsc_inv_def)
  have "E < D + S \<or> D < E" using ring_size_bounds [OF assms(1)] by auto
  then show ?thesis
    using producer_test [OF assms(1) r E] consumer_test [OF assms(1) r E(1)] assms(3,4) pos by auto
qed

theorem spsc_queue_no_deadlock_witness:
  "fst (enqueue_step (P_spin 7 0) (spsc_new 2 0)) = P_data (7 :: nat) 0 \<or>
   fst (dequeue_step (C_spin 0) (spsc_new 2 (0 :: nat))) = C_data 0"
proof -
  define s where "s = schedule [Some (7 :: nat), None] (spsc_init 2 0)"
  have st: "producer s = P_spin 7 0" "consumer s = C_spin 0" "queue s = spsc_new 2 0"
    by (simp_all add: s_def spsc_init_def spsc_new_def)
  have "spsc_reach 2 0 s" unfolding s_def by (rule schedule_reach [OF spsc_reach.start])
  from spsc_queue_no_deadlock [OF ring_size_2 this st(1,2)] show ?thesis unfolding st .
qed

text \<open>
  The \<open>static_assert\<close> on the capacity admits a ring of one cell, for which the protocol is wrong. The
  sequence number of a published cell then equals the next position to be written, so a second
  \<open>enqueue\<close> overwrites the unread value, and the consumer waits for ever for a sequence number that
  has passed.
\<close>

theorem spsc_queue_of_one_cell_loses_data:
  "\<exists>q1 q2. spsc_enqueue a (spsc_new 1 x0) = Some q1 \<and> spsc_enqueue b q1 = Some q2 \<and>
     map cdata (cells q2) = [b] \<and> spsc_dequeue q2 = None"
  by (simp add: spsc_enqueue_def spsc_dequeue_def spsc_new_def new_cells_def cell_at_def set_cell_def slot_index_def)

text \<open>
  One call at a time the queue is a bounded list. Starting from an empty queue, up to the capacity of
  values can be enqueued without waiting, and dequeuing as often returns them in order and leaves the
  queue empty, wherever in the 64-bit range the counters are.
\<close>

theorem spsc_queue_round_trip:
  assumes "spsc_rep S q []" "length xs \<le> S"
  shows "\<exists>q' q''. spsc.enq_all xs q = Some q' \<and> spsc.deq_n (length xs) q' = Some (xs, q'') \<and> spsc_rep S q'' []"
  using spsc.round_trip [OF assms] .

theorem spsc_queue_round_trip_witness:
  "\<exists>q' q''. spsc.enq_all [4, 5] (spsc_new 2 (0 :: nat)) = Some q' \<and>
     spsc.deq_n (length [4 :: nat, 5]) q' = Some ([4, 5], q'') \<and> spsc_rep 2 q'' []"
  by (rule spsc_queue_round_trip [OF spsc_rep_new [OF ring_size_2]]) simp

end
