(* ===== verification/Pipeline.thy ===== *)
theory Pipeline
  imports Engine_Correct Spsc_Queue
begin

text \<open>
  The program of \<open>4_order_book_proj/src/main.cpp\<close>: the reader, engine and writer threads, joined by two
  single-producer single-consumer queues.

  The reader enqueues the messages the network device makes of what it reads. The engine dequeues one
  message, processes it and enqueues the responses; its state is its own, so that the responses of one
  message are computed in one step and then enqueued one after the other. The writer dequeues the
  responses and sends them. Every access of a thread to a queue is a step of its own, and the steps of
  the three threads interleave in every way. \<open>handled\<close> records the messages the engine has processed.
\<close>

definition MAX_QUEUE_SIZE :: nat where "MAX_QUEUE_SIZE = 2048"
definition MAX_ORDER_BUFFER_SIZE :: nat where "MAX_ORDER_BUFFER_SIZE = 2048"
definition ALLOCATOR_SIZE :: nat where "ALLOCATOR_SIZE = 2048"

section \<open>One thread at a queue\<close>

definition enqueue_call :: "'a \<Rightarrow> 'a spsc_sys \<Rightarrow> 'a spsc_sys" where
  "enqueue_call x s = s\<lparr>producer := P_spin x (enqueue_ptr (queue s)), sent := sent s @ [x]\<rparr>"

definition enqueue_move :: "'a spsc_sys \<Rightarrow> 'a spsc_sys" where
  "enqueue_move s = (case enqueue_step (producer s) (queue s) of (p', q') \<Rightarrow> s\<lparr>producer := p', queue := q'\<rparr>)"

definition dequeue_call :: "'a spsc_sys \<Rightarrow> 'a spsc_sys" where
  "dequeue_call s = s\<lparr>consumer := C_spin (dequeue_ptr (queue s))\<rparr>"

definition dequeue_move :: "'a spsc_sys \<Rightarrow> 'a spsc_sys" where
  "dequeue_move s = (case dequeue_step (consumer s) (queue s) of (c', q', xs) \<Rightarrow>
     s\<lparr>consumer := c', queue := q', received := received s @ xs\<rparr>)"

lemma spsc_moves:
  "producer s = P_idle \<Longrightarrow> spsc_reach S x0 s \<Longrightarrow> spsc_reach S x0 (enqueue_call x s)"
  "producer s \<noteq> P_idle \<Longrightarrow> spsc_reach S x0 s \<Longrightarrow> spsc_reach S x0 (enqueue_move s)"
  "consumer s = C_idle \<Longrightarrow> spsc_reach S x0 s \<Longrightarrow> spsc_reach S x0 (dequeue_call s)"
  "consumer s \<noteq> C_idle \<Longrightarrow> spsc_reach S x0 s \<Longrightarrow> spsc_reach S x0 (dequeue_move s)"
  unfolding enqueue_call_def enqueue_move_def dequeue_call_def dequeue_move_def
  by (auto split: prod.splits intro: spsc_reach.step call_enqueue run_enqueue call_dequeue run_dequeue)

lemma spsc_moves_log [simp]:
  "sent (enqueue_call x s) = sent s @ [x]" "received (enqueue_call x s) = received s" "consumer (enqueue_call x s) = consumer s"
  "sent (enqueue_move s) = sent s" "received (enqueue_move s) = received s" "consumer (enqueue_move s) = consumer s"
  "sent (dequeue_call s) = sent s" "received (dequeue_call s) = received s" "sent (dequeue_move s) = sent s"
  "consumer (dequeue_call s) = C_spin (dequeue_ptr (queue s))"
  "producer (dequeue_call s) = producer s" "producer (dequeue_move s) = producer s"
  by (simp_all add: enqueue_call_def enqueue_move_def dequeue_call_def dequeue_move_def split: prod.splits)

lemma spsc_prefix:
  assumes "ring_size S" "spsc_reach S x0 s"
  shows "is_prefix (received s) (sent s)"
proof -
  obtain D E where "spsc_inv S D E s" by (rule spsc_reach_inv [OF assms])
  then show ?thesis by (simp add: spsc_inv_def)
qed

section \<open>The three threads\<close>

datatype engine_pc = G_get | G_wait | G_put

record pipeline =
  inq :: "InboundMessage spsc_sys"
  outq :: "OutboundMessage spsc_sys"
  epc :: engine_pc
  eng :: Engine
  todo :: "OutboundMessage list"
  handled :: "InboundMessage list"

definition pipeline_init :: "nat \<Rightarrow> InboundMessage \<Rightarrow> OutboundMessage \<Rightarrow> Engine \<Rightarrow> pipeline" where
  "pipeline_init S m0 r0 e = \<lparr>inq = spsc_init S m0, outq = spsc_init S r0, epc = G_get, eng = e, todo = [], handled = []\<rparr>"

inductive pipe_step :: "(nat \<Rightarrow> timespec) \<Rightarrow> pipeline \<Rightarrow> pipeline \<Rightarrow> bool" for clk where
  reader_call: "producer (inq s) = P_idle \<Longrightarrow> pipe_step clk s (s\<lparr>inq := enqueue_call m (inq s)\<rparr>)"
| reader_move: "producer (inq s) \<noteq> P_idle \<Longrightarrow> pipe_step clk s (s\<lparr>inq := enqueue_move (inq s)\<rparr>)"
| engine_call: "epc s = G_get \<Longrightarrow> consumer (inq s) = C_idle \<Longrightarrow>
     pipe_step clk s (s\<lparr>inq := dequeue_call (inq s), epc := G_wait\<rparr>)"
| engine_move: "epc s = G_wait \<Longrightarrow> consumer (inq s) \<noteq> C_idle \<Longrightarrow> pipe_step clk s (s\<lparr>inq := dequeue_move (inq s)\<rparr>)"
| engine_process: "epc s = G_wait \<Longrightarrow> consumer (inq s) = C_idle \<Longrightarrow>
     process clk (last (received (inq s))) (eng s) = Some (Inr e') \<Longrightarrow>
     pipe_step clk s (s\<lparr>eng := e', todo := drop (length (outgoing (eng s))) (outgoing e'), epc := G_put,
       handled := handled s @ [last (received (inq s))]\<rparr>)"
| engine_send: "epc s = G_put \<Longrightarrow> todo s = r # rs \<Longrightarrow> producer (outq s) = P_idle \<Longrightarrow>
     pipe_step clk s (s\<lparr>outq := enqueue_call r (outq s), todo := rs\<rparr>)"
| engine_send_move: "epc s = G_put \<Longrightarrow> producer (outq s) \<noteq> P_idle \<Longrightarrow> pipe_step clk s (s\<lparr>outq := enqueue_move (outq s)\<rparr>)"
| engine_next: "epc s = G_put \<Longrightarrow> todo s = [] \<Longrightarrow> producer (outq s) = P_idle \<Longrightarrow> pipe_step clk s (s\<lparr>epc := G_get\<rparr>)"
| writer_call: "consumer (outq s) = C_idle \<Longrightarrow> pipe_step clk s (s\<lparr>outq := dequeue_call (outq s)\<rparr>)"
| writer_move: "consumer (outq s) \<noteq> C_idle \<Longrightarrow> pipe_step clk s (s\<lparr>outq := dequeue_move (outq s)\<rparr>)"

inductive pipe_reach :: "(nat \<Rightarrow> timespec) \<Rightarrow> pipeline \<Rightarrow> pipeline \<Rightarrow> bool" for clk s0 where
  pipe_start: "pipe_reach clk s0 s0"
| pipe_next: "pipe_reach clk s0 s \<Longrightarrow> pipe_step clk s s' \<Longrightarrow> pipe_reach clk s0 s'"

section \<open>The invariant\<close>

text \<open>What the engine thread has received and not yet handled.\<close>

fun taken :: "engine_pc \<Rightarrow> 'a consumer \<Rightarrow> nat" where
  "taken G_wait (C_spin pos) = 0"
| "taken G_wait (C_data pos) = 0"
| "taken G_wait _ = 1"
| "taken _ _ = 0"

definition pipe_inv :: "(nat \<Rightarrow> timespec) \<Rightarrow> nat \<Rightarrow> Engine \<Rightarrow> pipeline \<Rightarrow> bool" where
  "pipe_inv clk S e0 s \<longleftrightarrow>
     (\<exists>x0. spsc_reach S x0 (inq s)) \<and> (\<exists>y0. spsc_reach S y0 (outq s)) \<and>
     run clk (handled s) e0 = Some (Inr (eng s)) \<and> sent (outq s) @ todo s = outgoing (eng s) \<and>
     (\<exists>ms. received (inq s) = handled s @ ms \<and> length ms = taken (epc s) (consumer (inq s))) \<and>
     (epc s \<noteq> G_wait \<longrightarrow> consumer (inq s) = C_idle) \<and> (epc s \<noteq> G_put \<longrightarrow> todo s = [] \<and> producer (outq s) = P_idle)"

lemma run_snoc: "run clk ms e = Some (Inr e1) \<Longrightarrow> run clk (ms @ [m]) e = process clk m e1"
  by (induction ms arbitrary: e) (auto split: option.splits sum.splits)

lemma requests_append:
  "requests (ms @ ms') B = (let (B1, evs) = requests ms B; (B2, evs') = requests ms' B1 in (B2, evs @ evs'))"
  by (induction ms arbitrary: B) (auto simp: Let_def split: prod.splits)

lemma dequeue_move_taken:
  assumes "consumer s \<noteq> C_idle" "received s = hs @ ms" "length ms = taken G_wait (consumer s)"
  shows "\<exists>ms'. received (dequeue_move s) = hs @ ms' \<and> length ms' = taken G_wait (consumer (dequeue_move s))"
  using assms by (cases "consumer s") (auto simp: dequeue_move_def)

lemma pipe_inv_init:
  assumes "outgoing e0 = []"
  shows "pipe_inv clk S e0 (pipeline_init S m0 r0 e0)"
  using spsc_reach.start [of S m0] spsc_reach.start [of S r0] assms
  by (auto simp: pipe_inv_def pipeline_init_def) (auto simp: spsc_init_def)

text \<open>The engine is deterministic, so what it emits for a valid message is appended to what it has emitted.\<close>

definition emits_more :: "(nat \<Rightarrow> timespec) \<Rightarrow> Engine \<Rightarrow> InboundMessage list \<Rightarrow> bool" where
  "emits_more clk e0 ms \<longleftrightarrow> (\<forall>k<length ms. \<forall>e e'. run clk (take k ms) e0 = Some (Inr e) \<longrightarrow>
     process clk (ms ! k) e = Some (Inr e') \<longrightarrow> (\<exists>rs. outgoing e' = outgoing e @ rs))"

lemma pipe_inv_step:
  assumes step: "pipe_step clk s s'" and inv: "pipe_inv clk S e0 s" and S: "ring_size S"
    and more: "emits_more clk e0 (sent (inq s'))"
  shows "pipe_inv clk S e0 s'"
  using step
proof cases
  case (reader_call m)
  then show ?thesis using inv spsc_moves(1) [of "inq s" S _ m] by (auto simp: pipe_inv_def)
next
  case reader_move
  then show ?thesis using inv spsc_moves(2) [of "inq s" S] by (auto simp: pipe_inv_def)
next
  case engine_call
  then show ?thesis using inv spsc_moves(3) [of "inq s" S] by (auto simp: pipe_inv_def)
next
  case engine_move
  then show ?thesis
    using inv spsc_moves(4) [of "inq s" S] dequeue_move_taken [of "inq s" "handled s"] by (auto simp: pipe_inv_def)
next
  case (engine_send r rs)
  then show ?thesis using inv spsc_moves(1) [of "outq s" S _ r] by (auto simp: pipe_inv_def)
next
  case engine_send_move
  then show ?thesis using inv spsc_moves(2) [of "outq s" S] by (auto simp: pipe_inv_def)
next
  case engine_next
  then show ?thesis using inv by (auto simp: pipe_inv_def)
next
  case writer_call
  then show ?thesis using inv spsc_moves(3) [of "outq s" S] by (auto simp: pipe_inv_def)
next
  case writer_move
  then show ?thesis using inv spsc_moves(4) [of "outq s" S] by (auto simp: pipe_inv_def)
next
  case (engine_process e')
  obtain ms x0 where r: "spsc_reach S x0 (inq s)" "received (inq s) = handled s @ ms" "length ms = 1"
    "run clk (handled s) e0 = Some (Inr (eng s))" "sent (outq s) @ todo s = outgoing (eng s)" "todo s = []"
    using inv engine_process by (auto simp: pipe_inv_def)
  then obtain m where ms: "ms = [m]" by (cases ms) auto
  have "is_prefix (received (inq s)) (sent (inq s))" by (rule spsc_prefix [OF S r(1)])
  then obtain zs where "sent (inq s) = handled s @ [m] @ zs" by (auto simp: is_prefix_def r(2) ms)
  then have "\<exists>rs. outgoing e' = outgoing (eng s) @ rs"
    using more r(4) engine_process(4) unfolding emits_more_def engine_process(1) by (auto simp: r(2) ms elim!: allE [of _ "length (handled s)"])
  then show ?thesis
    using inv engine_process run_snoc [OF r(4), of m] r(2,5,6) by (auto simp: pipe_inv_def ms)
qed

section \<open>The engine on valid messages\<close>

lemma requests_last_ref: "unat (last_ref (fst (requests ms B))) \<le> unat (last_ref B) + length ms"
proof (induction ms arbitrary: B)
  case (Cons m ms)
  show ?case
    using request_last_ref [of m B] Cons.IH [of "fst (request m B)"] by (auto simp: Let_def split: prod.splits)
qed simp

lemma emits_more_valid:
  assumes sim: "engine_sim T e0 B" and c: "counter e0 = 0" and len: "length ms < 2 ^ 64"
    and ok: "list_all (msg_ok (length (order_buffer e0))) ms"
  shows "emits_more clk e0 ms"
  unfolding emits_more_def
proof (intro allI impI)
  fix k e e'
  assume k: "k < length ms" and r: "run clk (take k ms) e0 = Some (Inr e)" and p: "process clk (ms ! k) e = Some (Inr e')"
  obtain B1 evs where q: "requests (take k ms) B = (B1, evs)" by fastforce
  have "list_all (msg_ok (length (order_buffer e0))) (take k ms)" using ok by (auto simp: list_all_iff dest: in_set_takeD)
  then obtain e1 where "run clk (take k ms) e0 = Some (Inr e1)" "step_to T e0 e1 B1 evs"
    using run_ok [OF sim _ _ q, of clk] c len k by auto
  then have s: "step_to T e0 e B1 evs" using r by simp
  then have sim1: "engine_sim T e B1" and n1: "length (order_buffer e) = length (order_buffer e0)" by (simp_all add: step_to_def)
  have "unat (counter e) \<le> k"
    using requests_last_ref [of "take k ms" B] q c sim_last_ref [OF sim] sim_last_ref [OF sim1] k by simp
  then have "unat (counter e) + 1 < 2 ^ 64" using k len by simp
  moreover have "msg_ok (length (order_buffer e)) (ms ! k)" using ok k n1 by (simp add: list_all_length)
  moreover obtain B2 evs2 where "request (ms ! k) B1 = (B2, evs2)" by fastforce
  ultimately have "step_to T e e' B2 evs2" using process_ok [OF sim1, of "ms ! k" B2 evs2 clk] p by auto
  then show "\<exists>rs. outgoing e' = outgoing e @ rs" by (auto simp: step_to_def emits_def)
qed

lemma pipe_step_sent: "pipe_step clk s s' \<Longrightarrow> is_prefix (sent (inq s)) (sent (inq s'))"
  by (induction rule: pipe_step.induct) (auto simp: is_prefix_def)

lemma emits_more_prefix: "emits_more clk e0 (ms @ ms') \<Longrightarrow> emits_more clk e0 ms"
  unfolding emits_more_def
proof (intro allI impI)
  fix k e e'
  assume all: "\<forall>k<length (ms @ ms'). \<forall>e e'. run clk (take k (ms @ ms')) e0 = Some (Inr e) \<longrightarrow>
      process clk ((ms @ ms') ! k) e = Some (Inr e') \<longrightarrow> (\<exists>rs. outgoing e' = outgoing e @ rs)"
    and k: "k < length ms" and r: "run clk (take k ms) e0 = Some (Inr e)" "process clk (ms ! k) e = Some (Inr e')"
  from spec [OF all, of k] k r show "\<exists>rs. outgoing e' = outgoing e @ rs" by (auto simp: nth_append)
qed

lemma pipe_reach_inv:
  assumes "ring_size S" "outgoing e0 = []" "pipe_reach clk (pipeline_init S m0 r0 e0) s" "emits_more clk e0 (sent (inq s))"
  shows "pipe_inv clk S e0 s"
  using assms(3,4)
proof induction
  case pipe_start
  show ?case by (rule pipe_inv_init [OF assms(2)])
next
  case (pipe_next s s')
  obtain zs where "sent (inq s') = sent (inq s) @ zs" using pipe_step_sent [OF pipe_next(2)] by (auto simp: is_prefix_def)
  then have "emits_more clk e0 (sent (inq s))" using pipe_next.prems emits_more_prefix by metis
  then show ?case using pipe_next.IH pipe_inv_step [OF pipe_next(2) _ assms(1) pipe_next.prems] by blast
qed

section \<open>Properties\<close>

lemma map_is_prefix: "is_prefix xs ys \<Longrightarrow> is_prefix (map f xs) (map f ys)"
  by (auto simp: is_prefix_def)

text \<open>
  C2: The three threads together implement the book. Whatever the interleaving, when the messages read so
  far are valid requests, the responses that have reached the writer decode to an initial part of the events of the abstract
  price-time book on exactly these messages, in order; and when the queues are drained and the engine waits for the next
  message, to all of them.
\<close>

theorem pipeline_implements_book:
  assumes "ring_size S" "0 < n" "n < 2 ^ 64" "0 < Size" "Size < 2 ^ 64"
    and new: "Allocator_new sz Size (Some base) = Inr A"
    and reach: "pipe_reach clk (pipeline_init S m0 r0 (Engine_new n A)) s"
    and valid: "length (sent (inq s)) < 2 ^ 64" "list_all (msg_ok n) (sent (inq s))"
  shows "is_prefix (map event_of (received (outq s))) (map Some (snd (requests (sent (inq s)) (empty_book Size)))) \<and>
    (epc s = G_get \<and> received (inq s) = sent (inq s) \<and> received (outq s) = sent (outq s) \<longrightarrow>
     map event_of (received (outq s)) = map Some (snd (requests (sent (inq s)) (empty_book Size))))"
proof -
  let ?e0 = "Engine_new n A" let ?B = "empty_book Size"
  note sim = Engine_new_sim [OF assms(2-5) new]
  have out0: "outgoing ?e0 = []" by (simp add: Engine_new_def)
  have more: "emits_more clk ?e0 (sent (inq s))"
    by (rule emits_more_valid [OF sim]) (use valid in \<open>simp_all add: demo_counter\<close>)
  have inv: "pipe_inv clk S ?e0 s" by (rule pipe_reach_inv [OF assms(1) out0 reach more])
  obtain x0 y0 ms where i: "spsc_reach S x0 (inq s)" "spsc_reach S y0 (outq s)" "run clk (handled s) ?e0 = Some (Inr (eng s))"
    "sent (outq s) @ todo s = outgoing (eng s)" "received (inq s) = handled s @ ms" "length ms = taken (epc s) (consumer (inq s))"
    "epc s \<noteq> G_put \<longrightarrow> todo s = []" using inv by (auto simp: pipe_inv_def)
  obtain zs where zs: "sent (inq s) = handled s @ zs"
    using spsc_prefix [OF assms(1) i(1)] i(5) by (auto simp: is_prefix_def)
  obtain B1 evs where q: "requests (handled s) ?B = (B1, evs)" by fastforce
  obtain e1 where "run clk (handled s) ?e0 = Some (Inr e1)" "step_to (set (slots base (used_size sz) Size)) ?e0 e1 B1 evs"
    using run_ok [OF sim _ _ q, of clk] valid zs by (auto simp: demo_counter)
  then have ev: "map event_of (outgoing (eng s)) = map Some evs" using i(3) by (auto simp: step_to_def emits_def events_of_def out0)
  have "is_prefix (map event_of (received (outq s))) (map event_of (outgoing (eng s)))"
    using spsc_prefix [OF assms(1) i(2)] by (auto simp: is_prefix_def simp flip: i(4))
  moreover have "snd (requests (sent (inq s)) ?B) = evs @ snd (requests zs B1)"
    by (simp add: zs requests_append q Let_def split: prod.splits)
  moreover have "map event_of (received (outq s)) = map Some (snd (requests (sent (inq s)) ?B))"
    if "epc s = G_get" "received (inq s) = sent (inq s)" "received (outq s) = sent (outq s)"
    using that i(4-7) ev zs q by simp
  ultimately show ?thesis using ev by (auto simp: is_prefix_def)
qed

theorem pipeline_implements_book_witness:
  "is_prefix (map event_of []) (map Some (snd (requests [hd demo_msgs] (empty_book 2)))) \<and>
    (\<exists>s. pipe_reach (\<lambda>_. (0, 0)) (pipeline_init 2 (hd demo_msgs) \<lparr>out_account = 0, out_bytes = []\<rparr> (Engine_new 6 demo_pool)) s \<and>
      sent (inq s) = [hd demo_msgs] \<and> received (outq s) = [])"
proof -
  let ?init = "pipeline_init 2 (hd demo_msgs) \<lparr>out_account = 0, out_bytes = []\<rparr> (Engine_new 6 demo_pool)"
  let ?s = "?init\<lparr>inq := enqueue_call (hd demo_msgs) (inq ?init)\<rparr>"
  have reach: "pipe_reach (\<lambda>_. (0, 0)) ?init ?s"
    by (rule pipe_next [OF pipe_start reader_call]) (simp add: pipeline_init_def spsc_init_def)
  have st: "sent (inq ?s) = [hd demo_msgs]" "received (outq ?s) = []"
    by (simp_all add: pipeline_init_def spsc_init_def)
  have "list_all (msg_ok 6) [hd demo_msgs]" using demo_msgs_ok by (simp add: demo_msgs_def)
  then have "is_prefix (map event_of (received (outq ?s))) (map Some (snd (requests (sent (inq ?s)) (empty_book 2))))"
    using pipeline_implements_book [OF ring_size_2 _ _ _ _ demo_pool_new reach] unfolding st by simp
  then show ?thesis using reach st by auto
qed

end
