(* ===== verification/Shared_Ring.thy ===== *)
theory Shared_Ring
  imports Ring_Buffer
begin

text \<open>
  The ring of sequenced cells when several threads claim positions, as \<open>mpsc_queue\<close> of
  \<open>4_order_book_proj/src/queues.hpp\<close> and \<open>mpmc_queue\<close> of
  \<open>2_cpp_basics/3_lock_free/2_mpmc_queue/mpmc.cpp\<close> use it.

  \<open>E\<close> positions have been claimed by producers and \<open>C\<close> by consumers. \<open>W\<close> are the positions claimed by a
  producer and not yet published, \<open>R\<close> those claimed by a consumer and not yet released. The lemmas
  follow the six accesses of the two queues: the two tests of the sequence number, the two claims, the
  publication and the release.
\<close>

definition shared_ring :: "nat \<Rightarrow> nat \<Rightarrow> nat \<Rightarrow> nat set \<Rightarrow> nat set \<Rightarrow> (nat \<Rightarrow> 'a) \<Rightarrow> 'a cell list \<Rightarrow> bool" where
  "shared_ring S E C W R vals cs \<longleftrightarrow>
     length cs = S \<and> C \<le> E \<and> E \<le> C + S \<and>
     (\<forall>k\<in>W. C \<le> k \<and> k < E) \<and> (\<forall>r\<in>R. r < C \<and> E \<le> r + S) \<and>
     (\<forall>k. C \<le> k \<and> k < C + S \<longrightarrow> sequence (cs ! (k mod S)) =
        of_nat (if k < E then (if k \<in> W then k else k + 1) else if S \<le> k \<and> k - S \<in> R then k - S + 1 else k)) \<and>
     (\<forall>k. (C \<le> k \<and> k < E \<and> k \<notin> W) \<or> k \<in> R \<longrightarrow> cdata (cs ! (k mod S)) = vals k)"

text \<open>The position \<open>E\<close> can be claimed by a producer, and the position \<open>C\<close> by a consumer.\<close>

definition claimable :: "nat \<Rightarrow> nat \<Rightarrow> nat \<Rightarrow> nat set \<Rightarrow> bool" where
  "claimable S E C R \<longleftrightarrow> E < C + S \<and> (S \<le> E \<longrightarrow> E - S \<notin> R)"

definition readable :: "nat \<Rightarrow> nat \<Rightarrow> nat set \<Rightarrow> bool" where
  "readable E C W \<longleftrightarrow> C < E \<and> C \<notin> W"

lemma shared_ring_new: "ring_size S \<Longrightarrow> shared_ring S 0 0 {} {} vals (new_cells S x0)"
  using ring_size_bounds by (force simp: shared_ring_def new_cells_def)

lemma shared_ring_bounds:
  assumes "shared_ring S E C W R vals cs"
  shows "length cs = S" "C \<le> E" "E \<le> C + S" "k \<in> W \<Longrightarrow> C \<le> k \<and> k < E" "r \<in> R \<Longrightarrow> r < C \<and> E \<le> r + S"
  using assms by (auto simp: shared_ring_def)

lemma shared_ring_seq:
  assumes "shared_ring S E C W R vals cs" "C \<le> k" "k < C + S"
  shows "sequence (cs ! (k mod S)) =
    of_nat (if k < E then (if k \<in> W then k else k + 1) else if S \<le> k \<and> k - S \<in> R then k - S + 1 else k)"
  using assms unfolding shared_ring_def by blast

lemma shared_ring_data:
  assumes "shared_ring S E C W R vals cs" "(C \<le> k \<and> k < E \<and> k \<notin> W) \<or> k \<in> R"
  shows "cdata (cs ! (k mod S)) = vals k"
  using assms unfolding shared_ring_def by blast

lemma shared_ring_cell_at:
  "ring_size S \<Longrightarrow> length cs = S \<Longrightarrow> cell_at cs (of_nat k) = cs ! (k mod S)"
  by (simp add: cell_at_def slot_index_mod)

lemma shared_ring_set_cell:
  "ring_size S \<Longrightarrow> length cs = S \<Longrightarrow> set_cell cs (of_nat k) c = cs[k mod S := c]"
  by (simp add: set_cell_def slot_index_mod)

text \<open>The positions held by a thread lie in one window, so their cells are different.\<close>

lemma held_cells_differ:
  assumes r: "shared_ring S E C W R vals cs" and S: "ring_size S"
    and "k \<in> W \<union> R" "k' \<in> W \<union> R" "k \<noteq> k'"
  shows "k mod S \<noteq> k' mod S"
proof -
  have "E - S \<le> j \<and> j < E - S + S" if "j \<in> W \<union> R" for j
    using shared_ring_bounds [OF r] that by fastforce
  then show ?thesis using window_mod_inj [of "E - S" k S k'] assms(3-5) by blast
qed

section \<open>The tests\<close>

text \<open>The cell of a position claimed earlier: its sequence number is at or past that position.\<close>

lemma window_position:
  assumes "0 < S"
  obtains j where "C \<le> j" "j < C + S" "j mod S = k mod (S :: nat)"
proof -
  define j where "j = C + (k + S * C - C) mod S"
  have le: "C \<le> k + S * C" using assms by (metis One_nat_def Suc_leI le_add2 mult.commute mult.right_neutral mult_le_mono2 order_trans)
  have "j mod S = (C + (k + S * C - C)) mod S" by (simp add: j_def mod_simps)
  also have "\<dots> = k mod S" using le by simp
  finally have "j mod S = k mod S" .
  moreover have "C \<le> j" "j < C + S" using assms by (simp_all add: j_def)
  ultimately show ?thesis by (rule that [rotated 2])
qed

lemma stale_window:
  assumes "C \<le> j" "k < C" "j mod S = k mod (S :: nat)"
  shows "k + S \<le> j"
proof -
  have "S dvd j - k" using assms mod_eq_dvd_iff_nat [of k j S] by simp
  then show ?thesis using assms by (auto dest: dvd_imp_le)
qed

lemma producer_seq:
  assumes r: "shared_ring S E C W R vals cs" and S: "ring_size S" and k: "k \<le> E"
  obtains n where "sequence (cs ! (k mod S)) = of_nat n" "n \<le> E + S"
    "n < k \<longleftrightarrow> k = E \<and> \<not> claimable S E C R" "n = k \<and> k = E \<longrightarrow> claimable S E C R"
proof -
  note b = shared_ring_bounds [OF r]
  have S1: "1 < S" using ring_size_bounds [OF S] by simp
  obtain j where j: "C \<le> j" "j < C + S" "j mod S = k mod S" by (rule window_position [of S C k]) (use S1 in simp)
  define n where "n = (if j < E then (if j \<in> W then j else j + 1) else if S \<le> j \<and> j - S \<in> R then j - S + 1 else j)"
  have seq: "sequence (cs ! (k mod S)) = of_nat n"
    using shared_ring_seq [OF r j(1,2)] by (simp add: n_def j(3))
  have n: "n \<le> E + S" using j b(2) by (auto simp: n_def)
  consider "k < C" | "C \<le> k" "k < E" | "k = E" "E < C + S" | "k = E" "E = C + S" using k b(3) by linarith
  then show ?thesis
  proof cases
    case 1
    then have "k + S \<le> j" by (rule stale_window [OF j(1) _ j(3)])
    then have "k < n" using S1 by (auto simp: n_def)
    then show ?thesis using that [OF seq n] 1 b(2) by auto
  next
    case 2
    then have "j = k" using window_mod_inj [of C j S k] j b(3) by simp
    then have "k \<le> n" using 2 by (auto simp: n_def)
    then show ?thesis using that [OF seq n] 2 by auto
  next
    case 3
    then have jk: "j = k" using window_mod_inj [of C j S k] j b(2) by simp
    have "n = (if S \<le> E \<and> E - S \<in> R then E - S + 1 else E)" using 3 jk by (simp add: n_def)
    then show ?thesis using that [OF seq n] 3 S1
      by (cases "S \<le> E \<and> E - S \<in> R") (auto simp: claimable_def)
  next
    case 4
    then have "j = C" using window_mod_inj [of C j S C] j S1 by simp
    then have "n < k" using 4 S1 by (auto simp: n_def)
    then show ?thesis using that [OF seq n] 4 by (auto simp: claimable_def)
  qed
qed

lemma consumer_seq:
  assumes r: "shared_ring S E C W R vals cs" and S: "ring_size S" and k: "k \<le> C"
  obtains n where "sequence (cs ! (k mod S)) = of_nat n" "n \<le> E + S"
    "n < k + 1 \<longleftrightarrow> k = C \<and> \<not> readable E C W" "n = k + 1 \<and> k = C \<longrightarrow> readable E C W"
proof -
  note b = shared_ring_bounds [OF r]
  have S1: "1 < S" using ring_size_bounds [OF S] by simp
  obtain j where j: "C \<le> j" "j < C + S" "j mod S = k mod S" by (rule window_position [of S C k]) (use S1 in simp)
  define n where "n = (if j < E then (if j \<in> W then j else j + 1) else if S \<le> j \<and> j - S \<in> R then j - S + 1 else j)"
  have seq: "sequence (cs ! (k mod S)) = of_nat n"
    using shared_ring_seq [OF r j(1,2)] by (simp add: n_def j(3))
  have n: "n \<le> E + S" using j b(2) by (auto simp: n_def)
  consider "k < C" | "k = C" using k by linarith
  then show ?thesis
  proof cases
    case 1
    then have "k + S \<le> j" by (rule stale_window [OF j(1) _ j(3)])
    then have "k + 1 \<le> n" using S1 by (auto simp: n_def)
    then show ?thesis using that [OF seq n] 1 by auto
  next
    case 2
    then have "j = C" using window_mod_inj [of C j S C] j S1 by simp
    then have "n = (if C < E then (if C \<in> W then C else C + 1) else if S \<le> C \<and> C - S \<in> R then C - S + 1 else C)"
      by (simp add: n_def)
    then show ?thesis using that [OF seq n] 2 S1 b(2) by (auto simp: readable_def split: if_splits)
  qed
qed

section \<open>The transitions\<close>

lemma shared_ring_claim:
  assumes r: "shared_ring S E C W R vals cs" and "claimable S E C R"
  shows "shared_ring S (Suc E) C (insert E W) R (vals(E := x)) cs"
proof -
  have c: "E < C + S" "S \<le> E \<longrightarrow> E - S \<notin> R" using assms(2) by (simp_all add: claimable_def)
  note b = shared_ring_bounds [OF r]
  have R: "Suc E \<le> k + S" if "k \<in> R" for k
    using b(5) [OF that] c(2) that by (cases "E = k + S") auto
  show ?thesis
    unfolding shared_ring_def
  proof (intro conjI allI impI ballI)
    fix k assume k: "C \<le> k \<and> k < C + S"
    show "sequence (cs ! (k mod S)) = of_nat (if k < Suc E then (if k \<in> insert E W then k else k + 1)
      else if S \<le> k \<and> k - S \<in> R then k - S + 1 else k)"
      using shared_ring_seq [OF r, of k] k c by (cases "k = E") (auto simp: less_Suc_eq)
  next
    fix k assume "C \<le> k \<and> k < Suc E \<and> k \<notin> insert E W \<or> k \<in> R"
    moreover have "k \<noteq> E" if "k \<in> R" using b(2) b(5) [OF that] by auto
    ultimately show "cdata (cs ! (k mod S)) = (vals(E := x)) k"
      using shared_ring_data [OF r, of k] by auto
  qed (use b c R in \<open>force+\<close>)
qed

lemma shared_ring_take:
  assumes r: "shared_ring S E C W R vals cs" and "readable E C W" and S: "0 < S"
  shows "shared_ring S E (Suc C) W (insert C R) vals cs"
proof -
  have c: "C < E" "C \<notin> W" using assms(2) by (simp_all add: readable_def)
  note b = shared_ring_bounds [OF r]
  show ?thesis
    unfolding shared_ring_def
  proof (intro conjI allI impI ballI)
    fix k assume k: "Suc C \<le> k \<and> k < Suc C + S"
    show "sequence (cs ! (k mod S)) = of_nat (if k < E then (if k \<in> W then k else k + 1)
      else if S \<le> k \<and> k - S \<in> insert C R then k - S + 1 else k)"
    proof (cases "k = C + S")
      case True
      then have "sequence (cs ! (k mod S)) = of_nat (C + 1)"
        using shared_ring_seq [OF r, of C] S c by simp
      then show ?thesis using True b(3) by simp
    next
      case False
      then show ?thesis using shared_ring_seq [OF r, of k] k by auto
    qed
  next
    fix k assume "Suc C \<le> k \<and> k < E \<and> k \<notin> W \<or> k \<in> insert C R"
    then show "cdata (cs ! (k mod S)) = vals k" using shared_ring_data [OF r, of k] c by auto
  next
    fix k assume "k \<in> W"
    then show "Suc C \<le> k" using b(4) [of k] c by (cases "k = C") auto
  qed (use b c in force)+
qed

text \<open>A write to the cell of a held position leaves the cells of the other positions alone.\<close>

lemma held_update_nth:
  assumes "length cs = S" "k0 < D + S" "D \<le> k0" "D \<le> k" "k < D + S"
  shows "cs[k0 mod S := c] ! (k mod S) = (if k = k0 then c else cs ! (k mod S))"
  using window_mod_inj [of D k S k0] assms by (auto simp: nth_list_update)

lemma shared_ring_write:
  assumes r: "shared_ring S E C W R vals cs" and w: "w \<in> W"
  shows "shared_ring S E C W R vals (cs[w mod S := (cs ! (w mod S))\<lparr>cdata := x\<rparr>])"
proof -
  note b = shared_ring_bounds [OF r]
  have w': "C \<le> w" "w < E" using b(4) [OF w] by simp_all
  show ?thesis
    unfolding shared_ring_def
  proof (intro conjI allI impI ballI)
    fix k assume k: "C \<le> k \<and> k < C + S"
    show "sequence (cs[w mod S := (cs ! (w mod S))\<lparr>cdata := x\<rparr>] ! (k mod S)) =
      of_nat (if k < E then (if k \<in> W then k else k + 1) else if S \<le> k \<and> k - S \<in> R then k - S + 1 else k)"
      using shared_ring_seq [OF r, of k] held_update_nth [OF b(1), of w C k] k w' b(3) by auto
  next
    fix k assume k: "(C \<le> k \<and> k < E \<and> k \<notin> W) \<or> k \<in> R"
    then have "k \<noteq> w" "E - S \<le> k" "k < E - S + S" "E - S \<le> w" "w < E - S + S"
      using w w' b(2,3) b(5) [of k] by auto
    then show "cdata (cs[w mod S := (cs ! (w mod S))\<lparr>cdata := x\<rparr>] ! (k mod S)) = vals k"
      using shared_ring_data [OF r k] held_update_nth [OF b(1), of w "E - S" k] by simp
  qed (use b in auto)
qed

lemma shared_ring_publish:
  assumes r: "shared_ring S E C W R vals cs" and w: "w \<in> W" and d: "cdata (cs ! (w mod S)) = vals w"
  shows "shared_ring S E C (W - {w}) R vals (cs[w mod S := (cs ! (w mod S))\<lparr>sequence := of_nat w + 1\<rparr>])"
    (is "shared_ring S E C _ R vals (cs[_ := ?c])")
proof -
  note b = shared_ring_bounds [OF r]
  have w': "C \<le> w" "w < E" using b(4) [OF w] by simp_all
  show ?thesis
    unfolding shared_ring_def
  proof (intro conjI allI impI ballI)
    fix k assume k: "C \<le> k \<and> k < C + S"
    show "sequence (cs[w mod S := ?c] ! (k mod S)) = of_nat (if k < E
      then (if k \<in> W - {w} then k else k + 1) else if S \<le> k \<and> k - S \<in> R then k - S + 1 else k)"
      using shared_ring_seq [OF r, of k] held_update_nth [OF b(1), of w C k ?c] k w' b(3) by (auto simp: add.commute)
  next
    fix k assume k: "(C \<le> k \<and> k < E \<and> k \<notin> W - {w}) \<or> k \<in> R"
    then have in_window: "E - S \<le> k" "k < E - S + S" "E - S \<le> w" "w < E - S + S"
      using w w' b(2,3) b(5) [of k] by auto
    have "cdata (cs ! (k mod S)) = vals k" if "k \<noteq> w" using shared_ring_data [OF r, of k] k that by auto
    then show "cdata (cs[w mod S := ?c] ! (k mod S)) = vals k"
      using held_update_nth [OF b(1), of w "E - S" k ?c] in_window d by simp
  qed (use b in auto)
qed

lemma shared_ring_release:
  assumes r: "shared_ring S E C W R vals cs" and h: "h \<in> R"
  shows "shared_ring S E C W (R - {h}) vals (cs[h mod S := (cs ! (h mod S))\<lparr>sequence := of_nat h + of_nat S\<rparr>])"
    (is "shared_ring S E C W _ vals (cs[_ := ?c])")
proof -
  note b = shared_ring_bounds [OF r]
  have h': "h < C" "E \<le> h + S" using b(5) [OF h] by simp_all
  have upd: "cs[(h + S) mod S := ?c] = cs[h mod S := ?c]" by simp
  show ?thesis
    unfolding shared_ring_def
  proof (intro conjI allI impI ballI)
    fix k assume k: "C \<le> k \<and> k < C + S"
    show "sequence (cs[h mod S := ?c] ! (k mod S)) = of_nat (if k < E
      then (if k \<in> W then k else k + 1) else if S \<le> k \<and> k - S \<in> R - {h} then k - S + 1 else k)"
      using shared_ring_seq [OF r, of k] held_update_nth [OF b(1), of "h + S" C k ?c] k h' b(2) by auto
  next
    fix k assume k: "(C \<le> k \<and> k < E \<and> k \<notin> W) \<or> k \<in> R - {h}"
    then have in_window: "k \<noteq> h" "E - S \<le> k" "k < E - S + S" "E - S \<le> h" "h < E - S + S"
      using h' b(2,3) b(5) [of k] by auto
    have "cdata (cs ! (k mod S)) = vals k" using shared_ring_data [OF r, of k] k by auto
    then show "cdata (cs[h mod S := ?c] ! (k mod S)) = vals k"
      using held_update_nth [OF b(1), of h "E - S" k ?c] in_window by simp
  qed (use b in auto)
qed

end
