(* ===== verification/Ring_Threads.thy ===== *)
theory Ring_Threads
  imports Shared_Ring
begin

text \<open>
  Threads that claim positions of a ring by compare-and-exchange, as the producers of \<open>mpsc_queue\<close> and
  \<open>mpmc_queue\<close> and the consumers of \<open>mpmc_queue\<close> do.

  A thread is described by where it is in its call: loading the counter, testing the sequence number
  of a cell, at the compare-and-exchange, at the access to the data, or at the store of the sequence
  number. \<open>producers_ok\<close> and \<open>consumers_ok\<close> say what holds of any number of such threads, with \<open>W\<close> and \<open>R\<close>
  the positions they hold; the lemmas say that each access of one thread keeps both, whatever the
  other threads are doing. The counters are taken before the first 2 ^ 64 claims, since a thread
  that sleeps through that many could take a reused counter value for its own.
\<close>

datatype 'a claimer =
    E_idle
  | E_load 'a
  | E_seq 'a u64
  | E_cas 'a u64
  | E_data 'a u64
  | E_pub 'a u64

datatype taker =
    D_idle
  | D_load
  | D_seq u64
  | D_cas u64
  | D_data u64
  | D_rel u64

fun claimer_holds :: "'a claimer \<Rightarrow> nat option" where
  "claimer_holds (E_data x pos) = Some (unat pos)"
| "claimer_holds (E_pub x pos) = Some (unat pos)"
| "claimer_holds _ = None"

fun taker_holds :: "taker \<Rightarrow> nat option" where
  "taker_holds (D_data pos) = Some (unat pos)"
| "taker_holds (D_rel pos) = Some (unat pos)"
| "taker_holds _ = None"

definition held :: "('p \<Rightarrow> nat option) \<Rightarrow> (nat \<Rightarrow> 'p) \<Rightarrow> nat set" where
  "held h ths = {k. \<exists>t. h (ths t) = Some k}"

definition exclusive :: "('p \<Rightarrow> nat option) \<Rightarrow> (nat \<Rightarrow> 'p) \<Rightarrow> bool" where
  "exclusive h ths \<longleftrightarrow> (\<forall>t t' k. h (ths t) = Some k \<longrightarrow> h (ths t') = Some k \<longrightarrow> t = t')"

lemma heldI: "h (ths t) = Some k \<Longrightarrow> k \<in> held h ths"
  by (auto simp: held_def)

lemma held_same: "h p = h (ths t) \<Longrightarrow> held h (ths(t := p)) = held h ths"
  by (auto simp: held_def)

lemma held_gain: "h (ths t) = None \<Longrightarrow> h p = Some k \<Longrightarrow> held h (ths(t := p)) = insert k (held h ths)"
  by (auto simp: held_def) (metis option.distinct(1))

lemma held_lose:
  assumes "exclusive h ths" "h (ths t) = Some k" "h p = None"
  shows "held h (ths(t := p)) = held h ths - {k}"
  using assms by (auto simp: held_def exclusive_def) (metis option.inject)

lemma exclusive_same: "h p = h (ths t) \<Longrightarrow> exclusive h ths \<Longrightarrow> exclusive h (ths(t := p))"
  by (auto simp: exclusive_def)

lemma exclusive_gain: "exclusive h ths \<Longrightarrow> h p = Some k \<Longrightarrow> k \<notin> held h ths \<Longrightarrow> exclusive h (ths(t := p))"
  by (auto simp: exclusive_def held_def)

lemma exclusive_lose: "exclusive h ths \<Longrightarrow> h p = None \<Longrightarrow> exclusive h (ths(t := p))"
  by (auto simp: exclusive_def)

section \<open>Where the threads are\<close>

fun claimer_at :: "nat \<Rightarrow> nat \<Rightarrow> nat \<Rightarrow> nat set \<Rightarrow> (nat \<Rightarrow> 'a) \<Rightarrow> 'a cell list \<Rightarrow> 'a claimer \<Rightarrow> bool" where
  "claimer_at S E C R vals cs E_idle = True"
| "claimer_at S E C R vals cs (E_load x) = True"
| "claimer_at S E C R vals cs (E_seq x pos) = (unat pos \<le> E)"
| "claimer_at S E C R vals cs (E_cas x pos) = (unat pos \<le> E \<and> (unat pos = E \<longrightarrow> claimable S E C R))"
| "claimer_at S E C R vals cs (E_data x pos) = (vals (unat pos) = x)"
| "claimer_at S E C R vals cs (E_pub x pos) = (vals (unat pos) = x \<and> cdata (cs ! (unat pos mod S)) = x)"

fun taker_at :: "nat \<Rightarrow> nat \<Rightarrow> nat set \<Rightarrow> taker \<Rightarrow> bool" where
  "taker_at E C W (D_seq pos) = (unat pos \<le> C)"
| "taker_at E C W (D_cas pos) = (unat pos \<le> C \<and> (unat pos = C \<longrightarrow> readable E C W))"
| "taker_at E C W _ = True"

definition producers_ok :: "nat \<Rightarrow> nat \<Rightarrow> nat \<Rightarrow> nat set \<Rightarrow> nat set \<Rightarrow> (nat \<Rightarrow> 'a) \<Rightarrow> 'a cell list \<Rightarrow> (nat \<Rightarrow> 'a claimer) \<Rightarrow> bool" where
  "producers_ok S E C W R vals cs ths \<longleftrightarrow>
     W = held claimer_holds ths \<and> exclusive claimer_holds ths \<and> (\<forall>t. claimer_at S E C R vals cs (ths t))"

definition consumers_ok :: "nat \<Rightarrow> nat \<Rightarrow> nat set \<Rightarrow> nat set \<Rightarrow> (nat \<Rightarrow> taker) \<Rightarrow> bool" where
  "consumers_ok E C W R ths \<longleftrightarrow>
     R = held taker_holds ths \<and> exclusive taker_holds ths \<and> (\<forall>t. taker_at E C W (ths t))"

lemma unat_slot: "ring_size S \<Longrightarrow> slot_index S pos = unat pos mod S"
  using slot_index_mod [of S "unat pos"] by simp

lemma word_cell_at: "ring_size S \<Longrightarrow> length cs = S \<Longrightarrow> cell_at cs pos = cs ! (unat pos mod S)"
  by (simp add: cell_at_def unat_slot)

lemma word_set_cell: "ring_size S \<Longrightarrow> length cs = S \<Longrightarrow> set_cell cs pos c = cs[unat pos mod S := c]"
  by (simp add: set_cell_def unat_slot)

section \<open>The accesses of a producer\<close>

text \<open>Steps that do not claim, write or publish.\<close>

lemma producers_quiet:
  assumes "producers_ok S E C W R vals cs ths" "claimer_holds p = claimer_holds (ths t)" "claimer_at S E C R vals cs p"
  shows "producers_ok S E C W R vals cs (ths(t := p))"
  using assms by (auto simp: producers_ok_def held_same exclusive_same)

lemma claimer_at_claim:
  assumes "claimer_at S E C R vals cs p" "\<And>k. claimer_holds p = Some k \<Longrightarrow> k < E"
  shows "claimer_at S (Suc E) C R (vals(E := x)) cs p"
  using assms by (cases p) auto

lemma producers_claim:
  assumes r: "shared_ring S E C W R vals cs" and p: "producers_ok S E C W R vals cs ths"
    and t: "ths t = E_cas x pos" and pos: "unat pos = E"
  shows "shared_ring S (Suc E) C (insert E W) R (vals(E := x)) cs"
    and "producers_ok S (Suc E) C (insert E W) R (vals(E := x)) cs (ths(t := E_data x pos))"
proof -
  have "claimer_at S E C R vals cs (ths t)" using p by (simp add: producers_ok_def)
  then have "claimable S E C R" using t pos by simp
  then show "shared_ring S (Suc E) C (insert E W) R (vals(E := x)) cs" by (rule shared_ring_claim [OF r])
  have W: "W = held claimer_holds ths" and ex: "exclusive claimer_holds ths"
    and at: "\<And>u. claimer_at S E C R vals cs (ths u)" using p by (simp_all add: producers_ok_def)
  have lt: "k < E" if "claimer_holds (ths u) = Some k" for u k
    using shared_ring_bounds(4) [OF r, of k] heldI [of claimer_holds ths u k] that W by simp
  then have "E \<notin> held claimer_holds ths" by (auto simp: held_def)
  then have "exclusive claimer_holds (ths(t := E_data x pos))" by (intro exclusive_gain [OF ex, of _ E]) (simp_all add: pos)
  moreover have "claimer_at S (Suc E) C R (vals(E := x)) cs ((ths(t := E_data x pos)) u)" for u
    using claimer_at_claim [OF at lt, where x = x, of u] by (simp add: pos)
  ultimately show "producers_ok S (Suc E) C (insert E W) R (vals(E := x)) cs (ths(t := E_data x pos))"
    unfolding producers_ok_def using W t pos by (auto simp: held_gain)
qed

lemma claimer_at_cells:
  assumes "claimer_at S E C R vals cs p" "\<And>k. claimer_holds p = Some k \<Longrightarrow> k mod S \<noteq> i"
  shows "claimer_at S E C R vals (cs[i := c]) p"
  using assms by (cases p) auto

text \<open>A write to the cell of a position \<open>k\<close> that is not held by another producer.\<close>

lemma producers_other_cells:
  assumes r: "shared_ring S E C W R vals cs" and S: "ring_size S" and p: "producers_ok S E C W R vals cs ths"
    and k: "k \<in> W \<union> R" and u: "claimer_holds (ths u) \<noteq> Some k"
  shows "claimer_at S E C R vals (cs[k mod S := c]) (ths u)"
proof (rule claimer_at_cells)
  show "claimer_at S E C R vals cs (ths u)" using p by (simp add: producers_ok_def)
  fix j assume j: "claimer_holds (ths u) = Some j"
  then have "j \<in> W \<union> R" using p heldI [of claimer_holds ths u j] by (simp add: producers_ok_def)
  then show "j mod S \<noteq> k mod S" using held_cells_differ [OF r S _ k] j u by auto
qed

lemma claimer_held:
  assumes r: "shared_ring S E C W R vals cs" and p: "producers_ok S E C W R vals cs ths"
    and t: "claimer_holds (ths t) = Some k"
  shows "k \<in> W" "k < E" "\<And>u. u \<noteq> t \<Longrightarrow> claimer_holds (ths u) \<noteq> Some k"
proof -
  show k: "k \<in> W" using p heldI [of claimer_holds ths t k] t by (simp add: producers_ok_def)
  show "k < E" using shared_ring_bounds(4) [OF r k] by simp
  show "claimer_holds (ths u) \<noteq> Some k" if "u \<noteq> t" for u
    using p t that by (auto simp: producers_ok_def exclusive_def)
qed

lemma producers_write:
  assumes r: "shared_ring S E C W R vals cs" and S: "ring_size S" and p: "producers_ok S E C W R vals cs ths"
    and t: "ths t = E_data x pos"
  defines "cs' \<equiv> cs[unat pos mod S := (cs ! (unat pos mod S))\<lparr>cdata := x\<rparr>]"
  shows "shared_ring S E C W R vals cs'" "producers_ok S E C W R vals cs' (ths(t := E_pub x pos))"
proof -
  have "claimer_holds (ths t) = Some (unat pos)" by (simp add: t)
  note h = claimer_held [OF r p this]
  show "shared_ring S E C W R vals cs'" unfolding cs'_def by (rule shared_ring_write [OF r h(1)])
  have at: "claimer_at S E C R vals cs' ((ths(t := E_pub x pos)) u)" for u
  proof (cases "u = t")
    case True
    have "claimer_at S E C R vals cs (ths t)" using p by (simp add: producers_ok_def)
    then show ?thesis using True t shared_ring_bounds(1) [OF r] ring_size_bounds [OF S] by (simp add: cs'_def)
  next
    case False
    then show ?thesis using producers_other_cells [OF r S p, of "unat pos" u] h by (simp add: cs'_def)
  qed
  have "held claimer_holds (ths(t := E_pub x pos)) = W" "exclusive claimer_holds (ths(t := E_pub x pos))"
    using p held_same [of claimer_holds "E_pub x pos" ths t] exclusive_same [of claimer_holds "E_pub x pos" ths t]
    by (simp_all add: producers_ok_def t)
  then show "producers_ok S E C W R vals cs' (ths(t := E_pub x pos))" using at by (simp add: producers_ok_def)
qed

lemma producers_publish:
  assumes r: "shared_ring S E C W R vals cs" and S: "ring_size S" and p: "producers_ok S E C W R vals cs ths"
    and t: "ths t = E_pub x pos"
  defines "cs' \<equiv> cs[unat pos mod S := (cs ! (unat pos mod S))\<lparr>sequence := pos + 1\<rparr>]"
  shows "shared_ring S E C (W - {unat pos}) R vals cs'" "producers_ok S E C (W - {unat pos}) R vals cs' (ths(t := E_idle))"
proof -
  have own: "claimer_holds (ths t) = Some (unat pos)" by (simp add: t)
  note h = claimer_held [OF r p own]
  have "claimer_at S E C R vals cs (ths t)" using p by (simp add: producers_ok_def)
  then have "cdata (cs ! (unat pos mod S)) = vals (unat pos)" by (simp add: t)
  from shared_ring_publish [OF r h(1) this]
  show "shared_ring S E C (W - {unat pos}) R vals cs'" by (simp add: cs'_def)
  have at: "claimer_at S E C R vals cs' ((ths(t := E_idle)) u)" for u
    using producers_other_cells [OF r S p, of "unat pos" u] h by (cases "u = t") (simp_all add: cs'_def)
  have ex: "exclusive claimer_holds ths" "W = held claimer_holds ths" using p by (simp_all add: producers_ok_def)
  show "producers_ok S E C (W - {unat pos}) R vals cs' (ths(t := E_idle))"
    using at held_lose [OF ex(1) own] exclusive_lose [OF ex(1)] ex(2) by (simp add: producers_ok_def)
qed

section \<open>The accesses of a consumer, seen by the producers\<close>

lemma producers_take:
  assumes "shared_ring S E C W R vals cs" "producers_ok S E C W R vals cs ths" "readable E C W"
  shows "producers_ok S E (Suc C) W (insert C R) vals cs ths"
proof -
  have "claimable S E (Suc C) (insert C R)" if "claimable S E C R" using that by (auto simp: claimable_def)
  then have "claimer_at S E (Suc C) (insert C R) vals cs p" if "claimer_at S E C R vals cs p" for p
    using that by (cases p) auto
  then show ?thesis using assms(2) by (simp add: producers_ok_def)
qed

lemma producers_release:
  assumes r: "shared_ring S E C W R vals cs" and S: "ring_size S" and p: "producers_ok S E C W R vals cs ths"
    and k: "k \<in> R"
  shows "producers_ok S E C W (R - {k}) vals (cs[k mod S := c]) ths"
proof -
  have "claimer_at S E C (R - {k}) vals cs' p" if "claimer_at S E C R vals cs' p" for p cs'
    using that by (cases p) (auto simp: claimable_def)
  moreover have "claimer_holds (ths u) \<noteq> Some k" for u
    using claimer_held(1) [OF r p, of u k] shared_ring_bounds(4) [OF r, of k] shared_ring_bounds(5) [OF r k] by auto
  then have "claimer_at S E C R vals (cs[k mod S := c]) (ths u)" for u
    using producers_other_cells [OF r S p] k by blast
  ultimately show ?thesis using p by (simp add: producers_ok_def)
qed

section \<open>The accesses of a consumer that claims by compare-and-exchange\<close>

lemma consumers_quiet:
  assumes "consumers_ok E C W R ths" "taker_holds p = taker_holds (ths t)" "taker_at E C W p"
  shows "consumers_ok E C W R (ths(t := p))"
  using assms by (auto simp: consumers_ok_def held_same exclusive_same)

lemma consumers_take:
  assumes r: "shared_ring S E C W R vals cs" and c: "consumers_ok E C W R ths"
    and t: "ths t = D_cas pos" and pos: "unat pos = C" and S: "0 < S"
  shows "readable E C W" "shared_ring S E (Suc C) W (insert C R) vals cs"
    and "consumers_ok E (Suc C) W (insert C R) (ths(t := D_data pos))"
proof -
  have "taker_at E C W (ths t)" using c by (simp add: consumers_ok_def)
  then show ready: "readable E C W" using t pos by simp
  show "shared_ring S E (Suc C) W (insert C R) vals cs" by (rule shared_ring_take [OF r ready S])
  have R: "R = held taker_holds ths" and ex: "exclusive taker_holds ths"
    and at: "\<And>u. taker_at E C W (ths u)" using c by (simp_all add: consumers_ok_def)
  have "C \<notin> held taker_holds ths" using shared_ring_bounds(5) [OF r, of C] R by auto
  then have "exclusive taker_holds (ths(t := D_data pos))" by (intro exclusive_gain [OF ex, of _ C]) (simp_all add: pos)
  moreover have "taker_at E (Suc C) W q" if "taker_at E C W q" for q using that by (cases q) auto
  ultimately show "consumers_ok E (Suc C) W (insert C R) (ths(t := D_data pos))"
    unfolding consumers_ok_def using R at t pos by (auto simp: held_gain)
qed

lemma taker_held:
  assumes "consumers_ok E C W R ths" "taker_holds (ths t) = Some k"
  shows "k \<in> R"
  using assms heldI [of taker_holds ths t k] by (simp add: consumers_ok_def)

lemma consumers_release:
  assumes r: "shared_ring S E C W R vals cs" and c: "consumers_ok E C W R ths" and t: "ths t = D_rel pos"
  defines "cs' \<equiv> cs[unat pos mod S := (cs ! (unat pos mod S))\<lparr>sequence := pos + of_nat S\<rparr>]"
  shows "shared_ring S E C W (R - {unat pos}) vals cs'" "consumers_ok E C W (R - {unat pos}) (ths(t := D_idle))"
proof -
  have own: "taker_holds (ths t) = Some (unat pos)" by (simp add: t)
  show "shared_ring S E C W (R - {unat pos}) vals cs'"
    using shared_ring_release [OF r taker_held [OF c own]] by (simp add: cs'_def)
  show "consumers_ok E C W (R - {unat pos}) (ths(t := D_idle))"
    using c held_lose [of taker_holds ths t "unat pos" D_idle] exclusive_lose [of taker_holds ths D_idle] own
    by (auto simp: consumers_ok_def)
qed

section \<open>The accesses of a producer, seen by the consumers\<close>

lemma consumers_claim:
  assumes "consumers_ok E C W R ths"
  shows "consumers_ok (Suc E) C (insert E W) R ths"
proof -
  have "taker_at (Suc E) C (insert E W) p" if "taker_at E C W p" for p
    using that by (cases p) (auto simp: readable_def)
  then show ?thesis using assms by (simp add: consumers_ok_def)
qed

lemma consumers_publish:
  assumes "consumers_ok E C W R ths"
  shows "consumers_ok E C (W - {k}) R ths"
proof -
  have "taker_at E C (W - {k}) p" if "taker_at E C W p" for p
    using that by (cases p) (auto simp: readable_def)
  then show ?thesis using assms by (simp add: consumers_ok_def)
qed

section \<open>The tests\<close>

lemma producer_word_test:
  assumes r: "shared_ring S E C W R vals cs" and S: "ring_size S" and b: "E + S < 2 ^ 64" and pos: "unat pos \<le> E"
  shows "unat (sequence (cs ! (unat pos mod S))) < unat pos \<longleftrightarrow> unat pos = E \<and> \<not> claimable S E C R"
    and "sequence (cs ! (unat pos mod S)) = pos \<Longrightarrow> unat pos = E \<Longrightarrow> claimable S E C R"
    and "unat (sequence (cs ! (unat pos mod S))) \<le> E + S"
proof -
  obtain n where n: "sequence (cs ! (unat pos mod S)) = of_nat n" "n \<le> E + S"
    "n < unat pos \<longleftrightarrow> unat pos = E \<and> \<not> claimable S E C R" "n = unat pos \<and> unat pos = E \<longrightarrow> claimable S E C R"
    by (rule producer_seq [OF r S pos])
  have u: "unat (of_nat n :: u64) = n" using n(2) b by (simp add: unat_of_nat take_bit_nat_eq_self)
  show "unat (sequence (cs ! (unat pos mod S))) < unat pos \<longleftrightarrow> unat pos = E \<and> \<not> claimable S E C R"
    "unat (sequence (cs ! (unat pos mod S))) \<le> E + S" using n u by simp_all
  show "claimable S E C R" if "sequence (cs ! (unat pos mod S)) = pos" "unat pos = E"
    using n u that by auto
qed

lemma consumer_word_test:
  assumes r: "shared_ring S E C W R vals cs" and S: "ring_size S" and b: "E + S < 2 ^ 64" and pos: "unat pos \<le> C"
  shows "unat (sequence (cs ! (unat pos mod S))) < unat pos + 1 \<longleftrightarrow> unat pos = C \<and> \<not> readable E C W"
    and "sequence (cs ! (unat pos mod S)) = pos + 1 \<Longrightarrow> unat pos = C \<Longrightarrow> readable E C W"
    and "unat (sequence (cs ! (unat pos mod S))) \<le> E + S"
proof -
  obtain n where n: "sequence (cs ! (unat pos mod S)) = of_nat n" "n \<le> E + S"
    "n < unat pos + 1 \<longleftrightarrow> unat pos = C \<and> \<not> readable E C W" "n = unat pos + 1 \<and> unat pos = C \<longrightarrow> readable E C W"
    by (rule consumer_seq [OF r S pos])
  have u: "unat (of_nat n :: u64) = n" using n(2) b by (simp add: unat_of_nat take_bit_nat_eq_self)
  show "unat (sequence (cs ! (unat pos mod S))) < unat pos + 1 \<longleftrightarrow> unat pos = C \<and> \<not> readable E C W"
    "unat (sequence (cs ! (unat pos mod S))) \<le> E + S" using n u by simp_all
  have lt: "unat pos + 1 < 2 ^ 64"
    using pos b shared_ring_bounds(2) [OF r] ring_size_bounds [OF S] by simp
  show "readable E C W" if "sequence (cs ! (unat pos mod S)) = pos + 1" "unat pos = C"
  proof -
    have "n = unat (pos + 1)" using that(1) n(1) u by simp
    also have "pos + 1 = of_nat (unat pos + 1)" by simp
    also have "unat (of_nat (unat pos + 1) :: u64) = unat pos + 1"
      using lt by (simp only: unat_of_nat take_bit_nat_eq_self len_bit0 len_num1) (simp add: take_bit_nat_eq_self)
    finally show ?thesis using n(4) that(2) by simp
  qed
qed

section \<open>The values in the order of the claims\<close>

text \<open>A log of the successful compare-and-exchanges of the producers, the thread with the value.\<close>

definition claimed_value :: "(nat \<times> 'a) list \<Rightarrow> nat \<Rightarrow> 'a" where
  "claimed_value cl k = snd (cl ! k)"

lemma producers_okW: "producers_ok S E C W R vals cs ths \<Longrightarrow> W = held claimer_holds ths"
  by (simp add: producers_ok_def)

lemma shared_ring_vals:
  assumes "shared_ring S E C W R vals cs" "\<And>k. k < E \<Longrightarrow> vals k = vals' k"
  shows "shared_ring S E C W R vals' cs"
proof -
  have "k < E" if "k \<in> R" for k using shared_ring_bounds(2,5) [OF assms(1)] that by fastforce
  then show ?thesis using assms unfolding shared_ring_def by auto
qed

lemma producers_ok_vals:
  assumes "producers_ok S E C W R vals cs ths" "\<And>k. k \<in> W \<Longrightarrow> vals k = vals' k"
  shows "producers_ok S E C W R vals' cs ths"
proof -
  have "claimer_at S E C R vals' cs (ths t)" for t
  proof -
    have "claimer_at S E C R vals cs (ths t)" "\<And>k. claimer_holds (ths t) = Some k \<Longrightarrow> vals k = vals' k"
      using assms heldI [of claimer_holds ths t] by (auto simp: producers_ok_def)
    then show ?thesis by (cases "ths t") auto
  qed
  then show ?thesis using assms(1) by (simp add: producers_ok_def)
qed

lemma claimed_value_append:
  "k < Suc (length cl) \<Longrightarrow> claimed_value (cl @ [(t, x)]) k = ((claimed_value cl)(length cl := x)) k"
  by (auto simp: claimed_value_def nth_append)

lemma claim_logged:
  assumes r: "shared_ring S (length cl) C W R (claimed_value cl) cs"
    and p: "producers_ok S (length cl) C W R (claimed_value cl) cs ths"
    and t: "ths t = E_cas x pos" and pos: "unat pos = length cl"
  defines "ths' \<equiv> ths(t := E_data x pos)" and "cl' \<equiv> cl @ [(t, x)]"
  shows "shared_ring S (length cl') C (held claimer_holds ths') R (claimed_value cl') cs"
    and "producers_ok S (length cl') C (held claimer_holds ths') R (claimed_value cl') cs ths'"
    and "held claimer_holds ths' = insert (length cl) W"
proof -
  note c = producers_claim [OF r p t pos]
  show W: "held claimer_holds ths' = insert (length cl) W" using producers_okW [OF c(2)] by (simp add: ths'_def)
  have len: "length cl' = Suc (length cl)" by (simp add: cl'_def)
  show "shared_ring S (length cl') C (held claimer_holds ths') R (claimed_value cl') cs"
    unfolding W len by (rule shared_ring_vals [OF c(1)]) (simp add: cl'_def claimed_value_append)
  have "k < Suc (length cl)" if "k \<in> insert (length cl) W" for k using that shared_ring_bounds(4) [OF c(1), of k] by simp
  then have "claimed_value cl' k = ((claimed_value cl)(length cl := x)) k" if "k \<in> insert (length cl) W" for k
    unfolding cl'_def using that by (intro claimed_value_append) simp
  then have "producers_ok S (Suc (length cl)) C (insert (length cl) W) R (claimed_value cl') cs ths'"
    unfolding ths'_def by (intro producers_ok_vals [OF c(2)]) simp
  then show "producers_ok S (length cl') C (held claimer_holds ths') R (claimed_value cl') cs ths'"
    unfolding W len .
qed

end
