(* ===== verification/Mpsc_Queue.thy ===== *)
theory Mpsc_Queue
  imports Ring_Threads Spsc_Queue
begin

text \<open>
  The multiple-producer single-consumer queue of \<open>4_order_book_proj/src/queues.hpp\<close> and
  \<open>queues_impl.hpp\<close>, under every interleaving of any number of producer threads and one consumer.

  The class has the fields of \<open>spsc_queue\<close>. The weak compare-and-exchange may fail although the
  counter has the expected value: the flag of \<open>mpsc_enqueue_step\<close> says that it does. \<open>claimed\<close> records the
  thread and value of every successful compare-and-exchange in their order, \<open>calls t\<close> the arguments of
  the calls of thread \<open>t\<close>, \<open>mreceived\<close> the results of \<open>dequeue\<close>.
\<close>

type_synonym 'a mpsc_queue = "'a spsc_queue"

definition mpsc_new :: "nat \<Rightarrow> 'a \<Rightarrow> 'a mpsc_queue" where
  "mpsc_new S x0 = \<lparr>cells = new_cells S x0, enqueue_ptr = 0, dequeue_ptr = 0\<rparr>"

definition mpsc_empty :: "'a mpsc_queue \<Rightarrow> bool" where
  "mpsc_empty q \<longleftrightarrow> enqueue_ptr q = dequeue_ptr q"

text \<open>The steps of \<open>enqueue\<close>; the third component is the value whose position was claimed.\<close>

fun mpsc_enqueue_step :: "bool \<Rightarrow> 'a claimer \<Rightarrow> 'a mpsc_queue \<Rightarrow> 'a claimer \<times> 'a mpsc_queue \<times> 'a list" where
  "mpsc_enqueue_step spurious E_idle q = (E_idle, q, [])"
| "mpsc_enqueue_step spurious (E_load x) q = (E_seq x (enqueue_ptr q), q, [])"
| "mpsc_enqueue_step spurious (E_seq x pos) q =
     (let cell_pos = sequence (cell_at (cells q) pos);
          diff = sint (cell_pos - pos)
      in if diff = 0 then (E_cas x pos, q, [])
         else if diff > 0 then (E_load x, q, [])
         else (E_seq x pos, q, []))"
| "mpsc_enqueue_step spurious (E_cas x pos) q =
     (if \<not> spurious \<and> enqueue_ptr q = pos
      then (E_data x pos, q\<lparr>enqueue_ptr := pos + 1\<rparr>, [x])
      else (E_seq x (enqueue_ptr q), q, []))"
| "mpsc_enqueue_step spurious (E_data x pos) q =
     (E_pub x pos, q\<lparr>cells := set_cell (cells q) pos ((cell_at (cells q) pos)\<lparr>cdata := x\<rparr>)\<rparr>, [])"
| "mpsc_enqueue_step spurious (E_pub x pos) q =
     (E_idle, q\<lparr>cells := set_cell (cells q) pos ((cell_at (cells q) pos)\<lparr>sequence := pos + 1\<rparr>)\<rparr>, [])"

text \<open>The steps of \<open>dequeue\<close>; the value read is the third component.\<close>

fun mpsc_dequeue_step :: "'a consumer \<Rightarrow> 'a mpsc_queue \<Rightarrow> 'a consumer \<times> 'a mpsc_queue \<times> 'a list" where
  "mpsc_dequeue_step C_idle q = (C_idle, q, [])"
| "mpsc_dequeue_step (C_spin pos) q =
     (if sequence (cell_at (cells q) pos) \<noteq> pos + 1 then (C_spin pos, q, []) else (C_data pos, q, []))"
| "mpsc_dequeue_step (C_data pos) q = (C_seq pos, q, [cdata (cell_at (cells q) pos)])"
| "mpsc_dequeue_step (C_seq pos) q =
     (C_ptr pos, q\<lparr>cells := set_cell (cells q) pos
        ((cell_at (cells q) pos)\<lparr>sequence := pos + of_nat (length (cells q))\<rparr>)\<rparr>, [])"
| "mpsc_dequeue_step (C_ptr pos) q = (C_idle, q\<lparr>dequeue_ptr := pos + 1\<rparr>, [])"

record 'a mpsc_sys =
  mqueue :: "'a mpsc_queue"
  threads :: "nat \<Rightarrow> 'a claimer"
  mconsumer :: "'a consumer"
  calls :: "nat \<Rightarrow> 'a list"
  claimed :: "(nat \<times> 'a) list"
  mreceived :: "'a list"

inductive mpsc_step :: "'a mpsc_sys \<Rightarrow> 'a mpsc_sys \<Rightarrow> bool" where
  call_mpsc_enqueue: "threads s t = E_idle \<Longrightarrow>
     mpsc_step s (s\<lparr>threads := (threads s)(t := E_load x), calls := (calls s)(t := calls s t @ [x])\<rparr>)"
| run_mpsc_enqueue: "threads s t \<noteq> E_idle \<Longrightarrow> mpsc_enqueue_step spurious (threads s t) (mqueue s) = (p', q', xs) \<Longrightarrow>
     mpsc_step s (s\<lparr>threads := (threads s)(t := p'), mqueue := q', claimed := claimed s @ map (Pair t) xs\<rparr>)"
| call_mpsc_dequeue: "mconsumer s = C_idle \<Longrightarrow>
     mpsc_step s (s\<lparr>mconsumer := C_spin (dequeue_ptr (mqueue s))\<rparr>)"
| run_mpsc_dequeue: "mconsumer s \<noteq> C_idle \<Longrightarrow> mpsc_dequeue_step (mconsumer s) (mqueue s) = (c', q', xs) \<Longrightarrow>
     mpsc_step s (s\<lparr>mconsumer := c', mqueue := q', mreceived := mreceived s @ xs\<rparr>)"

definition mpsc_init :: "nat \<Rightarrow> 'a \<Rightarrow> 'a mpsc_sys" where
  "mpsc_init S x0 = \<lparr>mqueue = mpsc_new S x0, threads = (\<lambda>_. E_idle), mconsumer = C_idle,
     calls = (\<lambda>_. []), claimed = [], mreceived = []\<rparr>"

inductive mpsc_reach :: "nat \<Rightarrow> 'a \<Rightarrow> 'a mpsc_sys \<Rightarrow> bool" for S x0 where
  mpsc_start: "mpsc_reach S x0 (mpsc_init S x0)"
| mpsc_next: "mpsc_reach S x0 s \<Longrightarrow> mpsc_step s s' \<Longrightarrow> mpsc_reach S x0 s'"

section \<open>The invariant\<close>

text \<open>The positions taken by the consumer, those it still holds, and its counter.\<close>

fun consumed :: "nat \<Rightarrow> 'a consumer \<Rightarrow> nat" where
  "consumed n (C_data pos) = Suc n"
| "consumed n _ = n"

fun reading :: "'a consumer \<Rightarrow> nat set" where
  "reading (C_data pos) = {unat pos}"
| "reading (C_seq pos) = {unat pos}"
| "reading _ = {}"

fun mcons_ok :: "nat \<Rightarrow> u64 \<Rightarrow> 'a consumer \<Rightarrow> bool" where
  "mcons_ok n ptr C_idle \<longleftrightarrow> ptr = of_nat n"
| "mcons_ok n ptr (C_spin pos) \<longleftrightarrow> ptr = of_nat n \<and> pos = ptr"
| "mcons_ok n ptr (C_data pos) \<longleftrightarrow> ptr = of_nat n \<and> pos = ptr"
| "mcons_ok n ptr (C_seq pos) \<longleftrightarrow> ptr + 1 = of_nat n \<and> pos = ptr"
| "mcons_ok n ptr (C_ptr pos) \<longleftrightarrow> ptr + 1 = of_nat n \<and> pos = ptr"

definition mpsc_inv :: "nat \<Rightarrow> 'a mpsc_sys \<Rightarrow> bool" where
  "mpsc_inv S s \<longleftrightarrow>
     (let E = length (claimed s); C = consumed (length (mreceived s)) (mconsumer s);
          W = held claimer_holds (threads s); R = reading (mconsumer s)
      in shared_ring S E C W R (claimed_value (claimed s)) (cells (mqueue s)) \<and>
         producers_ok S E C W R (claimed_value (claimed s)) (cells (mqueue s)) (threads s) \<and>
         enqueue_ptr (mqueue s) = of_nat E \<and>
         mcons_ok (length (mreceived s)) (dequeue_ptr (mqueue s)) (mconsumer s) \<and>
         map snd (take (length (mreceived s)) (claimed s)) = mreceived s)"

lemma mpsc_inv_init: "ring_size S \<Longrightarrow> mpsc_inv S (mpsc_init S x0)"
  by (simp add: mpsc_inv_def mpsc_init_def mpsc_new_def Let_def shared_ring_new producers_ok_def held_def exclusive_def)

lemmas mpsc_invD = mpsc_inv_def [THEN iffD1, unfolded Let_def]

lemma mpsc_invI:
  assumes "shared_ring S E C W R (claimed_value (claimed s)) cs"
    "producers_ok S E C W R (claimed_value (claimed s)) cs (threads s)" "cells (mqueue s) = cs"
    "length (claimed s) = E" "consumed (length (mreceived s)) (mconsumer s) = C" "reading (mconsumer s) = R"
    "enqueue_ptr (mqueue s) = of_nat E" "mcons_ok (length (mreceived s)) (dequeue_ptr (mqueue s)) (mconsumer s)"
    "map snd (take (length (mreceived s)) (claimed s)) = mreceived s"
  shows "mpsc_inv S s"
  using assms producers_okW [OF assms(2)] by (simp add: mpsc_inv_def Let_def)

text \<open>Steps of a producer that only move it.\<close>

lemma mpsc_inv_quiet:
  assumes i: "mpsc_inv S s" and h: "claimer_holds p = claimer_holds (threads s t)"
    and at: "claimer_at S (length (claimed s)) (consumed (length (mreceived s)) (mconsumer s)) (reading (mconsumer s))
      (claimed_value (claimed s)) (cells (mqueue s)) p" and same: "q' = mqueue s" "xs = []"
  shows "mpsc_inv S (s\<lparr>threads := (threads s)(t := p), mqueue := q', claimed := claimed s @ map (Pair t) xs\<rparr>)"
  using i producers_quiet [of S _ _ _ _ _ _ "threads s" p t] h at held_same [of claimer_holds p "threads s" t]
  by (simp add: mpsc_inv_def Let_def same)

lemma mpsc_inv_enqueue:
  assumes S: "ring_size S" and b: "length (claimed s) + S < 2 ^ 64" and i: "mpsc_inv S s"
    and st: "mpsc_enqueue_step spurious (threads s t) (mqueue s) = (p', q', xs)"
  shows "mpsc_inv S (s\<lparr>threads := (threads s)(t := p'), mqueue := q', claimed := claimed s @ map (Pair t) xs\<rparr>)"
proof -
  let ?E = "length (claimed s)" let ?C = "consumed (length (mreceived s)) (mconsumer s)"
  let ?W = "held claimer_holds (threads s)" let ?R = "reading (mconsumer s)" let ?v = "claimed_value (claimed s)"
  have r: "shared_ring S ?E ?C ?W ?R ?v (cells (mqueue s))"
    and p: "producers_ok S ?E ?C ?W ?R ?v (cells (mqueue s)) (threads s)"
    and e: "enqueue_ptr (mqueue s) = of_nat ?E" using mpsc_invD [OF i] by auto
  have at: "claimer_at S ?E ?C ?R ?v (cells (mqueue s)) (threads s t)" using p by (simp add: producers_ok_def)
  have E: "unat (enqueue_ptr (mqueue s)) = ?E" using b e by (simp add: unat_of_nat_small)
  note len = shared_ring_bounds(1) [OF r]
  note cell = word_cell_at [OF S len] word_set_cell [OF S len]
  show ?thesis
  proof (cases "threads s t")
    case E_idle
    then have "p' = E_idle" "q' = mqueue s" "xs = []" using st by simp_all
    then show ?thesis using E_idle by (intro mpsc_inv_quiet [OF i]) simp_all
  next
    case (E_load x)
    then have "p' = E_seq x (enqueue_ptr (mqueue s))" "q' = mqueue s" "xs = []" using st by auto
    then show ?thesis using E_load E by (intro mpsc_inv_quiet [OF i]) simp_all
  next
    case (E_seq x pos)
    have pos: "unat pos \<le> ?E" using at E_seq by simp
    have "sint (w :: u64) = 0 \<longleftrightarrow> w = 0" for w by (metis signed_0 signed_word_eqI)
    then have "p' = E_cas x pos \<longrightarrow> sequence (cells (mqueue s) ! (unat pos mod S)) = pos"
      using st E_seq by (auto simp: Let_def cell split: if_splits)
    moreover have "p' = E_cas x pos \<or> p' = E_load x \<or> p' = E_seq x pos" and same: "q' = mqueue s" "xs = []"
      using st E_seq by (auto simp: Let_def split: if_splits)
    ultimately have "claimer_at S ?E ?C ?R ?v (cells (mqueue s)) p'" "claimer_holds p' = None"
      using pos producer_word_test(2) [OF r S b pos] by auto
    then show ?thesis using E_seq same by (intro mpsc_inv_quiet [OF i]) simp_all
  next
    case (E_cas x pos)
    show ?thesis
    proof (cases "\<not> spurious \<and> enqueue_ptr (mqueue s) = pos")
      case True
      then have "unat pos = ?E" using E by simp
      note c = claim_logged [OF r p E_cas this]
      have "map snd (take (length (mreceived s)) (claimed s)) = mreceived s" using mpsc_invD [OF i] by simp
      then have "length (mreceived s) \<le> ?E" by (metis length_map length_take min.cobounded1)
      then show ?thesis using c st E_cas True i e by (auto simp: mpsc_inv_def Let_def)
    next
      case False
      then have "p' = E_seq x (enqueue_ptr (mqueue s))" "q' = mqueue s" "xs = []" using st E_cas by (auto split: if_splits)
      then show ?thesis using E_cas E by (intro mpsc_inv_quiet [OF i]) simp_all
    qed
  next
    case (E_data x pos)
    note c = producers_write [OF r S p E_data]
    show ?thesis using c st E_data i producers_okW [OF c(2)] by (auto simp: mpsc_inv_def Let_def cell)
  next
    case (E_pub x pos)
    note c = producers_publish [OF r S p E_pub]
    have "p' = E_idle" "xs = []" "q' = mqueue s\<lparr>cells := (cells (mqueue s))[unat pos mod S :=
      (cells (mqueue s) ! (unat pos mod S))\<lparr>sequence := pos + 1\<rparr>]\<rparr>" using st E_pub cell by auto
    then show ?thesis using c mpsc_invD [OF i] by (intro mpsc_invI [where cs = "cells q'"]) simp_all
  qed
qed

lemma mpsc_inv_dequeue:
  assumes S: "ring_size S" and b: "length (claimed s) + S < 2 ^ 64" and i: "mpsc_inv S s"
    and st: "mpsc_dequeue_step (mconsumer s) (mqueue s) = (c', q', xs)"
  shows "mpsc_inv S (s\<lparr>mconsumer := c', mqueue := q', mreceived := mreceived s @ xs\<rparr>)"
proof -
  let ?n = "length (mreceived s)" let ?E = "length (claimed s)" let ?C = "consumed ?n (mconsumer s)"
  let ?W = "held claimer_holds (threads s)" let ?R = "reading (mconsumer s)" let ?v = "claimed_value (claimed s)"
  let ?cs = "cells (mqueue s)"
  have r: "shared_ring S ?E ?C ?W ?R ?v ?cs"
    and p: "producers_ok S ?E ?C ?W ?R ?v ?cs (threads s)"
    and e: "enqueue_ptr (mqueue s) = of_nat ?E"
    and c: "mcons_ok ?n (dequeue_ptr (mqueue s)) (mconsumer s)"
    and rec: "map snd (take ?n (claimed s)) = mreceived s" using mpsc_invD [OF i] by auto
  note bounds = shared_ring_bounds [OF r]
  have n: "unat (of_nat ?n :: u64) = ?n"
    using bounds(2) b by (intro unat_of_nat_small) (cases "mconsumer s"; simp)
  note cell = word_cell_at [OF S bounds(1)] word_set_cell [OF S bounds(1)]
  have S0: "0 < S" using ring_size_bounds [OF S] by simp
  show ?thesis
  proof (cases "mconsumer s")
    case C_idle
    then show ?thesis using st i by (auto simp: mpsc_inv_def)
  next
    case (C_spin pos)
    show ?thesis
    proof (cases "sequence (cell_at ?cs pos) \<noteq> pos + 1")
      case True
      then show ?thesis using st i C_spin by (auto simp: mpsc_inv_def)
    next
      case False
      have pos: "pos = of_nat ?n" "unat pos = ?n" using c C_spin n by simp_all
      have r0: "shared_ring S ?E ?n ?W {} ?v ?cs" and p0: "producers_ok S ?E ?n ?W {} ?v ?cs (threads s)"
        using r p C_spin by simp_all
      have ready: "readable ?E ?n ?W"
        using consumer_word_test(2) [OF r0 S b, of pos] False pos cell by simp
      have st': "c' = C_data pos" "q' = mqueue s" "xs = []" using st C_spin False by auto
      have "mcons_ok ?n (dequeue_ptr (mqueue s)) (C_data pos)" using c C_spin by simp
      with st' show ?thesis
        by (intro mpsc_invI [where cs = ?cs and C = "Suc ?n" and R = "insert ?n {}" and W = ?W])
          (simp_all add: shared_ring_take [OF r0 ready S0] producers_take [OF r0 p0 ready] e rec n)
    qed
  next
    case (C_data pos)
    have pos: "pos = of_nat ?n" "unat pos = ?n" using c C_data n by simp_all
    have "cdata (?cs ! (?n mod S)) = ?v ?n" using shared_ring_data [OF r, of ?n] C_data pos by simp
    moreover have lt: "?n < ?E" using bounds(2) C_data by simp
    ultimately have "map snd (take (Suc ?n) (claimed s)) = mreceived s @ [cdata (cell_at ?cs pos)]"
      using rec pos cell by (simp add: take_Suc_conv_app_nth claimed_value_def)
    moreover have "c' = C_seq pos" "q' = mqueue s" "xs = [cdata (cell_at ?cs pos)]" using st C_data by auto
    ultimately show ?thesis using r p e c C_data by (simp add: mpsc_inv_def Let_def)
  next
    case (C_seq pos)
    have R: "unat pos \<in> ?R" using C_seq by simp
    have "c' = C_ptr pos" "xs = []" and q: "q' = mqueue s\<lparr>cells := ?cs[unat pos mod S :=
      (?cs ! (unat pos mod S))\<lparr>sequence := pos + of_nat S\<rparr>]\<rparr>" using st C_seq cell bounds(1) by auto
    then show ?thesis
      using shared_ring_release [OF r R] producers_release [OF r S p R] e c rec C_seq
      by (simp add: mpsc_inv_def Let_def)
  next
    case (C_ptr pos)
    then have "c' = C_idle" "xs = []" "q' = mqueue s\<lparr>dequeue_ptr := pos + 1\<rparr>" using st by auto
    then show ?thesis using r p e c rec C_ptr by (simp add: mpsc_inv_def Let_def)
  qed
qed

lemma mpsc_inv_step:
  assumes "ring_size S" "length (claimed s') + S < 2 ^ 64" "mpsc_inv S s" "mpsc_step s s'"
  shows "mpsc_inv S s'"
  using assms(4)
proof cases
  case (call_mpsc_enqueue t x)
  have "mpsc_inv S (s\<lparr>threads := (threads s)(t := E_load x), mqueue := mqueue s, claimed := claimed s @ map (Pair t) []\<rparr>)"
    by (rule mpsc_inv_quiet [OF assms(3)]) (simp_all add: call_mpsc_enqueue(2))
  then show ?thesis unfolding call_mpsc_enqueue(1) by (simp add: mpsc_inv_def)
next
  case (run_mpsc_enqueue t spurious p' q' xs)
  then show ?thesis using assms(2) mpsc_inv_enqueue [OF assms(1) _ assms(3) run_mpsc_enqueue(3)] by simp
next
  case call_mpsc_dequeue
  then show ?thesis using assms(3) by (auto simp: mpsc_inv_def Let_def)
next
  case (run_mpsc_dequeue c' q' xs)
  then show ?thesis using assms(2) mpsc_inv_dequeue [OF assms(1) _ assms(3) run_mpsc_dequeue(3)] by simp
qed

lemma mpsc_step_claims: "mpsc_step s s' \<Longrightarrow> length (claimed s) \<le> length (claimed s')"
  by (induction rule: mpsc_step.induct) auto

lemma mpsc_reach_inv:
  assumes "ring_size S" "mpsc_reach S x0 s" "length (claimed s) + S < 2 ^ 64"
  shows "mpsc_inv S s"
  using assms(2,3)
proof induction
  case mpsc_start
  show ?case by (rule mpsc_inv_init [OF assms(1)])
next
  case (mpsc_next s s')
  then show ?case using mpsc_inv_step [OF assms(1)] mpsc_step_claims [of s s'] by simp
qed

section \<open>The order of the calls of one producer\<close>

fun pending :: "'a claimer \<Rightarrow> 'a list" where
  "pending (E_load x) = [x]"
| "pending (E_seq x pos) = [x]"
| "pending (E_cas x pos) = [x]"
| "pending _ = []"

definition claimed_by :: "nat \<Rightarrow> (nat \<times> 'a) list \<Rightarrow> 'a list" where
  "claimed_by t cl = map snd (filter (\<lambda>c. fst c = t) cl)"

lemma claimed_by_log [simp]:
  "claimed_by t [] = []" "claimed_by t (cl @ map (Pair u) xs) = claimed_by t cl @ (if u = t then xs else [])"
  by (simp_all add: claimed_by_def filter_map comp_def)

lemma mpsc_enqueue_step_pending:
  "mpsc_enqueue_step spurious p q = (p', q', xs) \<Longrightarrow> p \<noteq> E_idle \<Longrightarrow> pending p = xs @ pending p'"
  by (cases p) (auto simp: Let_def split: if_splits)

lemma mpsc_reach_calls:
  assumes "mpsc_reach S x0 s"
  shows "calls s t = claimed_by t (claimed s) @ pending (threads s t)"
  using assms
proof induction
  case (mpsc_next s s')
  from mpsc_next(2,3) show ?case
    by (cases rule: mpsc_step.cases) (auto dest: mpsc_enqueue_step_pending)
qed (simp add: mpsc_init_def)

section \<open>Properties\<close>

text \<open>Schedules, to exhibit reachable states: \<open>Some (t, x)\<close> lets thread \<open>t\<close> act (calling with \<open>x\<close> when it is
  idle), \<open>None\<close> the consumer.\<close>

fun mpsc_schedule :: "(nat \<times> 'a) option list \<Rightarrow> 'a mpsc_sys \<Rightarrow> 'a mpsc_sys" where
  "mpsc_schedule [] s = s"
| "mpsc_schedule (Some (t, x) # ts) s = mpsc_schedule ts
     (if threads s t = E_idle
      then s\<lparr>threads := (threads s)(t := E_load x), calls := (calls s)(t := calls s t @ [x])\<rparr>
      else case mpsc_enqueue_step False (threads s t) (mqueue s) of (p', q', xs) \<Rightarrow>
        s\<lparr>threads := (threads s)(t := p'), mqueue := q', claimed := claimed s @ map (Pair t) xs\<rparr>)"
| "mpsc_schedule (None # ts) s = mpsc_schedule ts
     (if mconsumer s = C_idle then s\<lparr>mconsumer := C_spin (dequeue_ptr (mqueue s))\<rparr>
      else case mpsc_dequeue_step (mconsumer s) (mqueue s) of (c', q', xs) \<Rightarrow>
        s\<lparr>mconsumer := c', mqueue := q', mreceived := mreceived s @ xs\<rparr>)"

lemma mpsc_schedule_reach: "mpsc_reach S x0 s \<Longrightarrow> mpsc_reach S x0 (mpsc_schedule ts s)"
proof (induction ts s rule: mpsc_schedule.induct)
  case (2 t x ts s)
  show ?case
  proof (cases "threads s t = E_idle")
    case True
    then show ?thesis using "2.IH" mpsc_next [OF "2.prems" call_mpsc_enqueue [of s t x]] by simp
  next
    case False
    obtain p' q' xs where st: "mpsc_enqueue_step False (threads s t) (mqueue s) = (p', q', xs)" by (cases rule: prod_cases3)
    show ?thesis using "2.IH" mpsc_next [OF "2.prems" run_mpsc_enqueue [OF False st]] False st by simp
  qed
next
  case (3 ts s)
  show ?case
  proof (cases "mconsumer s = C_idle")
    case True
    then show ?thesis using "3.IH" mpsc_next [OF "3.prems" call_mpsc_dequeue [OF True]] by simp
  next
    case False
    obtain c' q' xs where st: "mpsc_dequeue_step (mconsumer s) (mqueue s) = (c', q', xs)" by (cases rule: prod_cases3)
    show ?thesis using "3.IH" mpsc_next [OF "3.prems" run_mpsc_dequeue [OF False st]] False st by simp
  qed
qed simp

text \<open>Two producers race for the first position; thread 1 wins it and thread 0 takes the second.\<close>

definition mpsc_demo :: "nat mpsc_sys" where
  "mpsc_demo = mpsc_schedule [Some (0, 5), Some (0, 5), Some (1, 6), Some (1, 6), Some (1, 6), Some (1, 6), Some (0, 5),
     Some (0, 5), Some (0, 5), Some (0, 5), Some (1, 6), Some (1, 6), None, None, None] (mpsc_init 2 0)"

lemma mpsc_demo_reach: "mpsc_reach 2 0 mpsc_demo"
  unfolding mpsc_demo_def by (rule mpsc_schedule_reach [OF mpsc_start])

lemma mpsc_demo_state:
  "mreceived mpsc_demo = [6]" "claimed mpsc_demo = [(1, 6), (0, 5)]" "calls mpsc_demo 0 = [5]"
  "threads mpsc_demo 0 = E_data 5 1" "mconsumer mpsc_demo = C_seq 0"
  by (simp_all add: mpsc_demo_def mpsc_init_def mpsc_new_def new_cells_def cell_at_def set_cell_def slot_index_def
      numeral_eq_Suc upt_rec)

text \<open>
  C8: The queue serves any number of producers first-come first-served. Under every interleaving,
  before the counter has run through its 64 bits, the values received are the values whose positions were claimed, in
  the order of the claims, none lost or repeated; and the values of one producer are claimed in the order of its calls.
\<close>

theorem mpsc_queue_fifo:
  assumes "ring_size S" "mpsc_reach S x0 s" "length (claimed s) + S < 2 ^ 64"
  shows "is_prefix (mreceived s) (map snd (claimed s)) \<and> is_prefix (claimed_by t (claimed s)) (calls s t) \<and>
    length (calls s t) \<le> Suc (length (claimed_by t (claimed s)))"
proof -
  have "map snd (take (length (mreceived s)) (claimed s)) = mreceived s"
    using mpsc_invD [OF mpsc_reach_inv [OF assms]] by simp
  then have "is_prefix (mreceived s) (map snd (claimed s))"
    unfolding is_prefix_def by (metis append_take_drop_id map_append)
  moreover have "length (pending (threads s t)) \<le> 1" by (cases "threads s t") simp_all
  ultimately show ?thesis by (simp add: mpsc_reach_calls [OF assms(2)] is_prefix_def)
qed

theorem mpsc_queue_fifo_witness:
  "is_prefix [6 :: nat] (map snd [(1 :: nat, 6), (0, 5)]) \<and> is_prefix (claimed_by 0 [(1, 6), (0, 5)]) [5 :: nat] \<and>
    length [5 :: nat] \<le> Suc (length (claimed_by 0 [(1, 6), (0, 5 :: nat)]))"
  using mpsc_queue_fifo [OF ring_size_2 mpsc_demo_reach, of 0] unfolding mpsc_demo_state by simp

text \<open>
  No two threads ever use the data of one cell at the same time. Two producers between
  their claim and their publication have different cells, and none of them is the cell the consumer is reading.
\<close>

theorem mpsc_queue_no_data_race:
  assumes "ring_size S" "mpsc_reach S x0 s" "length (claimed s) + S < 2 ^ 64"
    and "threads s t = E_data x pos \<or> threads s t = E_pub x pos"
    and "(u \<noteq> t \<and> (threads s u = E_data y pos' \<or> threads s u = E_pub y pos')) \<or>
      mconsumer s = C_data pos' \<or> mconsumer s = C_seq pos'"
  shows "slot_index S pos \<noteq> slot_index S pos'"
proof -
  let ?W = "held claimer_holds (threads s)" let ?R = "reading (mconsumer s)"
  have r: "shared_ring S (length (claimed s)) (consumed (length (mreceived s)) (mconsumer s)) ?W ?R
      (claimed_value (claimed s)) (cells (mqueue s))" and p: "exclusive claimer_holds (threads s)"
    using mpsc_invD [OF mpsc_reach_inv [OF assms(1-3)]] by (auto simp: producers_ok_def)
  have t: "claimer_holds (threads s t) = Some (unat pos)" using assms(4) by auto
  then have W: "unat pos \<in> ?W" by (rule heldI)
  have "unat pos' \<in> ?W \<union> ?R" "unat pos' \<noteq> unat pos"
    using assms(5) p t W heldI [of claimer_holds "threads s" u "unat pos'"] shared_ring_bounds(4,5) [OF r, of "unat pos"]
    by (auto simp: exclusive_def)
  then show ?thesis using held_cells_differ [OF r assms(1), of "unat pos" "unat pos'"] W by (simp add: unat_slot assms(1))
qed

theorem mpsc_queue_no_data_race_witness: "slot_index 2 1 \<noteq> slot_index 2 0"
  using mpsc_queue_no_data_race [OF ring_size_2 mpsc_demo_reach, where t = 0] by (simp add: mpsc_demo_state)

text \<open>
  A producer that has loaded the counter makes progress unless the ring is full.
  While fewer than 2 ^ 63 positions have been claimed, \<open>enqueue\<close> yields exactly when its position is the current
  counter and the cell of that position still belongs to an earlier value that has not been taken out and released.
\<close>

theorem mpsc_queue_yields_when_full:
  assumes "ring_size S" "mpsc_reach S x0 s" "length (claimed s) + S < 2 ^ 63" "threads s t = E_seq x pos"
  shows "fst (mpsc_enqueue_step spurious (threads s t) (mqueue s)) = E_seq x pos \<longleftrightarrow>
    unat pos = length (claimed s) \<and>
    \<not> claimable S (length (claimed s)) (consumed (length (mreceived s)) (mconsumer s)) (reading (mconsumer s))"
proof -
  let ?E = "length (claimed s)" let ?C = "consumed (length (mreceived s)) (mconsumer s)"
  have b: "?E + S < 2 ^ 64" using assms(3) by simp
  have r: "shared_ring S ?E ?C (held claimer_holds (threads s)) (reading (mconsumer s))
      (claimed_value (claimed s)) (cells (mqueue s))"
    and p: "producers_ok S ?E ?C (held claimer_holds (threads s)) (reading (mconsumer s))
      (claimed_value (claimed s)) (cells (mqueue s)) (threads s)"
    using mpsc_invD [OF mpsc_reach_inv [OF assms(1,2) b]] by auto
  have "claimer_at S ?E ?C (reading (mconsumer s)) (claimed_value (claimed s)) (cells (mqueue s)) (threads s t)"
    using p by (simp add: producers_ok_def)
  then have pos: "unat pos \<le> ?E" using assms(4) by simp
  let ?sq = "sequence (cells (mqueue s) ! (unat pos mod S))"
  note test = producer_word_test [OF r assms(1) b pos]
  have d: "sint (?sq - pos) = int (unat ?sq) - int (unat pos)"
    by (rule sint_diff) (use test(3) pos assms(3) in simp_all)
  have "sint (?sq - pos) < 0 \<longleftrightarrow> unat ?sq < unat pos" unfolding d by linarith
  moreover have "fst (mpsc_enqueue_step spurious (threads s t) (mqueue s)) = E_seq x pos \<longleftrightarrow> sint (?sq - pos) < 0"
    using assms(4) by (auto simp: Let_def word_cell_at [OF assms(1) shared_ring_bounds(1) [OF r]])
  ultimately show ?thesis using test(1) by simp
qed

theorem mpsc_queue_yields_when_full_witness:
  "fst (mpsc_enqueue_step False (E_seq 7 0) (mpsc_new 2 (0 :: nat))) = E_seq 7 0 \<longleftrightarrow>
     unat (0 :: u64) = 0 \<and> \<not> claimable 2 0 0 {}"
proof -
  define s where "s = mpsc_schedule [Some (3, 7), Some (3, 7)] (mpsc_init 2 (0 :: nat))"
  have st: "threads s 3 = E_seq 7 0" "mqueue s = mpsc_new 2 0" "claimed s = []" "mreceived s = []" "mconsumer s = C_idle"
    by (simp_all add: s_def mpsc_init_def mpsc_new_def)
  have "mpsc_reach 2 0 s" unfolding s_def by (rule mpsc_schedule_reach [OF mpsc_start])
  from mpsc_queue_yields_when_full [OF ring_size_2 this _ st(1), of False] show ?thesis unfolding st by simp
qed

end
