(* ===== verification/Mpmc_Queue.thy ===== *)
theory Mpmc_Queue
  imports Ring_Threads Spsc_Queue "HOL-Library.Multiset"
begin

text \<open>
  The multiple-producer multiple-consumer queue of \<open>2_cpp_basics/3_lock_free/2_mpmc_queue/mpmc.cpp\<close>.

  The buffer is the list of cells and \<open>buffer_mask\<close> one less than its length. \<open>enqueue\<close> and \<open>dequeue\<close> claim
  a position by compare-and-exchange, which may fail spuriously, and return \<open>false\<close> instead of waiting.
  \<open>penq\<close> logs the claims of the producers, \<open>pdeq\<close> the values read by the consumers with the consumer and
  the position.
\<close>

unbundle bit_operations_syntax

type_synonym 'a mpmc_queue = "'a spsc_queue"

text \<open>The constructor, \<open>None\<close> standing for a failed \<open>assert\<close>.\<close>

definition mpmc_new :: "nat \<Rightarrow> 'a \<Rightarrow> 'a mpmc_queue option" where
  "mpmc_new n x0 =
     (if n > 2 \<and> (n AND (n - 1)) = 0
      then Some \<lparr>cells = new_cells n x0, enqueue_ptr = 0, dequeue_ptr = 0\<rparr>
      else None)"

text \<open>
  The steps of \<open>enqueue\<close>; the value whose position was claimed, and the result when it returns. \<open>diff\<close> is an \<open>int64_t\<close>, the difference of two words read as signed,
  in 64 bits. Where it would leave that range the C++ operation is undefined, which \<open>enqueue_diff_ok\<close> and \<open>dequeue_diff_ok\<close> below exclude.
\<close>

fun mpmc_enqueue_step :: "bool \<Rightarrow> 'a claimer \<Rightarrow> 'a mpmc_queue \<Rightarrow> 'a claimer \<times> 'a mpmc_queue \<times> 'a list \<times> bool option" where
  "mpmc_enqueue_step spurious E_idle q = (E_idle, q, [], None)"
| "mpmc_enqueue_step spurious (E_load x) q = (E_seq x (enqueue_ptr q), q, [], None)"
| "mpmc_enqueue_step spurious (E_seq x pos) q =
     (let cell_position = sequence (cell_at (cells q) pos);
          diff = sint (cell_position - pos)
      in if diff = 0 then (E_cas x pos, q, [], None)
         else if diff < 0 then (E_idle, q, [], Some False)
         else (E_load x, q, [], None))"
| "mpmc_enqueue_step spurious (E_cas x pos) q =
     (if \<not> spurious \<and> enqueue_ptr q = pos
      then (E_data x pos, q\<lparr>enqueue_ptr := pos + 1\<rparr>, [x], None)
      else (E_seq x (enqueue_ptr q), q, [], None))"
| "mpmc_enqueue_step spurious (E_data x pos) q =
     (E_pub x pos, q\<lparr>cells := set_cell (cells q) pos ((cell_at (cells q) pos)\<lparr>cdata := x\<rparr>)\<rparr>, [], None)"
| "mpmc_enqueue_step spurious (E_pub x pos) q =
     (E_idle, q\<lparr>cells := set_cell (cells q) pos ((cell_at (cells q) pos)\<lparr>sequence := pos + 1\<rparr>)\<rparr>, [], Some True)"

text \<open>The steps of \<open>dequeue\<close>; the value read with its position, and the result when it returns.\<close>

fun mpmc_dequeue_step :: "bool \<Rightarrow> taker \<Rightarrow> 'a mpmc_queue \<Rightarrow> taker \<times> 'a mpmc_queue \<times> (nat \<times> 'a) list \<times> bool option" where
  "mpmc_dequeue_step spurious D_idle q = (D_idle, q, [], None)"
| "mpmc_dequeue_step spurious D_load q = (D_seq (dequeue_ptr q), q, [], None)"
| "mpmc_dequeue_step spurious (D_seq pos) q =
     (let cell_position = sequence (cell_at (cells q) pos);
          diff = sint (cell_position - (pos + 1))
      in if diff = 0 then (D_cas pos, q, [], None)
         else if diff < 0 then (D_idle, q, [], Some False)
         else (D_load, q, [], None))"
| "mpmc_dequeue_step spurious (D_cas pos) q =
     (if \<not> spurious \<and> dequeue_ptr q = pos
      then (D_data pos, q\<lparr>dequeue_ptr := pos + 1\<rparr>, [], None)
      else (D_seq (dequeue_ptr q), q, [], None))"
| "mpmc_dequeue_step spurious (D_data pos) q = (D_rel pos, q, [(unat pos, cdata (cell_at (cells q) pos))], None)"
| "mpmc_dequeue_step spurious (D_rel pos) q =
     (D_idle, q\<lparr>cells := set_cell (cells q) pos
        ((cell_at (cells q) pos)\<lparr>sequence := pos + (of_nat (length (cells q)) - 1) + 1\<rparr>)\<rparr>, [], Some True)"

text \<open>The subtraction of the next step stays in the range of \<open>int64_t\<close>.\<close>

definition int64_range :: "int \<Rightarrow> bool" where
  "int64_range v \<longleftrightarrow> - (2 ^ 63) \<le> v \<and> v < 2 ^ 63"

fun enqueue_diff_ok :: "'a claimer \<Rightarrow> 'a mpmc_queue \<Rightarrow> bool" where
  "enqueue_diff_ok (E_seq x pos) q = int64_range (sint (sequence (cell_at (cells q) pos)) - sint pos)"
| "enqueue_diff_ok _ q = True"

fun dequeue_diff_ok :: "taker \<Rightarrow> 'a mpmc_queue \<Rightarrow> bool" where
  "dequeue_diff_ok (D_seq pos) q = int64_range (sint (sequence (cell_at (cells q) pos)) - sint (pos + 1))"
| "dequeue_diff_ok _ q = True"

record 'a mpmc_sys =
  pq :: "'a mpmc_queue"
  prods :: "nat \<Rightarrow> 'a claimer"
  conss :: "nat \<Rightarrow> taker"
  penq :: "(nat \<times> 'a) list"
  pdeq :: "(nat \<times> nat \<times> 'a) list"

inductive mpmc_step :: "'a mpmc_sys \<Rightarrow> 'a mpmc_sys \<Rightarrow> bool" where
  call_mpmc_enqueue: "prods s t = E_idle \<Longrightarrow> mpmc_step s (s\<lparr>prods := (prods s)(t := E_load x)\<rparr>)"
| run_mpmc_enqueue: "prods s t \<noteq> E_idle \<Longrightarrow> mpmc_enqueue_step spurious (prods s t) (pq s) = (p', q', xs, ret) \<Longrightarrow>
     mpmc_step s (s\<lparr>prods := (prods s)(t := p'), pq := q', penq := penq s @ map (Pair t) xs\<rparr>)"
| call_mpmc_dequeue: "conss s t = D_idle \<Longrightarrow> mpmc_step s (s\<lparr>conss := (conss s)(t := D_load)\<rparr>)"
| run_mpmc_dequeue: "conss s t \<noteq> D_idle \<Longrightarrow> mpmc_dequeue_step spurious (conss s t) (pq s) = (c', q', ys, ret) \<Longrightarrow>
     mpmc_step s (s\<lparr>conss := (conss s)(t := c'), pq := q', pdeq := pdeq s @ map (Pair t) ys\<rparr>)"

definition mpmc_init :: "'a mpmc_queue \<Rightarrow> 'a mpmc_sys" where
  "mpmc_init q = \<lparr>pq = q, prods = (\<lambda>_. E_idle), conss = (\<lambda>_. D_idle), penq = [], pdeq = []\<rparr>"

inductive mpmc_reach :: "'a mpmc_queue \<Rightarrow> 'a mpmc_sys \<Rightarrow> bool" for q where
  mpmc_start: "mpmc_reach q (mpmc_init q)"
| mpmc_next: "mpmc_reach q s \<Longrightarrow> mpmc_step s s' \<Longrightarrow> mpmc_reach q s'"

text \<open>The sizes the \<open>assert\<close> admits are powers of two.\<close>

lemma power_of_two:
  "0 < n \<Longrightarrow> (n AND (n - 1)) = (0 :: nat) \<Longrightarrow> \<exists>k. n = 2 ^ k"
proof (induction n rule: less_induct)
  case (less n)
  show ?case
  proof (cases "even n")
    case True
    then obtain m where m: "n = 2 * m" "0 < m" using less.prems(1) by auto
    then obtain j where j: "m = Suc j" by (cases m) auto
    have "n AND (n - 1) = 2 * (m AND (m - 1))"
      by (subst and_nat_rec) (simp add: m(1) j)
    then obtain k where "m = 2 ^ k" using less.IH [of m] less.prems(2) m by auto
    then show ?thesis using m(1) by (intro exI [of _ "Suc k"]) simp
  next
    case False
    then obtain m where m: "n = 2 * m + 1" by (metis oddE)
    have "n AND (n - 1) = 2 * m" by (subst and_nat_rec) (simp add: m)
    then show ?thesis using less.prems(2) m by (intro exI [of _ 0]) simp
  qed
qed

lemma mpmc_new_size:
  assumes "mpmc_new n x0 = Some q" "n < 2 ^ 64"
  shows "ring_size n" "q = \<lparr>cells = new_cells n x0, enqueue_ptr = 0, dequeue_ptr = 0\<rparr>"
proof -
  have c: "n > 2" "n AND (n - 1) = 0" using assms(1) by (simp_all add: mpmc_new_def split: if_splits)
  obtain k where k: "n = 2 ^ k" using power_of_two [of n] c by auto
  then have "0 < k" using c by (cases k) auto
  moreover have "k < 64" using assms(2) unfolding k by (rule power_less_imp_less_exp [rotated]) simp
  ultimately show "ring_size n" using k unfolding ring_size_def by blast
  show "q = \<lparr>cells = new_cells n x0, enqueue_ptr = 0, dequeue_ptr = 0\<rparr>"
    using assms(1) by (simp add: mpmc_new_def split: if_splits)
qed
section \<open>The invariant\<close>

text \<open>The positions claimed by a consumer that has not read them yet.\<close>

fun unread :: "taker \<Rightarrow> nat option" where
  "unread (D_data pos) = Some (unat pos)"
| "unread _ = None"

definition logged :: "(nat \<times> nat \<times> 'a) list \<Rightarrow> nat list" where
  "logged ys = map (fst \<circ> snd) ys"

definition logged_by :: "nat \<Rightarrow> (nat \<times> nat \<times> 'a) list \<Rightarrow> nat list" where
  "logged_by t ys = logged (filter (\<lambda>y. fst y = t) ys)"

text \<open>What has been read: every position once, with the value claimed for it, ascending for each consumer.\<close>

definition log_ok :: "nat \<Rightarrow> (nat \<Rightarrow> 'a) \<Rightarrow> (nat \<Rightarrow> taker) \<Rightarrow> (nat \<times> nat \<times> 'a) list \<Rightarrow> bool" where
  "log_ok C vals ths ys \<longleftrightarrow>
     distinct (logged ys) \<and> set (logged ys) = {..<C} - held unread ths \<and>
     (\<forall>y\<in>set ys. snd (snd y) = vals (fst (snd y))) \<and>
     (\<forall>t. sorted_wrt (<) (logged_by t ys) \<and> (\<forall>pos. ths t = D_data pos \<longrightarrow> (\<forall>k\<in>set (logged_by t ys). k < unat pos)))"

definition mpmc_inv :: "nat \<Rightarrow> nat \<Rightarrow> 'a mpmc_sys \<Rightarrow> bool" where
  "mpmc_inv S C s \<longleftrightarrow>
     (let E = length (penq s); W = held claimer_holds (prods s); R = held taker_holds (conss s); vals = claimed_value (penq s)
      in shared_ring S E C W R vals (cells (pq s)) \<and>
         producers_ok S E C W R vals (cells (pq s)) (prods s) \<and>
         consumers_ok E C W R (conss s) \<and>
         enqueue_ptr (pq s) = of_nat E \<and> dequeue_ptr (pq s) = of_nat C \<and>
         log_ok C vals (conss s) (pdeq s))"

lemmas mpmc_invD = mpmc_inv_def [THEN iffD1, unfolded Let_def]

lemma mpmc_invI:
  assumes "shared_ring S E C W R (claimed_value (penq s)) cs"
    "producers_ok S E C W R (claimed_value (penq s)) cs (prods s)" "consumers_ok E C W R (conss s)"
    "cells (pq s) = cs" "length (penq s) = E" "enqueue_ptr (pq s) = of_nat E" "dequeue_ptr (pq s) = of_nat C"
    "log_ok C (claimed_value (penq s)) (conss s) (pdeq s)"
  shows "mpmc_inv S C s"
  using assms producers_okW [OF assms(2)] by (simp add: mpmc_inv_def Let_def consumers_ok_def)

lemma mpmc_inv_init:
  assumes "ring_size S"
  shows "mpmc_inv S 0 (mpmc_init \<lparr>cells = new_cells S x0, enqueue_ptr = 0, dequeue_ptr = 0\<rparr>)"
  using shared_ring_new [OF assms]
  by (simp add: mpmc_inv_def mpmc_init_def Let_def producers_ok_def consumers_ok_def held_def exclusive_def log_ok_def
      logged_def logged_by_def)

lemma log_ok_vals: "log_ok C vals ths ys \<Longrightarrow> (\<And>k. k < C \<Longrightarrow> vals k = vals' k) \<Longrightarrow> log_ok C vals' ths ys"
  unfolding log_ok_def by (metis (no_types, lifting) DiffE comp_apply image_eqI lessThan_iff list.set_map logged_def)

lemma log_ok_quiet:
  assumes "log_ok C vals ths ys" "unread p = None" "unread (ths t) = None"
  shows "log_ok C vals (ths(t := p)) ys"
proof -
  have "held unread (ths(t := p)) = held unread ths" by (rule held_same) (simp add: assms)
  moreover have "p \<noteq> D_data pos" for pos using assms(2) by auto
  ultimately show ?thesis using assms(1) by (simp add: log_ok_def)
qed

lemma log_ok_take:
  assumes l: "log_ok C vals ths ys" and t: "ths t = D_cas pos" and pos: "unat pos = C"
  shows "log_ok (Suc C) vals (ths(t := D_data pos)) ys"
proof -
  have u: "held unread (ths(t := D_data pos)) = insert C (held unread ths)"
    by (rule held_gain) (simp_all add: t pos)
  have "set (logged ys) \<subseteq> {..<C}" using l by (auto simp: log_ok_def)
  then have "set (logged_by u ys) \<subseteq> {..<C}" for u by (auto simp: logged_by_def logged_def)
  moreover have "set (logged ys) = {..<Suc C} - insert C (held unread ths)" using l by (auto simp: log_ok_def)
  ultimately show ?thesis using l u by (auto simp: log_ok_def pos)
qed

lemma log_ok_read:
  assumes l: "log_ok C vals ths ys" and ex: "exclusive taker_holds ths" and t: "ths t = D_data pos"
    and C: "unat pos < C" and v: "v = vals (unat pos)"
  shows "log_ok C vals (ths(t := D_rel pos)) (ys @ [(t, unat pos, v)])"
proof -
  have ex': "exclusive unread ths"
    unfolding exclusive_def
  proof (intro allI impI)
    fix a b k assume "unread (ths a) = Some k" "unread (ths b) = Some k"
    then have "taker_holds (ths a) = Some k" "taker_holds (ths b) = Some k" by (cases "ths a"; cases "ths b"; simp)+
    then show "a = b" using ex by (auto simp: exclusive_def)
  qed
  have u: "held unread (ths(t := D_rel pos)) = held unread ths - {unat pos}"
    by (rule held_lose [OF ex']) (simp_all add: t)
  have "unat pos \<in> held unread ths" by (rule heldI [of unread ths t]) (simp add: t)
  then have new: "unat pos \<notin> set (logged ys)" using l by (simp add: log_ok_def)
  have by_t: "sorted_wrt (<) (logged_by t ys)" "\<forall>k\<in>set (logged_by t ys). k < unat pos" using l t by (simp_all add: log_ok_def)
  have app: "logged (ys @ [(t, unat pos, v)]) = logged ys @ [unat pos]"
    "logged_by w (ys @ [(t, unat pos, v)]) = logged_by w ys @ (if w = t then [unat pos] else [])" for w
    by (simp_all add: logged_def logged_by_def)
  show ?thesis
    unfolding log_ok_def app u
  proof (intro conjI allI impI)
    show "distinct (logged ys @ [unat pos])" using l new by (simp add: log_ok_def)
    show "set (logged ys @ [unat pos]) = {..<C} - (held unread ths - {unat pos})" using l C by (auto simp: log_ok_def)
    show "\<forall>y\<in>set (ys @ [(t, unat pos, v)]). snd (snd y) = vals (fst (snd y))" using l v by (simp add: log_ok_def)
    show "sorted_wrt (<) (logged_by w ys @ (if w = t then [unat pos] else []))" for w
      using l by_t by (simp add: log_ok_def sorted_wrt_append)
    show "\<forall>k\<in>set (logged_by w ys @ (if w = t then [unat pos] else [])). k < unat p" if "(ths(t := D_rel pos)) w = D_data p" for w p
      using l that by (auto simp: log_ok_def split: if_splits)
  qed
qed

lemma sint_diff_zero: "sint ((a :: u64) - b) = 0 \<longleftrightarrow> a = b"
  by (metis eq_iff_diff_eq_0 signed_0 signed_word_eqI)

text \<open>Steps that only move a thread.\<close>

lemma mpmc_inv_prod_quiet:
  assumes i: "mpmc_inv S C s" and h: "claimer_holds p = claimer_holds (prods s t)"
    and at: "claimer_at S (length (penq s)) C (held taker_holds (conss s)) (claimed_value (penq s)) (cells (pq s)) p"
    and same: "q' = pq s" "xs = []"
  shows "mpmc_inv S C (s\<lparr>prods := (prods s)(t := p), pq := q', penq := penq s @ map (Pair t) xs\<rparr>)"
  using i producers_quiet [of S _ _ _ _ _ _ "prods s" p t] h at held_same [of claimer_holds p "prods s" t]
  by (simp add: mpmc_inv_def Let_def same)

lemma mpmc_inv_cons_quiet:
  assumes i: "mpmc_inv S C s" and h: "taker_holds p = None" "taker_holds (conss s t) = None"
    and at: "taker_at (length (penq s)) C (held claimer_holds (prods s)) p" and same: "q' = pq s" "ys = []"
  shows "mpmc_inv S C (s\<lparr>conss := (conss s)(t := p), pq := q', pdeq := pdeq s @ map (Pair t) ys\<rparr>)"
proof -
  have "unread p = None" "unread (conss s t) = None" using h by (cases p; simp) (cases "conss s t"; use h in simp)
  then have "log_ok C (claimed_value (penq s)) ((conss s)(t := p)) (pdeq s)"
    using mpmc_invD [OF i] by (intro log_ok_quiet) simp_all
  then show ?thesis
    using i consumers_quiet [of _ _ _ _ "conss s" p t] h at held_same [of taker_holds p "conss s" t]
    by (simp add: mpmc_inv_def Let_def same)
qed

lemma mpmc_inv_enqueue:
  assumes S: "ring_size S" and b: "length (penq s) + S < 2 ^ 64" and i: "mpmc_inv S C s"
    and st: "mpmc_enqueue_step spurious (prods s t) (pq s) = (p', q', xs, ret)"
  shows "mpmc_inv S C (s\<lparr>prods := (prods s)(t := p'), pq := q', penq := penq s @ map (Pair t) xs\<rparr>)"
proof -
  let ?E = "length (penq s)" let ?W = "held claimer_holds (prods s)" let ?R = "held taker_holds (conss s)"
  let ?v = "claimed_value (penq s)" let ?cs = "cells (pq s)"
  have r: "shared_ring S ?E C ?W ?R ?v ?cs" and p: "producers_ok S ?E C ?W ?R ?v ?cs (prods s)"
    and c: "consumers_ok ?E C ?W ?R (conss s)" and e: "enqueue_ptr (pq s) = of_nat ?E" "dequeue_ptr (pq s) = of_nat C"
    and l: "log_ok C ?v (conss s) (pdeq s)"
    using mpmc_invD [OF i] by auto
  have at: "claimer_at S ?E C ?R ?v ?cs (prods s t)" using p by (simp add: producers_ok_def)
  have E: "unat (enqueue_ptr (pq s)) = ?E" using b e by (simp add: unat_of_nat_small)
  note cell = word_cell_at [OF S shared_ring_bounds(1) [OF r]] word_set_cell [OF S shared_ring_bounds(1) [OF r]]
  show ?thesis
  proof (cases "prods s t")
    case E_idle
    then have "p' = E_idle" "q' = pq s" "xs = []" using st by simp_all
    then show ?thesis using E_idle by (intro mpmc_inv_prod_quiet [OF i]) simp_all
  next
    case (E_load x)
    then have "p' = E_seq x (enqueue_ptr (pq s))" "q' = pq s" "xs = []" using st by auto
    then show ?thesis using E_load E by (intro mpmc_inv_prod_quiet [OF i]) simp_all
  next
    case (E_seq x pos)
    have pos: "unat pos \<le> ?E" using at E_seq by simp
    have "p' = E_cas x pos \<longrightarrow> sequence (?cs ! (unat pos mod S)) = pos"
      using st E_seq by (auto simp: Let_def cell sint_diff_zero split: if_splits)
    moreover have "p' = E_cas x pos \<or> p' = E_load x \<or> p' = E_idle" and same: "q' = pq s" "xs = []"
      using st E_seq by (auto simp: Let_def split: if_splits)
    ultimately have "claimer_at S ?E C ?R ?v ?cs p'" "claimer_holds p' = None"
      using pos producer_word_test(2) [OF r S b pos] by auto
    then show ?thesis using E_seq same by (intro mpmc_inv_prod_quiet [OF i]) simp_all
  next
    case (E_cas x pos)
    show ?thesis
    proof (cases "\<not> spurious \<and> enqueue_ptr (pq s) = pos")
      case True
      then have pos: "unat pos = ?E" using E by simp
      note cl = claim_logged [OF r p E_cas pos]
      have l': "log_ok C (claimed_value (penq s @ [(t, x)])) (conss s) (pdeq s)"
        by (rule log_ok_vals [OF l]) (use shared_ring_bounds(2) [OF r] in \<open>simp add: claimed_value_append\<close>)
      have c': "consumers_ok (Suc ?E) C (held claimer_holds ((prods s)(t := E_data x pos))) ?R (conss s)"
        unfolding cl(3) by (rule consumers_claim [OF c])
      have "p' = E_data x pos" "xs = [x]" "q' = pq s\<lparr>enqueue_ptr := pos + 1\<rparr>" using st E_cas True by auto
      then show ?thesis using cl c' l' e True by (intro mpmc_invI [where cs = ?cs and E = "Suc ?E"]) (simp_all add: add.commute)
    next
      case False
      then have "p' = E_seq x (enqueue_ptr (pq s))" "q' = pq s" "xs = []" using st E_cas by (auto split: if_splits)
      then show ?thesis using E_cas E by (intro mpmc_inv_prod_quiet [OF i]) simp_all
    qed
  next
    case (E_data x pos)
    note w = producers_write [OF r S p E_data]
    have "p' = E_pub x pos" "xs = []" "q' = pq s\<lparr>cells := ?cs[unat pos mod S := (?cs ! (unat pos mod S))\<lparr>cdata := x\<rparr>]\<rparr>"
      using st E_data cell by auto
    then show ?thesis using w c l e by (intro mpmc_invI [where cs = "cells q'"]) simp_all
  next
    case (E_pub x pos)
    note w = producers_publish [OF r S p E_pub]
    have "p' = E_idle" "xs = []" "q' = pq s\<lparr>cells := ?cs[unat pos mod S := (?cs ! (unat pos mod S))\<lparr>sequence := pos + 1\<rparr>]\<rparr>"
      using st E_pub cell by auto
    then show ?thesis using w consumers_publish [OF c, of "unat pos"] l e by (intro mpmc_invI [where cs = "cells q'"]) simp_all
  qed
qed

lemma mpmc_inv_dequeue:
  assumes S: "ring_size S" and b: "length (penq s) + S < 2 ^ 64" and i: "mpmc_inv S C s"
    and st: "mpmc_dequeue_step spurious (conss s t) (pq s) = (c', q', ys, ret)"
  shows "\<exists>C'. mpmc_inv S C' (s\<lparr>conss := (conss s)(t := c'), pq := q', pdeq := pdeq s @ map (Pair t) ys\<rparr>)"
proof -
  let ?E = "length (penq s)" let ?W = "held claimer_holds (prods s)" let ?R = "held taker_holds (conss s)"
  let ?v = "claimed_value (penq s)" let ?cs = "cells (pq s)"
  have r: "shared_ring S ?E C ?W ?R ?v ?cs" and p: "producers_ok S ?E C ?W ?R ?v ?cs (prods s)"
    and c: "consumers_ok ?E C ?W ?R (conss s)" and e: "enqueue_ptr (pq s) = of_nat ?E" "dequeue_ptr (pq s) = of_nat C"
    and l: "log_ok C ?v (conss s) (pdeq s)"
    using mpmc_invD [OF i] by auto
  have at: "taker_at ?E C ?W (conss s t)" and ex: "exclusive taker_holds (conss s)" using c by (simp_all add: consumers_ok_def)
  have S0: "0 < S" using ring_size_bounds [OF S] by simp
  have C: "unat (dequeue_ptr (pq s)) = C" using b e shared_ring_bounds(2) [OF r] by (simp add: unat_of_nat_small)
  note len = shared_ring_bounds(1) [OF r]
  note cell = word_cell_at [OF S len] word_set_cell [OF S len]
  show ?thesis
  proof (cases "conss s t")
    case D_idle
    then have "c' = D_idle" "q' = pq s" "ys = []" using st by simp_all
    then show ?thesis using D_idle by (intro exI [of _ C] mpmc_inv_cons_quiet [OF i]) simp_all
  next
    case D_load
    then have "c' = D_seq (dequeue_ptr (pq s))" "q' = pq s" "ys = []" using st by auto
    then show ?thesis using D_load C by (intro exI [of _ C] mpmc_inv_cons_quiet [OF i]) simp_all
  next
    case (D_seq pos)
    have pos: "unat pos \<le> C" using at D_seq by simp
    have "c' = D_cas pos \<longrightarrow> sequence (?cs ! (unat pos mod S)) = pos + 1"
      using st D_seq by (auto simp: Let_def cell sint_diff_zero split: if_splits)
    moreover have "c' = D_cas pos \<or> c' = D_load \<or> c' = D_idle" and same: "q' = pq s" "ys = []"
      using st D_seq by (auto simp: Let_def split: if_splits)
    ultimately have "taker_at ?E C ?W c'" "taker_holds c' = None"
      using pos consumer_word_test(2) [OF r S b pos] by auto
    then show ?thesis using D_seq same by (intro exI [of _ C] mpmc_inv_cons_quiet [OF i]) simp_all
  next
    case (D_cas pos)
    show ?thesis
    proof (cases "\<not> spurious \<and> dequeue_ptr (pq s) = pos")
      case True
      then have pos: "unat pos = C" using C by simp
      note t = consumers_take [OF r c D_cas pos S0]
      have "c' = D_data pos" "ys = []" "q' = pq s\<lparr>dequeue_ptr := pos + 1\<rparr>" using st D_cas True by auto
      then show ?thesis using t producers_take [OF r p t(1)] log_ok_take [OF l D_cas pos] e True
        by (intro exI [of _ "Suc C"] mpmc_invI [where cs = ?cs]) (simp_all add: add.commute)
    next
      case False
      then have "c' = D_seq (dequeue_ptr (pq s))" "q' = pq s" "ys = []" using st D_cas by (auto split: if_splits)
      then show ?thesis using D_cas C by (intro exI [of _ C] mpmc_inv_cons_quiet [OF i]) simp_all
    qed
  next
    case (D_data pos)
    have R: "unat pos \<in> ?R" by (rule taker_held [OF c, of t]) (simp add: D_data)
    then have lt: "unat pos < C" using shared_ring_bounds(5) [OF r] by simp
    have "c' = D_rel pos" "q' = pq s" and ys: "ys = [(unat pos, ?v (unat pos))]"
      using st D_data cell shared_ring_data [OF r, of "unat pos"] R by auto
    moreover have "log_ok C ?v ((conss s)(t := D_rel pos)) (pdeq s @ [(t, unat pos, ?v (unat pos))])"
      by (rule log_ok_read [OF l ex D_data lt refl])
    moreover have "consumers_ok ?E C ?W ?R ((conss s)(t := D_rel pos))"
      by (rule consumers_quiet [OF c]) (simp_all add: D_data)
    ultimately show ?thesis using r p e by (intro exI [of _ C] mpmc_invI [where cs = ?cs]) simp_all
  next
    case (D_rel pos)
    have R: "unat pos \<in> ?R" by (rule taker_held [OF c, of t]) (simp add: D_rel)
    note w = consumers_release [OF r c D_rel]
    have "c' = D_idle" "ys = []" "q' = pq s\<lparr>cells := ?cs[unat pos mod S :=
      (?cs ! (unat pos mod S))\<lparr>sequence := pos + of_nat S\<rparr>]\<rparr>" using st D_rel cell len by auto
    then show ?thesis
      using w producers_release [OF r S p R] log_ok_quiet [OF l, of D_idle t] D_rel e
      by (intro exI [of _ C] mpmc_invI [where cs = "cells q'"]) simp_all
  qed
qed

lemma mpmc_inv_step:
  assumes "ring_size S" "length (penq s') + S < 2 ^ 64" "mpmc_inv S C s" "mpmc_step s s'"
  shows "\<exists>C'. mpmc_inv S C' s'"
  using assms(4)
proof cases
  case (call_mpmc_enqueue t x)
  have "mpmc_inv S C (s\<lparr>prods := (prods s)(t := E_load x), pq := pq s, penq := penq s @ map (Pair t) []\<rparr>)"
    by (rule mpmc_inv_prod_quiet [OF assms(3)]) (simp_all add: call_mpmc_enqueue(2))
  then show ?thesis unfolding call_mpmc_enqueue(1) by (auto simp: mpmc_inv_def)
next
  case (run_mpmc_enqueue t spurious p' q' xs ret)
  then show ?thesis using assms(2) mpmc_inv_enqueue [OF assms(1) _ assms(3) run_mpmc_enqueue(3)] by auto
next
  case (call_mpmc_dequeue t)
  have "mpmc_inv S C (s\<lparr>conss := (conss s)(t := D_load), pq := pq s, pdeq := pdeq s @ map (Pair t) []\<rparr>)"
    by (rule mpmc_inv_cons_quiet [OF assms(3)]) (simp_all add: call_mpmc_dequeue(2))
  then show ?thesis unfolding call_mpmc_dequeue(1) by (auto simp: mpmc_inv_def)
next
  case (run_mpmc_dequeue t spurious c' q' ys ret)
  then show ?thesis using assms(2) mpmc_inv_dequeue [OF assms(1) _ assms(3) run_mpmc_dequeue(3)] by simp
qed

lemma mpmc_step_claims: "mpmc_step s s' \<Longrightarrow> length (penq s) \<le> length (penq s')"
  by (induction rule: mpmc_step.induct) auto

lemma mpmc_reach_inv:
  assumes "mpmc_new S x0 = Some q" "S < 2 ^ 64" "mpmc_reach q s" "length (penq s) + S < 2 ^ 64"
  obtains C where "mpmc_inv S C s"
proof -
  note S = mpmc_new_size [OF assms(1,2)]
  from assms(3,4) have "\<exists>C. mpmc_inv S C s"
  proof induction
    case mpmc_start
    show ?case unfolding S(2) by (rule exI [of _ 0]) (rule mpmc_inv_init [OF S(1)])
  next
    case (mpmc_next s s')
    then show ?case using mpmc_inv_step [OF S(1)] mpmc_step_claims [of s s'] by fastforce
  qed
  then show ?thesis using that by blast
qed

text \<open>When as many values have been read as positions were claimed, they are the same.\<close>

lemma log_ok_complete:
  assumes "mpmc_inv S C s" "length (pdeq s) = length (penq s)"
  shows "mset (map (snd \<circ> snd) (pdeq s)) = mset (map snd (penq s))"
proof -
  let ?E = "length (penq s)" let ?v = "claimed_value (penq s)"
  have CE: "C \<le> ?E" and l: "log_ok C ?v (conss s) (pdeq s)" using mpmc_invD [OF assms(1)] shared_ring_bounds(2) by auto
  have "set (logged (pdeq s)) \<subseteq> {..<?E}" using l CE by (auto simp: log_ok_def)
  moreover have "card (set (logged (pdeq s))) = ?E" using l assms(2) distinct_card [of "logged (pdeq s)"] by (simp add: log_ok_def) (simp add: logged_def)
  ultimately have "set (logged (pdeq s)) = {..<?E}" by (intro card_subset_eq) simp_all
  then have "mset (logged (pdeq s)) = mset [0..<?E]"
    using l set_eq_iff_mset_eq_distinct [of "logged (pdeq s)" "[0..<?E]"] by (simp add: log_ok_def lessThan_atLeast0)
  then have "mset (map ?v (logged (pdeq s))) = mset (map ?v [0..<?E])" by simp
  moreover have "map ?v (logged (pdeq s)) = map (snd \<circ> snd) (pdeq s)" using l by (simp add: log_ok_def logged_def)
  moreover have "map ?v [0..<?E] = map snd (penq s)" by (rule nth_equalityI) (simp_all add: claimed_value_def)
  ultimately show ?thesis by metis
qed

text \<open>Below 2 ^ 63 the signed difference of two counters is their difference as numbers.\<close>

lemma small_difference:
  assumes "unat (a :: u64) < 2 ^ 63" "unat b < 2 ^ 63"
  shows "int64_range (sint a - sint b)" "sint (a - b) < 0 \<longleftrightarrow> unat a < unat b"
proof -
  have "int (unat a) < 2 ^ 63" "int (unat b) < 2 ^ 63" using int_unat_less [OF assms(1)] int_unat_less [OF assms(2)] by simp_all
  then show "int64_range (sint a - sint b)" unfolding sint_small [OF assms(1)] sint_small [OF assms(2)] int64_range_def by linarith
  show "sint (a - b) < 0 \<longleftrightarrow> unat a < unat b" unfolding sint_diff [OF assms] by linarith
qed

lemma small_suc:
  assumes "unat (a :: u64) + 1 < 2 ^ 63"
  shows "unat (a + 1) = unat a + 1"
proof -
  have "unat (of_nat (unat a + 1) :: u64) = unat a + 1" using assms by (intro unat_of_nat_small) simp
  then show ?thesis by (simp add: add.commute)
qed

lemma counters_small:
  assumes S: "ring_size S" and i: "mpmc_inv S C s" and b: "length (penq s) + S < 2 ^ 63"
  shows "prods s t = E_seq x pos \<Longrightarrow> unat (sequence (cell_at (cells (pq s)) pos)) < 2 ^ 63 \<and> unat pos < 2 ^ 63"
    and "conss s u = D_seq pos' \<Longrightarrow> unat (sequence (cell_at (cells (pq s)) pos')) < 2 ^ 63 \<and> unat pos' + 1 < 2 ^ 63"
proof -
  let ?E = "length (penq s)" let ?cs = "cells (pq s)"
  have r: "shared_ring S ?E C (held claimer_holds (prods s)) (held taker_holds (conss s)) (claimed_value (penq s)) ?cs"
    and at: "claimer_at S ?E C (held taker_holds (conss s)) (claimed_value (penq s)) ?cs (prods s t)"
      "taker_at ?E C (held claimer_holds (prods s)) (conss s u)"
    using mpmc_invD [OF i] by (auto simp: producers_ok_def consumers_ok_def)
  have E: "?E + S < 2 ^ 64" "0 < S" "C \<le> ?E" using b ring_size_bounds [OF S] shared_ring_bounds(2) [OF r] by simp_all
  note cell = word_cell_at [OF S shared_ring_bounds(1) [OF r]]
  show "unat (sequence (cell_at ?cs pos)) < 2 ^ 63 \<and> unat pos < 2 ^ 63" if "prods s t = E_seq x pos"
    using producer_word_test(3) [OF r S E(1), of pos] at(1) that b by (simp add: cell)
  show "unat (sequence (cell_at ?cs pos')) < 2 ^ 63 \<and> unat pos' + 1 < 2 ^ 63" if "conss s u = D_seq pos'"
    using consumer_word_test(3) [OF r S E(1), of pos'] at(2) that b E by (simp add: cell)
qed

lemma differences_ok:
  assumes "ring_size S" "mpmc_inv S C s" "length (penq s) + S < 2 ^ 63"
  shows "enqueue_diff_ok (prods s t) (pq s)" "dequeue_diff_ok (conss s u) (pq s)"
proof -
  note c = counters_small [OF assms]
  show "enqueue_diff_ok (prods s t) (pq s)"
    by (cases "prods s t") (use c(1) in \<open>simp_all add: small_difference(1)\<close>)
  show "dequeue_diff_ok (conss s u) (pq s)"
    by (cases "conss s u") (use c(2) in \<open>simp_all add: small_difference(1) small_suc\<close>)
qed

section \<open>Properties\<close>

text \<open>Schedules, to exhibit reachable states: \<open>Inl (t, x)\<close> lets producer \<open>t\<close> act, \<open>Inr t\<close> consumer \<open>t\<close>.\<close>

fun mpmc_schedule :: "((nat \<times> 'a) + nat) list \<Rightarrow> 'a mpmc_sys \<Rightarrow> 'a mpmc_sys" where
  "mpmc_schedule [] s = s"
| "mpmc_schedule (Inl (t, x) # ts) s = mpmc_schedule ts
     (if prods s t = E_idle then s\<lparr>prods := (prods s)(t := E_load x)\<rparr>
      else case mpmc_enqueue_step False (prods s t) (pq s) of (p', q', xs, _) \<Rightarrow>
        s\<lparr>prods := (prods s)(t := p'), pq := q', penq := penq s @ map (Pair t) xs\<rparr>)"
| "mpmc_schedule (Inr t # ts) s = mpmc_schedule ts
     (if conss s t = D_idle then s\<lparr>conss := (conss s)(t := D_load)\<rparr>
      else case mpmc_dequeue_step False (conss s t) (pq s) of (c', q', ys, _) \<Rightarrow>
        s\<lparr>conss := (conss s)(t := c'), pq := q', pdeq := pdeq s @ map (Pair t) ys\<rparr>)"

lemma mpmc_schedule_reach: "mpmc_reach q s \<Longrightarrow> mpmc_reach q (mpmc_schedule ts s)"
proof (induction ts s rule: mpmc_schedule.induct)
  case (2 t x ts s)
  show ?case
  proof (cases "prods s t = E_idle")
    case True
    then show ?thesis using "2.IH" mpmc_next [OF "2.prems" call_mpmc_enqueue [of s t x]] by simp
  next
    case False
    obtain p' q' xs ret where st: "mpmc_enqueue_step False (prods s t) (pq s) = (p', q', xs, ret)" by (cases rule: prod_cases4)
    show ?thesis using "2.IH" mpmc_next [OF "2.prems" run_mpmc_enqueue [OF False st]] False st by simp
  qed
next
  case (3 t ts s)
  show ?case
  proof (cases "conss s t = D_idle")
    case True
    then show ?thesis using "3.IH" mpmc_next [OF "3.prems" call_mpmc_dequeue [of s t]] by simp
  next
    case False
    obtain c' q' ys ret where st: "mpmc_dequeue_step False (conss s t) (pq s) = (c', q', ys, ret)" by (cases rule: prod_cases4)
    show ?thesis using "3.IH" mpmc_next [OF "3.prems" run_mpmc_dequeue [OF False st]] False st by simp
  qed
qed simp

definition demo_queue :: "nat mpmc_queue" where
  "demo_queue = \<lparr>cells = new_cells 4 0, enqueue_ptr = 0, dequeue_ptr = 0\<rparr>"

lemma demo_queue_new: "mpmc_new 4 0 = Some demo_queue"
  by (simp add: mpmc_new_def demo_queue_def and_nat_rec [of 4])

text \<open>Thread 1 overtakes thread 0, and consumer 7 has read the first value while thread 0 is writing the second.\<close>

definition mpmc_demo :: "nat mpmc_sys" where
  "mpmc_demo = mpmc_schedule [Inl (0, 5), Inl (0, 5), Inl (1, 6), Inl (1, 6), Inl (1, 6), Inl (1, 6), Inl (0, 5),
     Inl (0, 5), Inl (0, 5), Inl (0, 5), Inl (1, 6), Inl (1, 6), Inr 7, Inr 7, Inr 7, Inr 7, Inr 7] (mpmc_init demo_queue)"

lemma mpmc_demo_reach: "mpmc_reach demo_queue mpmc_demo"
  unfolding mpmc_demo_def by (rule mpmc_schedule_reach [OF mpmc_start])

lemma mpmc_demo_state:
  "penq mpmc_demo = [(1, 6), (0, 5)]" "pdeq mpmc_demo = [(7, 0, 6)]"
  "prods mpmc_demo 0 = E_data 5 1" "conss mpmc_demo 7 = D_rel 0"
  by (simp_all add: mpmc_demo_def mpmc_init_def demo_queue_def new_cells_def cell_at_def set_cell_def slot_index_def
      numeral_eq_Suc upt_rec)

text \<open>
  C9: Every value is delivered at most once and in order. Under every interleaving of any
  number of producers and consumers, before the counter has run through its 64 bits (below 2 ^ 63 claims the signed differences do not overflow either), the value read at a position is the
  value of the enqueue that claimed it, no position is read twice, and each consumer reads ascending positions.
\<close>

theorem mpmc_queue_exactly_once:
  assumes "mpmc_new S x0 = Some q" "S < 2 ^ 64" "mpmc_reach q s" "length (penq s) + S < 2 ^ 64"
  shows "distinct (logged (pdeq s)) \<and> sorted_wrt (<) (logged_by u (pdeq s)) \<and>
    (\<forall>(t, k, v)\<in>set (pdeq s). k < length (penq s) \<and> snd (penq s ! k) = v)"
proof -
  obtain C where i: "mpmc_inv S C s" by (rule mpmc_reach_inv [OF assms])
  then have l: "log_ok C (claimed_value (penq s)) (conss s) (pdeq s)" and "C \<le> length (penq s)"
    using mpmc_invD [OF i] shared_ring_bounds(2) by auto
  moreover have "fst (snd y) \<in> set (logged (pdeq s))" if "y \<in> set (pdeq s)" for y using that by (simp add: logged_def)
  ultimately show ?thesis by (fastforce simp: log_ok_def claimed_value_def)
qed

theorem mpmc_queue_exactly_once_witness:
  "distinct (logged [(7, 0, 6 :: nat)]) \<and> sorted_wrt (<) (logged_by 7 [(7, 0, 6 :: nat)]) \<and>
    0 < length [(1 :: nat, 6 :: nat), (0, 5)] \<and> snd ([(1 :: nat, 6 :: nat), (0, 5)] ! 0) = 6"
  using mpmc_queue_exactly_once [OF demo_queue_new _ mpmc_demo_reach, of 7] unfolding mpmc_demo_state by simp

text \<open>
  Nothing is lost. When every call has returned and the two counters are equal, the values read
  are exactly the values enqueued, as multisets; so any sum over the consumers equals the sum over the producers.
\<close>

theorem mpmc_queue_drained:
  assumes "mpmc_new S x0 = Some q" "S < 2 ^ 64" "mpmc_reach q s" "length (penq s) + S < 2 ^ 64"
    and "\<And>t. conss s t = D_idle" "enqueue_ptr (pq s) = dequeue_ptr (pq s)"
  shows "mset (map (snd \<circ> snd) (pdeq s)) = mset (map snd (penq s))"
proof -
  obtain C where i: "mpmc_inv S C s" by (rule mpmc_reach_inv [OF assms(1-4)])
  let ?E = "length (penq s)" let ?v = "claimed_value (penq s)"
  have CE: "C \<le> ?E" and l: "log_ok C ?v (conss s) (pdeq s)"
    and "of_nat C = (of_nat ?E :: u64)" using mpmc_invD [OF i] shared_ring_bounds(2) assms(6) by auto
  then have C: "C = ?E" using of_nat_eq_near [of C ?E] assms(4) by simp
  have "held unread (conss s) = {}" by (simp add: held_def assms(5))
  then have "length (pdeq s) = ?E" using l C distinct_card [of "logged (pdeq s)"] by (simp add: log_ok_def) (simp add: logged_def)
  then show ?thesis by (rule log_ok_complete [OF i])
qed

theorem mpmc_queue_drained_witness:
  "mset (map (snd \<circ> snd) [(2 :: nat, 0 :: nat, 6 :: nat)]) = mset (map snd [(1 :: nat, 6 :: nat)])"
proof -
  define s where "s = mpmc_schedule (replicate 6 (Inl (1, 6)) @ replicate 6 (Inr 2)) (mpmc_init demo_queue)"
  have st: "penq s = [(1, 6)]" "pdeq s = [(2, 0, 6)]" "enqueue_ptr (pq s) = dequeue_ptr (pq s)" "conss s t = D_idle" for t
    by (simp_all add: s_def mpmc_init_def demo_queue_def new_cells_def cell_at_def set_cell_def slot_index_def numeral_eq_Suc upt_rec)
  have "mpmc_reach demo_queue s" unfolding s_def by (rule mpmc_schedule_reach [OF mpmc_start])
  from mpmc_queue_drained [OF demo_queue_new _ this _ st(4,3)] show ?thesis unfolding st by simp
qed

text \<open>
  The two \<open>false\<close> results mean what they say, and the signed differences never
  overflow. Below 2 ^ 63 claims, \<open>enqueue\<close> returns \<open>false\<close> only when its position is the current counter and the cell
  of that position has not been given back by the consumer of the value one round earlier; \<open>dequeue\<close> only when its position is
  the current counter and no producer has published it.
\<close>

theorem mpmc_queue_reports_full_and_empty:
  assumes "mpmc_new S x0 = Some q" "mpmc_reach q s" "length (penq s) + S < 2 ^ 63"
    and "prods s t = E_seq x pos" "conss s u = D_seq pos'"
  shows "\<exists>C. dequeue_ptr (pq s) = of_nat C \<and> C \<le> length (penq s) \<and>
    (snd (snd (snd (mpmc_enqueue_step spurious (prods s t) (pq s)))) = Some False \<longleftrightarrow>
       unat pos = length (penq s) \<and> \<not> claimable S (length (penq s)) C (held taker_holds (conss s))) \<and>
    (snd (snd (snd (mpmc_dequeue_step spurious (conss s u) (pq s)))) = Some False \<longleftrightarrow>
       unat pos' = C \<and> \<not> readable (length (penq s)) C (held claimer_holds (prods s))) \<and>
    enqueue_diff_ok (prods s t) (pq s) \<and> dequeue_diff_ok (conss s u) (pq s)"
proof -
  have b: "length (penq s) + S < 2 ^ 64" "S < 2 ^ 64" using assms(3) by simp_all
  obtain C where i: "mpmc_inv S C s" by (rule mpmc_reach_inv [OF assms(1) b(2) assms(2) b(1)])
  note S = mpmc_new_size(1) [OF assms(1) b(2)]
  let ?E = "length (penq s)" let ?cs = "cells (pq s)"
  have r: "shared_ring S ?E C (held claimer_holds (prods s)) (held taker_holds (conss s)) (claimed_value (penq s)) ?cs"
    and at: "claimer_at S ?E C (held taker_holds (conss s)) (claimed_value (penq s)) ?cs (prods s t)"
      "taker_at ?E C (held claimer_holds (prods s)) (conss s u)"
    and ptr: "dequeue_ptr (pq s) = of_nat C"
    using mpmc_invD [OF i] by (auto simp: producers_ok_def consumers_ok_def)
  have pos: "unat pos \<le> ?E" "unat pos' \<le> C" using at assms(4,5) by simp_all
  note cell = word_cell_at [OF S shared_ring_bounds(1) [OF r]]
  note lt = counters_small(1) [OF S i assms(3,4)] counters_small(2) [OF S i assms(3,5)]
  have neg: "sint (sequence (cell_at ?cs pos) - pos) < 0 \<longleftrightarrow> unat (sequence (cell_at ?cs pos)) < unat pos"
    using lt(1) by (intro small_difference(2)) simp_all
  have neg': "sint (sequence (cell_at ?cs pos') - (pos' + 1)) < 0 \<longleftrightarrow> unat (sequence (cell_at ?cs pos')) < unat pos' + 1"
    using lt(2) small_difference(2) [of "sequence (cell_at ?cs pos')" "pos' + 1"] by (simp add: small_suc)
  have "snd (snd (snd (mpmc_enqueue_step spurious (prods s t) (pq s)))) = Some False \<longleftrightarrow>
      unat (sequence (cell_at ?cs pos)) < unat pos"
    unfolding neg [symmetric] using assms(4) by (auto simp: Let_def)
  moreover have "snd (snd (snd (mpmc_dequeue_step spurious (conss s u) (pq s)))) = Some False \<longleftrightarrow>
      unat (sequence (cell_at ?cs pos')) < unat pos' + 1"
    unfolding neg' [symmetric] using assms(5) by (auto simp: Let_def)
  ultimately show ?thesis
    using ptr shared_ring_bounds(2) [OF r] producer_word_test(1) [OF r S b(1) pos(1)] consumer_word_test(1) [OF r S b(1) pos(2)]
      differences_ok [OF S i assms(3)] by (intro exI [of _ C]) (simp add: cell)
qed

theorem mpmc_queue_reports_full_and_empty_witness:
  "\<exists>C. dequeue_ptr demo_queue = of_nat C \<and> C \<le> (0 :: nat) \<and>
    (snd (snd (snd (mpmc_enqueue_step False (E_seq 7 0) demo_queue))) = Some False \<longleftrightarrow>
       unat (0 :: u64) = 0 \<and> \<not> claimable 4 0 C {}) \<and>
    (snd (snd (snd (mpmc_dequeue_step False (D_seq 0) demo_queue))) = Some False \<longleftrightarrow>
       unat (0 :: u64) = C \<and> \<not> readable 0 C {}) \<and>
    enqueue_diff_ok (E_seq 7 0) demo_queue \<and> dequeue_diff_ok (D_seq 0) demo_queue"
proof -
  define s where "s = mpmc_schedule [Inl (3, 7), Inl (3, 7), Inr 2, Inr 2] (mpmc_init demo_queue)"
  have pcs: "prods s = (\<lambda>_. E_idle)(3 := E_seq 7 0)" "conss s = (\<lambda>_. D_idle)(2 := D_seq 0)"
    and st: "pq s = demo_queue" "penq s = []"
    by (simp_all add: s_def mpmc_init_def demo_queue_def)
  have pc: "prods s 3 = E_seq 7 0" "conss s 2 = D_seq 0" by (simp_all add: pcs)
  have none: "held taker_holds (conss s) = {}" "held claimer_holds (prods s) = {}" by (auto simp: held_def pcs)
  have "mpmc_reach demo_queue s" unfolding s_def by (rule mpmc_schedule_reach [OF mpmc_start])
  from mpmc_queue_reports_full_and_empty [OF demo_queue_new this _ pc, of False]
  show ?thesis unfolding pc none st by (simp del: enqueue_diff_ok.simps dequeue_diff_ok.simps)
qed

text \<open>
  A producer between its claim and its publication has its cell for itself: no other
  producer and no consumer that has claimed a position and not yet released it uses the same cell.
\<close>

theorem mpmc_queue_no_data_race:
  assumes "mpmc_new S x0 = Some q" "S < 2 ^ 64" "mpmc_reach q s" "length (penq s) + S < 2 ^ 64"
    and "claimer_holds (prods s t) = Some k" 
    and "(u \<noteq> t \<and> claimer_holds (prods s u) = Some k') \<or> taker_holds (conss s u) = Some k'"
  shows "k mod S \<noteq> k' mod S"
proof -
  obtain C where i: "mpmc_inv S C s" by (rule mpmc_reach_inv [OF assms(1-4)])
  note S = mpmc_new_size(1) [OF assms(1,2)]
  let ?W = "held claimer_holds (prods s)" let ?R = "held taker_holds (conss s)"
  have r: "shared_ring S (length (penq s)) C ?W ?R (claimed_value (penq s)) (cells (pq s))"
    and ex: "exclusive claimer_holds (prods s)" using mpmc_invD [OF i] by (auto simp: producers_ok_def)
  have W: "k \<in> ?W" using assms(5) by (rule heldI)
  have "k' \<in> ?W \<union> ?R" "k' \<noteq> k"
    using assms(5,6) ex heldI [of claimer_holds "prods s" u k'] heldI [of taker_holds "conss s" u k']
      shared_ring_bounds(4,5) [OF r, of k] W by (auto simp: exclusive_def)
  then show ?thesis using held_cells_differ [OF r S, of k k'] W by simp
qed

theorem mpmc_queue_no_data_race_witness: "(1 :: nat) mod 4 \<noteq> 0 mod 4"
  using mpmc_queue_no_data_race [OF demo_queue_new _ mpmc_demo_reach, where t = 0 and u = 7 and k = 1 and k' = 0] by (simp add: mpmc_demo_state)

end
