(* ===== verification/Mpmc_Program.thy ===== *)
theory Mpmc_Program
  imports Mpmc_Queue "HOL-Library.Monad_Syntax"
begin

text \<open>
  The program of \<open>2_cpp_basics/3_lock_free/2_mpmc_queue/mpmc.cpp\<close>: threads that push the numbers below \<open>ITER\<close>, threads that pop \<open>ITER\<close> numbers each and add them up, and
  the assertion of \<open>main\<close> on the total. \<open>ITER\<close> and the number of threads, which the build may set, are parameters. A step is a step of one thread.

  The arithmetic is that of the machine. \<open>total_sum\<close>, an atomic \<open>long long\<close>, is a word and wraps around. The other variables are signed, and a
  signed operation that leaves the range of its type is undefined: \<open>overflowed\<close> is set by the first step that does so, an increment of an \<open>int i\<close>, an addition to a
  \<open>long long local_sum\<close> or a difference inside a queue operation.
\<close>

record mpmc_main =
  sys :: "int mpmc_sys"
  prod_i :: "nat \<Rightarrow> nat"
  cons_i :: "nat \<Rightarrow> nat"
  cons_data :: "nat \<Rightarrow> int"
  local_sum :: "nat \<Rightarrow> int"
  joined :: "nat \<Rightarrow> bool"
  total_sum :: "64 word"
  overflowed :: bool

definition int32_range :: "int \<Rightarrow> bool" where
  "int32_range v \<longleftrightarrow> - (2 ^ 31) \<le> v \<and> v < 2 ^ 31"

text \<open>A step of \<open>producer\<close> in thread \<open>t\<close>: the loop calls \<open>enqueue\<close> again until it returns \<open>true\<close>.\<close>

definition mpmc_producer :: "nat \<Rightarrow> bool \<Rightarrow> nat \<Rightarrow> mpmc_main \<Rightarrow> mpmc_main" where
  "mpmc_producer iter spurious t m =
     (let s = sys m in
      if prods s t = E_idle then
        if prod_i m t < iter then m\<lparr>sys := s\<lparr>prods := (prods s)(t := E_load (int (prod_i m t)))\<rparr>\<rparr> else m
      else case mpmc_enqueue_step spurious (prods s t) (pq s) of (p', q', xs, ret) \<Rightarrow>
        m\<lparr>sys := s\<lparr>prods := (prods s)(t := p'), pq := q', penq := penq s @ map (Pair t) xs\<rparr>,
          prod_i := (prod_i m)(t := if ret = Some True then Suc (prod_i m t) else prod_i m t),
          overflowed := overflowed m \<or> \<not> enqueue_diff_ok (prods s t) (pq s) \<or> ret = Some True \<and> \<not> int32_range (int (prod_i m t) + 1)\<rparr>)"

text \<open>A step of \<open>consumer\<close>: \<open>dequeue\<close> puts the value into the variable \<open>data\<close>, and after the loop the local sum goes to the total.\<close>

definition mpmc_consumer :: "nat \<Rightarrow> bool \<Rightarrow> nat \<Rightarrow> mpmc_main \<Rightarrow> mpmc_main" where
  "mpmc_consumer iter spurious t m =
     (let s = sys m in
      if conss s t = D_idle then
        if cons_i m t < iter then m\<lparr>sys := s\<lparr>conss := (conss s)(t := D_load)\<rparr>\<rparr>
        else if joined m t then m
        else m\<lparr>joined := (joined m)(t := True), total_sum := total_sum m + of_int (local_sum m t)\<rparr>
      else case mpmc_dequeue_step spurious (conss s t) (pq s) of (c', q', ys, ret) \<Rightarrow>
        m\<lparr>sys := s\<lparr>conss := (conss s)(t := c'), pq := q', pdeq := pdeq s @ map (Pair t) ys\<rparr>,
          cons_data := (cons_data m)(t := case ys of [] \<Rightarrow> cons_data m t | (k, v) # _ \<Rightarrow> v),
          cons_i := (cons_i m)(t := if ret = Some True then Suc (cons_i m t) else cons_i m t),
          local_sum := (local_sum m)(t := if ret = Some True then local_sum m t + cons_data m t else local_sum m t),
          overflowed := overflowed m \<or> \<not> dequeue_diff_ok (conss s t) (pq s) \<or>
            ret = Some True \<and> (\<not> int32_range (int (cons_i m t) + 1) \<or> \<not> int64_range (local_sum m t + cons_data m t))\<rparr>)"

definition mpmc_main_init :: "int mpmc_queue \<Rightarrow> mpmc_main" where
  "mpmc_main_init q = \<lparr>sys = mpmc_init q, prod_i = (\<lambda>_. 0), cons_i = (\<lambda>_. 0), cons_data = (\<lambda>_. 0), local_sum = (\<lambda>_. 0),
     joined = (\<lambda>_. False), total_sum = 0, overflowed = False\<rparr>"

text \<open>The threads \<open>main\<close> starts, as many consumers as producers.\<close>

inductive mpmc_main_step :: "nat \<Rightarrow> nat \<Rightarrow> mpmc_main \<Rightarrow> mpmc_main \<Rightarrow> bool" for threads iter where
  run_producer: "t < threads \<Longrightarrow> mpmc_main_step threads iter m (mpmc_producer iter spurious t m)"
| run_consumer: "t < threads \<Longrightarrow> mpmc_main_step threads iter m (mpmc_consumer iter spurious t m)"

text \<open>All threads have been joined.\<close>

definition mpmc_main_done :: "nat \<Rightarrow> nat \<Rightarrow> mpmc_main \<Rightarrow> bool" where
  "mpmc_main_done threads iter m \<longleftrightarrow> list_all (\<lambda>t. prods (sys m) t = E_idle \<and> prod_i m t = iter \<and> joined m t) [0..<threads]"

text \<open>The expected total, whose three operations on \<open>long long\<close> may overflow.\<close>

definition long_long :: "int \<Rightarrow> int option" where
  "long_long v = (if int64_range v then Some v else None)"

definition mpmc_expected :: "nat \<Rightarrow> nat \<Rightarrow> int option" where
  "mpmc_expected threads iter = do {
     a \<leftarrow> long_long (int threads * int iter);
     b \<leftarrow> long_long (int iter - 1);
     c \<leftarrow> long_long (a * b);
     Some (c div 2)
   }"

section \<open>What the threads have done so far\<close>

definition values_of :: "nat \<Rightarrow> (nat \<times> 'a) list \<Rightarrow> 'a list" where
  "values_of t es = map snd (filter (\<lambda>e. fst e = t) es)"

lemma values_of_append [simp]: "values_of t (xs @ ys) = values_of t xs @ values_of t ys"
  by (simp add: values_of_def)

lemma values_of_tag [simp]: "values_of t (map (Pair u) xs) = (if t = u then xs else [])"
  by (auto simp: values_of_def comp_def)

lemma values_of_rec [simp]: "values_of t [] = []" "values_of t (e # es) = (if fst e = t then [snd e] else []) @ values_of t es"
  by (simp_all add: values_of_def)

fun claimer_value :: "'a claimer \<Rightarrow> 'a option" where
  "claimer_value E_idle = None"
| "claimer_value (E_load x) = Some x"
| "claimer_value (E_seq x pos) = Some x"
| "claimer_value (E_cas x pos) = Some x"
| "claimer_value (E_data x pos) = Some x"
| "claimer_value (E_pub x pos) = Some x"

definition producer_ok :: "nat \<Rightarrow> mpmc_main \<Rightarrow> nat \<Rightarrow> bool" where
  "producer_ok iter m t \<longleftrightarrow>
     values_of t (penq (sys m)) = map int [0..<prod_i m t] @ (if claimer_holds (prods (sys m) t) = None then [] else [int (prod_i m t)]) \<and>
     (prods (sys m) t = E_idle \<and> prod_i m t \<le> iter \<or> claimer_value (prods (sys m) t) = Some (int (prod_i m t)) \<and> prod_i m t < iter)"

definition consumer_ok :: "nat \<Rightarrow> mpmc_main \<Rightarrow> nat \<Rightarrow> bool" where
  "consumer_ok iter m t \<longleftrightarrow>
     (let vs = map snd (values_of t (pdeq (sys m))); late = (case conss (sys m) t of D_rel _ \<Rightarrow> [cons_data m t] | _ \<Rightarrow> []) in
      length vs = cons_i m t + length late \<and> sum_list vs = local_sum m t + sum_list late \<and>
      (conss (sys m) t = D_idle \<and> cons_i m t \<le> iter \<or> conss (sys m) t \<noteq> D_idle \<and> cons_i m t < iter) \<and>
      (joined m t \<longrightarrow> conss (sys m) t = D_idle \<and> cons_i m t = iter))"

text \<open>The threads that \<open>main\<close> has not started have done nothing.\<close>

definition main_ok :: "int mpmc_queue \<Rightarrow> nat \<Rightarrow> nat \<Rightarrow> mpmc_main \<Rightarrow> bool" where
  "main_ok q threads iter m \<longleftrightarrow>
     mpmc_reach q (sys m) \<and> (\<forall>t. producer_ok iter m t \<and> consumer_ok iter m t) \<and>
     set (map fst (penq (sys m))) \<union> set (map fst (pdeq (sys m))) \<subseteq> {..<threads} \<and>
     total_sum m = of_int (\<Sum>t\<in>{t. t < threads \<and> joined m t}. local_sum m t)"

lemma main_ok_init: "main_ok q threads iter (mpmc_main_init q)"
  by (simp add: main_ok_def mpmc_main_init_def mpmc_init_def producer_ok_def consumer_ok_def mpmc_start [unfolded mpmc_init_def])

lemma producer_fields:
  "pdeq (sys (mpmc_producer iter spurious t m)) = pdeq (sys m)" "conss (sys (mpmc_producer iter spurious t m)) = conss (sys m)"
  "cons_i (mpmc_producer iter spurious t m) = cons_i m" "cons_data (mpmc_producer iter spurious t m) = cons_data m"
  "total_sum (mpmc_producer iter spurious t m) = total_sum m" "joined (mpmc_producer iter spurious t m) = joined m"
  "local_sum (mpmc_producer iter spurious t m) = local_sum m"
  "u \<noteq> t \<Longrightarrow> prods (sys (mpmc_producer iter spurious t m)) u = prods (sys m) u"
  "u \<noteq> t \<Longrightarrow> prod_i (mpmc_producer iter spurious t m) u = prod_i m u"
  "u \<noteq> t \<Longrightarrow> values_of u (penq (sys (mpmc_producer iter spurious t m))) = values_of u (penq (sys m))"
  by (simp_all add: mpmc_producer_def Let_def split: prod.split)

lemma consumer_fields:
  "penq (sys (mpmc_consumer iter spurious t m)) = penq (sys m)" "prods (sys (mpmc_consumer iter spurious t m)) = prods (sys m)"
  "prod_i (mpmc_consumer iter spurious t m) = prod_i m"
  "u \<noteq> t \<Longrightarrow> conss (sys (mpmc_consumer iter spurious t m)) u = conss (sys m) u"
  "u \<noteq> t \<Longrightarrow> cons_i (mpmc_consumer iter spurious t m) u = cons_i m u"
  "u \<noteq> t \<Longrightarrow> cons_data (mpmc_consumer iter spurious t m) u = cons_data m u"
  "u \<noteq> t \<Longrightarrow> local_sum (mpmc_consumer iter spurious t m) u = local_sum m u"
  "u \<noteq> t \<Longrightarrow> joined (mpmc_consumer iter spurious t m) u = joined m u"
  "u \<noteq> t \<Longrightarrow> values_of u (pdeq (sys (mpmc_consumer iter spurious t m))) = values_of u (pdeq (sys m))"
  by (simp_all add: mpmc_consumer_def Let_def split: prod.split)

lemma producer_other: "u \<noteq> t \<Longrightarrow> producer_ok iter (mpmc_producer iter' spurious t m) u = producer_ok iter m u"
  "consumer_ok iter (mpmc_producer iter' spurious t m) v = consumer_ok iter m v"
  by (simp_all add: producer_ok_def consumer_ok_def producer_fields cong: taker.case_cong)

lemma consumer_other: "u \<noteq> t \<Longrightarrow> consumer_ok iter (mpmc_consumer iter' spurious t m) u = consumer_ok iter m u"
  "producer_ok iter (mpmc_consumer iter' spurious t m) v = producer_ok iter m v"
  by (simp_all add: producer_ok_def consumer_ok_def consumer_fields cong: taker.case_cong)

lemma producer_self: "producer_ok iter m t \<Longrightarrow> producer_ok iter (mpmc_producer iter spurious t m) t"
  by (cases "prods (sys m) t") (auto simp: mpmc_producer_def producer_ok_def Let_def split: prod.splits if_splits)

lemma consumer_self: "consumer_ok iter m t \<Longrightarrow> consumer_ok iter (mpmc_consumer iter spurious t m) t"
  by (cases "conss (sys m) t") (auto simp: mpmc_consumer_def consumer_ok_def Let_def split: prod.splits if_splits)

lemma producer_reach: "mpmc_reach q (sys m) \<Longrightarrow> mpmc_reach q (sys (mpmc_producer iter spurious t m))"
  by (auto simp: mpmc_producer_def Let_def split: prod.splits intro: mpmc_next [OF _ call_mpmc_enqueue] mpmc_next [OF _ run_mpmc_enqueue])

lemma consumer_reach: "mpmc_reach q (sys m) \<Longrightarrow> mpmc_reach q (sys (mpmc_consumer iter spurious t m))"
  by (auto simp: mpmc_consumer_def Let_def split: prod.splits intro: mpmc_next [OF _ call_mpmc_dequeue] mpmc_next [OF _ run_mpmc_dequeue])

lemma total_consumer:
  assumes "consumer_ok iter m t" "t < threads" "total_sum m = of_int (\<Sum>t\<in>{t. t < threads \<and> joined m t}. local_sum m t)"
  shows "total_sum (mpmc_consumer iter spurious t m) = of_int
    (\<Sum>u\<in>{u. u < threads \<and> joined (mpmc_consumer iter spurious t m) u}. local_sum (mpmc_consumer iter spurious t m) u)"
proof (cases "conss (sys m) t = D_idle")
  case True
  show ?thesis
  proof (cases "cons_i m t < iter \<or> joined m t")
    case False
    then have "{u. u < threads \<and> ((joined m)(t := True)) u} = insert t {u. u < threads \<and> joined m u}" "t \<notin> {u. u < threads \<and> joined m u}"
      using assms(2) by auto
    then show ?thesis using True False assms(3) by (simp add: mpmc_consumer_def Let_def del: fun_upd_apply)
  qed (use True assms(3) in \<open>auto simp: mpmc_consumer_def Let_def\<close>)
next
  case False
  then have j: "\<not> joined m t" using assms(1) by (simp add: consumer_ok_def Let_def)
  have c: "joined (mpmc_consumer iter spurious t m) = joined m" "total_sum (mpmc_consumer iter spurious t m) = total_sum m"
    using False by (simp_all add: mpmc_consumer_def Let_def split: prod.split)
  have "local_sum (mpmc_consumer iter spurious t m) u = local_sum m u" if "joined m u" for u
    using that j by (intro consumer_fields(7)) auto
  then show ?thesis unfolding c assms(3) by (intro arg_cong [where f = of_int] sum.cong) simp_all
qed

lemma main_ok_step:
  assumes "mpmc_main_step threads iter m m'" "main_ok q threads iter m"
  shows "main_ok q threads iter m'"
  using assms
proof cases
  case (run_producer t spurious)
  have "producer_ok iter m' u \<and> consumer_ok iter m' u" for u
    using assms(2) producer_other producer_self unfolding run_producer(1) main_ok_def by (cases "u = t") auto
  moreover have "set (map fst (penq (sys m'))) \<union> set (map fst (pdeq (sys m'))) \<subseteq> {..<threads}"
    using assms(2) run_producer by (auto simp: main_ok_def mpmc_producer_def Let_def split: prod.splits)
  ultimately show ?thesis using assms(2) producer_reach unfolding run_producer(1) main_ok_def producer_fields(5,6,7) by blast
next
  case (run_consumer t spurious)
  have "producer_ok iter m' u \<and> consumer_ok iter m' u" for u
    using assms(2) consumer_other consumer_self unfolding run_consumer(1) main_ok_def by (cases "u = t") auto
  moreover have "set (map fst (penq (sys m'))) \<union> set (map fst (pdeq (sys m'))) \<subseteq> {..<threads}"
    using assms(2) run_consumer by (auto simp: main_ok_def mpmc_consumer_def Let_def split: prod.splits)
  ultimately show ?thesis using assms(2) consumer_reach total_consumer run_consumer unfolding run_consumer(1) main_ok_def by blast
qed

section \<open>The logs by thread\<close>

lemma sum_by_thread:
  assumes "set (map fst es) \<subseteq> {..<n}"
  shows "sum_list (map snd es) = (\<Sum>t<n. sum_list (values_of t es :: int list))"
  using assms
proof (induction es)
  case (Cons e es)
  have "(\<Sum>t<n. sum_list (values_of t (e # es))) = (\<Sum>t<n. (if t = fst e then snd e else 0) + sum_list (values_of t es))"
    by (rule sum.cong) auto
  then show ?case using Cons by (simp add: sum.distrib)
qed simp

lemma length_by_thread:
  assumes "set (map fst es) \<subseteq> {..<n}"
  shows "length es = (\<Sum>t<n. length (values_of t es))"
proof -
  have "int (length es) = sum_list (map snd (map (apsnd (\<lambda>_. 1)) es))" by (simp add: comp_def sum_list_triv)
  also have "\<dots> = (\<Sum>t<n. sum_list (values_of t (map (apsnd (\<lambda>_. 1)) es)))" using assms by (intro sum_by_thread) (simp add: image_image)
  also have "\<dots> = int (\<Sum>t<n. length (values_of t es))"
    by (simp add: values_of_def filter_map comp_def sum_list_triv)
  finally show ?thesis by (simp only: of_nat_eq_iff)
qed

lemma sum_below: "sum_list (map int [0..<n]) = int n * (int n - 1) div 2"
  by (induction n) (simp_all add: algebra_simps)

lemma main_ok_done:
  assumes "main_ok q threads iter m" "mpmc_main_done threads iter m" "t < threads"
  shows "values_of t (penq (sys m)) = map int [0..<iter]" "length (values_of t (pdeq (sys m))) = iter"
    "sum_list (map snd (values_of t (pdeq (sys m)))) = local_sum m t" "joined m t"
proof -
  have d: "prods (sys m) t = E_idle" "prod_i m t = iter" "joined m t" using assms(2,3) by (simp_all add: mpmc_main_done_def list_all_iff)
  have p: "producer_ok iter m t" and c: "consumer_ok iter m t" using assms(1) by (simp_all add: main_ok_def)
  show "values_of t (penq (sys m)) = map int [0..<iter]" using p d by (simp add: producer_ok_def)
  show "length (values_of t (pdeq (sys m))) = iter" "sum_list (map snd (values_of t (pdeq (sys m)))) = local_sum m t"
    using c d by (auto simp: consumer_ok_def Let_def)
  show "joined m t" by (rule d(3))
qed

section \<open>No overflow\<close>

lemma main_ok_reach: "(mpmc_main_step threads iter)\<^sup>*\<^sup>* (mpmc_main_init q) m \<Longrightarrow> main_ok q threads iter m"
  by (induction rule: rtranclp_induct) (auto intro: main_ok_init main_ok_step)

lemma main_ok_claims:
  assumes "main_ok q threads iter m"
  shows "length (penq (sys m)) \<le> threads * iter" "v \<in> set (map snd (penq (sys m))) \<Longrightarrow> 0 \<le> v \<and> v < int iter"
proof -
  have p: "producer_ok iter m t" for t using assms by (simp add: main_ok_def)
  have fst: "set (map fst (penq (sys m))) \<subseteq> {..<threads}" using assms by (simp add: main_ok_def)
  have "length (values_of t (penq (sys m))) \<le> iter" for t using p [of t] by (auto simp: producer_ok_def)
  then show "length (penq (sys m)) \<le> threads * iter"
    unfolding length_by_thread [OF fst] using sum_bounded_above [of "{..<threads}" "\<lambda>t. length (values_of t (penq (sys m)))" iter] by simp
  show "0 \<le> v \<and> v < int iter" if v: "v \<in> set (map snd (penq (sys m)))"
  proof -
    obtain t where "v \<in> set (values_of t (penq (sys m)))" using v by (auto simp: values_of_def image_iff)
    then show ?thesis using p [of t] by (auto simp: producer_ok_def split: if_splits)
  qed
qed

lemma main_ok_inv:
  assumes "mpmc_new S x0 = Some q" "threads * iter + S < 2 ^ 63" "main_ok q threads iter m"
  obtains C where "mpmc_inv S C (sys m)" "ring_size S" "length (penq (sys m)) + S < 2 ^ 63"
proof -
  have b: "length (penq (sys m)) + S < 2 ^ 63" using main_ok_claims(1) [OF assms(3)] assms(2) by simp
  then have "S < 2 ^ 64" "length (penq (sys m)) + S < 2 ^ 64" by simp_all
  moreover have "mpmc_reach q (sys m)" using assms(3) by (simp add: main_ok_def)
  ultimately obtain C where "mpmc_inv S C (sys m)" using mpmc_reach_inv [OF assms(1)] by blast
  then show ?thesis using that b mpmc_new_size(1) [OF assms(1) \<open>S < 2 ^ 64\<close>] by blast
qed

lemma sum_list_between: "(\<And>v. v \<in> set vs \<Longrightarrow> 0 \<le> v \<and> v < k) \<Longrightarrow> 0 \<le> sum_list vs \<and> sum_list vs \<le> int (length vs) * k"
  by (induction vs) (force simp: distrib_right)+

text \<open>The numbers a consumer has popped are among those pushed, and so are below \<open>ITER\<close>; it pops at most \<open>ITER\<close> of them.\<close>

lemma popped_bounds:
  assumes ok: "main_ok q threads iter m" and inv: "mpmc_inv S C (sys m)"
  shows "0 \<le> sum_list (map snd (values_of t (pdeq (sys m))))" "sum_list (map snd (values_of t (pdeq (sys m)))) \<le> int iter * int iter"
proof -
  let ?vs = "map snd (values_of t (pdeq (sys m)))"
  have l: "log_ok C (claimed_value (penq (sys m))) (conss (sys m)) (pdeq (sys m))" and C: "C \<le> length (penq (sys m))"
    using mpmc_invD [OF inv] shared_ring_bounds(2) by auto
  have "v \<in> set (map snd (penq (sys m)))" if v: "v \<in> set ?vs" for v
  proof -
    obtain k where k: "(t, k, v) \<in> set (pdeq (sys m))" using v by (auto simp: values_of_def)
    then have "k \<in> set (logged (pdeq (sys m)))" by (force simp: logged_def)
    then have "k < length (penq (sys m))" using l C by (auto simp: log_ok_def)
    moreover have "v = claimed_value (penq (sys m)) k" using l k by (force simp: log_ok_def)
    ultimately show ?thesis by (simp add: claimed_value_def)
  qed
  then have b: "0 \<le> sum_list ?vs \<and> sum_list ?vs \<le> int (length ?vs) * int iter"
    using main_ok_claims(2) [OF ok] by (intro sum_list_between) blast
  have "consumer_ok iter m t" using ok by (simp add: main_ok_def)
  then have "length ?vs \<le> iter" by (auto simp: consumer_ok_def Let_def split: taker.splits)
  then have "int (length ?vs) * int iter \<le> int iter * int iter" by (intro mult_right_mono) simp_all
  then show "0 \<le> sum_list ?vs" "sum_list ?vs \<le> int iter * int iter" using b by linarith+
qed

lemma overflow_step:
  assumes "mpmc_new S x0 = Some q" "threads * iter + S < 2 ^ 63" "iter < 2 ^ 31" "main_ok q threads iter m" "\<not> overflowed m"
    and "mpmc_main_step threads iter m m'"
  shows "\<not> overflowed m'"
proof -
  obtain C where i: "mpmc_inv S C (sys m)" "ring_size S" "length (penq (sys m)) + S < 2 ^ 63" by (rule main_ok_inv [OF assms(1,2,4)])
  note d = differences_ok [OF i(2,1,3)]
  from assms(6) show ?thesis
  proof cases
    case (run_producer t spurious)
    have "producer_ok iter m t" using assms(4) by (simp add: main_ok_def)
    then show ?thesis using assms(3,5) d(1) [of t] unfolding run_producer(1)
      by (auto simp: mpmc_producer_def Let_def producer_ok_def int32_range_def split: prod.split)
  next
    case (run_consumer t spurious)
    have c: "consumer_ok iter m t" using assms(4) by (simp add: main_ok_def)
    have "int iter * int iter \<le> (2 ^ 31) * (2 ^ 31)" using assms(3) by (intro mult_mono) simp_all
    then have pop: "int64_range (local_sum m t + cons_data m t)" if "conss (sys m) t = D_rel pos" for pos
      using popped_bounds [OF assms(4) i(1), of t] c that by (simp add: consumer_ok_def Let_def int64_range_def)
    show ?thesis using assms(3,5) d(2) [of t] c pop unfolding run_consumer(1)
      by (cases "conss (sys m) t") (auto simp: mpmc_consumer_def Let_def consumer_ok_def int32_range_def)
  qed
qed

lemma never_overflows:
  assumes "mpmc_new S x0 = Some q" "threads * iter + S < 2 ^ 63" "iter < 2 ^ 31" "(mpmc_main_step threads iter)\<^sup>*\<^sup>* (mpmc_main_init q) m"
  shows "\<not> overflowed m"
  using assms(4)
proof (induction rule: rtranclp_induct)
  case (step m m')
  show ?case by (rule overflow_step [OF assms(1-3) main_ok_reach [OF step.hyps(1)] step.IH step.hyps(2)])
qed (simp add: mpmc_main_init_def)

section \<open>The assertion\<close>

lemma mpmc_expectedD:
  assumes "mpmc_expected threads iter = Some expected"
  shows "expected = int threads * (int iter * (int iter - 1) div 2)" "int64_range expected"
proof -
  have e: "expected = int threads * int iter * (int iter - 1) div 2" "int64_range (int threads * int iter * (int iter - 1))"
    using assms by (auto simp: mpmc_expected_def long_long_def split: if_splits)
  show "expected = int threads * (int iter * (int iter - 1) div 2)" by (simp add: e(1) mult.assoc div_mult_swap)
  show "int64_range expected" using e by (auto simp: int64_range_def)
qed

lemma joined_total:
  assumes "mpmc_new S x0 = Some q" "threads * iter + S < 2 ^ 63" "mpmc_expected threads iter = Some expected"
    "(mpmc_main_step threads iter)\<^sup>*\<^sup>* (mpmc_main_init q) m" "mpmc_main_done threads iter m"
  shows "sint (total_sum m) = expected"
proof -
  note ok = main_ok_reach [OF assms(4)]
  note d = main_ok_done [OF ok assms(5)]
  let ?e = "penq (sys m)" let ?d = "pdeq (sys m)"
  have fst: "set (map fst ?e) \<subseteq> {..<threads}" "set (map fst ?d) \<subseteq> {..<threads}" using ok by (simp_all add: main_ok_def)
  have len: "length ?e = threads * iter" "length ?d = threads * iter"
    by (simp_all add: length_by_thread [OF fst(1)] length_by_thread [OF fst(2)] d)
  obtain C where "mpmc_inv S C (sys m)" by (rule main_ok_inv [OF assms(1,2) ok])
  then have reads: "mset (map (snd \<circ> snd) ?d) = mset (map snd ?e)" using len by (intro log_ok_complete) simp_all
  have "(\<Sum>t<threads. local_sum m t) = (\<Sum>t<threads. sum_list (values_of t (map (apsnd snd) ?d)))"
    by (rule sum.cong) (simp_all add: d(3) [symmetric] values_of_def filter_map comp_def)
  also have "\<dots> = sum_list (map (snd \<circ> snd) ?d)" using sum_by_thread [of "map (apsnd snd) ?d" threads] fst(2) by (simp add: comp_def image_image)
  also have "\<dots> = sum_list (map snd ?e)" using reads by (metis sum_mset_sum_list)
  also have "\<dots> = int threads * (int iter * (int iter - 1) div 2)" by (simp add: sum_by_thread [OF fst(1)] d(1) sum_below)
  also have "\<dots> = expected" by (rule mpmc_expectedD(1) [OF assms(3), symmetric])
  finally have sum: "(\<Sum>t<threads. local_sum m t) = expected" .
  have "{t. t < threads \<and> joined m t} = {..<threads}" using d(4) by auto
  then have "total_sum m = of_int expected" using ok sum by (simp add: main_ok_def)
  then show ?thesis using mpmc_expectedD(2) [OF assms(3)] by (simp add: signed_of_int signed_take_bit_int_eq_self int64_range_def)
qed

text \<open>
  The assertion at the end of \<open>main\<close> holds. Under every interleaving of the producers and consumers, with compare-and-exchange failing at
  any time, once all threads have been joined the total is the expected one, provided that can be computed without overflow.
\<close>

theorem mpmc_program_total:
  assumes "mpmc_new S x0 = Some q" "threads * iter + S < 2 ^ 63" "mpmc_expected threads iter = Some expected"
    "(mpmc_main_step threads iter)\<^sup>*\<^sup>* (mpmc_main_init q) m" "mpmc_main_done threads iter m"
  shows "sint (total_sum m) = expected"
  by (rule joined_total [OF assms])

text \<open>A run of one producer and one consumer.\<close>

definition main_demo :: mpmc_main where
  "main_demo = ((mpmc_consumer 1 False 0) ^^ 7) (((mpmc_producer 1 False 0) ^^ 6) (mpmc_main_init \<lparr>cells = new_cells 4 0, enqueue_ptr = 0, dequeue_ptr = 0\<rparr>))"

lemma run_producers: "t < threads \<Longrightarrow> (mpmc_main_step threads iter)\<^sup>*\<^sup>* m0 m \<Longrightarrow> (mpmc_main_step threads iter)\<^sup>*\<^sup>* m0 ((mpmc_producer iter False t ^^ n) m)"
  by (induction n) (auto intro: rtranclp.rtrancl_into_rtrancl run_producer)

lemma run_consumers: "t < threads \<Longrightarrow> (mpmc_main_step threads iter)\<^sup>*\<^sup>* m0 m \<Longrightarrow> (mpmc_main_step threads iter)\<^sup>*\<^sup>* m0 ((mpmc_consumer iter False t ^^ n) m)"
  by (induction n) (auto intro: rtranclp.rtrancl_into_rtrancl run_consumer)

lemma main_demo_done: "mpmc_main_done 1 1 main_demo"
  by (simp add: mpmc_main_done_def main_demo_def mpmc_main_init_def mpmc_init_def mpmc_producer_def mpmc_consumer_def Let_def numeral_eq_Suc
      new_cells_def cell_at_def set_cell_def slot_index_def upt_rec)

theorem mpmc_program_total_witness: "sint (total_sum main_demo) = 0"
proof (rule mpmc_program_total [OF _ _ _ _ main_demo_done])
  show "mpmc_new 4 0 = Some \<lparr>cells = new_cells 4 (0 :: int), enqueue_ptr = 0, dequeue_ptr = 0\<rparr>"
    by (simp add: mpmc_new_def and_nat_rec [of 4])
  show "(mpmc_main_step 1 1)\<^sup>*\<^sup>* (mpmc_main_init \<lparr>cells = new_cells 4 0, enqueue_ptr = 0, dequeue_ptr = 0\<rparr>) main_demo"
    unfolding main_demo_def by (intro run_consumers run_producers) simp_all
qed (simp_all add: mpmc_expected_def long_long_def int64_range_def)

end
