(* ===== verification/Mpmc_Progress.thy ===== *)
theory Mpmc_Progress
  imports Mpmc_Program
begin

text \<open>
  The program of \<open>mpmc.cpp\<close> cannot get stuck: its threads spin on a full or an empty queue, but from every state that it can reach some thread can complete an operation, and so the
  program can run to its end. The argument is a measure of the work that is left, and for every state a thread whose turn decreases it.
\<close>

definition work :: "nat \<Rightarrow> nat \<Rightarrow> mpmc_main \<Rightarrow> nat" where
  "work threads iter m = (\<Sum>t<threads. (iter - prod_i m t) + (iter - cons_i m t) + of_bool (\<not> joined m t))"

lemma work_decreases:
  assumes "t < threads" "\<And>u. u \<noteq> t \<Longrightarrow> prod_i m' u = prod_i m u \<and> cons_i m' u = cons_i m u \<and> joined m' u = joined m u"
    and "(iter - prod_i m' t) + (iter - cons_i m' t) + of_bool (\<not> joined m' t) < (iter - prod_i m t) + (iter - cons_i m t) + of_bool (\<not> joined m t)"
  shows "work threads iter m' < work threads iter m"
  unfolding work_def
proof (rule sum_strict_mono_ex1)
  show "\<forall>u\<in>{..<threads}. (iter - prod_i m' u) + (iter - cons_i m' u) + of_bool (\<not> joined m' u) \<le> (iter - prod_i m u) + (iter - cons_i m u) + of_bool (\<not> joined m u)"
  proof
    fix u
    show "(iter - prod_i m' u) + (iter - cons_i m' u) + of_bool (\<not> joined m' u) \<le> (iter - prod_i m u) + (iter - cons_i m u) + of_bool (\<not> joined m u)"
      by (cases "u = t") (use assms(2) [of u] assms(3) in simp_all)
  qed
  show "\<exists>u\<in>{..<threads}. (iter - prod_i m' u) + (iter - cons_i m' u) + of_bool (\<not> joined m' u) < (iter - prod_i m u) + (iter - cons_i m u) + of_bool (\<not> joined m u)"
    using assms(1,3) by blast
qed simp

section \<open>The turn of a producer\<close>

definition can_push :: "nat \<Rightarrow> nat \<Rightarrow> mpmc_main \<Rightarrow> bool" where
  "can_push iter t m \<longleftrightarrow> (\<exists>n. prod_i ((mpmc_producer iter False t ^^ n) m) t = Suc (prod_i m t))"

lemma can_push_step:
  assumes "prod_i (mpmc_producer iter False t m) t = prod_i m t" "can_push iter t (mpmc_producer iter False t m)"
  shows "can_push iter t m"
proof -
  obtain n where "prod_i ((mpmc_producer iter False t ^^ n) (mpmc_producer iter False t m)) t = Suc (prod_i m t)"
    using assms by (auto simp: can_push_def)
  then show ?thesis unfolding can_push_def by (intro exI [of _ "Suc n"]) (simp add: funpow_swap1)
qed

text \<open>The cell of the next position to be claimed is free.\<close>

definition push_ready :: "mpmc_main \<Rightarrow> bool" where
  "push_ready m \<longleftrightarrow> sequence (cell_at (cells (pq (sys m))) (enqueue_ptr (pq (sys m)))) = enqueue_ptr (pq (sys m))"

lemma push_held: "claimer_holds (prods (sys m) t) \<noteq> None \<Longrightarrow> can_push iter t m"
proof -
  have pub: "can_push iter t m" if "prods (sys m) t = E_pub x pos" for x pos m
    unfolding can_push_def by (rule exI [of _ 1]) (simp add: that mpmc_producer_def Let_def)
  have data: "can_push iter t m" if "prods (sys m) t = E_data x pos" for x pos
    by (rule can_push_step) (simp_all add: that mpmc_producer_def Let_def pub [of _ x pos])
  assume "claimer_holds (prods (sys m) t) \<noteq> None"
  then show ?thesis using pub data by (cases "prods (sys m) t") auto
qed

lemma push_free:
  assumes "push_ready m" "prod_i m t < iter"
  shows "can_push iter t m"
proof -
  have cas: "can_push iter t m" if "prods (sys m) t = E_cas x (enqueue_ptr (pq (sys m)))" for x m
    by (rule can_push_step) (simp_all add: that mpmc_producer_def Let_def push_held)
  have seq: "can_push iter t m" if "prods (sys m) t = E_seq x (enqueue_ptr (pq (sys m)))" "push_ready m" for x m
    by (rule can_push_step; use that in \<open>simp add: mpmc_producer_def Let_def push_ready_def cas [of _ x]\<close>)
  have load: "can_push iter t m" if "prods (sys m) t = E_load x" "push_ready m" for x m
    by (rule can_push_step; use that in \<open>simp add: mpmc_producer_def Let_def push_ready_def seq [of _ x]\<close>)
  have idle: "can_push iter t m" if "prods (sys m) t = E_idle" "push_ready m" "prod_i m t < iter" for m
    by (rule can_push_step; use that in \<open>simp add: mpmc_producer_def Let_def push_ready_def load [of _ "int (prod_i m t)"]\<close>)
  have cas': "can_push iter t m" if "prods (sys m) t = E_cas x pos" "push_ready m" for x pos m
  proof (cases "enqueue_ptr (pq (sys m)) = pos")
    case False
    then show ?thesis by - (rule can_push_step; use that in \<open>simp add: mpmc_producer_def Let_def push_ready_def seq [of _ x]\<close>)
  qed (use that cas in blast)
  have seq': "can_push iter t m" if "prods (sys m) t = E_seq x pos" "push_ready m" "prod_i m t < iter" for x pos m
  proof (rule can_push_step)
    show "prod_i (mpmc_producer iter False t m) t = prod_i m t" using that by (simp add: mpmc_producer_def Let_def)
    let ?m = "mpmc_producer iter False t m"
    have "push_ready ?m" "prod_i ?m t < iter" "prods (sys ?m) t = E_cas x pos \<or> prods (sys ?m) t = E_idle \<or> prods (sys ?m) t = E_load x"
      using that by (simp_all add: mpmc_producer_def Let_def push_ready_def)
    then show "can_push iter t ?m" by (elim disjE) (rule cas' idle load; assumption)+
  qed
  show ?thesis using assms cas' seq' load idle push_held by (cases "prods (sys m) t") auto
qed

lemma producer_turn:
  assumes "can_push iter t m" "t < threads" "prod_i m t < iter"
  shows "\<exists>m'. (mpmc_main_step threads iter)\<^sup>*\<^sup>* m m' \<and> work threads iter m' < work threads iter m"
proof -
  obtain n where n: "prod_i ((mpmc_producer iter False t ^^ n) m) t = Suc (prod_i m t)" using assms(1) by (auto simp: can_push_def)
  have same: "cons_i ((mpmc_producer iter False t ^^ k) m) = cons_i m" "joined ((mpmc_producer iter False t ^^ k) m) = joined m"
    "u \<noteq> t \<Longrightarrow> prod_i ((mpmc_producer iter False t ^^ k) m) u = prod_i m u" for k u
    by (induction k) (simp_all add: producer_fields)
  have "work threads iter ((mpmc_producer iter False t ^^ n) m) < work threads iter m"
    by (rule work_decreases [OF assms(2)]) (use assms(3) n same in auto)
  then show ?thesis using run_producers [OF assms(2), of iter m m n] by blast
qed

section \<open>The turn of a consumer\<close>

definition can_pop :: "nat \<Rightarrow> nat \<Rightarrow> mpmc_main \<Rightarrow> bool" where
  "can_pop iter t m \<longleftrightarrow> (\<exists>n. cons_i ((mpmc_consumer iter False t ^^ n) m) t = Suc (cons_i m t))"

lemma can_pop_step:
  assumes "cons_i (mpmc_consumer iter False t m) t = cons_i m t" "can_pop iter t (mpmc_consumer iter False t m)"
  shows "can_pop iter t m"
proof -
  obtain n where "cons_i ((mpmc_consumer iter False t ^^ n) (mpmc_consumer iter False t m)) t = Suc (cons_i m t)"
    using assms by (auto simp: can_pop_def)
  then show ?thesis unfolding can_pop_def by (intro exI [of _ "Suc n"]) (simp add: funpow_swap1)
qed

text \<open>The cell of the next position to be read has been published.\<close>

definition pop_ready :: "mpmc_main \<Rightarrow> bool" where
  "pop_ready m \<longleftrightarrow> sequence (cell_at (cells (pq (sys m))) (dequeue_ptr (pq (sys m)))) = dequeue_ptr (pq (sys m)) + 1"

lemma pop_held: "taker_holds (conss (sys m) t) \<noteq> None \<Longrightarrow> can_pop iter t m"
proof -
  have rel: "can_pop iter t m" if "conss (sys m) t = D_rel pos" for pos m
    unfolding can_pop_def by (rule exI [of _ 1]) (simp add: that mpmc_consumer_def Let_def)
  have data: "can_pop iter t m" if "conss (sys m) t = D_data pos" for pos
    by (rule can_pop_step) (simp_all add: that mpmc_consumer_def Let_def rel [of _ pos])
  assume "taker_holds (conss (sys m) t) \<noteq> None"
  then show ?thesis using rel data by (cases "conss (sys m) t") auto
qed

lemma pop_free:
  assumes "pop_ready m" "cons_i m t < iter"
  shows "can_pop iter t m"
proof -
  have cas: "can_pop iter t m" if "conss (sys m) t = D_cas (dequeue_ptr (pq (sys m)))" for m
    by (rule can_pop_step) (simp_all add: that mpmc_consumer_def Let_def pop_held)
  have seq: "can_pop iter t m" if "conss (sys m) t = D_seq (dequeue_ptr (pq (sys m)))" "pop_ready m" for m
    by (rule can_pop_step; use that in \<open>simp add: mpmc_consumer_def Let_def pop_ready_def cas\<close>)
  have load: "can_pop iter t m" if "conss (sys m) t = D_load" "pop_ready m" for m
    by (rule can_pop_step; use that in \<open>simp add: mpmc_consumer_def Let_def pop_ready_def seq\<close>)
  have idle: "can_pop iter t m" if "conss (sys m) t = D_idle" "pop_ready m" "cons_i m t < iter" for m
    by (rule can_pop_step; use that in \<open>simp add: mpmc_consumer_def Let_def pop_ready_def load\<close>)
  have cas': "can_pop iter t m" if "conss (sys m) t = D_cas pos" "pop_ready m" for pos m
  proof (cases "dequeue_ptr (pq (sys m)) = pos")
    case False
    then show ?thesis by - (rule can_pop_step; use that in \<open>simp add: mpmc_consumer_def Let_def pop_ready_def seq\<close>)
  qed (use that cas in blast)
  have seq': "can_pop iter t m" if "conss (sys m) t = D_seq pos" "pop_ready m" "cons_i m t < iter" for pos m
  proof (rule can_pop_step)
    show "cons_i (mpmc_consumer iter False t m) t = cons_i m t" using that by (simp add: mpmc_consumer_def Let_def)
    let ?m = "mpmc_consumer iter False t m"
    have "pop_ready ?m" "cons_i ?m t < iter" "conss (sys ?m) t = D_cas pos \<or> conss (sys ?m) t = D_idle \<or> conss (sys ?m) t = D_load"
      using that by (simp_all add: mpmc_consumer_def Let_def pop_ready_def)
    then show "can_pop iter t ?m" by (elim disjE) (rule cas' idle load; assumption)+
  qed
  show ?thesis using assms cas' seq' load idle pop_held by (cases "conss (sys m) t") auto
qed

lemma consumer_turn:
  assumes "can_pop iter t m" "t < threads" "cons_i m t < iter" "\<not> joined m t"
  shows "\<exists>m'. (mpmc_main_step threads iter)\<^sup>*\<^sup>* m m' \<and> work threads iter m' < work threads iter m"
proof -
  obtain n where n: "cons_i ((mpmc_consumer iter False t ^^ n) m) t = Suc (cons_i m t)" using assms(1) by (auto simp: can_pop_def)
  have same: "prod_i ((mpmc_consumer iter False t ^^ k) m) = prod_i m"
    "u \<noteq> t \<Longrightarrow> cons_i ((mpmc_consumer iter False t ^^ k) m) u = cons_i m u \<and> joined ((mpmc_consumer iter False t ^^ k) m) u = joined m u" for k u
    by (induction k) (simp_all add: consumer_fields)
  have "work threads iter ((mpmc_consumer iter False t ^^ n) m) < work threads iter m"
    by (rule work_decreases [OF assms(2)]) (use assms(3,4) n same in auto)
  then show ?thesis using run_consumers [OF assms(2), of iter m m n] by blast
qed

lemma join_turn:
  assumes "t < threads" "conss (sys m) t = D_idle" "cons_i m t = iter" "\<not> joined m t"
  shows "\<exists>m'. (mpmc_main_step threads iter)\<^sup>*\<^sup>* m m' \<and> work threads iter m' < work threads iter m"
proof -
  have "work threads iter (mpmc_consumer iter False t m) < work threads iter m"
    by (rule work_decreases [OF assms(1)]) (use assms(2-4) in \<open>auto simp: mpmc_consumer_def Let_def\<close>)
  then show ?thesis using run_consumers [OF assms(1), of iter m m 1] by auto
qed

section \<open>Progress\<close>

lemma unstarted_idle: "(mpmc_main_step threads iter)\<^sup>*\<^sup>* (mpmc_main_init q) m \<Longrightarrow> threads \<le> t \<Longrightarrow> conss (sys m) t = D_idle"
proof (induction rule: rtranclp_induct)
  case (step m m')
  from step.hyps(2) step.prems step.IH show ?case
    by cases (simp_all add: producer_fields consumer_fields)
qed (simp add: mpmc_main_init_def mpmc_init_def)

lemma unstarted_holds_nothing:
  assumes "main_ok q threads iter m" "claimer_holds (prods (sys m) t) \<noteq> None"
  shows "t < threads"
proof (rule ccontr)
  assume "\<not> t < threads"
  then have "values_of t (penq (sys m)) = []" using assms(1) by (auto simp: main_ok_def values_of_def filter_empty_conv)
  moreover have "producer_ok iter m t" using assms(1) by (simp add: main_ok_def)
  ultimately show False using assms(2) by (auto simp: producer_ok_def)
qed

lemma quiet_counts:
  assumes ok: "main_ok q threads iter m" and inv: "mpmc_inv S C (sys m)"
    and quiet: "\<And>t. claimer_holds (prods (sys m) t) = None" "\<And>t. taker_holds (conss (sys m) t) = None"
  shows "length (penq (sys m)) = (\<Sum>t<threads. prod_i m t)" "C = (\<Sum>t<threads. cons_i m t)"
proof -
  have fst: "set (map fst (penq (sys m))) \<subseteq> {..<threads}" "set (map fst (pdeq (sys m))) \<subseteq> {..<threads}" using ok by (simp_all add: main_ok_def)
  have "length (values_of t (penq (sys m))) = prod_i m t" for t using ok quiet(1) [of t] by (simp add: main_ok_def producer_ok_def)
  then show "length (penq (sys m)) = (\<Sum>t<threads. prod_i m t)" using length_by_thread [OF fst(1)] by simp
  have "conss (sys m) t \<noteq> D_rel p" for t p using quiet(2) [of t] by auto
  then have "length (values_of t (pdeq (sys m))) = cons_i m t" for t
    using ok by (auto simp: main_ok_def consumer_ok_def Let_def split: taker.splits dest!: spec [of _ t])
  then have len: "length (pdeq (sys m)) = (\<Sum>t<threads. cons_i m t)" using length_by_thread [OF fst(2)] by simp
  have "unread (conss (sys m) t) = None" for t using quiet(2) [of t] by (cases "conss (sys m) t") auto
  then have "held unread (conss (sys m)) = {}" by (simp add: held_def)
  then have "set (logged (pdeq (sys m))) = {..<C}" "distinct (logged (pdeq (sys m)))" using mpmc_invD [OF inv] by (auto simp: log_ok_def)
  then have "length (logged (pdeq (sys m))) = C" using distinct_card by fastforce
  then show "C = (\<Sum>t<threads. cons_i m t)" using len by (simp add: logged_def)
qed

lemma quiet_progress:
  assumes S: "ring_size S" and ok: "main_ok q threads iter m" and inv: "mpmc_inv S C (sys m)" and unfinished: "\<not> mpmc_main_done threads iter m"
    and quiet: "\<And>t. claimer_holds (prods (sys m) t) = None" "\<And>t. taker_holds (conss (sys m) t) = None"
  shows "\<exists>m'. (mpmc_main_step threads iter)\<^sup>*\<^sup>* m m' \<and> work threads iter m' < work threads iter m"
proof -
  let ?E = "length (penq (sys m))" let ?cs = "cells (pq (sys m))"
  note n = quiet_counts [OF ok inv quiet]
  have empty: "held claimer_holds (prods (sys m)) = {}" "held taker_holds (conss (sys m)) = {}" using quiet by (simp_all add: held_def)
  have r: "shared_ring S ?E C {} {} (claimed_value (penq (sys m))) ?cs" and ptr: "enqueue_ptr (pq (sys m)) = of_nat ?E" "dequeue_ptr (pq (sys m)) = of_nat C"
    using mpmc_invD [OF inv] unfolding empty by auto
  note b = shared_ring_bounds [OF r]
  have S0: "0 < S" using ring_size_bounds [OF S] by simp
  have p: "prod_i m t \<le> iter" "prod_i m t = iter \<Longrightarrow> prods (sys m) t = E_idle" for t using ok by (auto simp: main_ok_def producer_ok_def dest!: spec [of _ t])
  have c: "cons_i m t \<le> iter" "cons_i m t = iter \<Longrightarrow> conss (sys m) t = D_idle" "cons_i m t < iter \<Longrightarrow> \<not> joined m t" for t
    using ok by (auto simp: main_ok_def consumer_ok_def Let_def dest!: spec [of _ t])
  consider (pop) t where "C < ?E" "t < threads" "cons_i m t < iter" | (push) t where "C = ?E" "t < threads" "prod_i m t < iter"
    | (full) "\<forall>t<threads. cons_i m t = iter" "\<forall>t<threads. prod_i m t = iter"
  proof -
    have "?E = C" "\<forall>t<threads. prod_i m t = iter" if "\<forall>t<threads. cons_i m t = iter"
    proof -
      have le: "?E \<le> threads * iter" unfolding n(1) using sum_bounded_above [of "{..<threads}" "prod_i m" iter] p by simp
      have C: "C = threads * iter" using n(2) that by simp
      then show E: "?E = C" using le b(2) by simp
      show "\<forall>t<threads. prod_i m t = iter"
      proof (rule ccontr)
        assume "\<not> (\<forall>t<threads. prod_i m t = iter)"
        then have "\<exists>t\<in>{..<threads}. prod_i m t < iter" using p(1) by (auto simp: le_less)
        then have "(\<Sum>t<threads. prod_i m t) < (\<Sum>t<threads. iter)" using p(1) by (intro sum_strict_mono_ex1) auto
        then show False using n(1) E C by simp
      qed
    qed
    moreover have "?E = C \<Longrightarrow> \<forall>t<threads. prod_i m t = iter \<Longrightarrow> \<forall>t<threads. cons_i m t = iter"
    proof (rule ccontr)
      assume e: "?E = C" "\<forall>t<threads. prod_i m t = iter" and "\<not> (\<forall>t<threads. cons_i m t = iter)"
      then have "\<exists>t\<in>{..<threads}. cons_i m t < iter" using c(1) by (auto simp: le_less)
      then have "(\<Sum>t<threads. cons_i m t) < (\<Sum>t<threads. iter)" using c(1) by (intro sum_strict_mono_ex1) auto
      then show False using n e by simp
    qed
    ultimately show ?thesis using that b(2) p(1) c(1) by (metis le_neq_implies_less)
  qed
  then show ?thesis
  proof cases
    case pop
    have "pop_ready m" using shared_ring_seq [OF r, of C] pop(1) S0 by (simp add: pop_ready_def ptr shared_ring_cell_at [OF S b(1)] add.commute)
    then show ?thesis using pop_free consumer_turn pop(2,3) c(3) by blast
  next
    case push
    have "push_ready m" using shared_ring_seq [OF r, of ?E] push(1) S0 by (simp add: push_ready_def ptr shared_ring_cell_at [OF S b(1)])
    then show ?thesis using push_free producer_turn push(2,3) by blast
  next
    case full
    then obtain t where "t < threads" "\<not> joined m t" using unfinished p(2) by (auto simp: mpmc_main_done_def list_all_iff)
    then show ?thesis using full c(2) by (intro join_turn) auto
  qed
qed

lemma program_progress:
  assumes "mpmc_new S x0 = Some q" "threads * iter + S < 2 ^ 63" "(mpmc_main_step threads iter)\<^sup>*\<^sup>* (mpmc_main_init q) m" "\<not> mpmc_main_done threads iter m"
  shows "\<exists>m'. (mpmc_main_step threads iter)\<^sup>*\<^sup>* m m' \<and> work threads iter m' < work threads iter m"
proof -
  note ok = main_ok_reach [OF assms(3)]
  consider (writer) t where "claimer_holds (prods (sys m) t) \<noteq> None" | (reader) t where "taker_holds (conss (sys m) t) \<noteq> None"
    | (quiet) "\<And>t. claimer_holds (prods (sys m) t) = None" "\<And>t. taker_holds (conss (sys m) t) = None" by blast
  then show ?thesis
  proof cases
    case writer
    then have "prod_i m t < iter" using ok by (auto simp: main_ok_def producer_ok_def dest!: spec [of _ t])
    then show ?thesis using writer push_held producer_turn unstarted_holds_nothing [OF ok] by blast
  next
    case reader
    then have "conss (sys m) t \<noteq> D_idle" by auto
    moreover from this have "t < threads" using unstarted_idle [OF assms(3)] by (meson not_le)
    moreover have "consumer_ok iter m t" using ok by (simp add: main_ok_def)
    ultimately have "t < threads" "cons_i m t < iter" "\<not> joined m t" by (auto simp: consumer_ok_def Let_def)
    then show ?thesis using consumer_turn [OF pop_held [OF reader]] by blast
  next
    case quiet
    obtain C where "mpmc_inv S C (sys m)" "ring_size S" by (rule main_ok_inv [OF assms(1,2) ok])
    then show ?thesis using quiet_progress [OF _ ok _ assms(4) quiet] by blast
  qed
qed

lemma program_finishes:
  assumes "mpmc_new S x0 = Some q" "threads * iter + S < 2 ^ 63" "(mpmc_main_step threads iter)\<^sup>*\<^sup>* (mpmc_main_init q) m"
  shows "\<exists>m'. (mpmc_main_step threads iter)\<^sup>*\<^sup>* m m' \<and> mpmc_main_done threads iter m'"
  using assms(3)
proof (induction "work threads iter m" arbitrary: m rule: less_induct)
  case less
  show ?case
  proof (cases "mpmc_main_done threads iter m")
    case False
    then obtain m' where m': "(mpmc_main_step threads iter)\<^sup>*\<^sup>* m m'" "work threads iter m' < work threads iter m"
      using program_progress [OF assms(1,2) less.prems] by blast
    then show ?thesis using less.hyps [OF m'(2)] less.prems by (meson rtranclp_trans)
  qed blast
qed

text \<open>
  C14: For every number of threads and every \<open>ITER\<close> below 2 ^ 31 for which the expected total can be computed in a \<open>long long\<close>, as long as the claims stay
  below 2 ^ 63, the program never overflows a signed integer and never gets into a state from which it cannot finish. From every state that it can reach, whatever the threads have done so far,
  some continuation ends with all threads joined, and wherever that is so the assertion of \<open>main\<close> holds.
\<close>

theorem mpmc_program_can_finish:
  assumes "mpmc_new S x0 = Some q" "threads * iter + S < 2 ^ 63" "iter < 2 ^ 31" "mpmc_expected threads iter = Some expected"
    and "(mpmc_main_step threads iter)\<^sup>*\<^sup>* (mpmc_main_init q) m"
  shows "\<not> overflowed m \<and> (mpmc_main_done threads iter m \<longrightarrow> sint (total_sum m) = expected) \<and>
    (\<exists>m'. (mpmc_main_step threads iter)\<^sup>*\<^sup>* m m' \<and> mpmc_main_done threads iter m' \<and> \<not> overflowed m' \<and> sint (total_sum m') = expected)"
proof -
  obtain m' where m': "(mpmc_main_step threads iter)\<^sup>*\<^sup>* m m'" "mpmc_main_done threads iter m'" using program_finishes [OF assms(1,2,5)] by blast
  note r = rtranclp_trans [OF assms(5) m'(1)]
  show ?thesis
    using m' never_overflows [OF assms(1-3,5)] never_overflows [OF assms(1-3) r] joined_total [OF assms(1,2,4,5)] joined_total [OF assms(1,2,4) r m'(2)] by blast
qed

text \<open>A consumer has found the queue empty before the producer has started.\<close>

theorem mpmc_program_can_finish_witness:
  "\<exists>m'. (mpmc_main_step 1 2)\<^sup>*\<^sup>* ((mpmc_consumer 2 False 0 ^^ 3) (mpmc_main_init \<lparr>cells = new_cells 4 0, enqueue_ptr = 0, dequeue_ptr = 0\<rparr>)) m' \<and>
     mpmc_main_done 1 2 m' \<and> \<not> overflowed m' \<and> sint (total_sum m') = 1"
proof -
  let ?q = "\<lparr>cells = new_cells 4 (0 :: int), enqueue_ptr = 0, dequeue_ptr = 0\<rparr>"
  have "mpmc_new 4 0 = Some ?q" by (simp add: mpmc_new_def and_nat_rec [of 4])
  moreover have "(mpmc_main_step 1 2)\<^sup>*\<^sup>* (mpmc_main_init ?q) ((mpmc_consumer 2 False 0 ^^ 3) (mpmc_main_init ?q))"
    by (intro run_consumers) simp_all
  moreover have "mpmc_expected 1 2 = Some 1" by (simp add: mpmc_expected_def long_long_def int64_range_def)
  ultimately show ?thesis using mpmc_program_can_finish [of 4 0 ?q 1 2 1] by simp
qed

end
