(* ===== verification/Limit_Book.thy ===== *)
theory Limit_Book
  imports Prelude
begin

text \<open>
  The interface \<open>OrderBook\<close> of \<open>4_order_book_proj/data_structure_bench/base.hpp\<close> and what its
  implementations promise.

  \<^item> Orders with the priority comparisons of \<open>BuyOrder\<close> and \<open>SellOrder\<close>.
  \<^item> \<open>limit_book\<close>: the abstract book, one list per side with the best order first, and the six
    operations on it. A \<open>market_cfg\<close> says which prices a book accepts and at which prices a market
    order rests when the opposite side is empty.
  \<^item> The locale \<open>order_book\<close> is the interface: six operations and \<open>top_of_book\<close> that act on the
    representation as the abstract operations do. Inside it the simulation is lifted to sequences of
    operations, so that any two implementations with the same configuration are equivalent.
\<close>

section \<open>Orders\<close>

record order =
  ord_id :: u64
  ord_price :: u64
  ord_size :: u32

type_synonym BuyOrder = order
type_synonym SellOrder = order

definition order_default :: order where
  "order_default = \<lparr>ord_id = 0, ord_price = 0, ord_size = 0\<rparr>"

definition BuyOrder_gt :: "BuyOrder \<Rightarrow> BuyOrder \<Rightarrow> bool" where
  "BuyOrder_gt o1 o2 =
     (if ord_price o1 > ord_price o2 then True
      else if ord_price o1 = ord_price o2 then ord_id o1 < ord_id o2 else False)"

definition BuyOrder_lt :: "BuyOrder \<Rightarrow> BuyOrder \<Rightarrow> bool" where
  "BuyOrder_lt o1 o2 =
     (if ord_price o1 < ord_price o2 then True
      else if ord_price o1 = ord_price o2 then ord_id o1 > ord_id o2 else False)"

definition SellOrder_gt :: "SellOrder \<Rightarrow> SellOrder \<Rightarrow> bool" where
  "SellOrder_gt o1 o2 =
     (if ord_price o1 < ord_price o2 then True
      else if ord_price o1 = ord_price o2 then ord_id o1 < ord_id o2 else False)"

definition SellOrder_lt :: "SellOrder \<Rightarrow> SellOrder \<Rightarrow> bool" where
  "SellOrder_lt o1 o2 =
     (if ord_price o1 > ord_price o2 then True
      else if ord_price o1 = ord_price o2 then ord_id o1 > ord_id o2 else False)"

text \<open>\<open>size -= amount\<close> for a 32-bit size and a 64-bit amount: the difference is taken in 64 bits and
  cut back to 32.\<close>

definition sub_size :: "u32 \<Rightarrow> u64 \<Rightarrow> u32" where
  "sub_size s amount = ucast (ucast s - amount)"

section \<open>The abstract book\<close>

record limit_book =
  bid_q :: "BuyOrder list"
  ask_q :: "SellOrder list"
  next_id :: u64

record market_cfg =
  accepts :: "u64 \<Rightarrow> bool"
  top_price :: u64
  bottom_price :: u64

definition place :: "(order \<Rightarrow> order \<Rightarrow> bool) \<Rightarrow> order \<Rightarrow> order list \<Rightarrow> order list" where
  "place gt x xs = takeWhile (\<lambda>y. gt y x) xs @ x # dropWhile (\<lambda>y. gt y x) xs"

definition reduce :: "u64 \<Rightarrow> order \<Rightarrow> order" where
  "reduce amount x = x\<lparr>ord_size := sub_size (ord_size x) amount\<rparr>"

definition fill_of :: "order \<Rightarrow> order \<Rightarrow> u64" where
  "fill_of b s = ucast (min (ord_size b) (ord_size s))"

text \<open>One round of matching two fronts: each is reduced and leaves when nothing of it is left.\<close>

definition front_after :: "u64 \<Rightarrow> order \<Rightarrow> order list \<Rightarrow> order list" where
  "front_after fill x xs = (if ord_size (reduce fill x) = 0 then xs else reduce fill x # xs)"

lemma ord_size_reduce_min:
  "ord_size (reduce (fill_of b s) b) = ord_size b - min (ord_size b) (ord_size s)"
  "ord_size (reduce (fill_of b s) s) = ord_size s - min (ord_size b) (ord_size s)"
proof -
  have sub: "sub_size x (ucast y) = x - y" if "y \<le> x" for x y :: u32
    using that by (simp add: sub_size_def ucast_32_64_sub)
  show "ord_size (reduce (fill_of b s) b) = ord_size b - min (ord_size b) (ord_size s)"
    "ord_size (reduce (fill_of b s) s) = ord_size s - min (ord_size b) (ord_size s)"
    by (simp_all add: reduce_def fill_of_def sub)
qed

lemma front_after_shrinks:
  "length (front_after (fill_of b s) b bs) + length (front_after (fill_of b s) s ss) < length (b # bs) + length (s # ss)"
  by (auto simp: front_after_def ord_size_reduce_min min_def)

function match_lists :: "BuyOrder list \<Rightarrow> SellOrder list \<Rightarrow> BuyOrder list \<times> SellOrder list" where
  "match_lists [] ss = ([], ss)"
| "match_lists (b # bs) [] = (b # bs, [])"
| "match_lists (b # bs) (s # ss) =
     (if ord_price b \<ge> ord_price s
      then match_lists (front_after (fill_of b s) b bs) (front_after (fill_of b s) s ss)
      else (b # bs, s # ss))"
  by pat_completeness auto
termination
  by (relation "measure (\<lambda>(bs, ss). length bs + length ss)") (use front_after_shrinks in auto)

lemma match_lists_Nil2 [simp]: "match_lists bs [] = (bs, [])"
  by (cases bs) simp_all

text \<open>A market order takes from the front until nothing of it or of the side is left; the result
  names the last order it met.\<close>

fun sweep_market :: "u64 \<Rightarrow> u64 \<Rightarrow> order list \<Rightarrow> u64 \<times> order list" where
  "sweep_market remaining last_id [] = (last_id, [])"
| "sweep_market remaining last_id (x # xs) =
     (if remaining = 0 then (last_id, x # xs)
      else if ucast (ord_size x) \<le> remaining then sweep_market (remaining - ucast (ord_size x)) (ord_id x) xs
      else (ord_id x, reduce remaining x # xs))"

definition book_insert_buy :: "market_cfg \<Rightarrow> BuyOrder \<Rightarrow> limit_book \<Rightarrow> limit_book \<times> u64" where
  "book_insert_buy cfg x B =
     (if \<not> accepts cfg (ord_price x) then (B, 0)
      else case match_lists (place BuyOrder_gt (x\<lparr>ord_id := next_id B\<rparr>) (bid_q B)) (ask_q B) of
        (bs, ss) \<Rightarrow> (\<lparr>bid_q = bs, ask_q = ss, next_id = next_id B + 1\<rparr>, next_id B))"

definition book_insert_sell :: "market_cfg \<Rightarrow> SellOrder \<Rightarrow> limit_book \<Rightarrow> limit_book \<times> u64" where
  "book_insert_sell cfg x B =
     (if \<not> accepts cfg (ord_price x) then (B, 0)
      else case match_lists (bid_q B) (place SellOrder_gt (x\<lparr>ord_id := next_id B\<rparr>) (ask_q B)) of
        (bs, ss) \<Rightarrow> (\<lparr>bid_q = bs, ask_q = ss, next_id = next_id B + 1\<rparr>, next_id B))"

definition without :: "u64 \<Rightarrow> order list \<Rightarrow> order list" where
  "without i xs = filter (\<lambda>x. ord_id x \<noteq> i) xs"

definition book_cancel_buy :: "u64 \<Rightarrow> limit_book \<Rightarrow> limit_book \<times> u64" where
  "book_cancel_buy i B =
     (if i \<in> ord_id ` set (bid_q B) then (B\<lparr>bid_q := without i (bid_q B)\<rparr>, i) else (B, 0))"

definition book_cancel_sell :: "u64 \<Rightarrow> limit_book \<Rightarrow> limit_book \<times> u64" where
  "book_cancel_sell i B =
     (if i \<in> ord_id ` set (ask_q B) then (B\<lparr>ask_q := without i (ask_q B)\<rparr>, i) else (B, 0))"

definition book_market_buy :: "market_cfg \<Rightarrow> BuyOrder \<Rightarrow> limit_book \<Rightarrow> limit_book \<times> u64" where
  "book_market_buy cfg x B =
     (case sweep_market (ucast (ord_size x)) 0 (ask_q B) of
        (l, ss) \<Rightarrow> if l = 0 then book_insert_buy cfg (x\<lparr>ord_price := top_price cfg\<rparr>) (B\<lparr>ask_q := ss\<rparr>)
                   else (B\<lparr>ask_q := ss\<rparr>, l))"

definition book_market_sell :: "market_cfg \<Rightarrow> SellOrder \<Rightarrow> limit_book \<Rightarrow> limit_book \<times> u64" where
  "book_market_sell cfg x B =
     (case sweep_market (ucast (ord_size x)) 0 (bid_q B) of
        (l, bs) \<Rightarrow> if l = 0 then book_insert_sell cfg (x\<lparr>ord_price := bottom_price cfg\<rparr>) (B\<lparr>bid_q := bs\<rparr>)
                   else (B\<lparr>bid_q := bs\<rparr>, l))"

definition first_or_default :: "order list \<Rightarrow> order" where
  "first_or_default xs = (case xs of [] \<Rightarrow> order_default | x # _ \<Rightarrow> x)"

definition book_top :: "limit_book \<Rightarrow> BuyOrder \<times> SellOrder" where
  "book_top B = (first_or_default (bid_q B), first_or_default (ask_q B))"

lemma place_split:
  assumes "\<forall>y\<in>set us. gt y x" "\<forall>y\<in>set vs. \<not> gt y x"
  shows "place gt x (us @ vs) = us @ x # vs"
proof -
  have "takeWhile (\<lambda>y. gt y x) (us @ vs) = us" "dropWhile (\<lambda>y. gt y x) (us @ vs) = vs"
    using assms by (induction us) (cases vs; simp)+
  then show ?thesis by (simp add: place_def)
qed

lemma without_absent: "i \<notin> ord_id ` set xs \<Longrightarrow> without i xs = xs"
  by (auto simp: without_def filter_id_conv)

lemma without_mid:
  assumes "distinct (map ord_id (us @ x # vs))"
  shows "without (ord_id x) (us @ x # vs) = us @ vs"
proof -
  have "ord_id x \<notin> ord_id ` set us" "ord_id x \<notin> ord_id ` set vs" using assms by auto
  then have "without (ord_id x) us = us" "without (ord_id x) vs = vs" by (simp_all add: without_absent)
  then show ?thesis by (simp add: without_def)
qed

section \<open>Invariants of the abstract book\<close>

text \<open>A side: in strict priority order, with distinct identifiers below the next one, at accepted
  prices.\<close>

definition side_ok :: "(order \<Rightarrow> order \<Rightarrow> bool) \<Rightarrow> (u64 \<Rightarrow> bool) \<Rightarrow> u64 \<Rightarrow> order list \<Rightarrow> bool" where
  "side_ok gt acc n xs \<longleftrightarrow> sorted_wrt gt xs \<and> distinct (map ord_id xs) \<and>
     (\<forall>x\<in>set xs. 0 < ord_id x \<and> ord_id x < n \<and> acc (ord_price x))"

definition book_ok :: "market_cfg \<Rightarrow> limit_book \<Rightarrow> bool" where
  "book_ok cfg B \<longleftrightarrow> 0 < next_id B \<and>
     side_ok BuyOrder_gt (accepts cfg) (next_id B) (bid_q B) \<and>
     side_ok SellOrder_gt (accepts cfg) (next_id B) (ask_q B)"

definition uncrossed_book :: "limit_book \<Rightarrow> bool" where
  "uncrossed_book B \<longleftrightarrow> (\<forall>b\<in>set (bid_q B). \<forall>s\<in>set (ask_q B). ord_price b < ord_price s)"

definition volume :: "order list \<Rightarrow> nat" where
  "volume xs = sum_list (map (\<lambda>x. unat (ord_size x)) xs)"

lemma volume_simps [simp]:
  "volume [] = 0" "volume (x # xs) = unat (ord_size x) + volume xs" "volume (xs @ ys) = volume xs + volume ys"
  by (simp_all add: volume_def)

text \<open>The comparisons look at price and identifier only.\<close>

definition okey :: "order \<Rightarrow> u64 \<times> u64" where
  "okey x = (ord_id x, ord_price x)"

lemma okey_reduce [simp]: "okey (reduce q x) = okey x"
  by (simp add: okey_def reduce_def)

lemma reduce_sel [simp]: "ord_id (reduce q x) = ord_id x" "ord_price (reduce q x) = ord_price x"
  by (simp_all add: reduce_def)

locale priority =
  fixes gt :: "order \<Rightarrow> order \<Rightarrow> bool"
  assumes gt_trans: "gt x y \<Longrightarrow> gt y z \<Longrightarrow> gt x z"
    and gt_total: "ord_id x \<noteq> ord_id y \<Longrightarrow> gt x y \<or> gt y x"
    and gt_asym: "gt x y \<Longrightarrow> \<not> gt y x"
    and gt_okey: "okey x = okey x' \<Longrightarrow> okey y = okey y' \<Longrightarrow> gt x y \<Longrightarrow> gt x' y'"
begin

lemma sorted_okey: "map okey xs = map okey ys \<Longrightarrow> sorted_wrt gt xs \<Longrightarrow> sorted_wrt gt ys"
proof (induction xs arbitrary: ys)
  case (Cons x xs)
  from Cons.prems(1) obtain y zs where ys: "ys = y # zs" "okey x = okey y" "map okey xs = map okey zs"
    by (auto simp: Cons_eq_map_conv)
  have "gt y z" if "z \<in> set zs" for z
  proof -
    from that have "okey z \<in> okey ` set xs" using ys(3) by (metis image_eqI list.set_map)
    then obtain x' where "x' \<in> set xs" "okey x' = okey z" by auto
    then show ?thesis using Cons.prems(2) gt_okey [OF ys(2), of x' z] by simp
  qed
  moreover have "sorted_wrt gt zs" using Cons.IH [OF ys(3)] Cons.prems(2) by simp
  ultimately show ?case by (simp add: ys(1))
qed simp

lemma side_ok_okey:
  assumes "map okey xs = map okey ys" "side_ok gt acc n xs"
  shows "side_ok gt acc n ys"
proof -
  have ids: "map ord_id zs = map fst (map okey zs)" for zs by (simp add: okey_def o_def)
  have "okey ` set xs = okey ` set ys" using assms(1) by (metis list.set_map)
  then have "\<exists>x\<in>set xs. ord_id x = ord_id y \<and> ord_price x = ord_price y" if "y \<in> set ys" for y
  proof -
    have "okey y \<in> okey ` set xs" using that \<open>okey ` set xs = okey ` set ys\<close> by simp
    then show ?thesis by (auto simp: okey_def)
  qed
  then show ?thesis
    using assms(2) sorted_okey [OF assms(1)] unfolding side_ok_def ids assms(1) by metis
qed

lemma side_ok_append: "side_ok gt acc n (xs @ ys) \<Longrightarrow> side_ok gt acc n ys"
  by (auto simp: side_ok_def sorted_wrt_append)

lemma side_ok_okey_suffix: "map okey xs = zs @ map okey ys \<Longrightarrow> side_ok gt acc n xs \<Longrightarrow> side_ok gt acc n ys"
proof -
  assume eq: "map okey xs = zs @ map okey ys" and ok: "side_ok gt acc n xs"
  then obtain us vs where "xs = us @ vs" "map okey vs = map okey ys" by (metis map_eq_append_conv)
  then show ?thesis using ok side_ok_append side_ok_okey by blast
qed

lemma side_ok_without: "side_ok gt acc n xs \<Longrightarrow> side_ok gt acc n (without i xs)"
  by (auto simp: side_ok_def without_def sorted_wrt_filter distinct_map_filter)

lemma side_ok_mono: "side_ok gt acc n xs \<Longrightarrow> n \<le> m \<Longrightarrow> side_ok gt acc m xs"
  by (auto simp: side_ok_def intro: less_le_trans)

text \<open>In a sorted side everything after the insertion point is worse than the new order.\<close>

lemma dropWhile_worse:
  assumes "sorted_wrt gt xs" "\<forall>y\<in>set xs. ord_id y \<noteq> ord_id x" "z \<in> set (dropWhile (\<lambda>y. gt y x) xs)"
  shows "gt x z"
  using assms
proof (induction xs)
  case (Cons y ys)
  show ?case
  proof (cases "gt y x")
    case False
    then have "gt x y" using gt_total [of x y] Cons.prems(2) by auto
    then show ?thesis using Cons.prems(1,3) False gt_trans by auto
  qed (use Cons in auto)
qed simp

lemma sorted_place:
  assumes "sorted_wrt gt xs" "\<forall>y\<in>set xs. ord_id y \<noteq> ord_id x"
  shows "sorted_wrt gt (place gt x xs)"
proof -
  let ?t = "takeWhile (\<lambda>y. gt y x) xs" and ?d = "dropWhile (\<lambda>y. gt y x) xs"
  have "sorted_wrt gt (?t @ ?d)" using assms(1) by simp
  then have s: "sorted_wrt gt ?t" "sorted_wrt gt ?d" "\<forall>y\<in>set ?t. \<forall>z\<in>set ?d. gt y z"
    unfolding sorted_wrt_append by auto
  have "\<forall>y\<in>set ?t. gt y x" using set_takeWhileD [of _ "\<lambda>y. gt y x" xs] by blast
  moreover have "\<forall>z\<in>set ?d. gt x z" using dropWhile_worse [OF assms] by blast
  ultimately show ?thesis
    using s unfolding place_def sorted_wrt_append sorted_wrt.simps(2) list.set(2) by blast
qed

lemma takeWhile_rev_place:
  assumes "sorted_wrt gt xs" "\<forall>y\<in>set xs. ord_id y \<noteq> ord_id x"
  shows "takeWhile (\<lambda>y. gt x y) (rev xs) = rev (dropWhile (\<lambda>y. gt y x) xs)"
proof -
  let ?t = "takeWhile (\<lambda>y. gt y x) xs" and ?d = "dropWhile (\<lambda>y. gt y x) xs"
  have "takeWhile (\<lambda>y. gt x y) (rev ?d @ rev ?t) = rev ?d @ takeWhile (\<lambda>y. gt x y) (rev ?t)"
    by (rule takeWhile_append2) (use dropWhile_worse [OF assms] in simp)
  moreover have "\<not> gt x y" if "y \<in> set (rev ?t)" for y
    using set_takeWhileD [of y "\<lambda>y. gt y x" xs] that gt_asym by auto
  then have "takeWhile (\<lambda>y. gt x y) (rev ?t) = []" by (cases "rev ?t") simp_all
  moreover have "rev xs = rev ?d @ rev ?t" by (metis rev_append takeWhile_dropWhile_id)
  ultimately show ?thesis by simp
qed

lemma set_place [simp]: "set (place gt x xs) = insert x (set xs)"
proof -
  have "set xs = set (takeWhile (\<lambda>y. gt y x) xs) \<union> set (dropWhile (\<lambda>y. gt y x) xs)"
    by (metis set_append takeWhile_dropWhile_id)
  then show ?thesis by (auto simp: place_def)
qed

lemma side_ok_place:
  assumes "side_ok gt acc n xs" "ord_id x = n" "0 < n" "n < n + 1" "acc (ord_price x)"
  shows "side_ok gt acc (n + 1) (place gt x xs)"
proof -
  have ids: "\<forall>y\<in>set xs. ord_id y \<noteq> ord_id x" using assms(1,2) by (auto simp: side_ok_def)
  have "distinct (map ord_id (takeWhile (\<lambda>y. gt y x) xs @ dropWhile (\<lambda>y. gt y x) xs))"
    using assms(1) by (simp add: side_ok_def)
  then have "distinct (map ord_id (place gt x xs))"
    using ids unfolding place_def by (auto dest: set_takeWhileD set_dropWhileD simp del: takeWhile_dropWhile_id)
  then show ?thesis
    using sorted_place [OF _ ids] assms by (auto simp: side_ok_def intro: less_trans)
qed

lemma volume_place [simp]: "volume (place gt x xs) = unat (ord_size x) + volume xs"
proof -
  have "volume xs = volume (takeWhile (\<lambda>y. gt y x) xs) + volume (dropWhile (\<lambda>y. gt y x) xs)"
    by (metis takeWhile_dropWhile_id volume_simps(3))
  then show ?thesis by (simp add: place_def)
qed

end

interpretation buy_priority: priority BuyOrder_gt
  by unfold_locales (auto simp: BuyOrder_gt_def okey_def split: if_splits)

interpretation sell_priority: priority SellOrder_gt
  by unfold_locales (auto simp: SellOrder_gt_def okey_def split: if_splits)

section \<open>The operations keep the invariants\<close>

lemma front_after_okey: "\<exists>us. okey x # map okey xs = us @ map okey (front_after q x xs)"
  by (auto simp: front_after_def intro: exI [of _ "[okey x]"] exI [of _ "[]"])

lemma match_lists_okey:
  "match_lists bs ss = (bs', ss') \<Longrightarrow>
   (\<exists>us. map okey bs = us @ map okey bs') \<and> (\<exists>vs. map okey ss = vs @ map okey ss')"
proof (induction bs ss rule: match_lists.induct)
  case (3 b bs s ss)
  show ?case
  proof (cases "ord_price b \<ge> ord_price s")
    case True
    have "match_lists (front_after (fill_of b s) b bs) (front_after (fill_of b s) s ss) = (bs', ss')"
      using "3.prems" True by simp
    note IH = "3.IH" [OF True this]
    obtain us vs us' vs' where
      "map okey (front_after (fill_of b s) b bs) = us @ map okey bs'"
      "map okey (front_after (fill_of b s) s ss) = vs @ map okey ss'"
      "okey b # map okey bs = us' @ map okey (front_after (fill_of b s) b bs)"
      "okey s # map okey ss = vs' @ map okey (front_after (fill_of b s) s ss)"
      using IH front_after_okey [of b bs "fill_of b s"] front_after_okey [of s ss "fill_of b s"] by blast
    then show ?thesis by (intro conjI exI [of _ "us' @ us"] exI [of _ "vs' @ vs"]) simp_all
  qed (use "3.prems" in auto)
qed auto

lemma volume_front_after0: "volume (front_after q x xs) = unat (ord_size (reduce q x)) + volume xs"
  by (simp add: front_after_def)

lemma volume_front_after:
  "volume (front_after (fill_of b s) b bs) + unat (min (ord_size b) (ord_size s)) = volume (b # bs)"
  "volume (front_after (fill_of b s) s ss) + unat (min (ord_size b) (ord_size s)) = volume (s # ss)"
  using unat_sub_le [of "min (ord_size b) (ord_size s)" "ord_size b"] unat_sub_le [of "min (ord_size b) (ord_size s)" "ord_size s"]
    min.cobounded1 [of "ord_size b" "ord_size s"] min.cobounded2 [of "ord_size b" "ord_size s"]
  unfolding volume_front_after0 ord_size_reduce_min by (simp_all add: word_le_nat_alt)

lemma match_lists_volume:
  "match_lists bs ss = (bs', ss') \<Longrightarrow> volume bs + volume ss' = volume bs' + volume ss"
proof (induction bs ss rule: match_lists.induct)
  case (3 b bs s ss)
  show ?case
  proof (cases "ord_price b \<ge> ord_price s")
    case True
    then show ?thesis
      using "3.IH" "3.prems" volume_front_after(1) [of b s bs] volume_front_after(2) [of b s ss] by simp
  qed (use "3.prems" in auto)
qed auto

lemma match_lists_uncrossed:
  "match_lists bs ss = (b # bs', s # ss') \<Longrightarrow> ord_price b < ord_price s"
  by (induction bs ss rule: match_lists.induct) (auto split: if_splits)

lemma sweep_market_okey:
  "sweep_market q l xs = (l', ys) \<Longrightarrow> \<exists>us. map okey xs = us @ map okey ys"
proof (induction q l xs rule: sweep_market.induct)
  case (2 q l x xs)
  show ?case
  proof (cases "q \<noteq> 0 \<and> ucast (ord_size x) \<le> q")
    case True
    then obtain us where "map okey xs = us @ map okey ys" using "2.IH" "2.prems" by auto
    then show ?thesis by (intro exI [of _ "okey x # us"]) simp
  next
    case False
    then show ?thesis using "2.prems" by (auto split: if_splits intro!: exI [of _ "[]"])
  qed
qed simp

lemma sweep_market_volume:
  "sweep_market q l xs = (l', ys) \<Longrightarrow> volume xs = volume ys + min (unat q) (volume xs)"
proof (induction q l xs rule: sweep_market.induct)
  case (2 q l x xs)
  consider "q = 0" | "q \<noteq> 0" "ucast (ord_size x) \<le> q" | "q \<noteq> 0" "q < ucast (ord_size x)" by fastforce
  then show ?case
  proof cases
    case 2
    then have "unat (q - ucast (ord_size x)) = unat q - unat (ord_size x)" "unat (ord_size x) \<le> unat q"
      by (simp_all add: unat_sub_le word_le_nat_alt)
    then show ?thesis using "2.IH" [OF \<open>q \<noteq> 0\<close> 2(2)] "2.prems" 2 by simp
  next
    case 3
    have lt: "unat q < unat (ord_size x)" using 3(2) by (simp add: word_less_nat_alt)
    have "unat (ucast (ord_size x) - q) = unat (ord_size x) - unat q"
      using 3(2) by (subst unat_sub_le) auto
    moreover have "unat (ord_size x) - unat q < 2 ^ 32" using unat_bound [of "ord_size x"] by simp
    ultimately have "unat (sub_size (ord_size x) q) = unat (ord_size x) - unat q"
      by (simp add: sub_size_def unsigned_ucast_eq take_bit_nat_eq_self)
    moreover have "\<not> ucast (ord_size x) \<le> q" using 3(2) by simp
    ultimately show ?thesis using "2.prems" 3(1) lt by (auto simp: reduce_def)
  qed (use "2.prems" in auto)
qed simp

lemma sweep_market_last: "sweep_market q l xs = (l', ys) \<Longrightarrow> l' = l \<or> l' \<in> ord_id ` set xs"
  by (induction q l xs rule: sweep_market.induct) (auto split: if_splits)

text \<open>Nothing met means nothing taken.\<close>

lemma sweep_market_none:
  assumes "sweep_market q 0 xs = (0, ys)" "\<forall>x\<in>set xs. 0 < ord_id x"
  shows "ys = xs \<and> (q = 0 \<or> xs = [])"
proof (cases xs)
  case (Cons x zs)
  have "False" if "q \<noteq> 0"
    using that assms Cons sweep_market_last [of "q - ucast (ord_size x)" "ord_id x" zs 0 ys]
    by (auto split: if_splits)
  then have "q = 0" by blast
  then show ?thesis using assms Cons by simp
qed (use assms in simp)

lemma book_okD:
  assumes "book_ok cfg B"
  shows "side_ok BuyOrder_gt (accepts cfg) (next_id B) (bid_q B)"
    "side_ok SellOrder_gt (accepts cfg) (next_id B) (ask_q B)" "0 < next_id B"
  using assms by (auto simp: book_ok_def)

lemma next_id_less: "unat (n :: u64) + 1 < 2 ^ 64 \<Longrightarrow> n < n + 1"
  by (simp add: word_less_nat_alt unat_word_ariths take_bit_nat_eq_self)

lemma unat_next_id: "unat (n :: u64) + 1 < 2 ^ 64 \<Longrightarrow> unat (n + 1) = unat n + 1"
  by (simp add: unat_word_ariths take_bit_nat_eq_self)

lemma match_book_ok:
  assumes "side_ok BuyOrder_gt (accepts cfg) n bs" "side_ok SellOrder_gt (accepts cfg) n ss" "0 < n"
    and "match_lists bs ss = (bs', ss')"
  shows "book_ok cfg \<lparr>bid_q = bs', ask_q = ss', next_id = n\<rparr>"
  using match_lists_okey [OF assms(4)] assms(1-3) buy_priority.side_ok_okey_suffix [of bs _ bs']
    sell_priority.side_ok_okey_suffix [of ss _ ss']
  by (auto simp: book_ok_def)

lemma sorted_front_best:
  "side_ok BuyOrder_gt acc n (b # bs) \<Longrightarrow> x \<in> set (b # bs) \<Longrightarrow> ord_price x \<le> ord_price b"
  "side_ok SellOrder_gt acc n (s # ss) \<Longrightarrow> x \<in> set (s # ss) \<Longrightarrow> ord_price s \<le> ord_price x"
  by (auto simp: side_ok_def BuyOrder_gt_def SellOrder_gt_def split: if_splits)

lemma match_book_uncrossed:
  assumes "book_ok cfg \<lparr>bid_q = bs', ask_q = ss', next_id = n\<rparr>" "match_lists bs ss = (bs', ss')"
  shows "uncrossed_book \<lparr>bid_q = bs', ask_q = ss', next_id = n\<rparr>"
proof (cases "bs' = [] \<or> ss' = []")
  case False
  then obtain b us s vs where eq: "bs' = b # us" "ss' = s # vs" by (auto simp: neq_Nil_conv)
  have "ord_price b < ord_price s" using match_lists_uncrossed assms(2) eq by blast
  then show ?thesis
    using sorted_front_best(1) [of "accepts cfg" n b us] sorted_front_best(2) [of "accepts cfg" n s vs]
      assms(1) unfolding uncrossed_book_def book_ok_def eq by (fastforce intro: order.strict_trans1 order.strict_trans2)
qed (auto simp: uncrossed_book_def)

lemma book_insert_buy_ok:
  assumes "book_ok cfg B" "unat (next_id B) + 1 < 2 ^ 64"
  shows "book_ok cfg (fst (book_insert_buy cfg x B))"
proof (cases "accepts cfg (ord_price x)")
  case True
  let ?x = "x\<lparr>ord_id := next_id B\<rparr>"
  note lt = next_id_less [OF assms(2)] and ok = book_okD [OF assms(1)]
  obtain bs ss where m: "match_lists (place BuyOrder_gt ?x (bid_q B)) (ask_q B) = (bs, ss)" by fastforce
  have "side_ok BuyOrder_gt (accepts cfg) (next_id B + 1) (place BuyOrder_gt ?x (bid_q B))"
    by (rule buy_priority.side_ok_place) (use ok lt True in simp_all)
  moreover have "side_ok SellOrder_gt (accepts cfg) (next_id B + 1) (ask_q B)"
    using sell_priority.side_ok_mono [OF ok(2)] lt by simp
  ultimately have "book_ok cfg \<lparr>bid_q = bs, ask_q = ss, next_id = next_id B + 1\<rparr>"
    using match_book_ok m ok(3) lt by (meson less_trans)
  then show ?thesis using True m by (simp add: book_insert_buy_def)
qed (use assms in \<open>simp add: book_insert_buy_def\<close>)

lemma book_insert_buy_uncrossed:
  assumes "book_ok cfg B" "unat (next_id B) + 1 < 2 ^ 64" "uncrossed_book B"
  shows "uncrossed_book (fst (book_insert_buy cfg x B))"
  using book_insert_buy_ok [OF assms(1,2), of x] assms(3) match_book_uncrossed
  by (fastforce simp: book_insert_buy_def split: prod.splits if_splits)

lemma book_insert_sell_ok:
  assumes "book_ok cfg B" "unat (next_id B) + 1 < 2 ^ 64"
  shows "book_ok cfg (fst (book_insert_sell cfg x B))"
proof (cases "accepts cfg (ord_price x)")
  case True
  let ?x = "x\<lparr>ord_id := next_id B\<rparr>"
  note lt = next_id_less [OF assms(2)] and ok = book_okD [OF assms(1)]
  obtain bs ss where m: "match_lists (bid_q B) (place SellOrder_gt ?x (ask_q B)) = (bs, ss)" by fastforce
  have "side_ok SellOrder_gt (accepts cfg) (next_id B + 1) (place SellOrder_gt ?x (ask_q B))"
    by (rule sell_priority.side_ok_place) (use ok lt True in simp_all)
  moreover have "side_ok BuyOrder_gt (accepts cfg) (next_id B + 1) (bid_q B)"
    using buy_priority.side_ok_mono [OF ok(1)] lt by simp
  ultimately have "book_ok cfg \<lparr>bid_q = bs, ask_q = ss, next_id = next_id B + 1\<rparr>"
    using match_book_ok m ok(3) lt by (meson less_trans)
  then show ?thesis using True m by (simp add: book_insert_sell_def)
qed (use assms in \<open>simp add: book_insert_sell_def\<close>)

lemma book_insert_sell_uncrossed:
  assumes "book_ok cfg B" "unat (next_id B) + 1 < 2 ^ 64" "uncrossed_book B"
  shows "uncrossed_book (fst (book_insert_sell cfg x B))"
  using book_insert_sell_ok [OF assms(1,2), of x] assms(3) match_book_uncrossed
  by (fastforce simp: book_insert_sell_def split: prod.splits if_splits)

lemma okey_suffix_prices:
  assumes "map okey xs = us @ map okey ys"
  shows "ord_price ` set ys \<subseteq> ord_price ` set xs"
proof -
  have eq: "map ord_price zs = map snd (map okey zs)" for zs by (simp add: okey_def)
  have "map ord_price xs = map snd us @ map ord_price ys" unfolding eq assms by simp
  then have "set (map ord_price ys) \<subseteq> set (map ord_price xs)" by simp
  then show ?thesis by simp
qed

lemma sweep_ask_ok:
  assumes "book_ok cfg B" "sweep_market q l (ask_q B) = (l', ss)"
  shows "book_ok cfg (B\<lparr>ask_q := ss\<rparr>)"
  using sweep_market_okey [OF assms(2)] assms(1) sell_priority.side_ok_okey_suffix [of "ask_q B" _ ss]
  by (auto simp: book_ok_def)

lemma sweep_ask_uncrossed:
  assumes "uncrossed_book B" "sweep_market q l (ask_q B) = (l', ss)"
  shows "uncrossed_book (B\<lparr>ask_q := ss\<rparr>)"
proof -
  obtain us where us: "map okey (ask_q B) = us @ map okey ss" using sweep_market_okey [OF assms(2)] by blast
  then show ?thesis using assms(1) okey_suffix_prices [OF us] by (fastforce simp: uncrossed_book_def)
qed

lemma sweep_bid_ok:
  assumes "book_ok cfg B" "sweep_market q l (bid_q B) = (l', bs)"
  shows "book_ok cfg (B\<lparr>bid_q := bs\<rparr>)"
  using sweep_market_okey [OF assms(2)] assms(1) buy_priority.side_ok_okey_suffix [of "bid_q B" _ bs]
  by (auto simp: book_ok_def)

lemma sweep_bid_uncrossed:
  assumes "uncrossed_book B" "sweep_market q l (bid_q B) = (l', bs)"
  shows "uncrossed_book (B\<lparr>bid_q := bs\<rparr>)"
proof -
  obtain us where us: "map okey (bid_q B) = us @ map okey bs" using sweep_market_okey [OF assms(2)] by blast
  then show ?thesis using assms(1) okey_suffix_prices [OF us] by (fastforce simp: uncrossed_book_def)
qed

lemma book_cancel_buy_ok: "book_ok cfg B \<Longrightarrow> book_ok cfg (fst (book_cancel_buy i B))"
  using buy_priority.side_ok_without by (auto simp: book_cancel_buy_def book_ok_def)

lemma book_cancel_sell_ok: "book_ok cfg B \<Longrightarrow> book_ok cfg (fst (book_cancel_sell i B))"
  using sell_priority.side_ok_without by (auto simp: book_cancel_sell_def book_ok_def)

text \<open>The six operations as one type, and runs of them.\<close>

datatype book_op =
    Insert_buy BuyOrder | Insert_sell SellOrder | Cancel_buy u64 | Cancel_sell u64
  | Market_buy BuyOrder | Market_sell SellOrder

fun book_apply :: "market_cfg \<Rightarrow> book_op \<Rightarrow> limit_book \<Rightarrow> limit_book \<times> u64" where
  "book_apply cfg (Insert_buy x) B = book_insert_buy cfg x B"
| "book_apply cfg (Insert_sell x) B = book_insert_sell cfg x B"
| "book_apply cfg (Cancel_buy i) B = book_cancel_buy i B"
| "book_apply cfg (Cancel_sell i) B = book_cancel_sell i B"
| "book_apply cfg (Market_buy x) B = book_market_buy cfg x B"
| "book_apply cfg (Market_sell x) B = book_market_sell cfg x B"

fun book_run :: "market_cfg \<Rightarrow> book_op list \<Rightarrow> limit_book \<Rightarrow> limit_book \<times> (u64 \<times> order \<times> order) list" where
  "book_run cfg [] B = (B, [])"
| "book_run cfg (op # ops) B =
     (case book_apply cfg op B of (B', r) \<Rightarrow> case book_run cfg ops B' of (B'', rs) \<Rightarrow> (B'', (r, book_top B') # rs))"

lemma book_apply_ok:
  assumes "book_ok cfg B" "unat (next_id B) + 1 < 2 ^ 64"
  shows "book_ok cfg (fst (book_apply cfg op B))"
proof (cases op)
  case (Market_buy x)
  then show ?thesis
    using assms sweep_ask_ok [OF assms(1)] book_insert_buy_ok
    by (auto simp: book_market_buy_def split: prod.splits)
next
  case (Market_sell x)
  then show ?thesis
    using assms sweep_bid_ok [OF assms(1)] book_insert_sell_ok
    by (auto simp: book_market_sell_def split: prod.splits)
qed (use assms in \<open>simp_all add: book_insert_buy_ok book_insert_sell_ok book_cancel_buy_ok book_cancel_sell_ok\<close>)

lemma book_apply_uncrossed:
  assumes "book_ok cfg B" "unat (next_id B) + 1 < 2 ^ 64" "uncrossed_book B"
  shows "uncrossed_book (fst (book_apply cfg op B))"
proof (cases op)
  case (Market_buy x)
  then show ?thesis
    using assms sweep_ask_ok [OF assms(1)] sweep_ask_uncrossed [OF assms(3)] book_insert_buy_uncrossed
    by (auto simp: book_market_buy_def split: prod.splits)
next
  case (Market_sell x)
  then show ?thesis
    using assms sweep_bid_ok [OF assms(1)] sweep_bid_uncrossed [OF assms(3)] book_insert_sell_uncrossed
    by (auto simp: book_market_sell_def split: prod.splits)
next
  case (Cancel_buy i)
  then show ?thesis using assms(3) by (auto simp: book_cancel_buy_def uncrossed_book_def without_def)
next
  case (Cancel_sell i)
  then show ?thesis using assms(3) by (auto simp: book_cancel_sell_def uncrossed_book_def without_def)
qed (use assms in \<open>simp_all add: book_insert_buy_uncrossed book_insert_sell_uncrossed\<close>)

lemma next_id_book_apply: "next_id (fst (book_apply cfg op B)) = next_id B \<or> next_id (fst (book_apply cfg op B)) = next_id B + 1"
  by (cases op)
    (auto simp: book_insert_buy_def book_insert_sell_def book_cancel_buy_def book_cancel_sell_def
      book_market_buy_def book_market_sell_def split: prod.splits)

section \<open>The interface\<close>

text \<open>
  \<open>rep s B\<close>: the implementation state \<open>s\<close> represents the abstract book \<open>B\<close>. The operations return
  \<open>None\<close> when they meet undefined behaviour or do not return. The bound on \<open>next_id\<close> says that the
  64-bit counter does not wrap around in this call.
\<close>

locale order_book =
  fixes cfg :: market_cfg
    and rep :: "'s \<Rightarrow> limit_book \<Rightarrow> bool"
    and insert_buy :: "BuyOrder \<Rightarrow> 's \<Rightarrow> ('s \<times> u64) option"
    and insert_sell :: "SellOrder \<Rightarrow> 's \<Rightarrow> ('s \<times> u64) option"
    and cancel_buy :: "u64 \<Rightarrow> 's \<Rightarrow> ('s \<times> u64) option"
    and cancel_sell :: "u64 \<Rightarrow> 's \<Rightarrow> ('s \<times> u64) option"
    and market_buy :: "BuyOrder \<Rightarrow> 's \<Rightarrow> ('s \<times> u64) option"
    and market_sell :: "SellOrder \<Rightarrow> 's \<Rightarrow> ('s \<times> u64) option"
    and top :: "'s \<Rightarrow> (BuyOrder \<times> SellOrder) option"
  assumes rep_ok: "rep s B \<Longrightarrow> book_ok cfg B"
    and insert_buy_ok: "rep s B \<Longrightarrow> unat (next_id B) + 1 < 2 ^ 64 \<Longrightarrow>
      \<exists>s'. insert_buy x s = Some (s', snd (book_insert_buy cfg x B)) \<and> rep s' (fst (book_insert_buy cfg x B))"
    and insert_sell_ok: "rep s B \<Longrightarrow> unat (next_id B) + 1 < 2 ^ 64 \<Longrightarrow>
      \<exists>s'. insert_sell x s = Some (s', snd (book_insert_sell cfg x B)) \<and> rep s' (fst (book_insert_sell cfg x B))"
    and cancel_buy_ok: "rep s B \<Longrightarrow>
      \<exists>s'. cancel_buy i s = Some (s', snd (book_cancel_buy i B)) \<and> rep s' (fst (book_cancel_buy i B))"
    and cancel_sell_ok: "rep s B \<Longrightarrow>
      \<exists>s'. cancel_sell i s = Some (s', snd (book_cancel_sell i B)) \<and> rep s' (fst (book_cancel_sell i B))"
    and market_buy_ok: "rep s B \<Longrightarrow> unat (next_id B) + 1 < 2 ^ 64 \<Longrightarrow>
      \<exists>s'. market_buy x s = Some (s', snd (book_market_buy cfg x B)) \<and> rep s' (fst (book_market_buy cfg x B))"
    and market_sell_ok: "rep s B \<Longrightarrow> unat (next_id B) + 1 < 2 ^ 64 \<Longrightarrow>
      \<exists>s'. market_sell x s = Some (s', snd (book_market_sell cfg x B)) \<and> rep s' (fst (book_market_sell cfg x B))"
    and top_ok: "rep s B \<Longrightarrow> top s = Some (book_top B)"
begin

fun apply_op :: "book_op \<Rightarrow> 's \<Rightarrow> ('s \<times> u64) option" where
  "apply_op (Insert_buy x) s = insert_buy x s"
| "apply_op (Insert_sell x) s = insert_sell x s"
| "apply_op (Cancel_buy i) s = cancel_buy i s"
| "apply_op (Cancel_sell i) s = cancel_sell i s"
| "apply_op (Market_buy x) s = market_buy x s"
| "apply_op (Market_sell x) s = market_sell x s"

text \<open>Run a sequence of operations, recording each result and the top of the book after it.\<close>

fun run_ops :: "book_op list \<Rightarrow> 's \<Rightarrow> ('s \<times> (u64 \<times> order \<times> order) list) option" where
  "run_ops [] s = Some (s, [])"
| "run_ops (op # ops) s = do {
     (s, r) \<leftarrow> apply_op op s;
     t \<leftarrow> top s;
     (s, rs) \<leftarrow> run_ops ops s;
     Some (s, (r, t) # rs) }"

lemma apply_op_ok:
  assumes "rep s B" "unat (next_id B) + 1 < 2 ^ 64"
  shows "\<exists>s'. apply_op op s = Some (s', snd (book_apply cfg op B)) \<and> rep s' (fst (book_apply cfg op B))"
  using assms
  by (cases op) (simp_all add: insert_buy_ok insert_sell_ok cancel_buy_ok cancel_sell_ok market_buy_ok market_sell_ok)

lemma run_ops_ok:
  assumes "rep s B" "unat (next_id B) + length ops < 2 ^ 64"
  shows "\<exists>s'. run_ops ops s = Some (s', snd (book_run cfg ops B)) \<and> rep s' (fst (book_run cfg ops B))"
  using assms
proof (induction ops arbitrary: s B)
  case (Cons op ops)
  obtain B' r where ap: "book_apply cfg op B = (B', r)" by fastforce
  obtain s' where s': "apply_op op s = Some (s', r)" "rep s' B'"
    using apply_op_ok [of s B op] Cons.prems ap by auto
  have "unat (next_id B') \<le> unat (next_id B) + 1"
    using next_id_book_apply [of cfg op B] Cons.prems(2) ap by (auto simp: unat_next_id)
  then have "\<exists>s''. run_ops ops s' = Some (s'', snd (book_run cfg ops B')) \<and> rep s'' (fst (book_run cfg ops B'))"
    using Cons.IH [OF s'(2)] Cons.prems(2) by simp
  then show ?case using ap s' top_ok [OF s'(2)] by (auto split: prod.splits)
qed simp

lemma run_ops_inv:
  assumes "rep s B" "unat (next_id B) + length ops < 2 ^ 64" "uncrossed_book B" "run_ops ops s = Some (s', rs)"
  shows "\<exists>B'. rep s' B' \<and> book_ok cfg B' \<and> uncrossed_book B'"
  using assms
proof (induction ops arbitrary: s B rs)
  case Nil
  then show ?case using rep_ok by auto
next
  case (Cons op ops)
  obtain B' r where ap: "book_apply cfg op B = (B', r)" by fastforce
  obtain s1 where s1: "apply_op op s = Some (s1, r)" "rep s1 B'"
    using apply_op_ok [of s B op] Cons.prems ap by auto
  have "unat (next_id B') \<le> unat (next_id B) + 1"
    using next_id_book_apply [of cfg op B] Cons.prems(2) ap by (auto simp: unat_next_id)
  moreover have "uncrossed_book B'"
    using book_apply_uncrossed [OF rep_ok [OF Cons.prems(1)], of op] Cons.prems(2,3) ap by simp
  moreover obtain rs' where "run_ops ops s1 = Some (s', rs')"
    using Cons.prems(4) s1 by (auto simp: bind_Some_iff split: prod.splits)
  ultimately show ?case using Cons.IH [OF s1(2)] Cons.prems(2) by simp
qed

end

end
