(* ===== verification/Block_Heap.thy ===== *)
theory Block_Heap
  imports Limit_Book Intrusive_List
begin

text \<open>
  The heap of the pointer-based books of \<open>4_order_book_proj/data_structure_bench\<close>.

  \<open>BuyBlock\<close> and \<open>SellBlock\<close> of \<open>base.hpp\<close> are \<open>order_block\<close>s; each side of a book has its own typed
  heap, since a pointer to one class never points to an object of the other. \<open>new\<close> is the choice of
  an address by the allocator for a set of live addresses; \<open>fresh_alloc\<close> is what is relied on.
  Reading, writing or deleting an address that is not live is undefined. \<open>heap_rep\<close> ties the index
  of a side (identifier to block) to its heap.
\<close>

record order_block =
  ob_order :: order
  ob_next :: "addr option"
  ob_prev :: "addr option"

type_synonym block_heap = "addr \<rightharpoonup> order_block"

definition heap_ops :: "(block_heap, order_block) node_ops" where
  "heap_ops = \<lparr>load_node = (\<lambda>h a. h a), save_node = (\<lambda>h a n. if a \<in> dom h then Some (h(a \<mapsto> n)) else None),
     get_next = ob_next, set_next = (\<lambda>v n. n\<lparr>ob_next := v\<rparr>),
     get_prev = ob_prev, set_prev = (\<lambda>v n. n\<lparr>ob_prev := v\<rparr>)\<rparr>"

definition new_block :: "(addr set \<Rightarrow> addr) \<Rightarrow> order \<Rightarrow> block_heap \<Rightarrow> addr \<times> block_heap" where
  "new_block new x h =
     (let a = new (dom h) in (a, h(a \<mapsto> \<lparr>ob_order = x, ob_next = None, ob_prev = None\<rparr>)))"

definition delete_block :: "addr \<Rightarrow> block_heap \<Rightarrow> block_heap option" where
  "delete_block a h = (if a \<in> dom h then Some (h(a := None)) else None)"

definition write_order :: "addr \<Rightarrow> order \<Rightarrow> block_heap \<Rightarrow> block_heap option" where
  "write_order a x h = do { n \<leftarrow> h a; Some (h(a \<mapsto> n\<lparr>ob_order := x\<rparr>)) }"

definition fresh_alloc :: "(addr set \<Rightarrow> addr) \<Rightarrow> bool" where
  "fresh_alloc new \<longleftrightarrow> (\<forall>A. finite A \<longrightarrow> new A \<notin> A)"

text \<open>\<open>while (cur) { nxt = cur->next; delete cur; cur = nxt; }\<close>, the loop of the destructors.\<close>

partial_function (option) free_chain :: "block_heap \<Rightarrow> addr option \<Rightarrow> block_heap option" where
  "free_chain h cur =
     (if cur = None then Some h
      else do { p \<leftarrow> cur; n \<leftarrow> h p; h \<leftarrow> delete_block p h; free_chain h (ob_next n) })"

lemma heap_ops_sel [simp]:
  "load_node heap_ops h = h" "get_next heap_ops = ob_next" "get_prev heap_ops = ob_prev"
  "save_node heap_ops h a n = (if a \<in> dom h then Some (h(a \<mapsto> n)) else None)"
  "set_next heap_ops v n = n\<lparr>ob_next := v\<rparr>" "set_prev heap_ops v n = n\<lparr>ob_prev := v\<rparr>"
  by (simp_all add: heap_ops_def fun_eq_iff)

interpretation blocks: linked_nodes heap_ops ob_order "\<lambda>h h'. dom h = dom h'"
  by unfold_locales (auto split: if_splits)

text \<open>The orders at the addresses of a heap.\<close>

definition ord_at :: "block_heap \<Rightarrow> addr \<Rightarrow> order option" where
  "ord_at h a = map_option ob_order (h a)"

lemma ord_at_SomeD: "ord_at h a = Some x \<Longrightarrow> \<exists>n. h a = Some n \<and> ob_order n = x"
  by (auto simp: ord_at_def)

lemma ord_at_dom: "ord_at h a = None \<longleftrightarrow> a \<notin> dom h"
  by (auto simp: ord_at_def)

lemma ord_at_upd [simp]: "ord_at (h(a \<mapsto> n)) = (ord_at h)(a \<mapsto> ob_order n)"
  "ord_at (h(a := None)) = (ord_at h)(a := None)"
  by (auto simp: ord_at_def)

lemma map_ord_at_ids:
  assumes "map (ord_at h) ps = map Some xs"
  shows "map (\<lambda>p. ord_id (the (ord_at h p))) ps = map ord_id xs"
proof -
  have "map (\<lambda>p. ord_id (the (ord_at h p))) ps = map (\<lambda>y. ord_id (the y)) (map (ord_at h) ps)" by simp
  then show ?thesis unfolding assms by simp
qed

text \<open>The index maps exactly the identifiers of the live blocks to their blocks.\<close>

definition index_ok :: "(u64 \<rightharpoonup> addr) \<Rightarrow> block_heap \<Rightarrow> bool" where
  "index_ok ix h \<longleftrightarrow> (\<forall>i p. ix i = Some p \<longleftrightarrow> (\<exists>x. ord_at h p = Some x \<and> ord_id x = i))"

lemma index_ok_cong: "ord_at h' = ord_at h \<Longrightarrow> index_ok ix h' = index_ok ix h"
  by (simp add: index_ok_def)

lemma index_ok_delete:
  assumes "index_ok ix h" "ord_at h p = Some x"
  shows "index_ok (ix(ord_id x := None)) (h(p := None))"
proof -
  have ix: "ix i = Some q \<longleftrightarrow> (\<exists>x. ord_at h q = Some x \<and> ord_id x = i)" for i q
    using assms(1) by (simp add: index_ok_def)
  have "ix (ord_id x) = Some p" using ix assms(2) by blast
  then have uniq: "q = p" if "ord_at h q = Some y" "ord_id y = ord_id x" for q y
    using ix [of "ord_id x" q] that by auto
  show ?thesis
    unfolding index_ok_def
  proof (intro allI)
    fix i q
    show "(ix(ord_id x := None)) i = Some q \<longleftrightarrow> (\<exists>y. ord_at (h(p := None)) q = Some y \<and> ord_id y = i)"
    proof (cases "q = p")
      case True
      then show ?thesis using ix [of i p] assms(2) by auto
    next
      case False
      then have "\<not> (ord_at h q = Some y \<and> ord_id y = ord_id x)" for y using uniq by blast
      then show ?thesis using ix [of i q] False by auto
    qed
  qed
qed

lemma index_ok_write:
  assumes "index_ok ix h" "ord_at h p = Some x" "ord_id y = ord_id x" "ord_at h' = (ord_at h)(p \<mapsto> y)"
  shows "index_ok ix h'"
  using assms by (auto simp: index_ok_def split: if_splits)

lemma index_ok_new:
  assumes "index_ok ix h" "p \<notin> dom h" "ix (ord_id x) = None" "ord_at h' = (ord_at h)(p \<mapsto> x)"
  shows "index_ok (ix(ord_id x \<mapsto> p)) h'"
proof -
  have "ord_at h p = None" using assms(2) by (simp add: ord_at_dom)
  then show ?thesis using assms(1,3,4) by (auto simp: index_ok_def) (metis option.distinct(1))+
qed

lemma index_None:
  assumes "map (ord_at h) ps = map Some xs" "dom h = set ps" "index_ok ix h"
  shows "ix i = None \<longleftrightarrow> i \<notin> ord_id ` set xs"
proof -
  have "ord_at h ` set ps = Some ` set xs" using assms(1) by (metis list.set_map)
  moreover have "p \<in> set ps" if "ord_at h p = Some y" for p y using that assms(2) by (auto simp: ord_at_def)
  ultimately have "(\<exists>p y. ord_at h p = Some y \<and> ord_id y = i) \<longleftrightarrow> i \<in> ord_id ` set xs"
    by (auto simp: image_iff set_eq_iff) (metis option.inject)+
  moreover have "ix i \<noteq> None \<longleftrightarrow> (\<exists>p y. ord_at h p = Some y \<and> ord_id y = i)"
    using assms(3) by (simp add: index_ok_def)
  ultimately show ?thesis by blast
qed

lemma index_Some:
  assumes "map (ord_at h) ps = map Some xs" "dom h = set ps" "index_ok ix h" "ix i = Some p"
  obtains as bs us x vs where "ps = as @ p # bs" "xs = us @ x # vs" "ord_id x = i" "ord_at h p = Some x"
    "map (ord_at h) as = map Some us" "map (ord_at h) bs = map Some vs"
proof -
  obtain x where x: "ord_at h p = Some x" "ord_id x = i" using assms(3,4) by (auto simp: index_ok_def)
  then have "p \<in> set ps" using assms(2) by (auto simp: ord_at_def)
  then obtain as bs where ps: "ps = as @ p # bs" by (auto simp: in_set_conv_decomp)
  then obtain us vs where "xs = us @ x # vs" "map (ord_at h) as = map Some us" "map (ord_at h) bs = map Some vs"
    using assms(1) x(1) by (auto simp: append_eq_map_conv Cons_eq_map_conv)
  then show ?thesis using that ps x by blast
qed

lemma free_chain_ok:
  "dll heap_ops h q ps None \<Longrightarrow> distinct ps \<Longrightarrow> free_chain h (head_opt ps) = Some (h |` (- set ps))"
proof (induction ps arbitrary: h q)
  case Nil
  then show ?case by (subst free_chain.simps) (simp add: restrict_map_def)
next
  case (Cons p ps)
  then obtain n where n: "h p = Some n" "ob_next n = head_opt ps" by (auto split: if_splits)
  have "dll heap_ops (h(p := None)) (Some p) ps None"
    using Cons.prems by (subst dll_cong [of _ _ h]) auto
  then have "free_chain (h(p := None)) (head_opt ps) = Some ((h(p := None)) |` (- set ps))"
    by (rule Cons.IH) (use Cons.prems(2) in simp)
  moreover have "(h(p := None)) |` (- set ps) = h |` (- set (p # ps))" by (auto simp: restrict_map_def fun_eq_iff)
  ultimately show ?case using n by (subst free_chain.simps) (auto simp: delete_block_def)
qed

end
