(* ===== verification/Sorted_Vector_Book.thy ===== *)
theory Sorted_Vector_Book
  imports Limit_Book
begin

text \<open>
  The order book on sorted vectors of
  \<open>4_order_book_proj/data_structure_bench/sorted_vector_str.{hpp,cpp}\<close>.

  Each side is a vector with the best order at the back. \<open>std::lower_bound\<close> returns the partition
  point of a range that is partitioned by the comparison; the lemmas show that the vectors are.
  The book is an \<open>order_book\<close>: the interpretation \<open>sv\<close> discharges the contract.
\<close>

record OrderBook_SortedVector =
  sv_buy_book :: "BuyOrder list"
  sv_sell_book :: "SellOrder list"
  sv_counter :: u64

definition sv_new :: OrderBook_SortedVector where
  "sv_new = \<lparr>sv_buy_book = [], sv_sell_book = [], sv_counter = 1\<rparr>"

definition lower_bound :: "(order \<Rightarrow> order \<Rightarrow> bool) \<Rightarrow> order list \<Rightarrow> order \<Rightarrow> nat" where
  "lower_bound lt xs x = length (takeWhile (\<lambda>y. lt y x) xs)"

definition vec_insert :: "nat \<Rightarrow> order \<Rightarrow> order list \<Rightarrow> order list" where
  "vec_insert i x xs = take i xs @ x # drop i xs"

definition set_back :: "order \<Rightarrow> order list \<Rightarrow> order list" where
  "set_back x xs = xs[length xs - 1 := x]"

lemma set_back_snoc [simp]: "set_back x (xs @ [y]) = xs @ [x]"
  by (simp add: set_back_def)

lemma sv_match_measure:
  assumes "buy \<noteq> []" "sell \<noteq> []"
  shows "length (if ord_size (last (set_back (reduce (fill_of (last buy) (last sell)) (last buy)) buy)) = 0
          then butlast (set_back (reduce (fill_of (last buy) (last sell)) (last buy)) buy)
          else set_back (reduce (fill_of (last buy) (last sell)) (last buy)) buy) +
    length (if ord_size (last (set_back (reduce (fill_of (last buy) (last sell)) (last sell)) sell)) = 0
          then butlast (set_back (reduce (fill_of (last buy) (last sell)) (last sell)) sell)
          else set_back (reduce (fill_of (last buy) (last sell)) (last sell)) sell)
    < length buy + length sell"
proof -
  obtain bs b ss a where "buy = bs @ [b]" "sell = ss @ [a]" using assms by (metis rev_exhaust)
  then show ?thesis by (auto simp: ord_size_reduce_min min_def)
qed

text \<open>The matching loop; the flag is the local \<open>res\<close>.\<close>

function sv_match_loop :: "bool \<Rightarrow> OrderBook_SortedVector \<Rightarrow> OrderBook_SortedVector \<times> bool" where
  "sv_match_loop res s =
     (if sv_buy_book s \<noteq> [] \<and> sv_sell_book s \<noteq> [] \<and>
         ord_price (last (sv_buy_book s)) \<ge> ord_price (last (sv_sell_book s))
      then
        let b = last (sv_buy_book s);
            a = last (sv_sell_book s);
            fill = fill_of b a;
            buy = set_back (reduce fill b) (sv_buy_book s);
            sell = set_back (reduce fill a) (sv_sell_book s);
            pop_b = (ord_size (last buy) = 0);
            pop_s = (ord_size (last sell) = 0);
            buy = (if pop_b then butlast buy else buy);
            sell = (if pop_s then butlast sell else sell)
        in sv_match_loop True (s\<lparr>sv_buy_book := buy, sv_sell_book := sell\<rparr>)
      else (s, res))"
  by pat_completeness auto
termination
  by (relation "measure (\<lambda>(_, s). length (sv_buy_book s) + length (sv_sell_book s))")
    (auto intro: sv_match_measure split del: if_split)

declare sv_match_loop.simps [simp del]

definition sv_match :: "OrderBook_SortedVector \<Rightarrow> OrderBook_SortedVector \<times> bool" where
  "sv_match s = sv_match_loop False s"

definition sv_insert_buy_order :: "BuyOrder \<Rightarrow> OrderBook_SortedVector \<Rightarrow> OrderBook_SortedVector \<times> u64" where
  "sv_insert_buy_order x s =
     (let s = s\<lparr>sv_counter := sv_counter s + 1\<rparr>;
          x = x\<lparr>ord_id := sv_counter s\<rparr>;
          i = lower_bound BuyOrder_lt (sv_buy_book s) x;
          s = s\<lparr>sv_buy_book := vec_insert i x (sv_buy_book s)\<rparr>;
          (s, _) = sv_match s
      in (s, sv_counter s))"

definition sv_insert_sell_order :: "SellOrder \<Rightarrow> OrderBook_SortedVector \<Rightarrow> OrderBook_SortedVector \<times> u64" where
  "sv_insert_sell_order x s =
     (let s = s\<lparr>sv_counter := sv_counter s + 1\<rparr>;
          x = x\<lparr>ord_id := sv_counter s\<rparr>;
          i = lower_bound SellOrder_lt (sv_sell_book s) x;
          s = s\<lparr>sv_sell_book := vec_insert i x (sv_sell_book s)\<rparr>;
          (s, _) = sv_match s
      in (s, sv_counter s))"

text \<open>\<open>find_if\<close>: the position of the first order with the identifier, the length if there is none.\<close>

definition find_id :: "u64 \<Rightarrow> order list \<Rightarrow> nat" where
  "find_id i xs = length (takeWhile (\<lambda>x. ord_id x \<noteq> i) xs)"

definition vec_erase :: "nat \<Rightarrow> order list \<Rightarrow> order list" where
  "vec_erase i xs = take i xs @ drop (Suc i) xs"

definition sv_cancel_buy_order :: "u64 \<Rightarrow> OrderBook_SortedVector \<Rightarrow> OrderBook_SortedVector \<times> u64" where
  "sv_cancel_buy_order i s =
     (let it = find_id i (sv_buy_book s)
      in if it = length (sv_buy_book s) then (s, 0)
         else (s\<lparr>sv_buy_book := vec_erase it (sv_buy_book s)\<rparr>, i))"

definition sv_cancel_sell_order :: "u64 \<Rightarrow> OrderBook_SortedVector \<Rightarrow> OrderBook_SortedVector \<times> u64" where
  "sv_cancel_sell_order i s =
     (let it = find_id i (sv_sell_book s)
      in if it = length (sv_sell_book s) then (s, 0)
         else (s\<lparr>sv_sell_book := vec_erase it (sv_sell_book s)\<rparr>, i))"

text \<open>The loop of the two market operations over the opposite vector.\<close>

function sv_sweep :: "u64 \<Rightarrow> u64 \<Rightarrow> order list \<Rightarrow> u64 \<times> order list" where
  "sv_sweep remaining last_id xs =
     (if 0 < remaining \<and> xs \<noteq> []
      then
        let best = last xs;
            last_id = ord_id best
        in if ucast (ord_size best) \<le> remaining
           then sv_sweep (remaining - ucast (ord_size best)) last_id (butlast xs)
           else sv_sweep 0 last_id (set_back (reduce remaining best) xs)
      else (last_id, xs))"
  by pat_completeness auto
termination
  by (relation "measures [\<lambda>(_, _, xs). length xs, \<lambda>(r, _, _). unat r]")
    (auto simp: set_back_def unat_gt_0 word_gt_0)

declare sv_sweep.simps [simp del]

definition sv_market_buy_order :: "BuyOrder \<Rightarrow> OrderBook_SortedVector \<Rightarrow> OrderBook_SortedVector \<times> u64" where
  "sv_market_buy_order x s =
     (let (last_id, sell) = sv_sweep (ucast (ord_size x)) 0 (sv_sell_book s);
          s = s\<lparr>sv_sell_book := sell\<rparr>
      in if last_id = 0 then sv_insert_buy_order (x\<lparr>ord_price := - 1\<rparr>) s else (s, last_id))"

definition sv_market_sell_order :: "SellOrder \<Rightarrow> OrderBook_SortedVector \<Rightarrow> OrderBook_SortedVector \<times> u64" where
  "sv_market_sell_order x s =
     (let (last_id, buy) = sv_sweep (ucast (ord_size x)) 0 (sv_buy_book s);
          s = s\<lparr>sv_buy_book := buy\<rparr>
      in if last_id = 0 then sv_insert_sell_order (x\<lparr>ord_price := 0\<rparr>) s else (s, last_id))"

definition sv_top_of_book :: "OrderBook_SortedVector \<Rightarrow> BuyOrder \<times> SellOrder" where
  "sv_top_of_book s =
     ((if sv_buy_book s = [] then order_default else last (sv_buy_book s)),
      (if sv_sell_book s = [] then order_default else last (sv_sell_book s)))"

section \<open>The vectors represent the abstract book\<close>

definition unbounded_cfg :: market_cfg where
  "unbounded_cfg = \<lparr>accepts = (\<lambda>_. True), top_price = - 1, bottom_price = 0\<rparr>"

definition sv_abs :: "OrderBook_SortedVector \<Rightarrow> limit_book" where
  "sv_abs s = \<lparr>bid_q = rev (sv_buy_book s), ask_q = rev (sv_sell_book s), next_id = sv_counter s + 1\<rparr>"

definition sv_rep :: "OrderBook_SortedVector \<Rightarrow> limit_book \<Rightarrow> bool" where
  "sv_rep s B \<longleftrightarrow> B = sv_abs s \<and> book_ok unbounded_cfg B"

lemma lt_is_gt: "BuyOrder_lt = (\<lambda>x y. BuyOrder_gt y x)" "SellOrder_lt = (\<lambda>x y. SellOrder_gt y x)"
  by (auto simp: fun_eq_iff BuyOrder_lt_def BuyOrder_gt_def SellOrder_lt_def SellOrder_gt_def)

lemma sv_match_loop_ok:
  "match_lists (rev (sv_buy_book s)) (rev (sv_sell_book s)) = (bs, ss) \<Longrightarrow>
   fst (sv_match_loop res s) = s\<lparr>sv_buy_book := rev bs, sv_sell_book := rev ss\<rparr>"
proof (induction "length (sv_buy_book s) + length (sv_sell_book s)" arbitrary: s res rule: less_induct)
  case less
  show ?case
  proof (cases "sv_buy_book s \<noteq> [] \<and> sv_sell_book s \<noteq> [] \<and>
         ord_price (last (sv_buy_book s)) \<ge> ord_price (last (sv_sell_book s))")
    case False
    have "match_lists (rev (sv_buy_book s)) (rev (sv_sell_book s)) = (rev (sv_buy_book s), rev (sv_sell_book s))"
      using False by (cases "sv_buy_book s" rule: rev_cases; cases "sv_sell_book s" rule: rev_cases) auto
    then show ?thesis using less.prems False by (subst sv_match_loop.simps) auto
  next
    case True
    then obtain us b vs a where eq: "sv_buy_book s = us @ [b]" "sv_sell_book s = vs @ [a]"
      by (metis rev_exhaust)
    let ?f = "fill_of b a"
    let ?s = "s\<lparr>sv_buy_book := rev (front_after ?f b (rev us)), sv_sell_book := rev (front_after ?f a (rev vs))\<rparr>"
    have step: "sv_match_loop res s = sv_match_loop True ?s"
      using True by (subst sv_match_loop.simps) (simp add: eq Let_def front_after_def)
    have IH: "fst (sv_match_loop True ?s) = ?s\<lparr>sv_buy_book := rev bs, sv_sell_book := rev ss\<rparr>"
      by (rule less.hyps) (use less.prems True front_after_shrinks [of b a "rev us" "rev vs"] in \<open>simp_all add: eq\<close>)
    then show ?thesis by (simp add: step)
  qed
qed

lemma vec_insert_place:
  assumes "priority gt" "side_ok gt acc n (rev xs)" "ord_id x = n"
  shows "rev (vec_insert (lower_bound (\<lambda>y x. gt x y) xs x) x xs) = place gt x (rev xs)"
proof -
  let ?d = "dropWhile (\<lambda>y. gt y x) (rev xs)" and ?t = "takeWhile (\<lambda>y. gt y x) (rev xs)"
  have "sorted_wrt gt (rev xs)" "\<forall>y\<in>set (rev xs). ord_id y \<noteq> ord_id x"
    using assms(2,3) by (auto simp: side_ok_def)
  from priority.takeWhile_rev_place [OF assms(1) this]
  have i: "lower_bound (\<lambda>y x. gt x y) xs x = length ?d" by (simp add: lower_bound_def)
  have "rev xs = ?t @ ?d" by simp
  then have "xs = rev ?d @ rev ?t" by (metis rev_append rev_rev_ident)
  then have "take (length ?d) xs = rev ?d" "drop (length ?d) xs = rev ?t"
    by (metis append_eq_conv_conj length_rev)+
  then show ?thesis by (simp add: vec_insert_def i place_def)
qed

lemma sv_insert_buy_ok:
  assumes rep: "sv_rep s B" and n: "unat (next_id B) + 1 < 2 ^ 64"
  shows "\<exists>s'. Some (sv_insert_buy_order x s) = Some (s', snd (book_insert_buy unbounded_cfg x B)) \<and>
    sv_rep s' (fst (book_insert_buy unbounded_cfg x B))"
proof -
  have B: "B = sv_abs s" and ok: "book_ok unbounded_cfg B" using rep by (auto simp: sv_rep_def)
  let ?x = "x\<lparr>ord_id := next_id B\<rparr>"
  obtain bs ss where m: "match_lists (place BuyOrder_gt ?x (bid_q B)) (ask_q B) = (bs, ss)" by fastforce
  have spec: "book_insert_buy unbounded_cfg x B = (\<lparr>bid_q = bs, ask_q = ss, next_id = next_id B + 1\<rparr>, next_id B)"
    using m by (simp add: book_insert_buy_def unbounded_cfg_def)
  let ?v = "vec_insert (lower_bound BuyOrder_lt (sv_buy_book s) ?x) ?x (sv_buy_book s)"
  let ?s1 = "s\<lparr>sv_counter := sv_counter s + 1, sv_buy_book := ?v\<rparr>"
  have v: "rev ?v = place BuyOrder_gt ?x (bid_q B)"
    using vec_insert_place [OF buy_priority.priority_axioms, of _ "next_id B" "sv_buy_book s" ?x] book_okD(1) [OF ok]
    by (simp add: B sv_abs_def lt_is_gt)
  have "rev (sv_sell_book s) = ask_q B" by (simp add: B sv_abs_def)
  then have "fst (sv_match ?s1) = ?s1\<lparr>sv_buy_book := rev bs, sv_sell_book := rev ss\<rparr>"
    unfolding sv_match_def by (intro sv_match_loop_ok) (simp add: v m)
  then obtain r where "sv_match ?s1 = (?s1\<lparr>sv_buy_book := rev bs, sv_sell_book := rev ss\<rparr>, r)"
    by (metis prod.collapse)
  then have "sv_insert_buy_order x s =
      (s\<lparr>sv_counter := next_id B, sv_buy_book := rev bs, sv_sell_book := rev ss\<rparr>, next_id B)"
    by (simp add: sv_insert_buy_order_def Let_def B sv_abs_def)
  moreover have "book_ok unbounded_cfg (fst (book_insert_buy unbounded_cfg x B))"
    using book_insert_buy_ok [OF ok n] by simp
  ultimately show ?thesis by (simp add: spec sv_rep_def sv_abs_def)
qed

lemma sv_insert_sell_ok:
  assumes rep: "sv_rep s B" and n: "unat (next_id B) + 1 < 2 ^ 64"
  shows "\<exists>s'. Some (sv_insert_sell_order x s) = Some (s', snd (book_insert_sell unbounded_cfg x B)) \<and>
    sv_rep s' (fst (book_insert_sell unbounded_cfg x B))"
proof -
  have B: "B = sv_abs s" and ok: "book_ok unbounded_cfg B" using rep by (auto simp: sv_rep_def)
  let ?x = "x\<lparr>ord_id := next_id B\<rparr>"
  obtain bs ss where m: "match_lists (bid_q B) (place SellOrder_gt ?x (ask_q B)) = (bs, ss)" by fastforce
  have spec: "book_insert_sell unbounded_cfg x B = (\<lparr>bid_q = bs, ask_q = ss, next_id = next_id B + 1\<rparr>, next_id B)"
    using m by (simp add: book_insert_sell_def unbounded_cfg_def)
  let ?v = "vec_insert (lower_bound SellOrder_lt (sv_sell_book s) ?x) ?x (sv_sell_book s)"
  let ?s1 = "s\<lparr>sv_counter := sv_counter s + 1, sv_sell_book := ?v\<rparr>"
  have v: "rev ?v = place SellOrder_gt ?x (ask_q B)"
    using vec_insert_place [OF sell_priority.priority_axioms, of _ "next_id B" "sv_sell_book s" ?x] book_okD(2) [OF ok]
    by (simp add: B sv_abs_def lt_is_gt)
  have "rev (sv_buy_book s) = bid_q B" by (simp add: B sv_abs_def)
  then have "fst (sv_match ?s1) = ?s1\<lparr>sv_buy_book := rev bs, sv_sell_book := rev ss\<rparr>"
    unfolding sv_match_def by (intro sv_match_loop_ok) (simp add: v m)
  then obtain r where "sv_match ?s1 = (?s1\<lparr>sv_buy_book := rev bs, sv_sell_book := rev ss\<rparr>, r)"
    by (metis prod.collapse)
  then have "sv_insert_sell_order x s =
      (s\<lparr>sv_counter := next_id B, sv_buy_book := rev bs, sv_sell_book := rev ss\<rparr>, next_id B)"
    by (simp add: sv_insert_sell_order_def Let_def B sv_abs_def)
  moreover have "book_ok unbounded_cfg (fst (book_insert_sell unbounded_cfg x B))"
    using book_insert_sell_ok [OF ok n] by simp
  ultimately show ?thesis by (simp add: spec sv_rep_def sv_abs_def)
qed

lemma find_id_end: "find_id i xs = length xs \<longleftrightarrow> i \<notin> ord_id ` set xs"
  by (induction xs) (auto simp: find_id_def)

lemma erase_found:
  assumes "distinct (map ord_id xs)"
  shows "vec_erase (find_id i xs) xs = without i xs"
  using assms
proof (induction xs)
  case (Cons x xs)
  have "filter (\<lambda>x. ord_id x \<noteq> i) xs = xs" if "ord_id x = i"
    using Cons.prems that by (simp add: filter_id_conv image_iff) metis
  then show ?case using Cons by (simp add: vec_erase_def find_id_def without_def)
qed (simp add: vec_erase_def without_def)

lemma sv_sweep_ok: "sweep_market q l (rev xs) = (l', ys) \<Longrightarrow> sv_sweep q l xs = (l', rev ys)"
proof (induction xs arbitrary: q l rule: rev_induct)
  case (snoc x xs)
  have stop: "sv_sweep 0 k zs = (k, zs)" for k zs by (subst sv_sweep.simps) simp
  show ?case using snoc by (subst sv_sweep.simps) (auto simp: Let_def word_gt_0 stop split: if_splits)
qed (subst sv_sweep.simps, simp)

lemma rev_without: "rev (without i xs) = without i (rev xs)"
  by (simp add: without_def rev_filter)

interpretation sv: order_book unbounded_cfg sv_rep
  "\<lambda>x s. Some (sv_insert_buy_order x s)" "\<lambda>x s. Some (sv_insert_sell_order x s)"
  "\<lambda>i s. Some (sv_cancel_buy_order i s)" "\<lambda>i s. Some (sv_cancel_sell_order i s)"
  "\<lambda>x s. Some (sv_market_buy_order x s)" "\<lambda>x s. Some (sv_market_sell_order x s)"
  "\<lambda>s. Some (sv_top_of_book s)"
proof (unfold_locales, goal_cases)
  case (1 s B)
  then show ?case by (auto simp: sv_rep_def)
next
  case (2 s B x)
  then show ?case by (rule sv_insert_buy_ok)
next
  case (3 s B x)
  then show ?case by (rule sv_insert_sell_ok)
next
  case (4 s B i)
  then have B: "B = sv_abs s" and ok: "book_ok unbounded_cfg B" by (auto simp: sv_rep_def)
  then have "distinct (map ord_id (sv_buy_book s))"
    using book_okD(1) by (fastforce simp: side_ok_def sv_abs_def rev_map [symmetric])
  then show ?case
    using ok book_cancel_buy_ok [OF ok, of i]
    by (auto simp: sv_cancel_buy_order_def book_cancel_buy_def Let_def find_id_end erase_found sv_rep_def B sv_abs_def rev_without)
next
  case (5 s B i)
  then have B: "B = sv_abs s" and ok: "book_ok unbounded_cfg B" by (auto simp: sv_rep_def)
  then have "distinct (map ord_id (sv_sell_book s))"
    using book_okD(2) by (fastforce simp: side_ok_def sv_abs_def rev_map [symmetric])
  then show ?case
    using ok book_cancel_sell_ok [OF ok, of i]
    by (auto simp: sv_cancel_sell_order_def book_cancel_sell_def Let_def find_id_end erase_found sv_rep_def B sv_abs_def rev_without)
next
  case (6 s B x)
  then have B: "B = sv_abs s" and ok: "book_ok unbounded_cfg B" by (auto simp: sv_rep_def)
  obtain l ss where sw: "sweep_market (ucast (ord_size x)) 0 (ask_q B) = (l, ss)" by fastforce
  have "sv_rep (s\<lparr>sv_sell_book := rev ss\<rparr>) (B\<lparr>ask_q := ss\<rparr>)"
    using sweep_ask_ok [OF ok sw] by (simp add: sv_rep_def B sv_abs_def)
  moreover have "sv_sweep (ucast (ord_size x)) 0 (sv_sell_book s) = (l, rev ss)"
    using sw by (intro sv_sweep_ok) (simp add: B sv_abs_def)
  ultimately show ?case
    using 6(2) sv_insert_buy_ok [of _ _ "x\<lparr>ord_price := - 1\<rparr>"] sw
    by (auto simp: sv_market_buy_order_def book_market_buy_def Let_def unbounded_cfg_def)
next
  case (7 s B x)
  then have B: "B = sv_abs s" and ok: "book_ok unbounded_cfg B" by (auto simp: sv_rep_def)
  obtain l bs where sw: "sweep_market (ucast (ord_size x)) 0 (bid_q B) = (l, bs)" by fastforce
  have "sv_rep (s\<lparr>sv_buy_book := rev bs\<rparr>) (B\<lparr>bid_q := bs\<rparr>)"
    using sweep_bid_ok [OF ok sw] by (simp add: sv_rep_def B sv_abs_def)
  moreover have "sv_sweep (ucast (ord_size x)) 0 (sv_buy_book s) = (l, rev bs)"
    using sw by (intro sv_sweep_ok) (simp add: B sv_abs_def)
  ultimately show ?case
    using 7(2) sv_insert_sell_ok [of _ _ "x\<lparr>ord_price := 0\<rparr>"] sw
    by (auto simp: sv_market_sell_order_def book_market_sell_def Let_def unbounded_cfg_def)
next
  case (8 s B)
  then show ?case
    by (auto simp: sv_rep_def sv_abs_def sv_top_of_book_def book_top_def first_or_default_def hd_rev split: list.splits)
qed

lemma sv_rep_new: "sv_rep sv_new \<lparr>bid_q = [], ask_q = [], next_id = 2\<rparr>"
  by (simp add: sv_rep_def sv_abs_def sv_new_def book_ok_def side_ok_def)

end
