(* ===== verification/List_Book.thy ===== *)
theory List_Book
  imports Block_Heap Sorted_Vector_Book
begin

text \<open>
  The order book on doubly-linked lists of \<open>4_order_book_proj/data_structure_bench/list_str.{hpp,cpp}\<close>.

  \<open>list_side\<close> collects what the class has once for the buys and once for the sells: \<open>buy_head\<close> and
  \<open>buy_tail\<close> (\<open>ends\<close>), \<open>buy_index\<close> and the blocks. The loops follow pointers, so they are
  \<open>partial_function\<close>s: a walk that never ends has the value \<open>None\<close>, like a null or dangling
  pointer, and the lemmas show that neither happens. \<open>side_rep\<close> also says that no block is leaked,
  and the destructor frees every block exactly once.
\<close>

record list_side =
  ends :: OrderList
  side_index :: "u64 \<rightharpoonup> addr"
  side_heap :: block_heap

record OrderBook_List =
  lb_counter :: u64
  lb_buy :: list_side
  lb_sell :: list_side

definition list_side_empty :: list_side where
  "list_side_empty = \<lparr>ends = OrderList_empty, side_index = Map.empty, side_heap = Map.empty\<rparr>"

definition lb_new :: OrderBook_List where
  "lb_new = \<lparr>lb_counter = 1, lb_buy = list_side_empty, lb_sell = list_side_empty\<rparr>"

text \<open>\<open>while (cur && cur->order > order) cur = cur->next\<close>.\<close>

partial_function (option) seek ::
  "(order \<Rightarrow> order \<Rightarrow> bool) \<Rightarrow> block_heap \<Rightarrow> order \<Rightarrow> addr option \<Rightarrow> addr option option" where
  "seek gt h x cur =
     (if cur = None then Some None
      else do {
        c \<leftarrow> cur;
        n \<leftarrow> h c;
        if gt (ob_order n) x then seek gt h x (ob_next n) else Some (Some c) })"

text \<open>The part of \<open>insert_buy_order\<close> and \<open>insert_sell_order\<close> that links the new block and indexes it.\<close>

definition side_insert ::
  "(addr set \<Rightarrow> addr) \<Rightarrow> (order \<Rightarrow> order \<Rightarrow> bool) \<Rightarrow> order \<Rightarrow> list_side \<Rightarrow> list_side option" where
  "side_insert new gt x sd = (case new_block new x (side_heap sd) of (node, h) \<Rightarrow> do {
     cur \<leftarrow> seek gt h x (head (ends sd));
     (h, l) \<leftarrow> (case cur of
         Some c \<Rightarrow> insert_before_node heap_ops h (ends sd) node c
       | None \<Rightarrow> append_node heap_ops h (ends sd) node);
     Some (sd\<lparr>ends := l, side_heap := h, side_index := (side_index sd)(ord_id x \<mapsto> node)\<rparr>) })"

text \<open>The two \<open>unlink\<close>s.\<close>

definition side_unlink :: "addr \<Rightarrow> list_side \<Rightarrow> list_side option" where
  "side_unlink n sd = do {
     (h, l) \<leftarrow> unlink_node heap_ops (side_heap sd) (ends sd) n;
     Some (sd\<lparr>ends := l, side_heap := h\<rparr>) }"

text \<open>\<open>unlink(n); index.erase(n->order.id); delete n\<close>.\<close>

definition side_remove :: "addr \<Rightarrow> list_side \<Rightarrow> list_side option" where
  "side_remove n sd = do {
     sd \<leftarrow> side_unlink n sd;
     x \<leftarrow> ord_at (side_heap sd) n;
     let sd = sd\<lparr>side_index := (side_index sd)(ord_id x := None)\<rparr>;
     h \<leftarrow> delete_block n (side_heap sd);
     Some (sd\<lparr>side_heap := h\<rparr>) }"

definition head_order :: "list_side \<Rightarrow> (addr \<times> order) option" where
  "head_order sd = do { p \<leftarrow> head (ends sd); x \<leftarrow> ord_at (side_heap sd) p; Some (p, x) }"

definition side_write :: "addr \<Rightarrow> order \<Rightarrow> list_side \<Rightarrow> list_side option" where
  "side_write p x sd = do { h \<leftarrow> write_order p x (side_heap sd); Some (sd\<lparr>side_heap := h\<rparr>) }"

text \<open>\<open>if (head->order.size == 0) { unlink, erase and delete it }\<close>.\<close>

definition side_pop_if_empty :: "list_side \<Rightarrow> list_side option" where
  "side_pop_if_empty sd = do {
     (p, x) \<leftarrow> head_order sd;
     if ord_size x = 0 then side_remove p sd else Some sd }"

partial_function (option) lb_match_loop ::
  "bool \<Rightarrow> OrderBook_List \<Rightarrow> (OrderBook_List \<times> bool) option" where
  "lb_match_loop did s =
     (if head (ends (lb_buy s)) = None \<or> head (ends (lb_sell s)) = None then Some (s, did)
      else do {
        (p, b) \<leftarrow> head_order (lb_buy s);
        (q, a) \<leftarrow> head_order (lb_sell s);
        if ord_price b \<ge> ord_price a then do {
          let fill = fill_of b a;
          buy \<leftarrow> side_write p (reduce fill b) (lb_buy s);
          sell \<leftarrow> side_write q (reduce fill a) (lb_sell s);
          buy \<leftarrow> side_pop_if_empty buy;
          sell \<leftarrow> side_pop_if_empty sell;
          lb_match_loop True (s\<lparr>lb_buy := buy, lb_sell := sell\<rparr>) }
        else Some (s, did) })"

definition lb_match :: "OrderBook_List \<Rightarrow> (OrderBook_List \<times> bool) option" where
  "lb_match s = lb_match_loop False s"

definition lb_insert_buy_order ::
  "(addr set \<Rightarrow> addr) \<Rightarrow> BuyOrder \<Rightarrow> OrderBook_List \<Rightarrow> (OrderBook_List \<times> u64) option" where
  "lb_insert_buy_order new x s = do {
     let s = s\<lparr>lb_counter := lb_counter s + 1\<rparr>;
     let x = x\<lparr>ord_id := lb_counter s\<rparr>;
     buy \<leftarrow> side_insert new BuyOrder_gt x (lb_buy s);
     (s, _) \<leftarrow> lb_match (s\<lparr>lb_buy := buy\<rparr>);
     Some (s, ord_id x) }"

definition lb_insert_sell_order ::
  "(addr set \<Rightarrow> addr) \<Rightarrow> SellOrder \<Rightarrow> OrderBook_List \<Rightarrow> (OrderBook_List \<times> u64) option" where
  "lb_insert_sell_order new x s = do {
     let s = s\<lparr>lb_counter := lb_counter s + 1\<rparr>;
     let x = x\<lparr>ord_id := lb_counter s\<rparr>;
     sell \<leftarrow> side_insert new SellOrder_gt x (lb_sell s);
     (s, _) \<leftarrow> lb_match (s\<lparr>lb_sell := sell\<rparr>);
     Some (s, ord_id x) }"

text \<open>\<open>unlink(n); index.erase(it); delete n\<close>, where \<open>it\<close> is the entry of the identifier.\<close>

definition side_cancel :: "u64 \<Rightarrow> list_side \<Rightarrow> (list_side \<times> u64) option" where
  "side_cancel i sd = (case side_index sd i of
       None \<Rightarrow> Some (sd, 0)
     | Some n \<Rightarrow> do {
         sd \<leftarrow> side_unlink n sd;
         let sd = sd\<lparr>side_index := (side_index sd)(i := None)\<rparr>;
         h \<leftarrow> delete_block n (side_heap sd);
         Some (sd\<lparr>side_heap := h\<rparr>, i) })"

definition lb_cancel_buy_order :: "u64 \<Rightarrow> OrderBook_List \<Rightarrow> (OrderBook_List \<times> u64) option" where
  "lb_cancel_buy_order i s = do { (buy, r) \<leftarrow> side_cancel i (lb_buy s); Some (s\<lparr>lb_buy := buy\<rparr>, r) }"

definition lb_cancel_sell_order :: "u64 \<Rightarrow> OrderBook_List \<Rightarrow> (OrderBook_List \<times> u64) option" where
  "lb_cancel_sell_order i s = do { (sell, r) \<leftarrow> side_cancel i (lb_sell s); Some (s\<lparr>lb_sell := sell\<rparr>, r) }"

text \<open>The loop of the two market operations over the opposite side.\<close>

partial_function (option) side_sweep :: "u64 \<Rightarrow> u64 \<Rightarrow> list_side \<Rightarrow> (u64 \<times> list_side) option" where
  "side_sweep remaining last_id sd =
     (if 0 < remaining \<and> head (ends sd) \<noteq> None
      then do {
        (n, x) \<leftarrow> head_order sd;
        let last_id = ord_id x;
        if ucast (ord_size x) \<le> remaining
        then do {
          sd \<leftarrow> side_remove n sd;
          side_sweep (remaining - ucast (ord_size x)) last_id sd }
        else do {
          sd \<leftarrow> side_write n (reduce remaining x) sd;
          side_sweep 0 last_id sd } }
      else Some (last_id, sd))"

definition lb_market_buy_order ::
  "(addr set \<Rightarrow> addr) \<Rightarrow> BuyOrder \<Rightarrow> OrderBook_List \<Rightarrow> (OrderBook_List \<times> u64) option" where
  "lb_market_buy_order new x s = do {
     (last_id, sell) \<leftarrow> side_sweep (ucast (ord_size x)) 0 (lb_sell s);
     let s = s\<lparr>lb_sell := sell\<rparr>;
     if last_id = 0 then lb_insert_buy_order new (x\<lparr>ord_price := - 1\<rparr>) s else Some (s, last_id) }"

definition lb_market_sell_order ::
  "(addr set \<Rightarrow> addr) \<Rightarrow> SellOrder \<Rightarrow> OrderBook_List \<Rightarrow> (OrderBook_List \<times> u64) option" where
  "lb_market_sell_order new x s = do {
     (last_id, buy) \<leftarrow> side_sweep (ucast (ord_size x)) 0 (lb_buy s);
     let s = s\<lparr>lb_buy := buy\<rparr>;
     if last_id = 0 then lb_insert_sell_order new (x\<lparr>ord_price := 0\<rparr>) s else Some (s, last_id) }"

definition side_top :: "list_side \<Rightarrow> order option" where
  "side_top sd = (case head (ends sd) of None \<Rightarrow> Some order_default | Some p \<Rightarrow> ord_at (side_heap sd) p)"

definition lb_top_of_book :: "OrderBook_List \<Rightarrow> (BuyOrder \<times> SellOrder) option" where
  "lb_top_of_book s = do { b \<leftarrow> side_top (lb_buy s); a \<leftarrow> side_top (lb_sell s); Some (b, a) }"

text \<open>The destructor.\<close>

definition lb_destroy :: "OrderBook_List \<Rightarrow> (block_heap \<times> block_heap) option" where
  "lb_destroy s = do {
     hb \<leftarrow> free_chain (side_heap (lb_buy s)) (head (ends (lb_buy s)));
     hs \<leftarrow> free_chain (side_heap (lb_sell s)) (head (ends (lb_sell s)));
     Some (hb, hs) }"

section \<open>A side represents a list of orders\<close>

definition side_rep :: "list_side \<Rightarrow> order list \<Rightarrow> bool" where
  "side_rep sd xs \<longleftrightarrow> (\<exists>ps.
     list_rep heap_ops (side_heap sd) (ends sd) ps \<and>
     map (ord_at (side_heap sd)) ps = map Some xs \<and>
     dom (side_heap sd) = set ps \<and>
     index_ok (side_index sd) (side_heap sd))"

lemma side_rep_empty: "side_rep list_side_empty []"
  by (simp add: side_rep_def list_side_empty_def list_rep_empty index_ok_def ord_at_def)

lemma side_repE:
  assumes "side_rep sd xs"
  obtains ps where "list_rep heap_ops (side_heap sd) (ends sd) ps"
    and "map (ord_at (side_heap sd)) ps = map Some xs" and "dom (side_heap sd) = set ps"
    and "index_ok (side_index sd) (side_heap sd)"
  using assms by (auto simp: side_rep_def)

lemma side_rep_head: "side_rep sd xs \<Longrightarrow> head (ends sd) = None \<longleftrightarrow> xs = []"
  by (auto simp: side_rep_def list_rep_head)

lemma side_rep_head_order:
  assumes "side_rep sd (x # xs)"
  obtains p where "head (ends sd) = Some p" "head_order sd = Some (p, x)" "ord_at (side_heap sd) p = Some x"
  using assms by (auto simp: side_rep_def head_order_def list_rep_head Cons_eq_map_conv)

lemma seek_ok:
  "dll heap_ops h p bs None \<Longrightarrow> map (ord_at h) bs = map Some ys \<Longrightarrow>
   seek gt h x (head_opt bs) = Some (head_opt (drop (length (takeWhile (\<lambda>y. gt y x) ys)) bs))"
proof (induction bs arbitrary: p ys)
  case Nil
  then show ?case by (subst seek.simps) simp
next
  case (Cons c bs)
  from Cons.prems(2) obtain y zs where ys: "ys = y # zs" "ord_at h c = Some y" "map (ord_at h) bs = map Some zs"
    by (auto simp: Cons_eq_map_conv)
  from Cons.prems(1) ord_at_SomeD [OF ys(2)]
  obtain n where n: "h c = Some n" "ob_order n = y" "ob_next n = head_opt bs" by (auto split: if_splits)
  have "dll heap_ops h (Some c) bs None" using Cons.prems by simp
  from Cons.IH [OF this ys(3)] show ?case using n ys(1) by (subst seek.simps) simp
qed

lemma side_insert_ok:
  assumes new: "fresh_alloc new" and rep: "side_rep sd xs" and id: "ord_id x \<notin> ord_id ` set xs"
  shows "\<exists>sd'. side_insert new gt x sd = Some sd' \<and> side_rep sd' (place gt x xs)"
proof -
  from rep obtain ps where l: "list_rep heap_ops (side_heap sd) (ends sd) ps"
    and m: "map (ord_at (side_heap sd)) ps = map Some xs" and d: "dom (side_heap sd) = set ps"
    and ix: "index_ok (side_index sd) (side_heap sd)" by (rule side_repE)
  define a where "a = new (dom (side_heap sd))"
  have a: "a \<notin> set ps" using new unfolding fresh_alloc_def a_def d by blast
  let ?b = "\<lparr>ob_order = x, ob_next = None, ob_prev = None\<rparr>"
  define h where "h = (side_heap sd)(a \<mapsto> ?b)"
  define k where "k = length (takeWhile (\<lambda>y. gt y x) xs)"
  have len: "length ps = length xs" using m by (metis length_map)
  have h: "h p = side_heap sd p" if "p \<in> set ps" for p using that a by (auto simp: h_def)
  have l': "list_rep heap_ops h (ends sd) ps" using l h list_rep_cong [of ps heap_ops "side_heap sd" h] by simp
  have m': "map (ord_at h) ps = map Some xs" using m a by (simp add: h_def map_fun_upd)
  have ha: "load_node heap_ops h a = Some ?b" by (simp add: h_def)
  have sk: "seek gt h x (head (ends sd)) = Some (head_opt (drop k ps))"
    using seek_ok [of h None ps xs gt x] l' m' by (simp add: list_rep_def k_def)
  have "\<exists>h' l'. (case head_opt (drop k ps) of
        Some c \<Rightarrow> insert_before_node heap_ops h (ends sd) a c
      | None \<Rightarrow> append_node heap_ops h (ends sd) a) = Some (h', l') \<and>
      list_rep heap_ops h' l' (take k ps @ a # drop k ps) \<and> dom h = dom h' \<and>
      (\<forall>p. map_option ob_order (h' p) = map_option ob_order (h p))"
  proof (cases "drop k ps")
    case Nil
    then have "take k ps = ps" by simp
    then show ?thesis using Nil by (auto intro: blocks.append_node_ok [OF l' a ha])
  next
    case (Cons c bs)
    then have eq: "take k ps @ c # bs = ps" by (metis append_take_drop_id)
    show ?thesis
      using Cons by (auto intro: blocks.insert_before_node_ok [of h "ends sd" "take k ps" c bs a, unfolded eq, OF l' a ha])
  qed
  then obtain h' l' where ins: "(case head_opt (drop k ps) of
        Some c \<Rightarrow> insert_before_node heap_ops h (ends sd) a c
      | None \<Rightarrow> append_node heap_ops h (ends sd) a) = Some (h', l')"
    and l'': "list_rep heap_ops h' l' (take k ps @ a # drop k ps)" and dh: "dom h = dom h'"
    and "\<And>p. map_option ob_order (h' p) = map_option ob_order (h p)" by blast
  then have oa: "ord_at h' = ord_at h" by (simp add: ord_at_def fun_eq_iff)
  have "place gt x xs = take k xs @ x # drop k xs" unfolding place_def k_def by (metis takeWhile_eq_take dropWhile_eq_drop)
  moreover have "map (ord_at h') (take k ps @ a # drop k ps) = map Some (take k xs @ x # drop k xs)"
  proof -
    have "map (ord_at h') (take k ps) = map Some (take k xs)" "map (ord_at h') (drop k ps) = map Some (drop k xs)"
      unfolding oa take_map [symmetric] drop_map [symmetric] m' by simp_all
    then show ?thesis by (simp add: oa h_def)
  qed
  moreover have "dom h' = set (take k ps @ a # drop k ps)"
    using dh d by (simp add: h_def) (metis append_take_drop_id set_append)
  moreover have "side_index sd (ord_id x) = None" using index_None [OF m d ix] id by simp
  then have "index_ok ((side_index sd)(ord_id x \<mapsto> a)) h'"
    using a d by (intro index_ok_new [OF ix]) (auto simp: oa h_def)
  moreover have "side_insert new gt x sd =
      Some (sd\<lparr>ends := l', side_heap := h', side_index := (side_index sd)(ord_id x \<mapsto> a)\<rparr>)"
  proof -
    have "new_block new x (side_heap sd) = (a, h)" by (simp add: new_block_def a_def h_def Let_def)
    then show ?thesis using sk ins by (simp add: side_insert_def)
  qed
  ultimately show ?thesis using l'' by (auto simp: side_rep_def)
qed

text \<open>Unlinking a block of the list and deleting it.\<close>

lemma side_unlink_ok:
  assumes l: "list_rep heap_ops (side_heap sd) (ends sd) (as @ p # bs)"
    and m: "map (ord_at (side_heap sd)) as = map Some us" "map (ord_at (side_heap sd)) bs = map Some vs"
    and d: "dom (side_heap sd) = set (as @ p # bs)"
    and ix: "index_ok (side_index sd) (side_heap sd)" and x: "ord_at (side_heap sd) p = Some x"
  obtains h l' where "side_unlink p sd = Some (sd\<lparr>ends := l', side_heap := h\<rparr>)"
    and "ord_at h = ord_at (side_heap sd)" "p \<in> dom h"
    and "side_rep (sd\<lparr>ends := l', side_heap := h(p := None), side_index := (side_index sd)(ord_id x := None)\<rparr>) (us @ vs)"
proof -
  obtain h l' where ul: "unlink_node heap_ops (side_heap sd) (ends sd) p = Some (h, l')"
    and l': "list_rep heap_ops h l' (as @ bs)" and dh: "dom (side_heap sd) = dom h"
    and pay: "\<And>a. map_option ob_order (load_node heap_ops h a) = map_option ob_order (load_node heap_ops (side_heap sd) a)"
    by (rule blocks.unlink_node_ok [OF l]) (rule that)
  have oa: "ord_at h = ord_at (side_heap sd)" using pay by (simp add: ord_at_def fun_eq_iff)
  have p: "p \<notin> set (as @ bs)" using list_rep_distinct [OF l] by auto
  have "list_rep heap_ops (h(p := None)) l' (as @ bs)"
    using l' p list_rep_cong [of "as @ bs" heap_ops h "h(p := None)" l'] by fastforce
  moreover have "map (ord_at (h(p := None))) (as @ bs) = map Some (us @ vs)"
    using m p by (simp add: oa)
  moreover have "dom (h(p := None)) = set (as @ bs)" using dh d p by auto
  moreover have "index_ok ((side_index sd)(ord_id x := None)) (h(p := None))"
    using index_ok_delete [of "side_index sd" h p x] ix x oa index_ok_cong [OF oa] by simp
  ultimately have rep: "side_rep (sd\<lparr>ends := l', side_heap := h(p := None), side_index := (side_index sd)(ord_id x := None)\<rparr>) (us @ vs)"
    unfolding side_rep_def by (intro exI [of _ "as @ bs"]) simp
  have "p \<in> dom h" using dh d by auto
  with ul oa rep show ?thesis using that by (simp add: side_unlink_def)
qed

lemma side_remove_head:
  assumes rep: "side_rep sd (x # xs)" and p: "head (ends sd) = Some p"
  shows "\<exists>sd'. side_remove p sd = Some sd' \<and> side_rep sd' xs"
proof -
  from rep obtain ps where l: "list_rep heap_ops (side_heap sd) (ends sd) ps"
    and m: "map (ord_at (side_heap sd)) ps = map Some (x # xs)" and d: "dom (side_heap sd) = set ps"
    and ix: "index_ok (side_index sd) (side_heap sd)" by (rule side_repE)
  from m p l obtain bs where ps: "ps = [] @ p # bs" "ord_at (side_heap sd) p = Some x" "map (ord_at (side_heap sd)) bs = map Some xs"
    by (auto simp: list_rep_head Cons_eq_map_conv map_eq_Cons_conv)
  obtain h l' where ul: "side_unlink p sd = Some (sd\<lparr>ends := l', side_heap := h\<rparr>)"
    and oa: "ord_at h = ord_at (side_heap sd)" "p \<in> dom h"
    and rep': "side_rep (sd\<lparr>ends := l', side_heap := h(p := None), side_index := (side_index sd)(ord_id x := None)\<rparr>) ([] @ xs)"
    by (rule side_unlink_ok [OF l [unfolded ps(1)] _ ps(3) d [unfolded ps(1)] ix ps(2), where us = "[]"]) (simp, rule that)
  have "side_remove p sd = Some (sd\<lparr>ends := l', side_heap := h(p := None), side_index := (side_index sd)(ord_id x := None)\<rparr>)"
    using ul oa ps(2) by (simp add: side_remove_def delete_block_def Let_def)
  then show ?thesis using rep' by auto
qed

lemma side_write_head:
  assumes rep: "side_rep sd (x # xs)" and p: "head (ends sd) = Some p" and id: "ord_id y = ord_id x"
  shows "\<exists>sd'. side_write p y sd = Some sd' \<and> side_rep sd' (y # xs) \<and> head (ends sd') = Some p"
proof -
  from rep obtain ps where l: "list_rep heap_ops (side_heap sd) (ends sd) ps"
    and m: "map (ord_at (side_heap sd)) ps = map Some (x # xs)" and d: "dom (side_heap sd) = set ps"
    and ix: "index_ok (side_index sd) (side_heap sd)" by (rule side_repE)
  from m p l obtain bs where ps: "ps = p # bs" "ord_at (side_heap sd) p = Some x" "map (ord_at (side_heap sd)) bs = map Some xs"
    by (auto simp: list_rep_head Cons_eq_map_conv map_eq_Cons_conv)
  from ord_at_SomeD [OF ps(2)] obtain n where n: "side_heap sd p = Some n" "ob_order n = x" by blast
  let ?h = "(side_heap sd)(p \<mapsto> n\<lparr>ob_order := y\<rparr>)"
  have pn: "p \<notin> set bs" using list_rep_distinct [OF l] ps(1) by simp
  have "list_rep heap_ops ?h (ends sd) ps"
    using l n pn by (auto simp: list_rep_def ps(1) blocks.dll_frame)
  moreover have "map (ord_at ?h) ps = map Some (y # xs)" using ps pn by simp
  moreover have "dom ?h = set ps" using d ps(1) by auto
  moreover have "index_ok (side_index sd) ?h" by (rule index_ok_write [OF ix ps(2) id]) simp
  ultimately have "side_rep (sd\<lparr>side_heap := ?h\<rparr>) (y # xs)" unfolding side_rep_def by (intro exI [of _ ps]) simp
  then show ?thesis using n p by (simp add: side_write_def write_order_def)
qed

text \<open>One round of matching on one side.\<close>

lemma side_round:
  assumes "side_rep sd (x # xs)" "head (ends sd) = Some p"
  shows "\<exists>sd1 sd2. side_write p (reduce q x) sd = Some sd1 \<and> side_pop_if_empty sd1 = Some sd2 \<and>
    side_rep sd2 (front_after q x xs)"
proof -
  obtain sd1 where sd1: "side_write p (reduce q x) sd = Some sd1" "side_rep sd1 (reduce q x # xs)" "head (ends sd1) = Some p"
    using side_write_head [OF assms, of "reduce q x"] by auto
  have ho: "head_order sd1 = Some (p, reduce q x)"
    using side_rep_head_order [OF sd1(2)] sd1(3) by (metis option.inject)
  show ?thesis
  proof (cases "ord_size (reduce q x) = 0")
    case True
    obtain sd2 where "side_remove p sd1 = Some sd2" "side_rep sd2 xs" using side_remove_head [OF sd1(2,3)] by blast
    then show ?thesis using True sd1(1) ho by (simp add: side_pop_if_empty_def front_after_def)
  qed (use sd1(1,2) ho in \<open>simp add: side_pop_if_empty_def front_after_def\<close>)
qed

lemma lb_match_loop_ok:
  assumes "side_rep (lb_buy s) bs" "side_rep (lb_sell s) ss" "match_lists bs ss = (bs', ss')"
  shows "\<exists>buy sell d. lb_match_loop did s = Some (s\<lparr>lb_buy := buy, lb_sell := sell\<rparr>, d) \<and>
    side_rep buy bs' \<and> side_rep sell ss'"
  using assms
proof (induction bs ss arbitrary: s did rule: match_lists.induct)
  case (1 ss)
  then show ?case using side_rep_head [of "lb_buy s" "[]"]
    by (intro exI [of _ "lb_buy s"] exI [of _ "lb_sell s"] exI [of _ did], subst lb_match_loop.simps) auto
next
  case (2 b bs)
  then show ?case using side_rep_head [of "lb_sell s" "[]"]
    by (intro exI [of _ "lb_buy s"] exI [of _ "lb_sell s"] exI [of _ did], subst lb_match_loop.simps) auto
next
  case (3 b bs a as)
  obtain p where p: "head (ends (lb_buy s)) = Some p" "head_order (lb_buy s) = Some (p, b)"
    using side_rep_head_order [OF "3.prems"(1)] by blast
  obtain q where q: "head (ends (lb_sell s)) = Some q" "head_order (lb_sell s) = Some (q, a)"
    using side_rep_head_order [OF "3.prems"(2)] by blast
  show ?case
  proof (cases "ord_price b \<ge> ord_price a")
    case False
    then show ?thesis using p q "3.prems"
      by (intro exI [of _ "lb_buy s"] exI [of _ "lb_sell s"] exI [of _ did], subst lb_match_loop.simps) auto
  next
    case True
    let ?f = "fill_of b a"
    obtain b1 b2 where b: "side_write p (reduce ?f b) (lb_buy s) = Some b1" "side_pop_if_empty b1 = Some b2"
      "side_rep b2 (front_after ?f b bs)" using side_round [OF "3.prems"(1) p(1)] by blast
    obtain a1 a2 where a: "side_write q (reduce ?f a) (lb_sell s) = Some a1" "side_pop_if_empty a1 = Some a2"
      "side_rep a2 (front_after ?f a as)" using side_round [OF "3.prems"(2) q(1)] by blast
    let ?s = "s\<lparr>lb_buy := b2, lb_sell := a2\<rparr>"
    have "lb_match_loop did s = lb_match_loop True ?s"
      using True p q a b by (subst lb_match_loop.simps) (simp add: Let_def)
    moreover have "\<exists>buy sell d. lb_match_loop True ?s = Some (?s\<lparr>lb_buy := buy, lb_sell := sell\<rparr>, d) \<and>
        side_rep buy bs' \<and> side_rep sell ss'"
      by (rule "3.IH" [OF True]) (use a b "3.prems"(3) True in simp_all)
    ultimately show ?thesis by simp
  qed
qed

lemma side_sweep_ok:
  assumes "side_rep sd xs" "sweep_market r l xs = (l', ys)"
  shows "\<exists>sd'. side_sweep r l sd = Some (l', sd') \<and> side_rep sd' ys"
  using assms
proof (induction r l xs arbitrary: sd rule: sweep_market.induct)
  case (1 r l)
  then show ?case using side_rep_head [of sd "[]"] by (subst side_sweep.simps) simp
next
  case (2 r l x xs)
  obtain p where p: "head (ends sd) = Some p" "head_order sd = Some (p, x)"
    using side_rep_head_order [OF "2.prems"(1)] by blast
  have stop: "side_sweep 0 k sd' = Some (k, sd')" for k sd' by (subst side_sweep.simps) simp
  consider "r = 0" | "r \<noteq> 0" "ucast (ord_size x) \<le> r" | "r \<noteq> 0" "\<not> ucast (ord_size x) \<le> r" by blast
  then show ?case
  proof cases
    case 1
    then show ?thesis using "2.prems" stop by simp
  next
    case 2
    obtain sd1 where sd1: "side_remove p sd = Some sd1" "side_rep sd1 xs" using side_remove_head [OF "2.prems"(1) p(1)] by blast
    have "\<exists>sd'. side_sweep (r - ucast (ord_size x)) (ord_id x) sd1 = Some (l', sd') \<and> side_rep sd' ys"
      by (rule "2.IH" [OF 2 sd1(2)]) (use "2.prems"(2) 2 in simp)
    then show ?thesis using 2 p sd1 by (subst side_sweep.simps) (simp add: word_gt_0 Let_def)
  next
    case 3
    obtain sd1 where "side_write p (reduce r x) sd = Some sd1" "side_rep sd1 (reduce r x # xs)"
      using side_write_head [OF "2.prems"(1) p(1), of "reduce r x"] by auto
    then show ?thesis using 3 p "2.prems"(2) by (subst side_sweep.simps) (auto simp: word_gt_0 Let_def stop)
  qed
qed

lemma side_cancel_ok:
  assumes rep: "side_rep sd xs" and dist: "distinct (map ord_id xs)"
  shows "\<exists>sd'. side_cancel i sd = Some (sd', if i \<in> ord_id ` set xs then i else 0) \<and> side_rep sd' (without i xs)"
proof -
  from rep obtain ps where l: "list_rep heap_ops (side_heap sd) (ends sd) ps"
    and m: "map (ord_at (side_heap sd)) ps = map Some xs" and d: "dom (side_heap sd) = set ps"
    and ix: "index_ok (side_index sd) (side_heap sd)" by (rule side_repE)
  show ?thesis
  proof (cases "side_index sd i")
    case None
    then have no: "i \<notin> ord_id ` set xs" using index_None [OF m d ix] by simp
    then have "without i xs = xs" by (auto simp: without_def filter_id_conv)
    then show ?thesis using None no rep by (simp add: side_cancel_def)
  next
    case (Some p)
    obtain as bs us x vs where ps: "ps = as @ p # bs" and xs: "xs = us @ x # vs" "ord_id x = i"
      and x: "ord_at (side_heap sd) p = Some x"
      and m': "map (ord_at (side_heap sd)) as = map Some us" "map (ord_at (side_heap sd)) bs = map Some vs"
      by (rule index_Some [OF m d ix Some])
    obtain h l' where ul: "side_unlink p sd = Some (sd\<lparr>ends := l', side_heap := h\<rparr>)"
      and oa: "ord_at h = ord_at (side_heap sd)" "p \<in> dom h"
      and rep': "side_rep (sd\<lparr>ends := l', side_heap := h(p := None), side_index := (side_index sd)(ord_id x := None)\<rparr>) (us @ vs)"
      by (rule side_unlink_ok [OF l [unfolded ps] m' d [unfolded ps] ix x])
    have "without i xs = us @ vs" using without_mid [of us x vs] dist xs by simp
    then show ?thesis
      using Some ul oa(2) rep' xs by (auto simp: side_cancel_def delete_block_def Let_def side_rep_def)
  qed
qed

section \<open>The book implements the interface\<close>

definition lb_rep :: "(addr set \<Rightarrow> addr) \<Rightarrow> OrderBook_List \<Rightarrow> limit_book \<Rightarrow> bool" where
  "lb_rep new s B \<longleftrightarrow> fresh_alloc new \<and> book_ok unbounded_cfg B \<and> next_id B = lb_counter s + 1 \<and>
     side_rep (lb_buy s) (bid_q B) \<and> side_rep (lb_sell s) (ask_q B)"

lemma lb_insert_buy_ok:
  assumes rep: "lb_rep new s B" and n: "unat (next_id B) + 1 < 2 ^ 64"
  shows "\<exists>s'. lb_insert_buy_order new x s = Some (s', snd (book_insert_buy unbounded_cfg x B)) \<and>
    lb_rep new s' (fst (book_insert_buy unbounded_cfg x B))"
proof -
  have ok: "book_ok unbounded_cfg B" and c: "next_id B = lb_counter s + 1" and new: "fresh_alloc new"
    and sides: "side_rep (lb_buy s) (bid_q B)" "side_rep (lb_sell s) (ask_q B)"
    using rep by (auto simp: lb_rep_def)
  let ?x = "x\<lparr>ord_id := next_id B\<rparr>"
  obtain bs ss where m: "match_lists (place BuyOrder_gt ?x (bid_q B)) (ask_q B) = (bs, ss)" by fastforce
  have spec: "book_insert_buy unbounded_cfg x B = (\<lparr>bid_q = bs, ask_q = ss, next_id = next_id B + 1\<rparr>, next_id B)"
    using m by (simp add: book_insert_buy_def unbounded_cfg_def)
  have "next_id B \<notin> ord_id ` set (bid_q B)" using book_okD(1) [OF ok] by (auto simp: side_ok_def)
  then obtain buy where buy: "side_insert new BuyOrder_gt ?x (lb_buy s) = Some buy"
    "side_rep buy (place BuyOrder_gt ?x (bid_q B))"
    using side_insert_ok [OF new sides(1), of ?x] by auto
  let ?s = "s\<lparr>lb_counter := next_id B, lb_buy := buy\<rparr>"
  obtain buy' sell' d where lp: "lb_match_loop False ?s = Some (?s\<lparr>lb_buy := buy', lb_sell := sell'\<rparr>, d)"
    and r: "side_rep buy' bs" "side_rep sell' ss"
    using lb_match_loop_ok [of ?s "place BuyOrder_gt ?x (bid_q B)" "ask_q B" bs ss False] buy(2) sides(2) m by auto
  have "lb_insert_buy_order new x s = Some (?s\<lparr>lb_buy := buy', lb_sell := sell'\<rparr>, next_id B)"
    using buy(1) lp by (simp add: lb_insert_buy_order_def lb_match_def Let_def c)
  moreover have "book_ok unbounded_cfg (fst (book_insert_buy unbounded_cfg x B))"
    using book_insert_buy_ok [OF ok n] by simp
  ultimately show ?thesis using r new by (simp add: spec lb_rep_def)
qed

lemma lb_insert_sell_ok:
  assumes rep: "lb_rep new s B" and n: "unat (next_id B) + 1 < 2 ^ 64"
  shows "\<exists>s'. lb_insert_sell_order new x s = Some (s', snd (book_insert_sell unbounded_cfg x B)) \<and>
    lb_rep new s' (fst (book_insert_sell unbounded_cfg x B))"
proof -
  have ok: "book_ok unbounded_cfg B" and c: "next_id B = lb_counter s + 1" and new: "fresh_alloc new"
    and sides: "side_rep (lb_buy s) (bid_q B)" "side_rep (lb_sell s) (ask_q B)"
    using rep by (auto simp: lb_rep_def)
  let ?x = "x\<lparr>ord_id := next_id B\<rparr>"
  obtain bs ss where m: "match_lists (bid_q B) (place SellOrder_gt ?x (ask_q B)) = (bs, ss)" by fastforce
  have spec: "book_insert_sell unbounded_cfg x B = (\<lparr>bid_q = bs, ask_q = ss, next_id = next_id B + 1\<rparr>, next_id B)"
    using m by (simp add: book_insert_sell_def unbounded_cfg_def)
  have "next_id B \<notin> ord_id ` set (ask_q B)" using book_okD(2) [OF ok] by (auto simp: side_ok_def)
  then obtain sell where sell: "side_insert new SellOrder_gt ?x (lb_sell s) = Some sell"
    "side_rep sell (place SellOrder_gt ?x (ask_q B))"
    using side_insert_ok [OF new sides(2), of ?x] by auto
  let ?s = "s\<lparr>lb_counter := next_id B, lb_sell := sell\<rparr>"
  obtain buy' sell' d where lp: "lb_match_loop False ?s = Some (?s\<lparr>lb_buy := buy', lb_sell := sell'\<rparr>, d)"
    and r: "side_rep buy' bs" "side_rep sell' ss"
    using lb_match_loop_ok [of ?s "bid_q B" "place SellOrder_gt ?x (ask_q B)" bs ss False] sell(2) sides(1) m by auto
  have "lb_insert_sell_order new x s = Some (?s\<lparr>lb_buy := buy', lb_sell := sell'\<rparr>, next_id B)"
    using sell(1) lp by (simp add: lb_insert_sell_order_def lb_match_def Let_def c)
  moreover have "book_ok unbounded_cfg (fst (book_insert_sell unbounded_cfg x B))"
    using book_insert_sell_ok [OF ok n] by simp
  ultimately show ?thesis using r new by (simp add: spec lb_rep_def)
qed

lemma lb_cancel_buy_ok:
  assumes "lb_rep new s B"
  shows "\<exists>s'. lb_cancel_buy_order i s = Some (s', snd (book_cancel_buy i B)) \<and> lb_rep new s' (fst (book_cancel_buy i B))"
proof -
  have ok: "book_ok unbounded_cfg B" and sd: "side_rep (lb_buy s) (bid_q B)" using assms by (auto simp: lb_rep_def)
  have "distinct (map ord_id (bid_q B))" using book_okD(1) [OF ok] by (simp add: side_ok_def)
  from side_cancel_ok [OF sd this, of i] show ?thesis
    using assms book_cancel_buy_ok [OF ok, of i] without_absent [of i "bid_q B"]
    by (auto simp: lb_cancel_buy_order_def book_cancel_buy_def lb_rep_def)
qed

lemma lb_cancel_sell_ok:
  assumes "lb_rep new s B"
  shows "\<exists>s'. lb_cancel_sell_order i s = Some (s', snd (book_cancel_sell i B)) \<and> lb_rep new s' (fst (book_cancel_sell i B))"
proof -
  have ok: "book_ok unbounded_cfg B" and sd: "side_rep (lb_sell s) (ask_q B)" using assms by (auto simp: lb_rep_def)
  have "distinct (map ord_id (ask_q B))" using book_okD(2) [OF ok] by (simp add: side_ok_def)
  from side_cancel_ok [OF sd this, of i] show ?thesis
    using assms book_cancel_sell_ok [OF ok, of i] without_absent [of i "ask_q B"]
    by (auto simp: lb_cancel_sell_order_def book_cancel_sell_def lb_rep_def)
qed

lemma lb_market_buy_ok:
  assumes rep: "lb_rep new s B" and n: "unat (next_id B) + 1 < 2 ^ 64"
  shows "\<exists>s'. lb_market_buy_order new x s = Some (s', snd (book_market_buy unbounded_cfg x B)) \<and>
    lb_rep new s' (fst (book_market_buy unbounded_cfg x B))"
proof -
  obtain l ss where sw: "sweep_market (ucast (ord_size x)) 0 (ask_q B) = (l, ss)" by fastforce
  have ok: "book_ok unbounded_cfg B" and sd: "side_rep (lb_sell s) (ask_q B)" using rep by (auto simp: lb_rep_def)
  obtain sell where sell: "side_sweep (ucast (ord_size x)) 0 (lb_sell s) = Some (l, sell)" "side_rep sell ss"
    using side_sweep_ok [OF sd sw] by blast
  have rep': "lb_rep new (s\<lparr>lb_sell := sell\<rparr>) (B\<lparr>ask_q := ss\<rparr>)"
    using rep sell(2) sweep_ask_ok [OF ok sw] by (simp add: lb_rep_def)
  have "top_price unbounded_cfg = - 1" by (simp add: unbounded_cfg_def)
  then show ?thesis
    using lb_insert_buy_ok [OF rep', of "x\<lparr>ord_price := - 1\<rparr>"] rep' n sw sell(1)
    by (auto simp: lb_market_buy_order_def book_market_buy_def Let_def)
qed

lemma lb_market_sell_ok:
  assumes rep: "lb_rep new s B" and n: "unat (next_id B) + 1 < 2 ^ 64"
  shows "\<exists>s'. lb_market_sell_order new x s = Some (s', snd (book_market_sell unbounded_cfg x B)) \<and>
    lb_rep new s' (fst (book_market_sell unbounded_cfg x B))"
proof -
  obtain l bs where sw: "sweep_market (ucast (ord_size x)) 0 (bid_q B) = (l, bs)" by fastforce
  have ok: "book_ok unbounded_cfg B" and sd: "side_rep (lb_buy s) (bid_q B)" using rep by (auto simp: lb_rep_def)
  obtain buy where buy: "side_sweep (ucast (ord_size x)) 0 (lb_buy s) = Some (l, buy)" "side_rep buy bs"
    using side_sweep_ok [OF sd sw] by blast
  have rep': "lb_rep new (s\<lparr>lb_buy := buy\<rparr>) (B\<lparr>bid_q := bs\<rparr>)"
    using rep buy(2) sweep_bid_ok [OF ok sw] by (simp add: lb_rep_def)
  have "bottom_price unbounded_cfg = 0" by (simp add: unbounded_cfg_def)
  then show ?thesis
    using lb_insert_sell_ok [OF rep', of "x\<lparr>ord_price := 0\<rparr>"] rep' n sw buy(1)
    by (auto simp: lb_market_sell_order_def book_market_sell_def Let_def)
qed

lemma side_top_ok:
  assumes "side_rep sd xs"
  shows "side_top sd = Some (first_or_default xs)"
proof (cases xs)
  case Nil
  then show ?thesis using side_rep_head [OF assms] by (simp add: side_top_def first_or_default_def)
next
  case (Cons y ys)
  obtain p where "head (ends sd) = Some p" "ord_at (side_heap sd) p = Some y"
    using side_rep_head_order [OF assms [unfolded Cons]] by blast
  then show ?thesis by (simp add: side_top_def first_or_default_def Cons)
qed

lemma lb_top_ok: "lb_rep new s B \<Longrightarrow> lb_top_of_book s = Some (book_top B)"
  using side_top_ok by (fastforce simp: lb_rep_def lb_top_of_book_def book_top_def)

interpretation lb: order_book unbounded_cfg "lb_rep new" "lb_insert_buy_order new" "lb_insert_sell_order new"
  lb_cancel_buy_order lb_cancel_sell_order "lb_market_buy_order new" "lb_market_sell_order new" lb_top_of_book for new
  by unfold_locales
    (simp add: lb_rep_def,
     (rule lb_insert_buy_ok lb_insert_sell_ok lb_cancel_buy_ok lb_cancel_sell_ok lb_market_buy_ok lb_market_sell_ok lb_top_ok; assumption)+)

lemma lb_rep_new: "fresh_alloc new \<Longrightarrow> lb_rep new lb_new \<lparr>bid_q = [], ask_q = [], next_id = 2\<rparr>"
  by (simp add: lb_rep_def lb_new_def side_rep_empty book_ok_def side_ok_def)

lemma lb_destroy_ok:
  assumes "lb_rep new s B"
  shows "lb_destroy s = Some (Map.empty, Map.empty)"
proof -
  have "free_chain (side_heap sd) (head (ends sd)) = Some Map.empty" if rep: "side_rep sd xs" for sd xs
  proof -
    from rep obtain ps where l: "list_rep heap_ops (side_heap sd) (ends sd) ps" and d: "dom (side_heap sd) = set ps"
      by (rule side_repE)
    then have "free_chain (side_heap sd) (head (ends sd)) = Some (side_heap sd |` (- set ps))"
      using free_chain_ok [of "side_heap sd" None ps] by (simp add: list_rep_def)
    moreover have "side_heap sd |` (- set ps) = Map.empty" using d by (auto simp: restrict_map_def fun_eq_iff)
    ultimately show ?thesis by simp
  qed
  then show ?thesis using assms by (auto simp: lb_destroy_def lb_rep_def)
qed

end
