(* ===== verification/Tick_Offset_Book.thy ===== *)
theory Tick_Offset_Book
  imports Block_Heap Levels
begin

text \<open>
  The order book indexed by price of \<open>4_order_book_proj/data_structure_bench/tick_offset_str.{hpp,cpp}\<close>.

  \<open>tick_side\<close> collects what the class has once for the buys and once for the sells: the array of lists
  (\<open>buffer\<close>; a null pointer is \<open>None\<close>, and since a list object is reachable from its array slot only,
  the object is kept in the slot), the index \<open>keys\<close>, the blocks and the cursor \<open>best\<close>. \<open>Size\<close> is the
  length of the array. Indexing the array out of range is undefined, like a null or dangling pointer.

  \<open>tside\<close> relates a side to its levels, \<open>tick_buy_rep\<close> and \<open>tick_sell_rep\<close> to the list of orders it
  stands for. The book is an \<open>order_book\<close> that accepts the prices \<open>1 .. Size - 1\<close>.
\<close>

record tick_side =
  buffer :: "OrderList option list"
  keys :: "u64 \<rightharpoonup> addr"
  tick_heap :: block_heap
  best :: u64

record OrderBook_TickOffset =
  tk_counter :: u64
  tk_buy :: tick_side
  tk_sell :: tick_side

definition Size :: "tick_side \<Rightarrow> u64" where
  "Size sd = of_nat (length (buffer sd))"

definition tick_side_empty :: "nat \<Rightarrow> u64 \<Rightarrow> tick_side" where
  "tick_side_empty n i = \<lparr>buffer = replicate n None, keys = Map.empty, tick_heap = Map.empty, best = i\<rparr>"

definition tk_new :: "nat \<Rightarrow> OrderBook_TickOffset" where
  "tk_new n = \<lparr>tk_counter = 1, tk_buy = tick_side_empty n 0, tk_sell = tick_side_empty n (of_nat n)\<rparr>"

definition slot :: "tick_side \<Rightarrow> u64 \<Rightarrow> OrderList option option" where
  "slot sd idx = (if unat idx < length (buffer sd) then Some (buffer sd ! unat idx) else None)"

definition set_slot :: "u64 \<Rightarrow> OrderList option \<Rightarrow> tick_side \<Rightarrow> tick_side" where
  "set_slot idx l sd = sd\<lparr>buffer := (buffer sd)[unat idx := l]\<rparr>"

text \<open>The two \<open>unlink\<close>s: they do not touch the ends of the list.\<close>

definition tk_unlink :: "addr \<Rightarrow> block_heap \<Rightarrow> block_heap option" where
  "tk_unlink n h = do {
     b \<leftarrow> h n;
     h \<leftarrow> (case ob_prev b of Some p \<Rightarrow> put_next heap_ops h p (ob_next b) | None \<Rightarrow> Some h);
     b \<leftarrow> h n;
     h \<leftarrow> (case ob_next b of Some q \<Rightarrow> put_prev heap_ops h q (ob_prev b) | None \<Rightarrow> Some h);
     h \<leftarrow> put_prev heap_ops h n None;
     put_next heap_ops h n None }"

text \<open>Linking a new block at the end of its level.\<close>

definition tk_append :: "(addr set \<Rightarrow> addr) \<Rightarrow> order \<Rightarrow> tick_side \<Rightarrow> (tick_side \<times> addr) option" where
  "tk_append new x sd = (case new_block new x (tick_heap sd) of (new_node, h) \<Rightarrow> do {
     l \<leftarrow> slot sd (ord_price x);
     case l of
       None \<Rightarrow> Some ((set_slot (ord_price x) (Some \<lparr>head = Some new_node, tail = Some new_node\<rparr>) sd)\<lparr>tick_heap := h\<rparr>, new_node)
     | Some lst \<Rightarrow> do {
         h \<leftarrow> put_prev heap_ops h new_node (tail lst);
         h \<leftarrow> put_next heap_ops h new_node None;
         t \<leftarrow> tail lst;
         h \<leftarrow> put_next heap_ops h t (Some new_node);
         Some ((set_slot (ord_price x) (Some (lst\<lparr>tail := Some new_node\<rparr>)) sd)\<lparr>tick_heap := h\<rparr>, new_node) } })"

text \<open>The cursor loops.\<close>

function tk_retreat :: "tick_side \<Rightarrow> tick_side option" where
  "tk_retreat sd =
     (if 0 < best sd
      then do {
        l \<leftarrow> slot sd (best sd);
        if l = None then tk_retreat (sd\<lparr>best := best sd - 1\<rparr>) else Some sd }
      else Some sd)"
  by pat_completeness auto
termination
  by (relation "measure (\<lambda>sd. unat (best sd))") (auto simp: unat_pred word_gt_0 unat_gt_0)

function tk_advance :: "tick_side \<Rightarrow> tick_side option" where
  "tk_advance sd =
     (if best sd < Size sd
      then do {
        l \<leftarrow> slot sd (best sd);
        if l = None then tk_advance (sd\<lparr>best := best sd + 1\<rparr>) else Some sd }
      else Some sd)"
  by pat_completeness auto
termination
  by (relation "measure (\<lambda>sd. unat (Size sd) - unat (best sd))")
    (auto simp: Size_def unat_Suc_bound word_less_nat_alt)

declare tk_retreat.simps [simp del] tk_advance.simps [simp del]

text \<open>The first block of the best level and its order.\<close>

definition best_head :: "tick_side \<Rightarrow> (addr \<times> order) option" where
  "best_head sd = do {
     l \<leftarrow> slot sd (best sd);
     lst \<leftarrow> l;
     n \<leftarrow> head lst;
     x \<leftarrow> ord_at (tick_heap sd) n;
     Some (n, x) }"

definition tk_write :: "addr \<Rightarrow> order \<Rightarrow> tick_side \<Rightarrow> tick_side option" where
  "tk_write p x sd = do { h \<leftarrow> write_order p x (tick_heap sd); Some (sd\<lparr>tick_heap := h\<rparr>) }"

text \<open>Removing the first block of the best level: the index entry, the level or its head, the links
  and the block itself.\<close>

definition tk_pop :: "tick_side \<Rightarrow> tick_side option" where
  "tk_pop sd = do {
     (n, x) \<leftarrow> best_head sd;
     let sd = sd\<lparr>keys := (keys sd)(ord_id x := None)\<rparr>;
     b \<leftarrow> tick_heap sd n;
     sd \<leftarrow> (case ob_next b of
         None \<Rightarrow> Some (set_slot (best sd) None sd)
       | Some nx \<Rightarrow> do {
           l \<leftarrow> slot sd (best sd);
           lst \<leftarrow> l;
           h \<leftarrow> put_prev heap_ops (tick_heap sd) nx None;
           Some ((set_slot (best sd) (Some (lst\<lparr>head := Some nx\<rparr>)) sd)\<lparr>tick_heap := h\<rparr>) });
     h \<leftarrow> tk_unlink n (tick_heap sd);
     h \<leftarrow> delete_block n h;
     Some (sd\<lparr>tick_heap := h\<rparr>) }"

partial_function (option) tk_match_loop ::
  "bool \<Rightarrow> OrderBook_TickOffset \<Rightarrow> (OrderBook_TickOffset \<times> bool) option" where
  "tk_match_loop res s =
     (if 0 < best (tk_buy s) \<and> best (tk_sell s) < Size (tk_sell s) \<and> best (tk_buy s) \<ge> best (tk_sell s)
      then do {
        (p, b) \<leftarrow> best_head (tk_buy s);
        (q, a) \<leftarrow> best_head (tk_sell s);
        let fill = fill_of b a;
        buy \<leftarrow> tk_write p (reduce fill b) (tk_buy s);
        sell \<leftarrow> tk_write q (reduce fill a) (tk_sell s);
        let pop_b = (ord_size (reduce fill b) = 0);
        let pop_s = (ord_size (reduce fill a) = 0);
        buy \<leftarrow> (if pop_b then do { buy \<leftarrow> tk_pop buy; tk_retreat buy } else Some buy);
        sell \<leftarrow> (if pop_s then do { sell \<leftarrow> tk_pop sell; tk_advance sell } else Some sell);
        tk_match_loop True (s\<lparr>tk_buy := buy, tk_sell := sell\<rparr>) }
      else Some (s, res))"

definition tk_match :: "OrderBook_TickOffset \<Rightarrow> (OrderBook_TickOffset \<times> bool) option" where
  "tk_match s = tk_match_loop False s"

definition tk_insert_buy_order ::
  "(addr set \<Rightarrow> addr) \<Rightarrow> BuyOrder \<Rightarrow> OrderBook_TickOffset \<Rightarrow> (OrderBook_TickOffset \<times> u64) option" where
  "tk_insert_buy_order new x s =
     (if ord_price x = 0 \<or> ord_price x \<ge> Size (tk_buy s) then Some (s, 0)
      else do {
        let x = x\<lparr>ord_id := tk_counter s\<rparr>;
        let s = s\<lparr>tk_counter := tk_counter s + 1\<rparr>;
        (buy, new_node) \<leftarrow> tk_append new x (tk_buy s);
        let buy = buy\<lparr>best := (if best buy = 0 then ord_price x else max (best buy) (ord_price x))\<rparr>;
        let buy = buy\<lparr>keys := (keys buy)(ord_id x \<mapsto> new_node)\<rparr>;
        (s, _) \<leftarrow> tk_match (s\<lparr>tk_buy := buy\<rparr>);
        Some (s, ord_id x) })"

definition tk_insert_sell_order ::
  "(addr set \<Rightarrow> addr) \<Rightarrow> SellOrder \<Rightarrow> OrderBook_TickOffset \<Rightarrow> (OrderBook_TickOffset \<times> u64) option" where
  "tk_insert_sell_order new x s =
     (if ord_price x = 0 \<or> ord_price x \<ge> Size (tk_sell s) then Some (s, 0)
      else do {
        let x = x\<lparr>ord_id := tk_counter s\<rparr>;
        let s = s\<lparr>tk_counter := tk_counter s + 1\<rparr>;
        (sell, new_node) \<leftarrow> tk_append new x (tk_sell s);
        let sell = sell\<lparr>best := (if best sell = Size sell then ord_price x else min (best sell) (ord_price x))\<rparr>;
        let sell = sell\<lparr>keys := (keys sell)(ord_id x \<mapsto> new_node)\<rparr>;
        (s, _) \<leftarrow> tk_match (s\<lparr>tk_sell := sell\<rparr>);
        Some (s, ord_id x) })"

text \<open>The part of the two cancel operations before the cursor loop.\<close>

definition tk_remove :: "addr \<Rightarrow> tick_side \<Rightarrow> tick_side option" where
  "tk_remove n sd = do {
     b \<leftarrow> tick_heap sd n;
     let price = ord_price (ob_order b);
     l \<leftarrow> slot sd price;
     sd \<leftarrow> (if ob_prev b = None \<and> ob_next b = None then Some (set_slot price None sd)
            else if ob_next b = None then do { lst \<leftarrow> l; Some (set_slot price (Some (lst\<lparr>tail := ob_prev b\<rparr>)) sd) }
            else if ob_prev b = None then do { lst \<leftarrow> l; Some (set_slot price (Some (lst\<lparr>head := ob_next b\<rparr>)) sd) }
            else Some sd);
     h \<leftarrow> tk_unlink n (tick_heap sd);
     b \<leftarrow> h n;
     let sd = sd\<lparr>keys := (keys sd)(ord_id (ob_order b) := None)\<rparr>;
     h \<leftarrow> delete_block n h;
     Some (sd\<lparr>tick_heap := h\<rparr>) }"

definition tk_cancel_buy_order :: "u64 \<Rightarrow> OrderBook_TickOffset \<Rightarrow> (OrderBook_TickOffset \<times> u64) option" where
  "tk_cancel_buy_order i s = (case keys (tk_buy s) i of
       None \<Rightarrow> Some (s, 0)
     | Some n \<Rightarrow> do { buy \<leftarrow> tk_remove n (tk_buy s); buy \<leftarrow> tk_retreat buy; Some (s\<lparr>tk_buy := buy\<rparr>, i) })"

definition tk_cancel_sell_order :: "u64 \<Rightarrow> OrderBook_TickOffset \<Rightarrow> (OrderBook_TickOffset \<times> u64) option" where
  "tk_cancel_sell_order i s = (case keys (tk_sell s) i of
       None \<Rightarrow> Some (s, 0)
     | Some n \<Rightarrow> do { sell \<leftarrow> tk_remove n (tk_sell s); sell \<leftarrow> tk_advance sell; Some (s\<lparr>tk_sell := sell\<rparr>, i) })"

text \<open>The loops of the two market operations.\<close>

partial_function (option) tk_sweep_sell :: "u64 \<Rightarrow> u64 \<Rightarrow> tick_side \<Rightarrow> (u64 \<times> tick_side) option" where
  "tk_sweep_sell remaining last_id sd =
     (if 0 < remaining \<and> best sd < Size sd
      then do {
        (n, x) \<leftarrow> best_head sd;
        let last_id = ord_id x;
        if ucast (ord_size x) \<le> remaining
        then do {
          sd \<leftarrow> tk_pop sd;
          sd \<leftarrow> tk_advance sd;
          tk_sweep_sell (remaining - ucast (ord_size x)) last_id sd }
        else do {
          sd \<leftarrow> tk_write n (reduce remaining x) sd;
          tk_sweep_sell 0 last_id sd } }
      else Some (last_id, sd))"

partial_function (option) tk_sweep_buy :: "u64 \<Rightarrow> u64 \<Rightarrow> tick_side \<Rightarrow> (u64 \<times> tick_side) option" where
  "tk_sweep_buy remaining last_id sd =
     (if 0 < remaining \<and> 0 < best sd
      then do {
        (n, x) \<leftarrow> best_head sd;
        let last_id = ord_id x;
        if ucast (ord_size x) \<le> remaining
        then do {
          sd \<leftarrow> tk_pop sd;
          sd \<leftarrow> tk_retreat sd;
          tk_sweep_buy (remaining - ucast (ord_size x)) last_id sd }
        else do {
          sd \<leftarrow> tk_write n (reduce remaining x) sd;
          tk_sweep_buy 0 last_id sd } }
      else Some (last_id, sd))"

definition tk_market_buy_order ::
  "(addr set \<Rightarrow> addr) \<Rightarrow> BuyOrder \<Rightarrow> OrderBook_TickOffset \<Rightarrow> (OrderBook_TickOffset \<times> u64) option" where
  "tk_market_buy_order new x s = do {
     (last_id, sell) \<leftarrow> tk_sweep_sell (ucast (ord_size x)) 0 (tk_sell s);
     let s = s\<lparr>tk_sell := sell\<rparr>;
     if last_id = 0 then tk_insert_buy_order new (x\<lparr>ord_price := Size (tk_buy s) - 1\<rparr>) s else Some (s, last_id) }"

definition tk_market_sell_order ::
  "(addr set \<Rightarrow> addr) \<Rightarrow> SellOrder \<Rightarrow> OrderBook_TickOffset \<Rightarrow> (OrderBook_TickOffset \<times> u64) option" where
  "tk_market_sell_order new x s = do {
     (last_id, buy) \<leftarrow> tk_sweep_buy (ucast (ord_size x)) 0 (tk_buy s);
     let s = s\<lparr>tk_buy := buy\<rparr>;
     if last_id = 0 then tk_insert_sell_order new (x\<lparr>ord_price := 1\<rparr>) s else Some (s, last_id) }"

definition tk_top_of_book :: "OrderBook_TickOffset \<Rightarrow> (BuyOrder \<times> SellOrder) option" where
  "tk_top_of_book s = do {
     b \<leftarrow> (if best (tk_buy s) \<noteq> 0 then do { (_, x) \<leftarrow> best_head (tk_buy s); Some x } else Some order_default);
     a \<leftarrow> (if best (tk_sell s) \<noteq> Size (tk_sell s) then do { (_, x) \<leftarrow> best_head (tk_sell s); Some x } else Some order_default);
     Some (b, a) }"

text \<open>The destructor: for every level, the chains of both sides.\<close>

fun tk_free_levels ::
  "OrderList option list \<Rightarrow> OrderList option list \<Rightarrow> block_heap \<Rightarrow> block_heap \<Rightarrow> (block_heap \<times> block_heap) option" where
  "tk_free_levels (b # bs) (a # as) hb ha = do {
     hb \<leftarrow> (case b of None \<Rightarrow> Some hb | Some l \<Rightarrow> free_chain hb (head l));
     ha \<leftarrow> (case a of None \<Rightarrow> Some ha | Some l \<Rightarrow> free_chain ha (head l));
     tk_free_levels bs as hb ha }"
| "tk_free_levels _ _ hb ha = Some (hb, ha)"

definition tk_destroy :: "OrderBook_TickOffset \<Rightarrow> (block_heap \<times> block_heap) option" where
  "tk_destroy s = tk_free_levels (buffer (tk_buy s)) (buffer (tk_sell s)) (tick_heap (tk_buy s)) (tick_heap (tk_sell s))"

section \<open>The levels of a side\<close>

definition level_ok :: "block_heap \<Rightarrow> OrderList option \<Rightarrow> addr list \<Rightarrow> bool" where
  "level_ok h l ps \<longleftrightarrow> (case l of None \<Rightarrow> ps = [] | Some l \<Rightarrow> ps \<noteq> [] \<and> list_rep heap_ops h l ps)"

definition tside :: "tick_side \<Rightarrow> (nat \<Rightarrow> addr list) \<Rightarrow> bool" where
  "tside sd L \<longleftrightarrow>
     (\<forall>i<length (buffer sd). level_ok (tick_heap sd) (buffer sd ! i) (L i)) \<and>
     (\<forall>i<length (buffer sd). \<forall>j<length (buffer sd). i \<noteq> j \<longrightarrow> set (L i) \<inter> set (L j) = {}) \<and>
     dom (tick_heap sd) = (\<Union>i<length (buffer sd). set (L i)) \<and>
     (\<forall>i<length (buffer sd). \<forall>p\<in>set (L i). \<exists>x. ord_at (tick_heap sd) p = Some x \<and> ord_price x = of_nat i) \<and>
     index_ok (keys sd) (tick_heap sd)"

lemma level_ok_cong:
  assumes "level_ok h l ps" "\<And>p. p \<in> set ps \<Longrightarrow> h' p = h p"
  shows "level_ok h' l ps"
  using assms list_rep_cong [of ps heap_ops h h'] by (auto simp: level_ok_def split: option.splits)

lemma tside_level: "tside sd L \<Longrightarrow> i < length (buffer sd) \<Longrightarrow> level_ok (tick_heap sd) (buffer sd ! i) (L i)"
  by (simp add: tside_def)

lemma tside_order:
  "tside sd L \<Longrightarrow> i < length (buffer sd) \<Longrightarrow> p \<in> set (L i) \<Longrightarrow> \<exists>x. ord_at (tick_heap sd) p = Some x \<and> ord_price x = of_nat i"
  by (simp add: tside_def)

lemma tside_cons_level:
  assumes "tside sd L" "i < length (buffer sd)" "L i \<noteq> []"
  obtains l where "buffer sd ! i = Some l" "list_rep heap_ops (tick_heap sd) l (L i)"
  using tside_level [OF assms(1,2)] assms(3) by (auto simp: level_ok_def split: option.splits)

text \<open>Changing one level, the heap outside the other levels and the index.\<close>

lemma tside_update:
  assumes t: "tside sd L" and i: "i < length (buffer sd)"
    and lv: "level_ok h' l' ps'"
    and fr: "\<And>j p. j < length (buffer sd) \<Longrightarrow> j \<noteq> i \<Longrightarrow> p \<in> set (L j) \<Longrightarrow> h' p = tick_heap sd p \<and> p \<notin> set ps'"
    and dm: "dom h' = (dom (tick_heap sd) - set (L i)) \<union> set ps'"
    and pr: "\<And>p. p \<in> set ps' \<Longrightarrow> \<exists>x. ord_at h' p = Some x \<and> ord_price x = of_nat i"
    and ix: "index_ok k' h'"
  shows "tside (sd\<lparr>buffer := (buffer sd)[i := l'], tick_heap := h', keys := k', best := c\<rparr>) (L(i := ps'))"
proof -
  let ?n = "length (buffer sd)"
  have "level_ok h' ((buffer sd)[i := l'] ! j) ((L(i := ps')) j)" if "j < ?n" for j
    using that lv level_ok_cong [OF tside_level [OF t that]] fr i by (cases "j = i") auto
  moreover have "set ((L(i := ps')) j) \<inter> set ((L(i := ps')) k) = {}" if "j < ?n" "k < ?n" "j \<noteq> k" for j k
    using that t fr [of j] fr [of k] by (auto simp: tside_def)
  moreover have "dom h' = (\<Union>j<?n. set ((L(i := ps')) j))"
  proof -
    have "dom (tick_heap sd) = (\<Union>j<?n. set (L j))" using t by (simp add: tside_def)
    moreover have "p \<notin> set (L i)" if "j < ?n" "j \<noteq> i" "p \<in> set (L j)" for j p
      using t that i by (auto simp: tside_def)
    ultimately have "dom (tick_heap sd) - set (L i) = (\<Union>j\<in>{..<?n} - {i}. set (L j))" by (auto split: if_splits)
    then show ?thesis unfolding dm using i by (auto split: if_splits)
  qed
  moreover have "\<exists>x. ord_at h' p = Some x \<and> ord_price x = of_nat j" if "j < ?n" "p \<in> set ((L(i := ps')) j)" for j p
    using that pr fr [of j p] tside_order [OF t that(1), of p] by (cases "j = i") (auto simp: ord_at_def)
  ultimately show ?thesis using ix by (simp add: tside_def)
qed

lemma slot_sel [simp]:
  "slot (sd\<lparr>keys := k\<rparr>) i = slot sd i" "slot (sd\<lparr>tick_heap := h\<rparr>) i = slot sd i" "slot (sd\<lparr>best := c\<rparr>) i = slot sd i"
  by (simp_all add: slot_def)

lemma keys_buffer_commute: "sd\<lparr>keys := k, buffer := f\<rparr> = sd\<lparr>buffer := f, keys := k\<rparr>"
  by simp

lemma tside_best [simp]: "tside (sd\<lparr>best := c\<rparr>) L = tside sd L"
  by (simp add: tside_def)

text \<open>\<open>unlink\<close> with the ends adjusted by the caller is the general \<open>unlink_node\<close>.\<close>

lemma tk_unlink_eq:
  assumes rep: "list_rep heap_ops h l (as @ n # bs)" and un: "unlink_node heap_ops h l n = Some (h', l')"
  shows "tk_unlink n h = Some h' \<and>
    l' = l\<lparr>head := (if as = [] then head_opt bs else head l), tail := (if bs = [] then last_opt as else tail l)\<rparr>"
proof -
  from rep have d: "dll heap_ops h None (as @ n # bs) None" "distinct (as @ n # bs)" by (auto simp: list_rep_def)
  from d(1) obtain b where b: "h n = Some b" "ob_prev b = last_opt as" "ob_next b = head_opt bs"
    by (auto simp: dll_append split: if_splits)
  show ?thesis
  proof (cases as rule: rev_cases)
    case Nil
    then show ?thesis using un b d by (cases bs) (auto simp: unlink_node_def tk_unlink_def bind_Some_iff)
  next
    case (snoc cs p)
    then have p: "p \<noteq> n" using d(2) by auto
    obtain h1 where h1: "put_next heap_ops h p (head_opt bs) = Some h1"
      using un b by (auto simp: snoc unlink_node_def bind_Some_iff)
    then have "h1 n = Some b" using b(1) p by (auto simp: put_next_def bind_Some_iff split: if_splits)
    then show ?thesis
      using un b h1 by (cases bs) (auto simp: snoc unlink_node_def tk_unlink_def bind_Some_iff)
  qed
qed

lemma unat_of_nat_level: "i < length (buffer sd) \<Longrightarrow> length (buffer sd) < 2 ^ 64 \<Longrightarrow> unat (of_nat i :: u64) = i"
  by (simp add: unat_of_nat_small)

lemma tk_remove_ok:
  assumes t: "tside sd L" and n: "length (buffer sd) < 2 ^ 64"
    and i: "i < length (buffer sd)" and L: "L i = as @ p # bs" and x: "ord_at (tick_heap sd) p = Some x"
  shows "\<exists>sd'. tk_remove p sd = Some sd' \<and> tside sd' (L(i := as @ bs)) \<and>
    ord_at (tick_heap sd') = (ord_at (tick_heap sd))(p := None) \<and> best sd' = best sd \<and>
    length (buffer sd') = length (buffer sd)"
proof -
  let ?h = "tick_heap sd"
  obtain l where l: "buffer sd ! i = Some l" and rep: "list_rep heap_ops ?h l (as @ p # bs)"
    using tside_cons_level [OF t i] L by (metis append_is_Nil_conv list.distinct(1))
  have xi: "ord_price x = of_nat i" using tside_order [OF t i, of p] x L by auto
  obtain h' l' where un: "unlink_node heap_ops ?h l p = Some (h', l')" and rep': "list_rep heap_ops h' l' (as @ bs)"
    and dh: "dom ?h = dom h'" and fr: "\<And>a. a \<notin> set (as @ p # bs) \<Longrightarrow> load_node heap_ops h' a = load_node heap_ops ?h a"
    and pay: "\<And>a. map_option ob_order (load_node heap_ops h' a) = map_option ob_order (load_node heap_ops ?h a)"
    by (rule blocks.unlink_node_ok [OF rep]) (rule that)
  note tu = tk_unlink_eq [OF rep un]
  have oa: "ord_at h' = ord_at ?h" using pay by (simp add: ord_at_def fun_eq_iff)
  from rep have d: "dll heap_ops ?h None (as @ p # bs) None" "distinct (as @ p # bs)"
    and e: "head l = head_opt (as @ p # bs)" "tail l = last_opt (as @ p # bs)" by (auto simp: list_rep_def)
  from d(1) obtain b where b: "?h p = Some b" "ob_prev b = last_opt as" "ob_next b = head_opt bs"
    by (auto simp: dll_append split: if_splits)
  have bx: "ob_order b = x" using x b(1) by (simp add: ord_at_def)
  obtain b' where b': "h' p = Some b'" "ob_order b' = x" using ord_at_SomeD [of h' p x] oa x by auto
  define new_slot where "new_slot = (if as = [] \<and> bs = [] then None else Some l')"
  have slot_i: "slot sd (of_nat i) = Some (Some l)" using i n l by (simp add: slot_def unat_of_nat_level)
  have "tk_remove p sd = Some (sd\<lparr>buffer := (buffer sd)[i := new_slot], tick_heap := h'(p := None),
      keys := (keys sd)(ord_id x := None), best := best sd\<rparr>)"
  proof -
    have "(buffer sd)[i := Some l] = buffer sd" using l by (metis list_update_id)
    moreover have "l\<lparr>head := head l, tail := tail l\<rparr> = l" by simp
    ultimately show ?thesis
      using b bx b' xi slot_i tu i n
      by (cases as rule: rev_cases; cases bs)
        (auto simp: tk_remove_def Let_def new_slot_def set_slot_def delete_block_def unat_of_nat_level)
  qed
  moreover have "tside (sd\<lparr>buffer := (buffer sd)[i := new_slot], tick_heap := h'(p := None),
      keys := (keys sd)(ord_id x := None), best := best sd\<rparr>) (L(i := as @ bs))"
  proof (rule tside_update [OF t i])
    have "p \<notin> set (as @ bs)" using d(2) by auto
    then have "list_rep heap_ops (h'(p := None)) l' (as @ bs)"
      using rep' by (subst list_rep_cong [where s' = h']) auto
    then show "level_ok (h'(p := None)) new_slot (as @ bs)" by (auto simp: level_ok_def new_slot_def)
    show "(h'(p := None)) q = ?h q \<and> q \<notin> set (as @ bs)" if "j < length (buffer sd)" "j \<noteq> i" "q \<in> set (L j)" for j q
    proof -
      have "q \<notin> set (L i)" using t that i by (auto simp: tside_def)
      then show ?thesis using fr [of q] L by auto
    qed
    show "dom (h'(p := None)) = (dom ?h - set (L i)) \<union> set (as @ bs)"
    proof -
      have "set (L i) \<subseteq> dom ?h" using t i by (auto simp: tside_def)
      then show ?thesis using dh L d(2) by auto
    qed
    show "\<exists>x. ord_at (h'(p := None)) q = Some x \<and> ord_price x = of_nat i" if "q \<in> set (as @ bs)" for q
      using tside_order [OF t i, of q] that L d(2) by (auto simp: oa)
    show "index_ok ((keys sd)(ord_id x := None)) (h'(p := None))"
      using t x index_ok_cong [OF oa, of "keys sd"] by (intro index_ok_delete) (auto simp: tside_def oa)
  qed
  ultimately show ?thesis by (simp add: oa)
qed

text \<open>Popping the head of the best level is removing it.\<close>

lemma tk_pop_remove:
  assumes t: "tside sd L" and n: "length (buffer sd) < 2 ^ 64"
    and i: "unat (best sd) < length (buffer sd)" and L: "L (unat (best sd)) = p # bs"
  obtains x where "best_head sd = Some (p, x)" "ord_at (tick_heap sd) p = Some x" "ord_price x = best sd"
    "tk_pop sd = tk_remove p sd"
proof -
  let ?h = "tick_heap sd" and ?i = "unat (best sd)"
  obtain l where l: "buffer sd ! ?i = Some l" and rep: "list_rep heap_ops ?h l ([] @ p # bs)"
    using tside_cons_level [OF t i] L by (metis append_Nil list.distinct(1))
  obtain x where x: "ord_at ?h p = Some x" "ord_price x = of_nat ?i"
    using tside_order [OF t i, of p] L by auto
  then have price: "ord_price x = best sd" by simp
  from rep have d: "dll heap_ops ?h None (p # bs) None" "distinct (p # bs)" and e: "head l = Some p"
    by (auto simp: list_rep_def)
  from d(1) obtain b where b: "?h p = Some b" "ob_prev b = None" "ob_next b = head_opt bs" by (auto split: if_splits)
  have bx: "ob_order b = x" using x(1) b(1) by (simp add: ord_at_def)
  have sl: "slot sd (best sd) = Some (Some l)" using i l by (simp add: slot_def)
  have bh: "best_head sd = Some (p, x)" using sl e x(1) by (simp add: best_head_def)
  have "tk_pop sd = tk_remove p sd"
  proof (cases bs)
    case Nil
    have "tk_unlink p ?h = Some (?h(p \<mapsto> b\<lparr>ob_prev := None, ob_next := None\<rparr>))"
      using b Nil by (auto simp: tk_unlink_def put_prev_def put_next_def)
    then show ?thesis
      using bh b bx sl Nil price by (simp add: tk_pop_def tk_remove_def Let_def set_slot_def delete_block_def keys_buffer_commute)
  next
    case (Cons q cs)
    then have q: "q \<noteq> p" using d(2) by auto
    from d(1) Cons obtain bq where bq: "?h q = Some bq" by (auto split: if_splits)
    let ?hq = "?h(q \<mapsto> bq\<lparr>ob_prev := None\<rparr>)"
    have "tk_unlink p ?h = Some (?hq(p \<mapsto> b\<lparr>ob_prev := None, ob_next := None\<rparr>))"
      using b bq q Cons by (auto simp: tk_unlink_def put_prev_def put_next_def)
    moreover have "tk_unlink p ?hq = Some (?hq(p \<mapsto> b\<lparr>ob_prev := None, ob_next := None\<rparr>))"
      using b bq q Cons by (auto simp: tk_unlink_def put_prev_def put_next_def fun_upd_twist)
    moreover have "put_prev heap_ops ?h q None = Some ?hq" using bq by (auto simp: put_prev_def)
    ultimately show ?thesis
      using bh b bx sl Cons price by (simp add: tk_pop_def tk_remove_def Let_def set_slot_def delete_block_def keys_buffer_commute)
  qed
  then show ?thesis using that bh x price by blast
qed

lemma tk_write_ok:
  assumes t: "tside sd L" and i: "i < length (buffer sd)" and p: "p \<in> set (L i)"
    and x: "ord_at (tick_heap sd) p = Some x" and y: "okey y = okey x"
  shows "\<exists>sd'. tk_write p y sd = Some sd' \<and> tside sd' L \<and> ord_at (tick_heap sd') = (ord_at (tick_heap sd))(p \<mapsto> y) \<and>
    best sd' = best sd \<and> buffer sd' = buffer sd \<and> best_head sd' = (case best_head sd of Some (q, z) \<Rightarrow> Some (q, if q = p then y else z) | None \<Rightarrow> None)"
proof -
  let ?h = "tick_heap sd"
  from ord_at_SomeD [OF x] obtain n where n: "?h p = Some n" "ob_order n = x" by blast
  let ?h' = "?h(p \<mapsto> n\<lparr>ob_order := y\<rparr>)"
  have lv: "level_ok ?h' (buffer sd ! j) (L j)" if j: "j < length (buffer sd)" for j
  proof -
    have cong: "dll heap_ops ?h' q ps r = dll heap_ops ?h q ps r" for q ps r
    proof (induction ps arbitrary: q)
      case (Cons a ps)
      then show ?case using n by (cases "a = p") simp_all
    qed simp
    then show ?thesis using tside_level [OF t j] by (auto simp: level_ok_def list_rep_def split: option.splits)
  qed
  have "\<exists>z. ord_at ?h' q = Some z \<and> ord_price z = of_nat j" if jq: "j < length (buffer sd)" "q \<in> set (L j)" for j q
  proof -
    obtain z where "ord_at ?h q = Some z" "ord_price z = of_nat j" using tside_order [OF t jq] by blast
    then show ?thesis using x y by (cases "q = p") (auto simp: okey_def)
  qed
  moreover have "index_ok (keys sd) ?h'"
  proof -
    have "index_ok (keys sd) ?h" using t by (simp add: tside_def)
    then show ?thesis by (rule index_ok_write [OF _ x]) (use y in \<open>simp_all add: okey_def\<close>)
  qed
  moreover have "dom ?h' = dom ?h" using n by auto
  ultimately have "tside (sd\<lparr>tick_heap := ?h'\<rparr>) L" using t lv by (simp add: tside_def)
  moreover have "tk_write p y sd = Some (sd\<lparr>tick_heap := ?h'\<rparr>)" using n by (simp add: tk_write_def write_order_def)
  moreover have "best_head (sd\<lparr>tick_heap := ?h'\<rparr>) =
      (case best_head sd of Some (q, z) \<Rightarrow> Some (q, if q = p then y else z) | None \<Rightarrow> None)"
    using x by (auto simp: best_head_def slot_def split: Option.bind_splits option.splits)
  ultimately show ?thesis by simp
qed

lemma tk_append_ok:
  assumes t: "tside sd L" and new: "fresh_alloc new" and i: "unat (ord_price x) < length (buffer sd)"
    and k: "keys sd (ord_id x) = None"
  shows "\<exists>sd' a. tk_append new x sd = Some (sd', a) \<and>
    tside (sd'\<lparr>best := c, keys := (keys sd')(ord_id x \<mapsto> a)\<rparr>) (L(unat (ord_price x) := L (unat (ord_price x)) @ [a])) \<and>
    a \<notin> dom (tick_heap sd) \<and> ord_at (tick_heap sd') = (ord_at (tick_heap sd))(a \<mapsto> x) \<and>
    best sd' = best sd \<and> length (buffer sd') = length (buffer sd) \<and> keys sd' = keys sd"
proof -
  let ?h = "tick_heap sd" and ?i = "unat (ord_price x)"
  define a where "a = new (dom ?h)"
  let ?b = "\<lparr>ob_order = x, ob_next = None, ob_prev = None\<rparr>"
  let ?h1 = "?h(a \<mapsto> ?b)"
  have "finite (dom ?h)" using t by (simp add: tside_def)
  then have a: "a \<notin> dom ?h" using new by (simp add: fresh_alloc_def a_def)
  have aL: "a \<notin> set (L j)" if "j < length (buffer sd)" for j using a t that by (auto simp: tside_def)
  have nb: "new_block new x ?h = (a, ?h1)" by (simp add: new_block_def a_def Let_def)
  have "\<exists>h' l'. tk_append new x sd = Some ((set_slot (ord_price x) (Some l') sd)\<lparr>tick_heap := h'\<rparr>, a) \<and>
      list_rep heap_ops h' l' (L ?i @ [a]) \<and> (\<forall>q. q \<notin> set (L ?i @ [a]) \<longrightarrow> h' q = ?h1 q) \<and>
      dom h' = dom ?h1 \<and> ord_at h' = ord_at ?h1"
  proof (cases "buffer sd ! ?i")
    case None
    then have "L ?i = []" using tside_level [OF t i] by (simp add: level_ok_def)
    moreover have "list_rep heap_ops ?h1 \<lparr>head = Some a, tail = Some a\<rparr> [a]" by (simp add: list_rep_def)
    ultimately show ?thesis
      using nb None i
      by (intro exI [of _ ?h1] exI [of _ "\<lparr>head = Some a, tail = Some a\<rparr>"]) (simp add: tk_append_def slot_def)
  next
    case (Some l)
    then have rep: "list_rep heap_ops ?h l (L ?i)" and ne: "L ?i \<noteq> []" using tside_level [OF t i] by (auto simp: level_ok_def)
    have rep1: "list_rep heap_ops ?h1 l (L ?i)"
      using rep aL [OF i] by (subst list_rep_cong [where s' = ?h]) auto
    obtain h' l' where ap: "append_node heap_ops ?h1 l a = Some (h', l')" and r: "list_rep heap_ops h' l' (L ?i @ [a])"
      and dm: "dom ?h1 = dom h'" and fr: "\<And>q. q \<notin> set (L ?i @ [a]) \<Longrightarrow> load_node heap_ops h' q = load_node heap_ops ?h1 q"
      and pay: "\<And>q. map_option ob_order (load_node heap_ops h' q) = map_option ob_order (load_node heap_ops ?h1 q)"
      by (rule blocks.append_node_ok [OF rep1 aL [OF i], of ?b]) (simp, rule that)
    obtain u where u: "tail l = Some u" using rep ne by (auto simp: list_rep_def last_opt_def)
    have "tk_append new x sd = Some ((set_slot (ord_price x) (Some l') sd)\<lparr>tick_heap := h'\<rparr>, a)"
      using ap u nb Some i
      by (auto simp: append_node_def tk_append_def slot_def put_next_def put_prev_def bind_Some_iff split: if_splits)
    moreover have "ord_at h' = ord_at ?h1" using pay by (simp add: ord_at_def fun_eq_iff)
    ultimately show ?thesis using r fr dm by auto
  qed
  then obtain h' l' where ap: "tk_append new x sd = Some ((set_slot (ord_price x) (Some l') sd)\<lparr>tick_heap := h'\<rparr>, a)"
    and r: "list_rep heap_ops h' l' (L ?i @ [a])" and fr: "\<And>q. q \<notin> set (L ?i @ [a]) \<Longrightarrow> h' q = ?h1 q"
    and dm: "dom h' = dom ?h1" and oa: "ord_at h' = (ord_at ?h)(a \<mapsto> x)" by auto
  have "tside (sd\<lparr>buffer := (buffer sd)[?i := Some l'], tick_heap := h', keys := (keys sd)(ord_id x \<mapsto> a), best := c\<rparr>)
      (L(?i := L ?i @ [a]))"
  proof (rule tside_update [OF t i])
    show "level_ok h' (Some l') (L ?i @ [a])" using r by (simp add: level_ok_def)
    show "h' q = ?h q \<and> q \<notin> set (L ?i @ [a])" if "j < length (buffer sd)" "j \<noteq> ?i" "q \<in> set (L j)" for j q
    proof -
      have "q \<notin> set (L ?i)" using t that i by (auto simp: tside_def)
      moreover have "q \<noteq> a" using aL that by auto
      ultimately show ?thesis using fr [of q] by simp
    qed
    show "dom h' = (dom ?h - set (L ?i)) \<union> set (L ?i @ [a])" using dm t i by (auto simp: tside_def)
    show "\<exists>y. ord_at h' q = Some y \<and> ord_price y = of_nat ?i" if "q \<in> set (L ?i @ [a])" for q
      using tside_order [OF t i, of q] that by (auto simp: oa)
    show "index_ok ((keys sd)(ord_id x \<mapsto> a)) h'"
      using t a k oa by (intro index_ok_new [of _ ?h]) (auto simp: tside_def)
  qed
  then show ?thesis using ap a oa by (auto simp: set_slot_def tside_def)
qed

section \<open>Cursors\<close>

lemma slot_level:
  assumes "tside sd L" "i < length (buffer sd)" "unat c = i"
  shows "\<exists>l. slot sd c = Some l \<and> (l = None \<longleftrightarrow> L i = [])"
  using tside_level [OF assms(1,2)] assms(2,3) by (auto simp: slot_def level_ok_def split: option.splits)

lemma tk_retreat_ok:
  assumes "tside sd L" "unat (best sd) < length (buffer sd)" "\<forall>j. unat (best sd) < j \<and> j < length (buffer sd) \<longrightarrow> L j = []"
  shows "\<exists>k. tk_retreat sd = Some (sd\<lparr>best := k\<rparr>) \<and> best_bid_ok (length (buffer sd)) L (unat k)"
  using assms
proof (induction sd rule: tk_retreat.induct)
  case (1 sd)
  obtain l where l: "slot sd (best sd) = Some l" "l = None \<longleftrightarrow> L (unat (best sd)) = []"
    using slot_level [OF "1.prems"(1,2)] by blast
  show ?case
  proof (cases "0 < best sd \<and> l = None")
    case False
    then have "tk_retreat sd = Some (sd\<lparr>best := best sd\<rparr>)" using l by (subst tk_retreat.simps) auto
    moreover have "best_bid_ok (length (buffer sd)) L (unat (best sd))"
      using False l "1.prems" by (auto simp: best_bid_ok_def unat_gt_0 word_gt_0)
    ultimately show ?thesis by blast
  next
    case True
    have pos: "0 < best sd" and ln: "l = None" using True by auto
    have p: "unat (best sd - 1) = unat (best sd) - 1" using pos by (simp add: unat_pred word_gt_0)
    have go: "tk_retreat sd = tk_retreat (sd\<lparr>best := best sd - 1\<rparr>)" using True l by (subst tk_retreat.simps) auto
    have "L j = []" if "unat (best sd) - 1 < j" "j < length (buffer sd)" for j
      using that "1.prems"(3) l(2) ln by (cases "j = unat (best sd)") auto
    then have "\<exists>k. tk_retreat (sd\<lparr>best := best sd - 1\<rparr>) = Some (sd\<lparr>best := best sd - 1\<rparr>\<lparr>best := k\<rparr>) \<and>
        best_bid_ok (length (buffer (sd\<lparr>best := best sd - 1\<rparr>))) L (unat k)"
      by (intro "1.IH" [OF pos l(1) ln]) (use "1.prems"(1,2) p in auto)
    then show ?thesis using go by simp
  qed
qed

lemma tk_advance_ok:
  assumes "tside sd L" "length (buffer sd) < 2 ^ 64" "unat (best sd) \<le> length (buffer sd)" "\<forall>j<unat (best sd). L j = []"
  shows "\<exists>k. tk_advance sd = Some (sd\<lparr>best := k\<rparr>) \<and> best_ask_ok (length (buffer sd)) L (unat k)"
  using assms
proof (induction sd rule: tk_advance.induct)
  case (1 sd)
  have lt: "best sd < Size sd \<longleftrightarrow> unat (best sd) < length (buffer sd)"
    using "1.prems"(2) by (simp add: Size_def word_less_nat_alt unat_of_nat_small)
  show ?case
  proof (cases "unat (best sd) < length (buffer sd) \<and> L (unat (best sd)) = []")
    case False
    then have "tk_advance sd = Some (sd\<lparr>best := best sd\<rparr>)"
      using slot_level [OF "1.prems"(1) _ refl, of "best sd"] lt by (subst tk_advance.simps) auto
    moreover have "best_ask_ok (length (buffer sd)) L (unat (best sd))"
      using False "1.prems" by (auto simp: best_ask_ok_def)
    ultimately show ?thesis by blast
  next
    case True
    then obtain l where l: "slot sd (best sd) = Some l" "l = None" using slot_level [OF "1.prems"(1) _ refl] by blast
    have p: "unat (best sd + 1) = Suc (unat (best sd))" using True lt unat_Suc_bound by blast
    have go: "tk_advance sd = tk_advance (sd\<lparr>best := best sd + 1\<rparr>)" using True l lt by (subst tk_advance.simps) auto
    have "\<exists>k. tk_advance (sd\<lparr>best := best sd + 1\<rparr>) = Some (sd\<lparr>best := best sd + 1\<rparr>\<lparr>best := k\<rparr>) \<and>
        best_ask_ok (length (buffer (sd\<lparr>best := best sd + 1\<rparr>))) L (unat k)"
      by (rule "1.IH" [OF _ l]) (use True lt "1.prems" p in \<open>auto simp: less_Suc_eq\<close>)
    then show ?thesis using go by simp
  qed
qed

section \<open>A side represents a list of orders\<close>

definition ords :: "block_heap \<Rightarrow> addr list \<Rightarrow> order list" where
  "ords h ps = map (\<lambda>p. the (ord_at h p)) ps"

lemma ords_cong: "(\<And>p. p \<in> set ps \<Longrightarrow> ord_at h' p = ord_at h p) \<Longrightarrow> ords h' ps = ords h ps"
  by (simp add: ords_def)

lemma ords_append [simp]: "ords h (ps @ qs) = ords h ps @ ords h qs" "ords h (p # ps) = the (ord_at h p) # ords h ps" "ords h [] = []"
  by (simp_all add: ords_def)

text \<open>
  What the buy and the sell side have in common. \<open>ptrs\<close> strings the levels together from the best price,
  \<open>at_best\<close> says that the cursor is right, \<open>some_left\<close> is the test of the loops, \<open>move\<close> the cursor loop
  and \<open>sweep\<close> the loop of the market operation; \<open>better\<close> and \<open>gt\<close> compare prices and orders.
\<close>

locale tick_dir =
  fixes ptrs :: "nat \<Rightarrow> (nat \<Rightarrow> addr list) \<Rightarrow> addr list"
    and at_best :: "nat \<Rightarrow> (nat \<Rightarrow> addr list) \<Rightarrow> nat \<Rightarrow> bool"
    and some_left :: "tick_side \<Rightarrow> bool"
    and move :: "tick_side \<Rightarrow> tick_side option"
    and sweep :: "u64 \<Rightarrow> u64 \<Rightarrow> tick_side \<Rightarrow> (u64 \<times> tick_side) option"
    and better :: "nat \<Rightarrow> nat \<Rightarrow> bool"
    and gt :: "order \<Rightarrow> order \<Rightarrow> bool"
  assumes ptrs_upd: "i < n \<Longrightarrow> \<exists>A C. (\<forall>v. ptrs n (L(i := v)) = A @ v @ C) \<and>
      (\<forall>p\<in>set A. \<exists>j<n. p \<in> set (L j) \<and> better j i) \<and> (\<forall>p\<in>set C. \<exists>j<n. p \<in> set (L j) \<and> better i j)"
    and gt_better: "better (unat (ord_price y)) (unat (ord_price x)) \<Longrightarrow> gt y x \<and> \<not> gt x y"
    and gt_same: "ord_price y = ord_price x \<Longrightarrow> ord_id y < ord_id x \<Longrightarrow> gt y x"
    and set_ptrs: "set (ptrs n L) = (\<Union>i<n. set (L i))"
    and distinct_ptrs: "(\<forall>i<n. distinct (L i)) \<Longrightarrow> (\<forall>i<n. \<forall>j<n. i \<noteq> j \<longrightarrow> set (L i) \<inter> set (L j) = {}) \<Longrightarrow> distinct (ptrs n L)"
    and front: "at_best n L i \<Longrightarrow> i < n \<Longrightarrow> L i = p # bs \<Longrightarrow> ptrs n L = p # ptrs n (L(i := bs))"
    and best_level: "at_best (length (buffer sd)) L (unat (best sd)) \<Longrightarrow> length (buffer sd) < 2 ^ 64 \<Longrightarrow> L 0 = [] \<Longrightarrow>
      (some_left sd \<longleftrightarrow> ptrs (length (buffer sd)) L \<noteq> []) \<and>
      (some_left sd \<longrightarrow> unat (best sd) < length (buffer sd) \<and> L (unat (best sd)) \<noteq> [])"
    and move_ok: "tside sd L \<Longrightarrow> length (buffer sd) < 2 ^ 64 \<Longrightarrow> at_best (length (buffer sd)) L' (unat (best sd)) \<Longrightarrow>
      (\<forall>j. L' j = [] \<longrightarrow> L j = []) \<Longrightarrow> \<exists>k. move sd = Some (sd\<lparr>best := k\<rparr>) \<and> at_best (length (buffer sd)) L (unat k)"
    and sweep_simps: "sweep remaining last_id sd =
      (if 0 < remaining \<and> some_left sd
       then do {
         (n, x) \<leftarrow> best_head sd;
         let last_id = ord_id x;
         if ucast (ord_size x) \<le> remaining
         then do { sd \<leftarrow> tk_pop sd; sd \<leftarrow> move sd; sweep (remaining - ucast (ord_size x)) last_id sd }
         else do { sd \<leftarrow> tk_write n (reduce remaining x) sd; sweep 0 last_id sd } }
       else Some (last_id, sd))"
begin

definition srep :: "nat \<Rightarrow> tick_side \<Rightarrow> order list \<Rightarrow> bool" where
  "srep n sd xs \<longleftrightarrow> length (buffer sd) = n \<and> n < 2 ^ 64 \<and>
     (\<exists>L. tside sd L \<and> L 0 = [] \<and> at_best n L (unat (best sd)) \<and> xs = ords (tick_heap sd) (ptrs n L))"

lemma srepE:
  assumes "srep n sd xs"
  obtains L where "length (buffer sd) = n" "n < 2 ^ 64" "tside sd L" "L 0 = []" "at_best n L (unat (best sd))"
    "xs = ords (tick_heap sd) (ptrs n L)"
  using assms by (auto simp: srep_def)

lemma tside_distinct:
  assumes "tside sd L"
  shows "distinct (ptrs (length (buffer sd)) L)"
proof (rule distinct_ptrs)
  show "\<forall>i<length (buffer sd). distinct (L i)"
  proof (intro allI impI)
    fix i assume "i < length (buffer sd)"
    from tside_level [OF assms this] show "distinct (L i)" by (auto simp: level_ok_def list_rep_def split: option.splits)
  qed
  show "\<forall>i<length (buffer sd). \<forall>j<length (buffer sd). i \<noteq> j \<longrightarrow> set (L i) \<inter> set (L j) = {}"
    using assms by (simp add: tside_def)
qed

lemma srep_some_left: "srep n sd xs \<Longrightarrow> some_left sd \<longleftrightarrow> xs \<noteq> []"
  using best_level by (fastforce simp: srep_def ords_def)

text \<open>The best level of a side that is not empty.\<close>

lemma srep_best:
  assumes "srep n sd (x # xs)"
  obtains L p bs where "length (buffer sd) = n" "n < 2 ^ 64" "tside sd L" "L 0 = []" "at_best n L (unat (best sd))"
    "unat (best sd) < n" "L (unat (best sd)) = p # bs" "ptrs n L = p # ptrs n (L(unat (best sd) := bs))"
    "best_head sd = Some (p, x)" "ord_at (tick_heap sd) p = Some x" "ord_price x = best sd" "tk_pop sd = tk_remove p sd"
    "xs = ords (tick_heap sd) (ptrs n (L(unat (best sd) := bs)))"
proof -
  from assms obtain L where n: "length (buffer sd) = n" "n < 2 ^ 64" and t: "tside sd L" and L0: "L 0 = []"
    and b: "at_best n L (unat (best sd))" and xs: "x # xs = ords (tick_heap sd) (ptrs n L)" by (rule srepE)
  have "unat (best sd) < n \<and> L (unat (best sd)) \<noteq> []"
    using best_level [of sd L] n b L0 srep_some_left [OF assms] by simp
  then obtain p bs where i: "unat (best sd) < n" "L (unat (best sd)) = p # bs" by (auto simp: neq_Nil_conv)
  note pt = front [OF b i]
  obtain y where y: "best_head sd = Some (p, y)" "ord_at (tick_heap sd) p = Some y" "ord_price y = best sd"
    "tk_pop sd = tk_remove p sd"
    using tk_pop_remove [OF t, of p bs] n i by metis
  have "y = x" "xs = ords (tick_heap sd) (ptrs n (L(unat (best sd) := bs)))" using xs y(2) pt by auto
  then show ?thesis using that [OF n t L0 b i pt] y by blast
qed

lemma srep_head:
  assumes "srep n sd (x # xs)"
  shows "\<exists>p. best_head sd = Some (p, x) \<and> ord_price x = best sd"
  by (rule srep_best [OF assms]) blast

lemma srep_pop:
  assumes "srep n sd (x # xs)"
  shows "\<exists>sd1 sd2. tk_pop sd = Some sd1 \<and> move sd1 = Some sd2 \<and> srep n sd2 xs"
proof -
  obtain L p bs where n: "length (buffer sd) = n" "n < 2 ^ 64" and t: "tside sd L" and L0: "L 0 = []"
    and b: "at_best n L (unat (best sd))" and i: "unat (best sd) < n" "L (unat (best sd)) = p # bs"
    and pt: "ptrs n L = p # ptrs n (L(unat (best sd) := bs))"
    and x: "ord_at (tick_heap sd) p = Some x" and pop: "tk_pop sd = tk_remove p sd"
    and xs: "xs = ords (tick_heap sd) (ptrs n (L(unat (best sd) := bs)))"
    by (rule srep_best [OF assms])
  let ?L = "L(unat (best sd) := bs)"
  obtain sd1 where sd1: "tk_remove p sd = Some sd1" "tside sd1 ?L"
    "ord_at (tick_heap sd1) = (ord_at (tick_heap sd))(p := None)" "best sd1 = best sd" "length (buffer sd1) = n"
    using tk_remove_ok [OF t, of "unat (best sd)" "[]" p bs x] n i x by auto
  obtain k where k: "move sd1 = Some (sd1\<lparr>best := k\<rparr>)" "at_best n ?L (unat k)"
  proof -
    have "\<forall>j. L j = [] \<longrightarrow> ?L j = []" using i(2) by auto
    with move_ok [OF sd1(2), of L] sd1(4,5) n b obtain k where "move sd1 = Some (sd1\<lparr>best := k\<rparr>)" "at_best n ?L (unat k)"
      by auto
    then show thesis by (rule that)
  qed
  have "p \<notin> set (ptrs n ?L)" using tside_distinct [OF t] n pt by simp
  then have "xs = ords (tick_heap (sd1\<lparr>best := k\<rparr>)) (ptrs n ?L)"
    unfolding xs using sd1(3) by (intro ords_cong [symmetric]) auto
  moreover have "?L 0 = []" using L0 i(2) by auto
  ultimately have "srep n (sd1\<lparr>best := k\<rparr>) xs" using k(2) sd1(2,5) n unfolding srep_def by (auto intro!: exI [of _ ?L])
  then show ?thesis using pop sd1(1) k(1) by simp
qed

lemma srep_write:
  assumes "srep n sd (x # xs)" "best_head sd = Some (p, x)" "okey y = okey x"
  shows "\<exists>sd'. tk_write p y sd = Some sd' \<and> srep n sd' (y # xs)"
proof -
  obtain L q bs where n: "length (buffer sd) = n" "n < 2 ^ 64" and t: "tside sd L" and L0: "L 0 = []"
    and b: "at_best n L (unat (best sd))" and i: "unat (best sd) < n" "L (unat (best sd)) = q # bs"
    and pt: "ptrs n L = q # ptrs n (L(unat (best sd) := bs))" and bh: "best_head sd = Some (q, x)"
    and x: "ord_at (tick_heap sd) q = Some x"
    and xs: "xs = ords (tick_heap sd) (ptrs n (L(unat (best sd) := bs)))"
    by (rule srep_best [OF assms(1)])
  have p: "p = q" using bh assms(2) by simp
  obtain sd' where sd': "tk_write q y sd = Some sd'" "tside sd' L" "ord_at (tick_heap sd') = (ord_at (tick_heap sd))(q \<mapsto> y)"
    "best sd' = best sd" "buffer sd' = buffer sd"
    using tk_write_ok [OF t, of "unat (best sd)" q x y] i n x assms(3) by auto
  have "q \<notin> set (ptrs n (L(unat (best sd) := bs)))" using tside_distinct [OF t] n pt by simp
  then have "y # xs = ords (tick_heap sd') (ptrs n L)"
    unfolding xs pt using sd'(3) by (simp, intro ords_cong [symmetric]) auto
  then show ?thesis using sd' n L0 b p unfolding srep_def by (auto intro!: exI [of _ L])
qed

lemma srep_round:
  assumes "srep n sd (x # xs)" "best_head sd = Some (p, x)"
  shows "\<exists>sd1. tk_write p (reduce q x) sd = Some sd1 \<and>
    (\<exists>sd2. (if ord_size (reduce q x) = 0 then do { sd \<leftarrow> tk_pop sd1; move sd } else Some sd1) = Some sd2 \<and>
       srep n sd2 (front_after q x xs))"
proof -
  obtain sd1 where sd1: "tk_write p (reduce q x) sd = Some sd1" "srep n sd1 (reduce q x # xs)"
    using srep_write [OF assms, of "reduce q x"] by auto
  show ?thesis
  proof (cases "ord_size (reduce q x) = 0")
    case True
    then show ?thesis using srep_pop [OF sd1(2)] sd1(1) by (auto simp: front_after_def)
  qed (use sd1 in \<open>simp add: front_after_def\<close>)
qed

lemma srep_sweep:
  assumes "srep n sd xs" "sweep_market r l xs = (l', ys)"
  shows "\<exists>sd'. sweep r l sd = Some (l', sd') \<and> srep n sd' ys"
  using assms
proof (induction r l xs arbitrary: sd rule: sweep_market.induct)
  case (1 r l)
  then show ?case using srep_some_left [of n sd "[]"] by (subst sweep_simps) simp
next
  case (2 r l x xs)
  have sl: "some_left sd" using srep_some_left [OF "2.prems"(1)] by simp
  obtain p where p: "best_head sd = Some (p, x)" using srep_head [OF "2.prems"(1)] by blast
  have stop: "sweep 0 k sd' = Some (k, sd')" for k sd' by (subst sweep_simps) simp
  consider "r = 0" | "r \<noteq> 0" "ucast (ord_size x) \<le> r" | "r \<noteq> 0" "\<not> ucast (ord_size x) \<le> r" by blast
  then show ?case
  proof cases
    case 1
    then show ?thesis using "2.prems" stop by simp
  next
    case 2
    obtain sd1 sd2 where sd: "tk_pop sd = Some sd1" "move sd1 = Some sd2" "srep n sd2 xs" using srep_pop [OF "2.prems"(1)] by blast
    have "\<exists>sd'. sweep (r - ucast (ord_size x)) (ord_id x) sd2 = Some (l', sd') \<and> srep n sd' ys"
      by (rule "2.IH" [OF 2 sd(3)]) (use "2.prems"(2) 2 in simp)
    then show ?thesis using 2 p sl sd by (subst sweep_simps) (simp add: word_gt_0 Let_def)
  next
    case 3
    obtain sd1 where "tk_write p (reduce r x) sd = Some sd1" "srep n sd1 (reduce r x # xs)"
      using srep_write [OF "2.prems"(1) p, of "reduce r x"] by auto
    then show ?thesis using 3 p sl "2.prems"(2) by (subst sweep_simps) (auto simp: word_gt_0 Let_def stop)
  qed
qed

lemma tside_orders:
  assumes "tside sd L"
  shows "map (ord_at (tick_heap sd)) (ptrs (length (buffer sd)) L) = map Some (ords (tick_heap sd) (ptrs (length (buffer sd)) L))"
    and "dom (tick_heap sd) = set (ptrs (length (buffer sd)) L)" and "index_ok (keys sd) (tick_heap sd)"
proof -
  have "ord_at (tick_heap sd) p = Some (the (ord_at (tick_heap sd) p))" if "p \<in> set (ptrs (length (buffer sd)) L)" for p
    using that tside_order [OF assms] by (fastforce simp: set_ptrs)
  then show "map (ord_at (tick_heap sd)) (ptrs (length (buffer sd)) L) = map Some (ords (tick_heap sd) (ptrs (length (buffer sd)) L))"
    by (simp add: ords_def)
  show "dom (tick_heap sd) = set (ptrs (length (buffer sd)) L)" "index_ok (keys sd) (tick_heap sd)"
    using assms by (simp_all add: tside_def set_ptrs)
qed

lemma srep_key: "srep n sd xs \<Longrightarrow> keys sd i = None \<longleftrightarrow> i \<notin> ord_id ` set xs"
proof -
  assume "srep n sd xs"
  then obtain L where "length (buffer sd) = n" "tside sd L" "xs = ords (tick_heap sd) (ptrs n L)" by (rule srepE)
  then show ?thesis using index_None [OF tside_orders [of sd L], of i] by simp
qed

lemma srep_remove:
  assumes rep: "srep n sd xs" and dist: "distinct (map ord_id xs)" and key: "keys sd i = Some p"
  shows "\<exists>sd1 sd2. tk_remove p sd = Some sd1 \<and> move sd1 = Some sd2 \<and> srep n sd2 (without i xs)"
proof -
  from rep obtain L where n: "length (buffer sd) = n" "n < 2 ^ 64" and t: "tside sd L" and L0: "L 0 = []"
    and b: "at_best n L (unat (best sd))" and xs: "xs = ords (tick_heap sd) (ptrs n L)" by (rule srepE)
  obtain x where x: "ord_at (tick_heap sd) p = Some x" "ord_id x = i"
    using tside_orders(3) [OF t] key by (auto simp: index_ok_def)
  have "p \<in> dom (tick_heap sd)" using x(1) by (auto simp: ord_at_def)
  then obtain j where j: "j < n" "p \<in> set (L j)" using t n by (auto simp: tside_def)
  then obtain as bs where Lj: "L j = as @ p # bs" by (auto simp: in_set_conv_decomp)
  obtain A C where AC: "\<forall>v. ptrs n (L(j := v)) = A @ v @ C" using ptrs_upd [OF j(1), of L] by blast
  have pt: "ptrs n L = A @ (as @ p # bs) @ C" using AC Lj by (metis fun_upd_triv)
  let ?L = "L(j := as @ bs)"
  have pt': "ptrs n ?L = A @ (as @ bs) @ C" using AC by blast
  obtain sd1 where sd1: "tk_remove p sd = Some sd1" "tside sd1 ?L"
    "ord_at (tick_heap sd1) = (ord_at (tick_heap sd))(p := None)" "best sd1 = best sd" "length (buffer sd1) = n"
    using tk_remove_ok [OF t _ _ Lj x(1)] n j(1) by auto
  have "\<forall>k. L k = [] \<longrightarrow> ?L k = []" using Lj by auto
  with move_ok [OF sd1(2), of L] sd1(4,5) n b obtain k where k: "move sd1 = Some (sd1\<lparr>best := k\<rparr>)" "at_best n ?L (unat k)"
    by auto
  have "p \<notin> set (ptrs n ?L)" using tside_distinct [OF t] n unfolding pt' by (auto simp: pt)
  then have "ords (tick_heap sd1) (ptrs n ?L) = ords (tick_heap sd) (ptrs n ?L)"
    using sd1(3) by (intro ords_cong) auto
  moreover have "without i xs = ords (tick_heap sd) (ptrs n ?L)"
    using without_mid [of "ords (tick_heap sd) (A @ as)" x "ords (tick_heap sd) (bs @ C)"] dist x
    by (simp add: xs pt pt')
  moreover have "?L 0 = []" using L0 Lj by auto
  ultimately have "srep n (sd1\<lparr>best := k\<rparr>) (without i xs)"
    using k(2) sd1(2,5) n unfolding srep_def by (auto intro!: exI [of _ ?L])
  then show ?thesis using sd1(1) k(1) by simp
qed

text \<open>Appending an order to the level of its price.\<close>

lemma srep_append:
  assumes rep: "srep n sd xs" and new: "fresh_alloc new" and i: "unat (ord_price x) < n" "ord_price x \<noteq> 0"
    and id: "\<forall>y\<in>set xs. ord_id y < ord_id x"
    and cur: "\<And>L a. at_best n L (unat (best sd)) \<Longrightarrow> L 0 = [] \<Longrightarrow>
      at_best n (L(unat (ord_price x) := L (unat (ord_price x)) @ [a])) (unat c)"
  shows "\<exists>sd' a. tk_append new x sd = Some (sd', a) \<and> best sd' = best sd \<and> keys sd' = keys sd \<and>
    length (buffer sd') = length (buffer sd) \<and>
    srep n (sd'\<lparr>best := c, keys := (keys sd')(ord_id x \<mapsto> a)\<rparr>) (place gt x xs)"
proof -
  from rep obtain L where n: "length (buffer sd) = n" "n < 2 ^ 64" and t: "tside sd L" and L0: "L 0 = []"
    and b: "at_best n L (unat (best sd))" and xs: "xs = ords (tick_heap sd) (ptrs n L)" by (rule srepE)
  let ?i = "unat (ord_price x)"
  have key: "keys sd (ord_id x) = None" using srep_key [OF rep] id by fastforce
  obtain sd' a where ap: "tk_append new x sd = Some (sd', a)"
    and t': "tside (sd'\<lparr>best := c, keys := (keys sd')(ord_id x \<mapsto> a)\<rparr>) (L(?i := L ?i @ [a]))"
    and a: "a \<notin> dom (tick_heap sd)" and oa: "ord_at (tick_heap sd') = (ord_at (tick_heap sd))(a \<mapsto> x)"
    and sel: "best sd' = best sd" "length (buffer sd') = length (buffer sd)" "keys sd' = keys sd"
    using tk_append_ok [OF t new _ key, of c] i n by blast
  obtain A C where AC: "\<forall>v. ptrs n (L(?i := v)) = A @ v @ C"
    and bt: "\<forall>p\<in>set A. \<exists>j<n. p \<in> set (L j) \<and> better j ?i" "\<forall>p\<in>set C. \<exists>j<n. p \<in> set (L j) \<and> better ?i j"
    using ptrs_upd [OF i(1), of L] by blast
  have pt: "ptrs n L = A @ L ?i @ C" using AC by (metis fun_upd_triv)
  have price: "\<exists>y. ord_at (tick_heap sd) p = Some y \<and> unat (ord_price y) = j" if pj: "j < n" "p \<in> set (L j)" for j p
    using tside_order [OF t _ pj(2)] pj(1) n by (auto simp: unat_of_nat_small)
  have pl: "place gt x (ords (tick_heap sd) (A @ L ?i) @ ords (tick_heap sd) C) =
      ords (tick_heap sd) (A @ L ?i) @ x # ords (tick_heap sd) C"
  proof (rule place_split)
    have "gt (the (ord_at (tick_heap sd) p)) x" if p: "p \<in> set (A @ L ?i)" for p
    proof -
      consider j where "j < n" "p \<in> set (L j)" "better j ?i" | "p \<in> set (L ?i)" using p bt(1) by auto
      then show ?thesis
      proof cases
        case 1
        then show ?thesis using price [OF 1(1,2)] gt_better by fastforce
      next
        case 2
        then obtain y where y: "ord_at (tick_heap sd) p = Some y" "unat (ord_price y) = ?i" using price [OF i(1)] by blast
        have "p \<in> set (ptrs n L)" using 2 pt by simp
        then have "y \<in> set xs" using y(1) by (force simp: xs ords_def)
        then show ?thesis using gt_same [of y x] id y by (simp add: word_unat_eq_iff)
      qed
    qed
    then show "\<forall>y\<in>set (ords (tick_heap sd) (A @ L ?i)). gt y x" by (auto simp: ords_def)
    have "\<not> gt (the (ord_at (tick_heap sd) p)) x" if p: "p \<in> set C" for p
    proof -
      obtain j where j: "j < n" "p \<in> set (L j)" "better ?i j" using p bt(2) by blast
      then show ?thesis using price [OF j(1,2)] gt_better by fastforce
    qed
    then show "\<forall>y\<in>set (ords (tick_heap sd) C). \<not> gt y x" by (auto simp: ords_def)
  qed
  have "a \<notin> set (ptrs n L)" using a tside_orders(2) [OF t] n by simp
  then have "ords (tick_heap sd') (ptrs n (L(?i := L ?i @ [a]))) =
      ords (tick_heap sd) (A @ L ?i) @ x # ords (tick_heap sd) C"
    using AC oa by (simp add: pt ords_def)
  also have "\<dots> = place gt x xs" using pl by (simp add: xs pt)
  finally have "srep n (sd'\<lparr>best := c, keys := (keys sd')(ord_id x \<mapsto> a)\<rparr>) (place gt x xs)"
    using t' n sel L0 i(2) cur [OF b L0] unfolding srep_def
    by (auto intro!: exI [of _ "L(?i := L ?i @ [a])"] simp: unat_eq_0)
  then show ?thesis using ap sel by blast
qed

end

interpretation tbuy: tick_dir bid_ptrs best_bid_ok "\<lambda>sd. 0 < best sd" tk_retreat tk_sweep_buy
  "\<lambda>i j. j < i" BuyOrder_gt
proof (unfold_locales, goal_cases)
  case (1 i n L)
  show ?case
    by (rule exI [of _ "concat (map L (rev [Suc i..<n]))"], rule exI [of _ "concat (map L (rev [0..<i]))"])
      (use 1 bid_ptrs_upd [OF 1] in \<open>auto, meson less_trans\<close>)
next
  case (2 y x)
  then show ?case by (auto simp: BuyOrder_gt_def word_less_nat_alt)
next
  case (3 y x)
  then show ?case by (simp add: BuyOrder_gt_def)
next
  case (4 n L)
  show ?case by (rule set_bid_ptrs)
next
  case (5 n L)
  then show ?case unfolding bid_ptrs_def by (intro distinct_concat_levels) auto
next
  case (6 n L i p bs)
  then show ?case by (intro bid_ptrs_front) (auto simp: best_bid_ok_def)
next
  case (7 sd L)
  have "L j = []" if "best sd = 0" "j < length (buffer sd)" for j
    using 7 that by (cases j) (auto simp: best_bid_ok_def)
  then show ?case using 7(1) by (auto simp: best_bid_ok_def bid_ptrs_Nil word_gt_0 unat_gt_0)
next
  case (8 sd L L')
  then show ?case by (intro tk_retreat_ok) (auto simp: best_bid_ok_def)
next
  case (9 r l sd)
  show ?case by (rule tk_sweep_buy.simps)
qed

interpretation tsell: tick_dir ask_ptrs best_ask_ok "\<lambda>sd. best sd < Size sd" tk_advance tk_sweep_sell
  "\<lambda>i j. i < j" SellOrder_gt
proof (unfold_locales, goal_cases)
  case (1 i n L)
  show ?case
    by (rule exI [of _ "concat (map L [0..<i])"], rule exI [of _ "concat (map L [Suc i..<n])"])
      (use 1 ask_ptrs_upd [OF 1] in \<open>auto, meson less_trans\<close>)
next
  case (2 y x)
  then show ?case by (auto simp: SellOrder_gt_def word_less_nat_alt)
next
  case (3 y x)
  then show ?case by (simp add: SellOrder_gt_def)
next
  case (4 n L)
  show ?case by (rule set_ask_ptrs)
next
  case (5 n L)
  then show ?case unfolding ask_ptrs_def by (intro distinct_concat_levels) auto
next
  case (6 n L i p bs)
  then show ?case by (intro ask_ptrs_front) (auto simp: best_ask_ok_def)
next
  case (7 sd L)
  have "best sd < Size sd \<longleftrightarrow> unat (best sd) < length (buffer sd)"
    using 7(2) by (simp add: Size_def word_less_nat_alt unat_of_nat_small)
  then show ?case using 7(1) by (auto simp: best_ask_ok_def ask_ptrs_Nil)
next
  case (8 sd L L')
  then show ?case by (intro tk_advance_ok) (auto simp: best_ask_ok_def)
next
  case (9 r l sd)
  show ?case by (rule tk_sweep_sell.simps)
qed

section \<open>The book implements the interface\<close>

definition tick_cfg :: "nat \<Rightarrow> market_cfg" where
  "tick_cfg n = \<lparr>accepts = (\<lambda>p. p \<noteq> 0 \<and> p < of_nat n), top_price = of_nat n - 1, bottom_price = 1\<rparr>"

definition tk_rep :: "(addr set \<Rightarrow> addr) \<Rightarrow> nat \<Rightarrow> OrderBook_TickOffset \<Rightarrow> limit_book \<Rightarrow> bool" where
  "tk_rep new n s B \<longleftrightarrow> fresh_alloc new \<and> book_ok (tick_cfg n) B \<and> next_id B = tk_counter s \<and>
     tbuy.srep n (tk_buy s) (bid_q B) \<and> tsell.srep n (tk_sell s) (ask_q B)"

lemma srep_Size: "tbuy.srep n sd xs \<Longrightarrow> Size sd = of_nat n" "tsell.srep n sd xs \<Longrightarrow> Size sd = of_nat n"
  by (auto simp: tbuy.srep_def tsell.srep_def Size_def)

lemma tk_match_loop_ok:
  assumes "tbuy.srep n (tk_buy s) bs" "tsell.srep n (tk_sell s) ss" "match_lists bs ss = (bs', ss')"
  shows "\<exists>buy sell r. tk_match_loop res s = Some (s\<lparr>tk_buy := buy, tk_sell := sell\<rparr>, r) \<and>
    tbuy.srep n buy bs' \<and> tsell.srep n sell ss'"
  using assms
proof (induction bs ss arbitrary: s res rule: match_lists.induct)
  case (1 ss)
  then show ?case using tbuy.srep_some_left [OF "1.prems"(1)]
    by (intro exI [of _ "tk_buy s"] exI [of _ "tk_sell s"] exI [of _ res], subst tk_match_loop.simps) auto
next
  case (2 b bs)
  then show ?case using tsell.srep_some_left [OF "2.prems"(2)]
    by (intro exI [of _ "tk_buy s"] exI [of _ "tk_sell s"] exI [of _ res], subst tk_match_loop.simps) auto
next
  case (3 b bs a as)
  obtain p where p: "best_head (tk_buy s) = Some (p, b)" "ord_price b = best (tk_buy s)"
    using tbuy.srep_head [OF "3.prems"(1)] by blast
  obtain q where q: "best_head (tk_sell s) = Some (q, a)" "ord_price a = best (tk_sell s)"
    using tsell.srep_head [OF "3.prems"(2)] by blast
  have left: "0 < best (tk_buy s)" "best (tk_sell s) < Size (tk_sell s)"
    using tbuy.srep_some_left [OF "3.prems"(1)] tsell.srep_some_left [OF "3.prems"(2)] by simp_all
  show ?case
  proof (cases "ord_price b \<ge> ord_price a")
    case False
    then show ?thesis using p q "3.prems"
      by (intro exI [of _ "tk_buy s"] exI [of _ "tk_sell s"] exI [of _ res], subst tk_match_loop.simps) auto
  next
    case True
    let ?f = "fill_of b a"
    obtain b1 b2 where b: "tk_write p (reduce ?f b) (tk_buy s) = Some b1"
      "(if ord_size (reduce ?f b) = 0 then do { sd \<leftarrow> tk_pop b1; tk_retreat sd } else Some b1) = Some b2"
      "tbuy.srep n b2 (front_after ?f b bs)" using tbuy.srep_round [OF "3.prems"(1) p(1)] by blast
    obtain a1 a2 where a: "tk_write q (reduce ?f a) (tk_sell s) = Some a1"
      "(if ord_size (reduce ?f a) = 0 then do { sd \<leftarrow> tk_pop a1; tk_advance sd } else Some a1) = Some a2"
      "tsell.srep n a2 (front_after ?f a as)" using tsell.srep_round [OF "3.prems"(2) q(1)] by blast
    let ?s = "s\<lparr>tk_buy := b2, tk_sell := a2\<rparr>"
    have "tk_match_loop res s = tk_match_loop True ?s"
      using True left p q a(1,2) b(1,2) by (subst tk_match_loop.simps) (simp add: Let_def)
    moreover have "\<exists>buy sell r. tk_match_loop True ?s = Some (?s\<lparr>tk_buy := buy, tk_sell := sell\<rparr>, r) \<and>
        tbuy.srep n buy bs' \<and> tsell.srep n sell ss'"
      by (rule "3.IH" [OF True]) (use a(3) b(3) "3.prems"(3) True in simp_all)
    ultimately show ?thesis by simp
  qed
qed

text \<open>The new cursor after an insertion.\<close>

lemma best_bid_insert:
  assumes "best_bid_ok n L (unat (c :: u64))" "L 0 = []" "unat i < n"
  shows "best_bid_ok n (L(unat i := L (unat i) @ [a])) (unat (if c = 0 then i else max c i))"
proof (cases "c = 0")
  case True
  then have "L j = []" if "j < n" for j using assms that by (cases j) (auto simp: best_bid_ok_def)
  then show ?thesis using True assms by (auto simp: best_bid_ok_def)
next
  case False
  then have "L (unat c) \<noteq> []" using assms(1) by (simp add: best_bid_ok_def unat_gt_0)
  then show ?thesis using False assms by (auto simp: best_bid_ok_def max_def word_le_nat_alt)
qed

lemma best_ask_insert:
  assumes "best_ask_ok n L (unat (c :: u64))" "n < 2 ^ 64" "unat i < n"
  shows "best_ask_ok n (L(unat i := L (unat i) @ [a])) (unat (if c = of_nat n then i else min c i))"
proof (cases "c = of_nat n")
  case True
  then have "unat c = n" using assms(2) by (simp add: unat_of_nat_small)
  then show ?thesis using True assms by (auto simp: best_ask_ok_def)
next
  case False
  have "unat c \<noteq> n"
  proof
    assume "unat c = n"
    then have "c = of_nat n" by auto
    then show False using False by simp
  qed
  then have "L (unat c) \<noteq> []" using assms(1) by (auto simp: best_ask_ok_def)
  then show ?thesis using False assms by (auto simp: best_ask_ok_def min_def word_le_nat_alt)
qed

lemma tick_cfg_accepts:
  assumes "n < 2 ^ 64"
  shows "accepts (tick_cfg n) p \<longleftrightarrow> \<not> (p = 0 \<or> of_nat n \<le> p)" "accepts (tick_cfg n) p \<Longrightarrow> unat p < n \<and> p \<noteq> 0"
  using assms by (auto simp: tick_cfg_def word_less_nat_alt word_le_nat_alt unat_of_nat_small not_less)

lemma tk_insert_buy_ok:
  assumes rep: "tk_rep new n s B" and nx: "unat (next_id B) + 1 < 2 ^ 64"
  shows "\<exists>s'. tk_insert_buy_order new x s = Some (s', snd (book_insert_buy (tick_cfg n) x B)) \<and>
    tk_rep new n s' (fst (book_insert_buy (tick_cfg n) x B))"
proof -
  have ok: "book_ok (tick_cfg n) B" and c: "next_id B = tk_counter s" and new: "fresh_alloc new"
    and sides: "tbuy.srep n (tk_buy s) (bid_q B)" "tsell.srep n (tk_sell s) (ask_q B)"
    using rep by (auto simp: tk_rep_def)
  have n: "n < 2 ^ 64" using sides(1) by (simp add: tbuy.srep_def)
  show ?thesis
  proof (cases "accepts (tick_cfg n) (ord_price x)")
    case False
    then show ?thesis
      using rep tick_cfg_accepts(1) [OF n] srep_Size(1) [OF sides(1)]
      by (auto simp: tk_insert_buy_order_def book_insert_buy_def)
  next
    case True
    let ?x = "x\<lparr>ord_id := next_id B\<rparr>"
    have i: "unat (ord_price x) < n" "ord_price x \<noteq> 0" using tick_cfg_accepts(2) [OF n True] by auto
    obtain bs ss where m: "match_lists (place BuyOrder_gt ?x (bid_q B)) (ask_q B) = (bs, ss)" by fastforce
    have spec: "book_insert_buy (tick_cfg n) x B = (\<lparr>bid_q = bs, ask_q = ss, next_id = next_id B + 1\<rparr>, next_id B)"
      using m True by (simp add: book_insert_buy_def)
    let ?c = "if best (tk_buy s) = 0 then ord_price x else max (best (tk_buy s)) (ord_price x)"
    have "\<exists>sd' a. tk_append new ?x (tk_buy s) = Some (sd', a) \<and> best sd' = best (tk_buy s) \<and> keys sd' = keys (tk_buy s) \<and>
        length (buffer sd') = length (buffer (tk_buy s)) \<and>
        tbuy.srep n (sd'\<lparr>best := ?c, keys := (keys sd')(ord_id ?x \<mapsto> a)\<rparr>) (place BuyOrder_gt ?x (bid_q B))"
    proof (rule tbuy.srep_append [OF sides(1) new])
      show "\<forall>y\<in>set (bid_q B). ord_id y < ord_id ?x" using book_okD(1) [OF ok] by (simp add: side_ok_def)
      show "best_bid_ok n (L(unat (ord_price ?x) := L (unat (ord_price ?x)) @ [a])) (unat ?c)"
        if "best_bid_ok n L (unat (best (tk_buy s)))" "L 0 = []" for L :: "nat \<Rightarrow> addr list" and a
        using best_bid_insert [OF that, of "ord_price x" a] i by simp
    qed (use i in simp_all)
    then obtain sd' a where ap: "tk_append new ?x (tk_buy s) = Some (sd', a)" "best sd' = best (tk_buy s)"
      and r: "tbuy.srep n (sd'\<lparr>best := ?c, keys := (keys sd')(ord_id ?x \<mapsto> a)\<rparr>) (place BuyOrder_gt ?x (bid_q B))" by blast
    let ?s = "s\<lparr>tk_counter := next_id B + 1, tk_buy := sd'\<lparr>best := ?c, keys := (keys sd')(ord_id ?x \<mapsto> a)\<rparr>\<rparr>"
    obtain buy sell d where lp: "tk_match_loop False ?s = Some (?s\<lparr>tk_buy := buy, tk_sell := sell\<rparr>, d)"
      and r': "tbuy.srep n buy bs" "tsell.srep n sell ss"
      using tk_match_loop_ok [of n ?s "place BuyOrder_gt ?x (bid_q B)" "ask_q B" bs ss False] r sides(2) m by auto
    have guard: "\<not> (ord_price x = 0 \<or> Size (tk_buy s) \<le> ord_price x)"
      using True tick_cfg_accepts(1) [OF n] srep_Size(1) [OF sides(1)] by simp
    have "tk_insert_buy_order new x s = Some (?s\<lparr>tk_buy := buy, tk_sell := sell\<rparr>, next_id B)"
      using ap lp guard by (simp add: tk_insert_buy_order_def tk_match_def Let_def c split del: if_split cong: if_cong)
    moreover have "book_ok (tick_cfg n) (fst (book_insert_buy (tick_cfg n) x B))"
      using book_insert_buy_ok [OF ok nx] by simp
    ultimately show ?thesis using r' new by (simp add: spec tk_rep_def)
  qed
qed

lemma tk_insert_sell_ok:
  assumes rep: "tk_rep new n s B" and nx: "unat (next_id B) + 1 < 2 ^ 64"
  shows "\<exists>s'. tk_insert_sell_order new x s = Some (s', snd (book_insert_sell (tick_cfg n) x B)) \<and>
    tk_rep new n s' (fst (book_insert_sell (tick_cfg n) x B))"
proof -
  have ok: "book_ok (tick_cfg n) B" and c: "next_id B = tk_counter s" and new: "fresh_alloc new"
    and sides: "tbuy.srep n (tk_buy s) (bid_q B)" "tsell.srep n (tk_sell s) (ask_q B)"
    using rep by (auto simp: tk_rep_def)
  have n: "n < 2 ^ 64" using sides(1) by (simp add: tbuy.srep_def)
  show ?thesis
  proof (cases "accepts (tick_cfg n) (ord_price x)")
    case False
    then show ?thesis
      using rep tick_cfg_accepts(1) [OF n] srep_Size(2) [OF sides(2)]
      by (auto simp: tk_insert_sell_order_def book_insert_sell_def)
  next
    case True
    let ?x = "x\<lparr>ord_id := next_id B\<rparr>"
    have i: "unat (ord_price x) < n" "ord_price x \<noteq> 0" using tick_cfg_accepts(2) [OF n True] by auto
    obtain bs ss where m: "match_lists (bid_q B) (place SellOrder_gt ?x (ask_q B)) = (bs, ss)" by fastforce
    have spec: "book_insert_sell (tick_cfg n) x B = (\<lparr>bid_q = bs, ask_q = ss, next_id = next_id B + 1\<rparr>, next_id B)"
      using m True by (simp add: book_insert_sell_def)
    let ?c = "if best (tk_sell s) = of_nat n then ord_price x else min (best (tk_sell s)) (ord_price x)"
    have "\<exists>sd' a. tk_append new ?x (tk_sell s) = Some (sd', a) \<and> best sd' = best (tk_sell s) \<and> keys sd' = keys (tk_sell s) \<and>
        length (buffer sd') = length (buffer (tk_sell s)) \<and>
        tsell.srep n (sd'\<lparr>best := ?c, keys := (keys sd')(ord_id ?x \<mapsto> a)\<rparr>) (place SellOrder_gt ?x (ask_q B))"
    proof (rule tsell.srep_append [OF sides(2) new])
      show "\<forall>y\<in>set (ask_q B). ord_id y < ord_id ?x" using book_okD(2) [OF ok] by (simp add: side_ok_def)
      show "best_ask_ok n (L(unat (ord_price ?x) := L (unat (ord_price ?x)) @ [a])) (unat ?c)"
        if "best_ask_ok n L (unat (best (tk_sell s)))" for L :: "nat \<Rightarrow> addr list" and a
        using best_ask_insert [OF that n, of "ord_price x" a] i by simp
    qed (use i in simp_all)
    then obtain sd' a where ap: "tk_append new ?x (tk_sell s) = Some (sd', a)" "best sd' = best (tk_sell s)"
        "length (buffer sd') = length (buffer (tk_sell s))"
      and r: "tsell.srep n (sd'\<lparr>best := ?c, keys := (keys sd')(ord_id ?x \<mapsto> a)\<rparr>) (place SellOrder_gt ?x (ask_q B))" by blast
    let ?s = "s\<lparr>tk_counter := next_id B + 1, tk_sell := sd'\<lparr>best := ?c, keys := (keys sd')(ord_id ?x \<mapsto> a)\<rparr>\<rparr>"
    obtain buy sell d where lp: "tk_match_loop False ?s = Some (?s\<lparr>tk_buy := buy, tk_sell := sell\<rparr>, d)"
      and r': "tbuy.srep n buy bs" "tsell.srep n sell ss"
      using tk_match_loop_ok [of n ?s "bid_q B" "place SellOrder_gt ?x (ask_q B)" bs ss False] r sides(1) m by auto
    have guard: "\<not> (ord_price x = 0 \<or> Size (tk_sell s) \<le> ord_price x)"
      using True tick_cfg_accepts(1) [OF n] srep_Size(2) [OF sides(2)] by simp
    have sz: "Size sd' = of_nat n" using ap(3) sides(2) by (simp add: Size_def tsell.srep_def)
    have "tk_insert_sell_order new x s = Some (?s\<lparr>tk_buy := buy, tk_sell := sell\<rparr>, next_id B)"
      using ap lp guard sz by (simp add: tk_insert_sell_order_def tk_match_def Let_def c split del: if_split cong: if_cong)
    moreover have "book_ok (tick_cfg n) (fst (book_insert_sell (tick_cfg n) x B))"
      using book_insert_sell_ok [OF ok nx] by simp
    ultimately show ?thesis using r' new by (simp add: spec tk_rep_def)
  qed
qed

lemma tk_cancel_buy_ok:
  assumes rep: "tk_rep new n s B"
  shows "\<exists>s'. tk_cancel_buy_order i s = Some (s', snd (book_cancel_buy i B)) \<and> tk_rep new n s' (fst (book_cancel_buy i B))"
proof -
  have ok: "book_ok (tick_cfg n) B" and sd: "tbuy.srep n (tk_buy s) (bid_q B)" using rep by (auto simp: tk_rep_def)
  have dist: "distinct (map ord_id (bid_q B))" using book_okD(1) [OF ok] by (simp add: side_ok_def)
  show ?thesis
  proof (cases "keys (tk_buy s) i")
    case None
    then show ?thesis using tbuy.srep_key [OF sd, of i] rep by (simp add: tk_cancel_buy_order_def book_cancel_buy_def)
  next
    case (Some p)
    obtain sd1 sd2 where "tk_remove p (tk_buy s) = Some sd1" "tk_retreat sd1 = Some sd2" "tbuy.srep n sd2 (without i (bid_q B))"
      using tbuy.srep_remove [OF sd dist Some] by blast
    moreover have "i \<in> ord_id ` set (bid_q B)" using tbuy.srep_key [OF sd] Some by (metis option.distinct(1))
    ultimately show ?thesis
      using Some rep book_cancel_buy_ok [OF ok, of i] by (auto simp: tk_cancel_buy_order_def book_cancel_buy_def tk_rep_def)
  qed
qed

lemma tk_cancel_sell_ok:
  assumes rep: "tk_rep new n s B"
  shows "\<exists>s'. tk_cancel_sell_order i s = Some (s', snd (book_cancel_sell i B)) \<and> tk_rep new n s' (fst (book_cancel_sell i B))"
proof -
  have ok: "book_ok (tick_cfg n) B" and sd: "tsell.srep n (tk_sell s) (ask_q B)" using rep by (auto simp: tk_rep_def)
  have dist: "distinct (map ord_id (ask_q B))" using book_okD(2) [OF ok] by (simp add: side_ok_def)
  show ?thesis
  proof (cases "keys (tk_sell s) i")
    case None
    then show ?thesis using tsell.srep_key [OF sd, of i] rep by (simp add: tk_cancel_sell_order_def book_cancel_sell_def)
  next
    case (Some p)
    obtain sd1 sd2 where "tk_remove p (tk_sell s) = Some sd1" "tk_advance sd1 = Some sd2" "tsell.srep n sd2 (without i (ask_q B))"
      using tsell.srep_remove [OF sd dist Some] by blast
    moreover have "i \<in> ord_id ` set (ask_q B)" using tsell.srep_key [OF sd] Some by (metis option.distinct(1))
    ultimately show ?thesis
      using Some rep book_cancel_sell_ok [OF ok, of i] by (auto simp: tk_cancel_sell_order_def book_cancel_sell_def tk_rep_def)
  qed
qed

lemma tk_market_buy_ok:
  assumes rep: "tk_rep new n s B" and nx: "unat (next_id B) + 1 < 2 ^ 64"
  shows "\<exists>s'. tk_market_buy_order new x s = Some (s', snd (book_market_buy (tick_cfg n) x B)) \<and>
    tk_rep new n s' (fst (book_market_buy (tick_cfg n) x B))"
proof -
  obtain l ss where sw: "sweep_market (ucast (ord_size x)) 0 (ask_q B) = (l, ss)" by fastforce
  have ok: "book_ok (tick_cfg n) B" and sd: "tsell.srep n (tk_sell s) (ask_q B)" and sb: "tbuy.srep n (tk_buy s) (bid_q B)"
    using rep by (auto simp: tk_rep_def)
  obtain sell where sell: "tk_sweep_sell (ucast (ord_size x)) 0 (tk_sell s) = Some (l, sell)" "tsell.srep n sell ss"
    using tsell.srep_sweep [OF sd sw] by blast
  have rep': "tk_rep new n (s\<lparr>tk_sell := sell\<rparr>) (B\<lparr>ask_q := ss\<rparr>)"
    using rep sell(2) sweep_ask_ok [OF ok sw] by (simp add: tk_rep_def)
  have "top_price (tick_cfg n) = Size (tk_buy s) - 1" using srep_Size(1) [OF sb] by (simp add: tick_cfg_def)
  then show ?thesis
    using tk_insert_buy_ok [OF rep', of "x\<lparr>ord_price := Size (tk_buy s) - 1\<rparr>"] rep' nx sw sell(1)
    by (auto simp: tk_market_buy_order_def book_market_buy_def Let_def)
qed

lemma tk_market_sell_ok:
  assumes rep: "tk_rep new n s B" and nx: "unat (next_id B) + 1 < 2 ^ 64"
  shows "\<exists>s'. tk_market_sell_order new x s = Some (s', snd (book_market_sell (tick_cfg n) x B)) \<and>
    tk_rep new n s' (fst (book_market_sell (tick_cfg n) x B))"
proof -
  obtain l bs where sw: "sweep_market (ucast (ord_size x)) 0 (bid_q B) = (l, bs)" by fastforce
  have ok: "book_ok (tick_cfg n) B" and sd: "tbuy.srep n (tk_buy s) (bid_q B)" using rep by (auto simp: tk_rep_def)
  obtain buy where buy: "tk_sweep_buy (ucast (ord_size x)) 0 (tk_buy s) = Some (l, buy)" "tbuy.srep n buy bs"
    using tbuy.srep_sweep [OF sd sw] by blast
  have rep': "tk_rep new n (s\<lparr>tk_buy := buy\<rparr>) (B\<lparr>bid_q := bs\<rparr>)"
    using rep buy(2) sweep_bid_ok [OF ok sw] by (simp add: tk_rep_def)
  have "bottom_price (tick_cfg n) = 1" by (simp add: tick_cfg_def)
  then show ?thesis
    using tk_insert_sell_ok [OF rep', of "x\<lparr>ord_price := 1\<rparr>"] rep' nx sw buy(1)
    by (auto simp: tk_market_sell_order_def book_market_sell_def Let_def)
qed

lemma tk_top_ok:
  assumes "tk_rep new n s B"
  shows "tk_top_of_book s = Some (book_top B)"
proof -
  have b: "tbuy.srep n (tk_buy s) (bid_q B)" and a: "tsell.srep n (tk_sell s) (ask_q B)" using assms by (auto simp: tk_rep_def)
  have "(if best (tk_buy s) \<noteq> 0 then do { (_, x) \<leftarrow> best_head (tk_buy s); Some x } else Some order_default) =
      Some (first_or_default (bid_q B))"
    using tbuy.srep_some_left [OF b] tbuy.srep_head [of n "tk_buy s" "hd (bid_q B)" "tl (bid_q B)"] b
    by (cases "bid_q B") (auto simp: first_or_default_def word_gt_0)
  moreover have "best (tk_sell s) \<noteq> Size (tk_sell s) \<longleftrightarrow> best (tk_sell s) < Size (tk_sell s)"
  proof -
    have "best (tk_sell s) \<le> Size (tk_sell s)"
      using a by (auto simp: tsell.srep_def Size_def best_ask_ok_def word_le_nat_alt unat_of_nat_small)
    then show ?thesis by auto
  qed
  then have "(if best (tk_sell s) \<noteq> Size (tk_sell s) then do { (_, x) \<leftarrow> best_head (tk_sell s); Some x } else Some order_default) =
      Some (first_or_default (ask_q B))"
    using tsell.srep_some_left [OF a] tsell.srep_head [of n "tk_sell s" "hd (ask_q B)" "tl (ask_q B)"] a
    by (cases "ask_q B") (auto simp: first_or_default_def)
  ultimately show ?thesis by (simp add: tk_top_of_book_def book_top_def)
qed

interpretation tk: order_book "tick_cfg n" "tk_rep new n" "tk_insert_buy_order new" "tk_insert_sell_order new"
  tk_cancel_buy_order tk_cancel_sell_order "tk_market_buy_order new" "tk_market_sell_order new" tk_top_of_book for new n
  by unfold_locales
    (simp add: tk_rep_def,
     (rule tk_insert_buy_ok tk_insert_sell_ok tk_cancel_buy_ok tk_cancel_sell_ok tk_market_buy_ok tk_market_sell_ok tk_top_ok; assumption)+)

lemma tside_empty: "tside (tick_side_empty n c) (\<lambda>_. [])"
  by (simp add: tside_def tick_side_empty_def level_ok_def index_ok_def ord_at_def)

lemma tk_rep_new:
  assumes "fresh_alloc new" "0 < n" "n < 2 ^ 64"
  shows "tk_rep new n (tk_new n) \<lparr>bid_q = [], ask_q = [], next_id = 1\<rparr>"
proof -
  have "tbuy.srep n (tick_side_empty n 0) []"
    using assms tside_empty unfolding tbuy.srep_def
    by (auto intro!: exI [of _ "\<lambda>_. []"] simp: best_bid_ok_def tick_side_empty_def ords_def bid_ptrs_def)
  moreover have "tsell.srep n (tick_side_empty n (of_nat n)) []"
    using assms tside_empty unfolding tsell.srep_def
    by (auto intro!: exI [of _ "\<lambda>_. []"] simp: best_ask_ok_def tick_side_empty_def ords_def ask_ptrs_def unat_of_nat_small)
  ultimately show ?thesis using assms by (simp add: tk_rep_def tk_new_def book_ok_def side_ok_def)
qed

text \<open>The destructor frees every block exactly once.\<close>

definition levels_ok :: "block_heap \<Rightarrow> OrderList option list \<Rightarrow> (nat \<Rightarrow> addr list) \<Rightarrow> bool" where
  "levels_ok h ls L \<longleftrightarrow> (\<forall>i<length ls. level_ok h (ls ! i) (L i)) \<and>
     (\<forall>i<length ls. \<forall>j<length ls. i \<noteq> j \<longrightarrow> set (L i) \<inter> set (L j) = {})"

lemma free_level:
  assumes "levels_ok h (l # ls) L"
  shows "\<exists>h'. (case l of None \<Rightarrow> Some h | Some l \<Rightarrow> free_chain h (head l)) = Some h' \<and> h' = h |` (- set (L 0)) \<and>
    levels_ok h' ls (\<lambda>i. L (Suc i))"
proof -
  have l0: "level_ok h l (L 0)" using assms by (auto simp: levels_ok_def)
  have "(case l of None \<Rightarrow> Some h | Some l \<Rightarrow> free_chain h (head l)) = Some (h |` (- set (L 0)))"
    using l0 free_chain_ok [of h None "L 0"] by (auto simp: level_ok_def list_rep_def restrict_map_def split: option.splits)
  moreover have "levels_ok (h |` (- set (L 0))) ls (\<lambda>i. L (Suc i))"
    unfolding levels_ok_def
  proof (intro conjI allI impI)
    fix i assume i: "i < length ls"
    then have "level_ok h (ls ! i) (L (Suc i))" "set (L (Suc i)) \<inter> set (L 0) = {}"
      using assms by (fastforce simp: levels_ok_def)+
    then show "level_ok (h |` (- set (L 0))) (ls ! i) (L (Suc i))" by (elim level_ok_cong) (auto simp: restrict_map_def)
    fix j assume "j < length ls" "i \<noteq> j"
    then show "set (L (Suc i)) \<inter> set (L (Suc j)) = {}" using assms i by (fastforce simp: levels_ok_def)
  qed
  ultimately show ?thesis by blast
qed

lemma Union_Suc: "(\<Union>i<Suc n. set (L i)) = set (L 0) \<union> (\<Union>i<n. set (L (Suc i)))"
  by (auto simp: lessThan_Suc_eq_insert_0)

lemma tk_free_levels_ok:
  assumes "length bs = length as" "levels_ok hb bs LB" "levels_ok ha as LA"
  shows "tk_free_levels bs as hb ha = Some (hb |` (- (\<Union>i<length bs. set (LB i))), ha |` (- (\<Union>i<length as. set (LA i))))"
  using assms
proof (induction bs as arbitrary: hb ha LB LA rule: list_induct2')
  case (4 b bs a as)
  obtain hb' where b: "(case b of None \<Rightarrow> Some hb | Some l \<Rightarrow> free_chain hb (head l)) = Some hb'"
    "hb' = hb |` (- set (LB 0))" "levels_ok hb' bs (\<lambda>i. LB (Suc i))" using free_level [OF "4.prems"(2)] by blast
  obtain ha' where a: "(case a of None \<Rightarrow> Some ha | Some l \<Rightarrow> free_chain ha (head l)) = Some ha'"
    "ha' = ha |` (- set (LA 0))" "levels_ok ha' as (\<lambda>i. LA (Suc i))" using free_level [OF "4.prems"(3)] by blast
  have "length bs = length as" using "4.prems"(1) by simp
  from "4.IH" [OF this b(3) a(3)] show ?case
    using a(1,2) b(1,2) by (simp add: Union_Suc Compl_Un)
qed (auto simp: restrict_map_def)

lemma tk_destroy_ok:
  assumes "tk_rep new n s B"
  shows "tk_destroy s = Some (Map.empty, Map.empty)"
proof -
  obtain LB where b: "length (buffer (tk_buy s)) = n" "tside (tk_buy s) LB" using assms by (auto simp: tk_rep_def tbuy.srep_def)
  obtain LA where a: "length (buffer (tk_sell s)) = n" "tside (tk_sell s) LA" using assms by (auto simp: tk_rep_def tsell.srep_def)
  have clean: "h |` (- A) = Map.empty" if "dom h = A" for h :: block_heap and A using that by (auto simp: restrict_map_def fun_eq_iff)
  have "tk_destroy s = Some (tick_heap (tk_buy s) |` (- (\<Union>i<n. set (LB i))), tick_heap (tk_sell s) |` (- (\<Union>i<n. set (LA i))))"
    unfolding tk_destroy_def using tk_free_levels_ok [of "buffer (tk_buy s)" "buffer (tk_sell s)"] a b
    by (simp add: tside_def levels_ok_def)
  moreover have "dom (tick_heap (tk_buy s)) = (\<Union>i<n. set (LB i))" "dom (tick_heap (tk_sell s)) = (\<Union>i<n. set (LA i))"
    using a b by (simp_all add: tside_def)
  ultimately show ?thesis by (simp only: clean)
qed

end
