(* ===== verification/Books_Correct.thy ===== *)
theory Books_Correct
  imports List_Book Tick_Offset_Book
begin

text \<open>
  Properties of the three order books of \<open>4_order_book_proj/data_structure_bench\<close>.

  The three interpretations of \<open>order_book\<close> give the runs \<open>sv.run_ops\<close>, \<open>lb.run_ops\<close> and
  \<open>tk.run_ops\<close> of the implementations; every theorem is about a run from a new book or about one
  operation on a book that represents an abstract one. The bound on the number of operations says that
  the 64-bit identifier counter does not wrap around.
\<close>

section \<open>A concrete allocator and concrete runs\<close>

definition new_sum :: "addr set \<Rightarrow> addr" where
  "new_sum A = Suc (\<Sum>A)"

lemma fresh_new_sum: "fresh_alloc new_sum"
  unfolding fresh_alloc_def new_sum_def
proof (intro allI impI notI)
  fix A :: "addr set" assume "finite A" "Suc (\<Sum>A) \<in> A"
  then have "Suc (\<Sum>A) \<le> \<Sum>A" by (metis member_le_sum zero_le)
  then show False by simp
qed

definition demo_order :: "u64 \<Rightarrow> u32 \<Rightarrow> order" where
  "demo_order p q = \<lparr>ord_id = 0, ord_price = p, ord_size = q\<rparr>"

definition demo_ops :: "book_op list" where
  "demo_ops = [Insert_buy (demo_order 10 5), Insert_sell (demo_order 12 4), Insert_sell (demo_order 10 2),
     Cancel_sell 3, Market_sell (demo_order 0 1)]"

lemma length_demo_ops: "length demo_ops = 5"
  by (simp add: demo_ops_def)

section \<open>Properties\<close>

text \<open>
  C7: The sorted-vector book and the linked-list book are equivalent. For every sequence of operations, from
  empty books and for every allocator that returns unused addresses, both return, without undefined
  behaviour, the same results and show the same top of the book after every operation.
\<close>

theorem sorted_vector_list_equivalent:
  assumes "fresh_alloc new" "length ops + 2 < 2 ^ 64"
  shows "\<exists>s t out. sv.run_ops ops sv_new = Some (s, out) \<and> lb.run_ops new ops lb_new = Some (t, out)"
  using sv.run_ops_ok [OF sv_rep_new, of ops] lb.run_ops_ok [OF lb_rep_new [OF assms(1)], of ops] assms(2) by auto

theorem sorted_vector_list_equivalent_witness:
  "\<exists>s t out. sv.run_ops demo_ops sv_new = Some (s, out) \<and> lb.run_ops new_sum demo_ops lb_new = Some (t, out)"
  by (rule sorted_vector_list_equivalent [OF fresh_new_sum]) (simp add: length_demo_ops)

text \<open>
  C11: The tick-offset book implements the abstract book for the prices \<open>1 .. Size - 1\<close>: on every sequence of
  operations its results and tops are those of \<open>book_run\<close>, in which an order at another price is
  refused with 0 and a market order that finds nothing rests at the last or the first price.
\<close>

theorem tick_offset_implements_book:
  assumes "fresh_alloc new" "0 < n" "n < 2 ^ 64" "length ops + 1 < 2 ^ 64"
  shows "\<exists>s. tk.run_ops new ops (tk_new n) =
    Some (s, snd (book_run (tick_cfg n) ops \<lparr>bid_q = [], ask_q = [], next_id = 1\<rparr>))"
  using tk.run_ops_ok [OF tk_rep_new [OF assms(1,2,3)], of ops] assms(4) by auto

theorem tick_offset_implements_book_witness:
  "\<exists>s. tk.run_ops new_sum demo_ops (tk_new 1024) =
    Some (s, snd (book_run (tick_cfg 1024) demo_ops \<lparr>bid_q = [], ask_q = [], next_id = 1\<rparr>))"
  by (rule tick_offset_implements_book [OF fresh_new_sum]) (simp_all add: length_demo_ops)

text \<open>
  After every operation the book is not crossed. Whatever the operations, when both sides of the
  tick-offset book have an order, the best bid of \<open>top_of_book\<close> is below the best ask (an absent order
  has identifier 0).
\<close>

theorem tick_offset_never_crossed:
  assumes "fresh_alloc new" "0 < n" "n < 2 ^ 64" "length ops + 1 < 2 ^ 64"
    and "tk.run_ops new ops (tk_new n) = Some (s, out)" "tk_top_of_book s = Some (b, a)" "ord_id b \<noteq> 0" "ord_id a \<noteq> 0"
  shows "ord_price b < ord_price a"
proof -
  have "uncrossed_book \<lparr>bid_q = [], ask_q = [], next_id = 1\<rparr>" by (simp add: uncrossed_book_def)
  then obtain B where B: "tk_rep new n s B" "uncrossed_book B"
    using tk.run_ops_inv [OF tk_rep_new [OF assms(1,2,3)] _ _ assms(5)] assms(4) by auto
  then have "(b, a) = book_top B" using tk_top_ok assms(6) by auto
  then show ?thesis
    using B(2) assms(7,8)
    by (cases "bid_q B"; cases "ask_q B") (auto simp: book_top_def first_or_default_def order_default_def uncrossed_book_def)
qed

definition demo_quotes :: "book_op list" where
  "demo_quotes = [Insert_buy (demo_order 10 5), Insert_sell (demo_order 12 4)]"

lemma demo_quotes_run:
  "\<exists>s. tk.run_ops new_sum demo_quotes (tk_new 16) =
     Some (s, [(1, demo_order 10 5\<lparr>ord_id := 1\<rparr>, order_default), (2, demo_order 10 5\<lparr>ord_id := 1\<rparr>, demo_order 12 4\<lparr>ord_id := 2\<rparr>)]) \<and>
     tk_top_of_book s = Some (demo_order 10 5\<lparr>ord_id := 1\<rparr>, demo_order 12 4\<lparr>ord_id := 2\<rparr>)"
proof -
  let ?B = "\<lparr>bid_q = [], ask_q = [], next_id = 1\<rparr>"
  have run: "book_run (tick_cfg 16) demo_quotes ?B =
      (\<lparr>bid_q = [demo_order 10 5\<lparr>ord_id := 1\<rparr>], ask_q = [demo_order 12 4\<lparr>ord_id := 2\<rparr>], next_id = 3\<rparr>,
       [(1, demo_order 10 5\<lparr>ord_id := 1\<rparr>, order_default), (2, demo_order 10 5\<lparr>ord_id := 1\<rparr>, demo_order 12 4\<lparr>ord_id := 2\<rparr>)])"
    by (simp add: demo_quotes_def book_insert_buy_def book_insert_sell_def tick_cfg_def demo_order_def place_def
        book_top_def first_or_default_def)
  obtain s where s: "tk.run_ops new_sum demo_quotes (tk_new 16) = Some (s, snd (book_run (tick_cfg 16) demo_quotes ?B))"
    "tk_rep new_sum 16 s (fst (book_run (tick_cfg 16) demo_quotes ?B))"
    using tk.run_ops_ok [OF tk_rep_new [OF fresh_new_sum, of 16], of demo_quotes] by (auto simp: demo_quotes_def)
  then have "tk_top_of_book s = Some (demo_order 10 5\<lparr>ord_id := 1\<rparr>, demo_order 12 4\<lparr>ord_id := 2\<rparr>)"
    using tk_top_ok [OF s(2)] by (simp add: run book_top_def first_or_default_def)
  then show ?thesis using s(1) by (simp add: run)
qed

theorem tick_offset_never_crossed_witness:
  "ord_price (demo_order 10 5\<lparr>ord_id := 1\<rparr>) < ord_price (demo_order 12 4\<lparr>ord_id := 2\<rparr>)"
proof -
  obtain s where s: "tk.run_ops new_sum demo_quotes (tk_new 16) =
     Some (s, [(1, demo_order 10 5\<lparr>ord_id := 1\<rparr>, order_default), (2, demo_order 10 5\<lparr>ord_id := 1\<rparr>, demo_order 12 4\<lparr>ord_id := 2\<rparr>)])"
     "tk_top_of_book s = Some (demo_order 10 5\<lparr>ord_id := 1\<rparr>, demo_order 12 4\<lparr>ord_id := 2\<rparr>)"
    using demo_quotes_run by blast
  show ?thesis
    by (rule tick_offset_never_crossed [OF fresh_new_sum _ _ _ s]) (simp_all add: demo_quotes_def)
qed

text \<open>
  The pointer-based books neither leak nor free twice. After every sequence of operations the
  destructors of the linked-list book and of the tick-offset book run without undefined behaviour and
  leave no block allocated.
\<close>

theorem books_free_every_block:
  assumes "fresh_alloc new" "0 < n" "n < 2 ^ 64" "length ops + 2 < 2 ^ 64"
  shows "(\<exists>s out. lb.run_ops new ops lb_new = Some (s, out) \<and> lb_destroy s = Some (Map.empty, Map.empty)) \<and>
    (\<exists>s out. tk.run_ops new ops (tk_new n) = Some (s, out) \<and> tk_destroy s = Some (Map.empty, Map.empty))"
  using lb.run_ops_ok [OF lb_rep_new [OF assms(1)], of ops] tk.run_ops_ok [OF tk_rep_new [OF assms(1,2,3)], of ops] assms(4)
    lb_destroy_ok tk_destroy_ok by fastforce

theorem books_free_every_block_witness:
  "(\<exists>s out. lb.run_ops new_sum demo_ops lb_new = Some (s, out) \<and> lb_destroy s = Some (Map.empty, Map.empty)) \<and>
   (\<exists>s out. tk.run_ops new_sum demo_ops (tk_new 1024) = Some (s, out) \<and> tk_destroy s = Some (Map.empty, Map.empty))"
  by (rule books_free_every_block [OF fresh_new_sum]) (simp_all add: length_demo_ops)

text \<open>
  Matching takes the same quantity from both sides. When a limit buy order is inserted into the
  sorted-vector book, the quantity that leaves the bids, the new order included, equals the quantity
  that leaves the asks, and afterwards the best prices do not cross.
\<close>

theorem sv_insert_buy_balances:
  assumes "sv_rep s B" "unat (next_id B) + 1 < 2 ^ 64" "sv_insert_buy_order x s = (s', r)"
  shows "unat (ord_size x) + volume (sv_buy_book s) + volume (sv_sell_book s') =
      volume (sv_buy_book s') + volume (sv_sell_book s) \<and>
    (sv_buy_book s' \<noteq> [] \<longrightarrow> sv_sell_book s' \<noteq> [] \<longrightarrow>
       ord_price (last (sv_buy_book s')) < ord_price (last (sv_sell_book s')))"
proof -
  have B: "B = sv_abs s" using assms(1) by (simp add: sv_rep_def)
  let ?x = "x\<lparr>ord_id := next_id B\<rparr>"
  obtain bs ss where m: "match_lists (place BuyOrder_gt ?x (bid_q B)) (ask_q B) = (bs, ss)" by fastforce
  have vr: "volume (rev xs) = volume xs" for xs by (simp add: volume_def rev_map [symmetric] sum_list_rev)
  have "sv_rep s' (fst (book_insert_buy unbounded_cfg x B))" using sv_insert_buy_ok [OF assms(1,2), of x] assms(3) by auto
  then have s': "rev (sv_buy_book s') = bs" "rev (sv_sell_book s') = ss"
    using m by (auto simp: book_insert_buy_def unbounded_cfg_def sv_rep_def sv_abs_def)
  have v: "volume (place BuyOrder_gt ?x (bid_q B)) = unat (ord_size x) + volume (sv_buy_book s)"
    "volume (ask_q B) = volume (sv_sell_book s)" by (simp_all add: B sv_abs_def vr)
  have "volume bs = volume (sv_buy_book s')" "volume ss = volume (sv_sell_book s')" by (simp_all add: vr flip: s')
  moreover have "ord_price (last (sv_buy_book s')) < ord_price (last (sv_sell_book s'))"
    if ne: "sv_buy_book s' \<noteq> []" "sv_sell_book s' \<noteq> []"
  proof -
    obtain us b where b: "sv_buy_book s' = us @ [b]" using ne(1) by (metis rev_exhaust)
    obtain vs a where a: "sv_sell_book s' = vs @ [a]" using ne(2) by (metis rev_exhaust)
    have "match_lists (place BuyOrder_gt ?x (bid_q B)) (ask_q B) = (b # rev us, a # rev vs)"
      using m s' by (simp add: a b)
    from match_lists_uncrossed [OF this] show ?thesis by (simp add: a b)
  qed
  ultimately show ?thesis using match_lists_volume [OF m] v by simp
qed

theorem sv_insert_buy_balances_witness:
  "\<exists>s' r. sv_insert_buy_order (demo_order 10 5) sv_new = (s', r) \<and>
     unat (ord_size (demo_order 10 5)) + volume (sv_sell_book s') = volume (sv_buy_book s')"
proof -
  obtain s' r where r: "sv_insert_buy_order (demo_order 10 5) sv_new = (s', r)" by fastforce
  from sv_insert_buy_balances [OF sv_rep_new _ r] have
    "unat (ord_size (demo_order 10 5)) + volume (sv_sell_book s') = volume (sv_buy_book s')"
    by (simp add: sv_new_def)
  then show ?thesis using r by blast
qed

text \<open>
  A market buy order takes from the best asks exactly its quantity or all there is, never more, and
  returns the identifier of the last order it met; what it could not fill is dropped. Only when there is
  nothing to meet does it rest, at the highest price.
\<close>

theorem sv_market_buy_takes:
  assumes "sv_rep s B" "unat (next_id B) + 1 < 2 ^ 64" "ord_size x \<noteq> 0" "sv_market_buy_order x s = (s', r)"
  shows "volume (sv_sell_book s) = volume (sv_sell_book s') + min (unat (ord_size x)) (volume (sv_sell_book s)) \<and>
    (sv_sell_book s \<noteq> [] \<longrightarrow> r \<in> ord_id ` set (sv_sell_book s) \<and> sv_buy_book s' = sv_buy_book s) \<and>
    (sv_sell_book s = [] \<longrightarrow> (s', r) = sv_insert_buy_order (x\<lparr>ord_price := - 1\<rparr>) s)"
proof -
  have B: "B = sv_abs s" and ok: "book_ok unbounded_cfg B" using assms(1) by (auto simp: sv_rep_def)
  obtain l ss where sw: "sweep_market (ucast (ord_size x)) 0 (rev (sv_sell_book s)) = (l, ss)" by fastforce
  have vr: "volume (rev xs) = volume xs" for xs by (simp add: volume_def rev_map [symmetric] sum_list_rev)
  have ids: "\<forall>y\<in>set (rev (sv_sell_book s)). 0 < ord_id y" using book_okD(2) [OF ok] by (auto simp: B sv_abs_def side_ok_def)
  note run = sv_sweep_ok [OF sw]
  have q: "ucast (ord_size x) \<noteq> (0 :: u64)" using assms(3) by (simp add: word_unat_eq_iff)
  show ?thesis
  proof (cases "l = 0")
    case True
    then have none: "ss = rev (sv_sell_book s)" "sv_sell_book s = []" using sweep_market_none sw ids q by force+
    moreover from this(2) have same: "s\<lparr>sv_sell_book := []\<rparr> = s" by (cases s) simp
    ultimately have "sv_market_buy_order x s = sv_insert_buy_order (x\<lparr>ord_price := - 1\<rparr>) (s\<lparr>sv_sell_book := []\<rparr>)"
      using run True by (simp add: sv_market_buy_order_def Let_def)
    then have "(s', r) = sv_insert_buy_order (x\<lparr>ord_price := - 1\<rparr>) s" unfolding same assms(4) .
    moreover have "sv_sell_book s' = []"
    proof -
      have "sv_rep s' (fst (book_insert_buy unbounded_cfg (x\<lparr>ord_price := - 1\<rparr>) B))"
        using sv_insert_buy_ok [OF assms(1,2), of "x\<lparr>ord_price := - 1\<rparr>"] calculation by (metis fst_conv option.inject prod.inject)
      then show ?thesis
        using none(2) by (auto simp: book_insert_buy_def unbounded_cfg_def sv_rep_def sv_abs_def B split: prod.splits)
    qed
    ultimately show ?thesis using none(2) by simp
  next
    case False
    then have s': "s' = s\<lparr>sv_sell_book := rev ss\<rparr>" "r = l" using run assms(4) by (auto simp: sv_market_buy_order_def Let_def)
    have "l \<in> ord_id ` set (sv_sell_book s)" using sweep_market_last [OF sw] False by simp
    moreover have "sv_sell_book s \<noteq> []" using calculation by auto
    ultimately show ?thesis using sweep_market_volume [OF sw] s' by (simp add: vr)
  qed
qed

theorem sv_market_buy_takes_witness:
  "\<exists>s' r. sv_market_buy_order (demo_order 0 5) sv_new = (s', r) \<and>
     (s', r) = sv_insert_buy_order ((demo_order 0 5)\<lparr>ord_price := - 1\<rparr>) sv_new"
proof -
  obtain s' r where r: "sv_market_buy_order (demo_order 0 5) sv_new = (s', r)" by fastforce
  from sv_market_buy_takes [OF sv_rep_new _ _ r] have
    "(s', r) = sv_insert_buy_order ((demo_order 0 5)\<lparr>ord_price := - 1\<rparr>) sv_new"
    by (simp add: sv_new_def demo_order_def)
  then show ?thesis using r by blast
qed

text \<open>
  The books do not share one convention. On new books, the first order at price 0 is accepted by the
  sorted-vector and the linked-list book and gets the identifier 2, and is refused by the tick-offset
  book, whose first identifier, for a price it accepts, is 1.
\<close>

theorem book_conventions_differ:
  assumes "fresh_alloc new" "1 < n" "n < 2 ^ 64" "ord_price x = 0" "ord_price y = 1"
  shows "snd (sv_insert_buy_order x sv_new) = 2 \<and> (\<exists>s. lb_insert_buy_order new x lb_new = Some (s, 2)) \<and>
    tk_insert_buy_order new x (tk_new n) = Some (tk_new n, 0) \<and> (\<exists>s. tk_insert_buy_order new y (tk_new n) = Some (s, 1))"
proof -
  let ?B = "\<lparr>bid_q = [], ask_q = [], next_id = 2 :: u64\<rparr>" and ?C = "\<lparr>bid_q = [], ask_q = [], next_id = 1 :: u64\<rparr>"
  have n: "0 < n" using assms(2) by simp
  have "snd (book_insert_buy unbounded_cfg x ?B) = 2"
    by (simp add: book_insert_buy_def unbounded_cfg_def place_def)
  moreover have "snd (book_insert_buy (tick_cfg n) y ?C) = 1"
    using tick_cfg_accepts(1) [OF assms(3), of 1] assms
    by (simp add: book_insert_buy_def place_def word_le_nat_alt unat_of_nat_small)
  moreover have "tk_insert_buy_order new x (tk_new n) = Some (tk_new n, 0)" using assms(4) by (simp add: tk_insert_buy_order_def)
  ultimately show ?thesis
    using sv_insert_buy_ok [OF sv_rep_new, of x] lb_insert_buy_ok [OF lb_rep_new [OF assms(1)], of x]
      tk_insert_buy_ok [OF tk_rep_new [OF assms(1) n assms(3)], of y] by auto
qed

theorem book_conventions_differ_witness:
  "snd (sv_insert_buy_order (demo_order 0 5) sv_new) = 2 \<and>
   (\<exists>s. lb_insert_buy_order new_sum (demo_order 0 5) lb_new = Some (s, 2)) \<and>
   tk_insert_buy_order new_sum (demo_order 0 5) (tk_new 16) = Some (tk_new 16, 0) \<and>
   (\<exists>s. tk_insert_buy_order new_sum (demo_order 1 5) (tk_new 16) = Some (s, 1))"
  by (rule book_conventions_differ [OF fresh_new_sum]) (simp_all add: demo_order_def)

end
