(* ===== verification/Network_Device.thy ===== *)
theory Network_Device
  imports Messages
begin

text \<open>
  What the two network devices of \<open>4_order_book_proj/src/network_device.hpp\<close> share: the buffer sizes, the
  choice of the number of bytes to send, the listening sockets, and \<open>NetworkDeviceEpoll\<close>.

  The kernel is a parameter: \<open>Kernel\<close> answers every system call from the history of the calls made so
  far, and the device records the calls it makes in \<open>trace\<close>. \<open>exit(1)\<close> is the value \<open>None\<close>. The bytes of
  an \<open>InboundMessage\<close> that the code leaves uninitialised are the parameter \<open>junk\<close>.
\<close>

definition START_PORT_RANGE :: int where "START_PORT_RANGE = 49152"
definition END_PORT_RANGE :: int where "END_PORT_RANGE = 49161"
definition MAX_EVENTS_PER_ITER :: nat where "MAX_EVENTS_PER_ITER = 10"

definition kMaxReqSize :: nat where
  "kMaxReqSize = max EnterRequestView_WIRE_SIZE CancelRequestView_WIRE_SIZE"

definition kMaxResSize :: nat where
  "kMaxResSize = Max {AcceptResponseView_WIRE_SIZE, CancelledResponseView_WIRE_SIZE,
     CancelRejectResponseView_WIRE_SIZE, ExecutedResponseView_WIRE_SIZE}"

section \<open>System calls\<close>

datatype syscall =
    Socket
  | Setsockopt int
  | Bind int int
  | Listen int nat
  | Epoll_create
  | Epoll_add int
  | Epoll_wait nat
  | Accept4 int
  | Read int nat
  | Write int "byte list"
  | Close int

record Kernel =
  answer :: "syscall list \<Rightarrow> syscall \<Rightarrow> int"
  payload :: "syscall list \<Rightarrow> byte list"
  ready :: "syscall list \<Rightarrow> (int \<times> bool) list"

text \<open>The trace holds each call with the kernel's answer.\<close>

type_synonym trace = "(syscall \<times> int) list"

definition log_call :: "trace \<Rightarrow> syscall \<Rightarrow> int \<Rightarrow> trace" where
  "log_call tr c r = tr @ [(c, r)]"

definition syscall :: "Kernel \<Rightarrow> syscall \<Rightarrow> trace \<Rightarrow> int \<times> trace" where
  "syscall K c tr = (let r = answer K (map fst tr) c in (r, log_call tr c r))"

definition setup_listening_socket :: "Kernel \<Rightarrow> int \<Rightarrow> trace \<Rightarrow> (int \<times> trace) option" where
  "setup_listening_socket K port tr =
     (let (sock, tr) = syscall K Socket tr in
      if sock < 0 then None
      else let (_, tr) = syscall K (Setsockopt sock) tr;
               (b, tr) = syscall K (Bind sock port) tr
           in if b < 0 then None
              else let (l, tr) = syscall K (Listen sock 10) tr
                   in if l < 0 then None else Some (sock, tr))"

section \<open>The number of bytes of a response\<close>

text \<open>The \<open>switch\<close> on the type byte that both devices have; \<open>None\<close> is the default case.\<close>

definition response_size :: "byte list \<Rightarrow> nat option" where
  "response_size bytes =
     (if bytes ! 0 = 65 then Some AcceptResponseView_WIRE_SIZE
      else if bytes ! 0 = 67 then Some CancelledResponseView_WIRE_SIZE
      else if bytes ! 0 = 73 then Some CancelRejectResponseView_WIRE_SIZE
      else if bytes ! 0 = 69 then Some ExecutedResponseView_WIRE_SIZE
      else None)"

section \<open>The epoll device\<close>

record EpollDevice =
  epfd :: int
  fds :: "int set"
  epoll_queue :: "InboundMessage list"
  trace :: "trace"

text \<open>The constructor: the loop over the ports, then the whole.\<close>

fun epoll_listen :: "Kernel \<Rightarrow> int list \<Rightarrow> EpollDevice \<Rightarrow> EpollDevice option" where
  "epoll_listen K [] d = Some d"
| "epoll_listen K (port # ports) d =
     (case setup_listening_socket K port (trace d) of
        None \<Rightarrow> None
      | Some (listen_fd, tr) \<Rightarrow>
          let (r, tr) = syscall K (Epoll_add listen_fd) tr
          in if r < 0 then None
             else epoll_listen K ports (d\<lparr>fds := insert listen_fd (fds d), trace := tr\<rparr>))"

definition port_range :: "int \<Rightarrow> int list" where
  "port_range first_port = map (\<lambda>i. first_port + int i) [0..<nat (END_PORT_RANGE - START_PORT_RANGE + 1)]"

definition NetworkDeviceEpoll :: "Kernel \<Rightarrow> int \<Rightarrow> EpollDevice option" where
  "NetworkDeviceEpoll K first_port =
     (let (ep, tr) = syscall K Epoll_create [] in
      if ep < 0 then None
      else epoll_listen K (port_range first_port) \<lparr>epfd = ep, fds = {}, epoll_queue = [], trace = tr\<rparr>)"

text \<open>The destructor closes the sockets in an order \<open>order\<close> of the set that is left open.\<close>

definition epoll_destroy :: "Kernel \<Rightarrow> int list \<Rightarrow> EpollDevice \<Rightarrow> trace" where
  "epoll_destroy K order d = fold (\<lambda>fd tr. snd (syscall K (Close fd) tr)) (epfd d # order) (trace d)"

text \<open>The body of the loop of \<open>receive_msg\<close> for one event, and \<open>receive_msg\<close>.\<close>

definition account_of :: "int \<Rightarrow> u32" where
  "account_of fd = word_of_int fd"

definition epoll_event :: "Kernel \<Rightarrow> byte list \<Rightarrow> int \<times> bool \<Rightarrow> EpollDevice \<Rightarrow> EpollDevice" where
  "epoll_event K junk ev d =
     (let (fd, epollin) = ev in
      if \<not> epollin then d
      else if fd \<in> fds d then
        let (client_fd, tr) = syscall K (Accept4 fd) (trace d) in
        if client_fd < 0 then d\<lparr>trace := tr\<rparr>
        else let (r, tr) = syscall K (Epoll_add client_fd) tr in
             if r < 0 then d\<lparr>trace := snd (syscall K (Close client_fd) tr)\<rparr>
             else d\<lparr>trace := tr\<rparr>
      else
        let bytes = payload K (map fst (trace d));
            (r, tr) = syscall K (Read fd OUCHMessageIn_SIZE) (trace d) in
        if r \<le> 0 then d\<lparr>trace := snd (syscall K (Close fd) tr)\<rparr>
        else d\<lparr>epoll_queue := epoll_queue d @
                 [\<lparr>in_account = account_of fd, in_bytes = write_at 0 (take (nat r) bytes) junk\<rparr>],
               trace := tr\<rparr>)"

definition epoll_receive_msg :: "Kernel \<Rightarrow> byte list \<Rightarrow> EpollDevice \<Rightarrow> EpollDevice" where
  "epoll_receive_msg K junk d =
     (let events = ready K (map fst (trace d));
          (n, tr) = syscall K (Epoll_wait MAX_EVENTS_PER_ITER) (trace d) in
      if n < 0 then d\<lparr>trace := tr\<rparr>
      else fold (epoll_event K junk) (take (nat n) events) (d\<lparr>trace := tr\<rparr>))"

definition epoll_send_msg :: "Kernel \<Rightarrow> OutboundMessage \<Rightarrow> EpollDevice \<Rightarrow> EpollDevice \<times> nat" where
  "epoll_send_msg K message d =
     (let n = (case response_size (out_bytes message) of None \<Rightarrow> 0 | Some n \<Rightarrow> n);
          (w, tr) = syscall K (Write (sint (out_account message)) (take n (out_bytes message))) (trace d)
      in (d\<lparr>trace := tr\<rparr>, if w \<le> 0 then 1 else 0))"
section \<open>Descriptors\<close>

text \<open>What a trace says about the descriptors: which are open, and which epoll watches.\<close>

fun opens :: "syscall \<Rightarrow> bool" where
  "opens Socket = True"
| "opens Epoll_create = True"
| "opens (Accept4 fd) = True"
| "opens _ = False"

fun closed :: "syscall \<Rightarrow> int set" where
  "closed (Close fd) = {fd}"
| "closed _ = {}"

fun watches :: "syscall \<Rightarrow> int set" where
  "watches (Epoll_add fd) = {fd}"
| "watches _ = {}"

definition open_of :: "trace \<Rightarrow> int set" where
  "open_of tr = fold (\<lambda>(c, r) S. (if opens c \<and> 0 \<le> r then insert r S else S) - closed c) tr {}"

definition watched_of :: "trace \<Rightarrow> int set" where
  "watched_of tr = fold (\<lambda>(c, r) S. (if 0 \<le> r then S \<union> watches c else S) - closed c) tr {}"

text \<open>No call closes a descriptor that is not open.\<close>

definition closes_open :: "trace \<Rightarrow> bool" where
  "closes_open tr \<longleftrightarrow> (\<forall>i<length tr. closed (fst (tr ! i)) \<subseteq> open_of (take i tr))"

text \<open>The trace has the answers of the kernel.\<close>

definition honest :: "Kernel \<Rightarrow> trace \<Rightarrow> bool" where
  "honest K tr \<longleftrightarrow> (\<forall>i<length tr. snd (tr ! i) = answer K (map fst (take i tr)) (fst (tr ! i)))"

text \<open>The documented behaviour of the kernel: a new descriptor is not in use, and epoll reports watched
  descriptors, each once.\<close>

definition posix :: "Kernel \<Rightarrow> bool" where
  "posix K \<longleftrightarrow> (\<forall>tr. honest K tr \<longrightarrow>
     (\<forall>c. opens c \<longrightarrow> answer K (map fst tr) c \<notin> open_of tr) \<and>
     fst ` set (ready K (map fst tr)) \<subseteq> watched_of tr \<and> distinct (map fst (ready K (map fst tr))))"

lemma open_of_simps [simp]:
  "open_of [] = {}" "open_of (log_call tr c r) = (if opens c \<and> 0 \<le> r then insert r (open_of tr) else open_of tr) - closed c"
  by (simp_all add: open_of_def log_call_def)

lemma watched_of_simps [simp]:
  "watched_of [] = {}" "watched_of (log_call tr c r) = (if 0 \<le> r then watched_of tr \<union> watches c else watched_of tr) - closed c"
  by (simp_all add: watched_of_def log_call_def)

lemma honest_snoc [simp]: "honest K (log_call tr c r) \<longleftrightarrow> honest K tr \<and> r = answer K (map fst tr) c"
  by (auto simp: honest_def log_call_def nth_append less_Suc_eq)

lemma closes_open_snoc [simp]: "closes_open (log_call tr c r) \<longleftrightarrow> closes_open tr \<and> closed c \<subseteq> open_of tr"
  by (auto simp: closes_open_def log_call_def nth_append less_Suc_eq)

lemma honest_Nil [simp]: "honest K []" "closes_open []"
  by (simp_all add: honest_def closes_open_def)

text \<open>The invariant of the device.\<close>

definition epoll_inv :: "Kernel \<Rightarrow> EpollDevice \<Rightarrow> bool" where
  "epoll_inv K d \<longleftrightarrow> honest K (trace d) \<and> closes_open (trace d) \<and>
     open_of (trace d) = insert (epfd d) (watched_of (trace d)) \<and> epfd d \<notin> watched_of (trace d) \<and>
     fds d \<subseteq> watched_of (trace d)"

lemma posixD:
  assumes "posix K" "honest K tr"
  shows "opens c \<Longrightarrow> answer K (map fst tr) c \<notin> open_of tr" "fst ` set (ready K (map fst tr)) \<subseteq> watched_of tr"
    "distinct (map fst (ready K (map fst tr)))"
  using assms by (auto simp: posix_def)

lemma setup_listening_socket_open:
  assumes "posix K" "setup_listening_socket K port tr = Some (fd, tr')" "honest K tr" "closes_open tr"
  shows "honest K tr'" "closes_open tr'" "open_of tr' = insert fd (open_of tr)" "watched_of tr' = watched_of tr"
    "fd \<notin> open_of tr" "0 \<le> fd"
  using posixD(1) [OF assms(1,3), of Socket] assms(2-4)
  by (auto simp: setup_listening_socket_def syscall_def Let_def split: if_splits)

lemma epoll_listen_inv:
  assumes "posix K" "epoll_listen K ports d = Some d'" "epoll_inv K d"
  shows "epoll_inv K d'"
  using assms(2,3)
proof (induction ports arbitrary: d)
  case (Cons port ports)
  obtain fd tr where st: "setup_listening_socket K port (trace d) = Some (fd, tr)"
    using Cons.prems(1) by (auto split: option.splits)
  have inv: "honest K (trace d)" "closes_open (trace d)" using Cons.prems(2) by (simp_all add: epoll_inv_def)
  note s = setup_listening_socket_open [OF assms(1) st inv]
  define r where "r = answer K (map fst tr) (Epoll_add fd)"
  define d1 where "d1 = d\<lparr>fds := insert fd (fds d), trace := log_call tr (Epoll_add fd) r\<rparr>"
  have r: "0 \<le> r" "epoll_listen K ports d1 = Some d'"
    using Cons.prems(1) st by (auto simp: syscall_def r_def d1_def Let_def split: if_splits)
  have "epoll_inv K d1" using Cons.prems(2) s r(1) by (auto simp: epoll_inv_def d1_def r_def)
  then show ?case by (rule Cons.IH [OF r(2)])
qed simp

lemma NetworkDeviceEpoll_inv:
  assumes "posix K" "NetworkDeviceEpoll K port = Some d"
  shows "epoll_inv K d"
proof -
  let ?ep = "answer K [] Epoll_create"
  let ?d = "\<lparr>epfd = ?ep, fds = {}, epoll_queue = [], trace = log_call [] Epoll_create ?ep\<rparr>"
  have "0 \<le> ?ep" "epoll_listen K (port_range port) ?d = Some d"
    using assms(2) by (auto simp: NetworkDeviceEpoll_def syscall_def Let_def split: if_splits)
  moreover have "epoll_inv K ?d"
    using calculation(1) by (simp add: epoll_inv_def)
  ultimately show ?thesis using epoll_listen_inv [OF assms(1)] by blast
qed

text \<open>One event, for a watched descriptor: the other watched descriptors stay watched.\<close>

lemma epoll_event_inv:
  assumes "posix K" "epoll_inv K d" "fd \<in> watched_of (trace d)"
  shows "epoll_inv K (epoll_event K junk (fd, i) d) \<and>
    watched_of (trace d) - {fd} \<subseteq> watched_of (trace (epoll_event K junk (fd, i) d)) \<and>
    epfd (epoll_event K junk (fd, i) d) = epfd d \<and> fds (epoll_event K junk (fd, i) d) = fds d"
  using assms posixD(1) [OF assms(1), of "trace d" "Accept4 fd"]
  by (auto simp: epoll_event_def syscall_def Let_def epoll_inv_def)

lemma epoll_events_inv:
  assumes "posix K" "epoll_inv K d" "fst ` set evs \<subseteq> watched_of (trace d)" "distinct (map fst evs)"
  shows "epoll_inv K (fold (epoll_event K junk) evs d) \<and> epfd (fold (epoll_event K junk) evs d) = epfd d \<and>
    fds (fold (epoll_event K junk) evs d) = fds d"
  using assms(2-4)
proof (induction evs arbitrary: d)
  case (Cons ev evs)
  obtain fd i where ev: "ev = (fd, i)" by (cases ev)
  note e = epoll_event_inv [OF assms(1) Cons.prems(1), of fd junk i]
  have "fst ` set evs \<subseteq> watched_of (trace d) - {fd}" using Cons.prems(2,3) by (auto simp: ev)
  then show ?case using Cons.IH [of "epoll_event K junk ev d"] e Cons.prems(2,3) by (auto simp: ev)
qed simp

lemma epoll_receive_msg_inv:
  assumes "posix K" "epoll_inv K d"
  shows "epoll_inv K (epoll_receive_msg K junk d) \<and> epfd (epoll_receive_msg K junk d) = epfd d \<and>
    fds (epoll_receive_msg K junk d) = fds d"
proof -
  let ?evs = "ready K (map fst (trace d))"
  define n where "n = answer K (map fst (trace d)) (Epoll_wait MAX_EVENTS_PER_ITER)"
  let ?d = "d\<lparr>trace := log_call (trace d) (Epoll_wait MAX_EVENTS_PER_ITER) n\<rparr>"
  have h: "honest K (trace d)" using assms(2) by (simp add: epoll_inv_def)
  have i: "epoll_inv K ?d" using assms(2) by (simp add: epoll_inv_def n_def)
  have w: "watched_of (trace ?d) = watched_of (trace d)" by simp
  have "fst ` set (take (nat n) ?evs) \<subseteq> watched_of (trace ?d)"
    unfolding w using posixD(2) [OF assms(1) h] set_take_subset [of "nat n" ?evs] by blast
  moreover have "distinct (map fst (take (nat n) ?evs))" using posixD(3) [OF assms(1) h] by (simp flip: take_map)
  ultimately have "epoll_inv K (fold (epoll_event K junk) (take (nat n) ?evs) ?d) \<and>
    epfd (fold (epoll_event K junk) (take (nat n) ?evs) ?d) = epfd ?d \<and>
    fds (fold (epoll_event K junk) (take (nat n) ?evs) ?d) = fds ?d" by (rule epoll_events_inv [OF assms(1) i])
  moreover have "epoll_receive_msg K junk d = (if n < 0 then ?d else fold (epoll_event K junk) (take (nat n) ?evs) ?d)"
    by (simp add: epoll_receive_msg_def syscall_def Let_def n_def)
  ultimately show ?thesis using i by simp
qed

lemma epoll_send_msg_inv:
  "epoll_inv K d \<Longrightarrow> epoll_inv K (fst (epoll_send_msg K m d)) \<and> epfd (fst (epoll_send_msg K m d)) = epfd d \<and>
    fds (fst (epoll_send_msg K m d)) = fds d"
  by (simp add: epoll_send_msg_def syscall_def Let_def epoll_inv_def)

text \<open>Any sequence of calls of the two threads; a receive brings its uninitialised bytes.\<close>

fun epoll_run :: "Kernel \<Rightarrow> (byte list + OutboundMessage) list \<Rightarrow> EpollDevice \<Rightarrow> EpollDevice" where
  "epoll_run K [] d = d"
| "epoll_run K (Inl junk # ops) d = epoll_run K ops (epoll_receive_msg K junk d)"
| "epoll_run K (Inr m # ops) d = epoll_run K ops (fst (epoll_send_msg K m d))"

lemma epoll_run_inv:
  assumes "posix K" "epoll_inv K d"
  shows "epoll_inv K (epoll_run K ops d) \<and> epfd (epoll_run K ops d) = epfd d \<and> fds (epoll_run K ops d) = fds d"
  using assms(2)
proof (induction ops arbitrary: d)
  case (Cons op ops)
  then show ?case
    using epoll_receive_msg_inv [OF assms(1) Cons.prems] epoll_send_msg_inv [OF Cons.prems] by (cases op) auto
qed simp

end
