(* ===== verification/Uring_Device.thy ===== *)
theory Uring_Device
  imports Network_Device "HOL-Library.Multiset"
begin

text \<open>
  \<open>NetworkDeviceIOUring\<close> of \<open>4_order_book_proj/src/network_device.hpp\<close>.

  The \<open>Request\<close> objects live in a heap of their own, \<open>heap\<close>, from which \<open>delete\<close> removes them. The submission
  queue \<open>sq\<close> holds the entries prepared and not yet submitted, each with the request it carries, and
  \<open>in_kernel\<close> the submitted ones that have not completed. The addresses \<open>new\<close> returns, the results of
  \<open>io_uring_submit\<close> and the completions are parameters. \<open>None\<close> stands for undefined behaviour: a null
  entry because the submission queue is full, or an access to a request that is not alive.

  The reader thread holds the lock for the whole of \<open>receive_msg\<close> but for the enqueue of a message: the
  two halves are \<open>uring_complete\<close> and \<open>uring_resume\<close>, and \<open>resume_req\<close> is the request the reader owns in
  between. \<open>uring_step\<close> interleaves them with the calls of \<open>send_msg\<close> by the writer thread.
\<close>

datatype EventType = ET_Accept | ET_Read | ET_Write

record Request =
  rtype :: EventType
  client_fd :: int
  listen_fd :: int
  buf :: "byte list"

datatype Sqe =
    Prep_accept int
  | Prep_recv int nat
  | Prep_send int "byte list"

record UringDevice =
  depth :: nat
  heap :: "nat \<rightharpoonup> Request"
  inflight_requests :: "nat set"
  listening_fds :: "int list"
  sq :: "(Sqe \<times> nat) list"
  in_kernel :: "(Sqe \<times> nat) list"
  uring_queue :: "InboundMessage list"
  resume_req :: "nat option"

section \<open>Submission\<close>

text \<open>\<open>make_unique\<close> of a request at the address \<open>a\<close>, and the end of the life of one.\<close>

definition new_request :: "nat \<Rightarrow> Request \<Rightarrow> UringDevice \<Rightarrow> UringDevice" where
  "new_request a r d = d\<lparr>heap := (heap d)(a \<mapsto> r)\<rparr>"

definition delete_request :: "nat \<Rightarrow> UringDevice \<Rightarrow> UringDevice" where
  "delete_request a d = d\<lparr>heap := (heap d)(a := None)\<rparr>"

definition claim_sqe :: "Sqe \<Rightarrow> nat \<Rightarrow> UringDevice \<Rightarrow> UringDevice option" where
  "claim_sqe e a d =
     (if length (sq d) < depth d
      then Some (d\<lparr>sq := sq d @ [(e, a)], inflight_requests := insert a (inflight_requests d)\<rparr>)
      else None)"

definition queue_accept :: "nat \<Rightarrow> int \<Rightarrow> UringDevice \<Rightarrow> UringDevice option" where
  "queue_accept a lfd d =
     claim_sqe (Prep_accept lfd) a
       (new_request a \<lparr>rtype = ET_Accept, client_fd = -1, listen_fd = lfd, buf = []\<rparr> d)"

definition queue_read :: "nat \<Rightarrow> int \<Rightarrow> UringDevice \<Rightarrow> UringDevice option" where
  "queue_read a cfd d =
     claim_sqe (Prep_recv cfd kMaxReqSize) a
       (new_request a \<lparr>rtype = ET_Read, client_fd = cfd, listen_fd = -1, buf = replicate kMaxReqSize 0\<rparr> d)"

definition queue_write :: "nat \<Rightarrow> nat \<Rightarrow> UringDevice \<Rightarrow> UringDevice option" where
  "queue_write a n d = do {
     r \<leftarrow> heap d a;
     let r = r\<lparr>rtype := ET_Write\<rparr>;
     claim_sqe (Prep_send (client_fd r) (take n (buf r))) a (new_request a r d)
   }"

text \<open>\<open>io_uring_submit\<close> returns the number of entries submitted, or a negative error.\<close>

definition io_uring_submit :: "int \<Rightarrow> UringDevice \<Rightarrow> UringDevice" where
  "io_uring_submit n d =
     (if n < 0 then d
      else d\<lparr>in_kernel := in_kernel d @ take (nat n) (sq d), sq := drop (nat n) (sq d)\<rparr>)"

section \<open>Construction and destruction\<close>

fun uring_listen :: "Kernel \<Rightarrow> (nat \<times> int) list \<Rightarrow> trace \<Rightarrow> UringDevice \<Rightarrow> UringDevice option" where
  "uring_listen K [] tr d = Some d"
| "uring_listen K ((a, port) # ps) tr d = do {
     (lfd, tr) \<leftarrow> setup_listening_socket K port tr;
     d \<leftarrow> queue_accept a lfd (d\<lparr>listening_fds := listening_fds d @ [lfd]\<rparr>);
     uring_listen K ps tr d
   }"

text \<open>\<open>addrs\<close> are the addresses of the ten accept requests, \<open>init\<close> the result of \<open>io_uring_queue_init\<close>.\<close>

definition NetworkDeviceIOUring :: "Kernel \<Rightarrow> nat \<Rightarrow> int \<Rightarrow> int \<Rightarrow> nat list \<Rightarrow> int \<Rightarrow> UringDevice option" where
  "NetworkDeviceIOUring K QUEUE_SIZE init submitted addrs first_port =
     (if init < 0 then None
      else do {
        d \<leftarrow> uring_listen K (zip addrs (port_range first_port)) []
          \<lparr>depth = QUEUE_SIZE, heap = Map.empty, inflight_requests = {}, listening_fds = [], sq = [], in_kernel = [],
           uring_queue = [], resume_req = None\<rparr>;
        Some (io_uring_submit submitted d)
      })"

text \<open>The destructor: the requests in flight are deleted, the listening sockets closed.\<close>

definition uring_destroy :: "UringDevice \<Rightarrow> UringDevice \<times> int list" where
  "uring_destroy d =
     (d\<lparr>heap := (heap d) |` (- inflight_requests d), inflight_requests := {}, sq := [], in_kernel := []\<rparr>, listening_fds d)"

section \<open>Completions\<close>

text \<open>
  A completion names the request and the result. The kernel fills the buffer of a read before it
  completes. \<open>a\<close> and \<open>b\<close> are the addresses of the requests that may be allocated on the way, \<open>junk\<close> the
  uninitialised bytes of the message.
\<close>

record Cqe =
  cqe_data :: nat
  res :: int
  filled :: "byte list"

definition kernel_fill :: "Cqe \<Rightarrow> UringDevice \<Rightarrow> UringDevice" where
  "kernel_fill c d =
     (case heap d (cqe_data c) of
        Some r \<Rightarrow> if rtype r = ET_Read \<and> 0 < res c
          then d\<lparr>heap := (heap d)(cqe_data c \<mapsto> r\<lparr>buf := write_at 0 (take (nat (res c)) (filled c)) (buf r)\<rparr>)\<rparr> else d
      | None \<Rightarrow> d)"

definition uring_accepted :: "nat \<Rightarrow> nat \<Rightarrow> int \<Rightarrow> Request \<Rightarrow> int \<Rightarrow> UringDevice \<Rightarrow> UringDevice option" where
  "uring_accepted a b rs req submitted d = do {
     d \<leftarrow> queue_accept a (listen_fd req) d;
     d \<leftarrow> queue_read b rs d;
     Some (io_uring_submit submitted d)
   }"

definition uring_complete :: "nat \<Rightarrow> nat \<Rightarrow> byte list \<Rightarrow> int \<Rightarrow> Cqe \<Rightarrow> UringDevice \<Rightarrow> UringDevice option" where
  "uring_complete a b junk submitted c d = do {
     req \<leftarrow> heap d (cqe_data c);
     let d = d\<lparr>inflight_requests := inflight_requests d - {cqe_data c}\<rparr>;
     let rs = res c;
     if rs < 0 then
       (if rtype req = ET_Accept
        then do {
          d \<leftarrow> queue_accept a (listen_fd req) d;
          Some (delete_request (cqe_data c) (io_uring_submit submitted d)) }
        else Some (delete_request (cqe_data c) d))
     else case rtype req of
       ET_Accept \<Rightarrow> do {
         d \<leftarrow> uring_accepted a b rs req submitted d;
         Some (delete_request (cqe_data c) d) }
     | ET_Read \<Rightarrow>
         (if rs = 0 then Some (delete_request (cqe_data c) d)
          else Some (d\<lparr>uring_queue := uring_queue d @
                   [\<lparr>in_account = account_of (client_fd req), in_bytes = write_at 0 (take (nat rs) (buf req)) junk\<rparr>],
                 resume_req := Some (cqe_data c)\<rparr>))
     | ET_Write \<Rightarrow>
         (if rs = 0 then Some (delete_request (cqe_data c) d)
          else if nat rs < length (buf req)
          then do {
            let req = req\<lparr>buf := drop (nat rs) (buf req)\<rparr>;
            d \<leftarrow> queue_write (cqe_data c) (length (buf req)) (new_request (cqe_data c) req d);
            Some (io_uring_submit submitted d) }
          else Some (delete_request (cqe_data c) d))
   }"

text \<open>The second half of a completed read.\<close>

definition uring_resume :: "nat \<Rightarrow> int \<Rightarrow> UringDevice \<Rightarrow> UringDevice option" where
  "uring_resume a submitted d = (case resume_req d of
       None \<Rightarrow> Some d
     | Some p \<Rightarrow> do {
         req \<leftarrow> heap d p;
         d \<leftarrow> queue_read a (client_fd req) d;
         Some (delete_request p ((io_uring_submit submitted d)\<lparr>resume_req := None\<rparr>)) })"

text \<open>\<open>receive_msg\<close> without the other thread; \<open>None\<close> as completion is a failed \<open>io_uring_wait_cqe\<close>.\<close>

definition uring_receive_msg :: "nat \<Rightarrow> nat \<Rightarrow> byte list \<Rightarrow> int \<Rightarrow> int \<Rightarrow> Cqe option \<Rightarrow> UringDevice \<Rightarrow> UringDevice option" where
  "uring_receive_msg a b junk submitted submitted' cqe d = (case cqe of
       None \<Rightarrow> Some d
     | Some c \<Rightarrow> do {
         d \<leftarrow> uring_complete a b junk submitted c (kernel_fill c d);
         uring_resume a submitted' d })"

definition uring_send_msg :: "nat \<Rightarrow> int \<Rightarrow> OutboundMessage \<Rightarrow> UringDevice \<Rightarrow> (UringDevice \<times> nat) option" where
  "uring_send_msg a submitted message d =
     (case response_size (out_bytes message) of
        None \<Rightarrow> Some (d, 1)
      | Some n \<Rightarrow> do {
          let fd = sint (out_account message);
          let d = new_request a \<lparr>rtype = ET_Write, client_fd = fd, listen_fd = -1, buf = take n (out_bytes message)\<rparr> d;
          d \<leftarrow> queue_write a n d;
          Some (io_uring_submit submitted d, if submitted < 0 then 1 else 0) })"
section \<open>The two threads and the kernel\<close>

text \<open>What the kernel may answer to an entry: no more bytes than asked for.\<close>

fun cqe_ok :: "Sqe \<Rightarrow> Cqe \<Rightarrow> bool" where
  "cqe_ok (Prep_accept fd) c = True"
| "cqe_ok (Prep_recv fd n) c = (res c \<le> int n \<and> length (filled c) = nat (res c))"
| "cqe_ok (Prep_send fd bs) c = (res c \<le> int (length bs))"

inductive uring_step :: "UringDevice \<Rightarrow> UringDevice \<Rightarrow> bool" where
  uring_completes: "resume_req d = None \<Longrightarrow> in_kernel d = xs @ (e, cqe_data c) # ys \<Longrightarrow> cqe_ok e c \<Longrightarrow>
     a \<notin> dom (heap d) \<Longrightarrow> b \<notin> dom (heap d) \<Longrightarrow> a \<noteq> b \<Longrightarrow>
     uring_complete a b junk submitted c (kernel_fill c (d\<lparr>in_kernel := xs @ ys\<rparr>)) = Some d' \<Longrightarrow> uring_step d d'"
| uring_resumes: "resume_req d \<noteq> None \<Longrightarrow> a \<notin> dom (heap d) \<Longrightarrow> uring_resume a submitted d = Some d' \<Longrightarrow> uring_step d d'"
| uring_sends: "a \<notin> dom (heap d) \<Longrightarrow> length (out_bytes m) = OUCHMessageOut_SIZE \<Longrightarrow>
     uring_send_msg a submitted m d = Some (d', r) \<Longrightarrow> uring_step d d'"

inductive uring_reach :: "UringDevice \<Rightarrow> bool" where
  uring_start: "NetworkDeviceIOUring K QUEUE_SIZE init submitted addrs first_port = Some d \<Longrightarrow>
     distinct addrs \<Longrightarrow> length addrs = length (port_range first_port) \<Longrightarrow> uring_reach d"
| uring_next: "uring_reach d \<Longrightarrow> uring_step d d' \<Longrightarrow> uring_reach d'"

section \<open>The invariant\<close>

definition entries :: "UringDevice \<Rightarrow> (Sqe \<times> nat) list" where
  "entries d = sq d @ in_kernel d"

text \<open>The entry and the request it carries agree.\<close>

fun sqe_matches :: "Sqe \<Rightarrow> Request \<Rightarrow> bool" where
  "sqe_matches (Prep_accept fd) r \<longleftrightarrow> rtype r = ET_Accept \<and> listen_fd r = fd"
| "sqe_matches (Prep_recv fd n) r \<longleftrightarrow> rtype r = ET_Read \<and> client_fd r = fd \<and> n = kMaxReqSize \<and> length (buf r) = kMaxReqSize"
| "sqe_matches (Prep_send fd bs) r \<longleftrightarrow> rtype r = ET_Write \<and> client_fd r = fd \<and> buf r = bs"

text \<open>
  Every entry carries a request of its own, the requests alive are those in flight and those in \<open>H\<close>, which
  the reader thread owns.
\<close>

definition owned :: "nat set \<Rightarrow> UringDevice \<Rightarrow> bool" where
  "owned H d \<longleftrightarrow>
     distinct (map snd (entries d)) \<and> set (map snd (entries d)) = inflight_requests d \<and>
     dom (heap d) = inflight_requests d \<union> H \<and> inflight_requests d \<inter> H = {} \<and>
     (\<forall>e p. (e, p) \<in> set (entries d) \<longrightarrow> (\<exists>r. heap d p = Some r \<and> sqe_matches e r))"

fun accept_fd :: "Sqe \<Rightarrow> int list" where
  "accept_fd (Prep_accept fd) = [fd]"
| "accept_fd _ = []"

definition accepting :: "(Sqe \<times> nat) list \<Rightarrow> int multiset" where
  "accepting es = mset (concat (map (accept_fd \<circ> fst) es))"

lemma accepting_simps [simp]:
  "accepting [] = {#}" "accepting (es @ es') = accepting es + accepting es'"
  "accepting ((e, p) # es) = mset (accept_fd e) + accepting es"
  by (simp_all add: accepting_def)

text \<open>The frame of the submission operations: they leave the rest of the device alone.\<close>

definition same_device :: "UringDevice \<Rightarrow> UringDevice \<Rightarrow> bool" where
  "same_device d d' \<longleftrightarrow> depth d' = depth d \<and> listening_fds d' = listening_fds d \<and> uring_queue d' = uring_queue d \<and>
     resume_req d' = resume_req d"

lemma ownedI:
  assumes "distinct (map snd (entries d))" "set (map snd (entries d)) = inflight_requests d"
    "dom (heap d) = inflight_requests d \<union> H" "inflight_requests d \<inter> H = {}"
    "\<And>e p. (e, p) \<in> set (entries d) \<Longrightarrow> \<exists>r. heap d p = Some r \<and> sqe_matches e r"
  shows "owned H d"
  using assms by (simp add: owned_def)

lemma ownedD:
  assumes "owned H d"
  shows "distinct (map snd (entries d))" "set (map snd (entries d)) = inflight_requests d"
    "dom (heap d) = inflight_requests d \<union> H" "inflight_requests d \<inter> H = {}"
    "(e, p) \<in> set (entries d) \<Longrightarrow> p \<in> inflight_requests d \<and> (\<exists>r. heap d p = Some r \<and> sqe_matches e r)"
  using assms image_eqI [of p snd "(e, p)" "set (entries d)"] by (auto simp: owned_def)

text \<open>A request in \<open>H\<close> may be replaced by another, or handed over to a new entry.\<close>

lemma owned_new:
  assumes o: "owned H d" and a: "a \<notin> inflight_requests d"
  shows "owned (insert a H) (new_request a r d)"
proof (rule ownedI)
  fix e p assume "(e, p) \<in> set (entries (new_request a r d))"
  then have "(e, p) \<in> set (entries d)" by (simp add: entries_def new_request_def)
  then show "\<exists>r'. heap (new_request a r d) p = Some r' \<and> sqe_matches e r'"
    using ownedD(5) [OF o] a by (auto simp: new_request_def)
qed (use ownedD [OF o] a in \<open>auto simp: entries_def new_request_def\<close>)

lemma owned_claim_held:
  assumes o: "owned H d" and a: "a \<in> H" and r: "heap d a = Some r" "sqe_matches e r" and room: "length (sq d) < depth d"
  obtains d' where "claim_sqe e a d = Some d'" "owned (H - {a}) d'" "same_device d d'"
    "sq d' = sq d @ [(e, a)]" "in_kernel d' = in_kernel d" "heap d' = heap d"
proof -
  let ?d = "d\<lparr>sq := sq d @ [(e, a)], inflight_requests := insert a (inflight_requests d)\<rparr>"
  have "owned (H - {a}) ?d"
  proof (rule ownedI)
    fix e' p assume "(e', p) \<in> set (entries ?d)"
    then have "(e', p) \<in> set (entries d) \<or> (e', p) = (e, a)" by (auto simp: entries_def)
    then show "\<exists>r. heap ?d p = Some r \<and> sqe_matches e' r" using ownedD(5) [OF o] r by auto
  qed (use ownedD(1-4) [OF o] a in \<open>auto simp: entries_def\<close>)
  then show ?thesis using that [of ?d] room by (simp add: claim_sqe_def same_device_def)
qed

lemma owned_claim:
  assumes o: "owned H d" and a: "a \<notin> dom (heap d)" and m: "sqe_matches e r" and room: "length (sq d) < depth d"
  obtains d' where "claim_sqe e a (new_request a r d) = Some d'" "owned H d'" "same_device d d'"
    "sq d' = sq d @ [(e, a)]" "in_kernel d' = in_kernel d" "heap d' = (heap d)(a \<mapsto> r)"
proof -
  have fresh: "a \<notin> inflight_requests d" "a \<notin> H" using ownedD(3) [OF o] a by auto
  obtain d' where d': "claim_sqe e a (new_request a r d) = Some d'" "owned (insert a H - {a}) d'"
    "same_device (new_request a r d) d'" "sq d' = sq (new_request a r d) @ [(e, a)]"
    "in_kernel d' = in_kernel (new_request a r d)" "heap d' = heap (new_request a r d)"
    by (rule owned_claim_held [OF owned_new [OF o fresh(1)], where a = a and r = r and e = e]) (use m room in \<open>auto simp: new_request_def\<close>)
  then show ?thesis using that [of d'] fresh(2) by (simp add: new_request_def same_device_def)
qed

lemma owned_submit:
  assumes "owned H d"
  shows "owned H (io_uring_submit n d)" "accepting (entries (io_uring_submit n d)) = accepting (entries d)"
    "same_device d (io_uring_submit n d)" "heap (io_uring_submit n d) = heap d"
proof -
  have m: "mset (entries (io_uring_submit n d)) = mset (entries d)"
  proof (cases "n < 0")
    case False
    have "mset (sq d) = mset (take (nat n) (sq d)) + mset (drop (nat n) (sq d))" by (metis append_take_drop_id mset_append)
    then show ?thesis using False by (simp add: entries_def io_uring_submit_def)
  qed (simp add: io_uring_submit_def)
  have m': "mset (map snd (entries (io_uring_submit n d))) = mset (map snd (entries d))"
    unfolding mset_map m ..
  have set: "set (entries (io_uring_submit n d)) = set (entries d)" by (rule mset_eq_setD [OF m])
  have same: "inflight_requests (io_uring_submit n d) = inflight_requests d" "heap (io_uring_submit n d) = heap d"
    by (simp_all add: io_uring_submit_def)
  show "heap (io_uring_submit n d) = heap d" by (rule same(2))
  show "owned H (io_uring_submit n d)"
    using assms mset_eq_imp_distinct_iff [OF m'] by (simp add: owned_def same set)
  show "accepting (entries (io_uring_submit n d)) = accepting (entries d)"
  proof (cases "n < 0")
    case False
    have "accepting (sq d) = accepting (take (nat n) (sq d)) + accepting (drop (nat n) (sq d))"
      by (metis accepting_simps(2) append_take_drop_id)
    then show ?thesis using False by (simp add: entries_def io_uring_submit_def)
  qed (simp add: io_uring_submit_def)
  show "same_device d (io_uring_submit n d)" by (simp add: same_device_def io_uring_submit_def)
qed

lemma owned_delete:
  assumes "owned H d" "p \<in> H"
  shows "owned (H - {p}) (delete_request p d)"
proof (rule ownedI)
  fix e q assume "(e, q) \<in> set (entries (delete_request p d))"
  then have "(e, q) \<in> set (entries d)" by (simp add: entries_def delete_request_def)
  then have "q \<in> inflight_requests d" "\<exists>r. heap d q = Some r \<and> sqe_matches e r" using ownedD(5) [OF assms(1)] by auto
  moreover have "q \<noteq> p" using calculation(1) assms(2) ownedD(4) [OF assms(1)] by auto
  ultimately show "\<exists>r. heap (delete_request p d) q = Some r \<and> sqe_matches e r" by (simp add: delete_request_def)
qed (use ownedD(1-4) [OF assms(1)] assms(2) in \<open>auto simp: entries_def delete_request_def\<close>)

text \<open>A completion takes its request back from the kernel.\<close>

lemma owned_complete:
  assumes o: "owned H d" and k: "in_kernel d = xs @ (e, p) # ys"
  shows "owned (insert p H) (d\<lparr>in_kernel := xs @ ys, inflight_requests := inflight_requests d - {p}\<rparr>)"
    and "\<exists>r. heap d p = Some r \<and> sqe_matches e r" "p \<notin> H"
proof -
  have in_e: "(e, p) \<in> set (entries d)" by (simp add: entries_def k)
  then show "\<exists>r. heap d p = Some r \<and> sqe_matches e r" "p \<notin> H"
    using ownedD(4,5) [OF o] by blast+
  show "owned (insert p H) (d\<lparr>in_kernel := xs @ ys, inflight_requests := inflight_requests d - {p}\<rparr>)" (is "owned _ ?d")
  proof (rule ownedI)
    fix e' q assume "(e', q) \<in> set (entries ?d)"
    then have "(e', q) \<in> set (entries d)" by (auto simp: entries_def k)
    then show "\<exists>r. heap ?d q = Some r \<and> sqe_matches e' r" using ownedD(5) [OF o] by simp
  qed (use ownedD(1-4) [OF o] in_e in \<open>auto simp: entries_def k\<close>)
qed

section \<open>Every operation keeps it\<close>

definition uring_ok :: "UringDevice \<Rightarrow> bool" where
  "uring_ok d \<longleftrightarrow> owned (set_option (resume_req d)) d \<and> accepting (entries d) = mset (listening_fds d) \<and>
     (\<forall>p. resume_req d = Some p \<longrightarrow> (\<exists>r. heap d p = Some r \<and> rtype r = ET_Read))"

lemma queue_accept_owned:
  assumes "owned H d" "a \<notin> dom (heap d)" "length (sq d) < depth d"
  obtains d' where "queue_accept a fd d = Some d'" "owned H d'" "same_device d d'" "length (sq d') = Suc (length (sq d))"
    "accepting (entries d') = add_mset fd (accepting (entries d))" "dom (heap d') = insert a (dom (heap d))"
    "\<And>p. p \<noteq> a \<Longrightarrow> heap d' p = heap d p"
proof -
  let ?r = "\<lparr>rtype = ET_Accept, client_fd = -1, listen_fd = fd, buf = []\<rparr>"
  show ?thesis
    by (rule owned_claim [OF assms(1,2), of "Prep_accept fd" ?r])
      (use assms(3) in \<open>auto simp: queue_accept_def entries_def intro!: that\<close>)
qed

lemma queue_read_owned:
  assumes "owned H d" "a \<notin> dom (heap d)" "length (sq d) < depth d"
  obtains d' where "queue_read a fd d = Some d'" "owned H d'" "same_device d d'" "length (sq d') = Suc (length (sq d))"
    "accepting (entries d') = accepting (entries d)" "dom (heap d') = insert a (dom (heap d))"
    "\<And>p. p \<noteq> a \<Longrightarrow> heap d' p = heap d p"
proof -
  let ?r = "\<lparr>rtype = ET_Read, client_fd = fd, listen_fd = -1, buf = replicate kMaxReqSize 0\<rparr>"
  show ?thesis
    by (rule owned_claim [OF assms(1,2), of "Prep_recv fd kMaxReqSize" ?r])
      (use assms(3) in \<open>auto simp: queue_read_def entries_def intro!: that\<close>)
qed

lemma queue_write_owned:
  assumes "owned H d" "a \<in> H" "heap d a = Some r" "length (buf r) = n" "length (sq d) < depth d"
  obtains d' where "queue_write a n d = Some d'" "owned (H - {a}) d'" "same_device d d'"
    "sq d' = sq d @ [(Prep_send (client_fd r) (buf r), a)]" "in_kernel d' = in_kernel d"
    "heap d' = (heap d)(a \<mapsto> r\<lparr>rtype := ET_Write\<rparr>)"
proof -
  let ?r = "r\<lparr>rtype := ET_Write\<rparr>"
  have "a \<notin> inflight_requests d" using ownedD(4) [OF assms(1)] assms(2) by auto
  from owned_new [OF assms(1) this, of ?r] have o: "owned H (new_request a ?r d)" using assms(2) by (simp add: insert_absorb)
  show ?thesis
    by (rule owned_claim_held [OF o assms(2), of ?r "Prep_send (client_fd r) (buf r)"])
      (use assms(3-5) in \<open>auto simp: queue_write_def new_request_def same_device_def intro!: that\<close>)
qed

lemma no_room: "\<not> length (sq d) < depth d \<Longrightarrow> queue_accept a fd d = None"
  "\<not> length (sq d) < depth d \<Longrightarrow> queue_read a fd d = None" "\<not> length (sq d) < depth d \<Longrightarrow> queue_write a n d = None"
  by (auto simp: queue_accept_def queue_read_def queue_write_def claim_sqe_def new_request_def split: bind_splits)

text \<open>\<open>send_msg\<close> never fails when the submission queue has room, and keeps the invariant.\<close>

lemma uring_send_ok:
  assumes ok: "uring_ok d" and a: "a \<notin> dom (heap d)" and room: "length (sq d) < depth d"
    and len: "length (out_bytes m) = OUCHMessageOut_SIZE"
  obtains d' r where "uring_send_msg a submitted m d = Some (d', r)" "uring_ok d'" "same_device d d'"
proof (cases "response_size (out_bytes m)")
  case None
  then show ?thesis using that [of d 1] ok by (simp add: uring_send_msg_def same_device_def)
next
  case (Some n)
  let ?H = "set_option (resume_req d)"
  have o: "owned ?H d" using ok by (simp add: uring_ok_def)
  have n: "n \<le> length (out_bytes m)"
    using Some by (auto simp: len response_size_def OUCHMessageOut_SIZE_def AcceptResponseView_WIRE_SIZE_def
        CancelledResponseView_WIRE_SIZE_def CancelRejectResponseView_WIRE_SIZE_def ExecutedResponseView_WIRE_SIZE_def split: if_splits)
  let ?r = "\<lparr>rtype = ET_Write, client_fd = sint (out_account m), listen_fd = -1, buf = take n (out_bytes m)\<rparr>"
  let ?d = "new_request a ?r d"
  have fresh: "a \<notin> inflight_requests d" "a \<notin> ?H" using ownedD(3) [OF o] a by auto
  obtain d' where d': "queue_write a n ?d = Some d'" "owned (insert a ?H - {a}) d'" "same_device ?d d'"
    "sq d' = sq ?d @ [(Prep_send (client_fd ?r) (buf ?r), a)]" "in_kernel d' = in_kernel ?d" "heap d' = (heap ?d)(a \<mapsto> ?r\<lparr>rtype := ET_Write\<rparr>)"
    by (rule queue_write_owned [OF owned_new [OF o fresh(1)], where a = a and r = ?r and n = n]) (use n room in \<open>auto simp: new_request_def\<close>)
  have o': "owned ?H d'" using d'(2) fresh(2) by simp
  note s = owned_submit [OF o', of submitted]
  have acc: "accepting (entries d') = accepting (entries d)" using d'(4,5) by (simp add: entries_def new_request_def)
  have same: "same_device d (io_uring_submit submitted d')" using d'(3) s(3) by (simp add: same_device_def new_request_def)
  moreover have "heap (io_uring_submit submitted d') p = heap d p" if "p \<in> ?H" for p
    using d'(6) s(4) fresh(2) that by (auto simp: new_request_def)
  ultimately have "uring_ok (io_uring_submit submitted d')"
    using ok s(1,2) acc by (auto simp: uring_ok_def same_device_def)
  then show ?thesis
    using that [of "io_uring_submit submitted d'" "if submitted < 0 then 1 else 0"] same d'(1) Some
    by (simp add: uring_send_msg_def)
qed

lemma uring_resume_ok:
  assumes ok: "uring_ok d" and p: "resume_req d = Some p" and a: "a \<notin> dom (heap d)" and room: "length (sq d) < depth d"
  obtains d' where "uring_resume a submitted d = Some d'" "uring_ok d'" "listening_fds d' = listening_fds d"
    "depth d' = depth d" "resume_req d' = None"
proof -
  have o: "owned {p} d" using ok p by (simp add: uring_ok_def)
  obtain r where r: "heap d p = Some r" using ok p by (auto simp: uring_ok_def)
  obtain d1 where d1: "queue_read a (client_fd r) d = Some d1" "owned {p} d1" "same_device d d1"
    "accepting (entries d1) = accepting (entries d)" by (rule queue_read_owned [OF o a room]) (rule that; assumption)
  note s = owned_submit [OF d1(2), of submitted]
  let ?d2 = "(io_uring_submit submitted d1)\<lparr>resume_req := None\<rparr>"
  have "owned {p} ?d2" using s(1) by (simp add: owned_def entries_def)
  from owned_delete [OF this, of p] have "owned {} (delete_request p ?d2)" by simp
  moreover have "accepting (entries (delete_request p ?d2)) = accepting (entries d)"
    using s(2) d1(4) by (simp add: entries_def delete_request_def)
  moreover have "listening_fds (delete_request p ?d2) = listening_fds d" "depth (delete_request p ?d2) = depth d"
    "resume_req (delete_request p ?d2) = None" using d1(3) s(3) by (simp_all add: same_device_def delete_request_def)
  ultimately show ?thesis
    using that [of "delete_request p ?d2"] ok p r d1(1) by (simp add: uring_ok_def uring_resume_def)
qed

text \<open>The state in which \<open>receive_msg\<close> works on a completion: the reader owns the request.\<close>

lemma uring_taken:
  assumes ok: "uring_ok d" and none: "resume_req d = None" and k: "in_kernel d = xs @ (e, cqe_data c) # ys" and c: "cqe_ok e c"
  obtains r d1 where "heap (kernel_fill c (d\<lparr>in_kernel := xs @ ys\<rparr>)) (cqe_data c) = Some r" "sqe_matches e r"
    "d1 = (kernel_fill c (d\<lparr>in_kernel := xs @ ys\<rparr>))\<lparr>inflight_requests := inflight_requests d - {cqe_data c}\<rparr>"
    "owned {cqe_data c} d1" "accepting (entries d) = mset (accept_fd e) + accepting (entries d1)" "same_device d d1"
    "sq d1 = sq d" "heap d1 (cqe_data c) = Some r" "dom (heap d1) = dom (heap d)" "uring_queue d1 = uring_queue d"
proof -
  let ?p = "cqe_data c"
  have o: "owned {} d" using ok none by (simp add: uring_ok_def)
  note t = owned_complete [OF o k]
  obtain r where r: "heap d ?p = Some r" "sqe_matches e r" using t(2) by auto
  define r' where "r' = (if rtype r = ET_Read \<and> 0 < res c then r\<lparr>buf := write_at 0 (take (nat (res c)) (filled c)) (buf r)\<rparr> else r)"
  have m: "sqe_matches e r'" using r(2) c by (cases e) (auto simp: r'_def)
  let ?d0 = "d\<lparr>in_kernel := xs @ ys, inflight_requests := inflight_requests d - {?p}\<rparr>"
  let ?d1 = "new_request ?p r' ?d0"
  have eq: "?d1 = (kernel_fill c (d\<lparr>in_kernel := xs @ ys\<rparr>))\<lparr>inflight_requests := inflight_requests d - {?p}\<rparr>"
    using r(1) by (simp add: kernel_fill_def new_request_def r'_def fun_upd_idem)
  have "owned {?p} ?d1" using owned_new [OF t(1), of ?p r'] by simp
  moreover have "heap (kernel_fill c (d\<lparr>in_kernel := xs @ ys\<rparr>)) ?p = Some r'" using r(1) by (simp add: kernel_fill_def r'_def)
  moreover have "accepting (entries d) = mset (accept_fd e) + accepting (entries ?d1)"
    by (simp add: entries_def k new_request_def)
  moreover have "dom (heap ?d1) = dom (heap d)" using r(1) by (auto simp: new_request_def)
  ultimately show ?thesis
    using that [OF _ m eq] by (simp add: new_request_def same_device_def)
qed

lemma uring_done:
  assumes "owned {p} d" "accepting (entries d) = mset (listening_fds d)" "resume_req d = None"
  shows "uring_ok (delete_request p d)"
  using owned_delete [OF assms(1), of p] assms(2,3) by (simp add: uring_ok_def delete_request_def entries_def)

lemma uring_complete_ok:
  assumes ok: "uring_ok d" and none: "resume_req d = None" and k: "in_kernel d = xs @ (e, cqe_data c) # ys" and c: "cqe_ok e c"
    and a: "a \<notin> dom (heap d)" "b \<notin> dom (heap d)" "a \<noteq> b" and room: "length (sq d) + 2 \<le> depth d"
  obtains d' where "uring_complete a b junk submitted c (kernel_fill c (d\<lparr>in_kernel := xs @ ys\<rparr>)) = Some d'" "uring_ok d'"
    "listening_fds d' = listening_fds d" "depth d' = depth d"
proof -
  let ?p = "cqe_data c" let ?f = "kernel_fill c (d\<lparr>in_kernel := xs @ ys\<rparr>)"
  obtain r d1 where r: "heap ?f ?p = Some r" "sqe_matches e r"
    and d1_def: "d1 = ?f\<lparr>inflight_requests := inflight_requests d - {?p}\<rparr>"
    and o: "owned {?p} d1" and acc: "accepting (entries d) = mset (accept_fd e) + accepting (entries d1)"
    and same: "same_device d d1" and sq1: "sq d1 = sq d" and h1: "heap d1 ?p = Some r" "dom (heap d1) = dom (heap d)"
    by (rule uring_taken [OF ok none k c])
  have f: "?f\<lparr>inflight_requests := inflight_requests ?f - {?p}\<rparr> = d1"
    by (simp add: d1_def kernel_fill_def split: option.splits)
  have l1: "listening_fds d1 = listening_fds d" "depth d1 = depth d" "resume_req d1 = None"
    using same none by (simp_all add: same_device_def)
  have lis: "mset (listening_fds d) = mset (accept_fd e) + accepting (entries d1)" using ok acc by (simp add: uring_ok_def)
  have free: "a \<notin> dom (heap d1)" "b \<notin> dom (heap d1)" and room1: "length (sq d1) < depth d1"
    using a h1(2) room l1(2) sq1 by simp_all
  have plain: "uring_ok (delete_request ?p d1)" "listening_fds (delete_request ?p d1) = listening_fds d"
    "depth (delete_request ?p d1) = depth d" if "accept_fd e = []"
    using uring_done [OF o] lis l1 that by (simp_all add: delete_request_def)
  show ?thesis
  proof (cases e)
    case (Prep_accept fd)
    then have rt: "rtype r = ET_Accept" "listen_fd r = fd" using r(2) by simp_all
    obtain d2 where d2: "queue_accept a fd d1 = Some d2" "owned {?p} d2" "same_device d1 d2"
      "length (sq d2) = Suc (length (sq d1))" "accepting (entries d2) = add_mset fd (accepting (entries d1))"
      "dom (heap d2) = insert a (dom (heap d1))" by (rule queue_accept_owned [OF o free(1) room1]) (rule that; assumption)
    have fin: "uring_ok (delete_request ?p (io_uring_submit submitted d3))"
      "listening_fds (delete_request ?p (io_uring_submit submitted d3)) = listening_fds d"
      "depth (delete_request ?p (io_uring_submit submitted d3)) = depth d"
      if "owned {?p} d3" "same_device d2 d3" "accepting (entries d3) = accepting (entries d2)" for d3
    proof -
      note s = owned_submit [OF that(1), of submitted]
      have fields: "listening_fds (io_uring_submit submitted d3) = listening_fds d" "depth (io_uring_submit submitted d3) = depth d"
        "resume_req (io_uring_submit submitted d3) = None" using s(3) that(2) d2(3) l1 by (auto simp: same_device_def)
      have "accepting (entries (io_uring_submit submitted d3)) = mset (listening_fds (io_uring_submit submitted d3))"
        unfolding fields(1) s(2) that(3) d2(5) lis by (simp add: Prep_accept)
      from uring_done [OF s(1) this fields(3)] show "uring_ok (delete_request ?p (io_uring_submit submitted d3))" .
      show "listening_fds (delete_request ?p (io_uring_submit submitted d3)) = listening_fds d"
        "depth (delete_request ?p (io_uring_submit submitted d3)) = depth d" using fields by (simp_all add: delete_request_def)
    qed
    show ?thesis
    proof (cases "res c < 0")
      case True
      then show ?thesis
        using that [OF _ fin [OF d2(2)]] d2(1) r(1) rt f by (simp add: uring_complete_def same_device_def Let_def)
    next
      case False
      have "b \<notin> dom (heap d2)" "length (sq d2) < depth d2"
        using d2(3,4,6) free(2) a(3) room sq1 l1 by (auto simp: same_device_def)
      note fits = queue_read_owned [OF d2(2) this]
      obtain d3 where d3: "queue_read b (res c) d2 = Some d3" "owned {?p} d3" "same_device d2 d3"
        "accepting (entries d3) = accepting (entries d2)" by (rule fits) (rule that; assumption)
      then show ?thesis
        using that [OF _ fin [OF d3(2-4)]] d2(1) r(1) rt f False by (simp add: uring_complete_def uring_accepted_def Let_def)
    qed
  next
    case (Prep_recv fd n)
    then have rt: "rtype r = ET_Read" using r(2) by simp
    show ?thesis
    proof (cases "res c \<le> 0")
      case True
      then show ?thesis using that [OF _ plain] Prep_recv r(1) rt f by (auto simp: uring_complete_def Let_def)
    next
      case False
      let ?m = "\<lparr>in_account = account_of (client_fd r), in_bytes = write_at 0 (take (nat (res c)) (buf r)) junk\<rparr>"
      let ?d = "d1\<lparr>uring_queue := uring_queue d1 @ [?m], resume_req := Some ?p\<rparr>"
      have "uring_ok ?d" using o lis l1 h1(1) rt Prep_recv by (simp add: uring_ok_def owned_def entries_def)
      then show ?thesis using that [of ?d] False r(1) rt f l1 by (simp add: uring_complete_def Let_def)
    qed
  next
    case (Prep_send fd bs)
    then have rt: "rtype r = ET_Write" using r(2) by simp
    show ?thesis
    proof (cases "0 < res c \<and> nat (res c) < length (buf r)")
      case True
      let ?r = "r\<lparr>buf := drop (nat (res c)) (buf r)\<rparr>" let ?d = "new_request ?p ?r d1"
      have "?p \<notin> inflight_requests d1" using ownedD(4) [OF o] by simp
      from owned_new [OF o this] have o': "owned {?p} ?d" by simp
      obtain d2 where d2: "queue_write ?p (length (buf ?r)) ?d = Some d2" "owned ({?p} - {?p}) d2" "same_device ?d d2"
        "sq d2 = sq ?d @ [(Prep_send (client_fd ?r) (buf ?r), ?p)]" "in_kernel d2 = in_kernel ?d"
        by (rule queue_write_owned [OF o', of ?p ?r]) (use room1 in \<open>auto simp: new_request_def\<close>)
      have "accepting (entries d2) = accepting (entries d1)" using d2(4,5) by (simp add: entries_def new_request_def)
      moreover note s = owned_submit [OF d2(2), of submitted]
      moreover have "same_device d1 (io_uring_submit submitted d2)" using d2(3) s(3) by (simp add: same_device_def new_request_def)
      ultimately have "uring_ok (io_uring_submit submitted d2)" "listening_fds (io_uring_submit submitted d2) = listening_fds d"
        "depth (io_uring_submit submitted d2) = depth d" using l1 lis Prep_send by (simp_all add: uring_ok_def same_device_def)
      moreover have "uring_complete a b junk submitted c ?f = Some (io_uring_submit submitted d2)"
        using True r(1) rt f d2(1) by (auto simp: uring_complete_def Let_def)
      ultimately show ?thesis using that by blast
    next
      case False
      then show ?thesis using that [OF _ plain] Prep_send r(1) rt f by (auto simp: uring_complete_def Let_def)
    qed
  qed
qed

text \<open>What succeeds with a submission queue of some depth succeeds with a deeper one.\<close>

lemma uring_ok_depth [simp]: "uring_ok (d\<lparr>depth := N\<rparr>) = uring_ok d"
  by (simp add: uring_ok_def owned_def entries_def)

lemma deeper_fields [simp]:
  "new_request a r (d\<lparr>depth := N\<rparr>) = (new_request a r d)\<lparr>depth := N\<rparr>"
  "delete_request a (d\<lparr>depth := N\<rparr>) = (delete_request a d)\<lparr>depth := N\<rparr>"
  "io_uring_submit n (d\<lparr>depth := N\<rparr>) = (io_uring_submit n d)\<lparr>depth := N\<rparr>"
  "kernel_fill c (d\<lparr>depth := N\<rparr>) = (kernel_fill c d)\<lparr>depth := N\<rparr>"
  by (simp_all add: new_request_def delete_request_def io_uring_submit_def kernel_fill_def split: option.splits)

lemma depth_new_request [simp]: "depth (new_request a r d) = depth d"
  by (simp add: new_request_def)

lemma claim_sqe_deeper: "claim_sqe e a d = Some d' \<Longrightarrow> depth d \<le> N \<Longrightarrow> claim_sqe e a (d\<lparr>depth := N\<rparr>) = Some (d'\<lparr>depth := N\<rparr>)"
  by (auto simp: claim_sqe_def split: if_splits)

lemma claim_sqe_depth: "claim_sqe e a d = Some d' \<Longrightarrow> depth d' = depth d"
  by (auto simp: claim_sqe_def split: if_splits)

lemma queue_deeper:
  assumes "depth d \<le> N"
  shows "queue_accept a fd d = Some d' \<Longrightarrow> queue_accept a fd (d\<lparr>depth := N\<rparr>) = Some (d'\<lparr>depth := N\<rparr>) \<and> depth d' = depth d"
    and "queue_read a fd d = Some d' \<Longrightarrow> queue_read a fd (d\<lparr>depth := N\<rparr>) = Some (d'\<lparr>depth := N\<rparr>) \<and> depth d' = depth d"
    and "queue_write a n d = Some d' \<Longrightarrow> queue_write a n (d\<lparr>depth := N\<rparr>) = Some (d'\<lparr>depth := N\<rparr>) \<and> depth d' = depth d"
  using claim_sqe_deeper [of _ a "new_request a _ d" d' N] claim_sqe_depth [of _ a "new_request a _ d" d'] assms
  by (auto simp: queue_accept_def queue_read_def queue_write_def Let_def split: bind_splits)

lemma uring_accepted_deeper:
  assumes "uring_accepted a b rs req n d = Some d'" "depth d \<le> N"
  shows "uring_accepted a b rs req n (d\<lparr>depth := N\<rparr>) = Some (d'\<lparr>depth := N\<rparr>)"
proof -
  obtain d1 d2 where d: "queue_accept a (listen_fd req) d = Some d1" "queue_read b rs d1 = Some d2" "d' = io_uring_submit n d2"
    using assms(1) by (auto simp: uring_accepted_def split: bind_splits)
  note q = queue_deeper(1) [OF assms(2) d(1)]
  then have "depth d1 \<le> N" using assms(2) by simp
  from queue_deeper(2) [OF this d(2)] q d(3) show ?thesis by (simp add: uring_accepted_def)
qed

lemma uring_complete_deeper:
  assumes "uring_complete a b junk n c d = Some d'" "depth d \<le> N"
  shows "uring_complete a b junk n c (d\<lparr>depth := N\<rparr>) = Some (d'\<lparr>depth := N\<rparr>)"
proof -
  obtain req where req: "heap d (cqe_data c) = Some req" using assms(1) by (auto simp: uring_complete_def split: bind_splits)
  define d0 where "d0 = d\<lparr>inflight_requests := inflight_requests d - {cqe_data c}\<rparr>"
  have d0: "depth d0 \<le> N" "d\<lparr>depth := N, inflight_requests := inflight_requests d - {cqe_data c}\<rparr> = d0\<lparr>depth := N\<rparr>"
    "depth (new_request (cqe_data c) r d0) \<le> N" for r using assms(2) by (simp_all add: d0_def new_request_def)
  note deeper = queue_deeper(1) [OF d0(1)] queue_deeper(3) [OF d0(3)] uring_accepted_deeper [OF _ d0(1), where n = n]
  show ?thesis
    using assms(1) req by (cases "rtype req")
      (auto simp: uring_complete_def Let_def d0(2) d0_def [symmetric] dest!: deeper split: bind_splits if_splits)
qed

section \<open>Reachable states\<close>

lemma uring_listen_ok:
  assumes "uring_listen K ps tr d = Some d'" "uring_ok d" "resume_req d = None" "distinct (map fst ps)"
    "fst ` set ps \<inter> dom (heap d) = {}"
  shows "uring_ok d' \<and> resume_req d' = None"
  using assms
proof (induction ps arbitrary: tr d)
  case (Cons p ps)
  obtain a port where p: "p = (a, port)" by (cases p)
  obtain lfd tr' d1 where d1: "queue_accept a lfd (d\<lparr>listening_fds := listening_fds d @ [lfd]\<rparr>) = Some d1"
    "uring_listen K ps tr' d1 = Some d'" using Cons.prems(1) by (auto simp: p split: bind_splits)
  let ?d = "d\<lparr>listening_fds := listening_fds d @ [lfd]\<rparr>"
  have o: "owned {} ?d" using Cons.prems(2,3) by (simp add: uring_ok_def owned_def entries_def)
  have a: "a \<notin> dom (heap ?d)" using Cons.prems(5) by (auto simp: p)
  have room: "length (sq ?d) < depth ?d" using d1(1) no_room(1) [of ?d a lfd] by auto
  obtain d2 where d2: "queue_accept a lfd ?d = Some d2" "owned {} d2" "same_device ?d d2"
    "accepting (entries d2) = add_mset lfd (accepting (entries ?d))" "dom (heap d2) = insert a (dom (heap ?d))"
    by (rule queue_accept_owned [OF o a room]) (rule that; assumption)
  have eq: "d2 = d1" using d1(1) d2(1) by simp
  have "accepting (entries d) = mset (listening_fds d)" using Cons.prems(2) by (simp add: uring_ok_def)
  then have "uring_ok d1" "resume_req d1 = None"
    using d2 Cons.prems(3) unfolding eq by (simp_all add: uring_ok_def same_device_def entries_def)
  moreover have "fst ` set ps \<inter> dom (heap d1) = {}" using d2(5) Cons.prems(4,5) unfolding eq by (auto simp: p)
  ultimately show ?case using Cons.IH [OF d1(2)] Cons.prems(4) by simp
qed simp

lemma uring_submit_ok:
  assumes "uring_ok d"
  shows "uring_ok (io_uring_submit n d)"
proof -
  have o: "owned (set_option (resume_req d)) d" using assms by (simp add: uring_ok_def)
  note s = owned_submit [OF o, of n]
  have "resume_req (io_uring_submit n d) = resume_req d" "listening_fds (io_uring_submit n d) = listening_fds d"
    using s(3) by (simp_all add: same_device_def)
  then show ?thesis using assms s(1,2,4) by (simp add: uring_ok_def)
qed

lemma NetworkDeviceIOUring_ok:
  assumes "NetworkDeviceIOUring K N init n addrs port = Some d" "distinct addrs"
  shows "uring_ok d"
proof -
  let ?d0 = "\<lparr>depth = N, heap = Map.empty, inflight_requests = {}, listening_fds = [], sq = [], in_kernel = [],
    uring_queue = [], resume_req = None\<rparr>"
  obtain d1 where d1: "uring_listen K (zip addrs (port_range port)) [] ?d0 = Some d1" "d = io_uring_submit n d1"
    using assms(1) by (auto simp: NetworkDeviceIOUring_def split: bind_splits if_splits)
  have "distinct (map fst (zip addrs (port_range port)))" using assms(2) by (simp add: map_fst_zip_take)
  then have "uring_ok d1"
    using uring_listen_ok [OF d1(1)] by (simp add: uring_ok_def owned_def entries_def)
  then show ?thesis unfolding d1(2) by (rule uring_submit_ok)
qed

lemma uring_step_ok:
  assumes "uring_step d d'" "uring_ok d"
  shows "uring_ok d'"
  using assms(1)
proof cases
  case (uring_completes xs e c ys a b junk submitted)
  let ?N = "depth d + length (sq d) + 2" let ?D = "d\<lparr>depth := ?N\<rparr>"
  have "depth (kernel_fill c (d\<lparr>in_kernel := xs @ ys\<rparr>)) = depth d" by (simp add: kernel_fill_def split: option.splits)
  then have "uring_complete a b junk submitted c ((kernel_fill c (d\<lparr>in_kernel := xs @ ys\<rparr>))\<lparr>depth := ?N\<rparr>) = Some (d'\<lparr>depth := ?N\<rparr>)"
    by (intro uring_complete_deeper [OF uring_completes(7)]) simp
  moreover have "(kernel_fill c (d\<lparr>in_kernel := xs @ ys\<rparr>))\<lparr>depth := ?N\<rparr> = kernel_fill c (?D\<lparr>in_kernel := xs @ ys\<rparr>)"
    by (simp add: kernel_fill_def split: option.splits)
  moreover obtain d2 where "uring_complete a b junk submitted c (kernel_fill c (?D\<lparr>in_kernel := xs @ ys\<rparr>)) = Some d2" "uring_ok d2"
    by (rule uring_complete_ok [of ?D xs e c ys a b]) (use uring_completes(1-6) assms(2) in \<open>auto\<close>)
  ultimately have "uring_ok (d'\<lparr>depth := ?N\<rparr>)" by simp
  then show ?thesis by simp
next
  case (uring_resumes a submitted)
  then obtain p where p: "resume_req d = Some p" by auto
  have "length (sq d) < depth d"
    using uring_resumes(3) no_room(2) [of d] by (cases "length (sq d) < depth d") (auto simp: uring_resume_def p split: bind_splits)
  from uring_resume_ok [OF assms(2) p uring_resumes(2) this, of submitted] uring_resumes(3) show ?thesis by auto
next
  case (uring_sends a m submitted r)
  show ?thesis
  proof (cases "response_size (out_bytes m)")
    case None
    then show ?thesis using uring_sends(3) assms(2) by (simp add: uring_send_msg_def)
  next
    case (Some n)
    have "length (sq d) < depth d"
      using uring_sends(3) no_room(3) [of "new_request a _ d"] Some
      by (cases "length (sq d) < depth d") (auto simp: uring_send_msg_def new_request_def split: bind_splits)
    from uring_send_ok [OF assms(2) uring_sends(1) this uring_sends(2), of submitted] uring_sends(3) show ?thesis by auto
  qed
qed

lemma uring_reach_ok: "uring_reach d \<Longrightarrow> uring_ok d"
  by (induction rule: uring_reach.induct) (auto intro: NetworkDeviceIOUring_ok uring_step_ok)

end
