(* ===== verification/Device_Correct.thy ===== *)
theory Device_Correct
  imports Uring_Device Matching_Spec
begin

text \<open>
  Properties of the two network devices: the descriptors of the epoll device, the ownership of the
  requests of the io_uring device, what the two send for a response, and what a read delivers.
\<close>

section \<open>A concrete kernel\<close>

text \<open>Descriptors are handed out in ascending order; epoll reports the descriptor added last.\<close>

fun demo_answer :: "syscall list \<Rightarrow> syscall \<Rightarrow> int" where
  "demo_answer h Socket = 3 + int (length h)"
| "demo_answer h Epoll_create = 3 + int (length h)"
| "demo_answer h (Accept4 fd) = 3 + int (length h)"
| "demo_answer h (Epoll_wait n) = 1"
| "demo_answer h (Read fd n) = int (min 9 n)"
| "demo_answer h _ = 0"

fun added :: "syscall \<Rightarrow> (int \<times> bool) list" where
  "added (Epoll_add fd) = [(fd, True)]"
| "added _ = []"

definition demo_kernel :: Kernel where
  "demo_kernel = \<lparr>answer = demo_answer, payload = (\<lambda>h. replicate 9 88),
     ready = (\<lambda>h. if h = [] then [] else added (last h))\<rparr>"

lemma demo_open: "honest demo_kernel tr \<Longrightarrow> open_of tr \<subseteq> {3..<3 + int (length tr)}"
proof (induction tr rule: rev_induct)
  case (snoc x tr)
  obtain c r where x: "x = (c, r)" by (cases x)
  have h: "honest demo_kernel (log_call tr c r)" using snoc.prems by (simp add: x log_call_def)
  then have IH: "open_of tr \<subseteq> {3..<3 + int (length tr)}" using snoc.IH by simp
  have "opens c \<Longrightarrow> r = 3 + int (length tr)" using h by (cases c) (simp_all add: demo_kernel_def)
  then have "open_of (log_call tr c r) \<subseteq> insert (3 + int (length tr)) (open_of tr)" by auto
  then show ?case using IH by (fastforce simp: x log_call_def)
qed simp

lemma demo_posix: "posix demo_kernel"
  unfolding posix_def
proof (intro allI impI conjI)
  fix tr c assume h: "honest demo_kernel tr"
  show "answer demo_kernel (map fst tr) c \<notin> open_of tr" if "opens c"
    using that demo_open [OF h] by (cases c) (auto simp: demo_kernel_def)
  show "fst ` set (ready demo_kernel (map fst tr)) \<subseteq> watched_of tr"
  proof (cases tr rule: rev_cases)
    case (snoc tr' x)
    obtain c r where x: "x = (c, r)" by (cases x)
    have tr: "tr = log_call tr' c r" by (simp add: snoc x log_call_def)
    show ?thesis
    proof (cases c)
      case (Epoll_add fd)
      then show ?thesis using h by (simp add: tr demo_kernel_def) (simp add: log_call_def)
    qed (simp_all add: demo_kernel_def snoc x)
  qed (simp add: demo_kernel_def)
  show "distinct (map fst (ready demo_kernel (map fst tr)))"
  proof (cases tr rule: rev_cases)
    case (snoc tr' x)
    then show ?thesis by (cases "fst x") (simp_all add: demo_kernel_def)
  qed (simp add: demo_kernel_def)
qed

lemma ten_ports: "port_range 49152 = [49152, 49153, 49154, 49155, 49156, 49157, 49158, 49159, 49160, 49161]"
  by (simp add: port_range_def END_PORT_RANGE_def START_PORT_RANGE_def numeral_eq_Suc upt_rec)

lemma demo_socket:
  "setup_listening_socket demo_kernel port tr = Some (3 + int (length tr),
     log_call (log_call (log_call (log_call tr Socket (3 + int (length tr))) (Setsockopt (3 + int (length tr))) 0)
       (Bind (3 + int (length tr)) port) 0) (Listen (3 + int (length tr)) 10) 0)"
  by (simp add: setup_listening_socket_def syscall_def demo_kernel_def Let_def)

lemma demo_epoll_listen: "\<exists>d'. epoll_listen demo_kernel ports d = Some d'"
proof (induction ports arbitrary: d)
  case (Cons port ports)
  then show ?case by (simp add: demo_socket syscall_def Let_def) (simp add: demo_kernel_def)
qed simp

definition demo_epoll :: EpollDevice where
  "demo_epoll = the (NetworkDeviceEpoll demo_kernel 49152)"

lemma demo_epoll_new: "NetworkDeviceEpoll demo_kernel 49152 = Some demo_epoll"
proof -
  have "\<exists>d. NetworkDeviceEpoll demo_kernel 49152 = Some d"
    using demo_epoll_listen by (simp add: NetworkDeviceEpoll_def syscall_def Let_def) (simp add: demo_kernel_def)
  then show ?thesis by (auto simp: demo_epoll_def)
qed

section \<open>The epoll device\<close>

lemma epoll_destroy_open:
  "open_of (fold (\<lambda>fd tr. snd (syscall K (Close fd) tr)) order tr) = open_of tr - set order"
  by (induction order arbitrary: tr) (auto simp: syscall_def Let_def)

text \<open>
  C24: No descriptor is lost or closed twice. Whatever the kernel reports, after any sequence of
  \<open>receive_msg\<close> and \<open>send_msg\<close> the open descriptors are the epoll instance and exactly the watched sockets, so that an accepted
  client is either watched or has been closed; and nothing was closed that was not open. The destructor closes the epoll instance
  and the listening sockets, and leaves the sockets of the connected clients open.
\<close>

theorem epoll_descriptors_accounted:
  assumes "posix K" "NetworkDeviceEpoll K port = Some d0" "d = epoll_run K ops d0" "set order = fds d"
  shows "open_of (trace d) = insert (epfd d) (watched_of (trace d)) \<and> closes_open (trace d) \<and>
    fds d \<subseteq> watched_of (trace d) \<and> open_of (epoll_destroy K order d) = watched_of (trace d) - fds d"
proof -
  have "epoll_inv K d"
    using epoll_run_inv [OF assms(1) NetworkDeviceEpoll_inv [OF assms(1,2)], of ops] by (simp add: assms(3))
  then show ?thesis
    using assms(4) epoll_destroy_open [of K "epfd d # order" "trace d"] by (auto simp: epoll_inv_def epoll_destroy_def)
qed

theorem epoll_descriptors_accounted_witness:
  "\<exists>order. set order = fds (epoll_run demo_kernel [Inl []] demo_epoll) \<and>
    (let d = epoll_run demo_kernel [Inl []] demo_epoll in
      open_of (trace d) = insert (epfd d) (watched_of (trace d)) \<and> closes_open (trace d) \<and>
      fds d \<subseteq> watched_of (trace d) \<and> open_of (epoll_destroy demo_kernel order d) = watched_of (trace d) - fds d)"
proof -
  have "finite (fds d')" if "epoll_listen K ports d = Some d'" "finite (fds d)" for K ports d d'
    using that by (induction K ports d rule: epoll_listen.induct) (auto simp: Let_def split: option.splits prod.splits if_splits)
  then have "finite (fds demo_epoll)"
    using demo_epoll_new by (auto simp: NetworkDeviceEpoll_def Let_def split: prod.splits if_splits)
  then have "finite (fds (epoll_run demo_kernel [Inl []] demo_epoll))"
    using epoll_run_inv [OF demo_posix NetworkDeviceEpoll_inv [OF demo_posix demo_epoll_new], of "[Inl []]"] by simp
  then obtain order where order: "set order = fds (epoll_run demo_kernel [Inl []] demo_epoll)" using finite_list by blast
  from epoll_descriptors_accounted [OF demo_posix demo_epoll_new refl order] order show ?thesis unfolding Let_def by blast
qed
section \<open>The io_uring device\<close>

definition demo_uring :: UringDevice where
  "demo_uring = the (NetworkDeviceIOUring demo_kernel 16 0 10 [0..<10] 49152)"

lemma upt_10: "[0..<10] = [0, 1, 2, 3, 4, 5, 6, 7, 8, 9 :: nat]"
  by (simp add: upt_rec)

lemma length_log_call [simp]: "length (log_call tr c r) = Suc (length tr)"
  by (simp add: log_call_def)

lemmas uring_eval = NetworkDeviceIOUring_def ten_ports upt_10 demo_socket queue_accept_def claim_sqe_def new_request_def io_uring_submit_def

lemma demo_uring_state:
  "NetworkDeviceIOUring demo_kernel 16 0 10 [0..<10] 49152 = Some demo_uring"
  "sq demo_uring = []" "depth demo_uring = 16" "resume_req demo_uring = None" "dom (heap demo_uring) = set [0..<10]"
  "in_kernel demo_uring = map (\<lambda>i. (Prep_accept (3 + 4 * int i), i)) [0..<10]" "uring_queue demo_uring = []"
  "heap demo_uring 0 = Some \<lparr>rtype = ET_Accept, client_fd = -1, listen_fd = 3, buf = []\<rparr>" "inflight_requests demo_uring = set [0..<10]"
  by (simp_all add: demo_uring_def uring_eval) auto

lemma demo_uring_reach: "uring_reach demo_uring"
  by (rule uring_start [OF demo_uring_state(1)]) (simp_all add: ten_ports)

text \<open>
  C10: Every request object has exactly one owner. In every state the two threads and the kernel can reach,
  the entries prepared or submitted carry pairwise different requests, these are the requests recorded as in flight, and the
  objects alive are these and the one the reader thread holds. So a completion never names a freed request, none is freed twice, and
  when the reader is between two calls the destructor frees all of them.
\<close>

theorem uring_requests_owned:
  assumes "uring_reach d"
  shows "distinct (map snd (sq d @ in_kernel d)) \<and> set (map snd (sq d @ in_kernel d)) = inflight_requests d \<and>
    dom (heap d) = inflight_requests d \<union> set_option (resume_req d) \<and> inflight_requests d \<inter> set_option (resume_req d) = {} \<and>
    dom (heap (fst (uring_destroy d))) = set_option (resume_req d)"
proof -
  have "owned (set_option (resume_req d)) d" using uring_reach_ok [OF assms] by (simp add: uring_ok_def)
  note o = ownedD(1-4) [OF this]
  have "dom (heap (fst (uring_destroy d))) = dom (heap d) - inflight_requests d" by (auto simp: uring_destroy_def)
  then show ?thesis using o by (auto simp: entries_def)
qed

theorem uring_requests_owned_witness:
  "distinct (map snd (sq demo_uring @ in_kernel demo_uring)) \<and>
    set (map snd (sq demo_uring @ in_kernel demo_uring)) = inflight_requests demo_uring \<and>
    dom (heap demo_uring) = inflight_requests demo_uring \<union> set_option (resume_req demo_uring) \<and>
    inflight_requests demo_uring \<inter> set_option (resume_req demo_uring) = {} \<and>
    dom (heap (fst (uring_destroy demo_uring))) = set_option (resume_req demo_uring)"
  by (rule uring_requests_owned [OF demo_uring_reach])

text \<open>
  The server never stops listening. In every reachable state there is exactly one accept outstanding
  for every listening socket, also after failed accepts and failed submissions.
\<close>

theorem uring_always_listening:
  assumes "uring_reach d"
  shows "accepting (sq d @ in_kernel d) = mset (listening_fds d)"
  using uring_reach_ok [OF assms] by (simp add: uring_ok_def entries_def)

theorem uring_always_listening_witness:
  "accepting (sq demo_uring @ in_kernel demo_uring) = mset (listening_fds demo_uring)"
  by (rule uring_always_listening [OF demo_uring_reach])

text \<open>
  While the submission queue has two free entries, every completion the kernel may deliver, every
  resumption of the reader and every \<open>send_msg\<close> runs without undefined behaviour, wherever the other thread is.
\<close>

theorem uring_never_undefined:
  assumes "uring_reach d" "length (sq d) + 2 \<le> depth d" "a \<notin> dom (heap d)" "b \<notin> dom (heap d)" "a \<noteq> b"
    and "length (out_bytes m) = OUCHMessageOut_SIZE" "in_kernel d = xs @ (e, cqe_data c) # ys" "cqe_ok e c"
  shows "(resume_req d = None \<longrightarrow> uring_complete a b junk submitted c (kernel_fill c (d\<lparr>in_kernel := xs @ ys\<rparr>)) \<noteq> None) \<and>
    uring_resume a submitted d \<noteq> None \<and> uring_send_msg a submitted m d \<noteq> None"
proof -
  note ok = uring_reach_ok [OF assms(1)]
  have room: "length (sq d) < depth d" using assms(2) by simp
  have "uring_complete a b junk submitted c (kernel_fill c (d\<lparr>in_kernel := xs @ ys\<rparr>)) \<noteq> None" if n: "resume_req d = None"
    by (rule uring_complete_ok [OF ok n assms(7,8,3-5,2), where junk = junk and submitted = submitted]) auto
  moreover have "uring_resume a submitted d \<noteq> None"
  proof (cases "resume_req d")
    case (Some p)
    then show ?thesis by (rule uring_resume_ok [OF ok _ assms(3) room, where submitted = submitted]) auto
  qed (simp add: uring_resume_def)
  moreover have "uring_send_msg a submitted m d \<noteq> None"
    by (rule uring_send_ok [OF ok assms(3) room assms(6), where submitted = submitted]) auto
  ultimately show ?thesis by blast
qed

definition demo_response :: OutboundMessage where
  "demo_response = \<lparr>out_account = 7, out_bytes = 73 # replicate 63 0\<rparr>"

lemma demo_response_size:
  "length (out_bytes demo_response) = OUCHMessageOut_SIZE" "response_size (out_bytes demo_response) = Some 15"
  by (simp_all add: demo_response_def OUCHMessageOut_SIZE_def AcceptResponseView_WIRE_SIZE_def CancelledResponseView_WIRE_SIZE_def
      ExecutedResponseView_WIRE_SIZE_def CancelRejectResponseView_WIRE_SIZE_def response_size_def)

theorem uring_never_undefined_witness:
  "uring_complete 10 11 [] 2 \<lparr>cqe_data = 0, res = 55, filled = []\<rparr> (kernel_fill \<lparr>cqe_data = 0, res = 55, filled = []\<rparr>
     (demo_uring\<lparr>in_kernel := map (\<lambda>i. (Prep_accept (3 + 4 * int i), i)) [1..<10]\<rparr>)) \<noteq> None \<and>
   uring_resume 10 2 demo_uring \<noteq> None \<and> uring_send_msg 10 2 demo_response demo_uring \<noteq> None"
proof -
  have k: "in_kernel demo_uring = [] @ (Prep_accept 3, cqe_data \<lparr>cqe_data = 0, res = 55, filled = []\<rparr>) #
      map (\<lambda>i. (Prep_accept (3 + 4 * int i), i)) [1..<10]"
    by (simp add: demo_uring_state upt_10 upt_rec)
  from uring_never_undefined [OF demo_uring_reach _ _ _ _ demo_response_size(1) k, of 10 11 "[]" 2]
  show ?thesis by (simp add: demo_uring_state)
qed

text \<open>
  A read is one message, whatever it holds. When a read of a client completes with \<open>n\<close> bytes,
  exactly one message is put on the inbound queue: it carries the client's descriptor as account, its first \<open>n\<close> bytes are the bytes
  received and the rest is whatever the uninitialised buffer held; then the client is read again. Two requests that arrive in one
  segment become one message, of which the engine sees the first, and a request that arrives in two segments becomes two messages.
\<close>

theorem read_delivers_one_message:
  assumes "uring_reach d" "resume_req d = None" "in_kernel d = xs @ (Prep_recv fd n, cqe_data c) # ys" "cqe_ok (Prep_recv fd n) c"
    and "0 < res c" "length junk = OUCHMessageIn_SIZE" "a' \<notin> dom (heap d)" "length (sq d) < depth d"
  shows "\<exists>d' d''. uring_complete a b junk submitted c (kernel_fill c (d\<lparr>in_kernel := xs @ ys\<rparr>)) = Some d' \<and>
    uring_queue d' = uring_queue d @ [\<lparr>in_account = account_of fd, in_bytes = filled c @ drop (nat (res c)) junk\<rparr>] \<and>
    uring_resume a' 1 d' = Some d'' \<and> uring_queue d'' = uring_queue d' \<and> resume_req d'' = None \<and>
    (Prep_recv fd kMaxReqSize, a') \<in> set (sq d'' @ in_kernel d'')"
proof -
  let ?p = "cqe_data c" let ?f = "kernel_fill c (d\<lparr>in_kernel := xs @ ys\<rparr>)"
  note ok = uring_reach_ok [OF assms(1)]
  obtain r d1 where r: "heap ?f ?p = Some r" "sqe_matches (Prep_recv fd n) r"
    and d1: "d1 = ?f\<lparr>inflight_requests := inflight_requests d - {?p}\<rparr>" "same_device d d1" "sq d1 = sq d" "heap d1 ?p = Some r"
      "dom (heap d1) = dom (heap d)" "uring_queue d1 = uring_queue d"
    by (rule uring_taken [OF ok assms(2-4)]) (rule that; assumption)
  obtain r0 where r0: "heap d ?p = Some r0" "sqe_matches (Prep_recv fd n) r0"
    using owned_complete(2) [OF _ assms(3), of "{}"] ok assms(2) by (auto simp: uring_ok_def)
  have "r = r0\<lparr>buf := write_at 0 (take (nat (res c)) (filled c)) (buf r0)\<rparr>"
    using r(1) r0 assms(5) by (simp add: kernel_fill_def)
  then have "take (nat (res c)) (buf r) = filled c"
    using r0(2) assms(4,5) by (simp add: write_at_def)
  moreover have f: "?f\<lparr>inflight_requests := inflight_requests ?f - {?p}\<rparr> = d1"
    using d1(1) by (simp add: kernel_fill_def split: option.splits)
  moreover have "length (filled c) = nat (res c)" using assms(4) by simp
  ultimately have c: "uring_complete a b junk submitted c ?f = Some (d1\<lparr>uring_queue := uring_queue d1 @
      [\<lparr>in_account = account_of fd, in_bytes = filled c @ drop (nat (res c)) junk\<rparr>], resume_req := Some ?p\<rparr>)" (is "_ = Some ?d'")
    using r assms(5) by (simp add: uring_complete_def Let_def write_at_def)
  have room: "length (sq ?d') < depth ?d'" using assms(8) d1(2,3) by (simp add: same_device_def)
  have "\<exists>d''. uring_resume a' 1 ?d' = Some d'' \<and> uring_queue d'' = uring_queue ?d' \<and> resume_req d'' = None \<and>
      (Prep_recv fd kMaxReqSize, a') \<in> set (sq d'' @ in_kernel d'')"
    using d1(4) r(2) room
    by (cases "sq d1") (simp_all add: uring_resume_def queue_read_def claim_sqe_def new_request_def delete_request_def io_uring_submit_def)
  then show ?thesis using c d1(6) by auto
qed

text \<open>A client connects as descriptor 55.\<close>

definition demo_accept :: Cqe where
  "demo_accept = \<lparr>cqe_data = 0, res = 55, filled = []\<rparr>"

definition demo_client :: UringDevice where
  "demo_client = the (uring_complete 10 11 [] 2 demo_accept (kernel_fill demo_accept
     (demo_uring\<lparr>in_kernel := map (\<lambda>i. (Prep_accept (3 + 4 * int i), i)) [1..<10]\<rparr>)))"

lemma demo_client_state:
  "uring_complete 10 11 [] 2 demo_accept (kernel_fill demo_accept
     (demo_uring\<lparr>in_kernel := map (\<lambda>i. (Prep_accept (3 + 4 * int i), i)) [1..<10]\<rparr>)) = Some demo_client"
  "sq demo_client = []" "depth demo_client = 16" "resume_req demo_client = None" "12 \<notin> dom (heap demo_client)"
  "in_kernel demo_client = (map (\<lambda>i. (Prep_accept (3 + 4 * int i), i)) [1..<10] @ [(Prep_accept 3, 10)]) @ (Prep_recv 55 47, 11) # []"
  "uring_queue demo_client = []"
proof -
  have k: "kMaxReqSize = 47" by (simp add: kMaxReqSize_def EnterRequestView_WIRE_SIZE_def CancelRequestView_WIRE_SIZE_def)
  note eval = demo_client_def demo_accept_def uring_complete_def uring_accepted_def kernel_fill_def queue_accept_def queue_read_def
    claim_sqe_def new_request_def delete_request_def io_uring_submit_def demo_uring_state k Let_def
  show "uring_complete 10 11 [] 2 demo_accept (kernel_fill demo_accept
     (demo_uring\<lparr>in_kernel := map (\<lambda>i. (Prep_accept (3 + 4 * int i), i)) [1..<10]\<rparr>)) = Some demo_client"
    "sq demo_client = []" "depth demo_client = 16" "resume_req demo_client = None" "uring_queue demo_client = []"
    "in_kernel demo_client = (map (\<lambda>i. (Prep_accept (3 + 4 * int i), i)) [1..<10] @ [(Prep_accept 3, 10)]) @ (Prep_recv 55 47, 11) # []"
    by (simp_all add: eval)
  have "12 \<notin> dom (heap demo_uring)" by (simp add: demo_uring_state)
  then show "12 \<notin> dom (heap demo_client)" by (simp add: eval domIff)
qed

lemma demo_client_reach: "uring_reach demo_client"
proof -
  let ?ys = "map (\<lambda>i. (Prep_accept (3 + 4 * int i), i)) [1..<10]"
  have "in_kernel demo_uring = [] @ (Prep_accept 3, cqe_data demo_accept) # ?ys"
    by (simp add: demo_uring_state demo_accept_def upt_10 upt_rec)
  moreover have "uring_complete 10 11 [] 2 demo_accept (kernel_fill demo_accept (demo_uring\<lparr>in_kernel := [] @ ?ys\<rparr>)) = Some demo_client"
    using demo_client_state(1) by simp
  ultimately have "uring_step demo_uring demo_client"
    by (intro uring_completes [of demo_uring "[]" "Prep_accept 3" demo_accept ?ys 10 11]) (simp_all add: demo_uring_state)
  then show ?thesis by (rule uring_next [OF demo_uring_reach])
qed

theorem read_delivers_one_message_witness:
  "\<exists>d' d''. uring_complete 0 0 (replicate 47 0) 0 \<lparr>cqe_data = 11, res = 2, filled = [88, 1]\<rparr>
      (kernel_fill \<lparr>cqe_data = 11, res = 2, filled = [88, 1]\<rparr>
        (demo_client\<lparr>in_kernel := map (\<lambda>i. (Prep_accept (3 + 4 * int i), i)) [1..<10] @ [(Prep_accept 3, 10)]\<rparr>)) = Some d' \<and>
    uring_queue d' = [\<lparr>in_account = account_of 55, in_bytes = [88, 1] @ replicate 45 0\<rparr>] \<and>
    uring_resume 12 1 d' = Some d'' \<and> uring_queue d'' = uring_queue d' \<and> resume_req d'' = None \<and>
    (Prep_recv 55 kMaxReqSize, 12) \<in> set (sq d'' @ in_kernel d'')"
proof -
  let ?c = "\<lparr>cqe_data = 11, res = 2, filled = [88, 1]\<rparr>"
  have k: "in_kernel demo_client = (map (\<lambda>i. (Prep_accept (3 + 4 * int i), i)) [1..<10] @ [(Prep_accept 3, 10)]) @ (Prep_recv 55 47, cqe_data ?c) # []"
    by (simp add: demo_client_state)
  have len: "length (replicate 47 (0 :: byte)) = OUCHMessageIn_SIZE"
    by (simp add: OUCHMessageIn_SIZE_def EnterRequestView_WIRE_SIZE_def CancelRequestView_WIRE_SIZE_def)
  show ?thesis
    using read_delivers_one_message [OF demo_client_reach demo_client_state(4) k _ _ len demo_client_state(5), of 0 0 0]
    by (simp add: demo_client_state)
qed

text \<open>
  A short write sends the rest of the message, behind everything submitted meanwhile. When a send of
  \<open>bs\<close> completes with \<open>n\<close> bytes, \<open>0 < n < length bs\<close>, the same request is submitted again with exactly the bytes after the first
  \<open>n\<close>, after the entries already with the kernel: a later message for the same client that is among them overtakes the rest.
\<close>

theorem short_write_requeues_rest:
  assumes "uring_reach d" "resume_req d = None" "in_kernel d = xs @ (Prep_send fd bs, cqe_data c) # ys"
    and "0 < res c" "nat (res c) < length bs" "sq d = []" "0 < depth d" "0 < submitted"
  shows "\<exists>d'. uring_complete a b junk submitted c (kernel_fill c (d\<lparr>in_kernel := xs @ ys\<rparr>)) = Some d' \<and>
    in_kernel d' = xs @ ys @ [(Prep_send fd (drop (nat (res c)) bs), cqe_data c)] \<and>
    map_option buf (heap d' (cqe_data c)) = Some (drop (nat (res c)) bs) \<and> cqe_data c \<in> inflight_requests d' \<and>
    uring_queue d' = uring_queue d"
proof -
  obtain r where r: "heap d (cqe_data c) = Some r" "sqe_matches (Prep_send fd bs) r"
    using owned_complete(2) [OF _ assms(3), of "{}"] uring_reach_ok [OF assms(1)] assms(2) by (auto simp: uring_ok_def)
  moreover have "kernel_fill c (d\<lparr>in_kernel := xs @ ys\<rparr>) = d\<lparr>in_kernel := xs @ ys\<rparr>" using r by (simp add: kernel_fill_def)
  moreover have "0 < nat submitted" using assms(8) by simp
  ultimately show ?thesis
    using assms(4-8)
    by (simp add: uring_complete_def queue_write_def claim_sqe_def new_request_def io_uring_submit_def Let_def)
qed

definition demo_sending :: UringDevice where
  "demo_sending = fst (the (uring_send_msg 12 1 demo_response demo_uring))"

lemma demo_sending_state:
  "uring_send_msg 12 1 demo_response demo_uring = Some (demo_sending, 0)"
  "sq demo_sending = []" "depth demo_sending = 16" "resume_req demo_sending = None"
  "in_kernel demo_sending = in_kernel demo_uring @ (Prep_send 7 (73 # replicate 14 0), 12) # []"
  by (simp_all add: demo_sending_def uring_send_msg_def demo_response_size queue_write_def new_request_def claim_sqe_def
      demo_uring_state(2-4) io_uring_submit_def Let_def) (simp_all add: demo_response_def)

theorem short_write_requeues_rest_witness:
  "\<exists>d'. uring_complete 0 0 [] 1 \<lparr>cqe_data = 12, res = 14, filled = []\<rparr> (kernel_fill \<lparr>cqe_data = 12, res = 14, filled = []\<rparr>
      (demo_sending\<lparr>in_kernel := in_kernel demo_uring @ []\<rparr>)) = Some d' \<and>
    in_kernel d' = in_kernel demo_uring @ [] @ [(Prep_send 7 [0], 12)] \<and> map_option buf (heap d' 12) = Some [0] \<and>
    12 \<in> inflight_requests d' \<and> uring_queue d' = uring_queue demo_sending"
proof -
  let ?c = "\<lparr>cqe_data = 12, res = 14, filled = []\<rparr>"
  have k: "in_kernel demo_sending = in_kernel demo_uring @ (Prep_send 7 (73 # replicate 14 0), cqe_data ?c) # []"
    by (simp add: demo_sending_state)
  have "12 \<notin> dom (heap demo_uring)" by (simp add: demo_uring_state)
  then have "uring_reach demo_sending"
    by (rule uring_next [OF demo_uring_reach uring_sends [OF _ demo_response_size(1) demo_sending_state(1)]])
  from short_write_requeues_rest [OF this demo_sending_state(4) k, of 1 0 0 "[]"] show ?thesis
    by (simp add: demo_sending_state(2,3))
qed

text \<open>A read that fails is not queued again: the connection stays open and is never read.\<close>

lemma read_error_abandons_client:
  assumes "uring_reach d" "resume_req d = None" "in_kernel d = xs @ (Prep_recv fd n, cqe_data c) # ys" "res c < 0"
  shows "\<exists>d'. uring_complete a b junk submitted c (kernel_fill c (d\<lparr>in_kernel := xs @ ys\<rparr>)) = Some d' \<and>
    sq d' = sq d \<and> in_kernel d' = xs @ ys \<and> resume_req d' = None \<and> uring_queue d' = uring_queue d"
proof -
  obtain r where r: "heap d (cqe_data c) = Some r" "rtype r = ET_Read"
    using owned_complete(2) [OF _ assms(3), of "{}"] uring_reach_ok [OF assms(1)] assms(2) by (auto simp: uring_ok_def)
  then show ?thesis using assms(2,4) by (simp add: kernel_fill_def uring_complete_def delete_request_def Let_def)
qed

section \<open>The two devices\<close>

lemma event_response_size:
  assumes "event_of m = Some ev"
  shows "\<exists>n. response_size (out_bytes m) = Some n \<and> n \<le> 64"
  using assms
  by (auto simp: event_of_def decode_def response_size_def EnterRequestView_TYPE_def CancelRequestView_TYPE_def
      AcceptResponseView_TYPE_def CancelledResponseView_TYPE_def CancelRejectResponseView_TYPE_def ExecutedResponseView_TYPE_def
      AcceptResponseView_WIRE_SIZE_def CancelledResponseView_WIRE_SIZE_def CancelRejectResponseView_WIRE_SIZE_def
      ExecutedResponseView_WIRE_SIZE_def Let_def split: if_splits)

text \<open>
  The two devices send the same bytes for every response the engine produces. For a message that
  decodes to an event, both choose the wire size of its type and hand the kernel that prefix of the message for the client whose
  descriptor is the account; the io_uring device does so without waiting for earlier sends.
\<close>

theorem devices_send_same_bytes:
  assumes "event_of m = Some ev" "length (out_bytes m) = OUCHMessageOut_SIZE" "sq u = []" "0 < depth u"
  shows "\<exists>n u'. response_size (out_bytes m) = Some n \<and> 0 < n \<and> n \<le> length (out_bytes m) \<and>
    trace (fst (epoll_send_msg K m d)) =
      log_call (trace d) (Write (sint (out_account m)) (take n (out_bytes m)))
        (answer K (map fst (trace d)) (Write (sint (out_account m)) (take n (out_bytes m)))) \<and>
    uring_send_msg a 1 m u = Some (u', 0) \<and>
    in_kernel u' = in_kernel u @ [(Prep_send (sint (out_account m)) (take n (out_bytes m)), a)] \<and> sq u' = []"
proof -
  obtain n where n: "response_size (out_bytes m) = Some n" using event_response_size [OF assms(1)] by blast
  then have "0 < n" "n \<le> length (out_bytes m)"
    by (auto simp: assms(2) response_size_def OUCHMessageOut_SIZE_def AcceptResponseView_WIRE_SIZE_def
        CancelledResponseView_WIRE_SIZE_def CancelRejectResponseView_WIRE_SIZE_def ExecutedResponseView_WIRE_SIZE_def split: if_splits)
  then show ?thesis
    using n assms(3,4)
    by (simp add: epoll_send_msg_def uring_send_msg_def syscall_def queue_write_def claim_sqe_def new_request_def
        io_uring_submit_def Let_def)
qed

theorem devices_send_same_bytes_witness:
  "\<exists>n u'. response_size (out_bytes demo_response) = Some n \<and> 0 < n \<and> n \<le> length (out_bytes demo_response) \<and>
    trace (fst (epoll_send_msg demo_kernel demo_response demo_epoll)) =
      log_call (trace demo_epoll) (Write (sint (out_account demo_response)) (take n (out_bytes demo_response)))
        (answer demo_kernel (map fst (trace demo_epoll)) (Write (sint (out_account demo_response)) (take n (out_bytes demo_response)))) \<and>
    uring_send_msg 12 1 demo_response demo_uring = Some (u', 0) \<and>
    in_kernel u' = in_kernel demo_uring @ [(Prep_send (sint (out_account demo_response)) (take n (out_bytes demo_response)), 12)] \<and> sq u' = []"
proof -
  have "\<exists>ev. event_of demo_response = Some ev"
    by (simp add: event_of_def decode_def demo_response_def EnterRequestView_TYPE_def CancelRequestView_TYPE_def
        AcceptResponseView_TYPE_def CancelledResponseView_TYPE_def CancelRejectResponseView_TYPE_def ExecutedResponseView_TYPE_def)
  then obtain ev where ev: "event_of demo_response = Some ev" ..
  show ?thesis
    by (rule devices_send_same_bytes [OF ev demo_response_size(1)]) (simp_all add: demo_uring_state)
qed

end
