(* ===== verification/Heap_Layout.thy ===== *)
theory Heap_Layout
  imports Prelude
begin

text \<open>
  The memory of the list allocators under \<open>1_mem_allocator\<close>: a region of blocks, each with a header of two
  words (its size and whether it is allocated), a payload, and, for the allocators with boundary tags,
  a footer with the size again.

  Pointers are byte addresses and \<open>mem\<close> gives the \<open>size_t\<close> stored at an address; the blocks are multiples of
  eight bytes, so that the words of the headers and footers never overlap. \<open>layout t m a bs\<close> says that the
  memory \<open>m\<close> holds the blocks \<open>bs\<close> from the address \<open>a\<close> on, with a footer of \<open>t\<close> bytes. Sums of \<open>size_t\<close> values
  wrap, and so does the sum of a pointer and a requested size that is compared with the end of the region; the other
  pointers stay inside the region.
\<close>

type_synonym block = "nat \<times> bool"

record c_allocator =
  start_ptr :: nat
  last_ptr :: nat
  region_size :: nat
  mem :: "nat \<Rightarrow> nat"

definition ALIGN :: nat where "ALIGN = 16"

definition MAP_FAILED :: nat where "MAP_FAILED = 2 ^ 64 - 1"

text \<open>A store of a word through a pointer; outside the region it is an invalid access.\<close>

definition poke :: "c_allocator \<Rightarrow> nat \<Rightarrow> nat \<Rightarrow> (nat \<Rightarrow> nat) \<Rightarrow> (nat \<Rightarrow> nat) option" where
  "poke s a v m = (if start_ptr s \<le> a \<and> a + 8 \<le> start_ptr s + region_size s then Some (m(a := v)) else None)"

definition add64 :: "nat \<Rightarrow> nat \<Rightarrow> nat" where
  "add64 a b = (a + b) mod 2 ^ 64"

definition align_up :: "nat \<Rightarrow> nat" where
  "align_up n = (if n mod ALIGN = 0 then n else add64 n (ALIGN - n mod ALIGN))"

section \<open>Operations the list allocators share\<close>

text \<open>\<open>mmap_result\<close> is the address of the new region, or \<open>MAP_FAILED\<close>.\<close>

definition alloc_init :: "nat \<Rightarrow> nat \<Rightarrow> c_allocator \<Rightarrow> c_allocator \<times> nat" where
  "alloc_init mmap_result n s =
     (if start_ptr s \<noteq> 0 then (s, 1)
      else let s = s\<lparr>start_ptr := mmap_result\<rparr> in
        if start_ptr s = MAP_FAILED then (s, 1)
        else (s\<lparr>last_ptr := start_ptr s, region_size := n\<rparr>, 0))"

definition alloc_deinit :: "c_allocator \<Rightarrow> c_allocator \<times> nat" where
  "alloc_deinit s =
     (if start_ptr s = 0 then (s, 1)
      else (s\<lparr>start_ptr := 0, last_ptr := 0, region_size := 0\<rparr>, 0))"

definition alloc_reset :: "c_allocator \<Rightarrow> c_allocator \<times> nat" where
  "alloc_reset s = (if start_ptr s = 0 then (s, 1) else (s\<lparr>last_ptr := start_ptr s\<rparr>, 0))"

text \<open>\<open>_parse_header\<close>: the size and the flag before a payload.\<close>

record Header =
  block_size :: nat
  allocated :: nat

definition parse_header :: "(nat \<Rightarrow> nat) \<Rightarrow> nat \<Rightarrow> Header" where
  "parse_header m ptr = \<lparr>block_size = m (ptr - 16), allocated = m (ptr - 8)\<rparr>"

text \<open>The search of \<open>alloc_malloc\<close>; the flag says whether a block was found. \<open>t\<close> is the size of the footer.\<close>

function search :: "nat \<Rightarrow> (nat \<Rightarrow> nat) \<Rightarrow> nat \<Rightarrow> nat \<Rightarrow> nat \<Rightarrow> nat \<times> bool" where
  "search t m n lim current =
     (if current < lim then
        let header = parse_header m (current + 16) in
        if allocated header = 0 \<and> n \<le> block_size header then (current, True)
        else search t m n lim (current + 16 + block_size header + t)
      else (current, False))"
  by auto
termination
  by (relation "measure (\<lambda>(t, m, n, lim, current). lim - current)") auto

section \<open>Layout\<close>

fun layout :: "nat \<Rightarrow> (nat \<Rightarrow> nat) \<Rightarrow> nat \<Rightarrow> block list \<Rightarrow> bool" where
  "layout t m a [] = True"
| "layout t m a ((n, al) # bs) \<longleftrightarrow>
     m a = n \<and> m (a + 8) = (if al then 1 else 0) \<and> (0 < t \<longrightarrow> m (a + 16 + n) = n) \<and> layout t m (a + 16 + n + t) bs"

fun extent :: "nat \<Rightarrow> block list \<Rightarrow> nat" where
  "extent t [] = 0"
| "extent t ((n, al) # bs) = 16 + n + t + extent t bs"

fun live :: "nat \<Rightarrow> nat \<Rightarrow> block list \<Rightarrow> (nat \<times> nat) list" where
  "live t a [] = []"
| "live t a ((n, al) # bs) = (if al then [(a + 16, n)] else []) @ live t (a + 16 + n + t) bs"

text \<open>The words of the headers and footers.\<close>

fun tags :: "nat \<Rightarrow> nat \<Rightarrow> block list \<Rightarrow> nat set" where
  "tags t a [] = {}"
| "tags t a ((n, al) # bs) = {a, a + 8} \<union> (if 0 < t then {a + 16 + n} else {}) \<union> tags t (a + 16 + n + t) bs"

lemma extent_append [simp]: "extent t (xs @ ys) = extent t xs + extent t ys"
  by (induction t xs rule: extent.induct) auto

lemma layout_append [simp]: "layout t m a (xs @ ys) \<longleftrightarrow> layout t m a xs \<and> layout t m (a + extent t xs) ys"
  by (induction t m a xs rule: layout.induct) (auto simp: add_ac)

lemma live_append [simp]: "live t a (xs @ ys) = live t a xs @ live t (a + extent t xs) ys"
  by (induction t a xs rule: live.induct) (auto simp: add_ac)

lemma tags_append [simp]: "tags t a (xs @ ys) = tags t a xs \<union> tags t (a + extent t xs) ys"
  by (induction t a xs rule: tags.induct) (auto simp: add_ac)

lemma layout_tags: "layout t m a bs \<Longrightarrow> (\<And>x. x \<in> tags t a bs \<Longrightarrow> m' x = m x) \<Longrightarrow> layout t m' a bs"
  by (induction t m a bs rule: layout.induct) auto

lemma tags_bounds: "x \<in> tags t a bs \<Longrightarrow> a \<le> x \<and> x < a + extent t bs"
  by (induction t a bs rule: tags.induct) (auto split: if_splits)

text \<open>Only the words between the two ends matter.\<close>

lemma layout_frame:
  assumes "layout t m a bs" "\<And>x. a \<le> x \<Longrightarrow> x < a + extent t bs \<Longrightarrow> m' x = m x"
  shows "layout t m' a bs"
  using assms
proof (induction t m a bs rule: layout.induct)
  case (2 t m a n al bs)
  have "m' a = m a" "m' (a + 8) = m (a + 8)" "0 < t \<Longrightarrow> m' (a + 16 + n) = m (a + 16 + n)"
    by (rule "2.prems"(2); simp)+
  then show ?case using "2.IH" "2.prems" by auto
qed simp

lemma live_bounds: "(p, n) \<in> set (live t a bs) \<Longrightarrow> a + 16 \<le> p \<and> p + n + t \<le> a + extent t bs"
  by (induction t a bs rule: live.induct) (auto split: if_splits)

lemma live_disjoint:
  assumes "(p, n) \<in> set (live t a bs)" "(q, k) \<in> set (live t a bs)" "(p, n) \<noteq> (q, k)"
  shows "p + n \<le> q \<or> q + k \<le> p"
  using assms
proof (induction t a bs rule: live.induct)
  case (2 t a n' al bs)
  then show ?case
    using live_bounds [of p n t "a + 16 + n' + t" bs] live_bounds [of q k t "a + 16 + n' + t" bs]
    by (auto split: if_splits)
qed simp

text \<open>The payload of an allocated block holds no header or footer.\<close>

lemma live_tags:
  assumes "(p, n) \<in> set (live t a bs)" "p \<le> x" "x < p + n"
  shows "x \<notin> tags t a bs"
  using assms
proof (induction t a bs rule: live.induct)
  case (2 t a k al bs)
  show ?case
  proof (cases "(p, n) \<in> set (live t (a + 16 + k + t) bs)")
    case True
    then have "x \<notin> tags t (a + 16 + k + t) bs" "a + 32 + k + t \<le> x" using 2 live_bounds [OF True] by auto
    then show ?thesis by auto
  next
    case False
    then have "p = a + 16" "n = k" using "2.prems"(1) by (auto split: if_splits)
    then show ?thesis using "2.prems" tags_bounds [of x t "a + 16 + k + t" bs] by auto
  qed
qed simp

lemma layout_store:
  assumes "layout t m a bs" "(p, n) \<in> set (live t a bs)" "p \<le> x" "x < p + n"
  shows "layout t (m(x := v)) a bs"
  by (rule layout_tags [OF assms(1)]) (use live_tags [OF assms(2-4)] in auto)

text \<open>\<open>m'\<close> agrees with \<open>m\<close> on the payloads of the blocks \<open>B\<close>.\<close>

definition keeps :: "(nat \<times> nat) set \<Rightarrow> (nat \<Rightarrow> nat) \<Rightarrow> (nat \<Rightarrow> nat) \<Rightarrow> bool" where
  "keeps B m m' \<longleftrightarrow> (\<forall>p n x. (p, n) \<in> B \<longrightarrow> p \<le> x \<longrightarrow> x < p + n \<longrightarrow> m' x = m x)"

lemma keepsD: "keeps B m m' \<Longrightarrow> (p, n) \<in> B \<Longrightarrow> p \<le> x \<Longrightarrow> x < p + n \<Longrightarrow> m' x = m x"
  by (simp add: keeps_def)

lemma keeps_refl [simp]: "keeps B m m"
  by (simp add: keeps_def)

lemma keeps_tags:
  assumes "\<forall>x. x \<notin> tags t a bs \<longrightarrow> m' x = m x" "B \<subseteq> set (live t a bs)"
  shows "keeps B m m'"
  unfolding keeps_def using assms live_tags by blast

definition store_word :: "nat \<Rightarrow> nat \<Rightarrow> c_allocator \<Rightarrow> c_allocator" where
  "store_word x v s = s\<lparr>mem := (mem s)(x := v)\<rparr>"

lemma live_split:
  assumes "(p, n) \<in> set (live t a bs)"
  obtains xs ys where "bs = xs @ (n, True) # ys" "p = a + extent t xs + 16"
  using assms
proof (induction t a bs arbitrary: thesis rule: live.induct)
  case (2 t a n' al bs)
  show ?case
  proof (cases "al \<and> p = a + 16 \<and> n = n'")
    case True
    then show ?thesis using "2.prems"(1) [of "[]" bs] by simp
  next
    case False
    then have "(p, n) \<in> set (live t (a + 16 + n' + t) bs)" using "2.prems"(2) by (auto split: if_splits)
    then obtain xs ys where "bs = xs @ (n, True) # ys" "p = a + 16 + n' + t + extent t xs + 16" using "2.IH" by blast
    then show ?thesis using "2.prems"(1) [of "(n', al) # xs" ys] by simp
  qed
qed simp

section \<open>The search\<close>

definition fits :: "nat \<Rightarrow> block \<Rightarrow> bool" where
  "fits n b \<longleftrightarrow> \<not> snd b \<and> n \<le> fst b"

declare search.simps [simp del]

lemma search_layout:
  assumes "layout t m a bs" "lim = a + extent t bs"
  shows "search t m n lim a =
    (case List.find (fits n) bs of
       None \<Rightarrow> (lim, False)
     | Some _ \<Rightarrow> (a + extent t (takeWhile (\<lambda>b. \<not> fits n b) bs), True))"
  using assms
proof (induction t m a bs rule: layout.induct)
  case (1 t m a)
  then show ?case by (simp add: search.simps)
next
  case (2 t m a k al bs)
  have "search t m n lim a = (if fits n (k, al) then (a, True) else search t m n lim (a + 16 + k + t))"
    using "2.prems" by (subst search.simps) (auto simp: parse_header_def fits_def Let_def add.commute [of a 8])
  then show ?case using "2.IH" "2.prems" by (auto simp: add_ac split: option.splits)
qed

lemma find_split:
  assumes "List.find P bs = Some b"
  obtains ys where "bs = takeWhile (\<lambda>b. \<not> P b) bs @ b # ys" "P b"
  using assms
proof (induction bs arbitrary: thesis)
  case (Cons x bs)
  show ?case
  proof (cases "P x")
    case True
    then show ?thesis using Cons.prems by auto
  next
    case False
    then obtain ys where "bs = takeWhile (\<lambda>b. \<not> P b) bs @ b # ys" "P b" using Cons.IH Cons.prems(2) by auto
    then show ?thesis using Cons.prems(1) [of ys] False by auto
  qed
qed simp

lemma add64_small: "a + b < 2 ^ 64 \<Longrightarrow> add64 a b = a + b"
  by (simp add: add64_def)

lemma align_up_mod: "align_up n mod 16 = 0"
proof (cases "n mod 16 = 0")
  case False
  have "align_up n mod 16 = (n + (16 - n mod 16)) mod 16"
    using False by (simp add: align_up_def ALIGN_def add64_def mod_mod_cancel)
  also have "n + (16 - n mod 16) = 16 * (n div 16) + 16" using mod_less_divisor [of 16 n] by (simp add: minus_mod_eq_mult_div [symmetric])
  also have "\<dots> mod 16 = 0" by simp
  finally show ?thesis .
qed (simp add: align_up_def ALIGN_def)

lemma align_up_small: "n + 16 \<le> 2 ^ 64 \<Longrightarrow> n \<le> align_up n \<and> align_up n < n + 16"
  by (auto simp: align_up_def ALIGN_def add64_def)

end
