(* ===== verification/Allocator_Interface.thy ===== *)
theory Allocator_Interface
  imports Prelude
begin

text \<open>
  The interface the allocators under \<open>1_mem_allocator\<close> share, \<open>alloc_malloc\<close>, \<open>alloc_free\<close> and \<open>alloc_reset\<close>, as a contract over
  the set of blocks handed out, and what a client that uses only what it holds may rely on: its blocks are
  disjoint, and every word it stored in a block is still there for as long as it holds the block.
\<close>

datatype heap_op = Malloc nat | Free nat | Reset | Store nat nat nat

locale heap_allocator =
  fixes rep :: "'s \<Rightarrow> (nat \<times> nat) set \<Rightarrow> bool"
    and region :: "'s \<Rightarrow> nat \<times> nat"
    and load :: "'s \<Rightarrow> nat \<Rightarrow> nat"
    and store :: "nat \<Rightarrow> nat \<Rightarrow> 's \<Rightarrow> 's"
    and malloc :: "nat \<Rightarrow> 's \<Rightarrow> 's \<times> nat"
    and release :: "nat \<Rightarrow> 's \<Rightarrow> 's \<times> nat"
    and reset :: "'s \<Rightarrow> 's \<times> nat"
  assumes within: "rep s B \<Longrightarrow> (p, n) \<in> B \<Longrightarrow> fst (region s) \<le> p \<and> p + n \<le> snd (region s)"
    and disjoint: "rep s B \<Longrightarrow> (p, n) \<in> B \<Longrightarrow> (q, k) \<in> B \<Longrightarrow> (p, n) \<noteq> (q, k) \<Longrightarrow> p + n \<le> q \<or> q + k \<le> p"
    and malloc_law: "rep s B \<Longrightarrow> 0 < n \<Longrightarrow> n < 2 ^ 62 \<Longrightarrow> malloc n s = (s', p) \<Longrightarrow>
      region s' = region s \<and> (if p = 0 then rep s' B else \<exists>k\<ge>n. (p, k) \<notin> B \<and> rep s' (insert (p, k) B))"
    and malloc_keeps: "rep s B \<Longrightarrow> 0 < n \<Longrightarrow> n < 2 ^ 62 \<Longrightarrow> (q, k) \<in> B \<Longrightarrow> q \<le> x \<Longrightarrow> x < q + k \<Longrightarrow>
      load (fst (malloc n s)) x = load s x"
    and release_law: "rep s B \<Longrightarrow> (p, n) \<in> B \<Longrightarrow> 0 < n \<Longrightarrow>
      \<exists>s'. release p s = (s', 0) \<and> rep s' (B - {(p, n)}) \<and> region s' = region s"
    and release_keeps: "rep s B \<Longrightarrow> (p, n) \<in> B \<Longrightarrow> 0 < n \<Longrightarrow> (q, k) \<in> B \<Longrightarrow> q \<noteq> p \<Longrightarrow> q \<le> x \<Longrightarrow> x < q + k \<Longrightarrow>
      load (fst (release p s)) x = load s x"
    and store_law: "rep s B \<Longrightarrow> (p, n) \<in> B \<Longrightarrow> p \<le> x \<Longrightarrow> x < p + n \<Longrightarrow>
      rep (store x v s) B \<and> region (store x v s) = region s \<and> load (store x v s) = (load s)(x := v)"
    and reset_law: "rep s B \<Longrightarrow> \<exists>s'. reset s = (s', 0) \<and> rep s' {} \<and> region s' = region s"
begin

text \<open>
  A client: the pointers it holds with the sizes it asked for, and the words it stored, by their addresses. It frees
  a pointer or stores the word with the number \<open>i\<close> of a block only when it holds the pointer and the word lies in the block.
\<close>

fun client :: "heap_op list \<Rightarrow> 's \<Rightarrow> (nat \<times> nat) list \<Rightarrow> (nat \<rightharpoonup> nat) \<Rightarrow> 's \<times> (nat \<times> nat) list \<times> (nat \<rightharpoonup> nat)" where
  "client [] s L G = (s, L, G)"
| "client (Malloc n # ops) s L G =
     (let (s', p) = malloc n s in client ops s' (if p = 0 then L else (p, n) # L) G)"
| "client (Free p # ops) s L G =
     (case map_of L p of
        None \<Rightarrow> client ops s L G
      | Some n \<Rightarrow> client ops (fst (release p s)) (filter (\<lambda>b. fst b \<noteq> p) L) (\<lambda>x. if p \<le> x \<and> x < p + n then None else G x))"
| "client (Reset # ops) s L G = client ops (fst (reset s)) [] (\<lambda>_. None)"
| "client (Store p i v # ops) s L G =
     (case map_of L p of
        None \<Rightarrow> client ops s L G
      | Some n \<Rightarrow> if 8 * i + 8 \<le> n then client ops (store (p + 8 * i) v s) L (G(p + 8 * i \<mapsto> v)) else client ops s L G)"

definition covers :: "(nat \<times> nat) set \<Rightarrow> (nat \<times> nat) list \<Rightarrow> bool" where
  "covers B L \<longleftrightarrow> distinct (map fst L) \<and> (\<forall>p n. (p, n) \<in> set L \<longrightarrow> 0 < n \<and> (\<exists>k\<ge>n. (p, k) \<in> B))"

definition recorded :: "'s \<Rightarrow> (nat \<times> nat) list \<Rightarrow> (nat \<rightharpoonup> nat) \<Rightarrow> bool" where
  "recorded s L G \<longleftrightarrow> (\<forall>x v. G x = Some v \<longrightarrow> load s x = v \<and> (\<exists>p n. (p, n) \<in> set L \<and> p \<le> x \<and> x < p + n))"

definition holds :: "'s \<Rightarrow> (nat \<times> nat) list \<Rightarrow> (nat \<rightharpoonup> nat) \<Rightarrow> bool" where
  "holds s L G \<longleftrightarrow> (\<exists>B. rep s B \<and> covers B L) \<and> recorded s L G"

lemma coversD:
  assumes "covers B L" "(p, n) \<in> set L"
  obtains k where "0 < n" "n \<le> k" "(p, k) \<in> B"
  using assms unfolding covers_def by blast

lemma recorded_mono:
  assumes "recorded s L G" "set L \<subseteq> set L'"
    and "\<And>x p n. (p, n) \<in> set L \<Longrightarrow> p \<le> x \<Longrightarrow> x < p + n \<Longrightarrow> load s' x = load s x"
  shows "recorded s' L' G"
  using assms unfolding recorded_def by (metis subsetD)

lemma covers_insert:
  assumes "covers B L" "0 < n" "n \<le> k" "(p, k) \<notin> B" "rep s (insert (p, k) B)"
  shows "covers (insert (p, k) B) ((p, n) # L)"
proof -
  have "p \<notin> fst ` set L"
  proof
    assume "p \<in> fst ` set L"
    then obtain j where "(p, j) \<in> set L" by auto
    then obtain k' where "0 < j" "j \<le> k'" "(p, k') \<in> B" using assms(1) by (rule_tac coversD)
    then show False using disjoint [OF assms(5), of p k p k'] assms(2-4) by auto
  qed
  moreover have "\<exists>k'\<ge>j. (q, k') \<in> insert (p, k) B" if "(q, j) \<in> set ((p, n) # L)" for q j
    using assms(1,3) that unfolding covers_def by auto
  moreover have "0 < j" if "(q, j) \<in> set ((p, n) # L)" for q j using assms(1,2) that unfolding covers_def by auto
  ultimately show ?thesis using assms(1) by (simp add: covers_def)
qed

lemma holds_malloc:
  assumes "holds s L G" "0 < n" "n < 2 ^ 62" "malloc n s = (s', p)"
  shows "holds s' (if p = 0 then L else (p, n) # L) G \<and> region s' = region s"
proof -
  obtain B where B: "rep s B" "covers B L" and G: "recorded s L G" using assms(1) by (auto simp: holds_def)
  note law = malloc_law [OF B(1) assms(2-4)]
  have "load s' x = load s x" if q: "(q, j) \<in> set L" "q \<le> x" "x < q + j" for q j x
  proof -
    obtain k where "j \<le> k" "(q, k) \<in> B" using coversD [OF B(2) q(1)] by blast
    then show ?thesis using malloc_keeps [OF B(1) assms(2,3), of q k x] q assms(4) by simp
  qed
  then have "recorded s' (if p = 0 then L else (p, n) # L) G" by (intro recorded_mono [OF G]) auto
  moreover have "\<exists>B. rep s' B \<and> covers B (if p = 0 then L else (p, n) # L)"
    using law B(2) covers_insert [OF B(2) assms(2)] by (auto split: if_splits)
  ultimately show ?thesis using law by (simp add: holds_def)
qed

lemma holds_release:
  assumes "holds s L G" "map_of L p = Some n"
  shows "holds (fst (release p s)) (filter (\<lambda>b. fst b \<noteq> p) L) (\<lambda>x. if p \<le> x \<and> x < p + n then None else G x) \<and>
    region (fst (release p s)) = region s \<and> snd (release p s) = 0"
proof -
  obtain B where B: "rep s B" "covers B L" and G: "recorded s L G" using assms(1) by (auto simp: holds_def)
  have L: "(p, n) \<in> set L" using assms(2) by (rule map_of_SomeD)
  obtain k where k: "0 < n" "n \<le> k" "(p, k) \<in> B" using coversD [OF B(2) L] by blast
  obtain s' where s': "release p s = (s', 0)" "rep s' (B - {(p, k)})" "region s' = region s"
    using release_law [OF B(1) k(3)] k(1,2) by auto
  have "covers (B - {(p, k)}) (filter (\<lambda>b. fst b \<noteq> p) L)"
    using B(2) by (fastforce simp: covers_def distinct_map_filter)
  moreover have "recorded s' (filter (\<lambda>b. fst b \<noteq> p) L) (\<lambda>x. if p \<le> x \<and> x < p + n then None else G x)"
    unfolding recorded_def
  proof (intro allI impI)
    fix x v assume "(if p \<le> x \<and> x < p + n then None else G x) = Some v"
    then have x: "\<not> (p \<le> x \<and> x < p + n)" "G x = Some v" by (auto split: if_splits)
    then obtain q j where q: "load s x = v" "(q, j) \<in> set L" "q \<le> x" "x < q + j" using G unfolding recorded_def by blast
    then have "q \<noteq> p" using x(1) L B(2) eq_key_imp_eq_value [of L p n j] unfolding covers_def by blast
    obtain i where i: "j \<le> i" "(q, i) \<in> B" using coversD [OF B(2) q(2)] by blast
    have "load s' x = load s x" using release_keeps [OF B(1) k(3) _ i(2) \<open>q \<noteq> p\<close> q(3)] k(1,2) q(4) i(1) s'(1) by simp
    then show "load s' x = v \<and> (\<exists>q j. (q, j) \<in> set (filter (\<lambda>b. fst b \<noteq> p) L) \<and> q \<le> x \<and> x < q + j)"
      using q \<open>q \<noteq> p\<close> by auto
  qed
  ultimately show ?thesis using s' by (auto simp: holds_def)
qed

lemma holds_store:
  assumes "holds s L G" "map_of L p = Some n" "8 * i + 8 \<le> n"
  shows "holds (store (p + 8 * i) v s) L (G(p + 8 * i \<mapsto> v)) \<and> region (store (p + 8 * i) v s) = region s"
proof -
  obtain B where B: "rep s B" "covers B L" and G: "recorded s L G" using assms(1) by (auto simp: holds_def)
  have L: "(p, n) \<in> set L" using assms(2) by (rule map_of_SomeD)
  obtain k where k: "n \<le> k" "(p, k) \<in> B" using coversD [OF B(2) L] by blast
  note law = store_law [OF B(1) k(2), of "p + 8 * i" v]
  have "\<exists>q j. (q, j) \<in> set L \<and> q \<le> p + 8 * i \<and> p + 8 * i < q + j"
    by (rule exI [of _ p], rule exI [of _ n]) (use L assms(3) in simp)
  then have "recorded (store (p + 8 * i) v s) L (G(p + 8 * i \<mapsto> v))"
    using G law k(1) assms(3) by (auto simp: recorded_def)
  then show ?thesis using law B(2) k(1) assms(3) by (auto simp: holds_def)
qed

lemma holds_reset:
  assumes "holds s L G"
  shows "holds (fst (reset s)) [] (\<lambda>_. None) \<and> region (fst (reset s)) = region s"
proof -
  obtain B where "rep s B" using assms by (auto simp: holds_def)
  from reset_law [OF this] show ?thesis by (auto simp: holds_def covers_def recorded_def)
qed

lemma client_holds:
  assumes "holds s L G" "list_all (\<lambda>op. \<forall>n. op = Malloc n \<longrightarrow> 0 < n \<and> n < 2 ^ 62) ops" "client ops s L G = (s', L', G')"
  shows "holds s' L' G' \<and> region s' = region s"
  using assms
proof (induction ops s L G rule: client.induct)
  case (2 n ops s L G)
  obtain s1 p where m: "malloc n s = (s1, p)" by fastforce
  have "0 < n" "n < 2 ^ 62" using "2.prems"(2) by simp_all
  from holds_malloc [OF "2.prems"(1) this m] show ?case using "2.IH" [OF m [symmetric] refl] "2.prems"(2,3) m by simp
next
  case (3 p ops s L G)
  then show ?case using holds_release [of s L G p] by (auto split: option.splits)
next
  case (4 ops s L G)
  then show ?case using holds_reset [of s L G] by auto
next
  case (5 p i v ops s L G)
  then show ?case using holds_store [of s L G p _ i v] by (auto simp: fun_upd_def split: option.splits if_splits)
qed auto

lemma client_start:
  assumes "rep s {}" "list_all (\<lambda>op. \<forall>n. op = Malloc n \<longrightarrow> 0 < n \<and> n < 2 ^ 62) ops" "client ops s [] (\<lambda>_. None) = (s', L, G)"
  shows "holds s' L G" "region s' = region s"
proof -
  have "holds s [] (\<lambda>_. None)" using assms(1) by (auto simp: holds_def covers_def recorded_def)
  from client_holds [OF this assms(2,3)] show "holds s' L G" "region s' = region s" by simp_all
qed

text \<open>The blocks a client holds lie in the region and never overlap, and keep what was stored in them.\<close>

lemma client_blocks:
  assumes "holds s L G"
  shows "distinct (map fst L)" "(p, n) \<in> set L \<Longrightarrow> fst (region s) \<le> p \<and> p + n \<le> snd (region s)"
    "(p, n) \<in> set L \<Longrightarrow> (q, k) \<in> set L \<Longrightarrow> p \<noteq> q \<Longrightarrow> p + n \<le> q \<or> q + k \<le> p"
    "G x = Some v \<Longrightarrow> load s x = v"
proof -
  from assms obtain B where B: "rep s B" "covers B L" by (auto simp: holds_def)
  show "distinct (map fst L)" using B(2) by (simp add: covers_def)
  show "fst (region s) \<le> p \<and> p + n \<le> snd (region s)" if "(p, n) \<in> set L"
    using coversD [OF B(2) that] within [OF B(1), of p] by (metis add_le_cancel_left le_trans)
  show "p + n \<le> q \<or> q + k \<le> p" if h: "(p, n) \<in> set L" "(q, k) \<in> set L" "p \<noteq> q"
  proof -
    obtain n' k' where "n \<le> n'" "(p, n') \<in> B" "k \<le> k'" "(q, k') \<in> B"
      using coversD [OF B(2) h(1)] coversD [OF B(2) h(2)] by metis
    then show ?thesis using disjoint [OF B(1), of p n' q k'] h(3) by auto
  qed
  show "load s x = v" if "G x = Some v" using assms that by (auto simp: holds_def recorded_def)
qed

end

end
