(* ===== verification/Coalesce_Allocator.thy ===== *)
theory Coalesce_Allocator
  imports Heap_Layout Allocator_Interface "HOL-Library.Sublist"
begin

text \<open>
  The allocator with boundary tags of \<open>1_mem_allocator/implicit_free_list_coalasce/allocator.c\<close>: first fit
  with splitting, and immediate coalescing with both neighbours when a block is freed.

  The operations return the new state with the result; a null pointer is 0. \<open>alloc_malloc\<close> returns \<open>None\<close> when it stores outside the
  region, which a wrapped pointer makes it do. \<open>co_rep s bs\<close> relates a state to
  the list of its blocks.
\<close>

definition co_malloc :: "nat \<Rightarrow> c_allocator \<Rightarrow> (c_allocator \<times> nat) option" where
  "co_malloc n s =
     (let n = align_up n; (current, found) = search 8 (mem s) n (last_ptr s) (start_ptr s)
      in if \<not> found \<and> add64 current (n + 24) > start_ptr s + region_size s then Some (s, 0)
         else if \<not> found then do {
           m \<leftarrow> poke s current n (mem s);
           m \<leftarrow> poke s (current + 8) 1 m;
           let foot = add64 (current + 16) n;
           m \<leftarrow> poke s foot n m;
           Some (s\<lparr>mem := m, last_ptr := add64 foot 8\<rparr>, current + 16) }
         else
           let old_size = mem s current in
           if old_size \<ge> add64 n (24 + ALIGN) then do {
             let new_size = old_size - n - 24;
             m \<leftarrow> poke s current n (mem s);
             m \<leftarrow> poke s (current + 8) 1 m;
             m \<leftarrow> poke s (current + 16 + n) n m;
             m \<leftarrow> poke s (current + 24 + n) new_size m;
             m \<leftarrow> poke s (current + 32 + n) 0 m;
             m \<leftarrow> poke s (current + 40 + n + new_size) new_size m;
             Some (s\<lparr>mem := m\<rparr>, current + 16) }
           else do {
             m \<leftarrow> poke s (current + 8) 1 (mem s);
             Some (s\<lparr>mem := m\<rparr>, current + 16) })"

text \<open>Coalescing with the next block, and with the previous one.\<close>

definition co_forward :: "(nat \<Rightarrow> nat) \<Rightarrow> nat \<Rightarrow> nat \<Rightarrow> nat \<Rightarrow> nat" where
  "co_forward m lim ptr n =
     (let next_hdr = ptr + n + 8 in
      if next_hdr < lim \<and> m (next_hdr + 8) = 0 then add64 n (add64 (m next_hdr) 24) else n)"

definition co_backward :: "(nat \<Rightarrow> nat) \<Rightarrow> nat \<Rightarrow> nat \<Rightarrow> nat \<Rightarrow> nat \<times> nat" where
  "co_backward m start ptr n =
     (let hdr = ptr - 16 in
      if hdr > start then
        let prev_size = m (ptr - 24); prev_hdr = ptr - 40 - prev_size in
        if m (prev_hdr + 8) = 0 then (prev_hdr, add64 n (add64 prev_size 24)) else (hdr, n)
      else (hdr, n))"

definition co_free :: "nat \<Rightarrow> c_allocator \<Rightarrow> c_allocator \<times> nat" where
  "co_free ptr s =
     (let m = mem s in
      if ptr < start_ptr s + 16 \<or> ptr \<ge> last_ptr s then (s, 1)
      else
        let header = parse_header m ptr in
        if allocated header = 0 then (s, 1)
        else
          let n = co_forward m (last_ptr s) ptr (block_size header);
              (hdr, n) = co_backward m (start_ptr s) ptr n
          in (s\<lparr>mem := m(hdr := n, hdr + 8 := 0, hdr + 16 + n := n)\<rparr>, 0))"

section \<open>The blocks\<close>

definition co_rep :: "c_allocator \<Rightarrow> block list \<Rightarrow> bool" where
  "co_rep s bs \<longleftrightarrow> 0 < start_ptr s \<and> layout 8 (mem s) (start_ptr s) bs \<and> last_ptr s = start_ptr s + extent 8 bs \<and>
     extent 8 bs \<le> region_size s \<and> start_ptr s + region_size s < 2 ^ 63 \<and> list_all (\<lambda>b. fst b mod 8 = 0) bs"

text \<open>A free block of \<open>k\<close> bytes that is given out for \<open>n\<close>.\<close>

definition carve :: "nat \<Rightarrow> nat \<Rightarrow> block list" where
  "carve n k = (if n + 40 \<le> k then [(n, True), (k - n - 24, False)] else [(k, True)])"

text \<open>Freeing a block of \<open>n\<close> bytes between \<open>xs\<close> and \<open>ys\<close>.\<close>

fun absorb_next :: "nat \<Rightarrow> block list \<Rightarrow> nat \<times> block list" where
  "absorb_next n ((k, False) # ys) = (n + (k + 24), ys)"
| "absorb_next n ys = (n, ys)"

definition absorb_prev :: "block list \<Rightarrow> nat \<Rightarrow> block list \<times> nat" where
  "absorb_prev xs n = (if xs \<noteq> [] \<and> \<not> snd (last xs) then (butlast xs, n + (fst (last xs) + 24)) else (xs, n))"

definition release :: "block list \<Rightarrow> nat \<Rightarrow> block list \<Rightarrow> block list" where
  "release xs n ys =
     (let (n, ys) = absorb_next n ys; (xs, n) = absorb_prev xs n in xs @ (n, False) # ys)"

lemma extent_carve: "extent 8 (carve n k) = 24 + k"
  by (auto simp: carve_def)

lemma layout_replace:
  assumes l: "layout t m a (xs @ bs @ ys)" and new: "layout t m' (a + extent t xs) bs'" "extent t bs' = extent t bs"
    and frame: "\<And>x. x < a + extent t xs \<or> a + extent t xs + extent t bs \<le> x \<Longrightarrow> m' x = m x"
  shows "layout t m' a (xs @ bs' @ ys)"
proof -
  have "layout t m' a xs" by (rule layout_frame [of t m]) (use l frame in auto)
  moreover have "layout t m' (a + extent t xs + extent t bs) ys" by (rule layout_frame [of t m]) (use l frame in \<open>auto simp: add_ac\<close>)
  ultimately show ?thesis using new by (simp add: add_ac)
qed

section \<open>Allocation\<close>

definition carve_mem :: "(nat \<Rightarrow> nat) \<Rightarrow> nat \<Rightarrow> nat \<Rightarrow> nat \<Rightarrow> nat \<Rightarrow> nat" where
  "carve_mem m c n k = (if n + 40 \<le> k then m(c := n, c + 8 := 1, c + 16 + n := n, c + 24 + n := k - n - 24,
     c + 32 + n := 0, c + 40 + n + (k - n - 24) := k - n - 24) else m(c + 8 := 1))"

lemma layout_carve:
  assumes l: "layout 8 m a (xs @ (k, False) # ys)" and n: "n \<le> k"
  shows "layout 8 (carve_mem m (a + extent 8 xs) n k) a (xs @ carve n k @ ys)"
proof -
  let ?c = "a + extent 8 xs" let ?m = "carve_mem m ?c n k"
  have l': "layout 8 m a (xs @ [(k, False)] @ ys)" using l by simp
  have mid: "layout 8 ?m ?c (carve n k)" using l n by (simp add: carve_def carve_mem_def)
  show ?thesis by (rule layout_replace [OF l' mid]) (use n in \<open>auto simp: extent_carve carve_mem_def\<close>)
qed

lemma carve_mem_only:
  "x \<notin> tags 8 a (xs @ carve n k @ ys) \<Longrightarrow> carve_mem m (a + extent 8 xs) n k x = m x"
  by (cases "n + 40 \<le> k") (auto simp: carve_mem_def carve_def add_ac)

lemma carve_mod:
  assumes "k mod 8 = 0" "n mod 8 = (0 :: nat)"
  shows "list_all (\<lambda>b. fst b mod 8 = 0) (carve n k)"
  using assms by (simp add: carve_def mod_eq_0_iff_dvd)

lemma align_up_mod8: "align_up n mod 8 = 0"
  using align_up_mod [of n] mod_mod_cancel [of 8 16 "align_up n"] by simp

lemma co_rep_carve:
  assumes "co_rep s (xs @ (k, False) # ys)" "align_up n \<le> k"
  shows "co_rep (s\<lparr>mem := carve_mem (mem s) (start_ptr s + extent 8 xs) (align_up n) k\<rparr>) (xs @ carve (align_up n) k @ ys)"
  using assms layout_carve [of "mem s" "start_ptr s" xs k ys "align_up n"] align_up_mod8 [of n] carve_mod [of k "align_up n"]
  by (simp add: co_rep_def extent_carve)

lemma co_malloc_reuse:
  assumes rep: "co_rep s (xs @ (k, False) # ys)" and n: "align_up n \<le> k"
    and found: "search 8 (mem s) (align_up n) (last_ptr s) (start_ptr s) = (start_ptr s + extent 8 xs, True)"
  shows "co_malloc n s = Some (s\<lparr>mem := carve_mem (mem s) (start_ptr s + extent 8 xs) (align_up n) k\<rparr>, start_ptr s + extent 8 xs + 16)"
proof -
  have inside: "extent 8 xs + 24 + k \<le> region_size s" using rep by (simp add: co_rep_def)
  have k: "mem s (start_ptr s + extent 8 xs) = k" using rep by (simp add: co_rep_def)
  have small: "align_up n + 40 < 2 ^ 64" using rep n by (simp add: co_rep_def)
  show ?thesis using found k n add64_small [OF small] inside by (simp add: co_malloc_def poke_def Let_def carve_mem_def ALIGN_def)
qed

definition append_block :: "nat \<Rightarrow> c_allocator \<Rightarrow> c_allocator" where
  "append_block n s = s\<lparr>mem := (mem s)(last_ptr s := n, last_ptr s + 8 := 1, last_ptr s + 16 + n := n), last_ptr := last_ptr s + 24 + n\<rparr>"

lemma co_rep_append:
  assumes rep: "co_rep s bs" and room: "extent 8 bs + n + 24 \<le> region_size s" and n: "n mod 8 = 0"
  shows "co_rep (append_block n s) (bs @ [(n, True)])"
proof -
  let ?c = "start_ptr s + extent 8 bs"
  have l: "layout 8 (mem s) (start_ptr s) bs" and last: "last_ptr s = ?c" using rep by (simp_all add: co_rep_def)
  have "layout 8 ((mem s)(?c := n, ?c + 8 := 1, ?c + 16 + n := n)) (start_ptr s) bs" by (rule layout_frame [OF l]) auto
  then show ?thesis using rep room n by (simp add: co_rep_def append_block_def last)
qed

lemma append_block_only:
  assumes "co_rep s bs" "x \<notin> tags 8 (start_ptr s) (bs @ [(n, True)])"
  shows "mem (append_block n s) x = mem s x"
  using assms by (auto simp: append_block_def co_rep_def)

lemma append_block_sel [simp]:
  "start_ptr (append_block n s) = start_ptr s" "region_size (append_block n s) = region_size s"
  by (simp_all add: append_block_def)

lemma co_malloc_new:
  assumes rep: "co_rep s bs" and found: "search 8 (mem s) (align_up n) (last_ptr s) (start_ptr s) = (last_ptr s, False)"
    and room: "extent 8 bs + align_up n + 24 \<le> region_size s"
  shows "co_malloc n s = Some (append_block (align_up n) s, start_ptr s + extent 8 bs + 16)"
proof -
  let ?c = "start_ptr s + extent 8 bs" let ?n = "align_up n"
  have last: "last_ptr s = ?c" using rep by (simp add: co_rep_def)
  have "?c + ?n + 24 < 2 ^ 64" using rep room by (simp add: co_rep_def)
  then have "add64 ?c (?n + 24) = ?c + (?n + 24)" "add64 (?c + 16) ?n = ?c + 16 + ?n" "add64 (?c + 16 + ?n) 8 = ?c + 16 + ?n + 8"
    by (simp_all add: add64_small)
  then show ?thesis using found room by (simp add: co_malloc_def poke_def Let_def last append_block_def)
qed

text \<open>What \<open>alloc_malloc\<close> does, on the list of blocks.\<close>

definition co_allocate :: "nat \<Rightarrow> nat \<Rightarrow> block list \<Rightarrow> (nat \<times> block list) option" where
  "co_allocate n room bs = (case List.find (fits n) bs of
       Some b \<Rightarrow> Some (extent 8 (takeWhile (\<lambda>b. \<not> fits n b) bs),
         takeWhile (\<lambda>b. \<not> fits n b) bs @ carve n (fst b) @ tl (dropWhile (\<lambda>b. \<not> fits n b) bs))
     | None \<Rightarrow> if extent 8 bs + n + 24 \<le> room then Some (extent 8 bs, bs @ [(n, True)]) else None)"

lemma co_malloc_refines:
  assumes rep: "co_rep s bs" and n: "align_up n + 24 \<le> 2 ^ 63"
  shows "case co_allocate (align_up n) (region_size s) bs of
      None \<Rightarrow> co_malloc n s = Some (s, 0)
    | Some (off, bs') \<Rightarrow> \<exists>s'. co_malloc n s = Some (s', start_ptr s + off + 16) \<and> co_rep s' bs' \<and>
        start_ptr s' = start_ptr s \<and> region_size s' = region_size s \<and> (\<forall>x. x \<notin> tags 8 (start_ptr s) bs' \<longrightarrow> mem s' x = mem s x)"
proof (cases "List.find (fits (align_up n)) bs")
  case None
  have f: "search 8 (mem s) (align_up n) (last_ptr s) (start_ptr s) = (last_ptr s, False)"
    using search_layout [of 8 "mem s" "start_ptr s" bs] rep None by (simp add: co_rep_def)
  have c: "add64 (last_ptr s) (align_up n + 24) = last_ptr s + (align_up n + 24)"
    by (rule add64_small) (use rep n in \<open>simp add: co_rep_def\<close>)
  show ?thesis
  proof (cases "extent 8 bs + align_up n + 24 \<le> region_size s")
    case True
    then show ?thesis
      using None co_malloc_new [OF rep f] co_rep_append [OF rep _ align_up_mod8] append_block_only [OF rep] by (simp add: co_allocate_def)
  next
    case False
    then show ?thesis using None f c rep by (simp add: co_allocate_def co_malloc_def co_rep_def)
  qed
next
  case (Some b)
  obtain ys where ys: "bs = takeWhile (\<lambda>b. \<not> fits (align_up n) b) bs @ b # ys" "fits (align_up n) b"
    by (rule find_split [OF Some])
  let ?xs = "takeWhile (\<lambda>b. \<not> fits (align_up n) b) bs"
  obtain k where b: "b = (k, False)" "align_up n \<le> k" using ys(2) by (cases b) (simp add: fits_def)
  have "dropWhile (\<lambda>b. \<not> fits (align_up n) b) bs = b # ys"
    using ys(1) by (metis append_same_eq takeWhile_dropWhile_id same_append_eq)
  moreover have "search 8 (mem s) (align_up n) (last_ptr s) (start_ptr s) = (start_ptr s + extent 8 ?xs, True)"
    using search_layout [of 8 "mem s" "start_ptr s" bs] rep Some by (simp add: co_rep_def)
  moreover have "co_rep s (?xs @ (k, False) # ys)" using rep ys(1) b(1) by simp
  ultimately show ?thesis
    using co_malloc_reuse [of s ?xs k ys n] co_rep_carve [of s ?xs k ys n] b Some
      carve_mem_only [of _ "start_ptr s" ?xs "align_up n" k ys "mem s"] by (simp add: co_allocate_def del: tags_append)
qed

section \<open>Release\<close>

lemma co_forward_block:
  assumes "layout 8 m (ptr + n + 8) ys" "lim = ptr + n + 8 + extent 8 ys" "lim < 2 ^ 63" "absorb_next n ys = (n1, ys1)"
  shows "co_forward m lim ptr n = n1 \<and> n1 + extent 8 ys1 = n + extent 8 ys \<and> suffix ys1 ys"
proof (cases "(n, ys)" rule: absorb_next.cases)
  case (1 n' k ys')
  then show ?thesis
    using assms by (auto simp: co_forward_def add64_small add_ac suffix_def)
qed (use assms in \<open>auto simp: co_forward_def add64_small add_ac\<close>)

lemma co_backward_block:
  assumes l: "layout 8 m a xs" and ptr: "ptr = a + extent 8 xs + 16" and bound: "n + ptr < 2 ^ 63"
    and prev: "absorb_prev xs n = (xs1, n1)"
  shows "co_backward m a ptr n = (a + extent 8 xs1, n1) \<and> extent 8 xs1 + n1 = extent 8 xs + n"
proof (cases xs rule: rev_cases)
  case Nil
  then show ?thesis using ptr prev by (simp add: co_backward_def absorb_prev_def)
next
  case (snoc zs b)
  obtain k al where b: "b = (k, al)" by (cases b)
  let ?h = "a + extent 8 zs"
  have m: "m ?h = k" "m (?h + 8) = (if al then 1 else 0)" "m (?h + 16 + k) = k" using l by (simp_all add: snoc b)
  have e: "ptr = ?h + 40 + k" using ptr by (simp add: snoc b)
  then have "ptr - 24 = ?h + 16 + k" and ph: "ptr - (40 + k) = ?h" and big: "a < ptr - 16" by simp_all
  then have ps: "m (ptr - 24) = k" using m(3) by simp
  have "co_backward m a ptr n = (if m (?h + 8) = 0 then (?h, add64 n (add64 k 24)) else (ptr - 16, n))"
    using big by (simp add: co_backward_def Let_def ps ph)
  moreover have "add64 n (add64 k 24) = n + (k + 24)" using bound e by (simp add: add64_small)
  ultimately show ?thesis using m(2) prev e by (cases al) (auto simp: absorb_prev_def snoc b)
qed

lemma layout_hide:
  "layout 8 m a bs \<Longrightarrow> extent 8 bs = 24 + n \<Longrightarrow> layout 8 (m(a := n, a + 8 := 0, a + 16 + n := n)) a [(n, False)]"
  by simp

lemma release_parts:
  assumes "absorb_next n ys = (n1, ys1)" "absorb_prev xs n1 = (xs1, n2)"
  obtains bs where "xs @ (n, True) # ys = xs1 @ bs @ ys1" "extent 8 bs = 24 + n2" "release xs n ys = xs1 @ (n2, False) # ys1"
    "list_all (\<lambda>b. fst b mod 8 = 0) (xs @ (n, True) # ys) \<longrightarrow> n2 mod 8 = 0"
proof -
  have rel: "release xs n ys = xs1 @ (n2, False) # ys1" using assms by (simp add: release_def)
  obtain cs where cs: "(n, True) # ys = cs @ ys1" "extent 8 cs = 24 + n1" "cs \<noteq> []"
    "list_all (\<lambda>b. fst b mod 8 = 0) ((n, True) # ys) \<Longrightarrow> n1 mod 8 = 0"
  proof (cases "(n, ys)" rule: absorb_next.cases)
    case (1 n' k ys')
    then show ?thesis using that [of "[(n, True), (k, False)]"] assms(1) by (auto simp: mod_add_eq mod_eq_0_iff_dvd)
  qed (use assms(1) that [of "[(n, True)]"] in auto)
  show ?thesis
  proof (cases "xs \<noteq> [] \<and> \<not> snd (last xs)")
    case True
    obtain k where k: "last xs = (k, False)" using True by (cases "last xs") auto
    have xs: "xs = xs1 @ [(k, False)]" and n2: "n2 = n1 + (k + 24)"
      using assms(2) True k by (auto simp: absorb_prev_def) (metis append_butlast_last_id)
    have "list_all (\<lambda>b. fst b mod 8 = 0) (xs @ (n, True) # ys) \<longrightarrow> n2 mod 8 = 0"
      using cs(4) by (auto simp: xs n2 mod_eq_0_iff_dvd)
    then show ?thesis using that [of "(k, False) # cs"] cs rel by (simp add: xs n2)
  next
    case False
    then have "xs1 = xs" "n2 = n1" using assms(2) by (auto simp: absorb_prev_def)
    then show ?thesis using that [of cs] cs rel by simp
  qed
qed

lemma co_rep_release:
  assumes rep: "co_rep s (xs @ (n, True) # ys)" and nx: "absorb_next n ys = (n1, ys1)" and pv: "absorb_prev xs n1 = (xs1, n2)"
  defines "h \<equiv> start_ptr s + extent 8 xs1"
  shows "co_rep (s\<lparr>mem := (mem s)(h := n2, h + 8 := 0, h + 16 + n2 := n2)\<rparr>) (release xs n ys)"
    "x \<notin> tags 8 (start_ptr s) (release xs n ys) \<Longrightarrow> ((mem s)(h := n2, h + 8 := 0, h + 16 + n2 := n2)) x = mem s x"
proof -
  let ?a = "start_ptr s" let ?m = "mem s" let ?m' = "?m(h := n2, h + 8 := 0, h + 16 + n2 := n2)"
  obtain bs where bs: "xs @ (n, True) # ys = xs1 @ bs @ ys1" "extent 8 bs = 24 + n2" "release xs n ys = xs1 @ (n2, False) # ys1"
    "list_all (\<lambda>b. fst b mod 8 = 0) (xs @ (n, True) # ys) \<longrightarrow> n2 mod 8 = 0" by (rule release_parts [OF nx pv])
  have lay: "layout 8 ?m ?a (xs1 @ bs @ ys1)" using rep bs(1) by (simp add: co_rep_def)
  have "layout 8 ?m' ?a (xs1 @ [(n2, False)] @ ys1)"
    by (rule layout_replace [OF lay]) (use bs(2) in \<open>auto simp: h_def\<close>)
  moreover have "co_rep s (xs1 @ bs @ ys1)" using rep bs(1) by simp
  ultimately show "co_rep (s\<lparr>mem := ?m'\<rparr>) (release xs n ys)"
    using bs(2,4) rep by (simp add: co_rep_def bs(3))
  show "?m' x = ?m x" if "x \<notin> tags 8 ?a (release xs n ys)" using that by (simp add: bs(3) h_def)
qed

lemma co_free_refines:
  assumes rep: "co_rep s (xs @ (n, True) # ys)"
  shows "\<exists>s'. co_free (start_ptr s + extent 8 xs + 16) s = (s', 0) \<and> co_rep s' (release xs n ys) \<and>
    start_ptr s' = start_ptr s \<and> region_size s' = region_size s \<and> (\<forall>x. x \<notin> tags 8 (start_ptr s) (release xs n ys) \<longrightarrow> mem s' x = mem s x)"
proof -
  let ?a = "start_ptr s" let ?c = "?a + extent 8 xs" let ?p = "?c + 16" let ?m = "mem s"
  have l: "layout 8 ?m ?a xs" "layout 8 ?m (?p + n + 8) ys" and last: "last_ptr s = ?p + n + 8 + extent 8 ys"
    and bound: "?p + n + 8 + extent 8 ys < 2 ^ 63"
    using rep by (auto simp: co_rep_def add_ac)
  have hd: "parse_header ?m ?p = \<lparr>block_size = n, allocated = 1\<rparr>"
    using rep by (auto simp: co_rep_def parse_header_def add.commute [of _ 8])
  obtain n1 ys1 where nx: "absorb_next n ys = (n1, ys1)" by fastforce
  obtain xs1 n2 where pv: "absorb_prev xs n1 = (xs1, n2)" by fastforce
  have f: "co_forward ?m (last_ptr s) ?p n = n1" "n1 + extent 8 ys1 = n + extent 8 ys"
    using co_forward_block [OF l(2) last _ nx] bound last by auto
  have b: "co_backward ?m ?a ?p n1 = (?a + extent 8 xs1, n2)" using co_backward_block [OF l(1) refl _ pv] f(2) bound by simp
  let ?h = "?a + extent 8 xs1" let ?m' = "?m(?h := n2, ?h + 8 := 0, ?h + 16 + n2 := n2)"
  have "co_free ?p s = (s\<lparr>mem := ?m'\<rparr>, 0)" using hd last f(1) b by (simp add: co_free_def Let_def)
  then show ?thesis using co_rep_release [OF rep nx pv] by (intro exI [of _ "s\<lparr>mem := ?m'\<rparr>"]) simp
qed

section \<open>The blocks handed out\<close>

text \<open>No two free blocks are neighbours: what the comment of \<open>alloc_free\<close> relies on.\<close>

definition separated :: "block list \<Rightarrow> bool" where
  "separated bs \<longleftrightarrow> successively (\<lambda>b c. snd b \<or> snd c) bs"

lemma separated_carve: "separated (xs @ (k, False) # ys) \<Longrightarrow> separated (xs @ carve n k @ ys)"
  by (auto simp: separated_def carve_def successively_append_iff successively_Cons)

lemma separated_release:
  assumes "separated (xs @ (n, True) # ys)"
  shows "separated (release xs n ys)"
proof -
  obtain n1 ys1 where nx: "absorb_next n ys = (n1, ys1)" by fastforce
  obtain xs1 n2 where pv: "absorb_prev xs n1 = (xs1, n2)" by fastforce
  have xs: "successively (\<lambda>b c. snd b \<or> snd c) xs" and ys: "successively (\<lambda>b c. snd b \<or> snd c) ys"
    using assms by (auto simp: separated_def successively_append_iff successively_Cons)
  have "successively (\<lambda>b c. snd b \<or> snd c) ys1 \<and> (ys1 = [] \<or> snd (hd ys1))"
    using nx ys by (cases "(n, ys)" rule: absorb_next.cases) (auto simp: successively_Cons)
  moreover have "successively (\<lambda>b c. snd b \<or> snd c) xs1 \<and> (xs1 = [] \<or> snd (last xs1))"
  proof (cases xs rule: rev_cases)
    case Nil
    then show ?thesis using pv by (auto simp: absorb_prev_def)
  next
    case (snoc zs b)
    then show ?thesis using pv xs by (auto simp: absorb_prev_def successively_append_iff split: if_splits)
  qed
  ultimately show ?thesis by (auto simp: release_def nx pv separated_def successively_append_iff successively_Cons)
qed

definition co_live :: "c_allocator \<Rightarrow> (nat \<times> nat) set \<Rightarrow> bool" where
  "co_live s B \<longleftrightarrow> (\<exists>bs. co_rep s bs \<and> separated bs \<and> B = set (live 8 (start_ptr s) bs))"

definition arena :: "c_allocator \<Rightarrow> nat \<times> nat" where
  "arena s = (start_ptr s, start_ptr s + region_size s)"

lemma live_absorb_next: "absorb_next n ys = (n1, ys1) \<Longrightarrow> live 8 (a + n + 24) ys = live 8 (a + n1 + 24) ys1"
  by (cases "(n, ys)" rule: absorb_next.cases) (auto simp: add_ac)

lemma live_absorb_prev:
  assumes "absorb_prev xs n = (xs1, n1)"
  shows "live 8 a xs = live 8 a xs1" "extent 8 xs1 + n1 = extent 8 xs + n"
proof -
  have "live 8 a xs = live 8 a xs1 \<and> extent 8 xs1 + n1 = extent 8 xs + n"
  proof (cases "xs \<noteq> [] \<and> \<not> snd (last xs)")
    case True
    obtain k where "last xs = (k, False)" using True by (cases "last xs") auto
    then have "xs = xs1 @ [(k, False)]" "n1 = n + (k + 24)"
      using assms True by (auto simp: absorb_prev_def) (metis append_butlast_last_id)
    then show ?thesis by simp
  qed (use assms in \<open>auto simp: absorb_prev_def\<close>)
  then show "live 8 a xs = live 8 a xs1" "extent 8 xs1 + n1 = extent 8 xs + n" by simp_all
qed

lemma live_release: "live 8 a (release xs n ys) = live 8 a xs @ live 8 (a + extent 8 xs + n + 24) ys"
proof -
  obtain n1 ys1 where nx: "absorb_next n ys = (n1, ys1)" by fastforce
  obtain xs1 n2 where pv: "absorb_prev xs n1 = (xs1, n2)" by fastforce
  have e: "a + extent 8 xs1 + 16 + n2 + 8 = a + extent 8 xs + n1 + 24" using live_absorb_prev(2) [OF pv] by simp
  show ?thesis
    using live_absorb_next [OF nx, of "a + extent 8 xs"] live_absorb_prev(1) [OF pv, of a]
    by (simp only: release_def nx pv live_append live.simps Let_def prod.case if_False append_Nil e)
qed

lemma live_carve: "live 8 a (xs @ carve n k @ ys) =
   live 8 a xs @ [(a + extent 8 xs + 16, if n + 40 \<le> k then n else k)] @ live 8 (a + extent 8 xs + k + 24) ys"
  by (auto simp: carve_def add_ac)

lemma live_fresh:
  "(a + extent t xs + 16, n) \<notin> set (live t a xs)" "b \<ge> a + extent t xs + 16 \<Longrightarrow> (a + extent t xs + 16, n) \<notin> set (live t b ys)"
  using live_bounds [of "a + extent t xs + 16" n t a xs] live_bounds [of "a + extent t xs + 16" n t b ys] by auto

lemma live_release_set:
  "set (live 8 a (xs @ (n, True) # ys)) - {(a + extent 8 xs + 16, n)} = set (live 8 a (release xs n ys))"
  using live_fresh(1) [of a 8 xs n] live_fresh(2) [of a 8 xs "a + extent 8 xs + n + 24" n ys] by (auto simp: live_release add_ac)

lemma co_malloc_law:
  assumes live: "co_live s B" and n: "0 < n" "n < 2 ^ 62" and st: "co_malloc n s = Some (s', p)"
  shows "arena s' = arena s \<and> (if p = 0 then co_live s' B else \<exists>k\<ge>n. (p, k) \<notin> B \<and> co_live s' (insert (p, k) B)) \<and>
    keeps B (mem s) (mem s')"
proof -
  obtain bs where rep: "co_rep s bs" and sep: "separated bs" and B: "B = set (live 8 (start_ptr s) bs)"
    using live by (auto simp: co_live_def)
  let ?a = "start_ptr s" let ?n = "align_up n"
  have nn: "n \<le> ?n" using align_up_small [of n] n by simp
  have "?n + 24 \<le> 2 ^ 63" using align_up_small [of n] n by simp
  note ref = co_malloc_refines [OF rep this]
  show ?thesis
  proof (cases "co_allocate ?n (region_size s) bs")
    case None
    then show ?thesis using ref st live by simp
  next
    case (Some r)
    obtain off bs' where r: "r = (off, bs')" by fastforce
    have s': "p = ?a + off + 16" "co_rep s' bs'" "start_ptr s' = ?a" "region_size s' = region_size s"
      and only: "\<forall>x. x \<notin> tags 8 ?a bs' \<longrightarrow> mem s' x = mem s x"
      using ref st Some r by auto
    have bs': "separated bs' \<and> (\<exists>k\<ge>n. (p, k) \<notin> B \<and> set (live 8 ?a bs') = insert (p, k) B)"
    proof (cases "List.find (fits ?n) bs")
      case None
      then have "off = extent 8 bs" "bs' = bs @ [(?n, True)]" using Some r by (auto simp: co_allocate_def split: if_splits)
      moreover have "separated (bs @ [(?n, True)])" using sep by (simp add: separated_def successively_append_iff)
      ultimately show ?thesis using nn s'(1) live_fresh(1) [of ?a 8 bs ?n] by (intro conjI exI [of _ ?n]) (auto simp: B)
    next
      case (Some b)
      let ?xs = "takeWhile (\<lambda>b. \<not> fits ?n b) bs"
      obtain ys where ys: "bs = ?xs @ b # ys" "fits ?n b" by (rule find_split [OF Some])
      obtain k where b: "b = (k, False)" "?n \<le> k" using ys(2) by (cases b) (simp add: fits_def)
      have "dropWhile (\<lambda>b. \<not> fits ?n b) bs = b # ys" using ys(1) by (metis same_append_eq takeWhile_dropWhile_id)
      then have o: "off = extent 8 ?xs" "bs' = ?xs @ carve ?n k @ ys"
        using \<open>co_allocate ?n (region_size s) bs = Some r\<close> r Some b by (auto simp: co_allocate_def)
      have "live 8 ?a bs = live 8 ?a ?xs @ live 8 (?a + extent 8 ?xs + k + 24) ys"
        using arg_cong [OF ys(1), of "live 8 ?a"] b by (simp add: add_ac)
      moreover have "separated bs'" using separated_carve [of ?xs k ys ?n] sep ys(1) b(1) by (simp add: o)
      ultimately show ?thesis
        using nn b(2) live_fresh [of ?a 8 ?xs] live_carve [of ?a ?xs ?n k ys] s'(1)
        by (intro conjI exI [of _ "if ?n + 40 \<le> k then ?n else k"]) (auto simp: B o)
    qed
    then have "keeps B (mem s) (mem s')" by (intro keeps_tags [OF only]) auto
    then show ?thesis using bs' s' by (auto simp: arena_def co_live_def)
  qed
qed

lemma co_free_law:
  assumes "co_live s B" "(p, n) \<in> B"
  shows "\<exists>s'. co_free p s = (s', 0) \<and> co_live s' (B - {(p, n)}) \<and> arena s' = arena s \<and> keeps (B - {(p, n)}) (mem s) (mem s')"
proof -
  obtain bs where rep: "co_rep s bs" and sep: "separated bs" and B: "B = set (live 8 (start_ptr s) bs)"
    using assms(1) by (auto simp: co_live_def)
  obtain xs ys where bs: "bs = xs @ (n, True) # ys" "p = start_ptr s + extent 8 xs + 16"
    using live_split [of p n 8 "start_ptr s" bs] assms(2) B by auto
  obtain s' where s': "co_free p s = (s', 0)" "co_rep s' (release xs n ys)" "start_ptr s' = start_ptr s" "region_size s' = region_size s"
    "\<forall>x. x \<notin> tags 8 (start_ptr s) (release xs n ys) \<longrightarrow> mem s' x = mem s x"
    using co_free_refines [of s xs n ys] rep bs by auto
  have B': "B - {(p, n)} = set (live 8 (start_ptr s) (release xs n ys))" unfolding B bs by (rule live_release_set)
  have "separated (release xs n ys)" using separated_release sep bs(1) by simp
  then have "co_live s' (B - {(p, n)})" unfolding co_live_def B' using s'(2,3) by auto
  moreover have "keeps (B - {(p, n)}) (mem s) (mem s')" by (rule keeps_tags [OF s'(5)]) (simp add: B')
  ultimately show ?thesis using s' by (auto simp: arena_def)
qed

lemma co_reset_law:
  assumes "co_live s B"
  shows "\<exists>s'. alloc_reset s = (s', 0) \<and> co_live s' {} \<and> arena s' = arena s"
proof -
  have s: "0 < start_ptr s" "start_ptr s + region_size s < 2 ^ 63" using assms by (auto simp: co_live_def co_rep_def)
  then have "co_rep (s\<lparr>last_ptr := start_ptr s\<rparr>) []" by (simp add: co_rep_def)
  then show ?thesis
    using s by (auto intro!: exI [of _ "[]"] simp: alloc_reset_def co_live_def arena_def separated_def)
qed

lemma co_store_law:
  assumes "co_live s B" "(p, n) \<in> B" "p \<le> x" "x < p + n"
  shows "co_live (store_word x v s) B"
  using assms layout_store [of 8 "mem s" "start_ptr s" _ p n x v] unfolding co_live_def co_rep_def store_word_def by auto

lemma co_malloc_defined:
  assumes "co_live s B" "n < 2 ^ 62"
  obtains s' p where "co_malloc n s = Some (s', p)"
proof -
  obtain bs where rep: "co_rep s bs" using assms(1) by (auto simp: co_live_def)
  have "align_up n + 24 \<le> 2 ^ 63" using align_up_small [of n] assms(2) by simp
  from co_malloc_refines [OF rep this] that show thesis by (auto split: option.splits)
qed

interpretation co: heap_allocator co_live arena mem store_word "\<lambda>n s. the (co_malloc n s)" co_free alloc_reset
proof (unfold_locales, goal_cases)
  case (1 s B p n)
  then show ?case using live_bounds [of p n 8] by (fastforce simp: co_live_def co_rep_def arena_def)
next
  case (2 s B p n q k)
  then show ?case using live_disjoint [of p n 8 "start_ptr s" _ q k] unfolding co_live_def by metis
next
  case (3 s B n s' p)
  then show ?case using co_malloc_law [of s B n s' p] co_malloc_defined [OF 3(1,3)] by fastforce
next
  case (4 s B n q k x)
  obtain s' p where "co_malloc n s = Some (s', p)" using co_malloc_defined [OF 4(1,3)] .
  then show ?case using co_malloc_law [OF 4(1-3)] keepsD [OF _ 4(4-6)] by fastforce
next
  case (5 s B p n)
  then show ?case using co_free_law by blast
next
  case (6 s B p n q k x)
  then have "(q, k) \<in> B - {(p, n)}" by auto
  then show ?case using co_free_law [OF 6(1,2)] keepsD 6 by fastforce
next
  case (7 s B p n x v)
  then show ?case using co_store_law by (auto simp: store_word_def arena_def)
next
  case (8 s B)
  then show ?case by (rule co_reset_law)
qed

end
