(* ===== verification/Simple_Allocators.thy ===== *)
theory Simple_Allocators
  imports Coalesce_Allocator
begin

text \<open>
  The bump allocator of \<open>1_mem_allocator/bump_allocator/allocator.c\<close> and the implicit free list of
  \<open>1_mem_allocator/implicit_free_list/allocator.c\<close>, which neither splits nor coalesces.
\<close>

section \<open>The bump allocator\<close>

record bump_allocator =
  bbuffer :: nat
  bptr :: nat
  buff_size :: nat
  bmem :: "nat \<Rightarrow> nat"

definition bump_init :: "nat \<Rightarrow> nat \<Rightarrow> bump_allocator \<Rightarrow> bump_allocator \<times> nat" where
  "bump_init mmap_result n s =
     (if bptr s \<noteq> 0 then (s, 1)
      else let s = s\<lparr>bbuffer := mmap_result\<rparr> in
        if bbuffer s = MAP_FAILED then (s, 1) else (s\<lparr>bptr := bbuffer s, buff_size := n\<rparr>, 0))"

definition bump_deinit :: "bump_allocator \<Rightarrow> bump_allocator \<times> nat" where
  "bump_deinit s = (if bptr s = 0 then (s, 1) else (s\<lparr>bptr := 0, buff_size := 0\<rparr>, 0))"

definition bump_malloc :: "nat \<Rightarrow> bump_allocator \<Rightarrow> bump_allocator \<times> nat" where
  "bump_malloc n s =
     (if bptr s = 0 then (s, 0)
      else let aligned = align_up n in
        if aligned > bbuffer s + buff_size s - bptr s then (s, 0)
        else (s\<lparr>bptr := bptr s + aligned\<rparr>, bptr s))"

definition bump_free :: "nat \<Rightarrow> bump_allocator \<Rightarrow> bump_allocator \<times> nat" where
  "bump_free ptr s = (s, 0)"

definition bump_reset :: "bump_allocator \<Rightarrow> bump_allocator \<times> nat" where
  "bump_reset s = (if bptr s = 0 then (s, 1) else (s\<lparr>bptr := bbuffer s\<rparr>, 0))"

definition bump_live :: "bump_allocator \<Rightarrow> (nat \<times> nat) set \<Rightarrow> bool" where
  "bump_live s B \<longleftrightarrow> 0 < bbuffer s \<and> bbuffer s \<le> bptr s \<and> bptr s \<le> bbuffer s + buff_size s \<and> bbuffer s + buff_size s < 2 ^ 63 \<and>
     (\<forall>p n. (p, n) \<in> B \<longrightarrow> bbuffer s \<le> p \<and> p + n \<le> bptr s) \<and>
     (\<forall>p n q k. (p, n) \<in> B \<longrightarrow> (q, k) \<in> B \<longrightarrow> (p, n) \<noteq> (q, k) \<longrightarrow> p + n \<le> q \<or> q + k \<le> p)"

definition bump_region :: "bump_allocator \<Rightarrow> nat \<times> nat" where
  "bump_region s = (bbuffer s, bbuffer s + buff_size s)"

lemma bump_malloc_law:
  assumes live: "bump_live s B" and n: "0 < n" "n < 2 ^ 62" and st: "bump_malloc n s = (s', p)"
  shows "bump_region s' = bump_region s \<and> (if p = 0 then bump_live s' B else \<exists>k\<ge>n. (p, k) \<notin> B \<and> bump_live s' (insert (p, k) B))"
proof -
  have nn: "n \<le> align_up n" using align_up_small [of n] n by simp
  have init: "0 < bptr s" using live by (auto simp: bump_live_def)
  show ?thesis
  proof (cases "align_up n > bbuffer s + buff_size s - bptr s")
    case True
    then show ?thesis using st live init by (simp add: bump_malloc_def)
  next
    case False
    then have s': "s' = s\<lparr>bptr := bptr s + align_up n\<rparr>" "p = bptr s" using st init by (auto simp: bump_malloc_def Let_def)
    have below: "q + k \<le> p" if "(q, k) \<in> B" for q k using live that s'(2) by (auto simp: bump_live_def)
    then have "(p, align_up n) \<notin> B" using nn n(1) by fastforce
    moreover have "bump_live s' (insert (p, align_up n) B)"
      unfolding bump_live_def s'(1)
    proof (intro conjI allI impI)
      fix q k assume "(q, k) \<in> insert (p, align_up n) B"
      then show "bbuffer (s\<lparr>bptr := bptr s + align_up n\<rparr>) \<le> q" "q + k \<le> bptr (s\<lparr>bptr := bptr s + align_up n\<rparr>)"
        using live s'(2) by (auto simp: bump_live_def trans_le_add1)
    next
      fix q k q' k'
      assume "(q, k) \<in> insert (p, align_up n) B" "(q', k') \<in> insert (p, align_up n) B" "(q, k) \<noteq> (q', k')"
      then show "q + k \<le> q' \<or> q' + k' \<le> q" using live below unfolding bump_live_def by blast
    qed (use live False in \<open>auto simp: bump_live_def\<close>)
    ultimately show ?thesis using nn s' init by (auto simp: bump_region_def)
  qed
qed

definition bump_store :: "nat \<Rightarrow> nat \<Rightarrow> bump_allocator \<Rightarrow> bump_allocator" where
  "bump_store x v s = s\<lparr>bmem := (bmem s)(x := v)\<rparr>"

interpretation bump: heap_allocator bump_live bump_region bmem bump_store bump_malloc bump_free bump_reset
proof (unfold_locales, goal_cases)
  case (1 s B p n)
  then show ?case by (fastforce simp: bump_live_def bump_region_def)
next
  case (2 s B p n q k)
  then show ?case unfolding bump_live_def by blast
next
  case (3 s B n s' p)
  then show ?case by (rule bump_malloc_law)
next
  case (4 s B n q k x)
  then show ?case by (simp add: bump_malloc_def Let_def)
next
  case (5 s B p n)
  then show ?case unfolding bump_free_def bump_live_def by blast
next
  case (6 s B p n q k x)
  then show ?case by (simp add: bump_free_def)
next
  case (7 s B p n x v)
  then show ?case by (simp add: bump_store_def bump_live_def bump_region_def)
next
  case (8 s B)
  then show ?case by (auto simp: bump_reset_def bump_live_def bump_region_def)
qed

section \<open>The implicit free list\<close>

text \<open>Initialisation is that of the coalescing allocator.\<close>

definition il_init :: "nat \<Rightarrow> nat \<Rightarrow> c_allocator \<Rightarrow> c_allocator \<times> nat" where
  "il_init = alloc_init"

definition il_deinit :: "c_allocator \<Rightarrow> c_allocator \<times> nat" where
  "il_deinit = alloc_deinit"

definition il_malloc :: "nat \<Rightarrow> c_allocator \<Rightarrow> c_allocator \<times> nat" where
  "il_malloc n s =
     (let n = align_up n; m = mem s;
          (current, found) = search 0 m n (last_ptr s) (start_ptr s)
      in if \<not> found \<and> add64 current (n + 16) > start_ptr s + region_size s then (s, 0)
         else if \<not> found then
           (s\<lparr>mem := m(current := n, current + 8 := 1), last_ptr := add64 (current + 16) n\<rparr>, current + 16)
         else (s\<lparr>mem := m(current + 8 := 1)\<rparr>, current + 16))"

definition il_free :: "nat \<Rightarrow> c_allocator \<Rightarrow> c_allocator \<times> nat" where
  "il_free ptr s =
     (if ptr < start_ptr s + 16 \<or> ptr \<ge> last_ptr s then (s, 1)
      else if allocated (parse_header (mem s) ptr) = 0 then (s, 1)
      else (s\<lparr>mem := (mem s)(ptr - 8 := 0)\<rparr>, 0))"

definition il_rep :: "c_allocator \<Rightarrow> block list \<Rightarrow> bool" where
  "il_rep s bs \<longleftrightarrow> 0 < start_ptr s \<and> layout 0 (mem s) (start_ptr s) bs \<and> last_ptr s = start_ptr s + extent 0 bs \<and>
     extent 0 bs \<le> region_size s \<and> start_ptr s + region_size s < 2 ^ 63 \<and> list_all (\<lambda>b. fst b mod 16 = 0) bs"

definition il_live :: "c_allocator \<Rightarrow> (nat \<times> nat) set \<Rightarrow> bool" where
  "il_live s B \<longleftrightarrow> (\<exists>bs. il_rep s bs \<and> B = set (live 0 (start_ptr s) bs))"

lemma il_flag:
  assumes rep: "il_rep s (xs @ (k, al) # ys)"
  shows "il_rep (s\<lparr>mem := (mem s)(start_ptr s + extent 0 xs + 8 := (if al' then 1 else 0))\<rparr>) (xs @ (k, al') # ys)"
proof -
  let ?c = "start_ptr s + extent 0 xs" let ?m = "(mem s)(?c + 8 := (if al' then 1 else 0))"
  have l: "layout 0 (mem s) (start_ptr s) (xs @ [(k, al)] @ ys)" using rep by (simp add: il_rep_def)
  have mid: "layout 0 ?m ?c [(k, al')]" using l by simp
  have "layout 0 ?m (start_ptr s) (xs @ [(k, al')] @ ys)" by (rule layout_replace [OF l mid]) auto
  then show ?thesis using rep by (simp add: il_rep_def)
qed

lemma il_malloc_law:
  assumes il: "il_live s B" and n: "0 < n" "n < 2 ^ 62" and st: "il_malloc n s = (s', p)"
  shows "arena s' = arena s \<and> (if p = 0 then il_live s' B else \<exists>k\<ge>n. (p, k) \<notin> B \<and> il_live s' (insert (p, k) B)) \<and>
    keeps B (mem s) (mem s')"
proof -
  obtain bs where rep: "il_rep s bs" and B: "B = set (live 0 (start_ptr s) bs)" using il by (auto simp: il_live_def)
  let ?a = "start_ptr s" let ?n = "align_up n"
  have nn: "n \<le> ?n" using align_up_small [of n] n by simp
  have l: "layout 0 (mem s) ?a bs" and last: "last_ptr s = ?a + extent 0 bs" using rep by (simp_all add: il_rep_def)
  note srch = search_layout [OF l last, of ?n]
  show ?thesis
  proof (cases "List.find (fits ?n) bs")
    case None
    then have f: "search 0 (mem s) ?n (last_ptr s) ?a = (last_ptr s, False)" using srch by simp
    have "?n + 24 \<le> 2 ^ 63" using align_up_small [of n] n by simp
    then have "?a + extent 0 bs + ?n + 16 < 2 ^ 64" using rep by (simp add: il_rep_def)
    then have c: "add64 (?a + extent 0 bs) (?n + 16) = ?a + extent 0 bs + (?n + 16)"
      "add64 (?a + extent 0 bs + 16) ?n = ?a + extent 0 bs + 16 + ?n"
      by (simp_all add: add64_small)
    show ?thesis
    proof (cases "extent 0 bs + ?n + 16 \<le> region_size s")
      case True
      let ?c = "?a + extent 0 bs" let ?m = "(mem s)(?c := ?n, ?c + 8 := 1)"
      have s': "s' = s\<lparr>mem := ?m, last_ptr := ?c + 16 + ?n\<rparr>" "p = ?c + 16" using st f True c by (auto simp: il_malloc_def Let_def last)
      have "layout 0 ?m ?a bs" by (rule layout_frame [OF l]) auto
      then have "il_rep s' (bs @ [(?n, True)])" using rep True align_up_mod [of n] by (simp add: il_rep_def s'(1))
      moreover have "set (live 0 ?a (bs @ [(?n, True)])) = insert (p, ?n) B" by (auto simp: B s'(2))
      ultimately have "il_live s' (insert (p, ?n) B)" unfolding il_live_def by (intro exI [of _ "bs @ [(?n, True)]"]) (simp add: s'(1))
      moreover have "keeps B (mem s) (mem s')"
        by (rule keeps_tags [of 0 ?a "bs @ [(?n, True)]"]) (auto simp: s'(1) B)
      ultimately show ?thesis using nn live_fresh(1) [of ?a 0 bs ?n] s' by (auto simp: arena_def B)
    next
      case False
      then show ?thesis using st f il c by (simp add: il_malloc_def Let_def last)
    qed
  next
    case (Some b)
    let ?xs = "takeWhile (\<lambda>b. \<not> fits ?n b) bs"
    obtain ys where ys: "bs = ?xs @ b # ys" "fits ?n b" by (rule find_split [OF Some])
    obtain k where b: "b = (k, False)" "?n \<le> k" using ys(2) by (cases b) (simp add: fits_def)
    let ?c = "?a + extent 0 ?xs"
    have s': "s' = s\<lparr>mem := (mem s)(?c + 8 := 1)\<rparr>" "p = ?c + 16"
      using st srch Some by (auto simp: il_malloc_def Let_def)
    have "il_rep s (?xs @ (k, False) # ys)" using rep ys(1) b(1) by simp
    from il_flag [OF this, of True] have "il_rep s' (?xs @ (k, True) # ys)" by (simp add: s'(1))
    moreover have "live 0 ?a bs = live 0 ?a ?xs @ live 0 (?c + 16 + k) ys"
      using arg_cong [OF ys(1), of "live 0 ?a"] b by simp
    then have "set (live 0 ?a (?xs @ (k, True) # ys)) = insert (p, k) B" "(p, k) \<notin> B"
      using live_fresh(1) [of ?a 0 ?xs k] live_fresh(2) [of ?a 0 ?xs "?c + 16 + k" k ys] by (auto simp: B s'(2))
    moreover have "keeps B (mem s) (mem s')"
      by (rule keeps_tags [of 0 ?a "?xs @ (k, True) # ys"]) (use calculation(2) in \<open>auto simp: s'(1)\<close>)
    ultimately have "(p, k) \<notin> B" "il_live s' (insert (p, k) B)" "keeps B (mem s) (mem s')"
      unfolding il_live_def by (auto intro!: exI [of _ "?xs @ (k, True) # ys"] simp: s'(1))
    then have "\<exists>k\<ge>n. (p, k) \<notin> B \<and> il_live s' (insert (p, k) B)" using nn b(2) by (intro exI [of _ k]) simp
    moreover have "arena s' = arena s" "p \<noteq> 0" by (simp_all add: arena_def s')
    ultimately show ?thesis using \<open>keeps B (mem s) (mem s')\<close> by simp
  qed
qed

lemma il_free_law:
  assumes "il_live s B" "(p, n) \<in> B" "0 < n"
  shows "\<exists>s'. il_free p s = (s', 0) \<and> il_live s' (B - {(p, n)}) \<and> arena s' = arena s \<and> keeps (B - {(p, n)}) (mem s) (mem s')"
proof -
  obtain bs where rep: "il_rep s bs" and B: "B = set (live 0 (start_ptr s) bs)" using assms(1) by (auto simp: il_live_def)
  obtain xs ys where bs: "bs = xs @ (n, True) # ys" "p = start_ptr s + extent 0 xs + 16"
    using live_split [of p n 0 "start_ptr s" bs] assms(2) B by auto
  let ?s = "s\<lparr>mem := (mem s)(start_ptr s + extent 0 xs + 8 := 0)\<rparr>"
  have "il_rep ?s (xs @ (n, False) # ys)" using il_flag [of s xs n True ys False] rep bs(1) by simp
  moreover have B': "B - {(p, n)} = set (live 0 (start_ptr s) (xs @ (n, False) # ys))"
    using live_fresh(1) [of "start_ptr s" 0 xs n] live_fresh(2) [of "start_ptr s" 0 xs "start_ptr s + extent 0 xs + 16 + n" n ys]
    by (auto simp: B bs)
  ultimately have "il_live ?s (B - {(p, n)})" unfolding il_live_def by (intro exI [of _ "xs @ (n, False) # ys"]) simp
  moreover have "allocated (parse_header (mem s) p) = 1" "p < last_ptr s"
    using rep bs assms(3) by (auto simp: il_rep_def parse_header_def add.commute [of _ 8])
  then have "il_free p s = (?s, 0)" by (simp add: il_free_def bs(2) add.commute [of _ 8])
  moreover have "keeps (B - {(p, n)}) (mem s) (mem ?s)"
    by (rule keeps_tags [of 0 "start_ptr s" "xs @ (n, False) # ys"]) (use B' in auto)
  ultimately show ?thesis by (auto simp: arena_def)
qed

definition il_reset :: "c_allocator \<Rightarrow> c_allocator \<times> nat" where
  "il_reset s = (if start_ptr s = 0 then (s, 1) else (s\<lparr>last_ptr := start_ptr s\<rparr>, 0))"

lemma il_reset_law:
  assumes "il_live s B"
  shows "\<exists>s'. il_reset s = (s', 0) \<and> il_live s' {} \<and> arena s' = arena s"
proof -
  have s: "0 < start_ptr s" "start_ptr s + region_size s < 2 ^ 63" using assms by (auto simp: il_live_def il_rep_def)
  then have "il_rep (s\<lparr>last_ptr := start_ptr s\<rparr>) []" by (simp add: il_rep_def)
  then show ?thesis
    using s by (auto intro!: exI [of _ "[]"] simp: il_reset_def il_live_def arena_def)
qed

lemma il_store_law:
  assumes "il_live s B" "(p, n) \<in> B" "p \<le> x" "x < p + n"
  shows "il_live (store_word x v s) B"
  using assms layout_store [of 0 "mem s" "start_ptr s" _ p n x v] unfolding il_live_def il_rep_def store_word_def by auto

interpretation il: heap_allocator il_live arena mem store_word il_malloc il_free il_reset
proof (unfold_locales, goal_cases)
  case (1 s B p n)
  then show ?case using live_bounds [of p n 0] by (fastforce simp: il_live_def il_rep_def arena_def)
next
  case (2 s B p n q k)
  then show ?case using live_disjoint [of p n 0 "start_ptr s" _ q k] unfolding il_live_def by metis
next
  case (3 s B n s' p)
  then show ?case using il_malloc_law by blast
next
  case (4 s B n q k x)
  then show ?case using il_malloc_law [of s B n "fst (il_malloc n s)" "snd (il_malloc n s)"] keepsD by (metis prod.collapse)
next
  case (5 s B p n)
  then show ?case using il_free_law by blast
next
  case (6 s B p n q k x)
  then have "(q, k) \<in> B - {(p, n)}" by auto
  then show ?case using il_free_law [OF 6(1-3)] keepsD 6 by fastforce
next
  case (7 s B p n x v)
  then show ?case using il_store_law by (auto simp: store_word_def arena_def)
next
  case (8 s B)
  then show ?case by (rule il_reset_law)
qed

end
