(* ===== verification/Free_Ring.thy ===== *)
theory Free_Ring
  imports Heap_Layout
begin

text \<open>
  The circular free list of \<open>1_mem_allocator/list_explicit_free/allocator.c\<close>. A free block keeps the addresses
  of its neighbours in the first two words of its payload, sixteen (\<open>prev\<close>) and twenty-four (\<open>next\<close>) bytes after its header, and
  \<open>HEAD\<close> points to one of the blocks.

  \<open>ring m xs\<close> says that the nodes \<open>xs\<close> form a circle in the memory \<open>m\<close>, in that order.
\<close>

section \<open>Operations on the list\<close>

text \<open>Unlinking, as the three places that do it; the result is the memory and the new \<open>HEAD\<close>.\<close>

definition ex_unlink :: "nat \<Rightarrow> nat \<Rightarrow> (nat \<Rightarrow> nat) \<Rightarrow> (nat \<Rightarrow> nat) \<times> nat" where
  "ex_unlink c h m =
     (let p = m (c + 16); n = m (c + 24) in
      if n = c then (m, 0)
      else (m(p + 24 := n, n + 16 := p), if h = c then n else h))"

text \<open>The remainder of a split block takes the place of the node.\<close>

definition ex_replace :: "nat \<Rightarrow> nat \<Rightarrow> nat \<Rightarrow> nat \<Rightarrow> (nat \<Rightarrow> nat) \<Rightarrow> nat \<Rightarrow> nat" where
  "ex_replace c other p n m =
     (if n = c then m(other + 16 := other, other + 24 := other)
      else m(other + 16 := p, other + 24 := n, p + 24 := other, n + 16 := other))"

definition ex_push :: "nat \<Rightarrow> nat \<Rightarrow> (nat \<Rightarrow> nat) \<Rightarrow> nat \<Rightarrow> nat" where
  "ex_push c h m =
     (if h = 0 then m(c + 16 := c, c + 24 := c)
      else let t = m (h + 16) in m(c + 16 := t, c + 24 := h, t + 24 := c, h + 16 := c))"

text \<open>The search, from \<open>current\<close> to \<open>HEAD\<close>; it may not end on a list that is not circular.\<close>

partial_function (option) ex_search :: "(nat \<Rightarrow> nat) \<Rightarrow> nat \<Rightarrow> nat \<Rightarrow> nat \<Rightarrow> (nat \<times> bool) option" where
  "ex_search m h n current =
     (if n \<le> m current then Some (current, True)
      else if m (current + 24) = h then Some (m (current + 24), False)
      else ex_search m h n (m (current + 24)))"

section \<open>Rings\<close>

definition adj :: "nat list \<Rightarrow> (nat \<times> nat) set" where
  "adj xs = set (zip xs (tl xs))"

definition cyc :: "nat list \<Rightarrow> (nat \<times> nat) set" where
  "cyc xs = (if xs = [] then {} else insert (last xs, hd xs) (adj xs))"

definition ring :: "(nat \<Rightarrow> nat) \<Rightarrow> nat list \<Rightarrow> bool" where
  "ring m xs \<longleftrightarrow> (\<forall>a b. (a, b) \<in> cyc xs \<longrightarrow> m (a + 24) = b \<and> m (b + 16) = a)"

definition head_of :: "nat list \<Rightarrow> nat" where
  "head_of xs = (case xs of [] \<Rightarrow> 0 | x # _ \<Rightarrow> x)"

text \<open>Nodes are headers of blocks of at least sixteen bytes, with a footer.\<close>

definition spaced :: "nat set \<Rightarrow> bool" where
  "spaced A \<longleftrightarrow> (\<forall>a\<in>A. \<forall>b\<in>A. a \<noteq> b \<longrightarrow> a + 40 \<le> b \<or> b + 40 \<le> a)"

definition links :: "nat set \<Rightarrow> nat set" where
  "links A = (\<lambda>c. c + 16) ` A \<union> (\<lambda>c. c + 24) ` A"

lemma adj_simps [simp]: "adj [] = {}" "adj [x] = {}" "adj (x # y # ys) = insert (x, y) (adj (y # ys))"
  by (simp_all add: adj_def)

lemma adj_Cons: "ys \<noteq> [] \<Longrightarrow> adj (x # ys) = insert (x, hd ys) (adj ys)"
  by (cases ys) simp_all

lemma adj_append: "xs \<noteq> [] \<Longrightarrow> ys \<noteq> [] \<Longrightarrow> adj (xs @ ys) = adj xs \<union> adj ys \<union> {(last xs, hd ys)}"
proof (induction xs)
  case (Cons x xs)
  then show ?case by (cases "xs = []") (auto simp: adj_Cons)
qed simp

lemma adj_in: "(a, b) \<in> adj xs \<Longrightarrow> a \<in> set xs \<and> b \<in> set (tl xs)"
  unfolding adj_def by (auto dest: set_zip_leftD set_zip_rightD)

lemma adj_in_butlast: "(a, b) \<in> adj xs \<Longrightarrow> a \<in> set (butlast xs)"
  by (induction xs rule: induct_list012) (auto split: if_splits)

lemma cyc_in: "(a, b) \<in> cyc xs \<Longrightarrow> a \<in> set xs \<and> b \<in> set xs"
  using adj_in by (fastforce simp: cyc_def dest: list.set_sel(2) split: if_splits)

lemma adj_distinct:
  assumes "distinct xs" "(a, b) \<in> adj xs"
  shows "a \<noteq> last xs" "b \<noteq> hd xs" "a \<noteq> b"
proof -
  have "xs \<noteq> []" using assms(2) by auto
  have "a \<in> set (butlast xs)" using adj_in_butlast assms(2) by blast
  moreover have "distinct (butlast xs @ [last xs])" using assms(1) \<open>xs \<noteq> []\<close> by simp
  ultimately show "a \<noteq> last xs" unfolding distinct_append by auto
  have "b \<in> set (tl xs)" using adj_in assms(2) by blast
  then show "b \<noteq> hd xs" using assms(1) \<open>xs \<noteq> []\<close> by (auto simp: neq_Nil_conv)
  show "a \<noteq> b" using assms by (induction xs rule: induct_list012) (auto dest: adj_in)
qed

lemma cyc_rotate: "cyc (xs @ ys) = cyc (ys @ xs)"
proof (cases "xs = [] \<or> ys = []")
  case False
  then show ?thesis by (auto simp: cyc_def adj_append)
qed auto

lemma ring_rotate: "ring m (xs @ ys) \<longleftrightarrow> ring m (ys @ xs)"
  by (simp add: ring_def cyc_rotate)

lemma ring_frame:
  assumes "ring m xs" "\<And>x. x \<in> links (set xs) \<Longrightarrow> m' x = m x"
  shows "ring m' xs"
  using assms cyc_in by (fastforce simp: ring_def links_def)

text \<open>Two words join \<open>p\<close> and \<open>x\<close>; the other pairs of neighbours stay.\<close>

lemma ring_join:
  assumes ring: "ring m xs" and sp: "spaced A" and in_A: "p \<in> A" "x \<in> A" "set ys \<subseteq> A"
    and pairs: "\<And>a b. (a, b) \<in> cyc ys \<Longrightarrow> (a, b) = (p, x) \<or> (a, b) \<in> cyc xs \<and> a \<noteq> p \<and> b \<noteq> x"
  shows "ring (m(p + 24 := x, x + 16 := p)) ys"
  unfolding ring_def
proof (intro allI impI)
  fix a b assume ab: "(a, b) \<in> cyc ys"
  have "a \<in> A" "b \<in> A" using cyc_in [OF ab] in_A(3) by auto
  then have apart: "a + 24 \<noteq> x + 16" "p + 24 \<noteq> b + 16" using sp in_A unfolding spaced_def by force+
  show "(m(p + 24 := x, x + 16 := p)) (a + 24) = b \<and> (m(p + 24 := x, x + 16 := p)) (b + 16) = a"
    using pairs [OF ab] ring apart by (auto simp: ring_def)
qed

lemma ring_Cons:
  assumes "ring m (c # zs)" "zs \<noteq> []"
  shows "m (c + 24) = hd zs" "m (c + 16) = last zs" "\<And>a b. (a, b) \<in> adj zs \<Longrightarrow> m (a + 24) = b \<and> m (b + 16) = a"
  using assms by (auto simp: ring_def cyc_def adj_Cons)

lemma ring_middle:
  assumes "ring m (xs @ c # ys)"
  shows "ring m (c # ys @ xs)"
  using assms ring_rotate [of m xs "c # ys"] by simp

lemma cyc_drop:
  assumes "zs \<noteq> []" "distinct zs" "(a, b) \<in> cyc zs"
  shows "(a, b) = (last zs, hd zs) \<or> (a, b) \<in> cyc (c # zs) \<and> a \<noteq> last zs \<and> b \<noteq> hd zs"
  using assms(1,3) adj_distinct [OF assms(2)] by (auto simp: cyc_def adj_Cons)

lemma ring_unlink:
  assumes ring: "ring m (xs @ c # ys)" and d: "distinct (xs @ c # ys)" and sp: "spaced (set (xs @ c # ys))"
    and pos: "0 \<notin> set (xs @ c # ys)" and u: "ex_unlink c (head_of (xs @ c # ys)) m = (m', h')"
  shows "ring m' (xs @ ys)" "h' = head_of (xs @ ys)" "\<And>x. x \<notin> links (set (xs @ ys)) \<Longrightarrow> m' x = m x"
proof -
  note r = ring_middle [OF ring]
  have "ring m' (xs @ ys) \<and> h' = head_of (xs @ ys) \<and> (\<forall>x. x \<notin> links (set (xs @ ys)) \<longrightarrow> m' x = m x)"
  proof (cases "ys @ xs = []")
    case True
    then have "m (c + 24) = c" using r by (simp add: ring_def cyc_def)
    then show ?thesis using u True by (simp add: ex_unlink_def head_of_def ring_def cyc_def)
  next
    case False
    let ?n = "hd (ys @ xs)" let ?p = "last (ys @ xs)"
    note cn = ring_Cons [OF r False]
    have "?n \<in> set (ys @ xs)" "?p \<in> set (ys @ xs)" using False by (auto simp: hd_append last_append)
    moreover have "c \<notin> set (ys @ xs)" "distinct (ys @ xs)" using d by auto
    ultimately have "?n \<noteq> c" and dz: "distinct (ys @ xs)" by blast+
    then have m': "m' = m(?p + 24 := ?n, ?n + 16 := ?p)" and h': "h' = (if head_of (xs @ c # ys) = c then ?n else head_of (xs @ c # ys))"
      using u by (auto simp: ex_unlink_def cn(1,2) Let_def split: if_splits)
    have "ring m' (ys @ xs)"
      unfolding m'
    proof (rule ring_join [OF r sp])
      show "(a, b) = (?p, ?n) \<or> (a, b) \<in> cyc (c # ys @ xs) \<and> a \<noteq> ?p \<and> b \<noteq> ?n" if "(a, b) \<in> cyc (ys @ xs)" for a b
        by (rule cyc_drop [OF False dz that])
    qed (use \<open>?n \<in> _\<close> \<open>?p \<in> _\<close> in auto)
    moreover have "h' = head_of (xs @ ys)"
      using h' d False by (cases xs) (auto simp: head_of_def neq_Nil_conv)
    moreover have "m' x = m x" if "x \<notin> links (set (xs @ ys))" for x
      using that \<open>?n \<in> _\<close> \<open>?p \<in> _\<close> by (auto simp: m' links_def)
    ultimately show ?thesis using ring_rotate by blast
  qed
  then show "ring m' (xs @ ys)" "h' = head_of (xs @ ys)" "\<And>x. x \<notin> links (set (xs @ ys)) \<Longrightarrow> m' x = m x" by blast+
qed

text \<open>Inserting a node between the last node and the first.\<close>

lemma ring_insert:
  assumes adj: "\<And>a b. (a, b) \<in> adj zs \<Longrightarrow> m (a + 24) = b \<and> m (b + 16) = a"
    and zs: "zs \<noteq> []" "distinct (c # zs)" "spaced (set (c # zs))" "p = last zs" "n = hd zs"
  shows "ring (m(c + 16 := p, c + 24 := n, p + 24 := c, n + 16 := c)) (c # zs)"
proof -
  let ?m = "m(c + 16 := p, c + 24 := n, p + 24 := c, n + 16 := c)"
  have apart: "a + 24 \<noteq> b + 16" if "a \<in> set (c # zs)" "b \<in> set (c # zs)" for a b
    using that zs(3) unfolding spaced_def by force
  have in_zs: "p \<in> set zs" "n \<in> set zs" and pc: "p \<noteq> c" "n \<noteq> c" using zs by auto
  have "?m (p + 24) = c \<and> ?m (c + 16) = p \<and> ?m (c + 24) = n \<and> ?m (n + 16) = c"
    using in_zs pc apart [of c c] apart [of p n] apart [of c n] apart [of p c] by simp
  moreover have "?m (a + 24) = b \<and> ?m (b + 16) = a" if ab: "(a, b) \<in> adj zs" for a b
  proof -
    have "a \<in> set zs" "b \<in> set zs" using adj_in [OF ab] by (auto dest: list.set_sel(2) [OF zs(1)])
    then have "a \<noteq> c" "b \<noteq> c" "a + 24 \<noteq> n + 16" "a + 24 \<noteq> c + 16" "c + 24 \<noteq> b + 16" "p + 24 \<noteq> b + 16"
      using zs(2) apart in_zs by auto
    moreover have "a \<noteq> p" "b \<noteq> n" using adj_distinct [OF _ ab] zs(2,4,5) by auto
    ultimately show ?thesis using adj [OF ab] by simp
  qed
  ultimately show ?thesis using zs by (auto simp: ring_def cyc_def adj_Cons simp del: fun_upd_apply)
qed

lemma ring_push:
  assumes ring: "ring m fl" and d: "distinct (c # fl)" and sp: "spaced (set (c # fl))" and pos: "0 \<notin> set (c # fl)"
  shows "ring (ex_push c (head_of fl) m) (c # fl)"
proof (cases fl)
  case Nil
  then show ?thesis by (simp add: ex_push_def head_of_def ring_def cyc_def)
next
  case (Cons h t)
  have "m (h + 16) = last fl" using ring by (auto simp: ring_def cyc_def Cons)
  then have "ex_push c (head_of fl) m = m(c + 16 := last fl, c + 24 := h, last fl + 24 := c, h + 16 := c)"
    using pos by (simp add: ex_push_def head_of_def Cons Let_def)
  moreover have "ring (m(c + 16 := last fl, c + 24 := h, last fl + 24 := c, h + 16 := c)) (c # fl)"
    by (rule ring_insert) (use ring d sp in \<open>auto simp: ring_def cyc_def Cons\<close>)
  ultimately show ?thesis by simp
qed

lemma ex_push_only: "ring m fl \<Longrightarrow> x \<notin> links (set (c # fl)) \<Longrightarrow> ex_push c (head_of fl) m x = m x"
  by (cases fl) (auto simp: ex_push_def head_of_def links_def ring_def cyc_def Let_def split: if_splits)

lemma ring_replace:
  assumes ring: "ring m (xs @ c # ys)" and d: "distinct (xs @ c # ys)" and sp: "spaced (set (xs @ c' # ys))" and new: "c' \<notin> set (xs @ ys)"
  shows "ring (ex_replace c c' (m (c + 16)) (m (c + 24)) m) (xs @ c' # ys)"
proof -
  note r = ring_middle [OF ring]
  let ?m = "ex_replace c c' (m (c + 16)) (m (c + 24)) m"
  have "ring ?m (c' # ys @ xs)"
  proof (cases "ys @ xs = []")
    case True
    then have "m (c + 24) = c" using r by (simp add: ring_def cyc_def)
    then show ?thesis using True by (simp add: ex_replace_def ring_def cyc_def)
  next
    case False
    note cn = ring_Cons [OF r False]
    have "hd (ys @ xs) \<in> set (ys @ xs)" using False by (rule hd_in_set)
    moreover have "c \<notin> set (ys @ xs)" using d by auto
    ultimately have "hd (ys @ xs) \<noteq> c" by metis
    then have "?m = m(c' + 16 := last (ys @ xs), c' + 24 := hd (ys @ xs), last (ys @ xs) + 24 := c', hd (ys @ xs) + 16 := c')"
      by (simp add: ex_replace_def cn(1,2))
    moreover have "set (c' # ys @ xs) = set (xs @ c' # ys)" by auto
    ultimately show ?thesis using ring_insert [OF cn(3) False, of c'] d sp new by auto
  qed
  then show ?thesis using ring_rotate [of ?m xs "c' # ys"] by simp
qed

lemma ex_replace_only:
  assumes "ring m (xs @ c # ys)" "x \<notin> links (set (xs @ c' # ys))"
  shows "ex_replace c c' (m (c + 16)) (m (c + 24)) m x = m x"
proof (cases "ys @ xs = []")
  case True
  then show ?thesis using assms by (auto simp: ex_replace_def links_def ring_def cyc_def)
next
  case False
  note cn = ring_Cons [OF ring_middle [OF assms(1)] False]
  have "hd (ys @ xs) \<in> set (xs @ ys)" "last (ys @ xs) \<in> set (xs @ ys)" using hd_in_set [OF False] last_in_set [OF False] by auto
  then show ?thesis using assms(2) by (auto simp: ex_replace_def cn(1,2) links_def)
qed

section \<open>The search\<close>

text \<open>On a ring the search ends, with the first node that fits.\<close>

lemma ex_search_from:
  assumes "ring m (xs @ c # ys)" "distinct (xs @ c # ys)"
  shows "ex_search m (hd (xs @ [c])) n c =
    Some (case List.find (\<lambda>c. n \<le> m c) (c # ys) of Some c' \<Rightarrow> (c', True) | None \<Rightarrow> (hd (xs @ [c]), False))"
  using assms
proof (induction ys arbitrary: xs c)
  case Nil
  then have "m (c + 24) = hd (xs @ [c])" by (auto simp: ring_def cyc_def)
  then show ?case by (simp add: ex_search.simps [of m _ n c])
next
  case (Cons y ys)
  have "m (c + 24) = y"
    using Cons.prems(1) ring_Cons(1) [OF ring_middle [OF Cons.prems(1)]] by simp
  moreover have "y \<noteq> hd (xs @ [c])" using Cons.prems(2) by (cases xs) auto
  moreover have "hd ((xs @ [c]) @ [y]) = hd (xs @ [c])" by (cases xs) auto
  ultimately show ?case
    using Cons.IH [of "xs @ [c]" y] Cons.prems by (auto simp: ex_search.simps [of m _ n c] split: option.splits)
qed

lemma ex_search_ring:
  assumes "ring m fl" "distinct fl" "fl \<noteq> []"
  shows "ex_search m (head_of fl) n (head_of fl) =
    Some (case List.find (\<lambda>c. n \<le> m c) fl of Some c \<Rightarrow> (c, True) | None \<Rightarrow> (head_of fl, False))"
  using ex_search_from [of m "[]" "hd fl" "tl fl"] assms by (cases fl) (auto simp: head_of_def split: option.splits)

section \<open>The set of nodes\<close>

text \<open>\<open>h\<close> is the head of a ring of the nodes \<open>F\<close>.\<close>

definition nodes :: "(nat \<Rightarrow> nat) \<Rightarrow> nat \<Rightarrow> nat set \<Rightarrow> bool" where
  "nodes m h F \<longleftrightarrow> (\<exists>fl. distinct fl \<and> set fl = F \<and> h = head_of fl \<and> ring m fl)"

lemma nodes_empty: "nodes m h {} \<longleftrightarrow> h = 0"
  by (auto simp: nodes_def head_of_def ring_def cyc_def)

lemma nodes_head: "nodes m h F \<Longrightarrow> 0 \<notin> F \<Longrightarrow> (h = 0 \<longleftrightarrow> F = {})"
  unfolding nodes_def head_of_def by (metis empty_set list.case_eq_if list.set_sel(1) set_empty2)

lemma nodes_frame: "nodes m h F \<Longrightarrow> (\<And>x. x \<in> links F \<Longrightarrow> m' x = m x) \<Longrightarrow> nodes m' h F"
  unfolding nodes_def using ring_frame by blast

lemma nodes_split:
  assumes "nodes m h F" "c \<in> F"
  obtains xs ys where "distinct (xs @ c # ys)" "set (xs @ c # ys) = F" "set (xs @ ys) = F - {c}"
    "h = head_of (xs @ c # ys)" "ring m (xs @ c # ys)"
proof -
  obtain fl where fl: "distinct fl" "set fl = F" "h = head_of fl" "ring m fl" using assms(1) by (auto simp: nodes_def)
  then obtain xs ys where "fl = xs @ c # ys" using assms(2) by (auto simp: in_set_conv_decomp)
  then show ?thesis using that [of xs ys] fl by auto
qed

lemma nodes_unlink:
  assumes "nodes m h F" "c \<in> F" "spaced F" "0 \<notin> F" "ex_unlink c h m = (m', h')"
  shows "nodes m' h' (F - {c})" "\<And>x. x \<notin> links (F - {c}) \<Longrightarrow> m' x = m x"
proof -
  obtain xs ys where fl: "distinct (xs @ c # ys)" "set (xs @ c # ys) = F" "set (xs @ ys) = F - {c}"
    "h = head_of (xs @ c # ys)" "ring m (xs @ c # ys)" by (rule nodes_split [OF assms(1,2)])
  note u = ring_unlink [OF fl(5,1) assms(3) [folded fl(2)] assms(4) [folded fl(2)] assms(5) [unfolded fl(4)]]
  have "distinct (xs @ ys)" using fl(1) by auto
  then show "nodes m' h' (F - {c})" unfolding nodes_def using u(1,2) fl(3) by blast
  show "\<And>x. x \<notin> links (F - {c}) \<Longrightarrow> m' x = m x" using u(3) fl(3) by metis
qed

lemma nodes_push:
  assumes "nodes m h F" "c \<notin> F" "spaced (insert c F)" "0 \<notin> insert c F"
  shows "nodes (ex_push c h m) c (insert c F)" "\<And>x. x \<notin> links (insert c F) \<Longrightarrow> ex_push c h m x = m x"
proof -
  obtain fl where fl: "distinct fl" "set fl = F" "h = head_of fl" "ring m fl" using assms(1) by (auto simp: nodes_def)
  have "ring (ex_push c h m) (c # fl)" using ring_push [OF fl(4), of c] fl assms(2-4) by simp
  then show "nodes (ex_push c h m) c (insert c F)"
    unfolding nodes_def using fl(1,2) assms(2) by (intro exI [of _ "c # fl"]) (simp add: head_of_def)
  show "ex_push c h m x = m x" if "x \<notin> links (insert c F)" for x using ex_push_only [OF fl(4), of x c] that fl(2,3) by simp
qed

lemma nodes_replace:
  assumes "nodes m h F" "c \<in> F" "c' \<notin> F" "spaced (insert c' (F - {c}))"
  shows "nodes (ex_replace c c' (m (c + 16)) (m (c + 24)) m) (if h = c then c' else h) (insert c' (F - {c}))"
    "\<And>x. x \<notin> links (insert c' (F - {c})) \<Longrightarrow> ex_replace c c' (m (c + 16)) (m (c + 24)) m x = m x"
proof -
  obtain xs ys where fl: "distinct (xs @ c # ys)" "set (xs @ c # ys) = F" "set (xs @ ys) = F - {c}"
    "h = head_of (xs @ c # ys)" "ring m (xs @ c # ys)" by (rule nodes_split [OF assms(1,2)])
  let ?m = "ex_replace c c' (m (c + 16)) (m (c + 24)) m"
  have new: "set (xs @ c' # ys) = insert c' (F - {c})" using fl(3) by auto
  have c': "c' \<notin> set (xs @ ys)" using assms(3) fl(3) by auto
  then have "ring ?m (xs @ c' # ys)" using assms(4) unfolding new [symmetric] by (rule_tac ring_replace [OF fl(5,1)])
  moreover have "(if h = c then c' else h) = head_of (xs @ c' # ys)" using fl(1,4) by (cases xs) (auto simp: head_of_def)
  moreover have "distinct (xs @ c' # ys)" using fl(1) c' by auto
  ultimately show "nodes ?m (if h = c then c' else h) (insert c' (F - {c}))" unfolding nodes_def using new by blast
  show "?m x = m x" if "x \<notin> links (insert c' (F - {c}))" for x using ex_replace_only [OF fl(5)] that new by metis
qed

lemma nodes_search:
  assumes "nodes m h F" "F \<noteq> {}"
  shows "(\<exists>c\<in>F. n \<le> m c \<and> ex_search m h n h = Some (c, True)) \<or>
    (\<forall>c\<in>F. m c < n) \<and> ex_search m h n h = Some (h, False)"
proof -
  obtain fl where fl: "distinct fl" "set fl = F" "h = head_of fl" "ring m fl" using assms(1) by (auto simp: nodes_def)
  have "fl \<noteq> []" using fl(2) assms(2) by auto
  note r = ex_search_ring [OF fl(4,1) this, of n]
  show ?thesis
  proof (cases "List.find (\<lambda>c. n \<le> m c) fl")
    case None
    then show ?thesis using r fl(2,3) None by (simp add: not_le) (simp add: find_None_iff not_le)
  next
    case (Some c)
    then have "c \<in> F" "n \<le> m c" using fl(2) by (auto simp: find_Some_iff)
    then show ?thesis using r fl(3) Some by auto
  qed
qed

end
