(* ===== verification/Explicit_Allocator.thy ===== *)
theory Explicit_Allocator
  imports Coalesce_Allocator Free_Ring
begin

text \<open>
  The allocator with an explicit free list of \<open>1_mem_allocator/list_explicit_free/allocator.c\<close>. Blocks and boundary
  tags are those of the coalescing allocator; the free blocks are linked in a circular list, whose head is the
  static variable \<open>HEAD\<close> of the file, one for all allocators.
\<close>

record ex_state =
  allocator :: c_allocator
  HEAD :: nat

definition ex_init :: "nat \<Rightarrow> nat \<Rightarrow> ex_state \<Rightarrow> ex_state \<times> nat" where
  "ex_init mmap_result n s =
     (let A = allocator s in
      if start_ptr A \<noteq> 0 then (s, 1)
      else let A = A\<lparr>start_ptr := mmap_result\<rparr> in
        if start_ptr A = MAP_FAILED then (s\<lparr>allocator := A\<rparr>, 1)
        else (s\<lparr>allocator := A\<lparr>last_ptr := start_ptr A, region_size := n, mem := (mem A)(start_ptr A := 0)\<rparr>\<rparr>, 0))"

definition ex_reset :: "ex_state \<Rightarrow> ex_state \<times> nat" where
  "ex_reset s =
     (let A = allocator s in
      if start_ptr A = 0 then (s, 1)
      else (s\<lparr>allocator := A\<lparr>last_ptr := start_ptr A\<rparr>, HEAD := 0\<rparr>, 0))"

definition ex_deinit :: "ex_state \<Rightarrow> ex_state \<times> nat" where
  "ex_deinit s =
     (let A = allocator s in
      if start_ptr A = 0 then (s, 1)
      else (s\<lparr>allocator := A\<lparr>start_ptr := 0, last_ptr := 0, region_size := 0\<rparr>, HEAD := 0\<rparr>, 0))"

text \<open>The result is \<open>None\<close> when the search does not end.\<close>

definition ex_malloc :: "nat \<Rightarrow> ex_state \<Rightarrow> (ex_state \<times> nat) option" where
  "ex_malloc n s =
     (let n = align_up n; A = allocator s; m = mem A; h = HEAD s in
      case (if h = 0 then Some (0, False) else ex_search m h n h) of
        None \<Rightarrow> None
      | Some (current, found) \<Rightarrow> Some (
          if found then
            let p = m (current + 16); nx = m (current + 24); m = m(current + 8 := 1) in
            if m current \<ge> add64 n 40 then
              let original_size = m current; other_chunk = current + n + 24; new_size = original_size - n - 24;
                  m = m(current := n, current + n + 16 := n, other_chunk + 8 := 0, other_chunk := new_size,
                    other_chunk + new_size + 16 := new_size);
                  m = ex_replace current other_chunk p nx m
              in (s\<lparr>allocator := A\<lparr>mem := m\<rparr>, HEAD := if h = current then other_chunk else h\<rparr>, current + 16)
            else
              let (m, h) = ex_unlink current h m
              in (s\<lparr>allocator := A\<lparr>mem := m\<rparr>, HEAD := h\<rparr>, current + 16)
          else if add64 (last_ptr A) (24 + n) > start_ptr A + region_size A then (s, 0)
          else
            let c = last_ptr A in
            (s\<lparr>allocator := A\<lparr>mem := m(c + 8 := 1, c := n, add64 (c + 16) n := n), last_ptr := add64 c (n + 24)\<rparr>\<rparr>, c + 16)))"

definition ex_forward :: "nat \<Rightarrow> nat \<Rightarrow> nat \<Rightarrow> nat \<Rightarrow> (nat \<Rightarrow> nat) \<Rightarrow> (nat \<Rightarrow> nat) \<times> nat \<times> nat" where
  "ex_forward lim ptr n h m =
     (let next_hdr = ptr + n + 8 in
      if next_hdr < lim \<and> m (next_hdr + 8) = 0 then
        let (m, h) = ex_unlink next_hdr h m in (m, h, add64 n (add64 (m next_hdr) 24))
      else (m, h, n))"

definition ex_backward :: "nat \<Rightarrow> nat \<Rightarrow> nat \<Rightarrow> nat \<Rightarrow> (nat \<Rightarrow> nat) \<Rightarrow> (nat \<Rightarrow> nat) \<times> nat \<times> nat \<times> nat" where
  "ex_backward start ptr n h m =
     (let hdr = ptr - 16 in
      if hdr > start then
        let prev_size = m (ptr - 24); prev_hdr = ptr - 40 - prev_size in
        if m (prev_hdr + 8) = 0 then
          let (m, h) = ex_unlink prev_hdr h m in (m, h, prev_hdr, add64 n (add64 prev_size 24))
        else (m, h, hdr, n)
      else (m, h, hdr, n))"

definition ex_free :: "nat \<Rightarrow> ex_state \<Rightarrow> ex_state \<times> nat" where
  "ex_free ptr s =
     (let A = allocator s; m = mem A in
      if ptr < start_ptr A + 16 \<or> ptr \<ge> last_ptr A then (s, 1)
      else if m (ptr - 8) = 0 then (s, 1)
      else
        let (m, h, n) = ex_forward (last_ptr A) ptr (m (ptr - 16)) (HEAD s) m;
            (m, h, hdr, n) = ex_backward (start_ptr A) ptr n h m;
            m = m(hdr + 8 := 0, hdr := n, hdr + 16 + n := n);
            m = ex_push hdr h m
        in (s\<lparr>allocator := A\<lparr>mem := m\<rparr>, HEAD := hdr\<rparr>, 0))"

section \<open>The free blocks\<close>

fun frees :: "nat \<Rightarrow> block list \<Rightarrow> nat list" where
  "frees a [] = []"
| "frees a ((n, al) # bs) = (if al then [] else [a]) @ frees (a + 24 + n) bs"

definition big :: "block list \<Rightarrow> bool" where
  "big bs \<longleftrightarrow> list_all (\<lambda>b. 16 \<le> fst b) bs"

lemma big_simps [simp]: "big []" "big ((n, al) # bs) \<longleftrightarrow> 16 \<le> n \<and> big bs" "big (xs @ ys) \<longleftrightarrow> big xs \<and> big ys"
  by (simp_all add: big_def)

lemma frees_append [simp]: "frees a (xs @ ys) = frees a xs @ frees (a + extent 8 xs) ys"
  by (induction a xs rule: frees.induct) (auto simp: add_ac)

lemma frees_bounds: "c \<in> set (frees a bs) \<Longrightarrow> big bs \<Longrightarrow> a \<le> c \<and> c + 40 \<le> a + extent 8 bs"
proof (induction a bs rule: frees.induct)
  case (2 a n al bs)
  then show ?case by (cases "c \<in> set (frees (a + 24 + n) bs)") (auto split: if_splits)
qed simp

lemma frees_split:
  assumes "c \<in> set (frees a bs)"
  obtains xs k ys where "bs = xs @ (k, False) # ys" "c = a + extent 8 xs"
  using assms
proof (induction a bs arbitrary: thesis rule: frees.induct)
  case (2 a n al bs)
  show ?case
  proof (cases "\<not> al \<and> c = a")
    case True
    then show ?thesis using "2.prems"(1) [of "[]"] by simp
  next
    case False
    then have "c \<in> set (frees (a + 24 + n) bs)" using "2.prems"(2) by (auto split: if_splits)
    then obtain xs k ys where "bs = xs @ (k, False) # ys" "c = a + 24 + n + extent 8 xs" using "2.IH" by blast
    then show ?thesis using "2.prems"(1) [of "(n, al) # xs"] by simp
  qed
qed simp

lemma frees_spaced: "big bs \<Longrightarrow> spaced (set (frees a bs))"
proof (induction a bs rule: frees.induct)
  case (2 a n al bs)
  have "a + 40 \<le> c" if "c \<in> set (frees (a + 24 + n) bs)" for c using frees_bounds [OF that] 2(2) by simp
  then show ?case using 2 by (auto simp: spaced_def)
qed (simp add: spaced_def)

text \<open>The links lie neither in a header or footer nor in an allocated block.\<close>

lemma links_tags:
  assumes "big bs" "x \<in> links (set (frees a bs))"
  shows "x \<notin> tags 8 a bs"
  using assms
proof (induction a bs rule: frees.induct)
  case (2 a n al bs)
  show ?case
  proof (cases "x \<in> links (set (frees (a + 24 + n) bs))")
    case True
    then have "a + 24 + n + 16 \<le> x" using frees_bounds [of _ "a + 24 + n" bs] "2.prems"(1) by (force simp: links_def)
    then show ?thesis using 2 True by (auto simp: add_ac)
  next
    case False
    then have "x = a + 16 \<or> x = a + 24" using "2.prems"(2) by (auto simp: links_def split: if_splits)
    then show ?thesis using "2.prems"(1) tags_bounds [of x 8 "a + 24 + n" bs] by (auto simp: add_ac)
  qed
qed simp

lemma links_live:
  assumes "big bs" "(p, n) \<in> set (live 8 a bs)" "p \<le> x" "x < p + n"
  shows "x \<notin> links (set (frees a bs))"
  using assms
proof (induction a bs rule: frees.induct)
  case (2 a k al bs)
  let ?b = "a + 24 + k"
  show ?case
  proof (cases "(p, n) \<in> set (live 8 ?b bs)")
    case True
    have "?b + 16 \<le> x" using live_bounds [OF True] "2.prems"(3) by simp
    then show ?thesis using 2 True by (auto simp: links_def)
  next
    case False
    then have "al" "x < ?b" using "2.prems" by (auto simp: add_ac split: if_splits)
    then show ?thesis using frees_bounds [of _ ?b bs] "2.prems"(1) by (force simp: links_def)
  qed
qed simp

definition ex_rep :: "ex_state \<Rightarrow> block list \<Rightarrow> bool" where
  "ex_rep s bs \<longleftrightarrow> co_rep (allocator s) bs \<and> separated bs \<and> big bs \<and>
     nodes (mem (allocator s)) (HEAD s) (set (frees (start_ptr (allocator s)) bs))"

lemma co_rep_links:
  assumes "co_rep A bs" "big bs" "\<And>x. x \<notin> links (set (frees (start_ptr A) bs)) \<Longrightarrow> m x = mem A x"
  shows "co_rep (A\<lparr>mem := m\<rparr>) bs"
proof -
  have "layout 8 m (start_ptr A) bs"
    by (rule layout_tags [of 8 "mem A"]) (use assms links_tags in \<open>auto simp: co_rep_def\<close>)
  then show ?thesis using assms(1) by (simp add: co_rep_def)
qed

lemma frees_pos: "co_rep A bs \<Longrightarrow> big bs \<Longrightarrow> 0 \<notin> set (frees (start_ptr A) bs)"
  using frees_bounds [of 0 "start_ptr A" bs] by (auto simp: co_rep_def)

text \<open>Outside the headers, footers and links of the blocks \<open>bs\<close> the memory is unchanged.\<close>

definition quiet :: "nat \<Rightarrow> block list \<Rightarrow> (nat \<Rightarrow> nat) \<Rightarrow> (nat \<Rightarrow> nat) \<Rightarrow> bool" where
  "quiet a bs m m' \<longleftrightarrow> (\<forall>x. x \<notin> tags 8 a bs \<longrightarrow> x \<notin> links (set (frees a bs)) \<longrightarrow> m' x = m x)"

lemma keeps_quiet:
  assumes "quiet a bs m m'" "big bs" "B \<subseteq> set (live 8 a bs)"
  shows "keeps B m m'"
  unfolding keeps_def using assms live_tags links_live unfolding quiet_def by blast

text \<open>
  A state is reached in two steps: \<open>m1\<close> has the headers and footers of the new blocks, and \<open>m2\<close> in addition the new links.
\<close>

lemma ex_rep_step:
  assumes co: "co_rep (A\<lparr>mem := m1\<rparr>) bs" and "separated bs" and big: "big bs" and F: "set (frees (start_ptr A) bs) = F"
    and nodes: "nodes m2 h F" and links: "\<And>x. x \<notin> links F \<Longrightarrow> m2 x = m1 x" and tags: "\<And>x. x \<notin> tags 8 (start_ptr A) bs \<Longrightarrow> x \<notin> links F \<Longrightarrow> m1 x = mem A x"
  shows "ex_rep (s\<lparr>allocator := A\<lparr>mem := m2\<rparr>, HEAD := h\<rparr>) bs" "quiet (start_ptr A) bs (mem A) m2"
proof -
  have "co_rep (A\<lparr>mem := m1, mem := m2\<rparr>) bs" by (rule co_rep_links [OF co big]) (use links F in simp)
  then show "ex_rep (s\<lparr>allocator := A\<lparr>mem := m2\<rparr>, HEAD := h\<rparr>) bs" using assms(2) big nodes F by (simp add: ex_rep_def)
  show "quiet (start_ptr A) bs (mem A) m2" unfolding quiet_def F using links tags by simp
qed

section \<open>Allocation\<close>

lemma frees_middle:
  fixes a :: nat
  assumes "big (xs @ (k, al) # ys)"
  defines "F \<equiv> set (frees a xs) \<union> set (frees (a + extent 8 xs + 24 + k) ys)" and "c \<equiv> a + extent 8 xs"
  shows "set (frees a (xs @ (k, False) # ys)) = insert c F" "c \<notin> F"
    "\<And>d. d \<in> F \<Longrightarrow> d + 40 \<le> c \<or> c + 24 + k \<le> d"
proof -
  show *: "\<And>d. d \<in> F \<Longrightarrow> d + 40 \<le> c \<or> c + 24 + k \<le> d"
    using frees_bounds [of _ a xs] frees_bounds [of _ "a + extent 8 xs + 24 + k" ys] assms(1) by (auto simp: F_def c_def)
  then show "c \<notin> F" by fastforce
  show "set (frees a (xs @ (k, False) # ys)) = insert c F" by (auto simp: F_def c_def)
qed

lemma ex_malloc_split:
  assumes rep: "ex_rep s (xs @ (k, False) # ys)" and n: "16 \<le> align_up n" "align_up n + 40 \<le> k"
    and found: "ex_search (mem (allocator s)) (HEAD s) (align_up n) (HEAD s) = Some (c, True)" and c: "c = start_ptr (allocator s) + extent 8 xs"
  shows "\<exists>m h. ex_malloc n s = Some (s\<lparr>allocator := (allocator s)\<lparr>mem := m\<rparr>, HEAD := h\<rparr>, c + 16) \<and>
    ex_rep (s\<lparr>allocator := (allocator s)\<lparr>mem := m\<rparr>, HEAD := h\<rparr>) (xs @ carve (align_up n) k @ ys) \<and>
    quiet (start_ptr (allocator s)) (xs @ carve (align_up n) k @ ys) (mem (allocator s)) m"
proof -
  let ?A = "allocator s" let ?m = "mem ?A" let ?n = "align_up n" let ?h = "HEAD s" let ?o = "c + ?n + 24"
  let ?bs = "xs @ carve ?n k @ ys" let ?a = "start_ptr ?A"
  have co: "co_rep ?A (xs @ (k, False) # ys)" and big: "big (xs @ (k, False) # ys)" and sep: "separated (xs @ (k, False) # ys)"
    and nodes: "nodes ?m ?h (set (frees ?a (xs @ (k, False) # ys)))" using rep by (simp_all add: ex_rep_def)
  let ?F = "set (frees ?a xs) \<union> set (frees (c + 24 + k) ys)"
  note F = frees_middle [OF big, where a = ?a, folded c]
  let ?m1 = "carve_mem ?m c ?n k" let ?m2 = "ex_replace c ?o (?m1 (c + 16)) (?m1 (c + 24)) ?m1"
  have big': "big ?bs" using big n by (simp add: carve_def)
  have F': "set (frees ?a ?bs) = insert ?o ?F" using n(2) by (simp add: carve_def c [symmetric] add_ac)
  have m1: "?m1 x = ?m x" if "x \<notin> tags 8 ?a ?bs" for x using carve_mem_only [OF that, of ?m] by (simp add: c)
  have lk: "?m1 x = ?m x" if "x \<in> links (insert c ?F)" for x
  proof (cases "x \<in> links ?F")
    case True
    then have "x \<notin> tags 8 ?a ?bs" using links_tags [OF big', of x ?a] F' by (auto simp: links_def)
    then show ?thesis by (rule m1)
  next
    case False
    then have "x = c + 16 \<or> x = c + 24" using that by (auto simp: links_def)
    then show ?thesis using n by (auto simp: carve_mem_def)
  qed
  have nodes1: "nodes ?m1 ?h (insert c ?F)" by (rule nodes_frame [OF nodes [unfolded F(1)]]) (rule lk)
  have o: "?o \<notin> insert c ?F" using F(3) n by fastforce
  have sub: "insert ?o (insert c ?F - {c}) = insert ?o ?F" using F(2) by auto
  have sp: "spaced (insert ?o ?F)" using frees_spaced [OF big', of ?a] F' by simp
  note nodes2 = nodes_replace [OF nodes1 insertI1 o, unfolded sub, OF sp]
  have co1: "co_rep (?A\<lparr>mem := ?m1\<rparr>) ?bs" using co_rep_carve [OF co, of n] n(2) by (simp add: c)
  note step = ex_rep_step [OF co1 separated_carve [OF sep] big' F' nodes2 m1]
  have "ex_malloc n s = Some (s\<lparr>allocator := ?A\<lparr>mem := ?m2\<rparr>, HEAD := if ?h = c then ?o else ?h\<rparr>, c + 16)"
  proof -
    have h: "?h \<noteq> 0" using nodes_head [OF nodes frees_pos [OF co big]] by auto
    have k: "?m c = k" using co by (simp add: co_rep_def c)
    have a64: "add64 ?n 40 = ?n + 40" using co n(2) by (intro add64_small) (simp add: co_rep_def)
    let ?w = "?m(c + 8 := 1, c := ?n, c + ?n + 16 := ?n, ?o + 8 := 0, ?o := k - ?n - 24, ?o + (k - ?n - 24) + 16 := k - ?n - 24)"
    have w: "?w = ?m1" using n(2) by (auto simp: carve_mem_def fun_eq_iff)
    have "?m1 (c + 16) = ?m (c + 16)" "?m1 (c + 24) = ?m (c + 24)" by (rule lk; simp add: links_def)+
    moreover have "ex_malloc n s = Some (s\<lparr>allocator := ?A\<lparr>mem := ex_replace c ?o (?m (c + 16)) (?m (c + 24)) ?w\<rparr>,
        HEAD := if ?h = c then ?o else ?h\<rparr>, c + 16)"
      using found h k a64 n(2) by (simp add: ex_malloc_def Let_def add_ac)
    ultimately show ?thesis unfolding w by simp
  qed
  then show ?thesis using step by blast
qed

lemma ex_malloc_whole:
  assumes rep: "ex_rep s (xs @ (k, False) # ys)" and n: "align_up n \<le> k" "k < align_up n + 40"
    and found: "ex_search (mem (allocator s)) (HEAD s) (align_up n) (HEAD s) = Some (c, True)" and c: "c = start_ptr (allocator s) + extent 8 xs"
  shows "\<exists>m h. ex_malloc n s = Some (s\<lparr>allocator := (allocator s)\<lparr>mem := m\<rparr>, HEAD := h\<rparr>, c + 16) \<and>
    ex_rep (s\<lparr>allocator := (allocator s)\<lparr>mem := m\<rparr>, HEAD := h\<rparr>) (xs @ carve (align_up n) k @ ys) \<and>
    quiet (start_ptr (allocator s)) (xs @ carve (align_up n) k @ ys) (mem (allocator s)) m"
proof -
  let ?A = "allocator s" let ?m = "mem ?A" let ?n = "align_up n" let ?h = "HEAD s"
  let ?bs = "xs @ carve ?n k @ ys" let ?a = "start_ptr ?A"
  have co: "co_rep ?A (xs @ (k, False) # ys)" and big: "big (xs @ (k, False) # ys)" and sep: "separated (xs @ (k, False) # ys)"
    and nodes: "nodes ?m ?h (set (frees ?a (xs @ (k, False) # ys)))" using rep by (simp_all add: ex_rep_def)
  let ?F = "set (frees ?a xs) \<union> set (frees (c + 24 + k) ys)"
  note F = frees_middle [OF big, where a = ?a, folded c]
  let ?m1 = "carve_mem ?m c ?n k"
  have m1_eq: "?m1 = ?m(c + 8 := 1)" using n(2) by (simp add: carve_mem_def)
  have big': "big ?bs" using big n by (simp add: carve_def)
  have F': "set (frees ?a ?bs) = ?F" using n(2) by (simp add: carve_def c [symmetric] add_ac)
  have m1: "?m1 x = ?m x" if "x \<notin> tags 8 ?a ?bs" for x using carve_mem_only [OF that, of ?m] by (simp add: c)
  have "c + 8 \<notin> links (insert c ?F)" using links_tags [OF big, of "c + 8" ?a] c F(1) by (auto simp: add_ac)
  then have nodes1: "nodes ?m1 ?h (insert c ?F)" by (intro nodes_frame [OF nodes [unfolded F(1)]]) (auto simp: m1_eq)
  obtain m2 h2 where u: "ex_unlink c ?h ?m1 = (m2, h2)" by fastforce
  have sp: "spaced (insert c ?F)" "0 \<notin> insert c ?F" using frees_spaced [OF big, of ?a] frees_pos [OF co big] by (simp_all only: F(1) not_False_eq_True)
  have sub: "insert c ?F - {c} = ?F" using F(2) by auto
  note nodes2 = nodes_unlink [OF nodes1 insertI1 sp u, unfolded sub]
  have co1: "co_rep (?A\<lparr>mem := ?m1\<rparr>) ?bs" using co_rep_carve [OF co, of n] n(1) by (simp add: c)
  note step = ex_rep_step [OF co1 separated_carve [OF sep] big' F' nodes2 m1]
  have "ex_malloc n s = Some (s\<lparr>allocator := ?A\<lparr>mem := m2\<rparr>, HEAD := h2\<rparr>, c + 16)"
  proof -
    have h: "?h \<noteq> 0" using nodes_head [OF nodes frees_pos [OF co big]] by auto
    have k: "?m c = k" using co by (simp add: co_rep_def c)
    have a64: "add64 ?n 40 = ?n + 40" using co n(1) by (intro add64_small) (simp add: co_rep_def)
    show ?thesis using found h k a64 n(2) u by (simp add: ex_malloc_def Let_def m1_eq)
  qed
  then show ?thesis using step by blast
qed

lemma ex_malloc_append:
  assumes rep: "ex_rep s bs" and n: "16 \<le> align_up n" and room: "extent 8 bs + align_up n + 24 \<le> region_size (allocator s)"
    and search: "HEAD s = 0 \<or> (\<exists>c. ex_search (mem (allocator s)) (HEAD s) (align_up n) (HEAD s) = Some (c, False))"
  shows "ex_malloc n s = Some (s\<lparr>allocator := append_block (align_up n) (allocator s)\<rparr>, start_ptr (allocator s) + extent 8 bs + 16)"
    "ex_rep (s\<lparr>allocator := append_block (align_up n) (allocator s)\<rparr>) (bs @ [(align_up n, True)])"
    "quiet (start_ptr (allocator s)) (bs @ [(align_up n, True)]) (mem (allocator s)) (mem (append_block (align_up n) (allocator s)))"
proof -
  let ?A = "allocator s" let ?n = "align_up n" let ?bs = "bs @ [(?n, True)]" let ?B = "append_block ?n ?A" let ?a = "start_ptr ?A"
  have co: "co_rep ?A bs" and big: "big ?bs" and sep: "separated ?bs" and nodes: "nodes (mem ?A) (HEAD s) (set (frees ?a bs))"
    using rep n by (simp_all add: ex_rep_def separated_def successively_append_iff)
  have F: "set (frees ?a ?bs) = set (frees ?a bs)" by simp
  note only = append_block_only [OF co]
  have "nodes (mem ?B) (HEAD s) (set (frees ?a bs))"
    by (rule nodes_frame [OF nodes], rule only) (use links_tags [OF big, of _ ?a] F in auto)
  then show "ex_rep (s\<lparr>allocator := ?B\<rparr>) ?bs" using co_rep_append [OF co room align_up_mod8] sep big F by (simp add: ex_rep_def)
  show "quiet ?a ?bs (mem ?A) (mem ?B)" using only by (simp add: quiet_def)
  have last: "last_ptr ?A = ?a + extent 8 bs" using co by (simp add: co_rep_def)
  have "?a + extent 8 bs + ?n + 24 < 2 ^ 64" using co room by (simp add: co_rep_def)
  then have "add64 (last_ptr ?A) (24 + ?n) = last_ptr ?A + (24 + ?n)" "add64 (last_ptr ?A + 16) ?n = last_ptr ?A + 16 + ?n"
    "add64 (last_ptr ?A) (?n + 24) = last_ptr ?A + 24 + ?n" by (simp_all add: add64_small last)
  moreover have "(mem ?A)(last_ptr ?A + 8 := 1, last_ptr ?A := ?n, last_ptr ?A + 16 + ?n := ?n) =
      (mem ?A)(last_ptr ?A := ?n, last_ptr ?A + 8 := 1, last_ptr ?A + 16 + ?n := ?n)" by (auto simp: fun_eq_iff)
  ultimately show "ex_malloc n s = Some (s\<lparr>allocator := ?B\<rparr>, ?a + extent 8 bs + 16)"
    using search room last by (auto simp: ex_malloc_def append_block_def Let_def)
qed

text \<open>The search of \<open>alloc_malloc\<close>: it ends, and finds a free block if there is one that is large enough.\<close>

lemma ex_search_blocks:
  assumes rep: "ex_rep s bs" and h: "HEAD s \<noteq> 0"
  shows "(\<exists>xs k ys. bs = xs @ (k, False) # ys \<and> n \<le> k \<and>
      ex_search (mem (allocator s)) (HEAD s) n (HEAD s) = Some (start_ptr (allocator s) + extent 8 xs, True)) \<or>
    ex_search (mem (allocator s)) (HEAD s) n (HEAD s) = Some (HEAD s, False)"
proof -
  let ?a = "start_ptr (allocator s)" let ?m = "mem (allocator s)"
  have co: "co_rep (allocator s) bs" and big: "big bs" and nodes: "nodes ?m (HEAD s) (set (frees ?a bs))"
    using rep by (simp_all add: ex_rep_def)
  have "set (frees ?a bs) \<noteq> {}" using nodes_head [OF nodes frees_pos [OF co big]] h by simp
  from nodes_search [OF nodes this, of n] show ?thesis
  proof
    assume "\<exists>c\<in>set (frees ?a bs). n \<le> ?m c \<and> ex_search ?m (HEAD s) n (HEAD s) = Some (c, True)"
    then obtain c where c: "c \<in> set (frees ?a bs)" "n \<le> ?m c" "ex_search ?m (HEAD s) n (HEAD s) = Some (c, True)" by blast
    obtain xs k ys where bs: "bs = xs @ (k, False) # ys" "c = ?a + extent 8 xs" by (rule frees_split [OF c(1)])
    have "?m c = k" using co by (simp add: bs co_rep_def)
    then show ?thesis using bs c(2,3) by blast
  qed simp
qed

section \<open>Release\<close>

lemma spaced_mono: "spaced A \<Longrightarrow> B \<subseteq> A \<Longrightarrow> spaced B"
  by (auto simp: spaced_def)

lemma links_mono: "A \<subseteq> B \<Longrightarrow> links A \<subseteq> links B"
  by (auto simp: links_def)

lemma ex_forward_block:
  assumes rep: "ex_rep s (xs @ (n, True) # ys)" and nx: "absorb_next n ys = (n1, ys1)"
  defines "a \<equiv> start_ptr (allocator s)" and "c \<equiv> start_ptr (allocator s) + extent 8 xs"
  defines "F \<equiv> set (frees a xs) \<union> set (frees (c + 24 + n1) ys1)"
  obtains m h where "ex_forward (last_ptr (allocator s)) (c + 16) n (HEAD s) (mem (allocator s)) = (m, h, n1)"
    "nodes m h F" "F \<subseteq> set (frees a (xs @ (n, True) # ys))" "\<forall>x. x \<notin> links F \<longrightarrow> m x = mem (allocator s) x"
proof -
  let ?A = "allocator s" let ?m = "mem ?A" let ?bs = "xs @ (n, True) # ys" let ?F0 = "set (frees a ?bs)" let ?nx = "c + 24 + n"
  have co: "co_rep ?A ?bs" and big: "big ?bs" and nodes: "nodes ?m (HEAD s) ?F0" using rep by (simp_all add: ex_rep_def a_def)
  have F0: "?F0 = set (frees a xs) \<union> set (frees ?nx ys)" by (simp add: a_def c_def)
  have last: "last_ptr ?A = ?nx + extent 8 ys" and l: "layout 8 ?m ?nx ys" and bound: "?nx + extent 8 ys < 2 ^ 63"
    using co by (auto simp: co_rep_def c_def add_ac)
  show ?thesis
  proof (cases "\<exists>k. ys = (k, False) # tl ys")
    case True
    then obtain k where ys: "ys = (k, False) # ys1" "n1 = n + (k + 24)" using nx by (metis absorb_next.simps(1) prod.inject)
    obtain m h where u: "ex_unlink ?nx (HEAD s) ?m = (m, h)" by fastforce
    have in_F: "?nx \<in> ?F0" unfolding F0 by (simp add: ys(1))
    have "?nx \<notin> F"
      using frees_bounds [of ?nx a xs] frees_bounds [of ?nx "c + 24 + n1" ys1] big by (auto simp: F_def ys a_def c_def)
    then have F: "?F0 - {?nx} = F" unfolding F0 F_def by (auto simp: ys add_ac)
    note un = nodes_unlink [OF nodes in_F frees_spaced [OF big] frees_pos [OF co big, folded a_def] u, unfolded F]
    have "?nx \<in> tags 8 a ?bs" by (simp add: ys a_def c_def add_ac)
    then have "?nx \<notin> links F" using links_tags [OF big, of ?nx a] links_mono [of F ?F0] F by blast
    then have "m ?nx = k" using un(2) l by (simp add: ys)
    then have "ex_forward (last_ptr ?A) (c + 16) n (HEAD s) ?m = (m, h, n1)"
      using u l last bound by (simp add: ex_forward_def Let_def ys add64_small add_ac)
    then show ?thesis using that un F by blast
  next
    case False
    then have n1: "n1 = n" "ys1 = ys" using nx by (cases "(n, ys)" rule: absorb_next.cases; auto)+
    have "?m (?nx + 8) \<noteq> 0" if "?nx < last_ptr ?A"
    proof (cases ys)
      case (Cons b ys')
      then show ?thesis using False l by (cases b) auto
    qed (use that last in simp)
    then have "ex_forward (last_ptr ?A) (c + 16) n (HEAD s) ?m = (?m, HEAD s, n1)"
      by (auto simp: ex_forward_def Let_def n1 add_ac)
    then show ?thesis using that nodes F0 by (simp add: F_def n1)
  qed
qed

lemma ex_backward_block:
  assumes co: "co_rep (A\<lparr>mem := m\<rparr>) (xs @ (n, True) # ys)" and big: "big xs" and pv: "absorb_prev xs n1 = (xs1, n2)"
  defines "a \<equiv> start_ptr A" and "c \<equiv> start_ptr A + extent 8 xs" and "c1 \<equiv> start_ptr A + extent 8 xs1"
  assumes nodes: "nodes m h (set (frees a xs) \<union> G)" and G: "\<And>d. d \<in> G \<Longrightarrow> c \<le> d" and sp: "spaced (set (frees a xs) \<union> G)"
    and bound: "n1 + c + 16 < 2 ^ 63"
  obtains m' h' where "ex_backward a (c + 16) n1 h m = (m', h', c1, n2)" "nodes m' h' (set (frees a xs1) \<union> G)"
    "\<forall>x. x \<notin> links (set (frees a xs1) \<union> G) \<longrightarrow> m' x = m x" "set (frees a xs) \<union> G \<subseteq> insert c1 (set (frees a xs1) \<union> G)"
proof (cases xs rule: rev_cases)
  case Nil
  then have "ex_backward a (c + 16) n1 h m = (m, h, c1, n2)" "xs1 = xs"
    using pv by (simp_all add: ex_backward_def absorb_prev_def a_def c_def c1_def)
  then show ?thesis using that nodes by auto
next
  case (snoc zs b)
  obtain k al where b: "b = (k, al)" by (cases b)
  let ?h = "a + extent 8 zs"
  have m: "m ?h = k" "m (?h + 8) = (if al then 1 else 0)" "m (?h + 16 + k) = k" and a: "0 < a"
    using co by (simp_all add: snoc b co_rep_def a_def)
  have e: "c = ?h + 24 + k" by (simp add: snoc b c_def a_def)
  then have "c - 8 = ?h + 16 + k" and ph: "c - (24 + k) = ?h" and gt: "a < c" by simp_all
  then have ps: "m (c - 8) = k" using m(3) by (simp only:)
  have run: "ex_backward a (c + 16) n1 h m = (if m (?h + 8) = 0 then
      let (m', h') = ex_unlink ?h h m in (m', h', ?h, add64 n1 (add64 k 24)) else (m, h, c, n1))"
    using gt by (simp add: ex_backward_def Let_def ps ph)
  show ?thesis
  proof (cases al)
    case True
    then have "xs1 = xs" "n2 = n1" using pv by (simp_all add: absorb_prev_def snoc b)
    then show ?thesis using that [of m h] run m(2) nodes True by (auto simp: c_def c1_def a_def)
  next
    case False
    then have x1: "xs1 = zs" "n2 = n1 + (k + 24)" "c1 = ?h" using pv by (simp_all add: absorb_prev_def snoc b c1_def a_def)
    obtain m' h' where u: "ex_unlink ?h h m = (m', h')" by fastforce
    have fr: "set (frees a xs) = insert ?h (set (frees a zs))" using False by (simp add: snoc b)
    have "?h \<notin> set (frees a zs) \<union> G" using frees_bounds [of ?h a zs] big G [of ?h] e by (auto simp: snoc b)
    then have F: "set (frees a xs) \<union> G - {?h} = set (frees a zs) \<union> G" using fr by auto
    have "0 \<notin> set (frees a xs) \<union> G" using frees_bounds [of 0 a xs] big a G [of 0] gt by auto
    note un = nodes_unlink [OF nodes _ sp this u, unfolded F]
    have "add64 n1 (add64 k 24) = n2" using bound e by (simp add: add64_small x1)
    then have "ex_backward a (c + 16) n1 h m = (m', h', c1, n2)" using run m(2) False u x1(3) by simp
    then show ?thesis using that [of m' h'] un fr x1 by auto
  qed
qed

lemma ex_free_refines:
  assumes rep: "ex_rep s (xs @ (n, True) # ys)"
  shows "\<exists>m h. ex_free (start_ptr (allocator s) + extent 8 xs + 16) s = (s\<lparr>allocator := (allocator s)\<lparr>mem := m\<rparr>, HEAD := h\<rparr>, 0) \<and>
    ex_rep (s\<lparr>allocator := (allocator s)\<lparr>mem := m\<rparr>, HEAD := h\<rparr>) (release xs n ys) \<and>
    quiet (start_ptr (allocator s)) (release xs n ys) (mem (allocator s)) m"
proof -
  let ?A = "allocator s" let ?a = "start_ptr ?A" let ?m = "mem ?A" let ?c = "?a + extent 8 xs" let ?bs = "xs @ (n, True) # ys"
  have co: "co_rep ?A ?bs" and big: "big ?bs" and sep: "separated ?bs" using rep by (simp_all add: ex_rep_def)
  obtain n1 ys1 where nx: "absorb_next n ys = (n1, ys1)" by fastforce
  obtain xs1 n2 where pv: "absorb_prev xs n1 = (xs1, n2)" by fastforce
  let ?G = "set (frees (?c + 24 + n1) ys1)" let ?h = "?a + extent 8 xs1" let ?F0 = "set (frees ?a ?bs)"
  let ?F1 = "set (frees ?a xs) \<union> ?G" let ?F2 = "set (frees ?a xs1) \<union> ?G" let ?bs' = "release xs n ys"
  obtain m1 h1 where f: "ex_forward (last_ptr ?A) (?c + 16) n (HEAD s) ?m = (m1, h1, n1)" "nodes m1 h1 ?F1" "?F1 \<subseteq> ?F0"
    "\<forall>x. x \<notin> links ?F1 \<longrightarrow> m1 x = ?m x" by (rule ex_forward_block [OF rep nx])
  have co1: "co_rep (?A\<lparr>mem := m1\<rparr>) ?bs"
    by (rule co_rep_links [OF co big]) (use f(3,4) links_mono in blast)
  have l: "layout 8 ?m (?c + 16 + n + 8) ys" and last: "last_ptr ?A = ?c + 16 + n + 8 + extent 8 ys"
    and bound: "?c + 16 + n + 8 + extent 8 ys < 2 ^ 63" using co by (auto simp: co_rep_def add_ac)
  have n1: "n1 + extent 8 ys1 = n + extent 8 ys" "suffix ys1 ys" using co_forward_block [OF l last _ nx] bound last by auto
  have bigs: "big xs" "big ys1" using big n1(2) by (auto simp: suffix_def)
  have G: "?c \<le> d" if "d \<in> ?G" for d using frees_bounds [OF that] bigs by simp
  obtain m2 h2 where b: "ex_backward ?a (?c + 16) n1 h1 m1 = (m2, h2, ?h, n2)" "nodes m2 h2 ?F2"
    "\<forall>x. x \<notin> links ?F2 \<longrightarrow> m2 x = m1 x" "?F1 \<subseteq> insert ?h ?F2"
    by (rule ex_backward_block [OF co1 bigs(1) pv f(2) G spaced_mono [OF frees_spaced [OF big] f(3)]]) (use n1(1) bound in auto)
  have rel: "?bs' = xs1 @ (n2, False) # ys1" using nx pv by (simp add: release_def)
  have ext: "extent 8 xs1 + n2 = extent 8 xs + n1" by (rule live_absorb_prev(2) [OF pv])
  obtain zs where zs: "xs = xs1 @ zs" using pv by (auto simp: absorb_prev_def split: if_splits intro: append_butlast_last_id [symmetric])
  have "n \<le> n1" using nx by (cases "(n, ys)" rule: absorb_next.cases) auto
  moreover have "n1 \<le> n2" using pv by (auto simp: absorb_prev_def split: if_splits)
  ultimately have big': "big ?bs'" using big bigs zs unfolding rel by auto
  have at: "?h + 24 + n2 = ?c + 24 + n1" using ext by simp
  note mid = frees_middle [OF big' [unfolded rel], where a = ?a, unfolded at]
  have F': "set (frees ?a ?bs') = insert ?h ?F2" using mid(1) by (simp only: rel)
  let ?m3 = "m2(?h := n2, ?h + 8 := 0, ?h + 16 + n2 := n2)" let ?m4 = "ex_push ?h h2 ?m3"
  have "?F2 \<subseteq> ?F0" using f(3) by (auto simp: zs)
  then have "co_rep (?A\<lparr>mem := m1, mem := m2\<rparr>) ?bs"
    by (intro co_rep_links [OF co1 big]) (use b(3) links_mono [of ?F2 ?F0] in auto)
  then have co2: "co_rep (?A\<lparr>mem := m2\<rparr>) ?bs" by simp
  have co3: "co_rep (?A\<lparr>mem := ?m3\<rparr>) ?bs'" using co_rep_release(1) [OF co2 nx pv] by simp
  have m3: "?m3 x = m2 x" if "x \<notin> tags 8 ?a ?bs'" for x using co_rep_release(2) [OF co2 nx pv, of x] that by simp
  have "x \<notin> tags 8 ?a ?bs'" if "x \<in> links ?F2" for x
    using links_tags [OF big', of x ?a] F' links_mono [of ?F2 "insert ?h ?F2"] that by auto
  then have "nodes ?m3 h2 ?F2" using nodes_frame [OF b(2), of ?m3] m3 by blast
  moreover have "spaced (insert ?h ?F2)" "0 \<notin> insert ?h ?F2"
    using frees_spaced [OF big', of ?a] frees_bounds [OF _ big', of 0 ?a] co F' by (auto simp: co_rep_def)
  ultimately have push: "nodes ?m4 ?h (insert ?h ?F2)" "\<And>x. x \<notin> links (insert ?h ?F2) \<Longrightarrow> ?m4 x = ?m3 x"
    using nodes_push mid(2) by blast+
  have m3_m: "?m3 x = ?m x" if x: "x \<notin> tags 8 ?a ?bs'" "x \<notin> links (insert ?h ?F2)" for x
  proof -
    have "x \<notin> links ?F1" "x \<notin> links ?F2" using links_mono [OF b(4)] links_mono [OF subset_insertI, of ?F2 ?h] x(2) by blast+
    then have "m1 x = ?m x" "m2 x = m1 x" using f(4) b(3) by blast+
    then show ?thesis using m3 [OF x(1)] by metis
  qed
  note step = ex_rep_step [OF co3 separated_release [OF sep] big' F' push m3_m]
  have "ex_free (?c + 16) s = (s\<lparr>allocator := ?A\<lparr>mem := ?m4\<rparr>, HEAD := ?h\<rparr>, 0)"
  proof -
    have hd: "?m (?c + 16 - 8) = 1" "?m (?c + 16 - 16) = n" using co by (auto simp: co_rep_def add.commute [of _ 8])
    have "m2(?h + 8 := 0, ?h := n2, ?h + 16 + n2 := n2) = ?m3" by (auto simp: fun_eq_iff)
    then show ?thesis using hd last f(1) b(1) by (simp add: ex_free_def Let_def)
  qed
  then show ?thesis using step by blast
qed

section \<open>The blocks handed out\<close>

definition ex_live :: "ex_state \<Rightarrow> (nat \<times> nat) set \<Rightarrow> bool" where
  "ex_live s B \<longleftrightarrow> (\<exists>bs. ex_rep s bs \<and> B = set (live 8 (start_ptr (allocator s)) bs))"

definition ex_arena :: "ex_state \<Rightarrow> nat \<times> nat" where
  "ex_arena s = arena (allocator s)"

definition ex_store :: "nat \<Rightarrow> nat \<Rightarrow> ex_state \<Rightarrow> ex_state" where
  "ex_store x v s = s\<lparr>allocator := store_word x v (allocator s)\<rparr>"

lemma live_carve_set:
  assumes "n \<le> k"
  defines "j \<equiv> if n + 40 \<le> k then n else k"
  shows "set (live 8 a (xs @ carve n k @ ys)) = insert (a + extent 8 xs + 16, j) (set (live 8 a (xs @ (k, False) # ys)))"
    "(a + extent 8 xs + 16, j) \<notin> set (live 8 a (xs @ (k, False) # ys))" "n \<le> j"
proof -
  have old: "live 8 a (xs @ (k, False) # ys) = live 8 a xs @ live 8 (a + extent 8 xs + k + 24) ys" by (simp add: add_ac)
  show "set (live 8 a (xs @ carve n k @ ys)) = insert (a + extent 8 xs + 16, j) (set (live 8 a (xs @ (k, False) # ys)))"
    unfolding live_carve old by (auto simp: j_def)
  show "(a + extent 8 xs + 16, j) \<notin> set (live 8 a (xs @ (k, False) # ys))"
    unfolding old using live_fresh [of a 8 xs] by auto
  show "n \<le> j" using assms(1) by (simp add: j_def)
qed

lemma ex_malloc_law:
  assumes live: "ex_live s B" and n: "0 < n" "n < 2 ^ 62"
  shows "\<exists>s' p. ex_malloc n s = Some (s', p) \<and> ex_arena s' = ex_arena s \<and>
    (if p = 0 then ex_live s' B else \<exists>k\<ge>n. (p, k) \<notin> B \<and> ex_live s' (insert (p, k) B)) \<and>
    keeps B (mem (allocator s)) (mem (allocator s'))"
proof -
  obtain bs where rep: "ex_rep s bs" and B: "B = set (live 8 (start_ptr (allocator s)) bs)" using live by (auto simp: ex_live_def)
  let ?n = "align_up n" let ?A = "allocator s" let ?a = "start_ptr ?A" let ?srch = "ex_search (mem ?A) (HEAD s) ?n (HEAD s)"
  have nn: "n \<le> ?n" "?n + 24 \<le> 2 ^ 63" using align_up_small [of n] n by simp_all
  have n16: "16 \<le> ?n" using nn(1) n(1) align_up_mod [of n] by (metis dual_order.trans mod_eq_0_iff_dvd dvd_imp_le less_le_trans)
  consider (found) xs k ys where "HEAD s \<noteq> 0" "bs = xs @ (k, False) # ys" "?n \<le> k" "?srch = Some (?a + extent 8 xs, True)"
    | (missing) "HEAD s = 0 \<or> (\<exists>c. ?srch = Some (c, False))"
    using ex_search_blocks [OF rep, of ?n] by metis
  then show ?thesis
  proof cases
    case found
    have "\<exists>m h. ex_malloc n s = Some (s\<lparr>allocator := ?A\<lparr>mem := m\<rparr>, HEAD := h\<rparr>, ?a + extent 8 xs + 16) \<and>
      ex_rep (s\<lparr>allocator := ?A\<lparr>mem := m\<rparr>, HEAD := h\<rparr>) (xs @ carve ?n k @ ys) \<and> quiet ?a (xs @ carve ?n k @ ys) (mem ?A) m"
      using ex_malloc_split [OF rep [unfolded found(2)] n16 _ found(4) refl] ex_malloc_whole [OF rep [unfolded found(2)] found(3) _ found(4) refl]
      by (cases "?n + 40 \<le> k") auto
    then obtain m h where r: "ex_malloc n s = Some (s\<lparr>allocator := ?A\<lparr>mem := m\<rparr>, HEAD := h\<rparr>, ?a + extent 8 xs + 16)"
      "ex_rep (s\<lparr>allocator := ?A\<lparr>mem := m\<rparr>, HEAD := h\<rparr>) (xs @ carve ?n k @ ys)" "quiet ?a (xs @ carve ?n k @ ys) (mem ?A) m" by blast
    note lv = live_carve_set(1,2) [OF found(3), of ?a xs ys, folded found(2), folded B] live_carve_set(3) [OF found(3)]
    define j where "j = (if ?n + 40 \<le> k then ?n else k)"
    note lv = lv [folded j_def]
    have "ex_live (s\<lparr>allocator := ?A\<lparr>mem := m\<rparr>, HEAD := h\<rparr>) (insert (?a + extent 8 xs + 16, j) B)"
      unfolding ex_live_def lv(1) [symmetric] using r(2) by auto
    moreover have "keeps B (mem ?A) m" by (rule keeps_quiet [OF r(3)]) (use r(2) lv(1) in \<open>auto simp: ex_rep_def\<close>)
    moreover have "\<exists>j\<ge>n. (?a + extent 8 xs + 16, j) \<notin> B \<and>
        ex_live (s\<lparr>allocator := ?A\<lparr>mem := m\<rparr>, HEAD := h\<rparr>) (insert (?a + extent 8 xs + 16, j) B)"
      using calculation(1) lv(2,3) nn(1) by (intro exI [of _ j]) simp
    ultimately show ?thesis using r(1) by (simp add: ex_arena_def arena_def)
  next
    case missing
    show ?thesis
    proof (cases "extent 8 bs + ?n + 24 \<le> region_size ?A")
      case True
      note ap = ex_malloc_append [OF rep n16 True missing]
      have lv: "set (live 8 ?a (bs @ [(?n, True)])) = insert (?a + extent 8 bs + 16, ?n) B" by (auto simp: B)
      have "ex_live (s\<lparr>allocator := append_block ?n ?A\<rparr>) (insert (?a + extent 8 bs + 16, ?n) B)"
        unfolding ex_live_def lv [symmetric] using ap(2) by auto
      moreover have "keeps B (mem ?A) (mem (append_block ?n ?A))"
        by (rule keeps_quiet [OF ap(3)]) (use ap(2) lv in \<open>auto simp: ex_rep_def\<close>)
      moreover have "(?a + extent 8 bs + 16, ?n) \<notin> B" using live_fresh(1) [of ?a 8 bs ?n] B by simp
      ultimately show ?thesis using ap(1) nn(1) by (auto simp: ex_arena_def arena_def)
    next
      case False
      have co: "co_rep ?A bs" using rep by (simp add: ex_rep_def)
      have "add64 (last_ptr ?A) (24 + ?n) = last_ptr ?A + (24 + ?n)" by (rule add64_small) (use co nn(2) in \<open>simp add: co_rep_def\<close>)
      then have "ex_malloc n s = Some (s, 0)" using missing False co by (auto simp: ex_malloc_def Let_def co_rep_def)
      then show ?thesis using live by simp
    qed
  qed
qed

lemma ex_free_law:
  assumes live: "ex_live s B" and p: "(p, n) \<in> B"
  shows "\<exists>s'. ex_free p s = (s', 0) \<and> ex_live s' (B - {(p, n)}) \<and> ex_arena s' = ex_arena s \<and>
    keeps (B - {(p, n)}) (mem (allocator s)) (mem (allocator s'))"
proof -
  let ?A = "allocator s" let ?a = "start_ptr ?A"
  obtain bs where rep: "ex_rep s bs" and B: "B = set (live 8 ?a bs)" using live by (auto simp: ex_live_def)
  obtain xs ys where bs: "bs = xs @ (n, True) # ys" "p = ?a + extent 8 xs + 16" using live_split [of p n 8 ?a bs] p B by auto
  obtain m h where r: "ex_free p s = (s\<lparr>allocator := ?A\<lparr>mem := m\<rparr>, HEAD := h\<rparr>, 0)"
    "ex_rep (s\<lparr>allocator := ?A\<lparr>mem := m\<rparr>, HEAD := h\<rparr>) (release xs n ys)" "quiet ?a (release xs n ys) (mem ?A) m"
    using ex_free_refines [of s xs n ys] rep bs by blast
  have lv: "B - {(p, n)} = set (live 8 ?a (release xs n ys))" unfolding B bs by (rule live_release_set)
  have "ex_live (s\<lparr>allocator := ?A\<lparr>mem := m\<rparr>, HEAD := h\<rparr>) (B - {(p, n)})" unfolding ex_live_def lv using r(2) by auto
  moreover have "keeps (B - {(p, n)}) (mem ?A) m" by (rule keeps_quiet [OF r(3)]) (use r(2) lv in \<open>auto simp: ex_rep_def\<close>)
  ultimately show ?thesis using r(1) by (auto simp: ex_arena_def arena_def)
qed

lemma ex_reset_law:
  assumes "ex_live s B"
  shows "\<exists>s'. ex_reset s = (s', 0) \<and> ex_live s' {} \<and> ex_arena s' = ex_arena s"
proof -
  have A: "0 < start_ptr (allocator s)" "start_ptr (allocator s) + region_size (allocator s) < 2 ^ 63"
    using assms by (auto simp: ex_live_def ex_rep_def co_rep_def)
  let ?s = "s\<lparr>allocator := (allocator s)\<lparr>last_ptr := start_ptr (allocator s)\<rparr>, HEAD := 0\<rparr>"
  have "ex_rep ?s []" using A by (simp add: ex_rep_def co_rep_def separated_def nodes_empty)
  then have "ex_live ?s {}" unfolding ex_live_def by (intro exI [of _ "[]"]) simp
  then show ?thesis using A by (simp add: ex_reset_def ex_arena_def arena_def Let_def)
qed

lemma ex_store_law:
  assumes "ex_live s B" "(p, n) \<in> B" "p \<le> x" "x < p + n"
  shows "ex_live (ex_store x v s) B"
proof -
  let ?A = "allocator s" let ?a = "start_ptr ?A"
  obtain bs where rep: "ex_rep s bs" and B: "B = set (live 8 ?a bs)" using assms(1) by (auto simp: ex_live_def)
  have big: "big bs" using rep by (simp add: ex_rep_def)
  have "nodes ((mem ?A)(x := v)) (HEAD s) (set (frees ?a bs))"
    by (rule nodes_frame [of "mem ?A"]) (use rep links_live [OF big, of p n ?a x] assms B in \<open>auto simp: ex_rep_def\<close>)
  moreover have "layout 8 ((mem ?A)(x := v)) ?a bs" by (rule layout_store) (use rep assms B in \<open>auto simp: ex_rep_def co_rep_def\<close>)
  ultimately have "ex_rep (ex_store x v s) bs" using rep by (simp add: ex_rep_def co_rep_def ex_store_def store_word_def)
  then show ?thesis unfolding ex_live_def by (intro exI [of _ bs]) (simp add: B ex_store_def store_word_def)
qed

interpretation ex: heap_allocator ex_live ex_arena "\<lambda>s. mem (allocator s)" ex_store "\<lambda>n s. the (ex_malloc n s)" ex_free ex_reset
proof (unfold_locales, goal_cases)
  case (1 s B p n)
  then show ?case using live_bounds [of p n 8] by (fastforce simp: ex_live_def ex_rep_def co_rep_def ex_arena_def arena_def)
next
  case (2 s B p n q k)
  then show ?case using live_disjoint [of p n 8 "start_ptr (allocator s)" _ q k] unfolding ex_live_def by metis
next
  case (3 s B n s' p)
  then show ?case using ex_malloc_law [of s B n] by force
next
  case (4 s B n q k x)
  then show ?case using ex_malloc_law [of s B n] keepsD by fastforce
next
  case (5 s B p n)
  then show ?case using ex_free_law by blast
next
  case (6 s B p n q k x)
  then have "(q, k) \<in> B - {(p, n)}" by auto
  then show ?case using ex_free_law [OF 6(1,2)] keepsD 6 by fastforce
next
  case (7 s B p n x v)
  then show ?case using ex_store_law by (auto simp: ex_store_def store_word_def ex_arena_def arena_def)
next
  case (8 s B)
  then show ?case by (rule ex_reset_law)
qed

end
