(* ===== verification/Improved_Allocator.thy ===== *)
theory Improved_Allocator
  imports Simple_Allocators
begin

text \<open>
  The allocator of \<open>1_mem_allocator/implicit_free_list-improved/allocator.c\<close>, which keeps the sizes and flags of its blocks
  in a region of their own. An entry there has three words (size, flag, address of the payload); the data
  region holds the payloads, each after a header of two words, the second of which is the address of the entry.
\<close>

record meta_allocator =
  meta_start_ptr :: nat
  data_start_ptr :: nat
  meta_last_ptr :: nat
  meta_size :: nat
  meta_mem :: "nat \<Rightarrow> nat"

text \<open>The arguments are the results of the two calls of \<open>mmap\<close>.\<close>

definition im_init :: "nat \<Rightarrow> nat \<Rightarrow> nat \<Rightarrow> meta_allocator \<Rightarrow> meta_allocator \<times> nat" where
  "im_init mmap_meta mmap_data n s =
     (if meta_start_ptr s \<noteq> 0 then (s, 1)
      else let s = s\<lparr>meta_start_ptr := mmap_meta\<rparr> in
        if meta_start_ptr s = MAP_FAILED then (s, 1)
        else let s = s\<lparr>data_start_ptr := mmap_data\<rparr> in
          if data_start_ptr s = MAP_FAILED then (s\<lparr>meta_start_ptr := 0\<rparr>, 1)
          else (s\<lparr>meta_last_ptr := meta_start_ptr s, meta_size := n\<rparr>, 0))"

definition im_deinit :: "meta_allocator \<Rightarrow> meta_allocator \<times> nat" where
  "im_deinit s =
     (if meta_start_ptr s = 0 then (s, 1)
      else (s\<lparr>meta_start_ptr := 0, data_start_ptr := 0, meta_last_ptr := 0, meta_size := 0\<rparr>, 0))"

function im_search :: "(nat \<Rightarrow> nat) \<Rightarrow> nat \<Rightarrow> nat \<Rightarrow> nat \<Rightarrow> nat option" where
  "im_search m n lim current =
     (if current < lim then
        if m (current + 8) = 0 \<and> n \<le> m current then Some current else im_search m n lim (current + 24)
      else None)"
  by auto
termination
  by (relation "measure (\<lambda>(m, n, lim, current). lim - current)") auto

definition im_malloc :: "nat \<Rightarrow> meta_allocator \<Rightarrow> meta_allocator \<times> nat" where
  "im_malloc n s =
     (if meta_start_ptr s = 0 then (s, 0)
      else
        let n = align_up n; m = meta_mem s; l = meta_last_ptr s in
        case im_search m n l (meta_start_ptr s) of
          Some current \<Rightarrow> (s\<lparr>meta_mem := m(current + 8 := 1)\<rparr>, m (current + 16))
        | None \<Rightarrow>
            let block_start = (if meta_start_ptr s = l then data_start_ptr s else let p = l - 24 in add64 (m (p + 16)) (m p)) in
            if add64 (block_start + 16) n > data_start_ptr s + meta_size s then (s, 0)
            else if l + 24 > meta_start_ptr s + meta_size s then (s, 0)
            else
              let payload = block_start + 16 in
              (s\<lparr>meta_mem := m(l := n, l + 8 := 1, l + 16 := payload, payload - 8 := l), meta_last_ptr := l + 24\<rparr>, payload))"

definition im_free :: "nat \<Rightarrow> meta_allocator \<Rightarrow> meta_allocator \<times> nat" where
  "im_free ptr s =
     (let m = meta_mem s in
      if meta_start_ptr s = 0 then (s, 1)
      else if ptr < data_start_ptr s + 16 \<or> ptr \<ge> data_start_ptr s + meta_size s then (s, 1)
      else
        let header = m (ptr - 8) in
        if header < meta_start_ptr s \<or> header \<ge> meta_last_ptr s \<or> (header - meta_start_ptr s) mod 24 \<noteq> 0 then (s, 1)
        else if m (header + 16) \<noteq> ptr then (s, 1)
        else if m (header + 8) = 0 then (s, 1)
        else (s\<lparr>meta_mem := m(header + 8 := 0)\<rparr>, 0))"

definition im_reset :: "meta_allocator \<Rightarrow> meta_allocator \<times> nat" where
  "im_reset s = (if meta_start_ptr s = 0 then (s, 1) else (s\<lparr>meta_last_ptr := meta_start_ptr s\<rparr>, 0))"

section \<open>Entries\<close>

text \<open>The entries \<open>bs\<close> from the address \<open>e\<close>, with their payloads from the address \<open>d\<close>.\<close>

fun entries :: "(nat \<Rightarrow> nat) \<Rightarrow> nat \<Rightarrow> nat \<Rightarrow> block list \<Rightarrow> bool" where
  "entries m e d [] = True"
| "entries m e d ((n, al) # bs) \<longleftrightarrow> m e = n \<and> m (e + 8) = (if al then 1 else 0) \<and> m (e + 16) = d + 16 \<and> m (d + 8) = e \<and>
     entries m (e + 24) (d + 16 + n) bs"

definition im_rep :: "meta_allocator \<Rightarrow> block list \<Rightarrow> bool" where
  "im_rep s bs \<longleftrightarrow> 0 < meta_start_ptr s \<and> 0 < data_start_ptr s \<and> meta_last_ptr s = meta_start_ptr s + 24 * length bs \<and>
     24 * length bs \<le> meta_size s \<and> extent 0 bs \<le> meta_size s \<and>
     meta_start_ptr s + meta_size s < 2 ^ 63 \<and> data_start_ptr s + meta_size s < 2 ^ 63 \<and>
     (meta_start_ptr s + meta_size s \<le> data_start_ptr s \<or> data_start_ptr s + meta_size s \<le> meta_start_ptr s) \<and>
     entries (meta_mem s) (meta_start_ptr s) (data_start_ptr s) bs"

lemma entries_append [simp]:
  "entries m e d (xs @ ys) \<longleftrightarrow> entries m e d xs \<and> entries m (e + 24 * length xs) (d + extent 0 xs) ys"
  by (induction m e d xs rule: entries.induct) (auto simp: add_ac)

text \<open>Only the words of the entries and the headers matter.\<close>

lemma entries_frame:
  assumes "entries m e d bs" "\<And>x. e \<le> x \<Longrightarrow> x < e + 24 * length bs \<Longrightarrow> m' x = m x" "\<And>x. x \<in> tags 0 d bs \<Longrightarrow> m' x = m x"
  shows "entries m' e d bs"
  using assms
proof (induction m e d bs rule: entries.induct)
  case (2 m e d n al bs)
  have "m' e = m e" "m' (e + 8) = m (e + 8)" "m' (e + 16) = m (e + 16)" by (rule "2.prems"(2); simp)+
  moreover have "m' (d + 8) = m (d + 8)" by (rule "2.prems"(3)) simp
  ultimately show ?case using "2.IH" "2.prems" by auto
qed simp

lemma im_search_entries:
  assumes "entries m e d bs" "lim = e + 24 * length bs"
  shows "im_search m n lim e =
    (case List.find (fits n) bs of None \<Rightarrow> None | Some _ \<Rightarrow> Some (e + 24 * length (takeWhile (\<lambda>b. \<not> fits n b) bs)))"
  using assms
proof (induction m e d bs rule: entries.induct)
  case (1 m e d)
  then show ?case by (simp add: im_search.simps)
next
  case (2 m e d k al bs)
  have "im_search m n lim e = (if fits n (k, al) then Some e else im_search m n lim (e + 24))"
    using "2.prems" by (subst im_search.simps) (auto simp: fits_def)
  then show ?case using "2.IH" "2.prems" by (auto simp: add_ac split: option.splits)
qed

lemma im_flag:
  assumes rep: "im_rep s (xs @ (k, al) # ys)"
  shows "im_rep (s\<lparr>meta_mem := (meta_mem s)(meta_start_ptr s + 24 * length xs + 8 := (if al' then 1 else 0))\<rparr>) (xs @ (k, al') # ys)"
proof -
  let ?e = "meta_start_ptr s" let ?d = "data_start_ptr s" let ?c = "?e + 24 * length xs" let ?dx = "?d + extent 0 xs"
  let ?m = "(meta_mem s)(?c + 8 := (if al' then 1 else 0))"
  have l: "entries (meta_mem s) ?e ?d xs" "entries (meta_mem s) (?c + 24) (?dx + 16 + k) ys"
    and c: "meta_mem s ?c = k" "meta_mem s (?c + 16) = ?dx + 16" "meta_mem s (?dx + 8) = ?c" using rep by (auto simp: im_rep_def add_ac)
  have "?c + 8 \<notin> tags 0 ?d (xs @ (k, al) # ys)"
    using tags_bounds [of "?c + 8" 0 ?d "xs @ (k, al) # ys"] rep by (auto simp: im_rep_def)
  then have t: "?c + 8 \<notin> tags 0 ?d xs" "?c + 8 \<notin> tags 0 (?dx + 16 + k) ys" "?dx + 8 \<noteq> ?c + 8" by (auto simp: add_ac)
  have "entries ?m ?e ?d xs" by (rule entries_frame [OF l(1)]) (use t in auto)
  moreover have "entries ?m (?c + 24) (?dx + 16 + k) ys" by (rule entries_frame [OF l(2)]) (use t in auto)
  moreover have "?m (?dx + 8) = ?c" using c(3) t(3) by simp
  ultimately show ?thesis using rep c by (simp add: im_rep_def add_ac)
qed

definition im_live :: "meta_allocator \<Rightarrow> (nat \<times> nat) set \<Rightarrow> bool" where
  "im_live s B \<longleftrightarrow> (\<exists>bs. im_rep s bs \<and> B = set (live 0 (data_start_ptr s) bs))"

definition im_region :: "meta_allocator \<Rightarrow> nat \<times> nat" where
  "im_region s = (data_start_ptr s, data_start_ptr s + meta_size s)"

definition im_store :: "nat \<Rightarrow> nat \<Rightarrow> meta_allocator \<Rightarrow> meta_allocator" where
  "im_store x v s = s\<lparr>meta_mem := (meta_mem s)(x := v)\<rparr>"

text \<open>The words of the meta region lie outside the blocks.\<close>

lemma live_not_meta:
  assumes "im_rep s bs" "(q, k) \<in> set (live 0 (data_start_ptr s) bs)" "q \<le> x" "x < q + k"
  shows "x < meta_start_ptr s \<or> meta_start_ptr s + meta_size s \<le> x" "x \<notin> tags 0 (data_start_ptr s) bs"
  using live_bounds [OF assms(2)] live_tags [OF assms(2-4)] assms by (auto simp: im_rep_def)

lemma im_malloc_new:
  assumes rep: "im_rep s bs" and srch: "im_search (meta_mem s) (align_up n) (meta_last_ptr s) (meta_start_ptr s) = None"
    and n: "align_up n + 24 \<le> 2 ^ 63"
  defines "d \<equiv> data_start_ptr s + extent 0 bs" and "l \<equiv> meta_last_ptr s"
  shows "im_malloc n s =
    (if extent 0 bs + 16 + align_up n > meta_size s \<or> 24 * length bs + 24 > meta_size s then (s, 0)
     else (s\<lparr>meta_mem := (meta_mem s)(l := align_up n, l + 8 := 1, l + 16 := d + 16, d + 8 := l), meta_last_ptr := l + 24\<rparr>, d + 16))"
proof -
  let ?m = "meta_mem s" let ?n = "align_up n"
  have l: "l = meta_start_ptr s + 24 * length bs" and pos: "0 < meta_start_ptr s" using rep by (simp_all add: im_rep_def l_def)
  have start: "(if meta_start_ptr s = l then data_start_ptr s else let p = l - 24 in add64 (?m (p + 16)) (?m p)) = d"
  proof (cases bs rule: rev_cases)
    case Nil
    then show ?thesis using l by (simp add: d_def)
  next
    case (snoc zs b)
    obtain k al where b: "b = (k, al)" by (cases b)
    have e: "l - 24 = meta_start_ptr s + 24 * length zs" using l by (simp add: snoc)
    have "?m (l - 24) = k" "?m (l - 24 + 16) = data_start_ptr s + extent 0 zs + 16"
      using rep by (simp_all add: im_rep_def snoc b e)
    moreover have "data_start_ptr s + extent 0 zs + 16 + k < 2 ^ 64" using rep by (simp add: im_rep_def snoc b)
    ultimately show ?thesis using l by (simp add: snoc b d_def add64_small)
  qed
  have "add64 (d + 16) ?n = d + 16 + ?n" by (rule add64_small) (use rep n in \<open>simp add: im_rep_def d_def\<close>)
  then have c: "(data_start_ptr s + meta_size s < add64 (d + 16) ?n) = (extent 0 bs + 16 + ?n > meta_size s)"
    "(meta_start_ptr s + meta_size s < l + 24) = (24 * length bs + 24 > meta_size s)"
    by (auto simp: d_def l)
  have "im_malloc n s = (let block_start = d in
      if data_start_ptr s + meta_size s < add64 (block_start + 16) ?n then (s, 0)
      else if meta_start_ptr s + meta_size s < l + 24 then (s, 0)
      else let payload = block_start + 16 in
        (s\<lparr>meta_mem := ?m(l := ?n, l + 8 := 1, l + 16 := payload, payload - 8 := l), meta_last_ptr := l + 24\<rparr>, payload))"
    unfolding start [symmetric] im_malloc_def Let_def l_def using pos srch by simp
  then show ?thesis by (simp add: c Let_def add.commute [of 8])
qed

lemma im_malloc_law:
  assumes live: "im_live s B" and n: "0 < n" "n < 2 ^ 62" and st: "im_malloc n s = (s', p)"
  shows "im_region s' = im_region s \<and> (if p = 0 then im_live s' B else \<exists>k\<ge>n. (p, k) \<notin> B \<and> im_live s' (insert (p, k) B)) \<and>
    keeps B (meta_mem s) (meta_mem s')"
proof -
  let ?e = "meta_start_ptr s" let ?d = "data_start_ptr s" let ?n = "align_up n" let ?m = "meta_mem s" let ?l = "meta_last_ptr s"
  obtain bs where rep: "im_rep s bs" and B: "B = set (live 0 ?d bs)" using live by (auto simp: im_live_def)
  have nn: "n \<le> ?n" "?n + 24 \<le> 2 ^ 63" using align_up_small [of n] n by simp_all
  have l: "entries ?m ?e ?d bs" "?l = ?e + 24 * length bs" and pos: "0 < ?e" using rep by (simp_all add: im_rep_def)
  note srch = im_search_entries [OF l, of ?n]
  show ?thesis
  proof (cases "List.find (fits ?n) bs")
    case None
    let ?c = "?d + extent 0 bs" let ?m' = "?m(?l := ?n, ?l + 8 := 1, ?l + 16 := ?c + 16, ?c + 8 := ?l)"
    note new = im_malloc_new [OF rep _ nn(2)]
    show ?thesis
    proof (cases "extent 0 bs + 16 + ?n > meta_size s \<or> 24 * length bs + 24 > meta_size s")
      case True
      then show ?thesis using new srch None st live by simp
    next
      case False
      then have s': "s' = s\<lparr>meta_mem := ?m', meta_last_ptr := ?l + 24\<rparr>" "p = ?c + 16" using new srch None st by auto
      have outside: "x < ?e \<or> ?e + meta_size s \<le> x" if "?d \<le> x" "x < ?d + meta_size s" for x
        using rep that by (auto simp: im_rep_def)
      have "?m' x = ?m x" if "?e \<le> x" "x < ?e + 24 * length bs" for x
        using that outside [of "?c + 8"] False l(2) by auto
      moreover have "?m' x = ?m x" if "x \<in> tags 0 ?d bs" for x
        using tags_bounds [OF that] outside [of x] False l(2) rep by (auto simp: im_rep_def)
      ultimately have "entries ?m' ?e ?d bs" by (rule entries_frame [OF l(1)])
      moreover have "?m' ?l = ?n" "?m' (?l + 8) = 1" "?m' (?l + 16) = ?c + 16" "?m' (?c + 8) = ?l"
        using outside [of "?c + 8"] False l(2) by auto
      ultimately have "im_rep s' (bs @ [(?n, True)])" using rep False by (simp add: im_rep_def s'(1) del: fun_upd_apply)
      moreover have lv: "set (live 0 ?d (bs @ [(?n, True)])) = insert (p, ?n) B" by (auto simp: B s'(2))
      ultimately have "im_live s' (insert (p, ?n) B)" unfolding im_live_def lv [symmetric] by (intro exI [of _ "bs @ [(?n, True)]"]) (simp add: s'(1))
      moreover have "keeps B ?m (meta_mem s')"
        unfolding keeps_def
      proof (intro allI impI)
        fix q k x assume x: "(q, k) \<in> B" "q \<le> x" "x < q + k"
        then have "x < ?e \<or> ?e + meta_size s \<le> x" "x < ?d + extent 0 bs" using live_not_meta [OF rep] live_bounds [of q k 0 ?d bs] B by auto
        then show "meta_mem s' x = ?m x" using False l(2) by (auto simp: s'(1))
      qed
      ultimately show ?thesis using nn live_fresh(1) [of ?d 0 bs ?n] s' by (auto simp: im_region_def B)
    qed
  next
    case (Some b)
    let ?xs = "takeWhile (\<lambda>b. \<not> fits ?n b) bs"
    obtain ys where ys: "bs = ?xs @ b # ys" "fits ?n b" by (rule find_split [OF Some])
    obtain k where b: "b = (k, False)" "?n \<le> k" using ys(2) by (cases b) (simp add: fits_def)
    let ?c = "?e + 24 * length ?xs" let ?dx = "?d + extent 0 ?xs"
    have rep': "im_rep s (?xs @ (k, False) # ys)" using rep ys(1) b(1) by simp
    then have "?m (?c + 16) = ?dx + 16" by (simp add: im_rep_def)
    then have s': "s' = s\<lparr>meta_mem := ?m(?c + 8 := 1)\<rparr>" "p = ?dx + 16" using st srch Some pos by (auto simp: im_malloc_def Let_def)
    from im_flag [OF rep', of True] have "im_rep s' (?xs @ (k, True) # ys)" by (simp add: s'(1))
    moreover have "live 0 ?d bs = live 0 ?d ?xs @ live 0 (?dx + 16 + k) ys"
      using arg_cong [OF ys(1), of "live 0 ?d"] b by simp
    then have lv: "set (live 0 ?d (?xs @ (k, True) # ys)) = insert (p, k) B" "(p, k) \<notin> B"
      using live_fresh(1) [of ?d 0 ?xs k] live_fresh(2) [of ?d 0 ?xs "?dx + 16 + k" k ys] by (auto simp: B s'(2))
    ultimately have "im_live s' (insert (p, k) B)"
      unfolding im_live_def lv(1) [symmetric] by (intro exI [of _ "?xs @ (k, True) # ys"]) (simp add: s'(1))
    moreover have "keeps B ?m (meta_mem s')"
      unfolding keeps_def
    proof (intro allI impI)
      fix q j x assume x: "(q, j) \<in> B" "q \<le> x" "x < q + j"
      have "?c + 24 \<le> ?e + meta_size s" using rep' by (simp add: im_rep_def)
      then show "meta_mem s' x = ?m x" using live_not_meta(1) [OF rep x(1) [unfolded B] x(2,3)] by (auto simp: s'(1))
    qed
    moreover have "\<exists>j\<ge>n. (p, j) \<notin> B \<and> im_live s' (insert (p, j) B)" using calculation(1) lv(2) nn(1) b(2) by (intro exI [of _ k]) simp
    ultimately show ?thesis by (simp add: im_region_def s')
  qed
qed

section \<open>Release\<close>

lemma im_free_block:
  assumes rep: "im_rep s (xs @ (n, True) # ys)" and n: "0 < n"
  shows "im_free (data_start_ptr s + extent 0 xs + 16) s =
    (s\<lparr>meta_mem := (meta_mem s)(meta_start_ptr s + 24 * length xs + 8 := 0)\<rparr>, 0)"
proof -
  let ?d = "data_start_ptr s + extent 0 xs" let ?c = "meta_start_ptr s + 24 * length xs"
  have "meta_mem s (?d + 8) = ?c" "meta_mem s (?c + 16) = ?d + 16" "meta_mem s (?c + 8) = 1"
    and b: "?d + 16 + n \<le> data_start_ptr s + meta_size s" "?c < meta_last_ptr s" "0 < meta_start_ptr s"
    using rep by (auto simp: im_rep_def)
  then show ?thesis using n by (simp add: im_free_def Let_def add.commute [of 8])
qed

text \<open>A pointer that is accepted is the payload of an allocated block.\<close>

lemma entries_nth:
  assumes "entries m e d bs" "i < length bs" "m (e + 24 * i + 16) = p" "m (e + 24 * i + 8) \<noteq> 0"
  shows "\<exists>n. (p, n) \<in> set (live 0 d bs)"
  using assms
proof (induction m e d bs arbitrary: i rule: entries.induct)
  case (2 m e d n al bs)
  show ?case
  proof (cases i)
    case 0
    then show ?thesis using "2.prems" by (auto split: if_splits)
  next
    case (Suc j)
    then have "\<exists>k. (p, k) \<in> set (live 0 (d + 16 + n) bs)" using 2 by (simp add: add_ac)
    then show ?thesis by auto
  qed
qed simp

lemma im_free_accepts:
  assumes rep: "im_rep s bs" and acc: "snd (im_free p s) = 0"
  shows "\<exists>n. (p, n) \<in> set (live 0 (data_start_ptr s) bs)"
proof -
  let ?m = "meta_mem s" let ?e = "meta_start_ptr s" let ?h = "?m (p - 8)"
  have h: "?e \<le> ?h" "?h < meta_last_ptr s" "(?h - ?e) mod 24 = 0" "?m (?h + 16) = p" "?m (?h + 8) \<noteq> 0"
    using acc by (auto simp: im_free_def Let_def split: if_splits)
  define i where "i = (?h - ?e) div 24"
  have "?h - ?e = 24 * i" using h(3) by (simp add: i_def mod_0_imp_dvd)
  then have i: "?h = ?e + 24 * i" using h(1) by simp
  then have "i < length bs" using h(2) rep by (simp add: im_rep_def)
  then show ?thesis using entries_nth [of ?m ?e "data_start_ptr s" bs i p] h(4,5) i rep by (simp add: im_rep_def)
qed

lemma im_free_law:
  assumes live: "im_live s B" and p: "(p, n) \<in> B" "0 < n"
  shows "\<exists>s'. im_free p s = (s', 0) \<and> im_live s' (B - {(p, n)}) \<and> im_region s' = im_region s \<and>
    keeps (B - {(p, n)}) (meta_mem s) (meta_mem s')"
proof -
  let ?e = "meta_start_ptr s" let ?d = "data_start_ptr s"
  obtain bs where rep: "im_rep s bs" and B: "B = set (live 0 ?d bs)" using live by (auto simp: im_live_def)
  obtain xs ys where bs: "bs = xs @ (n, True) # ys" "p = ?d + extent 0 xs + 16" using live_split [of p n 0 ?d bs] p(1) B by auto
  let ?c = "?e + 24 * length xs" let ?s = "s\<lparr>meta_mem := (meta_mem s)(?c + 8 := 0)\<rparr>"
  have run: "im_free p s = (?s, 0)" using im_free_block [of s xs n ys] rep bs p(2) by simp
  have "im_rep ?s (xs @ (n, False) # ys)" using im_flag [of s xs n True ys False] rep bs(1) by simp
  moreover have lv: "B - {(p, n)} = set (live 0 ?d (xs @ (n, False) # ys))"
    using live_fresh(1) [of ?d 0 xs n] live_fresh(2) [of ?d 0 xs "?d + extent 0 xs + 16 + n" n ys] by (auto simp: B bs)
  ultimately have "im_live ?s (B - {(p, n)})" unfolding im_live_def lv by (intro exI [of _ "xs @ (n, False) # ys"]) simp
  moreover have "keeps (B - {(p, n)}) (meta_mem s) (meta_mem ?s)"
    unfolding keeps_def
  proof (intro allI impI)
    fix q j x assume x: "(q, j) \<in> B - {(p, n)}" "q \<le> x" "x < q + j"
    have "?c + 24 \<le> ?e + meta_size s" using rep bs(1) by (simp add: im_rep_def)
    moreover have "(q, j) \<in> set (live 0 ?d bs)" using x(1) B by simp
    ultimately show "meta_mem ?s x = meta_mem s x" using live_not_meta(1) [OF rep _ x(2,3)] by auto
  qed
  ultimately show ?thesis using run by (auto simp: im_region_def)
qed

lemma im_store_law:
  assumes live: "im_live s B" and p: "(p, n) \<in> B" "p \<le> x" "x < p + n"
  shows "im_live (im_store x v s) B"
proof -
  let ?d = "data_start_ptr s"
  obtain bs where rep: "im_rep s bs" and B: "B = set (live 0 ?d bs)" using live by (auto simp: im_live_def)
  have x: "x < meta_start_ptr s \<or> meta_start_ptr s + meta_size s \<le> x" "x \<notin> tags 0 ?d bs"
    using live_not_meta [OF rep p(1) [unfolded B] p(2,3)] by simp_all
  have "entries ((meta_mem s)(x := v)) (meta_start_ptr s) ?d bs"
    by (rule entries_frame [of "meta_mem s"]) (use x rep in \<open>auto simp: im_rep_def\<close>)
  then have "im_rep (im_store x v s) bs" using rep by (simp add: im_rep_def im_store_def)
  then show ?thesis unfolding im_live_def by (intro exI [of _ bs]) (simp add: B im_store_def)
qed

lemma im_reset_law:
  assumes "im_live s B"
  shows "\<exists>s'. im_reset s = (s', 0) \<and> im_live s' {} \<and> im_region s' = im_region s"
proof -
  obtain bs where rep: "im_rep s bs" using assms by (auto simp: im_live_def)
  have "im_rep (s\<lparr>meta_last_ptr := meta_start_ptr s\<rparr>) []" using rep by (auto simp: im_rep_def)
  then have "im_live (s\<lparr>meta_last_ptr := meta_start_ptr s\<rparr>) {}" unfolding im_live_def by (intro exI [of _ "[]"]) simp
  then show ?thesis using rep by (simp add: im_reset_def im_region_def im_rep_def)
qed

interpretation im: heap_allocator im_live im_region meta_mem im_store im_malloc im_free im_reset
proof (unfold_locales, goal_cases)
  case (1 s B p n)
  then show ?case using live_bounds [of p n 0] by (fastforce simp: im_live_def im_rep_def im_region_def)
next
  case (2 s B p n q k)
  then show ?case using live_disjoint [of p n 0 "data_start_ptr s" _ q k] unfolding im_live_def by metis
next
  case (3 s B n s' p)
  then show ?case using im_malloc_law by blast
next
  case (4 s B n q k x)
  then show ?case using im_malloc_law [of s B n "fst (im_malloc n s)" "snd (im_malloc n s)"] keepsD by (metis prod.collapse)
next
  case (5 s B p n)
  then show ?case using im_free_law by blast
next
  case (6 s B p n q k x)
  then have "(q, k) \<in> B - {(p, n)}" by auto
  then show ?case using im_free_law [OF 6(1-3)] keepsD 6 by fastforce
next
  case (7 s B p n x v)
  then show ?case using im_store_law by (auto simp: im_store_def im_region_def)
next
  case (8 s B)
  then show ?case by (rule im_reset_law)
qed

end
