(* ===== verification/Arena_Allocator.thy ===== *)
theory Arena_Allocator
  imports Simple_Allocators
begin

text \<open>
  The class \<open>Arena\<close> of \<open>2_cpp_basics/0_bump_allocator\<close>, a bump allocator for arrays of any element type. Its behaviour is that
  of the bump allocator in C, as long as the number of bytes does not overflow.
\<close>

record Arena =
  arena_size :: nat
  arena_start_ptr :: nat
  arena_curr_ptr :: nat
  arena_mem :: "nat \<Rightarrow> nat"

text \<open>The constructor ends the program when \<open>mmap\<close> fails.\<close>

definition Arena_new :: "nat \<Rightarrow> nat \<Rightarrow> (nat \<Rightarrow> nat) \<Rightarrow> Arena option" where
  "Arena_new mmap_result n m =
     (if mmap_result = MAP_FAILED then None
      else Some \<lparr>arena_size = n, arena_start_ptr = mmap_result, arena_curr_ptr = mmap_result, arena_mem = m\<rparr>)"

definition Arena_delete :: "Arena \<Rightarrow> Arena" where
  "Arena_delete s = s\<lparr>arena_start_ptr := 0, arena_curr_ptr := 0\<rparr>"

text \<open>\<open>sz\<close> is \<open>sizeof(T)\<close>.\<close>

definition arena_alloc :: "nat \<Rightarrow> nat \<Rightarrow> Arena \<Rightarrow> Arena \<times> nat" where
  "arena_alloc sz count s =
     (let bytes = count * sz mod 2 ^ 64; aligned = align_up bytes in
      if add64 (arena_curr_ptr s) aligned > arena_start_ptr s + arena_size s then (s, 0)
      else (s\<lparr>arena_curr_ptr := add64 (arena_curr_ptr s) aligned\<rparr>, arena_curr_ptr s))"

definition arena_dealloc :: "nat \<Rightarrow> Arena \<Rightarrow> Arena \<times> nat" where
  "arena_dealloc ptr s = (s, 0)"

definition arena_reset :: "Arena \<Rightarrow> Arena \<times> nat" where
  "arena_reset s = (s\<lparr>arena_curr_ptr := arena_start_ptr s\<rparr>, 0)"

section \<open>The bump allocator as specification\<close>

definition as_bump :: "Arena \<Rightarrow> bump_allocator" where
  "as_bump s = \<lparr>bbuffer = arena_start_ptr s, bptr = arena_curr_ptr s, buff_size = arena_size s, bmem = arena_mem s\<rparr>"

definition arena_live :: "Arena \<Rightarrow> (nat \<times> nat) set \<Rightarrow> bool" where
  "arena_live s B \<longleftrightarrow> bump_live (as_bump s) B"

definition arena_store :: "nat \<Rightarrow> nat \<Rightarrow> Arena \<Rightarrow> Arena" where
  "arena_store x v s = s\<lparr>arena_mem := (arena_mem s)(x := v)\<rparr>"

lemma arena_alloc_refines:
  assumes live: "bump_live (as_bump s) B" and n: "count * sz < 2 ^ 62"
  shows "bump_malloc (count * sz) (as_bump s) = map_prod as_bump id (arena_alloc sz count s)"
proof -
  have "align_up (count * sz) < 2 ^ 63" using align_up_small [of "count * sz"] n by simp
  then have "add64 (arena_curr_ptr s) (align_up (count * sz)) = arena_curr_ptr s + align_up (count * sz)"
    using live by (intro add64_small) (simp add: bump_live_def as_bump_def)
  then show ?thesis using live n by (auto simp: bump_malloc_def arena_alloc_def as_bump_def bump_live_def Let_def)
qed

lemma as_bump_simps:
  "as_bump (fst (arena_reset s)) = fst (bump_reset (as_bump s))" if "bump_live (as_bump s) B"
  using that by (simp add: as_bump_def arena_reset_def bump_reset_def bump_live_def)

interpretation arena: heap_allocator arena_live "\<lambda>s. bump_region (as_bump s)" arena_mem arena_store "arena_alloc 1" arena_dealloc arena_reset
proof (unfold_locales, goal_cases)
  case (1 s B p n)
  then show ?case unfolding arena_live_def by (rule bump.within)
next
  case (2 s B p n q k)
  then show ?case unfolding arena_live_def by (rule bump.disjoint)
next
  case (3 s B n s' p)
  then have "bump_malloc n (as_bump s) = (as_bump s', p)" using arena_alloc_refines [of s B n 1] by (simp add: arena_live_def)
  then show ?case using bump.malloc_law [of "as_bump s" B n] 3 unfolding arena_live_def by blast
next
  case (4 s B n q k x)
  then show ?case by (simp add: arena_alloc_def Let_def)
next
  case (5 s B p n)
  then show ?case using bump.release_law [of "as_bump s" B p n] by (simp add: arena_dealloc_def bump_free_def arena_live_def)
next
  case (6 s B p n q k x)
  then show ?case by (simp add: arena_dealloc_def)
next
  case (7 s B p n x v)
  then show ?case using bump.store_law [of "as_bump s" B p n x v]
    by (simp add: arena_store_def arena_live_def as_bump_def bump_store_def)
next
  case (8 s B)
  then show ?case using bump.reset_law [of "as_bump s" B] as_bump_simps [of s B]
    by (auto simp: arena_live_def arena_reset_def)
qed

end
