(* ===== verification/Allocators_Correct.thy ===== *)
theory Allocators_Correct
  imports Simple_Allocators Explicit_Allocator Improved_Allocator Arena_Allocator
begin

text \<open>
  Properties of the bump, implicit, coalescing and explicit-list allocators: what a client may rely on, and
  where that ends.
\<close>

section \<open>A fresh allocator\<close>

lemma co_live_init:
  assumes "alloc_init a N s0 = (s, 0)" "0 < a" "a + N < 2 ^ 63"
  shows "co_live s {}" "il_live s {}" "arena s = (a, a + N)"
proof -
  have s: "start_ptr s = a" "last_ptr s = a" "region_size s = N"
    using assms by (auto simp: alloc_init_def MAP_FAILED_def Let_def split: if_splits)
  have "co_rep s []" "il_rep s []" using s assms(2,3) by (simp_all add: co_rep_def il_rep_def)
  then show "co_live s {}" "il_live s {}"
    unfolding co_live_def il_live_def by (auto intro!: exI [of _ "[]"] simp: separated_def)
  show "arena s = (a, a + N)" using s by (simp add: arena_def)
qed

lemma bump_live_init:
  assumes "bump_init a N s0 = (s, 0)" "0 < a" "a + N < 2 ^ 63"
  shows "bump_live s {}" "bump_region s = (a, a + N)"
  using assms by (auto simp: bump_init_def MAP_FAILED_def bump_live_def bump_region_def Let_def split: if_splits)

definition sizes_ok :: "heap_op list \<Rightarrow> bool" where
  "sizes_ok ops \<longleftrightarrow> list_all (\<lambda>op. \<forall>n. op = Malloc n \<longrightarrow> 0 < n \<and> n < 2 ^ 62) ops"

text \<open>The blocks a client holds: in the region from \<open>a\<close> of \<open>N\<close> bytes, and pairwise disjoint.\<close>

definition blocks_ok :: "nat \<Rightarrow> nat \<Rightarrow> (nat \<times> nat) list \<Rightarrow> bool" where
  "blocks_ok a N L \<longleftrightarrow> distinct (map fst L) \<and> list_all (\<lambda>(p, n). a \<le> p \<and> p + n \<le> a + N) L \<and>
     list_all (\<lambda>(p, n). list_all (\<lambda>(q, k). p = q \<or> p + n \<le> q \<or> q + k \<le> p) L) L"

lemma blocks_okI:
  assumes "distinct (map fst L)" "\<And>p n. (p, n) \<in> set L \<Longrightarrow> a \<le> p \<and> p + n \<le> a + N"
    "\<And>p n q k. (p, n) \<in> set L \<Longrightarrow> (q, k) \<in> set L \<Longrightarrow> p \<noteq> q \<Longrightarrow> p + n \<le> q \<or> q + k \<le> p"
  shows "blocks_ok a N L"
  using assms unfolding blocks_ok_def list_all_iff by (auto simp del: disj_imp) blast

definition demo_heap :: c_allocator where
  "demo_heap = fst (alloc_init 4096 4096 \<lparr>start_ptr = 0, last_ptr = 0, region_size = 0, mem = (\<lambda>_. 0)\<rparr>)"

lemma demo_heap_init:
  "alloc_init 4096 4096 \<lparr>start_ptr = 0, last_ptr = 0, region_size = 0, mem = (\<lambda>_. 0)\<rparr> = (demo_heap, 0)"
  "demo_heap = \<lparr>start_ptr = 4096, last_ptr = 4096, region_size = 4096, mem = (\<lambda>_. 0)\<rparr>"
  by (simp_all add: demo_heap_def alloc_init_def MAP_FAILED_def)

section \<open>Properties\<close>

text \<open>
  C12: The coalescing allocator hands out disjoint memory and leaves it alone. A client starts from a fresh allocator,
  requests and frees blocks, resets the allocator and stores words in its blocks, in any order, using only pointers it holds. The blocks it
  holds then lie in the region, are as long as requested and do not overlap, every word it stored in one of them is unchanged, and no two
  free blocks are neighbours, which is what the single check per side in \<open>alloc_free\<close> relies on. The requests are of at least one and less than 2 ^ 62 bytes
  and the region lies below 2 ^ 63; then no request stores anything outside the region.
\<close>

theorem coalesce_client_blocks:
  assumes "alloc_init a N s0 = (s, 0)" "0 < a" "a + N < 2 ^ 63" "sizes_ok ops" "co.client ops s [] (\<lambda>_. None) = (s', L, G)"
  shows "blocks_ok a N L \<and> G \<subseteq>\<^sub>m (\<lambda>x. Some (mem s' x)) \<and> (\<exists>bs. co_rep s' bs \<and> separated bs) \<and> (\<forall>n. n < 2 ^ 62 \<longrightarrow> co_malloc n s' \<noteq> None)"
proof -
  note init = co_live_init [OF assms(1-3)]
  note h = co.client_start [OF init(1) assms(4) [unfolded sizes_ok_def] assms(5)]
  have "blocks_ok a N L" using co.client_blocks(1-3) [OF h(1)] unfolding h(2) init(3) by (intro blocks_okI) auto
  moreover have "G \<subseteq>\<^sub>m (\<lambda>x. Some (mem s' x))" using co.client_blocks(4) [OF h(1)] by (auto simp: map_le_def)
  moreover obtain B where B: "co_live s' B" using h(1) by (auto simp: co.holds_def)
  moreover have "co_malloc n s' \<noteq> None" if "n < 2 ^ 62" for n by (rule co_malloc_defined [OF B that]) simp
  ultimately show ?thesis by (auto simp: co_live_def)
qed

theorem coalesce_client_blocks_witness:
  "\<exists>s' L G. co.client [Malloc 8, Malloc 24, Store 4152 1 7, Free 4112, Malloc 3] demo_heap [] (\<lambda>_. None) = (s', L, G) \<and>
    blocks_ok 4096 4096 L \<and> G \<subseteq>\<^sub>m (\<lambda>x. Some (mem s' x)) \<and> (\<exists>bs. co_rep s' bs \<and> separated bs)"
proof -
  let ?ops = "[Malloc 8, Malloc 24, Store 4152 1 7, Free 4112, Malloc 3]"
  obtain s' L G where c: "co.client ?ops demo_heap [] (\<lambda>_. None) = (s', L, G)" by (rule prod_cases3)
  have "sizes_ok ?ops" by (simp add: sizes_ok_def)
  from coalesce_client_blocks [OF demo_heap_init(1) _ _ this c] c show ?thesis by (simp del: co.client.simps)
qed

text \<open>
  C37: The bump allocator and the implicit free list keep the same promise to a client, for requests of at least one and less than 2 ^ 62 bytes.
\<close>

theorem simple_client_blocks:
  assumes "0 < a" "a + N < 2 ^ 63" "sizes_ok ops"
    and "il_init a N s0 = (s, 0)" "il.client ops s [] (\<lambda>_. None) = (s', L, G)"
    and "bump_init a N b0 = (b, 0)" "bump.client ops b [] (\<lambda>_. None) = (b', L', G')"
  shows "blocks_ok a N L \<and> G \<subseteq>\<^sub>m (\<lambda>x. Some (mem s' x)) \<and> blocks_ok a N L' \<and> G' \<subseteq>\<^sub>m (\<lambda>x. Some (bmem b' x))"
proof -
  note init = co_live_init [OF assms(4) [unfolded il_init_def] assms(1,2)] and binit = bump_live_init [OF assms(6,1,2)]
  note ok = assms(3) [unfolded sizes_ok_def]
  note h = il.client_start [OF init(2) ok assms(5)] and hb = bump.client_start [OF binit(1) ok assms(7)]
  have "blocks_ok a N L" using il.client_blocks(1-3) [OF h(1)] unfolding h(2) init(3) by (intro blocks_okI) auto
  moreover have "blocks_ok a N L'" using bump.client_blocks(1-3) [OF hb(1)] unfolding hb(2) binit(2) by (intro blocks_okI) auto
  moreover have "G \<subseteq>\<^sub>m (\<lambda>x. Some (mem s' x))" "G' \<subseteq>\<^sub>m (\<lambda>x. Some (bmem b' x))"
    using il.client_blocks(4) [OF h(1)] bump.client_blocks(4) [OF hb(1)] by (auto simp: map_le_def)
  ultimately show ?thesis by simp
qed

theorem simple_client_blocks_witness:
  "\<exists>s' L G b' L' G'. il.client [Malloc 8, Malloc 24, Free 4112, Malloc 3] demo_heap [] (\<lambda>_. None) = (s', L, G) \<and>
    bump.client [Malloc 8, Malloc 24, Free 4112, Malloc 3] \<lparr>bbuffer = 4096, bptr = 4096, buff_size = 4096, bmem = (\<lambda>_. 0)\<rparr> [] (\<lambda>_. None)
      = (b', L', G') \<and>
    blocks_ok 4096 4096 L \<and> G \<subseteq>\<^sub>m (\<lambda>x. Some (mem s' x)) \<and> blocks_ok 4096 4096 L' \<and> G' \<subseteq>\<^sub>m (\<lambda>x. Some (bmem b' x))"
proof -
  let ?b = "\<lparr>bbuffer = 4096, bptr = 4096, buff_size = 4096, bmem = (\<lambda>_. 0)\<rparr>" let ?ops = "[Malloc 8, Malloc 24, Free 4112, Malloc 3]"
  have b: "bump_init 4096 4096 \<lparr>bbuffer = 0, bptr = 0, buff_size = 0, bmem = (\<lambda>_. 0)\<rparr> = (?b, 0)"
    by (simp add: bump_init_def MAP_FAILED_def)
  have ops: "sizes_ok ?ops" by (simp add: sizes_ok_def)
  obtain s' L G where c: "il.client ?ops demo_heap [] (\<lambda>_. None) = (s', L, G)" by (rule prod_cases3)
  obtain b' L' G' where d: "bump.client ?ops ?b [] (\<lambda>_. None) = (b', L', G')" by (rule prod_cases3)
  have "0 < (4096 :: nat)" "4096 + 4096 < (2 ^ 63 :: nat)" by simp_all
  from simple_client_blocks [OF this ops demo_heap_init(1) [folded il_init_def] c b d] c d show ?thesis by blast
qed

text \<open>
  C38: The test against the end of the region wraps around. A fresh allocator, whose region has room for a header and a footer and lies below 2 ^ 63, never refuses a request
  of at least 2 ^ 64 minus the address of the region, although it is larger than the region. A request of up to 2 ^ 64 - 32 bytes stores its footer through the wrapped pointer, outside the region; only
  for the last 31 sizes, where the pointer comes back into the region or the rounded size wraps to zero, does the call return a pointer, behind which there is no room for the request.
\<close>

theorem malloc_size_wraps:
  assumes rep: "co_rep s []" and room: "24 \<le> region_size s" and big: "2 ^ 64 \<le> start_ptr s + n" "n < 2 ^ 64"
  shows "region_size s < n \<and> (if n \<le> 2 ^ 64 - 32 then co_malloc n s = None else \<exists>s'. co_malloc n s = Some (s', start_ptr s + 16))"
proof -
  let ?a = "start_ptr s" let ?n = "align_up n"
  have f: "search 8 (mem s) ?n (last_ptr s) ?a = (?a, False)"
    using search_layout [of 8 "mem s" ?a "[]"] rep by (simp add: co_rep_def)
  have a: "?a + region_size s < 2 ^ 63" using rep by (simp add: co_rep_def)
  have eq: "co_malloc n s = do { m \<leftarrow> poke s ?a ?n (mem s); m \<leftarrow> poke s (?a + 8) 1 m; m \<leftarrow> poke s (add64 (?a + 16) ?n) ?n m;
      Some (s\<lparr>mem := m, last_ptr := add64 (add64 (?a + 16) ?n) 8\<rparr>, ?a + 16) }"
    if "add64 ?a (?n + 24) \<le> ?a + region_size s" using f that by (simp add: co_malloc_def Let_def)
  consider (far) "n \<le> 2 ^ 64 - 32" | (header) "2 ^ 64 - 32 < n" "n \<le> 2 ^ 64 - 16" | (zero) "2 ^ 64 - 16 < n" by linarith
  then show ?thesis
  proof cases
    case far
    obtain k where "?n = 16 * k" using align_up_mod [of n] by (auto elim: dvdE [OF mod_eq_0_iff_dvd [THEN iffD1]])
    then have n: "n \<le> ?n" "?n \<le> 2 ^ 64 - 32" using far align_up_small [of n] by simp_all
    then have "add64 (?a + 16) ?n = ?a + 16 + ?n - 2 ^ 64" "add64 ?a (?n + 24) = ?a + (?n + 24) - 2 ^ 64"
      using big a by (simp_all add: add64_def mod_if)
    then show ?thesis using eq n big a far room by (simp add: poke_def)
  next
    case header
    obtain k where "?n = 16 * k" using align_up_mod [of n] by (auto elim: dvdE [OF mod_eq_0_iff_dvd [THEN iffD1]])
    then have n: "?n = 2 ^ 64 - 16" using header align_up_small [of n] by simp
    then have "add64 (?a + 16) ?n = ?a" "add64 ?a (?n + 24) = ?a + 8" using a by (simp_all add: add64_def mod_if)
    then show ?thesis using eq header a room by (simp add: poke_def)
  next
    case zero
    define j where "j = n - (2 ^ 64 - 16)"
    have n: "n = 2 ^ 64 - 16 + j" "0 < j" "j < 16" using zero big(2) by (simp_all add: j_def)
    have "n mod 16 = j" using n by (simp add: mod_add_eq [symmetric])
    then have "?n = 0" using n by (simp add: align_up_def ALIGN_def add64_def)
    then have "add64 (?a + 16) ?n = ?a + 16" "add64 ?a (?n + 24) = ?a + 24" "?n = 0" using a by (simp_all add: add64_def)
    then show ?thesis using eq zero a room by (simp add: poke_def)
  qed
qed

theorem malloc_size_wraps_witness:
  "region_size demo_heap < 2 ^ 64 - 4096 \<and> co_malloc (2 ^ 64 - 4096) demo_heap = None \<and> (\<exists>s'. co_malloc (2 ^ 64 - 1) demo_heap = Some (s', start_ptr demo_heap + 16))"
  using malloc_size_wraps [of demo_heap "2 ^ 64 - 4096"] malloc_size_wraps [of demo_heap "2 ^ 64 - 1"] by (simp add: co_rep_def demo_heap_init)

text \<open>
  Payloads are not all aligned to sixteen bytes, as the comment in \<open>alloc_malloc\<close> says: the footer
  takes eight bytes, so in an aligned region the second block handed out starts eight bytes past a multiple of sixteen.
\<close>

theorem coalesce_misaligned:
  assumes "co_rep s [(k, True)]" "start_ptr s mod 16 = 0" "k mod 16 = 0" "24 + k + align_up n + 24 \<le> region_size s"
  shows "\<exists>s'. co_malloc n s = Some (s', start_ptr s + k + 40) \<and> (start_ptr s + k + 40) mod 16 = 8"
proof -
  have "search 8 (mem s) (align_up n) (last_ptr s) (start_ptr s) = (last_ptr s, False)"
    using search_layout [of 8 "mem s" "start_ptr s" "[(k, True)]"] assms(1) by (simp add: co_rep_def fits_def)
  from co_malloc_new [OF assms(1) this] assms(4) obtain s' where "co_malloc n s = Some (s', start_ptr s + (24 + k) + 16)" by auto
  moreover have "(start_ptr s + k + 40) mod 16 = 8"
    using assms(2,3) by presburger
  ultimately show ?thesis by (auto simp: add_ac)
qed

theorem coalesce_misaligned_witness:
  "\<exists>s s'. co_malloc 8 s = Some (s', 4096 + 16 + 40) \<and> (4096 + 16 + 40) mod (16 :: nat) = 8"
proof -
  let ?s = "append_block 16 demo_heap"
  have s: "co_rep ?s [(16, True)]" "start_ptr ?s = 4096" "region_size ?s = 4096"
    by (simp_all add: co_rep_def append_block_def demo_heap_init)
  have a: "align_up 8 = 16" by (simp add: align_up_def ALIGN_def add64_def)
  from coalesce_misaligned [OF s(1), of 8] show ?thesis by (auto simp: demo_heap_init a)
qed

text \<open>
  A double free can go unnoticed. The header of a block that was merged into the block before
  it still says allocated, so after two neighbours have been freed in order, freeing the second one again succeeds, although no block is
  handed out any more and the first block alone would be refused.
\<close>

theorem coalesce_double_free_accepted:
  "\<exists>s1 s2 s3 s4 s5. co_malloc 16 demo_heap = Some (s1, 4112) \<and> co_malloc 16 s1 = Some (s2, 4152) \<and>
    co_free 4112 s2 = (s3, 0) \<and> co_free 4152 s3 = (s4, 0) \<and> co_rep s4 [(56, False)] \<and>
    co_free 4112 s4 = (s4, 1) \<and> co_free 4152 s4 = (s5, 0)"
  by (simp add: co_malloc_def poke_def co_free_def co_forward_def co_backward_def search.simps align_up_def ALIGN_def add64_def
      demo_heap_init parse_header_def co_rep_def Let_def)

section \<open>The explicit free list\<close>

lemma ex_live_init:
  assumes "ex_init a N s0 = (s, 0)" "HEAD s0 = 0" "0 < a" "a + N < 2 ^ 63"
  shows "ex_live s {}" "ex_arena s = (a, a + N)"
proof -
  let ?A = "allocator s"
  have s: "start_ptr ?A = a" "last_ptr ?A = a" "region_size ?A = N" "HEAD s = 0"
    using assms(1,2) by (auto simp: ex_init_def Let_def split: if_splits)
  have "ex_rep s []" using s assms(3,4) by (simp add: ex_rep_def co_rep_def separated_def nodes_empty)
  then show "ex_live s {}" unfolding ex_live_def by (intro exI [of _ "[]"]) simp
  show "ex_arena s = (a, a + N)" using s by (simp add: ex_arena_def arena_def)
qed

definition demo_ex :: ex_state where
  "demo_ex = \<lparr>allocator = \<lparr>start_ptr = 4096, last_ptr = 4096, region_size = 4096, mem = (\<lambda>_. 0)\<rparr>, HEAD = 0\<rparr>"

lemma demo_ex_init:
  "ex_init 4096 4096 \<lparr>allocator = \<lparr>start_ptr = 0, last_ptr = 0, region_size = 0, mem = (\<lambda>_. 0)\<rparr>, HEAD = 0\<rparr> = (demo_ex, 0)"
  by (simp add: demo_ex_def ex_init_def MAP_FAILED_def fun_eq_iff)

text \<open>
  C13: The allocator with an explicit free list keeps the promise of the coalescing one to a client that asks for at least one and less than
  2 ^ 62 bytes at a time, when it is the first allocator of the program, so that the static \<open>HEAD\<close> is null when it is initialised. In addition the list that
  starts at \<open>HEAD\<close> is a circle of exactly the free blocks, although its links lie in memory that clients wrote to. Neither condition can be dropped:
  \<open>explicit_zero_size_corrupts\<close> and \<open>explicit_head_shared\<close> below.
\<close>

theorem explicit_client_blocks:
  assumes "ex_init a N s0 = (s, 0)" "HEAD s0 = 0" "0 < a" "a + N < 2 ^ 63" "sizes_ok ops"
    and "ex.client ops s [] (\<lambda>_. None) = (s', L, G)"
  shows "blocks_ok a N L \<and> G \<subseteq>\<^sub>m (\<lambda>x. Some (mem (allocator s') x)) \<and>
    (\<exists>bs. co_rep (allocator s') bs \<and> separated bs \<and> nodes (mem (allocator s')) (HEAD s') (set (frees a bs)))"
proof -
  note init = ex_live_init [OF assms(1-4)]
  note h = ex.client_start [OF init(1) assms(5) [unfolded sizes_ok_def] assms(6)]
  have "blocks_ok a N L" using ex.client_blocks(1-3) [OF h(1)] unfolding h(2) init(2) by (intro blocks_okI) auto
  moreover have "G \<subseteq>\<^sub>m (\<lambda>x. Some (mem (allocator s') x))" using ex.client_blocks(4) [OF h(1)] by (auto simp: map_le_def)
  moreover have "start_ptr (allocator s') = a" using h(2) init(2) by (simp add: ex_arena_def arena_def)
  moreover obtain B where "ex_live s' B" using h(1) by (auto simp: ex.holds_def)
  ultimately show ?thesis by (auto simp: ex_live_def ex_rep_def)
qed

theorem explicit_client_blocks_witness:
  "\<exists>s' L G. ex.client [Malloc 8, Malloc 24, Store 4152 1 7, Free 4112, Malloc 3] demo_ex [] (\<lambda>_. None) = (s', L, G) \<and>
    blocks_ok 4096 4096 L \<and> G \<subseteq>\<^sub>m (\<lambda>x. Some (mem (allocator s') x)) \<and>
    (\<exists>bs. co_rep (allocator s') bs \<and> separated bs \<and> nodes (mem (allocator s')) (HEAD s') (set (frees 4096 bs)))"
proof -
  let ?ops = "[Malloc 8, Malloc 24, Store 4152 1 7, Free 4112, Malloc 3]"
  obtain s' L G where c: "ex.client ?ops demo_ex [] (\<lambda>_. None) = (s', L, G)" by (rule prod_cases3)
  have "sizes_ok ?ops" by (simp add: sizes_ok_def)
  from explicit_client_blocks [OF demo_ex_init _ _ _ this c] c show ?thesis by (simp del: ex.client.simps)
qed

text \<open>
  C25: The search through the circular list always ends: whatever a client as above did before, \<open>alloc_malloc\<close> comes to the end of its search for every size.
\<close>

theorem explicit_malloc_returns:
  assumes "ex_init a N s0 = (s, 0)" "HEAD s0 = 0" "0 < a" "a + N < 2 ^ 63" "sizes_ok ops"
    and "ex.client ops s [] (\<lambda>_. None) = (s', L, G)"
  shows "ex_malloc n s' \<noteq> None"
proof -
  note init = ex_live_init [OF assms(1-4)]
  note h = ex.client_start [OF init(1) assms(5) [unfolded sizes_ok_def] assms(6)]
  obtain bs where rep: "ex_rep s' bs" using h(1) by (auto simp: ex.holds_def ex_live_def)
  have "HEAD s' = 0 \<or> ex_search (mem (allocator s')) (HEAD s') (align_up n) (HEAD s') \<noteq> None"
    using ex_search_blocks [OF rep, of "align_up n"] by auto
  then show ?thesis by (auto simp: ex_malloc_def Let_def split: option.splits)
qed

theorem explicit_malloc_returns_witness:
  "\<exists>s' L G. ex.client [Malloc 8, Malloc 24, Free 4112, Free 4152] demo_ex [] (\<lambda>_. None) = (s', L, G) \<and> ex_malloc 64 s' \<noteq> None"
proof -
  let ?ops = "[Malloc 8, Malloc 24, Free 4112, Free 4152]"
  obtain s' L G where c: "ex.client ?ops demo_ex [] (\<lambda>_. None) = (s', L, G)" by (rule prod_cases3)
  have "sizes_ok ?ops" by (simp add: sizes_ok_def)
  from explicit_malloc_returns [OF demo_ex_init _ _ _ this c, of 64] c show ?thesis by (simp del: ex.client.simps)
qed

text \<open>
  \<open>HEAD\<close> is shared by all allocators of the program. An allocator hands out the first free block of the list if it
  is large enough, without regard to its own region: with the list of another allocator the pointer lies outside the region.
\<close>

theorem explicit_head_shared:
  assumes "h \<noteq> 0" "align_up n \<le> m h" "h + 16 < a \<or> a + N \<le> h + 16"
  shows "\<exists>s' p. ex_malloc n \<lparr>allocator = \<lparr>start_ptr = a, last_ptr = l, region_size = N, mem = m\<rparr>, HEAD = h\<rparr> = Some (s', p) \<and>
    (p < a \<or> a + N \<le> p)"
proof -
  have "ex_search m h (align_up n) h = Some (h, True)" using assms(2) by (simp add: ex_search.simps)
  then have "\<exists>s'. ex_malloc n \<lparr>allocator = \<lparr>start_ptr = a, last_ptr = l, region_size = N, mem = m\<rparr>, HEAD = h\<rparr> = Some (s', h + 16)"
    using assms(1) by (auto simp: ex_malloc_def Let_def split: prod.splits)
  then show ?thesis using assms(3) by blast
qed

theorem explicit_head_shared_witness:
  "\<exists>s' p. ex_malloc 8 \<lparr>allocator = \<lparr>start_ptr = 8192, last_ptr = 8192, region_size = 4096, mem = (\<lambda>_. 0)(4096 := 16)\<rparr>, HEAD = 4096\<rparr> = Some (s', p) \<and>
    (p < 8192 \<or> 8192 + 4096 \<le> p)"
  by (rule explicit_head_shared) (simp_all add: align_up_def ALIGN_def add64_def)

text \<open>
  A block of no bytes has no room for the links of the list: when it is freed, its \<open>next\<close> link overwrites the size of the block behind it.
\<close>

theorem explicit_zero_size_corrupts:
  "\<exists>s1 s2 s3. ex_malloc 0 demo_ex = Some (s1, 4112) \<and> ex_malloc 16 s1 = Some (s2, 4136) \<and>
    block_size (parse_header (mem (allocator s2)) 4136) = 16 \<and>
    ex_free 4112 s2 = (s3, 0) \<and> block_size (parse_header (mem (allocator s3)) 4136) = 4096"
  by (simp add: ex_malloc_def ex_free_def ex_forward_def ex_backward_def ex_push_def align_up_def ALIGN_def add64_def demo_ex_def
      parse_header_def Let_def)

section \<open>The list with a region for its entries, and the arena\<close>

lemma im_live_init:
  assumes "im_init e d N s0 = (s, 0)" "0 < e" "0 < d" "e + N < 2 ^ 63" "d + N < 2 ^ 63" "e + N \<le> d \<or> d + N \<le> e"
  shows "im_live s {}" "im_region s = (d, d + N)"
proof -
  have s: "meta_start_ptr s = e" "data_start_ptr s = d" "meta_last_ptr s = e" "meta_size s = N"
    using assms(1) by (auto simp: im_init_def Let_def split: if_splits)
  have "im_rep s []" using s assms(2-6) by (auto simp: im_rep_def)
  then show "im_live s {}" unfolding im_live_def by (intro exI [of _ "[]"]) simp
  show "im_region s = (d, d + N)" using s by (simp add: im_region_def)
qed

text \<open>
  The improved list tells apart the pointers it handed out from all others. \<open>alloc_free\<close> succeeds for a pointer to a block that is
  handed out and returns 1 for every other address, so a block cannot be freed twice, whatever the memory before the address holds.
\<close>

theorem improved_free_exact:
  assumes "im_live s B" "\<forall>p n. (p, n) \<in> B \<longrightarrow> 0 < n"
  shows "snd (im_free p s) = (if p \<in> fst ` B then 0 else 1)"
proof (cases "p \<in> fst ` B")
  case True
  then obtain n where "(p, n) \<in> B" by auto
  then show ?thesis using im_free_law [OF assms(1), of p n] assms(2) True by auto
next
  case False
  obtain bs where "im_rep s bs" "B = set (live 0 (data_start_ptr s) bs)" using assms(1) by (auto simp: im_live_def)
  then have "snd (im_free p s) \<noteq> 0" using im_free_accepts [of s bs p] False by force
  then show ?thesis using False by (auto simp: im_free_def Let_def split: if_splits)
qed

definition demo_meta :: meta_allocator where
  "demo_meta = \<lparr>meta_start_ptr = 4096, data_start_ptr = 8192, meta_last_ptr = 4096, meta_size = 4096, meta_mem = (\<lambda>_. 0)\<rparr>"

lemma demo_meta_init:
  "im_init 4096 8192 4096 \<lparr>meta_start_ptr = 0, data_start_ptr = 0, meta_last_ptr = 0, meta_size = 0, meta_mem = (\<lambda>_. 0)\<rparr> = (demo_meta, 0)"
  by (simp add: demo_meta_def im_init_def MAP_FAILED_def)

theorem improved_free_exact_witness:
  "\<exists>s B. B \<noteq> {} \<and> im_live s B \<and> snd (im_free 8208 s) = (if 8208 \<in> fst ` B then 0 else 1) \<and> snd (im_free 8192 s) = (if 8192 \<in> fst ` B then 0 else 1)"
proof -
  have "im_live demo_meta {}" by (rule im_live_init [OF demo_meta_init]) simp_all
  from im_malloc_law [OF this, of 8 "fst (im_malloc 8 demo_meta)" "snd (im_malloc 8 demo_meta)"]
  obtain k where k: "8 \<le> k" "im_live (fst (im_malloc 8 demo_meta)) {(8208, k)}"
    by (auto simp: im_malloc_def demo_meta_def im_search.simps align_up_def ALIGN_def add64_def Let_def)
  then have pos: "\<forall>p n. (p, n) \<in> {(8208, k)} \<longrightarrow> 0 < n" by simp
  show ?thesis
    using k(2) improved_free_exact [OF k(2) pos, of 8208] improved_free_exact [OF k(2) pos, of 8192]
    by (intro exI [of _ "fst (im_malloc 8 demo_meta)"] exI [of _ "{(8208, k)}"]) simp
qed

text \<open>
  C32: The improved list and the arena in C++ keep the same promise to a client that asks for at least one and less than 2 ^ 62 bytes at a time: its blocks
  lie in the data region, do not overlap and keep what it stored.
\<close>

theorem improved_client_blocks:
  assumes "0 < e" "0 < d" "e + N < 2 ^ 63" "d + N < 2 ^ 63" "e + N \<le> d \<or> d + N \<le> e" "sizes_ok ops"
    and "im_init e d N s0 = (s, 0)" "im.client ops s [] (\<lambda>_. None) = (s', L, G)"
    and "Arena_new d N m = Some r" "arena.client ops r [] (\<lambda>_. None) = (r', L', G')"
  shows "blocks_ok d N L \<and> G \<subseteq>\<^sub>m (\<lambda>x. Some (meta_mem s' x)) \<and> blocks_ok d N L' \<and> G' \<subseteq>\<^sub>m (\<lambda>x. Some (arena_mem r' x))"
proof -
  note init = im_live_init [OF assms(7,1-5)] and ok = assms(6) [unfolded sizes_ok_def]
  have r: "as_bump r = \<lparr>bbuffer = d, bptr = d, buff_size = N, bmem = m\<rparr>" using assms(9) by (auto simp: Arena_new_def as_bump_def split: if_splits)
  have ar: "arena_live r {}" "bump_region (as_bump r) = (d, d + N)" using assms(2,4) by (simp_all add: arena_live_def r bump_live_def bump_region_def)
  note h = im.client_start [OF init(1) ok assms(8)] and ha = arena.client_start [OF ar(1) ok assms(10)]
  have "blocks_ok d N L" using im.client_blocks(1-3) [OF h(1)] unfolding h(2) init(2) by (intro blocks_okI) auto
  moreover have "blocks_ok d N L'" using arena.client_blocks(1-3) [OF ha(1)] unfolding ha(2) ar(2) by (intro blocks_okI) auto
  moreover have "G \<subseteq>\<^sub>m (\<lambda>x. Some (meta_mem s' x))" "G' \<subseteq>\<^sub>m (\<lambda>x. Some (arena_mem r' x))"
    using im.client_blocks(4) [OF h(1)] arena.client_blocks(4) [OF ha(1)] by (auto simp: map_le_def)
  ultimately show ?thesis by simp
qed

theorem improved_client_blocks_witness:
  "\<exists>s' L G r' L' G'. im.client [Malloc 8, Malloc 24, Free 8208, Malloc 3] demo_meta [] (\<lambda>_. None) = (s', L, G) \<and>
    arena.client [Malloc 8, Malloc 24, Free 8208, Malloc 3]
      \<lparr>arena_size = 4096, arena_start_ptr = 8192, arena_curr_ptr = 8192, arena_mem = (\<lambda>_. 0)\<rparr> [] (\<lambda>_. None) = (r', L', G') \<and>
    blocks_ok 8192 4096 L \<and> G \<subseteq>\<^sub>m (\<lambda>x. Some (meta_mem s' x)) \<and> blocks_ok 8192 4096 L' \<and> G' \<subseteq>\<^sub>m (\<lambda>x. Some (arena_mem r' x))"
proof -
  let ?r = "\<lparr>arena_size = 4096, arena_start_ptr = 8192, arena_curr_ptr = 8192, arena_mem = (\<lambda>_. 0)\<rparr>"
  let ?ops = "[Malloc 8, Malloc 24, Free 8208, Malloc 3]"
  have r: "Arena_new 8192 4096 (\<lambda>_. 0) = Some ?r" by (simp add: Arena_new_def MAP_FAILED_def)
  have ops: "sizes_ok ?ops" by (simp add: sizes_ok_def)
  obtain s' L G where c: "im.client ?ops demo_meta [] (\<lambda>_. None) = (s', L, G)" by (rule prod_cases3)
  obtain r' L' G' where d: "arena.client ?ops ?r [] (\<lambda>_. None) = (r', L', G')" by (rule prod_cases3)
  have "0 < (4096 :: nat)" "0 < (8192 :: nat)" "4096 + 4096 < (2 ^ 63 :: nat)" "8192 + 4096 < (2 ^ 63 :: nat)"
    "4096 + 4096 \<le> (8192 :: nat) \<or> 8192 + 4096 \<le> (4096 :: nat)" by simp_all
  from improved_client_blocks [OF this ops demo_meta_init c r d] c d show ?thesis by blast
qed

text \<open>
  The number of bytes of an array may overflow: a request for more than 2 ^ 64 bytes is granted if its size modulo 2 ^ 64 fits.
\<close>

theorem arena_alloc_overflows:
  assumes "arena_live s B" "2 ^ 64 \<le> count * sz"
    and "align_up (count * sz mod 2 ^ 64) \<le> arena_start_ptr s + arena_size s - arena_curr_ptr s"
  shows "arena_size s < count * sz \<and> snd (arena_alloc sz count s) = arena_curr_ptr s"
proof -
  let ?n = "align_up (count * sz mod 2 ^ 64)"
  have live: "arena_curr_ptr s \<le> arena_start_ptr s + arena_size s" "arena_start_ptr s + arena_size s < 2 ^ 63"
    using assms(1) by (simp_all add: arena_live_def bump_live_def as_bump_def)
  then have "add64 (arena_curr_ptr s) ?n = arena_curr_ptr s + ?n" using assms(3) by (intro add64_small) simp
  then show ?thesis using live assms(2,3) by (auto simp: arena_alloc_def Let_def)
qed

end
