(* ===== verification/Decimal.thy ===== *)
theory Decimal
  imports Prelude
begin

text \<open>
  Decimal numbers in byte strings, as the programs under \<open>5_network\<close> read and write them: a loop that multiplies an
  accumulator of type \<open>size_t\<close> by ten and adds \<open>c - '0'\<close>, and \<open>std::to_string\<close>.
\<close>

definition dec_digit :: "byte \<Rightarrow> u64 \<Rightarrow> u64" where
  "dec_digit c acc = acc * 10 + (scast c - 48)"

fun to_string :: "nat \<Rightarrow> byte list" where
  "to_string n = (if n < 10 then [of_nat (48 + n)] else to_string (n div 10) @ [of_nat (48 + n mod 10)])"

declare to_string.simps [simp del]

abbreviation pipe :: byte where "pipe \<equiv> 124"

lemma dec_digit_of_nat: "d < 10 \<Longrightarrow> dec_digit (of_nat (48 + d)) acc = acc * 10 + of_nat d"
proof -
  assume d: "d < 10"
  have "d \<in> set [0 ..< 10]" using d by simp
  then have "(scast (of_nat (48 + d) :: byte) :: u64) = of_nat (48 + d)" by (auto simp: upt_rec)
  then show ?thesis by (simp add: dec_digit_def)
qed

text \<open>Reading back a printed number; beyond 2 ^ 64 both wrap around.\<close>

lemma read_to_string: "foldl (\<lambda>a c. dec_digit c a) acc (to_string n) = acc * 10 ^ length (to_string n) + of_nat n"
proof (induction n arbitrary: acc rule: to_string.induct)
  case (1 n)
  show ?case
  proof (cases "n < 10")
    case True
    then show ?thesis by (simp add: to_string.simps [of n] dec_digit_of_nat del: of_nat_add)
  next
    case False
    have "(of_nat n :: u64) = of_nat (10 * (n div 10) + n mod 10)" by simp
    then have n: "(of_nat n :: u64) = of_nat (n div 10) * 10 + of_nat (n mod 10)" by (simp only: of_nat_add of_nat_mult mult.commute of_nat_numeral)
    show ?thesis
      using 1 [OF False, of acc] False unfolding n
      by (simp add: to_string.simps [of n] dec_digit_of_nat algebra_simps del: of_nat_add)
  qed
qed

lemma to_string_digits: "c \<in> set (to_string n) \<Longrightarrow> 48 \<le> c \<and> c \<le> 57"
proof (induction n rule: to_string.induct)
  case (1 n)
  have "48 \<le> (of_nat (48 + d) :: byte) \<and> (of_nat (48 + d) :: byte) \<le> 57" if "d < 10" for d
  proof -
    have "d \<in> set [0 ..< 10]" using that by simp
    then show ?thesis by (auto simp: upt_rec)
  qed
  then show ?case using 1 by (subst (asm) (2) to_string.simps) (auto split: if_splits simp del: of_nat_add)
qed

lemma to_string_not_pipe: "pipe \<notin> set (to_string n)"
  using to_string_digits [of pipe n] by auto

lemma to_string_not_nil: "to_string n \<noteq> []"
  by (simp add: to_string.simps [of n])

end
