(* ===== verification/Framing.thy ===== *)
theory Framing
  imports Decimal
begin

text \<open>
  The server and the client of \<open>5_network/framing\<close>. A message on the TCP stream is its length in decimal, a bar, and
  that many bytes; the server prints every message.

  The answers of the system calls are arguments: the results of \<open>bind\<close> and \<open>listen\<close>, and what each \<open>recv\<close> returns. \<open>None\<close> is
  undefined behaviour, an access outside one of the two buffers of 1024 bytes.
\<close>

definition BUFFER_SIZE :: nat where "BUFFER_SIZE = 1024"

text \<open>The variables of the inner loop; of \<open>msg_buffer\<close> the bytes before \<open>msg_idx\<close> are kept.\<close>

record framer =
  getting_len :: bool
  acc :: u64
  msg_buffer :: "byte list"

datatype recv = Data "byte list" | Closed | Failed

datatype line = Buffer_line "byte list" | Message "byte list"

definition framer_new :: framer where
  "framer_new = \<lparr>getting_len = True, acc = 0, msg_buffer = []\<rparr>"

definition cstring :: "byte list \<Rightarrow> byte list" where
  "cstring bs = takeWhile (\<lambda>c. c \<noteq> 0) bs"

text \<open>The body of the loop over the bytes of the buffer.\<close>

definition frame_byte :: "byte \<Rightarrow> framer \<Rightarrow> (framer \<times> line list) option" where
  "frame_byte c f =
     (if getting_len f then
        if c = pipe then Some (f\<lparr>getting_len := False\<rparr>, []) else Some (f\<lparr>acc := dec_digit c (acc f)\<rparr>, [])
      else if length (msg_buffer f) \<ge> BUFFER_SIZE then None
      else
        let f = f\<lparr>msg_buffer := msg_buffer f @ [c], acc := acc f - 1\<rparr> in
        if acc f = 0 then
          if length (msg_buffer f) \<ge> BUFFER_SIZE then None
          else Some (f\<lparr>getting_len := True, msg_buffer := []\<rparr>, [Message (cstring (msg_buffer f))])
        else Some (f, []))"

fun frame_bytes :: "byte list \<Rightarrow> framer \<Rightarrow> (framer \<times> line list) option" where
  "frame_bytes [] f = Some (f, [])"
| "frame_bytes (c # cs) f =
     do { (f, out) \<leftarrow> frame_byte c f; (f, out') \<leftarrow> frame_bytes cs f; Some (f, out @ out') }"

text \<open>
  Printing \<open>buffer\<close>, which was cleared before \<open>recv\<close> wrote \<open>bs\<close> to it: it ends in a zero byte unless \<open>bs\<close> fills it.
\<close>

definition print_buffer :: "byte list \<Rightarrow> line option" where
  "print_buffer bs = (if length bs \<ge> BUFFER_SIZE \<and> 0 \<notin> set bs then None else Some (Buffer_line (cstring bs)))"

text \<open>The loop over the calls of \<open>recv\<close>; the flag is \<open>stopped\<close>. A result of zero, the end of the stream, sets it; \<open>Closed\<close> and \<open>Data []\<close> both are this result.\<close>

fun serve_client :: "recv list \<Rightarrow> framer \<Rightarrow> (framer \<times> line list \<times> bool) option" where
  "serve_client [] f = Some (f, [], False)"
| "serve_client (Closed # rs) f = do { l \<leftarrow> print_buffer []; Some (f, [l], True) }"
| "serve_client (Failed # rs) f =
     do { l \<leftarrow> print_buffer []; (f, out, stopped) \<leftarrow> serve_client rs f; Some (f, l # out, stopped) }"
| "serve_client (Data bs # rs) f =
     (if bs = [] then do { l \<leftarrow> print_buffer []; Some (f, [l], True) }
      else do { l \<leftarrow> print_buffer bs; (f, out) \<leftarrow> frame_bytes bs f; (f, out', stopped) \<leftarrow> serve_client rs f; Some (f, l # out @ out', stopped) })"

text \<open>
  The program. Its result is the exit code, which is \<open>None\<close> while it waits for the next \<open>recv\<close>, and what it printed. Once a client has
  closed its connection, both loops end.
\<close>

definition server_main :: "int \<Rightarrow> int \<Rightarrow> recv list \<Rightarrow> (int option \<times> line list) option" where
  "server_main bind_res listen_res rs =
     (if bind_res \<noteq> 0 then Some (Some (- 1), [])
      else if listen_res \<noteq> 0 then Some (Some (- 1), [])
      else do { (f, out, stopped) \<leftarrow> serve_client rs framer_new; Some (if stopped then Some 0 else None, out) })"

definition ascii :: "string \<Rightarrow> byte list" where
  "ascii s = map of_char s"

text \<open>The client: what it passes to \<open>write\<close>. The last call includes the zero byte at the end of the array.\<close>

definition client_main :: "int \<Rightarrow> int \<times> byte list list" where
  "client_main connect_res =
     (if connect_res \<noteq> 0 then (- 1, [])
      else (0, [ascii ''5|hello'', ascii ''5|abc'', ascii ''de'', ascii ''3|abc5|hello10|hellohello'' @ [0]]))"

section \<open>Segmentation\<close>

fun messages :: "line list \<Rightarrow> byte list list" where
  "messages [] = []"
| "messages (Message m # ls) = m # messages ls"
| "messages (Buffer_line b # ls) = messages ls"

fun received :: "recv list \<Rightarrow> byte list" where
  "received (Data bs # rs) = (if bs = [] then [] else bs @ received rs)"
| "received (Failed # rs) = received rs"
| "received _ = []"

definition stream_ends :: "recv list \<Rightarrow> bool" where
  "stream_ends rs \<longleftrightarrow> Closed \<in> set rs \<or> Data [] \<in> set rs"

text \<open>Every result of \<open>recv\<close> fits in the buffer with a zero byte to spare.\<close>

definition short_reads :: "recv list \<Rightarrow> bool" where
  "short_reads rs \<longleftrightarrow> list_all (\<lambda>r. case r of Data bs \<Rightarrow> length bs < BUFFER_SIZE | _ \<Rightarrow> True) rs"

lemma messages_append [simp]: "messages (xs @ ys) = messages xs @ messages ys"
  by (induction xs rule: messages.induct) auto

lemma frame_bytes_append:
  "frame_bytes (xs @ ys) f = do { (f, out) \<leftarrow> frame_bytes xs f; (f, out') \<leftarrow> frame_bytes ys f; Some (f, out @ out') }"
proof (induction xs arbitrary: f)
  case (Cons x xs)
  then show ?case by (auto simp: split_def Option.bind_assoc intro!: Option.bind_cong [OF refl])
next
  case Nil
  then show ?case by (cases "frame_bytes ys f") auto
qed

lemma frame_bytes_step:
  "frame_bytes xs f = Some (g, o1) \<Longrightarrow> frame_bytes ys g = Some (h, o2) \<Longrightarrow> frame_bytes (xs @ ys) f = Some (h, o1 @ o2)"
  by (simp add: frame_bytes_append)

lemma frame_byte_messages: "frame_byte c f = Some (f', out) \<Longrightarrow> set out \<subseteq> range Message"
  by (auto simp: frame_byte_def Let_def split: if_splits)

lemma serve_client_stream:
  assumes "short_reads rs" "frame_bytes (received rs) f = Some (f', out)"
  shows "\<exists>out'. serve_client rs f = Some (f', out', stream_ends rs) \<and> messages out' = messages out"
  using assms
proof (induction rs f arbitrary: out rule: serve_client.induct)
  case (3 rs f)
  have l: "print_buffer [] = Some (Buffer_line (cstring []))" by (simp add: print_buffer_def BUFFER_SIZE_def)
  have "\<exists>out'. serve_client rs f = Some (f', out', stream_ends rs) \<and> messages out' = messages out"
    using "3.IH" [OF l] "3.prems" by (simp add: short_reads_def)
  then show ?case using l by (auto simp: stream_ends_def)
next
  case (4 bs rs f)
  show ?case
  proof (cases "bs = []")
    case True
    then show ?thesis using "4.prems" by (simp add: print_buffer_def BUFFER_SIZE_def stream_ends_def)
  next
    case False
  obtain g o1 o2 where g: "frame_bytes bs f = Some (g, o1)" "frame_bytes (received rs) g = Some (f', o2)" "out = o1 @ o2"
    using "4.prems"(2) False by (auto simp: frame_bytes_append split: bind_splits)
  obtain l where l: "print_buffer bs = Some (Buffer_line l)" using "4.prems"(1) by (auto simp: short_reads_def print_buffer_def)
  have "\<exists>out'. serve_client rs g = Some (f', out', stream_ends rs) \<and> messages out' = messages o2"
    using "4.IH" [OF False l g(1) refl _ g(2)] "4.prems"(1) by (simp add: short_reads_def)
  then show ?thesis using l g False by (auto simp: stream_ends_def)
  qed
qed (auto simp: print_buffer_def BUFFER_SIZE_def stream_ends_def)

section \<open>Messages\<close>

definition encode :: "byte list \<Rightarrow> byte list" where
  "encode msg = to_string (length msg) @ pipe # msg"

lemma frame_length:
  assumes "getting_len f" "pipe \<notin> set ds"
  shows "frame_bytes ds f = Some (f\<lparr>acc := foldl (\<lambda>a c. dec_digit c a) (acc f) ds\<rparr>, [])"
  using assms
proof (induction ds arbitrary: f)
  case (Cons d ds)
  then show ?case by (simp add: frame_byte_def)
qed simp

lemma frame_payload:
  assumes "\<not> getting_len f" "cs \<noteq> []" "unat (acc f) = length cs" "length (msg_buffer f) + length cs < BUFFER_SIZE"
  shows "frame_bytes cs f = Some (\<lparr>getting_len = True, acc = 0, msg_buffer = []\<rparr>, [Message (cstring (msg_buffer f @ cs))])"
  using assms
proof (induction cs arbitrary: f)
  case (Cons c cs)
  have u: "unat (acc f - 1) = length cs" using Cons.prems(3) by (subst unat_minus_one) auto
  show ?case
  proof (cases "cs = []")
    case True
    then have "acc f - 1 = 0" using u by (simp add: unat_eq_zero)
    then show ?thesis using Cons.prems True by (simp add: frame_byte_def Let_def)
  next
    case False
    then have "acc f - 1 \<noteq> 0" using u by auto
    then have "frame_byte c f = Some (f\<lparr>msg_buffer := msg_buffer f @ [c], acc := acc f - 1\<rparr>, [])"
      using Cons.prems by (simp add: frame_byte_def Let_def)
    then show ?thesis using Cons.IH [of "f\<lparr>msg_buffer := msg_buffer f @ [c], acc := acc f - 1\<rparr>"] Cons.prems False u by simp
  qed
qed simp

lemma frame_encode:
  assumes "msg \<noteq> []" "length msg < BUFFER_SIZE"
  shows "frame_bytes (encode msg) framer_new = Some (framer_new, [Message (cstring msg)])"
proof -
  let ?f = "framer_new\<lparr>acc := of_nat (length msg), getting_len := False\<rparr>"
  have "frame_bytes (to_string (length msg)) framer_new = Some (framer_new\<lparr>acc := of_nat (length msg)\<rparr>, [])"
    using frame_length [OF _ to_string_not_pipe, of framer_new] by (simp add: read_to_string framer_new_def)
  moreover have "unat (of_nat (length msg) :: u64) = length msg" using assms(2) by (simp add: unat_of_nat BUFFER_SIZE_def)
  then have "frame_bytes msg ?f = Some (framer_new, [Message (cstring msg)])"
    using frame_payload [of ?f msg] assms by (simp add: framer_new_def)
  ultimately show ?thesis by (simp add: encode_def frame_bytes_append frame_byte_def framer_new_def)
qed

lemma frame_encode_all:
  assumes "list_all (\<lambda>m. m \<noteq> [] \<and> length m < BUFFER_SIZE \<and> 0 \<notin> set m) ms"
  shows "\<exists>out. frame_bytes (concat (map encode ms)) framer_new = Some (framer_new, out) \<and> messages out = ms"
  using assms
proof (induction ms)
  case (Cons m ms)
  then have "cstring m = m" by (auto simp: cstring_def takeWhile_eq_all_conv)
  then show ?case using Cons frame_encode [of m] by (auto simp: frame_bytes_append)
qed simp

text \<open>The buffer is full before the counter is zero.\<close>

lemma frame_overflow:
  assumes "\<not> getting_len f" "length (msg_buffer f) \<le> BUFFER_SIZE"
    and "r = BUFFER_SIZE - length (msg_buffer f)"
    and "(acc f = 0 \<or> r < unat (acc f)) \<and> r < length cs \<or> unat (acc f) = r \<and> 0 < r \<and> r \<le> length cs"
  shows "frame_bytes cs f = None"
  using assms
proof (induction cs arbitrary: f r)
  case (Cons c cs)
  let ?g = "f\<lparr>msg_buffer := msg_buffer f @ [c], acc := acc f - 1\<rparr>"
  show ?case
  proof (cases "length (msg_buffer f) = BUFFER_SIZE")
    case True
    then show ?thesis using Cons.prems(1) by (simp add: frame_byte_def)
  next
    case False
    then have r: "0 < r" "r - 1 = BUFFER_SIZE - length (msg_buffer ?g)" using Cons.prems(2,3) by (auto simp: Cons.prems(3))
    have u: "unat (acc f - 1) = (if acc f = 0 then 2 ^ 64 - 1 else unat (acc f) - 1)" by (auto simp: unat_minus_one unsigned_minus_1_eq_mask mask_eq_exp_minus_1)
    have small: "r \<le> 1024" by (simp add: Cons.prems(3) BUFFER_SIZE_def)
    show ?thesis
    proof (cases "acc f - 1 = 0")
      case True
      then have "unat (acc f) = 1" "r = 1" using Cons.prems(4) u r(1) by (auto split: if_splits)
      then have "BUFFER_SIZE \<le> Suc (length (msg_buffer f))" using Cons.prems(3) by simp
      then show ?thesis using Cons.prems(1) True by (simp add: frame_byte_def Let_def)
    next
      case nz: False
      then have "unat (acc f - 1) \<noteq> 0" by (simp add: unat_eq_zero)
      then have "(acc ?g = 0 \<or> r - 1 < unat (acc ?g)) \<and> r - 1 < length cs \<or> unat (acc ?g) = r - 1 \<and> 0 < r - 1 \<and> r - 1 \<le> length cs"
        using Cons.prems(4) u r(1) small by (auto split: if_splits)
      moreover have "length (msg_buffer ?g) \<le> BUFFER_SIZE" using False Cons.prems(2) by simp
      moreover have "\<not> getting_len ?g" using Cons.prems(1) by simp
      ultimately have "frame_bytes cs ?g = None" using Cons.IH [OF _ _ r(2)] by blast
      then show ?thesis using Cons.prems(1,2) False nz by (simp add: frame_byte_def Let_def)
    qed
  qed
qed auto

section \<open>Properties\<close>

text \<open>
  C34: Framing does not depend on how TCP cuts the stream. Whatever pieces the concatenated encodings of a list of messages arrive in, the
  server prints exactly these messages in their order, and its state is the initial one afterwards. The messages are not empty, shorter than
  the buffer and free of zero bytes, and no piece fills the buffer.
\<close>

theorem framing_roundtrip:
  assumes "list_all (\<lambda>m. m \<noteq> [] \<and> length m < BUFFER_SIZE \<and> 0 \<notin> set m) ms"
    and "received rs = concat (map encode ms)" "short_reads rs"
  shows "\<exists>out. server_main 0 0 rs = Some (if stream_ends rs then Some 0 else None, out) \<and> messages out = ms"
proof -
  obtain out where "frame_bytes (received rs) framer_new = Some (framer_new, out)" "messages out = ms"
    using frame_encode_all [OF assms(1)] assms(2) by auto
  then show ?thesis using serve_client_stream [OF assms(3)] by (fastforce simp: server_main_def)
qed

theorem framing_roundtrip_witness:
  "\<exists>out. server_main 0 0 [Data (ascii ''2|a''), Failed, Data (ascii ''b1''), Data (ascii ''|c''), Closed] = Some (Some 0, out) \<and>
    messages out = [ascii ''ab'', ascii ''c'']"
proof -
  have "list_all (\<lambda>m. m \<noteq> [] \<and> length m < BUFFER_SIZE \<and> 0 \<notin> set m) [ascii ''ab'', ascii ''c'']"
    by (simp add: BUFFER_SIZE_def ascii_def of_char_def)
  from framing_roundtrip [OF this, of "[Data (ascii ''2|a''), Failed, Data (ascii ''b1''), Data (ascii ''|c''), Closed]"]
  show ?thesis by (simp add: stream_ends_def short_reads_def BUFFER_SIZE_def encode_def to_string.simps ascii_def of_char_def)
qed

text \<open>
  The client and the server together. In whatever pieces its bytes arrive, the server prints the five messages of the client; the
  zero byte behind the last one is read as a digit, so that the length of the next message would start from -48.
\<close>

theorem framing_client_server:
  assumes "received rs = concat (snd (client_main 0))" "short_reads rs"
  shows "\<exists>f out. serve_client rs framer_new = Some (f, out, stream_ends rs) \<and>
    messages out = [ascii ''hello'', ascii ''abcde'', ascii ''abc'', ascii ''hello'', ascii ''hellohello''] \<and> acc f = - 48"
proof -
  let ?ms = "[ascii ''hello'', ascii ''abcde'', ascii ''abc'', ascii ''hello'', ascii ''hellohello'']"
  have "list_all (\<lambda>m. m \<noteq> [] \<and> length m < BUFFER_SIZE \<and> 0 \<notin> set m) ?ms" by (simp add: BUFFER_SIZE_def ascii_def of_char_def)
  then obtain out where out: "frame_bytes (concat (map encode ?ms)) framer_new = Some (framer_new, out)" "messages out = ?ms"
    using frame_encode_all by blast
  have "received rs = concat (map encode ?ms) @ [0]"
    using assms(1) by (simp add: client_main_def encode_def to_string.simps ascii_def of_char_def)
  then have "frame_bytes (received rs) framer_new = Some (framer_new\<lparr>acc := - 48\<rparr>, out)"
    using frame_bytes_step [OF out(1), of "[0]" "framer_new\<lparr>acc := - 48\<rparr>" "[]"] by (simp add: frame_byte_def framer_new_def dec_digit_def)
  from serve_client_stream [OF assms(2) this] show ?thesis using out(2) by auto
qed

theorem framing_client_server_witness:
  "\<exists>f out. serve_client [Data (concat (snd (client_main 0))), Closed] framer_new = Some (f, out, True) \<and>
    messages out = [ascii ''hello'', ascii ''abcde'', ascii ''abc'', ascii ''hello'', ascii ''hellohello''] \<and> acc f = - 48"
  using framing_client_server [of "[Data (concat (snd (client_main 0))), Closed]"]
  by (simp add: stream_ends_def short_reads_def BUFFER_SIZE_def client_main_def ascii_def)

text \<open>
  C35: The announced length is not checked. A message of 1024 bytes or more, and one with the announced length zero that is followed by
  more than 1024 bytes, makes the server write behind the end of its buffer.
\<close>

theorem framing_long_message_undefined:
  assumes "BUFFER_SIZE \<le> length msg" "length msg < 2 ^ 64" "BUFFER_SIZE < length cs"
  shows "frame_bytes (encode msg) framer_new = None \<and> frame_bytes (to_string 0 @ pipe # cs) framer_new = None"
proof -
  have *: "frame_bytes (to_string n @ pipe # bs) framer_new = frame_bytes bs (framer_new\<lparr>acc := of_nat n, getting_len := False\<rparr>)" for n bs
    using frame_length [OF _ to_string_not_pipe, of framer_new n]
    by (simp add: frame_bytes_append frame_byte_def framer_new_def read_to_string)
  let ?f = "\<lambda>n. framer_new\<lparr>acc := of_nat n, getting_len := False\<rparr>"
  have "unat (of_nat (length msg) :: u64) = length msg" using assms(2) by (simp add: unat_of_nat)
  then have "frame_bytes msg (?f (length msg)) = None"
    using assms(1) by (intro frame_overflow) (auto simp: framer_new_def BUFFER_SIZE_def)
  moreover have "frame_bytes cs (?f 0) = None" using assms(3) by (intro frame_overflow) (auto simp: framer_new_def)
  ultimately show ?thesis by (simp add: encode_def *)
qed

theorem framing_long_message_undefined_witness:
  "frame_bytes (encode (replicate 1024 97)) framer_new = None \<and> frame_bytes (to_string 0 @ pipe # replicate 1025 97) framer_new = None"
  by (rule framing_long_message_undefined) (simp_all add: BUFFER_SIZE_def)

end
