(* ===== verification/Echo_Servers.thy ===== *)
theory Echo_Servers
  imports Uring_Device
begin

text \<open>
  The two echo servers of \<open>3_machine_below/3_event_poll\<close>: \<open>epoll_server.cpp\<close> and \<open>io_uring_server.cpp\<close>.

  The epoll server runs against the \<open>Kernel\<close> of the network devices. Of the io_uring server the ring is modelled as for
  the io_uring device, with the requests by value, since a \<open>unique_ptr\<close> moves into the ring and back; \<open>sent\<close>, \<open>received\<close> and
  \<open>open_fds\<close> are the kernel's view of the sockets, \<open>writes\<close> logs for every completed send its bytes and how many of them the kernel took. What the servers print is left out.
\<close>

definition ECHO_BUF :: nat where "ECHO_BUF = 4096"

section \<open>The epoll server\<close>

text \<open>\<open>main\<close> up to the loop; \<open>None\<close> is a return with 1.\<close>

definition epoll_server_setup :: "Kernel \<Rightarrow> int \<Rightarrow> (int \<times> int \<times> trace) option" where
  "epoll_server_setup K port =
     (let (ep, tr) = syscall K Epoll_create [] in
      if ep < 0 then None
      else let (lfd, tr) = syscall K Socket tr in
        if lfd < 0 then None
        else let (_, tr) = syscall K (Setsockopt lfd) tr;
                 (b, tr) = syscall K (Bind lfd port) tr in
          if b < 0 then None
          else let (l, tr) = syscall K (Listen lfd 4096) tr in
            if l < 0 then None
            else let (r, tr) = syscall K (Epoll_add lfd) tr in
              if r < 0 then None else Some (ep, lfd, tr))"

text \<open>The body of the loop over the events.\<close>

definition epoll_server_event :: "Kernel \<Rightarrow> int \<Rightarrow> int \<times> bool \<Rightarrow> trace \<Rightarrow> trace" where
  "epoll_server_event K lfd ev tr =
     (let (fd, epollin) = ev in
      if \<not> epollin then tr
      else if fd = lfd then
        let (cfd, tr) = syscall K (Accept4 lfd) tr in
        if cfd < 0 then tr
        else let (r, tr) = syscall K (Epoll_add cfd) tr in
             if r < 0 then snd (syscall K (Close cfd) tr) else tr
      else
        let bytes = payload K (map fst tr);
            (r, tr) = syscall K (Read fd ECHO_BUF) tr in
        if r \<le> 0 then snd (syscall K (Close fd) tr)
        else snd (syscall K (Write fd (take (nat r) bytes)) tr))"

text \<open>One iteration of the loop; \<open>None\<close> is the return with 1 when \<open>epoll_wait\<close> fails.\<close>

definition epoll_server_loop :: "Kernel \<Rightarrow> int \<Rightarrow> trace \<Rightarrow> trace option" where
  "epoll_server_loop K lfd tr =
     (let events = ready K (map fst tr);
          (n, tr) = syscall K (Epoll_wait MAX_EVENTS_PER_ITER) tr in
      if n < 0 then None else Some (fold (epoll_server_event K lfd) (take (nat n) events) tr))"

fun epoll_server_run :: "Kernel \<Rightarrow> int \<Rightarrow> nat \<Rightarrow> trace \<Rightarrow> trace option" where
  "epoll_server_run K lfd 0 tr = Some tr"
| "epoll_server_run K lfd (Suc k) tr = do { tr \<leftarrow> epoll_server_loop K lfd tr; epoll_server_run K lfd k tr }"

section \<open>The io_uring server\<close>

definition QUEUE_DEPTH :: nat where "QUEUE_DEPTH = 256"

record EchoRequest =
  e_type :: EventType
  e_fd :: int
  e_buf :: "byte list"

record EchoServer =
  e_listen_fd :: int
  e_sq :: "EchoRequest list"
  e_ring :: "EchoRequest list"
  open_fds :: "int set"
  received :: "int \<Rightarrow> byte list"
  sent :: "int \<Rightarrow> byte list"
  writes :: "int \<Rightarrow> (byte list \<times> nat) list"

definition e_claim_sqe :: "EchoRequest \<Rightarrow> EchoServer \<Rightarrow> EchoServer option" where
  "e_claim_sqe r s = (if length (e_sq s) < QUEUE_DEPTH then Some (s\<lparr>e_sq := e_sq s @ [r]\<rparr>) else None)"

definition e_queue_accept :: "EchoServer \<Rightarrow> EchoServer option" where
  "e_queue_accept s = e_claim_sqe \<lparr>e_type = ET_Accept, e_fd = -1, e_buf = []\<rparr> s"

definition e_queue_read :: "int \<Rightarrow> EchoServer \<Rightarrow> EchoServer option" where
  "e_queue_read fd s = e_claim_sqe \<lparr>e_type = ET_Read, e_fd = fd, e_buf = replicate ECHO_BUF 0\<rparr> s"

text \<open>The send of a write request takes the first \<open>n\<close> bytes of its buffer, which are kept.\<close>

definition e_queue_write :: "EchoRequest \<Rightarrow> nat \<Rightarrow> EchoServer \<Rightarrow> EchoServer option" where
  "e_queue_write r n s = e_claim_sqe (r\<lparr>e_type := ET_Write, e_buf := take n (e_buf r)\<rparr>) s"

definition e_close :: "int \<Rightarrow> EchoServer \<Rightarrow> EchoServer" where
  "e_close fd s = s\<lparr>open_fds := open_fds s - {fd}\<rparr>"

definition e_submit :: "EchoServer \<Rightarrow> EchoServer" where
  "e_submit s = s\<lparr>e_ring := e_ring s @ e_sq s, e_sq := []\<rparr>"

definition io_uring_server_init :: "int \<Rightarrow> EchoServer option" where
  "io_uring_server_init lfd = do {
     s \<leftarrow> e_queue_accept \<lparr>e_listen_fd = lfd, e_sq = [], e_ring = [], open_fds = {}, received = (\<lambda>_. []), sent = (\<lambda>_. []), writes = (\<lambda>_. [])\<rparr>;
     Some (e_submit s) }"

text \<open>The body of the loop for the completion of \<open>req\<close> with the result \<open>rs\<close>.\<close>

definition io_uring_server_complete :: "EchoRequest \<Rightarrow> int \<Rightarrow> EchoServer \<Rightarrow> EchoServer option" where
  "io_uring_server_complete req rs s = do {
     s \<leftarrow> (if rs < 0 then
             let s = (if e_fd req \<ge> 0 then e_close (e_fd req) s else s)
             in if e_type req = ET_Accept then e_queue_accept s else Some s
           else case e_type req of
             ET_Accept \<Rightarrow> do { s \<leftarrow> e_queue_accept s; e_queue_read rs s }
           | ET_Read \<Rightarrow> if rs = 0 then Some (e_close (e_fd req) s) else e_queue_write req (nat rs) s
           | ET_Write \<Rightarrow> e_queue_read (e_fd req) s);
     Some (e_submit s) }"

text \<open>
  What the kernel does when it completes a submitted request: an accept yields a descriptor that is not in use, a receive
  delivers up to \<open>ECHO_BUF\<close> bytes, a send takes some or all of its bytes, and each of them may fail.
\<close>

inductive echo_step :: "EchoServer \<Rightarrow> EchoServer \<Rightarrow> bool" where
  accept: "e_ring s = xs @ r # ys \<Longrightarrow> e_type r = ET_Accept \<Longrightarrow> 0 \<le> fd \<Longrightarrow> fd \<notin> open_fds s \<Longrightarrow>
    io_uring_server_complete r fd (s\<lparr>e_ring := xs @ ys, open_fds := insert fd (open_fds s),
      received := (received s)(fd := []), sent := (sent s)(fd := []), writes := (writes s)(fd := [])\<rparr>) = Some s' \<Longrightarrow> echo_step s s'"
| recv: "e_ring s = xs @ r # ys \<Longrightarrow> e_type r = ET_Read \<Longrightarrow> length bs \<le> ECHO_BUF \<Longrightarrow>
    io_uring_server_complete (r\<lparr>e_buf := bs @ drop (length bs) (e_buf r)\<rparr>) (int (length bs))
      (s\<lparr>e_ring := xs @ ys, received := (received s)(e_fd r := received s (e_fd r) @ bs)\<rparr>) = Some s' \<Longrightarrow> echo_step s s'"
| send: "e_ring s = xs @ r # ys \<Longrightarrow> e_type r = ET_Write \<Longrightarrow> n \<le> length (e_buf r) \<Longrightarrow>
    io_uring_server_complete r (int n)
      (s\<lparr>e_ring := xs @ ys, sent := (sent s)(e_fd r := sent s (e_fd r) @ take n (e_buf r)),
        writes := (writes s)(e_fd r := writes s (e_fd r) @ [(e_buf r, n)])\<rparr>) = Some s' \<Longrightarrow> echo_step s s'"
| fail: "e_ring s = xs @ r # ys \<Longrightarrow> rs < 0 \<Longrightarrow>
    io_uring_server_complete r rs (s\<lparr>e_ring := xs @ ys\<rparr>) = Some s' \<Longrightarrow> echo_step s s'"

text \<open>Requests of clients, and the state of the connection each belongs to.\<close>

definition clients :: "EchoServer \<Rightarrow> int list" where
  "clients s = map e_fd (filter (\<lambda>r. e_type r \<noteq> ET_Accept) (e_ring s))"

definition accepts :: "EchoServer \<Rightarrow> EchoRequest list" where
  "accepts s = filter (\<lambda>r. e_type r = ET_Accept) (e_ring s)"

text \<open>What was handed to the completed sends of a connection, and what the kernel took of it.\<close>

definition handed :: "EchoServer \<Rightarrow> int \<Rightarrow> byte list" where
  "handed s fd = concat (map fst (writes s fd))"

definition taken :: "EchoServer \<Rightarrow> int \<Rightarrow> byte list" where
  "taken s fd = concat (map (\<lambda>(bs, n). take n bs) (writes s fd))"

definition no_short_send :: "EchoServer \<Rightarrow> int \<Rightarrow> bool" where
  "no_short_send s fd \<longleftrightarrow> list_all (\<lambda>(bs, n). n = length bs) (writes s fd)"

lemma no_short_send_taken: "no_short_send s fd \<Longrightarrow> taken s fd = handed s fd"
  by (force simp: no_short_send_def taken_def handed_def list_all_iff intro!: arg_cong [where f = concat])

definition outstanding :: "EchoRequest \<Rightarrow> byte list" where
  "outstanding r = (if e_type r = ET_Write then e_buf r else [])"

definition echoed :: "EchoServer \<Rightarrow> EchoRequest \<Rightarrow> bool" where
  "echoed s r \<longleftrightarrow> (case e_type r of
       ET_Accept \<Rightarrow> e_fd r = -1
     | ET_Read \<Rightarrow> 0 \<le> e_fd r \<and> length (e_buf r) = ECHO_BUF \<and> handed s (e_fd r) = received s (e_fd r) \<and> sent s (e_fd r) = taken s (e_fd r)
     | ET_Write \<Rightarrow> 0 \<le> e_fd r \<and> handed s (e_fd r) @ e_buf r = received s (e_fd r) \<and> sent s (e_fd r) = taken s (e_fd r))"

definition echo_inv :: "EchoServer \<Rightarrow> bool" where
  "echo_inv s \<longleftrightarrow> e_sq s = [] \<and> length (accepts s) = 1 \<and> distinct (clients s) \<and> set (clients s) = open_fds s \<and>
     list_all (echoed s) (e_ring s)"

lemmas echo_defs = io_uring_server_complete_def e_queue_accept_def e_queue_read_def e_queue_write_def e_claim_sqe_def e_close_def
  e_submit_def QUEUE_DEPTH_def

lemma echoed_cong:
  assumes "echoed s r" "e_type r \<noteq> ET_Accept \<Longrightarrow> sent s' (e_fd r) = sent s (e_fd r) \<and> received s' (e_fd r) = received s (e_fd r) \<and> writes s' (e_fd r) = writes s (e_fd r)"
  shows "echoed s' r"
  using assms by (auto simp: echoed_def handed_def taken_def split: EventType.splits)

lemma echo_split:
  assumes "echo_inv s" "e_ring s = xs @ r # ys"
  shows "e_sq s = []" "echoed s r" "list_all (echoed s) (xs @ ys)"
    "length (accepts (s\<lparr>e_ring := xs @ ys\<rparr>)) = (if e_type r = ET_Accept then 0 else 1)"
    "distinct (clients (s\<lparr>e_ring := xs @ ys\<rparr>))"
    "set (clients (s\<lparr>e_ring := xs @ ys\<rparr>)) = (if e_type r = ET_Accept then open_fds s else open_fds s - {e_fd r})"
    "e_type r \<noteq> ET_Accept \<Longrightarrow> e_fd r \<in> open_fds s"
  using assms by (cases "e_type r = ET_Accept"; auto simp: echo_inv_def accepts_def clients_def)+

text \<open>The invariant after the requests \<open>rs\<close> are added.\<close>

lemma echo_invI:
  assumes "e_sq s' = []" "e_ring s' = xs @ ys @ new" "list_all (echoed s) (xs @ ys)" "list_all (echoed s') new"
    and "\<And>fd. fd \<in> set (clients (s\<lparr>e_ring := xs @ ys\<rparr>)) \<Longrightarrow> sent s' fd = sent s fd \<and> received s' fd = received s fd \<and> writes s' fd = writes s fd"
    and "length (accepts (s\<lparr>e_ring := xs @ ys\<rparr>)) + length (filter (\<lambda>r. e_type r = ET_Accept) new) = 1"
    and "distinct (clients (s\<lparr>e_ring := xs @ ys\<rparr>))" "distinct (map e_fd (filter (\<lambda>r. e_type r \<noteq> ET_Accept) new))"
    and "set (clients (s\<lparr>e_ring := xs @ ys\<rparr>)) \<inter> e_fd ` set (filter (\<lambda>r. e_type r \<noteq> ET_Accept) new) = {}"
    and "set (clients (s\<lparr>e_ring := xs @ ys\<rparr>)) \<union> e_fd ` set (filter (\<lambda>r. e_type r \<noteq> ET_Accept) new) = open_fds s'"
  shows "echo_inv s'"
proof -
  have "list_all (echoed s') (xs @ ys)"
    unfolding list_all_iff
  proof
    fix r assume r: "r \<in> set (xs @ ys)"
    then have "echoed s r" using assms(3) by (auto simp: list_all_iff)
    moreover have "e_type r \<noteq> ET_Accept \<Longrightarrow> e_fd r \<in> set (clients (s\<lparr>e_ring := xs @ ys\<rparr>))" using r by (auto simp: clients_def)
    ultimately show "echoed s' r" using assms(5) echoed_cong by blast
  qed
  then show ?thesis using assms by (auto simp: echo_inv_def accepts_def clients_def)
qed

lemma echo_inv_step:
  assumes "echo_inv s" "echo_step s s'"
  shows "echo_inv s'"
  using assms(2)
proof cases
  case (accept xs r ys fd)
  note sp = echo_split [OF assms(1) accept(1)]
  have "e_fd r = -1" using sp(2) accept(2) by (simp add: echoed_def)
  then have s': "e_sq s' = []" "e_ring s' = xs @ ys @ [\<lparr>e_type = ET_Accept, e_fd = -1, e_buf = []\<rparr>, \<lparr>e_type = ET_Read, e_fd = fd, e_buf = replicate ECHO_BUF 0\<rparr>]"
    "open_fds s' = insert fd (open_fds s)" "received s' = (received s)(fd := [])" "sent s' = (sent s)(fd := [])" "writes s' = (writes s)(fd := [])"
    using accept(2,3,5) sp(1) by (auto simp: echo_defs)
  show ?thesis
    by (rule echo_invI [OF s'(1,2) sp(3)]) (use s' sp accept(2-4) in \<open>auto simp: echoed_def handed_def taken_def\<close>)
next
  case (recv xs r ys bs)
  note sp = echo_split [OF assms(1) recv(1)]
  have r: "0 \<le> e_fd r" "length (e_buf r) = ECHO_BUF" "handed s (e_fd r) = received s (e_fd r)" "sent s (e_fd r) = taken s (e_fd r)" using sp(2) recv(2) by (auto simp: echoed_def)
  show ?thesis
  proof (cases "bs = []")
    case True
    then have s': "e_sq s' = []" "e_ring s' = xs @ ys @ []" "open_fds s' = open_fds s - {e_fd r}" "received s' = received s" "sent s' = sent s" "writes s' = writes s"
      using recv(2,4) sp(1) by (auto simp: echo_defs)
    show ?thesis by (rule echo_invI [OF s'(1,2) sp(3)]) (use s' sp recv(2) in auto)
  next
    case False
    then have s': "e_sq s' = []" "e_ring s' = xs @ ys @ [r\<lparr>e_type := ET_Write, e_buf := bs\<rparr>]" "open_fds s' = open_fds s"
      "received s' = (received s)(e_fd r := received s (e_fd r) @ bs)" "sent s' = sent s" "writes s' = writes s"
      using recv(2,4) sp(1) by (auto simp: echo_defs)
    show ?thesis by (rule echo_invI [OF s'(1,2) sp(3)]) (use s' sp r recv(2) in \<open>auto simp: echoed_def handed_def taken_def\<close>)
  qed
next
  case (send xs r ys n)
  note sp = echo_split [OF assms(1) send(1)]
  have r: "0 \<le> e_fd r" "handed s (e_fd r) @ e_buf r = received s (e_fd r)" "sent s (e_fd r) = taken s (e_fd r)" using sp(2) send(2) by (auto simp: echoed_def)
  have s': "e_sq s' = []" "e_ring s' = xs @ ys @ [\<lparr>e_type = ET_Read, e_fd = e_fd r, e_buf = replicate ECHO_BUF 0\<rparr>]" "open_fds s' = open_fds s"
    "received s' = received s" "sent s' = (sent s)(e_fd r := sent s (e_fd r) @ take n (e_buf r))" "writes s' = (writes s)(e_fd r := writes s (e_fd r) @ [(e_buf r, n)])"
    using send(2,4) sp(1) by (auto simp: echo_defs)
  show ?thesis by (rule echo_invI [OF s'(1,2) sp(3)]) (use s' sp r send(2) in \<open>auto simp: echoed_def handed_def taken_def\<close>)
next
  case (fail xs r ys rs)
  note sp = echo_split [OF assms(1) fail(1)]
  show ?thesis
  proof (cases "e_type r = ET_Accept")
    case True
    then have "e_fd r = -1" using sp(2) by (simp add: echoed_def)
    then have s': "e_sq s' = []" "e_ring s' = xs @ ys @ [\<lparr>e_type = ET_Accept, e_fd = -1, e_buf = []\<rparr>]" "open_fds s' = open_fds s"
      "received s' = received s" "sent s' = sent s" "writes s' = writes s"
      using fail(2,3) sp(1) True by (auto simp: echo_defs)
    show ?thesis by (rule echo_invI [OF s'(1,2) sp(3)]) (use s' sp True in \<open>auto simp: echoed_def handed_def taken_def\<close>)
  next
    case False
    then have "0 \<le> e_fd r" using sp(2) by (auto simp: echoed_def handed_def taken_def split: EventType.splits)
    then have s': "e_sq s' = []" "e_ring s' = xs @ ys @ []" "open_fds s' = open_fds s - {e_fd r}" "received s' = received s" "sent s' = sent s" "writes s' = writes s"
      using fail(2,3) sp(1) False by (auto simp: echo_defs)
    show ?thesis by (rule echo_invI [OF s'(1,2) sp(3)]) (use s' sp False in auto)
  qed
qed

lemma echo_inv_init: "io_uring_server_init lfd = Some s \<Longrightarrow> echo_inv s"
  by (auto simp: io_uring_server_init_def echo_defs echo_inv_def accepts_def clients_def echoed_def)

lemma echo_inv_reachable:
  assumes "io_uring_server_init lfd = Some s" "echo_step\<^sup>*\<^sup>* s s'"
  shows "echo_inv s'"
  using assms(2) by induction (use assms(1) echo_inv_init echo_inv_step in blast)+

section \<open>What the epoll server reads and writes\<close>

definition read_bytes :: "Kernel \<Rightarrow> int \<Rightarrow> trace \<Rightarrow> syscall \<times> int \<Rightarrow> byte list" where
  "read_bytes K fd tr e = (case e of
       (Read f n, r) \<Rightarrow> if f = fd \<and> 0 < r then take (nat r) (payload K (map fst tr)) else []
     | _ \<Rightarrow> [])"

definition written_bytes :: "int \<Rightarrow> syscall \<times> int \<Rightarrow> byte list" where
  "written_bytes fd e = (case e of (Write f bs, r) \<Rightarrow> if f = fd then bs else [] | _ \<Rightarrow> [])"

definition reads_of :: "Kernel \<Rightarrow> int \<Rightarrow> trace \<Rightarrow> byte list" where
  "reads_of K fd tr = concat (map (\<lambda>i. read_bytes K fd (take i tr) (tr ! i)) [0..<length tr])"

definition writes_of :: "int \<Rightarrow> trace \<Rightarrow> byte list" where
  "writes_of fd tr = concat (map (written_bytes fd) tr)"

lemma reads_of_snoc: "reads_of K fd (tr @ [e]) = reads_of K fd tr @ read_bytes K fd tr e"
proof -
  have upt: "[0..<length (tr @ [e])] = [0..<length tr] @ [length tr]"
    and end_: "take (length tr) (tr @ [e]) = tr" "(tr @ [e]) ! length tr = e" by simp_all
  have "map (\<lambda>i. read_bytes K fd (take i (tr @ [e])) ((tr @ [e]) ! i)) [0..<length tr] =
      map (\<lambda>i. read_bytes K fd (take i tr) (tr ! i)) [0..<length tr]"
    by (rule map_cong) (auto simp: nth_append)
  then show ?thesis
    unfolding reads_of_def upt by (simp only: map_append list.map end_ concat_append concat.simps append_Nil2)
qed

lemma writes_of_snoc: "writes_of fd (tr @ [e]) = writes_of fd tr @ written_bytes fd e"
  by (simp add: writes_of_def)

definition balanced :: "Kernel \<Rightarrow> trace \<Rightarrow> bool" where
  "balanced K tr \<longleftrightarrow> (\<forall>fd. writes_of fd tr = reads_of K fd tr)"

lemma balanced_other:
  assumes "balanced K tr" "\<And>f n. c \<noteq> Read f n" "\<And>f bs. c \<noteq> Write f bs"
  shows "balanced K (snd (syscall K c tr))"
  using assms by (auto simp: balanced_def syscall_def log_call_def Let_def reads_of_snoc writes_of_snoc read_bytes_def written_bytes_def
      split: syscall.splits)

lemma balanced_call:
  "syscall K c tr = (r, tr') \<Longrightarrow> balanced K tr \<Longrightarrow> (case c of Read f n \<Rightarrow> False | Write f bs \<Rightarrow> False | _ \<Rightarrow> True) \<Longrightarrow> balanced K tr'"
  using balanced_other [of K tr c] by (auto split: syscall.splits)

lemma balanced_echo:
  assumes "balanced K tr" "0 < r"
  shows "balanced K ((tr @ [(Read fd n, r)]) @ [(Write fd (take (nat r) (payload K (map fst tr))), w)])"
  using assms unfolding balanced_def reads_of_snoc writes_of_snoc by (simp add: read_bytes_def written_bytes_def)

lemma balanced_event:
  assumes "balanced K tr"
  shows "balanced K (epoll_server_event K lfd ev tr)"
proof -
  obtain fd i where ev: "ev = (fd, i)" by fastforce
  let ?bytes = "payload K (map fst tr)" let ?r = "answer K (map fst tr) (Read fd ECHO_BUF)"
  let ?tr = "tr @ [(Read fd ECHO_BUF, ?r)]"
  have read: "syscall K (Read fd ECHO_BUF) tr = (?r, ?tr)" by (simp add: syscall_def log_call_def Let_def)
  show ?thesis
  proof (cases "\<not> i \<or> fd = lfd")
    case True
    obtain cfd tr1 where a: "syscall K (Accept4 lfd) tr = (cfd, tr1)" by fastforce
    obtain r tr2 where e: "syscall K (Epoll_add cfd) tr1 = (r, tr2)" by fastforce
    have "balanced K tr1" using balanced_other [OF assms, of "Accept4 lfd"] a by simp
    moreover then have "balanced K tr2" using balanced_other [of K tr1 "Epoll_add cfd"] e by simp
    moreover then have "balanced K (snd (syscall K (Close cfd) tr2))" by (rule balanced_other) simp_all
    ultimately show ?thesis using True assms a e by (auto simp: epoll_server_event_def ev)
  next
    case False
    show ?thesis
    proof (cases "?r \<le> 0")
      case True
      then have "balanced K ?tr" using assms by (simp add: balanced_def reads_of_snoc writes_of_snoc read_bytes_def written_bytes_def)
      then have "balanced K (snd (syscall K (Close fd) ?tr))" by (rule balanced_other) simp_all
      then show ?thesis using False True read by (simp add: epoll_server_event_def ev)
    next
      case pos: False
      have "balanced K (snd (syscall K (Write fd (take (nat ?r) ?bytes)) ?tr))"
        using balanced_echo [OF assms, of ?r fd ECHO_BUF] pos by (simp add: syscall_def log_call_def Let_def)
      then show ?thesis using False pos read by (simp add: epoll_server_event_def ev)
    qed
  qed
qed

lemma balanced_fold: "balanced K tr \<Longrightarrow> balanced K (fold (epoll_server_event K lfd) evs tr)"
  by (induction evs arbitrary: tr) (auto intro: balanced_event)

lemma balanced_run: "balanced K tr \<Longrightarrow> epoll_server_run K lfd k tr = Some tr' \<Longrightarrow> balanced K tr'"
proof (induction K lfd k tr rule: epoll_server_run.induct)
  case (2 K lfd k tr)
  obtain tr1 where tr1: "epoll_server_loop K lfd tr = Some tr1" "epoll_server_run K lfd k tr1 = Some tr'"
    using "2.prems"(2) by (auto split: bind_splits)
  have "balanced K (snd (syscall K (Epoll_wait MAX_EVENTS_PER_ITER) tr))" by (rule balanced_other [OF "2.prems"(1)]) simp_all
  then have "balanced K tr1"
    using tr1(1) balanced_fold by (auto simp: epoll_server_loop_def Let_def split: prod.splits if_splits)
  then show ?case using "2.IH" tr1 by blast
qed simp

lemma balanced_setup: "epoll_server_setup K port = Some (ep, lfd, tr) \<Longrightarrow> balanced K tr"
proof -
  have "balanced K []" by (simp add: balanced_def reads_of_def writes_of_def)
  then show "epoll_server_setup K port = Some (ep, lfd, tr) \<Longrightarrow> balanced K tr"
    unfolding epoll_server_setup_def by (auto split: prod.splits if_splits dest!: balanced_call)
qed

section \<open>Properties\<close>

text \<open>
  C36: In every state the io_uring echo server can reach, one accept is outstanding, every open connection has exactly one outstanding request and
  no other connection has one, and the bytes received on a connection are those handed to its completed sends followed by those in its outstanding write: none is handed over twice, lost
  before it is handed over or reordered. What went out are the prefixes the kernel took of these sends, so on a connection without a short send the bytes sent, followed by those in the
  outstanding write, are the bytes received. The submission queue is empty again after every completion, so an entry is always available.
\<close>

theorem uring_echo_accounted:
  assumes "io_uring_server_init lfd = Some s0" "echo_step\<^sup>*\<^sup>* s0 s"
  shows "length (accepts s) = 1 \<and> distinct (clients s) \<and> set (clients s) = open_fds s \<and> list_all (echoed s) (e_ring s) \<and>
    list_all (\<lambda>r. e_type r = ET_Accept \<or> (no_short_send s (e_fd r) \<longrightarrow> sent s (e_fd r) @ outstanding r = received s (e_fd r))) (e_ring s) \<and>
    (\<forall>r rs. io_uring_server_complete r rs s \<noteq> None)"
proof -
  have inv: "echo_inv s" by (rule echo_inv_reachable [OF assms])
  then have "e_sq s = []" by (simp add: echo_inv_def)
  then have "\<forall>r rs. io_uring_server_complete r rs s \<noteq> None" by (auto simp: echo_defs split: EventType.splits)
  moreover have "e_type r = ET_Accept \<or> (no_short_send s (e_fd r) \<longrightarrow> sent s (e_fd r) @ outstanding r = received s (e_fd r))" if "echoed s r" for r
    using that no_short_send_taken [of s "e_fd r"] by (auto simp: echoed_def outstanding_def split: EventType.splits)
  ultimately show ?thesis using inv by (auto simp: echo_inv_def list_all_iff)
qed

text \<open>A connection on which the kernel took one of two bytes: the other one has been received and handed over, but is not sent any more.\<close>

theorem uring_echo_accounted_witness:
  "\<exists>s. received s 5 = [104, 105] \<and> sent s 5 = [104] \<and> length (accepts s) = 1 \<and> distinct (clients s) \<and> set (clients s) = open_fds s \<and> list_all (echoed s) (e_ring s)"
proof -
  let ?acc = "\<lparr>e_type = ET_Accept, e_fd = -1, e_buf = []\<rparr>" let ?rd = "\<lparr>e_type = ET_Read, e_fd = 5, e_buf = replicate ECHO_BUF 0\<rparr>"
  let ?wr = "\<lparr>e_type = ET_Write, e_fd = 5, e_buf = [104, 105]\<rparr>"
  define S where "S = (\<lambda>ring fds i j w. \<lparr>e_listen_fd = 3, e_sq = [], e_ring = ring, open_fds = fds, received = (\<lambda>_. [])(5 := i), sent = (\<lambda>_. [])(5 := j), writes = (\<lambda>_. [])(5 := w)\<rparr>)"
  have "io_uring_server_init 3 = Some (S [?acc] {} [] [] [])" by (simp add: io_uring_server_init_def echo_defs S_def fun_upd_idem)
  moreover have "echo_step (S [?acc] {} [] [] []) (S [?acc, ?rd] {5} [] [] [])"
    by (rule echo_step.accept [where xs = "[]" and r = ?acc and fd = 5]) (simp_all add: S_def echo_defs)
  moreover have "echo_step (S [?acc, ?rd] {5} [] [] []) (S [?acc, ?wr] {5} [104, 105] [] [])"
    by (rule echo_step.recv [where xs = "[?acc]" and r = ?rd and ys = "[]" and bs = "[104, 105]"]) (simp_all add: S_def echo_defs ECHO_BUF_def)
  moreover have "echo_step (S [?acc, ?wr] {5} [104, 105] [] []) (S [?acc, ?rd] {5} [104, 105] [104] [([104, 105], 1)])"
    by (rule echo_step.send [where xs = "[?acc]" and r = ?wr and ys = "[]" and n = 1]) (simp_all add: S_def echo_defs)
  ultimately show ?thesis
    using uring_echo_accounted [of 3 "S [?acc] {} [] [] []" "S [?acc, ?rd] {5} [104, 105] [104] [([104, 105], 1)]"]
    by (intro exI [of _ "S [?acc, ?rd] {5} [104, 105] [104] [([104, 105], 1)]"]) (simp add: S_def converse_rtranclp_into_rtranclp)
qed

text \<open>
  However long the epoll echo server runs, the bytes it hands to \<open>write\<close> for a connection are the bytes it read from it, in order.
\<close>

theorem epoll_echo_exact:
  assumes "epoll_server_setup K port = Some (ep, lfd, tr)" "epoll_server_run K lfd k tr = Some tr'"
  shows "writes_of fd tr' = reads_of K fd tr'"
  using balanced_run [OF balanced_setup [OF assms(1)] assms(2)] by (simp add: balanced_def)

theorem epoll_echo_exact_witness:
  "\<exists>K tr'. epoll_server_run K 3 1 [(Epoll_create, 7), (Socket, 3), (Setsockopt 3, 7), (Bind 3 8080, 7), (Listen 3 4096, 7), (Epoll_add 3, 7)] = Some tr' \<and>
    writes_of 5 tr' = [1, 2] \<and> writes_of 5 tr' = reads_of K 5 tr'"
proof -
  define K where "K = \<lparr>answer = (\<lambda>_ c. case c of Socket \<Rightarrow> 3 | Epoll_wait _ \<Rightarrow> 1 | Read _ _ \<Rightarrow> 2 | _ \<Rightarrow> 7), payload = (\<lambda>_. [1, 2]), ready = (\<lambda>_. [(5, True)])\<rparr>"
  let ?tr = "[(Epoll_create, 7), (Socket, 3), (Setsockopt 3, 7), (Bind 3 8080, 7), (Listen 3 4096, 7), (Epoll_add 3, 7)]"
  have "epoll_server_setup K 8080 = Some (7, 3, ?tr)" by (simp add: epoll_server_setup_def syscall_def log_call_def K_def)
  moreover have "epoll_server_run K 3 1 ?tr = Some (?tr @ [(Epoll_wait 10, 1), (Read 5 4096, 2), (Write 5 [1, 2], 7)])"
    by (simp add: epoll_server_loop_def epoll_server_event_def syscall_def log_call_def K_def MAX_EVENTS_PER_ITER_def ECHO_BUF_def)
  ultimately show ?thesis using epoll_echo_exact [of K 8080 7 3 ?tr 1 _ 5]
    by (intro exI [of _ K] exI [of _ "?tr @ [(Epoll_wait 10, 1), (Read 5 4096, 2), (Write 5 [1, 2], 7)]"])
      (simp add: writes_of_def written_bytes_def)
qed

text \<open>
  A send that takes only part of the bytes is treated like a complete one: the rest is in no request any more.
\<close>

theorem uring_echo_short_send_drops_rest:
  assumes "e_type r = ET_Write" "0 \<le> rs" "e_sq s = []"
  shows "io_uring_server_complete r rs s = Some (s\<lparr>e_ring := e_ring s @ [\<lparr>e_type = ET_Read, e_fd = e_fd r, e_buf = replicate ECHO_BUF 0\<rparr>], e_sq := []\<rparr>)"
  using assms by (simp add: echo_defs)

end
