(* ===== verification/Thread_Pool.thy ===== *)
theory Thread_Pool
  imports Prelude "HOL-Library.Multiset"
begin

text \<open>
  The thread pool of \<open>2_cpp_basics/4_thread_pool/th_pool.cpp\<close>: \<open>S\<close> workers with a queue each, which take jobs from the other
  queues when their own is empty and sleep on a condition variable when all are.

  A step of a thread is one access to shared state: an operation of \<open>th_sf_queue\<close>, which holds the mutex of the queue throughout, or an
  operation on \<open>cv_mutex\<close> or the condition variable. \<open>'j\<close> is the type of the tasks, a promise with a function and its
  argument; \<open>outcome j\<close> is what the function returns or throws, and \<open>finished\<close> records the promises that were set, with their
  outcome. The counter of the queues wraps around at 2 ^ 64.
\<close>

datatype ('e, 'r) outcome = Value 'r | Exception 'e

datatype 'j worker =
    W_loop
  | W_own
  | W_steal nat
  | W_run 'j
  | W_lock
  | W_check
  | W_pred nat
  | W_sleep
  | W_woken
  | W_done

datatype 'j submitter = S_idle | S_claimed nat 'j | S_enqueued

record ('j, 'e, 'r) thread_pool =
  promises :: "nat \<Rightarrow> 'j list"
  next_queue :: u64
  cv_mutex :: "nat option"
  stop :: "nat \<Rightarrow> bool"
  threads :: "nat \<Rightarrow> 'j worker"
  callers :: "nat \<Rightarrow> 'j submitter"
  submitted :: "'j list"
  finished :: "('j \<times> ('e, 'r) outcome) list"

section \<open>The thread-safe queue\<close>

definition th_enqueue :: "nat \<Rightarrow> 'j \<Rightarrow> ('j, 'e, 'r) thread_pool \<Rightarrow> ('j, 'e, 'r) thread_pool" where
  "th_enqueue k j s = s\<lparr>promises := (promises s)(k := promises s k @ [j])\<rparr>"

definition th_dequeue :: "nat \<Rightarrow> ('j, 'e, 'r) thread_pool \<Rightarrow> ('j, 'e, 'r) thread_pool \<times> 'j option" where
  "th_dequeue k s = (case promises s k of
       [] \<Rightarrow> (s, None)
     | j # js \<Rightarrow> (s\<lparr>promises := (promises s)(k := js)\<rparr>, Some j))"

definition queue_len :: "nat \<Rightarrow> ('j, 'e, 'r) thread_pool \<Rightarrow> nat" where
  "queue_len k s = length (promises s k)"

section \<open>Threads\<close>

definition goto :: "nat \<Rightarrow> 'j worker \<Rightarrow> ('j, 'e, 'r) thread_pool \<Rightarrow> ('j, 'e, 'r) thread_pool" where
  "goto w p s = s\<lparr>threads := (threads s)(w := p)\<rparr>"

definition thread_pool_new :: "('j, 'e, 'r) thread_pool" where
  "thread_pool_new = \<lparr>promises = (\<lambda>_. []), next_queue = 0, cv_mutex = None, stop = (\<lambda>_. False), threads = (\<lambda>_. W_loop),
     callers = (\<lambda>_. S_idle), submitted = [], finished = []\<rparr>"

text \<open>
  One step of \<open>thread_handler\<close>, for the worker \<open>w\<close>; \<open>None\<close> when it is blocked or has ended. \<open>W_check\<close> is the head of the loop
  inside \<open>cv.wait(lk, st, pred)\<close>: it returns when a stop is requested or the predicate holds, and otherwise releases the mutex and sleeps, in
  one step, unless a stop has been requested.
\<close>

definition thread_handler :: "nat \<Rightarrow> ('j \<Rightarrow> ('e, 'r) outcome) \<Rightarrow> nat \<Rightarrow> ('j, 'e, 'r) thread_pool \<Rightarrow> ('j, 'e, 'r) thread_pool option" where
  "thread_handler S outcome w s = (case threads s w of
       W_loop \<Rightarrow> Some (goto w (if stop s w then W_done else W_own) s)
     | W_own \<Rightarrow> (let (s, task) = th_dequeue w s in
         Some (goto w (case task of Some j \<Rightarrow> W_run j | None \<Rightarrow> W_steal 0) s))
     | W_steal i \<Rightarrow>
         if i = S then Some (goto w W_lock s)
         else let (s, task) = th_dequeue i s in
           Some (goto w (case task of Some j \<Rightarrow> W_run j | None \<Rightarrow> W_steal (i + 1)) s)
     | W_run j \<Rightarrow> Some (goto w W_loop (s\<lparr>finished := finished s @ [(j, outcome j)]\<rparr>))
     | W_lock \<Rightarrow> if cv_mutex s = None then Some (goto w W_check (s\<lparr>cv_mutex := Some w\<rparr>)) else None
     | W_check \<Rightarrow> if stop s w then Some (goto w W_loop (s\<lparr>cv_mutex := None\<rparr>)) else Some (goto w (W_pred 0) s)
     | W_pred i \<Rightarrow>
         if i = S then
           (if stop s w then Some (goto w W_check s) else Some (goto w W_sleep (s\<lparr>cv_mutex := None\<rparr>)))
         else if queue_len i s > 0 then Some (goto w W_loop (s\<lparr>cv_mutex := None\<rparr>))
         else Some (goto w (W_pred (i + 1)) s)
     | W_sleep \<Rightarrow> None
     | W_woken \<Rightarrow> if cv_mutex s = None then Some (goto w W_check (s\<lparr>cv_mutex := Some w\<rparr>)) else None
     | W_done \<Rightarrow> None)"

text \<open>\<open>notify_all\<close> and, when a stop is requested, the wake-up of one worker.\<close>

definition wake :: "'j worker \<Rightarrow> 'j worker" where
  "wake p = (case p of W_sleep \<Rightarrow> W_woken | _ \<Rightarrow> p)"

definition notify_all :: "('j, 'e, 'r) thread_pool \<Rightarrow> ('j, 'e, 'r) thread_pool" where
  "notify_all s = s\<lparr>threads := (\<lambda>w. wake (threads s w))\<rparr>"

definition request_stop :: "nat \<Rightarrow> ('j, 'e, 'r) thread_pool \<Rightarrow> ('j, 'e, 'r) thread_pool" where
  "request_stop w s = goto w (wake (threads s w)) (s\<lparr>stop := (stop s)(w := True)\<rparr>)"

text \<open>\<open>schedule_job\<close> by the thread \<open>t\<close>: the choice of the queue, the enqueue, and the notification under the mutex.\<close>

definition schedule_job :: "nat \<Rightarrow> nat \<Rightarrow> 'j \<Rightarrow> ('j, 'e, 'r) thread_pool \<Rightarrow> ('j, 'e, 'r) thread_pool" where
  "schedule_job S t j s =
     s\<lparr>next_queue := next_queue s + 1, callers := (callers s)(t := S_claimed (unat (next_queue s) mod S) j), submitted := submitted s @ [j]\<rparr>"

definition caller_step :: "nat \<Rightarrow> ('j, 'e, 'r) thread_pool \<Rightarrow> ('j, 'e, 'r) thread_pool option" where
  "caller_step t s = (case callers s t of
       S_idle \<Rightarrow> None
     | S_claimed q j \<Rightarrow> Some (th_enqueue q j (s\<lparr>callers := (callers s)(t := S_enqueued)\<rparr>))
     | S_enqueued \<Rightarrow> if cv_mutex s = None then Some (notify_all (s\<lparr>callers := (callers s)(t := S_idle)\<rparr>)) else None)"

text \<open>The job of the program's \<open>main\<close>, which schedules it for 1 to 16 on a pool of four workers: the square, modulo 2 ^ 64.\<close>

definition square :: "u64 \<Rightarrow> u64" where
  "square v = v * v"

text \<open>
  All steps, with \<open>T\<close> threads that schedule jobs. A sleeping worker may wake up without a reason.
\<close>

inductive pool_step :: "nat \<Rightarrow> nat \<Rightarrow> ('j \<Rightarrow> ('e, 'r) outcome) \<Rightarrow> ('j, 'e, 'r) thread_pool \<Rightarrow> ('j, 'e, 'r) thread_pool \<Rightarrow> bool"
  for S T out where
  work: "w < S \<Longrightarrow> thread_handler S out w s = Some s' \<Longrightarrow> pool_step S T out s s'"
| spurious: "w < S \<Longrightarrow> threads s w = W_sleep \<Longrightarrow> pool_step S T out s (goto w W_woken s)"
| submit: "t < T \<Longrightarrow> callers s t = S_idle \<Longrightarrow> pool_step S T out s (schedule_job S t j s)"
| caller: "t < T \<Longrightarrow> caller_step t s = Some s' \<Longrightarrow> pool_step S T out s s'"
| stop: "w < S \<Longrightarrow> pool_step S T out s (request_stop w s)"

text \<open>The destructor has returned from all its calls of \<open>join\<close>.\<close>

definition joined :: "nat \<Rightarrow> ('j, 'e, 'r) thread_pool \<Rightarrow> bool" where
  "joined S s \<longleftrightarrow> (\<forall>w<S. threads s w = W_done)"

section \<open>Invariants\<close>

text \<open>The worker that holds the mutex is the one inside \<open>wait\<close>.\<close>

fun holder :: "'j worker \<Rightarrow> bool" where
  "holder W_check = True"
| "holder (W_pred i) = True"
| "holder _ = False"

definition mutex_inv :: "nat \<Rightarrow> ('j, 'e, 'r) thread_pool \<Rightarrow> bool" where
  "mutex_inv S s \<longleftrightarrow> (\<forall>w<S. cv_mutex s = Some w \<longleftrightarrow> holder (threads s w)) \<and> (\<forall>w. cv_mutex s = Some w \<longrightarrow> w < S)"

text \<open>The queues a worker has found empty while it holds the mutex, or before it went to sleep.\<close>

definition checked :: "nat \<Rightarrow> 'j worker \<Rightarrow> nat set" where
  "checked S p = (case p of W_pred i \<Rightarrow> {..<i} | W_sleep \<Rightarrow> {..<S} | _ \<Rightarrow> {})"

definition wakeup_inv :: "nat \<Rightarrow> nat \<Rightarrow> ('j, 'e, 'r) thread_pool \<Rightarrow> bool" where
  "wakeup_inv S T s \<longleftrightarrow> (\<forall>w<S. \<forall>k\<in>checked S (threads s w). promises s k \<noteq> [] \<longrightarrow> (\<exists>t<T. callers s t = S_enqueued))"

text \<open>A worker that has been asked to stop does not sleep.\<close>

definition stop_inv :: "nat \<Rightarrow> ('j, 'e, 'r) thread_pool \<Rightarrow> bool" where
  "stop_inv S s \<longleftrightarrow> (\<forall>w<S. stop s w \<longrightarrow> threads s w \<noteq> W_sleep)"

text \<open>The jobs at each place.\<close>

definition caller_job :: "'j submitter \<Rightarrow> 'j multiset" where
  "caller_job p = (case p of S_claimed q j \<Rightarrow> {#j#} | _ \<Rightarrow> {#})"

definition worker_job :: "'j worker \<Rightarrow> 'j multiset" where
  "worker_job p = (case p of W_run j \<Rightarrow> {#j#} | _ \<Rightarrow> {#})"

definition all_jobs :: "nat \<Rightarrow> nat \<Rightarrow> ('j, 'e, 'r) thread_pool \<Rightarrow> 'j multiset" where
  "all_jobs S T s = (\<Sum>t<T. caller_job (callers s t)) + (\<Sum>k<S. mset (promises s k)) + (\<Sum>w<S. worker_job (threads s w)) + mset (map fst (finished s))"

definition index_inv :: "nat \<Rightarrow> nat \<Rightarrow> ('j, 'e, 'r) thread_pool \<Rightarrow> bool" where
  "index_inv S T s \<longleftrightarrow> (\<forall>w<S. \<forall>i. threads s w = W_steal i \<or> threads s w = W_pred i \<longrightarrow> i \<le> S) \<and>
     (\<forall>t<T. \<forall>q j. callers s t = S_claimed q j \<longrightarrow> q < S)"

definition jobs_inv :: "nat \<Rightarrow> nat \<Rightarrow> ('j \<Rightarrow> ('e, 'r) outcome) \<Rightarrow> ('j, 'e, 'r) thread_pool \<Rightarrow> bool" where
  "jobs_inv S T out s \<longleftrightarrow> mset (submitted s) = all_jobs S T s \<and>
     (\<forall>j r. (j, r) \<in> set (finished s) \<longrightarrow> r = out j)"

lemma sum_fun_upd:
  fixes f :: "'b \<Rightarrow> 'j multiset" and g :: "nat \<Rightarrow> 'b"
  assumes "k < n"
  shows "(\<Sum>i<n. f ((g(k := x)) i)) + f (g k) = (\<Sum>i<n. f (g i)) + f x"
proof -
  have "{..<n} = insert k ({..<n} - {k})" using assms by auto
  then have "(\<Sum>i<n. f (h i)) = f (h k) + (\<Sum>i\<in>{..<n} - {k}. f (h i))" for h :: "nat \<Rightarrow> 'b"
    by (metis finite_lessThan lessThan_iff assms sum.remove)
  from this [of "g(k := x)"] this [of g] show ?thesis by (simp add: add_ac)
qed

lemmas pool_defs = goto_def th_dequeue_def th_enqueue_def queue_len_def schedule_job_def notify_all_def request_stop_def

lemma mutex_worker:
  assumes "thread_handler S out w s = Some s'" "mutex_inv S s" "w < S"
  shows "(\<forall>v. v \<noteq> w \<longrightarrow> threads s' v = threads s v) \<and>
    (cv_mutex s' = cv_mutex s \<and> holder (threads s' w) = holder (threads s w) \<or>
     cv_mutex s = None \<and> cv_mutex s' = Some w \<and> holder (threads s' w) \<or>
     cv_mutex s = Some w \<and> cv_mutex s' = None \<and> \<not> holder (threads s' w))"
proof -
  have "cv_mutex s = Some w \<longleftrightarrow> holder (threads s w)" using assms(2,3) by (simp add: mutex_inv_def)
  then show ?thesis using assms(1)
    by (cases "threads s w") (auto simp: thread_handler_def pool_defs split: if_splits list.splits)
qed

lemma holder_wake [simp]: "holder (wake p) = holder p"
  by (cases p) (simp_all add: wake_def)

lemma mutex_inv_step:
  assumes "mutex_inv S s" "pool_step S T out s s'"
  shows "mutex_inv S s'"
  using assms(2)
proof cases
  case (work w)
  note step = mutex_worker [OF work(2) assms(1) work(1)]
  have inv: "cv_mutex s = Some v \<longleftrightarrow> holder (threads s v)" if "v < S" for v using assms(1) that by (simp add: mutex_inv_def)
  have "cv_mutex s' = Some v \<longleftrightarrow> holder (threads s' v)" if "v < S" for v
    using step inv [OF that] inv [OF work(1)] by (cases "v = w") auto
  moreover have lt: "v < S" if "cv_mutex s = Some v" for v using assms(1) that by (simp add: mutex_inv_def)
  have "v < S" if "cv_mutex s' = Some v" for v using step lt [of v] work(1) that by auto
  ultimately show ?thesis by (simp add: mutex_inv_def)
next
  case (caller t)
  then have "cv_mutex s' = cv_mutex s" "holder (threads s' v) = holder (threads s v)" for v
    by (auto simp: caller_step_def pool_defs split: submitter.splits if_splits)
  then show ?thesis using assms(1) by (simp add: mutex_inv_def)
qed (use assms(1) in \<open>simp_all add: mutex_inv_def pool_defs\<close>)

lemma index_inv_step:
  assumes "index_inv S T s" "0 < S" "pool_step S T out s s'"
  shows "index_inv S T s'"
  using assms(3)
proof cases
  case (work w)
  have "(\<forall>v. v \<noteq> w \<longrightarrow> threads s' v = threads s v) \<and> callers s' = callers s \<and> (\<forall>i. threads s' w = W_steal i \<or> threads s' w = W_pred i \<longrightarrow> i \<le> S)"
  proof -
    have le: "i \<le> S" if "threads s w = W_steal i \<or> threads s w = W_pred i" for i using assms(1) work(1) that by (auto simp: index_inv_def)
    show ?thesis using work(2) le by (cases "threads s w") (force simp: thread_handler_def pool_defs split: if_splits list.splits)+
  qed
  then show ?thesis using assms(1) unfolding index_inv_def by metis
next
  case (caller t)
  then show ?thesis using assms(1)
    by (auto simp: caller_step_def index_inv_def pool_defs wake_def split: submitter.splits worker.splits if_splits)
qed (use assms(1,2) in \<open>auto simp: index_inv_def pool_defs wake_def split: worker.splits if_splits\<close>)

lemma stop_inv_step:
  assumes "stop_inv S s" "pool_step S T out s s'"
  shows "stop_inv S s'"
  using assms(2)
proof cases
  case (work w)
  have "(\<forall>v. v \<noteq> w \<longrightarrow> threads s' v = threads s v) \<and> stop s' = stop s \<and> (threads s' w = W_sleep \<longrightarrow> \<not> stop s w)"
    using work by (cases "threads s w") (auto simp: thread_handler_def pool_defs split: if_splits list.splits)
  then show ?thesis using assms(1) unfolding stop_inv_def by metis
next
  case (caller t)
  then show ?thesis using assms(1)
    by (auto simp: caller_step_def stop_inv_def pool_defs wake_def split: submitter.splits worker.splits if_splits)
qed (use assms(1) in \<open>auto simp: stop_inv_def pool_defs wake_def split: worker.splits\<close>)

text \<open>A step of a worker takes jobs from queues and checks one queue at a time.\<close>

lemma checked_worker:
  assumes "thread_handler S out w s = Some s'"
  shows "(\<forall>v. v \<noteq> w \<longrightarrow> threads s' v = threads s v) \<and> callers s' = callers s \<and> (\<forall>k. promises s' k \<noteq> [] \<longrightarrow> promises s k \<noteq> []) \<and>
    (\<forall>k\<in>checked S (threads s' w). k \<in> checked S (threads s w) \<or> promises s k = [])"
  using assms
  by (cases "threads s w") (auto simp: thread_handler_def checked_def pool_defs less_Suc_eq split: if_splits list.splits)

lemma wakeup_inv_step:
  assumes "wakeup_inv S T s" "mutex_inv S s" "pool_step S T out s s'"
  shows "wakeup_inv S T s'"
  using assms(3)
proof cases
  case (work w)
  note step = checked_worker [OF work(2)]
  show ?thesis
    unfolding wakeup_inv_def
  proof (intro allI ballI impI)
    fix v k assume v: "v < S" "k \<in> checked S (threads s' v)" "promises s' k \<noteq> []"
    then have "promises s k \<noteq> []" "k \<in> checked S (threads s v)" using step by (cases "v = w"; auto)+
    then show "\<exists>t<T. callers s' t = S_enqueued" using assms(1) v(1) step by (auto simp: wakeup_inv_def)
  qed
next
  case (spurious w)
  then show ?thesis using assms(1) by (auto simp: wakeup_inv_def pool_defs checked_def)
next
  case (submit t j)
  have "\<exists>u<T. callers s' u = S_enqueued" if "u < T" "callers s u = S_enqueued" for u
    by (rule exI [of _ u]) (use submit that in \<open>auto simp: schedule_job_def\<close>)
  moreover have "threads s' = threads s" "promises s' = promises s" using submit(1) by (simp_all add: schedule_job_def)
  ultimately show ?thesis using assms(1) unfolding wakeup_inv_def by metis
next
  case (caller t)
  show ?thesis
  proof (cases "callers s t")
    case S_idle
    then show ?thesis using caller(2) by (simp add: caller_step_def)
  next
    case (S_claimed q j)
    then have "callers s' t = S_enqueued" using caller(2) by (auto simp: caller_step_def pool_defs)
    then show ?thesis using caller(1) by (auto simp: wakeup_inv_def)
  next
    case S_enqueued
    then have s': "cv_mutex s = None" "threads s' w = wake (threads s w)" for w using caller(2) by (auto simp: caller_step_def pool_defs split: if_splits)
    have "checked S (threads s' w) = {}" if "w < S" for w
    proof -
      have "\<not> holder (threads s w)" using assms(2) s'(1) that by (auto simp: mutex_inv_def)
      then show ?thesis by (cases "threads s w") (simp_all add: s'(2) checked_def wake_def)
    qed
    then show ?thesis by (simp add: wakeup_inv_def)
  qed
next
  case (stop w)
  have "checked S (wake p) \<subseteq> checked S p" for p :: "'a worker" by (cases p) (auto simp: checked_def wake_def)
  then show ?thesis using assms(1) unfolding stop wakeup_inv_def by (auto simp: pool_defs) blast
qed

section \<open>Jobs\<close>

lemma all_jobs_goto:
  assumes "w < S" "worker_job (threads s w) = {#}"
  shows "all_jobs S T (goto w p s) = all_jobs S T s + worker_job p"
  using sum_fun_upd [OF assms(1), of worker_job "threads s" p] assms(2) by (simp add: all_jobs_def goto_def ac_simps)

lemma all_jobs_dequeue:
  assumes "k < S" "th_dequeue k s = (s', task)"
  shows "all_jobs S T s = all_jobs S T s' + (case task of Some j \<Rightarrow> {#j#} | None \<Rightarrow> {#})" "threads s' = threads s" "finished s' = finished s"
    "submitted s' = submitted s"
proof -
  show "threads s' = threads s" "finished s' = finished s" "submitted s' = submitted s"
    using assms(2) by (auto simp: th_dequeue_def split: list.splits)
  show "all_jobs S T s = all_jobs S T s' + (case task of Some j \<Rightarrow> {#j#} | None \<Rightarrow> {#})"
  proof (cases "promises s k")
    case (Cons j js)
    then show ?thesis
      using assms sum_fun_upd [OF assms(1), of mset "promises s" js] by (auto simp: th_dequeue_def all_jobs_def ac_simps)
  qed (use assms in \<open>auto simp: th_dequeue_def\<close>)
qed

lemma jobs_take:
  assumes "k < S" "w < S" "worker_job (threads s w) = {#}" "worker_job p = {#}" "jobs_inv S T out s" "th_dequeue k s = (s1, task)"
  shows "jobs_inv S T out (goto w (case task of Some j \<Rightarrow> W_run j | None \<Rightarrow> p) s1)"
proof -
  note d = all_jobs_dequeue(1) [OF assms(1,6), of T] all_jobs_dequeue(2-4) [OF assms(1,6)]
  have "all_jobs S T (goto w (case task of Some j \<Rightarrow> W_run j | None \<Rightarrow> p) s1) = all_jobs S T s"
    using all_jobs_goto [OF assms(2), of s1 T] assms(3,4) d by (cases task) (simp_all add: worker_job_def)
  then show ?thesis using assms(5) d by (simp add: jobs_inv_def goto_def)
qed

lemma jobs_inv_step:
  assumes "jobs_inv S T out s" "index_inv S T s" "pool_step S T out s s'"
  shows "jobs_inv S T out s'"
  using assms(3)
proof cases
  case (work w)
  have move: "jobs_inv S T out (goto w p (s\<lparr>cv_mutex := c\<rparr>))" "jobs_inv S T out (goto w p s)"
    if "worker_job (threads s w) = {#}" "worker_job p = {#}" for p c
    using all_jobs_goto [OF work(1), of "s\<lparr>cv_mutex := c\<rparr>" T p] all_jobs_goto [OF work(1), of s T p] that assms(1)
    by (simp_all add: jobs_inv_def all_jobs_def goto_def)
  show ?thesis
  proof (cases "threads s w")
    case W_own
    then show ?thesis using work(2) jobs_take [OF work(1,1) _ _ assms(1), of "W_steal 0"]
      by (auto simp: thread_handler_def worker_job_def split: prod.splits)
  next
    case (W_steal i)
    have "i \<le> S" using assms(2) work(1) W_steal by (auto simp: index_inv_def)
    then show ?thesis using work(2) W_steal jobs_take [OF _ work(1) _ _ assms(1), of i "W_steal (i + 1)"] move(2) [of W_lock]
      by (auto simp: thread_handler_def worker_job_def split: prod.splits if_splits)
  next
    case (W_run j)
    have "all_jobs S T s' = all_jobs S T s"
      using sum_fun_upd [OF work(1), of worker_job "threads s" W_loop] work(2) W_run
      by (auto simp: thread_handler_def all_jobs_def goto_def worker_job_def ac_simps)
    then show ?thesis using work(2) W_run assms(1) by (auto simp: thread_handler_def jobs_inv_def goto_def)
  qed (use work(2) move in \<open>auto simp: thread_handler_def worker_job_def split: if_splits\<close>)
next
  case (spurious w)
  then show ?thesis using all_jobs_goto [OF spurious(2), of s T W_woken] assms(1) by (simp add: worker_job_def jobs_inv_def goto_def)
next
  case (submit t j)
  have "all_jobs S T s' = all_jobs S T s + {#j#}"
    using sum_fun_upd [OF submit(2), of caller_job "callers s" "S_claimed (unat (next_queue s) mod S) j"] submit(1,3)
    by (simp add: all_jobs_def schedule_job_def caller_job_def ac_simps)
  then show ?thesis using assms(1) submit(1) by (simp add: jobs_inv_def schedule_job_def)
next
  case (caller t)
  show ?thesis
  proof (cases "callers s t")
    case (S_claimed q j)
    then have "q < S" using assms(2) caller(1) by (auto simp: index_inv_def)
    have "all_jobs S T s' = all_jobs S T s"
      using sum_fun_upd [OF caller(1), of caller_job "callers s" S_enqueued] sum_fun_upd [OF \<open>q < S\<close>, of mset "promises s" "promises s q @ [j]"]
        caller(2) S_claimed by (auto simp: caller_step_def all_jobs_def th_enqueue_def caller_job_def ac_simps)
    then show ?thesis using assms(1) caller(2) S_claimed by (auto simp: caller_step_def jobs_inv_def th_enqueue_def)
  next
    case S_enqueued
    have "worker_job (wake p) = worker_job p" for p :: "'a worker" by (cases p) (simp_all add: wake_def worker_job_def)
    then have "all_jobs S T s' = all_jobs S T s"
      using sum_fun_upd [OF caller(1), of caller_job "callers s" S_idle] caller(2) S_enqueued
      by (auto simp: caller_step_def all_jobs_def notify_all_def caller_job_def split: if_splits)
    then show ?thesis using assms(1) caller(2) S_enqueued by (auto simp: caller_step_def jobs_inv_def notify_all_def split: if_splits)
  qed (use caller(2) in \<open>simp add: caller_step_def\<close>)
next
  case (stop w)
  have "worker_job (wake p) = worker_job p" for p :: "'a worker" by (cases p) (simp_all add: wake_def worker_job_def)
  then have "all_jobs S T s' = all_jobs S T s"
    using sum_fun_upd [OF stop(2), of worker_job "threads s" "wake (threads s w)"] stop(1) by (simp add: all_jobs_def request_stop_def goto_def)
  then show ?thesis using assms(1) stop(1) by (simp add: jobs_inv_def request_stop_def goto_def)
qed

section \<open>Shutdown\<close>

text \<open>The steps a worker that was asked to stop takes at most until it ends.\<close>

fun rank :: "nat \<Rightarrow> 'j worker \<Rightarrow> nat" where
  "rank S W_done = 0"
| "rank S W_loop = 1"
| "rank S (W_run j) = 2"
| "rank S W_check = 2"
| "rank S W_lock = 3"
| "rank S W_woken = 3"
| "rank S W_sleep = 4"
| "rank S (W_pred i) = 3 + (S - i)"
| "rank S (W_steal i) = 4 + (S - i)"
| "rank S W_own = 5 + S"

definition pool_rank :: "nat \<Rightarrow> ('j, 'e, 'r) thread_pool \<Rightarrow> nat" where
  "pool_rank S s = (\<Sum>w<S. rank S (threads s w))"

lemma rank_step:
  assumes "thread_handler S out w s = Some s'" "stop s w" "\<And>i. threads s w = W_steal i \<or> threads s w = W_pred i \<Longrightarrow> i \<le> S"
  shows "rank S (threads s' w) < rank S (threads s w) \<and> (\<forall>v. v \<noteq> w \<longrightarrow> threads s' v = threads s v)"
  using assms by (cases "threads s w") (auto simp: thread_handler_def pool_defs split: if_splits list.splits)

lemma pool_rank_step:
  assumes "thread_handler S out w s = Some s'" "stop s w" "index_inv S T s" "w < S"
  shows "pool_rank S s' < pool_rank S s"
proof -
  have "i \<le> S" if "threads s w = W_steal i \<or> threads s w = W_pred i" for i using assms(3,4) that by (auto simp: index_inv_def)
  note step = rank_step [OF assms(1,2) this]
  show ?thesis unfolding pool_rank_def
    by (rule sum_strict_mono_ex1) (use step assms(4) in \<open>auto intro: exI [of _ w] simp: le_less\<close>)
qed

text \<open>Some worker can take a step.\<close>

lemma pool_progress:
  assumes "mutex_inv S s" "stop_inv S s" "\<forall>w<S. stop s w" "\<not> joined S s"
  shows "\<exists>w<S. thread_handler S out w s \<noteq> None"
proof (cases "cv_mutex s")
  case None
  obtain w where w: "w < S" "threads s w \<noteq> W_done" using assms(4) by (auto simp: joined_def)
  have "threads s w \<noteq> W_sleep" using assms(2,3) w(1) by (simp add: stop_inv_def)
  then have "thread_handler S out w s \<noteq> None"
    using None w(2) by (cases "threads s w") (auto simp: thread_handler_def split: prod.splits)
  then show ?thesis using w(1) by blast
next
  case (Some w)
  then have "w < S" "holder (threads s w)" using assms(1) by (auto simp: mutex_inv_def)
  moreover from this(2) have "thread_handler S out w s \<noteq> None" by (cases "threads s w") (auto simp: thread_handler_def)
  ultimately show ?thesis by blast
qed

section \<open>Reachable states\<close>

definition pool_inv :: "nat \<Rightarrow> nat \<Rightarrow> ('j \<Rightarrow> ('e, 'r) outcome) \<Rightarrow> ('j, 'e, 'r) thread_pool \<Rightarrow> bool" where
  "pool_inv S T out s \<longleftrightarrow> mutex_inv S s \<and> index_inv S T s \<and> stop_inv S s \<and> wakeup_inv S T s \<and> jobs_inv S T out s"

lemma pool_inv_init: "pool_inv S T out thread_pool_new"
  by (simp add: pool_inv_def mutex_inv_def index_inv_def stop_inv_def wakeup_inv_def jobs_inv_def all_jobs_def
      thread_pool_new_def caller_job_def worker_job_def)

lemma pool_inv_reachable:
  assumes "(pool_step S T out)\<^sup>*\<^sup>* thread_pool_new s" "0 < S"
  shows "pool_inv S T out s"
  using assms(1)
proof induction
  case (step s s')
  note inv = step.IH [unfolded pool_inv_def] and next_step = step.hyps(2)
  show ?case
    unfolding pool_inv_def
    using mutex_inv_step [OF _ next_step] index_inv_step [OF _ assms(2) next_step] stop_inv_step [OF _ next_step]
      wakeup_inv_step [OF _ _ next_step] jobs_inv_step [OF _ _ next_step] inv by blast
qed (rule pool_inv_init)

text \<open>
  A run used by the examples: a pool of one worker, with one job of \<open>main\<close> scheduled and then run by the worker.
\<close>

definition square_job :: "u64 \<Rightarrow> (unit, u64) outcome" where
  "square_job v = Value (square v)"

fun worker_runs :: "nat \<Rightarrow> nat \<Rightarrow> (u64, unit, u64) thread_pool \<Rightarrow> (u64, unit, u64) thread_pool" where
  "worker_runs S 0 s = s"
| "worker_runs S (Suc n) s = (case thread_handler S square_job 0 s of None \<Rightarrow> s | Some s' \<Rightarrow> worker_runs S n s')"

definition one_scheduled :: "(u64, unit, u64) thread_pool" where
  "one_scheduled = the (caller_step 0 (the (caller_step 0 (schedule_job 1 0 5 thread_pool_new))))"

lemmas example_defs = one_scheduled_def square_job_def square_def caller_step_def thread_pool_new_def pool_defs

lemma one_scheduled_reachable: "(pool_step 1 1 square_job)\<^sup>*\<^sup>* thread_pool_new one_scheduled"
proof -
  let ?s1 = "schedule_job 1 0 5 thread_pool_new :: (u64, unit, u64) thread_pool"
  have "pool_step 1 1 square_job thread_pool_new ?s1" by (rule pool_step.submit) (simp_all add: thread_pool_new_def)
  moreover have "pool_step 1 1 square_job ?s1 (the (caller_step 0 ?s1))"
    by (rule pool_step.caller [of 0]) (simp_all add: example_defs)
  moreover have "pool_step 1 1 square_job (the (caller_step 0 ?s1)) one_scheduled"
    by (rule pool_step.caller [of 0]) (simp_all add: example_defs)
  ultimately show ?thesis by (rule converse_rtranclp_into_rtranclp [OF _ converse_rtranclp_into_rtranclp [OF _ r_into_rtranclp]])
qed

lemma worker_runs_reachable:
  assumes "(pool_step S T square_job)\<^sup>*\<^sup>* thread_pool_new s" "0 < S"
  shows "(pool_step S T square_job)\<^sup>*\<^sup>* thread_pool_new (worker_runs S n s)"
  using assms
proof (induction S n s rule: worker_runs.induct)
  case (2 S n s)
  then show ?case
  proof (cases "thread_handler S square_job 0 s")
    case (Some s')
    then have "pool_step S T square_job s s'" using "2.prems"(2) by (auto intro: pool_step.work)
    then show ?thesis using "2.IH" [OF Some rtranclp.rtrancl_into_rtrancl [OF "2.prems"(1)] "2.prems"(2)] Some by simp
  qed simp
qed simp

text \<open>
  C15: Under every interleaving of the workers and the threads that schedule jobs, every job is in exactly one place: with the thread that schedules it,
  in one queue, with one worker, or finished. So no job is lost or run twice, and a finished promise holds what the function returned or threw.
\<close>

theorem pool_runs_jobs_once:
  assumes "(pool_step S T out)\<^sup>*\<^sup>* thread_pool_new s" "0 < S"
  shows "mset (submitted s) = all_jobs S T s \<and> mset (map fst (finished s)) \<subseteq># mset (submitted s) \<and>
    list_all (\<lambda>(j, r). r = out j) (finished s)"
proof -
  have "jobs_inv S T out s" using pool_inv_reachable [OF assms] by (simp add: pool_inv_def)
  then show ?thesis by (auto simp: jobs_inv_def all_jobs_def list_all_iff)
qed

lemma pool_runs_jobs_once_witness:
  "finished (worker_runs 1 3 one_scheduled) = [(5, Value 25)] \<and> mset (submitted (worker_runs 1 3 one_scheduled)) = all_jobs 1 1 (worker_runs 1 3 one_scheduled)"
  using pool_runs_jobs_once [OF worker_runs_reachable [OF one_scheduled_reachable, of 3]]
  by (simp add: example_defs thread_handler_def numeral_3_eq_3 wake_def)

text \<open>
  C19: No wake-up is lost. When a queue holds a job and no thread is between enqueueing a job and notifying, no worker sleeps.
\<close>

theorem pool_no_lost_wakeup:
  assumes "(pool_step S T out)\<^sup>*\<^sup>* thread_pool_new s" "k < S" "promises s k \<noteq> []" "\<forall>t<T. callers s t \<noteq> S_enqueued" "w < S"
  shows "threads s w \<noteq> W_sleep"
proof
  assume "threads s w = W_sleep"
  then have "k \<in> checked S (threads s w)" using assms(2) by (simp add: checked_def)
  moreover have "wakeup_inv S T s" using pool_inv_reachable [OF assms(1)] assms(2) by (auto simp: pool_inv_def)
  ultimately show False using assms(3-5) by (auto simp: wakeup_inv_def)
qed

lemma pool_no_lost_wakeup_witness:
  "promises one_scheduled 0 = [5] \<and> callers one_scheduled 0 = S_idle \<and> threads one_scheduled 0 \<noteq> W_sleep"
  using pool_no_lost_wakeup [OF one_scheduled_reachable, of 0 0] by (simp add: example_defs)

text \<open>
  C33: The destructor returns. Once every worker has been asked to stop, some worker that has not ended can take a step, and every step of a worker brings the
  pool closer to the end. When all have ended and no job is being scheduled, the jobs that did not run are those left in the queues.
\<close>

theorem pool_destructor_returns:
  assumes "(pool_step S T out)\<^sup>*\<^sup>* thread_pool_new s" "0 < S" "\<forall>w<S. stop s w"
  shows "(joined S s \<or> (\<exists>w<S. thread_handler S out w s \<noteq> None)) \<and>
    (\<forall>w s'. w < S \<and> thread_handler S out w s = Some s' \<longrightarrow> pool_rank S s' < pool_rank S s) \<and>
    (joined S s \<and> (\<forall>t<T. callers s t = S_idle) \<longrightarrow> mset (submitted s) = (\<Sum>k<S. mset (promises s k)) + mset (map fst (finished s)))"
proof -
  have inv: "mutex_inv S s" "index_inv S T s" "stop_inv S s" "jobs_inv S T out s"
    using pool_inv_reachable [OF assms(1,2)] by (simp_all add: pool_inv_def)
  have "pool_rank S s' < pool_rank S s" if "w < S" "thread_handler S out w s = Some s'" for w s'
    using pool_rank_step [OF that(2) _ inv(2) that(1)] assms(3) that(1) by blast
  moreover have "mset (submitted s) = (\<Sum>k<S. mset (promises s k)) + mset (map fst (finished s))" if "joined S s" "\<forall>t<T. callers s t = S_idle"
    using inv(4) that by (simp add: jobs_inv_def all_jobs_def joined_def caller_job_def worker_job_def)
  ultimately show ?thesis using pool_progress [OF inv(1,3) assms(3), of out] by blast
qed

lemma pool_destructor_returns_witness:
  "joined 1 (request_stop 0 one_scheduled) \<or> (\<exists>w. thread_handler 1 square_job w (request_stop 0 one_scheduled) \<noteq> None)"
proof -
  have "(pool_step 1 1 square_job)\<^sup>*\<^sup>* thread_pool_new (request_stop 0 one_scheduled)"
    by (rule rtranclp.rtrancl_into_rtrancl [OF one_scheduled_reachable pool_step.stop]) simp
  then show ?thesis using pool_destructor_returns [of 1 1 square_job "request_stop 0 one_scheduled"] by (auto simp: pool_defs)
qed

end
