(* ===== verification/Flow_Generator.thy ===== *)
theory Flow_Generator
  imports Engine_Correct
begin

text \<open>
  The workload generator of \<open>4_order_book_proj/benchmark/engine_flow_generator.hpp\<close>. It simulates the book on an unordered vector of
  open orders, so that the cancel requests it produces name orders that are still resting.

  The random numbers are a parameter: \<open>draw hi g\<close> is what a \<open>uniform_int_distribution\<close> on 0 to \<open>hi\<close> returns with the engine \<open>g\<close>, and the next state of the engine.
  \<open>junk\<close> stands for the bytes of a message that the code leaves uninitialised.
\<close>

section \<open>The generator\<close>

definition ENTER_ORDER_PERC :: nat where "ENTER_ORDER_PERC = 50"
definition CANCEL_ORDER_PERC :: nat where "CANCEL_ORDER_PERC = 48"
definition MARKET_ORDER_PERC :: nat where "MARKET_ORDER_PERC = 2"
definition TOTAL_ORDERS :: nat where "TOTAL_ORDERS = ENTER_ORDER_PERC + CANCEL_ORDER_PERC + MARKET_ORDER_PERC"
definition CROSS_PERCENTAGE :: nat where "CROSS_PERCENTAGE = 5"
definition BUY_PRICES :: "u64 list" where "BUY_PRICES = [96, 97, 98, 99, 100]"
definition SPREAD :: u64 where "SPREAD = 100"
definition SELL_PRICES :: "u64 list" where "SELL_PRICES = [100, 101, 102, 103, 104]"
definition QTYS :: "u64 list" where "QTYS = [5, 20, 100, 150, 200]"
definition MARKET_PRICE :: u64 where "MARKET_PRICE = 0x7FFFFFFF"
definition CLIENT_NO :: nat where "CLIENT_NO = 10"

record SimOrder =
  s_account :: u32
  s_user_ref_num :: u32
  s_side :: SideEnum
  s_price :: u64
  s_remaining_qty :: u32
  s_arrival_sequence :: u64

record 'g FlowGenerator =
  rng :: 'g
  warm_book :: "(InboundMessage \<times> u64) list"
  bench_orders :: "(InboundMessage \<times> u64) list"
  seq_counter :: "u32 list"
  open_orders :: "SimOrder list"
  next_arrival_sequence :: u64

type_synonym 'g draw = "nat \<Rightarrow> 'g \<Rightarrow> nat \<times> 'g"

text \<open>The search for the best resting order that an incoming order can trade with; \<open>length os\<close> when there is none.\<close>

definition sim_crosses :: "SimOrder \<Rightarrow> SimOrder \<Rightarrow> bool" where
  "sim_crosses incoming resting \<longleftrightarrow> s_side resting \<noteq> s_side incoming \<and>
     (s_price incoming = MARKET_PRICE \<or>
      (if s_side incoming = SideEnum_B then s_price resting \<le> s_price incoming else s_price incoming \<le> s_price resting))"

definition sim_better :: "SimOrder \<Rightarrow> SimOrder \<Rightarrow> SimOrder \<Rightarrow> bool" where
  "sim_better incoming resting best \<longleftrightarrow>
     (if s_side incoming = SideEnum_B then s_price resting < s_price best else s_price best < s_price resting) \<or>
     s_price resting = s_price best \<and> s_arrival_sequence resting < s_arrival_sequence best"

fun best_index :: "SimOrder \<Rightarrow> SimOrder list \<Rightarrow> nat \<Rightarrow> nat \<Rightarrow> nat" where
  "best_index incoming os 0 best = best"
| "best_index incoming os (Suc k) best =
     (let i = length os - Suc k in
      best_index incoming os k
        (if sim_crosses incoming (os ! i) \<and> (best = length os \<or> sim_better incoming (os ! i) (os ! best)) then i else best))"

text \<open>The last order takes the place of the removed one.\<close>

definition swap_remove :: "nat \<Rightarrow> 'a list \<Rightarrow> 'a list" where
  "swap_remove i xs = butlast (xs[i := last xs])"

lemma length_swap_remove [simp]: "length (swap_remove i xs) = length xs - 1"
  by (simp add: swap_remove_def)

function apply_fills :: "SimOrder \<Rightarrow> u32 \<Rightarrow> SimOrder list \<Rightarrow> u32 \<times> SimOrder list" where
  "apply_fills incoming q os =
     (if 0 < q then
        let b = best_index incoming os (length os) (length os) in
        if length os \<le> b then (q, os)
        else let resting = os ! b; fill = min q (s_remaining_qty resting); rest = s_remaining_qty resting - fill in
          if rest = 0 then apply_fills incoming (q - fill) (swap_remove b os)
          else apply_fills incoming (q - fill) (os[b := resting\<lparr>s_remaining_qty := rest\<rparr>])
      else (q, os))"
  by pat_completeness auto
termination
proof (relation "measure (\<lambda>(incoming, q, os). (if 0 < q then 1 else 0) + length os)", goal_cases)
  case (2 incoming q os b resting fill rest)
  then have "length os \<noteq> 0" by auto
  then show ?case using 2(1) by auto
next
  case (3 incoming q os b resting fill rest)
  have "fill = q \<or> fill = s_remaining_qty resting" using 3(5) by (simp add: min_def)
  then have "fill = q" using 3(6,7) by auto
  then show ?case using 3(1) by simp
qed simp

declare apply_fills.simps [simp del]

definition apply_enter :: "SimOrder \<Rightarrow> 'g FlowGenerator \<Rightarrow> 'g FlowGenerator" where
  "apply_enter incoming fg =
     (let (q, os) = apply_fills incoming (s_remaining_qty incoming) (open_orders fg) in
      fg\<lparr>open_orders := (if 0 < q \<and> s_price incoming \<noteq> MARKET_PRICE then os @ [incoming\<lparr>s_remaining_qty := q\<rparr>] else os)\<rparr>)"

partial_function (option) draw_price :: "'g draw \<Rightarrow> u64 list \<Rightarrow> 'g \<Rightarrow> (u64 \<times> 'g) option" where
  "draw_price draw prices g =
     (let (i, g) = draw 4 g in if prices ! i = SPREAD then draw_price draw prices g else Some (prices ! i, g))"

definition flow_enter_bytes :: "SideEnum \<Rightarrow> u32 \<Rightarrow> u64 \<Rightarrow> u32 \<Rightarrow> byte list" where
  "flow_enter_bytes side urn price qty =
     EnterRequestBuilder_Quantity (EnterRequestBuilder_Price (EnterRequestBuilder_Symbol
       (EnterRequestBuilder_UserRefNum (EnterRequestBuilder_Side EnterRequestBuilder side) urn) (map of_char ''AAPL'')) price) qty"

definition flow_cancel_bytes :: "u32 \<Rightarrow> byte list" where
  "flow_cancel_bytes urn = CancelRequestBuilder_Quantity (CancelRequestBuilder_UserRefNum CancelRequestBuilder urn) 0"

definition choose_price :: "'g draw \<Rightarrow> SideEnum \<Rightarrow> bool \<Rightarrow> bool \<Rightarrow> bool \<Rightarrow> 'g \<Rightarrow> (u64 \<times> 'g) option" where
  "choose_price draw side warm market crosses g =
     (if \<not> market \<and> \<not> warm \<and> crosses
      then let (j, g) = draw 4 g in Some ((if side = SideEnum_B then SELL_PRICES else BUY_PRICES) ! j, g)
      else if \<not> market then draw_price draw (if side = SideEnum_B then BUY_PRICES else SELL_PRICES) g
      else Some (MARKET_PRICE, g))"

definition enter_at :: "byte list \<Rightarrow> nat \<Rightarrow> SideEnum \<Rightarrow> u64 \<Rightarrow> u32 \<Rightarrow> 'g FlowGenerator \<Rightarrow> (InboundMessage \<times> u64) \<times> 'g FlowGenerator" where
  "enter_at junk client_idx side price qty fg =
     (let user_ref_num = seq_counter fg ! client_idx;
          msg = \<lparr>in_account = of_nat client_idx, in_bytes = write_at 0 (flow_enter_bytes side user_ref_num price qty) junk\<rparr>;
          order = \<lparr>s_account = of_nat client_idx, s_user_ref_num = user_ref_num, s_side = side, s_price = price, s_remaining_qty = qty,
            s_arrival_sequence = next_arrival_sequence fg\<rparr>;
          fg = fg\<lparr>seq_counter := (seq_counter fg)[client_idx := user_ref_num + 1], next_arrival_sequence := next_arrival_sequence fg + 1\<rparr>
      in ((msg, ucast (in_account msg)), apply_enter order fg))"

definition create_enter_request ::
  "'g draw \<Rightarrow> byte list \<Rightarrow> nat \<Rightarrow> SideEnum \<Rightarrow> bool \<Rightarrow> bool \<Rightarrow> bool \<Rightarrow> 'g FlowGenerator \<Rightarrow> ((InboundMessage \<times> u64) \<times> 'g FlowGenerator) option" where
  "create_enter_request draw junk client_idx side warm market crosses fg =
     (let (i, g) = draw 4 (rng fg) in do {
      (price, g) \<leftarrow> choose_price draw side warm market crosses g;
      Some (enter_at junk client_idx side price (ucast (QTYS ! i)) (fg\<lparr>rng := g\<rparr>)) })"

definition create_cancel_order :: "'g draw \<Rightarrow> byte list \<Rightarrow> 'g FlowGenerator \<Rightarrow> (InboundMessage \<times> u64) \<times> 'g FlowGenerator" where
  "create_cancel_order draw junk fg =
     (let (i, g) = draw (length (open_orders fg) - 1) (rng fg);
          order = open_orders fg ! i
      in ((\<lparr>in_account = s_account order, in_bytes = write_at 0 (flow_cancel_bytes (s_user_ref_num order)) junk\<rparr>, ucast (s_account order)),
          fg\<lparr>rng := g, open_orders := swap_remove i (open_orders fg)\<rparr>))"

text \<open>The two loops of the constructor.\<close>

definition draw_side :: "'g draw \<Rightarrow> 'g \<Rightarrow> SideEnum \<times> 'g" where
  "draw_side draw g = (let (side, g) = draw 1 g in (if side = 0 then SideEnum_B else SideEnum_S, g))"

fun warm_loop :: "'g draw \<Rightarrow> (nat \<Rightarrow> byte list) \<Rightarrow> nat \<Rightarrow> 'g FlowGenerator \<Rightarrow> 'g FlowGenerator option" where
  "warm_loop draw junk 0 fg = Some fg"
| "warm_loop draw junk (Suc k) fg = do {
     let (side, g) = draw_side draw (rng fg);
     let (client_idx, g) = draw (CLIENT_NO - 1) g;
     (m, fg) \<leftarrow> create_enter_request draw (junk k) client_idx side True False False (fg\<lparr>rng := g\<rparr>);
     warm_loop draw junk k (fg\<lparr>warm_book := warm_book fg @ [m]\<rparr>) }"

definition bench_step :: "'g draw \<Rightarrow> byte list \<Rightarrow> nat \<Rightarrow> 'g FlowGenerator \<Rightarrow> 'g FlowGenerator option" where
  "bench_step draw junk order_type fg =
     (if order_type < ENTER_ORDER_PERC then do {
        let (side, g) = draw_side draw (rng fg);
        let (client_idx, g) = draw (CLIENT_NO - 1) g;
        let (c, g) = draw 99 g;
        (m, fg) \<leftarrow> create_enter_request draw junk client_idx side False False (c < CROSS_PERCENTAGE) (fg\<lparr>rng := g\<rparr>);
        Some (fg\<lparr>bench_orders := bench_orders fg @ [m]\<rparr>) }
      else if ENTER_ORDER_PERC + CANCEL_ORDER_PERC \<le> order_type then do {
        let (side, g) = draw_side draw (rng fg);
     let (client_idx, g) = draw (CLIENT_NO - 1) g;
        (m, fg) \<leftarrow> create_enter_request draw junk client_idx side True True False (fg\<lparr>rng := g\<rparr>);
        Some (fg\<lparr>bench_orders := bench_orders fg @ [m]\<rparr>) }
      else let (m, fg) = create_cancel_order draw junk fg in Some (fg\<lparr>bench_orders := bench_orders fg @ [m]\<rparr>))"

definition retries :: "nat \<Rightarrow> 'g FlowGenerator \<Rightarrow> bool" where
  "retries order_type fg \<longleftrightarrow> ENTER_ORDER_PERC \<le> order_type \<and> order_type < ENTER_ORDER_PERC + CANCEL_ORDER_PERC \<and> open_orders fg = []"

partial_function (option) bench_loop :: "'g draw \<Rightarrow> (nat \<Rightarrow> byte list) \<Rightarrow> nat \<Rightarrow> nat \<Rightarrow> 'g FlowGenerator \<Rightarrow> 'g FlowGenerator option" where
  "bench_loop draw junk n i fg =
     (if i < n then
        let (order_type, g) = draw (TOTAL_ORDERS - 1) (rng fg); fg = fg\<lparr>rng := g\<rparr> in
        if retries order_type fg then bench_loop draw junk n i fg
        else Option.bind (bench_step draw (junk i) order_type fg) (bench_loop draw junk n (i + 1))
      else Some fg)"

definition FlowGenerator_new :: "'g draw \<Rightarrow> (nat \<Rightarrow> byte list) \<Rightarrow> (nat \<Rightarrow> byte list) \<Rightarrow> 'g \<Rightarrow> nat \<Rightarrow> nat \<Rightarrow> 'g FlowGenerator option" where
  "FlowGenerator_new draw junk junk' g initial_warm_orders bench_orders_no = do {
     fg \<leftarrow> warm_loop draw junk initial_warm_orders \<lparr>rng = g, warm_book = [], bench_orders = [],
       seq_counter = replicate CLIENT_NO 0, open_orders = [], next_arrival_sequence = 0\<rparr>;
     bench_loop draw junk' bench_orders_no 0 fg }"

end
