(* ===== verification/Flow_Correct.thy ===== *)
theory Flow_Correct
  imports Flow_Generator
begin

text \<open>
  The generator against the matching rules: its vector of open orders holds exactly the resting orders of the abstract book after the
  messages it has produced, so its cancels are never rejected, and its constructor returns when the distributions yield every value again and again.
\<close>

section \<open>The best order\<close>

lemma sim_better_trans: "sim_better inc a b \<Longrightarrow> sim_better inc b c \<Longrightarrow> sim_better inc a c"
  by (auto simp: sim_better_def split: if_splits)

definition best_of :: "SimOrder \<Rightarrow> SimOrder list \<Rightarrow> nat \<Rightarrow> nat \<Rightarrow> bool" where
  "best_of inc os n b \<longleftrightarrow>
     b = length os \<and> (\<forall>i<n. \<not> sim_crosses inc (os ! i)) \<or>
     b < n \<and> sim_crosses inc (os ! b) \<and> (\<forall>i<n. sim_crosses inc (os ! i) \<longrightarrow> \<not> sim_better inc (os ! i) (os ! b))"

lemma best_index_best:
  "k \<le> length os \<Longrightarrow> best_of inc os (length os - k) best \<Longrightarrow> best_of inc os (length os) (best_index inc os k best)"
proof (induction k arbitrary: best)
  case (Suc k)
  let ?i = "length os - Suc k"
  let ?b = "if sim_crosses inc (os ! ?i) \<and> (best = length os \<or> sim_better inc (os ! ?i) (os ! best)) then ?i else best"
  have n: "length os - k = Suc ?i" using Suc.prems(1) by simp
  have irr: "\<not> sim_better inc s s" for s by (simp add: sim_better_def)
  have "best_of inc os (length os - k) ?b"
    using Suc.prems irr sim_better_trans [of inc _ "os ! ?i" "os ! best"]
    unfolding n best_of_def less_Suc_eq by (auto simp del: n)
  then show ?case using Suc by (simp add: Let_def)
qed simp

lemma best_index_cases:
  obtains (none) "best_index inc os (length os) (length os) = length os" "\<forall>s\<in>set os. \<not> sim_crosses inc s"
  | (some) b where "best_index inc os (length os) (length os) = b" "b < length os" "sim_crosses inc (os ! b)"
      "\<forall>s\<in>set os. sim_crosses inc s \<longrightarrow> \<not> sim_better inc s (os ! b)"
  using best_index_best [of "length os" os inc "length os"] that
  by (auto simp: best_of_def all_set_conv_all_nth)

lemma apply_fills_none:
  "q = 0 \<or> best_index inc os (length os) (length os) = length os \<Longrightarrow> apply_fills inc q os = (q, os)"
  by (subst apply_fills.simps) auto

lemma mset_swap_remove:
  assumes "i < length xs"
  shows "mset xs = add_mset (xs ! i) (mset (swap_remove i xs))"
proof -
  have "xs \<noteq> []" using assms by auto
  then obtain ys y where xs: "xs = ys @ [y]" by (metis rev_exhaust)
  show ?thesis
  proof (cases "i < length ys")
    case True
    then have "mset (ys[i := y]) = add_mset y (mset ys - {#ys ! i#})" by (simp add: mset_update)
    moreover have "ys ! i \<in># mset ys" using True by simp
    ultimately show ?thesis using True xs by (simp add: swap_remove_def list_update_append nth_append butlast_append)
  next
    case False
    then have "i = length ys" using assms xs by simp
    then show ?thesis using xs by (simp add: swap_remove_def list_update_append)
  qed
qed

section \<open>Resting orders\<close>

text \<open>The order of the abstract book that an open order of the generator stands for.\<close>

definition resting :: "SimOrder \<Rightarrow> Resting" where
  "resting s = \<lparr>r_key = order_key (s_account s) (s_user_ref_num s), r_ref = s_arrival_sequence s + 1, r_price = s_price s, r_qty = s_remaining_qty s\<rparr>"

definition side_of :: "(SimOrder \<Rightarrow> bool) \<Rightarrow> SimOrder list \<Rightarrow> Resting multiset" where
  "side_of P os = image_mset resting (filter_mset P (mset os))"

lemma side_of_partition: "image_mset resting (mset os) = side_of P os + side_of (\<lambda>s. \<not> P s) os"
  by (induction os) (auto simp: side_of_def)

text \<open>
  One side against one incoming order: \<open>opp\<close> are the orders of the other side, which are queued in \<open>L\<close> by \<open>before\<close>, and \<open>ok\<close> are the prices
  the incoming order accepts. \<open>good\<close> holds of every open order.
\<close>

locale opposite_side =
  fixes inc :: SimOrder and good :: "SimOrder \<Rightarrow> bool" and opp :: "SimOrder \<Rightarrow> bool"
    and before :: "Resting \<Rightarrow> Resting \<Rightarrow> bool" and ok :: "u64 \<Rightarrow> bool"
  assumes crosses: "good s \<Longrightarrow> sim_crosses inc s \<longleftrightarrow> opp s \<and> ok (s_price s)"
    and better: "good s \<Longrightarrow> good t \<Longrightarrow> opp s \<Longrightarrow> opp t \<Longrightarrow> sim_better inc s t \<longleftrightarrow> before (resting s) (resting t)"
    and reduced: "good s \<Longrightarrow> good (s\<lparr>s_remaining_qty := q\<rparr>)" "opp (s\<lparr>s_remaining_qty := q\<rparr>) = opp s"
    and accepts: "before r r' \<Longrightarrow> ok (r_price r') \<Longrightarrow> ok (r_price r)"
    and same: "before r (r'\<lparr>r_qty := q\<rparr>) = before r r'" "before (r'\<lparr>r_qty := q\<rparr>) r = before r' r"
begin

lemma best_is_first:
  assumes good: "list_all good os" and L: "side_of opp os = mset L" and sorted: "sorted_wrt before L"
  shows "(best_index inc os (length os) (length os) = length os \<and> (L = [] \<or> \<not> ok (r_price (hd L)))) \<or>
    (\<exists>b. best_index inc os (length os) (length os) = b \<and> b < length os \<and> L \<noteq> [] \<and> ok (r_price (hd L)) \<and>
      opp (os ! b) \<and> resting (os ! b) = hd L)"
proof -
  have g: "good s" if "s \<in> set os" for s using good that by (auto simp: list_all_iff)
  have L_iff: "r \<in> set L \<longleftrightarrow> (\<exists>s\<in>set os. opp s \<and> resting s = r)" for r
  proof -
    have "set L = resting ` {s \<in> set os. opp s}" using arg_cong [OF L, of set_mset] by (simp add: side_of_def)
    then show ?thesis by auto
  qed
  show ?thesis
  proof (cases rule: best_index_cases [of inc os])
    case none
    have "L = [] \<or> \<not> ok (r_price (hd L))"
    proof (cases L)
      case (Cons r L')
      then obtain s where "s \<in> set os" "opp s" "resting s = r" using L_iff by auto
      then show ?thesis using none(2) crosses [OF g] Cons by (auto simp: resting_def)
    qed simp
    then show ?thesis using none(1) by simp
  next
    case (some b)
    have b: "good (os ! b)" "opp (os ! b)" "ok (s_price (os ! b))" using g crosses some by auto
    then have in_L: "resting (os ! b) \<in> set L" using L_iff some(2) by auto
    then obtain r L' where L': "L = r # L'" by (cases L) auto
    then obtain s where s: "s \<in> set os" "opp s" "resting s = r" using L_iff by auto
    have "resting (os ! b) = r"
    proof (rule ccontr)
      assume ne: "resting (os ! b) \<noteq> r"
      then have "before r (resting (os ! b))" using in_L L' sorted by auto
      moreover from accepts [OF this] have "ok (r_price r)" using b(3) by (simp add: resting_def)
      ultimately show False
        using some(4) s crosses [OF g [OF s(1)]] better [OF g [OF s(1)] b(1) s(2) b(2)] by (auto simp: resting_def)
    qed
    then show ?thesis using some(1,2) b L' by (auto simp: resting_def)
  qed
qed

text \<open>The loop of \<open>apply_enter\<close> is a sweep of the other side, and leaves the orders of the own side alone.\<close>

lemma apply_fills_sweep:
  assumes "list_all good os" "side_of opp os = mset L" "sorted_wrt before L" "\<forall>r\<in>set L. 0 < r_qty r"
    and "sweep ok q L = (fs, q', L')" "apply_fills inc q os = (q2, os')"
  shows "q2 = q' \<and> list_all good os' \<and> side_of opp os' = mset L' \<and>
    filter_mset (\<lambda>s. \<not> opp s) (mset os') = filter_mset (\<lambda>s. \<not> opp s) (mset os)"
  using assms
proof (induction L arbitrary: q os fs)
  case Nil
  then show ?case
    using best_is_first [OF Nil.prems(1-3)] apply_fills_none [of q inc os] by auto
next
  case (Cons r L)
  note best = best_is_first [OF Cons.prems(1-3)]
  show ?case
  proof (cases "q = 0 \<or> \<not> ok (r_price r)")
    case True
    then show ?thesis using best Cons.prems apply_fills_none [of q inc os] by auto
  next
    case False
    then have q: "0 < q" by (simp add: word_gt_0)
    obtain b where b: "best_index inc os (length os) (length os) = b" "b < length os" "opp (os ! b)" "resting (os ! b) = r"
      using best False by auto
    have rq: "s_remaining_qty (os ! b) = r_qty r" using b(4) by (auto simp: resting_def)
    have mset_os: "mset os = add_mset (os ! b) (mset (swap_remove b os))" by (rule mset_swap_remove [OF b(2)])
    have rest: "side_of opp (swap_remove b os) = mset L"
      using Cons.prems(2) b(3,4) unfolding side_of_def mset_os by simp
    have good: "list_all good (swap_remove b os)" "good (os ! b)"
      using Cons.prems(1) mset_os by (auto simp: list_all_iff simp flip: set_mset_mset)
    show ?thesis
    proof (cases "q < r_qty r")
      case True
      let ?s = "(os ! b)\<lparr>s_remaining_qty := r_qty r - q\<rparr>"
      have "apply_fills inc q os = apply_fills inc 0 (os[b := ?s])"
        using q b(1,2) True rq order.strict_implies_order [OF True] order.strict_implies_not_eq [OF True]
        by (simp add: apply_fills.simps [of inc q os] min_def Let_def)
      then have os': "q2 = 0" "os' = os[b := ?s]" using Cons.prems(6) by (simp_all add: apply_fills_none)
      have up: "mset (os[b := ?s]) = add_mset ?s (mset (swap_remove b os))" using mset_os b(2) by (simp add: mset_update)
      have "resting ?s = r\<lparr>r_qty := r_qty r - q\<rparr>" using b(4) by (auto simp: resting_def)
      then have "side_of opp os' = mset ((r\<lparr>r_qty := r_qty r - q\<rparr>) # L)"
        using rest b(3) reduced(2) unfolding side_of_def os'(2) up by simp
      moreover have "list_all good os'"
        using good reduced(1) arg_cong [OF up, of set_mset] by (auto simp: list_all_iff os'(2))
      moreover have "filter_mset (\<lambda>s. \<not> opp s) (mset os') = filter_mset (\<lambda>s. \<not> opp s) (mset os)"
        unfolding os'(2) up using b(3) reduced(2) mset_os by simp
      ultimately show ?thesis using Cons.prems(5) False True os'(1) by auto
    next
      case ge: False
      then have "apply_fills inc q os = apply_fills inc (q - r_qty r) (swap_remove b os)"
        using q b(1,2) rq by (simp add: apply_fills.simps [of inc q os] min_def Let_def not_less)
      moreover obtain fs1 where "sweep ok (q - r_qty r) L = (fs1, q', L')"
        using Cons.prems(5) False ge by (auto split: prod.splits)
      ultimately have "q2 = q' \<and> list_all good os' \<and> side_of opp os' = mset L' \<and>
          filter_mset (\<lambda>s. \<not> opp s) (mset os') = filter_mset (\<lambda>s. \<not> opp s) (mset (swap_remove b os))"
        using Cons.IH [OF good(1) rest] Cons.prems(3,4,6) by simp
      then show ?thesis using b(3) mset_os by simp
    qed
  qed
qed

end

text \<open>The open orders when \<open>n\<close> orders have been entered, and \<open>C ! c\<close> of them by the client \<open>c\<close>.\<close>

definition sim_ok :: "u64 \<Rightarrow> u32 list \<Rightarrow> SimOrder \<Rightarrow> bool" where
  "sim_ok n C s \<longleftrightarrow> s_side s \<in> {SideEnum_B, SideEnum_S} \<and> s_arrival_sequence s < n \<and> s_price s < MARKET_PRICE \<and>
     (\<exists>c<CLIENT_NO. s_account s = of_nat c \<and> s_user_ref_num s < C ! c)"

lemma sequence_order:
  fixes a b n :: u64
  assumes "a < n" "b < n"
  shows "a + 1 < b + 1 \<longleftrightarrow> a < b" "a + 1 = b + 1 \<longleftrightarrow> a = b" "a + 1 \<le> n"
proof -
  have "unat (x + 1) = unat x + 1" if "x < n" for x :: u64
  proof -
    have "unat x < unat n" using that by (simp add: word_less_nat_alt)
    moreover have "unat n < 2 ^ 64" using unsigned_less [of n] by simp
    ultimately have "unat x + 1 < 2 ^ 64" by linarith
    then show ?thesis by (simp add: unat_word_ariths take_bit_nat_eq_self)
  qed
  then show "a + 1 < b + 1 \<longleftrightarrow> a < b" "a + 1 \<le> n" using assms by (auto simp: word_less_nat_alt word_le_nat_alt)
qed simp

lemma sides_differ [simp]: "SideEnum_B \<noteq> SideEnum_S" "SideEnum_S \<noteq> SideEnum_B"
  by (simp_all add: SideEnum_B_def SideEnum_S_def)

interpretation buy: opposite_side
  "\<lparr>s_account = a, s_user_ref_num = u, s_side = SideEnum_B, s_price = p, s_remaining_qty = q, s_arrival_sequence = m\<rparr>"
  "sim_ok n C" "\<lambda>s. s_side s \<noteq> SideEnum_B" ask_before "\<lambda>x. x \<le> p" for a u p q m n C
proof (unfold_locales, goal_cases)
  case (1 s)
  then show ?case by (auto simp: sim_ok_def sim_crosses_def)
next
  case (2 s t)
  then show ?case using sequence_order [of "s_arrival_sequence s" n "s_arrival_sequence t"]
    by (simp add: sim_ok_def sim_better_def ask_before_def resting_def)
qed (auto simp: sim_ok_def ask_before_def)

interpretation sell: opposite_side
  "\<lparr>s_account = a, s_user_ref_num = u, s_side = SideEnum_S, s_price = p, s_remaining_qty = q, s_arrival_sequence = m\<rparr>"
  "sim_ok n C" "\<lambda>s. s_side s = SideEnum_B" bid_before "\<lambda>x. (if p = MARKETPRICE then 0 else p) \<le> x" for a u p q m n C
proof (unfold_locales, goal_cases)
  case (1 s)
  then show ?case by (auto simp: sim_ok_def sim_crosses_def MARKETPRICE_def MARKET_PRICE_def)
next
  case (2 s t)
  then show ?case using sequence_order [of "s_arrival_sequence s" n "s_arrival_sequence t"]
    by (simp add: sim_ok_def sim_better_def bid_before_def resting_def)
qed (auto simp: sim_ok_def bid_before_def)

section \<open>The index of the book\<close>

lemma settle_index:
  "index (settle fs B) k = (if \<exists>(r, f)\<in>set fs. f = r_qty r \<and> r_key r = k then None else index B k)"
  by (induction fs B rule: settle.induct) auto

lemma sweep_keys: "sweep ok q L = (fs, q', L') \<Longrightarrow> r_key ` set L' \<subseteq> r_key ` set L"
  by (induction ok q L arbitrary: fs rule: sweep.induct) (auto split: if_splits prod.splits)

lemma sweep_filled_gone:
  assumes "sweep ok q L = (fs, q', L')" "distinct (map r_key L)" "r \<in> set L'" "(r0, r_qty r0) \<in> set fs"
  shows "r_key r0 \<noteq> r_key r"
  using assms
proof (induction ok q L arbitrary: fs rule: sweep.induct)
  case (2 ok q x L)
  show ?case
  proof (cases "q = 0 \<or> \<not> ok (r_price x) \<or> q < r_qty x")
    case True
    then show ?thesis using "2.prems" by (auto split: if_splits)
  next
    case False
    then obtain fs1 where fs1: "sweep ok (q - r_qty x) L = (fs1, q', L')" "fs = (x, r_qty x) # fs1"
      using "2.prems"(1) by (auto split: prod.splits)
    then show ?thesis using "2.IH" "2.prems" False sweep_keys [OF fs1(1)] by auto
  qed
qed simp

lemma settle_side:
  assumes sw: "sweep ok q L = (fs, q', L')" and dist: "distinct (map r_key (L @ M))" and pos: "\<forall>r\<in>set L. 0 < r_qty r"
    and ix: "\<forall>r\<in>set (L @ M). index B (r_key r) = Some (r_ref r)"
  shows "distinct (map r_key (L' @ M))" "\<forall>r\<in>set (L' @ M). index (settle fs B) (r_key r) = Some (r_ref r)" "length L' \<le> length L"
proof -
  obtain n where n: "list_all2 same_order (drop n L) L'" using sweep_suffix [OF sw pos] by blast
  have "map r_key L' = map r_key (drop n L)"
    using n by (induction rule: list_all2_induct) (auto simp: same_order_def)
  then have keys: "map r_key L' = drop n (map r_key L)" by (simp add: drop_map)
  show "length L' \<le> length L" using list_all2_lengthD [OF n] by simp
  have sub: "r_key ` set L' \<subseteq> r_key ` set L" by (rule sweep_keys [OF sw])
  have "distinct (map r_key L')" unfolding keys using dist by (simp add: distinct_drop)
  then show "distinct (map r_key (L' @ M))" using dist sub by auto
  have filled: "r0 \<in> set L" if "(r0, f) \<in> set fs" for r0 f
    using sweep_priority(1) [OF sw] that by (metis fst_conv image_eqI in_set_takeD set_map)
  show "\<forall>r\<in>set (L' @ M). index (settle fs B) (r_key r) = Some (r_ref r)"
  proof
    fix r assume r: "r \<in> set (L' @ M)"
    have "r_key r0 \<noteq> r_key r" if "(r0, r_qty r0) \<in> set fs" for r0
      using sweep_filled_gone [OF sw _ _ that, of r] filled [OF that] dist r by auto
    then have "index (settle fs B) (r_key r) = index B (r_key r)" by (auto simp: settle_index)
    also have "\<dots> = Some (r_ref r)"
    proof (cases "r \<in> set M")
      case False
      then obtain r1 where "r1 \<in> set (drop n L)" "same_order r1 r" using list_all2_in [OF n, of r] r by auto
      then show ?thesis using ix in_set_dropD [of r1 n L] by (auto simp: same_order_def)
    qed (use ix in simp)
    finally show "index (settle fs B) (r_key r) = Some (r_ref r)" .
  qed
qed

section \<open>The simulation\<close>

definition book_sim :: "u64 \<Rightarrow> u32 list \<Rightarrow> SimOrder list \<Rightarrow> Book \<Rightarrow> bool" where
  "book_sim n C os B \<longleftrightarrow>
     side_of (\<lambda>s. s_side s = SideEnum_B) os = mset (bids B) \<and> side_of (\<lambda>s. s_side s \<noteq> SideEnum_B) os = mset (asks B) \<and>
     list_all (sim_ok n C) os \<and> distinct (map r_key (bids B @ asks B)) \<and>
     (\<forall>r\<in>set (bids B @ asks B). index B (r_key r) = Some (r_ref r))"

definition flow_sim :: "nat \<Rightarrow> nat \<Rightarrow> 'g FlowGenerator \<Rightarrow> Book \<Rightarrow> bool" where
  "flow_sim cap k fg B \<longleftrightarrow>
     book_sim (next_arrival_sequence fg) (seq_counter fg) (open_orders fg) B \<and> book_inv cap B \<and>
     last_ref B = next_arrival_sequence fg \<and> length (seq_counter fg) = CLIENT_NO \<and>
     list_all (\<lambda>x. unat x \<le> k) (seq_counter fg) \<and> unat (next_arrival_sequence fg) \<le> k \<and>
     length (bids B) + length (asks B) \<le> k"

definition incoming :: "Order \<Rightarrow> u64 \<Rightarrow> SimOrder" where
  "incoming ord m = \<lparr>s_account = o_account ord, s_user_ref_num = o_urn ord, s_side = o_side ord, s_price = o_price ord,
     s_remaining_qty = o_qty ord, s_arrival_sequence = m\<rparr>"

text \<open>Matching: the loop of the generator and the sweep of the book.\<close>

lemma match_sim:
  assumes sim: "book_sim n C os B" and inv: "book_inv cap B" and side: "o_side ord \<in> {SideEnum_B, SideEnum_S}"
    and mo: "match_order ord B = (evs, q, B1)" and af: "apply_fills (incoming ord m) (o_qty ord) os = (q2, os')"
  shows "q2 = q" "book_sim n C os' B1" "length (bids B1) \<le> length (bids B)" "length (asks B1) \<le> length (asks B)"
proof -
  note s = sim [unfolded book_sim_def]
  have sorted: "sorted_wrt bid_before (bids B)" "sorted_wrt ask_before (asks B)" "\<forall>r\<in>set (bids B). 0 < r_qty r" "\<forall>r\<in>set (asks B). 0 < r_qty r"
    using inv by (auto simp: book_inv_def price_time_def)
  have "q2 = q \<and> book_sim n C os' B1 \<and> length (bids B1) \<le> length (bids B) \<and> length (asks B1) \<le> length (asks B)"
  proof (cases "o_side ord = SideEnum_B")
    case True
    then obtain fs L where sw: "sweep (\<lambda>p. p \<le> o_price ord) (o_qty ord) (asks B) = (fs, q, L)" and B1: "B1 = (settle fs B)\<lparr>asks := L\<rparr>"
      using mo by (auto simp: match_order_def split: prod.splits)
    have "q2 = q \<and> list_all (sim_ok n C) os' \<and> side_of (\<lambda>s. s_side s \<noteq> SideEnum_B) os' = mset L \<and>
        filter_mset (\<lambda>s. \<not> s_side s \<noteq> SideEnum_B) (mset os') = filter_mset (\<lambda>s. \<not> s_side s \<noteq> SideEnum_B) (mset os)"
      using s True af by (intro buy.apply_fills_sweep [OF _ _ sorted(2,4) sw]) (simp_all add: incoming_def)
    moreover have "distinct (map r_key (asks B @ bids B))" "\<forall>r\<in>set (asks B @ bids B). index B (r_key r) = Some (r_ref r)" using s by auto
    note settle_side [OF sw this(1) sorted(4) this(2)]
    ultimately show ?thesis using s by (auto simp: B1 book_sim_def side_of_def)
  next
    case False
    then have sell: "o_side ord = SideEnum_S" using side by simp
    let ?ok = "\<lambda>p. (if o_price ord = MARKETPRICE then 0 else o_price ord) \<le> p"
    obtain fs L where sw: "sweep ?ok (o_qty ord) (bids B) = (fs, q, L)" and B1: "B1 = (settle fs B)\<lparr>bids := L\<rparr>"
      using mo False by (auto simp: match_order_def Let_def split: prod.splits)
    have "q2 = q \<and> list_all (sim_ok n C) os' \<and> side_of (\<lambda>s. s_side s = SideEnum_B) os' = mset L \<and>
        filter_mset (\<lambda>s. \<not> s_side s = SideEnum_B) (mset os') = filter_mset (\<lambda>s. \<not> s_side s = SideEnum_B) (mset os)"
      using s sell af by (intro sell.apply_fills_sweep [OF _ _ sorted(1,3) sw]) (simp_all add: incoming_def)
    moreover have "distinct (map r_key (bids B @ asks B))" "\<forall>r\<in>set (bids B @ asks B). index B (r_key r) = Some (r_ref r)" using s by auto
    note settle_side [OF sw this(1) sorted(3) this(2)]
    ultimately show ?thesis using s by (auto simp: B1 book_sim_def side_of_def)
  qed
  then show "q2 = q" "book_sim n C os' B1" "length (bids B1) \<le> length (bids B)" "length (asks B1) \<le> length (asks B)" by simp_all
qed

section \<open>Messages\<close>

lemma flow_enter_fields [simp]:
  "length (flow_enter_bytes side urn price qty) = 47"
  "decode (flow_enter_bytes side urn price qty) = Some (EnterRequestView (flow_enter_bytes side urn price qty))"
  "EnterRequestView_UserRefNum (flow_enter_bytes side urn price qty) = urn"
  "EnterRequestView_Side (flow_enter_bytes side urn price qty) = side"
  "EnterRequestView_Quantity (flow_enter_bytes side urn price qty) = qty"
  "EnterRequestView_Price (flow_enter_bytes side urn price qty) = price"
  unfolding flow_enter_bytes_def
  by (simp_all add: EnterRequest_codec load_defs decode_nonempty sized_stores [where N = 47] wire_simps)

lemma message_size: "OUCHMessageIn_SIZE = 47"
  by (simp add: OUCHMessageIn_SIZE_def wire_consts)

lemma enter_payload: "length junk = OUCHMessageIn_SIZE \<Longrightarrow> write_at 0 (flow_enter_bytes side urn price qty) junk = flow_enter_bytes side urn price qty"
  by (simp add: write_at_def message_size)

lemma cancel_payload:
  assumes "length junk = OUCHMessageIn_SIZE"
  obtains v where "decode (write_at 0 (flow_cancel_bytes urn) junk) = Some (CancelRequestView v)"
    "CancelRequestView_UserRefNum v = urn" "CancelRequestView_Quantity v = 0"
proof -
  let ?b = "flow_cancel_bytes urn" and ?w = "write_at 0 (flow_cancel_bytes urn) junk"
  have b: "length ?b = 9" "?b ! 0 = 88" "CancelRequestView_UserRefNum ?b = urn" "CancelRequestView_Quantity ?b = 0"
    unfolding flow_cancel_bytes_def
    by (simp_all add: CancelRequest_codec load_defs decode_nonempty sized_stores [where N = 9] wire_simps)
  have w: "?w = ?b @ drop 9 junk" by (simp add: write_at_def b)
  have "decode ?w = Some (CancelRequestView ?w)" using b(1,2) by (simp add: w decode_nonempty nth_append)
  moreover have "CancelRequestView_UserRefNum ?w = urn" "CancelRequestView_Quantity ?w = 0"
    unfolding w by (subst cancel_view_append; simp add: b CancelRequestView_WIRE_SIZE_def)+
  ultimately show ?thesis by (rule that)
qed

fun rejected :: "Event \<Rightarrow> bool" where
  "rejected (CancelRejected _ _) = True"
| "rejected _ = False"

lemma fill_events_not_rejected: "\<not> list_ex rejected (fill_events a u m fs)"
  by (induction a u m fs rule: fill_events.induct) simp_all

lemma enter_not_rejected: "enter_order ord B = (B', w, evs) \<Longrightarrow> \<not> list_ex rejected evs"
  using fill_events_not_rejected
  by (auto simp: enter_order_def match_order_def Let_def split: if_splits prod.splits)

section \<open>Entering an order\<close>

lemma book_sim_sets:
  assumes "book_sim n C os B"
  shows "set (bids B) = resting ` {s \<in> set os. s_side s = SideEnum_B}" "set (asks B) = resting ` {s \<in> set os. s_side s \<noteq> SideEnum_B}"
proof -
  have "side_of (\<lambda>s. s_side s = SideEnum_B) os = mset (bids B)" "side_of (\<lambda>s. s_side s \<noteq> SideEnum_B) os = mset (asks B)"
    using assms by (simp_all add: book_sim_def)
  from this [THEN arg_cong, of set_mset] show "set (bids B) = resting ` {s \<in> set os. s_side s = SideEnum_B}"
    "set (asks B) = resting ` {s \<in> set os. s_side s \<noteq> SideEnum_B}" by (simp_all add: side_of_def)
qed

lemma sim_ok_mono:
  assumes "sim_ok n C s" "n \<le> n'" "\<forall>c<CLIENT_NO. C ! c \<le> C' ! c"
  shows "sim_ok n' C' s"
  using assms unfolding sim_ok_def by (meson order.strict_trans2)

lemma book_sim_mono:
  assumes "book_sim n C os B" "n \<le> n'" "\<forall>c<CLIENT_NO. C ! c \<le> C' ! c"
  shows "book_sim n' C' os B"
  using assms sim_ok_mono [OF _ assms(2,3)] by (auto simp: book_sim_def list_all_iff)

lemma order_key_inject: "order_key a u = order_key a' u' \<Longrightarrow> a = a' \<and> u = u'"
  by (metis order_key_roundtrip)

lemma book_inv_next_ref:
  assumes "book_inv cap B" "last_ref B < last_ref B + 1"
  shows "book_inv cap (B\<lparr>last_ref := last_ref B + 1\<rparr>)"
proof -
  have "x \<le> last_ref B + 1" if "x \<le> last_ref B" for x using that assms(2) by (meson order.strict_implies_order order_trans)
  then show ?thesis using assms(1) by (simp add: book_inv_def price_time_def not_crossed_def)
qed

text \<open>What is left of the order rests on both sides of the simulation.\<close>

lemma rest_sim:
  assumes sim: "book_sim n C os B" and ref: "last_ref B = m + 1" "m < n"
    and ord: "o_side ord \<in> {SideEnum_B, SideEnum_S}" "o_price ord < MARKET_PRICE"
    and c: "c < CLIENT_NO" "o_account ord = of_nat c" "o_urn ord = C ! c" "\<forall>c<CLIENT_NO. C ! c \<le> C' ! c" "C ! c < C' ! c"
  shows "book_sim n C' (os @ [(incoming ord m)\<lparr>s_remaining_qty := q\<rparr>]) (rest_order ord q B)"
proof -
  let ?s = "(incoming ord m)\<lparr>s_remaining_qty := q\<rparr>" and ?key = "order_key (o_account ord) (o_urn ord)"
  let ?r = "\<lparr>r_key = ?key, r_ref = last_ref B, r_price = o_price ord, r_qty = q\<rparr>"
  have r: "resting ?s = ?r" by (simp add: resting_def incoming_def ref)
  have fresh: "r_key r \<noteq> ?key" if mem: "r \<in> set (bids B @ asks B)" for r
  proof
    assume key: "r_key r = ?key"
    obtain s where s: "s \<in> set os" "r = resting s" using book_sim_sets [OF sim] mem by auto
    then obtain d where d: "d < CLIENT_NO" "s_account s = of_nat d" "s_user_ref_num s < C ! d"
      using sim by (auto simp: book_sim_def list_all_iff sim_ok_def)
    have "order_key (of_nat d) (s_user_ref_num s) = order_key (of_nat c) (C ! c)" using key s(2) c(2,3) d(2) by (simp add: resting_def)
    from order_key_inject [OF this] have "of_nat c = (of_nat d :: u32)" "s_user_ref_num s = C ! c" by simp_all
    moreover have "c = d" if "of_nat c = (of_nat d :: u32)"
      using arg_cong [OF that, of unat] c(1) d(1) by (simp add: unat_of_nat CLIENT_NO_def)
    ultimately show False using d(3) by simp
  qed
  have ok: "sim_ok n C' ?s" using ord ref(2) c by (auto simp: sim_ok_def incoming_def)
  have sides: "side_of P (os @ [?s]) = side_of P os + (if P ?s then {#?r#} else {#})" for P
    using r by (simp add: side_of_def)
  have keep: "list_all (sim_ok n C') os" using sim sim_ok_mono [OF _ order.refl c(4)] by (auto simp: book_sim_def list_all_iff)
  have dist: "distinct (map r_key (bids B @ asks B))" and ix: "\<forall>r\<in>set (bids B @ asks B). index B (r_key r) = Some (r_ref r)"
    using sim by (simp_all add: book_sim_def)
  have perm: "distinct (map r_key (insert_sorted f ?r xs)) \<longleftrightarrow> ?key \<notin> r_key ` set xs \<and> distinct (map r_key xs)" for f xs
    by (metis (no_types, lifting) Resting.select_convs(1) distinct.simps(2) insert_sorted_perm list.simps(9) mset.simps(2) mset_eq_imp_distinct_iff mset_map set_map)
  have "?key \<noteq> r_key r" if "r \<in> set (bids B @ asks B)" for r using fresh [OF that] by simp
  moreover have "s_side ?s = o_side ord" by (simp add: incoming_def)
  ultimately show ?thesis
    using ord(1) sim ok keep dist ix fresh
    by (auto simp: book_sim_def sides rest_order_def Let_def insert_sorted_perm perm)
qed

lemma enter_sim:
  assumes sim: "flow_sim cap k fg B" and k: "k < cap" "k + 1 < 2 ^ 32" and c: "c < CLIENT_NO"
    and side: "side \<in> {SideEnum_B, SideEnum_S}" and price: "price \<le> MARKET_PRICE" and junk: "length junk = OUCHMessageIn_SIZE"
    and enter: "enter_at junk c side price qty fg = ((m, a), fg')"
  shows "\<exists>B' evs. request m B = (B', evs) \<and> flow_sim cap (Suc k) fg' B' \<and> \<not> list_ex rejected evs"
proof -
  let ?n = "next_arrival_sequence fg" and ?C = "seq_counter fg"
  let ?C' = "?C[c := ?C ! c + 1]" and ?B0 = "B\<lparr>last_ref := last_ref B + 1\<rparr>"
  note s = sim [unfolded flow_sim_def]
  define ord where "ord = \<lparr>o_account = of_nat c, o_urn = ?C ! c, o_side = side, o_qty = qty, o_price = price\<rparr>"
  obtain q os' where af: "apply_fills (incoming ord ?n) qty (open_orders fg) = (q, os')" by fastforce
  have m: "request m B = (case enter_order ord B of (B', _, evs) \<Rightarrow> (B', evs))"
    using enter enter_payload [OF junk] by (auto simp: enter_at_def Let_def request_def order_of_def ord_def)
  have fg': "open_orders fg' = (if 0 < q \<and> price \<noteq> MARKET_PRICE then os' @ [(incoming ord ?n)\<lparr>s_remaining_qty := q\<rparr>] else os')"
    "seq_counter fg' = ?C'" "next_arrival_sequence fg' = ?n + 1"
    using enter af by (auto simp: enter_at_def Let_def apply_enter_def incoming_def ord_def)
  have inc: "unat (x + 1) = unat x + 1" "x < x + 1" if "unat x \<le> k" for x :: u64
    using that k(2) by (simp_all add: unat_word_ariths word_less_nat_alt take_bit_nat_eq_self)
  have inc32: "unat (x + 1) = unat x + 1" "x < x + 1" if "unat x \<le> k" for x :: u32
    using that k(2) by (simp_all add: unat_word_ariths word_less_nat_alt take_bit_nat_eq_self)
  have n: "?n < ?n + 1" "unat (?n + 1) \<le> Suc k" using inc [of ?n] s by auto
  have uc: "unat (?C ! c) \<le> k" using s c by (auto simp: list_all_length)
  have C': "\<forall>d<CLIENT_NO. ?C ! d \<le> ?C' ! d" "?C ! c < ?C' ! c" "list_all (\<lambda>x. unat x \<le> Suc k) ?C'"
    using s c inc32 [OF uc] uc by (auto simp: nth_list_update list_all_length)
  have inv0: "book_inv cap ?B0" using s n(1) by (intro book_inv_next_ref) auto
  have sim0: "book_sim (?n + 1) ?C (open_orders fg) ?B0"
    using book_sim_mono [of ?n ?C "open_orders fg" B "?n + 1" ?C] s n(1) by (simp add: book_sim_def)
  obtain es q1 B1 where mo: "match_order ord ?B0 = (es, q1, B1)" by (metis prod_cases3)
  have "q = q1" and sim1: "book_sim (?n + 1) ?C os' B1" and len: "length (bids B1) \<le> length (bids B)" "length (asks B1) \<le> length (asks B)"
    using match_sim [OF sim0 inv0 _ mo, of ?n q os'] af side by (simp_all add: ord_def)
  have inv1: "book_inv cap B1" "last_ref B1 = ?n + 1" using match_order_inv(1,2) [OF inv0 mo] s by simp_all
  have room: "room B1 \<noteq> 0" using inv1(1) len s k(1) by (auto simp: book_inv_def)
  obtain B' w evs where en: "enter_order ord B = (B', w, evs)" by (metis prod_cases3)
  have B': "B' = (if q = 0 \<or> price = MARKET_PRICE then B1 else rest_order ord q B1)"
    using en mo room \<open>q = q1\<close> by (auto simp: enter_order_def Let_def ord_def MARKET_PRICE_def MARKETPRICE_def split: if_splits)
  have "book_inv cap B'"
    by (rule enter_order_inv [OF _ _ en]) (use s inc [of ?n] k in auto)
  moreover have "book_sim (?n + 1) ?C' (open_orders fg') B'"
  proof (cases "q = 0 \<or> price = MARKET_PRICE")
    case True
    then show ?thesis using book_sim_mono [OF sim1 order.refl C'(1)] by (auto simp: fg' B')
  next
    case False
    then have "price < MARKET_PRICE" using price by (simp add: order.strict_iff_order)
    then have "book_sim (?n + 1) ?C' (os' @ [(incoming ord ?n)\<lparr>s_remaining_qty := q\<rparr>]) (rest_order ord q B1)"
      using rest_sim [OF sim1 inv1(2) n(1), of ord c ?C'] side price c C' by (simp add: ord_def)
    then show ?thesis using False by (simp add: fg' B' word_gt_0)
  qed
  moreover have "last_ref B' = ?n + 1" "length (bids B') + length (asks B') \<le> Suc k"
    using inv1(2) len s arg_cong [OF insert_sorted_perm, of size] by (auto simp: B' rest_order_def Let_def)
  ultimately have "flow_sim cap (Suc k) fg' B'" using s n(2) C'(3) fg'(2,3) by (simp add: flow_sim_def)
  then show ?thesis using m en enter_not_rejected [OF en] by auto
qed

section \<open>Cancelling an order\<close>

lemma mset_drop_ref:
  "distinct (map r_ref rs) \<Longrightarrow> r \<in> set rs \<Longrightarrow> mset rs = add_mset r (mset (drop_ref (r_ref r) rs))"
proof (induction rs)
  case (Cons x rs)
  then show ?case using drop_ref_other [of "r_ref r" rs] by (cases "x = r") (auto simp: drop_ref_def)
qed simp

lemma cancel_book:
  assumes inv: "book_inv cap B" and r: "r \<in> set (bids B @ asks B)" and key: "r_key r = order_key account urn" and ix: "index B (r_key r) = Some (r_ref r)"
  shows "cancel_request account urn 0 B =
    (B\<lparr>bids := drop_ref (r_ref r) (bids B), asks := drop_ref (r_ref r) (asks B), index := (index B)(r_key r := None), room := Suc (room B)\<rparr>,
     r_qty r, [Canceled account urn (r_qty r) 85])"
proof -
  have dist: "distinct (map r_ref (bids B @ asks B))" and pos: "0 < r_qty r" using inv r by (auto simp: book_inv_def)
  obtain r' where r': "find (\<lambda>x. r_ref x = r_ref r) (bids B @ asks B) = Some r'"
    using r by (cases "find (\<lambda>x. r_ref x = r_ref r) (bids B @ asks B)") (auto simp: find_None_iff)
  then have "r' \<in> set (bids B @ asks B)" "r_ref r' = r_ref r" by (auto simp: find_Some_iff in_set_conv_nth simp del: set_append)
  then have "r' = r" using dist r unfolding distinct_map inj_on_def by blast
  then show ?thesis using pos ix r' key by (simp add: cancel_request_def Let_def word_gt_0)
qed

lemma drop_sim:
  assumes sim: "book_sim n C os B" and inv: "book_inv cap B" and i: "i < length os" and r: "r = resting (os ! i)"
  shows "book_sim n C (swap_remove i os) (B\<lparr>bids := drop_ref (r_ref r) (bids B), asks := drop_ref (r_ref r) (asks B),
    index := (index B)(r_key r := None), room := Suc (room B)\<rparr>)"
proof -
  note s = sim [unfolded book_sim_def]
  have mset_os: "mset os = add_mset (os ! i) (mset (swap_remove i os))" by (rule mset_swap_remove [OF i])
  have refs: "distinct (map r_ref (bids B))" "distinct (map r_ref (asks B))" "r_ref ` set (bids B) \<inter> r_ref ` set (asks B) = {}"
    using inv by (auto simp: book_inv_def)
  have sides: "side_of P os = (if P (os ! i) then {#r#} else {#}) + side_of P (swap_remove i os)" for P
    by (simp add: side_of_def mset_os r)
  have bid: "side_of (\<lambda>s. s_side s = SideEnum_B) (swap_remove i os) = mset (drop_ref (r_ref r) (bids B))"
    and ask: "side_of (\<lambda>s. s_side s \<noteq> SideEnum_B) (swap_remove i os) = mset (drop_ref (r_ref r) (asks B))"
  proof -
    have "r \<in> set (bids B) \<and> r_ref r \<notin> r_ref ` set (asks B) \<and> s_side (os ! i) = SideEnum_B \<or>
        r \<in> set (asks B) \<and> r_ref r \<notin> r_ref ` set (bids B) \<and> s_side (os ! i) \<noteq> SideEnum_B"
    proof (cases "s_side (os ! i) = SideEnum_B")
      case True
      then have "r \<in> set (bids B)" using book_sim_sets(1) [OF sim] i by (auto simp: r)
      then show ?thesis using True refs(3) by blast
    next
      case False
      then have "r \<in> set (asks B)" using book_sim_sets(2) [OF sim] i by (auto simp: r)
      then show ?thesis using False refs(3) by blast
    qed
    then show "side_of (\<lambda>s. s_side s = SideEnum_B) (swap_remove i os) = mset (drop_ref (r_ref r) (bids B))"
      "side_of (\<lambda>s. s_side s \<noteq> SideEnum_B) (swap_remove i os) = mset (drop_ref (r_ref r) (asks B))"
      using mset_drop_ref [OF refs(1), of r] mset_drop_ref [OF refs(2), of r] s sides [of "\<lambda>s. s_side s = SideEnum_B"]
        sides [of "\<lambda>s. s_side s \<noteq> SideEnum_B"] by (auto simp: drop_ref_other)
  qed
  have good: "list_all (sim_ok n C) (swap_remove i os)"
    using s arg_cong [OF mset_os, of set_mset] by (auto simp: list_all_iff)
  have mem: "r \<in> set (bids B @ asks B)" using book_sim_sets [OF sim] i by (auto simp: r)
  have keys: "r_key x \<noteq> r_key r" if x: "x \<in> set (bids B @ asks B)" "r_ref x \<noteq> r_ref r" for x
  proof -
    have "distinct (map r_key (bids B @ asks B))" using s by simp
    then have "inj_on r_key (set (bids B @ asks B))" unfolding distinct_map by simp
    then show ?thesis using x mem by (auto dest: inj_onD)
  qed
  have "drop_ref (r_ref r) (bids B) @ drop_ref (r_ref r) (asks B) = filter (\<lambda>x. r_ref x \<noteq> r_ref r) (bids B @ asks B)" by (simp add: drop_ref_def)
  then have "distinct (map r_key (drop_ref (r_ref r) (bids B) @ drop_ref (r_ref r) (asks B)))"
    using s distinct_map_filter by metis
  then show ?thesis using bid ask good s keys by (auto simp: book_sim_def drop_ref_def)
qed

lemma cancel_sim:
  assumes sim: "flow_sim cap k fg B" and os: "open_orders fg \<noteq> []" and range: "\<And>hi g. fst (draw hi g) \<le> hi"
    and junk: "length junk = OUCHMessageIn_SIZE" and cancel: "create_cancel_order draw junk fg = ((m, a), fg')"
  shows "\<exists>B' evs. request m B = (B', evs) \<and> flow_sim cap (Suc k) fg' B' \<and> \<not> list_ex rejected evs"
proof -
  note s = sim [unfolded flow_sim_def]
  obtain i g where ig: "draw (length (open_orders fg) - 1) (rng fg) = (i, g)" by fastforce
  have i: "i < length (open_orders fg)" using range [of "length (open_orders fg) - 1" "rng fg"] ig os by (cases "open_orders fg") auto
  let ?s = "open_orders fg ! i"
  define r where "r = resting ?s"
  obtain v where v: "decode (in_bytes m) = Some (CancelRequestView v)" "CancelRequestView_UserRefNum v = s_user_ref_num ?s" "CancelRequestView_Quantity v = 0"
    by (rule cancel_payload [OF junk, of "s_user_ref_num ?s"]) (use cancel ig in \<open>auto simp: create_cancel_order_def Let_def\<close>)
  have fg': "fg' = fg\<lparr>rng := g, open_orders := swap_remove i (open_orders fg)\<rparr>" and acc: "in_account m = s_account ?s"
    using cancel ig by (auto simp: create_cancel_order_def Let_def)
  have mem: "r \<in> set (bids B @ asks B)" using book_sim_sets i s by (fastforce simp: r_def)
  let ?B' = "B\<lparr>bids := drop_ref (r_ref r) (bids B), asks := drop_ref (r_ref r) (asks B), index := (index B)(r_key r := None), room := Suc (room B)\<rparr>"
  have cb: "cancel_request (s_account ?s) (s_user_ref_num ?s) 0 B = (?B', r_qty r, [Canceled (s_account ?s) (s_user_ref_num ?s) (r_qty r) 85])"
  proof (rule cancel_book [OF _ mem])
    show "r_key r = order_key (s_account ?s) (s_user_ref_num ?s)" by (simp add: r_def resting_def)
    show "book_inv cap B" "index B (r_key r) = Some (r_ref r)" using s mem by (auto simp: book_sim_def)
  qed
  have "book_inv cap ?B'" by (rule cancel_request_inv [OF _ cb]) (use s in simp)
  moreover have "book_sim (next_arrival_sequence fg) (seq_counter fg) (swap_remove i (open_orders fg)) ?B'"
    by (rule drop_sim [OF _ _ i r_def]) (use s in auto)
  moreover have "length (drop_ref x (bids B)) + length (drop_ref x (asks B)) \<le> k" for x
    using s length_filter_le [of _ "bids B"] length_filter_le [of _ "asks B"] unfolding drop_ref_def by (meson add_mono order_trans)
  ultimately have "flow_sim cap (Suc k) fg' ?B'" using s by (auto simp: flow_sim_def fg' list_all_iff le_SucI)
  then show ?thesis using v cb acc by (auto simp: request_def)
qed

section \<open>The constructor\<close>

text \<open>
  What the distributions promise: a value in range, and, drawn again and again, every value of the range.
\<close>

definition in_range :: "'g draw \<Rightarrow> bool" where
  "in_range draw \<longleftrightarrow> (\<forall>hi g. fst (draw hi g) \<le> hi)"

definition advance :: "'g draw \<Rightarrow> nat \<Rightarrow> 'g \<Rightarrow> 'g" where
  "advance draw hi g = snd (draw hi g)"

definition every_value :: "'g draw \<Rightarrow> bool" where
  "every_value draw \<longleftrightarrow> (\<forall>hi g v. v \<le> hi \<longrightarrow> (\<exists>k. fst (draw hi ((advance draw hi ^^ k) g)) = v))"

definition valid_price :: "nat \<Rightarrow> u64 \<Rightarrow> bool" where
  "valid_price n p \<longleftrightarrow> p \<le> MARKET_PRICE \<and> (p = MARKET_PRICE \<or> unat p < n)"

lemma list_prices:
  assumes "i \<le> 4" "105 \<le> n"
  shows "valid_price n (BUY_PRICES ! i)" "valid_price n (SELL_PRICES ! i)"
proof -
  have "i = 0 \<or> i = 1 \<or> i = 2 \<or> i = 3 \<or> i = 4" using assms(1) by linarith
  then show "valid_price n (BUY_PRICES ! i)" "valid_price n (SELL_PRICES ! i)"
    using assms(2) by (auto simp: BUY_PRICES_def SELL_PRICES_def valid_price_def MARKET_PRICE_def word_le_nat_alt)
qed

lemma draw_price_returns:
  assumes "fst (draw 4 ((advance draw 4 ^^ k) g)) = v" "prices ! v \<noteq> SPREAD"
  shows "\<exists>h p g'. draw_price draw prices g = Some (prices ! fst (draw 4 h), g')"
  using assms(1)
proof (induction k arbitrary: g)
  case 0
  then show ?case using assms(2) by (subst draw_price.simps) (auto simp: split_def Let_def intro: exI [of _ g])
next
  case (Suc k)
  show ?case
  proof (cases "prices ! fst (draw 4 g) = SPREAD")
    case True
    then have "draw_price draw prices g = draw_price draw prices (advance draw 4 g)" by (subst draw_price.simps) (simp add: split_def advance_def)
    then show ?thesis using Suc.IH [of "advance draw 4 g"] Suc.prems by (simp add: funpow_swap1)
  next
    case False
    then show ?thesis by (subst draw_price.simps) (auto simp: split_def Let_def intro: exI [of _ g])
  qed
qed

lemma choose_price_returns:
  assumes "in_range draw" "every_value draw" "105 \<le> n"
  obtains p g' where "choose_price draw side warm market crosses g = Some (p, g')" "valid_price n p"
proof -
  have le: "fst (draw 4 h) \<le> 4" for h using assms(1) by (simp add: in_range_def)
  have "\<exists>k. fst (draw 4 ((advance draw 4 ^^ k) g)) = 0" "\<exists>k. fst (draw 4 ((advance draw 4 ^^ k) g)) = 4"
    using assms(2) by (simp_all add: every_value_def)
  moreover have "BUY_PRICES ! 0 \<noteq> SPREAD" "SELL_PRICES ! 4 \<noteq> SPREAD" by (simp_all add: BUY_PRICES_def SELL_PRICES_def SPREAD_def)
  ultimately have "\<exists>h g'. draw_price draw BUY_PRICES g = Some (BUY_PRICES ! fst (draw 4 h), g')"
    "\<exists>h g'. draw_price draw SELL_PRICES g = Some (SELL_PRICES ! fst (draw 4 h), g')"
    using draw_price_returns [of draw _ g] by metis+
  moreover have "valid_price n MARKET_PRICE" by (simp add: valid_price_def)
  ultimately have "\<exists>p g'. choose_price draw side warm market crosses g = Some (p, g') \<and> valid_price n p"
    using list_prices [OF le assms(3)] unfolding choose_price_def by (auto simp: split_def Let_def)
  then show ?thesis using that by blast
qed

text \<open>A message the generator adds, and the generator with the messages it has produced.\<close>

definition produces :: "nat \<Rightarrow> nat \<Rightarrow> nat \<Rightarrow> 'g FlowGenerator \<Rightarrow> InboundMessage \<Rightarrow> 'g FlowGenerator \<Rightarrow> bool" where
  "produces n cap k fg m fg' \<longleftrightarrow> warm_book fg' = warm_book fg \<and> bench_orders fg' = bench_orders fg \<and> msg_ok n m \<and>
     (\<forall>B. flow_sim cap k fg B \<longrightarrow> (\<exists>B' evs. request m B = (B', evs) \<and> flow_sim cap (Suc k) fg' B' \<and> \<not> list_ex rejected evs))"

definition messages_of :: "'g FlowGenerator \<Rightarrow> InboundMessage list" where
  "messages_of fg = map fst (warm_book fg @ bench_orders fg)"

definition flow_run :: "nat \<Rightarrow> nat \<Rightarrow> 'g FlowGenerator \<Rightarrow> bool" where
  "flow_run n cap fg \<longleftrightarrow> list_all (msg_ok n) (messages_of fg) \<and>
     (\<exists>B evs. requests (messages_of fg) (empty_book cap) = (B, evs) \<and> flow_sim cap (length (messages_of fg)) fg B \<and> \<not> list_ex rejected evs)"

lemma requests_snoc:
  "requests (ms @ [m]) B = (let (B1, evs) = requests ms B; (B2, evs') = request m B1 in (B2, evs @ evs'))"
  by (induction ms arbitrary: B) (auto simp: split_def Let_def)

lemma flow_run_push:
  assumes "flow_run n cap fg" "produces n cap (length (messages_of fg)) fg m fg'" "messages_of fg'' = messages_of fg @ [m]"
    and "\<And>k B. flow_sim cap k fg'' B = flow_sim cap k fg' B"
  shows "flow_run n cap fg''"
proof -
  obtain B evs where B: "requests (messages_of fg) (empty_book cap) = (B, evs)" "flow_sim cap (length (messages_of fg)) fg B" "\<not> list_ex rejected evs"
    using assms(1) by (auto simp: flow_run_def)
  then obtain B' evs' where "request m B = (B', evs')" "flow_sim cap (Suc (length (messages_of fg))) fg' B'" "\<not> list_ex rejected evs'"
    using assms(2) by (auto simp: produces_def)
  then show ?thesis using assms B by (auto simp: flow_run_def requests_snoc produces_def)
qed

lemma enter_produces:
  assumes draw: "in_range draw" "every_value draw" "105 \<le> n" and k: "k < cap" "k + 1 < 2 ^ 32" and c: "c < CLIENT_NO"
    and side: "side \<in> {SideEnum_B, SideEnum_S}" and junk: "length junk = OUCHMessageIn_SIZE"
  obtains m a fg' where "create_enter_request draw junk c side warm market crosses fg = Some ((m, a), fg')" "produces n cap k fg m fg'"
proof -
  obtain i g where i: "draw 4 (rng fg) = (i, g)" by fastforce
  obtain p g' where p: "choose_price draw side warm market crosses g = Some (p, g')" "valid_price n p"
    by (rule choose_price_returns [OF draw])
  let ?fg = "fg\<lparr>rng := g'\<rparr>" and ?q = "ucast (QTYS ! i)"
  obtain m a fg' where e: "enter_at junk c side p ?q ?fg = ((m, a), fg')" by (metis prod.exhaust)
  have "create_enter_request draw junk c side warm market crosses fg = Some ((m, a), fg')"
    using i p(1) e by (simp add: create_enter_request_def)
  moreover have "produces n cap k fg m fg'"
    unfolding produces_def
  proof (intro conjI allI impI)
    show "warm_book fg' = warm_book fg" "bench_orders fg' = bench_orders fg"
      using e by (auto simp: enter_at_def Let_def apply_enter_def split: prod.splits)
    have "in_bytes m = flow_enter_bytes side (seq_counter fg ! c) p ?q"
      using e enter_payload [OF junk] by (auto simp: enter_at_def Let_def)
    then show "msg_ok n m" using p(2) side
      by (auto simp: msg_ok_def valid_price_def EnterRequestView_WIRE_SIZE_def MARKET_PRICE_def MARKETPRICE_def)
    fix B assume "flow_sim cap k fg B"
    then have "flow_sim cap k ?fg B" by (simp add: flow_sim_def)
    then show "\<exists>B' evs. request m B = (B', evs) \<and> flow_sim cap (Suc k) fg' B' \<and> \<not> list_ex rejected evs"
      by (rule enter_sim [OF _ k c side _ junk e]) (use p(2) in \<open>simp add: valid_price_def\<close>)
  qed
  ultimately show ?thesis by (rule that)
qed

lemma cancel_produces:
  assumes "in_range draw" "open_orders fg \<noteq> []" "length junk = OUCHMessageIn_SIZE"
  obtains m a fg' where "create_cancel_order draw junk fg = ((m, a), fg')" "produces n cap k fg m fg'"
proof -
  obtain m a fg' where e: "create_cancel_order draw junk fg = ((m, a), fg')" by (metis prod.exhaust)
  have range: "fst (draw hi g) \<le> hi" for hi g using assms(1) by (simp add: in_range_def)
  obtain i g where "draw (length (open_orders fg) - 1) (rng fg) = (i, g)" by fastforce
  then have m: "in_bytes m = write_at 0 (flow_cancel_bytes (s_user_ref_num (open_orders fg ! i))) junk"
    and fg': "warm_book fg' = warm_book fg" "bench_orders fg' = bench_orders fg"
    using e by (auto simp: create_cancel_order_def Let_def)
  have "msg_ok n m"
    by (rule cancel_payload [OF assms(3), of "s_user_ref_num (open_orders fg ! i)"]) (use m in \<open>simp add: msg_ok_def\<close>)
  then show ?thesis using that [OF e] fg' cancel_sim [OF _ assms(2) range assms(3) e] by (auto simp: produces_def)
qed

lemma draw_side_valid: "draw_side draw g = (side, g') \<Longrightarrow> side \<in> {SideEnum_B, SideEnum_S}"
  by (auto simp: draw_side_def Let_def split: prod.splits if_splits)

lemma client_valid: "in_range draw \<Longrightarrow> draw (CLIENT_NO - 1) g = (c, g') \<Longrightarrow> c < CLIENT_NO"
  unfolding in_range_def by (metis CLIENT_NO_def fst_conv le_imp_less_Suc Suc_diff_1 zero_less_numeral)

lemma flow_run_rng: "flow_run n cap (fg\<lparr>rng := g\<rparr>) = flow_run n cap fg"
  by (simp add: flow_run_def messages_of_def flow_sim_def)

lemma warm_loop_returns:
  assumes draw: "in_range draw" "every_value draw" "105 \<le> n" and junk: "\<And>i. length (junk i) = OUCHMessageIn_SIZE"
    and run: "flow_run n cap fg" "bench_orders fg = []" "length (warm_book fg) + w \<le> cap" "length (warm_book fg) + w < 2 ^ 32"
  shows "\<exists>fg'. warm_loop draw junk w fg = Some fg' \<and> flow_run n cap fg' \<and> bench_orders fg' = [] \<and> length (warm_book fg') = length (warm_book fg) + w"
  using run
proof (induction w arbitrary: fg)
  case (Suc w)
  obtain side g1 where side: "draw_side draw (rng fg) = (side, g1)" by fastforce
  obtain c g2 where c: "draw (CLIENT_NO - 1) g1 = (c, g2)" by fastforce
  let ?fg = "fg\<lparr>rng := g2\<rparr>" and ?k = "length (warm_book fg)"
  have "?k < cap" "?k + 1 < 2 ^ 32" using Suc.prems by simp_all
  from enter_produces [OF draw this client_valid [OF draw(1) c] draw_side_valid [OF side] junk]
  obtain m a fg1 where e: "create_enter_request draw (junk w) c side True False False ?fg = Some ((m, a), fg1)" "produces n cap ?k ?fg m fg1" .
  let ?fg1 = "fg1\<lparr>warm_book := warm_book fg1 @ [(m, a)]\<rparr>"
  have "flow_run n cap ?fg1"
    by (rule flow_run_push [of n cap ?fg m fg1])
      (use e(2) Suc.prems(1,2) in \<open>auto simp: flow_run_rng messages_of_def produces_def flow_sim_def\<close>)
  then have "\<exists>fg'. warm_loop draw junk w ?fg1 = Some fg' \<and> flow_run n cap fg' \<and> bench_orders fg' = [] \<and> length (warm_book fg') = length (warm_book ?fg1) + w"
    by (rule Suc.IH) (use e(2) Suc.prems in \<open>auto simp: produces_def\<close>)
  then show ?case using side c e by (auto simp: produces_def)
qed simp

lemma bench_step_returns:
  assumes draw: "in_range draw" "every_value draw" "105 \<le> n" and junk: "length junk = OUCHMessageIn_SIZE"
    and run: "flow_run n cap fg" "length (messages_of fg) < cap" "length (messages_of fg) + 1 < 2 ^ 32" and t: "\<not> retries t fg"
  shows "\<exists>fg'. bench_step draw junk t fg = Some fg' \<and> flow_run n cap fg' \<and> warm_book fg' = warm_book fg \<and>
    length (bench_orders fg') = Suc (length (bench_orders fg))"
proof -
  let ?k = "length (messages_of fg)"
  have push: "flow_run n cap (fg1\<lparr>bench_orders := bench_orders fg1 @ [(m, a)]\<rparr>) \<and>
      warm_book (fg1\<lparr>bench_orders := bench_orders fg1 @ [(m, a)]\<rparr>) = warm_book fg \<and>
      length (bench_orders (fg1\<lparr>bench_orders := bench_orders fg1 @ [(m, a)]\<rparr>)) = Suc (length (bench_orders fg))"
    if "produces n cap ?k (fg\<lparr>rng := g\<rparr>) m fg1" for g m a fg1
    using flow_run_push [of n cap "fg\<lparr>rng := g\<rparr>" m fg1 "fg1\<lparr>bench_orders := bench_orders fg1 @ [(m, a)]\<rparr>"] that run(1)
    by (simp add: flow_run_rng messages_of_def produces_def flow_sim_def)
  obtain side g1 where side: "draw_side draw (rng fg) = (side, g1)" by fastforce
  obtain c g2 where c: "draw (CLIENT_NO - 1) g1 = (c, g2)" by fastforce
  obtain x g3 where x: "draw 99 g2 = (x, g3)" by fastforce
  note enter = enter_produces [OF draw run(2,3) client_valid [OF draw(1) c] draw_side_valid [OF side] junk]
  consider (limit) "t < ENTER_ORDER_PERC" | (market) "ENTER_ORDER_PERC + CANCEL_ORDER_PERC \<le> t" "\<not> t < ENTER_ORDER_PERC"
    | (cancel) "\<not> t < ENTER_ORDER_PERC" "\<not> ENTER_ORDER_PERC + CANCEL_ORDER_PERC \<le> t" by blast
  then show ?thesis
  proof cases
    case limit
    obtain m a fg1 where "create_enter_request draw junk c side False False (x < CROSS_PERCENTAGE) (fg\<lparr>rng := g3\<rparr>) = Some ((m, a), fg1)"
      "produces n cap ?k (fg\<lparr>rng := g3\<rparr>) m fg1" by (rule enter)
    then show ?thesis using push limit side c x by (auto simp: bench_step_def)
  next
    case market
    obtain m a fg1 where "create_enter_request draw junk c side True True False (fg\<lparr>rng := g2\<rparr>) = Some ((m, a), fg1)"
      "produces n cap ?k (fg\<lparr>rng := g2\<rparr>) m fg1" by (rule enter)
    then show ?thesis using push market side c by (auto simp: bench_step_def)
  next
    case cancel
    then have "open_orders fg \<noteq> []" using t by (auto simp: retries_def)
    then obtain m a fg1 where "create_cancel_order draw junk fg = ((m, a), fg1)" "produces n cap ?k fg m fg1"
      using cancel_produces [OF draw(1) _ junk, of fg] by blast
    then show ?thesis using push [of "rng fg"] cancel by (auto simp: bench_step_def)
  qed
qed

text \<open>The loop draws until it finds an operation that is possible.\<close>

lemma bench_loop_draws:
  assumes "fst (draw (TOTAL_ORDERS - 1) ((advance draw (TOTAL_ORDERS - 1) ^^ k) g)) = 0" "i < b"
  shows "\<exists>t g'. \<not> retries t (fg\<lparr>rng := g'\<rparr>) \<and>
    bench_loop draw junk b i (fg\<lparr>rng := g\<rparr>) = Option.bind (bench_step draw (junk i) t (fg\<lparr>rng := g'\<rparr>)) (bench_loop draw junk b (i + 1))"
  using assms(1)
proof (induction k arbitrary: g)
  case 0
  then have "\<not> retries (fst (draw (TOTAL_ORDERS - 1) g)) (fg\<lparr>rng := h\<rparr>)" for h by (simp add: retries_def ENTER_ORDER_PERC_def)
  then show ?case using assms(2) by (subst bench_loop.simps) (auto simp: split_def Let_def)
next
  case (Suc k)
  let ?t = "fst (draw (TOTAL_ORDERS - 1) g)" and ?g = "advance draw (TOTAL_ORDERS - 1) g"
  show ?case
  proof (cases "retries ?t (fg\<lparr>rng := ?g\<rparr>)")
    case True
    then have "bench_loop draw junk b i (fg\<lparr>rng := g\<rparr>) = bench_loop draw junk b i (fg\<lparr>rng := ?g\<rparr>)"
      using assms(2) by (subst bench_loop.simps) (simp add: split_def Let_def advance_def)
    then show ?thesis using Suc.IH [of ?g] Suc.prems by (simp add: funpow_swap1)
  next
    case False
    then show ?thesis using assms(2) by (subst bench_loop.simps) (auto simp: split_def Let_def advance_def)
  qed
qed

lemma bench_loop_returns:
  assumes draw: "in_range draw" "every_value draw" "105 \<le> n" and junk: "\<And>i. length (junk i) = OUCHMessageIn_SIZE"
    and run: "flow_run n cap fg" "i \<le> b" "length (messages_of fg) + (b - i) \<le> cap" "length (messages_of fg) + (b - i) < 2 ^ 32"
  shows "\<exists>fg'. bench_loop draw junk b i fg = Some fg' \<and> flow_run n cap fg' \<and> warm_book fg' = warm_book fg \<and>
    length (bench_orders fg') = length (bench_orders fg) + (b - i)"
  using run
proof (induction "b - i" arbitrary: i fg)
  case 0
  then show ?case by (subst bench_loop.simps) auto
next
  case (Suc d)
  have i: "i < b" using Suc.hyps(2) by simp
  obtain k where "fst (draw (TOTAL_ORDERS - 1) ((advance draw (TOTAL_ORDERS - 1) ^^ k) (rng fg))) = 0"
    using draw(2) unfolding every_value_def by blast
  from bench_loop_draws [of draw k "rng fg" i b fg junk, OF this i] obtain t g where t: "\<not> retries t (fg\<lparr>rng := g\<rparr>)"
    "bench_loop draw junk b i fg = Option.bind (bench_step draw (junk i) t (fg\<lparr>rng := g\<rparr>)) (bench_loop draw junk b (i + 1))" by auto
  let ?fg = "fg\<lparr>rng := g\<rparr>"
  have same: "messages_of ?fg = messages_of fg" by (simp add: messages_of_def)
  have len: "length (messages_of fg) < cap" "length (messages_of fg) + 1 < 2 ^ 32" using Suc.prems(3,4) i by linarith+
  obtain fg1 where fg1: "bench_step draw (junk i) t ?fg = Some fg1" "flow_run n cap fg1" "warm_book fg1 = warm_book ?fg"
    "length (bench_orders fg1) = Suc (length (bench_orders ?fg))"
    using bench_step_returns [where junk = "junk i" and cap = cap, OF draw junk _ _ _ t(1)] Suc.prems(1) len by (auto simp: flow_run_rng same)
  have "length (messages_of fg1) = Suc (length (messages_of fg))" using fg1(3,4) by (simp add: messages_of_def)
  then have "\<exists>fg'. bench_loop draw junk b (i + 1) fg1 = Some fg' \<and> flow_run n cap fg' \<and> warm_book fg' = warm_book fg1 \<and>
      length (bench_orders fg') = length (bench_orders fg1) + (b - (i + 1))"
    by (intro Suc.hyps(1)) (use Suc.hyps(2) Suc.prems i fg1(2) in auto)
  then show ?case using t(2) fg1 i by auto
qed

lemma flow_run_init:
  "flow_run n cap \<lparr>rng = g, warm_book = [], bench_orders = [], seq_counter = replicate CLIENT_NO 0, open_orders = [], next_arrival_sequence = 0\<rparr>"
proof -
  have "book_inv cap (empty_book cap)" by (rule empty_book_inv)
  then show ?thesis
    by (auto simp: flow_run_def messages_of_def flow_sim_def book_sim_def side_of_def list_all_length empty_book_def)
qed

lemma FlowGenerator_returns:
  assumes draw: "in_range draw" "every_value draw" "105 \<le> n"
    and junk: "\<And>i. length (junk i) = OUCHMessageIn_SIZE" "\<And>i. length (junk' i) = OUCHMessageIn_SIZE"
    and bound: "w + b \<le> cap" "w + b < 2 ^ 32"
  shows "\<exists>fg. FlowGenerator_new draw junk junk' g w b = Some fg \<and> flow_run n cap fg \<and> length (warm_book fg) = w \<and> length (bench_orders fg) = b"
proof -
  obtain fg1 where fg1: "warm_loop draw junk w \<lparr>rng = g, warm_book = [], bench_orders = [], seq_counter = replicate CLIENT_NO 0, open_orders = [], next_arrival_sequence = 0\<rparr> = Some fg1"
    "flow_run n cap fg1" "bench_orders fg1 = []" "length (warm_book fg1) = w"
    using warm_loop_returns [where junk = junk and w = w, OF draw _ flow_run_init [of n cap g]] junk(1) bound by auto
  then have "\<exists>fg'. bench_loop draw junk' b 0 fg1 = Some fg' \<and> flow_run n cap fg' \<and> warm_book fg' = warm_book fg1 \<and> length (bench_orders fg') = b"
    using bench_loop_returns [where junk = junk' and i = 0 and b = b, OF draw _ fg1(2)] junk(2) bound by (simp add: messages_of_def)
  then show ?thesis using fg1 by (auto simp: FlowGenerator_new_def)
qed

section \<open>The generator and the engine\<close>

text \<open>
  C3: The workload generator simulates the matching engine. With distributions that stay in range and yield every value again and again, its constructor
  returns the numbers of messages asked for; the engine, with a slot for every message and more than 104 price levels, processes them without undefined behaviour and
  without rejecting a cancel; and the open orders of the generator are then exactly the resting orders of the engine, with their remaining quantities.
\<close>

theorem flow_generator_tracks_engine:
  assumes draw: "in_range draw" "every_value draw"
    and junk: "\<forall>i. length (junk i) = OUCHMessageIn_SIZE" "\<forall>i. length (junk' i) = OUCHMessageIn_SIZE"
    and bounds: "w + b \<le> Size" "w + b < 2 ^ 32" "105 \<le> n" "n < 2 ^ 64" "0 < Size" "Size < 2 ^ 64"
    and new: "Allocator_new sz Size (Some base) = Inr A"
  shows "\<exists>fg e B. FlowGenerator_new draw junk junk' g w b = Some fg \<and> length (warm_book fg) = w \<and> length (bench_orders fg) = b \<and>
    run clk (map fst (warm_book fg @ bench_orders fg)) (Engine_new n A) = Some (Inr e) \<and>
    \<not> list_ex (\<lambda>m. case event_of m of None \<Rightarrow> True | Some ev \<Rightarrow> rejected ev) (outgoing e) \<and>
    engine_sim (set (slots base (used_size sz) Size)) e B \<and>
    image_mset resting (mset (open_orders fg)) = mset (bids B) + mset (asks B)"
proof -
  obtain fg where fg: "FlowGenerator_new draw junk junk' g w b = Some fg" "flow_run n Size fg" "length (warm_book fg) = w" "length (bench_orders fg) = b"
    using FlowGenerator_returns [where junk = junk and junk' = junk', OF draw bounds(3) _ _ bounds(1,2)] junk by auto
  obtain B evs where B: "requests (messages_of fg) (empty_book Size) = (B, evs)" "flow_sim Size (length (messages_of fg)) fg B" "\<not> list_ex rejected evs"
    and ok: "list_all (msg_ok n) (messages_of fg)" using fg(2) by (auto simp: flow_run_def)
  have sim: "engine_sim (set (slots base (used_size sz) Size)) (Engine_new n A) (empty_book Size)"
    by (rule Engine_new_sim [OF _ bounds(4-6) new]) (use bounds(3) in simp)
  have "length (messages_of fg) < 2 ^ 64" using fg(3,4) bounds(2) by (simp add: messages_of_def)
  then obtain e where e: "run clk (messages_of fg) (Engine_new n A) = Some (Inr e)"
    "step_to (set (slots base (used_size sz) Size)) (Engine_new n A) e B evs"
    using run_ok [OF sim _ _ B(1), of clk] ok by (auto simp: demo_counter)
  then have "map event_of (outgoing e) = map Some evs" by (auto simp: step_to_def emits_def events_of_def demo_counter)
  moreover have "\<not> list_ex (\<lambda>m. case event_of m of None \<Rightarrow> True | Some ev \<Rightarrow> rejected ev) ms" if "map event_of ms = map Some evs" for ms
    using that B(3) by (induction ms arbitrary: evs) (auto simp: Cons_eq_map_conv)
  moreover have "image_mset resting (mset (open_orders fg)) = mset (bids B) + mset (asks B)"
    using B(2) side_of_partition [of "open_orders fg" "\<lambda>s. s_side s = SideEnum_B"] by (simp add: flow_sim_def book_sim_def)
  ultimately show ?thesis using fg e by (auto simp: step_to_def messages_of_def)
qed

text \<open>A counter as the source of numbers.\<close>

definition counting :: "nat draw" where
  "counting hi g = (g mod (hi + 1), g + 1)"

lemma counting_in_range: "in_range counting"
  by (simp add: in_range_def counting_def less_Suc_eq_le [symmetric])

lemma counting_every_value: "every_value counting"
proof -
  have "advance counting hi = Suc" for hi by (rule ext) (simp add: advance_def counting_def)
  then have "(advance counting hi ^^ k) g = g + k" for hi k g by (induction k) simp_all
  moreover have "\<exists>k. (g + k) mod (hi + 1) = v" if "v \<le> hi" for g hi v :: nat
  proof -
    have "g + (g * hi + v) = v + g * (hi + 1)" by (simp add: algebra_simps)
    then have "(g + (g * hi + v)) mod (hi + 1) = v" using that by (simp only: mod_mult_self1) simp
    then show ?thesis by blast
  qed
  ultimately show ?thesis by (simp add: every_value_def counting_def)
qed

theorem flow_generator_tracks_engine_witness:
  "\<exists>fg e. FlowGenerator_new counting (\<lambda>_. replicate 47 0) (\<lambda>_. replicate 47 0) 0 1 1 = Some fg \<and> length (warm_book fg) = 1 \<and> length (bench_orders fg) = 1 \<and>
    run (\<lambda>_. (0, 0)) (map fst (warm_book fg @ bench_orders fg)) (Engine_new 105 demo_pool) = Some (Inr e) \<and>
    \<not> list_ex (\<lambda>m. case event_of m of None \<Rightarrow> True | Some ev \<Rightarrow> rejected ev) (outgoing e)"
  using flow_generator_tracks_engine [OF counting_in_range counting_every_value _ _ _ _ _ _ _ _ demo_pool_new,
      of "\<lambda>_. replicate 47 0" "\<lambda>_. replicate 47 0" 1 1 105 0 "\<lambda>_. (0, 0)"]
  by (auto simp: message_size)

end
