(* ===== verification/Spsc_Program.thy ===== *)
theory Spsc_Program
  imports Prelude
begin

text \<open>
  The test program of the three queues of \<open>2_cpp_basics/3_lock_free/1_spsc_queue\<close>, which is the same in the three files: a producer enqueues
  0 to \<open>ITER\<close> - 1 and calls again as long as the queue refuses the value, and a consumer asserts that it receives the numbers in order.

  A queue is given by the first program counter of a call of \<open>enqueue\<close> and of \<open>deque\<close> and by the steps of the two calls, one access to shared memory each. A step
  goes on (\<open>Inl\<close>) or returns (\<open>Inr\<close>); it is \<open>None\<close> when its behaviour is undefined. \<open>e\<close> is what the environment supplies to a step: the address of a new node.
\<close>

type_synonym ('e, 'p, 's) enqueue_step = "'e \<Rightarrow> 'p \<Rightarrow> 's \<Rightarrow> (('p + bool) \<times> 's) option"
type_synonym ('c, 's) deque_step = "'c \<Rightarrow> 's \<Rightarrow> (('c + int option) \<times> 's) option"

record ('p, 'c, 's) spsc_main =
  producer_i :: nat
  producer_pc :: "'p option"
  consumer_counter :: nat
  consumer_pc :: "'c option"
  queue :: 's

definition producer_step :: "(int \<Rightarrow> 'p) \<Rightarrow> ('e, 'p, 's) enqueue_step \<Rightarrow> nat \<Rightarrow> 'e \<Rightarrow> ('p, 'c, 's) spsc_main \<Rightarrow> ('p, 'c, 's) spsc_main option" where
  "producer_step start enq ITER e m = (case producer_pc m of
       None \<Rightarrow> if producer_i m < ITER then Some (m\<lparr>producer_pc := Some (start (int (producer_i m)))\<rparr>) else Some m
     | Some p \<Rightarrow> do {
         (r, s) \<leftarrow> enq e p (queue m);
         Some (case r of
             Inl p' \<Rightarrow> m\<lparr>producer_pc := Some p', queue := s\<rparr>
           | Inr accepted \<Rightarrow> m\<lparr>producer_pc := None, producer_i := producer_i m + (if accepted then 1 else 0), queue := s\<rparr>) })"

text \<open>A failed assertion is \<open>None\<close>, too.\<close>

definition consumer_step :: "'c \<Rightarrow> ('c, 's) deque_step \<Rightarrow> nat \<Rightarrow> ('p, 'c, 's) spsc_main \<Rightarrow> ('p, 'c, 's) spsc_main option" where
  "consumer_step start deq ITER m = (case consumer_pc m of
       None \<Rightarrow> if consumer_counter m < ITER then Some (m\<lparr>consumer_pc := Some start\<rparr>) else Some m
     | Some c \<Rightarrow> do {
         (r, s) \<leftarrow> deq c (queue m);
         case r of
             Inl c' \<Rightarrow> Some (m\<lparr>consumer_pc := Some c', queue := s\<rparr>)
           | Inr None \<Rightarrow> Some (m\<lparr>consumer_pc := None, queue := s\<rparr>)
           | Inr (Some x) \<Rightarrow> if x = int (consumer_counter m)
               then Some (m\<lparr>consumer_pc := None, consumer_counter := consumer_counter m + 1, queue := s\<rparr>) else None })"

inductive spsc_main_step ::
  "(int \<Rightarrow> 'p) \<Rightarrow> ('e, 'p, 's) enqueue_step \<Rightarrow> 'c \<Rightarrow> ('c, 's) deque_step \<Rightarrow> ('e \<Rightarrow> 's \<Rightarrow> bool) \<Rightarrow> nat \<Rightarrow> ('p, 'c, 's) spsc_main \<Rightarrow> ('p, 'c, 's) spsc_main \<Rightarrow> bool"
  for enq0 enq deq0 deq fresh ITER where
  producer: "fresh e (queue m) \<Longrightarrow> producer_step enq0 enq ITER e m = Some m' \<Longrightarrow> spsc_main_step enq0 enq deq0 deq fresh ITER m m'"
| consumer: "consumer_step deq0 deq ITER m = Some m' \<Longrightarrow> spsc_main_step enq0 enq deq0 deq fresh ITER m m'"

definition spsc_main_init :: "'s \<Rightarrow> ('p, 'c, 's) spsc_main" where
  "spsc_main_init s = \<lparr>producer_i = 0, producer_pc = None, consumer_counter = 0, consumer_pc = None, queue = s\<rparr>"

text \<open>
  The contract of a queue for one producer and one consumer. \<open>rep p c s q\<close>: with the two threads at \<open>p\<close> and \<open>c\<close> the shared state \<open>s\<close> represents the queue \<open>q\<close>. No step is undefined; a call of
  \<open>enqueue\<close> that returns true has appended its value, one that returns false has met a full queue; a call of \<open>deque\<close> that returns a value has
  removed it from the front, and one that returns null has met an empty queue.
\<close>

locale spsc_contract =
  fixes rep :: "'p option \<Rightarrow> 'c option \<Rightarrow> 's \<Rightarrow> int list \<Rightarrow> bool" and fresh :: "'e \<Rightarrow> 's \<Rightarrow> bool" and val :: "'p \<Rightarrow> int"
    and full :: "int list \<Rightarrow> bool" and enq0 :: "int \<Rightarrow> 'p" and enq :: "('e, 'p, 's) enqueue_step" and deq0 :: 'c and deq :: "('c, 's) deque_step"
  assumes enq_start: "rep None co s q \<Longrightarrow> rep (Some (enq0 x)) co s q" "val (enq0 x) = x"
    and enq_step: "rep (Some p) co s q \<Longrightarrow> fresh e s \<Longrightarrow> \<exists>r s'. enq e p s = Some (r, s') \<and> (case r of
        Inl p' \<Rightarrow> rep (Some p') co s' q \<and> val p' = val p
      | Inr accepted \<Rightarrow> if accepted then rep None co s' (q @ [val p]) else rep None co s' q \<and> full q)"
    and deq_start: "rep po None s q \<Longrightarrow> rep po (Some deq0) s q"
    and deq_step: "rep po (Some c) s q \<Longrightarrow> \<exists>r s'. deq c s = Some (r, s') \<and> (case r of
        Inl c' \<Rightarrow> rep po (Some c') s' q
      | Inr None \<Rightarrow> rep po None s' q \<and> q = []
      | Inr (Some x) \<Rightarrow> \<exists>q'. q = x # q' \<and> rep po None s' q')"
begin

text \<open>The numbers in the queue are those between the two counters.\<close>

definition main_inv :: "nat \<Rightarrow> ('p, 'c, 's) spsc_main \<Rightarrow> bool" where
  "main_inv ITER m \<longleftrightarrow> (\<exists>q. rep (producer_pc m) (consumer_pc m) (queue m) q \<and> q = map int [consumer_counter m..<producer_i m]) \<and>
     consumer_counter m \<le> producer_i m \<and> producer_i m \<le> ITER \<and>
     (\<forall>p. producer_pc m = Some p \<longrightarrow> val p = int (producer_i m) \<and> producer_i m < ITER)"

lemma main_inv_producer:
  assumes "main_inv ITER m" "fresh e (queue m)"
  shows "\<exists>m'. producer_step enq0 enq ITER e m = Some m' \<and> main_inv ITER m'"
proof (cases "producer_pc m")
  case None
  then show ?thesis using assms(1) enq_start by (auto simp: producer_step_def main_inv_def)
next
  case (Some p)
  let ?q = "map int [consumer_counter m..<producer_i m]"
  have rep: "rep (Some p) (consumer_pc m) (queue m) ?q" and p: "val p = int (producer_i m)" "producer_i m < ITER"
    and le: "consumer_counter m \<le> producer_i m" using assms(1) Some by (auto simp: main_inv_def)
  obtain r s' where r: "enq e p (queue m) = Some (r, s')" "case r of
        Inl p' \<Rightarrow> rep (Some p') (consumer_pc m) s' ?q \<and> val p' = val p
      | Inr accepted \<Rightarrow> if accepted then rep None (consumer_pc m) s' (?q @ [val p]) else rep None (consumer_pc m) s' ?q \<and> full ?q"
    using enq_step [OF rep assms(2)] by blast
  then show ?thesis using Some p le
    by (auto simp: producer_step_def main_inv_def split: sum.splits if_splits)
qed

lemma main_inv_consumer:
  assumes "main_inv ITER m"
  shows "\<exists>m'. consumer_step deq0 deq ITER m = Some m' \<and> main_inv ITER m'"
proof (cases "consumer_pc m")
  case None
  then show ?thesis using assms deq_start by (auto simp: consumer_step_def main_inv_def)
next
  case (Some c)
  let ?q = "map int [consumer_counter m..<producer_i m]"
  have rep: "rep (producer_pc m) (Some c) (queue m) ?q" using assms Some by (auto simp: main_inv_def)
  obtain r s' where r: "deq c (queue m) = Some (r, s')" "case r of
        Inl c' \<Rightarrow> rep (producer_pc m) (Some c') s' ?q
      | Inr None \<Rightarrow> rep (producer_pc m) None s' ?q \<and> ?q = []
      | Inr (Some x) \<Rightarrow> \<exists>q'. ?q = x # q' \<and> rep (producer_pc m) None s' q'"
    using deq_step [OF rep] by blast
  show ?thesis
  proof (cases "\<exists>x. r = Inr (Some x)")
    case True
    then obtain x q' where x: "r = Inr (Some x)" "?q = x # q'" "rep (producer_pc m) None s' q'" using r(2) by auto
    then have "consumer_counter m < producer_i m" by (cases "consumer_counter m < producer_i m") auto
    then have "x = int (consumer_counter m)" "q' = map int [Suc (consumer_counter m)..<producer_i m]" using x(2) by (auto simp: upt_conv_Cons)
    then show ?thesis using r(1) x Some assms \<open>consumer_counter m < producer_i m\<close> by (auto simp: consumer_step_def main_inv_def)
  next
    case False
    then show ?thesis using r Some assms by (auto simp: consumer_step_def main_inv_def split: sum.splits option.splits)
  qed
qed

lemma main_safe:
  assumes "rep None None s0 []" "(spsc_main_step enq0 enq deq0 deq fresh ITER)\<^sup>*\<^sup>* (spsc_main_init s0) m"
  shows "main_inv ITER m"
  using assms(2)
proof induction
  case base
  then show ?case using assms(1) by (simp add: main_inv_def spsc_main_init_def)
next
  case (step m m')
  from step.hyps(2) show ?case
  proof cases
    case (producer e)
    then show ?thesis using main_inv_producer [OF step.IH] by force
  next
    case consumer
    then show ?thesis using main_inv_consumer [OF step.IH] by force
  qed
qed

text \<open>No assertion fails and no step is undefined; the consumer has received an initial part of what the producer has sent.\<close>

lemma main_never_fails:
  assumes "rep None None s0 []" "(spsc_main_step enq0 enq deq0 deq fresh ITER)\<^sup>*\<^sup>* (spsc_main_init s0) m"
  shows "(\<forall>e. fresh e (queue m) \<longrightarrow> producer_step enq0 enq ITER e m \<noteq> None) \<and> consumer_step deq0 deq ITER m \<noteq> None \<and>
    consumer_counter m \<le> producer_i m \<and> producer_i m \<le> ITER"
  using main_inv_producer [OF main_safe [OF assms]] main_inv_consumer [OF main_safe [OF assms]] main_safe [OF assms]
  by (fastforce simp: main_inv_def)

end

end
