(* ===== verification/Spsc_Variants.thy ===== *)
theory Spsc_Variants
  imports Spsc_Program
begin

text \<open>
  The three queues of \<open>2_cpp_basics/3_lock_free/1_spsc_queue\<close>: a \<open>std::queue\<close> behind a mutex (\<open>spsc_lock.cpp\<close>), a ring (\<open>spsc_ring.cpp\<close>) and a linked list
  (\<open>spsc_linked.cpp\<close>). Each meets the contract of \<open>Spsc_Program\<close>, so the assertions of its test program hold under every interleaving.
\<close>

section \<open>The queue behind a mutex\<close>

definition lock_enqueue :: "unit \<Rightarrow> int \<Rightarrow> int list \<Rightarrow> ((int + bool) \<times> int list) option" where
  "lock_enqueue e value q = Some (Inr True, q @ [value])"

definition lock_deque :: "unit \<Rightarrow> int list \<Rightarrow> ((unit + int option) \<times> int list) option" where
  "lock_deque c q = Some (case q of [] \<Rightarrow> (Inr None, q) | x # q' \<Rightarrow> (Inr (Some x), q'))"

interpretation lock: spsc_contract "\<lambda>p c s q. s = q" "\<lambda>e s. True" "\<lambda>x. x" "\<lambda>q. False" "\<lambda>x. x" lock_enqueue "()" lock_deque
  by unfold_locales (auto simp: lock_enqueue_def lock_deque_def split: list.splits)

section \<open>The ring\<close>

record spsc_ring =
  rdata :: "nat \<Rightarrow> int"
  rhead :: nat
  rtail :: nat

definition ring_new :: "(nat \<Rightarrow> int) \<Rightarrow> spsc_ring" where
  "ring_new junk = \<lparr>rdata = junk, rhead = 0, rtail = 0\<rparr>"

datatype ring_producer = P_tail int | P_head int nat | P_data int nat | P_publish int nat

definition ring_enqueue :: "nat \<Rightarrow> unit \<Rightarrow> ring_producer \<Rightarrow> spsc_ring \<Rightarrow> ((ring_producer + bool) \<times> spsc_ring) option" where
  "ring_enqueue S e p s = (case p of
       P_tail x \<Rightarrow> Some (Inl (P_head x (rtail s)), s)
     | P_head x t \<Rightarrow> if (t + 1) mod S = rhead s then Some (Inr False, s) else Some (Inl (P_data x t), s)
     | P_data x t \<Rightarrow> if t < S then Some (Inl (P_publish x t), s\<lparr>rdata := (rdata s)(t := x)\<rparr>) else None
     | P_publish x t \<Rightarrow> Some (Inr True, s\<lparr>rtail := (t + 1) mod S\<rparr>))"

datatype ring_consumer = C_head | C_tail nat | C_data nat | C_release nat int

definition ring_deque :: "nat \<Rightarrow> ring_consumer \<Rightarrow> spsc_ring \<Rightarrow> ((ring_consumer + int option) \<times> spsc_ring) option" where
  "ring_deque S c s = (case c of
       C_head \<Rightarrow> Some (Inl (C_tail (rhead s)), s)
     | C_tail h \<Rightarrow> if h = rtail s then Some (Inr None, s) else Some (Inl (C_data h), s)
     | C_data h \<Rightarrow> if h < S then Some (Inl (C_release h (rdata s h)), s) else None
     | C_release h v \<Rightarrow> Some (Inr (Some v), s\<lparr>rhead := (h + 1) mod S\<rparr>))"

fun ring_val :: "ring_producer \<Rightarrow> int" where
  "ring_val (P_tail x) = x" | "ring_val (P_head x t) = x" | "ring_val (P_data x t) = x" | "ring_val (P_publish x t) = x"

fun ring_producer_at :: "nat \<Rightarrow> ring_producer \<Rightarrow> spsc_ring \<Rightarrow> int list \<Rightarrow> bool" where
  "ring_producer_at S (P_tail x) s q = True"
| "ring_producer_at S (P_head x t) s q = (t = rtail s)"
| "ring_producer_at S (P_data x t) s q = (t = rtail s \<and> length q + 1 < S)"
| "ring_producer_at S (P_publish x t) s q = (t = rtail s \<and> length q + 1 < S \<and> rdata s t = x)"

fun ring_consumer_at :: "ring_consumer \<Rightarrow> spsc_ring \<Rightarrow> int list \<Rightarrow> bool" where
  "ring_consumer_at C_head s q = True"
| "ring_consumer_at (C_tail h) s q = (h = rhead s)"
| "ring_consumer_at (C_data h) s q = (h = rhead s \<and> q \<noteq> [])"
| "ring_consumer_at (C_release h v) s q = (h = rhead s \<and> q \<noteq> [] \<and> v = hd q)"

definition ring_holds :: "nat \<Rightarrow> spsc_ring \<Rightarrow> int list \<Rightarrow> bool" where
  "ring_holds S s q \<longleftrightarrow> rhead s < S \<and> length q < S \<and> rtail s = (rhead s + length q) mod S \<and>
     (\<forall>i<length q. rdata s ((rhead s + i) mod S) = q ! i)"

definition ring_rep :: "nat \<Rightarrow> ring_producer option \<Rightarrow> ring_consumer option \<Rightarrow> spsc_ring \<Rightarrow> int list \<Rightarrow> bool" where
  "ring_rep S p c s q \<longleftrightarrow> ring_holds S s q \<and> pred_option (\<lambda>p. ring_producer_at S p s q) p \<and> pred_option (\<lambda>c. ring_consumer_at c s q) c"

lemma mod_add_le:
  fixes h i j :: nat
  assumes "(h + i) mod S = (h + j) mod S" "i \<le> j" "j < S"
  shows "i = j"
proof -
  have "S dvd (h + j) - (h + i)" using mod_eq_dvd_iff_nat [of "h + i" "h + j" S] assms(1,2) by simp
  then show ?thesis using assms(2,3) by (auto dest: dvd_imp_le)
qed

lemma mod_add_inj:
  fixes h i j :: nat
  assumes "(h + i) mod S = (h + j) mod S" "i < S" "j < S"
  shows "i = j"
  using mod_add_le [of h i S j] mod_add_le [of h j S i] assms by (cases "i \<le> j") auto

lemma ring_full:
  assumes "ring_holds S s q"
  shows "(rtail s + 1) mod S = rhead s \<longleftrightarrow> length q + 1 = S"
proof -
  have h: "rhead s < S" "length q < S" "rtail s = (rhead s + length q) mod S" using assms by (auto simp: ring_holds_def)
  have *: "(rtail s + 1) mod S = (rhead s + (length q + 1)) mod S" by (simp add: h(3) mod_Suc_eq)
  show ?thesis
  proof
    assume "(rtail s + 1) mod S = rhead s"
    then have "(rhead s + (length q + 1)) mod S = (rhead s + 0) mod S" using * h(1) by simp
    then show "length q + 1 = S" using mod_add_inj [of "rhead s" "length q + 1" S 0] h(2) by (cases "length q + 1 < S") auto
  next
    assume "length q + 1 = S"
    then show "(rtail s + 1) mod S = rhead s" using * h(1) by simp
  qed
qed

lemma ring_empty:
  assumes "ring_holds S s q"
  shows "rhead s = rtail s \<longleftrightarrow> q = []"
proof -
  have h: "rhead s < S" "length q < S" "rtail s = (rhead s + length q) mod S" using assms by (auto simp: ring_holds_def)
  have "length q = 0" if eq: "rhead s = rtail s"
  proof -
    have "(rhead s + length q) mod S = rhead s" using h(3) eq by simp
    also have "\<dots> = (rhead s + 0) mod S" using h(1) by simp
    finally show ?thesis using mod_add_inj [of "rhead s" "length q" S 0] h(1,2) by simp
  qed
  then show ?thesis using h by auto
qed

lemma ring_write:
  assumes "ring_holds S s q" "length q + 1 < S"
  shows "ring_holds S (s\<lparr>rdata := (rdata s)(rtail s := x)\<rparr>) q" "rtail s < S"
proof -
  have h: "rhead s < S" "length q < S" "rtail s = (rhead s + length q) mod S" using assms by (auto simp: ring_holds_def)
  have "(rhead s + i) mod S \<noteq> rtail s" if "i < length q" for i
    using mod_add_inj [of "rhead s" i S "length q"] h that by auto
  then show "ring_holds S (s\<lparr>rdata := (rdata s)(rtail s := x)\<rparr>) q" using assms(1) by (simp add: ring_holds_def)
  show "rtail s < S" using h by simp
qed

lemma ring_put_publish:
  assumes "ring_holds S s q" "length q + 1 < S" "rdata s (rtail s) = x"
  shows "ring_holds S (s\<lparr>rtail := (rtail s + 1) mod S\<rparr>) (q @ [x])"
  using assms by (auto simp: ring_holds_def nth_append less_Suc_eq mod_Suc_eq)

lemma ring_get_release:
  assumes "ring_holds S s (x # q)"
  shows "ring_holds S (s\<lparr>rhead := (rhead s + 1) mod S\<rparr>) q"
proof -
  have h: "rhead s < S" "rtail s = (rhead s + Suc (length q)) mod S" "\<And>i. i < Suc (length q) \<Longrightarrow> rdata s ((rhead s + i) mod S) = (x # q) ! i" "Suc (length q) < S"
    using assms by (auto simp: ring_holds_def)
  have "((rhead s + 1) mod S + i) mod S = (rhead s + Suc i) mod S" for i by (metis add.assoc mod_add_left_eq plus_1_eq_Suc)
  then show ?thesis using h(1,2,4) h(3) [of "Suc _"] by (auto simp: ring_holds_def)
qed

lemma ring_first: "ring_holds S s q \<Longrightarrow> q \<noteq> [] \<Longrightarrow> rdata s (rhead s) = hd q"
  by (cases q) (auto simp: ring_holds_def)

interpretation ring: spsc_contract "ring_rep S" "\<lambda>e s. True" ring_val "\<lambda>q. length q + 1 = S" P_tail "ring_enqueue S" C_head "ring_deque S" for S
proof (unfold_locales, goal_cases)
  case (3 p c s q e)
  note R = 3(1) [unfolded ring_rep_def]
  show ?case
  proof (cases p)
    case (P_head x t)
    then show ?thesis using R ring_full [of S s q] by (auto simp: ring_enqueue_def ring_rep_def ring_holds_def)
  next
    case (P_data x t)
    then have "pred_option (\<lambda>c. ring_consumer_at c (s\<lparr>rdata := (rdata s)(t := x)\<rparr>) q) c"
      using R by (cases c) (auto elim: ring_consumer_at.elims)
    then show ?thesis using R P_data ring_write [of S s q] by (auto simp: ring_enqueue_def ring_rep_def)
  next
    case (P_publish x t)
    then have "pred_option (\<lambda>c. ring_consumer_at c (s\<lparr>rtail := (t + 1) mod S\<rparr>) (q @ [x])) c"
      using R by (cases c) (auto elim: ring_consumer_at.elims)
    then show ?thesis using R P_publish ring_put_publish [of S s q x] by (auto simp: ring_enqueue_def ring_rep_def)
  qed (use R in \<open>auto simp: ring_enqueue_def ring_rep_def\<close>)
next
  case (5 p c s q)
  note R = 5 [unfolded ring_rep_def]
  show ?case
  proof (cases c)
    case (C_tail h)
    then show ?thesis using R ring_empty [of S s q] by (auto simp: ring_deque_def ring_rep_def)
  next
    case (C_data h)
    then show ?thesis using R ring_first [of S s q] by (auto simp: ring_deque_def ring_rep_def ring_holds_def)
  next
    case (C_release h v)
    then obtain q' where q: "q = v # q'" using R by (cases q) auto
    have "pred_option (\<lambda>p. ring_producer_at S p (s\<lparr>rhead := (h + 1) mod S\<rparr>) q') p"
      using R q by (cases p) (auto elim!: ring_producer_at.elims)
    then show ?thesis using R C_release q ring_get_release [of S s v q'] by (auto simp: ring_deque_def ring_rep_def)
  qed (use R in \<open>auto simp: ring_deque_def ring_rep_def\<close>)
qed (auto simp: ring_rep_def)

lemma ring_new_rep: "0 < S \<Longrightarrow> ring_rep S None None (ring_new junk) []"
  by (simp add: ring_rep_def ring_holds_def ring_new_def)

section \<open>The test programs\<close>

text \<open>
  The test program of the queue behind a mutex never fails an assertion.
\<close>

theorem spsc_lock_safe:
  assumes "(spsc_main_step (\<lambda>x. x) lock_enqueue () lock_deque (\<lambda>e s. True) ITER)\<^sup>*\<^sup>* (spsc_main_init []) m"
  shows "consumer_step () lock_deque ITER m \<noteq> None \<and> queue m = map int [consumer_counter m..<producer_i m]"
  using lock.main_never_fails [OF refl assms] lock.main_safe [OF refl assms] by (simp add: lock.main_inv_def)

theorem spsc_lock_safe_witness:
  "consumer_step () lock_deque 1000 (spsc_main_init [] :: (int, unit, int list) spsc_main) \<noteq> None"
  using spsc_lock_safe [of 1000 "spsc_main_init []"] by simp

text \<open>
  C17: The test program of the ring, under every interleaving of its two threads: all accesses are inside the array, no assertion of the consumer fails, the two threads
  are never about to access the same cell, and what the consumer has received is an initial part of what the producer has sent.
\<close>

theorem spsc_ring_safe:
  assumes "(spsc_main_step P_tail (ring_enqueue S) C_head (ring_deque S) (\<lambda>e s. True) ITER)\<^sup>*\<^sup>* (spsc_main_init (ring_new junk)) m" "0 < S"
  shows "producer_step P_tail (ring_enqueue S) ITER () m \<noteq> None \<and> consumer_step C_head (ring_deque S) ITER m \<noteq> None \<and>
    \<not> (\<exists>x t. producer_pc m = Some (P_data x t) \<and> consumer_pc m = Some (C_data t)) \<and>
    consumer_counter m \<le> producer_i m \<and> producer_i m - consumer_counter m < S"
proof -
  note reach = ring_new_rep [OF assms(2)] assms(1)
  have inv: "ring.main_inv S ITER m" by (rule ring.main_safe [OF reach])
  then obtain q where q: "ring_rep S (producer_pc m) (consumer_pc m) (queue m) q" "length q = producer_i m - consumer_counter m"
    by (auto simp: ring.main_inv_def)
  then have "length q < S" by (simp add: ring_rep_def ring_holds_def)
  moreover have False if "producer_pc m = Some (P_data x t)" "consumer_pc m = Some (C_data t)" for x t
    using q(1) that ring_empty [of S "queue m" q] by (simp add: ring_rep_def)
  ultimately show ?thesis using ring.main_never_fails [OF reach] q(2) by auto
qed

theorem spsc_ring_safe_witness:
  "producer_step P_tail (ring_enqueue 1000) 1000 () (spsc_main_init (ring_new (\<lambda>_. 0)) :: (ring_producer, ring_consumer, spsc_ring) spsc_main) \<noteq> None"
  using spsc_ring_safe [of 1000 1000 "\<lambda>_. 0" "spsc_main_init (ring_new (\<lambda>_. 0))"] by simp

end
