(* ===== verification/Spsc_Linked.thy ===== *)
theory Spsc_Linked
  imports Spsc_Program
begin

text \<open>
  The linked queue of \<open>2_cpp_basics/3_lock_free/1_spsc_queue/spsc_linked.cpp\<close> over an explicit heap of nodes. An access to a node that is not allocated is undefined. The address that
  \<open>new\<close> returns is a parameter: any address that is not null and not in use.
\<close>

record lnode =
  ldata :: "int option"
  lnext :: nat

record spsc_linked =
  lheap :: "nat \<rightharpoonup> lnode"
  lhead :: nat
  ltail :: nat

abbreviation node_new :: lnode where "node_new \<equiv> \<lparr>ldata = None, lnext = 0\<rparr>"

definition linked_new :: "nat \<Rightarrow> spsc_linked" where
  "linked_new a = \<lparr>lheap = [a \<mapsto> node_new], lhead = a, ltail = a\<rparr>"

definition linked_fresh :: "nat \<Rightarrow> spsc_linked \<Rightarrow> bool" where
  "linked_fresh e s \<longleftrightarrow> e \<noteq> 0 \<and> lheap s e = None"

definition set_node :: "nat \<Rightarrow> (lnode \<Rightarrow> lnode) \<Rightarrow> spsc_linked \<Rightarrow> spsc_linked option" where
  "set_node a f s = do { n \<leftarrow> lheap s a; Some (s\<lparr>lheap := (lheap s)(a \<mapsto> f n)\<rparr>) }"

datatype linked_producer = L_start int | L_tail int nat | L_data int nat nat | L_next int nat nat | L_publish int nat nat

definition linked_enqueue :: "nat \<Rightarrow> linked_producer \<Rightarrow> spsc_linked \<Rightarrow> ((linked_producer + bool) \<times> spsc_linked) option" where
  "linked_enqueue e p s = (case p of
       L_start x \<Rightarrow> Some (Inl (L_tail x (ltail s)), s)
     | L_tail x t \<Rightarrow> Some (Inl (L_data x t e), s\<lparr>lheap := (lheap s)(e \<mapsto> node_new)\<rparr>)
     | L_data x t n \<Rightarrow> do { s \<leftarrow> set_node t (ldata_update (\<lambda>_. Some x)) s; Some (Inl (L_next x t n), s) }
     | L_next x t n \<Rightarrow> do { s \<leftarrow> set_node t (lnext_update (\<lambda>_. n)) s; Some (Inl (L_publish x t n), s) }
     | L_publish x t n \<Rightarrow> Some (Inr True, s\<lparr>ltail := n\<rparr>))"

datatype linked_consumer = K_head | K_tail nat | K_move nat | K_next nat "int option" | K_null nat nat "int option"
  | K_store nat nat "int option" | K_delete nat "int option"

definition linked_deque :: "linked_consumer \<Rightarrow> spsc_linked \<Rightarrow> ((linked_consumer + int option) \<times> spsc_linked) option" where
  "linked_deque c s = (case c of
       K_head \<Rightarrow> Some (Inl (K_tail (lhead s)), s)
     | K_tail h \<Rightarrow> if h = ltail s then Some (Inr None, s) else Some (Inl (K_move h), s)
     | K_move h \<Rightarrow> do { n \<leftarrow> lheap s h; s \<leftarrow> set_node h (ldata_update (\<lambda>_. None)) s; Some (Inl (K_next h (ldata n)), s) }
     | K_next h r \<Rightarrow> do { n \<leftarrow> lheap s h; Some (Inl (K_null h (lnext n) r), s) }
     | K_null h n r \<Rightarrow> do { s \<leftarrow> set_node h (lnext_update (\<lambda>_. 0)) s; Some (Inl (K_store h n r), s) }
     | K_store h n r \<Rightarrow> Some (Inl (K_delete h r), s\<lparr>lhead := n\<rparr>)
     | K_delete h r \<Rightarrow> do { _ \<leftarrow> lheap s h; Some (Inr r, s\<lparr>lheap := (lheap s)(h := None)\<rparr>) })"

text \<open>The destructor. It follows the list from the head and frees each node; a node that is not allocated is undefined.\<close>

partial_function (option) linked_destroy :: "spsc_linked \<Rightarrow> spsc_linked option" where
  "linked_destroy s =
     (if lhead s = 0 then Some s
      else Option.bind (lheap s (lhead s)) (\<lambda>n. linked_destroy (s\<lparr>lhead := lnext n, lheap := (lheap s)(lhead s := None)\<rparr>)))"

section \<open>The list\<close>

fun chain :: "(nat \<rightharpoonup> lnode) \<Rightarrow> nat list \<Rightarrow> int list \<Rightarrow> bool" where
  "chain H [t] [] = True"
| "chain H (n # m # ns) (x # q) = (H n = Some \<lparr>ldata = Some x, lnext = m\<rparr> \<and> chain H (m # ns) q)"
| "chain H _ _ = False"

lemma chain_cong:
  "chain H ns q \<Longrightarrow> \<forall>n\<in>set (butlast ns). H' n = H n \<Longrightarrow> chain H' ns q"
  by (induction H ns q rule: chain.induct) auto

lemma chain_snoc:
  "chain H ns q \<Longrightarrow> H (last ns) = Some \<lparr>ldata = Some x, lnext = n\<rparr> \<Longrightarrow> chain H (ns @ [n]) (q @ [x])"
  by (induction H ns q rule: chain.induct) auto

lemma chain_length: "chain H ns q \<Longrightarrow> length ns = Suc (length q)"
  by (induction H ns q rule: chain.induct) auto

lemma chain_Cons: "chain H ns (x # q) \<Longrightarrow> \<exists>n m ns'. ns = n # m # ns' \<and> H n = Some \<lparr>ldata = Some x, lnext = m\<rparr> \<and> chain H (m # ns') q"
  by (cases ns rule: remdups_adj.cases) auto

text \<open>Where the consumer is: the first node is taken apart from \<open>K_next\<close> on.\<close>

definition taken :: "spsc_linked \<Rightarrow> nat list \<Rightarrow> int list \<Rightarrow> nat \<Rightarrow> nat \<Rightarrow> int option \<Rightarrow> nat \<Rightarrow> bool" where
  "taken s ns q h m r nx \<longleftrightarrow> (\<exists>ns' x q'. ns = h # m # ns' \<and> q = x # q' \<and> r = Some x \<and> lheap s h = Some \<lparr>ldata = None, lnext = nx\<rparr> \<and> chain (lheap s) (m # ns') q')"

fun consumer_at :: "linked_consumer option \<Rightarrow> spsc_linked \<Rightarrow> nat list \<Rightarrow> int list \<Rightarrow> bool" where
  "consumer_at None s ns q = (chain (lheap s) ns q \<and> lhead s = hd ns)"
| "consumer_at (Some K_head) s ns q = (chain (lheap s) ns q \<and> lhead s = hd ns)"
| "consumer_at (Some (K_tail h)) s ns q = (chain (lheap s) ns q \<and> lhead s = hd ns \<and> h = hd ns)"
| "consumer_at (Some (K_move h)) s ns q = (chain (lheap s) ns q \<and> lhead s = hd ns \<and> h = hd ns \<and> q \<noteq> [])"
| "consumer_at (Some (K_next h r)) s ns q = (\<exists>m. taken s ns q h m r m \<and> lhead s = h)"
| "consumer_at (Some (K_null h n r)) s ns q = (taken s ns q h n r n \<and> lhead s = h)"
| "consumer_at (Some (K_store h n r)) s ns q = (taken s ns q h n r 0 \<and> lhead s = h)"
| "consumer_at (Some (K_delete h r)) s ns q = (taken s ns q h (lhead s) r 0)"

fun producer_at :: "linked_producer option \<Rightarrow> spsc_linked \<Rightarrow> nat \<Rightarrow> nat set \<Rightarrow> bool" where
  "producer_at None s t N = (lheap s t = Some node_new \<and> N = {})"
| "producer_at (Some (L_start x)) s t N = (lheap s t = Some node_new \<and> N = {})"
| "producer_at (Some (L_tail x t')) s t N = (lheap s t = Some node_new \<and> N = {} \<and> t' = t)"
| "producer_at (Some (L_data x t' n)) s t N = (lheap s t = Some node_new \<and> lheap s n = Some node_new \<and> N = {n} \<and> t' = t)"
| "producer_at (Some (L_next x t' n)) s t N = (lheap s t = Some \<lparr>ldata = Some x, lnext = 0\<rparr> \<and> lheap s n = Some node_new \<and> N = {n} \<and> t' = t)"
| "producer_at (Some (L_publish x t' n)) s t N = (lheap s t = Some \<lparr>ldata = Some x, lnext = n\<rparr> \<and> lheap s n = Some node_new \<and> N = {n} \<and> t' = t)"

definition linked_holds :: "linked_producer option \<Rightarrow> linked_consumer option \<Rightarrow> spsc_linked \<Rightarrow> nat list \<Rightarrow> nat set \<Rightarrow> int list \<Rightarrow> bool" where
  "linked_holds p c s ns N q \<longleftrightarrow> distinct ns \<and> 0 \<notin> set ns \<union> N \<and> ns \<noteq> [] \<and> last ns = ltail s \<and> dom (lheap s) = set ns \<union> N \<and> set ns \<inter> N = {} \<and>
     producer_at p s (last ns) N \<and> consumer_at c s ns q"

definition linked_rep :: "linked_producer option \<Rightarrow> linked_consumer option \<Rightarrow> spsc_linked \<Rightarrow> int list \<Rightarrow> bool" where
  "linked_rep p c s q \<longleftrightarrow> (\<exists>ns N. linked_holds p c s ns N q)"

lemma taken_cong:
  assumes "taken s ns q h m r nx" "\<forall>n\<in>set (butlast ns). lheap s' n = lheap s n"
  shows "taken s' ns q h m r nx"
  using assms chain_cong [of "lheap s" _ _ "lheap s'"] by (fastforce simp: taken_def)

lemma consumer_at_cong:
  assumes "consumer_at c s ns q" "\<forall>n\<in>set (butlast ns). lheap s' n = lheap s n" "lhead s' = lhead s"
  shows "consumer_at c s' ns q"
  using assms chain_cong [OF _ assms(2)] taken_cong [OF _ assms(2)] by (cases "(c, s, ns, q)" rule: consumer_at.cases) (auto; blast)+

lemma taken_snoc:
  assumes "taken s ns q h m r nx" "lheap s (last ns) = Some \<lparr>ldata = Some x, lnext = n\<rparr>" "lheap s' = lheap s"
  shows "taken s' (ns @ [n]) (q @ [x]) h m r nx"
  using assms chain_snoc [of "lheap s" "m # _" _ x n] by (fastforce simp: taken_def)

lemma consumer_at_snoc:
  assumes "consumer_at c s ns q" "ns \<noteq> []" "lheap s (last ns) = Some \<lparr>ldata = Some x, lnext = n\<rparr>" "lheap s' = lheap s" "lhead s' = lhead s"
  shows "consumer_at c s' (ns @ [n]) (q @ [x])"
  using assms chain_snoc [of "lheap s" ns q x n] taken_snoc [OF _ assms(3,4)] by (cases "(c, s, ns, q)" rule: consumer_at.cases) (auto; blast)+

fun linked_val :: "linked_producer \<Rightarrow> int" where
  "linked_val (L_start x) = x" | "linked_val (L_tail x t) = x" | "linked_val (L_data x t n) = x"
| "linked_val (L_next x t n) = x" | "linked_val (L_publish x t n) = x"

lemma first_not_last:
  assumes "distinct (h # m # ns)"
  shows "last (h # m # ns) \<noteq> h"
proof -
  have "last (m # ns) \<in> set (m # ns)" by (rule last_in_set) simp
  then show ?thesis using assms by auto
qed

lemma producer_at_cong:
  assumes "producer_at p s t N" "\<forall>n\<in>insert t N. lheap s' n = lheap s n"
  shows "producer_at p s' t N"
  using assms by (cases "(p, s, t, N)" rule: producer_at.cases) auto

lemma last_not_in_butlast: "distinct ns \<Longrightarrow> ns \<noteq> [] \<Longrightarrow> last ns \<notin> set (butlast ns)"
  by (induction ns) auto

text \<open>Steps of the producer: only the last node and the new node change.\<close>

lemma linked_write_last:
  assumes H: "linked_holds (Some p) c s ns N q" and n: "lheap s (last ns) = Some n"
    and at: "producer_at (Some p') (s\<lparr>lheap := (lheap s)(last ns \<mapsto> n')\<rparr>) (last ns) N"
  shows "linked_holds (Some p') c (s\<lparr>lheap := (lheap s)(last ns \<mapsto> n')\<rparr>) ns N q"
proof -
  note h = H [unfolded linked_holds_def]
  have "consumer_at c (s\<lparr>lheap := (lheap s)(last ns \<mapsto> n')\<rparr>) ns q"
    by (rule consumer_at_cong [of c s]) (use h last_not_in_butlast [of ns] in auto)
  then show ?thesis using h at n by (auto simp: linked_holds_def)
qed

lemma linked_enqueue_rep:
  assumes R: "linked_rep (Some p) c s q" and e: "linked_fresh e s"
  shows "\<exists>r s'. linked_enqueue e p s = Some (r, s') \<and> (case r of
      Inl p' \<Rightarrow> linked_rep (Some p') c s' q \<and> linked_val p' = linked_val p
    | Inr accepted \<Rightarrow> if accepted then linked_rep None c s' (q @ [linked_val p]) else linked_rep None c s' q \<and> False)"
proof -
  obtain ns N where H: "linked_holds (Some p) c s ns N q" using R by (auto simp: linked_rep_def)
  note h = H [unfolded linked_holds_def]
  show ?thesis
  proof (cases p)
    case (L_start x)
    then have "linked_holds (Some (L_tail x (ltail s))) c s ns N q" using h by (auto simp: linked_holds_def)
    then show ?thesis using L_start by (auto simp: linked_enqueue_def linked_rep_def)
  next
    case (L_tail x t)
    let ?s = "s\<lparr>lheap := (lheap s)(e \<mapsto> node_new)\<rparr>"
    have "e \<notin> dom (lheap s)" using e by (simp add: linked_fresh_def domIff)
    then have new: "e \<notin> set ns" "e \<noteq> 0" using e h by (auto simp: linked_fresh_def)
    have "consumer_at c ?s ns q" by (rule consumer_at_cong [of c s]) (use h new in \<open>auto dest: in_set_butlastD\<close>)
    moreover have "e \<noteq> last ns" using new h last_in_set [of ns] by auto
    ultimately have "linked_holds (Some (L_data x t e)) c ?s ns {e} q" using h L_tail new by (auto simp: linked_holds_def)
    then show ?thesis using L_tail by (auto simp: linked_enqueue_def linked_rep_def)
  next
    case (L_data x t n)
    let ?s = "s\<lparr>lheap := (lheap s)(last ns \<mapsto> \<lparr>ldata = Some x, lnext = 0\<rparr>)\<rparr>"
    have at: "lheap s (last ns) = Some node_new" "t = last ns" "n \<noteq> last ns" using h L_data last_in_set [of ns] by auto
    have "linked_holds (Some (L_next x t n)) c ?s ns N q"
      by (rule linked_write_last [OF H at(1)]) (use h L_data at in auto)
    then show ?thesis using L_data at by (auto simp: linked_enqueue_def linked_rep_def set_node_def)
  next
    case (L_next x t n)
    let ?s = "s\<lparr>lheap := (lheap s)(last ns \<mapsto> \<lparr>ldata = Some x, lnext = n\<rparr>)\<rparr>"
    have at: "lheap s (last ns) = Some \<lparr>ldata = Some x, lnext = 0\<rparr>" "t = last ns" "n \<noteq> last ns" using h L_next last_in_set [of ns] by auto
    have "linked_holds (Some (L_publish x t n)) c ?s ns N q"
      by (rule linked_write_last [OF H at(1)]) (use h L_next at in auto)
    then show ?thesis using L_next at by (auto simp: linked_enqueue_def linked_rep_def set_node_def)
  next
    case (L_publish x t n)
    let ?s = "s\<lparr>ltail := n\<rparr>"
    have at: "lheap s (last ns) = Some \<lparr>ldata = Some x, lnext = n\<rparr>" using h L_publish by auto
    have "consumer_at c ?s (ns @ [n]) (q @ [x])" by (rule consumer_at_snoc [OF _ _ at]) (use h in auto)
    then have "linked_holds None c ?s (ns @ [n]) {} (q @ [x])" using h L_publish by (auto simp: linked_holds_def)
    then show ?thesis using L_publish by (auto simp: linked_enqueue_def linked_rep_def)
  qed
qed

text \<open>Steps of the consumer: only the first node changes, and there is a second one.\<close>

lemma linked_write_first:
  assumes H: "linked_holds p c s ns N q" and ns: "ns = h # m # ns'" and n: "lheap s h = Some n"
    and at: "consumer_at c' (s\<lparr>lheap := (lheap s)(h \<mapsto> n')\<rparr>) ns q"
  shows "linked_holds p c' (s\<lparr>lheap := (lheap s)(h \<mapsto> n')\<rparr>) ns N q"
proof -
  note h = H [unfolded linked_holds_def]
  have "producer_at p (s\<lparr>lheap := (lheap s)(h \<mapsto> n')\<rparr>) (last ns) N"
    by (rule producer_at_cong [of p s]) (use h ns first_not_last [of h m ns'] in auto)
  then show ?thesis using h at n by (auto simp: linked_holds_def)
qed

lemma linked_empty:
  assumes "linked_holds p c s ns N q" "chain (lheap s) ns q"
  shows "hd ns = ltail s \<longleftrightarrow> q = []"
proof -
  note h = assms(1) [unfolded linked_holds_def] and len = chain_length [OF assms(2)]
  show ?thesis
  proof (cases ns)
    case (Cons a ns')
    then show ?thesis using h len first_not_last [of a] by (cases ns') auto
  qed (use len in simp)
qed

lemma linked_deque_rep:
  assumes R: "linked_rep p (Some c) s q"
  shows "\<exists>r s'. linked_deque c s = Some (r, s') \<and> (case r of
      Inl c' \<Rightarrow> linked_rep p (Some c') s' q
    | Inr None \<Rightarrow> linked_rep p None s' q \<and> q = []
    | Inr (Some x) \<Rightarrow> \<exists>q'. q = x # q' \<and> linked_rep p None s' q')"
proof -
  obtain ns N where H: "linked_holds p (Some c) s ns N q" using R by (auto simp: linked_rep_def)
  note h = H [unfolded linked_holds_def]
  have move: "linked_holds p c' s ns N q" if "consumer_at c' s ns q" for c' using h that by (auto simp: linked_holds_def)
  show ?thesis
  proof (cases c)
    case K_head
    then show ?thesis using move [of "Some (K_tail (lhead s))"] h by (auto simp: linked_deque_def linked_rep_def)
  next
    case (K_tail a)
    then have "chain (lheap s) ns q" using h by simp
    then show ?thesis using K_tail linked_empty [OF H] h move [of None] move [of "Some (K_move a)"]
      by (auto simp: linked_deque_def linked_rep_def)
  next
    case (K_move a)
    then obtain x q' where q: "q = x # q'" using h by (cases q) auto
    then obtain m ns' where ns: "ns = a # m # ns'" "lheap s a = Some \<lparr>ldata = Some x, lnext = m\<rparr>" "chain (lheap s) (m # ns') q'"
      using chain_Cons [of "lheap s" ns x q'] h K_move by auto
    let ?s = "s\<lparr>lheap := (lheap s)(a \<mapsto> \<lparr>ldata = None, lnext = m\<rparr>)\<rparr>"
    have "chain (lheap ?s) (m # ns') q'"
      by (rule chain_cong [OF ns(3)]) (use h ns(1) in \<open>auto dest: in_set_butlastD\<close>)
    then have "linked_holds p (Some (K_next a (Some x))) ?s ns N q"
      using h K_move ns q by (intro linked_write_first [OF H ns(1,2)]) (auto simp: taken_def)
    then show ?thesis using K_move ns(2) by (auto simp: linked_deque_def linked_rep_def set_node_def)
  next
    case (K_next a r)
    then obtain m where m: "taken s ns q a m r m" "lhead s = a" using h by auto
    then have "linked_holds p (Some (K_null a m r)) s ns N q" "lheap s a = Some \<lparr>ldata = None, lnext = m\<rparr>"
      using move [of "Some (K_null a m r)"] by (auto simp: taken_def)
    then show ?thesis using K_next by (auto simp: linked_deque_def linked_rep_def)
  next
    case (K_null a m r)
    then have tk: "taken s ns q a m r m" "lhead s = a" using h by auto
    then obtain ns' x q' where ns: "ns = a # m # ns'" "q = x # q'" "r = Some x" "lheap s a = Some \<lparr>ldata = None, lnext = m\<rparr>" "chain (lheap s) (m # ns') q'"
      by (auto simp: taken_def)
    let ?s = "s\<lparr>lheap := (lheap s)(a \<mapsto> node_new)\<rparr>"
    have "chain (lheap ?s) (m # ns') q'"
      by (rule chain_cong [OF ns(5)]) (use h ns(1) in \<open>auto dest: in_set_butlastD\<close>)
    then have "linked_holds p (Some (K_store a m r)) ?s ns N q"
      using tk ns by (intro linked_write_first [OF H ns(1,4)]) (auto simp: taken_def)
    then show ?thesis using K_null ns(4) by (auto simp: linked_deque_def linked_rep_def set_node_def)
  next
    case (K_store a m r)
    let ?s = "s\<lparr>lhead := m\<rparr>"
    have "producer_at p ?s (last ns) N" by (rule producer_at_cong [of p s]) (use h in auto)
    then have "linked_holds p (Some (K_delete a r)) ?s ns N q" using h K_store by (auto simp: linked_holds_def taken_def)
    then show ?thesis using K_store by (auto simp: linked_deque_def linked_rep_def)
  next
    case (K_delete a r)
    then obtain ns' x q' where ns: "ns = a # lhead s # ns'" "q = x # q'" "r = Some x" "lheap s a = Some node_new" "chain (lheap s) (lhead s # ns') q'"
      using h by (auto simp: taken_def)
    let ?s = "s\<lparr>lheap := (lheap s)(a := None)\<rparr>" and ?ns = "lhead s # ns'"
    have "chain (lheap ?s) ?ns q'"
      by (rule chain_cong [OF ns(5)]) (use h ns(1) in \<open>auto dest: in_set_butlastD\<close>)
    moreover have "producer_at p ?s (last ?ns) N"
      by (rule producer_at_cong [of p s]) (use h ns(1) first_not_last [of a "lhead s" ns'] in auto)
    ultimately have "linked_holds p None ?s ?ns N q'" using h ns(1) by (auto simp: linked_holds_def)
    then show ?thesis using K_delete ns by (auto simp: linked_deque_def linked_rep_def)
  qed
qed

interpretation linked: spsc_contract linked_rep linked_fresh linked_val "\<lambda>q. False" L_start linked_enqueue K_head linked_deque
proof (unfold_locales, goal_cases)
  case (3 p c s q e)
  then show ?case by (rule linked_enqueue_rep)
next
  case (5 p c s q)
  then show ?case by (rule linked_deque_rep)
qed (auto simp: linked_rep_def linked_holds_def)

section \<open>The destructor\<close>

lemma linked_destroy_chain:
  assumes "chain (lheap s) ns q" "distinct ns" "0 \<notin> set ns" "lhead s = hd ns" "lheap s (last ns) = Some node_new" "dom (lheap s) = set ns"
  shows "\<exists>s'. linked_destroy s = Some s' \<and> lheap s' = Map.empty"
  using assms
proof (induction ns arbitrary: s q)
  case Nil
  then show ?case by simp
next
  case (Cons n ns)
  show ?case
  proof (cases ns)
    case Nil
    let ?s = "s\<lparr>lhead := 0, lheap := (lheap s)(n := None)\<rparr>"
    have "linked_destroy s = linked_destroy ?s" by (subst linked_destroy.simps) (use Cons.prems Nil in auto)
    moreover have "linked_destroy ?s = Some ?s" by (subst linked_destroy.simps) simp
    moreover have "(lheap s)(n := None) = Map.empty" using Cons.prems(6) Nil by (auto simp: fun_eq_iff domIff)
    ultimately show ?thesis by simp
  next
    case (Cons m ns')
    then obtain x q' where q: "q = x # q'" using Cons.prems(1) by (cases q) auto
    let ?s = "s\<lparr>lhead := m, lheap := (lheap s)(n := None)\<rparr>"
    have n: "lheap s n = Some \<lparr>ldata = Some x, lnext = m\<rparr>" "chain (lheap s) ns q'" using Cons.prems(1) Cons q by auto
    have "linked_destroy s = linked_destroy ?s" by (subst linked_destroy.simps) (use Cons.prems n in auto)
    moreover have "\<exists>s'. linked_destroy ?s = Some s' \<and> lheap s' = Map.empty"
    proof (rule Cons.IH)
      show "chain (lheap ?s) ns q'" by (rule chain_cong [OF n(2)]) (use Cons.prems(2) in \<open>auto dest: in_set_butlastD\<close>)
      show "lheap ?s (last ns) = Some node_new" using Cons.prems(2,5) Cons first_not_last [of n m ns'] by auto
      have "dom ((lheap s)(n := None)) = dom (lheap s) - {n}" by simp
      then show "dom (lheap ?s) = set ns" using Cons.prems(2,6) by auto
    qed (use Cons.prems Cons in auto)
    ultimately show ?thesis by simp
  qed
qed

lemma linked_destroy_rep:
  assumes "linked_rep None None s q"
  shows "\<exists>s'. linked_destroy s = Some s' \<and> lheap s' = Map.empty"
proof -
  obtain ns N where h: "linked_holds None None s ns N q" using assms by (auto simp: linked_rep_def)
  show ?thesis by (rule linked_destroy_chain [of s ns q]) (use h in \<open>auto simp: linked_holds_def\<close>)
qed

lemma linked_new_rep: "a \<noteq> 0 \<Longrightarrow> linked_rep None None (linked_new a) []"
  unfolding linked_rep_def by (intro exI [of _ "[a]"] exI [of _ "{}"]) (simp add: linked_holds_def linked_new_def)

text \<open>
  C16: The test program of the linked queue, under every interleaving of its two threads: no node is used after it has been freed, no assertion of the consumer fails, and when
  neither thread is inside a call, the destructor returns and has freed every node.
\<close>

theorem spsc_linked_safe:
  assumes "(spsc_main_step L_start linked_enqueue K_head linked_deque linked_fresh ITER)\<^sup>*\<^sup>* (spsc_main_init (linked_new a)) m" "a \<noteq> 0"
  shows "(\<forall>e. linked_fresh e (queue m) \<longrightarrow> producer_step L_start linked_enqueue ITER e m \<noteq> None) \<and>
    consumer_step K_head linked_deque ITER m \<noteq> None \<and>
    (producer_pc m = None \<and> consumer_pc m = None \<longrightarrow> (\<exists>s. linked_destroy (queue m) = Some s \<and> lheap s = Map.empty))"
proof -
  note reach = linked_new_rep [OF assms(2)] assms(1)
  have "linked.main_inv ITER m" by (rule linked.main_safe [OF reach])
  then have "producer_pc m = None \<and> consumer_pc m = None \<longrightarrow> (\<exists>s. linked_destroy (queue m) = Some s \<and> lheap s = Map.empty)"
    using linked_destroy_rep by (auto simp: linked.main_inv_def)
  then show ?thesis using linked.main_never_fails [OF reach] by blast
qed

theorem spsc_linked_safe_witness:
  "consumer_step K_head linked_deque 1000 (spsc_main_init (linked_new 8) :: (linked_producer, linked_consumer, spsc_linked) spsc_main) \<noteq> None \<and>
   (\<exists>s. linked_destroy (linked_new 8) = Some s \<and> lheap s = Map.empty)"
  using spsc_linked_safe [of 1000 8 "spsc_main_init (linked_new 8)"] by (simp add: spsc_main_init_def)

end
