(* ===== verification/Lock_Free_Stack.thy ===== *)
theory Lock_Free_Stack
  imports Prelude
begin

text \<open>
  The stack of \<open>2_cpp_basics/3_lock_free/0_lock_free_stack/lock_free-ish_stack.cpp\<close>, for any number of threads that push and pop.

  A step of a thread is one access to \<open>head\<close> or to a node. \<open>compare_exchange_weak\<close> may fail without a reason (\<open>weak\<close>). Nodes are kept by \<open>shared_ptr\<close>: a node that a thread can still reach
  is not freed, so its address is not used again; in the model no address is used twice. \<open>history\<close> records the successful exchanges.
\<close>

datatype lf_pc = F_idle | F_push int | F_push_cas nat | F_pop | F_pop_test "nat option" | F_pop_cas nat "nat option" | F_pop_data "nat option"

datatype lf_event = Pushed int | Popped nat int

record lf_stack =
  nodes :: "nat \<rightharpoonup> int \<times> nat option"
  head :: "nat option"
  pcs :: "nat \<Rightarrow> lf_pc"
  history :: "lf_event list"

definition lf_stack_new :: lf_stack where
  "lf_stack_new = \<lparr>nodes = Map.empty, head = None, pcs = (\<lambda>_. F_idle), history = []\<rparr>"

definition at_pc :: "nat \<Rightarrow> lf_pc \<Rightarrow> lf_stack \<Rightarrow> lf_stack" where
  "at_pc t p s = s\<lparr>pcs := (pcs s)(t := p)\<rparr>"

text \<open>\<open>push\<close> at the thread \<open>t\<close>; \<open>a\<close> is the address of a new node.\<close>

definition lf_push_step :: "nat \<Rightarrow> bool \<Rightarrow> nat \<Rightarrow> lf_stack \<Rightarrow> lf_stack option" where
  "lf_push_step a weak t s = (case pcs s t of
       F_push x \<Rightarrow> Some (at_pc t (F_push_cas a) (s\<lparr>nodes := (nodes s)(a \<mapsto> (x, head s))\<rparr>))
     | F_push_cas n \<Rightarrow> do {
         (x, prev) \<leftarrow> nodes s n;
         if head s = prev \<and> \<not> weak then Some (at_pc t F_idle (s\<lparr>head := Some n, history := history s @ [Pushed x]\<rparr>))
         else Some (s\<lparr>nodes := (nodes s)(n \<mapsto> (x, head s))\<rparr>) }
     | _ \<Rightarrow> None)"

text \<open>\<open>pop\<close>, with the value it returns.\<close>

definition lf_pop_step :: "bool \<Rightarrow> nat \<Rightarrow> lf_stack \<Rightarrow> (lf_stack \<times> int option) option" where
  "lf_pop_step weak t s = (case pcs s t of
       F_pop \<Rightarrow> Some (at_pc t (F_pop_test (head s)) s, None)
     | F_pop_test None \<Rightarrow> Some (at_pc t (F_pop_data None) s, None)
     | F_pop_test (Some c) \<Rightarrow> do { (x, prev) \<leftarrow> nodes s c; Some (at_pc t (F_pop_cas c prev) s, None) }
     | F_pop_cas c prev \<Rightarrow>
         if head s = Some c \<and> \<not> weak then do { (x, _) \<leftarrow> nodes s c; Some (at_pc t (F_pop_data (Some c)) (s\<lparr>head := prev, history := history s @ [Popped t x]\<rparr>), None) }
         else Some (at_pc t (F_pop_test (head s)) s, None)
     | F_pop_data c \<Rightarrow> do { c \<leftarrow> c; (x, _) \<leftarrow> nodes s c; Some (at_pc t F_idle s, Some x) }
     | _ \<Rightarrow> None)"

inductive lf_step :: "lf_stack \<Rightarrow> lf_stack \<Rightarrow> bool" where
  call_push: "pcs s t = F_idle \<Longrightarrow> lf_step s (at_pc t (F_push x) s)"
| call_pop: "pcs s t = F_idle \<Longrightarrow> lf_step s (at_pc t F_pop s)"
| push: "nodes s a = None \<Longrightarrow> lf_push_step a weak t s = Some s' \<Longrightarrow> lf_step s s'"
| pop: "lf_pop_step weak t s = Some (s', r) \<Longrightarrow> lf_step s s'"

section \<open>The list of nodes\<close>

fun links :: "(nat \<rightharpoonup> int \<times> nat option) \<Rightarrow> nat option \<Rightarrow> nat list \<Rightarrow> int list \<Rightarrow> bool" where
  "links N h [] [] = (h = None)"
| "links N h (a # as) (x # xs) = (h = Some a \<and> (\<exists>p. N a = Some (x, p) \<and> links N p as xs))"
| "links N h _ _ = False"

fun replay :: "lf_event list \<Rightarrow> int list \<Rightarrow> int list option" where
  "replay [] xs = Some xs"
| "replay (Pushed x # es) xs = replay es (x # xs)"
| "replay (Popped t x # es) [] = None"
| "replay (Popped t x # es) (y # xs) = (if x = y then replay es xs else None)"

lemma replay_append: "replay (es @ fs) xs = Option.bind (replay es xs) (replay fs)"
  by (induction es xs rule: replay.induct) auto

lemma links_cong: "links N h as xs \<Longrightarrow> \<forall>a\<in>set as. N' a = N a \<Longrightarrow> links N' h as xs"
  by (induction N h as xs rule: links.induct) auto

text \<open>
  The invariant. The nodes that are not published belong to one pushing thread each; the node a popping thread holds is published, and
  the successor it has read is the one of the node; the history replays to the contents.
\<close>

definition published :: "lf_stack \<Rightarrow> nat \<Rightarrow> bool" where
  "published s a \<longleftrightarrow> nodes s a \<noteq> None \<and> (\<forall>t. pcs s t \<noteq> F_push_cas a)"

definition last_popped :: "nat \<Rightarrow> int \<Rightarrow> lf_event list \<Rightarrow> bool" where
  "last_popped t x h \<longleftrightarrow> (\<exists>es fs. h = es @ Popped t x # fs \<and> (\<forall>y. Popped t y \<notin> set fs))"

lemma last_popped_append: "last_popped t x h \<Longrightarrow> \<forall>y. Popped t y \<notin> set es \<Longrightarrow> last_popped t x (h @ es)"
  unfolding last_popped_def by (metis Un_iff append.assoc append_Cons set_append)

lemma last_popped_snoc: "last_popped t x (h @ [Popped t x])"
  unfolding last_popped_def by (intro exI [of _ h] exI [of _ "[]"]) simp

definition thread_ok :: "lf_stack \<Rightarrow> nat \<Rightarrow> bool" where
  "thread_ok s t \<longleftrightarrow> (case pcs s t of
       F_push_cas a \<Rightarrow> nodes s a \<noteq> None \<and> (\<forall>u. pcs s u = F_push_cas a \<longrightarrow> u = t)
     | F_pop_test (Some c) \<Rightarrow> published s c
     | F_pop_cas c p \<Rightarrow> published s c \<and> (\<exists>x. nodes s c = Some (x, p))
     | F_pop_data (Some c) \<Rightarrow> published s c \<and> (\<exists>x p. nodes s c = Some (x, p) \<and> last_popped t x (history s))
     | _ \<Rightarrow> True)"

definition lf_inv :: "lf_stack \<Rightarrow> bool" where
  "lf_inv s \<longleftrightarrow> (\<exists>as xs. links (nodes s) (head s) as xs \<and> (\<forall>a\<in>set as. published s a) \<and> replay (history s) [] = Some xs) \<and> (\<forall>t. thread_ok s t)"

lemma lf_inv_new: "lf_inv lf_stack_new"
  unfolding lf_inv_def lf_stack_new_def thread_ok_def
  by (intro conjI exI [of _ "[]"]) simp_all

text \<open>A thread that does not move keeps what it knows.\<close>

lemma thread_ok_frame:
  assumes "thread_ok s u" "pcs s' u = pcs s u" and pub: "\<And>a. published s a \<Longrightarrow> published s' a \<and> nodes s' a = nodes s a"
    and own: "\<And>a. pcs s u = F_push_cas a \<Longrightarrow> nodes s' a \<noteq> None \<and> (\<forall>v. pcs s' v = F_push_cas a \<longrightarrow> v = u)"
    and hist: "history s' = history s @ es" "\<forall>y. Popped u y \<notin> set es"
  shows "thread_ok s' u"
proof (cases "pcs s u")
  case (F_pop_data c)
  show ?thesis
  proof (cases c)
    case (Some a)
    then obtain x p where "published s a" "nodes s a = Some (x, p)" "last_popped u x (history s)"
      using assms(1) F_pop_data by (auto simp: thread_ok_def)
    then show ?thesis using assms(2) pub [of a] hist last_popped_append F_pop_data Some by (auto simp: thread_ok_def)
  qed (use assms(2) F_pop_data in \<open>simp add: thread_ok_def\<close>)
next
  case (F_push_cas a)
  show ?thesis unfolding thread_ok_def assms(2) F_push_cas lf_pc.case by (rule own [OF F_push_cas])
next
  case (F_pop_test c)
  then show ?thesis using assms(1,2) pub by (cases c) (auto simp: thread_ok_def)
next
  case (F_pop_cas c p)
  then show ?thesis using assms(1,2) pub by (auto simp: thread_ok_def)
qed (use assms(2) in \<open>simp_all add: thread_ok_def\<close>)

lemma own_step:
  assumes "\<And>u. thread_ok s u" "nodes s' = nodes s \<or> (\<exists>n y. nodes s' = (nodes s)(n \<mapsto> y))" "pcs s' = (pcs s)(t := p)" "\<And>a. p = F_push_cas a \<Longrightarrow> nodes s a = None \<or> pcs s t = p"
    "u \<noteq> t" "pcs s u = F_push_cas a"
  shows "nodes s' a \<noteq> None \<and> (\<forall>v. pcs s' v = F_push_cas a \<longrightarrow> v = u)"
proof -
  have u: "nodes s a \<noteq> None" "\<And>v. pcs s v = F_push_cas a \<Longrightarrow> v = u" using assms(1) [of u] assms(6) by (auto simp: thread_ok_def)
  then have "v = u" if "pcs s' v = F_push_cas a" for v using that assms(3-5) by (cases "v = t") auto
  moreover have "nodes s' a \<noteq> None" using u(1) assms(2) by auto
  ultimately show ?thesis by blast
qed

lemma lf_inv_step:
  assumes ok: "\<And>u. thread_ok s u" and t: "thread_ok s' t" and pcs: "pcs s' = (pcs s)(t := p)"
    and nodes: "nodes s' = nodes s \<or> (\<exists>n y. nodes s' = (nodes s)(n \<mapsto> y))" "\<And>a. p = F_push_cas a \<Longrightarrow> nodes s a = None \<or> pcs s t = p"
    and pub: "\<And>a. published s a \<Longrightarrow> published s' a \<and> nodes s' a = nodes s a"
    and hist: "history s' = history s @ es" "\<And>u y. u \<noteq> t \<Longrightarrow> Popped u y \<notin> set es"
    and l: "links (nodes s') (head s') as xs" "\<forall>a\<in>set as. published s' a" "replay (history s') [] = Some xs"
  shows "lf_inv s'"
proof -
  have "thread_ok s' u" if u: "u \<noteq> t" for u
  proof (rule thread_ok_frame [OF ok _ pub _ hist(1)])
    show "nodes s' a \<noteq> None \<and> (\<forall>v. pcs s' v = F_push_cas a \<longrightarrow> v = u)" if "pcs s u = F_push_cas a" for a
      by (rule own_step [OF ok nodes(1) pcs nodes(2) u that])
    show "\<forall>y. Popped u y \<notin> set es" using hist(2) u by blast
  qed (use pcs u in simp_all)
  then show ?thesis using t l unfolding lf_inv_def by metis
qed

lemma published_head: "links N h as xs \<Longrightarrow> \<forall>a\<in>set as. P a \<Longrightarrow> h = Some c \<Longrightarrow> P c"
  by (cases "(N, h, as, xs)" rule: links.cases) auto

lemma push_inv:
  assumes inv: "lf_inv s" and a: "nodes s a = None" and st: "lf_push_step a weak t s = Some s'"
  shows "lf_inv s'"
proof -
  obtain as xs where l: "links (nodes s) (head s) as xs" "\<forall>a\<in>set as. published s a" "replay (history s) [] = Some xs" and ok: "\<And>u. thread_ok s u"
    using inv by (auto simp: lf_inv_def)
  consider (new) x where "pcs s t = F_push x" | (cas) n x prev where "pcs s t = F_push_cas n" "nodes s n = Some (x, prev)"
    using st by (auto simp: lf_push_step_def bind_eq_Some_conv split: lf_pc.splits)
  then show ?thesis
  proof cases
    case (new x)
    then have s': "s' = at_pc t (F_push_cas a) (s\<lparr>nodes := (nodes s)(a \<mapsto> (x, head s))\<rparr>)" using st by (simp add: lf_push_step_def)
    have none: "pcs s u \<noteq> F_push_cas a" for u using ok [of u] a by (auto simp: thread_ok_def)
    have pub: "published s' b \<and> nodes s' b = nodes s b" if "published s b" for b using that a by (auto simp: published_def s' at_pc_def)
    show ?thesis
    proof (rule lf_inv_step [OF ok _ _ _ _ pub, where t = t and p = "F_push_cas a" and es = "[]"])
      show "thread_ok s' t" using none by (auto simp: thread_ok_def s' at_pc_def)
      show "links (nodes s') (head s') as xs" using links_cong [OF l(1)] pub l(2) by (auto simp: s' at_pc_def)
      show "\<forall>b\<in>set as. published s' b" using l(2) pub by blast
    qed (use l(3) a in \<open>auto simp: s' at_pc_def\<close>)
  next
    case (cas n x prev)
    have only: "u = t" if "pcs s u = F_push_cas n" for u using ok [of t] cas(1) that by (auto simp: thread_ok_def)
    have other: "b \<noteq> n" if "published s b" for b using that cas(1) by (auto simp: published_def)
    show ?thesis
    proof (cases "head s = prev \<and> \<not> weak")
      case True
      then have s': "s' = at_pc t F_idle (s\<lparr>head := Some n, history := history s @ [Pushed x]\<rparr>)" using st cas by (simp add: lf_push_step_def)
      have pub: "published s' b \<and> nodes s' b = nodes s b" if "published s b \<or> b = n" for b
      proof -
        have "pcs s' v \<noteq> F_push_cas b" for v using that only [of v] by (cases "v = t") (auto simp: published_def s' at_pc_def)
        then show ?thesis using that cas(2) by (auto simp: published_def s' at_pc_def)
      qed
      show ?thesis
      proof (rule lf_inv_step [OF ok _ _ _ _ pub, where t = t and p = F_idle and es = "[Pushed x]" and as = "n # as" and xs = "x # xs"])
        show "thread_ok s' t" by (simp add: thread_ok_def s' at_pc_def)
        show "links (nodes s') (head s') (n # as) (x # xs)" using l(1) cas(2) True by (simp add: s' at_pc_def)
        show "replay (history s') [] = Some (x # xs)" using l(3) by (simp add: s' at_pc_def replay_append)
        show "\<forall>b\<in>set (n # as). published s' b" using l(2) pub by auto
      qed (auto simp: s' at_pc_def)
    next
      case False
      then have s': "s' = s\<lparr>nodes := (nodes s)(n \<mapsto> (x, head s))\<rparr>" using st cas by (auto simp: lf_push_step_def)
      have pub: "published s' b \<and> nodes s' b = nodes s b" if "published s b" for b using that other [OF that] by (auto simp: published_def s')
      show ?thesis
      proof (rule lf_inv_step [OF ok _ _ _ _ pub, where t = t and p = "pcs s t" and es = "[]"])
        have pc: "pcs s' t = F_push_cas n" and nd: "nodes s' n \<noteq> None" using cas(1) by (simp_all add: s')
        have un: "u = t" if "pcs s' u = F_push_cas n" for u by (rule only) (use that in \<open>simp add: s'\<close>)
        show "thread_ok s' t" unfolding thread_ok_def pc lf_pc.case using nd un by blast
        show "links (nodes s') (head s') as xs" using links_cong [OF l(1)] pub l(2) by (auto simp: s')
        show "\<forall>b\<in>set as. published s' b" using l(2) pub by blast
      qed (use l(3) in \<open>auto simp: s'\<close>)
    qed
  qed
qed

text \<open>Moves of a popping thread that leave the stack alone.\<close>

lemma move_inv:
  assumes inv: "lf_inv s" and "\<And>a. pcs s t \<noteq> F_push_cas a" "\<And>a. p \<noteq> F_push_cas a" "thread_ok (at_pc t p s) t"
  shows "lf_inv (at_pc t p s)"
proof -
  obtain as xs where l: "links (nodes s) (head s) as xs" "\<forall>a\<in>set as. published s a" "replay (history s) [] = Some xs" and ok: "\<And>u. thread_ok s u"
    using inv by (auto simp: lf_inv_def)
  have pub: "published (at_pc t p s) b \<and> nodes (at_pc t p s) b = nodes s b" if "published s b" for b
    using that assms(3) by (auto simp: published_def at_pc_def)
  show ?thesis
  proof (rule lf_inv_step [OF ok assms(4) _ _ _ pub, where p = p and es = "[]" and as = as])
    show "\<forall>b\<in>set as. published (at_pc t p s) b" using l(2) pub by blast
  qed (use l assms(3) in \<open>auto simp: at_pc_def\<close>)
qed

lemma pop_inv:
  assumes inv: "lf_inv s" and st: "lf_pop_step weak t s = Some (s', r)"
  shows "lf_inv s'"
proof -
  obtain as xs where l: "links (nodes s) (head s) as xs" "\<forall>a\<in>set as. published s a" "replay (history s) [] = Some xs" and ok: "\<And>u. thread_ok s u"
    using inv by (auto simp: lf_inv_def)
  have head: "published s c" if "head s = Some c" for c by (rule published_head [OF l(1,2) that])
  have keep: "published (at_pc t p s) c" if "published s c" "\<And>a. p \<noteq> F_push_cas a" for c p
    using that by (auto simp: published_def at_pc_def)
  have test: "thread_ok (at_pc t (F_pop_test (head s)) s) t"
    using keep [OF head, of _ "F_pop_test (head s)"] by (cases "head s") (auto simp: thread_ok_def at_pc_def)
  show ?thesis
  proof (cases "pcs s t")
    case F_pop
    then show ?thesis using st move_inv [OF inv _ _ test] by (auto simp: lf_pop_step_def)
  next
    case (F_pop_test c)
    show ?thesis
    proof (cases c)
      case None
      then show ?thesis using st F_pop_test move_inv [OF inv, of t "F_pop_data None"] by (auto simp: lf_pop_step_def thread_ok_def at_pc_def)
    next
      case (Some b)
      then obtain x p where x: "nodes s b = Some (x, p)" "s' = at_pc t (F_pop_cas b p) s"
        using st F_pop_test by (auto simp: lf_pop_step_def bind_eq_Some_conv)
      have "published s b" using ok [of t] F_pop_test Some by (auto simp: thread_ok_def)
      then have "thread_ok s' t" using keep [of b "F_pop_cas b p"] x by (auto simp: thread_ok_def at_pc_def)
      then show ?thesis using x(2) F_pop_test move_inv [OF inv, of t "F_pop_cas b p"] by auto
    qed
  next
    case (F_pop_cas c p)
    then obtain x where c: "published s c" "nodes s c = Some (x, p)" using ok [of t] by (auto simp: thread_ok_def)
    show ?thesis
    proof (cases "head s = Some c \<and> \<not> weak")
      case True
      then have s': "s' = at_pc t (F_pop_data (Some c)) (s\<lparr>head := p, history := history s @ [Popped t x]\<rparr>)"
        using st F_pop_cas c(2) by (simp add: lf_pop_step_def)
      obtain as' xs' where as: "as = c # as'" "xs = x # xs'" "links (nodes s) p as' xs'"
        using l(1) True c(2) by (cases "(nodes s, head s, as, xs)" rule: links.cases) auto
      have pub: "published s' b \<and> nodes s' b = nodes s b" if "published s b" for b using that by (auto simp: published_def s' at_pc_def)
      show ?thesis
      proof (rule lf_inv_step [OF ok _ _ _ _ pub, where t = t and p = "F_pop_data (Some c)" and es = "[Popped t x]" and as = as' and xs = xs'])
        show "thread_ok s' t" using pub [OF c(1)] c(2) last_popped_snoc by (auto simp: thread_ok_def s' at_pc_def)
        show "replay (history s') [] = Some xs'" using l(3) as by (simp add: s' at_pc_def replay_append)
        show "links (nodes s') (head s') as' xs'" using as by (simp add: s' at_pc_def)
        show "\<forall>b\<in>set as'. published s' b" using l(2) as(1) pub by auto
      qed (auto simp: s' at_pc_def)
    next
      case False
      then show ?thesis using st F_pop_cas move_inv [OF inv _ _ test] by (auto simp: lf_pop_step_def)
    qed
  next
    case (F_pop_data c)
    then show ?thesis using st move_inv [OF inv, of t F_idle] by (auto simp: lf_pop_step_def bind_eq_Some_conv thread_ok_def at_pc_def)
  qed (use st in \<open>simp_all add: lf_pop_step_def\<close>)
qed

section \<open>Properties\<close>

lemma lf_inv_reachable: "lf_step\<^sup>*\<^sup>* lf_stack_new s \<Longrightarrow> lf_inv s"
proof (induction rule: rtranclp_induct)
  case base
  show ?case by (rule lf_inv_new)
next
  case (step s s')
  from step.hyps(2) show ?case
  proof cases
    case (call_push t x)
    then show ?thesis using move_inv [OF step.IH, of t "F_push x"] by (simp add: thread_ok_def at_pc_def)
  next
    case (call_pop t)
    then show ?thesis using move_inv [OF step.IH, of t F_pop] by (simp add: thread_ok_def at_pc_def)
  next
    case (push a weak t)
    then show ?thesis using push_inv [OF step.IH] by blast
  next
    case (pop weak t r)
    then show ?thesis using pop_inv [OF step.IH] by blast
  qed
qed

text \<open>
  C18: The lock-free stack is linearizable. Under every interleaving of any number of threads, the successful exchanges, in the order in which they happen, form a legal
  history of a stack whose contents are those of the list of nodes; and a pop returns the value of the last element its thread has taken.
\<close>

theorem lf_stack_linearizable:
  assumes "lf_step\<^sup>*\<^sup>* lf_stack_new s"
  shows "(\<exists>as xs. replay (history s) [] = Some xs \<and> links (nodes s) (head s) as xs) \<and>
    (\<forall>weak t s' x. lf_pop_step weak t s = Some (s', Some x) \<longrightarrow> last_popped t x (history s))"
proof -
  have inv: "lf_inv s" by (rule lf_inv_reachable [OF assms])
  have "last_popped t x (history s)" if pop: "lf_pop_step weak t s = Some (s', Some x)" for weak t s' x
  proof -
    obtain c p where "pcs s t = F_pop_data (Some c)" "nodes s c = Some (x, p)"
      using pop by (auto simp: lf_pop_step_def bind_eq_Some_conv split: lf_pc.splits option.splits if_splits)
    then show ?thesis using inv by (auto simp: lf_inv_def thread_ok_def dest!: spec [of _ t])
  qed
  then show ?thesis using inv by (auto simp: lf_inv_def)
qed

theorem lf_stack_linearizable_witness:
  "\<exists>as xs. replay (history (at_pc 0 (F_push 10) lf_stack_new)) [] = Some xs \<and>
    links (nodes (at_pc 0 (F_push 10) lf_stack_new)) (head (at_pc 0 (F_push 10) lf_stack_new)) as xs"
proof -
  have "lf_step lf_stack_new (at_pc 0 (F_push 10) lf_stack_new)" by (rule lf_step.call_push) (simp add: lf_stack_new_def)
  then show ?thesis using lf_stack_linearizable [of "at_pc 0 (F_push 10) lf_stack_new"] by blast
qed

text \<open>
  No step of a push is undefined, and a step of a pop is undefined exactly when the loop has ended on an empty stack: \<open>pop\<close> then reads the data of the null pointer.
\<close>

theorem lf_stack_undefined_only_on_empty:
  assumes "lf_step\<^sup>*\<^sup>* lf_stack_new s"
  shows "(\<forall>x n. pcs s t = F_push x \<or> pcs s t = F_push_cas n \<longrightarrow> lf_push_step a weak t s \<noteq> None) \<and>
    (pcs s t \<in> {F_pop} \<union> range F_pop_test \<union> range (case_prod F_pop_cas) \<union> range F_pop_data \<longrightarrow>
      (lf_pop_step weak t s = None \<longleftrightarrow> pcs s t = F_pop_data None))"
proof -
  have ok: "thread_ok s t" using lf_inv_reachable [OF assms] by (simp add: lf_inv_def)
  show ?thesis
  proof (cases "pcs s t")
    case (F_push_cas n)
    obtain y where "nodes s n = Some y" using ok unfolding thread_ok_def F_push_cas lf_pc.case by blast
    then show ?thesis using F_push_cas by (auto simp: lf_push_step_def split: prod.splits)
  next
    case (F_pop_test c)
    then show ?thesis using ok by (cases c) (auto simp: thread_ok_def published_def lf_pop_step_def)
  next
    case (F_pop_cas c p)
    then show ?thesis using ok by (auto simp: thread_ok_def lf_pop_step_def)
  next
    case (F_pop_data c)
    then show ?thesis using ok by (cases c) (auto simp: thread_ok_def lf_pop_step_def)
  qed (auto simp: lf_push_step_def lf_pop_step_def)
qed

theorem lf_stack_undefined_only_on_empty_witness:
  "lf_push_step 8 False 0 (at_pc 0 (F_push 10) lf_stack_new) \<noteq> None"
proof -
  have "lf_step lf_stack_new (at_pc 0 (F_push 10) lf_stack_new)" by (rule lf_step.call_push) (simp add: lf_stack_new_def)
  then show ?thesis using lf_stack_undefined_only_on_empty [of "at_pc 0 (F_push 10) lf_stack_new" 0 8 False] by (auto simp: at_pc_def)
qed

end
