(* ===== verification/Prod_Cons.thy ===== *)
theory Prod_Cons
  imports Prelude
begin

text \<open>
  The programs of \<open>2_cpp_basics/2_prod_cons_mutex\<close>: a stack behind a mutex with a condition variable (\<open>th_safe_stack.cpp\<close>), an atomic counter (\<open>th_safe_counter.cpp\<close>), and a producer and a
  consumer that meet on a condition variable (\<open>prod_cons_cond.cpp\<close>) or on a flag (\<open>prod_cons_flag.cpp\<close>).

  A critical section is one step. A thread that waits on a condition variable sleeps until it is notified or wakes up without a reason; it then takes
  the mutex again and evaluates the predicate.
\<close>

section \<open>The stack\<close>

datatype waiter = T_idle | T_pop | T_sleep | T_woken

record 'a stack_s =
  stack :: "'a list"
  waiters :: "nat \<Rightarrow> waiter"

definition stack_s_new :: "'a stack_s" where
  "stack_s_new = \<lparr>stack = [], waiters = (\<lambda>_. T_idle)\<rparr>"

definition stack_empty :: "'a stack_s \<Rightarrow> bool" where
  "stack_empty s = (stack s = [])"

definition stack_size :: "'a stack_s \<Rightarrow> nat" where
  "stack_size s = length (stack s)"

text \<open>\<open>notify_one\<close> wakes one of the sleeping threads, \<open>w\<close>, if there is one.\<close>

definition notify_one :: "nat option \<Rightarrow> 'a stack_s \<Rightarrow> 'a stack_s" where
  "notify_one w s = (case w of None \<Rightarrow> s | Some w \<Rightarrow> s\<lparr>waiters := (waiters s)(w := T_woken)\<rparr>)"

definition stack_push :: "nat option \<Rightarrow> 'a \<Rightarrow> 'a stack_s \<Rightarrow> 'a stack_s" where
  "stack_push w x s = notify_one w (s\<lparr>stack := x # stack s\<rparr>)"

text \<open>The critical section of \<open>pop\<close>: it returns the top, or goes to sleep.\<close>

definition stack_pop :: "nat \<Rightarrow> 'a stack_s \<Rightarrow> 'a stack_s \<times> 'a option" where
  "stack_pop t s = (case stack s of
       [] \<Rightarrow> (s\<lparr>waiters := (waiters s)(t := T_sleep)\<rparr>, None)
     | x # xs \<Rightarrow> (s\<lparr>stack := xs, waiters := (waiters s)(t := T_idle)\<rparr>, Some x))"

definition stack_try_pop :: "'a stack_s \<Rightarrow> 'a stack_s \<times> 'a option" where
  "stack_try_pop s = (case stack s of [] \<Rightarrow> (s, None) | x # xs \<Rightarrow> (s\<lparr>stack := xs\<rparr>, Some x))"

inductive stack_step :: "nat \<Rightarrow> 'a stack_s \<Rightarrow> 'a stack_s \<Rightarrow> bool" for T where
  push_none: "\<forall>w<T. waiters s w \<noteq> T_sleep \<Longrightarrow> stack_step T s (stack_push None x s)"
| push_one: "w < T \<Longrightarrow> waiters s w = T_sleep \<Longrightarrow> stack_step T s (stack_push (Some w) x s)"
| call: "t < T \<Longrightarrow> waiters s t = T_idle \<Longrightarrow> stack_step T s (s\<lparr>waiters := (waiters s)(t := T_pop)\<rparr>)"
| pop: "t < T \<Longrightarrow> waiters s t \<in> {T_pop, T_woken} \<Longrightarrow> stack_step T s (fst (stack_pop t s))"
| try_pop: "stack_step T s (fst (stack_try_pop s))"
| spurious: "t < T \<Longrightarrow> waiters s t = T_sleep \<Longrightarrow> stack_step T s (s\<lparr>waiters := (waiters s)(t := T_woken)\<rparr>)"

definition woken :: "nat \<Rightarrow> 'a stack_s \<Rightarrow> nat set" where
  "woken T s = {t. t < T \<and> waiters s t = T_woken}"

text \<open>While a thread sleeps, there is a woken thread for every element.\<close>

definition wake_inv :: "nat \<Rightarrow> 'a stack_s \<Rightarrow> bool" where
  "wake_inv T s \<longleftrightarrow> (\<exists>t<T. waiters s t = T_sleep) \<longrightarrow> length (stack s) \<le> card (woken T s)"

lemma finite_woken [simp]: "finite (woken T s)"
  by (simp add: woken_def)

lemma woken_update:
  "t < T \<Longrightarrow> woken T (s\<lparr>waiters := (waiters s)(t := p)\<rparr>) = (if p = T_woken then insert t (woken T s) else woken T s - {t})"
  by (auto simp: woken_def)

lemma woken_stack [simp]: "woken T (s\<lparr>stack := xs\<rparr>) = woken T s"
  by (simp add: woken_def)

lemma wake_inv_step:
  assumes "wake_inv T s" "stack_step T s s'"
  shows "wake_inv T s'"
  using assms(2)
proof cases
  case (push_none x)
  then show ?thesis by (auto simp: wake_inv_def stack_push_def notify_one_def)
next
  case (push_one w x)
  then have "w \<notin> woken T s" by (simp add: woken_def)
  moreover have "woken T s' = insert w (woken T s)" using push_one(2) by (auto simp: push_one(1) stack_push_def notify_one_def woken_def)
  ultimately have "card (woken T s') = Suc (card (woken T s))" by simp
  moreover have "length (stack s) \<le> card (woken T s)" using assms(1) push_one(2,3) by (auto simp: wake_inv_def)
  ultimately show ?thesis using push_one(1) by (simp add: wake_inv_def stack_push_def notify_one_def)
next
  case (call t)
  then have "woken T s' = woken T s" by (auto simp: woken_def)
  then show ?thesis using assms(1) call by (auto simp: wake_inv_def split: if_splits)
next
  case (pop t)
  show ?thesis
  proof (cases "stack s")
    case Nil
    then show ?thesis using pop(1) by (simp add: wake_inv_def stack_pop_def)
  next
    case (Cons x xs)
    then have s': "s' = s\<lparr>stack := xs, waiters := (waiters s)(t := T_idle)\<rparr>" using pop(1) by (simp add: stack_pop_def)
    have "woken T s' = woken T s - {t}" using pop(2) by (auto simp: s' woken_def)
    then have "card (woken T s) \<le> Suc (card (woken T s'))" by (simp add: card_Diff_singleton_if le_Suc_eq) linarith
    then show ?thesis using assms(1) Cons pop(2,3) by (auto simp: wake_inv_def s' split: if_splits)
  qed
next
  case try_pop
  then show ?thesis using assms(1) by (auto simp: wake_inv_def stack_try_pop_def split: list.splits)
next
  case (spurious t)
  then have "card (woken T s) \<le> card (woken T s')" by (simp add: woken_update card_insert_le)
  then show ?thesis using assms(1) spurious by (auto simp: wake_inv_def split: if_splits)
qed

text \<open>
  C26: One notification for each push is enough. Whenever a thread sleeps in \<open>pop\<close> although the stack is not empty, at least as many threads as there are elements have been woken
  and are about to evaluate the predicate again.
\<close>

theorem stack_no_lost_wakeup:
  assumes "(stack_step T)\<^sup>*\<^sup>* stack_s_new s" "t < T" "waiters s t = T_sleep"
  shows "length (stack s) \<le> card (woken T s)"
proof -
  have "wake_inv T s"
    using assms(1)
  proof induction
    case base
    then show ?case by (simp add: wake_inv_def stack_s_new_def)
  next
    case (step s s')
    then show ?case using wake_inv_step by blast
  qed
  then show ?thesis using assms(2,3) by (auto simp: wake_inv_def)
qed

theorem stack_no_lost_wakeup_witness:
  "length (stack (fst (stack_pop 0 (stack_s_new\<lparr>waiters := (\<lambda>_. T_idle)(0 := T_pop)\<rparr> :: int stack_s)))) \<le>
     card (woken 1 (fst (stack_pop 0 (stack_s_new\<lparr>waiters := (\<lambda>_. T_idle)(0 := T_pop)\<rparr> :: int stack_s))))"
proof -
  let ?s = "stack_s_new\<lparr>waiters := (\<lambda>_. T_idle)(0 := T_pop)\<rparr> :: int stack_s"
  have "stack_step 1 stack_s_new ?s" using stack_step.call [of 0 1 "stack_s_new :: int stack_s"] by (simp add: stack_s_new_def)
  moreover have "stack_step 1 ?s (fst (stack_pop 0 ?s))" by (rule stack_step.pop) simp_all
  ultimately show ?thesis
    using stack_no_lost_wakeup [of 1 "fst (stack_pop 0 ?s)" 0] by (simp add: stack_pop_def stack_s_new_def)
qed

section \<open>The counter\<close>

definition ITERS :: nat where "ITERS = 100000"

record counter_main =
  count :: "32 word"
  iterations :: "nat \<Rightarrow> nat"

definition counter_init :: counter_main where
  "counter_init = \<lparr>count = 0, iterations = (\<lambda>_. 0)\<rparr>"

definition increment :: "nat \<Rightarrow> counter_main \<Rightarrow> counter_main" where
  "increment t s = s\<lparr>count := count s + 1, iterations := (iterations s)(t := iterations s t + 1)\<rparr>"

inductive counter_step :: "counter_main \<Rightarrow> counter_main \<Rightarrow> bool" where
  "t < 2 \<Longrightarrow> iterations s t < ITERS \<Longrightarrow> counter_step s (increment t s)"

text \<open>
  No increment is lost: under every interleaving of the two threads the counter is the number of increments made, without overflow. So the assertion of the program
  holds when both have made \<open>ITERS\<close>.
\<close>

theorem counter_assertion:
  assumes "counter_step\<^sup>*\<^sup>* counter_init s"
  shows "sint (count s) = int (iterations s 0) + int (iterations s 1)"
proof -
  have "count s = of_nat (iterations s 0 + iterations s 1) \<and> iterations s 0 \<le> ITERS \<and> iterations s 1 \<le> ITERS"
    using assms
  proof induction
    case (step s s')
    from step.hyps(2) show ?case
    proof cases
      case (1 t)
      then have "t = 0 \<or> t = 1" by auto
      then show ?thesis using step.IH 1 by (auto simp: increment_def)
    qed
  qed (simp add: counter_init_def)
  then have c: "count s = of_nat (iterations s 0 + iterations s 1)" and le: "iterations s 0 + iterations s 1 < 2 ^ 31" by (auto simp: ITERS_def)
  have "sint (of_nat n :: 32 word) = int n" if "n < 2 ^ 31" for n
    using that by (simp add: signed_of_nat signed_take_bit_int_eq_self)
  from this [OF le] show ?thesis unfolding c by simp
qed

theorem counter_assertion_witness: "sint (count (increment 1 counter_init)) = 1"
proof -
  have "counter_step counter_init (increment 1 counter_init)" by (rule counter_step.intros) (simp_all add: counter_init_def ITERS_def)
  then show ?thesis using counter_assertion [of "increment 1 counter_init"] by (simp add: increment_def counter_init_def)
qed

section \<open>Producer and consumer\<close>

text \<open>
  \<open>prod_cons_cond.cpp\<close>. The producer pushes 10 and notifies in one critical section. The consumer waits for the predicate and prints the first element; reading it from an empty vector is undefined.
\<close>

datatype cond_consumer = Q_start | Q_sleep | Q_woken | Q_print | Q_end

record cond_main =
  var :: "int list"
  producer_ended :: bool
  consumer_at_pc :: cond_consumer
  printed :: "int list"

definition cond_init :: cond_main where
  "cond_init = \<lparr>var = [], producer_ended = False, consumer_at_pc = Q_start, printed = []\<rparr>"

definition cond_producer :: "cond_main \<Rightarrow> cond_main" where
  "cond_producer s = s\<lparr>var := var s @ [10], producer_ended := True, consumer_at_pc := (if consumer_at_pc s = Q_sleep then Q_woken else consumer_at_pc s)\<rparr>"

text \<open>The consumer holds the mutex from the last evaluation of the predicate until it has printed, so both are one step.\<close>

definition cond_consumer_step :: "cond_main \<Rightarrow> cond_main option" where
  "cond_consumer_step s =
     (if length (var s) \<noteq> 0
      then (case var s of [] \<Rightarrow> None | x # _ \<Rightarrow> Some (s\<lparr>consumer_at_pc := Q_end, printed := printed s @ [x]\<rparr>))
      else Some (s\<lparr>consumer_at_pc := Q_sleep\<rparr>))"

inductive cond_step :: "cond_main \<Rightarrow> cond_main \<Rightarrow> bool" where
  producer: "\<not> producer_ended s \<Longrightarrow> cond_step s (cond_producer s)"
| consumer: "consumer_at_pc s \<in> {Q_start, Q_woken} \<Longrightarrow> cond_consumer_step s = Some s' \<Longrightarrow> cond_step s s'"
| spurious: "consumer_at_pc s = Q_sleep \<Longrightarrow> cond_step s (s\<lparr>consumer_at_pc := Q_woken\<rparr>)"

text \<open>\<open>prod_cons_flag.cpp\<close>. The producer pushes, sets the flag and notifies; \<open>flag.wait(false)\<close> returns when the flag is set.\<close>

datatype flag_producer = V_push | V_set | V_notify | V_end

record flag_main =
  fvar :: "int list"
  flag :: bool
  fproducer :: flag_producer
  fconsumer :: cond_consumer
  fprinted :: "int list"

definition flag_init :: flag_main where
  "flag_init = \<lparr>fvar = [], flag = False, fproducer = V_push, fconsumer = Q_start, fprinted = []\<rparr>"

definition flag_producer_step :: "flag_main \<Rightarrow> flag_main" where
  "flag_producer_step s = (case fproducer s of
       V_push \<Rightarrow> s\<lparr>fvar := fvar s @ [10], fproducer := V_set\<rparr>
     | V_set \<Rightarrow> s\<lparr>flag := True, fproducer := V_notify\<rparr>
     | V_notify \<Rightarrow> s\<lparr>fproducer := V_end, fconsumer := (if fconsumer s = Q_sleep then Q_woken else fconsumer s)\<rparr>
     | V_end \<Rightarrow> s)"

definition flag_consumer_step :: "flag_main \<Rightarrow> flag_main option" where
  "flag_consumer_step s = (case fconsumer s of
       Q_print \<Rightarrow> (case fvar s of [] \<Rightarrow> None | x # _ \<Rightarrow> Some (s\<lparr>fconsumer := Q_end, fprinted := fprinted s @ [x]\<rparr>))
     | Q_end \<Rightarrow> Some s
     | Q_sleep \<Rightarrow> Some s
     | _ \<Rightarrow> Some (s\<lparr>fconsumer := (if flag s then Q_print else Q_sleep)\<rparr>))"

inductive flag_step :: "flag_main \<Rightarrow> flag_main \<Rightarrow> bool" where
  producer: "flag_step s (flag_producer_step s)"
| consumer: "flag_consumer_step s = Some s' \<Longrightarrow> flag_step s s'"

definition cond_inv :: "cond_main \<Rightarrow> bool" where
  "cond_inv s \<longleftrightarrow> var s = (if producer_ended s then [10] else []) \<and> printed s = (if consumer_at_pc s = Q_end then [10] else []) \<and>
     (consumer_at_pc s = Q_sleep \<longrightarrow> \<not> producer_ended s)"

lemma cond_inv_step: "cond_inv s \<Longrightarrow> cond_step s s' \<Longrightarrow> cond_inv s'"
  by (erule cond_step.cases) (auto simp: cond_inv_def cond_producer_def cond_consumer_step_def split: if_splits list.splits)

definition flag_inv :: "flag_main \<Rightarrow> bool" where
  "flag_inv s \<longleftrightarrow> fvar s = (if fproducer s = V_push then [] else [10]) \<and> (flag s \<longleftrightarrow> fproducer s \<in> {V_notify, V_end}) \<and>
     fprinted s = (if fconsumer s = Q_end then [10] else []) \<and> (fconsumer s = Q_print \<longrightarrow> flag s) \<and>
     (fconsumer s = Q_sleep \<longrightarrow> fproducer s \<noteq> V_end)"

lemma flag_inv_step: "flag_inv s \<Longrightarrow> flag_step s s' \<Longrightarrow> flag_inv s'"
  by (erule flag_step.cases)
    (auto simp: flag_inv_def flag_producer_step_def flag_consumer_step_def split: flag_producer.splits cond_consumer.splits list.splits if_splits)

text \<open>
  In both programs the consumer never reads an empty vector, prints 10 when it ends, does not read while the producer writes, and is not asleep when the producer has ended.
\<close>

theorem prod_cons_deliver:
  assumes "cond_step\<^sup>*\<^sup>* cond_init s" "flag_step\<^sup>*\<^sup>* flag_init f"
  shows "cond_consumer_step s \<noteq> None \<and> printed s = (if consumer_at_pc s = Q_end then [10] else []) \<and> \<not> (producer_ended s \<and> consumer_at_pc s = Q_sleep) \<and>
    flag_consumer_step f \<noteq> None \<and> fprinted f = (if fconsumer f = Q_end then [10] else []) \<and> \<not> (fproducer f = V_end \<and> fconsumer f = Q_sleep) \<and>
    \<not> (fconsumer f = Q_print \<and> fproducer f = V_push)"
proof -
  have init: "cond_inv cond_init" "flag_inv flag_init" by (simp_all add: cond_inv_def cond_init_def flag_inv_def flag_init_def)
  have "cond_inv s" using assms(1) init(1) by (induction rule: rtranclp_induct) (auto intro: cond_inv_step)
  moreover have "flag_inv f" using assms(2) init(2) by (induction rule: rtranclp_induct) (auto intro: flag_inv_step)
  ultimately show ?thesis
    by (auto simp: cond_inv_def flag_inv_def cond_consumer_step_def flag_consumer_step_def split: cond_consumer.splits list.splits)
qed

theorem prod_cons_deliver_witness: "cond_consumer_step cond_init \<noteq> None \<and> flag_consumer_step flag_init \<noteq> None"
  using prod_cons_deliver [of cond_init flag_init] by simp

end
