(* ===== verification/Stream_Receiver.thy ===== *)
theory Stream_Receiver
  imports Echo_Servers Device_Correct
begin

text \<open>
  The receiver of \<open>5_network/multi_thread_rx/main.cpp\<close>, which reassembles messages of ten bytes from several TCP connections, against the \<open>Kernel\<close> of the network devices. \<open>std::out_of_range\<close>, which
  \<open>buffers.at(fd)\<close> throws for an unknown descriptor, is the value \<open>None\<close>.
\<close>

definition MESSAGE_SIZE :: nat where "MESSAGE_SIZE = 10"
definition SENDERS :: nat where "SENDERS = 2"

record Receiver =
  rx_trace :: trace
  buffers :: "int \<rightharpoonup> byte list"
  printed :: "(int \<times> byte list) list"

text \<open>\<open>main\<close> up to the loop; \<open>None\<close> is a return with 1.\<close>

definition rx_setup :: "Kernel \<Rightarrow> (int \<times> Receiver) option" where
  "rx_setup K =
     (let (fd, tr) = syscall K Socket []; (so, tr) = syscall K (Setsockopt fd) tr in
      if so < 0 then None
      else let (b, tr) = syscall K (Bind fd 8080) tr in
        if b < 0 then None
        else let (l, tr) = syscall K (Listen fd 10) tr in
          if l < 0 then None
          else let (ep, tr) = syscall K Epoll_create tr in
            if ep < 0 then None
            else let (r, tr) = syscall K (Epoll_add fd) tr in
              if r < 0 then None else Some (fd, \<lparr>rx_trace = tr, buffers = Map.empty, printed = []\<rparr>))"

text \<open>The body of the loop over the events; \<open>fds\<close> holds the listening socket only.\<close>

definition rx_flush :: "int \<Rightarrow> byte list \<Rightarrow> Receiver \<Rightarrow> Receiver" where
  "rx_flush fd b st = (if MESSAGE_SIZE \<le> length b then st\<lparr>buffers := (buffers st)(fd \<mapsto> []), printed := printed st @ [(fd, b)]\<rparr>
     else st\<lparr>buffers := (buffers st)(fd \<mapsto> b)\<rparr>)"

definition rx_event :: "Kernel \<Rightarrow> int \<Rightarrow> int \<times> bool \<Rightarrow> Receiver \<Rightarrow> Receiver option" where
  "rx_event K rx_fd ev st =
     (let (fd, epollin) = ev in
      if \<not> epollin then Some st
      else if fd = rx_fd then
        let (client_fd, tr) = syscall K (Accept4 fd) (rx_trace st) in
        if client_fd < 0 then Some (st\<lparr>rx_trace := tr\<rparr>)
        else let (r, tr) = syscall K (Epoll_add client_fd) tr in
             if r < 0 then Some (st\<lparr>rx_trace := tr\<rparr>)
             else Some (st\<lparr>rx_trace := tr, buffers := (buffers st)(client_fd \<mapsto> [])\<rparr>)
      else do {
        b \<leftarrow> buffers st fd;
        let bytes = payload K (map fst (rx_trace st));
        let (n_in, tr) = syscall K (Read fd (MESSAGE_SIZE - length b)) (rx_trace st);
        Some (rx_flush fd (if 0 < n_in then b @ take (nat n_in) bytes else b) (st\<lparr>rx_trace := tr\<rparr>)) })"

fun rx_events :: "Kernel \<Rightarrow> int \<Rightarrow> (int \<times> bool) list \<Rightarrow> Receiver \<Rightarrow> Receiver option" where
  "rx_events K rx_fd [] st = Some st"
| "rx_events K rx_fd (ev # evs) st = Option.bind (rx_event K rx_fd ev st) (rx_events K rx_fd evs)"

text \<open>At most \<open>k\<close> iterations of the loop.\<close>

fun rx_loop :: "Kernel \<Rightarrow> int \<Rightarrow> nat \<Rightarrow> Receiver \<Rightarrow> Receiver option" where
  "rx_loop K rx_fd 0 st = Some st"
| "rx_loop K rx_fd (Suc k) st =
     (if length (printed st) < 2 then
        let events = ready K (map fst (rx_trace st));
            (n, tr) = syscall K (Epoll_wait 10) (rx_trace st)
        in Option.bind (rx_events K rx_fd (take (nat n) events) (st\<lparr>rx_trace := tr\<rparr>)) (rx_loop K rx_fd k)
      else Some st)"

text \<open>What \<open>sender_f\<close> sends on each of its connections.\<close>

definition sender_f :: "byte list list" where
  "sender_f = [map of_char ''>>msg'', map of_char ''end<<<<'']"

section \<open>Reassembly\<close>

definition reads_fit :: "Kernel \<Rightarrow> bool" where
  "reads_fit K \<longleftrightarrow> (\<forall>h fd n. answer K h (Read fd n) \<le> int n \<and> answer K h (Read fd n) \<le> int (length (payload K h)))"

definition messages_on :: "int \<Rightarrow> Receiver \<Rightarrow> byte list list" where
  "messages_on fd st = map snd (filter (\<lambda>(f, m). f = fd) (printed st))"

definition pending :: "int \<Rightarrow> Receiver \<Rightarrow> byte list" where
  "pending fd st = (case buffers st fd of None \<Rightarrow> [] | Some b \<Rightarrow> b)"

definition rx_inv :: "Kernel \<Rightarrow> int \<Rightarrow> Receiver \<Rightarrow> bool" where
  "rx_inv K rx_fd st \<longleftrightarrow>
     (\<forall>fd. concat (messages_on fd st) @ pending fd st = reads_of K fd (rx_trace st) \<and> length (pending fd st) < MESSAGE_SIZE) \<and>
     list_all (\<lambda>(fd, m). length m = MESSAGE_SIZE) (printed st) \<and>
     honest K (rx_trace st) \<and> watched_of (rx_trace st) \<subseteq> insert rx_fd (dom (buffers st)) \<and>
     insert rx_fd (dom (buffers st)) \<subseteq> open_of (rx_trace st) \<and> rx_fd \<notin> dom (buffers st)"

lemma reads_of_call: "reads_of K fd (log_call tr c r) = reads_of K fd tr @ read_bytes K fd tr (c, r)"
  by (simp add: log_call_def reads_of_snoc)

lemma reads_of_Nil: "reads_of K fd [] = []"
  by (simp add: reads_of_def)

lemma rx_flush_inv:
  assumes inv: "rx_inv K rx_fd st" and fit: "reads_fit K" and b: "buffers st fd = Some b" "fd \<noteq> rx_fd"
  defines "n_in \<equiv> answer K (map fst (rx_trace st)) (Read fd (MESSAGE_SIZE - length b))"
  defines "bytes \<equiv> payload K (map fst (rx_trace st))"
  shows "rx_inv K rx_fd (rx_flush fd (if 0 < n_in then b @ take (nat n_in) bytes else b)
    (st\<lparr>rx_trace := log_call (rx_trace st) (Read fd (MESSAGE_SIZE - length b)) n_in\<rparr>))" (is "rx_inv K rx_fd ?st")
proof -
  note h = inv [unfolded rx_inv_def]
  let ?b = "if 0 < n_in then b @ take (nat n_in) bytes else b"
  have len: "length b < MESSAGE_SIZE" using h b(1) by (metis option.simps(5) pending_def)
  have le: "n_in \<le> int (MESSAGE_SIZE - length b)" "n_in \<le> int (length bytes)" using fit by (simp_all add: reads_fit_def n_in_def bytes_def)
  then have lb: "length ?b \<le> MESSAGE_SIZE" using len by auto
  have reads: "reads_of K f (rx_trace ?st) = reads_of K f (rx_trace st) @ (if f = fd then drop (length b) ?b else [])" for f
    by (auto simp: rx_flush_def reads_of_call read_bytes_def bytes_def)
  have old: "concat (messages_on fd st) @ b = reads_of K fd (rx_trace st)" using h b(1) by (metis option.simps(5) pending_def)
  have "concat (messages_on f ?st) @ pending f ?st = reads_of K f (rx_trace ?st) \<and> length (pending f ?st) < MESSAGE_SIZE" for f
  proof (cases "f = fd")
    case True
    have "concat (messages_on fd ?st) @ pending fd ?st = concat (messages_on fd st) @ ?b"
      by (auto simp: rx_flush_def messages_on_def pending_def)
    moreover have "?b = b @ drop (length b) ?b" by simp
    ultimately show ?thesis using True reads [of fd] old len
      by (auto simp: rx_flush_def pending_def MESSAGE_SIZE_def simp flip: append_assoc)
  next
    case False
    then have "messages_on f ?st = messages_on f st" "pending f ?st = pending f st" by (auto simp: rx_flush_def messages_on_def pending_def)
    then show ?thesis using h reads [of f] False by simp
  qed
  moreover have "list_all (\<lambda>(fd, m). length m = MESSAGE_SIZE) (printed ?st)" using h lb by (auto simp: rx_flush_def)
  moreover have "dom (buffers ?st) = dom (buffers st)" using b(1) by (auto simp: rx_flush_def)
  moreover have "rx_trace ?st = log_call (rx_trace st) (Read fd (MESSAGE_SIZE - length b)) n_in" by (simp add: rx_flush_def)
  ultimately show ?thesis using h by (simp add: rx_inv_def n_in_def)
qed

lemma rx_other_call:
  assumes "rx_inv K rx_fd st" "r = answer K (map fst (rx_trace st)) c" "\<And>f n. c \<noteq> Read f n" "closed c = {}" "watches c = {}"
  shows "rx_inv K rx_fd (st\<lparr>rx_trace := log_call (rx_trace st) c r\<rparr>)"
proof -
  have "reads_of K fd (log_call (rx_trace st) c r) = reads_of K fd (rx_trace st)" for fd
    using assms(3) by (auto simp: reads_of_call read_bytes_def split: syscall.splits)
  then show ?thesis using assms(1,2,4,5) by (auto simp: rx_inv_def messages_on_def pending_def)
qed

lemma rx_accept_inv:
  assumes inv: "rx_inv K rx_fd st" and "posix K"
  shows "\<exists>st'. rx_event K rx_fd (rx_fd, True) st = Some st' \<and> rx_inv K rx_fd st' \<and> watched_of (rx_trace st) \<subseteq> watched_of (rx_trace st')"
proof -
  note h = inv [unfolded rx_inv_def]
  let ?tr = "rx_trace st"
  define client where "client = answer K (map fst ?tr) (Accept4 rx_fd)"
  let ?tr1 = "log_call ?tr (Accept4 rx_fd) client"
  define r where "r = answer K (map fst ?tr1) (Epoll_add client)"
  let ?tr2 = "log_call ?tr1 (Epoll_add client) r"
  have new: "client \<notin> open_of ?tr" using posixD(1) [OF assms(2), of ?tr "Accept4 rx_fd"] h by (simp add: client_def)
  have inv1: "rx_inv K rx_fd (st\<lparr>rx_trace := ?tr1\<rparr>)" by (rule rx_other_call [OF inv]) (simp_all add: client_def)
  have e: "rx_event K rx_fd (rx_fd, True) st = (if client < 0 then Some (st\<lparr>rx_trace := ?tr1\<rparr>)
      else if r < 0 then Some (st\<lparr>rx_trace := ?tr2\<rparr>) else Some (st\<lparr>rx_trace := ?tr2, buffers := (buffers st)(client \<mapsto> [])\<rparr>))"
    by (simp add: rx_event_def syscall_def Let_def client_def r_def)
  have reads: "reads_of K fd ?tr2 = reads_of K fd ?tr" for fd by (simp add: reads_of_call read_bytes_def)
  have none: "buffers st client = None" using new h by (metis domIff insertCI subsetD)
  consider "client < 0" | "0 \<le> client" "r < 0" | "0 \<le> client" "0 \<le> r" by linarith
  then show ?thesis
  proof cases
    case 1
    then show ?thesis using e inv1 by auto
  next
    case 2
    then have "rx_inv K rx_fd (st\<lparr>rx_trace := ?tr2\<rparr>)" using h reads by (auto simp: rx_inv_def messages_on_def pending_def client_def r_def)
    then show ?thesis using e 2 by auto
  next
    case 3
    have "messages_on fd (st\<lparr>rx_trace := ?tr2, buffers := (buffers st)(client \<mapsto> [])\<rparr>) = messages_on fd st"
      "pending fd (st\<lparr>rx_trace := ?tr2, buffers := (buffers st)(client \<mapsto> [])\<rparr>) = pending fd st" for fd
      using none by (auto simp: messages_on_def pending_def)
    moreover have "rx_fd \<noteq> client" using new h by auto
    ultimately have "rx_inv K rx_fd (st\<lparr>rx_trace := ?tr2, buffers := (buffers st)(client \<mapsto> [])\<rparr>)"
      using h reads 3 by (auto simp: rx_inv_def client_def r_def)
    then show ?thesis using e 3 by auto
  qed
qed

lemma rx_event_inv:
  assumes inv: "rx_inv K rx_fd st" and K: "posix K" "reads_fit K" and fd: "fd \<in> watched_of (rx_trace st)"
  shows "\<exists>st'. rx_event K rx_fd (fd, i) st = Some st' \<and> rx_inv K rx_fd st' \<and> watched_of (rx_trace st) \<subseteq> watched_of (rx_trace st')"
proof (cases "\<not> i \<or> fd = rx_fd")
  case True
  then show ?thesis using inv rx_accept_inv [OF inv K(1)] by (cases i) (auto simp: rx_event_def)
next
  case False
  then obtain b where b: "buffers st fd = Some b" using inv fd by (auto simp: rx_inv_def)
  show ?thesis
    using rx_flush_inv [OF inv K(2) b] False b by (auto simp: rx_event_def syscall_def Let_def rx_flush_def)
qed

lemma rx_events_inv:
  assumes "rx_inv K rx_fd st" "posix K" "reads_fit K" "fst ` set evs \<subseteq> watched_of (rx_trace st)"
  shows "\<exists>st'. rx_events K rx_fd evs st = Some st' \<and> rx_inv K rx_fd st'"
  using assms(1,4)
proof (induction evs arbitrary: st)
  case (Cons ev evs)
  obtain fd i where ev: "ev = (fd, i)" by (cases ev)
  then obtain st1 where "rx_event K rx_fd ev st = Some st1" "rx_inv K rx_fd st1" "watched_of (rx_trace st) \<subseteq> watched_of (rx_trace st1)"
    using rx_event_inv [OF Cons.prems(1) assms(2,3), of fd i] Cons.prems(2) by auto
  then show ?case using Cons.IH [of st1] Cons.prems(2) by auto
qed simp

lemma rx_loop_inv:
  assumes "rx_inv K rx_fd st" "posix K" "reads_fit K"
  shows "\<exists>st'. rx_loop K rx_fd k st = Some st' \<and> rx_inv K rx_fd st'"
  using assms(1)
proof (induction k arbitrary: st)
  case (Suc k)
  define n where "n = answer K (map fst (rx_trace st)) (Epoll_wait 10)"
  let ?evs = "take (nat n) (ready K (map fst (rx_trace st)))" and ?st = "st\<lparr>rx_trace := log_call (rx_trace st) (Epoll_wait 10) n\<rparr>"
  have inv: "rx_inv K rx_fd ?st" by (rule rx_other_call [OF Suc.prems]) (simp_all add: n_def)
  have "honest K (rx_trace st)" using Suc.prems by (simp add: rx_inv_def)
  then have "fst ` set ?evs \<subseteq> watched_of (rx_trace ?st)"
    using posixD(2) [OF assms(2)] set_take_subset [of "nat n" "ready K (map fst (rx_trace st))"] by fastforce
  then obtain st1 where "rx_events K rx_fd ?evs ?st = Some st1" "rx_inv K rx_fd st1" using rx_events_inv [OF inv assms(2,3)] by blast
  then show ?case using Suc by (auto simp: syscall_def Let_def n_def)
qed simp

lemma rx_setup_inv:
  assumes "rx_setup K = Some (fd, st)" "0 \<le> fd"
  shows "rx_inv K fd st"
proof -
  have "st = \<lparr>rx_trace = rx_trace st, buffers = Map.empty, printed = []\<rparr>" "honest K (rx_trace st)" "watched_of (rx_trace st) = {fd}" "fd \<in> open_of (rx_trace st)"
    and "reads_of K f (rx_trace st) = []" for f
    using assms by (auto simp: rx_setup_def syscall_def Let_def reads_of_call read_bytes_def reads_of_Nil split: if_splits)
  then show ?thesis by (cases st) (simp add: rx_inv_def messages_on_def pending_def MESSAGE_SIZE_def)
qed

text \<open>
  C27: The receiver reassembles every connection on its own, however the streams are interleaved and cut. After any number of iterations no exception has been thrown, every printed
  message has ten bytes, and the messages printed for a connection, followed by the less than ten bytes that are still in its buffer, are exactly the bytes read from it. Reads
  return at most the bytes asked for, and the kernel behaves as documented.
\<close>

theorem receiver_reassembles:
  assumes "rx_setup K = Some (rx_fd, st)" "0 \<le> rx_fd" "posix K" "reads_fit K"
  shows "\<exists>st'. rx_loop K rx_fd k st = Some st' \<and> list_all (\<lambda>m. length m = MESSAGE_SIZE) (messages_on fd st') \<and>
    length (pending fd st') < MESSAGE_SIZE \<and> concat (messages_on fd st') @ pending fd st' = reads_of K fd (rx_trace st')"
proof -
  obtain st' where st': "rx_loop K rx_fd k st = Some st'" "rx_inv K rx_fd st'"
    using rx_loop_inv [OF rx_setup_inv [OF assms(1,2)] assms(3,4)] by blast
  then have "list_all (\<lambda>m. length m = MESSAGE_SIZE) (messages_on fd st')" by (auto simp: rx_inv_def messages_on_def list_all_iff)
  then show ?thesis using st' by (auto simp: rx_inv_def)
qed

lemma demo_reads_fit: "reads_fit demo_kernel"
  by (simp add: reads_fit_def demo_kernel_def)

theorem receiver_reassembles_witness:
  "\<exists>st st'. rx_setup demo_kernel = Some (3, st) \<and> rx_loop demo_kernel 3 5 st = Some st' \<and>
    concat (messages_on 10 st') @ pending 10 st' = reads_of demo_kernel 10 (rx_trace st')"
proof -
  obtain st where st: "rx_setup demo_kernel = Some (3, st)" by (auto simp: rx_setup_def syscall_def demo_kernel_def Let_def)
  then show ?thesis using receiver_reassembles [OF st _ demo_posix demo_reads_fit, of 5 10] by auto
qed

text \<open>
  The sender and the receiver together: as long as a connection has delivered an initial part of what \<open>sender_f\<close> sends on it, the receiver has printed nothing for it or exactly
  the first ten of its twelve bytes, the message >>msgend<<; and it has printed it as soon as ten bytes have been read.
\<close>

theorem receiver_prints_sender:
  assumes "rx_setup K = Some (rx_fd, st)" "0 \<le> rx_fd" "posix K" "reads_fit K" "rx_loop K rx_fd k st = Some st'"
    and "reads_of K fd (rx_trace st') = take n (concat sender_f)" "n \<le> 12"
  shows "messages_on fd st' = (if n < 10 then [] else [map of_char ''>>msgend<<''])"
proof -
  have inv: "rx_inv K rx_fd st'" using rx_loop_inv [OF rx_setup_inv [OF assms(1,2)] assms(3,4), of k] assms(5) by auto
  have eq: "concat (messages_on fd st') @ pending fd st' = take n (concat sender_f)" and p: "length (pending fd st') < 10"
    using inv assms(6) by (auto simp: rx_inv_def MESSAGE_SIZE_def)
  have ten: "length m = 10" if "m \<in> set (messages_on fd st')" for m using inv that by (auto simp: rx_inv_def messages_on_def list_all_iff MESSAGE_SIZE_def)
  have len: "length (take n (concat sender_f)) = n" using assms(7) by (simp add: sender_f_def)
  show ?thesis
  proof (cases "messages_on fd st'")
    case Nil
    then show ?thesis using eq p len by (auto simp: not_less)
  next
    case (Cons m ms)
    have all: "length (concat xs) = 10 * length xs" if "\<forall>m\<in>set xs. length m = 10" for xs :: "byte list list" using that by (induction xs) auto
    have "length (concat (messages_on fd st')) \<le> n" using arg_cong [OF eq, of length] len by simp
    then have "ms = []" using all [of "messages_on fd st'"] ten Cons assms(7) by (cases ms) auto
    then have m: "m @ pending fd st' = take n (concat sender_f)" "length m = 10" using eq Cons ten by simp_all
    have "m = take 10 (m @ pending fd st')" using m(2) by simp
    then have "m = take 10 (take n (concat sender_f))" "10 \<le> n" using m len arg_cong [OF m(1), of length] by simp_all
    then show ?thesis using Cons \<open>ms = []\<close> by (simp add: sender_f_def of_char_def)
  qed
qed

end
