(* ===== verification/Multicast.thy ===== *)
theory Multicast
  imports Decimal
begin

text \<open>
  The publisher and the subscriber of \<open>5_network/udp_mcast\<close>. The results of the system calls are parameters. The subscriber prints its lines to the terminal; the line with
  the raw message is left out, since it reads the buffer up to a zero byte that nothing has written.
\<close>

section \<open>The publisher\<close>

definition publisher_message :: "u64 \<Rightarrow> byte list" where
  "publisher_message counter = to_string (unat counter) @ map of_char ''|Message '' @ to_string (unat counter)"

text \<open>The loop: the datagrams handed to \<open>sendto\<close> while it succeeds. \<open>results\<close> are the results of the calls.\<close>

fun publisher_main :: "int list \<Rightarrow> u64 \<Rightarrow> byte list list \<times> int option" where
  "publisher_main [] counter = ([], None)"
| "publisher_main (res # results) counter =
     (if res < 0 then ([publisher_message counter], Some (- 1))
      else let (ms, r) = publisher_main results (counter + 1) in (publisher_message counter # ms, r))"

section \<open>The subscriber\<close>

datatype report = Subscribed bool | Gap u64 u64

record subscriber =
  subscribed :: bool
  counter :: "32 word"
  last_received :: u64

definition subscriber_new :: subscriber where
  "subscriber_new = \<lparr>subscribed = True, counter = 0, last_received = 0\<rparr>"

text \<open>
  The preparation of the socket: the results of \<open>socket\<close>, of the two calls of \<open>setsockopt\<close> and of \<open>bind\<close>. The test of the descriptor is the one of the code, for zero and not for a
  negative number.
\<close>

definition subscriber_setup :: "int \<Rightarrow> int \<Rightarrow> int \<Rightarrow> int \<Rightarrow> (subscriber \<times> report list) option" where
  "subscriber_setup udp_sock reuse bound joined =
     (if udp_sock = 0 \<or> reuse < 0 \<or> bound \<noteq> 0 \<or> joined < 0 then None
      else Some (subscriber_new, [Subscribed True]))"

text \<open>The number before the separator.\<close>

fun recv_id :: "byte list \<Rightarrow> u64 \<Rightarrow> u64" where
  "recv_id [] acc = acc"
| "recv_id (c # cs) acc = (if c = pipe then acc else recv_id cs (dec_digit c acc))"

definition received :: "byte list \<Rightarrow> subscriber \<Rightarrow> subscriber \<times> report list" where
  "received message s =
     (let i = recv_id message 0 in
      (s\<lparr>last_received := i\<rparr>, if last_received s + 1 < i then [Gap (last_received s) i] else []))"

text \<open>
  One iteration: \<open>opt\<close> is the result of \<open>setsockopt\<close>, \<open>msg\<close> the bytes that \<open>recvfrom\<close> puts into the buffer of 50 bytes, \<open>None\<close> when it fails. A failure ends the program, which is \<open>None\<close>.
\<close>

definition membership :: "int \<Rightarrow> subscriber \<Rightarrow> (subscriber \<times> report list) option" where
  "membership opt s =
     (if counter s mod 20 = 0 \<and> \<not> subscribed s then
        if opt < 0 then None else Some (s\<lparr>subscribed := True\<rparr>, [Subscribed True])
      else if subscribed s \<and> counter s mod 10 = 0 \<and> counter s \<noteq> 0 then
        if opt < 0 then None else Some (s\<lparr>subscribed := False\<rparr>, [Subscribed False])
      else Some (s, []))"

definition subscriber_step :: "int \<Rightarrow> byte list option \<Rightarrow> subscriber \<Rightarrow> (subscriber \<times> report list) option" where
  "subscriber_step opt msg s = do {
     (s, out) \<leftarrow> membership opt s;
     (s, out') \<leftarrow> (if subscribed s then do { m \<leftarrow> msg; Some (received m s) } else Some (s, []));
     Some (s\<lparr>counter := counter s + 1\<rparr>, out @ out') }"

fun subscriber_main :: "(int \<times> byte list option) list \<Rightarrow> subscriber \<Rightarrow> (subscriber \<times> report list) option" where
  "subscriber_main [] s = Some (s, [])"
| "subscriber_main ((opt, msg) # es) s = do {
     (s, out) \<leftarrow> subscriber_step opt msg s;
     (s, out') \<leftarrow> subscriber_main es s;
     Some (s, out @ out') }"

section \<open>Identifiers\<close>

lemma recv_id_foldl: "pipe \<notin> set ds \<Longrightarrow> recv_id (ds @ pipe # cs) acc = foldl (\<lambda>a c. dec_digit c a) acc ds"
  by (induction ds arbitrary: acc) auto

text \<open>The subscriber reads back the number the publisher has put in front of the separator.\<close>

lemma recv_id_publisher_message: "recv_id (publisher_message c) 0 = c"
proof -
  have "publisher_message c = to_string (unat c) @ pipe # map of_char ''Message '' @ to_string (unat c)"
    by (simp add: publisher_message_def of_char_def)
  then show ?thesis using recv_id_foldl [OF to_string_not_pipe] read_to_string [of 0 "unat c"] by simp
qed

section \<open>Gaps\<close>

text \<open>What is to be reported for the numbers received one after the other.\<close>

fun gaps :: "u64 \<Rightarrow> u64 list \<Rightarrow> report list" where
  "gaps l [] = []"
| "gaps l (i # is) = (if l + 1 < i then [Gap l i] else []) @ gaps i is"

definition is_gap :: "report \<Rightarrow> bool" where
  "is_gap r = (case r of Gap _ _ \<Rightarrow> True | _ \<Rightarrow> False)"

text \<open>The phase of the subscription: ten iterations on, ten off.\<close>

definition phase :: "nat \<Rightarrow> bool" where
  "phase i \<longleftrightarrow> even (i div 10)"

lemma phase_Suc: "phase (Suc i) = (if Suc i mod 10 = 0 then \<not> phase i else phase i)"
  by (auto simp: phase_def div_Suc)

lemma word_mod: "n < 2 ^ 32 \<Longrightarrow> (of_nat n :: 32 word) mod 20 = 0 \<longleftrightarrow> n mod 20 = 0"
  "n < 2 ^ 32 \<Longrightarrow> (of_nat n :: 32 word) mod 10 = 0 \<longleftrightarrow> n mod 10 = 0"
  by (simp_all add: word_arith_nat_mod unat_of_nat word_unat_eq_iff)

lemma word_zero: "n < 2 ^ 32 \<Longrightarrow> (of_nat n :: 32 word) = 0 \<longleftrightarrow> n = 0"
  by (simp add: word_unat_eq_iff unat_of_nat)

definition in_phase :: "nat \<Rightarrow> subscriber \<Rightarrow> bool" where
  "in_phase i s \<longleftrightarrow> counter s = of_nat i \<and> subscribed s = (if i = 0 then True else phase (i - 1))"

text \<open>The datagrams the subscriber gets, from iteration \<open>i\<close> on.\<close>

fun delivered :: "nat \<Rightarrow> (int \<times> byte list option) list \<Rightarrow> byte list list" where
  "delivered i [] = []"
| "delivered i ((opt, msg) # es) = (if phase i then [the msg] else []) @ delivered (Suc i) es"

lemma membership_phase:
  assumes "in_phase i s" "i < 2 ^ 32" "0 \<le> opt"
  shows "\<exists>out. membership opt s = Some (s\<lparr>subscribed := phase i\<rparr>, out) \<and> filter is_gap out = []"
proof -
  have c: "counter s mod 20 = 0 \<longleftrightarrow> i mod 20 = 0" "counter s mod 10 = 0 \<longleftrightarrow> i mod 10 = 0" "counter s \<noteq> 0 \<longleftrightarrow> i \<noteq> 0"
    using assms(1,2) word_mod [OF assms(2)] word_zero [OF assms(2)] by (simp_all add: in_phase_def)
  have i20: "i mod 20 = 0 \<longleftrightarrow> i mod 10 = 0 \<and> phase i" unfolding phase_def by presburger
  show ?thesis
  proof (cases i)
    case 0
    then show ?thesis using assms c by (auto simp: membership_def in_phase_def phase_def)
  next
    case (Suc j)
    then have s: "subscribed s = phase j" using assms(1) by (simp add: in_phase_def)
    have "s\<lparr>subscribed := phase i\<rparr> = s" if "subscribed s = phase i" using that by (cases s) simp
    then show ?thesis using assms(3) c i20 s phase_Suc [of j] Suc unfolding membership_def by (auto simp: is_gap_def)
  qed
qed

lemma subscriber_main_run:
  assumes "in_phase i s" "i + length es \<le> 2 ^ 32" "list_all (\<lambda>(opt, msg). 0 \<le> opt \<and> msg \<noteq> None) es"
  shows "\<exists>s' out. subscriber_main es s = Some (s', out) \<and> in_phase (i + length es) s' \<and>
    filter is_gap out = gaps (last_received s) (map (\<lambda>m. recv_id m 0) (delivered i es))"
  using assms
proof (induction es arbitrary: i s)
  case Nil
  then show ?case by simp
next
  case (Cons e es)
  obtain opt m where e: "e = (opt, Some m)" "0 \<le> opt" using Cons.prems(3) by (cases e) auto
  obtain out1 where m1: "membership opt s = Some (s\<lparr>subscribed := phase i\<rparr>, out1)" "filter is_gap out1 = []"
    using membership_phase [OF Cons.prems(1) _ e(2)] Cons.prems(2) by auto
  define s1 where "s1 = (if phase i then fst (received m (s\<lparr>subscribed := phase i\<rparr>)) else s\<lparr>subscribed := phase i\<rparr>)\<lparr>counter := counter s + 1\<rparr>"
  define out2 where "out2 = (if phase i then snd (received m (s\<lparr>subscribed := phase i\<rparr>)) else [])"
  have st: "subscriber_step opt (Some m) s = Some (s1, out1 @ out2)"
    using m1(1) by (simp add: subscriber_step_def s1_def out2_def received_def Let_def)
  have "in_phase (Suc i) s1" using Cons.prems(1) by (simp add: in_phase_def s1_def received_def Let_def)
  moreover have "Suc i + length es \<le> 2 ^ 32" using Cons.prems(2) by simp
  moreover have "list_all (\<lambda>(opt, msg). 0 \<le> opt \<and> msg \<noteq> None) es" using Cons.prems(3) by simp
  ultimately obtain s' out where rest: "subscriber_main es s1 = Some (s', out)" "in_phase (Suc i + length es) s'"
    "filter is_gap out = gaps (last_received s1) (map (\<lambda>m. recv_id m 0) (delivered (Suc i) es))" using Cons.IH by blast
  have "filter is_gap out2 @ gaps (last_received s1) is = gaps (last_received s) ((if phase i then [recv_id m 0] else []) @ is)" for "is"
    by (simp add: out2_def s1_def received_def Let_def is_gap_def)
  then show ?case using st rest m1(2) by (simp add: e(1))
qed

text \<open>
  C28: The subscriber listens for ten iterations and is unsubscribed for the next ten, and so on, and it reports exactly the gaps in the numbers it has received: for every
  datagram whose number exceeds the previous one by more than one, the previous number and the new one, in order. This holds until its counter of iterations wraps around.
\<close>

theorem subscriber_reports_gaps:
  assumes "length es \<le> 2 ^ 32" "list_all (\<lambda>(opt, msg). 0 \<le> opt \<and> msg \<noteq> None) es"
  shows "\<exists>s out. subscriber_main es subscriber_new = Some (s, out) \<and> subscribed s = (if es = [] then True else phase (length es - 1)) \<and>
    filter is_gap out = gaps 0 (map (\<lambda>m. recv_id m 0) (delivered 0 es))"
proof -
  have "in_phase 0 subscriber_new" by (simp add: in_phase_def subscriber_new_def)
  then show ?thesis using subscriber_main_run [of 0 subscriber_new es] assms by (auto simp: in_phase_def subscriber_new_def)
qed

theorem subscriber_reports_gaps_witness:
  "\<exists>s out. subscriber_main [(0, Some (publisher_message 1)), (0, Some (publisher_message 4))] subscriber_new = Some (s, out) \<and> filter is_gap out = [Gap 1 4]"
  using subscriber_reports_gaps [of "[(0, Some (publisher_message 1)), (0, Some (publisher_message 4))]"]
  by (auto simp: phase_def recv_id_publisher_message)

end
