(* ===== verification/Engine_Output.thy ===== *)
theory Engine_Output
  imports Engine_Correct
begin

text \<open>
  What the engine puts on the outbound queue, in every state and for every input: messages of the size of the queue's slots whose type byte is that of a response and whose fields are those of its layout. Nothing is assumed
  about the book, so this holds also where the requests are not valid.
\<close>

definition well_formed_out :: "OutboundMessage \<Rightarrow> bool" where
  "well_formed_out m \<longleftrightarrow> length (out_bytes m) = OUCHMessageOut_SIZE \<and> event_of m \<noteq> None"

definition extends_out :: "Engine \<Rightarrow> Engine \<Rightarrow> bool" where
  "extends_out e e' \<longleftrightarrow> (\<exists>ms. outgoing e' = outgoing e @ ms \<and> list_all well_formed_out ms)"

lemma extends_out_same [intro]: "outgoing e' = outgoing e \<Longrightarrow> extends_out e e'"
  by (simp add: extends_out_def)

lemma extends_out_trans: "extends_out e e' \<Longrightarrow> extends_out e' e'' \<Longrightarrow> extends_out e e''"
  by (auto simp: extends_out_def)

text \<open>A state that differs from the start in other fields only.\<close>

lemma extends_out_from: "extends_out a e' \<Longrightarrow> outgoing a = outgoing e \<Longrightarrow> extends_out e e'"
  by (simp add: extends_out_def)

section \<open>The operations that send\<close>

lemma length_write_0: "length bs \<le> length buf \<Longrightarrow> length (write_at 0 bs buf) = length buf"
  by (simp add: write_at_def)

lemma well_formed_sent:
  "well_formed_out (out_msg a (accepted_bytes ts ord r))"
  "well_formed_out (out_msg a (executed_bytes ts urn q p liq m))"
  "well_formed_out (out_msg a (cancelled_bytes ts urn q reason))"
  "well_formed_out (out_msg a (cancel_rejected_bytes ts urn))"
  by (simp_all add: well_formed_out_def event_of_accepted event_of_executed event_of_cancelled event_of_cancel_rejected)
    (simp_all add: out_msg_def length_write_0 OUCHMessageOut_SIZE_eq)

lemma emit_extends: "list_all well_formed_out ms \<Longrightarrow> extends_out e (emit ms e)"
  by (simp add: extends_out_def)

lemma sends_extend:
  "extends_out e (send_accepted clk a ord r e)"
  "extends_out e (send_cancelled clk a urn q reason e)"
  "extends_out e (send_cancel_rejected clk a urn e)"
  by (simp_all add: send_emit emit_extends well_formed_sent)

lemma send_fills_extends: "send_fills clk a ord block q p e = Some e' \<Longrightarrow> extends_out e e'"
  by (auto simp: send_fills_def Let_def send_emit bind_Some_iff extends_out_def well_formed_sent)

section \<open>The operations that do not\<close>

lemma set_block_out: "set_block e p b = Some e' \<Longrightarrow> outgoing e' = outgoing e"
  by (auto simp: set_block_def bind_Some_iff)

lemma Engine_unlink_out: "Engine_unlink e p i = Some e' \<Longrightarrow> outgoing e' = outgoing e"
  by (auto simp: Engine_unlink_def bind_Some_iff)

lemma append_list_out: "append_list e p i = Some e' \<Longrightarrow> outgoing e' = outgoing e"
  by (auto simp: append_list_def bind_Some_iff)

lemma Engine_deallocate_out: "Engine_deallocate e p = Some e' \<Longrightarrow> outgoing e' = outgoing e"
  by (auto simp: Engine_deallocate_def bind_Some_iff)

lemma refresh_best_sell_out [simp]: "outgoing (refresh_best_sell e) = outgoing e"
proof -
  have "outgoing (advance_sell e) = outgoing e" by (induction e rule: advance_sell.induct) (subst advance_sell.simps, simp)
  then show ?thesis by (simp add: refresh_best_sell_def Let_def)
qed

lemma retreat_buy_out: "retreat_buy e = Some e' \<Longrightarrow> outgoing e' = outgoing e"
proof (induction e rule: retreat_buy.induct)
  case (1 e)
  show ?case
  proof (cases "0 < buy_orders e \<and> 0 < best_buy_idx e")
    case True
    then obtain l where l: "level e (best_buy_idx e) = Some l" "(if head l = None then retreat_buy (e\<lparr>best_buy_idx := best_buy_idx e - 1\<rparr>) else Some e) = Some e'"
      using "1.prems" by (subst (asm) retreat_buy.simps) (auto simp: bind_Some_iff)
    then show ?thesis using "1.IH" [OF True l(1)] by (auto split: if_splits)
  next
    case False
    then show ?thesis using "1.prems" by (subst (asm) retreat_buy.simps) (simp split: if_splits)
  qed
qed

lemma refresh_best_buy_out: "refresh_best_buy e = Some e' \<Longrightarrow> outgoing e' = outgoing e"
  by (auto simp: refresh_best_buy_def bind_Some_iff dest: retreat_buy_out)

lemmas silent = set_block_out Engine_unlink_out append_list_out Engine_deallocate_out refresh_best_buy_out

section \<open>Requests\<close>

lemma buy_match_step_extends: "buy_match_step clk a ord e q = Some (e', q') \<Longrightarrow> extends_out e e'"
  by (auto simp: buy_match_step_def bind_Some_iff Let_def extends_out_def split: if_splits dest!: send_fills_extends silent)

lemma sell_match_step_extends: "sell_match_step clk a ord e q = Some (e', q') \<Longrightarrow> extends_out e e'"
  by (auto simp: sell_match_step_def bind_Some_iff Let_def extends_out_def split: if_splits dest!: send_fills_extends silent)

lemma buy_match_loop_extends: "buy_match_loop clk a ord e q = Some (e', q') \<Longrightarrow> extends_out e e'"
proof (induction clk a ord e q rule: buy_match_loop.induct)
  case (1 clk a ord e q)
  from "1.prems" show ?case
    by (subst (asm) buy_match_loop.simps)
      (auto simp: bind_Some_iff split: if_splits intro: "1.IH" extends_out_trans [OF buy_match_step_extends])
qed

lemma sell_match_loop_extends: "sell_match_loop clk a ord limit e q = Some (e', q') \<Longrightarrow> extends_out e e'"
proof (induction clk a ord limit e q rule: sell_match_loop.induct)
  case (1 clk a ord limit e q)
  from "1.prems" show ?case
    by (subst (asm) sell_match_loop.simps)
      (auto simp: bind_Some_iff split: if_splits intro: "1.IH" extends_out_trans [OF sell_match_step_extends])
qed

lemma insert_buy_order_extends:
  assumes "insert_buy_order clk a ord e = Some (e', r)"
  shows "extends_out e e'"
proof -
  let ?e = "e\<lparr>counter := counter e + 1\<rparr>"
  obtain e1 q where loop: "buy_match_loop clk a ord (send_accepted clk a ord (counter ?e) ?e) (EnterRequestView_Quantity ord) = Some (e1, q)"
    using assms by (auto simp: insert_buy_order_def Let_def bind_Some_iff)
  have "extends_out ?e e1" using extends_out_trans [OF sends_extend(1) buy_match_loop_extends [OF loop]] .
  then have e1: "extends_out e e1" by (rule extends_out_from) simp
  have "extends_out e1 e'"
    using assms loop
    by (auto simp: insert_buy_order_def Let_def bind_Some_iff extends_out_def send_emit well_formed_sent split: if_splits option.splits dest!: silent)
  then show ?thesis using e1 extends_out_trans by blast
qed

lemma insert_sell_order_extends:
  assumes "insert_sell_order clk a ord e = Some (e', r)"
  shows "extends_out e e'"
proof -
  let ?e = "e\<lparr>counter := counter e + 1\<rparr>"
  let ?limit = "if EnterRequestView_Price ord = MARKETPRICE then 0 else EnterRequestView_Price ord"
  obtain e1 q where loop: "sell_match_loop clk a ord ?limit (send_accepted clk a ord (counter ?e) ?e) (EnterRequestView_Quantity ord) = Some (e1, q)"
    using assms by (auto simp: insert_sell_order_def Let_def bind_Some_iff)
  have "extends_out ?e e1" using extends_out_trans [OF sends_extend(1) sell_match_loop_extends [OF loop]] .
  then have e1: "extends_out e e1" by (rule extends_out_from) simp
  have "extends_out e1 e'"
    using assms loop
    by (auto simp: insert_sell_order_def Let_def bind_Some_iff extends_out_def send_emit well_formed_sent split: if_splits option.splits dest!: silent)
  then show ?thesis using e1 extends_out_trans by blast
qed

lemma cancel_order_extends: "cancel_order clk a c e = Some (e', r) \<Longrightarrow> extends_out e e'"
  by (auto simp: cancel_order_def Let_def bind_Some_iff extends_out_def send_emit well_formed_sent split: if_splits option.splits dest!: silent)

lemma insert_order_extends: "insert_order clk a ord e = Some (Inr (e', r)) \<Longrightarrow> extends_out e e'"
  by (auto simp: insert_order_def bind_Some_iff split: if_splits dest: insert_buy_order_extends insert_sell_order_extends)

lemma process_extends:
  assumes "process clk m e = Some (Inr e')"
  shows "extends_out e e'"
proof -
  obtain d where d: "decode (in_bytes m) = Some d" using assms by (auto simp: process_def bind_Some_iff)
  show ?thesis
  proof (cases d)
    case (EnterRequestView v)
    then obtain s where s: "insert_order clk (in_account m) v e = Some s" "(case s of Inl x \<Rightarrow> Inl x | Inr (e, _) \<Rightarrow> Inr e) = Inr e'"
      using assms d by (auto simp: process_def bind_Some_iff)
    then obtain r where "insert_order clk (in_account m) v e = Some (Inr (e', r))" by (auto split: sum.splits)
    then show ?thesis by (rule insert_order_extends)
  next
    case (CancelRequestView v)
    then obtain q where "cancel_order clk (in_account m) v e = Some (e', q)" using assms d by (auto simp: process_def bind_Some_iff)
    then show ?thesis by (rule cancel_order_extends)
  qed (use assms d in \<open>auto simp: process_def\<close>)
qed

text \<open>
  C6: Whatever state the engine is in and whatever messages it processes, valid or not, it only appends to the outbound queue, and every message it appends has the size of the queue's messages and decodes to a
  response, with the type byte and the layout of an accept, a fill, a cancel or a rejected cancel.
\<close>

theorem engine_output_well_formed:
  assumes "run clk ms e = Some (Inr e')"
  shows "\<exists>out. outgoing e' = outgoing e @ out \<and> list_all well_formed_out out"
proof -
  have "extends_out e e'" using assms
  proof (induction ms arbitrary: e)
    case (Cons m ms)
    then obtain e1 where "process clk m e = Some (Inr e1)" "run clk ms e1 = Some (Inr e')" by (auto split: option.splits sum.splits)
    then show ?case using process_extends Cons.IH extends_out_trans by blast
  qed auto
  then show ?thesis by (simp add: extends_out_def)
qed

theorem engine_output_well_formed_witness:
  "\<exists>out. outgoing (send_cancel_rejected (\<lambda>_. (0, 0)) 7 (CancelRequestView_UserRefNum CancelRequestBuilder) (Engine_new 2 demo_pool)) = [] @ out \<and> list_all well_formed_out out"
proof -
  have "decode CancelRequestBuilder = Some (CancelRequestView CancelRequestBuilder)"
    by (simp add: decode_nonempty wire_simps)
  then have "run (\<lambda>_. (0, 0)) [\<lparr>in_account = 7, in_bytes = CancelRequestBuilder\<rparr>] (Engine_new 2 demo_pool) =
    Some (Inr (send_cancel_rejected (\<lambda>_. (0, 0)) 7 (CancelRequestView_UserRefNum CancelRequestBuilder) (Engine_new 2 demo_pool)))"
    by (simp add: process_def cancel_order_def Let_def Engine_new_def)
  from engine_output_well_formed [OF this] show ?thesis by (simp add: Engine_new_def)
qed

end
