(* ===== verification/Spin_Pool.thy ===== *)
theory Spin_Pool
  imports Thread_Pool
begin

text \<open>
  The busy-waiting thread pool of \<open>2_cpp_basics/4_thread_pool/pool_test2.cpp\<close> and the program around it, whose jobs are \<open>twice\<close> on the numbers below \<open>n\<close>, which is 100, and \<open>boom\<close>. Unlike
  the pool of \<open>th_pool.cpp\<close> its workers spin, and its destructor leaves the joining to the destructors of the threads, which run after those of the queues: a member is destroyed
  before the members declared ahead of it. An access to a destroyed queue is undefined.

  A job is the number of its promise. As in \<open>Thread_Pool\<close>, an operation of a queue is one step.
\<close>

datatype spin_worker = X_loop | X_own | X_steal nat | X_run nat | X_end

datatype spin_main =
    M_schedule nat
  | M_get nat
  | M_schedule_boom
  | M_get_boom
  | M_stop nat nat
  | M_destroy nat nat
  | M_join nat nat
  | M_end nat

record spin_pool =
  queues :: "nat \<Rightarrow> nat list"
  alive :: "nat \<Rightarrow> bool"
  next_q :: nat
  workers :: "nat \<Rightarrow> spin_worker"
  stops :: "nat \<Rightarrow> bool"
  fulfilled :: "(nat \<times> (string, u64) outcome) list"
  main_pc :: spin_main

section \<open>The queues\<close>

definition spin_enqueue :: "nat \<Rightarrow> nat \<Rightarrow> spin_pool \<Rightarrow> spin_pool option" where
  "spin_enqueue k j s = (if alive s k then Some (s\<lparr>queues := (queues s)(k := queues s k @ [j])\<rparr>) else None)"

definition spin_dequeue :: "nat \<Rightarrow> spin_pool \<Rightarrow> (spin_pool \<times> nat option) option" where
  "spin_dequeue k s =
     (if alive s k then Some (case queues s k of [] \<Rightarrow> (s, None) | j # js \<Rightarrow> (s\<lparr>queues := (queues s)(k := js)\<rparr>, Some j)) else None)"

section \<open>The pool\<close>

definition spin_pool_new :: spin_pool where
  "spin_pool_new = \<lparr>queues = (\<lambda>_. []), alive = (\<lambda>_. True), next_q = 0, workers = (\<lambda>_. X_loop), stops = (\<lambda>_. False), fulfilled = [], main_pc = M_schedule 0\<rparr>"

definition spin_schedule_job :: "nat \<Rightarrow> nat \<Rightarrow> spin_pool \<Rightarrow> spin_pool option" where
  "spin_schedule_job S j s = do {
     s \<leftarrow> spin_enqueue (next_q s) j s;
     Some (s\<lparr>next_q := (next_q s + 1) mod S\<rparr>) }"

definition spin_goto :: "nat \<Rightarrow> spin_worker \<Rightarrow> spin_pool \<Rightarrow> spin_pool" where
  "spin_goto w p s = s\<lparr>workers := (workers s)(w := p)\<rparr>"

text \<open>A step of \<open>thread_handler\<close>; \<open>out\<close> is what a job returns or throws. A thread that has ended does nothing.\<close>

definition spin_handler :: "nat \<Rightarrow> (nat \<Rightarrow> (string, u64) outcome) \<Rightarrow> nat \<Rightarrow> spin_pool \<Rightarrow> spin_pool option" where
  "spin_handler S out w s = (case workers s w of
       X_loop \<Rightarrow> Some (spin_goto w (if stops s w then X_end else X_own) s)
     | X_own \<Rightarrow> do {
         (s, task) \<leftarrow> spin_dequeue w s;
         Some (spin_goto w (case task of Some j \<Rightarrow> X_run j | None \<Rightarrow> X_steal 0) s) }
     | X_steal i \<Rightarrow>
         if i = S then Some (spin_goto w X_loop s)
         else do {
           (s, task) \<leftarrow> spin_dequeue i s;
           Some (spin_goto w (case task of Some j \<Rightarrow> X_run j | None \<Rightarrow> X_steal (i + 1)) s) }
     | X_run j \<Rightarrow> Some (spin_goto w X_loop (s\<lparr>fulfilled := fulfilled s @ [(j, out j)]\<rparr>))
     | X_end \<Rightarrow> Some s)"

section \<open>The program\<close>

definition twice :: "u64 \<Rightarrow> u64" where
  "twice a = a * 2"

definition job_outcome :: "nat \<Rightarrow> nat \<Rightarrow> (string, u64) outcome" where
  "job_outcome n j = (if j < n then Value (twice (of_nat j)) else Exception ''boom'')"

text \<open>
  A step of \<open>main\<close>: \<open>Some (Some s)\<close> is the next state, \<open>Some None\<close> means that \<open>main\<close> waits for a future or a thread, and \<open>None\<close> that it is undefined. Its result is the number in \<open>M_stop\<close>,
  \<open>M_destroy\<close>, \<open>M_join\<close> and \<open>M_end\<close>. The queues and the threads are destroyed from the last to the first.
\<close>

definition spin_main_step :: "nat \<Rightarrow> nat \<Rightarrow> spin_pool \<Rightarrow> spin_pool option option" where
  "spin_main_step S n s = (case main_pc s of
       M_schedule i \<Rightarrow>
         if i < n then do { s \<leftarrow> spin_schedule_job S i s; Some (Some (s\<lparr>main_pc := M_schedule (i + 1)\<rparr>)) }
         else Some (Some (s\<lparr>main_pc := M_get 0\<rparr>))
     | M_get i \<Rightarrow>
         if i < n then (case map_of (fulfilled s) i of
             None \<Rightarrow> Some None
           | Some (Value v) \<Rightarrow> Some (Some (s\<lparr>main_pc := if v \<noteq> of_nat i * 2 then M_stop 0 1 else M_get (i + 1)\<rparr>))
           | Some (Exception e) \<Rightarrow> None)
         else Some (Some (s\<lparr>main_pc := M_schedule_boom\<rparr>))
     | M_schedule_boom \<Rightarrow> do { s \<leftarrow> spin_schedule_job S n s; Some (Some (s\<lparr>main_pc := M_get_boom\<rparr>)) }
     | M_get_boom \<Rightarrow> (case map_of (fulfilled s) n of
           None \<Rightarrow> Some None
         | Some (Value v) \<Rightarrow> Some (Some (s\<lparr>main_pc := M_stop 0 2\<rparr>))
         | Some (Exception e) \<Rightarrow> Some (Some (s\<lparr>main_pc := M_stop 0 0\<rparr>)))
     | M_stop w r \<Rightarrow>
         if w < S then Some (Some (s\<lparr>stops := (stops s)(w := True), main_pc := M_stop (w + 1) r\<rparr>))
         else Some (Some (s\<lparr>main_pc := M_destroy S r\<rparr>))
     | M_destroy k r \<Rightarrow> (case k of
           0 \<Rightarrow> Some (Some (s\<lparr>main_pc := M_join S r\<rparr>))
         | Suc k \<Rightarrow> Some (Some (s\<lparr>alive := (alive s)(k := False), main_pc := M_destroy k r\<rparr>)))
     | M_join w r \<Rightarrow> (case w of
           0 \<Rightarrow> Some (Some (s\<lparr>main_pc := M_end r\<rparr>))
         | Suc w \<Rightarrow> if workers s w = X_end then Some (Some (s\<lparr>main_pc := M_join w r\<rparr>)) else Some None)
     | M_end r \<Rightarrow> Some None)"

inductive spin_step :: "nat \<Rightarrow> nat \<Rightarrow> spin_pool \<Rightarrow> spin_pool \<Rightarrow> bool" for S n where
  worker: "w < S \<Longrightarrow> spin_handler S (job_outcome n) w s = Some s' \<Longrightarrow> spin_step S n s s'"
| main: "spin_main_step S n s = Some (Some s') \<Longrightarrow> spin_step S n s s'"

lemmas spin_defs = spin_goto_def spin_dequeue_def spin_enqueue_def spin_schedule_job_def

section \<open>Invariants\<close>

text \<open>How many jobs \<open>main\<close> has scheduled, and whether it has begun to destroy the pool.\<close>

fun scheduled :: "nat \<Rightarrow> spin_main \<Rightarrow> nat" where
  "scheduled n (M_schedule i) = i"
| "scheduled n (M_get i) = n"
| "scheduled n M_schedule_boom = n"
| "scheduled n _ = Suc n"

fun busy :: "spin_main \<Rightarrow> bool" where
  "busy (M_schedule i) = True"
| "busy (M_get i) = True"
| "busy M_schedule_boom = True"
| "busy M_get_boom = True"
| "busy _ = False"

fun main_result :: "spin_main \<Rightarrow> nat" where
  "main_result (M_stop w r) = r"
| "main_result (M_destroy k r) = r"
| "main_result (M_join w r) = r"
| "main_result (M_end r) = r"
| "main_result _ = 0"

definition spin_worker_job :: "spin_worker \<Rightarrow> nat multiset" where
  "spin_worker_job p = (case p of X_run j \<Rightarrow> {#j#} | _ \<Rightarrow> {#})"

definition spin_jobs :: "nat \<Rightarrow> spin_pool \<Rightarrow> nat multiset" where
  "spin_jobs S s = (\<Sum>k<S. mset (queues s k)) + (\<Sum>w<S. spin_worker_job (workers s w)) + mset (map fst (fulfilled s))"

definition spin_inv :: "nat \<Rightarrow> nat \<Rightarrow> spin_pool \<Rightarrow> bool" where
  "spin_inv S n s \<longleftrightarrow>
     spin_jobs S s = mset [0..<scheduled n (main_pc s)] \<and> next_q s < S \<and>
     (\<forall>j r. (j, r) \<in> set (fulfilled s) \<longrightarrow> r = job_outcome n j) \<and>
     (\<forall>w<S. \<forall>i. workers s w = X_steal i \<longrightarrow> i \<le> S) \<and>
     main_result (main_pc s) = 0 \<and> (\<forall>i. main_pc s = M_schedule i \<longrightarrow> i \<le> n) \<and>
     (busy (main_pc s) \<longrightarrow> stops s = (\<lambda>_. False) \<and> (\<forall>w<S. workers s w \<noteq> X_end)) \<and>
     ((\<exists>k r. main_pc s = M_destroy k r \<or> main_pc s = M_join k r \<or> main_pc s = M_end k) \<or> alive s = (\<lambda>_. True))"

lemma spin_inv_new: "0 < S \<Longrightarrow> spin_inv S n spin_pool_new"
  by (simp add: spin_inv_def spin_pool_new_def spin_jobs_def spin_worker_job_def)

lemma spin_jobs_goto:
  assumes "w < S" "spin_worker_job (workers s w) = {#}"
  shows "spin_jobs S (spin_goto w p s) = spin_jobs S s + spin_worker_job p"
  using sum_fun_upd [OF assms(1), of spin_worker_job "workers s" p] assms(2) by (simp add: spin_jobs_def spin_goto_def ac_simps)

lemma spin_jobs_queue:
  assumes "k < S"
  shows "spin_jobs S (s\<lparr>queues := (queues s)(k := js)\<rparr>) + mset (queues s k) = spin_jobs S s + mset js"
  using sum_fun_upd [OF assms, of mset "queues s" js] by (simp add: spin_jobs_def ac_simps)

text \<open>A worker that takes a job, or finds a queue empty and goes on to \<open>p\<close>.\<close>

lemma spin_take:
  assumes "k < S" "w < S" "spin_worker_job (workers s w) = {#}" "spin_worker_job p = {#}" "spin_dequeue k s = Some (s', task)"
  shows "spin_jobs S (spin_goto w (case task of Some j \<Rightarrow> X_run j | None \<Rightarrow> p) s') = spin_jobs S s"
    "workers s' = workers s" "next_q s' = next_q s" "fulfilled s' = fulfilled s" "main_pc s' = main_pc s" "stops s' = stops s" "alive s' = alive s"
proof -
  show same: "workers s' = workers s" "next_q s' = next_q s" "fulfilled s' = fulfilled s" "main_pc s' = main_pc s" "stops s' = stops s" "alive s' = alive s"
    using assms(5) by (auto simp: spin_dequeue_def split: if_splits list.splits)
  have g: "spin_jobs S (spin_goto w q s') = spin_jobs S s' + spin_worker_job q" for q by (rule spin_jobs_goto) (simp_all add: assms(2,3) same)
  show "spin_jobs S (spin_goto w (case task of Some j \<Rightarrow> X_run j | None \<Rightarrow> p) s') = spin_jobs S s"
  proof (cases "queues s k")
    case Nil
    then show ?thesis using assms(4,5) g by (auto simp: spin_dequeue_def split: if_splits)
  next
    case (Cons j js)
    then have "s' = s\<lparr>queues := (queues s)(k := js)\<rparr>" "task = Some j" using assms(5) by (auto simp: spin_dequeue_def split: if_splits)
    then show ?thesis using spin_jobs_queue [OF assms(1), of s js] Cons g by (simp add: spin_worker_job_def)
  qed
qed

lemma spin_inv_worker:
  assumes inv: "spin_inv S n s" and w: "w < S" and st: "spin_handler S (job_outcome n) w s = Some s'"
  shows "spin_inv S n s'"
proof (cases "workers s w")
  case X_loop
  then have s': "s' = spin_goto w (if stops s w then X_end else X_own) s" using st by (simp add: spin_handler_def)
  have "spin_jobs S s' = spin_jobs S s" using spin_jobs_goto [OF w, of s] X_loop by (simp add: s' spin_worker_job_def)
  then show ?thesis using inv by (auto simp: s' spin_inv_def spin_goto_def split: if_splits)
next
  case X_own
  then obtain s1 task where d: "spin_dequeue w s = Some (s1, task)" and s': "s' = spin_goto w (case task of Some j \<Rightarrow> X_run j | None \<Rightarrow> X_steal 0) s1"
    using st by (auto simp: spin_handler_def bind_eq_Some_conv)
  note t = spin_take [OF w w _ _ d, of "X_steal 0"]
  show ?thesis using inv X_own t by (auto simp: s' spin_inv_def spin_worker_job_def spin_goto_def split: if_splits option.splits)
next
  case (X_steal i)
  then have i: "i \<le> S" using inv w by (simp add: spin_inv_def)
  show ?thesis
  proof (cases "i = S")
    case True
    then have s': "s' = spin_goto w X_loop s" using st X_steal by (simp add: spin_handler_def)
    have "spin_jobs S s' = spin_jobs S s" using spin_jobs_goto [OF w, of s] X_steal by (simp add: s' spin_worker_job_def)
    then show ?thesis using inv by (auto simp: s' spin_inv_def spin_goto_def split: if_splits)
  next
    case False
    then obtain s1 task where d: "spin_dequeue i s = Some (s1, task)" and s': "s' = spin_goto w (case task of Some j \<Rightarrow> X_run j | None \<Rightarrow> X_steal (i + 1)) s1"
      using st X_steal by (auto simp: spin_handler_def bind_eq_Some_conv)
    note t = spin_take [OF _ w _ _ d, of "X_steal (i + 1)"]
    show ?thesis using inv X_steal t False i by (auto simp: s' spin_inv_def spin_worker_job_def spin_goto_def split: if_splits option.splits)
  qed
next
  case (X_run j)
  then have s': "s' = spin_goto w X_loop (s\<lparr>fulfilled := fulfilled s @ [(j, job_outcome n j)]\<rparr>)" using st by (simp add: spin_handler_def)
  have "spin_jobs S s' = spin_jobs S s"
    using sum_fun_upd [OF w, of spin_worker_job "workers s" X_loop] X_run by (simp add: s' spin_jobs_def spin_goto_def spin_worker_job_def)
  then show ?thesis using inv by (auto simp: s' spin_inv_def spin_goto_def split: if_splits)
next
  case X_end
  then show ?thesis using inv st by (simp add: spin_handler_def)
qed

lemma spin_inv_schedule:
  assumes inv: "spin_inv S n s" and st: "spin_schedule_job S j s = Some s'" and j: "j = scheduled n (main_pc s)" "busy (main_pc s)"
    and pc: "scheduled n pc = Suc j" "busy pc" "\<And>i. pc = M_schedule i \<Longrightarrow> i \<le> n"
  shows "spin_inv S n (s'\<lparr>main_pc := pc\<rparr>)"
proof -
  have k: "next_q s < S" using inv by (simp add: spin_inv_def)
  have s': "s' = s\<lparr>queues := (queues s)(next_q s := queues s (next_q s) @ [j]), next_q := (next_q s + 1) mod S\<rparr>"
    using st by (auto simp: spin_schedule_job_def spin_enqueue_def bind_eq_Some_conv split: if_splits)
  have "spin_jobs S (s'\<lparr>main_pc := pc\<rparr>) = spin_jobs S s + {#j#}"
    using spin_jobs_queue [OF k, of s "queues s (next_q s) @ [j]"] by (simp add: s' spin_jobs_def)
  moreover have "main_result pc = 0" "\<And>k r. pc \<noteq> M_destroy k r \<and> pc \<noteq> M_join k r \<and> pc \<noteq> M_end k" using pc(2) by (cases pc; simp)+
  moreover have "main_pc s \<noteq> M_destroy k r \<and> main_pc s \<noteq> M_join k r \<and> main_pc s \<noteq> M_end k" for k r using j(2) by (cases "main_pc s") simp_all
  ultimately show ?thesis using inv j pc k by (simp add: spin_inv_def s')
qed

lemma spin_inv_main:
  assumes inv: "spin_inv S n s" and n: "n < 2 ^ 64" and st: "spin_main_step S n s = Some (Some s')"
  shows "spin_inv S n s'"
proof -
  have res: "r = job_outcome n j" if "map_of (fulfilled s) j = Some r" for j r
    using inv map_of_SomeD [OF that] by (auto simp: spin_inv_def)
  show ?thesis
  proof (cases "main_pc s")
    case (M_schedule i)
    then have i: "i \<le> n" using inv by (simp add: spin_inv_def)
    show ?thesis
    proof (cases "i < n")
      case True
      then obtain s1 where s1: "spin_schedule_job S i s = Some s1" "s' = s1\<lparr>main_pc := M_schedule (i + 1)\<rparr>"
        using st M_schedule by (auto simp: spin_main_step_def bind_eq_Some_conv)
      show ?thesis unfolding s1(2) by (rule spin_inv_schedule [OF inv s1(1)]) (use M_schedule True in simp_all)
    next
      case False
      then show ?thesis using inv st M_schedule i by (auto simp: spin_main_step_def spin_inv_def spin_jobs_def)
    qed
  next
    case (M_get i)
    then show ?thesis using inv st res [of i]
      by (auto simp: spin_main_step_def spin_inv_def spin_jobs_def job_outcome_def twice_def split: if_splits option.splits outcome.splits)
  next
    case M_schedule_boom
    then obtain s1 where s1: "spin_schedule_job S n s = Some s1" "s' = s1\<lparr>main_pc := M_get_boom\<rparr>"
      using st by (auto simp: spin_main_step_def bind_eq_Some_conv)
    show ?thesis unfolding s1(2) by (rule spin_inv_schedule [OF inv s1(1)]) (use M_schedule_boom in simp_all)
  next
    case M_get_boom
    then show ?thesis using inv st res [of n]
      by (auto simp: spin_main_step_def spin_inv_def spin_jobs_def job_outcome_def simp del: mset_upt split: if_splits option.splits outcome.splits)
  qed (use inv st in \<open>auto simp: spin_main_step_def spin_inv_def spin_jobs_def simp del: mset_upt upt_Suc split: if_splits nat.splits\<close>)
qed

lemma spin_reach_inv:
  assumes "(spin_step S n)\<^sup>*\<^sup>* spin_pool_new s" "0 < S" "n < 2 ^ 64"
  shows "spin_inv S n s"
  using assms(1)
proof induction
  case base
  then show ?case by (rule spin_inv_new [OF assms(2)])
next
  case (step s s')
  from step.hyps(2) show ?case by cases (use step.IH spin_inv_worker spin_inv_main [OF _ assms(3)] in blast)+
qed

section \<open>The turn of a worker\<close>

text \<open>A worker that runs alone for a while fulfils a promise.\<close>

definition fulfils :: "nat \<Rightarrow> nat \<Rightarrow> nat \<Rightarrow> spin_pool \<Rightarrow> bool" where
  "fulfils S n w s \<longleftrightarrow> (\<exists>s'. (\<lambda>s s'. spin_handler S (job_outcome n) w s = Some s')\<^sup>*\<^sup>* s s' \<and>
     length (fulfilled s') = Suc (length (fulfilled s)) \<and> main_pc s' = main_pc s)"

lemma fulfils_step:
  assumes "fulfils S n w s1" "spin_handler S (job_outcome n) w s = Some s1" "fulfilled s1 = fulfilled s" "main_pc s1 = main_pc s"
  shows "fulfils S n w s"
  using assms unfolding fulfils_def by (metis (mono_tags, lifting) converse_rtranclp_into_rtranclp)

lemma fulfils_run: "workers s w = X_run j \<Longrightarrow> fulfils S n w s"
  unfolding fulfils_def
  by (rule exI [of _ "spin_goto w X_loop (s\<lparr>fulfilled := fulfilled s @ [(j, job_outcome n j)]\<rparr>)"])
    (auto simp: spin_handler_def spin_goto_def intro!: r_into_rtranclp)

lemma fulfils_steal:
  assumes "workers s w = X_steal i" "alive s = (\<lambda>_. True)" "i \<le> k" "k < S" "queues s k \<noteq> []"
  shows "fulfils S n w s"
  using assms
proof (induction "k - i" arbitrary: i s)
  case 0
  then have "k = i" by simp
  then obtain j js where "queues s i = j # js" using "0.prems"(5) by (cases "queues s i") auto
  then show ?case using "0.prems" \<open>k = i\<close>
    by (intro fulfils_step [OF fulfils_run [of "spin_goto w (X_run j) (s\<lparr>queues := (queues s)(i := js)\<rparr>)" w j]])
      (simp_all add: spin_handler_def spin_defs)
next
  case (Suc d)
  show ?case
  proof (cases "queues s i")
    case Nil
    have "fulfils S n w (spin_goto w (X_steal (i + 1)) s)"
      by (rule Suc.hyps(1) [of "i + 1"]) (use Suc.hyps(2) Suc.prems in \<open>simp_all add: spin_goto_def\<close>)
    moreover have "spin_handler S (job_outcome n) w s = Some (spin_goto w (X_steal (i + 1)) s)"
      using Nil Suc.prems Suc.hyps(2) by (simp add: spin_handler_def spin_defs)
    ultimately show ?thesis by (rule fulfils_step) (simp_all add: spin_goto_def)
  next
    case (Cons j js)
    then show ?thesis using Suc.prems Suc.hyps(2)
      by (intro fulfils_step [OF fulfils_run [of "spin_goto w (X_run j) (s\<lparr>queues := (queues s)(i := js)\<rparr>)" w j]])
        (simp_all add: spin_handler_def spin_defs)
  qed
qed

lemma fulfils_own:
  assumes "workers s w = X_own" "alive s = (\<lambda>_. True)" "k < S" "queues s k \<noteq> []"
  shows "fulfils S n w s"
proof (cases "queues s w")
  case Nil
  have "fulfils S n w (spin_goto w (X_steal 0) s)" by (rule fulfils_steal [of _ _ 0 k]) (use assms in \<open>simp_all add: spin_goto_def\<close>)
  moreover have "spin_handler S (job_outcome n) w s = Some (spin_goto w (X_steal 0) s)" using Nil assms by (simp add: spin_handler_def spin_defs)
  ultimately show ?thesis by (rule fulfils_step) (simp_all add: spin_goto_def)
next
  case (Cons j js)
  then show ?thesis using assms
    by (intro fulfils_step [OF fulfils_run [of "spin_goto w (X_run j) (s\<lparr>queues := (queues s)(w := js)\<rparr>)" w j]])
      (simp_all add: spin_handler_def spin_defs)
qed

lemma fulfils_loop:
  assumes "workers s w = X_loop" "alive s = (\<lambda>_. True)" "\<not> stops s w" "k < S" "queues s k \<noteq> []"
  shows "fulfils S n w s"
proof -
  have "fulfils S n w (spin_goto w X_own s)" by (rule fulfils_own [of _ _ k]) (use assms in \<open>simp_all add: spin_goto_def\<close>)
  moreover have "spin_handler S (job_outcome n) w s = Some (spin_goto w X_own s)" using assms by (simp add: spin_handler_def)
  ultimately show ?thesis by (rule fulfils_step) (simp_all add: spin_goto_def)
qed

lemma fulfils_steal_past:
  assumes "workers s w = X_steal i" "alive s = (\<lambda>_. True)" "\<not> stops s w" "i \<le> S" "k < S" "queues s k \<noteq> []"
  shows "fulfils S n w s"
  using assms
proof (induction "S - i" arbitrary: i s)
  case 0
  have "fulfils S n w (spin_goto w X_loop s)" by (rule fulfils_loop [of _ _ k]) (use 0 in \<open>simp_all add: spin_goto_def\<close>)
  moreover have "spin_handler S (job_outcome n) w s = Some (spin_goto w X_loop s)" using 0 by (simp add: spin_handler_def)
  ultimately show ?case by (rule fulfils_step) (simp_all add: spin_goto_def)
next
  case (Suc d)
  show ?case
  proof (cases "queues s i = []")
    case True
    have "fulfils S n w (spin_goto w (X_steal (i + 1)) s)"
      by (rule Suc.hyps(1) [of "i + 1"]) (use Suc.hyps(2) Suc.prems in \<open>simp_all add: spin_goto_def\<close>)
    moreover have "spin_handler S (job_outcome n) w s = Some (spin_goto w (X_steal (i + 1)) s)"
      using True Suc.prems Suc.hyps(2) by (simp add: spin_handler_def spin_defs)
    ultimately show ?thesis by (rule fulfils_step) (simp_all add: spin_goto_def)
  next
    case False
    then show ?thesis using Suc.prems Suc.hyps(2) by (intro fulfils_steal [of s w i i S]) simp_all
  qed
qed

lemma fulfils_busy:
  assumes inv: "spin_inv S n s" and b: "busy (main_pc s)" and w: "w < S" and k: "k < S" "queues s k \<noteq> []"
  shows "fulfils S n w s"
proof -
  have a: "alive s = (\<lambda>_. True)" and st: "\<not> stops s w" and w': "workers s w \<noteq> X_end" "\<And>i. workers s w = X_steal i \<Longrightarrow> i \<le> S"
    using inv b w by (auto simp: spin_inv_def)
  show ?thesis
  proof (cases "workers s w")
    case X_loop
    then show ?thesis by (rule fulfils_loop [OF _ a st k])
  next
    case X_own
    then show ?thesis by (rule fulfils_own [OF _ a k])
  next
    case (X_steal i)
    then show ?thesis by (rule fulfils_steal_past [OF _ a st w'(2) k]) (rule X_steal)
  next
    case (X_run j)
    then show ?thesis by (rule fulfils_run)
  next
    case X_end
    then show ?thesis using w'(1) by simp
  qed
qed

lemma turns_steps: "w < S \<Longrightarrow> (\<lambda>s s'. spin_handler S (job_outcome n) w s = Some s')\<^sup>*\<^sup>* s s' \<Longrightarrow> (spin_step S n)\<^sup>*\<^sup>* s s'"
  by (erule rtranclp_mono [THEN predicate2D, rotated]) (auto intro: spin_step.worker)

section \<open>The program runs to its end\<close>

lemma unfulfilled_somewhere:
  assumes inv: "spin_inv S n s" and j: "j < scheduled n (main_pc s)" "map_of (fulfilled s) j = None"
  shows "(\<exists>k<S. queues s k \<noteq> []) \<or> (\<exists>w<S. \<exists>j. workers s w = X_run j)"
proof (rule ccontr)
  assume "\<not> ?thesis"
  then have "\<forall>k<S. queues s k = []" "\<forall>w<S. spin_worker_job (workers s w) = {#}" by (auto simp: spin_worker_job_def split: spin_worker.splits)
  then have "mset (map fst (fulfilled s)) = mset [0..<scheduled n (main_pc s)]" using inv by (simp add: spin_inv_def spin_jobs_def del: mset_upt)
  then have "set (map fst (fulfilled s)) = {..<scheduled n (main_pc s)}" by (metis mset_eq_setD lessThan_atLeast0 set_upt)
  then have "j \<in> fst ` set (fulfilled s)" using j(1) by auto
  then show False using j(2) by (simp add: map_of_eq_None_iff)
qed

lemma one_more_fulfilled:
  assumes inv: "spin_inv S n s" and b: "busy (main_pc s)" and S: "0 < S" and j: "j < scheduled n (main_pc s)" "map_of (fulfilled s) j = None"
  shows "\<exists>s'. (spin_step S n)\<^sup>*\<^sup>* s s' \<and> length (fulfilled s') = Suc (length (fulfilled s)) \<and> main_pc s' = main_pc s"
proof -
  have "\<exists>w<S. fulfils S n w s" using unfulfilled_somewhere [OF inv j] fulfils_busy [OF inv b S] fulfils_run S by blast
  then show ?thesis unfolding fulfils_def using turns_steps by blast
qed

lemma fulfilled_count: "spin_inv S n s \<Longrightarrow> length (fulfilled s) \<le> scheduled n (main_pc s)"
proof -
  assume "spin_inv S n s"
  then have "size (spin_jobs S s) = scheduled n (main_pc s)" by (simp add: spin_inv_def)
  then show ?thesis by (simp add: spin_jobs_def)
qed

lemma spin_steps_inv: "(spin_step S n)\<^sup>*\<^sup>* s s' \<Longrightarrow> spin_inv S n s \<Longrightarrow> n < 2 ^ 64 \<Longrightarrow> spin_inv S n s'"
proof (induction rule: rtranclp_induct)
  case (step s' s'')
  from step.hyps(2) show ?case by cases (use step.IH step.prems spin_inv_worker spin_inv_main in blast)+
qed

lemma get_returns:
  assumes inv: "spin_inv S n s" and b: "busy (main_pc s)" and S: "0 < S" and n: "n < 2 ^ 64" and j: "j < scheduled n (main_pc s)"
  shows "\<exists>s'. (spin_step S n)\<^sup>*\<^sup>* s s' \<and> map_of (fulfilled s') j = Some (job_outcome n j) \<and> main_pc s' = main_pc s"
  using inv b j
proof (induction "scheduled n (main_pc s) - length (fulfilled s)" arbitrary: s rule: less_induct)
  case less
  show ?case
  proof (cases "map_of (fulfilled s) j")
    case None
    obtain s1 where s1: "(spin_step S n)\<^sup>*\<^sup>* s s1" "length (fulfilled s1) = Suc (length (fulfilled s))" "main_pc s1 = main_pc s"
      using one_more_fulfilled [OF less.prems(1,2) S less.prems(3) None] by blast
    have inv1: "spin_inv S n s1" by (rule spin_steps_inv [OF s1(1) less.prems(1) n])
    then have "scheduled n (main_pc s1) - length (fulfilled s1) < scheduled n (main_pc s) - length (fulfilled s)"
      using fulfilled_count [OF inv1] s1(2,3) by simp
    then obtain s2 where "(spin_step S n)\<^sup>*\<^sup>* s1 s2" "map_of (fulfilled s2) j = Some (job_outcome n j)" "main_pc s2 = main_pc s1"
      using less.hyps [OF _ inv1] less.prems(2,3) s1(3) by auto
    then show ?thesis using s1 by (metis rtranclp_trans)
  next
    case (Some r)
    then have "r = job_outcome n j" using less.prems(1) map_of_SomeD [OF Some] by (simp add: spin_inv_def)
    then show ?thesis using Some by blast
  qed
qed

text \<open>The steps of \<open>main\<close> that are left before the destructor.\<close>

fun main_rank :: "nat \<Rightarrow> spin_main \<Rightarrow> nat" where
  "main_rank n (M_schedule i) = (n - i) + n + 4"
| "main_rank n (M_get i) = (n - i) + 3"
| "main_rank n M_schedule_boom = 2"
| "main_rank n _ = 1"

lemma main_advances:
  assumes inv: "spin_inv S n s" and b: "busy (main_pc s)" and S: "0 < S" and n: "n < 2 ^ 64" and pc: "main_pc s \<noteq> M_get_boom"
  shows "\<exists>s'. (spin_step S n)\<^sup>*\<^sup>* s s' \<and> busy (main_pc s') \<and> main_rank n (main_pc s') < main_rank n (main_pc s)"
proof -
  have a: "alive s = (\<lambda>_. True)" using inv b by (auto simp: spin_inv_def)
  have step: ?thesis if "spin_main_step S n s = Some (Some s')" "busy (main_pc s')" "main_rank n (main_pc s') < main_rank n (main_pc s)" for s'
    using that spin_step.main [of S n s s'] by blast
  show ?thesis
  proof (cases "main_pc s")
    case (M_schedule i)
    then have "i \<le> n" using inv by (simp add: spin_inv_def)
    show ?thesis
    proof (cases "i < n")
      case True
      show ?thesis
        by (rule step [of "s\<lparr>queues := (queues s)(next_q s := queues s (next_q s) @ [i]), next_q := (next_q s + 1) mod S, main_pc := M_schedule (i + 1)\<rparr>"])
          (use M_schedule a True in \<open>simp_all add: spin_main_step_def spin_defs\<close>)
    next
      case False
      show ?thesis by (rule step [of "s\<lparr>main_pc := M_get 0\<rparr>"]) (use M_schedule False \<open>i \<le> n\<close> in \<open>simp_all add: spin_main_step_def\<close>)
    qed
  next
    case (M_get i)
    show ?thesis
    proof (cases "i < n")
      case True
      then obtain s1 where s1: "(spin_step S n)\<^sup>*\<^sup>* s s1" "map_of (fulfilled s1) i = Some (job_outcome n i)" "main_pc s1 = M_get i"
        using get_returns [OF inv b S n, of i] M_get by auto
      then have "spin_step S n s1 (s1\<lparr>main_pc := M_get (i + 1)\<rparr>)" using True
        by (intro spin_step.main) (simp add: spin_main_step_def job_outcome_def twice_def)
      then show ?thesis using s1(1) M_get True by (intro exI [of _ "s1\<lparr>main_pc := M_get (i + 1)\<rparr>"]) auto
    next
      case False
      show ?thesis by (rule step [of "s\<lparr>main_pc := M_schedule_boom\<rparr>"]) (use M_get False in \<open>simp_all add: spin_main_step_def\<close>)
    qed
  next
    case M_schedule_boom
    show ?thesis
      by (rule step [of "s\<lparr>queues := (queues s)(next_q s := queues s (next_q s) @ [n]), next_q := (next_q s + 1) mod S, main_pc := M_get_boom\<rparr>"])
        (use M_schedule_boom a in \<open>simp_all add: spin_main_step_def spin_defs\<close>)
  qed (use pc b in simp_all)
qed

lemma main_reaches_boom:
  assumes "spin_inv S n s" "busy (main_pc s)" "0 < S" "n < 2 ^ 64"
  shows "\<exists>s'. (spin_step S n)\<^sup>*\<^sup>* s s' \<and> main_pc s' = M_get_boom \<and> map_of (fulfilled s') n = Some (job_outcome n n)"
  using assms(1,2)
proof (induction "main_rank n (main_pc s)" arbitrary: s rule: less_induct)
  case less
  show ?case
  proof (cases "main_pc s = M_get_boom")
    case True
    then show ?thesis using get_returns [OF less.prems assms(3,4), of n] by auto
  next
    case False
    then obtain s1 where s1: "(spin_step S n)\<^sup>*\<^sup>* s s1" "busy (main_pc s1)" "main_rank n (main_pc s1) < main_rank n (main_pc s)"
      using main_advances [OF less.prems assms(3,4)] by blast
    then show ?thesis using less.hyps [OF s1(3) spin_steps_inv [OF s1(1) less.prems(1) assms(4)] s1(2)] by (meson rtranclp_trans)
  qed
qed

section \<open>The destructor\<close>

lemma worker_reaches_own:
  assumes "workers s w = X_steal i" "alive s = (\<lambda>_. True)" "\<not> stops s w" "i \<le> S"
  shows "\<exists>s'. (\<lambda>s s'. spin_handler S out w s = Some s')\<^sup>*\<^sup>* s s' \<and> (workers s' w = X_loop \<or> (\<exists>j. workers s' w = X_run j)) \<and>
    fulfilled s' = fulfilled s \<and> main_pc s' = main_pc s \<and> stops s' = stops s"
  using assms
proof (induction "S - i" arbitrary: i s)
  case 0
  then show ?case by (intro exI [of _ "spin_goto w X_loop s"]) (auto simp: spin_handler_def spin_goto_def intro!: r_into_rtranclp)
next
  case (Suc d)
  show ?case
  proof (cases "queues s i")
    case Nil
    let ?s = "spin_goto w (X_steal (i + 1)) s"
    have "\<exists>s'. (\<lambda>s s'. spin_handler S out w s = Some s')\<^sup>*\<^sup>* ?s s' \<and> (workers s' w = X_loop \<or> (\<exists>j. workers s' w = X_run j)) \<and>
      fulfilled s' = fulfilled ?s \<and> main_pc s' = main_pc ?s \<and> stops s' = stops ?s"
      by (rule Suc.hyps(1) [of "i + 1"]) (use Suc.hyps(2) Suc.prems in \<open>simp_all add: spin_goto_def\<close>)
    moreover have "spin_handler S out w s = Some ?s" using Nil Suc.prems Suc.hyps(2) by (simp add: spin_handler_def spin_defs)
    ultimately show ?thesis by (auto simp: spin_goto_def intro: converse_rtranclp_into_rtranclp)
  next
    case (Cons j js)
    then show ?thesis using Suc.prems Suc.hyps(2)
      by (intro exI [of _ "spin_goto w (X_run j) (s\<lparr>queues := (queues s)(i := js)\<rparr>)"])
        (auto simp: spin_handler_def spin_defs intro!: r_into_rtranclp)
  qed
qed

lemma stops_all:
  assumes "main_pc s = M_stop w r" "w \<le> S"
  shows "\<exists>s'. (spin_step S n)\<^sup>*\<^sup>* s s' \<and> main_pc s' = M_destroy S r \<and> workers s' = workers s"
  using assms
proof (induction "S - w" arbitrary: w s)
  case 0
  then have "spin_step S n s (s\<lparr>main_pc := M_destroy S r\<rparr>)" by (intro spin_step.main) (simp add: spin_main_step_def)
  then show ?case by (intro exI [of _ "s\<lparr>main_pc := M_destroy S r\<rparr>"]) auto
next
  case (Suc d)
  let ?s = "s\<lparr>stops := (stops s)(w := True), main_pc := M_stop (w + 1) r\<rparr>"
  have "spin_step S n s ?s" using Suc by (intro spin_step.main) (simp add: spin_main_step_def)
  moreover have "\<exists>s'. (spin_step S n)\<^sup>*\<^sup>* ?s s' \<and> main_pc s' = M_destroy S r \<and> workers s' = workers ?s"
    by (rule Suc.hyps(1) [of "w + 1"]) (use Suc.hyps(2) Suc.prems in simp_all)
  ultimately show ?case by (auto intro: converse_rtranclp_into_rtranclp)
qed

lemma destroys_all:
  assumes "main_pc s = M_destroy k r"
  shows "\<exists>s'. (spin_step S n)\<^sup>*\<^sup>* s s' \<and> (\<forall>j<k. \<not> alive s' j) \<and> workers s' = workers s"
  using assms
proof (induction k arbitrary: s)
  case (Suc k)
  let ?s = "s\<lparr>alive := (alive s)(k := False), main_pc := M_destroy k r\<rparr>"
  have st: "spin_step S n s ?s" using Suc.prems by (intro spin_step.main) (simp add: spin_main_step_def)
  have dead: "\<not> alive s' k" if "(spin_step S n)\<^sup>*\<^sup>* ?s s'" for s'
    using that by induction (auto elim!: spin_step.cases
      simp: spin_handler_def spin_main_step_def spin_defs bind_eq_Some_conv split: spin_worker.splits spin_main.splits if_splits list.splits option.splits outcome.splits nat.splits)
  obtain s' where "(spin_step S n)\<^sup>*\<^sup>* ?s s'" "\<forall>j<k. \<not> alive s' j" "workers s' = workers s" using Suc.IH [of ?s] by auto
  then show ?case using st dead less_Suc_eq by (metis converse_rtranclp_into_rtranclp)
qed auto

lemma fulfilled_result:
  assumes "spin_inv S n s" "(j, r) \<in> set (fulfilled s)"
  shows "map_of (fulfilled s) j = Some (job_outcome n j)"
proof -
  obtain r' where r': "map_of (fulfilled s) j = Some r'" using assms(2) weak_map_of_SomeI by fast
  then show ?thesis using assms(1) map_of_SomeD [OF r'] by (simp add: spin_inv_def)
qed

lemma busy_reaches_own:
  assumes inv: "spin_inv S n s" and b: "busy (main_pc s)" and w: "w < S"
  shows "\<exists>s'. (\<lambda>s s'. spin_handler S (job_outcome n) w s = Some s')\<^sup>*\<^sup>* s s' \<and> workers s' w = X_own \<and> main_pc s' = main_pc s \<and>
    set (fulfilled s) \<subseteq> set (fulfilled s')"
proof -
  let ?to = "\<lambda>s s'. (\<lambda>s s'. spin_handler S (job_outcome n) w s = Some s')\<^sup>*\<^sup>* s s' \<and> main_pc s' = main_pc s \<and> set (fulfilled s) \<subseteq> set (fulfilled s')"
  have a: "alive s = (\<lambda>_. True)" and st: "\<not> stops s w" and w': "workers s w \<noteq> X_end" "\<And>i. workers s w = X_steal i \<Longrightarrow> i \<le> S"
    using inv b w by (auto simp: spin_inv_def)
  have loop: "\<exists>s'. ?to s s' \<and> workers s' w = X_own" if "workers s w = X_loop" "\<not> stops s w" for s
    by (rule exI [of _ "spin_goto w X_own s"]) (use that in \<open>auto simp: spin_handler_def spin_goto_def intro!: r_into_rtranclp\<close>)
  have run: "\<exists>s'. ?to s s' \<and> workers s' w = X_own" if r: "workers s w = X_run j" "\<not> stops s w" for s j
  proof -
    let ?s = "spin_goto w X_loop (s\<lparr>fulfilled := fulfilled s @ [(j, job_outcome n j)]\<rparr>)"
    have st: "spin_handler S (job_outcome n) w s = Some ?s" using r by (simp add: spin_handler_def)
    obtain s' where s': "?to ?s s'" "workers s' w = X_own" using loop [of ?s] r by (auto simp: spin_goto_def)
    then have "main_pc s' = main_pc s" "set (fulfilled s) \<subseteq> set (fulfilled s')" by (auto simp: spin_goto_def)
    moreover have "(\<lambda>s s'. spin_handler S (job_outcome n) w s = Some s')\<^sup>*\<^sup>* s s'"
      by (rule converse_rtranclp_into_rtranclp [of _ s ?s]) (use st s' in auto)
    ultimately show ?thesis using s'(2) by blast
  qed
  have "\<exists>s'. ?to s s' \<and> workers s' w = X_own"
  proof (cases "workers s w")
    case (X_steal i)
    obtain s1 where s1': "(\<lambda>s s'. spin_handler S (job_outcome n) w s = Some s')\<^sup>*\<^sup>* s s1" "workers s1 w = X_loop \<or> (\<exists>j. workers s1 w = X_run j)"
      "fulfilled s1 = fulfilled s" "main_pc s1 = main_pc s" "stops s1 = stops s"
      using worker_reaches_own [OF X_steal a st w'(2) [OF X_steal], of "job_outcome n"] by blast
    then have s1: "?to s s1" "workers s1 w = X_loop \<or> (\<exists>j. workers s1 w = X_run j)" "\<not> stops s1 w" using st by simp_all
    then obtain s2 where "?to s1 s2" "workers s2 w = X_own" using loop run by blast
    then show ?thesis using s1(1) by (intro exI [of _ s2]) (auto intro: rtranclp_trans)
  qed (use loop run st w' in auto)
  then show ?thesis by blast
qed

section \<open>Properties\<close>

text \<open>
  In every state that the program of the busy-waiting pool can reach, no promise is fulfilled twice and every fulfilled promise holds what its job returns or throws, \<open>main\<close> meets no undefined
  behaviour and its result is zero; and as long as no queue has been destroyed no worker meets undefined behaviour either.
\<close>

theorem spin_pool_safe:
  assumes "(spin_step S n)\<^sup>*\<^sup>* spin_pool_new s" "0 < S" "n < 2 ^ 64"
  shows "distinct (map fst (fulfilled s)) \<and> list_all (\<lambda>(j, r). r = job_outcome n j) (fulfilled s) \<and> spin_main_step S n s \<noteq> None \<and>
    main_result (main_pc s) = 0 \<and> (alive s = (\<lambda>_. True) \<longrightarrow> spin_handler S (job_outcome n) w s \<noteq> None)"
proof -
  have inv: "spin_inv S n s" by (rule spin_reach_inv [OF assms])
  obtain js where "mset js = (\<Sum>k<S. mset (queues s k)) + (\<Sum>w<S. spin_worker_job (workers s w))" using ex_mset by blast
  then have "mset (js @ map fst (fulfilled s)) = mset [0..<scheduled n (main_pc s)]" using inv by (simp add: spin_inv_def spin_jobs_def del: mset_upt)
  then have "distinct (js @ map fst (fulfilled s))" using mset_eq_imp_distinct_iff distinct_upt by blast
  then have "distinct (map fst (fulfilled s))" by simp
  moreover have "list_all (\<lambda>(j, r). r = job_outcome n j) (fulfilled s)" using inv by (auto simp: spin_inv_def list_all_iff)
  moreover have "spin_main_step S n s \<noteq> None"
  proof (cases "main_pc s")
    case (M_get i)
    have "r = job_outcome n i" if "map_of (fulfilled s) i = Some r" for r using inv map_of_SomeD [OF that] by (auto simp: spin_inv_def)
    then show ?thesis using M_get by (auto simp: spin_main_step_def job_outcome_def split: option.splits outcome.splits)
  qed (use inv in \<open>auto simp: spin_main_step_def spin_inv_def spin_defs split: option.splits outcome.splits nat.splits\<close>)
  moreover have "main_result (main_pc s) = 0" using inv by (simp add: spin_inv_def)
  moreover have "spin_handler S (job_outcome n) w s \<noteq> None" if "alive s = (\<lambda>_. True)"
    using that by (auto simp: spin_handler_def spin_defs split: spin_worker.splits list.splits)
  ultimately show ?thesis by blast
qed

theorem spin_pool_safe_witness: "spin_main_step 4 100 spin_pool_new \<noteq> None \<and> spin_handler 4 (job_outcome 100) 0 spin_pool_new \<noteq> None"
  using spin_pool_safe [of 4 100 spin_pool_new 0] by (simp add: spin_pool_new_def)

text \<open>
  C29: The busy waiting gets somewhere: from every state in which \<open>main\<close> has not come to the destructor of the pool, the program can get to the point where \<open>main\<close> has received the results of all
  jobs and the exception of the last.
\<close>

theorem spin_pool_futures_ready:
  assumes "(spin_step S n)\<^sup>*\<^sup>* spin_pool_new s" "0 < S" "n < 2 ^ 64" "busy (main_pc s)"
  shows "\<exists>s'. (spin_step S n)\<^sup>*\<^sup>* s s' \<and> main_pc s' = M_stop 0 0"
proof -
  obtain s1 where s1: "(spin_step S n)\<^sup>*\<^sup>* s s1" "main_pc s1 = M_get_boom" "map_of (fulfilled s1) n = Some (job_outcome n n)"
    using main_reaches_boom [OF spin_reach_inv [OF assms(1-3)] assms(4,2,3)] by blast
  have "spin_step S n s1 (s1\<lparr>main_pc := M_stop 0 0\<rparr>)" using s1 by (intro spin_step.main) (simp add: spin_main_step_def job_outcome_def)
  then show ?thesis using s1(1) by (intro exI [of _ "s1\<lparr>main_pc := M_stop 0 0\<rparr>"]) auto
qed

theorem spin_pool_futures_ready_witness: "\<exists>s'. (spin_step 4 100)\<^sup>*\<^sup>* spin_pool_new s' \<and> main_pc s' = M_stop 0 0"
  using spin_pool_futures_ready [of 4 100 spin_pool_new] by (simp add: spin_pool_new_def)

text \<open>
  C30: The program of \<open>pool_test2.cpp\<close> with its four workers and hundred jobs has a run in which a worker accesses a queue after its destruction: the destructor of the pool only
  requests the workers to stop, and the queues are destroyed before the threads are joined.
\<close>

theorem spin_pool_destructor_race: "\<exists>s w. (spin_step 4 100)\<^sup>*\<^sup>* spin_pool_new s \<and> w < 4 \<and> spin_handler 4 (job_outcome 100) w s = None"
proof -
  have init: "spin_inv 4 100 spin_pool_new" "busy (main_pc spin_pool_new)" by (simp_all add: spin_inv_new) (simp add: spin_pool_new_def)
  obtain s1 where s1: "(spin_step 4 100)\<^sup>*\<^sup>* spin_pool_new s1" "main_pc s1 = M_get_boom" "map_of (fulfilled s1) 100 = Some (job_outcome 100 100)"
    using main_reaches_boom [OF init] by auto
  have inv1: "spin_inv 4 100 s1" by (rule spin_steps_inv [OF s1(1) init(1)]) simp
  obtain s2 where s2: "(\<lambda>s s'. spin_handler 4 (job_outcome 100) 0 s = Some s')\<^sup>*\<^sup>* s1 s2" "workers s2 0 = X_own" "main_pc s2 = M_get_boom"
    "set (fulfilled s1) \<subseteq> set (fulfilled s2)" using busy_reaches_own [OF inv1, of 0] s1(2) by auto
  have r2: "(spin_step 4 100)\<^sup>*\<^sup>* spin_pool_new s2" using s1(1) turns_steps [OF _ s2(1)] by (metis rtranclp_trans zero_less_numeral)
  have "spin_inv 4 100 s2" by (rule spin_steps_inv [OF r2 init(1)]) simp
  moreover have "(100, job_outcome 100 100) \<in> set (fulfilled s2)" using map_of_SomeD [OF s1(3)] s2(4) by blast
  ultimately have "map_of (fulfilled s2) 100 = Some (job_outcome 100 100)" by (rule fulfilled_result)
  then have st: "spin_step 4 100 s2 (s2\<lparr>main_pc := M_stop 0 0\<rparr>)" using s2(3) by (intro spin_step.main) (simp add: spin_main_step_def job_outcome_def)
  obtain s3 where s3: "(spin_step 4 100)\<^sup>*\<^sup>* (s2\<lparr>main_pc := M_stop 0 0\<rparr>) s3" "main_pc s3 = M_destroy 4 0" "workers s3 = workers s2"
    using stops_all [of "s2\<lparr>main_pc := M_stop 0 0\<rparr>" 0 0 4 100] by auto
  obtain s4 where s4: "(spin_step 4 100)\<^sup>*\<^sup>* s3 s4" "\<forall>j<4. \<not> alive s4 j" "workers s4 = workers s3" using destroys_all [OF s3(2)] by blast
  have "(spin_step 4 100)\<^sup>*\<^sup>* spin_pool_new s4"
    by (rule rtranclp_trans [OF rtranclp_trans [OF rtranclp.rtrancl_into_rtrancl [OF r2 st] s3(1)] s4(1)])
  moreover have "spin_handler 4 (job_outcome 100) 0 s4 = None" using s4(2,3) s3(3) s2(2) by (simp add: spin_handler_def spin_defs)
  ultimately show ?thesis by (metis zero_less_numeral)
qed

end
