(* ===== verification/Allocator_Workload.thy ===== *)
theory Allocator_Workload
  imports Simple_Allocators
begin

text \<open>
  The program \<open>1_mem_allocator/perf/perf_binary.c\<close>, which exercises the allocator of \<open>implicit_free_list\<close>: five thousand rounds of a thousand allocations of random sizes, all of them freed, and a
  reset. The results of \<open>rand\<close> and the address \<open>mmap\<close> returns are parameters. A round returns the pointers and the results of \<open>alloc_free\<close>, which the program does not look at.
\<close>

definition MAX_ITER :: nat where
  "MAX_ITER = 1000"

definition PERF_SIZE :: nat where
  "PERF_SIZE = 1024 * 1024 * 10"

fun malloc_all :: "nat list \<Rightarrow> c_allocator \<Rightarrow> c_allocator \<times> nat list" where
  "malloc_all [] s = (s, [])"
| "malloc_all (n # ns) s = (let (s, p) = il_malloc n s; (s, ps) = malloc_all ns s in (s, p # ps))"

fun free_all :: "nat list \<Rightarrow> c_allocator \<Rightarrow> c_allocator \<times> nat list" where
  "free_all [] s = (s, [])"
| "free_all (p # ps) s = (let (s, r) = il_free p s; (s, rs) = free_all ps s in (s, r # rs))"

definition bench_fixed :: "nat \<Rightarrow> nat \<Rightarrow> c_allocator \<Rightarrow> c_allocator \<times> nat list \<times> nat list" where
  "bench_fixed n iters s = (let (s, ps) = malloc_all (replicate iters n) s; (s, rs) = free_all ps s in (s, ps, rs))"

definition rand_size :: "nat \<Rightarrow> nat" where
  "rand_size r = 16 + r mod (4096 - 16 + 1)"

definition bench_random :: "(nat \<Rightarrow> nat) \<Rightarrow> nat \<Rightarrow> c_allocator \<Rightarrow> c_allocator \<times> nat list \<times> nat list" where
  "bench_random rand iters s =
     (let (s, ps) = malloc_all (map (\<lambda>i. rand_size (rand i)) [0..<iters]) s; (s, rs) = free_all ps s in (s, ps, rs))"

fun perf_rounds :: "(nat \<Rightarrow> nat) \<Rightarrow> nat \<Rightarrow> c_allocator \<Rightarrow> c_allocator \<times> (nat list \<times> nat list) list" where
  "perf_rounds rand 0 s = (s, [])"
| "perf_rounds rand (Suc k) s =
     (let (s, ps, rs) = bench_random rand MAX_ITER s; (s, _) = il_reset s; (s, rest) = perf_rounds rand k s in (s, (ps, rs) # rest))"

text \<open>The result of \<open>main\<close> and, when the allocator could be initialised, what the rounds returned.\<close>

definition perf_main :: "nat \<Rightarrow> (nat \<Rightarrow> nat) \<Rightarrow> c_allocator \<Rightarrow> nat \<times> (nat list \<times> nat list) list" where
  "perf_main mmap_result rand s =
     (let (s, r) = il_init mmap_result PERF_SIZE s in
      if r \<noteq> 0 then (1, [])
      else let (s, rounds) = perf_rounds rand (MAX_ITER * 5) s; (s, _) = il_deinit s in (0, rounds))"

section \<open>There is room\<close>

lemma il_malloc_room:
  assumes il: "il_live s B" and n: "0 < n" "n < 2 ^ 62" and room: "last_ptr s + align_up n + 16 \<le> start_ptr s + region_size s"
    and st: "il_malloc n s = (s', p)"
  shows "p \<noteq> 0" "last_ptr s' \<le> last_ptr s + align_up n + 16"
proof -
  obtain bs where rep: "il_rep s bs" using il by (auto simp: il_live_def)
  then have l: "layout 0 (mem s) (start_ptr s) bs" "last_ptr s = start_ptr s + extent 0 bs" and lim: "start_ptr s + region_size s < 2 ^ 63"
    by (simp_all add: il_rep_def)
  have c: "add64 (last_ptr s) (align_up n + 16) = last_ptr s + (align_up n + 16)" "add64 (last_ptr s + 16) (align_up n) = last_ptr s + 16 + align_up n"
    using room lim by (simp_all add: add64_small)
  show "p \<noteq> 0" "last_ptr s' \<le> last_ptr s + align_up n + 16"
    using st room c search_layout [OF l, of "align_up n"]
    by (auto simp: il_malloc_def Let_def split: option.splits if_splits prod.splits)
qed

text \<open>What a run of allocations leaves: the pointers, with the sizes of their blocks.\<close>

lemma malloc_all_room:
  assumes "il_live s B" "finite B" "list_all (\<lambda>n. 0 < n \<and> n \<le> b) ns" "b < 2 ^ 32" "last_ptr s + length ns * (b + 31) \<le> start_ptr s + region_size s"
    and "malloc_all ns s = (s', ps)"
  shows "\<exists>L. map fst L = ps \<and> length ps = length ns \<and> list_all (\<lambda>p. p \<noteq> 0) ps \<and> distinct L \<and> set L \<inter> B = {} \<and> list_all (\<lambda>(p, k). 0 < k) L \<and>
    il_live s' (set L \<union> B) \<and> arena s' = arena s"
  using assms
proof (induction ns arbitrary: s B s' ps)
  case Nil
  then show ?case by (intro exI [of _ "[]"]) simp
next
  case (Cons n ns)
  obtain s1 p where m: "il_malloc n s = (s1, p)" by (cases "il_malloc n s")
  obtain s2 ps2 where rest: "malloc_all ns s1 = (s2, ps2)" by (cases "malloc_all ns s1")
  have s': "s' = s2" "ps = p # ps2" using Cons.prems(6) m rest by simp_all
  have n: "0 < n" "n \<le> b" "n < 2 ^ 62" using Cons.prems(3,4) by auto
  have up: "align_up n \<le> b + 15" using align_up_small [of n] n by simp
  have room: "last_ptr s + align_up n + 16 \<le> start_ptr s + region_size s" using Cons.prems(5) up by simp
  note r = il_malloc_room [OF Cons.prems(1) n(1,3) room m]
  obtain k where k: "n \<le> k" "(p, k) \<notin> B" "il_live s1 (insert (p, k) B)" and a: "arena s1 = arena s"
    using il_malloc_law [OF Cons.prems(1) n(1,3) m] r(1) by auto
  have "last_ptr s1 + length ns * (b + 31) \<le> start_ptr s1 + region_size s1" using Cons.prems(5) r(2) up a by (simp add: arena_def)
  then obtain L where L: "map fst L = ps2" "length ps2 = length ns" "list_all (\<lambda>p. p \<noteq> 0) ps2" "distinct L" "set L \<inter> insert (p, k) B = {}"
    "list_all (\<lambda>(p, k). 0 < k) L" "il_live s2 (set L \<union> insert (p, k) B)" "arena s2 = arena s1"
    using Cons.IH [OF k(3) _ _ Cons.prems(4) _ rest] Cons.prems(2,3) by auto
  then show ?case using k(1,2) n(1) r(1) a by (intro exI [of _ "(p, k) # L"]) (auto simp: s')
qed

lemma free_all_held:
  assumes "il_live s (set L)" "distinct L" "list_all (\<lambda>(p, k). 0 < k) L" "free_all (map fst L) s = (s', rs)"
  shows "rs = replicate (length L) 0 \<and> il_live s' {} \<and> arena s' = arena s"
  using assms
proof (induction L arbitrary: s s' rs)
  case (Cons b L)
  obtain p k where b: "b = (p, k)" "0 < k" using Cons.prems(3) by (cases b) auto
  obtain s1 where s1: "il_free p s = (s1, 0)" "il_live s1 (set (b # L) - {(p, k)})" "arena s1 = arena s"
    using il_free_law [OF Cons.prems(1), of p k] b by auto
  have "set (b # L) - {(p, k)} = set L" using Cons.prems(2) b(1) by auto
  then show ?case using Cons.IH [of s1] s1 Cons.prems b by (auto split: prod.splits)
qed simp

lemma bench_random_ok:
  assumes "il_live s {}" "last_ptr s + iters * 4127 \<le> start_ptr s + region_size s"
  shows "\<exists>s' ps. bench_random rand iters s = (s', ps, replicate iters 0) \<and> length ps = iters \<and> distinct ps \<and> list_all (\<lambda>p. p \<noteq> 0) ps \<and>
    il_live s' {} \<and> arena s' = arena s"
proof -
  let ?ns = "map (\<lambda>i. rand_size (rand i)) [0..<iters]"
  obtain s1 ps where m: "malloc_all ?ns s = (s1, ps)" by (cases "malloc_all ?ns s")
  have "rand_size r \<le> 4096" for r by (simp add: rand_size_def)
  then have "list_all (\<lambda>n. 0 < n \<and> n \<le> 4096) ?ns" by (simp add: list_all_iff rand_size_def)
  then obtain L where L: "map fst L = ps" "length ps = iters" "list_all (\<lambda>p. p \<noteq> 0) ps" "distinct L" "list_all (\<lambda>(p, k). 0 < k) L"
    "il_live s1 (set L)" "arena s1 = arena s"
    using malloc_all_room [OF assms(1) _ _ _ _ m, of 4096] assms(2) by auto
  obtain s2 rs where f: "free_all ps s1 = (s2, rs)" by (cases "free_all ps s1")
  have "rs = replicate iters 0" "il_live s2 {}" "arena s2 = arena s"
    using free_all_held [OF L(6,4,5)] f L by auto
  moreover have "inj_on fst (set L)"
  proof (rule inj_onI)
    fix a b assume ab: "a \<in> set L" "b \<in> set L" "fst a = fst b"
    then have "0 < snd a" "0 < snd b" using L(5) by (auto simp: list_all_iff)
    moreover have "fst a + snd a \<le> fst b \<or> fst b + snd b \<le> fst a" if "a \<noteq> b"
      using il.disjoint [OF L(6), of "fst a" "snd a" "fst b" "snd b"] ab(1,2) that by (metis prod.collapse)
    ultimately show "a = b" using ab(3) by auto
  qed
  then have "distinct ps" using L(1,4) by (auto simp: distinct_map)
  ultimately show ?thesis using m f L(2,3) by (simp add: bench_random_def)
qed

definition round_ok :: "nat list \<times> nat list \<Rightarrow> bool" where
  "round_ok r \<longleftrightarrow> (case r of (ps, rs) \<Rightarrow> length ps = MAX_ITER \<and> distinct ps \<and> list_all (\<lambda>p. p \<noteq> 0) ps \<and> rs = replicate MAX_ITER 0)"

lemma perf_rounds_ok:
  assumes "il_live s {}" "last_ptr s = start_ptr s" "MAX_ITER * 4127 \<le> region_size s"
  shows "\<exists>s' rounds. perf_rounds rand k s = (s', rounds) \<and> length rounds = k \<and> list_all round_ok rounds"
  using assms
proof (induction k arbitrary: s)
  case (Suc k)
  obtain s1 ps where r: "bench_random rand MAX_ITER s = (s1, ps, replicate MAX_ITER 0)" "length ps = MAX_ITER" "distinct ps" "list_all (\<lambda>p. p \<noteq> 0) ps"
    and s1: "il_live s1 {}" "arena s1 = arena s" using bench_random_ok [OF Suc.prems(1), of MAX_ITER rand] Suc.prems(2,3) by auto
  obtain s2 where s2: "il_reset s1 = (s2, 0)" "il_live s2 {}" "arena s2 = arena s1" using il_reset_law [OF s1(1)] by blast
  then have "last_ptr s2 = start_ptr s2" by (auto simp: il_reset_def split: if_splits)
  moreover have "region_size s2 = region_size s" using s1(2) s2(3) by (simp add: arena_def)
  ultimately obtain s' rounds where "perf_rounds rand k s2 = (s', rounds)" "length rounds = k" "list_all round_ok rounds"
    using Suc.IH [OF s2(2)] Suc.prems(3) by auto
  moreover have "round_ok (ps, replicate MAX_ITER 0)" using r(2-4) by (simp add: round_ok_def)
  ultimately show ?case using r(1) s2(1) by simp
qed simp

text \<open>
  C31: Whatever numbers \<open>rand\<close> produces, the program never runs out of memory in its region of ten megabytes: every allocation of every round returns a pointer, the pointers of a round are different,
  and every one of them is accepted by \<open>alloc_free\<close>.
\<close>

theorem perf_binary_never_full:
  assumes "start_ptr s = 0" "0 < mmap_result" "mmap_result + PERF_SIZE < 2 ^ 63"
  shows "\<exists>rounds. perf_main mmap_result rand s = (0, rounds) \<and> length rounds = 5000 \<and> list_all round_ok rounds"
proof -
  let ?s = "s\<lparr>start_ptr := mmap_result, last_ptr := mmap_result, region_size := PERF_SIZE\<rparr>"
  have i: "il_init mmap_result PERF_SIZE s = (?s, 0)" using assms by (simp add: il_init_def alloc_init_def Let_def MAP_FAILED_def)
  have "il_rep ?s []" using assms by (simp add: il_rep_def)
  then have "il_live ?s {}" by (auto simp: il_live_def intro!: exI [of _ "[]"])
  then obtain s' rounds where "perf_rounds rand (MAX_ITER * 5) ?s = (s', rounds)" "length rounds = MAX_ITER * 5" "list_all round_ok rounds"
    using perf_rounds_ok [of ?s rand "MAX_ITER * 5"] by (auto simp: MAX_ITER_def PERF_SIZE_def)
  then show ?thesis using i by (simp add: perf_main_def MAX_ITER_def split: prod.split)
qed

theorem perf_binary_never_full_witness:
  "\<exists>rounds. perf_main 4096 (\<lambda>i. i) \<lparr>start_ptr = 0, last_ptr = 0, region_size = 0, mem = (\<lambda>_. 0)\<rparr> = (0, rounds) \<and> length rounds = 5000 \<and> list_all round_ok rounds"
  by (rule perf_binary_never_full) (simp_all add: PERF_SIZE_def)

end
