(* ===== verification/Kernels.thy ===== *)
theory Kernels
  imports Prelude "HOL-Library.Monad_Syntax"
begin

text \<open>
  The routines measured by the programs of \<open>3_machine_below/1_performance_atlas\<close> and \<open>2_compiler_atlas\<close>. An \<open>int\<close> of the code is an integer in the range of 32 bits
  with a sign; an operation that leaves the range is undefined behaviour, \<open>None\<close>, and so is an access outside an array.
\<close>

section \<open>Arithmetic and arrays\<close>

definition int_range :: "int \<Rightarrow> bool" where
  "int_range x \<longleftrightarrow> - (2 ^ 31) \<le> x \<and> x < 2 ^ 31"

definition checked :: "int \<Rightarrow> int option" where
  "checked x = (if int_range x then Some x else None)"

definition rd :: "'a list \<Rightarrow> nat \<Rightarrow> 'a option" where
  "rd xs i = (if i < length xs then Some (xs ! i) else None)"

lemma rd_Some: "rd xs i = Some x \<Longrightarrow> i < length xs"
  by (simp add: rd_def split: if_splits)

section \<open>Branches and conditional moves\<close>

definition sum_branchless :: "int \<Rightarrow> int \<Rightarrow> int" where
  "sum_branchless value median = of_bool (value < median) * value"

definition sum_branchy :: "int \<Rightarrow> int \<Rightarrow> int" where
  "sum_branchy value median = (if value < median then value else 0)"

text \<open>One iteration of the benchmarks: the sum over the array goes on from the result of the iteration before.\<close>

fun scan_kernel :: "(int \<Rightarrow> int \<Rightarrow> int) \<Rightarrow> int \<Rightarrow> int list \<Rightarrow> int \<Rightarrow> int option" where
  "scan_kernel f median [] res = Some res"
| "scan_kernel f median (x # xs) res = do { res \<leftarrow> checked (res + f x median); scan_kernel f median xs res }"

fun scan_branch :: "int \<Rightarrow> int list \<Rightarrow> int \<Rightarrow> int option" where
  "scan_branch median [] res = Some res"
| "scan_branch median (x # xs) res = do { res \<leftarrow> (if median > x then checked (res + x) else Some res); scan_branch median xs res }"

section \<open>Accumulators\<close>

function one_accumulator :: "int list \<Rightarrow> nat \<Rightarrow> nat \<Rightarrow> int \<Rightarrow> int option" where
  "one_accumulator numbers sz i acc =
     (if i = sz then Some acc
      else do { x \<leftarrow> rd numbers i; acc \<leftarrow> checked (acc + x); one_accumulator numbers sz (i + 1) acc })"
  by pat_completeness auto
termination by (relation "measure (\<lambda>(numbers, sz, i, _). length numbers - i)") (auto dest: rd_Some)

function two_accumulator :: "int list \<Rightarrow> nat \<Rightarrow> nat \<Rightarrow> int \<Rightarrow> int \<Rightarrow> int option" where
  "two_accumulator numbers sz i acc1 acc2 =
     (if i = sz then checked (acc1 + acc2)
      else do {
        x \<leftarrow> rd numbers i; acc1 \<leftarrow> checked (acc1 + x);
        y \<leftarrow> rd numbers (i + 1); acc2 \<leftarrow> checked (acc2 + y);
        two_accumulator numbers sz (i + 2) acc1 acc2 })"
  by pat_completeness auto
termination by (relation "measure (\<lambda>(numbers, sz, i, _). length numbers - i)") (auto dest: rd_Some)

function four_accumulator :: "int list \<Rightarrow> nat \<Rightarrow> nat \<Rightarrow> int \<Rightarrow> int \<Rightarrow> int \<Rightarrow> int \<Rightarrow> int option" where
  "four_accumulator numbers sz i acc1 acc2 acc3 acc4 =
     (if i = sz then do { r \<leftarrow> checked (acc1 + acc2); r \<leftarrow> checked (r + acc3); checked (r + acc4) }
      else do {
        x \<leftarrow> rd numbers i; acc1 \<leftarrow> checked (acc1 + x);
        y \<leftarrow> rd numbers (i + 1); acc2 \<leftarrow> checked (acc2 + y);
        z \<leftarrow> rd numbers (i + 2); acc3 \<leftarrow> checked (acc3 + z);
        w \<leftarrow> rd numbers (i + 3); acc4 \<leftarrow> checked (acc4 + w);
        four_accumulator numbers sz (i + 4) acc1 acc2 acc3 acc4 })"
  by pat_completeness auto
termination by (relation "measure (\<lambda>(numbers, sz, i, _). length numbers - i)") (auto dest: rd_Some)

declare one_accumulator.simps [simp del] two_accumulator.simps [simp del] four_accumulator.simps [simp del]

section \<open>Strides, prefetching, vectorisation\<close>

text \<open>The two loops of \<open>sum_stride\<close>; \<open>stride\<close> is positive, which the division by it needs, and so are the counters.\<close>

fun stride_inner :: "int list \<Rightarrow> nat \<Rightarrow> nat \<Rightarrow> nat list \<Rightarrow> int \<Rightarrow> int option" where
  "stride_inner numbers stride i [] res = Some res"
| "stride_inner numbers stride i (j # js) res =
     do { x \<leftarrow> rd numbers (i + j * stride); res \<leftarrow> checked (res + x); stride_inner numbers stride i js res }"

fun stride_outer :: "int list \<Rightarrow> nat \<Rightarrow> nat \<Rightarrow> nat list \<Rightarrow> int \<Rightarrow> int option" where
  "stride_outer numbers stride n_times [] res = Some res"
| "stride_outer numbers stride n_times (i # is) res =
     do { res \<leftarrow> stride_inner numbers stride i [0..<n_times] res; stride_outer numbers stride n_times is res }"

definition sum_stride :: "int list \<Rightarrow> nat \<Rightarrow> nat \<Rightarrow> int option" where
  "sum_stride numbers sz stride = (if stride = 0 then None else stride_outer numbers stride (sz div stride) [0..<stride] 0)"

text \<open>The loop of \<open>BM_prefetch\<close> without and with prefetching; the prefetched element is looked up and not used.\<close>

fun gather :: "int list \<Rightarrow> nat list \<Rightarrow> nat list \<Rightarrow> int \<Rightarrow> int option" where
  "gather dat idx [] res = Some res"
| "gather dat idx (i # is) res = do { k \<leftarrow> rd idx i; x \<leftarrow> rd dat k; gather dat idx is (res + x) }"

fun gather_prefetch :: "int list \<Rightarrow> nat list \<Rightarrow> nat \<Rightarrow> nat list \<Rightarrow> int \<Rightarrow> int option" where
  "gather_prefetch dat idx dist [] res = Some res"
| "gather_prefetch dat idx dist (i # is) res =
     do { k' \<leftarrow> rd idx (i + dist); _ \<leftarrow> rd dat k'; k \<leftarrow> rd idx i; x \<leftarrow> rd dat k; gather_prefetch dat idx dist is (res + x) }"

definition BM_prefetch :: "bool \<Rightarrow> nat \<Rightarrow> int list \<Rightarrow> nat list \<Rightarrow> int \<Rightarrow> int option" where
  "BM_prefetch use_prefetch dist dat idx res =
     (let n = length idx in
      if use_prefetch then
        if n < dist then None
        else do { res \<leftarrow> gather_prefetch dat idx dist [0..<n - dist] res; gather dat idx [n - dist..<n] res }
      else gather dat idx [0..<n] res)"

definition always_true :: "int \<Rightarrow> bool option" where
  "always_true a = do { b \<leftarrow> checked (a + 1); Some (b > a) }"

definition divide_by_two :: "int \<Rightarrow> int option" where
  "divide_by_two x = do { y \<leftarrow> checked (x * 2); Some (sgn y * (\<bar>y\<bar> div 2)) }"

text \<open>The loops of \<open>3_autovec.cpp\<close>.\<close>

definition helper :: "int \<Rightarrow> int option" where
  "helper x = do { y \<leftarrow> checked (x * x); checked (y + 1) }"

fun sum_call :: "int list \<Rightarrow> int \<Rightarrow> int option" where
  "sum_call [] s = Some s"
| "sum_call (x # xs) s = do { y \<leftarrow> helper x; s \<leftarrow> checked (s + y); sum_call xs s }"

text \<open>\<open>add_alias\<close> on one memory: \<open>dst\<close> and \<open>src\<close> are positions, the ranges may overlap.\<close>

fun add_alias :: "int list \<Rightarrow> nat \<Rightarrow> nat \<Rightarrow> nat list \<Rightarrow> int list option" where
  "add_alias mem dst src [] = Some mem"
| "add_alias mem dst src (i # is) =
     do { x \<leftarrow> rd mem (src + i); y \<leftarrow> checked (x + 1); _ \<leftarrow> rd mem (dst + i); add_alias (mem[dst + i := y]) dst src is }"

text \<open>\<open>add_restrict\<close> has the same loop, and overlapping ranges are undefined.\<close>

definition add_restrict :: "int list \<Rightarrow> nat \<Rightarrow> nat \<Rightarrow> nat \<Rightarrow> int list option" where
  "add_restrict mem dst src n = (if n = 0 \<or> dst + n \<le> src \<or> src + n \<le> dst then add_alias mem dst src [0..<n] else None)"

text \<open>The two ways to report an error of \<open>6_exceptions.cpp\<close>; \<open>Inl\<close> is a thrown exception.\<close>

definition helper_ec :: "int \<Rightarrow> int" where
  "helper_ec fail = (if fail \<noteq> 0 then 1 else 0)"

definition helper_throw :: "int \<Rightarrow> string + unit" where
  "helper_throw fail = (if fail \<noteq> 0 then Inl ''err'' else Inr ())"

definition caller_ec :: "int \<Rightarrow> int" where
  "caller_ec fail = (let r = helper_ec fail in if r \<noteq> 0 then - 1 else 42)"

definition caller_try :: "int \<Rightarrow> int" where
  "caller_try fail = (case helper_throw fail of Inl _ \<Rightarrow> - 1 | Inr _ \<Rightarrow> 42)"

section \<open>The accumulators agree\<close>

text \<open>An element of absolute value at most \<open>b\<close> wherever the array is read.\<close>

definition small :: "int \<Rightarrow> int list \<Rightarrow> bool" where
  "small b xs \<longleftrightarrow> list_all (\<lambda>x. \<bar>x\<bar> \<le> b) xs"

lemma small_nth: "small b xs \<Longrightarrow> i < length xs \<Longrightarrow> \<bar>xs ! i\<bar> \<le> b"
  by (simp add: small_def list_all_length)

lemma checked_small: "\<bar>x\<bar> < 2 ^ 31 \<Longrightarrow> checked x = Some x"
  by (auto simp: checked_def int_range_def)

lemma checkedD: "checked x = Some y \<Longrightarrow> y = x \<and> int_range x"
  by (simp add: checked_def split: if_splits)

lemma rd_small: "small b xs \<Longrightarrow> i < length xs \<Longrightarrow> \<exists>x. rd xs i = Some x \<and> x = xs ! i \<and> \<bar>x\<bar> \<le> b"
  by (simp add: rd_def small_nth)

definition sum_from :: "int list \<Rightarrow> nat \<Rightarrow> nat \<Rightarrow> int" where
  "sum_from xs i n = sum_list (take n (drop i xs))"

lemma sum_from_Suc: "i < length xs \<Longrightarrow> sum_from xs i (Suc n) = xs ! i + sum_from xs (Suc i) n"
  by (simp add: sum_from_def Cons_nth_drop_Suc [symmetric])

lemma sum_from_0 [simp]: "sum_from xs i 0 = 0"
  by (simp add: sum_from_def)

lemma int_rounds: "int (k * Suc n) * b = int (k * n) * b + int k * b"
  by (simp add: algebra_simps)

lemma abs_add_le: "\<bar>x\<bar> \<le> b \<Longrightarrow> \<bar>a + x\<bar> \<le> \<bar>a\<bar> + (b :: int)"
  by linarith

lemma part4: "0 \<le> a \<Longrightarrow> 0 \<le> b \<Longrightarrow> 0 \<le> c \<Longrightarrow> 0 \<le> d \<Longrightarrow> 0 \<le> r \<Longrightarrow> a + b + c + d + r < m \<Longrightarrow> a < m \<and> b < m \<and> c < m \<and> d < (m :: int)"
  by linarith

lemma one_accumulator_sum:
  assumes "small b xs" "i + n \<le> length xs" "\<bar>acc\<bar> + int n * b < 2 ^ 31"
  shows "one_accumulator xs (i + n) i acc = Some (acc + sum_from xs i n)"
  using assms
proof (induction n arbitrary: i acc)
  case (Suc n)
  have x: "rd xs i = Some (xs ! i)" "\<bar>xs ! i\<bar> \<le> b" using Suc.prems(2) small_nth [OF Suc.prems(1)] by (simp_all add: rd_def)
  have lt: "\<bar>acc + xs ! i\<bar> + int n * b < 2 ^ 31" using Suc.prems(3) x(2) by (simp add: algebra_simps)
  moreover have "0 \<le> int n * b" using x(2) by simp
  ultimately have "checked (acc + xs ! i) = Some (acc + xs ! i)" by (intro checked_small) linarith
  then show ?case using Suc.IH [OF Suc.prems(1) _ lt, of "Suc i"] Suc.prems(2) x(1)
    by (subst one_accumulator.simps) (simp add: sum_from_Suc)
qed (subst one_accumulator.simps, simp)

lemma two_accumulator_sum:
  assumes "small b xs" "i + 2 * n \<le> length xs" "\<bar>acc1\<bar> + \<bar>acc2\<bar> + int (2 * n) * b < 2 ^ 31"
  shows "two_accumulator xs (i + 2 * n) i acc1 acc2 = Some (acc1 + acc2 + sum_from xs i (2 * n))"
  using assms
proof (induction n arbitrary: i acc1 acc2)
  case 0
  then show ?case by (subst two_accumulator.simps) (simp add: checked_small)
next
  case (Suc n)
  have x: "rd xs i = Some (xs ! i)" "rd xs (Suc i) = Some (xs ! Suc i)" "\<bar>xs ! i\<bar> \<le> b" "\<bar>xs ! Suc i\<bar> \<le> b"
    using Suc.prems(2) small_nth [OF Suc.prems(1)] by (simp_all add: rd_def)
  have lt: "\<bar>acc1 + xs ! i\<bar> + \<bar>acc2 + xs ! Suc i\<bar> + int (2 * n) * b < 2 ^ 31" using Suc.prems(3) x int_rounds [of 2 n b] by linarith
  moreover have "0 \<le> int (2 * n) * b" using x(3) by simp
  ultimately have "checked (acc1 + xs ! i) = Some (acc1 + xs ! i)" "checked (acc2 + xs ! Suc i) = Some (acc2 + xs ! Suc i)"
    by (intro checked_small; linarith)+
  then show ?case using Suc.IH [OF Suc.prems(1) _ lt, of "Suc (Suc i)"] Suc.prems(2) x(1,2)
    by (subst two_accumulator.simps) (simp add: sum_from_Suc)
qed

lemma four_accumulator_sum:
  assumes "small b xs" "i + 4 * n \<le> length xs" "\<bar>acc1\<bar> + \<bar>acc2\<bar> + \<bar>acc3\<bar> + \<bar>acc4\<bar> + int (4 * n) * b < 2 ^ 31"
  shows "four_accumulator xs (i + 4 * n) i acc1 acc2 acc3 acc4 = Some (acc1 + acc2 + acc3 + acc4 + sum_from xs i (4 * n))"
  using assms
proof (induction n arbitrary: i acc1 acc2 acc3 acc4)
  case 0
  then show ?case by (subst four_accumulator.simps) (simp add: checked_small)
next
  case (Suc n)
  have x: "rd xs i = Some (xs ! i)" "rd xs (i + 1) = Some (xs ! (i + 1))" "rd xs (i + 2) = Some (xs ! (i + 2))" "rd xs (i + 3) = Some (xs ! (i + 3))"
    and b: "\<bar>xs ! i\<bar> \<le> b" "\<bar>xs ! (i + 1)\<bar> \<le> b" "\<bar>xs ! (i + 2)\<bar> \<le> b" "\<bar>xs ! (i + 3)\<bar> \<le> b"
    using Suc.prems(2) small_nth [OF Suc.prems(1)] by (simp_all add: rd_def)
  have "\<bar>acc1 + xs ! i\<bar> + \<bar>acc2 + xs ! (i + 1)\<bar> + \<bar>acc3 + xs ! (i + 2)\<bar> + \<bar>acc4 + xs ! (i + 3)\<bar> + int (4 * n) * b \<le>
    (\<bar>acc1\<bar> + b) + (\<bar>acc2\<bar> + b) + (\<bar>acc3\<bar> + b) + (\<bar>acc4\<bar> + b) + int (4 * n) * b" by (intro add_mono abs_add_le b order_refl)
  also have "\<dots> = \<bar>acc1\<bar> + \<bar>acc2\<bar> + \<bar>acc3\<bar> + \<bar>acc4\<bar> + int (4 * Suc n) * b" by (simp add: algebra_simps)
  also note Suc.prems(3)
  finally have lt: "\<bar>acc1 + xs ! i\<bar> + \<bar>acc2 + xs ! (i + 1)\<bar> + \<bar>acc3 + xs ! (i + 2)\<bar> + \<bar>acc4 + xs ! (i + 3)\<bar> + int (4 * n) * b < 2 ^ 31" .
  moreover have "0 \<le> int (4 * n) * b" using b(1) by simp
  ultimately have c: "checked (acc1 + xs ! i) = Some (acc1 + xs ! i)" "checked (acc2 + xs ! (i + 1)) = Some (acc2 + xs ! (i + 1))"
    "checked (acc3 + xs ! (i + 2)) = Some (acc3 + xs ! (i + 2))" "checked (acc4 + xs ! (i + 3)) = Some (acc4 + xs ! (i + 3))"
    using part4 [OF _ _ _ _ _ lt] by (auto intro!: checked_small)
  have "sum_from xs i (4 * Suc n) = xs ! i + xs ! (i + 1) + xs ! (i + 2) + xs ! (i + 3) + sum_from xs (i + 4) (4 * n)"
    using Suc.prems(2) by (simp add: sum_from_Suc eval_nat_numeral)
  then show ?case using Suc.IH [OF Suc.prems(1) _ lt, of "i + 4"] Suc.prems(2) x c
    by (subst four_accumulator.simps) (simp add: add.assoc)
qed

lemma two_accumulator_odd: "odd (sz + i) \<Longrightarrow> two_accumulator xs sz i acc1 acc2 = None"
proof (induction xs sz i acc1 acc2 rule: two_accumulator.induct)
  case (1 xs sz i acc1 acc2)
  have "i \<noteq> sz" using "1.prems" by auto
  then show ?case using "1.IH" "1.prems"
    by (intro not_Some_eq [THEN iffD1] allI notI) (subst (asm) two_accumulator.simps, auto simp: bind_eq_Some_conv)
qed

lemma four_accumulator_rest: "sz mod 4 \<noteq> i mod 4 \<Longrightarrow> four_accumulator xs sz i acc1 acc2 acc3 acc4 = None"
proof (induction xs sz i acc1 acc2 acc3 acc4 rule: four_accumulator.induct)
  case (1 xs sz i acc1 acc2 acc3 acc4)
  have "i \<noteq> sz" using "1.prems" by auto
  then show ?case using "1.IH" "1.prems"
    by (intro not_Some_eq [THEN iffD1] allI notI) (subst (asm) four_accumulator.simps, auto simp: bind_eq_Some_conv)
qed

text \<open>
  The routines with one, two and four accumulators return the sum of the first \<open>sz\<close> elements and no intermediate sum overflows, when the elements
  are small enough; but the ones with two and four accumulators only when \<open>sz\<close> is a multiple of two or four, and otherwise they run past the end of the array.
\<close>

theorem accumulators_agree:
  assumes "small b xs" "sz \<le> length xs" "int sz * b < 2 ^ 31"
  shows "one_accumulator xs sz 0 0 = Some (sum_list (take sz xs)) \<and>
    two_accumulator xs sz 0 0 0 = (if even sz then Some (sum_list (take sz xs)) else None) \<and>
    four_accumulator xs sz 0 0 0 0 0 = (if 4 dvd sz then Some (sum_list (take sz xs)) else None)"
proof (intro conjI)
  show "one_accumulator xs sz 0 0 = Some (sum_list (take sz xs))" using one_accumulator_sum [of b xs 0 sz 0] assms by (simp add: sum_from_def)
  show "two_accumulator xs sz 0 0 0 = (if even sz then Some (sum_list (take sz xs)) else None)"
    using two_accumulator_sum [of b xs 0 "sz div 2" 0 0] two_accumulator_odd [of sz 0] assms by (auto simp: sum_from_def)
  show "four_accumulator xs sz 0 0 0 0 0 = (if 4 dvd sz then Some (sum_list (take sz xs)) else None)"
    using four_accumulator_sum [of b xs 0 "sz div 4" 0 0 0 0] four_accumulator_rest [of sz 0] assms by (auto simp: sum_from_def mod_eq_0_iff_dvd)
qed

theorem accumulators_agree_witness:
  "one_accumulator [5, - 7, 100, 3, 1] 4 0 0 = Some 101 \<and> two_accumulator [5, - 7, 100, 3, 1] 4 0 0 0 = Some 101 \<and>
   four_accumulator [5, - 7, 100, 3, 1] 4 0 0 0 0 0 = Some 101"
  using accumulators_agree [of 100 "[5, - 7, 100, 3, 1]" 4] by (simp add: small_def)

section \<open>The order of the reads\<close>

text \<open>The sum of the elements at given positions, one after the other.\<close>

fun index_sum :: "int list \<Rightarrow> nat list \<Rightarrow> int \<Rightarrow> int option" where
  "index_sum xs [] res = Some res"
| "index_sum xs (k # ks) res = do { x \<leftarrow> rd xs k; res \<leftarrow> checked (res + x); index_sum xs ks res }"

lemma index_sum_append: "index_sum xs (ks @ ls) res = do { res \<leftarrow> index_sum xs ks res; index_sum xs ls res }"
  by (induction ks arbitrary: res) (simp_all cong: Option.bind_cong)

lemma stride_inner_index: "stride_inner xs stride i js res = index_sum xs (map (\<lambda>j. i + j * stride) js) res"
  by (induction js arbitrary: res) (simp_all cong: Option.bind_cong)

lemma stride_outer_index:
  "stride_outer xs stride n is res = index_sum xs (concat (map (\<lambda>i. map (\<lambda>j. i + j * stride) [0..<n]) is)) res"
  by (induction "is" arbitrary: res) (simp_all add: stride_inner_index index_sum_append cong: Option.bind_cong)

lemma index_sum_small:
  assumes "small b xs" "list_all (\<lambda>k. k < length xs) ks" "\<bar>res\<bar> + int (length ks) * b < 2 ^ 31"
  shows "index_sum xs ks res = Some (res + sum_list (map ((!) xs) ks))"
  using assms
proof (induction ks arbitrary: res)
  case (Cons k ks)
  have x: "rd xs k = Some (xs ! k)" "\<bar>xs ! k\<bar> \<le> b" using Cons.prems(2) small_nth [OF Cons.prems(1)] by (simp_all add: rd_def)
  have lt: "\<bar>res + xs ! k\<bar> + int (length ks) * b < 2 ^ 31" using Cons.prems(3) x(2) by (simp add: algebra_simps)
  moreover have "0 \<le> int (length ks) * b" using x(2) by simp
  ultimately have "checked (res + xs ! k) = Some (res + xs ! k)" by (intro checked_small) linarith
  then show ?case using Cons.IH [OF Cons.prems(1) _ lt] Cons.prems(2) x(1) by simp
qed simp

lemma sum_concat: "sum_list (concat (map g is)) = sum_list (map (sum_list \<circ> g) is :: int list)"
  by (induction "is") simp_all

lemma sum_positions: "sum_list (concat (map (\<lambda>i. map (\<lambda>j. f (i + j * stride)) [0..<n]) [0..<stride])) = (\<Sum>k<n * stride. f k :: int)"
proof -
  have "sum_list (concat (map (\<lambda>i. map (\<lambda>j. f (i + j * stride)) [0..<n]) [0..<stride])) = (\<Sum>i\<in>{..<stride}. (\<Sum>j\<in>{..<n}. f (i + j * stride)))"
    by (simp add: sum_concat comp_def interv_sum_list_conv_sum_set_nat lessThan_atLeast0)
  also have "\<dots> = (\<Sum>j\<in>{..<n}. (\<Sum>i\<in>{..<stride}. f (i + j * stride)))" by (rule sum.swap)
  also have "\<dots> = (\<Sum>j<n. sum f {j * stride..<j * stride + stride})"
  proof (rule sum.cong [OF refl])
    fix j
    show "(\<Sum>i\<in>{..<stride}. f (i + j * stride)) = sum f {j * stride..<j * stride + stride}"
      using sum.shift_bounds_nat_ivl [of f 0 "j * stride" stride] by (simp add: lessThan_atLeast0 add.commute)
  qed
  also have "\<dots> = (\<Sum>k<n * stride. f k)" by (rule sum.nat_group)
  finally show ?thesis .
qed

text \<open>
  Whatever the stride, \<open>sum_stride\<close> adds up the same elements, every one of them once: those below the largest multiple of the stride that is not above the
  size. No access is out of range and no sum overflows when the elements are small enough.
\<close>

theorem sum_stride_complete:
  assumes "0 < stride" "small b xs" "sz \<le> length xs" "int sz * b < 2 ^ 31" "0 \<le> b"
  shows "sum_stride xs sz stride = Some (sum_list (take (sz - sz mod stride) xs))"
proof -
  let ?n = "sz div stride" let ?ks = "concat (map (\<lambda>i. map (\<lambda>j. i + j * stride) [0..<?n]) [0..<stride])"
  have m: "?n * stride = sz - sz mod stride" by (simp add: minus_mod_eq_div_mult)
  have "i + j * stride < length xs" if "i < stride" "j < ?n" for i j
  proof -
    have "i + j * stride < Suc j * stride" using that(1) by simp
    also have "\<dots> \<le> ?n * stride" using that(2) by (intro mult_le_mono1) simp
    finally show ?thesis using m assms(3) by linarith
  qed
  then have in_range: "list_all (\<lambda>k. k < length xs) ?ks" by (auto simp: list_all_iff)
  have "length ?ks = stride * ?n" by (simp add: length_concat comp_def sum_list_triv)
  moreover have "stride * ?n \<le> sz" by simp
  ultimately have "int (length ?ks) \<le> int sz" by (simp only: of_nat_le_iff)
  then have "int (length ?ks) * b \<le> int sz * b" using assms(5) by (intro mult_right_mono)
  then have "index_sum xs ?ks 0 = Some (0 + sum_list (map ((!) xs) ?ks))"
    using assms(4) by (intro index_sum_small [OF assms(2) in_range]) simp
  moreover have "sum_list (map ((!) xs) ?ks) = (\<Sum>k<?n * stride. xs ! k)"
    using sum_positions [of "(!) xs" stride ?n] by (simp add: map_concat comp_def)
  moreover have "(\<Sum>k<?n * stride. xs ! k) = sum_list (take (?n * stride) xs)"
  proof -
    have "?n * stride \<le> length xs" using m assms(3) by linarith
    then show ?thesis by (simp add: sum_list_sum_nth lessThan_atLeast0 min_absorb2)
  qed
  ultimately show ?thesis using assms(1) by (simp add: sum_stride_def stride_outer_index m)
qed

theorem sum_stride_complete_witness: "sum_stride [1, 2, 3, 4, 5, 6, 7] 7 3 = Some 21"
  using sum_stride_complete [of 3 10 "[1, 2, 3, 4, 5, 6, 7]" 7] by (simp add: small_def)

lemma gather_append: "gather dat idx (is @ js) res = do { res \<leftarrow> gather dat idx is res; gather dat idx js res }"
  by (induction "is" arbitrary: res) (simp_all cong: Option.bind_cong)

lemma gather_prefetch_eq:
  assumes "list_all (\<lambda>i. i + dist < length idx) is" "list_all (\<lambda>k. k < length dat) idx"
  shows "gather_prefetch dat idx dist is res = gather dat idx is res"
  using assms(1)
proof (induction "is" arbitrary: res)
  case (Cons i "is")
  have "i + dist < length idx" using Cons.prems by simp
  moreover have "idx ! (i + dist) < length dat" using calculation assms(2) by (simp add: list_all_length)
  ultimately show ?case using Cons by (simp add: rd_def)
qed simp

text \<open>
  Prefetching changes no result: for every permutation of the indices, every distance up to the number of elements and every data, both loops of
  \<open>BM_prefetch\<close> read the same elements in the same order.
\<close>

theorem prefetch_same_result:
  assumes "dist \<le> length idx" "list_all (\<lambda>k. k < length dat) idx"
  shows "BM_prefetch True dist dat idx res = BM_prefetch False 0 dat idx res"
proof -
  let ?n = "length idx"
  have "list_all (\<lambda>i. i + dist < length idx) [0..<?n - dist]" by (auto simp: list_all_iff)
  moreover have "[0..<?n] = [0..<?n - dist] @ [?n - dist..<?n]" using upt_add_eq_append [of 0 "?n - dist" dist] assms(1) by simp
  ultimately show ?thesis using assms(1) by (simp add: BM_prefetch_def Let_def gather_prefetch_eq [OF _ assms(2)] gather_append)
qed

theorem prefetch_same_result_witness: "BM_prefetch True 2 [7, 8, 9] [2, 0, 1] 0 = BM_prefetch False 0 [7, 8, 9] [2, 0, 1] 0"
  by (rule prefetch_same_result) simp_all

text \<open>The three scans agree, and they fail on the same inputs.\<close>

lemma branchless_is_branchy: "sum_branchless = sum_branchy"
  by (intro ext) (simp add: sum_branchless_def sum_branchy_def)

theorem scans_agree: "int_range res \<Longrightarrow> scan_branch median xs res = scan_kernel sum_branchless median xs res"
proof (induction xs arbitrary: res)
  case (Cons x xs)
  have "scan_branch median xs r = scan_kernel sum_branchy median xs r" if "checked (res + x) = Some r" for r
    using checkedD [OF that] Cons.IH [of r] by (simp add: branchless_is_branchy)
  then show ?case using Cons by (auto simp: branchless_is_branchy sum_branchy_def checked_def cong: Option.bind_cong)
qed simp

section \<open>Undefined behaviour\<close>

lemma always_true_defined: "int_range a \<Longrightarrow> always_true a = (if a = 2 ^ 31 - 1 then None else Some True)"
  by (auto simp: always_true_def checked_def int_range_def)

lemma divide_by_two_defined: "int_range x \<Longrightarrow> divide_by_two x = (if - (2 ^ 30) \<le> x \<and> x < 2 ^ 30 then Some x else None)"
  by (auto simp: divide_by_two_def checked_def int_range_def abs_mult sgn_mult abs_sgn mult.commute)

lemma sum_call_value: "sum_call xs s = Some r \<Longrightarrow> int_range s \<Longrightarrow> r = s + sum_list (map (\<lambda>x. x * x + 1) xs) \<and> int_range r"
proof (induction xs arbitrary: s)
  case (Cons x xs)
  then show ?case by (fastforce simp: helper_def bind_eq_Some_conv dest!: checkedD)
qed simp

lemma sum_squares: "6 * sum_list (map (\<lambda>x. int x * int x + 1) [1..<Suc n]) = int n * (int n + 1) * (2 * int n + 1) + 6 * int n"
  by (induction n) (simp_all add: algebra_simps)

text \<open>
  The benchmark of \<open>sum_call\<close> runs into undefined behaviour: on its own input, the numbers from 1 to 4096, the sum of the squares exceeds the range of
  \<open>int\<close>.
\<close>

theorem sum_call_benchmark_overflows: "sum_call (map int [1..<4097]) 0 = None"
proof (rule ccontr)
  assume "sum_call (map int [1..<4097]) 0 \<noteq> None"
  then obtain r where "sum_call (map int [1..<4097]) 0 = Some r" by blast
  then have "r = sum_list (map (\<lambda>x. int x * int x + 1) [1..<4097])" "int_range r"
    using sum_call_value [of "map int [1..<4097]" 0 r] by (simp_all add: int_range_def comp_def del: upt_conv_Cons)
  moreover have "6 * sum_list (map (\<lambda>x. int x * int x + 1) [1..<4097]) = 137489313792" using sum_squares [of 4096] by (simp del: upt_Suc)
  ultimately show False by (simp add: int_range_def)
qed

section \<open>Aliasing\<close>

lemma add_alias_disjoint:
  assumes "dst + n \<le> src \<or> src + n \<le> dst" "dst + n \<le> length mem" "src + n \<le> length mem"
    and "\<And>i. i < n \<Longrightarrow> int_range (mem ! (src + i) + 1)"
  shows "add_alias mem dst src [k..<n] = Some (map (\<lambda>p. if dst + k \<le> p \<and> p < dst + n then mem ! (p - dst + src) + 1 else mem ! p) [0..<length mem])"
  using assms
proof (induction "n - k" arbitrary: k mem)
  case 0
  then show ?case by (auto intro: nth_equalityI)
next
  case (Suc d)
  let ?y = "mem ! (src + k) + 1" let ?mem = "mem[dst + k := ?y]"
  have k: "k < n" "d = n - Suc k" using Suc.hyps(2) by simp_all
  have src: "?mem ! (src + i) = mem ! (src + i)" if "i < n" for i
    using that Suc.prems(1) k(1) by (intro nth_list_update_neq) auto
  have IH: "add_alias ?mem dst src [Suc k..<n] =
      Some (map (\<lambda>p. if dst + Suc k \<le> p \<and> p < dst + n then ?mem ! (p - dst + src) + 1 else ?mem ! p) [0..<length mem])"
    using Suc.hyps(1) [OF k(2), of ?mem] Suc.prems src by simp
  have "(if dst + Suc k \<le> p \<and> p < dst + n then ?mem ! (p - dst + src) + 1 else ?mem ! p) =
      (if dst + k \<le> p \<and> p < dst + n then mem ! (p - dst + src) + 1 else mem ! p)" if "p < length mem" for p
  proof (cases "p = dst + k")
    case True
    then show ?thesis using that k(1) by (simp add: add.commute)
  next
    case False
    then have "?mem ! p = mem ! p" by simp
    moreover have "?mem ! (p - dst + src) = mem ! (p - dst + src)" if "dst \<le> p" "p < dst + n"
      using src [of "p - dst"] that by (simp add: add.commute)
    ultimately show ?thesis using False by auto
  qed
  then have "map (\<lambda>p. if dst + Suc k \<le> p \<and> p < dst + n then ?mem ! (p - dst + src) + 1 else ?mem ! p) [0..<length mem] =
      map (\<lambda>p. if dst + k \<le> p \<and> p < dst + n then mem ! (p - dst + src) + 1 else mem ! p) [0..<length mem]" by simp
  then show ?case
    using IH k Suc.prems(2,3,4) by (simp add: upt_conv_Cons rd_def checked_def)
qed

text \<open>
  On ranges that do not overlap \<open>add_restrict\<close> and \<open>add_alias\<close> both put the source, plus one, into the destination and change nothing else; on overlapping ranges
  \<open>add_restrict\<close> is undefined, and \<open>add_alias\<close> reads what it has written.
\<close>

theorem restrict_adds_one:
  assumes "dst + n \<le> src \<or> src + n \<le> dst" "dst + n \<le> length mem" "src + n \<le> length mem" "small (2 ^ 31 - 2) mem"
  shows "add_restrict mem dst src n = Some (map (\<lambda>p. if dst \<le> p \<and> p < dst + n then mem ! (p - dst + src) + 1 else mem ! p) [0..<length mem]) \<and>
    add_alias mem dst src [0..<n] = add_restrict mem dst src n"
proof -
  have "int_range (mem ! (src + i) + 1)" if "i < n" for i
    using small_nth [OF assms(4), of "src + i"] that assms(3) by (auto simp: int_range_def abs_le_iff)
  then show ?thesis using add_alias_disjoint [of dst n src mem 0] assms by (auto simp: add_restrict_def)
qed

theorem restrict_adds_one_witness: "add_restrict [1, 2, 0, 0] 2 0 2 = Some [1, 2, 2, 3] \<and> add_alias [1, 2, 0, 0] 2 0 [0..<2] = Some [1, 2, 2, 3]"
  using restrict_adds_one [of 2 2 0 "[1, 2, 0, 0]"] by (simp add: small_def upt_rec)

lemma alias_reads_back: "add_alias [1, 0, 0] 1 0 [0..<2] = Some [1, 2, 3]" "add_restrict [1, 0, 0] 1 0 2 = None"
  by (simp_all add: add_restrict_def rd_def checked_def int_range_def upt_rec)

section \<open>Errors\<close>

text \<open>A code and an exception tell the caller the same.\<close>

lemma caller_ec_try: "caller_ec = caller_try"
  by (intro ext) (simp add: caller_ec_def caller_try_def helper_ec_def helper_throw_def)

end
