(* ===== verification/Dispatch.thy ===== *)
theory Dispatch
  imports Kernels
begin

text \<open>
  Two programs of \<open>3_machine_below/2_compiler_atlas\<close> that compare ways of calling the same code: \<open>5_virtual_vs_crtp.cpp\<close>, the areas of circles through a virtual call, a call on a final class and a static call,
  and \<open>1_inlining.cpp\<close>, squares through an inlined and a separate function; with them the plain reduction \<open>sum_vec\<close> of \<open>3_autovec.cpp\<close>. The arithmetic of \<open>double\<close> is a parameter of which no law is
  assumed; the \<open>int\<close> arithmetic is checked as in \<open>Kernels\<close>.
\<close>

section \<open>Shapes\<close>

record 'd double_ops =
  dadd :: "'d \<Rightarrow> 'd \<Rightarrow> 'd"
  dmul :: "'d \<Rightarrow> 'd \<Rightarrow> 'd"
  of_int_d :: "int \<Rightarrow> 'd"
  pi_lit :: 'd
  one_lit :: 'd

text \<open>The classes derived from \<open>IShape\<close>; the constructor is what the table of virtual functions tells them apart by.\<close>

datatype 'd ishape = Circle 'd | CircleFinal 'd

datatype 'd circle_c = CircleC (radius_c: 'd)

fun area_virtual :: "'d double_ops \<Rightarrow> 'd ishape \<Rightarrow> 'd" where
  "area_virtual D (Circle r) = dmul D (dmul D (pi_lit D) r) r"
| "area_virtual D (CircleFinal r) = dmul D (dmul D (pi_lit D) r) r"

definition area_impl :: "'d double_ops \<Rightarrow> 'd circle_c \<Rightarrow> 'd" where
  "area_impl D c = dmul D (dmul D (pi_lit D) (radius_c c)) (radius_c c)"

text \<open>\<open>ShapeBase\<close> calls the \<open>area_impl\<close> of the class it is instantiated with.\<close>

definition area_crtp :: "('s \<Rightarrow> 'd) \<Rightarrow> 's \<Rightarrow> 'd" where
  "area_crtp impl s = impl s"

text \<open>Objects live in a heap; a call through a pointer to no object is undefined behaviour, and so is a call of the code of \<open>CircleFinal\<close> on an object of another class.\<close>

fun sum_virtual :: "'d double_ops \<Rightarrow> (nat \<Rightarrow> 'd ishape option) \<Rightarrow> nat list \<Rightarrow> 'd \<Rightarrow> 'd option" where
  "sum_virtual D h [] s = Some s"
| "sum_virtual D h (p # ps) s = do { x \<leftarrow> h p; sum_virtual D h ps (dadd D s (area_virtual D x)) }"

fun sum_final :: "'d double_ops \<Rightarrow> (nat \<Rightarrow> 'd ishape option) \<Rightarrow> nat list \<Rightarrow> 'd \<Rightarrow> 'd option" where
  "sum_final D h [] s = Some s"
| "sum_final D h (p # ps) s =
     (case h p of Some (CircleFinal r) \<Rightarrow> sum_final D h ps (dadd D s (dmul D (dmul D (pi_lit D) r) r)) | _ \<Rightarrow> None)"

fun sum_crtp :: "'d double_ops \<Rightarrow> 'd circle_c list \<Rightarrow> 'd \<Rightarrow> 'd" where
  "sum_crtp D [] s = s"
| "sum_crtp D (c # cs) s = sum_crtp D cs (dadd D s (area_crtp (area_impl D) c))"

text \<open>The benchmarks: \<open>N\<close> objects are allocated, at the addresses the list gives, with the radii \<open>i + 1.0\<close>.\<close>

definition CIRCLES :: nat where
  "CIRCLES = 4096"

definition radius :: "'d double_ops \<Rightarrow> nat \<Rightarrow> 'd" where
  "radius D i = dadd D (of_int_d D (int i)) (one_lit D)"

fun build :: "('d \<Rightarrow> 'd ishape) \<Rightarrow> 'd double_ops \<Rightarrow> nat list \<Rightarrow> nat \<Rightarrow> (nat \<Rightarrow> 'd ishape option) \<Rightarrow> nat \<Rightarrow> 'd ishape option" where
  "build C D [] i h = h"
| "build C D (p # ps) i h = build C D ps (i + 1) (h(p \<mapsto> C (radius D i)))"

definition BM_virtual :: "'d double_ops \<Rightarrow> nat list \<Rightarrow> 'd option" where
  "BM_virtual D ps = sum_virtual D (build Circle D ps 0 (\<lambda>_. None)) ps (of_int_d D 0)"

definition BM_final :: "'d double_ops \<Rightarrow> nat list \<Rightarrow> 'd option" where
  "BM_final D ps = sum_final D (build CircleFinal D ps 0 (\<lambda>_. None)) ps (of_int_d D 0)"

definition BM_crtp :: "'d double_ops \<Rightarrow> 'd" where
  "BM_crtp D = sum_crtp D (map (\<lambda>i. CircleC (radius D i)) [0..<CIRCLES]) (of_int_d D 0)"

section \<open>The three ways give one sum\<close>

lemma build_other: "p \<notin> set ps \<Longrightarrow> build C D ps i h p = h p"
  by (induction C D ps i h rule: build.induct) auto

lemma build_nth: "distinct ps \<Longrightarrow> k < length ps \<Longrightarrow> build C D ps i h (ps ! k) = Some (C (radius D (i + k)))"
proof (induction ps arbitrary: k i h)
  case (Cons p ps)
  show ?case
  proof (cases k)
    case 0
    then show ?thesis using Cons.prems(1) by (simp add: build_other)
  next
    case (Suc j)
    then show ?thesis using Cons.IH [of j "i + 1" "h(p \<mapsto> C (radius D i))"] Cons.prems by (simp del: fun_upd_apply)
  qed
qed simp

lemma sum_virtual_crtp:
  assumes "list_all2 (\<lambda>p c. h p = Some (Circle (radius_c c))) ps cs"
  shows "sum_virtual D h ps s = Some (sum_crtp D cs s)"
  using assms by (induction ps cs arbitrary: s rule: list_all2_induct) (simp_all add: area_crtp_def area_impl_def)

lemma sum_final_crtp:
  assumes "list_all2 (\<lambda>p c. h p = Some (CircleFinal (radius_c c))) ps cs"
  shows "sum_final D h ps s = Some (sum_crtp D cs s)"
  using assms by (induction ps cs arbitrary: s rule: list_all2_induct) (simp_all add: area_crtp_def area_impl_def)

lemma build_circles:
  assumes "distinct ps"
  shows "list_all2 (\<lambda>p c. build C D ps 0 h p = Some (C (radius_c c))) ps (map (\<lambda>i. CircleC (radius D i)) [0..<length ps])"
  using build_nth [OF assms, of _ C D 0 h] by (simp add: list_all2_conv_all_nth)

text \<open>
  Whatever the arithmetic of \<open>double\<close> is, and wherever the objects are allocated, the three benchmarks add the same areas in the same order: the virtual calls and the calls on the final class are all defined and
  yield exactly the sum of the static calls.
\<close>

theorem dispatch_agrees:
  assumes "distinct ps" "length ps = CIRCLES"
  shows "BM_virtual D ps = Some (BM_crtp D) \<and> BM_final D ps = Some (BM_crtp D)"
  using build_circles [OF assms(1), of Circle D] build_circles [OF assms(1), of CircleFinal D] assms(2)
  by (simp add: BM_virtual_def BM_final_def BM_crtp_def sum_virtual_crtp sum_final_crtp)

theorem dispatch_agrees_witness:
  "BM_virtual \<lparr>dadd = (+), dmul = (*), of_int_d = (\<lambda>i. i), pi_lit = 3, one_lit = 1\<rparr> [0..<CIRCLES] = Some (BM_crtp \<lparr>dadd = (+), dmul = (*), of_int_d = (\<lambda>i. i :: int), pi_lit = 3, one_lit = 1\<rparr>)"
  using dispatch_agrees [of "[0..<CIRCLES]" "\<lparr>dadd = (+), dmul = (*), of_int_d = (\<lambda>i. i :: int), pi_lit = 3, one_lit = 1\<rparr>"] by simp

section \<open>Inlining\<close>

definition inline_square :: "int \<Rightarrow> int option" where
  "inline_square number = checked (number * number)"

definition no_inline_square :: "int \<Rightarrow> int option" where
  "no_inline_square number = checked (number * number)"

text \<open>\<open>std::iota\<close> fills the vector with the numbers from 1.\<close>

definition iota :: "nat \<Rightarrow> int list" where
  "iota n = map int [1..<Suc n]"

fun sum_with :: "(int \<Rightarrow> int option) \<Rightarrow> int list \<Rightarrow> int \<Rightarrow> int option" where
  "sum_with f [] s = Some s"
| "sum_with f (x # xs) s = do { y \<leftarrow> f x; s \<leftarrow> checked (s + y); sum_with f xs s }"

definition BM_inline :: "int option" where
  "BM_inline = sum_with inline_square (iota 1024) 0"

definition BM_no_inline :: "int option" where
  "BM_no_inline = sum_with no_inline_square (iota 1024) 0"

fun sum_vec :: "int list \<Rightarrow> int \<Rightarrow> int option" where
  "sum_vec [] s = Some s"
| "sum_vec (x # xs) s = do { s \<leftarrow> checked (s + x); sum_vec xs s }"

definition BM_sum_vec :: "int option" where
  "BM_sum_vec = sum_vec (iota 4096) 0"

definition BM_sum_call :: "int option" where
  "BM_sum_call = sum_call (iota 4096) 0"

text \<open>A sum of terms that are not negative stays in the range when its total does.\<close>

lemma sum_with_value:
  assumes "list_all (\<lambda>x. f x = Some (g x) \<and> 0 \<le> g x) xs" "0 \<le> s" "s + sum_list (map g xs) < 2 ^ 31"
  shows "sum_with f xs s = Some (s + sum_list (map g xs))"
  using assms
proof (induction xs arbitrary: s)
  case (Cons x xs)
  have "0 \<le> sum_list (map g xs)" using Cons.prems(1) by (intro sum_list_nonneg) (auto simp: list_all_iff)
  then have "checked (s + g x) = Some (s + g x)" using Cons.prems by (simp add: checked_def int_range_def)
  then show ?case using Cons.IH [of "s + g x"] Cons.prems by (simp add: add.assoc)
qed simp

lemma sum_vec_with: "sum_vec xs s = sum_with Some xs s"
  by (induction xs arbitrary: s) (simp_all cong: Option.bind_cong)

lemma squares_total: "6 * sum_list (map (\<lambda>x. x * x) (iota n)) = int n * (int n + 1) * (2 * int n + 1)"
  by (induction n) (simp_all add: iota_def algebra_simps)

lemma iota_total: "2 * sum_list (iota n) = int n * (int n + 1)"
  by (induction n) (simp_all add: iota_def algebra_simps)

lemma iota_bounds: "x \<in> set (iota n) \<Longrightarrow> 0 \<le> x \<and> x \<le> int n"
  by (auto simp: iota_def)

lemma square_defined:
  assumes "0 \<le> x" "x \<le> 1024"
  shows "checked (x * x) = Some (x * x)"
proof (rule checked_small)
  have "x * x \<le> 1048576" using mult_mono [of x 1024 x 1024] assms by simp
  then show "\<bar>x * x\<bar> < 2 ^ 31" by (simp add: abs_of_nonneg)
qed

text \<open>
  The benchmarks on the numbers from 1 upwards: the two that square 1024 numbers, inlined or not, and the plain sum of 4096 numbers stay in the range of \<open>int\<close> and have the closed-form values, while the sum of
  4096 squares of \<open>BM_sum_call\<close> overflows.
\<close>

theorem benchmark_sums: "BM_inline = Some 358438400 \<and> BM_no_inline = Some 358438400 \<and> BM_sum_vec = Some 8390656 \<and> BM_sum_call = None"
proof -
  have "Suc 4096 = 4097" by simp
  then have "BM_sum_call = None" using sum_call_benchmark_overflows by (simp only: BM_sum_call_def iota_def)
  moreover have sq: "sum_list (map (\<lambda>x. x * x) (iota 1024)) = 358438400" using squares_total [of 1024] by simp
  moreover have "list_all (\<lambda>x. checked (x * x) = Some (x * x) \<and> 0 \<le> x * x) (iota 1024)"
    using iota_bounds [of _ 1024] by (auto simp: list_all_iff square_defined)
  then have "sum_with (\<lambda>x. checked (x * x)) (iota 1024) 0 = Some 358438400"
    using sum_with_value [of "\<lambda>x. checked (x * x)" "\<lambda>x. x * x" "iota 1024" 0] sq by simp
  then have "BM_inline = Some 358438400" "BM_no_inline = Some 358438400" by (simp_all add: BM_inline_def BM_no_inline_def inline_square_def [abs_def] no_inline_square_def [abs_def])
  moreover have "sum_list (iota 4096) = 8390656" using iota_total [of 4096] by simp
  then have "BM_sum_vec = Some 8390656"
    using sum_with_value [of Some "\<lambda>x. x" "iota 4096" 0] iota_bounds [of _ 4096] by (simp add: BM_sum_vec_def sum_vec_with list_all_iff)
  ultimately show ?thesis by simp
qed

end
