(* ===== verification/Vector_Growth.thy ===== *)
theory Vector_Growth
  imports Prelude
begin

text \<open>
  The program \<open>3_machine_below/2_compiler_atlas/4_noexcept.cpp\<close>: a vector of a class whose move constructor may throw (\<open>Fragile\<close>) or may not (\<open>Movable\<close>), filled one element at a time. When it
  grows, a \<open>std::vector\<close> moves its elements only when the move constructor is \<open>noexcept\<close>, and copies them otherwise, so that a failure leaves the vector as it was. The element, a string of 64 characters, is
  allocated when it is constructed and when it is copied. Which allocations fail (\<open>oom\<close>) and how the library chooses the next capacity (\<open>grow\<close>) are parameters. The two callers of a function that throws are modelled too.
\<close>

section \<open>The classes and the vector\<close>

datatype elem_class = Fragile | Movable

definition nothrow_move_constructible :: "elem_class \<Rightarrow> bool" where
  "nothrow_move_constructible c \<longleftrightarrow> c = Movable"

definition default_elem :: string where
  "default_elem = replicate 64 CHR ''x''"

record vec =
  elems :: "string list"
  capacity :: nat
  copied :: nat
  moved :: nat
  allocs :: nat

definition vec_new :: vec where
  "vec_new = \<lparr>elems = [], capacity = 0, copied = 0, moved = 0, allocs = 0\<rparr>"

text \<open>Copies of the elements, one allocation each. \<open>Inl\<close> is \<open>std::bad_alloc\<close>; both cases carry the number of allocations tried so far.\<close>

fun copy_all :: "(nat \<Rightarrow> bool) \<Rightarrow> string list \<Rightarrow> nat \<Rightarrow> nat + string list \<times> nat" where
  "copy_all oom [] k = Inr ([], k)"
| "copy_all oom (x # xs) k =
     (if oom k then Inl (k + 1)
      else case copy_all oom xs (k + 1) of Inl k' \<Rightarrow> Inl k' | Inr (ys, k') \<Rightarrow> Inr (x # ys, k'))"

text \<open>The contents of the new buffer: moved, which cannot fail, or copied.\<close>

definition transfer :: "elem_class \<Rightarrow> (nat \<Rightarrow> bool) \<Rightarrow> string list \<Rightarrow> nat \<Rightarrow> nat + string list \<times> nat" where
  "transfer c oom xs k = (if nothrow_move_constructible c then Inr (xs, k) else copy_all oom xs k)"

definition count_transfer :: "elem_class \<Rightarrow> nat \<Rightarrow> vec \<Rightarrow> vec" where
  "count_transfer c n v = (if nothrow_move_constructible c then v\<lparr>moved := moved v + n\<rparr> else v\<lparr>copied := copied v + n\<rparr>)"

text \<open>The second component tells whether \<open>std::bad_alloc\<close> was thrown.\<close>

definition emplace_back :: "elem_class \<Rightarrow> (nat \<Rightarrow> nat) \<Rightarrow> (nat \<Rightarrow> bool) \<Rightarrow> vec \<Rightarrow> vec \<times> bool" where
  "emplace_back c grow oom v =
     (let k = allocs v in
      if length (elems v) < capacity v then
        if oom k then (v\<lparr>allocs := k + 1\<rparr>, True) else (v\<lparr>elems := elems v @ [default_elem], allocs := k + 1\<rparr>, False)
      else if oom k then (v\<lparr>allocs := k + 1\<rparr>, True)
      else if oom (k + 1) then (v\<lparr>allocs := k + 2\<rparr>, True)
      else case transfer c oom (elems v) (k + 2) of
             Inl k' \<Rightarrow> (v\<lparr>allocs := k'\<rparr>, True)
           | Inr (xs, k') \<Rightarrow> ((count_transfer c (length (elems v)) v)\<lparr>elems := xs @ [default_elem], capacity := grow (capacity v), allocs := k'\<rparr>, False))"

definition reserve :: "elem_class \<Rightarrow> (nat \<Rightarrow> bool) \<Rightarrow> nat \<Rightarrow> vec \<Rightarrow> vec \<times> bool" where
  "reserve c oom n v =
     (let k = allocs v in
      if n \<le> capacity v then (v, False)
      else if oom k then (v\<lparr>allocs := k + 1\<rparr>, True)
      else case transfer c oom (elems v) (k + 1) of
             Inl k' \<Rightarrow> (v\<lparr>allocs := k'\<rparr>, True)
           | Inr (xs, k') \<Rightarrow> ((count_transfer c (length (elems v)) v)\<lparr>elems := xs, capacity := n, allocs := k'\<rparr>, False))"

section \<open>The benchmarks\<close>

fun emplace_n :: "elem_class \<Rightarrow> (nat \<Rightarrow> nat) \<Rightarrow> (nat \<Rightarrow> bool) \<Rightarrow> nat \<Rightarrow> vec \<Rightarrow> vec \<times> bool" where
  "emplace_n c grow oom 0 v = (v, False)"
| "emplace_n c grow oom (Suc n) v = (let (v, thrown) = emplace_back c grow oom v in if thrown then (v, True) else emplace_n c grow oom n v)"

definition PUSHES :: nat where
  "PUSHES = 1024"

definition BM_push_fragile :: "(nat \<Rightarrow> nat) \<Rightarrow> (nat \<Rightarrow> bool) \<Rightarrow> vec \<times> bool" where
  "BM_push_fragile grow oom = emplace_n Fragile grow oom PUSHES vec_new"

definition BM_push_movable :: "(nat \<Rightarrow> nat) \<Rightarrow> (nat \<Rightarrow> bool) \<Rightarrow> vec \<times> bool" where
  "BM_push_movable grow oom = emplace_n Movable grow oom PUSHES vec_new"

definition BM_push_movable_reserve :: "(nat \<Rightarrow> nat) \<Rightarrow> (nat \<Rightarrow> bool) \<Rightarrow> vec \<times> bool" where
  "BM_push_movable_reserve grow oom =
     (let (v, thrown) = reserve Movable oom PUSHES vec_new in if thrown then (v, True) else emplace_n Movable grow oom PUSHES v)"

section \<open>The callers\<close>

datatype call_result = Returns | Throws string | Terminates

definition may_throw :: "int \<Rightarrow> call_result" where
  "may_throw x = (if x = 0 then Throws ''zero'' else Returns)"

definition caller_a :: "int \<Rightarrow> call_result" where
  "caller_a x = may_throw x"

definition caller_b :: "int \<Rightarrow> call_result" where
  "caller_b x = (case may_throw x of Throws _ \<Rightarrow> Terminates | r \<Rightarrow> r)"

lemma caller_b_never_throws: "caller_b x \<noteq> Throws e" "caller_b x = Returns \<longleftrightarrow> caller_a x = Returns"
  by (simp_all add: caller_a_def caller_b_def may_throw_def)

section \<open>One element\<close>

lemma copy_all_id: "copy_all oom xs k = Inr (ys, k') \<Longrightarrow> ys = xs"
  by (induction xs arbitrary: k ys k') (auto split: if_splits sum.splits)

lemma transfer_id: "transfer c oom xs k = Inr (ys, k') \<Longrightarrow> ys = xs"
  by (auto simp: transfer_def copy_all_id split: if_splits)

lemma copy_all_succeeds: "(\<And>k. \<not> oom k) \<Longrightarrow> \<exists>k'. copy_all oom xs k = Inr (xs, k')"
  by (induction xs arbitrary: k) (auto split: sum.splits, metis Inr_inject old.prod.inject sum.distinct(1), metis Inr_inject old.prod.inject)

lemma transfer_succeeds: "(\<And>k. \<not> oom k) \<Longrightarrow> \<exists>k'. transfer c oom xs k = Inr (xs, k')"
  using copy_all_succeeds by (auto simp: transfer_def)

definition vec_wf :: "vec \<Rightarrow> bool" where
  "vec_wf v \<longleftrightarrow> length (elems v) \<le> capacity v"

text \<open>What a call does: it appends, growing only a full vector, or it throws and leaves elements, capacity and counters alone.\<close>

lemma emplace_back_cases:
  assumes "emplace_back c grow oom v = (v', thrown)" "vec_wf v"
  obtains (full) "thrown" "elems v' = elems v" "capacity v' = capacity v" "copied v' = copied v" "moved v' = moved v"
  | (room) "\<not> thrown" "elems v' = elems v @ [default_elem]" "length (elems v) < capacity v" "capacity v' = capacity v" "copied v' = copied v" "moved v' = moved v"
  | (grown) "\<not> thrown" "elems v' = elems v @ [default_elem]" "length (elems v) = capacity v" "capacity v' = grow (capacity v)"
      "copied v' = (if nothrow_move_constructible c then copied v else copied v + capacity v)"
      "moved v' = (if nothrow_move_constructible c then moved v + capacity v else moved v)"
proof (cases "length (elems v) < capacity v")
  case True
  then show thesis using assms(1) that(1,2) by (auto simp: emplace_back_def Let_def split: if_splits)
next
  case False
  then have l: "length (elems v) = capacity v" using assms(2) by (simp add: vec_wf_def)
  show thesis
  proof (cases "oom (allocs v) \<or> oom (allocs v + 1)")
    case True
    then show thesis using assms(1) False that(1) by (auto simp: emplace_back_def Let_def split: if_splits)
  next
    case ok: False
    show thesis
    proof (cases "transfer c oom (elems v) (allocs v + 2)")
      case (Inl k)
      then show thesis using assms(1) False ok that(1) by (auto simp: emplace_back_def Let_def)
    next
      case (Inr r)
      then obtain k where "transfer c oom (elems v) (allocs v + 2) = Inr (elems v, k)" using transfer_id by (cases r) blast
      then show thesis using assms(1) False ok l that(3) by (auto simp: emplace_back_def Let_def count_transfer_def)
    qed
  qed
qed

text \<open>The capacities the library chooses: every one is at least twice the one before.\<close>

definition geometric :: "(nat \<Rightarrow> nat) \<Rightarrow> bool" where
  "geometric grow \<longleftrightarrow> (\<forall>c. 0 < grow c \<and> 2 * c \<le> grow c)"

definition vec_inv :: "vec \<Rightarrow> bool" where
  "vec_inv v \<longleftrightarrow> vec_wf v \<and> copied v + moved v \<le> capacity v \<and> copied v + moved v \<le> 2 * length (elems v) \<and> list_all (\<lambda>x. x = default_elem) (elems v)"

lemma vec_new_fields [simp]: "elems vec_new = []" "capacity vec_new = 0" "copied vec_new = 0" "moved vec_new = 0" "allocs vec_new = 0"
  by (simp_all add: vec_new_def)

lemma vec_inv_new: "vec_inv vec_new"
  by (simp add: vec_inv_def vec_wf_def vec_new_def)

lemma emplace_back_inv:
  assumes "geometric grow" "vec_inv v" "emplace_back c grow oom v = (v', thrown)"
  shows "vec_inv v'"
proof -
  have wf: "vec_wf v" using assms(2) by (simp add: vec_inv_def)
  show ?thesis
    using assms(3) wf
  proof (cases rule: emplace_back_cases)
    case grown
    have "0 < grow (capacity v)" "2 * capacity v \<le> grow (capacity v)" using assms(1) by (simp_all add: geometric_def)
    then show ?thesis using assms(2) grown by (auto simp: vec_inv_def vec_wf_def)
  qed (use assms(2) in \<open>auto simp: vec_inv_def vec_wf_def\<close>)
qed

lemma emplace_n_inv: "geometric grow \<Longrightarrow> vec_inv v \<Longrightarrow> emplace_n c grow oom n v = (v', thrown) \<Longrightarrow> vec_inv v'"
  by (induction n arbitrary: v) (auto split: prod.splits if_splits dest: emplace_back_inv)

lemma emplace_n_length:
  assumes "geometric grow" "vec_inv v" "emplace_n c grow oom n v = (v', thrown)"
  shows "length (elems v) \<le> length (elems v') \<and> length (elems v') \<le> length (elems v) + n \<and> (\<not> thrown \<longrightarrow> length (elems v') = length (elems v) + n)"
  using assms(2,3)
proof (induction n arbitrary: v)
  case (Suc n)
  obtain w b where e: "emplace_back c grow oom v = (w, b)" by (cases "emplace_back c grow oom v")
  have wf: "vec_wf v" using Suc.prems(1) by (simp add: vec_inv_def)
  have "length (elems w) = length (elems v) + of_bool (\<not> b)" using emplace_back_cases [OF e wf] by cases auto
  then show ?case using Suc.IH [OF emplace_back_inv [OF assms(1) Suc.prems(1) e]] Suc.prems(2) e by (auto split: if_splits)
qed simp

lemma emplace_n_unmoved: "vec_wf v \<Longrightarrow> (\<And>c. c < grow c) \<Longrightarrow> emplace_n c grow oom n v = (v', thrown) \<Longrightarrow> (nothrow_move_constructible c \<longrightarrow> copied v' = copied v) \<and> (\<not> nothrow_move_constructible c \<longrightarrow> moved v' = moved v)"
proof (induction n arbitrary: v)
  case (Suc n)
  obtain w b where e: "emplace_back c grow oom v = (w, b)" by (cases "emplace_back c grow oom v")
  have "vec_wf w \<and> (nothrow_move_constructible c \<longrightarrow> copied w = copied v) \<and> (\<not> nothrow_move_constructible c \<longrightarrow> moved w = moved v)"
    using emplace_back_cases [OF e Suc.prems(1)] Suc.prems(1) Suc.prems(2) [of "capacity v"] by cases (auto simp: vec_wf_def)
  then show ?case using Suc.IH [of w] Suc.prems(2,3) e by (auto split: if_splits)
qed simp

lemma emplace_n_succeeds: "(\<And>k. \<not> oom k) \<Longrightarrow> \<not> snd (emplace_n c grow oom n v)"
proof (induction n arbitrary: v)
  case (Suc n)
  obtain k' where "transfer c oom (elems v) (allocs v + 2) = Inr (elems v, k')" using transfer_succeeds [of oom c "elems v"] Suc.prems by blast
  then have "\<not> snd (emplace_back c grow oom v)" using Suc.prems by (simp add: emplace_back_def Let_def)
  then show ?case using Suc.IH [OF Suc.prems] by (cases "emplace_back c grow oom v") simp
qed simp

lemma emplace_n_room:
  assumes "vec_wf v" "length (elems v) + n \<le> capacity v" "emplace_n c grow oom n v = (v', thrown)"
  shows "copied v' = copied v \<and> moved v' = moved v"
  using assms
proof (induction n arbitrary: v)
  case (Suc n)
  obtain w b where e: "emplace_back c grow oom v = (w, b)" by (cases "emplace_back c grow oom v")
  have "vec_wf w \<and> capacity w = capacity v \<and> length (elems w) \<le> length (elems v) + 1 \<and> copied w = copied v \<and> moved w = moved v"
    using emplace_back_cases [OF e Suc.prems(1)] Suc.prems(1,2) by cases (auto simp: vec_wf_def)
  then show ?case using Suc.IH [of w] Suc.prems(2,3) e by (auto split: if_splits)
qed simp

section \<open>The benchmarks\<close>

text \<open>What a benchmark leaves behind: default elements, as many as were pushed, all of them unless an allocation failed.\<close>

definition pushed :: "(nat \<Rightarrow> bool) \<Rightarrow> vec \<Rightarrow> bool \<Rightarrow> bool" where
  "pushed oom v thrown \<longleftrightarrow> elems v = replicate (length (elems v)) default_elem \<and> length (elems v) \<le> PUSHES \<and>
     (if thrown then \<exists>k. oom k else length (elems v) = PUSHES)"

lemma geometric_grows: "geometric grow \<Longrightarrow> c < grow c"
  unfolding geometric_def by (metis mult_2 add_gr_0 gr0I le_add2 less_add_same_cancel1 order_less_le_trans)

lemma emplace_n_pushed:
  assumes "geometric grow" "vec_inv v" "emplace_n c grow oom PUSHES v = (v', thrown)" "elems v = []"
  shows "pushed oom v' thrown \<and> copied v' + moved v' \<le> 2 * length (elems v') \<and>
    (if nothrow_move_constructible c then copied v' = copied v else moved v' = moved v)"
proof -
  have inv: "vec_inv v'" using emplace_n_inv [OF assms(1-3)] .
  then have "elems v' = replicate (length (elems v')) default_elem" by (simp add: vec_inv_def list_all_iff replicate_length_same)
  moreover have "thrown \<longrightarrow> (\<exists>k. oom k)" using emplace_n_succeeds [of oom c grow PUSHES v] assms(3) by auto
  moreover have "vec_wf v" using assms(2) by (simp add: vec_inv_def)
  ultimately show ?thesis using emplace_n_length [OF assms(1-3)] emplace_n_unmoved [OF _ geometric_grows [OF assms(1)] assms(3)] inv assms(4)
    by (auto simp: pushed_def vec_inv_def)
qed

text \<open>
  Whatever allocation fails and however the library grows its capacities, as long as it at least doubles them, each of the three benchmarks ends with a vector of default elements, as many as were pushed before a
  failure, and all of them when no allocation fails; the elements transferred while the vector grew are at most twice its elements, all copied for \<open>Fragile\<close>, all moved for \<open>Movable\<close>, and none after \<open>reserve\<close>.
\<close>

theorem push_benchmarks:
  assumes "geometric grow"
  shows "(\<exists>v thrown. BM_push_fragile grow oom = (v, thrown) \<and> pushed oom v thrown \<and> copied v \<le> 2 * length (elems v) \<and> moved v = 0) \<and>
    (\<exists>v thrown. BM_push_movable grow oom = (v, thrown) \<and> pushed oom v thrown \<and> copied v = 0 \<and> moved v \<le> 2 * length (elems v)) \<and>
    (\<exists>v thrown. BM_push_movable_reserve grow oom = (v, thrown) \<and> pushed oom v thrown \<and> copied v = 0 \<and> moved v = 0)"
proof (intro conjI)
  obtain v b where f: "emplace_n Fragile grow oom PUSHES vec_new = (v, b)" by (cases "emplace_n Fragile grow oom PUSHES vec_new")
  from emplace_n_pushed [OF assms vec_inv_new f] show "\<exists>v thrown. BM_push_fragile grow oom = (v, thrown) \<and> pushed oom v thrown \<and> copied v \<le> 2 * length (elems v) \<and> moved v = 0"
    by (simp add: BM_push_fragile_def f nothrow_move_constructible_def)
  obtain w c where m: "emplace_n Movable grow oom PUSHES vec_new = (w, c)" by (cases "emplace_n Movable grow oom PUSHES vec_new")
  from emplace_n_pushed [OF assms vec_inv_new m] show "\<exists>v thrown. BM_push_movable grow oom = (v, thrown) \<and> pushed oom v thrown \<and> copied v = 0 \<and> moved v \<le> 2 * length (elems v)"
    by (simp add: BM_push_movable_def m nothrow_move_constructible_def)
  show "\<exists>v thrown. BM_push_movable_reserve grow oom = (v, thrown) \<and> pushed oom v thrown \<and> copied v = 0 \<and> moved v = 0"
  proof (cases "oom 0")
    case True
    then show ?thesis by (auto simp: BM_push_movable_reserve_def reserve_def PUSHES_def pushed_def)
  next
    case False
    let ?v = "\<lparr>elems = [], capacity = PUSHES, copied = 0, moved = 0, allocs = 1\<rparr>"
    have r: "reserve Movable oom PUSHES vec_new = (?v, False)"
      using False by (simp add: reserve_def vec_new_def transfer_def count_transfer_def nothrow_move_constructible_def PUSHES_def)
    have inv: "vec_inv ?v" "elems ?v = []" by (simp_all add: vec_inv_def vec_wf_def)
    obtain u d where e: "emplace_n Movable grow oom PUSHES ?v = (u, d)" by (cases "emplace_n Movable grow oom PUSHES ?v")
    show ?thesis using emplace_n_pushed [OF assms inv(1) e inv(2)] emplace_n_room [of ?v PUSHES, OF _ _ e]
      by (simp add: BM_push_movable_reserve_def r e vec_wf_def del: One_nat_def)
  qed
qed

theorem push_benchmarks_witness:
  "\<exists>v thrown. BM_push_fragile (\<lambda>c. 1 + 2 * c) (\<lambda>k. k = 100) = (v, thrown) \<and> pushed (\<lambda>k. k = 100) v thrown \<and> copied v \<le> 2 * length (elems v) \<and> moved v = 0"
  using push_benchmarks [of "\<lambda>c. 1 + 2 * c" "\<lambda>k. k = 100"] by (simp add: geometric_def)

text \<open>With the capacities of the common implementation, doubled from 1, the benchmark transfers 1023 elements.\<close>

definition doubling :: "nat \<Rightarrow> nat" where
  "doubling c = max 1 (2 * c)"

definition doubled :: "vec \<Rightarrow> bool" where
  "doubled v \<longleftrightarrow> elems v = [] \<and> capacity v = 0 \<and> copied v + moved v = 0 \<or>
     (\<exists>k. capacity v = 2 ^ k) \<and> copied v + moved v + 1 = capacity v \<and> length (elems v) \<le> capacity v \<and> capacity v < 2 * length (elems v)"

lemma emplace_back_doubled:
  assumes "doubled v" "emplace_back c doubling oom v = (v', thrown)"
  shows "doubled v'"
proof -
  have wf: "vec_wf v" using assms(1) by (auto simp: doubled_def vec_wf_def)
  show ?thesis
    using assms(2) wf
  proof (cases rule: emplace_back_cases)
    case grown
    show ?thesis
    proof (cases "capacity v = 0")
      case True
      then show ?thesis using assms(1) grown by (auto simp: doubled_def doubling_def intro: exI [of _ "0 :: nat"])
    next
      case False
      then obtain k where "capacity v = 2 ^ k" "copied v + moved v + 1 = capacity v" using assms(1) by (auto simp: doubled_def)
      moreover have "doubling (2 ^ k) = 2 ^ Suc k" by (simp add: doubling_def max_def)
      ultimately show ?thesis using grown by (auto simp: doubled_def intro: exI [of _ "Suc k"])
    qed
  qed (use assms(1) in \<open>auto simp: doubled_def\<close>)
qed

lemma emplace_n_doubled: "doubled v \<Longrightarrow> emplace_n c doubling oom n v = (v', thrown) \<Longrightarrow> doubled v'"
  by (induction n arbitrary: v) (auto split: prod.splits if_splits dest: emplace_back_doubled)

lemma power_between: "(2 :: nat) ^ k < 2 * 2 ^ n \<Longrightarrow> 2 ^ n \<le> (2 :: nat) ^ k \<Longrightarrow> k = n"
  using power_less_imp_less_exp [of "2 :: nat" k "Suc n"] power_le_imp_le_exp [of "2 :: nat" n k] by simp

theorem push_transfers:
  "copied (fst (BM_push_fragile doubling (\<lambda>_. False))) = 1023" "moved (fst (BM_push_movable doubling (\<lambda>_. False))) = 1023"
proof -
  have g: "geometric doubling" by (auto simp: geometric_def doubling_def max_def)
  have run: "copied v + moved v = 1023" if "emplace_n c doubling (\<lambda>_. False) PUSHES vec_new = (v, b)" for c v b
  proof -
    have "doubled v" using emplace_n_doubled [OF _ that] by (simp add: doubled_def)
    moreover have "length (elems v) = 2 ^ 10" using emplace_n_pushed [OF g vec_inv_new that] by (auto simp: pushed_def PUSHES_def split: if_splits)
    ultimately obtain k where k: "capacity v = 2 ^ k" "copied v + moved v + 1 = capacity v" "2 ^ 10 \<le> capacity v" "capacity v < 2 * 2 ^ 10" by (auto simp: doubled_def)
    then have "k = 10" using power_between [of k 10] by simp
    then show ?thesis using k by simp
  qed
  obtain v b where f: "emplace_n Fragile doubling (\<lambda>_. False) PUSHES vec_new = (v, b)" by (cases "emplace_n Fragile doubling (\<lambda>_. False) PUSHES vec_new")
  show "copied (fst (BM_push_fragile doubling (\<lambda>_. False))) = 1023"
    using run [OF f] emplace_n_pushed [OF g vec_inv_new f] by (simp add: BM_push_fragile_def f nothrow_move_constructible_def)
  obtain w d where m: "emplace_n Movable doubling (\<lambda>_. False) PUSHES vec_new = (w, d)" by (cases "emplace_n Movable doubling (\<lambda>_. False) PUSHES vec_new")
  show "moved (fst (BM_push_movable doubling (\<lambda>_. False))) = 1023"
    using run [OF m] emplace_n_pushed [OF g vec_inv_new m] by (simp add: BM_push_movable_def m nothrow_move_constructible_def)
qed

end
