(* ===== verification/Counters.thy ===== *)
theory Counters
  imports Prelude "HOL-Library.Word"
begin

text \<open>
  The program \<open>3_machine_below/1_performance_atlas/5_false_sharing.cpp\<close>: in every iteration two threads increment one atomic counter each, \<open>n\<close> times, in the packed (\<open>summer1\<close>) or in the padded (\<open>summer2\<close>) global,
  and are joined. The increments of a \<open>std::atomic<int>\<close> wrap around and are single steps, so a run is an interleaving of increments.
\<close>

record summer =
  sum1 :: "32 word"
  sum2 :: "32 word"

record summers =
  summer1 :: summer
  summer2 :: summer
  left1 :: nat
  left2 :: nat
  iterations :: nat
  running :: bool

text \<open>One increment of \<open>thread_summer_1\<close> or \<open>thread_summer_2\<close>, whose first argument selects the counter.\<close>

definition incr :: "int \<Rightarrow> summer \<Rightarrow> summer" where
  "incr idx s = (if idx = 1 then s\<lparr>sum1 := sum1 s + 1\<rparr> else s\<lparr>sum2 := sum2 s + 1\<rparr>)"

definition thread_summer_1 :: "int \<Rightarrow> summers \<Rightarrow> summers" where
  "thread_summer_1 idx s = s\<lparr>summer1 := incr idx (summer1 s)\<rparr>"

definition thread_summer_2 :: "int \<Rightarrow> summers \<Rightarrow> summers" where
  "thread_summer_2 idx s = s\<lparr>summer2 := incr idx (summer2 s)\<rparr>"

definition summer_body :: "int \<Rightarrow> int \<Rightarrow> summers \<Rightarrow> summers" where
  "summer_body summer_idx = (if summer_idx = 1 then thread_summer_1 else thread_summer_2)"

text \<open>The steps of \<open>BM_prediction\<close>: the threads of an iteration are started, each runs the loop \<open>for (int i = 0; i < n; i++)\<close>, and both are joined.\<close>

inductive BM_step :: "int \<Rightarrow> int \<Rightarrow> summers \<Rightarrow> summers \<Rightarrow> bool" for summer_idx n where
  start: "\<not> running s \<Longrightarrow> iterations s = Suc k \<Longrightarrow> BM_step summer_idx n s (s\<lparr>left1 := nat n, left2 := nat n, iterations := k, running := True\<rparr>)"
| th1: "running s \<Longrightarrow> left1 s = Suc k \<Longrightarrow> BM_step summer_idx n s (summer_body summer_idx 1 (s\<lparr>left1 := k\<rparr>))"
| th2: "running s \<Longrightarrow> left2 s = Suc k \<Longrightarrow> BM_step summer_idx n s (summer_body summer_idx 2 (s\<lparr>left2 := k\<rparr>))"
| join: "running s \<Longrightarrow> left1 s = 0 \<Longrightarrow> left2 s = 0 \<Longrightarrow> BM_step summer_idx n s (s\<lparr>running := False\<rparr>)"

definition BM_done :: "summers \<Rightarrow> bool" where
  "BM_done s \<longleftrightarrow> \<not> running s \<and> iterations s = 0"

definition BM_start :: "summer \<Rightarrow> summer \<Rightarrow> nat \<Rightarrow> summers" where
  "BM_start a b k = \<lparr>summer1 = a, summer2 = b, left1 = 0, left2 = 0, iterations = k, running = False\<rparr>"

lemma BM_start_fields [simp]: "left1 (BM_start a b k) = 0" "left2 (BM_start a b k) = 0" "iterations (BM_start a b k) = k" "running (BM_start a b k) = False"
  by (simp_all add: BM_start_def)

section \<open>No increment is lost\<close>

definition chosen :: "int \<Rightarrow> summers \<Rightarrow> summer" where
  "chosen summer_idx s = (if summer_idx = 1 then summer1 s else summer2 s)"

definition other :: "int \<Rightarrow> summers \<Rightarrow> summer" where
  "other summer_idx s = (if summer_idx = 1 then summer2 s else summer1 s)"

text \<open>What the counters will be at the end, given the increments that are still to come.\<close>

definition outcome :: "int \<Rightarrow> int \<Rightarrow> summers \<Rightarrow> 32 word \<times> 32 word \<times> summer" where
  "outcome summer_idx n s =
     (sum1 (chosen summer_idx s) + of_nat (left1 s + iterations s * nat n), sum2 (chosen summer_idx s) + of_nat (left2 s + iterations s * nat n), other summer_idx s)"

definition idle :: "summers \<Rightarrow> bool" where
  "idle s \<longleftrightarrow> (running s \<or> left1 s = 0 \<and> left2 s = 0)"

lemmas counter_defs = outcome_def chosen_def other_def idle_def summer_body_def thread_summer_1_def thread_summer_2_def incr_def

lemma BM_step_outcome: "BM_step summer_idx n s s' \<Longrightarrow> idle s \<Longrightarrow> idle s' \<and> outcome summer_idx n s' = outcome summer_idx n s"
  by (induction rule: BM_step.induct) (simp_all add: counter_defs algebra_simps)

lemma BM_steps_outcome: "(BM_step summer_idx n)\<^sup>*\<^sup>* s s' \<Longrightarrow> idle s \<Longrightarrow> idle s' \<and> outcome summer_idx n s' = outcome summer_idx n s"
  by (induction rule: rtranclp_induct) (use BM_step_outcome in auto)

text \<open>Every run is finite, and one that cannot go on has finished.\<close>

definition work_left :: "int \<Rightarrow> summers \<Rightarrow> nat" where
  "work_left n s = left1 s + left2 s + iterations s * (2 * nat n + 2) + of_bool (running s)"

lemma BM_step_work: "BM_step summer_idx n s s' \<Longrightarrow> idle s \<Longrightarrow> work_left n s' < work_left n s"
  by (induction rule: BM_step.induct) (simp_all add: work_left_def idle_def summer_body_def thread_summer_1_def thread_summer_2_def)

lemma BM_step_progress: "BM_done s \<or> (\<exists>s'. BM_step summer_idx n s s')"
proof (cases "running s")
  case True
  then show ?thesis using BM_step.th1 BM_step.th2 BM_step.join by (metis not0_implies_Suc)
next
  case False
  then show ?thesis using BM_step.start [of s _ summer_idx n] by (cases "iterations s") (auto simp: BM_done_def)
qed

lemma BM_step_finishes: "idle s \<Longrightarrow> \<exists>s'. (BM_step summer_idx n)\<^sup>*\<^sup>* s s' \<and> BM_done s'"
proof (induction "work_left n s" arbitrary: s rule: less_induct)
  case less
  show ?case
  proof (cases "BM_done s")
    case False
    then obtain t where t: "BM_step summer_idx n s t" using BM_step_progress by blast
    then have "\<exists>s'. (BM_step summer_idx n)\<^sup>*\<^sup>* t s' \<and> BM_done s'" using less BM_step_work [OF t less.prems] BM_step_outcome [OF t less.prems] by blast
    then show ?thesis using t by (meson converse_rtranclp_into_rtranclp)
  qed auto
qed

text \<open>
  However the increments of the two threads interleave, the benchmark finishes, and in every state in which it has finished the two counters it works on have grown by the number of iterations times \<open>n\<close>, modulo
  \<open>2 ^ 32\<close>, while the other pair is unchanged.
\<close>

theorem counters_exact:
  "(\<exists>s. (BM_step summer_idx n)\<^sup>*\<^sup>* (BM_start a b k) s \<and> BM_done s) \<and>
   ((BM_step summer_idx n)\<^sup>*\<^sup>* (BM_start a b k) s \<longrightarrow> BM_done s \<longrightarrow>
     chosen summer_idx s = \<lparr>sum1 = sum1 (chosen summer_idx (BM_start a b k)) + of_nat (k * nat n), sum2 = sum2 (chosen summer_idx (BM_start a b k)) + of_nat (k * nat n)\<rparr> \<and>
     other summer_idx s = other summer_idx (BM_start a b k))"
proof -
  have i: "idle (BM_start a b k)" by (simp add: idle_def)
  have "sum1 (chosen summer_idx s) = sum1 (chosen summer_idx (BM_start a b k)) + of_nat (k * nat n)" "sum2 (chosen summer_idx s) = sum2 (chosen summer_idx (BM_start a b k)) + of_nat (k * nat n)"
    "other summer_idx s = other summer_idx (BM_start a b k)" if r: "(BM_step summer_idx n)\<^sup>*\<^sup>* (BM_start a b k) s" and d: "BM_done s"
    using BM_steps_outcome [OF r i] d by (auto simp: outcome_def idle_def BM_done_def)
  then show ?thesis using BM_step_finishes [OF i] by (auto intro: summer.equality)
qed

theorem counters_exact_witness:
  "\<exists>s. (BM_step 0 2)\<^sup>*\<^sup>* (BM_start \<lparr>sum1 = 0, sum2 = 0\<rparr> \<lparr>sum1 = 0, sum2 = - 1\<rparr> 3) s \<and> BM_done s \<and> summer1 s = \<lparr>sum1 = 0, sum2 = 0\<rparr> \<and> summer2 s = \<lparr>sum1 = 6, sum2 = 5\<rparr>"
  using counters_exact [of 0 2 "\<lparr>sum1 = 0, sum2 = 0\<rparr>" "\<lparr>sum1 = 0, sum2 = - 1\<rparr>" 3] by (auto simp: chosen_def other_def BM_start_def)

end
