(* ===== verification/Unrolled.thy ===== *)
theory Unrolled
  imports Prelude "HOL-Library.Monad_Syntax"
begin

text \<open>
  The seven sums of \<open>1_mem_allocator/theory/performance.c\<close> and the sum over a matrix of \<open>theory/bench.c\<close>. The element type \<open>data_t\<close>, the operation \<open>OP\<close> and the neutral element \<open>IDENT\<close>,
  macros of the file (\<open>double\<close>, its addition and 0), are the parameters \<open>'a\<close>, \<open>f\<close> and \<open>e\<close>. Nothing is assumed of them, so what is shown holds for floating-point
  addition, which is not associative: in which order, and how grouped, each routine combines the elements. Arrays and the cell \<open>*dest\<close> live in one store of elements, so that \<open>dest\<close> may point into the array. An access outside the allocated
  cells is undefined behaviour, \<open>None\<close>. Indices are natural numbers: a length that an \<open>int\<close> can hold and that is a multiple of sixteen is at most \<open>2 ^ 31 - 16\<close>, and no index passes it.
\<close>

type_synonym 'a store = "nat \<Rightarrow> 'a option"

definition put :: "nat \<Rightarrow> 'a \<Rightarrow> 'a store \<Rightarrow> 'a store option" where
  "put a x m = (case m a of None \<Rightarrow> None | Some _ \<Rightarrow> Some (m(a \<mapsto> x)))"

section \<open>The sums\<close>

text \<open>The loop of \<open>sum_1\<close> reads and writes the accumulator through \<open>dest\<close>.\<close>

fun sum_1_loop :: "('a \<Rightarrow> 'a \<Rightarrow> 'a) \<Rightarrow> nat \<Rightarrow> nat \<Rightarrow> nat list \<Rightarrow> 'a store \<Rightarrow> 'a store option" where
  "sum_1_loop f v dest [] m = Some m"
| "sum_1_loop f v dest (i # is) m = do { a \<leftarrow> m dest; x \<leftarrow> m (v + i); m \<leftarrow> put dest (f a x) m; sum_1_loop f v dest is m }"

definition sum_1 :: "('a \<Rightarrow> 'a \<Rightarrow> 'a) \<Rightarrow> 'a \<Rightarrow> nat \<Rightarrow> nat \<Rightarrow> nat \<Rightarrow> 'a store \<Rightarrow> 'a store option" where
  "sum_1 f e v len dest m = do { m \<leftarrow> put dest e m; sum_1_loop f v dest [0..<len] m }"

fun sum_2_loop :: "('a \<Rightarrow> 'a \<Rightarrow> 'a) \<Rightarrow> nat \<Rightarrow> nat list \<Rightarrow> 'a store \<Rightarrow> 'a \<Rightarrow> 'a option" where
  "sum_2_loop f v [] m acc = Some acc"
| "sum_2_loop f v (i # is) m acc = do { x \<leftarrow> m (v + i); sum_2_loop f v is m (f acc x) }"

definition sum_2 :: "('a \<Rightarrow> 'a \<Rightarrow> 'a) \<Rightarrow> 'a \<Rightarrow> nat \<Rightarrow> nat \<Rightarrow> nat \<Rightarrow> 'a store \<Rightarrow> 'a store option" where
  "sum_2 f e v len dest m = do { acc \<leftarrow> sum_2_loop f v [0..<len] m e; put dest acc m }"

function sum_3_loop :: "('a \<Rightarrow> 'a \<Rightarrow> 'a) \<Rightarrow> nat \<Rightarrow> nat \<Rightarrow> nat \<Rightarrow> 'a store \<Rightarrow> 'a \<Rightarrow> 'a option" where
  "sum_3_loop f v len i m acc =
     (if i < len then do { x \<leftarrow> m (v + i); y \<leftarrow> m (v + i + 1); sum_3_loop f v len (i + 2) m (f (f acc x) y) } else Some acc)"
  by pat_completeness auto
termination by (relation "measure (\<lambda>(f, v, len, i, m, acc). len - i)") auto

definition sum_3 :: "('a \<Rightarrow> 'a \<Rightarrow> 'a) \<Rightarrow> 'a \<Rightarrow> nat \<Rightarrow> nat \<Rightarrow> nat \<Rightarrow> 'a store \<Rightarrow> 'a store option" where
  "sum_3 f e v len dest m = do { acc \<leftarrow> sum_3_loop f v len 0 m e; put dest acc m }"

function sum_4_loop :: "('a \<Rightarrow> 'a \<Rightarrow> 'a) \<Rightarrow> nat \<Rightarrow> nat \<Rightarrow> nat \<Rightarrow> 'a store \<Rightarrow> 'a \<Rightarrow> 'a \<Rightarrow> ('a \<times> 'a) option" where
  "sum_4_loop f v len i m acc1 acc2 =
     (if i + 1 < len then do { x \<leftarrow> m (v + i); y \<leftarrow> m (v + i + 1); sum_4_loop f v len (i + 2) m (f acc1 x) (f acc2 y) } else Some (acc1, acc2))"
  by pat_completeness auto
termination by (relation "measure (\<lambda>(f, v, len, i, m, acc1, acc2). len - i)") auto

definition sum_4 :: "('a \<Rightarrow> 'a \<Rightarrow> 'a) \<Rightarrow> 'a \<Rightarrow> nat \<Rightarrow> nat \<Rightarrow> nat \<Rightarrow> 'a store \<Rightarrow> 'a store option" where
  "sum_4 f e v len dest m = do { (acc1, acc2) \<leftarrow> sum_4_loop f v len 0 m e e; put dest (f acc1 acc2) m }"

function sum_5_loop :: "('a \<Rightarrow> 'a \<Rightarrow> 'a) \<Rightarrow> nat \<Rightarrow> nat \<Rightarrow> nat \<Rightarrow> 'a store \<Rightarrow> 'a \<Rightarrow> 'a \<Rightarrow> 'a \<Rightarrow> 'a \<Rightarrow> ('a \<times> 'a \<times> 'a \<times> 'a) option" where
  "sum_5_loop f v len i m acc1 acc2 acc3 acc4 =
     (if i + 3 < len then do {
        x1 \<leftarrow> m (v + i); x2 \<leftarrow> m (v + i + 1); x3 \<leftarrow> m (v + i + 2); x4 \<leftarrow> m (v + i + 3);
        sum_5_loop f v len (i + 4) m (f acc1 x1) (f acc2 x2) (f acc3 x3) (f acc4 x4) }
      else Some (acc1, acc2, acc3, acc4))"
  by pat_completeness auto
termination by (relation "measure (\<lambda>(f, v, len, i, m, acc1, acc2, acc3, acc4). len - i)") auto

definition sum_5 :: "('a \<Rightarrow> 'a \<Rightarrow> 'a) \<Rightarrow> 'a \<Rightarrow> nat \<Rightarrow> nat \<Rightarrow> nat \<Rightarrow> 'a store \<Rightarrow> 'a store option" where
  "sum_5 f e v len dest m = do { (acc1, acc2, acc3, acc4) \<leftarrow> sum_5_loop f v len 0 m e e e e; put dest (f (f acc1 acc2) (f acc3 acc4)) m }"

function sum_6_loop :: "('a \<Rightarrow> 'a \<Rightarrow> 'a) \<Rightarrow> nat \<Rightarrow> nat \<Rightarrow> nat \<Rightarrow> 'a store \<Rightarrow> 'a \<Rightarrow> 'a option" where
  "sum_6_loop f v len i m acc =
     (if i < len then do { x \<leftarrow> m (v + i); y \<leftarrow> m (v + i + 1); sum_6_loop f v len (i + 2) m (f acc (f x y)) } else Some acc)"
  by pat_completeness auto
termination by (relation "measure (\<lambda>(f, v, len, i, m, acc). len - i)") auto

definition sum_6 :: "('a \<Rightarrow> 'a \<Rightarrow> 'a) \<Rightarrow> 'a \<Rightarrow> nat \<Rightarrow> nat \<Rightarrow> nat \<Rightarrow> 'a store \<Rightarrow> 'a store option" where
  "sum_6 f e v len dest m = do { acc \<leftarrow> sum_6_loop f v len 0 m e; put dest acc m }"

text \<open>Four consecutive elements, combined from the left: a line of the body of \<open>sum_7\<close>.\<close>

definition four :: "('a \<Rightarrow> 'a \<Rightarrow> 'a) \<Rightarrow> nat \<Rightarrow> 'a store \<Rightarrow> 'a option" where
  "four f a m = do { x1 \<leftarrow> m a; x2 \<leftarrow> m (a + 1); x3 \<leftarrow> m (a + 2); x4 \<leftarrow> m (a + 3); Some (f (f (f x1 x2) x3) x4) }"

function sum_7_loop :: "('a \<Rightarrow> 'a \<Rightarrow> 'a) \<Rightarrow> nat \<Rightarrow> nat \<Rightarrow> nat \<Rightarrow> 'a store \<Rightarrow> 'a \<Rightarrow> 'a \<Rightarrow> 'a \<Rightarrow> 'a \<Rightarrow> ('a \<times> 'a \<times> 'a \<times> 'a) option" where
  "sum_7_loop f v len i m acc1 acc2 acc3 acc4 =
     (if i < len then do {
        x1 \<leftarrow> four f (v + i) m; x2 \<leftarrow> four f (v + i + 4) m; x3 \<leftarrow> four f (v + i + 8) m; x4 \<leftarrow> four f (v + i + 12) m;
        sum_7_loop f v len (i + 16) m (f acc1 x1) (f acc2 x2) (f acc3 x3) (f acc4 x4) }
      else Some (acc1, acc2, acc3, acc4))"
  by pat_completeness auto
termination by (relation "measure (\<lambda>(f, v, len, i, m, acc1, acc2, acc3, acc4). len - i)") auto

definition sum_7 :: "('a \<Rightarrow> 'a \<Rightarrow> 'a) \<Rightarrow> 'a \<Rightarrow> nat \<Rightarrow> nat \<Rightarrow> nat \<Rightarrow> 'a store \<Rightarrow> 'a store option" where
  "sum_7 f e v len dest m = do { (acc1, acc2, acc3, acc4) \<leftarrow> sum_7_loop f v len 0 m e e e e; put dest (f (f acc1 acc2) (f acc3 acc4)) m }"

declare sum_3_loop.simps [simp del] sum_4_loop.simps [simp del] sum_5_loop.simps [simp del] sum_6_loop.simps [simp del] sum_7_loop.simps [simp del]

text \<open>The matrix sum of \<open>bench.c\<close>, whose operation is the addition of \<open>double\<close> and whose total starts at 0.\<close>

function row_loop :: "('a \<Rightarrow> 'a \<Rightarrow> 'a) \<Rightarrow> nat \<Rightarrow> nat \<Rightarrow> nat \<Rightarrow> nat \<Rightarrow> 'a store \<Rightarrow> 'a \<Rightarrow> 'a option" where
  "row_loop f mat n i j m tot =
     (if j < n then do { x \<leftarrow> m (mat + i * n + j); y \<leftarrow> m (mat + i * n + j + 1); row_loop f mat n i (j + 2) m (f tot (f x y)) } else Some tot)"
  by pat_completeness auto
termination by (relation "measure (\<lambda>(f, mat, n, i, j, m, tot). n - j)") auto

declare row_loop.simps [simp del]

fun rows_loop :: "('a \<Rightarrow> 'a \<Rightarrow> 'a) \<Rightarrow> nat \<Rightarrow> nat \<Rightarrow> nat list \<Rightarrow> 'a store \<Rightarrow> 'a \<Rightarrow> 'a option" where
  "rows_loop f mat n [] m tot = Some tot"
| "rows_loop f mat n (i # is) m tot = do { tot \<leftarrow> row_loop f mat n i 0 m tot; rows_loop f mat n is m tot }"

definition sum_flat_rowmajor :: "('a \<Rightarrow> 'a \<Rightarrow> 'a) \<Rightarrow> 'a \<Rightarrow> nat \<Rightarrow> nat \<Rightarrow> 'a store \<Rightarrow> 'a option" where
  "sum_flat_rowmajor f zero mat n m = rows_loop f mat n [0..<n] m zero"

section \<open>The array in the store\<close>

definition holds_array :: "'a store \<Rightarrow> nat \<Rightarrow> 'a list \<Rightarrow> bool" where
  "holds_array m v xs \<longleftrightarrow> list_all (\<lambda>i. m (v + i) = Some (xs ! i)) [0..<length xs]"

lemma holds_array_nth: "holds_array m v xs \<Longrightarrow> i < length xs \<Longrightarrow> m (v + i) = Some (xs ! i)"
  by (simp add: holds_array_def list_all_iff)

lemma holds_array_at: "holds_array m v xs \<Longrightarrow> i + k < length xs \<Longrightarrow> m (v + i + k) = Some (xs ! (i + k))"
  using holds_array_nth [of m v xs "i + k"] by (simp add: add.assoc)

lemma put_cell: "a \<in> dom m \<Longrightarrow> put a x m = Some (m(a \<mapsto> x))"
  by (auto simp: put_def)

text \<open>The elements from an index on.\<close>

lemma drop_two: "i + 1 < length xs \<Longrightarrow> drop i xs = xs ! i # xs ! (i + 1) # drop (i + 2) xs"
  by (simp add: Cons_nth_drop_Suc)

lemma drop_four: "i + 3 < length xs \<Longrightarrow> drop i xs = xs ! i # xs ! (i + 1) # xs ! (i + 2) # xs ! (i + 3) # drop (i + 4) xs"
  using drop_two [of i xs] drop_two [of "i + 2" xs] by (simp add: numeral_eq_Suc)

lemma sum_1_loop_fold:
  assumes "dest \<notin> {v..<v + len}" "holds_array m v xs" "len = length xs" "m dest = Some a" "k \<le> len"
  shows "sum_1_loop f v dest [k..<len] m = Some (m(dest \<mapsto> foldl f a (drop k xs)))"
  using assms
proof (induction "len - k" arbitrary: k m a)
  case 0
  then show ?case by (simp add: map_upd_triv)
next
  case (Suc n)
  then have k: "k < length xs" by simp
  have "holds_array (m(dest \<mapsto> f a (xs ! k))) v xs" using Suc.prems(1-3) by (auto simp: holds_array_def list_all_iff)
  then have "sum_1_loop f v dest [Suc k..<len] (m(dest \<mapsto> f a (xs ! k))) = Some (m(dest \<mapsto> foldl f (f a (xs ! k)) (drop (Suc k) xs)))"
    using Suc.hyps(1) [of "Suc k" "m(dest \<mapsto> f a (xs ! k))"] Suc.hyps(2) Suc.prems by simp
  then show ?case using k Suc.prems holds_array_nth [OF Suc.prems(2) k] by (simp add: upt_conv_Cons put_def Cons_nth_drop_Suc [symmetric])
qed

lemma sum_2_loop_fold:
  assumes "holds_array m v xs" "k \<le> length xs"
  shows "sum_2_loop f v [k..<length xs] m a = Some (foldl f a (drop k xs))"
  using assms(2)
proof (induction "length xs - k" arbitrary: k a)
  case (Suc n)
  then have k: "k < length xs" by simp
  show ?case using Suc.hyps(1) [of "Suc k"] Suc.hyps(2) k holds_array_nth [OF assms(1) k] by (simp add: upt_conv_Cons Cons_nth_drop_Suc [symmetric])
qed simp

lemma sum_3_loop_fold:
  assumes "holds_array m v xs" "even (length xs - i)" "i \<le> length xs"
  shows "sum_3_loop f v (length xs) i m a = Some (foldl f a (drop i xs))"
  using assms(2,3)
proof (induction "length xs - i" arbitrary: i a rule: less_induct)
  case less
  show ?case
  proof (cases "i < length xs")
    case True
    then have i: "i + 1 < length xs" using less.prems by (cases "length xs - i = 1") auto
    have "sum_3_loop f v (length xs) (i + 2) m (f (f a (xs ! i)) (xs ! (i + 1))) = Some (foldl f (f (f a (xs ! i)) (xs ! (i + 1))) (drop (i + 2) xs))"
      using less.hyps [of "i + 2"] less.prems i by auto
    then show ?thesis using i holds_array_nth [OF assms(1) True] holds_array_at [OF assms(1) i]
      by (simp add: sum_3_loop.simps [of f v _ i] drop_two [OF i] del: One_nat_def add_2_eq_Suc')
  qed (use less.prems in \<open>subst sum_3_loop.simps, simp\<close>)
qed

text \<open>An odd number of elements makes the two loops that advance by two and test only \<open>i < len\<close> read the cell after the array.\<close>

lemma sum_3_loop_past:
  assumes "holds_array m v xs" "odd (length xs - i)" "m (v + length xs) = None"
  shows "sum_3_loop f v (length xs) i m a = None" "sum_6_loop f v (length xs) i m a = None"
proof -
  have "sum_3_loop f v (length xs) i m a = None \<and> sum_6_loop f v (length xs) i m a = None"
    using assms(2)
  proof (induction "length xs - i" arbitrary: i a rule: less_induct)
    case less
    then have i: "i < length xs" by (cases "i < length xs") auto
    show ?case
    proof (cases "i + 1 = length xs")
      case True
      then have "m (v + i + 1) = None" using assms(3) by (metis add.assoc)
      then show ?thesis using holds_array_nth [OF assms(1) i] i by (simp add: sum_3_loop.simps [of f v _ i] sum_6_loop.simps [of f v _ i])
    next
      case False
      then have j: "i + 1 < length xs" using i by simp
      have "sum_3_loop f v (length xs) (i + 2) m b = None" "sum_6_loop f v (length xs) (i + 2) m b = None" for b
        using less.hyps [of "i + 2"] less.prems j by auto
      then show ?thesis using i holds_array_nth [OF assms(1) i] holds_array_at [OF assms(1) j]
        by (simp add: sum_3_loop.simps [of f v _ i] sum_6_loop.simps [of f v _ i] del: One_nat_def add_2_eq_Suc')
    qed
  qed
  then show "sum_3_loop f v (length xs) i m a = None" "sum_6_loop f v (length xs) i m a = None" by simp_all
qed

section \<open>The order of the additions\<close>

text \<open>Every \<open>k\<close>-th element from element \<open>r\<close> on, as far as whole groups of \<open>k\<close> go, and the groups of two and four combined.\<close>

definition lane :: "nat \<Rightarrow> nat \<Rightarrow> 'a list \<Rightarrow> 'a list" where
  "lane k r xs = map (\<lambda>j. xs ! (k * j + r)) [0..<length xs div k]"

definition pairs :: "('a \<Rightarrow> 'a \<Rightarrow> 'a) \<Rightarrow> 'a list \<Rightarrow> 'a list" where
  "pairs f xs = map (\<lambda>j. f (xs ! (2 * j)) (xs ! (2 * j + 1))) [0..<length xs div 2]"

definition quads :: "('a \<Rightarrow> 'a \<Rightarrow> 'a) \<Rightarrow> 'a list \<Rightarrow> 'a list" where
  "quads f xs = map (\<lambda>j. f (f (f (xs ! (4 * j)) (xs ! (4 * j + 1))) (xs ! (4 * j + 2))) (xs ! (4 * j + 3))) [0..<length xs div 4]"

definition two_lanes :: "('a \<Rightarrow> 'a \<Rightarrow> 'a) \<Rightarrow> 'a \<Rightarrow> 'a list \<Rightarrow> 'a" where
  "two_lanes f e xs = f (foldl f e (lane 2 0 xs)) (foldl f e (lane 2 1 xs))"

definition four_lanes :: "('a \<Rightarrow> 'a \<Rightarrow> 'a) \<Rightarrow> 'a \<Rightarrow> 'a list \<Rightarrow> 'a" where
  "four_lanes f e xs = f (f (foldl f e (lane 4 0 xs)) (foldl f e (lane 4 1 xs))) (f (foldl f e (lane 4 2 xs)) (foldl f e (lane 4 3 xs)))"

lemma length_parts [simp]: "length (lane k r xs) = length xs div k" "length (pairs f xs) = length xs div 2" "length (quads f xs) = length xs div 4"
  by (simp_all add: lane_def pairs_def quads_def)

lemma drop_lane: "j < length xs div k \<Longrightarrow> drop j (lane k r xs) = xs ! (k * j + r) # drop (Suc j) (lane k r xs)"
  by (simp add: Cons_nth_drop_Suc [symmetric]) (simp add: lane_def)

lemma drop_pairs: "j < length xs div 2 \<Longrightarrow> drop j (pairs f xs) = f (xs ! (2 * j)) (xs ! (2 * j + 1)) # drop (Suc j) (pairs f xs)"
  by (simp add: Cons_nth_drop_Suc [symmetric]) (simp add: pairs_def)

text \<open>The groups of \<open>k\<close> elements lie in the array, and leave fewer than \<open>k\<close> of them out.\<close>

lemma group_inside:
  assumes "j < n div k" "r < k"
  shows "k * j + r < (n :: nat)"
proof -
  have "k * Suc j \<le> k * (n div k)" using assms(1) by (intro mult_le_mono2) simp
  also have "\<dots> \<le> n" by (rule times_div_less_eq_dividend)
  finally show ?thesis using assms(2) by simp
qed

lemma group_last: "0 < k \<Longrightarrow> \<not> k * (n div k) + (k - 1) < (n :: nat)"
  using mult_div_mod_eq [of k n] mod_less_divisor [of k n] by linarith

lemma sum_4_loop_lanes:
  assumes "holds_array m v xs" "j \<le> length xs div 2"
  shows "sum_4_loop f v (length xs) (2 * j) m a1 a2 = Some (foldl f a1 (drop j (lane 2 0 xs)), foldl f a2 (drop j (lane 2 1 xs)))"
  using assms(2)
proof (induction "length xs div 2 - j" arbitrary: j a1 a2)
  case 0
  then have j: "j = length xs div 2" by simp
  have "\<not> 2 * j + 1 < length xs" unfolding j using group_last [of 2 "length xs"] by simp
  then show ?case by (simp add: sum_4_loop.simps)
next
  case (Suc n)
  then have j: "j < length xs div 2" by simp
  have j: "j < length xs div 2" "2 * j + 1 < length xs" using j group_inside [OF j, of 1] by simp_all
  have at: "m (v + 2 * j) = Some (xs ! (2 * j))" "m (v + 2 * j + 1) = Some (xs ! (2 * j + 1))"
    using holds_array_nth [OF assms(1), of "2 * j"] holds_array_at [OF assms(1) j(2)] j(2) by simp_all
  have "sum_4_loop f v (length xs) (2 * Suc j) m b1 b2 = Some (foldl f b1 (drop (Suc j) (lane 2 0 xs)), foldl f b2 (drop (Suc j) (lane 2 1 xs)))" for b1 b2
    using Suc.hyps j(1) by (intro Suc.hyps(1)) simp_all
  then show ?case using j(2) at by (simp add: sum_4_loop.simps [of f v _ "2 * j"] drop_lane [OF j(1)])
qed

lemma sum_5_loop_lanes:
  assumes "holds_array m v xs" "j \<le> length xs div 4"
  shows "sum_5_loop f v (length xs) (4 * j) m a1 a2 a3 a4 =
    Some (foldl f a1 (drop j (lane 4 0 xs)), foldl f a2 (drop j (lane 4 1 xs)), foldl f a3 (drop j (lane 4 2 xs)), foldl f a4 (drop j (lane 4 3 xs)))"
  using assms(2)
proof (induction "length xs div 4 - j" arbitrary: j a1 a2 a3 a4)
  case 0
  then have j: "j = length xs div 4" by simp
  have "\<not> 4 * j + 3 < length xs" unfolding j using group_last [of 4 "length xs"] by simp
  then show ?case by (simp add: sum_5_loop.simps)
next
  case (Suc n)
  then have j: "j < length xs div 4" by simp
  have j: "j < length xs div 4" "4 * j + 3 < length xs" using j group_inside [OF j, of 3] by simp_all
  have "m (v + 4 * j + i) = Some (xs ! (4 * j + i))" if "i < 4" for i using j(2) that by (intro holds_array_at [OF assms(1)]) simp
  note at = this [of 0, simplified] this [of 1, simplified] this [of 2, simplified] this [of 3, simplified]
  have "sum_5_loop f v (length xs) (4 * Suc j) m b1 b2 b3 b4 = Some (foldl f b1 (drop (Suc j) (lane 4 0 xs)), foldl f b2 (drop (Suc j) (lane 4 1 xs)),
      foldl f b3 (drop (Suc j) (lane 4 2 xs)), foldl f b4 (drop (Suc j) (lane 4 3 xs)))" for b1 b2 b3 b4
    using Suc.hyps j(1) by (intro Suc.hyps(1)) simp_all
  then show ?case using j(2) at by (simp add: sum_5_loop.simps [of f v _ "4 * j"] add.commute [of _ 4] drop_lane [OF j(1)])
qed

lemma sum_6_loop_pairs:
  assumes "holds_array m v xs" "even (length xs)" "j \<le> length xs div 2"
  shows "sum_6_loop f v (length xs) (2 * j) m a = Some (foldl f a (drop j (pairs f xs)))"
  using assms(3)
proof (induction "length xs div 2 - j" arbitrary: j a)
  case 0
  then have j: "j = length xs div 2" by simp
  have "2 * j = length xs" unfolding j using assms(2) by (rule dvd_mult_div_cancel)
  then show ?case by (simp add: sum_6_loop.simps)
next
  case (Suc n)
  then have j: "j < length xs div 2" by simp
  have j: "j < length xs div 2" "2 * j + 1 < length xs" using j group_inside [OF j, of 1] by simp_all
  have at: "m (v + 2 * j) = Some (xs ! (2 * j))" "m (v + 2 * j + 1) = Some (xs ! (2 * j + 1))"
    using holds_array_nth [OF assms(1), of "2 * j"] holds_array_at [OF assms(1) j(2)] j(2) by simp_all
  have "sum_6_loop f v (length xs) (2 * Suc j) m b = Some (foldl f b (drop (Suc j) (pairs f xs)))" for b
    using Suc.hyps j(1) by (intro Suc.hyps(1)) simp_all
  then show ?case using j(2) at by (simp add: sum_6_loop.simps [of f v _ "2 * j"] drop_pairs [OF j(1)])
qed

lemma four_quad:
  assumes "holds_array m v xs" "j < length xs div 4" "a = v + 4 * j"
  shows "four f a m = Some (quads f xs ! j)"
proof -
  have j: "4 * j + 3 < length xs" using assms(2) by (intro group_inside) simp_all
  have "m (a + i) = Some (xs ! (4 * j + i))" if "i < 4" for i
    using holds_array_at [OF assms(1), of "4 * j" i] j that by (simp add: assms(3))
  from this [of 0] this [of 1] this [of 2] this [of 3] show ?thesis using assms(2) by (simp add: four_def quads_def del: One_nat_def)
qed

lemma sum_7_loop_lanes:
  assumes "holds_array m v xs" "16 dvd length xs" "j \<le> length xs div 16"
  shows "sum_7_loop f v (length xs) (16 * j) m a1 a2 a3 a4 = (let ys = quads f xs in
    Some (foldl f a1 (drop j (lane 4 0 ys)), foldl f a2 (drop j (lane 4 1 ys)), foldl f a3 (drop j (lane 4 2 ys)), foldl f a4 (drop j (lane 4 3 ys))))"
  using assms(3)
proof (induction "length xs div 16 - j" arbitrary: j a1 a2 a3 a4)
  case 0
  then have j: "j = length xs div 16" by simp
  have "16 * j = length xs" unfolding j using assms(2) by (rule dvd_mult_div_cancel)
  then show ?case by (simp add: sum_7_loop.simps div_mult2_eq [symmetric])
next
  case (Suc n)
  let ?ys = "quads f xs"
  have j: "j < length xs div 16" "j < length ?ys div 4" "16 * j < length xs" using Suc.hyps(2) by (simp_all add: div_mult2_eq [symmetric])
  then have q: "4 * j + 3 < length xs div 4" by simp
  have at: "four f (v + 16 * j) m = Some (?ys ! (4 * j))" "four f (v + 16 * j + 4) m = Some (?ys ! (4 * j + 1))"
    "four f (v + 16 * j + 8) m = Some (?ys ! (4 * j + 2))" "four f (v + 16 * j + 12) m = Some (?ys ! (4 * j + 3))"
    by (rule four_quad [OF assms(1)], use q in simp, simp)+
  have "sum_7_loop f v (length xs) (16 * Suc j) m b1 b2 b3 b4 = (let ys = ?ys in Some (foldl f b1 (drop (Suc j) (lane 4 0 ys)), foldl f b2 (drop (Suc j) (lane 4 1 ys)),
      foldl f b3 (drop (Suc j) (lane 4 2 ys)), foldl f b4 (drop (Suc j) (lane 4 3 ys))))" for b1 b2 b3 b4
    using Suc.hyps j(1) by (intro Suc.hyps(1)) simp_all
  then show ?case using j(3) at by (simp add: Let_def sum_7_loop.simps [of f v _ "16 * j"] add.commute [of _ 16] drop_lane [OF j(2)])
qed

section \<open>The sums\<close>

text \<open>
  C40: For every operation and every initial value, in particular the addition of doubles and zero, when \<open>dest\<close> lies outside the array and the length, an \<open>int\<close>, is a multiple of sixteen, as the length 4000 of the program, each
  of the seven sums is defined, changes \<open>*dest\<close> alone, and stores there a value that depends on nothing but the elements: the first three combine the elements from the left, so that they store the same value to the bit; \<open>sum_4\<close> and
  \<open>sum_5\<close> combine every second and every fourth element and then the partial sums; \<open>sum_6\<close> combines the sums of the pairs from the left; \<open>sum_7\<close> does with the sums of the
  groups of four what \<open>sum_5\<close> does with the elements.
\<close>

theorem unrolled_sums_evaluate:
  assumes "holds_array m v xs" "dest \<in> dom m" "dest \<notin> {v..<v + length xs}" "16 dvd length xs" "length xs < 2 ^ 31"
  shows "list_all (\<lambda>(sum_k, y). sum_k f e v (length xs) dest m = Some (m(dest \<mapsto> y)))
    [(sum_1, foldl f e xs), (sum_2, foldl f e xs), (sum_3, foldl f e xs), (sum_4, two_lanes f e xs), (sum_5, four_lanes f e xs),
     (sum_6, foldl f e (pairs f xs)), (sum_7, four_lanes f e (quads f xs))]"
proof -
  have ev: "even (length xs)" using assms(4) by (rule dvd_trans [rotated]) simp
  have p: "put dest x m = Some (m(dest \<mapsto> x))" for x using put_cell [OF assms(2)] .
  have "holds_array (m(dest \<mapsto> e)) v xs" using assms(1,3) by (auto simp: holds_array_def list_all_iff)
  then have s1: "sum_1 f e v (length xs) dest m = Some (m(dest \<mapsto> foldl f e xs))"
    using sum_1_loop_fold [OF assms(3), of "m(dest \<mapsto> e)" xs e 0 f] p by (simp add: sum_1_def)
  have s2: "sum_2 f e v (length xs) dest m = Some (m(dest \<mapsto> foldl f e xs))"
    using sum_2_loop_fold [OF assms(1), of 0 f e] p by (simp add: sum_2_def)
  have s3: "sum_3 f e v (length xs) dest m = Some (m(dest \<mapsto> foldl f e xs))"
    using sum_3_loop_fold [OF assms(1), of 0 f e] p ev by (simp add: sum_3_def)
  have s4: "sum_4 f e v (length xs) dest m = Some (m(dest \<mapsto> two_lanes f e xs))"
    using sum_4_loop_lanes [OF assms(1), of 0 f e e] p by (simp add: sum_4_def two_lanes_def)
  have s5: "sum_5 f e v (length xs) dest m = Some (m(dest \<mapsto> four_lanes f e xs))"
    using sum_5_loop_lanes [OF assms(1), of 0 f e e e e] p by (simp add: sum_5_def four_lanes_def)
  have s6: "sum_6 f e v (length xs) dest m = Some (m(dest \<mapsto> foldl f e (pairs f xs)))"
    using sum_6_loop_pairs [OF assms(1) ev, of 0 f e] p by (simp add: sum_6_def)
  have s7: "sum_7 f e v (length xs) dest m = Some (m(dest \<mapsto> four_lanes f e (quads f xs)))"
    using sum_7_loop_lanes [OF assms(1,4), of 0 f e e e e] p by (simp add: sum_7_def four_lanes_def Let_def)
  show ?thesis by (simp add: s1 s2 s3 s4 s5 s6 s7)
qed

text \<open>The operation of the instance, an addition followed by a division that rounds, is not associative, and the results differ.\<close>

theorem unrolled_sums_evaluate_witness:
  "list_all (\<lambda>(sum_k, y). sum_k (\<lambda>a b. (a + b) div 2) (0 :: int) 0 16 16 (\<lambda>a. if a < 17 then Some (int a * 8) else None) =
      Some ((\<lambda>a. if a < 17 then Some (int a * 8) else None)(16 \<mapsto> y)))
    [(sum_1, 112), (sum_2, 112), (sum_3, 112), (sum_4, 100), (sum_5, 78), (sum_6, 100), (sum_7, 32)]"
proof -
  let ?f = "\<lambda>a b. (a + b) div 2 :: int" let ?m = "\<lambda>a. if a < 17 then Some (int a * 8) else None"
  let ?xs = "[0, 8, 16, 24, 32, 40, 48, 56, 64, 72, 80, 88, 96, 104, 112, 120] :: int list"
  have h: "holds_array ?m 0 ?xs" by (simp add: holds_array_def upt_rec numeral_eq_Suc)
  have w: "foldl ?f 0 ?xs = 112" "two_lanes ?f 0 ?xs = 100" "four_lanes ?f 0 ?xs = 78" "foldl ?f 0 (pairs ?f ?xs) = 100" "four_lanes ?f 0 (quads ?f ?xs) = 32"
    and len: "length ?xs = 16" by code_simp+
  show ?thesis using unrolled_sums_evaluate [OF h, of 16 ?f 0] unfolding len w by (simp add: dom_def)
qed

text \<open>
  What happens for an odd length, as far as it is defined: the sums that unroll and test for room leave the last element out, those that do not test read past the array. \<open>sum_1\<close> into a cell of the
  array reads its own accumulator.
\<close>

theorem unrolled_sums_elsewhere:
  assumes "holds_array m v xs" "dest \<in> dom m" "odd (length xs)" "m (v + length xs) = None"
  shows "sum_3 f e v (length xs) dest m = None" "sum_6 f e v (length xs) dest m = None"
    "sum_4 f e v (length xs) dest m = Some (m(dest \<mapsto> two_lanes f e (butlast xs)))"
proof -
  show "sum_3 f e v (length xs) dest m = None" "sum_6 f e v (length xs) dest m = None"
    using sum_3_loop_past [OF assms(1), of 0] assms(3,4) by (simp_all add: sum_3_def sum_6_def)
  have "(length xs - 1) div 2 = length xs div 2" using assms(3) by (auto elim!: oddE)
  then have "lane 2 r (butlast xs) = lane 2 r xs" if "r < 2" for r
    using that assms(3) unfolding lane_def by (auto simp: nth_butlast)
  then show "sum_4 f e v (length xs) dest m = Some (m(dest \<mapsto> two_lanes f e (butlast xs)))"
    using sum_4_loop_lanes [OF assms(1), of 0 f e e] put_cell [OF assms(2)] by (simp add: sum_4_def two_lanes_def)
qed

lemma sum_1_aliased:
  "sum_1 (+) (0 :: int) 0 2 1 [0 \<mapsto> 5, 1 \<mapsto> 7] = Some [0 \<mapsto> 5, 1 \<mapsto> 10]" "sum_2 (+) (0 :: int) 0 2 1 [0 \<mapsto> 5, 1 \<mapsto> 7] = Some [0 \<mapsto> 5, 1 \<mapsto> 12]"
  by (auto simp: sum_1_def sum_2_def put_def upt_conv_Cons)

section \<open>The matrix\<close>

lemma row_loop_pairs:
  assumes "holds_array m mat xs" "q \<le> h" "(i + 1) * (2 * h) \<le> length xs"
  shows "row_loop f mat (2 * h) i (2 * q) m a = Some (foldl f a (take (h - q) (drop (i * h + q) (pairs f xs))))"
  using assms(2)
proof (induction "h - q" arbitrary: q a)
  case 0
  then show ?case by (simp add: row_loop.simps)
next
  case (Suc n)
  let ?k = "i * h + q"
  have q: "q < h" "h - q = Suc (h - Suc q)" using Suc.hyps(2) by simp_all
  then have k: "2 * ?k + 1 < length xs" using assms(3) by (simp add: algebra_simps)
  have at: "m (mat + i * (2 * h) + 2 * q) = Some (xs ! (2 * ?k))" "m (mat + i * (2 * h) + 2 * q + 1) = Some (xs ! (2 * ?k + 1))"
    using holds_array_nth [OF assms(1), of "2 * ?k"] holds_array_nth [OF assms(1), of "2 * ?k + 1"] k by (simp_all add: algebra_simps)
  have "row_loop f mat (2 * h) i (2 * Suc q) m b = Some (foldl f b (take (h - Suc q) (drop (i * h + Suc q) (pairs f xs))))" for b
    using Suc.hyps q(1) by (intro Suc.hyps(1)) simp_all
  then show ?case using q(1) at k by (simp add: row_loop.simps [of f mat _ i "2 * q"] q(2) drop_pairs [of ?k])
qed

lemma rows_loop_pairs:
  assumes "holds_array m mat xs" "n = 2 * h" "length xs = n * n" "i \<le> n"
  shows "rows_loop f mat n [i..<n] m a = Some (foldl f a (drop (i * h) (pairs f xs)))"
  using assms(4)
proof (induction "n - i" arbitrary: i a)
  case 0
  then show ?case using assms(2,3) by simp
next
  case (Suc k)
  then have i: "i < n" by simp
  then have "(i + 1) * (2 * h) \<le> length xs" using assms(2,3) by (metis Suc_eq_plus1 Suc_leI mult_le_mono1)
  then have "row_loop f mat n i 0 m a = Some (foldl f a (take h (drop (i * h) (pairs f xs))))" using row_loop_pairs [OF assms(1), of 0 h i f a] assms(2) by simp
  moreover have "drop (i * h) (pairs f xs) = take h (drop (i * h) (pairs f xs)) @ drop (Suc i * h) (pairs f xs)"
    using append_take_drop_id [of h "drop (i * h) (pairs f xs)"] by (simp add: add.commute)
  ultimately show ?case using Suc.hyps(1) [of "Suc i"] Suc.hyps(2) i by (simp add: upt_conv_Cons) (metis foldl_append)
qed

text \<open>For an even \<open>n\<close> the matrix sum combines the sums of the pairs of the whole matrix from the left, again for every operation.\<close>

theorem matrix_sum_complete:
  assumes "holds_array m mat xs" "even n" "length xs = n * n"
  shows "sum_flat_rowmajor f e mat n m = Some (foldl f e (pairs f xs))"
proof -
  obtain h where "n = 2 * h" using assms(2) by (rule evenE)
  then show ?thesis using rows_loop_pairs [OF assms(1) _ assms(3), of h 0] by (simp add: sum_flat_rowmajor_def)
qed

end
