(* ===== verification/Spec2Isabelle.thy ===== *)
theory Spec2Isabelle
  imports Pipeline Mpsc_Queue Mpmc_Progress Books_Correct Device_Correct Allocators_Correct Framing Echo_Servers Thread_Pool
    Flow_Correct Spsc_Variants Spsc_Linked Lock_Free_Stack Prod_Cons Stream_Receiver Multicast Engine_Output Spin_Pool
    Allocator_Workload Dispatch Vector_Growth Counters Unrolled
begin

text \<open>
  A verification of the programs of this repository: an order book with its matching engine, wire protocol, queues, allocator and network
  devices (\<open>src/4_order_book_proj\<close>), a series of memory allocators (\<open>src/1_mem_allocator\<close>, \<open>src/2_cpp_basics/0_bump_allocator\<close>), concurrent
  queues and a thread pool (\<open>src/2_cpp_basics\<close>), and small network servers (\<open>src/3_machine_below/3_event_poll\<close>, \<open>src/5_network\<close>).

  \<^bold>\<open>The order book program.\<close> \<open>main.cpp\<close> runs three threads: a reader takes messages from a network device and enqueues them in one
  queue, the engine dequeues them, matches orders and enqueues responses in a second queue, a writer hands the responses to the device.
  \<^item> \<open>Prelude\<close>: words, outcomes of fallible code, lists and maps shared by all theories.
  \<^item> \<open>Messages\<close> (\<open>messages.hpp\<close>, \<open>message.cpp\<close>): every builder, view and accessor over byte lists, big-endian loads and stores; setters and
    getters are inverse through \<open>decode\<close>.
  \<^item> \<open>Pool_Allocator\<close> (\<open>allocator.hpp\<close>): the free list through the slots; contract of allocate and deallocate for any sequence of calls.
  \<^item> \<open>Intrusive_List\<close>, \<open>Levels\<close>, \<open>Engine\<close> (\<open>engine.hpp\<close>): the engine with its price levels, doubly linked lists, order index, cursors and pool;
    an access out of bounds is the outcome \<open>Undef\<close>, \<open>std::invalid_argument\<close> is an exception. \<open>Matching_Spec\<close> is the abstract
    book: two lists in price-time priority. \<open>Engine_Memory\<close>, \<open>Engine_Book\<close>, \<open>Engine_Refinement\<close>, \<open>Engine_Events\<close> and \<open>Matching_Props\<close> relate the
    two; \<open>Engine_Correct\<close> has the properties. \<open>Engine_Output\<close>: whatever the engine is
    sent, its messages have the right size, type byte and layout.
  \<^item> \<open>Ring_Buffer\<close>, \<open>Shared_Ring\<close>, \<open>Ring_Threads\<close>, \<open>Spsc_Queue\<close>, \<open>Mpsc_Queue\<close> (\<open>queues.hpp\<close>, \<open>queues_impl.hpp\<close>) and \<open>Mpmc_Queue\<close>
    (\<open>2_cpp_basics/3_lock_free/2_mpmc_queue\<close>): the sequence-numbered rings, split into single accesses of memory, for any interleaving. The
    locale of \<open>Shared_Ring\<close> states the contract of a ring; the three queues interpret it. Counters are 64-bit words; the theorems
    are for fewer than 2 ^ 64 (or 2 ^ 63, where the outcome depends on the sign of a difference) claims, and for rings of at least two cells. Signed differences are
    taken in 64 bits; below 2 ^ 63 claims they do not overflow.
  \<^item> \<open>Network_Device\<close>, \<open>Uring_Device\<close>, \<open>Device_Correct\<close> (\<open>network_device.hpp\<close>): both devices; the answers of the kernel are a parameter, or
    the choice of a step.
  \<^item> \<open>Pipeline\<close> (\<open>main.cpp\<close>): the three threads over the two queues; what the writer receives is what the abstract book answers.
  \<^item> \<open>Limit_Book\<close>, \<open>Sorted_Vector_Book\<close>, \<open>Block_Heap\<close>, \<open>List_Book\<close>, \<open>Tick_Offset_Book\<close>, \<open>Books_Correct\<close> (\<open>data_structure_bench\<close>): three books behind one
    interface, a locale that each interprets; the address \<open>new\<close> returns is a parameter.
  \<^item> \<open>Flow_Generator\<close>, \<open>Flow_Correct\<close> (\<open>benchmark/engine_flow_generator.hpp\<close>): the generator of the benchmark messages, which simulates the book with an
    unordered vector of open orders. The source of random numbers is a parameter: it draws inside the range asked for (\<open>in_range\<close>) and, for the two
    loops that draw again, every value comes up again and again (\<open>every_value\<close>). Then the generator ends and the engine agrees with its simulation.

  \<^bold>\<open>The allocators.\<close> \<open>Allocator_Interface\<close> is the contract of an allocator, as a locale, with a client that allocates, stores, frees and
  resets: its blocks are disjoint, inside the region and keep their contents. \<open>Heap_Layout\<close> is the memory with headers and footers.
  \<open>Coalesce_Allocator\<close>, \<open>Simple_Allocators\<close> (bump and implicit list), \<open>Free_Ring\<close> with \<open>Explicit_Allocator\<close> (the circular free list inside the
  free blocks), \<open>Improved_Allocator\<close> (metadata apart) and \<open>Arena_Allocator\<close> interpret the locale; \<open>Allocators_Correct\<close> has the properties. Memory
  maps addresses to words; the tests of the code against the end of a region wrap around at 2 ^ 64. In the coalescing allocator a store outside the region, which such a
  request causes, is an invalid access (\<open>None\<close>). The theorems about clients assume regions below 2 ^ 63 and requests of at least one and less than 2 ^ 62 bytes; those about
  the explicit list also that the static \<open>HEAD\<close> is null at the initialisation, as it is for the first allocator of a program. What happens otherwise is shown next to them. The search
  of the explicit list is a \<open>partial_function\<close>, proved to return. \<open>Allocator_Workload\<close>
  is the program of \<open>1_mem_allocator/perf\<close> over the implicit list: none of its allocations fails.

  \<^bold>\<open>Servers and threads.\<close> \<open>Decimal\<close> and \<open>Framing\<close> (\<open>5_network/framing\<close>): the length-prefixed protocol for any segmentation of the stream.
  \<open>Echo_Servers\<close>: the epoll and the io_uring echo server, with short sends. \<open>Thread_Pool\<close> (\<open>2_cpp_basics/4_thread_pool/th_pool.cpp\<close>): workers with work
  stealing, the condition variable with spurious wake-ups, and the destructor. \<open>Spin_Pool\<close> (\<open>pool_test2.cpp\<close>): the pool that
  waits busily, whose futures become ready and whose destructor races with the workers. \<open>Stream_Receiver\<close> (\<open>5_network/multi_thread_rx\<close>): the reassembly of messages
  from several connections. \<open>Multicast\<close> (\<open>5_network/udp_mcast\<close>): numbered datagrams and the detection of gaps.

  \<^bold>\<open>Concurrent containers.\<close> \<open>Spsc_Program\<close> is the test program of the three queues of \<open>2_cpp_basics/3_lock_free/1_spsc_queue\<close> over a contract of a
  queue, a locale; \<open>Spsc_Variants\<close> (mutex, ring) and \<open>Spsc_Linked\<close> (linked nodes on an explicit heap) interpret it, so that its assertions hold for all
  three. \<open>Mpmc_Program\<close> is the program of \<open>mpmc.cpp\<close> and its assertion, with the integers at their widths, \<open>Mpmc_Progress\<close> that every
  reachable state can still finish. \<open>Lock_Free_Stack\<close>: the stack of \<open>0_lock_free_stack\<close> is linearizable;
  a node that a thread still holds is not freed, since the pointers are shared. \<open>Prod_Cons\<close> (\<open>2_prod_cons_mutex\<close>): the stack with a condition
  variable, the counter, and a producer and a consumer.

  \<^bold>\<open>Routines.\<close> \<open>Kernels\<close> (\<open>3_machine_below/1_performance_atlas\<close>, \<open>2_compiler_atlas\<close>): the variants of a routine that the programs compare return the
  same results, where signed overflow, access out of range and overlapping restricted pointers are undefined. \<open>Dispatch\<close>: virtual, final and static calls,
  inlined and separate functions. \<open>Vector_Growth\<close> (\<open>4_noexcept.cpp\<close>): a vector that copies or moves its elements when it grows, with failing allocations.
  \<open>Counters\<close> (\<open>5_false_sharing.cpp\<close>): two threads on atomic counters. \<open>Unrolled\<close> (\<open>1_mem_allocator/theory/performance.c\<close>, \<open>bench.c\<close>): seven unrolled
  sums over a store in which the destination may lie in the array; the arithmetic of doubles is a parameter of which no law is assumed, so the theorems say in which order and grouping the elements are combined.

  \<^bold>\<open>Not modelled.\<close> Tests (other than the programs named above), benchmarks of the order book and the allocators, and the harness of \<open>3_machine_below/1_performance_atlas\<close>,
  \<open>2_compiler_atlas\<close> and \<open>1_mem_allocator/theory\<close>, which repeats the modelled routines and reads the clock: the model has no time. \<open>2_cpp_basics/1_hello_world\<close>, \<open>tooling_tests\<close>
  and the three small programs of \<open>theory\<close> on constant inputs. The kernel, liburing, mmap and
  the C++ library are parameters or are modelled as far as the code uses them. The memory order of atomics is not modelled: steps are
  sequentially consistent, and the absence of data races on plain data is proved. Output on the terminal is modelled only where it is the
  result of a program (\<open>Framing\<close>, \<open>Stream_Receiver\<close>, \<open>Multicast\<close>, \<open>Prod_Cons\<close>).
\<close>

end
